(* ===== verification/Prelude.thy ===== *)
theory Prelude
  imports Main
begin

text \<open>
  The generic layer of the development: bytes and byte buffers, little-endian integer
  codecs, and the loop combinator that models a C++ \<^verbatim>\<open>for\<close> loop with an early return.

  A byte is a \<^typ>\<open>char\<close>: the code keeps page images, records and strings in
  \<^verbatim>\<open>char\<close> arrays and copies them with \<^verbatim>\<open>memcpy\<close>, so the same type serves all three.
  A buffer is a list of bytes. \<open>mem_read\<close> and \<open>mem_write\<close> are the
  two directions of \<^verbatim>\<open>memcpy\<close>; a write that would leave the buffer changes its length, so
  every length-preservation lemma is also a bounds check.
\<close>

section \<open>Collections of facts\<close>

named_theorems buf_simps \<open>reads and writes of byte buffers\<close>
named_theorems layout_simps \<open>physical layout constants\<close>

section \<open>Bytes and buffers\<close>

type_synonym byte = char

abbreviation zero_byte :: byte where "zero_byte \<equiv> CHR 0x00"

definition mem_read :: "byte list \<Rightarrow> nat \<Rightarrow> nat \<Rightarrow> byte list" where
  "mem_read data off n = take n (drop off data)"

definition mem_write :: "byte list \<Rightarrow> nat \<Rightarrow> byte list \<Rightarrow> byte list" where
  "mem_write data off bs = take off data @ bs @ drop (off + length bs) data"

lemma length_mem_read [buf_simps]:
  "length (mem_read data off n) = min n (length data - off)"
  by (simp add: mem_read_def min.commute)

lemma length_mem_write [buf_simps]:
  "off + length bs \<le> length data \<Longrightarrow> length (mem_write data off bs) = length data"
  by (simp add: mem_write_def)

lemma length_mem_write_max:
  "off \<le> length data \<Longrightarrow>
   length (mem_write data off bs) = max (length data) (off + length bs)"
  by (simp add: mem_write_def)

lemma mem_write_Nil [simp]: "mem_write data off [] = data"
  by (simp add: mem_write_def)

lemma mem_read_0 [simp]: "mem_read data off 0 = []"
  by (simp add: mem_read_def)

lemma mem_read_write_inside:
  assumes "off \<le> length data" "off \<le> i" "i + n \<le> off + length bs"
  shows "mem_read (mem_write data off bs) i n = mem_read bs (i - off) n"
  using assms by (simp add: mem_read_def mem_write_def)

lemma mem_read_write_same [buf_simps]:
  "off \<le> length data \<Longrightarrow> n = length bs \<Longrightarrow> mem_read (mem_write data off bs) off n = bs"
  by (simp add: mem_read_def mem_write_def)

lemma mem_read_write_before:
  "i + n \<le> off \<Longrightarrow> off \<le> length data \<Longrightarrow> mem_read (mem_write data off bs) i n = mem_read data i n"
  by (simp add: mem_read_def mem_write_def take_drop)

lemma mem_read_write_after:
  assumes "off + length bs \<le> i" "off \<le> length data"
  shows "mem_read (mem_write data off bs) i n = mem_read data i n"
proof -
  have "off + length bs + (i - (off + length bs)) = i" using assms by simp
  then show ?thesis using assms by (simp add: mem_read_def mem_write_def)
qed

lemma mem_read_write_other:
  assumes "i + n \<le> off \<or> off + length bs \<le> i" "off \<le> length data"
  shows "mem_read (mem_write data off bs) i n = mem_read data i n"
  using assms mem_read_write_before mem_read_write_after by blast

lemma mem_read_mem_read:
  "j + m \<le> n \<Longrightarrow> mem_read (mem_read data i n) j m = mem_read data (i + j) m"
  by (simp add: mem_read_def take_drop add.commute min_def)

lemma mem_read_append_left:
  "i + n \<le> length xs \<Longrightarrow> mem_read (xs @ ys) i n = mem_read xs i n"
  by (simp add: mem_read_def)

lemma mem_read_append_right:
  "length xs \<le> i \<Longrightarrow> mem_read (xs @ ys) i n = mem_read ys (i - length xs) n"
  by (simp add: mem_read_def)

lemma mem_read_all: "length xs \<le> n \<Longrightarrow> mem_read xs 0 n = xs"
  by (simp add: mem_read_def)

lemma mem_read_replicate:
  "i + n \<le> k \<Longrightarrow> mem_read (replicate k b) i n = replicate n b"
  by (simp add: mem_read_def)

lemma mem_write_self: "off + n \<le> length d \<Longrightarrow> mem_write d off (mem_read d off n) = d"
proof -
  assume "off + n \<le> length d"
  then have "mem_write d off (mem_read d off n) =
      take off d @ take n (drop off d) @ drop n (drop off d)"
    by (simp add: mem_write_def mem_read_def add.commute)
  then show ?thesis by (simp only: append_take_drop_id)
qed

section \<open>Little-endian integers\<close>

text \<open>\<open>le_bytes w v\<close> is the \<open>w\<close>-byte little-endian image of \<open>v\<close> (truncated to
  \<open>w\<close> bytes, as a cast to the narrower unsigned type truncates); \<open>le_nat\<close> reads an image
  back.\<close>

fun le_bytes :: "nat \<Rightarrow> nat \<Rightarrow> byte list" where
  "le_bytes 0 v = []"
| "le_bytes (Suc w) v = char_of v # le_bytes w (v div 256)"

fun le_nat :: "byte list \<Rightarrow> nat" where
  "le_nat [] = 0"
| "le_nat (b # bs) = of_char b + 256 * le_nat bs"

lemma length_le_bytes [simp]: "length (le_bytes w v) = w"
  by (induction w arbitrary: v) auto

lemma le_nat_le_bytes: "le_nat (le_bytes w v) = v mod 256 ^ w"
proof (induction w arbitrary: v)
  case (Suc w)
  then show ?case by (simp add: mod_mult2_eq)
qed simp

lemma digit_bound: "b < 256 \<Longrightarrow> n < p \<Longrightarrow> b + 256 * n < 256 * (p::nat)"
  by linarith

lemma le_nat_bound: "le_nat bs < 256 ^ length bs"
  by (induction bs) (auto intro: digit_bound)

lemma char_of_add_256: "char_of (of_char b + 256 * n :: nat) = b"
proof -
  have "char_of ((of_char b + 256 * n) mod 256 :: nat) = b" by simp
  then show ?thesis by (simp only: char_of_mod_256)
qed

lemma le_bytes_le_nat: "le_bytes (length bs) (le_nat bs) = bs"
  by (induction bs) (auto simp: char_of_add_256)

lemma le_bytes_eq: "length bs = w \<Longrightarrow> le_bytes w (le_nat bs) = bs"
  using le_bytes_le_nat by blast

lemma le_nat_replicate_zero [simp]: "le_nat (replicate n zero_byte) = 0"
  by (induction n) auto

lemma le_bytes_0 [simp]: "le_bytes w 0 = replicate w zero_byte"
  by (induction w) (auto simp: char_of_def)

text \<open>Conversions to the C++ unsigned types, with the wrap-around written out, and the signed
  32-bit type in two's complement.\<close>

definition u8 :: "int \<Rightarrow> nat" where "u8 x = nat (x mod 256)"

definition u16 :: "int \<Rightarrow> nat" where "u16 x = nat (x mod 65536)"

definition u32 :: "int \<Rightarrow> nat" where "u32 x = nat (x mod 4294967296)"

definition i32 :: "nat \<Rightarrow> int" where
  "i32 n = (if n < 2147483648 then int n else int n - 4294967296)"

definition is_i32 :: "int \<Rightarrow> bool" where
  "is_i32 x \<longleftrightarrow> -2147483648 \<le> x \<and> x < 2147483648"

lemma u16_id [simp]: "n < 65536 \<Longrightarrow> u16 (int n) = n"
  by (simp add: u16_def)

lemma u16_diff: "m \<le> n \<Longrightarrow> n < 65536 \<Longrightarrow> u16 (int n - int m) = n - m"
  by (simp add: u16_def)

lemma u16_less [simp]: "u16 x < 65536"
  by (simp add: u16_def nat_less_iff)

lemma u32_less [simp]: "u32 x < 4294967296"
  by (simp add: u32_def nat_less_iff)

lemma i32_u32: "is_i32 x \<Longrightarrow> i32 (u32 x) = x"
proof (cases "x < 0")
  case True
  assume "is_i32 x"
  then have "(x + 4294967296) mod 4294967296 = x + 4294967296"
    using True by (intro mod_pos_pos_trivial) (auto simp: is_i32_def)
  then have "x mod 4294967296 = x + 4294967296" by simp
  then show ?thesis using \<open>is_i32 x\<close> True by (simp add: i32_def u32_def is_i32_def)
next
  case False
  assume "is_i32 x"
  then show ?thesis using False by (simp add: i32_def u32_def is_i32_def)
qed

lemma u32_i32: "n < 4294967296 \<Longrightarrow> u32 (i32 n) = n"
  by (auto simp: u32_def i32_def mod_diff_eq[symmetric] nat_mod_as_int)

lemma is_i32_i32: "n < 4294967296 \<Longrightarrow> is_i32 (i32 n)"
  by (auto simp: is_i32_def i32_def)

section \<open>Typed access to a buffer\<close>

text \<open>
  The function templates \<^verbatim>\<open>ReadValue<T>\<close> and \<^verbatim>\<open>WriteValue<T>\<close> (storage/slotted_page.cpp,
  index/bucket_page.cpp, index/hash_index_header_page.cpp) at the three types the formats use.
\<close>

definition ReadValue_u16 :: "byte list \<Rightarrow> nat \<Rightarrow> nat" where
  "ReadValue_u16 data off = le_nat (mem_read data off 2)"

definition WriteValue_u16 :: "byte list \<Rightarrow> nat \<Rightarrow> nat \<Rightarrow> byte list" where
  "WriteValue_u16 data off v = mem_write data off (le_bytes 2 v)"

definition ReadValue_u32 :: "byte list \<Rightarrow> nat \<Rightarrow> nat" where
  "ReadValue_u32 data off = le_nat (mem_read data off 4)"

definition WriteValue_u32 :: "byte list \<Rightarrow> nat \<Rightarrow> nat \<Rightarrow> byte list" where
  "WriteValue_u32 data off v = mem_write data off (le_bytes 4 v)"

definition ReadValue_i32 :: "byte list \<Rightarrow> nat \<Rightarrow> int" where
  "ReadValue_i32 data off = i32 (le_nat (mem_read data off 4))"

definition WriteValue_i32 :: "byte list \<Rightarrow> nat \<Rightarrow> int \<Rightarrow> byte list" where
  "WriteValue_i32 data off v = mem_write data off (le_bytes 4 (u32 v))"

text \<open>
  The contract the two templates share: a write stays inside the buffer, reading back gives the
  value written, and a write leaves every disjoint region alone. Its client lemmas are what the
  page formats use.
\<close>

locale value_io =
  fixes width :: nat
    and enc :: "'v \<Rightarrow> byte list"
    and dec :: "byte list \<Rightarrow> 'v"
    and valid :: "'v \<Rightarrow> bool"
    and rd :: "byte list \<Rightarrow> nat \<Rightarrow> 'v"
    and wr :: "byte list \<Rightarrow> nat \<Rightarrow> 'v \<Rightarrow> byte list"
  assumes enc_length: "length (enc v) = width"
    and dec_enc: "valid v \<Longrightarrow> dec (enc v) = v"
    and enc_dec: "length bs = width \<Longrightarrow> enc (dec bs) = bs"
    and read_eq: "rd d off = dec (mem_read d off width)"
    and write_eq: "wr d off v = mem_write d off (enc v)"
begin

lemma write_length: "off + width \<le> length d \<Longrightarrow> length (wr d off v) = length d"
  by (simp add: write_eq length_mem_write enc_length)

lemma read_write: "valid v \<Longrightarrow> off \<le> length d \<Longrightarrow> rd (wr d off v) off = v"
  by (simp add: read_eq write_eq mem_read_write_same enc_length dec_enc)

lemma read_mem_write:
  "i + width \<le> off \<or> off + length bs \<le> i \<Longrightarrow> off \<le> length d \<Longrightarrow>
   rd (mem_write d off bs) i = rd d i"
  by (simp add: read_eq mem_read_write_other)

lemma mem_read_write:
  "i + n \<le> off \<or> off + width \<le> i \<Longrightarrow> off \<le> length d \<Longrightarrow>
   mem_read (wr d off v) i n = mem_read d i n"
  by (simp add: write_eq mem_read_write_other enc_length)

lemma read_write_other:
  "i + width \<le> off \<or> off + width \<le> i \<Longrightarrow> off \<le> length d \<Longrightarrow>
   rd (wr d off v) i = rd d i"
  by (simp add: read_eq mem_read_write)

lemma write_read: "off + width \<le> length d \<Longrightarrow> wr d off (rd d off) = d"
  by (simp add: read_eq write_eq enc_dec length_mem_read mem_write_self)

lemma read_cong: "mem_read d i width = mem_read d' j width \<Longrightarrow> rd d i = rd d' j"
  by (simp add: read_eq)

end

interpretation io_u16: value_io 2 "le_bytes 2" le_nat "\<lambda>v. v < 65536"
    ReadValue_u16 WriteValue_u16
  by unfold_locales (auto simp: le_nat_le_bytes le_bytes_eq ReadValue_u16_def WriteValue_u16_def)

interpretation io_u32: value_io 4 "le_bytes 4" le_nat "\<lambda>v. v < 4294967296"
    ReadValue_u32 WriteValue_u32
  by unfold_locales (auto simp: le_nat_le_bytes le_bytes_eq ReadValue_u32_def WriteValue_u32_def)

interpretation io_i32: value_io 4 "\<lambda>v. le_bytes 4 (u32 v)" "\<lambda>bs. i32 (le_nat bs)" is_i32
    ReadValue_i32 WriteValue_i32
proof unfold_locales
  fix bs :: "byte list"
  assume len: "length bs = 4"
  then have "le_nat bs < 4294967296" using le_nat_bound[of bs] by simp
  then show "le_bytes 4 (u32 (i32 (le_nat bs))) = bs" using len by (simp add: u32_i32 le_bytes_eq)
qed (auto simp: le_nat_le_bytes ReadValue_i32_def WriteValue_i32_def i32_u32)

text \<open>Writes of one type seen through reads of another.\<close>

lemma read_write_cross [buf_simps]:
  "i + 2 \<le> off \<or> off + 4 \<le> i \<Longrightarrow> off \<le> length d \<Longrightarrow>
     ReadValue_u16 (WriteValue_i32 d off v) i = ReadValue_u16 d i"
  "i + 2 \<le> off \<or> off + 4 \<le> i \<Longrightarrow> off \<le> length d \<Longrightarrow>
     ReadValue_u16 (WriteValue_u32 d off w) i = ReadValue_u16 d i"
  "i + 4 \<le> off \<or> off + 2 \<le> i \<Longrightarrow> off \<le> length d \<Longrightarrow>
     ReadValue_i32 (WriteValue_u16 d off w) i = ReadValue_i32 d i"
  "i + 4 \<le> off \<or> off + 4 \<le> i \<Longrightarrow> off \<le> length d \<Longrightarrow>
     ReadValue_i32 (WriteValue_u32 d off w) i = ReadValue_i32 d i"
  "i + 4 \<le> off \<or> off + 2 \<le> i \<Longrightarrow> off \<le> length d \<Longrightarrow>
     ReadValue_u32 (WriteValue_u16 d off w) i = ReadValue_u32 d i"
  "i + 4 \<le> off \<or> off + 4 \<le> i \<Longrightarrow> off \<le> length d \<Longrightarrow>
     ReadValue_u32 (WriteValue_i32 d off v) i = ReadValue_u32 d i"
  by (simp_all add: io_u16.read_eq io_u32.read_eq io_i32.read_eq
      io_u16.mem_read_write io_u32.mem_read_write io_i32.mem_read_write)

lemmas io_simps [buf_simps] =
  io_u16.write_length io_u32.write_length io_i32.write_length
  io_u16.read_write io_u32.read_write io_i32.read_write
  io_u16.read_write_other io_u32.read_write_other io_i32.read_write_other
  io_u16.read_mem_write io_u32.read_mem_write io_i32.read_mem_write
  io_u16.mem_read_write io_u32.mem_read_write io_i32.mem_read_write

lemma ReadValue_u16_less [simp]: "ReadValue_u16 d off < 65536"
proof -
  have "le_nat (mem_read d off 2) < 256 ^ length (mem_read d off 2)" by (rule le_nat_bound)
  also have "\<dots> \<le> 256 ^ 2" by (rule power_increasing) (auto simp: length_mem_read)
  finally show ?thesis by (simp add: ReadValue_u16_def)
qed

lemma is_i32_ReadValue_i32 [simp]: "is_i32 (ReadValue_i32 d off)"
proof -
  have "le_nat (mem_read d off 4) < 256 ^ length (mem_read d off 4)" by (rule le_nat_bound)
  also have "\<dots> \<le> 256 ^ 4" by (rule power_increasing) (auto simp: length_mem_read)
  finally show ?thesis by (simp add: ReadValue_i32_def is_i32_i32)
qed

lemma read_zero_page [buf_simps]:
  "off + 2 \<le> n \<Longrightarrow> ReadValue_u16 (replicate n zero_byte) off = 0"
  "off + 4 \<le> n \<Longrightarrow> ReadValue_u32 (replicate n zero_byte) off = 0"
  "off + 4 \<le> n \<Longrightarrow> ReadValue_i32 (replicate n zero_byte) off = 0"
  by (simp_all add: ReadValue_u16_def ReadValue_u32_def ReadValue_i32_def mem_read_replicate i32_def)

section \<open>Loops with an early return\<close>

text \<open>\<open>for_each step xs s\<close> runs \<open>step x\<close> for the elements of \<open>xs\<close> in order on a state; the first
  \<open>Inl\<close> stops the loop, as a \<^verbatim>\<open>return\<close> in the body does.\<close>

fun for_each :: "('a \<Rightarrow> 's \<Rightarrow> 'e + 's) \<Rightarrow> 'a list \<Rightarrow> 's \<Rightarrow> 'e + 's" where
  "for_each step [] s = Inr s"
| "for_each step (x # xs) s =
     (case step x s of Inl e \<Rightarrow> Inl e | Inr s' \<Rightarrow> for_each step xs s')"

lemma for_each_append:
  "for_each step (xs @ ys) s =
     (case for_each step xs s of Inl e \<Rightarrow> Inl e | Inr s' \<Rightarrow> for_each step ys s')"
  by (induction xs arbitrary: s) (auto split: sum.splits)

lemma for_each_upt_Suc:
  "for_each step [0..<Suc n] s =
     (case for_each step [0..<n] s of Inl e \<Rightarrow> Inl e | Inr s' \<Rightarrow> step n s')"
  by (simp add: for_each_append split: sum.splits)

lemma for_each_cong [fundef_cong]:
  "xs = ys \<Longrightarrow> s = t \<Longrightarrow> (\<And>x u. x \<in> set ys \<Longrightarrow> f x u = g x u) \<Longrightarrow> for_each f xs s = for_each g ys t"
  by (induction xs arbitrary: ys s t) (auto split: sum.splits)

lemma for_each_invariant:
  assumes "for_each step xs s = Inr s'" and "I s"
    and "\<And>x u u'. x \<in> set xs \<Longrightarrow> I u \<Longrightarrow> step x u = Inr u' \<Longrightarrow> I u'"
  shows "I s'"
  using assms
proof (induction xs arbitrary: s)
  case (Cons x xs)
  from Cons.prems(1) obtain u where u: "step x s = Inr u" "for_each step xs u = Inr s'"
    by (auto split: sum.splits)
  have "I u" using Cons.prems(2,3) u(1) by auto
  then show ?case using Cons.IH[OF u(2)] Cons.prems(3) by (meson list.set_intros(2))
qed simp

lemma for_each_error:
  assumes "for_each step xs s = Inl e"
    and "\<And>x u e. x \<in> set xs \<Longrightarrow> step x u = Inl e \<Longrightarrow> P e"
  shows "P e"
  using assms
proof (induction xs arbitrary: s)
  case (Cons x xs)
  show ?case
  proof (cases "step x s")
    case (Inl e')
    then show ?thesis using Cons.prems by auto
  next
    case (Inr u)
    then have "for_each step xs u = Inl e" using Cons.prems(1) by simp
    then show ?thesis using Cons.IH Cons.prems(2) by (meson list.set_intros(2))
  qed
qed simp

section \<open>Lists\<close>

lemma sum_list_map_upt_Suc:
  "sum_list (map f [0..<Suc n]) = sum_list (map f [0..<n]) + (f n :: nat)"
  by simp

lemma list_eq_map_nth: "map (\<lambda>i. xs ! i) [0..<length xs] = xs"
  by (rule map_nth)

lemma map_upt_eqI:
  assumes "length xs = n" "\<And>i. i < n \<Longrightarrow> f i = xs ! i"
  shows "map f [0..<n] = xs"
  using assms by (auto intro!: nth_equalityI)

end
