(* ===== verification/Common.thy ===== *)
theory Common
  imports Prelude
begin

text \<open>
  The vocabulary every component shares: status codes and statuses (common/status.h), the integer
  types, page size and record identifiers (common/types.h, common/config.h), the buffer frame
  \<^verbatim>\<open>Page\<close> (storage/page.h), records (storage/record.h) and schemas (catalog/schema.h).

  A \<^verbatim>\<open>PageId\<close> is an \<^typ>\<open>int\<close>: the code compares it with \<open>0\<close> and \<open>-1\<close>, and where it is stored in
  a page it goes through the 32-bit image of \<^const>\<open>WriteValue_i32\<close>. Unsigned 16-bit fields
  are \<^typ>\<open>nat\<close> with the casts written out (\<^const>\<open>u16\<close>). An operation that fails without touching its
  object returns \<open>Inl\<close> of its status; one that may fail after a change returns the status beside
  the new state.
\<close>

section \<open>Status\<close>

datatype status_code = OK | NOT_FOUND | INVALID_ARGUMENT | IO_ERROR | OUT_OF_MEMORY | PAGE_PINNED

datatype status = Status (status_code: status_code) (status_message: string)

type_synonym 'a result = "status + 'a"

definition Status_OK :: status where "Status_OK = Status OK ''''"

definition NotFound :: "string \<Rightarrow> status" where "NotFound msg = Status NOT_FOUND msg"

definition IOError :: "string \<Rightarrow> status" where "IOError msg = Status IO_ERROR msg"

definition OutOfMemory :: "string \<Rightarrow> status" where "OutOfMemory msg = Status OUT_OF_MEMORY msg"

abbreviation InvalidArgument :: "string \<Rightarrow> status" where
  "InvalidArgument msg \<equiv> Status INVALID_ARGUMENT msg"

definition status_ok :: "status \<Rightarrow> bool" where
  "status_ok st \<longleftrightarrow> status_code st = OK"

lemma status_ok_simps [simp]:
  "status_ok Status_OK" "\<not> status_ok (NotFound m)" "\<not> status_ok (IOError m)"
  "\<not> status_ok (OutOfMemory m)" "status_ok (Status c m) \<longleftrightarrow> c = OK"
  by (simp_all add: status_ok_def Status_OK_def NotFound_def IOError_def OutOfMemory_def)

lemma status_code_simps [simp]:
  "status_code Status_OK = OK" "status_code (NotFound m) = NOT_FOUND"
  "status_code (IOError m) = IO_ERROR" "status_code (OutOfMemory m) = OUT_OF_MEMORY"
  by (simp_all add: Status_OK_def NotFound_def IOError_def OutOfMemory_def)

text \<open>The status a fallible operation reports.\<close>

definition result_status :: "'a result \<Rightarrow> status" where
  "result_status r = (case r of Inl st \<Rightarrow> st | Inr _ \<Rightarrow> Status_OK)"

lemma result_status_simps [simp]:
  "result_status (Inl st) = st" "result_status (Inr x) = Status_OK"
  by (simp_all add: result_status_def)

section \<open>Types and constants\<close>

type_synonym page_id = int
type_synonym frame_id = int
type_synonym slot_id = nat

definition PAGE_SIZE :: nat where [layout_simps]: "PAGE_SIZE = 4096"

definition INVALID_PAGE_ID :: page_id where [layout_simps]: "INVALID_PAGE_ID = -1"

definition INVALID_FRAME_ID :: frame_id where [layout_simps]: "INVALID_FRAME_ID = -1"

definition DEFAULT_BUFFER_POOL_SIZE :: nat where "DEFAULT_BUFFER_POOL_SIZE = 10"

definition HEADER_PAGE_ID :: page_id where [layout_simps]: "HEADER_PAGE_ID = 0"

datatype record_id = RecordID (rid_page: page_id) (rid_slot: slot_id)

definition default_rid :: record_id where "default_rid = RecordID INVALID_PAGE_ID 0"

text \<open>Record identifiers in page-then-slot order, the order of a file scan that meets its pages
  in ascending order.\<close>

instantiation record_id :: linorder
begin

definition less_eq_record_id :: "record_id \<Rightarrow> record_id \<Rightarrow> bool" where
  "less_eq_record_id r s \<longleftrightarrow>
     rid_page r < rid_page s \<or> (rid_page r = rid_page s \<and> rid_slot r \<le> rid_slot s)"

definition less_record_id :: "record_id \<Rightarrow> record_id \<Rightarrow> bool" where
  "less_record_id r s \<longleftrightarrow>
     rid_page r < rid_page s \<or> (rid_page r = rid_page s \<and> rid_slot r < rid_slot s)"

instance
  by standard
     (auto simp: less_eq_record_id_def less_record_id_def record_id.expand)

end

section \<open>Pages and records\<close>

record page =
  page_data :: "byte list"
  page_pid :: page_id
  pin_count :: int
  is_dirty :: bool

definition zero_page :: "byte list" where "zero_page = replicate PAGE_SIZE zero_byte"

lemma length_zero_page [simp]: "length zero_page = PAGE_SIZE"
  by (simp add: zero_page_def)

definition ResetMemory :: "page \<Rightarrow> page" where
  "ResetMemory p =
     p\<lparr>page_data := zero_page, page_pid := INVALID_PAGE_ID, pin_count := 0, is_dirty := False\<rparr>"

definition new_Page :: page where
  "new_Page = \<lparr>page_data = zero_page, page_pid = INVALID_PAGE_ID, pin_count = 0, is_dirty = False\<rparr>"

datatype db_record = Record (rec_rid: record_id) (rec_data: "byte list")

definition GetSize :: "db_record \<Rightarrow> nat" where "GetSize r = length (rec_data r)"

definition empty_record :: db_record where "empty_record = Record default_rid []"

definition SetRecordID :: "db_record \<Rightarrow> record_id \<Rightarrow> db_record" where
  "SetRecordID r rid = Record rid (rec_data r)"

definition SetData :: "db_record \<Rightarrow> byte list \<Rightarrow> db_record" where
  "SetData r data = Record (rec_rid r) data"

lemma SetRecordID_simps [simp]:
  "rec_rid (SetRecordID r rid) = rid" "rec_data (SetRecordID r rid) = rec_data r"
  "rec_rid (SetData r d) = rec_rid r" "rec_data (SetData r d) = d"
  by (simp_all add: SetRecordID_def SetData_def)

section \<open>Schemas\<close>

datatype type_id = INTEGER | VARCHAR | BOOLEAN

record column =
  col_name :: string
  col_type :: type_id
  col_length :: nat

type_synonym schema = "column list"

end
