(* ===== verification/Slotted_Page_Correct.thy ===== *)
theory Slotted_Page_Correct
  imports Slotted_Page
begin

text \<open>
  What a slotted page promises. A page image is read as the list of its slots, each empty or
  holding a record (\<open>sp_slots\<close>); \<open>sp_wf\<close> says that the image is one the code produces. Each
  operation keeps \<open>sp_wf\<close> and implements an operation on lists of slots.
\<close>

section \<open>Abstraction and invariant\<close>

type_synonym slots = "byte list option list"

definition slot_at :: "byte list \<Rightarrow> slot_id \<Rightarrow> byte list option" where
  "slot_at d s =
     (let ro = ReadSlotRecordOffset d s; rl = ReadSlotRecordLength d s in
      if ro = 0 \<and> rl = 0 then None else Some (mem_read d ro rl))"

definition sp_count :: "page \<Rightarrow> nat" where
  "sp_count pg = ReadValue_u16 (page_data pg) SLOT_COUNT_OFFSET"

definition sp_fsp :: "page \<Rightarrow> nat" where
  "sp_fsp pg = ReadValue_u16 (page_data pg) FREE_SPACE_POINTER_OFFSET"

definition sp_next :: "page \<Rightarrow> page_id" where
  "sp_next pg = ReadValue_i32 (page_data pg) NEXT_PAGE_ID_OFFSET"

definition sp_slots :: "page \<Rightarrow> slots" where
  "sp_slots pg = map (slot_at (page_data pg)) [0..<sp_count pg]"

definition slot_bytes :: "byte list option \<Rightarrow> nat" where
  "slot_bytes x = (case x of None \<Rightarrow> 0 | Some r \<Rightarrow> length r)"

definition bytes_used :: "slots \<Rightarrow> nat" where
  "bytes_used xs = sum_list (map slot_bytes xs)"

text \<open>A slot entry is empty, or describes a non-empty record between the free-space pointer and the
  end of the page.\<close>

definition slot_ok :: "byte list \<Rightarrow> nat \<Rightarrow> slot_id \<Rightarrow> bool" where
  "slot_ok d fsp s \<longleftrightarrow>
     (let ro = ReadSlotRecordOffset d s; rl = ReadSlotRecordLength d s in
      (ro = 0 \<and> rl = 0) \<or> (fsp \<le> ro \<and> 0 < rl \<and> ro + rl \<le> PAGE_SIZE))"

definition sp_wf :: "page \<Rightarrow> bool" where
  "sp_wf pg \<longleftrightarrow>
     length (page_data pg) = PAGE_SIZE \<and>
     SP_IsInitialized (Some pg) \<and>
     (\<forall>s < sp_count pg. slot_ok (page_data pg) (sp_fsp pg) s) \<and>
     bytes_used (sp_slots pg) + sp_fsp pg \<le> PAGE_SIZE"

text \<open>The abstract operations.\<close>

definition first_free :: "slots \<Rightarrow> nat option" where
  "first_free xs = find (\<lambda>i. xs ! i = None) [0..<length xs]"

definition spec_insert :: "slots \<Rightarrow> byte list \<Rightarrow> slots \<times> nat" where
  "spec_insert xs r = (case first_free xs of
     None \<Rightarrow> (xs @ [Some r], length xs)
   | Some i \<Rightarrow> (xs[i := Some r], i))"

definition insert_cost :: "slots \<Rightarrow> byte list \<Rightarrow> nat" where
  "insert_cost xs r = length r + (if None \<in> set xs then 0 else SLOT_ENTRY_SIZE)"

definition spec_update :: "slots \<Rightarrow> nat \<Rightarrow> byte list \<Rightarrow> slots" where
  "spec_update xs i r = xs[i := Some r]"

definition strip_empty :: "slots \<Rightarrow> slots" where
  "strip_empty xs = rev (dropWhile (\<lambda>x. x = None) (rev xs))"

definition spec_delete :: "slots \<Rightarrow> nat \<Rightarrow> slots" where
  "spec_delete xs i = strip_empty (xs[i := None])"

section \<open>Basic facts\<close>

lemma length_sp_slots [simp]: "length (sp_slots pg) = sp_count pg"
  by (simp add: sp_slots_def)

lemma sp_slots_nth [simp]: "s < sp_count pg \<Longrightarrow> sp_slots pg ! s = slot_at (page_data pg) s"
  by (simp add: sp_slots_def)

lemma slot_bytes_simps [simp]: "slot_bytes None = 0" "slot_bytes (Some r) = length r"
  by (simp_all add: slot_bytes_def)

lemma bytes_used_simps [simp]:
  "bytes_used [] = 0" "bytes_used (x # xs) = slot_bytes x + bytes_used xs"
  "bytes_used (xs @ ys) = bytes_used xs + bytes_used ys"
  by (simp_all add: bytes_used_def)

lemma GetSlotOffset_eq: "GetSlotOffset s = 16 + 4 * s"
  by (simp add: GetSlotOffset_def layout_simps)

lemma u16_PAGE_SIZE [simp]: "u16 (int PAGE_SIZE) = PAGE_SIZE" "u16 4096 = 4096"
  by (simp_all add: u16_def layout_simps)

lemma directory_end_eq: "directory_end n = 16 + 4 * n"
  by (simp add: directory_end_def layout_simps)

lemma mem_write_append:
  assumes "off + length xs + length ys \<le> length d"
  shows "mem_write (mem_write d off xs) (off + length xs) ys = mem_write d off (xs @ ys)"
  using assms by (simp add: mem_write_def ac_simps)

lemma WriteSlot_eq:
  "GetSlotOffset s + 4 \<le> length d \<Longrightarrow>
   WriteSlot d s a b = mem_write d (GetSlotOffset s) (le_bytes 2 a @ le_bytes 2 b)"
  using mem_write_append[of "GetSlotOffset s" "le_bytes 2 a" "le_bytes 2 b" d]
  by (simp add: WriteSlot_def io_u16.write_eq)

lemma length_WriteSlot [buf_simps]:
  "GetSlotOffset s + 4 \<le> length d \<Longrightarrow> length (WriteSlot d s a b) = length d"
  by (simp add: WriteSlot_eq length_mem_write)

lemma read_WriteSlot_other [buf_simps]:
  assumes "GetSlotOffset s + 4 \<le> length d"
  shows "i + 2 \<le> GetSlotOffset s \<or> GetSlotOffset s + 4 \<le> i \<Longrightarrow>
           ReadValue_u16 (WriteSlot d s a b) i = ReadValue_u16 d i"
    and "i + 4 \<le> GetSlotOffset s \<or> GetSlotOffset s + 4 \<le> i \<Longrightarrow>
           ReadValue_i32 (WriteSlot d s a b) i = ReadValue_i32 d i"
    and "i + n \<le> GetSlotOffset s \<or> GetSlotOffset s + 4 \<le> i \<Longrightarrow>
           mem_read (WriteSlot d s a b) i n = mem_read d i n"
  using assms
  by (simp_all add: WriteSlot_eq io_u16.read_mem_write io_i32.read_mem_write mem_read_write_other)

lemma read_WriteSlot_same:
  assumes "GetSlotOffset s + 4 \<le> length d" "a < 65536" "b < 65536"
  shows "ReadSlotRecordOffset (WriteSlot d s a b) s = a"
    and "ReadSlotRecordLength (WriteSlot d s a b) s = b"
  using assms
  by (simp_all add: ReadSlotRecordOffset_def ReadSlotRecordLength_def WriteSlot_def Let_def buf_simps)

lemma read_WriteSlot_slot:
  assumes "GetSlotOffset s + 4 \<le> length d" "t \<noteq> s"
  shows "ReadSlotRecordOffset (WriteSlot d s a b) t = ReadSlotRecordOffset d t"
    and "ReadSlotRecordLength (WriteSlot d s a b) t = ReadSlotRecordLength d t"
  using assms
  by (auto simp: ReadSlotRecordOffset_def ReadSlotRecordLength_def GetSlotOffset_eq buf_simps
      intro!: read_WriteSlot_other)

lemma slot_ok_mono: "slot_ok d fsp s \<Longrightarrow> fsp' \<le> fsp \<Longrightarrow> slot_ok d fsp' s"
  by (auto simp: slot_ok_def Let_def)

lemma slot_ok_not_empty:
  "slot_ok d fsp s \<Longrightarrow> slot_at d s = Some r \<Longrightarrow> length d = PAGE_SIZE \<Longrightarrow>
   r \<noteq> [] \<and> length r = ReadSlotRecordLength d s"
  using length_mem_read[of d "ReadSlotRecordOffset d s" "ReadSlotRecordLength d s"]
  by (auto simp: slot_ok_def slot_at_def Let_def split: if_splits)

text \<open>A write that stays below the free-space pointer and outside the entry of a slot does not
  change the slot.\<close>

lemma slot_frame:
  assumes "slot_ok d fsp s" "off \<le> length d" "off + length bs \<le> fsp"
    and "GetSlotOffset s + 4 \<le> off \<or> off + length bs \<le> GetSlotOffset s"
  shows "slot_at (mem_write d off bs) s = slot_at d s"
    and "slot_ok (mem_write d off bs) fsp s"
proof -
  have ro: "ReadSlotRecordOffset (mem_write d off bs) s = ReadSlotRecordOffset d s"
    and rl: "ReadSlotRecordLength (mem_write d off bs) s = ReadSlotRecordLength d s"
    using assms by (auto simp: ReadSlotRecordOffset_def ReadSlotRecordLength_def
        intro!: io_u16.read_mem_write)
  show "slot_at (mem_write d off bs) s = slot_at d s"
    using assms by (auto simp: slot_at_def ro rl Let_def slot_ok_def intro!: mem_read_write_after)
  show "slot_ok (mem_write d off bs) fsp s"
    using assms(1) by (simp add: slot_ok_def ro rl)
qed

lemma slot_frame_WriteSlot:
  assumes "slot_ok d fsp s" "GetSlotOffset t + 4 \<le> fsp" "fsp \<le> length d" "s \<noteq> t"
  shows "slot_at (WriteSlot d t a b) s = slot_at d s"
    and "slot_ok (WriteSlot d t a b) fsp s"
proof -
  have "4 + 4 * s \<le> 4 * t \<or> 4 + 4 * t \<le> 4 * s" using assms(4) by arith
  then show "slot_at (WriteSlot d t a b) s = slot_at d s" "slot_ok (WriteSlot d t a b) fsp s"
    using slot_frame[OF assms(1), of "GetSlotOffset t" "le_bytes 2 a @ le_bytes 2 b"] assms
    by (simp_all add: WriteSlot_eq GetSlotOffset_eq)
qed

lemma slot_new:
  assumes "length d = PAGE_SIZE" "off + length r \<le> PAGE_SIZE" "GetSlotOffset s + 4 \<le> off" "r \<noteq> []"
    and "fsp \<le> off"
  shows "slot_at (WriteSlot (mem_write d off r) s off (length r)) s = Some r"
    and "slot_ok (WriteSlot (mem_write d off r) s off (length r)) fsp s"
proof -
  let ?d = "mem_write d off r"
  have len: "length ?d = PAGE_SIZE" using assms by (simp add: length_mem_write)
  have b: "off < 65536" "length r < 65536" "GetSlotOffset s + 4 \<le> length ?d"
    using assms len by (auto simp: layout_simps)
  have r: "mem_read (WriteSlot ?d s off (length r)) off (length r) = r"
    using assms b by (simp add: read_WriteSlot_other mem_read_write_same)
  show "slot_at (WriteSlot ?d s off (length r)) s = Some r"
    using assms b by (auto simp: slot_at_def read_WriteSlot_same r Let_def)
  show "slot_ok (WriteSlot ?d s off (length r)) fsp s"
    using assms b by (auto simp: slot_ok_def read_WriteSlot_same Let_def)
qed

lemma slot_cleared:
  assumes "GetSlotOffset s + 4 \<le> length d"
  shows "slot_at (WriteSlot d s 0 0) s = None" "slot_ok (WriteSlot d s 0 0) fsp s"
  using assms by (simp_all add: slot_at_def slot_ok_def read_WriteSlot_same)

section \<open>Loading\<close>

lemma IsInitializedD:
  assumes "SP_IsInitialized (Some pg)"
  shows "directory_end (sp_count pg) \<le> sp_fsp pg" "sp_fsp pg \<le> PAGE_SIZE"
    "ReadValue_i32 (page_data pg) PAGE_ID_OFFSET = page_pid pg" "page_pid pg \<noteq> INVALID_PAGE_ID"
  using assms
  by (simp_all add: SP_IsInitialized_def sp_count_def sp_fsp_def Let_def split: if_splits)

lemma sp_wfD:
  assumes "sp_wf pg"
  shows "length (page_data pg) = PAGE_SIZE" "SP_IsInitialized (Some pg)"
    "\<And>s. s < sp_count pg \<Longrightarrow> slot_ok (page_data pg) (sp_fsp pg) s"
    "bytes_used (sp_slots pg) + sp_fsp pg \<le> PAGE_SIZE"
    "directory_end (sp_count pg) \<le> sp_fsp pg" "sp_fsp pg \<le> PAGE_SIZE"
    "directory_end (sp_count pg) \<le> PAGE_SIZE"
    "page_pid pg \<noteq> INVALID_PAGE_ID"
  using assms IsInitializedD[of pg] by (auto simp: sp_wf_def)

definition slot_value :: "byte list option \<Rightarrow> byte list" where
  "slot_value x = (case x of None \<Rightarrow> [] | Some r \<Rightarrow> r)"

lemma LoadRecords_step_ok:
  assumes "slot_ok d fsp s" "dir_end \<le> fsp" "0 < dir_end" "s < length rs" "s < length bs"
    and "rs ! s = []" "\<not> bs ! s"
  shows "LoadRecords_step d dir_end s (rs, bs) =
           Inr (rs[s := slot_value (slot_at d s)], bs[s := (slot_at d s \<noteq> None)])"
proof (cases "slot_at d s")
  case None
  have "rs[s := []] = rs" "bs[s := False] = bs"
    using assms(6,7) list_update_id[of rs s] list_update_id[of bs s] by simp_all
  then show ?thesis using None
    by (auto simp: LoadRecords_step_def slot_at_def slot_value_def Let_def split: if_splits)
next
  case (Some r)
  then show ?thesis using assms
    by (auto simp: LoadRecords_step_def slot_at_def slot_value_def slot_ok_def Let_def
        split: if_splits)
qed

lemma LoadRecords_loop:
  assumes "\<And>s. s < n \<Longrightarrow> slot_ok d fsp s" "dir_end \<le> fsp" "0 < dir_end" "k \<le> n"
  shows "for_each (LoadRecords_step d dir_end) [0..<k] (replicate n [], replicate n False) =
    Inr (map (\<lambda>s. slot_value (slot_at d s)) [0..<k] @ replicate (n - k) [],
         map (\<lambda>s. slot_at d s \<noteq> None) [0..<k] @ replicate (n - k) False)"
  using assms(4)
proof (induction k)
  case (Suc k)
  have upd: "(xs @ replicate (n - k) z)[k := v] = xs @ v # replicate (n - Suc k) z"
    if "length xs = k" for xs and z v :: 'x
    using that Suc.prems by (simp add: list_update_append Suc_diff_Suc[symmetric])
  have "LoadRecords_step d dir_end k
      (map (\<lambda>s. slot_value (slot_at d s)) [0..<k] @ replicate (n - k) [],
       map (\<lambda>s. slot_at d s \<noteq> None) [0..<k] @ replicate (n - k) False) =
    Inr ((map (\<lambda>s. slot_value (slot_at d s)) [0..<k] @ replicate (n - k) [])
           [k := slot_value (slot_at d k)],
         (map (\<lambda>s. slot_at d s \<noteq> None) [0..<k] @ replicate (n - k) False)
           [k := (slot_at d k \<noteq> None)])"
    using Suc.prems assms(1)[of k] assms(2,3)
    by (intro LoadRecords_step_ok[where fsp = fsp]) (auto simp: nth_append)
  then show ?case
    using Suc by (simp add: for_each_upt_Suc upd del: upt_Suc) simp
qed simp

lemma LoadRecords_wf:
  assumes "sp_wf pg"
  shows "LoadRecords (page_data pg) (sp_count pg) =
    Inr (map slot_value (sp_slots pg), map (\<lambda>x. x \<noteq> None) (sp_slots pg))"
  using LoadRecords_loop[of "sp_count pg" "page_data pg" "sp_fsp pg"
      "directory_end (sp_count pg)" "sp_count pg"] sp_wfD[OF assms]
  by (simp add: LoadRecords_def Let_def sp_slots_def directory_end_eq comp_def)

section \<open>Rewriting\<close>

definition slot_of :: "byte list list \<Rightarrow> bool list \<Rightarrow> nat \<Rightarrow> byte list option" where
  "slot_of records active s = (if active ! s then Some (records ! s) else None)"

definition header_eq :: "byte list \<Rightarrow> byte list \<Rightarrow> bool" where
  "header_eq d d' \<longleftrightarrow>
     ReadValue_i32 d PAGE_ID_OFFSET = ReadValue_i32 d' PAGE_ID_OFFSET \<and>
     ReadValue_u16 d SLOT_COUNT_OFFSET = ReadValue_u16 d' SLOT_COUNT_OFFSET \<and>
     ReadValue_i32 d NEXT_PAGE_ID_OFFSET = ReadValue_i32 d' NEXT_PAGE_ID_OFFSET"

lemma header_eq_refl [simp]: "header_eq d d"
  by (simp add: header_eq_def)

lemma header_eq_trans: "header_eq a b \<Longrightarrow> header_eq b c \<Longrightarrow> header_eq a c"
  by (simp add: header_eq_def)

lemma header_eq_mem_write:
  "16 \<le> off \<Longrightarrow> off \<le> length d \<Longrightarrow> header_eq (mem_write d off bs) d"
  by (simp add: header_eq_def layout_simps io_i32.read_mem_write io_u16.read_mem_write)

lemma header_eq_WriteSlot:
  "GetSlotOffset s + 4 \<le> length d \<Longrightarrow> header_eq (WriteSlot d s a b) d"
  by (simp add: WriteSlot_eq header_eq_mem_write GetSlotOffset_eq)

text \<open>The state of the loop of \<open>RewriteRecords\<close> before slot \<open>k\<close>.\<close>

definition rewrite_inv ::
  "byte list list \<Rightarrow> bool list \<Rightarrow> byte list \<Rightarrow> nat \<Rightarrow> byte list \<times> nat \<Rightarrow> bool" where
  "rewrite_inv records active d0 k st \<longleftrightarrow>
     (let (d, fsp) = st in
      length d = PAGE_SIZE \<and> header_eq d d0 \<and>
      fsp + bytes_used (map (slot_of records active) [0..<k]) = PAGE_SIZE \<and>
      (\<forall>s < k. slot_at d s = slot_of records active s \<and> slot_ok d fsp s))"

lemma rewrite_step_inv:
  assumes inv: "rewrite_inv records active d0 k st"
    and space: "directory_end n + bytes_used (map (slot_of records active) [0..<Suc k]) \<le> PAGE_SIZE"
    and k: "k < n" and ne: "active ! k \<Longrightarrow> records ! k \<noteq> []"
  shows "rewrite_inv records active d0 (Suc k) (RewriteRecords_step records active k st)"
proof -
  obtain d fsp where st: "st = (d, fsp)" by (cases st)
  from inv have len: "length d = PAGE_SIZE" and hd: "header_eq d d0"
    and fsp: "fsp + bytes_used (map (slot_of records active) [0..<k]) = PAGE_SIZE"
    and old: "\<And>s. s < k \<Longrightarrow> slot_at d s = slot_of records active s" "\<And>s. s < k \<Longrightarrow> slot_ok d fsp s"
    by (auto simp: rewrite_inv_def st)
  have dir: "GetSlotOffset k + 4 \<le> directory_end n" using k
    by (simp add: GetSlotOffset_eq directory_end_eq)
  show ?thesis
  proof (cases "active ! k")
    case False
    have d: "GetSlotOffset k + 4 \<le> fsp" "fsp \<le> length d"
      using dir space fsp len by (simp_all add: slot_of_def False)
    then show ?thesis
      using False len hd fsp old slot_cleared[of k d]
        slot_frame_WriteSlot[of d fsp _ k 0 0] header_eq_WriteSlot[of k d 0 0]
      by (auto simp: rewrite_inv_def st RewriteRecords_step_def slot_of_def less_Suc_eq
          length_WriteSlot intro: header_eq_trans)
  next
    case True
    define r where "r = records ! k"
    have r: "r \<noteq> []" using ne True by (simp add: r_def)
    have room: "directory_end n + length r \<le> fsp" "fsp \<le> PAGE_SIZE"
      using space fsp True by (simp_all add: slot_of_def r_def)
    define off where "off = fsp - length r"
    define d1 where "d1 = mem_write d off r"
    define d2 where "d2 = WriteSlot d1 k off (length r)"
    have small: "fsp < 65536" "length r < 65536" using room by (simp_all add: layout_simps)
    have step: "RewriteRecords_step records active k st = (d2, off)"
      using True room small
      by (simp add: RewriteRecords_step_def st r_def[symmetric] u16_diff off_def d1_def d2_def Let_def)
    have off: "directory_end n \<le> off" "off + length r = fsp" using room by (simp_all add: off_def)
    have d1: "length d1 = PAGE_SIZE" "header_eq d1 d"
      using off room len by (auto simp: d1_def length_mem_write directory_end_eq intro!: header_eq_mem_write)
    have b: "GetSlotOffset k + 4 \<le> length d1" using dir off room d1 by simp
    have new: "slot_at d2 k = Some r" "slot_ok d2 off k"
      unfolding d2_def d1_def using len off room dir r by (auto intro!: slot_new)
    have keep: "slot_at d2 s = slot_at d s \<and> slot_ok d2 off s" if s: "s < k" for s
    proof -
      have e: "GetSlotOffset s + 4 \<le> off" using s dir off by (simp add: GetSlotOffset_eq)
      have f: "slot_at d1 s = slot_at d s" "slot_ok d1 fsp s"
        unfolding d1_def using old(2)[OF s] e off room len by (auto intro!: slot_frame)
      have "slot_ok d1 off s" using f(2) off by (auto intro: slot_ok_mono)
      then have "slot_at d2 s = slot_at d1 s" "slot_ok d2 off s"
        unfolding d2_def using s dir off room d1 by (auto intro!: slot_frame_WriteSlot)
      then show ?thesis using f by simp
    qed
    have "header_eq d2 d0" unfolding d2_def
      using header_eq_WriteSlot[OF b] d1(2) hd by (blast intro: header_eq_trans)
    then show ?thesis
      using True new keep old off fsp b d1
      by (auto simp: rewrite_inv_def step d2_def slot_of_def r_def less_Suc_eq length_WriteSlot)
  qed
qed

lemma bytes_used_take_le: "k \<le> n \<Longrightarrow> bytes_used (map f [0..<k]) \<le> bytes_used (map f [0..<n])"
proof -
  assume "k \<le> n"
  then have "map f [0..<n] = map f [0..<k] @ map f [k..<n]"
    by (metis le_add_diff_inverse map_append plus_nat.add_0 upt_add_eq_append zero_le)
  then show ?thesis by simp
qed

lemma rewrite_loop_inv:
  assumes "rewrite_inv records active d0 0 st"
    and "directory_end n + bytes_used (map (slot_of records active) [0..<n]) \<le> PAGE_SIZE"
    and "\<And>s. s < n \<Longrightarrow> active ! s \<Longrightarrow> records ! s \<noteq> []" and "k \<le> n"
  shows "rewrite_inv records active d0 k (fold (RewriteRecords_step records active) [0..<k] st)"
  using assms(4)
proof (induction k)
  case (Suc k)
  have "directory_end n + bytes_used (map (slot_of records active) [0..<Suc k]) \<le> PAGE_SIZE"
    using bytes_used_take_le[OF Suc.prems, of "slot_of records active"] assms(2) by linarith
  then show ?case using Suc assms(3)[of k] by (auto intro!: rewrite_step_inv)
qed (use assms(1) in simp)

lemma rewrite_total:
  "sum_list (map (\<lambda>s. if active ! s then length (records ! s) else 0) [0..<n]) =
   bytes_used (map (slot_of records active) [0..<n])"
  by (simp add: bytes_used_def slot_of_def comp_def slot_bytes_def if_distrib cong: if_cong)

text \<open>What \<open>RewriteRecords\<close> does: it fails, changing nothing, when the records do not fit;
  otherwise the page holds exactly the given slots, packed against its end.\<close>

lemma RewriteRecords_correct:
  assumes len: "length (page_data pg) = PAGE_SIZE" and init: "SP_IsInitialized (Some pg)"
    and n: "directory_end n \<le> PAGE_SIZE"
    and ne: "\<And>s. s < n \<Longrightarrow> active ! s \<Longrightarrow> records ! s \<noteq> []"
  defines "xs \<equiv> map (slot_of records active) [0..<n]"
  shows "if directory_end n + bytes_used xs > PAGE_SIZE
         then RewriteRecords pg n records active =
                Inl (OutOfMemory ''Not enough free space in page'')
         else \<exists>pg'. RewriteRecords pg n records active = Inr pg' \<and> sp_wf pg' \<and>
                sp_slots pg' = xs \<and> sp_fsp pg' + bytes_used xs = PAGE_SIZE \<and>
                sp_next pg' = sp_next pg \<and> page_pid pg' = page_pid pg \<and>
                pin_count pg' = pin_count pg \<and> is_dirty pg'"
proof (cases "directory_end n + bytes_used xs > PAGE_SIZE")
  case True
  then show ?thesis by (simp add: RewriteRecords_def rewrite_total xs_def Let_def)
next
  case False
  define d0 where "d0 = mem_write (page_data pg) 16 (replicate 4080 zero_byte)"
  define d1 where "d1 = WriteValue_u16 d0 4 n"
  define res where "res = fold (RewriteRecords_step records active) [0..<n] (d1, u16 (int PAGE_SIZE))"
  obtain d2 fsp where res: "res = (d2, fsp)" by (cases res)
  define d3 where "d3 = WriteValue_u16 d2 6 fsp"
  have d0: "length d0 = PAGE_SIZE" using len by (simp add: d0_def length_mem_write layout_simps)
  have d1: "length d1 = PAGE_SIZE" using d0 by (simp add: d1_def buf_simps layout_simps)
  have n': "n < 65536" using n by (simp add: directory_end_eq layout_simps)
  have "rewrite_inv records active d1 0 (d1, u16 (int PAGE_SIZE))"
    using d1 by (simp add: rewrite_inv_def)
  then have "rewrite_inv records active d1 n res"
    unfolding res_def using False ne by (intro rewrite_loop_inv[where n = n]) (auto simp: xs_def)
  then have d2: "length d2 = PAGE_SIZE" "header_eq d2 d1" "fsp + bytes_used xs = PAGE_SIZE"
      "\<And>s. s < n \<Longrightarrow> slot_at d2 s = slot_of records active s" "\<And>s. s < n \<Longrightarrow> slot_ok d2 fsp s"
    by (auto simp: rewrite_inv_def res xs_def)
  have fsp: "fsp < 65536" "directory_end n \<le> fsp" "fsp \<le> PAGE_SIZE"
    using d2(3) False by (simp_all add: layout_simps)
  have old: "ReadValue_i32 d1 0 = page_pid pg" "ReadValue_i32 d1 8 = sp_next pg"
    "ReadValue_u16 d1 4 = n"
    using IsInitializedD(3)[OF init] d0 n' len
    by (simp_all add: d1_def buf_simps d0_def layout_simps sp_next_def)
  have d3: "length d3 = PAGE_SIZE" "ReadValue_i32 d3 0 = page_pid pg"
    "ReadValue_i32 d3 8 = sp_next pg" "ReadValue_u16 d3 4 = n" "ReadValue_u16 d3 6 = fsp"
    using d2(1,2) fsp old by (simp_all add: d3_def buf_simps header_eq_def layout_simps)
  have slots: "slot_at d3 s = slot_at d2 s" "slot_ok d3 fsp s" if "s < n" for s
  proof -
    have "d3 = mem_write d2 6 (le_bytes 2 fsp)" by (simp add: d3_def io_u16.write_eq)
    then show "slot_at d3 s = slot_at d2 s" "slot_ok d3 fsp s"
      using d2(1) d2(5)[OF that] fsp(2) slot_frame[of d2 fsp s 6 "le_bytes 2 fsp"]
      by (auto simp: GetSlotOffset_eq layout_simps directory_end_eq)
  qed
  define pg' where "pg' = pg\<lparr>page_data := d3, is_dirty := True\<rparr>"
  have cnt: "sp_count pg' = n" "sp_fsp pg' = fsp" "sp_next pg' = sp_next pg"
    using d3 by (simp_all add: pg'_def sp_count_def sp_fsp_def sp_next_def layout_simps)
  have xs: "sp_slots pg' = xs"
    unfolding sp_slots_def cnt xs_def using slots d2(4) by (auto simp: pg'_def)
  have "SP_IsInitialized (Some pg')"
    using IsInitializedD(4)[OF init] d3 fsp n
    by (simp add: SP_IsInitialized_def pg'_def Let_def layout_simps)
  then have "sp_wf pg'" using d3(1) slots d2(3) by (simp add: sp_wf_def cnt xs) (simp add: pg'_def)
  moreover have "RewriteRecords pg n records active = Inr pg'"
    using False res
    by (simp add: RewriteRecords_def rewrite_total xs_def[symmetric] Let_def pg'_def d3_def
        res_def d1_def d0_def layout_simps)
  ultimately show ?thesis using False xs cnt d2(3) by (simp add: pg'_def)
qed

section \<open>Initialisation, reading and linking\<close>

lemma SP_Init_page:
  assumes "page_pid pg \<noteq> INVALID_PAGE_ID"
  shows "\<exists>pg'. SP_Init (Some pg) = Inr pg' \<and> length (page_data pg') = PAGE_SIZE \<and>
    ReadValue_i32 (page_data pg') 0 = i32 (u32 (page_pid pg)) \<and> sp_count pg' = 0 \<and>
    sp_fsp pg' = PAGE_SIZE \<and> sp_next pg' = INVALID_PAGE_ID \<and> page_pid pg' = page_pid pg \<and>
    pin_count pg' = pin_count pg \<and> is_dirty pg'"
proof -
  have len: "length zero_page = 4096" by (simp add: layout_simps)
  have r: "ReadValue_i32 (WriteValue_i32 d 0 v) 0 = i32 (u32 v)" if "4 \<le> length d" for d v
    using that by (simp add: io_i32.read_eq io_i32.write_eq mem_read_write_same le_nat_le_bytes)
  show ?thesis using assms
    by (simp add: SP_Init_def Let_def sp_count_def sp_fsp_def sp_next_def layout_simps buf_simps r
        len is_i32_def)
qed

lemma SP_Init_wf:
  assumes "page_pid pg \<noteq> INVALID_PAGE_ID" "is_i32 (page_pid pg)"
  shows "\<exists>pg'. SP_Init (Some pg) = Inr pg' \<and> sp_wf pg' \<and> sp_slots pg' = [] \<and>
    sp_next pg' = INVALID_PAGE_ID \<and> page_pid pg' = page_pid pg \<and>
    pin_count pg' = pin_count pg \<and> is_dirty pg'"
proof -
  obtain pg' where pg': "SP_Init (Some pg) = Inr pg'" "length (page_data pg') = PAGE_SIZE"
    "ReadValue_i32 (page_data pg') 0 = page_pid pg" "sp_count pg' = 0" "sp_fsp pg' = PAGE_SIZE"
    "sp_next pg' = INVALID_PAGE_ID" "page_pid pg' = page_pid pg" "pin_count pg' = pin_count pg"
    "is_dirty pg'"
    using SP_Init_page[OF assms(1)] assms(2) by (auto simp: i32_u32)
  moreover have "sp_slots pg' = []" using pg'(4) by (simp add: sp_slots_def)
  moreover have "SP_IsInitialized (Some pg')"
    using pg' assms by (simp add: SP_IsInitialized_def sp_count_def sp_fsp_def Let_def
        directory_end_eq layout_simps)
  ultimately show ?thesis by (auto simp: sp_wf_def)
qed

lemma SP_GetFreeSpace_wf:
  "sp_wf pg \<Longrightarrow> SP_GetFreeSpace (Some pg) = sp_fsp pg - directory_end (sp_count pg)"
  using sp_wfD[of pg]
  by (simp add: SP_GetFreeSpace_def SP_GetSlotCount_def sp_fsp_def sp_count_def u16_diff
      layout_simps Let_def)

lemma SP_GetSlotCount_eq [simp]: "SP_GetSlotCount (Some pg) = sp_count pg"
  by (simp add: SP_GetSlotCount_def sp_count_def)

lemma SP_ReadRecord_wf:
  assumes "sp_wf pg"
  shows "SP_ReadRecord (Some pg) s =
    (if s \<ge> sp_count pg then Inl (NotFound ''Slot does not exist'')
     else case sp_slots pg ! s of
       None \<Rightarrow> Inl (NotFound ''Record was deleted or slot is empty'')
     | Some r \<Rightarrow> Inr (Record (RecordID (page_pid pg) s) r))"
proof (cases "s < sp_count pg")
  case True
  show ?thesis
    using sp_wfD(2,5,6)[OF assms] sp_wfD(3)[OF assms True] True
    by (auto simp: SP_ReadRecord_def Let_def slot_at_def slot_ok_def)
next
  case False
  then show ?thesis using sp_wfD(2)[OF assms] by (simp add: SP_ReadRecord_def Let_def)
qed

lemma SP_SetNextPageId_wf:
  assumes wf: "sp_wf pg" and "INVALID_PAGE_ID \<le> p" "p \<noteq> page_pid pg" "is_i32 p"
  shows "\<exists>pg'. SP_SetNextPageId (Some pg) p = Inr pg' \<and> sp_wf pg' \<and> sp_slots pg' = sp_slots pg \<and>
    sp_next pg' = p \<and> page_pid pg' = page_pid pg \<and> pin_count pg' = pin_count pg \<and> is_dirty pg'"
proof -
  note wfD = sp_wfD[OF wf]
  define d where "d = WriteValue_i32 (page_data pg) 8 p"
  define pg' where "pg' = pg\<lparr>page_data := d, is_dirty := True\<rparr>"
  have d: "length d = PAGE_SIZE" "ReadValue_i32 d 0 = ReadValue_i32 (page_data pg) 0"
    "ReadValue_i32 d 8 = p" "ReadValue_u16 d 4 = sp_count pg" "ReadValue_u16 d 6 = sp_fsp pg"
    using wfD(1) assms(4) by (simp_all add: d_def buf_simps layout_simps sp_count_def sp_fsp_def)
  have h: "sp_count pg' = sp_count pg" "sp_fsp pg' = sp_fsp pg" "sp_next pg' = p"
    using d by (simp_all add: pg'_def sp_count_def sp_fsp_def sp_next_def layout_simps)
  have s: "slot_at d t = slot_at (page_data pg) t" "slot_ok d (sp_fsp pg) t" if "t < sp_count pg" for t
    using slot_frame[OF wfD(3)[OF that], of 8 "le_bytes 4 (u32 p)"] wfD that
    by (auto simp: d_def io_i32.write_eq GetSlotOffset_eq directory_end_eq layout_simps)
  have sl: "sp_slots pg' = sp_slots pg"
    unfolding sp_slots_def h using s by (auto simp: pg'_def)
  have init: "SP_IsInitialized (Some pg')"
    using IsInitializedD[OF wfD(2)] d wfD(7)
    by (simp add: SP_IsInitialized_def pg'_def Let_def layout_simps)
  have "sp_wf pg'"
    unfolding sp_wf_def h sl using d s init wfD(4) by (simp add: pg'_def)
  moreover have "SP_SetNextPageId (Some pg) p = Inr pg'"
    using assms wfD(2) by (simp add: SP_SetNextPageId_def pg'_def d_def layout_simps)
  ultimately show ?thesis using sl h by (simp add: pg'_def)
qed

section \<open>Insertion\<close>

lemma find_free_slot:
  assumes "sp_wf pg"
  shows "find (\<lambda>s. ReadSlotRecordOffset (page_data pg) s = 0 \<and> ReadSlotRecordLength (page_data pg) s = 0)
           [0..<sp_count pg] = first_free (sp_slots pg)"
  unfolding first_free_def length_sp_slots
  by (rule find_cong) (auto simp: slot_at_def Let_def)

lemma first_free_Some:
  assumes "first_free xs = Some i"
  shows "i < length xs" "xs ! i = None"
  using assms by (auto simp: first_free_def find_Some_iff)

lemma first_free_None: "first_free xs = None \<longleftrightarrow> None \<notin> set xs"
  by (auto simp: first_free_def find_None_iff in_set_conv_nth)

lemma bytes_used_update:
  "i < length xs \<Longrightarrow> bytes_used (xs[i := v]) + slot_bytes (xs ! i) = bytes_used xs + slot_bytes v"
  by (induction xs arbitrary: i) (auto simp: less_Suc_eq_0_disj nth_Cons')

text \<open>The page after a successful insertion into slot \<open>sel\<close>.\<close>

lemma insert_page_wf:
  assumes wf: "sp_wf pg" and r: "r \<noteq> []"
    and sel: "sel \<le> sp_count pg" and n: "n = max (sp_count pg) (Suc sel)"
    and room: "directory_end n + length r \<le> sp_fsp pg"
    and free: "sel < sp_count pg \<Longrightarrow> sp_slots pg ! sel = None"
  defines "off \<equiv> sp_fsp pg - length r"
  defines "d2 \<equiv> WriteSlot (mem_write (page_data pg) off r) sel off (length r)"
  defines "d4 \<equiv> WriteValue_u16 (WriteValue_u16 d2 4 n) 6 off"
  defines "pg' \<equiv> pg\<lparr>page_data := d4, is_dirty := True\<rparr>"
  shows "sp_wf pg' \<and> sp_count pg' = n \<and> sp_fsp pg' = off \<and> sp_next pg' = sp_next pg \<and>
    sp_slots pg' = (if sel < sp_count pg then (sp_slots pg)[sel := Some r] else sp_slots pg @ [Some r])"
proof -
  note wfD = sp_wfD[OF wf]
  define d1 where "d1 = mem_write (page_data pg) off r"
  have dir: "GetSlotOffset s + 4 \<le> directory_end n" if "s < n" for s
    using that by (simp add: GetSlotOffset_eq directory_end_eq)
  have off: "directory_end n \<le> off" "off + length r = sp_fsp pg" "off < 65536" "n < 65536"
    using room wfD(6) by (simp_all add: off_def layout_simps directory_end_eq)
  have selb: "sel < n" using n by simp
  have d1: "length d1 = PAGE_SIZE" "header_eq d1 (page_data pg)"
    using off wfD by (auto simp: d1_def length_mem_write directory_end_eq intro!: header_eq_mem_write)
  have b: "GetSlotOffset sel + 4 \<le> length d1" using dir[OF selb] off wfD(6) d1 by simp
  have d2: "length d2 = PAGE_SIZE" "header_eq d2 (page_data pg)"
    using header_eq_WriteSlot[OF b] d1 b
    by (auto simp: d2_def d1_def[symmetric] length_WriteSlot intro: header_eq_trans)
  have d4: "length d4 = PAGE_SIZE" "ReadValue_u16 d4 4 = n" "ReadValue_u16 d4 6 = off"
    "ReadValue_i32 d4 0 = page_pid pg" "ReadValue_i32 d4 8 = sp_next pg"
    using d2 off(3,4) wfD(1) IsInitializedD(3)[OF wfD(2)]
    by (simp_all add: d4_def buf_simps layout_simps header_eq_def sp_next_def)
  have hdr: "sp_count pg' = n" "sp_fsp pg' = off" "sp_next pg' = sp_next pg"
    using d4 by (simp_all add: pg'_def sp_count_def sp_fsp_def sp_next_def layout_simps)
  have pd: "page_data pg' = d4" by (simp add: pg'_def)
  have frame: "slot_at d4 s = slot_at d2 s \<and> slot_ok d4 off s" if ok: "slot_ok d2 off s" "s < n" for s
  proof -
    let ?a = "mem_write d2 4 (le_bytes 2 n)"
    have "slot_at ?a s = slot_at d2 s" "slot_ok ?a off s"
      using slot_frame[OF ok(1), of 4 "le_bytes 2 n"] d2 off
      by (auto simp: GetSlotOffset_eq layout_simps directory_end_eq)
    moreover have "slot_at (mem_write ?a 6 (le_bytes 2 off)) s = slot_at ?a s"
        "slot_ok (mem_write ?a 6 (le_bytes 2 off)) off s"
      using slot_frame[OF \<open>slot_ok ?a off s\<close>, of 6 "le_bytes 2 off"] d2 off
      by (auto simp: GetSlotOffset_eq layout_simps directory_end_eq length_mem_write)
    ultimately show ?thesis by (simp add: d4_def io_u16.write_eq)
  qed
  have new: "slot_at d2 sel = Some r" "slot_ok d2 off sel"
    unfolding d2_def using slot_new[OF wfD(1), of off r sel off] off wfD(6) dir[OF selb] r
    by simp_all
  have old: "slot_at d2 s = slot_at (page_data pg) s \<and> slot_ok d2 off s"
    if s: "s < sp_count pg" "s \<noteq> sel" for s
  proof -
    have "s < n" using s n by simp
    then have e: "GetSlotOffset s + 4 \<le> off" using dir[of s] off by linarith
    have f: "slot_at d1 s = slot_at (page_data pg) s" "slot_ok d1 (sp_fsp pg) s"
      unfolding d1_def using slot_frame[OF wfD(3)[OF s(1)], of off r] e off wfD by simp_all
    have "slot_ok d1 off s" using f(2) off by (auto intro: slot_ok_mono)
    then show ?thesis
      using slot_frame_WriteSlot[of d1 off s sel off "length r"] s dir[OF selb] off wfD(6) d1 f
      by (simp add: d2_def d1_def[symmetric])
  qed
  have all: "slot_at d4 s = (if s = sel then Some r else slot_at (page_data pg) s) \<and> slot_ok d4 off s"
    if "s < n" for s
    using that n new old[of s] frame[of s] sel by (cases "s = sel") auto
  have xs: "sp_slots pg' =
      (if sel < sp_count pg then (sp_slots pg)[sel := Some r] else sp_slots pg @ [Some r])" (is "_ = ?xs")
  proof (rule nth_equalityI)
    show "length (sp_slots pg') = length ?xs" using hdr n sel by auto
    fix i assume "i < length (sp_slots pg')"
    then show "sp_slots pg' ! i = ?xs ! i"
      using all[of i] hdr n sel pd by (auto simp: nth_append)
  qed
  have "bytes_used (sp_slots pg') + off \<le> PAGE_SIZE"
    using wfD(4) off free bytes_used_update[of sel "sp_slots pg" "Some r"] unfolding xs by auto
  moreover have "SP_IsInitialized (Some pg')"
    using wfD(6,8) d4 off by (simp add: SP_IsInitialized_def pg'_def Let_def layout_simps)
  ultimately have "sp_wf pg'"
    using d4(1) all unfolding sp_wf_def hdr pd by simp
  with hdr xs show ?thesis by simp
qed

text \<open>The bytes a page still has room for, and what every operation leaves alone.\<close>

definition sp_free :: "page \<Rightarrow> nat" where
  "sp_free pg = SP_GetFreeSpace (Some pg)"

definition same_page :: "page \<Rightarrow> page \<Rightarrow> bool" where
  "same_page pg pg' \<longleftrightarrow>
     page_pid pg' = page_pid pg \<and> pin_count pg' = pin_count pg \<and> sp_next pg' = sp_next pg \<and>
     is_dirty pg'"

lemma sp_free_wf: "sp_wf pg \<Longrightarrow> sp_free pg = sp_fsp pg - directory_end (sp_count pg)"
  by (simp add: sp_free_def SP_GetFreeSpace_wf)

lemma SP_InsertRecord_unfold:
  assumes "sp_wf pg" "r \<noteq> []" "length r \<le> PAGE_SIZE"
  shows "SP_InsertRecord (Some pg) (Some r) =
    (let free = first_free (sp_slots pg);
         sel = (case free of None \<Rightarrow> sp_count pg | Some s \<Rightarrow> s);
         off = sp_fsp pg - length r;
         d2 = WriteSlot (mem_write (page_data pg) off r) sel off (length r)
     in if sp_free pg < insert_cost (sp_slots pg) r
        then Inl (OutOfMemory ''Not enough free space in page'')
        else Inr (pg\<lparr>page_data := WriteValue_u16
                  (if free = None then WriteValue_u16 d2 4 (Suc (sp_count pg)) else d2) 6 off,
                  is_dirty := True\<rparr>, sel))"
proof -
  note wfD = sp_wfD[OF assms(1)]
  let ?free = "first_free (sp_slots pg)"
  have sz: "length r < 65536" "u16 (int (length r)) = length r" "\<not> length r > 65535"
    using assms(3) by (simp_all add: layout_simps)
  have cost: "length r + (if ?free \<noteq> None then 0 else SLOT_ENTRY_SIZE) = insert_cost (sp_slots pg) r"
    by (simp add: insert_cost_def first_free_None)
  have sc: "u16 (int (sp_count pg) + 1) = Suc (sp_count pg)"
  proof -
    have "Suc (sp_count pg) < 65536" using wfD(7) by (simp add: directory_end_eq layout_simps)
    then show ?thesis using u16_id[of "Suc (sp_count pg)"] by (simp add: add.commute)
  qed
  show ?thesis
  proof (cases "sp_free pg < insert_cost (sp_slots pg) r")
    case True
    then show ?thesis using assms wfD(2) sz
      unfolding SP_InsertRecord_def Let_def SP_GetSlotCount_eq find_free_slot[OF assms(1)]
        sp_free_def[symmetric] cost
      by (simp add: find_free_slot[OF assms(1)] cost[simplified])
  next
    case False
    then have "length r \<le> sp_fsp pg"
      using sp_free_wf[OF assms(1)] by (simp add: insert_cost_def)
    then have "u16 (int (sp_fsp pg) - int (length r)) = sp_fsp pg - length r"
      using wfD(6) by (intro u16_diff) (simp_all add: layout_simps)
    then show ?thesis using assms wfD(2) sz sc False
      unfolding SP_InsertRecord_def Let_def SP_GetSlotCount_eq find_free_slot[OF assms(1)]
        sp_free_def[symmetric] cost sp_fsp_def[symmetric]
      by (simp add: find_free_slot[OF assms(1)] cost[simplified] layout_simps)
  qed
qed

lemma SP_InsertRecord_wf:
  assumes wf: "sp_wf pg" and r: "r \<noteq> []" "length r \<le> PAGE_SIZE"
  shows "if sp_free pg < insert_cost (sp_slots pg) r
    then SP_InsertRecord (Some pg) (Some r) = Inl (OutOfMemory ''Not enough free space in page'')
    else \<exists>pg'. SP_InsertRecord (Some pg) (Some r) = Inr (pg', snd (spec_insert (sp_slots pg) r)) \<and>
      sp_wf pg' \<and> sp_slots pg' = fst (spec_insert (sp_slots pg) r) \<and>
      sp_free pg' + insert_cost (sp_slots pg) r = sp_free pg \<and> same_page pg pg'"
proof (cases "sp_free pg < insert_cost (sp_slots pg) r")
  case True
  then show ?thesis using SP_InsertRecord_unfold[OF assms] by (simp add: Let_def)
next
  case False
  note wfD = sp_wfD[OF wf] and free = sp_free_wf[OF wf] and unf = SP_InsertRecord_unfold[OF assms]
  let ?off = "sp_fsp pg - length r"
  show ?thesis
  proof (cases "first_free (sp_slots pg)")
    case None
    let ?sel = "sp_count pg"
    let ?d2 = "WriteSlot (mem_write (page_data pg) ?off r) ?sel ?off (length r)"
    let ?pg = "pg\<lparr>page_data := WriteValue_u16 (WriteValue_u16 ?d2 4 (Suc ?sel)) 6 ?off, is_dirty := True\<rparr>"
    have cost: "insert_cost (sp_slots pg) r = length r + 4"
      using None by (simp add: insert_cost_def first_free_None layout_simps)
    then have room: "directory_end (Suc ?sel) + length r \<le> sp_fsp pg"
      using False free wfD(5) by (simp add: directory_end_eq)
    have P: "sp_wf ?pg \<and> sp_count ?pg = Suc ?sel \<and> sp_fsp ?pg = ?off \<and> sp_next ?pg = sp_next pg \<and>
        sp_slots ?pg = sp_slots pg @ [Some r]"
      using insert_page_wf[OF wf r(1) le_refl _ room] by simp
    moreover have "sp_free ?pg + insert_cost (sp_slots pg) r = sp_free pg"
      using P room free sp_free_wf[of ?pg] cost by (simp add: directory_end_eq)
    ultimately show ?thesis
      using False unf None by (simp add: Let_def spec_insert_def same_page_def)
  next
    case (Some sel)
    let ?d2 = "WriteSlot (mem_write (page_data pg) ?off r) sel ?off (length r)"
    let ?pg = "pg\<lparr>page_data := WriteValue_u16 (WriteValue_u16 ?d2 4 (sp_count pg)) 6 ?off, is_dirty := True\<rparr>"
    have sel: "sel < sp_count pg" "sp_slots pg ! sel = None"
      using first_free_Some[OF Some] by simp_all
    have cost: "insert_cost (sp_slots pg) r = length r"
      using Some first_free_None[of "sp_slots pg"] by (simp add: insert_cost_def)
    then have room: "directory_end (sp_count pg) + length r \<le> sp_fsp pg"
      using False free wfD(5) by simp
    have P: "sp_wf ?pg \<and> sp_count ?pg = sp_count pg \<and> sp_fsp ?pg = ?off \<and> sp_next ?pg = sp_next pg \<and>
        sp_slots ?pg = (sp_slots pg)[sel := Some r]"
      using insert_page_wf[OF wf r(1) _ _ room, of sel] sel by simp
    have same: "WriteValue_u16 ?d2 4 (sp_count pg) = ?d2"
    proof -
      have len: "length ?d2 = PAGE_SIZE" "header_eq ?d2 (page_data pg)"
      proof -
        have b: "16 \<le> ?off" "?off \<le> length (page_data pg)"
          "?off + length r \<le> length (page_data pg)" "GetSlotOffset sel + 4 \<le> length (page_data pg)"
          using room wfD sel by (simp_all add: directory_end_eq GetSlotOffset_eq)
        then show "length ?d2 = PAGE_SIZE" using wfD(1) by (simp add: length_WriteSlot length_mem_write)
        show "header_eq ?d2 (page_data pg)"
          using b header_eq_WriteSlot[of sel "mem_write (page_data pg) ?off r"]
            header_eq_mem_write[of ?off "page_data pg" r]
          by (metis header_eq_trans length_mem_write)
      qed
      then have "ReadValue_u16 ?d2 4 = sp_count pg"
        by (simp add: header_eq_def sp_count_def layout_simps)
      then show ?thesis using io_u16.write_read[of 4 ?d2] len(1) by (simp add: layout_simps)
    qed
    have "sp_free ?pg + insert_cost (sp_slots pg) r = sp_free pg"
      using P room free sp_free_wf[of ?pg] cost by (simp add: directory_end_eq)
    then show ?thesis
      using P False unf Some by (simp add: same Let_def spec_insert_def same_page_def)
  qed
qed

section \<open>Update and deletion\<close>

lemma slot_of_map_eq:
  assumes "length xs = n"
  shows "map (slot_of (map slot_value xs) (map (\<lambda>x. x \<noteq> None) xs)) [0..<n] = xs"
  using assms by (auto intro!: nth_equalityI simp: slot_of_def slot_value_def)

lemma wf_slot_nonempty:
  assumes "sp_wf pg" "s < sp_count pg" "sp_slots pg ! s = Some r"
  shows "r \<noteq> []"
  using slot_ok_not_empty[OF sp_wfD(3)[OF assms(1,2)], of r] sp_wfD(1)[OF assms(1)] assms by simp

lemma SP_UpdateRecord_wf:
  assumes wf: "sp_wf pg" and r: "r \<noteq> []" "length r \<le> PAGE_SIZE"
    and s: "s < sp_count pg" "sp_slots pg ! s = Some old"
  shows "if directory_end (sp_count pg) + bytes_used (spec_update (sp_slots pg) s r) > PAGE_SIZE
    then SP_UpdateRecord (Some pg) s (Some r) = Inl (OutOfMemory ''Not enough free space in page'')
    else \<exists>pg'. SP_UpdateRecord (Some pg) s (Some r) = Inr pg' \<and> sp_wf pg' \<and>
      sp_slots pg' = spec_update (sp_slots pg) s r \<and> same_page pg pg' \<and>
      sp_fsp pg' + bytes_used (sp_slots pg') = PAGE_SIZE"
proof -
  note wfD = sp_wfD[OF wf]
  let ?xs = "spec_update (sp_slots pg) s r"
  let ?recs = "(map slot_value (sp_slots pg))[s := r]"
  let ?act = "map (\<lambda>x. x \<noteq> None) (sp_slots pg)"
  have act: "?act = map (\<lambda>x. x \<noteq> None) ?xs"
    using s by (auto simp: spec_update_def list_eq_iff_nth_eq nth_list_update)
  have recs: "?recs = map slot_value ?xs"
    by (simp add: spec_update_def map_update slot_value_def)
  have xs: "map (slot_of ?recs ?act) [0..<sp_count pg] = ?xs"
    unfolding recs act by (rule slot_of_map_eq) (simp add: spec_update_def)
  have ne: "?recs ! t \<noteq> []" if "t < sp_count pg" "?act ! t" for t
    using that r s wf_slot_nonempty[OF wf, of t]
    by (auto simp: nth_list_update slot_value_def)
  have "SP_UpdateRecord (Some pg) s (Some r) = RewriteRecords pg (sp_count pg) ?recs ?act"
    using wfD(2) r s LoadRecords_wf[OF wf]
    by (auto simp: SP_UpdateRecord_def Let_def layout_simps)
  moreover note RewriteRecords_correct[OF wfD(1,2,7), of ?act ?recs, unfolded xs, OF ne]
  ultimately show ?thesis
    by (auto simp: same_page_def simp del: not_None_eq split: if_splits)
qed

lemma TrimSlotCount_append: "n \<le> length a \<Longrightarrow> TrimSlotCount (a @ b) n = TrimSlotCount a n"
  by (induction n) (auto simp: nth_append)

lemma strip_empty_snoc:
  "strip_empty (xs @ [None]) = strip_empty xs" "strip_empty (xs @ [Some r]) = xs @ [Some r]"
  by (simp_all add: strip_empty_def)

lemma TrimSlotCount_strip:
  "TrimSlotCount (map (\<lambda>x. x \<noteq> None) xs) (length xs) = length (strip_empty xs)"
proof (induction xs rule: rev_induct)
  case (snoc x xs)
  then show ?case
    by (cases x) (simp_all add: strip_empty_snoc nth_append TrimSlotCount_append)
qed (simp add: strip_empty_def)

lemma strip_empty_take: "strip_empty xs = take (length (strip_empty xs)) xs"
proof (induction xs rule: rev_induct)
  case (snoc x xs)
  have "length (strip_empty xs) \<le> length xs"
    unfolding strip_empty_def using length_dropWhile_le[of "\<lambda>x. x = None" "rev xs"] by simp
  then show ?case using snoc by (cases x) (simp_all add: strip_empty_snoc)
qed (simp add: strip_empty_def)

lemma length_strip_empty: "length (strip_empty xs) \<le> length xs"
  using length_dropWhile_le[of "\<lambda>x. x = None" "rev xs"] by (simp add: strip_empty_def)

lemma strip_empty_nth:
  assumes "i < length xs" "xs ! i = Some r"
  shows "i < length (strip_empty xs) \<and> strip_empty xs ! i = Some r"
  using assms
proof (induction xs rule: rev_induct)
  case (snoc x xs)
  then show ?case
    by (cases x) (auto simp: strip_empty_snoc nth_append less_Suc_eq split: if_splits)
qed simp

lemma bytes_used_strip: "bytes_used (strip_empty xs) = bytes_used xs"
proof (induction xs rule: rev_induct)
  case (snoc x xs)
  then show ?case by (cases x) (simp_all add: strip_empty_snoc)
qed (simp add: strip_empty_def)

lemma SP_DeleteRecord_wf:
  assumes wf: "sp_wf pg" and s: "s < sp_count pg" "sp_slots pg ! s = Some old"
  shows "\<exists>pg'. SP_DeleteRecord (Some pg) s = Inr pg' \<and> sp_wf pg' \<and>
      sp_slots pg' = spec_delete (sp_slots pg) s \<and> same_page pg pg' \<and>
      sp_fsp pg' + bytes_used (sp_slots pg') = PAGE_SIZE"
proof -
  note wfD = sp_wfD[OF wf]
  let ?ys = "(sp_slots pg)[s := None]"
  let ?xs = "spec_delete (sp_slots pg) s"
  let ?n = "length ?xs"
  let ?act1 = "(map (\<lambda>x. x \<noteq> None) (sp_slots pg))[s := False]"
  let ?recs1 = "(map slot_value (sp_slots pg))[s := []]"
  have act: "?act1 = map (\<lambda>x. x \<noteq> None) ?ys" and recs: "?recs1 = map slot_value ?ys"
    by (simp_all add: map_update slot_value_def)
  have n: "TrimSlotCount ?act1 (sp_count pg) = ?n"
    unfolding act using TrimSlotCount_strip[of ?ys] by (simp add: spec_delete_def)
  have take: "?xs = take ?n ?ys"
    using strip_empty_take[of ?ys] by (simp add: spec_delete_def)
  have le: "?n \<le> sp_count pg" using length_strip_empty[of ?ys] by (simp add: spec_delete_def)
  have xs: "map (slot_of (take ?n ?recs1) (take ?n ?act1)) [0..<?n] = ?xs"
    unfolding recs act take_map take[symmetric] by (rule slot_of_map_eq) simp
  have dir: "directory_end ?n \<le> PAGE_SIZE" "directory_end ?n \<le> directory_end (sp_count pg)"
    using le wfD(7) by (simp_all add: directory_end_eq)
  have used: "bytes_used ?xs \<le> bytes_used (sp_slots pg)"
    using bytes_used_update[of s "sp_slots pg" None] s by (simp add: spec_delete_def bytes_used_strip)
  have ne: "take ?n ?recs1 ! t \<noteq> []" if t: "t < ?n" "take ?n ?act1 ! t" for t
  proof -
    have "?act1 ! t" using t by simp
    then have "t \<noteq> s" "sp_slots pg ! t \<noteq> None"
      using t(1) le s(1) by (auto simp: nth_list_update split: if_splits)
    then show ?thesis using t(1) le wf_slot_nonempty[OF wf, of t]
      by (auto simp: slot_value_def)
  qed
  have "SP_DeleteRecord (Some pg) s = RewriteRecords pg ?n (take ?n ?recs1) (take ?n ?act1)"
    using wfD(2) s LoadRecords_wf[OF wf] n
    by (auto simp: SP_DeleteRecord_def Let_def)
  moreover have "directory_end ?n + bytes_used ?xs \<le> PAGE_SIZE"
    using dir used wfD(4,5) by linarith
  moreover note RewriteRecords_correct[OF wfD(1,2) dir(1), of "take ?n ?act1" "take ?n ?recs1",
      unfolded xs, OF ne]
  ultimately show ?thesis
    by (auto simp: same_page_def simp del: not_None_eq split: if_splits)
qed

text \<open>Update and deletion of a slot that holds no record are refused.\<close>

lemma SP_UpdateRecord_missing:
  assumes "sp_wf pg" "r \<noteq> []" "length r \<le> PAGE_SIZE" "s \<ge> sp_count pg \<or> sp_slots pg ! s = None"
  shows "\<exists>m. SP_UpdateRecord (Some pg) s (Some r) = Inl (NotFound m)"
  using assms sp_wfD(2)[OF assms(1)] LoadRecords_wf[OF assms(1)]
  by (auto simp: SP_UpdateRecord_def Let_def layout_simps)

lemma SP_DeleteRecord_missing:
  assumes "sp_wf pg" "s \<ge> sp_count pg \<or> sp_slots pg ! s = None"
  shows "\<exists>m. SP_DeleteRecord (Some pg) s = Inl (NotFound m)"
  using assms sp_wfD(2)[OF assms(1)] LoadRecords_wf[OF assms(1)]
  by (auto simp: SP_DeleteRecord_def Let_def)

end
