(* ===== verification/Record_Store.thy ===== *)
theory Record_Store
  imports Common
begin

text \<open>
  The contract of a container that hands out identifiers for the records put into it. A slotted
  page (identifiers are slots) and a heap file (identifiers are \<^verbatim>\<open>RecordID\<close>s) both promise it; the
  client lemmas are proved once here.
\<close>

locale record_store =
  fixes inv :: "'s \<Rightarrow> bool"
    and contents :: "'s \<Rightarrow> 'k \<Rightarrow> 'r option"
    and ins :: "'s \<Rightarrow> 'r \<Rightarrow> ('s \<times> 'k) option"
    and get :: "'s \<Rightarrow> 'k \<Rightarrow> 'r option"
    and upd :: "'s \<Rightarrow> 'k \<Rightarrow> 'r \<Rightarrow> 's option"
    and del :: "'s \<Rightarrow> 'k \<Rightarrow> 's option"
  assumes ins_law: "inv s \<Longrightarrow> ins s r = Some (s', k) \<Longrightarrow>
      inv s' \<and> contents s k = None \<and> contents s' = (contents s)(k \<mapsto> r)"
    and get_law: "inv s \<Longrightarrow> get s k = contents s k"
    and upd_law: "inv s \<Longrightarrow> upd s k r = Some s' \<Longrightarrow>
      inv s' \<and> contents s k \<noteq> None \<and> contents s' = (contents s)(k \<mapsto> r)"
    and del_law: "inv s \<Longrightarrow> del s k = Some s' \<Longrightarrow>
      inv s' \<and> contents s k \<noteq> None \<and> contents s' = (contents s)(k := None)"
begin

lemma get_after_ins:
  "inv s \<Longrightarrow> ins s r = Some (s', k) \<Longrightarrow> get s' j = (if j = k then Some r else get s j)"
  using ins_law[of s r s' k] by (simp add: get_law)

lemma get_after_upd:
  "inv s \<Longrightarrow> upd s k r = Some s' \<Longrightarrow> get s' j = (if j = k then Some r else get s j)"
  using upd_law[of s k r s'] by (simp add: get_law)

lemma get_after_del:
  "inv s \<Longrightarrow> del s k = Some s' \<Longrightarrow> get s' j = (if j = k then None else get s j)"
  using del_law[of s k s'] by (simp add: get_law)

lemma ins_fresh: "inv s \<Longrightarrow> ins s r = Some (s', k) \<Longrightarrow> get s k = None"
  using ins_law[of s r s' k] by (simp add: get_law)

text \<open>Undoing an insertion, as the rollback of a failed statement does, restores the contents.\<close>

lemma del_undoes_ins:
  assumes "inv s" "ins s r = Some (s', k)" "del s' k = Some s''"
  shows "inv s'' \<and> contents s'' = contents s"
  using ins_law[OF assms(1,2)] del_law[of s' k s''] assms(3) by auto

lemma upd_undoes_upd:
  assumes "inv s" "contents s k = Some old" "upd s k r = Some s'" "upd s' k old = Some s''"
  shows "inv s'' \<and> contents s'' = contents s"
  using upd_law[OF assms(1,3)] upd_law[of s' k old s''] assms(2,4) by auto

lemma del_twice:
  assumes "inv s" "del s k = Some s'"
  shows "del s' k = None"
proof (rule ccontr)
  assume "del s' k \<noteq> None"
  then obtain s'' where "del s' k = Some s''" by blast
  then have "contents s' k \<noteq> None" using del_law[OF assms] del_law[of s' k s''] by blast
  then show False using del_law[OF assms] by simp
qed

end

end
