(* ===== verification/Slotted_Page_Properties.thy ===== *)
theory Slotted_Page_Properties
  imports Slotted_Page_Correct Record_Store
begin

text \<open>
  The slotted page as a whole: every sequence of operations on an initialised page implements the
  same sequence on a list of slots with an exact space account, and the page meets the record-store
  contract.
\<close>

section \<open>Runs of page operations\<close>

datatype sp_op =
    SpInsert "byte list"
  | SpUpdate slot_id "byte list"
  | SpDelete slot_id
  | SpLink page_id

text \<open>The page after an operation: the code's result, or the unchanged page when it fails.\<close>

definition sp_apply :: "sp_op \<Rightarrow> page \<Rightarrow> page" where
  "sp_apply op pg = (case op of
     SpInsert r \<Rightarrow> (case SP_InsertRecord (Some pg) (Some r) of Inl _ \<Rightarrow> pg | Inr (pg', _) \<Rightarrow> pg')
   | SpUpdate s r \<Rightarrow> (case SP_UpdateRecord (Some pg) s (Some r) of Inl _ \<Rightarrow> pg | Inr pg' \<Rightarrow> pg')
   | SpDelete s \<Rightarrow> (case SP_DeleteRecord (Some pg) s of Inl _ \<Rightarrow> pg | Inr pg' \<Rightarrow> pg')
   | SpLink p \<Rightarrow> (case SP_SetNextPageId (Some pg) p of Inl _ \<Rightarrow> pg | Inr pg' \<Rightarrow> pg'))"

text \<open>A page is packed when the record area holds the records and nothing else, so that the free
  space is a function of the slots.\<close>

definition sp_inv :: "page \<Rightarrow> bool" where
  "sp_inv pg \<longleftrightarrow> sp_wf pg \<and> sp_fsp pg + bytes_used (sp_slots pg) = PAGE_SIZE"

definition spec_size :: "slots \<Rightarrow> nat" where
  "spec_size xs = PAGE_HEADER_SIZE + SLOT_ENTRY_SIZE * length xs + bytes_used xs"

definition storable :: "byte list \<Rightarrow> bool" where
  "storable r \<longleftrightarrow> r \<noteq> [] \<and> length r \<le> PAGE_SIZE"

definition occupied :: "slots \<Rightarrow> nat \<Rightarrow> bool" where
  "occupied xs s \<longleftrightarrow> s < length xs \<and> xs ! s \<noteq> None"

definition spec_apply :: "page_id \<Rightarrow> sp_op \<Rightarrow> slots \<times> page_id \<Rightarrow> slots \<times> page_id" where
  "spec_apply own op st = (let (xs, nxt) = st in case op of
     SpInsert r \<Rightarrow>
       if storable r \<and> spec_size xs + insert_cost xs r \<le> PAGE_SIZE
       then (fst (spec_insert xs r), nxt) else st
   | SpUpdate s r \<Rightarrow>
       if storable r \<and> occupied xs s \<and> spec_size (spec_update xs s r) \<le> PAGE_SIZE
       then (spec_update xs s r, nxt) else st
   | SpDelete s \<Rightarrow> if occupied xs s then (spec_delete xs s, nxt) else st
   | SpLink p \<Rightarrow> if p < INVALID_PAGE_ID \<or> p = own then st else (xs, p))"

definition sp_abs :: "page \<Rightarrow> slots \<times> page_id" where
  "sp_abs pg = (sp_slots pg, sp_next pg)"

fun op_ok :: "sp_op \<Rightarrow> bool" where
  "op_ok (SpLink p) = is_i32 p"
| "op_ok _ = True"

lemma spec_size_eq: "sp_inv pg \<Longrightarrow> spec_size (sp_slots pg) + sp_free pg = PAGE_SIZE"
  using sp_wfD[of pg] by (simp add: sp_inv_def spec_size_def sp_free_wf directory_end_eq layout_simps)

lemma insert_bad_record:
  "sp_wf pg \<Longrightarrow> \<not> storable r \<Longrightarrow> \<exists>m. SP_InsertRecord (Some pg) (Some r) = Inl (InvalidArgument m)"
  using sp_wfD(2)[of pg] by (auto simp: SP_InsertRecord_def storable_def)

lemma update_bad_record:
  "sp_wf pg \<Longrightarrow> \<not> storable r \<Longrightarrow> \<exists>m. SP_UpdateRecord (Some pg) s (Some r) = Inl (InvalidArgument m)"
  using sp_wfD(2)[of pg] by (auto simp: SP_UpdateRecord_def storable_def)

lemma spec_insert_used:
  "bytes_used (fst (spec_insert xs r)) = bytes_used xs + length r"
  "SLOT_ENTRY_SIZE * length (fst (spec_insert xs r)) + length r =
     SLOT_ENTRY_SIZE * length xs + insert_cost xs r"
  using bytes_used_update[of _ xs "Some r"] first_free_Some[of xs] first_free_None[of xs]
  by (auto simp: spec_insert_def insert_cost_def split: option.splits) fastforce

lemma sp_apply_insert:
  assumes "sp_inv pg"
  shows "sp_inv (sp_apply (SpInsert r) pg) \<and> page_pid (sp_apply (SpInsert r) pg) = page_pid pg \<and>
    sp_abs (sp_apply (SpInsert r) pg) = spec_apply (page_pid pg) (SpInsert r) (sp_abs pg)"
proof (cases "storable r")
  case False
  then show ?thesis
    using assms insert_bad_record[of pg r]
    by (auto simp: sp_inv_def sp_apply_def spec_apply_def sp_abs_def)
next
  case True
  have wf: "sp_wf pg" using assms by (simp add: sp_inv_def)
  note I = SP_InsertRecord_wf[OF wf, of r]
  show ?thesis
  proof (cases "sp_free pg < insert_cost (sp_slots pg) r")
    case full: True
    then show ?thesis using True I assms spec_size_eq[OF assms]
      by (simp add: storable_def sp_apply_def spec_apply_def sp_abs_def)
  next
    case False
    then obtain pg' k where pg': "SP_InsertRecord (Some pg) (Some r) = Inr (pg', k)" "sp_wf pg'"
      "sp_slots pg' = fst (spec_insert (sp_slots pg) r)" "same_page pg pg'"
      "sp_free pg' + insert_cost (sp_slots pg) r = sp_free pg"
      using I True by (auto simp: storable_def)
    have "sp_fsp pg' + bytes_used (sp_slots pg') = PAGE_SIZE"
      using pg' spec_size_eq[OF assms] sp_free_wf[OF pg'(2)] sp_wfD(5)[OF pg'(2)]
        spec_insert_used[of "sp_slots pg" r] length_sp_slots[of pg'] length_sp_slots[of pg]
      by (simp add: spec_size_def directory_end_eq layout_simps)
    then show ?thesis using pg' False True spec_size_eq[OF assms]
      by (simp add: sp_inv_def sp_apply_def spec_apply_def sp_abs_def same_page_def)
  qed
qed

lemma sp_apply_update:
  assumes "sp_inv pg"
  shows "sp_inv (sp_apply (SpUpdate s r) pg) \<and> page_pid (sp_apply (SpUpdate s r) pg) = page_pid pg \<and>
    sp_abs (sp_apply (SpUpdate s r) pg) = spec_apply (page_pid pg) (SpUpdate s r) (sp_abs pg)"
proof -
  have wf: "sp_wf pg" using assms by (simp add: sp_inv_def)
  consider (bad) "\<not> storable r" | (missing) "storable r" "\<not> occupied (sp_slots pg) s"
    | (ok) old where "storable r" "s < sp_count pg" "sp_slots pg ! s = Some old"
    by (cases "storable r"; cases "s < sp_count pg"; cases "sp_slots pg ! s")
       (auto simp: occupied_def)
  then show ?thesis
  proof cases
    case bad
    then show ?thesis using update_bad_record[OF wf bad, of s] assms
      by (auto simp: sp_apply_def spec_apply_def sp_abs_def)
  next
    case missing
    then show ?thesis using SP_UpdateRecord_missing[OF wf, of r s] assms
      by (auto simp: sp_apply_def spec_apply_def sp_abs_def storable_def occupied_def not_less)
  next
    case ok
    note U = SP_UpdateRecord_wf[OF wf _ _ ok(2,3), of r]
    have sz: "directory_end (sp_count pg) + bytes_used (spec_update (sp_slots pg) s r) =
        spec_size (spec_update (sp_slots pg) s r)"
      by (simp add: spec_size_def spec_update_def directory_end_eq layout_simps)
    show ?thesis using U ok assms
      by (auto simp: sz storable_def occupied_def sp_apply_def spec_apply_def sp_abs_def sp_inv_def
          same_page_def not_less split: if_splits)
  qed
qed

lemma sp_apply_delete:
  assumes "sp_inv pg"
  shows "sp_inv (sp_apply (SpDelete s) pg) \<and> page_pid (sp_apply (SpDelete s) pg) = page_pid pg \<and>
    sp_abs (sp_apply (SpDelete s) pg) = spec_apply (page_pid pg) (SpDelete s) (sp_abs pg)"
proof (cases "occupied (sp_slots pg) s")
  case False
  then show ?thesis using SP_DeleteRecord_missing[of pg s] assms
    by (auto simp: sp_inv_def sp_apply_def spec_apply_def sp_abs_def occupied_def not_less)
next
  case True
  then obtain old where "s < sp_count pg" "sp_slots pg ! s = Some old" by (auto simp: occupied_def)
  then show ?thesis using SP_DeleteRecord_wf[of pg s old] assms True
    by (auto simp: sp_inv_def sp_apply_def spec_apply_def sp_abs_def same_page_def)
qed

lemma sp_apply_link:
  assumes "sp_inv pg" "is_i32 p"
  shows "sp_inv (sp_apply (SpLink p) pg) \<and> page_pid (sp_apply (SpLink p) pg) = page_pid pg \<and>
    sp_abs (sp_apply (SpLink p) pg) = spec_apply (page_pid pg) (SpLink p) (sp_abs pg)"
proof (cases "p < INVALID_PAGE_ID \<or> p = page_pid pg")
  case True
  then have "\<exists>m. SP_SetNextPageId (Some pg) p = Inl (InvalidArgument m)"
    using assms sp_wfD(2)[of pg] by (auto simp: SP_SetNextPageId_def sp_inv_def)
  then show ?thesis using assms True by (auto simp: sp_apply_def spec_apply_def sp_abs_def)
next
  case False
  then obtain pg' where pg': "SP_SetNextPageId (Some pg) p = Inr pg'" "sp_wf pg'"
    "sp_slots pg' = sp_slots pg" "sp_next pg' = p" "page_pid pg' = page_pid pg"
    using SP_SetNextPageId_wf[of pg p] assms by (auto simp: sp_inv_def)
  have "sp_fsp pg' = sp_fsp pg"
  proof -
    have "page_data pg' = WriteValue_i32 (page_data pg) 8 p"
      using pg'(1) by (auto simp: SP_SetNextPageId_def layout_simps split: if_splits)
    then show ?thesis using sp_wfD(1)[of pg] assms(1)
      by (simp add: sp_fsp_def sp_inv_def layout_simps buf_simps)
  qed
  then show ?thesis using pg' False assms
    by (auto simp: sp_inv_def sp_apply_def spec_apply_def sp_abs_def)
qed

lemma sp_apply_refines:
  assumes "sp_inv pg" "op_ok op"
  shows "sp_inv (sp_apply op pg) \<and> page_pid (sp_apply op pg) = page_pid pg \<and>
    sp_abs (sp_apply op pg) = spec_apply (page_pid pg) op (sp_abs pg)"
  using assms sp_apply_insert sp_apply_update sp_apply_delete sp_apply_link by (cases op) auto

lemma sp_run_refines:
  assumes "sp_inv pg" "\<forall>op \<in> set ops. op_ok op"
  shows "sp_inv (fold sp_apply ops pg) \<and> page_pid (fold sp_apply ops pg) = page_pid pg \<and>
    sp_abs (fold sp_apply ops pg) = fold (spec_apply (page_pid pg)) ops (sp_abs pg)"
  using assms
proof (induction ops arbitrary: pg)
  case (Cons op ops)
  have A: "sp_inv (sp_apply op pg)" "page_pid (sp_apply op pg) = page_pid pg"
    "sp_abs (sp_apply op pg) = spec_apply (page_pid pg) op (sp_abs pg)"
    using sp_apply_refines Cons.prems by simp_all
  show ?case using Cons.IH[OF A(1)] Cons.prems A(2,3) by simp
qed simp

lemma SP_Init_inv:
  assumes "page_pid pg \<noteq> INVALID_PAGE_ID" "is_i32 (page_pid pg)"
  shows "\<exists>pg'. SP_Init (Some pg) = Inr pg' \<and> sp_inv pg' \<and> sp_abs pg' = ([], INVALID_PAGE_ID) \<and>
    page_pid pg' = page_pid pg \<and> pin_count pg' = pin_count pg \<and> is_dirty pg'"
  using SP_Init_wf[OF assms] SP_Init_page[OF assms(1)] by (auto simp: sp_inv_def sp_abs_def)

section \<open>The record-store contract\<close>

definition sp_contents :: "page \<Rightarrow> slot_id \<Rightarrow> byte list option" where
  "sp_contents pg s = (if s < sp_count pg then sp_slots pg ! s else None)"

definition sp_ins :: "page \<Rightarrow> byte list \<Rightarrow> (page \<times> slot_id) option" where
  "sp_ins pg r = (case SP_InsertRecord (Some pg) (Some r) of Inl _ \<Rightarrow> None | Inr x \<Rightarrow> Some x)"

definition sp_get :: "page \<Rightarrow> slot_id \<Rightarrow> byte list option" where
  "sp_get pg s = (case SP_ReadRecord (Some pg) s of Inl _ \<Rightarrow> None | Inr r \<Rightarrow> Some (rec_data r))"

definition sp_upd :: "page \<Rightarrow> slot_id \<Rightarrow> byte list \<Rightarrow> page option" where
  "sp_upd pg s r = (case SP_UpdateRecord (Some pg) s (Some r) of Inl _ \<Rightarrow> None | Inr pg' \<Rightarrow> Some pg')"

definition sp_del :: "page \<Rightarrow> slot_id \<Rightarrow> page option" where
  "sp_del pg s = (case SP_DeleteRecord (Some pg) s of Inl _ \<Rightarrow> None | Inr pg' \<Rightarrow> Some pg')"

lemma sp_contents_slots:
  "sp_slots pg' = xs \<Longrightarrow> sp_contents pg' = (\<lambda>s. if s < length xs then xs ! s else None)"
  by (auto simp: sp_contents_def fun_eq_iff simp flip: length_sp_slots)

lemma strip_empty_lookup:
  "(if s < length (strip_empty xs) then strip_empty xs ! s else None) =
   (if s < length xs then xs ! s else None)"
proof (induction xs rule: rev_induct)
  case (snoc x xs)
  then show ?case using length_strip_empty[of xs]
    by (cases x) (auto simp: strip_empty_snoc nth_append)
qed (simp add: strip_empty_def)

lemma sp_ins_law:
  assumes "sp_inv pg" "sp_ins pg r = Some (pg', k)"
  shows "sp_inv pg' \<and> sp_contents pg k = None \<and> sp_contents pg' = (sp_contents pg)(k \<mapsto> r)"
proof -
  have eq: "SP_InsertRecord (Some pg) (Some r) = Inr (pg', k)"
    using assms(2) by (auto simp: sp_ins_def split: sum.splits)
  have wf: "sp_wf pg" using assms(1) by (simp add: sp_inv_def)
  have st: "storable r" using insert_bad_record[OF wf, of r] eq by fastforce
  have k: "k = snd (spec_insert (sp_slots pg) r)"
    "sp_slots pg' = fst (spec_insert (sp_slots pg) r)"
    using SP_InsertRecord_wf[OF wf, of r] st eq by (auto simp: storable_def split: if_splits)
  have "sp_inv pg'" using sp_apply_insert[OF assms(1), of r] eq by (simp add: sp_apply_def)
  moreover have "sp_contents pg k = None \<and> sp_contents pg' = (sp_contents pg)(k \<mapsto> r)"
    using k(1) sp_contents_slots[OF k(2)] sp_contents_slots[of pg "sp_slots pg"]
      first_free_Some[of "sp_slots pg"]
    by (auto simp: spec_insert_def fun_eq_iff nth_append nth_list_update split: option.splits)
  ultimately show ?thesis by simp
qed

lemma sp_upd_law:
  assumes "sp_inv pg" "sp_upd pg k r = Some pg'"
  shows "sp_inv pg' \<and> sp_contents pg k \<noteq> None \<and> sp_contents pg' = (sp_contents pg)(k \<mapsto> r)"
proof -
  have eq: "SP_UpdateRecord (Some pg) k (Some r) = Inr pg'"
    using assms(2) by (auto simp: sp_upd_def split: sum.splits)
  have wf: "sp_wf pg" using assms(1) by (simp add: sp_inv_def)
  have st: "storable r" using update_bad_record[OF wf, of r k] eq by fastforce
  then obtain old where k: "k < sp_count pg" "sp_slots pg ! k = Some old"
    using SP_UpdateRecord_missing[OF wf, of r k] eq by (fastforce simp: storable_def)
  have sl: "sp_slots pg' = spec_update (sp_slots pg) k r"
    using SP_UpdateRecord_wf[OF wf _ _ k, of r] st eq by (auto simp: storable_def split: if_splits)
  have "sp_inv pg'" using sp_apply_update[OF assms(1), of k r] eq by (simp add: sp_apply_def)
  then show ?thesis
    using k sp_contents_slots[OF sl] sp_contents_slots[of pg "sp_slots pg"]
    by (auto simp: spec_update_def fun_eq_iff nth_list_update)
qed

lemma sp_del_law:
  assumes "sp_inv pg" "sp_del pg k = Some pg'"
  shows "sp_inv pg' \<and> sp_contents pg k \<noteq> None \<and> sp_contents pg' = (sp_contents pg)(k := None)"
proof -
  have eq: "SP_DeleteRecord (Some pg) k = Inr pg'"
    using assms(2) by (auto simp: sp_del_def split: sum.splits)
  have wf: "sp_wf pg" using assms(1) by (simp add: sp_inv_def)
  then obtain old where k: "k < sp_count pg" "sp_slots pg ! k = Some old"
    using SP_DeleteRecord_missing[OF wf, of k] eq by fastforce
  have sl: "sp_slots pg' = strip_empty ((sp_slots pg)[k := None])"
    using SP_DeleteRecord_wf[OF wf k] eq by (auto simp: spec_delete_def)
  have "sp_inv pg'" using sp_apply_delete[OF assms(1), of k] eq by (simp add: sp_apply_def)
  then show ?thesis
    using k sp_contents_slots[OF sl] sp_contents_slots[of pg "sp_slots pg"]
      strip_empty_lookup[of _ "(sp_slots pg)[k := None]"]
    by (auto simp: fun_eq_iff nth_list_update)
qed

interpretation sp_store: record_store sp_inv sp_contents sp_ins sp_get sp_upd sp_del
proof unfold_locales
  fix pg k
  assume "sp_inv pg"
  then show "sp_get pg k = sp_contents pg k"
    by (auto simp: sp_get_def sp_contents_def SP_ReadRecord_wf sp_inv_def split: option.splits)
qed (fact sp_ins_law sp_upd_law sp_del_law)+

section \<open>Properties\<close>

text \<open>
  C18. Any sequence of insertions, updates, deletions and links on an initialised slotted page
  behaves as the same sequence on a list of slots: the page stays well-formed, holds exactly the
  records of the abstract run, and its free space is exactly what the abstract run leaves. An
  operation fails, leaving the page unchanged, exactly when the abstract one does.
\<close>

theorem slotted_page_refinement:
  assumes "SP_Init (Some pg0) = Inr pg" "is_i32 (page_pid pg0)" "\<forall>op \<in> set ops. op_ok op"
  shows "sp_wf (fold sp_apply ops pg) \<and>
    sp_abs (fold sp_apply ops pg) = fold (spec_apply (page_pid pg0)) ops ([], INVALID_PAGE_ID) \<and>
    spec_size (sp_slots (fold sp_apply ops pg)) + sp_free (fold sp_apply ops pg) = PAGE_SIZE"
proof -
  have "page_pid pg0 \<noteq> INVALID_PAGE_ID" using assms(1) by (auto simp: SP_Init_def)
  then have "sp_inv pg" "sp_abs pg = ([], INVALID_PAGE_ID)" "page_pid pg = page_pid pg0"
    using SP_Init_inv[of pg0] assms(1,2) by auto
  then show ?thesis using sp_run_refines[of pg ops] spec_size_eq assms(3) by (simp add: sp_inv_def)
qed

theorem slotted_page_refinement_witness:
  "\<exists>pg. SP_Init (Some (new_Page\<lparr>page_pid := 1\<rparr>)) = Inr pg \<and>
     sp_slots (fold sp_apply [SpInsert ''ab'', SpInsert ''cde'', SpDelete 0, SpInsert ''f'', SpLink 7] pg)
       = [Some ''f'', Some ''cde'']"
proof -
  obtain pg where pg: "SP_Init (Some (new_Page\<lparr>page_pid := 1\<rparr>)) = Inr pg"
    using SP_Init_page[of "new_Page\<lparr>page_pid := 1\<rparr>"] by (auto simp: layout_simps)
  show ?thesis
    using slotted_page_refinement[OF pg, of "[SpInsert ''ab'', SpInsert ''cde'', SpDelete 0, SpInsert ''f'', SpLink 7]"] pg
    by (simp add: is_i32_def spec_apply_def storable_def spec_size_def insert_cost_def spec_insert_def
        first_free_def occupied_def spec_delete_def strip_empty_def layout_simps sp_abs_def)
qed

text \<open>
  A record inserted into a slotted page is read back under the slot that the insertion returned,
  that slot was unused before, and every other slot reads as it did before the insertion, with the
  same record or the same error.
\<close>

theorem slotted_insert_then_read:
  assumes "sp_inv pg" "SP_InsertRecord (Some pg) (Some r) = Inr (pg', k)"
  shows "SP_ReadRecord (Some pg') j =
      (if j = k then Inr (Record (RecordID (page_pid pg) k) r) else SP_ReadRecord (Some pg) j) \<and>
    (\<exists>m. SP_ReadRecord (Some pg) k = Inl (NotFound m))"
proof -
  have wf: "sp_wf pg" using assms(1) by (simp add: sp_inv_def)
  have "sp_ins pg r = Some (pg', k)" using assms(2) by (simp add: sp_ins_def)
  then have law: "sp_inv pg'" "sp_contents pg k = None" "sp_contents pg' = (sp_contents pg)(k \<mapsto> r)"
    using sp_store.ins_law[OF assms(1)] by blast+
  have pid: "page_pid pg' = page_pid pg"
    using sp_apply_insert[OF assms(1), of r] assms(2) by (simp add: sp_apply_def)
  have r: "storable r" using insert_bad_record[OF wf, of r] assms(2) by fastforce
  have k: "k = snd (spec_insert (sp_slots pg) r)" "sp_slots pg' = fst (spec_insert (sp_slots pg) r)"
    using SP_InsertRecord_wf[OF wf, of r] r assms(2) by (auto simp: storable_def split: if_splits)
  have cnt: "j \<noteq> k \<Longrightarrow> j < sp_count pg' \<longleftrightarrow> j < sp_count pg"
    using k first_free_Some[of "sp_slots pg"] length_sp_slots[of pg'] length_sp_slots[of pg]
    by (auto simp: spec_insert_def split: option.splits)
  have "sp_slots pg' ! j = sp_slots pg ! j" if "j \<noteq> k" "j < sp_count pg"
    using fun_cong[OF law(3), of j] that cnt by (simp add: sp_contents_def)
  moreover have "k < sp_count pg'" "sp_slots pg' ! k = Some r"
    using fun_cong[OF law(3), of k] by (auto simp: sp_contents_def split: if_splits)
  moreover have "\<exists>m. SP_ReadRecord (Some pg) k = Inl (NotFound m)"
    using law(2) wf by (auto simp: SP_ReadRecord_wf sp_contents_def split: if_splits)
  ultimately show ?thesis
    using law(1) wf cnt pid
    by (cases "j = k") (auto simp: SP_ReadRecord_wf sp_inv_def not_le split: option.splits)
qed

text \<open>A concrete page for the witnesses: page 1, freshly initialised.\<close>

lemma SP_Init_example:
  "\<exists>pg. SP_Init (Some (new_Page\<lparr>page_pid := 1\<rparr>)) = Inr pg \<and> sp_inv pg \<and>
     sp_slots pg = [] \<and> sp_free pg = 4080 \<and> page_pid pg = 1"
proof -
  obtain pg where pg: "SP_Init (Some (new_Page\<lparr>page_pid := 1\<rparr>)) = Inr pg" "sp_inv pg"
      "sp_abs pg = ([], INVALID_PAGE_ID)" "page_pid pg = 1"
    using SP_Init_inv[of "new_Page\<lparr>page_pid := 1\<rparr>"] by (auto simp: is_i32_def layout_simps)
  then show ?thesis using spec_size_eq[OF pg(2)]
    by (auto simp: sp_abs_def spec_size_def layout_simps)
qed

lemma insert_example:
  "\<exists>pg pg'. SP_InsertRecord (Some pg) (Some ''ab'') = Inr (pg', 0) \<and> sp_inv pg \<and> sp_inv pg' \<and>
     sp_slots pg' = [Some ''ab''] \<and> page_pid pg = 1 \<and> page_pid pg' = 1 \<and> sp_free pg' = 4074"
proof -
  obtain pg where pg: "sp_inv pg" "sp_slots pg = []" "sp_free pg = 4080" "page_pid pg = 1"
    using SP_Init_example by blast
  have wf: "sp_wf pg" using pg(1) by (simp add: sp_inv_def)
  obtain pg' where "SP_InsertRecord (Some pg) (Some ''ab'') = Inr (pg', 0)"
      "sp_slots pg' = [Some ''ab'']" "sp_free pg' = 4074"
    using SP_InsertRecord_wf[OF wf, of "''ab''"] pg
    by (auto simp: insert_cost_def spec_insert_def first_free_def layout_simps)
  then show ?thesis
    using pg sp_apply_insert[OF pg(1), of "''ab''"] by (auto simp: sp_apply_def)
qed

theorem slotted_insert_then_read_witness:
  "\<exists>pg pg'. SP_InsertRecord (Some pg) (Some ''ab'') = Inr (pg', 0) \<and>
     SP_ReadRecord (Some pg') 0 = Inr (Record (RecordID 1 0) ''ab'')"
  using insert_example slotted_insert_then_read[of _ "''ab''" _ 0 0] by metis

lemma spec_delete_size:
  assumes "k < length xs" "xs ! k = Some old"
  shows "spec_size (spec_delete xs k) + length old \<le> spec_size xs"
proof -
  have "bytes_used (spec_delete xs k) = bytes_used (xs[k := None])"
  proof -
    have "bytes_used (strip_empty ys) = bytes_used ys" for ys
      by (induction ys rule: rev_induct)
         (auto simp: strip_empty_snoc strip_empty_def bytes_used_def slot_bytes_def split: option.splits)
    then show ?thesis by (simp add: spec_delete_def)
  qed
  moreover have "bytes_used (xs[k := None]) + length old = bytes_used xs"
    using bytes_used_update[OF assms(1), of None] assms(2) by (simp add: slot_bytes_def)
  moreover have "length (spec_delete xs k) \<le> length xs"
    using length_strip_empty[of "xs[k := None]"] by (simp add: spec_delete_def)
  ultimately show ?thesis by (simp add: spec_size_def)
qed

lemma SP_ReadRecord_get:
  assumes "sp_wf pg"
  shows "case sp_contents pg j of
      None \<Rightarrow> (\<exists>m. SP_ReadRecord (Some pg) j = Inl (NotFound m))
    | Some r \<Rightarrow> SP_ReadRecord (Some pg) j = Inr (Record (RecordID (page_pid pg) j) r)"
  using SP_ReadRecord_wf[OF assms, of j] by (auto simp: sp_contents_def not_less split: option.splits)

text \<open>
  Deleting a stored record always succeeds, gives back at least the record's bytes, makes
  the slot unreadable, and every other slot that held a record still reads the same record under the
  same identifier, although the page has been compacted.
\<close>

theorem slotted_delete_frees:
  assumes "sp_inv pg" "SP_ReadRecord (Some pg) k = Inr rec"
  shows "\<exists>pg'. SP_DeleteRecord (Some pg) k = Inr pg' \<and> sp_inv pg' \<and>
    sp_free pg + GetSize rec \<le> sp_free pg' \<and>
    (\<exists>m. SP_ReadRecord (Some pg') k = Inl (NotFound m)) \<and>
    (\<forall>j r. j \<noteq> k \<longrightarrow> SP_ReadRecord (Some pg') j = Inr r \<longleftrightarrow> SP_ReadRecord (Some pg) j = Inr r)"
proof -
  have wf: "sp_wf pg" using assms(1) by (simp add: sp_inv_def)
  obtain old where k: "k < sp_count pg" "sp_slots pg ! k = Some old" "rec_data rec = old"
    using assms(2) by (auto simp: SP_ReadRecord_wf[OF wf] split: if_splits option.splits)
  obtain pg' where d: "SP_DeleteRecord (Some pg) k = Inr pg'" "sp_slots pg' = spec_delete (sp_slots pg) k"
    "same_page pg pg'"
    using SP_DeleteRecord_wf[OF wf k(1,2)] by blast
  have "sp_del pg k = Some pg'" using d(1) by (simp add: sp_del_def)
  then have law: "sp_inv pg'" "sp_contents pg' = (sp_contents pg)(k := None)"
    using sp_store.del_law[OF assms(1)] by blast+
  have wf': "sp_wf pg'" using law(1) by (simp add: sp_inv_def)
  have "sp_free pg + length old \<le> sp_free pg'"
    using spec_delete_size[OF _ k(2)] k(1) length_sp_slots[of pg] spec_size_eq[OF assms(1)]
      spec_size_eq[OF law(1)] d(2) by simp
  moreover have "\<exists>m. SP_ReadRecord (Some pg') k = Inl (NotFound m)"
    using SP_ReadRecord_get[OF wf', of k] law(2) by simp
  moreover have "SP_ReadRecord (Some pg') j = Inr r \<longleftrightarrow> SP_ReadRecord (Some pg) j = Inr r" if "j \<noteq> k" for j r
    using SP_ReadRecord_get[OF wf', of j] SP_ReadRecord_get[OF wf, of j] law(2) that d(3)
    by (cases "sp_contents pg j") (auto simp: same_page_def)
  ultimately show ?thesis using d(1) law(1) k(3) by (auto simp: GetSize_def)
qed

theorem slotted_delete_frees_witness:
  "\<exists>pg pg'. SP_DeleteRecord (Some pg) 0 = Inr pg' \<and> sp_free pg = 4074 \<and> 4076 \<le> sp_free pg'"
proof -
  obtain pg where pg: "sp_inv pg" "sp_slots pg = [Some ''ab'']" "page_pid pg = 1" "sp_free pg = 4074"
    using insert_example by blast
  have wf: "sp_wf pg" using pg(1) by (simp add: sp_inv_def)
  have "sp_count pg = 1" using length_sp_slots[of pg] pg(2) by simp
  then have "SP_ReadRecord (Some pg) 0 = Inr (Record (RecordID 1 0) ''ab'')"
    using pg(2,3) by (simp add: SP_ReadRecord_wf[OF wf])
  from slotted_delete_frees[OF pg(1) this] show ?thesis using pg(4) by (auto simp: GetSize_def)
qed

text \<open>
  An insertion fails exactly for the right reasons: a record that is empty or larger than a page
  is an invalid argument, and a storable one is refused as out of memory exactly when its bytes, with
  a directory entry unless a slot can be reused, exceed the free space; otherwise it is stored in the
  first reusable slot and costs exactly that much.
\<close>

theorem slotted_insert_outcome:
  assumes "sp_inv pg"
  shows "case SP_InsertRecord (Some pg) (Some r) of
      Inl st \<Rightarrow> status_code st = (if storable r then OUT_OF_MEMORY else INVALID_ARGUMENT) \<and>
        (storable r \<longrightarrow> sp_free pg < insert_cost (sp_slots pg) r)
    | Inr (pg', k) \<Rightarrow> storable r \<and> k = snd (spec_insert (sp_slots pg) r) \<and>
        sp_free pg' + insert_cost (sp_slots pg) r = sp_free pg"
proof -
  have wf: "sp_wf pg" using assms by (simp add: sp_inv_def)
  show ?thesis
  proof (cases "storable r")
    case False
    then show ?thesis using insert_bad_record[OF wf False] by auto
  next
    case True
    then show ?thesis using SP_InsertRecord_wf[OF wf, of r]
      by (auto simp: storable_def split: if_splits)
  qed
qed

theorem slotted_insert_outcome_witness:
  "\<exists>pg st. SP_InsertRecord (Some pg) (Some []) = Inl st \<and> status_code st = INVALID_ARGUMENT \<and> sp_free pg = 4080"
proof -
  obtain pg where pg: "sp_inv pg" "sp_free pg = 4080" using SP_Init_example by blast
  have "\<not> storable []" by (simp add: storable_def)
  then show ?thesis using slotted_insert_outcome[OF pg(1), of "[]"] pg(2)
    by (auto split: sum.splits)
qed

end
