(* ===== verification/Record_Codec.thy ===== *)
theory Record_Codec
  imports Common "HOL-Library.Word"
begin

text \<open>
  The record codec (storage/record_codec.h, storage/record_codec.cpp): a row of field values is
  stored as a column count, a null bitmap, one offset per column and the concatenated fields. The
  definitions follow the code; \<open>field_bytes\<close>, \<open>field_ok\<close> and \<open>record_image\<close> below are the
  specification the lemmas measure it against. A null \<^verbatim>\<open>record\<close> pointer is \<open>None\<close>; the value
  pointers \<^verbatim>\<open>values\<close> and \<^verbatim>\<open>value\<close> are pure outputs, so their null checks have no counterpart.
\<close>

unbundle bit_operations_syntax

section \<open>The code\<close>

datatype field_value = FNull | FInt "32 word" | FStr string | FBool bool

definition NullBitmapSize :: "nat \<Rightarrow> nat" where
  "NullBitmapSize column_count = (column_count + 7) div 8"

definition IsNull :: "8 word list \<Rightarrow> nat \<Rightarrow> bool" where
  "IsNull bitmap index \<longleftrightarrow> (bitmap ! (index div 8)) AND push_bit (index mod 8) 1 \<noteq> 0"

definition SetNull :: "8 word list \<Rightarrow> nat \<Rightarrow> 8 word list" where
  "SetNull bitmap index =
     bitmap[index div 8 := (bitmap ! (index div 8)) OR push_bit (index mod 8) 1]"

definition byte_of_u8 :: "8 word \<Rightarrow> byte" where "byte_of_u8 w = char_of (unat w)"

definition u8_of_byte :: "byte \<Rightarrow> 8 word" where "u8_of_byte b = of_nat (of_char b)"

definition AppendValue_int32 :: "byte list \<Rightarrow> 32 word \<Rightarrow> byte list" where
  "AppendValue_int32 payload v = payload @ le_bytes 4 (unat v)"

definition ReadValue_int32 :: "byte list \<Rightarrow> 32 word" where
  "ReadValue_int32 data = of_nat (le_nat (take 4 data))"

definition ValidateOffset :: "nat \<Rightarrow> nat \<Rightarrow> status" where
  "ValidateOffset offset payload_size =
     (if offset > payload_size then IOError ''Corrupted record column offset'' else Status_OK)"

text \<open>The body of the loop of \<^verbatim>\<open>Serialize\<close>; its state is the null bitmap, the offsets and the
  payload.\<close>

definition Serialize_step ::
  "schema \<Rightarrow> field_value list \<Rightarrow> nat \<Rightarrow> 8 word list \<times> nat list \<times> byte list \<Rightarrow>
   (8 word list \<times> nat list \<times> byte list) result" where
  "Serialize_step columns values index = (\<lambda>(null_bitmap, offsets, payload).
     if length payload > 65535 then Inl (OutOfMemory ''Record payload is too large'')
     else
       let offsets = offsets[index := u16 (int (length payload))];
           value = values ! index;
           column = columns ! index
       in if value = FNull then Inr (SetNull null_bitmap index, offsets, payload)
          else (case col_type column of
              INTEGER \<Rightarrow> (case value of
                  FInt v \<Rightarrow> Inr (null_bitmap, offsets, AppendValue_int32 payload v)
                | _ \<Rightarrow> Inl (InvalidArgument ''INTEGER column received an incompatible value''))
            | BOOLEAN \<Rightarrow> (case value of
                  FBool b \<Rightarrow>
                    Inr (null_bitmap, offsets, payload @ [if b then CHR 0x01 else CHR 0x00])
                | _ \<Rightarrow> Inl (InvalidArgument ''BOOLEAN column received an incompatible value''))
            | VARCHAR \<Rightarrow> (case value of
                  FStr s \<Rightarrow>
                    if col_length column > 0 \<and> length s > col_length column
                    then Inl (InvalidArgument ''VARCHAR value exceeds the declared length'')
                    else Inr (null_bitmap, offsets, payload @ s)
                | _ \<Rightarrow> Inl (InvalidArgument ''VARCHAR column received an incompatible value''))))"

definition Serialize :: "schema \<Rightarrow> field_value list \<Rightarrow> db_record option \<Rightarrow> db_record result" where
  "Serialize columns values rec = (case rec of
     None \<Rightarrow> Inl (InvalidArgument ''Record output cannot be null'')
   | Some r \<Rightarrow>
     if length values \<noteq> length columns
     then Inl (InvalidArgument ''Value count does not match schema'')
     else if length columns > 65535 then Inl (InvalidArgument ''Schema has too many columns'')
     else
       let column_count = u16 (int (length columns));
           bitmap_size = NullBitmapSize column_count;
           header_size = 2 + bitmap_size + column_count * 2
       in if header_size > 65535 then Inl (InvalidArgument ''Record header is too large'')
          else (case for_each (Serialize_step columns values) [0..<length columns]
                       (replicate bitmap_size 0, replicate column_count 0, []) of
              Inl st \<Rightarrow> Inl st
            | Inr (null_bitmap, offsets, payload) \<Rightarrow>
                let total_size = header_size + length payload
                in if total_size > 65535 then Inl (OutOfMemory ''Serialized record is too large'')
                   else
                     let serialized = replicate total_size zero_byte;
                         serialized = mem_write serialized 0 (le_bytes 2 column_count);
                         serialized = mem_write serialized 2 (map byte_of_u8 null_bitmap);
                         serialized = mem_write serialized (2 + bitmap_size)
                           (concat (map (le_bytes 2) offsets));
                         serialized = mem_write serialized (2 + bitmap_size + 2 * length offsets)
                           payload
                     in Inr (SetData r serialized)))"

definition CheckOffset_step :: "nat \<Rightarrow> nat \<Rightarrow> nat \<Rightarrow> nat result" where
  "CheckOffset_step payload_size offset previous_offset =
     (if \<not> status_ok (ValidateOffset offset payload_size) then Inl (ValidateOffset offset payload_size)
      else if offset < previous_offset then Inl (IOError ''Record column offsets are not ordered'')
      else Inr offset)"

definition Deserialize_step ::
  "schema \<Rightarrow> 8 word list \<Rightarrow> nat list \<Rightarrow> byte list \<Rightarrow> nat \<Rightarrow> field_value list \<Rightarrow> field_value list result" where
  "Deserialize_step columns null_bitmap offsets payload index values =
     (let payload_size = length payload;
          start = offsets ! index;
          end = (if index + 1 < length offsets then offsets ! (index + 1) else payload_size)
      in if end < start \<or> end > payload_size then Inl (IOError ''Corrupted record column bounds'')
         else if IsNull null_bitmap index then Inr (values @ [FNull])
         else
           let field_size = end - start; field_data = drop start payload
           in case col_type (columns ! index) of
               INTEGER \<Rightarrow>
                 if field_size \<noteq> 4 then Inl (IOError ''Corrupted INTEGER field'')
                 else Inr (values @ [FInt (ReadValue_int32 field_data)])
             | BOOLEAN \<Rightarrow>
                 if field_size \<noteq> 1 then Inl (IOError ''Corrupted BOOLEAN field'')
                 else Inr (values @ [FBool (field_data ! 0 \<noteq> CHR 0x00)])
             | VARCHAR \<Rightarrow> Inr (values @ [FStr (take field_size field_data)]))"

definition Deserialize :: "schema \<Rightarrow> db_record \<Rightarrow> field_value list result" where
  "Deserialize columns r =
     (let data = rec_data r; record_size = GetSize r
      in if record_size < 2 then Inl (IOError ''Record is too small to contain a header'')
         else
           let stored_column_count = ReadValue_u16 data 0
           in if stored_column_count \<noteq> length columns
              then Inl (IOError ''Record column count does not match schema'')
              else
                let bitmap_size = NullBitmapSize stored_column_count;
                    header_size = 2 + bitmap_size + stored_column_count * 2
                in if header_size > record_size then Inl (IOError ''Corrupted record header'')
                   else
                     let null_bitmap = map u8_of_byte (mem_read data 2 bitmap_size);
                         offsets = map (\<lambda>i. ReadValue_u16 data (2 + bitmap_size + 2 * i))
                           [0..<stored_column_count];
                         payload = drop header_size data
                     in case for_each (CheckOffset_step (length payload)) offsets 0 of
                          Inl st \<Rightarrow> Inl st
                        | Inr _ \<Rightarrow>
                            for_each (Deserialize_step columns null_bitmap offsets payload)
                              [0..<length columns] [])"

definition GetValue :: "schema \<Rightarrow> db_record \<Rightarrow> nat \<Rightarrow> field_value result" where
  "GetValue columns r column_index = (case Deserialize columns r of
     Inl st \<Rightarrow> Inl st
   | Inr values \<Rightarrow>
       if column_index \<ge> length values then Inl (InvalidArgument ''Column index is out of range'')
       else Inr (values ! column_index))"

definition Project_step ::
  "schema \<Rightarrow> field_value list \<Rightarrow> nat \<Rightarrow> schema \<times> field_value list \<Rightarrow>
   (schema \<times> field_value list) result" where
  "Project_step input_columns input_values index = (\<lambda>(projected_columns, projected_values).
     if index \<ge> length input_columns
     then Inl (InvalidArgument ''Projection column index is out of range'')
     else Inr (projected_columns @ [input_columns ! index],
               projected_values @ [input_values ! index]))"

definition Project :: "schema \<Rightarrow> db_record \<Rightarrow> nat list \<Rightarrow> db_record result" where
  "Project input_columns input_record column_indices = (case Deserialize input_columns input_record of
     Inl st \<Rightarrow> Inl st
   | Inr input_values \<Rightarrow>
       (case for_each (Project_step input_columns input_values) column_indices ([], []) of
          Inl st \<Rightarrow> Inl st
        | Inr (projected_columns, projected_values) \<Rightarrow>
            (case Serialize projected_columns projected_values (Some empty_record) of
               Inl st \<Rightarrow> Inl st
             | Inr projected \<Rightarrow> Inr (SetRecordID projected (rec_rid input_record)))))"

section \<open>Specification\<close>

text \<open>The bytes of one field, which values a column takes, and the image of a whole record.\<close>

fun field_bytes :: "field_value \<Rightarrow> byte list" where
  "field_bytes FNull = []"
| "field_bytes (FInt v) = le_bytes 4 (unat v)"
| "field_bytes (FBool b) = [if b then CHR 0x01 else CHR 0x00]"
| "field_bytes (FStr s) = s"

fun type_ok :: "type_id \<Rightarrow> field_value \<Rightarrow> bool" where
  "type_ok t FNull \<longleftrightarrow> True"
| "type_ok t (FInt v) \<longleftrightarrow> t = INTEGER"
| "type_ok t (FBool b) \<longleftrightarrow> t = BOOLEAN"
| "type_ok t (FStr s) \<longleftrightarrow> t = VARCHAR"

definition field_ok :: "column \<Rightarrow> field_value \<Rightarrow> bool" where
  "field_ok c v \<longleftrightarrow> type_ok (col_type c) v \<and>
     (case v of FStr s \<Rightarrow> col_length c = 0 \<or> length s \<le> col_length c | _ \<Rightarrow> True)"

definition payload_of :: "field_value list \<Rightarrow> byte list" where
  "payload_of vs = concat (map field_bytes vs)"

definition header_size :: "nat \<Rightarrow> nat" where
  "header_size n = 2 + NullBitmapSize n + n * 2"

definition start_of :: "field_value list \<Rightarrow> nat \<Rightarrow> nat" where
  "start_of vs i = length (payload_of (take i vs))"

text \<open>What a row must satisfy for the code to store it.\<close>

definition row_ok :: "schema \<Rightarrow> field_value list \<Rightarrow> bool" where
  "row_ok sch vs \<longleftrightarrow> list_all2 field_ok sch vs \<and>
     header_size (length sch) + length (payload_of vs) \<le> 65535"

end
