(* ===== verification/Record_Codec_Correct.thy ===== *)
theory Record_Codec_Correct
  imports Record_Codec
begin

text \<open>
  The lemmas about the record codec: the null bitmap is a set of column indices, the loop of
  \<^const>\<open>Serialize\<close> builds the image of the specification, and \<^const>\<open>Deserialize\<close> reads it back.
\<close>

section \<open>Bytes and the null bitmap\<close>

lemma u8_byte_inverse [simp]: "u8_of_byte (byte_of_u8 w) = w"
  using unsigned_less[of w, where ?'a = nat]
  by (simp add: u8_of_byte_def byte_of_u8_def)

lemma map_u8_byte [simp]: "map (u8_of_byte \<circ> byte_of_u8) ws = ws"
  by (induction ws) auto

lemma IsNull_bit: "IsNull bm i \<longleftrightarrow> bit (bm ! (i div 8)) (i mod 8)"
  by (simp add: IsNull_def push_bit_eq_mult and_exp_eq_0_iff_not_bit)

lemma IsNull_SetNull:
  assumes "i div 8 < length bm"
  shows "IsNull (SetNull bm i) j \<longleftrightarrow> j = i \<or> IsNull bm j"
proof (cases "j div 8 = i div 8")
  case True
  have "j = i \<longleftrightarrow> j mod 8 = i mod 8" using True by (metis div_mod_decomp)
  moreover have "i mod 8 < LENGTH(8)" by simp
  ultimately show ?thesis
    using True assms by (auto simp: IsNull_bit SetNull_def bit_or_iff bit_exp_iff)
next
  case False
  then show ?thesis by (auto simp: IsNull_bit SetNull_def)
qed

lemma length_SetNull [simp]: "length (SetNull bm i) = length bm"
  by (simp add: SetNull_def)

lemma bitmap_index: "i < n \<Longrightarrow> i div 8 < NullBitmapSize n"
  by (simp add: NullBitmapSize_def)

section \<open>The payload\<close>

lemma start_of_Suc: "i < length vs \<Longrightarrow> start_of vs (Suc i) = start_of vs i + length (field_bytes (vs ! i))"
  by (simp add: start_of_def payload_of_def take_Suc_conv_app_nth)

lemma start_of_0 [simp]: "start_of vs 0 = 0"
  by (simp add: start_of_def payload_of_def)

lemma start_of_length [simp]: "start_of vs (length vs) = length (payload_of vs)"
  by (simp add: start_of_def)

lemma payload_of_split: "payload_of vs = payload_of (take i vs) @ payload_of (drop i vs)"
  by (simp add: payload_of_def flip: concat_append map_append)

lemma start_of_mono: "i \<le> j \<Longrightarrow> start_of vs i \<le> start_of vs j"
  using payload_of_split[of "take j vs" i] by (simp add: start_of_def min_absorb1)

lemma start_of_le: "start_of vs i \<le> length (payload_of vs)"
  using payload_of_split[of vs i] by (simp add: start_of_def)

lemma payload_of_field:
  assumes "i < length vs"
  shows "take (start_of vs (Suc i) - start_of vs i) (drop (start_of vs i) (payload_of vs)) =
    field_bytes (vs ! i)"
proof -
  have "payload_of (drop i vs) = field_bytes (vs ! i) @ payload_of (drop (Suc i) vs)"
    using assms by (simp add: payload_of_def flip: Cons_nth_drop_Suc)
  then have "drop (start_of vs i) (payload_of vs) =
      field_bytes (vs ! i) @ payload_of (drop (Suc i) vs)"
    by (subst payload_of_split[of vs i]) (simp add: start_of_def)
  then show ?thesis using assms by (simp add: start_of_Suc)
qed

lemma payload_of_take_Suc:
  "i < length vs \<Longrightarrow> payload_of (take (Suc i) vs) = payload_of (take i vs) @ field_bytes (vs ! i)"
  by (simp add: payload_of_def take_Suc_conv_app_nth)

section \<open>The loop of Serialize\<close>

lemma Serialize_step_ok:
  assumes "length payload \<le> 65535" "field_ok (columns ! i) (values ! i)"
  shows "Serialize_step columns values i (bm, offs, payload) =
    Inr (if values ! i = FNull then SetNull bm i else bm, offs[i := length payload],
         payload @ field_bytes (values ! i))"
  using assms
  by (cases "values ! i")
     (auto simp: Serialize_step_def Let_def field_ok_def AppendValue_int32_def)

lemma Serialize_step_Inr:
  assumes "Serialize_step columns values i (bm, offs, payload) = Inr s"
  shows "length payload \<le> 65535 \<and> field_ok (columns ! i) (values ! i)"
  using assms
  by (cases "values ! i"; cases "col_type (columns ! i)")
     (auto simp: Serialize_step_def Let_def field_ok_def split: if_splits)

text \<open>The state of the loop after \<open>k\<close> columns.\<close>

definition codec_state :: "field_value list \<Rightarrow> nat \<Rightarrow> 8 word list \<times> nat list \<times> byte list \<Rightarrow> bool" where
  "codec_state vs k = (\<lambda>(bm, offs, payload).
     length bm = NullBitmapSize (length vs) \<and>
     (\<forall>j < length vs. IsNull bm j \<longleftrightarrow> j < k \<and> vs ! j = FNull) \<and>
     offs = map (\<lambda>j. if j < k then start_of vs j else 0) [0..<length vs] \<and>
     payload = payload_of (take k vs))"

lemma Serialize_loop:
  assumes "k \<le> length vs" "\<forall>j < k. field_ok (sch ! j) (vs ! j) \<and> start_of vs j \<le> 65535"
  shows "\<exists>s. for_each (Serialize_step sch vs) [0..<k]
      (replicate (NullBitmapSize (length vs)) 0, replicate (length vs) 0, []) = Inr s \<and>
    codec_state vs k s"
  using assms
proof (induction k)
  case 0
  have "IsNull (replicate (NullBitmapSize (length vs)) 0) j = False" if "j < length vs" for j
    using that bitmap_index[OF that] by (simp add: IsNull_bit)
  then show ?case
    by (auto simp: codec_state_def payload_of_def map_replicate_const simp del: replicate_0)
next
  case (Suc k)
  then obtain bm offs payload where s: "for_each (Serialize_step sch vs) [0..<k]
      (replicate (NullBitmapSize (length vs)) 0, replicate (length vs) 0, []) = Inr (bm, offs, payload)"
      "codec_state vs k (bm, offs, payload)"
    by fastforce
  have len: "length payload = start_of vs k" using s(2) by (simp add: codec_state_def start_of_def)
  have "codec_state vs (Suc k) (if vs ! k = FNull then SetNull bm k else bm,
      offs[k := length payload], payload @ field_bytes (vs ! k))"
    using s(2) Suc.prems(1) len bitmap_index[of k "length vs"]
    by (auto simp: codec_state_def IsNull_SetNull payload_of_take_Suc less_Suc_eq
        intro!: nth_equalityI simp: nth_list_update)
  then show ?case
    using s(1) Serialize_step_ok[of payload sch k vs bm offs] Suc.prems len
    by (auto simp: for_each_upt_Suc simp del: upt_Suc)
qed

lemma Serialize_loop_Inr:
  assumes "for_each (Serialize_step sch vs) [0..<k] s0 = Inr s"
    "s0 = (replicate (NullBitmapSize (length vs)) 0, replicate (length vs) 0, [])" "k \<le> length vs"
  shows "(\<forall>j < k. field_ok (sch ! j) (vs ! j) \<and> start_of vs j \<le> 65535) \<and> codec_state vs k s"
  using assms
proof (induction k arbitrary: s)
  case 0
  then show ?case using Serialize_loop[of 0 vs sch] by simp
next
  case (Suc k)
  then obtain bm offs payload where u: "for_each (Serialize_step sch vs) [0..<k] s0 = Inr (bm, offs, payload)"
      "Serialize_step sch vs k (bm, offs, payload) = Inr s"
    by (auto simp: for_each_upt_Suc simp del: upt_Suc split: sum.splits)
  have IH: "\<forall>j < k. field_ok (sch ! j) (vs ! j) \<and> start_of vs j \<le> 65535"
      "codec_state vs k (bm, offs, payload)"
    using Suc.IH[OF u(1)] Suc.prems by simp_all
  have "start_of vs k = length payload" using IH(2) by (simp add: codec_state_def start_of_def)
  then have ok: "\<forall>j < Suc k. field_ok (sch ! j) (vs ! j) \<and> start_of vs j \<le> 65535"
    using IH(1) Serialize_step_Inr[OF u(2)] by (auto simp: less_Suc_eq)
  then show ?case using Serialize_loop[OF Suc.prems(3) ok] Suc.prems(1,2) by auto
qed

section \<open>The image that Serialize writes\<close>

lemma mem_write_fill:
  "length bs \<le> k \<Longrightarrow> n = length xs \<Longrightarrow>
   mem_write (xs @ replicate k zero_byte) n bs = (xs @ bs) @ replicate (k - length bs) zero_byte"
  by (simp add: mem_write_def)

lemma mem_write_parts:
  assumes "k = length a + length b + length c + length d" "i = length a"
    "j = length a + length b" "l = length a + length b + length c"
  shows "mem_write (mem_write (mem_write (mem_write (replicate k zero_byte) 0 a) i b) j c) l d =
    a @ b @ c @ d"
proof -
  have "mem_write (replicate k zero_byte) 0 a = a @ replicate (length b + length c + length d) zero_byte"
    using mem_write_fill[of a k 0 "[]"] assms(1) by simp
  moreover have "mem_write (a @ replicate (length b + length c + length d) zero_byte) i b =
      (a @ b) @ replicate (length c + length d) zero_byte"
    using mem_write_fill[of b "length b + length c + length d" i a] assms(2) by simp
  moreover have "mem_write ((a @ b) @ replicate (length c + length d) zero_byte) j c =
      (a @ b @ c) @ replicate (length d) zero_byte"
    using mem_write_fill[of c "length c + length d" j "a @ b"] assms(3) by simp
  moreover have "mem_write ((a @ b @ c) @ replicate (length d) zero_byte) l d = a @ b @ c @ d"
    using mem_write_fill[of d "length d" l "a @ b @ c"] assms(4) by simp
  ultimately show ?thesis by simp
qed

lemma length_concat_u16 [simp]: "length (concat (map (le_bytes 2) offs)) = 2 * length offs"
  by (induction offs) auto

lemma length_concat_u16_comp [simp]: "length (concat (map (le_bytes 2 \<circ> f) xs)) = 2 * length xs"
  using length_concat_u16[of "map f xs"] by simp

lemma read_concat_u16:
  "i < length offs \<Longrightarrow> mem_read (concat (map (le_bytes 2) offs)) (2 * i) 2 = le_bytes 2 (offs ! i)"
proof (induction offs arbitrary: i)
  case (Cons x offs)
  then show ?case
  proof (cases i)
    case (Suc j)
    then show ?thesis
      using Cons by (simp add: mem_read_append_right)
  qed (simp add: mem_read_append_left mem_read_all)
qed simp

definition record_image :: "nat \<Rightarrow> 8 word list \<Rightarrow> field_value list \<Rightarrow> byte list" where
  "record_image n bm vs = le_bytes 2 n @ map byte_of_u8 bm @
     concat (map (le_bytes 2) (map (start_of vs) [0..<n])) @ payload_of vs"

lemma header_count: "header_size n \<le> 65535 \<Longrightarrow> n \<le> 65535"
  by (simp add: header_size_def)

lemma Serialize_row_ok:
  assumes "row_ok sch vs"
  shows "\<exists>bm. Serialize sch vs (Some r) = Inr (SetData r (record_image (length vs) bm vs)) \<and>
    length bm = NullBitmapSize (length vs) \<and>
    (\<forall>j < length vs. IsNull bm j \<longleftrightarrow> vs ! j = FNull)"
proof -
  define n where "n = length vs"
  have n: "length sch = n" and hs: "header_size n + length (payload_of vs) \<le> 65535"
    and ok: "\<forall>j < n. field_ok (sch ! j) (vs ! j)"
    using assms by (auto simp: row_ok_def n_def list_all2_conv_all_nth)
  have "start_of vs j \<le> 65535" for j using start_of_le[of vs j] hs by simp
  then obtain bm where loop: "for_each (Serialize_step sch vs) [0..<n]
      (replicate (NullBitmapSize n) 0, replicate n 0, []) =
      Inr (bm, map (start_of vs) [0..<n], payload_of vs)"
    and bm: "length bm = NullBitmapSize n" "\<forall>j < n. IsNull bm j \<longleftrightarrow> vs ! j = FNull"
    using Serialize_loop[of n vs sch] ok by (force simp: codec_state_def n_def)
  have "n \<le> 65535" using header_count hs by simp
  have hs': "2 + NullBitmapSize n + n * 2 = header_size n" by (simp add: header_size_def)
  have img: "mem_write (mem_write (mem_write (mem_write
        (replicate (header_size n + length (payload_of vs)) zero_byte) 0 (le_bytes 2 n))
        2 (map byte_of_u8 bm)) (2 + NullBitmapSize n) (concat (map (le_bytes 2) (map (start_of vs) [0..<n]))))
        (2 + NullBitmapSize n + 2 * n) (payload_of vs) = record_image n bm vs"
    unfolding record_image_def by (rule mem_write_parts) (simp_all add: bm(1) header_size_def)
  have u: "u16 (int n) = n" "length (map (start_of vs) [0..<n]) = n" "header_size n \<le> 65535"
    using \<open>n \<le> 65535\<close> hs by simp_all
  have "Serialize sch vs (Some r) = Inr (SetData r (record_image n bm vs))"
    unfolding Serialize_def Let_def option.case n u n_def[symmetric] hs' loop sum.case prod.case img
    using hs u(3) \<open>n \<le> 65535\<close> by (simp add: not_less)
  then show ?thesis using bm n_def by blast
qed

lemma Serialize_Inr:
  assumes "Serialize sch vs rec = Inr r'"
  shows "\<exists>r. rec = Some r \<and> row_ok sch vs"
proof -
  obtain r where r: "rec = Some r" using assms by (cases rec) (auto simp: Serialize_def)
  define n where "n = length sch"
  have n: "length vs = n" and "n \<le> 65535"
    using assms by (auto simp: Serialize_def r n_def Let_def split: if_splits)
  then obtain bm offs payload where loop: "for_each (Serialize_step sch vs) [0..<n]
      (replicate (NullBitmapSize n) 0, replicate n 0, []) = Inr (bm, offs, payload)"
    and len: "header_size n + length payload \<le> 65535"
    using assms by (auto simp: Serialize_def r Let_def header_size_def n_def split: if_splits sum.splits)
  have "(\<forall>j < n. field_ok (sch ! j) (vs ! j)) \<and> payload = payload_of vs"
    using Serialize_loop_Inr[OF loop] n by (simp add: codec_state_def)
  then show ?thesis using r len n by (auto simp: row_ok_def n_def list_all2_conv_all_nth)
qed

section \<open>Deserialize\<close>

lemma Deserialize_offsets_ok:
  assumes "\<forall>j < n. f j \<le> m" "\<forall>i j. i \<le> j \<longrightarrow> j < n \<longrightarrow> f i \<le> f j" "k \<le> n"
  shows "for_each (CheckOffset_step m) (map f [0..<k]) 0 = Inr (if k = 0 then 0 else f (k - 1))"
  using assms(3)
proof (induction k)
  case (Suc k)
  have "f k \<le> m" "f (k - 1) \<le> f k" using Suc.prems assms(1,2) by auto
  then show ?case using Suc by (auto simp: for_each_append CheckOffset_step_def[of m] ValidateOffset_def)
qed simp

lemma ReadValue_int32_le_bytes [simp]: "ReadValue_int32 (le_bytes 4 (unat w)) = w"
  using unsigned_less[of w, where ?'a = nat]
  by (simp add: ReadValue_int32_def le_nat_le_bytes)

lemma take_take_eq: "take n xs = ys \<Longrightarrow> k \<le> n \<Longrightarrow> take k xs = take k ys"
  by (auto simp: min_def)

lemma Deserialize_step_ok:
  assumes "i < length vs" "type_ok (col_type (sch ! i)) (vs ! i)" "IsNull bm i \<longleftrightarrow> vs ! i = FNull"
  shows "Deserialize_step sch bm (map (start_of vs) [0..<length vs]) (payload_of vs) i acc =
    Inr (acc @ [vs ! i])"
proof -
  let ?offs = "map (start_of vs) [0..<length vs]"
  have e: "(if i + 1 < length ?offs then ?offs ! (i + 1) else length (payload_of vs)) =
      start_of vs (Suc i)"
    using assms(1) by (cases "Suc i = length vs") (auto simp flip: start_of_length)
  have bnd: "start_of vs i \<le> start_of vs (Suc i)" "start_of vs (Suc i) \<le> length (payload_of vs)"
    "start_of vs (Suc i) - start_of vs i = length (field_bytes (vs ! i))"
    using start_of_mono[of i "Suc i" vs] start_of_le[of vs "Suc i"] start_of_Suc[OF assms(1)]
    by simp_all
  have fld: "take (length (field_bytes (vs ! i))) (drop (start_of vs i) (payload_of vs)) =
      field_bytes (vs ! i)"
    using payload_of_field[OF assms(1)] bnd(3) by simp
  have i4: "ReadValue_int32 d = w" if "take 4 d = le_bytes 4 (unat w)" for d w
    using that ReadValue_int32_le_bytes[of w] by (simp add: ReadValue_int32_def)
  have i1: "d ! 0 = x" if "take (Suc 0) d = [x]" for d :: "byte list" and x
    using that by (cases d) auto
  have offs: "?offs ! i = start_of vs i" using assms(1) by simp
  show ?thesis
    unfolding Deserialize_step_def Let_def e offs bnd(3)
    using assms bnd(1,2) fld i1 by (cases "vs ! i") (auto intro!: i4)
qed

lemma Deserialize_loop_ok:
  assumes "k \<le> length vs" "length sch = length vs" "\<forall>i < length vs. type_ok (col_type (sch ! i)) (vs ! i)"
    "\<forall>i < length vs. IsNull bm i \<longleftrightarrow> vs ! i = FNull"
  shows "for_each (Deserialize_step sch bm (map (start_of vs) [0..<length vs]) (payload_of vs)) [0..<k] [] =
    Inr (take k vs)"
  using assms(1)
proof (induction k)
  case (Suc k)
  then show ?case
    using assms(2-) Deserialize_step_ok[of k vs sch bm]
    by (simp add: for_each_upt_Suc take_Suc_conv_app_nth del: upt_Suc)
qed simp

lemma record_image_parts:
  assumes "length bm = NullBitmapSize n" "n \<le> 65535"
  shows "length (record_image n bm vs) = header_size n + length (payload_of vs)"
    "ReadValue_u16 (record_image n bm vs) 0 = n"
    "mem_read (record_image n bm vs) 2 (NullBitmapSize n) = map byte_of_u8 bm"
    "drop (header_size n) (record_image n bm vs) = payload_of vs"
    "i < n \<Longrightarrow> start_of vs i \<le> 65535 \<Longrightarrow>
       ReadValue_u16 (record_image n bm vs) (2 + NullBitmapSize n + 2 * i) = start_of vs i"
proof -
  let ?o = "concat (map (le_bytes 2) (map (start_of vs) [0..<n]))"
  have img: "record_image n bm vs = (le_bytes 2 n @ map byte_of_u8 bm) @ ?o @ payload_of vs"
    by (simp add: record_image_def)
  show "length (record_image n bm vs) = header_size n + length (payload_of vs)"
    using assms(1) by (simp add: record_image_def header_size_def)
  show "ReadValue_u16 (record_image n bm vs) 0 = n"
    using assms(2) by (simp add: record_image_def ReadValue_u16_def mem_read_append_left mem_read_all
        le_nat_le_bytes)
  show "mem_read (record_image n bm vs) 2 (NullBitmapSize n) = map byte_of_u8 bm"
    using assms(1) by (simp add: record_image_def mem_read_append_left mem_read_append_right mem_read_all)
  show "drop (header_size n) (record_image n bm vs) = payload_of vs"
    using assms(1) by (simp add: record_image_def header_size_def)
  assume i: "i < n" "start_of vs i \<le> 65535"
  have "mem_read (record_image n bm vs) (2 + NullBitmapSize n + 2 * i) 2 = mem_read (?o @ payload_of vs) (2 * i) 2"
    unfolding img by (subst mem_read_append_right) (simp_all add: assms(1))
  also have "\<dots> = le_bytes 2 (start_of vs i)"
    using i(1) read_concat_u16[of i "map (start_of vs) [0..<n]"]
    by (simp add: mem_read_append_left del: map_map)
  finally show "ReadValue_u16 (record_image n bm vs) (2 + NullBitmapSize n + 2 * i) = start_of vs i"
    using i(2) by (simp add: ReadValue_u16_def le_nat_le_bytes)
qed

lemma Deserialize_image:
  assumes "row_ok sch vs" "rec_data r = record_image (length vs) bm vs"
    "length bm = NullBitmapSize (length vs)" "\<forall>j < length vs. IsNull bm j \<longleftrightarrow> vs ! j = FNull"
  shows "Deserialize sch r = Inr vs"
proof -
  let ?n = "length vs"
  have n: "length sch = ?n" "header_size ?n + length (payload_of vs) \<le> 65535"
    "\<forall>i < ?n. type_ok (col_type (sch ! i)) (vs ! i)"
    using assms(1) by (auto simp: row_ok_def list_all2_conv_all_nth field_ok_def)
  have "?n \<le> 65535" using n(2) header_count by simp
  have st: "start_of vs i \<le> 65535" for i using start_of_le[of vs i] n(2) by simp
  note parts = record_image_parts[where vs = vs, OF assms(3) \<open>?n \<le> 65535\<close>]
  have offs: "map (\<lambda>i. ReadValue_u16 (record_image ?n bm vs) (2 + NullBitmapSize ?n + 2 * i)) [0..<?n] =
      map (start_of vs) [0..<?n]"
    using parts(5) st by simp
  have chk: "for_each (CheckOffset_step (length (payload_of vs))) (map (start_of vs) [0..<?n]) 0 =
      Inr (if ?n = 0 then 0 else start_of vs (?n - 1))"
    by (rule Deserialize_offsets_ok[where n = ?n]) (auto simp: start_of_le start_of_mono)
  have loop: "for_each (Deserialize_step sch bm (map (start_of vs) [0..<?n]) (payload_of vs)) [0..<?n] [] =
      Inr vs"
    using Deserialize_loop_ok[of ?n vs sch bm] n assms(4) by simp
  have hs: "2 + NullBitmapSize ?n + ?n * 2 = header_size ?n" by (simp add: header_size_def)
  show ?thesis
    unfolding Deserialize_def Let_def GetSize_def assms(2) parts(1-4) n(1) hs offs map_map u8_byte_inverse
      map_u8_byte chk sum.case loop
    by (simp add: header_size_def)
qed

lemma Serialize_Deserialize:
  assumes "Serialize sch vs rec = Inr r"
  shows "Deserialize sch r = Inr vs"
proof -
  obtain r0 where "rec = Some r0" "row_ok sch vs" using Serialize_Inr[OF assms] by blast
  then show ?thesis using Serialize_row_ok[of sch vs r0] Deserialize_image[of sch vs r] assms by auto
qed

lemma Serialize_total: "row_ok sch vs \<Longrightarrow> \<exists>r'. Serialize sch vs (Some r) = Inr r'"
  using Serialize_row_ok by blast

lemma Deserialize_step_type:
  assumes "Deserialize_step sch bm offs payload i acc = Inr acc'"
  shows "\<exists>v. acc' = acc @ [v] \<and> type_ok (col_type (sch ! i)) v"
  using assms by (auto simp: Deserialize_step_def Let_def split: if_splits type_id.splits)

lemma Deserialize_loop_type:
  assumes "for_each (Deserialize_step sch bm offs payload) [0..<k] [] = Inr vs"
  shows "length vs = k \<and> (\<forall>i < k. type_ok (col_type (sch ! i)) (vs ! i))"
  using assms
proof (induction k arbitrary: vs)
  case (Suc k)
  then obtain us where us: "for_each (Deserialize_step sch bm offs payload) [0..<k] [] = Inr us"
      "Deserialize_step sch bm offs payload k us = Inr vs"
    by (auto simp: for_each_upt_Suc simp del: upt_Suc split: sum.splits)
  then show ?case using Suc.IH[OF us(1)] Deserialize_step_type[OF us(2)]
    by (auto simp: nth_append less_Suc_eq)
qed simp

lemma Deserialize_typed:
  assumes "Deserialize sch r = Inr vs"
  shows "list_all2 (\<lambda>c v. type_ok (col_type c) v) sch vs"
proof -
  obtain bm offs payload where
    "for_each (Deserialize_step sch bm offs payload) [0..<length sch] [] = Inr vs"
    using assms by (auto simp: Deserialize_def Let_def split: if_splits sum.splits)
  then show ?thesis using Deserialize_loop_type by (fastforce simp: list_all2_conv_all_nth)
qed

lemma Project_loop:
  "for_each (Project_step sch vs) idxs (cs, us) =
     (if \<forall>i \<in> set idxs. i < length sch
      then Inr (cs @ map (\<lambda>i. sch ! i) idxs, us @ map (\<lambda>i. vs ! i) idxs)
      else Inl (InvalidArgument ''Projection column index is out of range''))"
  by (induction idxs arbitrary: cs us) (auto simp: Project_step_def)

lemma Project_spec:
  assumes "Deserialize sch r = Inr vs"
  shows "Project sch r idxs =
    (if \<forall>i \<in> set idxs. i < length sch
     then (case Serialize (map (\<lambda>i. sch ! i) idxs) (map (\<lambda>i. vs ! i) idxs) (Some empty_record) of
         Inl st \<Rightarrow> Inl st | Inr p \<Rightarrow> Inr (SetRecordID p (rec_rid r)))
     else Inl (InvalidArgument ''Projection column index is out of range''))"
  using assms by (simp add: Project_def Project_loop split: sum.splits)

lemma Deserialize_data_cong: "rec_data r = rec_data r' \<Longrightarrow> Deserialize sch r = Deserialize sch r'"
  by (simp add: Deserialize_def GetSize_def)

section \<open>What bytes denote\<close>

text \<open>The field of a column of a type, the place of a column in the payload of a record with \<open>n\<close>
  columns, its bit in the null bitmap, and the row that the bytes of a record stand for.\<close>

definition decodes :: "type_id \<Rightarrow> byte list \<Rightarrow> field_value \<Rightarrow> bool" where
  "decodes t bs v \<longleftrightarrow> (case t of
     INTEGER \<Rightarrow> \<exists>w. v = FInt w \<and> bs = le_bytes 4 (unat w)
   | BOOLEAN \<Rightarrow> \<exists>b. bs = [b] \<and> v = FBool (b \<noteq> CHR 0x00)
   | VARCHAR \<Rightarrow> v = FStr bs)"

definition column_offset :: "nat \<Rightarrow> byte list \<Rightarrow> nat \<Rightarrow> nat" where
  "column_offset n data i = (if i < n then le_nat (mem_read data (2 + NullBitmapSize n + 2 * i) 2)
     else length data - header_size n)"

definition null_bit :: "byte list \<Rightarrow> nat \<Rightarrow> bool" where
  "null_bit data i \<longleftrightarrow> odd (of_char (data ! (2 + i div 8)) div 2 ^ (i mod 8) :: nat)"

definition record_denotes :: "schema \<Rightarrow> byte list \<Rightarrow> field_value list \<Rightarrow> bool" where
  "record_denotes sch data vs \<longleftrightarrow>
     (let n = length sch; offset = column_offset n data
      in length vs = n \<and> header_size n \<le> length data \<and> le_nat (take 2 data) = n \<and>
         (\<forall>i < n. offset i \<le> offset (Suc i)) \<and>
         (\<forall>i < n. if null_bit data i then vs ! i = FNull
            else decodes (col_type (sch ! i))
              (mem_read data (header_size n + offset i) (offset (Suc i) - offset i)) (vs ! i)))"

lemma check_offsets:
  "(\<exists>q. for_each (CheckOffset_step m) xs p = Inr q) \<longleftrightarrow> sorted (p # xs) \<and> (\<forall>x \<in> set xs. x \<le> m)"
proof (induction xs arbitrary: p)
  case (Cons x xs)
  then show ?case by (auto simp: CheckOffset_step_def ValidateOffset_def)
qed simp

lemma sorted_ends: "sorted xs \<and> (\<forall>x \<in> set xs. x \<le> m) \<longleftrightarrow> sorted (xs @ [m :: nat])"
  by (auto simp: sorted_append)

lemma sorted_steps:
  "sorted (map f [0..<n] @ [f n]) \<longleftrightarrow> (\<forall>i < n. f i \<le> (f (Suc i) :: nat))"
proof -
  have "map f [0..<n] @ [f n] = map f [0..<Suc n]" by simp
  then show ?thesis
    by (simp add: sorted_iff_nth_Suc del: upt_Suc)
qed

lemma steps_le:
  assumes "\<forall>i < n. f i \<le> (f (Suc i) :: nat)" "i \<le> n"
  shows "f i \<le> f n"
  using assms(2)
proof (induction rule: dec_induct)
  case (step k)
  then show ?case using assms(1) by (meson le_trans)
qed simp

lemma read_le_bytes:
  assumes "length bs = 4"
  shows "le_bytes 4 (unat (of_nat (le_nat bs) :: 32 word)) = bs"
proof -
  have "unat (of_nat (le_nat bs) :: 32 word) = le_nat bs"
    using le_nat_bound[of bs] assms by (simp add: unat_of_nat take_bit_eq_mod)
  then show ?thesis using le_bytes_eq[OF assms] by simp
qed

lemma decodes_field:
  assumes "a + n \<le> length pl"
  shows "decodes t (mem_read pl a n) v \<longleftrightarrow> (case t of
      INTEGER \<Rightarrow> n = 4 \<and> v = FInt (ReadValue_int32 (drop a pl))
    | BOOLEAN \<Rightarrow> n = 1 \<and> v = FBool (drop a pl ! 0 \<noteq> CHR 0x00)
    | VARCHAR \<Rightarrow> v = FStr (take n (drop a pl)))"
proof -
  have len: "length (mem_read pl a n) = n" using assms by (simp add: mem_read_def)
  show ?thesis
  proof (cases t)
    case INTEGER
    have "v = FInt (ReadValue_int32 (drop a pl)) \<and> n = 4"
      if "mem_read pl a n = le_bytes 4 (unat w)" "v = FInt w" for w
    proof -
      have "n = 4" using arg_cong[OF that(1), of length] len by simp
      then show ?thesis using that unsigned_less[of w, where ?'a = nat]
        by (simp add: ReadValue_int32_def mem_read_def le_nat_le_bytes)
    qed
    moreover have "mem_read pl a n = le_bytes 4 (unat (ReadValue_int32 (drop a pl)))" if "n = 4"
      using read_le_bytes[of "mem_read pl a n"] len that by (simp add: ReadValue_int32_def mem_read_def)
    ultimately show ?thesis using INTEGER unfolding decodes_def by auto
  next
    case BOOLEAN
    have "mem_read pl a n = [b] \<longleftrightarrow> n = 1 \<and> b = drop a pl ! 0" for b
      using len by (cases n; cases "n - 1"; cases "drop a pl") (auto simp: mem_read_def)
    then show ?thesis using BOOLEAN by (auto simp: decodes_def)
  qed (simp add: decodes_def mem_read_def)
qed

lemma IsNull_null_bit:
  assumes "i < n" "2 + NullBitmapSize n \<le> length data"
  shows "IsNull (map u8_of_byte (mem_read data 2 (NullBitmapSize n))) i \<longleftrightarrow> null_bit data i"
proof -
  have "map u8_of_byte (mem_read data 2 (NullBitmapSize n)) ! (i div 8) = u8_of_byte (data ! (2 + i div 8))"
    using bitmap_index[OF assms(1)] assms(2) by (simp add: mem_read_def)
  moreover have "bit (u8_of_byte b) j \<longleftrightarrow> odd ((of_char b :: nat) div 2 ^ j)" for b j
  proof -
    have "(of_char b :: nat) < 256" using of_char_mod_256[of b, where ?'a = nat] by (metis mod_less_divisor zero_less_numeral)
    then have "unat (u8_of_byte b) = of_char b" by (simp add: u8_of_byte_def unat_of_nat take_bit_eq_mod)
    moreover have "bit (u8_of_byte b) j \<longleftrightarrow> bit (unat (u8_of_byte b)) j" by (simp add: bit_unsigned_iff)
    ultimately show ?thesis by (simp add: bit_iff_odd)
  qed
  ultimately show ?thesis by (simp add: IsNull_bit null_bit_def)
qed

text \<open>One column, and all of them.\<close>

definition column_denotes :: "schema \<Rightarrow> byte list \<Rightarrow> nat \<Rightarrow> field_value \<Rightarrow> bool" where
  "column_denotes sch data i v \<longleftrightarrow>
     (let n = length sch; offset = column_offset n data
      in if null_bit data i then v = FNull
         else decodes (col_type (sch ! i))
           (mem_read data (header_size n + offset i) (offset (Suc i) - offset i)) v)"

lemma Deserialize_step_denotes:
  assumes i: "i < length sch" and h: "header_size (length sch) \<le> length data"
    and ord: "\<forall>i < length sch. column_offset (length sch) data i \<le> column_offset (length sch) data (Suc i)"
    and e: "column_offset (length sch) data (Suc i) \<le> length data - header_size (length sch)"
  shows "Deserialize_step sch (map u8_of_byte (mem_read data 2 (NullBitmapSize (length sch))))
      (map (column_offset (length sch) data) [0..<length sch]) (drop (header_size (length sch)) data) i acc = Inr acc' \<longleftrightarrow>
    (\<exists>v. acc' = acc @ [v] \<and> column_denotes sch data i v)"
proof -
  let ?n = "length sch" let ?o = "column_offset ?n data" let ?pl = "drop (header_size ?n) data"
  let ?m = "?o (Suc i) - ?o i"
  have nb: "IsNull (map u8_of_byte (mem_read data 2 (NullBitmapSize ?n))) i \<longleftrightarrow> null_bit data i"
    by (rule IsNull_null_bit[OF i]) (use h in \<open>simp add: header_size_def\<close>)
  have offs: "map ?o [0..<?n] ! i = ?o i" using i by simp
  have end_at: "(if i + 1 < length (map ?o [0..<?n]) then map ?o [0..<?n] ! (i + 1) else length ?pl) = ?o (Suc i)"
    using i by (auto simp: column_offset_def)
  have bnd: "?o i \<le> ?o (Suc i)" "?o (Suc i) \<le> length ?pl" using ord i e by auto
  have rd: "mem_read data (header_size ?n + ?o i) ?m = mem_read ?pl (?o i) ?m"
    by (simp add: mem_read_def add.commute)
  have "decodes t (mem_read ?pl (?o i) ?m) v \<longleftrightarrow> (case t of
      INTEGER \<Rightarrow> ?m = 4 \<and> v = FInt (ReadValue_int32 (drop (?o i) ?pl))
    | BOOLEAN \<Rightarrow> ?m = 1 \<and> v = FBool (drop (?o i) ?pl ! 0 \<noteq> CHR 0x00)
    | VARCHAR \<Rightarrow> v = FStr (take ?m (drop (?o i) ?pl)))" for t v
    by (rule decodes_field) (use bnd in simp)
  moreover have "\<not> (?o (Suc i) < ?o i \<or> ?o (Suc i) > length ?pl)" using bnd by simp
  ultimately show ?thesis
    unfolding Deserialize_step_def Let_def offs end_at nb column_denotes_def rd
    by (auto split: type_id.split simp del: drop_drop)
qed

lemma append_loop:
  assumes "\<And>i acc acc'. i < k \<Longrightarrow> step i acc = Inr acc' \<longleftrightarrow> (\<exists>v. acc' = acc @ [v] \<and> F i v)"
  shows "for_each step [0..<k] [] = Inr vs \<longleftrightarrow> length vs = k \<and> (\<forall>i < k. F i (vs ! i))"
  using assms
proof (induction k arbitrary: vs)
  case (Suc k)
  have "for_each step [0..<Suc k] [] = Inr vs \<longleftrightarrow>
      (\<exists>us v. vs = us @ [v] \<and> for_each step [0..<k] [] = Inr us \<and> F k v)"
    using Suc.prems[of k] by (auto simp: for_each_upt_Suc simp del: upt_Suc split: sum.splits)
  also have "\<dots> \<longleftrightarrow> (\<exists>us v. vs = us @ [v] \<and> length us = k \<and> (\<forall>i < k. F i (us ! i)) \<and> F k v)"
    using Suc.IH Suc.prems by simp
  also have "\<dots> \<longleftrightarrow> length vs = Suc k \<and> (\<forall>i < Suc k. F i (vs ! i))"
    by (cases vs rule: rev_cases) (auto simp: nth_append less_Suc_eq)
  finally show ?case .
qed auto

lemma Deserialize_denotes: "Deserialize sch r = Inr vs \<longleftrightarrow> record_denotes sch (rec_data r) vs"
proof -
  let ?n = "length sch" and ?d = "rec_data r"
  let ?o = "column_offset ?n ?d" and ?hs = "header_size (length sch)"
  let ?bm = "map u8_of_byte (mem_read ?d 2 (NullBitmapSize ?n))" and ?pl = "drop (header_size (length sch)) (rec_data r)"
  let ?loop = "for_each (Deserialize_step sch ?bm (map ?o [0..<?n]) ?pl) [0..<?n] []"
  define head where "head \<longleftrightarrow> ?hs \<le> length ?d \<and> le_nat (take 2 ?d) = ?n"
  have offs: "map (\<lambda>i. ReadValue_u16 ?d (2 + NullBitmapSize ?n + 2 * i)) [0..<?n] = map ?o [0..<?n]"
    by (simp add: column_offset_def ReadValue_u16_def)
  have D: "Deserialize sch r = Inr vs \<longleftrightarrow>
      head \<and> (\<exists>q. for_each (CheckOffset_step (length ?pl)) (map ?o [0..<?n]) 0 = Inr q) \<and> ?loop = Inr vs"
    unfolding Deserialize_def Let_def GetSize_def offs[symmetric]
    by (auto simp: head_def header_size_def ReadValue_u16_def mem_read_def split: sum.splits)
  have sorted: "(\<exists>q. for_each (CheckOffset_step (length ?pl)) (map ?o [0..<?n]) 0 = Inr q) \<longleftrightarrow>
      (\<forall>i < ?n. ?o i \<le> ?o (Suc i))"
    using sorted_steps[of ?o ?n] sorted_ends[of "map ?o [0..<?n]" "length ?pl"]
    by (simp add: check_offsets column_offset_def[of ?n ?d ?n])
  have loop: "?loop = Inr vs \<longleftrightarrow> length vs = ?n \<and> (\<forall>i < ?n. column_denotes sch ?d i (vs ! i))"
    if "head" "\<forall>i < ?n. ?o i \<le> ?o (Suc i)"
  proof (rule append_loop)
    fix i acc acc' assume i: "i < ?n"
    have "?o (Suc i) \<le> ?o ?n"
      by (rule steps_le[OF that(2)]) (use i in simp)
    then show "Deserialize_step sch ?bm (map ?o [0..<?n]) ?pl i acc = Inr acc' \<longleftrightarrow>
        (\<exists>v. acc' = acc @ [v] \<and> column_denotes sch ?d i v)"
      using that by (intro Deserialize_step_denotes[OF i]) (simp_all add: head_def column_offset_def[of ?n ?d ?n])
  qed
  show ?thesis unfolding D sorted record_denotes_def Let_def
    using loop by (auto simp: head_def column_denotes_def Let_def)
qed

lemma Deserialize_error:
  assumes "Deserialize sch r = Inl st"
  shows "status_code st = IO_ERROR"
proof -
  have chk: "status_code e = IO_ERROR" if "for_each (CheckOffset_step m) offs 0 = Inl e" for m offs e
    by (rule for_each_error[OF that])
       (auto simp: CheckOffset_step_def ValidateOffset_def split: if_splits)
  have des: "status_code e = IO_ERROR"
    if "for_each (Deserialize_step sch bm offs payload) xs [] = Inl e" for bm offs payload xs e
    by (rule for_each_error[OF that])
       (auto simp: Deserialize_step_def Let_def split: if_splits type_id.splits)
  show ?thesis using assms chk des
    by (auto simp: Deserialize_def Let_def split: if_splits sum.splits)
qed

section \<open>Properties\<close>

text \<open>
  C26. Whatever row the codec accepts, decoding the record it wrote gives back exactly that row: all
  32-bit integers, booleans, byte strings and nulls, in the schema's order; the record keeps its
  identifier.
\<close>

theorem record_codec_roundtrip:
  assumes "Serialize sch vs (Some r) = Inr r'"
  shows "Deserialize sch r' = Inr vs \<and> rec_rid r' = rec_rid r \<and>
    (\<forall>i. GetValue sch r' i = (if i < length vs then Inr (vs ! i)
       else Inl (InvalidArgument ''Column index is out of range'')))"
proof -
  have "rec_rid r' = rec_rid r"
    using Serialize_Inr[OF assms] Serialize_row_ok[of sch vs r] assms by auto
  then show ?thesis using Serialize_Deserialize[OF assms] by (simp add: GetValue_def)
qed

lemma codec_example_row_ok:
  "row_ok [\<lparr>col_name = ''id'', col_type = INTEGER, col_length = 0\<rparr>,
           \<lparr>col_name = ''name'', col_type = VARCHAR, col_length = 3\<rparr>,
           \<lparr>col_name = ''b'', col_type = BOOLEAN, col_length = 0\<rparr>]
          [FInt 7, FStr ''bob'', FNull]"
  by (simp add: row_ok_def field_ok_def payload_of_def header_size_def NullBitmapSize_def)

theorem record_codec_roundtrip_witness:
  "\<exists>r'. Deserialize [\<lparr>col_name = ''id'', col_type = INTEGER, col_length = 0\<rparr>,
           \<lparr>col_name = ''name'', col_type = VARCHAR, col_length = 3\<rparr>,
           \<lparr>col_name = ''b'', col_type = BOOLEAN, col_length = 0\<rparr>] r' =
      Inr [FInt 7, FStr ''bob'', FNull]"
  using Serialize_total[OF codec_example_row_ok, of empty_record]
    record_codec_roundtrip[where r = empty_record and vs = "[FInt 7, FStr ''bob'', FNull]"] by blast

text \<open>
  C38. The codec accepts a row exactly when every value is null or fits its column's type and declared
  length and the header and the payload together take at most 65535 bytes; the record then has that
  size.
\<close>

theorem record_serialize_accepts:
  "(case Serialize sch vs (Some r) of
      Inl st \<Rightarrow> \<not> row_ok sch vs \<and> (status_code st = INVALID_ARGUMENT \<or> status_code st = OUT_OF_MEMORY)
    | Inr r' \<Rightarrow> row_ok sch vs \<and> GetSize r' = header_size (length sch) + length (payload_of vs))"
proof (cases "Serialize sch vs (Some r)")
  case (Inl st)
  have "status_code st = INVALID_ARGUMENT \<or> status_code st = OUT_OF_MEMORY"
  proof (cases "for_each (Serialize_step sch vs) [0..<length sch]
      (replicate (NullBitmapSize (length sch)) 0, replicate (length sch) 0, [])")
    case (Inl e)
    have "status_code e = INVALID_ARGUMENT \<or> status_code e = OUT_OF_MEMORY"
      by (rule for_each_error[OF Inl])
         (auto simp: Serialize_step_def Let_def split: if_splits type_id.splits field_value.splits)
    then show ?thesis using \<open>Serialize sch vs (Some r) = Inl st\<close> Inl
      by (auto simp: Serialize_def Let_def split: if_splits)
  next
    case (Inr s)
    then show ?thesis using \<open>Serialize sch vs (Some r) = Inl st\<close>
      by (cases s) (auto simp: Serialize_def Let_def split: if_splits)
  qed
  then show ?thesis using Inl Serialize_total[of sch vs r] by auto
next
  case (Inr r')
  then have ok: "row_ok sch vs" using Serialize_Inr by blast
  then have "length vs = length sch" "length vs \<le> 65535"
    using header_count[of "length sch"] by (auto simp: row_ok_def list_all2_lengthD[symmetric])
  then show ?thesis using Inr ok Serialize_row_ok[OF ok, of r] record_image_parts(1)
    by (auto simp: GetSize_def)
qed

text \<open>
  C39. Decoding is exact on arbitrary bytes: \<^verbatim>\<open>Deserialize\<close> returns a row if and only if the bytes are
  the image of one (a header of the right size and column count, offsets that do not decrease and stay
  inside the payload, fields of the size of their type), the row is the one they denote, with one
  value per column, null or of the column's type; in every other case it fails with an I/O error.
\<close>

theorem record_deserialize_exact:
  "case Deserialize sch r of
     Inl st \<Rightarrow> status_code st = IO_ERROR \<and> (\<forall>us. \<not> record_denotes sch (rec_data r) us)
   | Inr vs \<Rightarrow> list_all2 (\<lambda>c v. type_ok (col_type c) v) sch vs \<and>
       (\<forall>us. record_denotes sch (rec_data r) us \<longleftrightarrow> us = vs)"
proof (cases "Deserialize sch r")
  case (Inl st)
  then show ?thesis using Deserialize_error[OF Inl] Deserialize_denotes[of sch r] by simp
next
  case (Inr vs)
  then show ?thesis using Deserialize_typed[OF Inr] by (auto simp: Inr Deserialize_denotes[symmetric])
qed

text \<open>
  Projection selects columns: when it succeeds, every index names a column of the input, and the
  output record, read with the selected columns as its schema, holds the selected values in the
  order asked for, under the identifier of the input record.
\<close>

theorem project_selects_columns:
  assumes "Deserialize sch r = Inr vs" "Project sch r idxs = Inr p"
  shows "(\<forall>i \<in> set idxs. i < length sch) \<and> rec_rid p = rec_rid r \<and>
    Deserialize (map (\<lambda>i. sch ! i) idxs) p = Inr (map (\<lambda>i. vs ! i) idxs)"
proof -
  obtain q where q: "\<forall>i \<in> set idxs. i < length sch" "p = SetRecordID q (rec_rid r)"
      "Serialize (map (\<lambda>i. sch ! i) idxs) (map (\<lambda>i. vs ! i) idxs) (Some empty_record) = Inr q"
    using assms(2) by (auto simp: Project_spec[OF assms(1)] split: if_splits sum.splits)
  show ?thesis
    using Serialize_Deserialize[OF q(3)] Deserialize_data_cong[of p q] q(1,2) by simp
qed

theorem project_selects_columns_witness:
  "\<exists>r p. Deserialize [\<lparr>col_name = ''n'', col_type = VARCHAR, col_length = 3\<rparr>,
                      \<lparr>col_name = ''b'', col_type = BOOLEAN, col_length = 0\<rparr>] p =
      Inr [FStr ''bob'', FNull] \<and> rec_rid p = rec_rid r"
proof -
  let ?sch = "[\<lparr>col_name = ''id'', col_type = INTEGER, col_length = 0\<rparr>,
           \<lparr>col_name = ''n'', col_type = VARCHAR, col_length = 3\<rparr>,
           \<lparr>col_name = ''b'', col_type = BOOLEAN, col_length = 0\<rparr>]"
  let ?vs = "[FInt 7, FStr ''bob'', FNull]"
  have ok: "row_ok ?sch ?vs" "row_ok (map (\<lambda>i. ?sch ! i) [1, 2]) (map (\<lambda>i. ?vs ! i) [1, 2])"
    by (simp_all add: row_ok_def field_ok_def payload_of_def header_size_def NullBitmapSize_def)
  obtain r where r: "Deserialize ?sch r = Inr ?vs"
    using Serialize_total[OF ok(1), of empty_record] Serialize_Deserialize by blast
  obtain p where "Project ?sch r [1, 2] = Inr p"
    using Serialize_total[OF ok(2), of empty_record] by (auto simp: Project_spec[OF r])
  then show ?thesis using project_selects_columns[OF r, of "[1, 2]" p] by (auto simp: numeral_2_eq_2)
qed

end
