(* ===== verification/Index_Key.thy ===== *)
theory Index_Key
  imports Record_Codec
begin

text \<open>
  The key encoder of the hash index (index/index_key.h, index/index_key.cpp): a type tag and the
  value's bytes. \<open>MAX_KEY_LENGTH\<close> is the constant of the bucket pages (index/bucket_page.h).
\<close>

definition MAX_KEY_LENGTH :: nat where [layout_simps]: "MAX_KEY_LENGTH = 64"

text \<open>\<open>raw_byte raw shift\<close> is \<^verbatim>\<open>static_cast<char>((raw >> shift) & 0xFFU)\<close>.\<close>

definition raw_byte :: "32 word \<Rightarrow> nat \<Rightarrow> byte" where
  "raw_byte raw shift = char_of (unat (drop_bit shift raw AND 0xFF))"

definition Encode :: "field_value \<Rightarrow> string result" where
  "Encode value = (case value of
     FNull \<Rightarrow> Inl (InvalidArgument ''NULL values are not indexed'')
   | FInt v \<Rightarrow> Inr ([CHR 0x01] @ map (raw_byte v) [0, 8, 16, 24])
   | FStr text \<Rightarrow>
       if length text + 1 > MAX_KEY_LENGTH
       then Inl (InvalidArgument ''VARCHAR value exceeds hash index key length'')
       else Inr ([CHR 0x02] @ text)
   | FBool b \<Rightarrow> Inr ([CHR 0x03] @ [if b then CHR 0x01 else CHR 0x00]))"

section \<open>Lemmas\<close>

lemma raw_byte_le_bytes:
  "map (raw_byte v) [0, 8, 16, 24] = le_bytes 4 (unat v)"
proof -
  have mask: "(255::nat) = mask 8" by (simp add: mask_eq_exp_minus_1)
  have "raw_byte v k = char_of (unat v div 2 ^ k)" for k
  proof -
    have "unat (drop_bit k v AND 0xFF) = drop_bit k (unat v) AND 255"
      by (simp only: unsigned_and_eq unat_drop_bit_eq) simp
    also have "\<dots> = unat v div 2 ^ k mod 256"
      by (simp add: mask flip: take_bit_eq_mask) (simp add: take_bit_eq_mod drop_bit_eq_div)
    finally have "unat (drop_bit k v AND 0xFF) = unat v div 2 ^ k mod 256" .
    then show ?thesis by (simp add: raw_byte_def)
  qed
  moreover have "le_bytes 4 n = [char_of n, char_of (n div 2 ^ 8), char_of (n div 2 ^ 16),
      char_of (n div 2 ^ 24)]" for n
  proof -
    have "(4::nat) = Suc (Suc (Suc (Suc 0)))" by simp
    then show ?thesis by (simp only: le_bytes.simps div_mult2_eq[symmetric]) simp
  qed
  ultimately show ?thesis by simp
qed

lemma le_bytes_4_inject: "le_bytes 4 (unat v) = le_bytes 4 (unat w) \<longleftrightarrow> v = (w :: 32 word)"
proof
  assume "le_bytes 4 (unat v) = le_bytes 4 (unat w)"
  then have "le_nat (le_bytes 4 (unat v)) = le_nat (le_bytes 4 (unat w))" by simp
  then show "v = w"
    using unsigned_less[of v, where ?'a = nat] unsigned_less[of w, where ?'a = nat]
    by (simp add: le_nat_le_bytes word_unat_eq_iff)
qed simp

lemma Encode_inject: "Encode v = Inr k \<Longrightarrow> Encode w = Inr k \<Longrightarrow> v = w"
  by (auto simp: Encode_def raw_byte_le_bytes le_bytes_4_inject simp del: list.map
      split: field_value.splits if_splits)

lemma Encode_length: "Encode v = Inr k \<Longrightarrow> 0 < length k \<and> length k \<le> MAX_KEY_LENGTH"
  by (auto simp: Encode_def layout_simps split: field_value.splits if_splits)

section \<open>Properties\<close>

text \<open>
  C40. Index keys identify values: two values have the same key only if they are equal, also across
  types, and every key fits the 64-byte key field of a bucket entry and is not empty.
\<close>

theorem index_key_identifies:
  assumes "Encode v = Inr k"
  shows "(Encode w = Inr k \<longleftrightarrow> w = v) \<and> 0 < length k \<and> length k \<le> MAX_KEY_LENGTH"
  using assms Encode_inject[of w k v] Encode_length[of v k] by blast

theorem index_key_identifies_witness:
  "Encode (FStr ''ab'') = Inr [CHR 0x02, CHR ''a'', CHR ''b''] \<and> FStr ''ab'' \<noteq> FBool True"
proof -
  have "Encode (FStr ''ab'') = Inr [CHR 0x02, CHR ''a'', CHR ''b'']"
    by (simp add: Encode_def layout_simps)
  then show ?thesis using index_key_identifies[of "FStr ''ab''" _ "FBool True"] by auto
qed

end
