(* ===== verification/Clock_Replacer.thy ===== *)
theory Clock_Replacer
  imports Common
begin

text \<open>
  The frame replacer: the abstract interface \<^verbatim>\<open>Replacer\<close> (buffer/replacer.h) as a locale, and the
  clock (second chance) replacer (buffer/clock_replacer.h, buffer/clock_replacer.cpp) that the buffer
  pool uses. The mutex of the code is not modelled: an operation is one atomic step. The output
  pointer of \<^verbatim>\<open>Victim\<close> is the returned option.
\<close>

section \<open>The interface\<close>

locale replacer =
  fixes inv :: "'r \<Rightarrow> bool"
    and cap :: "'r \<Rightarrow> nat"
    and cand :: "'r \<Rightarrow> frame_id set"
    and victim :: "'r \<Rightarrow> 'r \<times> frame_id option"
    and pin :: "frame_id \<Rightarrow> 'r \<Rightarrow> 'r"
    and unpin :: "frame_id \<Rightarrow> 'r \<Rightarrow> 'r"
    and size :: "'r \<Rightarrow> nat"
  assumes cand_bound: "inv r \<Longrightarrow> f \<in> cand r \<Longrightarrow> 0 \<le> f \<and> f < int (cap r)"
    and size_law: "inv r \<Longrightarrow> size r = card (cand r)"
    and pin_law: "inv r \<Longrightarrow> inv (pin f r) \<and> cap (pin f r) = cap r \<and> cand (pin f r) = cand r - {f}"
    and unpin_law: "inv r \<Longrightarrow> inv (unpin f r) \<and> cap (unpin f r) = cap r \<and>
      cand (unpin f r) = (if 0 \<le> f \<and> f < int (cap r) then insert f (cand r) else cand r)"
    and victim_some: "inv r \<Longrightarrow> victim r = (r', Some f) \<Longrightarrow>
      inv r' \<and> cap r' = cap r \<and> f \<in> cand r \<and> cand r' = cand r - {f}"
    and victim_none: "inv r \<Longrightarrow> victim r = (r', None) \<Longrightarrow> r' = r \<and> cand r = {}"
begin

lemma finite_cand: "inv r \<Longrightarrow> finite (cand r)"
  by (rule finite_subset[of _ "{0..<int (cap r)}"]) (auto dest: cand_bound)

lemma victim_succeeds: "inv r \<Longrightarrow> cand r \<noteq> {} \<longleftrightarrow> (\<exists>f r'. victim r = (r', Some f))"
  using victim_none[of r] victim_some[of r] by (cases "victim r"; cases "snd (victim r)") force+

lemma size_victim: "inv r \<Longrightarrow> victim r = (r', Some f) \<Longrightarrow> size r = Suc (size r')"
  using victim_some[of r r' f] finite_cand[of r] card.remove[of "cand r" f] by (simp add: size_law)

lemma pinned_not_victim: "inv r \<Longrightarrow> victim (pin f r) = (r', Some g) \<Longrightarrow> g \<noteq> f"
  using victim_some[of "pin f r" r' g] pin_law[of r f] by auto

end

section \<open>The clock\<close>

record clock =
  clock_hand :: nat
  ref_flags :: "bool list"
  in_replacer :: "bool list"

definition new_ClockReplacer :: "nat \<Rightarrow> clock" where
  "new_ClockReplacer num_pages =
     \<lparr>clock_hand = 0, ref_flags = replicate num_pages False, in_replacer = replicate num_pages False\<rparr>"

definition Clock_Size :: "clock \<Rightarrow> nat" where
  "Clock_Size c = count_list (in_replacer c) True"

definition AdvanceHand :: "clock \<Rightarrow> clock" where
  "AdvanceHand c = c\<lparr>clock_hand := (clock_hand c + 1) mod length (ref_flags c)\<rparr>"

text \<open>The two loops of \<^verbatim>\<open>Victim\<close>; the first argument is the number of iterations left.\<close>

fun Victim_first_pass :: "nat \<Rightarrow> clock \<Rightarrow> clock \<times> frame_id option" where
  "Victim_first_pass 0 c = (c, None)"
| "Victim_first_pass (Suc count) c =
     (let h = clock_hand c
      in if in_replacer c ! h then
           if ref_flags c ! h then
             Victim_first_pass count (AdvanceHand (c\<lparr>ref_flags := (ref_flags c)[h := False]\<rparr>))
           else (AdvanceHand (c\<lparr>in_replacer := (in_replacer c)[h := False]\<rparr>), Some (int h))
         else Victim_first_pass count (AdvanceHand c))"

fun Victim_second_pass :: "nat \<Rightarrow> clock \<Rightarrow> clock \<times> frame_id option" where
  "Victim_second_pass 0 c = (c, None)"
| "Victim_second_pass (Suc count) c =
     (let h = clock_hand c
      in if in_replacer c ! h
         then (AdvanceHand (c\<lparr>in_replacer := (in_replacer c)[h := False]\<rparr>), Some (int h))
         else Victim_second_pass count (AdvanceHand c))"

definition Clock_Victim :: "clock \<Rightarrow> clock \<times> frame_id option" where
  "Clock_Victim c =
     (if Clock_Size c = 0 then (c, None)
      else (case Victim_first_pass (length (ref_flags c)) c of
          (c', Some frame) \<Rightarrow> (c', Some frame)
        | (c', None) \<Rightarrow> Victim_second_pass (length (ref_flags c)) c'))"

definition Clock_Pin :: "frame_id \<Rightarrow> clock \<Rightarrow> clock" where
  "Clock_Pin frame c =
     (if 0 \<le> frame \<and> nat frame < length (in_replacer c)
      then c\<lparr>in_replacer := (in_replacer c)[nat frame := False],
             ref_flags := (ref_flags c)[nat frame := False]\<rparr>
      else c)"

definition Clock_Unpin :: "frame_id \<Rightarrow> clock \<Rightarrow> clock" where
  "Clock_Unpin frame c =
     (if 0 \<le> frame \<and> nat frame < length (in_replacer c)
      then c\<lparr>in_replacer := (in_replacer c)[nat frame := True],
             ref_flags := (ref_flags c)[nat frame := True]\<rparr>
      else c)"

section \<open>The order of the sweep\<close>

definition clock_inv :: "clock \<Rightarrow> bool" where
  "clock_inv c \<longleftrightarrow> length (ref_flags c) = length (in_replacer c) \<and>
     (in_replacer c \<noteq> [] \<longrightarrow> clock_hand c < length (in_replacer c))"

definition clock_cand :: "clock \<Rightarrow> frame_id set" where
  "clock_cand c = {f. 0 \<le> f \<and> nat f < length (in_replacer c) \<and> in_replacer c ! nat f}"

text \<open>The frames in the order in which the hand meets them.\<close>

definition clock_order :: "clock \<Rightarrow> nat \<Rightarrow> nat list" where
  "clock_order c n = map (\<lambda>i. (clock_hand c + i) mod length (ref_flags c)) [0..<n]"

text \<open>Clearing the reference flag of the candidates met.\<close>

definition clear_refs :: "bool list \<Rightarrow> nat list \<Rightarrow> bool list \<Rightarrow> bool list" where
  "clear_refs cand xs refs = fold (\<lambda>i r. if cand ! i then r[i := False] else r) xs refs"

text \<open>The second-chance rule: the first candidate in clock order whose flag is off; if every
  candidate's flag is on, the first candidate.\<close>

definition second_chance :: "clock \<Rightarrow> nat option" where
  "second_chance c =
     (let order = clock_order c (length (ref_flags c))
      in case find (\<lambda>i. in_replacer c ! i \<and> \<not> ref_flags c ! i) order of
           Some i \<Rightarrow> Some i
         | None \<Rightarrow> find (\<lambda>i. in_replacer c ! i) order)"

text \<open>The frames the hand passes over before it meets a candidate whose flag is off: the ones that get
  a second chance. It is all of them when there is no such candidate.\<close>

definition passed_over :: "clock \<Rightarrow> nat list" where
  "passed_over c = takeWhile (\<lambda>j. in_replacer c ! j \<longrightarrow> ref_flags c ! j) (clock_order c (length (ref_flags c)))"

section \<open>The two passes\<close>

lemma hand_mod: "h < n \<Longrightarrow> x mod n < (n :: nat)"
  by (rule mod_less_divisor) linarith

lemma clock_order_Suc:
  "clock_hand c < length (ref_flags c) \<Longrightarrow>
   clock_order c (Suc n) = clock_hand c # clock_order (AdvanceHand c) n"
  by (simp add: clock_order_def AdvanceHand_def mod_add_left_eq map_upt_Suc del: upt_Suc)

lemma clock_order_cong [simp]:
  "clock_order (c\<lparr>in_replacer := xs\<rparr>) n = clock_order c n"
  "length rs = length (ref_flags c) \<Longrightarrow> clock_order (c\<lparr>ref_flags := rs\<rparr>) n = clock_order c n"
  by (simp_all add: clock_order_def)

lemma AdvanceHand_simps [simp]:
  "ref_flags (AdvanceHand c) = ref_flags c" "in_replacer (AdvanceHand c) = in_replacer c"
  "clock_hand (AdvanceHand c) = (clock_hand c + 1) mod length (ref_flags c)"
  by (simp_all add: AdvanceHand_def)

lemma clock_order_all:
  assumes "clock_hand c < length (ref_flags c)"
  shows "set (clock_order c (length (ref_flags c))) = {0..<length (ref_flags c)}"
proof -
  let ?n = "length (ref_flags c)"
  have "i \<in> set (clock_order c ?n)" if "i < ?n" for i
  proof (cases "clock_hand c \<le> i")
    case True
    then have "i = (clock_hand c + (i - clock_hand c)) mod ?n" using that by simp
    then show ?thesis using that unfolding clock_order_def set_map image_iff
      by (intro bexI[of _ "i - clock_hand c"]) auto
  next
    case False
    then have "clock_hand c + (?n - clock_hand c + i) = i + ?n" using assms by simp
    then have "i = (clock_hand c + (?n - clock_hand c + i)) mod ?n" using that by simp
    then show ?thesis using that False assms unfolding clock_order_def set_map image_iff
      by (intro bexI[of _ "?n - clock_hand c + i"]) auto
  qed
  then show ?thesis using assms by (auto simp: clock_order_def intro: hand_mod[OF assms])
qed

lemma clock_order_distinct_hand:
  assumes "clock_hand c < length (ref_flags c)" "n < length (ref_flags c)"
  shows "clock_hand c \<notin> set (clock_order (AdvanceHand c) n)"
proof
  assume "clock_hand c \<in> set (clock_order (AdvanceHand c) n)"
  then obtain i where i: "i < n" "clock_hand c = (clock_hand c + 1 + i) mod length (ref_flags c)"
    by (auto simp: clock_order_def mod_add_left_eq)
  then show False using assms
    by (cases "clock_hand c + 1 + i < length (ref_flags c)")
       (auto simp: mod_if[of "Suc (clock_hand c + i)"])
qed

lemma second_pass:
  assumes "clock_hand c < length (ref_flags c)"
  shows "case find (\<lambda>i. in_replacer c ! i) (clock_order c n) of
      None \<Rightarrow> (\<exists>h. Victim_second_pass n c = (c\<lparr>clock_hand := h\<rparr>, None))
    | Some i \<Rightarrow> Victim_second_pass n c = (c\<lparr>in_replacer := (in_replacer c)[i := False],
        clock_hand := (i + 1) mod length (ref_flags c)\<rparr>, Some (int i))"
  using assms
proof (induction n arbitrary: c)
  case 0
  then show ?case by (auto simp: clock_order_def intro!: exI[of _ "clock_hand c"])
next
  case (Suc n)
  have "clock_hand (AdvanceHand c) < length (ref_flags (AdvanceHand c))"
    using hand_mod[OF Suc.prems] by simp
  then show ?case using Suc.IH[of "AdvanceHand c"] Suc.prems
    by (auto simp: clock_order_Suc Let_def AdvanceHand_def split: option.splits)
qed

lemma find_cong_set: "(\<And>x. x \<in> set xs \<Longrightarrow> P x = Q x) \<Longrightarrow> find P xs = find Q xs"
  by (induction xs) auto

lemma length_clear_refs [simp]: "length (clear_refs cd xs rs) = length rs"
  by (induction xs arbitrary: rs) (auto simp: clear_refs_def)

lemma nth_unset: "j < length rs \<Longrightarrow> rs[x := False] ! j \<longleftrightarrow> rs ! j \<and> j \<noteq> x"
  by (cases "x = j") simp_all

lemma nth_clear_refs: "j < length rs \<Longrightarrow> clear_refs cd xs rs ! j \<longleftrightarrow> rs ! j \<and> \<not> (cd ! j \<and> j \<in> set xs)"
proof (induction xs arbitrary: rs)
  case (Cons x xs)
  then show ?case
    using Cons.IH[of "if cd ! x then rs[x := False] else rs"]
    by (auto simp: clear_refs_def nth_unset)
qed (simp add: clear_refs_def)

text \<open>The first pass returns the first unreferenced candidate and has cleared the flags of the
  candidates it passed over; otherwise it has cleared every candidate's flag it met.\<close>

lemma first_pass:
  assumes "clock_hand c < length (ref_flags c)" "n \<le> length (ref_flags c)"
  defines "P \<equiv> \<lambda>i. in_replacer c ! i \<and> \<not> ref_flags c ! i"
  shows "case find P (clock_order c n) of
      None \<Rightarrow> Victim_first_pass n c =
        (c\<lparr>ref_flags := clear_refs (in_replacer c) (clock_order c n) (ref_flags c),
           clock_hand := (clock_hand c + n) mod length (ref_flags c)\<rparr>, None)
    | Some i \<Rightarrow> Victim_first_pass n c =
        (c\<lparr>ref_flags := clear_refs (in_replacer c) (takeWhile (\<lambda>j. \<not> P j) (clock_order c n)) (ref_flags c),
           in_replacer := (in_replacer c)[i := False],
           clock_hand := (i + 1) mod length (ref_flags c)\<rparr>, Some (int i))"
  using assms(1,2) unfolding P_def
proof (induction n arbitrary: c)
  case 0
  then show ?case by (auto simp: clock_order_def clear_refs_def)
next
  case (Suc n)
  let ?h = "clock_hand c"
  let ?c = "if in_replacer c ! ?h then c\<lparr>ref_flags := (ref_flags c)[?h := False]\<rparr> else c"
  have len: "length (ref_flags ?c) = length (ref_flags c)" by simp
  have ord: "clock_order (AdvanceHand ?c) n = clock_order (AdvanceHand c) n"
    by (simp add: clock_order_def)
  have nin: "?h \<notin> set (clock_order (AdvanceHand c) n)"
    using clock_order_distinct_hand Suc.prems by simp
  have ne: "(xs[?h := v]) ! i = xs ! i" if "i \<in> set (clock_order (AdvanceHand c) n)"
    for i v and xs :: "bool list"
    by (rule nth_list_update_neq) (use nin that in blast)
  have fnd: "find (\<lambda>i. in_replacer ?c ! i \<and> \<not> ref_flags ?c ! i) (clock_order (AdvanceHand c) n) =
      find (\<lambda>i. in_replacer c ! i \<and> \<not> ref_flags c ! i) (clock_order (AdvanceHand c) n)"
    by (intro find_cong_set) (simp add: ne)
  have tw: "takeWhile (\<lambda>i. in_replacer ?c ! i \<longrightarrow> ref_flags ?c ! i) (clock_order (AdvanceHand c) n) =
      takeWhile (\<lambda>i. in_replacer c ! i \<longrightarrow> ref_flags c ! i) (clock_order (AdvanceHand c) n)"
    by (intro takeWhile_cong) (simp_all add: ne)
  have IH: "case find (\<lambda>i. in_replacer c ! i \<and> \<not> ref_flags c ! i) (clock_order (AdvanceHand c) n) of
      None \<Rightarrow> Victim_first_pass n (AdvanceHand ?c) =
        (?c\<lparr>ref_flags := clear_refs (in_replacer c) (clock_order (AdvanceHand c) n) (ref_flags ?c),
           clock_hand := (?h + Suc n) mod length (ref_flags c)\<rparr>, None)
    | Some i \<Rightarrow> Victim_first_pass n (AdvanceHand ?c) =
        (?c\<lparr>ref_flags := clear_refs (in_replacer c)
              (takeWhile (\<lambda>i. in_replacer c ! i \<longrightarrow> ref_flags c ! i) (clock_order (AdvanceHand c) n))
              (ref_flags ?c),
           in_replacer := (in_replacer c)[i := False],
           clock_hand := (i + 1) mod length (ref_flags c)\<rparr>, Some (int i))"
    using Suc.IH[of "AdvanceHand ?c"] Suc.prems fnd tw ord
    by (simp add: AdvanceHand_def hand_mod mod_add_left_eq split: option.splits if_splits)
  show ?case
    using IH Suc.prems
    by (auto simp: clock_order_Suc Let_def AdvanceHand_def clear_refs_def
        split: option.splits if_splits)
qed

section \<open>Victim\<close>

lemma count_True: "count_list xs True = card {i. i < length xs \<and> xs ! i}"
proof -
  have "count_list xs True = length (filter (\<lambda>x. x) xs)"
    by (induction xs) auto
  then show ?thesis by (simp add: length_filter_conv_card)
qed

lemma Clock_Size_0: "Clock_Size c = 0 \<longleftrightarrow> (\<forall>i < length (in_replacer c). \<not> in_replacer c ! i)"
  by (auto simp: Clock_Size_def count_True)

lemma card_clock_cand: "card (clock_cand c) = Clock_Size c"
proof -
  have "clock_cand c = int ` {i. i < length (in_replacer c) \<and> in_replacer c ! i}"
    by (auto simp: clock_cand_def image_iff intro!: exI[of _ "nat _"])
  then show ?thesis by (simp add: Clock_Size_def count_True card_image)
qed

lemma find_in: "find P xs = Some x \<Longrightarrow> x \<in> set xs \<and> P x"
  by (induction xs) (auto split: if_splits)

lemma find_none: "find P xs = None \<longleftrightarrow> (\<forall>x \<in> set xs. \<not> P x)"
  by (induction xs) auto

text \<open>What \<^verbatim>\<open>Victim\<close> does when there is a candidate: it clears the flags of the candidates the hand
  passes over, removes exactly the frame that the second-chance rule names, and moves the hand behind it.\<close>

lemma Victim_spec:
  assumes "clock_inv c" "Clock_Size c \<noteq> 0"
  shows "\<exists>i. second_chance c = Some i \<and> i < length (in_replacer c) \<and> in_replacer c ! i \<and>
    Clock_Victim c = (c\<lparr>ref_flags := clear_refs (in_replacer c) (passed_over c) (ref_flags c),
      in_replacer := (in_replacer c)[i := False], clock_hand := (i + 1) mod length (ref_flags c)\<rparr>, Some (int i))"
proof -
  let ?n = "length (ref_flags c)"
  let ?r = "clear_refs (in_replacer c) (passed_over c) (ref_flags c)"
  obtain k where k: "k < length (in_replacer c)" "in_replacer c ! k"
    using assms(2) by (auto simp: Clock_Size_0)
  then have h: "clock_hand c < ?n" and n: "length (in_replacer c) = ?n"
    using assms(1) by (auto simp: clock_inv_def)
  note all = clock_order_all[OF h]
  have po: "passed_over c = takeWhile (\<lambda>j. \<not> (in_replacer c ! j \<and> \<not> ref_flags c ! j)) (clock_order c ?n)"
    by (simp add: passed_over_def)
  show ?thesis
  proof (cases "find (\<lambda>i. in_replacer c ! i \<and> \<not> ref_flags c ! i) (clock_order c ?n)")
    case (Some i)
    have "Clock_Victim c = (c\<lparr>ref_flags := ?r, in_replacer := (in_replacer c)[i := False],
      clock_hand := (i + 1) mod ?n\<rparr>, Some (int i))"
      using first_pass[OF h le_refl] assms(2) unfolding Clock_Victim_def Some option.case po
      by (simp only: prod.case option.case if_False)
    moreover have "second_chance c = Some i" using Some by (simp add: second_chance_def Let_def)
    moreover have "i < length (in_replacer c)" "in_replacer c ! i" using find_in[OF Some] all n by auto
    ultimately show ?thesis by blast
  next
    case None
    have "passed_over c = clock_order c ?n"
      using None unfolding po by (auto simp: find_none takeWhile_eq_all_conv)
    then have p1: "Victim_first_pass ?n c = (c\<lparr>ref_flags := ?r\<rparr>, None)"
      using first_pass[OF h le_refl] None h by simp
    have "find (\<lambda>i. in_replacer c ! i) (clock_order c ?n) \<noteq> None"
      using k all n by (auto simp: find_none simp del: not_None_eq)
    then obtain i where i: "find (\<lambda>i. in_replacer c ! i) (clock_order c ?n) = Some i" by blast
    have "Victim_second_pass ?n (c\<lparr>ref_flags := ?r\<rparr>) = (c\<lparr>ref_flags := ?r, in_replacer := (in_replacer c)[i := False],
        clock_hand := (i + 1) mod ?n\<rparr>, Some (int i))"
      using second_pass[of "c\<lparr>ref_flags := ?r\<rparr>" ?n] h i by simp
    then show ?thesis
      using p1 None i find_in[OF i] all n assms(2)
      by (auto simp: second_chance_def Clock_Victim_def Let_def)
  qed
qed

lemma clock_victim_some:
  assumes "clock_inv c" "Clock_Victim c = (c', Some f)"
  shows "clock_inv c' \<and> length (in_replacer c') = length (in_replacer c) \<and> f \<in> clock_cand c \<and>
    clock_cand c' = clock_cand c - {f} \<and> second_chance c = Some (nat f) \<and>
    clock_hand c' = (nat f + 1) mod length (ref_flags c) \<and>
    ref_flags c' = clear_refs (in_replacer c) (passed_over c) (ref_flags c)"
proof -
  have "Clock_Size c \<noteq> 0" using assms(2) by (auto simp: Clock_Victim_def split: if_splits)
  then obtain i where i: "second_chance c = Some i" "i < length (in_replacer c)" "in_replacer c ! i" "f = int i"
      "c' = c\<lparr>ref_flags := clear_refs (in_replacer c) (passed_over c) (ref_flags c), in_replacer := (in_replacer c)[i := False],
        clock_hand := (i + 1) mod length (ref_flags c)\<rparr>"
    using Victim_spec[OF assms(1)] assms(2) by auto
  have "(i + 1) mod length (ref_flags c) < length (in_replacer c)"
    using assms(1) i(2) hand_mod[of i "length (in_replacer c)"] by (simp add: clock_inv_def)
  then show ?thesis using i assms(1)
    by (auto simp: clock_inv_def clock_cand_def nth_list_update split: if_splits)
qed

lemma clock_victim_none:
  assumes "clock_inv c" "Clock_Victim c = (c', None)"
  shows "c' = c \<and> clock_cand c = {}"
proof (cases "Clock_Size c = 0")
  case True
  then show ?thesis using assms(2) by (auto simp: Clock_Victim_def Clock_Size_0 clock_cand_def)
next
  case False
  then show ?thesis using Victim_spec[OF assms(1)] assms(2) by auto
qed

interpretation clock: replacer clock_inv "\<lambda>c. length (in_replacer c)" clock_cand Clock_Victim
    Clock_Pin Clock_Unpin Clock_Size
proof (unfold_locales, goal_cases)
  case (1 r f)
  then show ?case by (auto simp: clock_cand_def)
next
  case (2 r)
  show ?case by (simp add: card_clock_cand)
next
  case (3 r f)
  then show ?case by (auto simp: clock_inv_def clock_cand_def Clock_Pin_def nth_list_update split: if_splits)
next
  case (4 r f)
  then show ?case by (auto simp: clock_inv_def clock_cand_def Clock_Unpin_def nth_list_update split: if_splits)
next
  case (5 r r' f)
  then show ?case using clock_victim_some by blast
next
  case (6 r r')
  then show ?case by (rule clock_victim_none)
qed

lemma new_ClockReplacer_inv:
  "clock_inv (new_ClockReplacer n) \<and> clock_cand (new_ClockReplacer n) = {} \<and>
   length (in_replacer (new_ClockReplacer n)) = n"
  by (auto simp: new_ClockReplacer_def clock_inv_def clock_cand_def)

section \<open>Properties\<close>

text \<open>
  C37. The clock evicts by the second-chance rule. Whenever it holds a candidate, \<^verbatim>\<open>Victim\<close> returns the
  first candidate behind the hand whose reference flag is off, or the first candidate when all flags
  are on, removes exactly that frame and reports one candidate less. The hand stops just behind the
  frame returned, and the flags that are off afterwards are those that were off before and those of
  the candidates the hand passed over before it met one whose flag was off (of all candidates, when
  there was none): each of them has had its second chance. With no candidate, \<^verbatim>\<open>Victim\<close> returns
  nothing and changes nothing.
\<close>

theorem clock_second_chance:
  assumes "clock_inv c"
  shows "case Clock_Victim c of
      (c', None) \<Rightarrow> clock_cand c = {} \<and> c' = c
    | (c', Some f) \<Rightarrow> second_chance c = Some (nat f) \<and> f \<in> clock_cand c \<and>
        clock_cand c' = clock_cand c - {f} \<and> Clock_Size c = Suc (Clock_Size c') \<and> clock_inv c' \<and>
        clock_hand c' = (nat f + 1) mod length (ref_flags c) \<and> length (ref_flags c') = length (ref_flags c) \<and>
        (\<forall>j < length (ref_flags c).
           ref_flags c' ! j \<longleftrightarrow> ref_flags c ! j \<and> \<not> (in_replacer c ! j \<and> j \<in> set (passed_over c)))"
proof (cases "Clock_Victim c")
  case (Pair c' v)
  then show ?thesis
    using clock_victim_some[OF assms] clock_victim_none[OF assms] clock.size_victim[OF assms]
    by (cases v) (auto simp: nth_clear_refs)
qed

theorem clock_second_chance_witness:
  "clock_hand (fst (Clock_Victim (Clock_Unpin 2 (Clock_Unpin 0 (new_ClockReplacer 3))))) = 1 \<and>
   \<not> ref_flags (fst (Clock_Victim (Clock_Unpin 2 (Clock_Unpin 0 (new_ClockReplacer 3))))) ! 2 \<and>
   second_chance (Clock_Unpin 2 (Clock_Unpin 0 (new_ClockReplacer 3))) = Some 0"
proof -
  have ev: "Clock_Victim (Clock_Unpin 2 (Clock_Unpin 0 (new_ClockReplacer 3))) =
      (\<lparr>clock_hand = 1, ref_flags = [False, False, False], in_replacer = [False, False, True]\<rparr>, Some 0)"
    by code_simp
  have "clock_inv (Clock_Unpin 2 (Clock_Unpin 0 (new_ClockReplacer 3)))" by code_simp
  from clock_second_chance[OF this] show ?thesis by (simp add: ev)
qed

end
