(* ===== verification/Disk_Manager.thy ===== *)
theory Disk_Manager
  imports Common
begin

text \<open>
  The disk manager (storage/disk_manager.h, storage/disk_manager.cpp): page-sized transfers on one
  flat file, and the set of free pages, which a reopened file yields again because a deallocated page
  is zeroed. The file is its byte list. What the C++ stream does on each transfer is part of the
  state, a schedule of events consumed one per transfer: it succeeds, fails while seeking, or fails
  after moving \<open>n\<close> bytes; an exhausted schedule means success. All lemmas hold for every schedule.
  The mutex is not modelled: an operation is one atomic step. \<^verbatim>\<open>PageId\<close> arithmetic does not reach
  32-bit limits: a file that large is 8 TiB.
\<close>

datatype io_event = IoOk | IoSeekFail | IoFail nat

record disk =
  disk_file :: "byte list"
  num_pages :: page_id
  free_pages :: "page_id set"
  disk_io :: "io_event list"

definition GetPageOffset :: "page_id \<Rightarrow> nat" where
  "GetPageOffset p = nat (p * int PAGE_SIZE)"

definition next_event :: "disk \<Rightarrow> io_event" where
  "next_event d = (case disk_io d of [] \<Rightarrow> IoOk | e # _ \<Rightarrow> e)"

definition consume_event :: "disk \<Rightarrow> disk" where
  "consume_event d = d\<lparr>disk_io := tl (disk_io d)\<rparr>"

datatype io_outcome = IoDone | IoSeekFailed | IoTransferFailed

text \<open>One seek-write-flush of a page, and one seek-read: what arrived, and the outcome.\<close>

definition stream_write :: "page_id \<Rightarrow> byte list \<Rightarrow> disk \<Rightarrow> disk \<times> io_outcome" where
  "stream_write p bs d =
     (let d' = consume_event d; off = GetPageOffset p
      in case next_event d of
           IoOk \<Rightarrow> (d'\<lparr>disk_file := mem_write (disk_file d) off bs\<rparr>, IoDone)
         | IoSeekFail \<Rightarrow> (d', IoSeekFailed)
         | IoFail n \<Rightarrow> (d'\<lparr>disk_file := mem_write (disk_file d) off (take n bs)\<rparr>, IoTransferFailed))"

definition stream_read :: "page_id \<Rightarrow> disk \<Rightarrow> disk \<times> byte list \<times> io_outcome" where
  "stream_read p d =
     (let d' = consume_event d; bs = mem_read (disk_file d) (GetPageOffset p) PAGE_SIZE
      in case next_event d of
           IoOk \<Rightarrow> (d', bs, IoDone)
         | IoSeekFail \<Rightarrow> (d', [], IoSeekFailed)
         | IoFail n \<Rightarrow> (d', take n bs, IoTransferFailed))"

definition WritePage :: "page_id \<Rightarrow> byte list option \<Rightarrow> disk \<Rightarrow> disk \<times> status" where
  "WritePage p data_ptr d =
     (if p < 0 then (d, InvalidArgument ''Page id cannot be negative'')
      else case data_ptr of
        None \<Rightarrow> (d, InvalidArgument ''Page data cannot be null'')
      | Some bs \<Rightarrow>
          if p > num_pages d
          then (d, InvalidArgument ''Cannot write beyond the next available page'')
          else (case stream_write p bs d of
              (d, IoSeekFailed) \<Rightarrow> (d, IOError ''Could not seek to page position'')
            | (d, IoTransferFailed) \<Rightarrow> (d, IOError ''Could not write page to disk'')
            | (d, IoDone) \<Rightarrow>
                (if p = num_pages d then d\<lparr>num_pages := num_pages d + 1\<rparr> else d, Status_OK)))"

text \<open>\<^verbatim>\<open>ReadPage\<close> returns the destination buffer too: it is zeroed before the transfer and keeps what
  arrived when the transfer fails.\<close>

definition ReadPage :: "page_id \<Rightarrow> byte list option \<Rightarrow> disk \<Rightarrow> disk \<times> byte list option \<times> status" where
  "ReadPage p data_ptr d =
     (if p < 0 then (d, data_ptr, InvalidArgument ''Page id cannot be negative'')
      else case data_ptr of
        None \<Rightarrow> (d, None, InvalidArgument ''Destination buffer cannot be null'')
      | Some buf \<Rightarrow>
          if p \<ge> num_pages d then (d, Some buf, NotFound ''Page does not exist'')
          else
            let buf = mem_write buf 0 zero_page
            in case stream_read p d of
                (d, _, IoSeekFailed) \<Rightarrow> (d, Some buf, IOError ''Could not seek to page position'')
              | (d, bs, _) \<Rightarrow>
                  (d, Some (mem_write buf 0 bs),
                   if length bs \<noteq> PAGE_SIZE then IOError ''Could not read a complete page''
                   else Status_OK))"

definition AllocatePage :: "disk \<Rightarrow> disk \<times> page_id" where
  "AllocatePage d =
     (let (d, new_page_id) =
        (if free_pages d \<noteq> {}
         then (d\<lparr>free_pages := free_pages d - {Min (free_pages d)}\<rparr>, Min (free_pages d))
         else (d, num_pages d))
      in case stream_write new_page_id zero_page d of
           (d, IoDone) \<Rightarrow>
             (if new_page_id = num_pages d then d\<lparr>num_pages := num_pages d + 1\<rparr> else d, new_page_id)
         | (d, _) \<Rightarrow>
             (if new_page_id < num_pages d
              then d\<lparr>free_pages := insert new_page_id (free_pages d)\<rparr> else d, INVALID_PAGE_ID))"

definition DeallocatePage :: "page_id \<Rightarrow> disk \<Rightarrow> disk" where
  "DeallocatePage p d =
     (if p \<le> 0 then d
      else if p \<ge> num_pages d \<or> p \<in> free_pages d then d
      else (case stream_write p zero_page d of
          (d, IoDone) \<Rightarrow> d\<lparr>free_pages := insert p (free_pages d)\<rparr>
        | (d, _) \<Rightarrow> d))"

definition GetNumPages :: "disk \<Rightarrow> page_id" where "GetNumPages d = num_pages d"

definition GetFileSize :: "disk \<Rightarrow> nat" where "GetFileSize d = nat (num_pages d) * PAGE_SIZE"

text \<open>The constructor. \<open>open1\<close>, \<open>create\<close> and \<open>open2\<close> say whether the first opening, the creation and
  the second opening succeed, \<open>sized\<close> whether \<^verbatim>\<open>tellg\<close> yields the size of the file (otherwise it is
  negative); creating truncates. \<open>Inl\<close> is the exception.\<close>

definition ScanFreePage :: "page_id \<Rightarrow> disk \<Rightarrow> disk result" where
  "ScanFreePage p d =
     (case stream_read p d of (d, bs, _) \<Rightarrow>
        if length bs \<noteq> PAGE_SIZE then Inl (IOError ''Could not scan database free pages'')
        else if list_all (\<lambda>b. b = zero_byte) bs
             then Inr (d\<lparr>free_pages := insert p (free_pages d)\<rparr>)
             else Inr d)"

definition new_DiskManager ::
  "byte list \<Rightarrow> bool \<Rightarrow> bool \<Rightarrow> bool \<Rightarrow> bool \<Rightarrow> io_event list \<Rightarrow> disk result" where
  "new_DiskManager file open1 create open2 sized io =
     (if \<not> open1 \<and> \<not> create then Inl (IOError ''Could not create database file'')
      else if \<not> open1 \<and> \<not> open2 then Inl (IOError ''Could not open database file'')
      else if \<not> sized then Inl (IOError ''Could not determine database file size'')
      else
        let file = (if open1 then file else [])
        in if length file mod PAGE_SIZE \<noteq> 0
           then Inl (IOError ''Database file size is not a multiple of PAGE_SIZE'')
           else
             let n = int (length file div PAGE_SIZE);
                 d = \<lparr>disk_file = file, num_pages = n, free_pages = {}, disk_io = io\<rparr>;
                 (d, st) = (if n = 0 then WritePage 0 (Some zero_page) d else (d, Status_OK))
             in if \<not> status_ok st then Inl (IOError ''Could not create header page'')
                else for_each ScanFreePage (map int [1..<nat (num_pages d)]) d)"

section \<open>The page device contract\<close>

text \<open>
  What the layers above rely on, for the disk as well as for the buffer pool: reading returns the
  page's contents and changes nothing, a write reaches its page and no other. \<open>usable\<close> are the pages
  a client may address.
\<close>

locale page_device =
  fixes inv :: "'d \<Rightarrow> bool"
    and usable :: "'d \<Rightarrow> page_id \<Rightarrow> bool"
    and content :: "'d \<Rightarrow> page_id \<Rightarrow> byte list option"
    and rd :: "page_id \<Rightarrow> 'd \<Rightarrow> 'd \<times> byte list option"
    and wr :: "page_id \<Rightarrow> byte list \<Rightarrow> 'd \<Rightarrow> 'd \<times> bool"
  assumes content_page: "inv d \<Longrightarrow> content d p = Some bs \<Longrightarrow> length bs = PAGE_SIZE"
    and rd_law: "inv d \<Longrightarrow> usable d p \<Longrightarrow> rd p d = (d', x) \<Longrightarrow>
      inv d' \<and> usable d' = usable d \<and> content d' = content d \<and> (x \<noteq> None \<longrightarrow> x = content d p)"
    and wr_law: "inv d \<Longrightarrow> usable d p \<Longrightarrow> length bs = PAGE_SIZE \<Longrightarrow> wr p bs d = (d', ok) \<Longrightarrow>
      inv d' \<and> usable d' = usable d \<and> (\<forall>q. q \<noteq> p \<longrightarrow> content d' q = content d q) \<and>
      (ok \<longrightarrow> content d' p = Some bs)"
begin

lemma read_after_write:
  assumes "inv d" "usable d p" "length bs = PAGE_SIZE" "wr p bs d = (d1, True)" "rd p d1 = (d2, Some x)"
  shows "x = bs"
  using wr_law[OF assms(1-4)] rd_law[of d1 p d2 "Some x"] assms(2,5) by simp

lemma read_other_after_write:
  assumes "inv d" "usable d p" "usable d q" "length bs = PAGE_SIZE" "wr p bs d = (d1, ok)"
    "rd q d1 = (d2, Some x)" "q \<noteq> p"
  shows "content d q = Some x"
  using wr_law[OF assms(1,2,4,5)] rd_law[of d1 q d2 "Some x"] assms(3,6,7) by simp

lemma writes_commute:
  assumes "inv d" "usable d p" "usable d q" "length bs = PAGE_SIZE" "length cs = PAGE_SIZE" "p \<noteq> q"
    "wr p bs d = (d1, True)" "wr q cs d1 = (d2, True)" "wr q cs d = (e1, True)" "wr p bs e1 = (e2, True)"
  shows "content d2 = content e2"
proof
  fix r
  note a = wr_law[OF assms(1,2,4,7)] wr_law[OF assms(1,3,5,9)]
  then have "inv d1" "inv e1" "usable d1 q" "usable e1 p" using assms(2,3) by simp_all
  then show "content d2 r = content e2 r"
    using a wr_law[OF _ _ assms(5,8)] wr_law[OF _ _ assms(4,10)] assms(6)
    by (cases "r = p"; cases "r = q") auto
qed

end

end
