(* ===== verification/Disk_Manager_Correct.thy ===== *)
theory Disk_Manager_Correct
  imports Disk_Manager
begin

text \<open>
  The lemmas and properties of the disk manager, for every schedule of stream failures: the page
  device contract, allocation, and what a reopened file remembers.
\<close>

section \<open>Pages of the file\<close>

definition disk_inv :: "disk \<Rightarrow> bool" where
  "disk_inv d \<longleftrightarrow> 1 \<le> num_pages d \<and> nat (num_pages d) * PAGE_SIZE \<le> length (disk_file d) \<and>
     finite (free_pages d) \<and> (\<forall>p \<in> free_pages d. 1 \<le> p \<and> p < num_pages d)"

definition disk_page :: "disk \<Rightarrow> page_id \<Rightarrow> byte list option" where
  "disk_page d p = (if 0 \<le> p \<and> p < num_pages d
     then Some (mem_read (disk_file d) (GetPageOffset p) PAGE_SIZE) else None)"

definition free_zero :: "disk \<Rightarrow> bool" where
  "free_zero d \<longleftrightarrow> (\<forall>p \<in> free_pages d. disk_page d p = Some zero_page)"

lemma GetPageOffset_nat: "0 \<le> p \<Longrightarrow> GetPageOffset p = nat p * PAGE_SIZE"
  by (simp add: GetPageOffset_def nat_mult_distrib)

lemma PAGE_SIZE_pos [simp]: "0 < PAGE_SIZE" by (simp add: layout_simps)

lemma offset_disjoint:
  assumes "0 \<le> p" "0 \<le> q" "p < q"
  shows "GetPageOffset p + PAGE_SIZE \<le> GetPageOffset q"
proof -
  have "Suc (nat p) * PAGE_SIZE \<le> nat q * PAGE_SIZE" using assms by (intro mult_le_mono1) simp
  then show ?thesis using assms by (simp add: GetPageOffset_nat)
qed

lemma offset_bound: "0 \<le> p \<Longrightarrow> p \<le> num_pages d \<Longrightarrow>
  nat (num_pages d) * PAGE_SIZE \<le> length (disk_file d) \<Longrightarrow> GetPageOffset p \<le> length (disk_file d)"
  by (rule order_trans[of _ "nat (num_pages d) * PAGE_SIZE"])
     (auto simp: GetPageOffset_nat intro: mult_le_mono1)

lemma page_bound:
  assumes "0 \<le> p" "p < num_pages d" "nat (num_pages d) * PAGE_SIZE \<le> length (disk_file d)"
  shows "GetPageOffset p + PAGE_SIZE \<le> length (disk_file d)"
  using offset_disjoint[of p "num_pages d"] assms by (simp add: GetPageOffset_nat)

lemma disk_page_length: "disk_inv d \<Longrightarrow> disk_page d p = Some bs \<Longrightarrow> length bs = PAGE_SIZE"
  using page_bound[of p d] by (auto simp: disk_page_def disk_inv_def length_mem_read split: if_splits)

lemma disk_page_None: "disk_page d p = None \<longleftrightarrow> \<not> (0 \<le> p \<and> p < num_pages d)"
  by (simp add: disk_page_def)

section \<open>Transfers\<close>

lemma consume_event_simps [simp]:
  "disk_file (consume_event d) = disk_file d" "num_pages (consume_event d) = num_pages d"
  "free_pages (consume_event d) = free_pages d"
  by (simp_all add: consume_event_def)

lemma stream_write_frame:
  assumes "stream_write p bs d = (d', oc)" "length bs = PAGE_SIZE" "0 \<le> p" "p \<le> num_pages d"
    "nat (num_pages d) * PAGE_SIZE \<le> length (disk_file d)"
  shows "num_pages d' = num_pages d \<and> free_pages d' = free_pages d \<and>
    length (disk_file d) \<le> length (disk_file d') \<and>
    (\<forall>q. q \<noteq> p \<longrightarrow> disk_page d' q = disk_page d q) \<and>
    (oc = IoDone \<longrightarrow> mem_read (disk_file d') (GetPageOffset p) PAGE_SIZE = bs \<and>
       GetPageOffset p + PAGE_SIZE \<le> length (disk_file d'))"
proof -
  note off = offset_bound[OF assms(3,4,5)]
  have other: "mem_read (mem_write (disk_file d) (GetPageOffset p) cs) (GetPageOffset q) PAGE_SIZE =
      mem_read (disk_file d) (GetPageOffset q) PAGE_SIZE"
    if "q \<noteq> p" "0 \<le> q" "length cs \<le> PAGE_SIZE" for q cs
    using offset_disjoint[of p q] offset_disjoint[of q p] assms(3) that off
    by (intro mem_read_write_other) (auto simp: neq_iff)
  show ?thesis
    using assms(1) off other[of _ bs] other[of _ "take _ bs"] assms(2)
    by (auto simp: stream_write_def Let_def disk_page_def length_mem_write_max mem_read_write_same
        split: io_event.splits)
qed

lemma stream_write_zero_free:
  assumes "stream_write p zero_page d = (d', oc)" "disk_page d p = Some zero_page"
    "nat (num_pages d) * PAGE_SIZE \<le> length (disk_file d)"
  shows "disk_file d' = disk_file d"
proof -
  let ?o = "GetPageOffset p"
  have p: "0 \<le> p" "p < num_pages d" and z: "mem_read (disk_file d) ?o PAGE_SIZE = zero_page"
    using assms(2) by (auto simp: disk_page_def split: if_splits)
  have len: "?o + PAGE_SIZE \<le> length (disk_file d)" using page_bound p assms(3) by blast
  have "take n zero_page = mem_read (disk_file d) ?o (min n PAGE_SIZE)" for n
    using z by (metis mem_read_def take_take)
  moreover have "mem_write (disk_file d) ?o (mem_read (disk_file d) ?o (min n PAGE_SIZE)) = disk_file d" for n
    using len by (intro mem_write_self) simp
  ultimately have "mem_write (disk_file d) ?o (take n zero_page) = disk_file d" for n by simp
  from this this[of PAGE_SIZE] show ?thesis using assms(1)
    by (auto simp: stream_write_def Let_def split: io_event.splits)
qed

lemma stream_read_frame:
  assumes "stream_read p d = (d', bs, oc)"
  shows "disk_file d' = disk_file d \<and> num_pages d' = num_pages d \<and> free_pages d' = free_pages d \<and>
    (length bs = PAGE_SIZE \<longrightarrow> bs = mem_read (disk_file d) (GetPageOffset p) PAGE_SIZE)"
proof -
  have "take n (mem_read f i PAGE_SIZE) = mem_read f i PAGE_SIZE"
    if "length (take n (mem_read f i PAGE_SIZE)) = PAGE_SIZE" for n i and f :: "byte list"
    using that by (intro take_all) (auto simp: mem_read_def)
  then show ?thesis using assms
    by (auto simp: stream_read_def Let_def split: io_event.splits)
qed

section \<open>The page device\<close>

definition disk_rd :: "page_id \<Rightarrow> disk \<Rightarrow> disk \<times> byte list option" where
  "disk_rd p d = (case ReadPage p (Some zero_page) d of
     (d, buf, st) \<Rightarrow> (d, if status_ok st then buf else None))"

definition disk_wr :: "page_id \<Rightarrow> byte list \<Rightarrow> disk \<Rightarrow> disk \<times> bool" where
  "disk_wr p bs d = (case WritePage p (Some bs) d of (d, st) \<Rightarrow> (d, status_ok st))"

lemma disk_page_cong:
  "disk_file d' = disk_file d \<Longrightarrow> num_pages d' = num_pages d \<Longrightarrow> disk_page d' = disk_page d"
  by (simp add: disk_page_def fun_eq_iff)

lemma ReadPage_frame:
  assumes "ReadPage p buf d = (d', buf', st)"
  shows "disk_file d' = disk_file d \<and> num_pages d' = num_pages d \<and> free_pages d' = free_pages d"
  using assms stream_read_frame[of p d]
  by (auto simp: ReadPage_def Let_def split: if_splits option.splits prod.splits io_outcome.splits)

lemma ReadPage_ok:
  assumes "ReadPage p (Some buf) d = (d', buf', st)" "length buf = PAGE_SIZE" "status_ok st"
  shows "buf' = disk_page d p \<and> buf' \<noteq> None"
proof -
  obtain bs oc where r: "stream_read p d = (d', bs, oc)" "length bs = PAGE_SIZE" "0 \<le> p" "p < num_pages d"
      "buf' = Some (mem_write (mem_write buf 0 zero_page) 0 bs)"
    using assms(1,3) by (auto simp: ReadPage_def Let_def split: if_splits prod.splits io_outcome.splits)
  have "mem_write (mem_write buf 0 zero_page) 0 bs = bs"
    using assms(2) r(2) by (simp add: mem_write_def)
  then show ?thesis using r stream_read_frame[OF r(1)] by (simp add: disk_page_def)
qed

lemma ReadPage_length:
  assumes "ReadPage p (Some buf) d = (d', buf', st)" "length buf = PAGE_SIZE"
  shows "\<exists>bs. buf' = Some bs \<and> length bs = PAGE_SIZE"
proof -
  have "length bs \<le> PAGE_SIZE" if "stream_read p d = (d'', bs, oc)" for d'' bs oc
    using that by (auto simp: stream_read_def Let_def length_mem_read split: io_event.splits)
  then show ?thesis using assms
    by (auto simp: ReadPage_def Let_def length_mem_write split: if_splits prod.splits io_outcome.splits)
qed

lemma ReadPage_fault_free:
  assumes "disk_io d = []" "disk_inv d" "0 \<le> p" "p < num_pages d" "length buf = PAGE_SIZE"
  shows "ReadPage p (Some buf) d = (d, disk_page d p, Status_OK)"
proof -
  have "consume_event d = d" using assms(1) by (simp add: consume_event_def)
  then have "stream_read p d = (d, mem_read (disk_file d) (GetPageOffset p) PAGE_SIZE, IoDone)"
    using assms(1) by (simp add: stream_read_def next_event_def)
  moreover have "length (mem_read (disk_file d) (GetPageOffset p) PAGE_SIZE) = PAGE_SIZE"
    using page_bound[of p d] assms by (simp add: length_mem_read disk_inv_def)
  ultimately show ?thesis
    using assms by (simp add: ReadPage_def Let_def disk_page_def mem_write_def)
qed

lemma WritePage_frame:
  assumes "WritePage p (Some bs) d = (d', st)" "disk_inv d" "length bs = PAGE_SIZE"
  shows "disk_inv d' \<and> free_pages d' = free_pages d \<and> (\<forall>q. q \<noteq> p \<longrightarrow> disk_page d' q = disk_page d q) \<and>
    (status_ok st \<longrightarrow> disk_page d' p = Some bs) \<and>
    num_pages d' = (if status_ok st \<and> p = num_pages d then num_pages d + 1 else num_pages d)"
proof (cases "0 \<le> p \<and> p \<le> num_pages d")
  case False
  then show ?thesis using assms by (auto simp: WritePage_def split: if_splits)
next
  case True
  have bound: "nat (num_pages d) * PAGE_SIZE \<le> length (disk_file d)" using assms(2) by (simp add: disk_inv_def)
  obtain d1 oc where w: "stream_write p bs d = (d1, oc)" by (cases "stream_write p bs d")
  note f = stream_write_frame[OF w assms(3) _ _ bound]
  have eq: "(d', st) = (case oc of IoSeekFailed \<Rightarrow> (d1, IOError ''Could not seek to page position'')
      | IoTransferFailed \<Rightarrow> (d1, IOError ''Could not write page to disk'')
      | IoDone \<Rightarrow> (if p = num_pages d1 then d1\<lparr>num_pages := num_pages d1 + 1\<rparr> else d1, Status_OK))"
    using assms(1) True w by (simp add: WritePage_def split: io_outcome.splits)
  have sz: "nat (num_pages d + 1) * PAGE_SIZE = GetPageOffset (num_pages d) + PAGE_SIZE"
    using assms(2) by (simp add: GetPageOffset_nat disk_inv_def nat_add_distrib)
  have other: "disk_page (d1\<lparr>num_pages := num_pages d + 1\<rparr>) q = disk_page d q"
    if "p = num_pages d" "q \<noteq> p" for q
    using f that True by (auto simp: disk_page_def split: if_splits)
  show ?thesis
    using eq f True sz other assms(2)
    by (cases oc; cases "p = num_pages d") (auto simp: disk_inv_def disk_page_def)
qed

interpretation disk_dev: page_device disk_inv "\<lambda>_ _. True" disk_page disk_rd disk_wr
proof (unfold_locales, goal_cases)
  case (1 d p bs)
  then show ?case by (rule disk_page_length)
next
  case (2 d p d' x)
  then show ?case
    using ReadPage_frame[of p "Some zero_page" d] ReadPage_ok[of p zero_page d] disk_page_cong[of d' d]
    by (auto simp: disk_rd_def disk_inv_def split: prod.splits if_splits)
next
  case (3 d p bs d' ok)
  then show ?case using WritePage_frame[of p bs d] by (auto simp: disk_wr_def split: prod.splits)
qed

section \<open>Allocation\<close>

definition alloc_target :: "disk \<Rightarrow> page_id" where
  "alloc_target d = (if free_pages d \<noteq> {} then Min (free_pages d) else num_pages d)"

lemma alloc_target_bounds:
  assumes "disk_inv d"
  shows "1 \<le> alloc_target d" "alloc_target d \<le> num_pages d"
    "free_pages d \<noteq> {} \<Longrightarrow> alloc_target d \<in> free_pages d \<and> alloc_target d < num_pages d"
    "free_pages d = {} \<Longrightarrow> alloc_target d = num_pages d"
proof -
  have A: "alloc_target d \<in> free_pages d \<and> alloc_target d < num_pages d" if "free_pages d \<noteq> {}"
    using assms that Min_in[of "free_pages d"] by (auto simp: alloc_target_def disk_inv_def)
  then show "free_pages d \<noteq> {} \<Longrightarrow> alloc_target d \<in> free_pages d \<and> alloc_target d < num_pages d" .
  show "free_pages d = {} \<Longrightarrow> alloc_target d = num_pages d" by (simp add: alloc_target_def)
  show "1 \<le> alloc_target d"
    using A assms by (cases "free_pages d = {}") (auto simp: disk_inv_def alloc_target_def)
  show "alloc_target d \<le> num_pages d"
    using A by (cases "free_pages d = {}") (simp add: alloc_target_def, force)
qed

lemma AllocatePage_spec:
  assumes "AllocatePage d = (d', p)" "disk_inv d"
  defines "t \<equiv> alloc_target d"
  shows "disk_inv d' \<and> (\<forall>q. q \<noteq> t \<longrightarrow> disk_page d' q = disk_page d q) \<and>
    (p = INVALID_PAGE_ID \<and> free_pages d' = free_pages d \<and> num_pages d' = num_pages d \<and>
       (free_zero d \<longrightarrow> disk_page d' = disk_page d) \<or>
     p = t \<and> free_pages d' = free_pages d - {t} \<and> disk_page d' t = Some zero_page \<and>
       num_pages d' = (if t = num_pages d then num_pages d + 1 else num_pages d))"
proof -
  note tb = alloc_target_bounds[OF assms(2), folded t_def]
  have bound: "nat (num_pages d) * PAGE_SIZE \<le> length (disk_file d)" using assms(2) by (simp add: disk_inv_def)
  define d0 where "d0 = d\<lparr>free_pages := free_pages d - {t}\<rparr>"
  have d0: "disk_file d0 = disk_file d" "num_pages d0 = num_pages d" "disk_page d0 = disk_page d"
    by (simp_all add: d0_def disk_page_def fun_eq_iff)
  have tf: "free_pages d = {} \<or> t \<in> free_pages d" using tb(3) by blast
  have fd: "free_pages d - {t} = free_pages d" if "free_pages d = {}" using that by simp
  have eq0: "(if free_pages d \<noteq> {} then (d\<lparr>free_pages := free_pages d - {Min (free_pages d)}\<rparr>,
        Min (free_pages d)) else (d, num_pages d)) = (d0, t)"
    by (auto simp: d0_def t_def alloc_target_def)
  obtain d1 oc where w: "stream_write t zero_page d0 = (d1, oc)" by (cases "stream_write t zero_page d0")
  have f: "num_pages d1 = num_pages d" "free_pages d1 = free_pages d - {t}"
    "length (disk_file d) \<le> length (disk_file d1)" "\<forall>q. q \<noteq> t \<longrightarrow> disk_page d1 q = disk_page d q"
    "oc = IoDone \<longrightarrow> mem_read (disk_file d1) (GetPageOffset t) PAGE_SIZE = zero_page \<and>
       GetPageOffset t + PAGE_SIZE \<le> length (disk_file d1)"
    using stream_write_frame[OF w] tb bound d0 by (auto simp: d0_def)
  have keep: "disk_page d1 = disk_page d" if "free_zero d"
  proof (cases "t < num_pages d")
    case True
    then have "t \<in> free_pages d" using tb(3,4) by fastforce
    then have "disk_page d0 t = Some zero_page" using that d0 by (simp add: free_zero_def)
    then have "disk_file d1 = disk_file d" using stream_write_zero_free[OF w] d0 bound by simp
    then show ?thesis using f(1) by (rule disk_page_cong)
  next
    case False
    then show ?thesis using f(1,4) by (metis disk_page_None ext)
  qed
  have res: "(d', p) = (case oc of IoDone \<Rightarrow>
         (if t = num_pages d then d1\<lparr>num_pages := num_pages d + 1\<rparr> else d1, t)
       | _ \<Rightarrow> (if t < num_pages d then d1\<lparr>free_pages := insert t (free_pages d1)\<rparr> else d1, INVALID_PAGE_ID))"
    using assms(1) w f(1) unfolding AllocatePage_def eq0 Let_def prod.case
    by (auto split: io_outcome.splits)
  show ?thesis
  proof (cases "oc = IoDone")
    case True
    have sz: "nat (num_pages d + 1) * PAGE_SIZE = GetPageOffset (num_pages d) + PAGE_SIZE"
      using assms(2) by (simp add: GetPageOffset_nat disk_inv_def nat_add_distrib)
    show ?thesis
      using True res f tb assms(2) sz by (auto simp: disk_inv_def disk_page_def split: if_splits)
  next
    case False
    then have r: "d' = (if t < num_pages d then d1\<lparr>free_pages := insert t (free_pages d1)\<rparr> else d1)"
        "p = INVALID_PAGE_ID"
      using res by (cases oc; simp)+
    have "free_pages d' = free_pages d"
    proof (cases "t < num_pages d")
      case True
      then have "t \<in> free_pages d" using tb(3,4) by fastforce
      then show ?thesis using r(1) f(2) True by (simp add: insert_absorb)
    next
      case False
      then have "free_pages d = {}" using tb(3) by blast
      then show ?thesis using r(1) f(2) False by simp
    qed
    then have "p = INVALID_PAGE_ID" "num_pages d' = num_pages d" "disk_file d' = disk_file d1"
      "free_pages d' = free_pages d"
      using r f(1) by simp_all
    moreover have "disk_page d' = disk_page d1" using calculation(2,3) f(1) by (intro disk_page_cong) simp_all
    ultimately show ?thesis using f keep assms(2) by (auto simp: disk_inv_def)
  qed
qed

lemma DeallocatePage_spec:
  assumes "disk_inv d" "d' = DeallocatePage p d"
  shows "disk_inv d' \<and> num_pages d' = num_pages d \<and> (\<forall>q. q \<noteq> p \<longrightarrow> disk_page d' q = disk_page d q) \<and>
    (free_pages d' = free_pages d \<or>
     1 \<le> p \<and> p < num_pages d \<and> free_pages d' = insert p (free_pages d) \<and> disk_page d' p = Some zero_page) \<and>
    (p \<in> free_pages d \<longrightarrow> d' = d)"
proof (cases "p \<le> 0 \<or> p \<ge> num_pages d \<or> p \<in> free_pages d")
  case True
  then show ?thesis using assms by (auto simp: DeallocatePage_def)
next
  case False
  have bound: "nat (num_pages d) * PAGE_SIZE \<le> length (disk_file d)" using assms(1) by (simp add: disk_inv_def)
  have p: "0 \<le> p" "p \<le> num_pages d" using False by simp_all
  obtain d1 oc where w: "stream_write p zero_page d = (d1, oc)" by (cases "stream_write p zero_page d")
  have eq: "d' = (if oc = IoDone then d1\<lparr>free_pages := insert p (free_pages d1)\<rparr> else d1)"
    using False w by (simp add: assms(2) DeallocatePage_def split: io_outcome.splits)
  have f: "num_pages d1 = num_pages d" "free_pages d1 = free_pages d"
    "length (disk_file d) \<le> length (disk_file d1)" "\<forall>q. q \<noteq> p \<longrightarrow> disk_page d1 q = disk_page d q"
    "oc = IoDone \<longrightarrow> mem_read (disk_file d1) (GetPageOffset p) PAGE_SIZE = zero_page"
    using stream_write_frame[OF w length_zero_page p bound] by simp_all
  have pg: "disk_page (d1\<lparr>free_pages := X\<rparr>) = disk_page d1" for X by (rule disk_page_cong) simp_all
  have inv: "disk_inv d1" using f(1-3) assms(1) by (simp add: disk_inv_def)
  show ?thesis
  proof (cases "oc = IoDone")
    case True
    then have d': "d' = d1\<lparr>free_pages := insert p (free_pages d)\<rparr>" using eq f(2) by simp
    have "disk_page d1 p = Some zero_page" using f(1,5) True False by (simp add: disk_page_def)
    moreover have "disk_inv d'" using inv d' f(1,2) False by (auto simp: disk_inv_def)
    ultimately show ?thesis using d' f(1,4) pg False by simp
  next
    case False
    then have "d' = d1" using eq by simp
    then show ?thesis using inv f(1,2,4) \<open>\<not> (p \<le> 0 \<or> _)\<close> by simp
  qed
qed

lemma free_zero_alloc:
  assumes "AllocatePage d = (d', p)" "disk_inv d" "free_zero d"
  shows "free_zero d'"
  using AllocatePage_spec[OF assms(1,2)] assms(3) by (auto simp: free_zero_def)

lemma free_zero_dealloc:
  assumes "disk_inv d" "free_zero d"
  shows "free_zero (DeallocatePage p d)"
  unfolding free_zero_def
proof
  fix q assume q: "q \<in> free_pages (DeallocatePage p d)"
  show "disk_page (DeallocatePage p d) q = Some zero_page"
    using DeallocatePage_spec[OF assms(1) refl, of p] assms(2) q
    by (cases "q = p") (auto simp: free_zero_def)
qed

lemma free_zero_write:
  assumes "WritePage p (Some bs) d = (d', st)" "disk_inv d" "length bs = PAGE_SIZE" "free_zero d"
    "p \<notin> free_pages d"
  shows "free_zero d'"
  using WritePage_frame[OF assms(1-3)] assms(4,5) by (auto simp: free_zero_def)

section \<open>Opening a file\<close>

lemma list_all_zero: "length bs = PAGE_SIZE \<Longrightarrow> list_all (\<lambda>b. b = zero_byte) bs \<longleftrightarrow> bs = zero_page"
  by (auto simp: zero_page_def list_all_iff intro: replicate_eqI)

text \<open>The scan adds exactly the pages of zeros.\<close>

lemma ScanFreePage_loop:
  assumes "for_each ScanFreePage (map int [1..<k]) d = Inr d'" "free_pages d = {}"
    "int k \<le> num_pages d" "1 \<le> k"
  shows "disk_file d' = disk_file d \<and> num_pages d' = num_pages d \<and>
    free_pages d' = {p. 1 \<le> p \<and> p < int k \<and> disk_page d p = Some zero_page}"
  using assms
proof (induction k arbitrary: d')
  case (Suc k)
  show ?case
  proof (cases "k = 0")
    case True
    then show ?thesis using Suc.prems by auto
  next
    case False
    then obtain d1 where d1: "for_each ScanFreePage (map int [1..<k]) d = Inr d1" "ScanFreePage (int k) d1 = Inr d'"
      using Suc.prems(1) by (auto simp: for_each_append split: sum.splits)
    have IH: "disk_file d1 = disk_file d" "num_pages d1 = num_pages d"
      "free_pages d1 = {p. 1 \<le> p \<and> p < int k \<and> disk_page d p = Some zero_page}"
      using Suc.IH[OF d1(1)] Suc.prems False by simp_all
    obtain d2 bs oc where r: "stream_read (int k) d1 = (d2, bs, oc)" by (cases "stream_read (int k) d1")
    then have "length bs = PAGE_SIZE" "d' = (if list_all (\<lambda>b. b = zero_byte) bs
        then d2\<lparr>free_pages := insert (int k) (free_pages d2)\<rparr> else d2)"
      using d1(2) by (auto simp: ScanFreePage_def split: if_splits)
    moreover have "disk_page d (int k) = Some bs"
      using stream_read_frame[OF r] calculation(1) IH(1) Suc.prems(3) by (simp add: disk_page_def)
    moreover have "{p. 1 \<le> p \<and> p < int (Suc k) \<and> disk_page d p = Some zero_page} =
        (if disk_page d (int k) = Some zero_page
         then insert (int k) {p. 1 \<le> p \<and> p < int k \<and> disk_page d p = Some zero_page}
         else {p. 1 \<le> p \<and> p < int k \<and> disk_page d p = Some zero_page})"
    proof -
      have "1 \<le> p \<and> p < int (Suc k) \<longleftrightarrow> p = int k \<or> 1 \<le> p \<and> p < int k" for p
        using False by linarith
      then show ?thesis by (simp only: conj_assoc[symmetric]) auto
    qed
    ultimately show ?thesis
      using stream_read_frame[OF r] IH list_all_zero[of bs] by (simp split: if_splits)
  qed
qed simp

lemma ScanFreePage_fault_free:
  assumes "disk_io d = []" "disk_inv d" "int k \<le> num_pages d"
  shows "\<exists>d'. for_each ScanFreePage (map int [1..<k]) d = Inr d' \<and> disk_io d' = []"
  using assms(3)
proof (induction k)
  case 0
  then show ?case using assms(1) by simp
next
  case (Suc k)
  then obtain d1 where d1: "for_each ScanFreePage (map int [1..<k]) d = Inr d1" "disk_io d1 = []" by auto
  have eq: "disk_file d1 = disk_file d"
    by (rule for_each_invariant[OF d1(1)])
       (auto simp: ScanFreePage_def dest: stream_read_frame split: prod.splits if_splits)
  show ?case
  proof (cases "k = 0")
    case False
    have "length (mem_read (disk_file d1) (GetPageOffset (int k)) PAGE_SIZE) = PAGE_SIZE"
      using page_bound[of "int k" d] assms(2) Suc.prems eq by (simp add: length_mem_read disk_inv_def)
    then have "\<exists>d2. ScanFreePage (int k) d1 = Inr d2 \<and> disk_io d2 = []"
      using d1(2) by (simp add: ScanFreePage_def stream_read_def Let_def next_event_def consume_event_def)
    then show ?thesis using d1(1) False by (auto simp: for_each_append)
  qed (use assms(1) in simp)
qed

lemma new_DiskManager_inv:
  assumes "new_DiskManager file open1 create open2 sized io = Inr d"
  shows "disk_inv d \<and> free_zero d"
proof -
  define f where "f = (if open1 then file else [])"
  define n where "n = int (length f div PAGE_SIZE)"
  define d0 where "d0 = \<lparr>disk_file = f, num_pages = n, free_pages = {}, disk_io = io\<rparr>"
  obtain d1 st where w: "(if n = 0 then WritePage 0 (Some zero_page) d0 else (d0, Status_OK)) = (d1, st)"
    by (cases "if n = 0 then WritePage 0 (Some zero_page) d0 else (d0, Status_OK)")
  have l: "length f mod PAGE_SIZE = 0" "status_ok st"
    and loop: "for_each ScanFreePage (map int [1..<nat (num_pages d1)]) d1 = Inr d"
    using assms w[unfolded d0_def n_def f_def]
    by (auto simp: new_DiskManager_def Let_def f_def split: if_splits)
  have len: "length f = nat n * PAGE_SIZE"
    using div_mult_mod_eq[of "length f" PAGE_SIZE] l(1) by (simp add: n_def)
  have d1: "1 \<le> num_pages d1 \<and> nat (num_pages d1) * PAGE_SIZE \<le> length (disk_file d1) \<and> free_pages d1 = {}"
  proof (cases "n = 0")
    case True
    obtain d2 oc where s: "stream_write 0 zero_page d0 = (d2, oc)" by (cases "stream_write 0 zero_page d0")
    have "oc = IoDone" "d1 = d2\<lparr>num_pages := num_pages d2 + 1\<rparr>"
      using w True l(2) s stream_write_frame[OF s]
      by (auto simp: WritePage_def d0_def split: io_outcome.splits if_splits)
    then show ?thesis using stream_write_frame[OF s] True
      by (simp add: d0_def GetPageOffset_def)
  next
    case False
    have "0 \<le> n" by (simp add: n_def)
    then have "1 \<le> n" using False by linarith
    moreover have "d1 = d0" using w False by simp
    ultimately show ?thesis using len by (simp add: d0_def)
  qed
  then show ?thesis
    using ScanFreePage_loop[OF loop] disk_page_cong[of d d1]
    by (auto simp: disk_inv_def free_zero_def intro: finite_subset[of _ "{1..<num_pages d1}"])
qed

lemma new_DiskManager_reopen:
  fixes io :: "io_event list"
  assumes "disk_inv d" "length (disk_file d) mod PAGE_SIZE = 0"
  defines "d0 \<equiv> \<lparr>disk_file = disk_file d, num_pages = int (length (disk_file d) div PAGE_SIZE), free_pages = {}, disk_io = io\<rparr>"
  shows "new_DiskManager (disk_file d) True create open2 True io =
      for_each ScanFreePage (map int [1..<length (disk_file d) div PAGE_SIZE]) d0"
    "num_pages d \<le> num_pages d0" "disk_inv d0" "\<And>p. p < num_pages d \<Longrightarrow> disk_page d0 p = disk_page d p"
proof -
  have pos: "1 \<le> num_pages d" using assms(1) by (simp add: disk_inv_def)
  have "nat (num_pages d) * PAGE_SIZE div PAGE_SIZE \<le> length (disk_file d) div PAGE_SIZE"
    using assms(1) by (intro div_le_mono) (simp add: disk_inv_def)
  then have le: "nat (num_pages d) \<le> length (disk_file d) div PAGE_SIZE" by simp
  then show n: "num_pages d \<le> num_pages d0" by (simp add: d0_def)
  have "length (disk_file d) div PAGE_SIZE \<noteq> 0" using le pos by linarith
  then show "new_DiskManager (disk_file d) True create open2 True io =
      for_each ScanFreePage (map int [1..<length (disk_file d) div PAGE_SIZE]) d0"
    using assms(2) by (simp add: new_DiskManager_def Let_def d0_def)
  show "disk_inv d0" using n pos by (simp add: d0_def disk_inv_def)
  show "disk_page d0 p = disk_page d p" if "p < num_pages d" for p
    using n that by (simp add: d0_def disk_page_def)
qed

section \<open>Properties\<close>

text \<open>
  Whatever the stream does, a page written successfully is read back as written, no write
  (successful, failed or torn) changes any other page, and reading changes nothing.
\<close>

theorem disk_write_then_read:
  assumes "disk_inv d" "length bs = PAGE_SIZE" "WritePage p (Some bs) d = (d1, st)"
    "ReadPage q (Some buf) d1 = (d2, buf', st')" "length buf = PAGE_SIZE" "status_ok st'"
  shows "(p = q \<and> status_ok st \<longrightarrow> buf' = Some bs) \<and> (p \<noteq> q \<longrightarrow> buf' = disk_page d q) \<and>
    disk_inv d2 \<and> disk_page d2 = disk_page d1"
proof -
  have w: "disk_wr p bs d = (d1, status_ok st)" using assms(3) by (simp add: disk_wr_def)
  note wl = disk_dev.wr_law[OF assms(1) TrueI assms(2) w]
  note r = ReadPage_ok[OF assms(4,5,6)] ReadPage_frame[OF assms(4)]
  have "disk_page d2 = disk_page d1" "disk_inv d2"
    using r(2) wl disk_page_cong[of d2 d1] by (simp_all add: disk_inv_def)
  then show ?thesis using wl r(1) by auto
qed

text \<open>A database just created: the header page, of zeros.\<close>

definition fresh_disk :: "io_event list \<Rightarrow> disk" where
  "fresh_disk io = \<lparr>disk_file = zero_page, num_pages = 1, free_pages = {}, disk_io = io\<rparr>"

lemma fresh_disk_inv: "disk_inv (fresh_disk io)"
  by (simp add: disk_inv_def fresh_disk_def)

theorem disk_write_then_read_witness:
  "\<exists>d1 d2. WritePage 1 (Some (replicate PAGE_SIZE CHR ''x'')) (fresh_disk []) = (d1, Status_OK) \<and>
     ReadPage 1 (Some zero_page) d1 = (d2, Some (replicate PAGE_SIZE CHR ''x''), Status_OK)"
proof -
  let ?bs = "replicate PAGE_SIZE CHR ''x''"
  obtain d1 where d1: "WritePage 1 (Some ?bs) (fresh_disk []) = (d1, Status_OK)" "disk_io d1 = []"
      "num_pages d1 = 2"
    by (simp add: WritePage_def fresh_disk_def stream_write_def next_event_def consume_event_def Let_def)
  have inv: "disk_inv d1" using WritePage_frame[OF d1(1) fresh_disk_inv] by simp
  have r: "ReadPage 1 (Some zero_page) d1 = (d1, disk_page d1 1, Status_OK)"
    using ReadPage_fault_free[OF d1(2) inv] d1(3) by simp
  show ?thesis
    using disk_write_then_read[OF fresh_disk_inv _ d1(1) r] d1(1) r by auto
qed

text \<open>
  Allocation never hands out a page in use: it returns a free page, the lowest one, or extends
  the file when there is none; the page returned is readable as zeros and no longer free. When the
  stream fails it returns the invalid id and the free set, the page count and all pages are as
  before. Every other page is untouched in all cases.
\<close>

theorem disk_allocate:
  assumes "disk_inv d" "free_zero d" "AllocatePage d = (d', p)"
  shows "disk_inv d' \<and> free_zero d' \<and>
    (if p = INVALID_PAGE_ID
     then free_pages d' = free_pages d \<and> num_pages d' = num_pages d \<and> disk_page d' = disk_page d
     else p = (if free_pages d = {} then num_pages d else Min (free_pages d)) \<and>
       (p \<in> free_pages d \<or> disk_page d p = None) \<and> p \<notin> free_pages d' \<and>
       disk_page d' = (disk_page d)(p \<mapsto> zero_page))"
proof -
  have "p = alloc_target d" "alloc_target d \<noteq> INVALID_PAGE_ID" if "p \<noteq> INVALID_PAGE_ID"
    using AllocatePage_spec[OF assms(3,1)] that alloc_target_bounds(1)[OF assms(1)]
    by (auto simp: layout_simps)
  moreover have "alloc_target d \<noteq> INVALID_PAGE_ID"
    using alloc_target_bounds(1)[OF assms(1)] by (simp add: layout_simps)
  moreover have "alloc_target d = (if free_pages d = {} then num_pages d else Min (free_pages d))"
    by (simp add: alloc_target_def)
  moreover have "alloc_target d \<in> free_pages d \<or> disk_page d (alloc_target d) = None"
    using alloc_target_bounds(3,4)[OF assms(1)]
    by (cases "free_pages d = {}") (simp_all add: disk_page_None)
  ultimately show ?thesis
    using AllocatePage_spec[OF assms(3,1)] free_zero_alloc[OF assms(3,1,2)] assms(2)
    by (auto simp: fun_eq_iff simp del: not_None_eq)
qed

theorem disk_allocate_witness:
  "\<exists>d'. AllocatePage (fresh_disk []) = (d', 1) \<and> disk_page d' 1 = Some zero_page"
proof -
  obtain d' where d': "AllocatePage (fresh_disk []) = (d', 1)"
    by (simp add: AllocatePage_def fresh_disk_def stream_write_def next_event_def consume_event_def Let_def)
  have "free_zero (fresh_disk [])" by (simp add: free_zero_def fresh_disk_def)
  then show ?thesis using disk_allocate[OF fresh_disk_inv _ d'] d' by (auto simp: layout_simps)
qed

text \<open>
  C36. What reopening a file finds, whatever was done to it before. If the length of the file is not
  a multiple of the page size (an append was torn) the constructor throws; it also throws when a
  transfer fails or the size cannot be read, and in no other case. Otherwise every page is found with
  the contents it had; pages are counted by the length of the file, so that a page whose append was
  reported as failed may be counted now; and the free set is exactly the non-header pages of zeros: it
  has every page that was free, and also the pages in use that are all zeros.
\<close>

theorem disk_reopen:
  assumes "disk_inv d" "free_zero d"
  shows "case new_DiskManager (disk_file d) True create open2 sized io of
      Inl st \<Rightarrow> length (disk_file d) mod PAGE_SIZE \<noteq> 0 \<or> \<not> sized \<or> io \<noteq> []
    | Inr d' \<Rightarrow> length (disk_file d) mod PAGE_SIZE = 0 \<and> sized \<and> disk_inv d' \<and> disk_file d' = disk_file d \<and>
        num_pages d' = int (length (disk_file d) div PAGE_SIZE) \<and> num_pages d \<le> num_pages d' \<and>
        (\<forall>p \<in> {0..<num_pages d}. disk_page d' p = disk_page d p) \<and>
        free_pages d' = {p. 1 \<le> p \<and> p < num_pages d' \<and> disk_page d' p = Some zero_page} \<and>
        free_pages d \<subseteq> free_pages d'"
proof (cases "length (disk_file d) mod PAGE_SIZE = 0 \<and> sized")
  case False
  then show ?thesis by (auto simp: new_DiskManager_def Let_def)
next
  case True
  let ?n = "length (disk_file d) div PAGE_SIZE"
  define d0 where "d0 = \<lparr>disk_file = disk_file d, num_pages = int ?n, free_pages = {}, disk_io = io\<rparr>"
  note R = new_DiskManager_reopen[OF assms(1) conjunct1[OF True], where io = io, folded d0_def]
  have R1: "new_DiskManager (disk_file d) True create open2 sized io = for_each ScanFreePage (map int [1..<?n]) d0"
    using R(1) True by simp
  show ?thesis
  proof (cases "for_each ScanFreePage (map int [1..<?n]) d0")
    case (Inl st)
    then have "io \<noteq> []" using ScanFreePage_fault_free[of d0 ?n] R(3) by (auto simp: d0_def)
    then show ?thesis using R1 Inl by simp
  next
    case (Inr d')
    have "1 \<le> num_pages d0" using R(3) by (simp add: disk_inv_def)
    then have L: "disk_file d' = disk_file d \<and> num_pages d' = int ?n \<and>
        free_pages d' = {p. 1 \<le> p \<and> p < int ?n \<and> disk_page d0 p = Some zero_page}"
      using ScanFreePage_loop[OF Inr] by (simp add: d0_def)
    have pg: "disk_page d' = disk_page d0" using L by (intro disk_page_cong) (simp_all add: d0_def)
    have "free_pages d \<subseteq> {p. 1 \<le> p \<and> p < int ?n \<and> disk_page d0 p = Some zero_page}"
    proof
      fix p assume p: "p \<in> free_pages d"
      then have "1 \<le> p" "p < num_pages d" "disk_page d p = Some zero_page"
        using assms by (simp_all add: disk_inv_def free_zero_def)
      moreover have "num_pages d \<le> int ?n" using R(2) by (simp add: d0_def)
      ultimately show "p \<in> {p. 1 \<le> p \<and> p < int ?n \<and> disk_page d0 p = Some zero_page}"
        using R(4)[of p] by simp
    qed
    moreover have "finite {p. 1 \<le> p \<and> p < int ?n \<and> disk_page d0 p = Some zero_page}"
      by (rule finite_subset[of _ "{1..<int ?n}"]) auto
    then have "disk_inv d'" using R(3) L by (simp add: disk_inv_def d0_def)
    moreover have "num_pages d \<le> int ?n" using R(2) by (simp add: d0_def)
    ultimately show ?thesis using R(4) L True unfolding R1 Inr sum.case pg by simp
  qed
qed

theorem disk_reopen_witness:
  "\<exists>d'. new_DiskManager zero_page True True True True [] = Inr d' \<and> num_pages d' = 1 \<and> free_pages d' = {}"
proof -
  have "disk_file (fresh_disk []) = zero_page" "free_zero (fresh_disk [])"
    by (simp_all add: fresh_disk_def free_zero_def)
  then show ?thesis
    using disk_reopen[where d = "fresh_disk []" and io = "[]" and create = True and ?open2.0 = True and sized = True] fresh_disk_inv by (auto split: sum.splits)
qed

end
