(* ===== verification/Buffer_Pool.thy ===== *)
theory Buffer_Pool
  imports Clock_Replacer Disk_Manager_Correct
begin

text \<open>
  The buffer pool (buffer/buffer_pool_manager.h, buffer/buffer_pool_manager.cpp): the frames, the
  page table, the free list, the replacer and the disk it writes back to. \<^verbatim>\<open>FetchPage\<close> and
  \<^verbatim>\<open>NewPage\<close> return a pointer into the frame array; the model returns the frame's index, and a
  client reads and writes the page through \<open>frame_of\<close> and \<open>set_frame\<close>. The replacer is the
  clock, the one the program uses. \<^verbatim>\<open>FlushAllPages\<close> walks a hash table: the order is its argument.
  The statistics are unbounded counters instead of 64-bit ones. A \<^verbatim>\<open>page_id\<close> output pointer that
  is null has no counterpart.
\<close>

record pool =
  pages :: "page list"
  page_table :: "page_id \<rightharpoonup> frame_id"
  free_list :: "frame_id list"
  replacer :: clock
  pool_disk :: disk
  buffer_hits :: nat
  buffer_misses :: nat
  disk_reads :: nat
  disk_writes :: nat

definition frame_of :: "pool \<Rightarrow> frame_id \<Rightarrow> page" where
  "frame_of bp f = pages bp ! nat f"

definition set_frame :: "frame_id \<Rightarrow> page \<Rightarrow> pool \<Rightarrow> pool" where
  "set_frame f pg bp = bp\<lparr>pages := (pages bp)[nat f := pg]\<rparr>"

definition new_BufferPoolManager :: "nat \<Rightarrow> disk option \<Rightarrow> clock option \<Rightarrow> pool result" where
  "new_BufferPoolManager pool_size disk_manager r =
     (if pool_size = 0 then Inl (InvalidArgument ''Buffer pool size must be greater than zero'')
      else if disk_manager = None \<or> r = None then Inl (InvalidArgument ''DiskManager and Replacer cannot be null'')
      else Inr \<lparr>pages = replicate pool_size new_Page, page_table = Map.empty,
        free_list = map int [0..<pool_size], replacer = the r, pool_disk = the disk_manager,
        buffer_hits = 0, buffer_misses = 0, disk_reads = 0, disk_writes = 0\<rparr>)"

definition GetPoolSize :: "pool \<Rightarrow> nat" where "GetPoolSize bp = length (pages bp)"

definition GetPinnedPageCount :: "pool \<Rightarrow> nat" where
  "GetPinnedPageCount bp = card {p \<in> dom (page_table bp).
     pin_count (frame_of bp (the (page_table bp p))) > 0}"

definition GetResidentPageCount :: "pool \<Rightarrow> nat" where
  "GetResidentPageCount bp = card (dom (page_table bp))"

text \<open>The shared first part of \<^verbatim>\<open>FetchPage\<close> and \<^verbatim>\<open>NewPage\<close>: a frame from the free list, or a
  victim; the flag is \<^verbatim>\<open>came_from_free_list\<close>. And its undoing on a failure.\<close>

definition TakeFrame :: "pool \<Rightarrow> pool \<times> (frame_id \<times> bool) option" where
  "TakeFrame bp = (case free_list bp of
     f # fs \<Rightarrow> (bp\<lparr>free_list := fs\<rparr>, Some (f, True))
   | [] \<Rightarrow> (case Clock_Victim (replacer bp) of
        (r, Some f) \<Rightarrow> (bp\<lparr>replacer := r\<rparr>, Some (f, False))
      | (r, None) \<Rightarrow> (bp\<lparr>replacer := r\<rparr>, None)))"

definition GiveBack :: "frame_id \<Rightarrow> bool \<Rightarrow> pool \<Rightarrow> pool" where
  "GiveBack f came_from_free_list bp =
     (if came_from_free_list then bp\<lparr>free_list := f # free_list bp\<rparr>
      else bp\<lparr>replacer := Clock_Unpin f (replacer bp)\<rparr>)"

text \<open>Write a dirty frame to its page; the flag says whether the write succeeded.\<close>

definition WriteFrame :: "page_id \<Rightarrow> frame_id \<Rightarrow> pool \<Rightarrow> pool \<times> bool" where
  "WriteFrame p f bp =
     (case WritePage p (Some (page_data (frame_of bp f))) (pool_disk bp) of (d, st) \<Rightarrow>
        if status_ok st then (bp\<lparr>pool_disk := d, disk_writes := disk_writes bp + 1\<rparr>, True)
        else (bp\<lparr>pool_disk := d\<rparr>, False))"

text \<open>The shared last part: the frame gets the page's bytes and identity, pinned once.\<close>

definition InstallPage :: "page_id \<Rightarrow> frame_id \<Rightarrow> byte list \<Rightarrow> pool \<Rightarrow> pool" where
  "InstallPage p f data bp =
     (let pg = ResetMemory (frame_of bp f);
          pg = pg\<lparr>page_data := mem_write (page_data pg) 0 data\<rparr>;
          pg = pg\<lparr>page_pid := p, pin_count := 1, is_dirty := False\<rparr>;
          bp = set_frame f pg bp
      in bp\<lparr>page_table := (page_table bp)(p \<mapsto> f), replacer := Clock_Pin f (replacer bp)\<rparr>)"

definition ErasePage :: "page_id \<Rightarrow> pool \<Rightarrow> pool" where
  "ErasePage p bp = bp\<lparr>page_table := (page_table bp)(p := None)\<rparr>"

definition FetchPage :: "page_id \<Rightarrow> pool \<Rightarrow> pool \<times> frame_id option" where
  "FetchPage p bp =
     (if p < 0 then (bp, None)
      else case page_table bp p of
        Some f \<Rightarrow>
          let pg = frame_of bp f;
              bp = set_frame f (pg\<lparr>pin_count := pin_count pg + 1\<rparr>) bp
          in (bp\<lparr>replacer := Clock_Pin f (replacer bp), buffer_hits := buffer_hits bp + 1\<rparr>, Some f)
      | None \<Rightarrow>
          let bp = bp\<lparr>buffer_misses := buffer_misses bp + 1\<rparr>
          in case TakeFrame bp of
               (bp, None) \<Rightarrow> (bp, None)
             | (bp, Some (f, came_from_free_list)) \<Rightarrow>
                 (case ReadPage p (Some zero_page) (pool_disk bp) of (d, buf, st) \<Rightarrow>
                    let bp = bp\<lparr>pool_disk := d\<rparr>
                    in if \<not> status_ok st then (GiveBack f came_from_free_list bp, None)
                       else
                         let bp = bp\<lparr>disk_reads := disk_reads bp + 1\<rparr>;
                             old = frame_of bp f;
                             (bp, ok) =
                               (if \<not> came_from_free_list \<and> is_dirty old
                                then WriteFrame (page_pid old) f bp else (bp, True))
                         in if \<not> ok then (bp\<lparr>replacer := Clock_Unpin f (replacer bp)\<rparr>, None)
                            else
                              let bp = (if came_from_free_list then bp else ErasePage (page_pid old) bp)
                              in (InstallPage p f (the buf) bp, Some f)))"

definition UnpinPage :: "page_id \<Rightarrow> bool \<Rightarrow> pool \<Rightarrow> pool \<times> bool" where
  "UnpinPage p dirty bp = (case page_table bp p of
     None \<Rightarrow> (bp, False)
   | Some f \<Rightarrow>
       let pg = frame_of bp f
       in if pin_count pg \<le> 0 then (bp, False)
          else
            let pg = pg\<lparr>pin_count := pin_count pg - 1\<rparr>;
                pg = pg\<lparr>is_dirty := is_dirty pg \<or> dirty\<rparr>;
                bp = set_frame f pg bp
            in (if pin_count pg = 0 then bp\<lparr>replacer := Clock_Unpin f (replacer bp)\<rparr> else bp, True))"

definition FlushPage :: "page_id \<Rightarrow> pool \<Rightarrow> pool \<times> bool" where
  "FlushPage p bp = (case page_table bp p of
     None \<Rightarrow> (bp, False)
   | Some f \<Rightarrow>
       if \<not> is_dirty (frame_of bp f) then (bp, True)
       else (case WriteFrame p f bp of
           (bp, False) \<Rightarrow> (bp, False)
         | (bp, True) \<Rightarrow> (set_frame f ((frame_of bp f)\<lparr>is_dirty := False\<rparr>) bp, True)))"

definition NewPage :: "pool \<Rightarrow> pool \<times> (page_id \<times> frame_id) option" where
  "NewPage bp = (case TakeFrame bp of
     (bp, None) \<Rightarrow> (bp, None)
   | (bp, Some (f, came_from_free_list)) \<Rightarrow>
       let old = frame_of bp f;
           (bp, ok) = (if \<not> came_from_free_list \<and> is_dirty old
                       then WriteFrame (page_pid old) f bp else (bp, True))
       in if \<not> ok then (bp\<lparr>replacer := Clock_Unpin f (replacer bp)\<rparr>, None)
          else (case AllocatePage (pool_disk bp) of (d, new_page_id) \<Rightarrow>
            let bp = bp\<lparr>pool_disk := d\<rparr>
            in if new_page_id = INVALID_PAGE_ID then (GiveBack f came_from_free_list bp, None)
               else
                 let bp = bp\<lparr>disk_writes := disk_writes bp + 1\<rparr>;
                     bp = (if came_from_free_list then bp else ErasePage (page_pid old) bp)
                 in (InstallPage new_page_id f zero_page bp, Some (new_page_id, f))))"

definition DeletePage :: "page_id \<Rightarrow> pool \<Rightarrow> pool \<times> bool" where
  "DeletePage p bp =
     (if p \<le> HEADER_PAGE_ID then (bp, False)
      else case page_table bp p of
        Some f \<Rightarrow>
          if pin_count (frame_of bp f) > 0 then (bp, False)
          else
            let bp = bp\<lparr>replacer := Clock_Pin f (replacer bp)\<rparr>;
                bp = ErasePage p bp;
                bp = set_frame f (ResetMemory (frame_of bp f)) bp;
                bp = bp\<lparr>free_list := free_list bp @ [f]\<rparr>
            in (bp\<lparr>pool_disk := DeallocatePage p (pool_disk bp)\<rparr>, True)
      | None \<Rightarrow> (bp\<lparr>pool_disk := DeallocatePage p (pool_disk bp)\<rparr>, True))"

text \<open>\<open>order\<close> lists the resident pages in the table's iteration order.\<close>

definition FlushStep :: "page_id \<Rightarrow> pool \<Rightarrow> pool" where
  "FlushStep p bp =
     (let f = the (page_table bp p)
      in if \<not> is_dirty (frame_of bp f) then bp
         else (case WriteFrame p f bp of
             (bp, False) \<Rightarrow> bp
           | (bp, True) \<Rightarrow> set_frame f ((frame_of bp f)\<lparr>is_dirty := False\<rparr>) bp))"

definition FlushAllPages :: "page_id list \<Rightarrow> pool \<Rightarrow> pool" where
  "FlushAllPages order bp = fold FlushStep order bp"

text \<open>What a client does with the outcome of an operation on a page: keep it in the frame.\<close>

definition put_page :: "frame_id \<Rightarrow> page result \<Rightarrow> pool \<Rightarrow> pool" where
  "put_page f res bp = (case res of Inl _ \<Rightarrow> bp | Inr pg \<Rightarrow> set_frame f pg bp)"

section \<open>Statistics\<close>

datatype stats_snapshot = StatsSnapshot (snap_hits: nat) (snap_misses: nat) (snap_reads: nat) (snap_writes: nat)

definition GetStatsSnapshot :: "pool \<Rightarrow> stats_snapshot" where
  "GetStatsSnapshot bp = StatsSnapshot (buffer_hits bp) (buffer_misses bp) (disk_reads bp) (disk_writes bp)"

definition counter_delta :: "nat \<Rightarrow> nat \<Rightarrow> nat" where
  "counter_delta before after = (if after \<ge> before then after - before else 0)"

definition PopulateDeltaStats :: "stats_snapshot \<Rightarrow> stats_snapshot \<Rightarrow> stats_snapshot" where
  "PopulateDeltaStats before after = StatsSnapshot
     (counter_delta (snap_hits before) (snap_hits after))
     (counter_delta (snap_misses before) (snap_misses after))
     (counter_delta (snap_reads before) (snap_reads after))
     (counter_delta (snap_writes before) (snap_writes after))"

definition ResetStats :: "pool \<Rightarrow> pool" where
  "ResetStats bp = bp\<lparr>buffer_hits := 0, buffer_misses := 0, disk_reads := 0, disk_writes := 0\<rparr>"

end
