(* ===== verification/Buffer_Pool_Correct.thy ===== *)
theory Buffer_Pool_Correct
  imports Buffer_Pool
begin

text \<open>
  The lemmas about the buffer pool. \<open>pool_inv\<close> ties the page table, the free list, the pins and the
  replacer's candidates together; \<open>coherent\<close> says that a clean frame equals its page on disk;
  \<open>pool_page\<close> is the page the pool presents: the frame if resident, the disk's page otherwise.
  Every operation is shown to keep the first two and to leave every \<open>pool_page\<close> alone that it is
  not asked to change, for every schedule of disk failures.
\<close>

section \<open>The invariant\<close>

definition valid_frame :: "pool \<Rightarrow> frame_id \<Rightarrow> bool" where
  "valid_frame bp f \<longleftrightarrow> 0 \<le> f \<and> f < int (length (pages bp))"

definition mapped :: "pool \<Rightarrow> frame_id \<Rightarrow> bool" where
  "mapped bp f \<longleftrightarrow> page_table bp (page_pid (frame_of bp f)) = Some f"

text \<open>The parameters serve the middle of an operation: \<open>hidden\<close> frames have been taken from the
  replacer, \<open>loose\<close> ones are neither mapped nor free.\<close>

definition pool_wf :: "pool \<Rightarrow> frame_id set \<Rightarrow> frame_id set \<Rightarrow> bool" where
  "pool_wf bp hidden loose \<longleftrightarrow>
     clock_inv (replacer bp) \<and> length (in_replacer (replacer bp)) = length (pages bp) \<and>
     disk_inv (pool_disk bp) \<and> free_zero (pool_disk bp) \<and>
     (\<forall>f. valid_frame bp f \<longrightarrow> length (page_data (frame_of bp f)) = PAGE_SIZE \<and> 0 \<le> pin_count (frame_of bp f)) \<and>
     (\<forall>p f. page_table bp p = Some f \<longrightarrow> valid_frame bp f \<and> page_pid (frame_of bp f) = p \<and>
        0 \<le> p \<and> p < num_pages (pool_disk bp) \<and> p \<notin> free_pages (pool_disk bp)) \<and>
     distinct (free_list bp) \<and> set (free_list bp) \<inter> loose = {} \<and>
     (\<forall>f \<in> set (free_list bp) \<union> loose. valid_frame bp f \<and> pin_count (frame_of bp f) = 0 \<and> \<not> mapped bp f) \<and>
     (\<forall>f. valid_frame bp f \<and> f \<notin> set (free_list bp) \<union> loose \<longrightarrow> mapped bp f) \<and>
     clock_cand (replacer bp) = {f. valid_frame bp f \<and> mapped bp f \<and> pin_count (frame_of bp f) = 0} - hidden"

definition pool_inv :: "pool \<Rightarrow> bool" where "pool_inv bp \<longleftrightarrow> pool_wf bp {} {}"

text \<open>Pages in \<open>X\<close> have been modified by a client that has not reported it yet.\<close>

definition coherent :: "page_id set \<Rightarrow> pool \<Rightarrow> bool" where
  "coherent X bp \<longleftrightarrow> (\<forall>p f. page_table bp p = Some f \<and> p \<notin> X \<and> \<not> is_dirty (frame_of bp f) \<longrightarrow>
     disk_page (pool_disk bp) p = Some (page_data (frame_of bp f)))"

definition pool_page :: "pool \<Rightarrow> page_id \<Rightarrow> byte list option" where
  "pool_page bp p = (case page_table bp p of
     Some f \<Rightarrow> Some (page_data (frame_of bp f)) | None \<Rightarrow> disk_page (pool_disk bp) p)"

section \<open>Frames\<close>

lemma frame_of_update [simp]:
  "frame_of (bp\<lparr>page_table := t\<rparr>) f = frame_of bp f" "frame_of (bp\<lparr>free_list := l\<rparr>) f = frame_of bp f"
  "frame_of (bp\<lparr>replacer := r\<rparr>) f = frame_of bp f" "frame_of (bp\<lparr>pool_disk := d\<rparr>) f = frame_of bp f"
  "frame_of (bp\<lparr>buffer_hits := n\<rparr>) f = frame_of bp f" "frame_of (bp\<lparr>buffer_misses := n\<rparr>) f = frame_of bp f"
  "frame_of (bp\<lparr>disk_reads := n\<rparr>) f = frame_of bp f" "frame_of (bp\<lparr>disk_writes := n\<rparr>) f = frame_of bp f"
  by (simp_all add: frame_of_def)

lemma valid_frame_update [simp]:
  "valid_frame (bp\<lparr>page_table := t\<rparr>) f = valid_frame bp f"
  "valid_frame (bp\<lparr>free_list := l\<rparr>) f = valid_frame bp f"
  "valid_frame (bp\<lparr>replacer := r\<rparr>) f = valid_frame bp f"
  "valid_frame (bp\<lparr>pool_disk := d\<rparr>) f = valid_frame bp f"
  "valid_frame (bp\<lparr>buffer_hits := n\<rparr>) f = valid_frame bp f"
  "valid_frame (bp\<lparr>buffer_misses := n\<rparr>) f = valid_frame bp f"
  "valid_frame (bp\<lparr>disk_reads := n\<rparr>) f = valid_frame bp f"
  "valid_frame (bp\<lparr>disk_writes := n\<rparr>) f = valid_frame bp f"
  "valid_frame (set_frame g pg bp) f = valid_frame bp f"
  by (simp_all add: valid_frame_def set_frame_def)

lemma mapped_update [simp]:
  "mapped (bp\<lparr>free_list := l\<rparr>) f = mapped bp f" "mapped (bp\<lparr>replacer := r\<rparr>) f = mapped bp f"
  "mapped (bp\<lparr>pool_disk := d\<rparr>) f = mapped bp f" "mapped (bp\<lparr>buffer_hits := n\<rparr>) f = mapped bp f"
  "mapped (bp\<lparr>buffer_misses := n\<rparr>) f = mapped bp f" "mapped (bp\<lparr>disk_reads := n\<rparr>) f = mapped bp f"
  "mapped (bp\<lparr>disk_writes := n\<rparr>) f = mapped bp f"
  by (simp_all add: mapped_def)

lemma frame_of_set_frame:
  "valid_frame bp f \<Longrightarrow> valid_frame bp g \<Longrightarrow>
   frame_of (set_frame f pg bp) g = (if g = f then pg else frame_of bp g)"
  by (auto simp: frame_of_def set_frame_def valid_frame_def nth_list_update)

lemma frame_of_set_frame_same [simp]:
  "valid_frame bp f \<Longrightarrow> frame_of (set_frame f pg bp) f = pg"
  by (simp add: frame_of_set_frame)

lemma set_frame_simps [simp]:
  "page_table (set_frame f pg bp) = page_table bp" "free_list (set_frame f pg bp) = free_list bp"
  "replacer (set_frame f pg bp) = replacer bp" "pool_disk (set_frame f pg bp) = pool_disk bp"
  "length (pages (set_frame f pg bp)) = length (pages bp)"
  "buffer_hits (set_frame f pg bp) = buffer_hits bp" "buffer_misses (set_frame f pg bp) = buffer_misses bp"
  "disk_reads (set_frame f pg bp) = disk_reads bp" "disk_writes (set_frame f pg bp) = disk_writes bp"
  by (simp_all add: set_frame_def)

lemma pool_wf_stats [simp]:
  "pool_wf (bp\<lparr>buffer_hits := n\<rparr>) H L = pool_wf bp H L"
  "pool_wf (bp\<lparr>buffer_misses := n\<rparr>) H L = pool_wf bp H L"
  "pool_wf (bp\<lparr>disk_reads := n\<rparr>) H L = pool_wf bp H L"
  "pool_wf (bp\<lparr>disk_writes := n\<rparr>) H L = pool_wf bp H L"
  by (simp_all add: pool_wf_def)

lemma coherent_update [simp]:
  "coherent X (bp\<lparr>buffer_hits := n\<rparr>) = coherent X bp" "coherent X (bp\<lparr>buffer_misses := n\<rparr>) = coherent X bp"
  "coherent X (bp\<lparr>disk_reads := n\<rparr>) = coherent X bp" "coherent X (bp\<lparr>disk_writes := n\<rparr>) = coherent X bp"
  "coherent X (bp\<lparr>free_list := l\<rparr>) = coherent X bp" "coherent X (bp\<lparr>replacer := r\<rparr>) = coherent X bp"
  by (simp_all add: coherent_def)

lemma pool_page_update [simp]:
  "pool_page (bp\<lparr>buffer_hits := n\<rparr>) = pool_page bp" "pool_page (bp\<lparr>buffer_misses := n\<rparr>) = pool_page bp"
  "pool_page (bp\<lparr>disk_reads := n\<rparr>) = pool_page bp" "pool_page (bp\<lparr>disk_writes := n\<rparr>) = pool_page bp"
  "pool_page (bp\<lparr>free_list := l\<rparr>) = pool_page bp" "pool_page (bp\<lparr>replacer := r\<rparr>) = pool_page bp"
  by (simp_all add: pool_page_def fun_eq_iff split: option.splits)

lemma pool_wf_table:
  assumes "pool_wf bp H L" "page_table bp p = Some f"
  shows "valid_frame bp f" "page_pid (frame_of bp f) = p" "0 \<le> p" "p < num_pages (pool_disk bp)"
    "p \<notin> free_pages (pool_disk bp)" "mapped bp f" "length (page_data (frame_of bp f)) = PAGE_SIZE"
    "0 \<le> pin_count (frame_of bp f)" "f \<notin> set (free_list bp)" "f \<notin> L"
  using assms unfolding pool_wf_def mapped_def by blast+

lemma pool_table_inj:
  "pool_wf bp H L \<Longrightarrow> page_table bp p = Some f \<Longrightarrow> page_table bp q = Some f \<Longrightarrow> p = q"
  using pool_wf_table(2) by blast

lemma pool_page_length:
  assumes "pool_wf bp H L" "pool_page bp p = Some bs"
  shows "length bs = PAGE_SIZE"
proof (cases "page_table bp p")
  case None
  then show ?thesis using assms disk_page_length by (auto simp: pool_page_def pool_wf_def)
next
  case (Some f)
  then show ?thesis using assms pool_wf_table(7)[OF assms(1) Some] by (simp add: pool_page_def)
qed

section \<open>Taking a frame and giving it back\<close>

definition taken :: "pool \<Rightarrow> frame_id \<Rightarrow> bool \<Rightarrow> bool" where
  "taken bp f c \<longleftrightarrow> valid_frame bp f \<and> pin_count (frame_of bp f) = 0 \<and>
     (if c then pool_wf bp {} {f} else pool_wf bp {f} {} \<and> mapped bp f)"

lemma TakeFrame_None:
  assumes "pool_inv bp" "TakeFrame bp = (bp', None)"
  shows "bp' = bp \<and> free_list bp = [] \<and> (\<forall>f. valid_frame bp f \<longrightarrow> pin_count (frame_of bp f) > 0)"
proof -
  obtain r where r: "free_list bp = []" "Clock_Victim (replacer bp) = (r, None)" "bp' = bp\<lparr>replacer := r\<rparr>"
    using assms(2) by (auto simp: TakeFrame_def split: list.splits prod.splits option.splits)
  have "r = replacer bp" "clock_cand (replacer bp) = {}"
    using clock.victim_none[OF _ r(2)] assms(1) by (simp_all add: pool_inv_def pool_wf_def)
  moreover have "pin_count (frame_of bp f) > 0" if "valid_frame bp f" for f
  proof -
    have "mapped bp f" "0 \<le> pin_count (frame_of bp f)"
      using assms(1) that r(1) by (auto simp: pool_inv_def pool_wf_def)
    moreover have "\<not> (valid_frame bp f \<and> mapped bp f \<and> pin_count (frame_of bp f) = 0)"
      using assms(1) \<open>clock_cand _ = {}\<close> by (auto simp: pool_inv_def pool_wf_def)
    ultimately show ?thesis using that by linarith
  qed
  ultimately show ?thesis using r by simp
qed

lemma TakeFrame_Some:
  assumes "pool_inv bp" "TakeFrame bp = (bp', Some (f, c))"
  shows "taken bp' f c \<and> pages bp' = pages bp \<and> page_table bp' = page_table bp \<and>
    pool_disk bp' = pool_disk bp \<and> disk_writes bp' = disk_writes bp \<and> disk_reads bp' = disk_reads bp \<and>
    buffer_hits bp' = buffer_hits bp \<and> buffer_misses bp' = buffer_misses bp"
proof (cases "free_list bp")
  case Nil
  obtain r where r: "Clock_Victim (replacer bp) = (r, Some f)" "bp' = bp\<lparr>replacer := r\<rparr>" "c = False"
    using assms(2) Nil by (auto simp: TakeFrame_def split: prod.splits option.splits)
  have v: "clock_inv r" "length (in_replacer r) = length (pages bp)" "f \<in> clock_cand (replacer bp)"
    "clock_cand r = clock_cand (replacer bp) - {f}"
    using clock.victim_some[OF _ r(1)] assms(1) by (simp_all add: pool_inv_def pool_wf_def)
  have "valid_frame bp f" "mapped bp f" "pin_count (frame_of bp f) = 0"
    using v(3) assms(1) by (auto simp: pool_inv_def pool_wf_def)
  moreover have "pool_wf bp' {f} {}"
    using assms(1) v r(2) by (simp add: pool_inv_def pool_wf_def)
  ultimately show ?thesis using r by (auto simp: taken_def)
next
  case (Cons g fs)
  then have b: "bp' = bp\<lparr>free_list := fs\<rparr>" "f = g" "c = True"
    using assms(2) by (auto simp: TakeFrame_def)
  have "valid_frame bp f" "pin_count (frame_of bp f) = 0"
    using assms(1) Cons b(2) by (auto simp: pool_inv_def pool_wf_def)
  moreover have "pool_wf bp' {} {f}"
    using assms(1) Cons b by (auto simp: pool_inv_def pool_wf_def)
  ultimately show ?thesis using b by (auto simp: taken_def)
qed

lemma GiveBack_inv:
  assumes "taken bp f c"
  shows "pool_inv (GiveBack f c bp)"
proof (cases c)
  case True
  then show ?thesis using assms by (auto simp: taken_def pool_inv_def pool_wf_def GiveBack_def)
next
  case False
  have wf: "pool_wf bp {f} {}" "valid_frame bp f" "mapped bp f" "pin_count (frame_of bp f) = 0"
    using assms False by (simp_all add: taken_def)
  have "clock_inv (Clock_Unpin f (replacer bp)) \<and>
      length (in_replacer (Clock_Unpin f (replacer bp))) = length (pages bp) \<and>
      clock_cand (Clock_Unpin f (replacer bp)) = insert f (clock_cand (replacer bp))"
    using clock.unpin_law[of "replacer bp" f] wf by (simp add: pool_wf_def valid_frame_def)
  then show ?thesis
    using wf False by (auto simp: pool_inv_def pool_wf_def GiveBack_def)
qed

lemma GiveBack_frame [simp]:
  "pages (GiveBack f c bp) = pages bp" "page_table (GiveBack f c bp) = page_table bp"
  "pool_disk (GiveBack f c bp) = pool_disk bp" "pool_page (GiveBack f c bp) = pool_page bp"
  "coherent X (GiveBack f c bp) = coherent X bp"
  by (simp_all add: GiveBack_def)

section \<open>Writing back, installing, erasing\<close>

text \<open>A change of the disk that keeps its invariant, page count and free set.\<close>

lemma pool_wf_disk:
  assumes "pool_wf bp H L" "disk_inv d" "free_zero d" "num_pages d = num_pages (pool_disk bp)"
    "free_pages d = free_pages (pool_disk bp)"
  shows "pool_wf (bp\<lparr>pool_disk := d\<rparr>) H L"
  using assms by (simp add: pool_wf_def)

lemma WriteFrame_spec:
  assumes "pool_wf bp H L" "page_table bp p = Some f" "WriteFrame p f bp = (bp', ok)"
  shows "pool_wf bp' H L \<and> pages bp' = pages bp \<and> page_table bp' = page_table bp \<and>
    free_list bp' = free_list bp \<and> replacer bp' = replacer bp \<and>
    pool_page bp' = pool_page bp \<and>
    (is_dirty (frame_of bp f) \<longrightarrow> coherent X bp \<longrightarrow> coherent X bp') \<and>
    (ok \<longrightarrow> disk_page (pool_disk bp') p = Some (page_data (frame_of bp f))) \<and>
    (\<forall>q. q \<noteq> p \<longrightarrow> disk_page (pool_disk bp') q = disk_page (pool_disk bp) q) \<and>
    free_pages (pool_disk bp') = free_pages (pool_disk bp)"
proof -
  note t = pool_wf_table[OF assms(1,2)]
  obtain d st where w: "WritePage p (Some (page_data (frame_of bp f))) (pool_disk bp) = (d, st)"
    by (cases "WritePage p (Some (page_data (frame_of bp f))) (pool_disk bp)")
  have f: "disk_inv d" "free_pages d = free_pages (pool_disk bp)"
    "\<forall>q. q \<noteq> p \<longrightarrow> disk_page d q = disk_page (pool_disk bp) q"
    "status_ok st \<longrightarrow> disk_page d p = Some (page_data (frame_of bp f))"
    "num_pages d = num_pages (pool_disk bp)"
    using WritePage_frame[OF w] assms(1) t(4,7) by (auto simp: pool_wf_def)
  have b: "bp' = (if status_ok st then bp\<lparr>pool_disk := d, disk_writes := disk_writes bp + 1\<rparr>
      else bp\<lparr>pool_disk := d\<rparr>)" "ok = status_ok st"
    using assms(3) w by (auto simp: WriteFrame_def split: if_splits)
  have "free_zero d"
    using free_zero_write[OF w _ t(7) _ t(5)] assms(1) by (simp add: pool_wf_def)
  then have wf: "pool_wf (bp\<lparr>pool_disk := d\<rparr>) H L" using pool_wf_disk[OF assms(1) f(1) _ f(5,2)] by simp
  have "pool_page (bp\<lparr>pool_disk := d\<rparr>) = pool_page bp"
  proof
    show "pool_page (bp\<lparr>pool_disk := d\<rparr>) q = pool_page bp q" for q
      using f(3) assms(2) by (cases "q = p") (auto simp: pool_page_def split: option.splits)
  qed
  moreover have "coherent X (bp\<lparr>pool_disk := d\<rparr>)" if "is_dirty (frame_of bp f)" "coherent X bp"
    unfolding coherent_def
  proof (intro allI impI, elim conjE)
    fix q g
    assume q: "page_table (bp\<lparr>pool_disk := d\<rparr>) q = Some g" "q \<notin> X"
      "\<not> is_dirty (frame_of (bp\<lparr>pool_disk := d\<rparr>) g)"
    then have "q \<noteq> p" using assms(2) that(1) by auto
    then show "disk_page (pool_disk (bp\<lparr>pool_disk := d\<rparr>)) q =
        Some (page_data (frame_of (bp\<lparr>pool_disk := d\<rparr>) g))"
      using q that(2) f(3) by (simp add: coherent_def)
  qed
  ultimately show ?thesis using b wf f by auto
qed

lemma ErasePage_wf:
  assumes "pool_wf bp {f} {}" "mapped bp f" "valid_frame bp f" "pin_count (frame_of bp f) = 0"
  defines "bp' \<equiv> ErasePage (page_pid (frame_of bp f)) bp"
  shows "pool_wf bp' {} {f} \<and> pages bp' = pages bp \<and> pool_disk bp' = pool_disk bp"
proof -
  let ?p = "page_pid (frame_of bp f)"
  have t: "page_table bp ?p = Some f" using assms(2) by (simp add: mapped_def)
  note tf = pool_wf_table[OF assms(1) t]
  have fr: "frame_of bp' g = frame_of bp g" "valid_frame bp' g = valid_frame bp g" for g
    by (simp_all add: bp'_def ErasePage_def)
  have mp: "mapped bp' g \<longleftrightarrow> mapped bp g \<and> g \<noteq> f" if "valid_frame bp g" for g
    using t by (auto simp: mapped_def bp'_def ErasePage_def)
  have "pool_wf bp' {} {f}"
    unfolding pool_wf_def
  proof (intro conjI)
    show "clock_cand (replacer bp') =
        {g. valid_frame bp' g \<and> mapped bp' g \<and> pin_count (frame_of bp' g) = 0} - {}"
      using assms(1) fr mp by (auto simp: pool_wf_def bp'_def ErasePage_def)
    show "\<forall>g. valid_frame bp' g \<and> g \<notin> set (free_list bp') \<union> {f} \<longrightarrow> mapped bp' g"
      using assms(1) fr mp by (auto simp: pool_wf_def bp'_def ErasePage_def)
    show "\<forall>g \<in> set (free_list bp') \<union> {f}.
        valid_frame bp' g \<and> pin_count (frame_of bp' g) = 0 \<and> \<not> mapped bp' g"
      using assms(1,3,4) fr mp by (auto simp: pool_wf_def bp'_def ErasePage_def)
  qed (use assms(1) fr tf(9) in \<open>auto simp: pool_wf_def bp'_def ErasePage_def\<close>)
  then show ?thesis by (simp add: bp'_def ErasePage_def)
qed

lemma InstallPage_frame_of:
  assumes "valid_frame bp f" "length data = PAGE_SIZE" "valid_frame bp g"
  shows "frame_of (InstallPage p f data bp) g =
    (if g = f then \<lparr>page_data = data, page_pid = p, pin_count = 1, is_dirty = False, \<dots> = page.more (frame_of bp f)\<rparr>
     else frame_of bp g)"
  using assms by (simp add: InstallPage_def Let_def frame_of_set_frame ResetMemory_def mem_write_def)

lemma InstallPage_simps [simp]:
  "pool_disk (InstallPage p f data bp) = pool_disk bp"
  "page_table (InstallPage p f data bp) = (page_table bp)(p \<mapsto> f)"
  "free_list (InstallPage p f data bp) = free_list bp"
  "valid_frame (InstallPage p f data bp) g = valid_frame bp g"
  "replacer (InstallPage p f data bp) = Clock_Pin f (replacer bp)"
  "length (pages (InstallPage p f data bp)) = length (pages bp)"
  by (simp_all add: InstallPage_def Let_def)

lemma InstallPage_inv:
  assumes "pool_wf bp {} {f}" "page_table bp p = None" "0 \<le> p" "p < num_pages (pool_disk bp)"
    "p \<notin> free_pages (pool_disk bp)" "length data = PAGE_SIZE"
  shows "pool_inv (InstallPage p f data bp)"
proof -
  let ?bp = "InstallPage p f data bp"
  have f: "valid_frame bp f" "\<not> mapped bp f" "f \<notin> set (free_list bp)" using assms(1) by (auto simp: pool_wf_def)
  note fr = InstallPage_frame_of[OF f(1) assms(6), where p = p]
  have nt: "page_table bp q \<noteq> Some f" for q using pool_wf_table(6)[OF assms(1)] f(2) by blast
  have mp: "mapped ?bp g \<longleftrightarrow> mapped bp g \<or> g = f" if "valid_frame bp g" for g
    using fr[OF that] nt assms(2) by (auto simp: mapped_def)
  have cl: "clock_inv (Clock_Pin f (replacer bp)) \<and>
      length (in_replacer (Clock_Pin f (replacer bp))) = length (pages bp) \<and>
      clock_cand (Clock_Pin f (replacer bp)) = clock_cand (replacer bp) - {f}"
    using clock.pin_law[of "replacer bp" f] assms(1) by (simp add: pool_wf_def)
  show ?thesis
    unfolding pool_inv_def pool_wf_def
  proof (intro conjI)
    show "clock_cand (replacer ?bp) = {g. valid_frame ?bp g \<and> mapped ?bp g \<and> pin_count (frame_of ?bp g) = 0} - {}"
      using assms(1) fr mp cl f by (auto simp: pool_wf_def split: if_splits)
    show "\<forall>g \<in> set (free_list ?bp) \<union> {}. valid_frame ?bp g \<and> pin_count (frame_of ?bp g) = 0 \<and> \<not> mapped ?bp g"
      using assms(1) fr mp f(3) by (auto simp: pool_wf_def)
    show "\<forall>g. valid_frame ?bp g \<and> g \<notin> set (free_list ?bp) \<union> {} \<longrightarrow> mapped ?bp g"
      using assms(1) mp by (auto simp: pool_wf_def)
    show "\<forall>q g. page_table ?bp q = Some g \<longrightarrow> valid_frame ?bp g \<and> page_pid (frame_of ?bp g) = q \<and>
        0 \<le> q \<and> q < num_pages (pool_disk ?bp) \<and> q \<notin> free_pages (pool_disk ?bp)"
      using pool_wf_table[OF assms(1)] fr f(1) assms(2-5) nt by auto
    show "\<forall>g. valid_frame ?bp g \<longrightarrow> length (page_data (frame_of ?bp g)) = PAGE_SIZE \<and> 0 \<le> pin_count (frame_of ?bp g)"
      using assms(1,6) fr by (auto simp: pool_wf_def)
  qed (use assms(1) cl in \<open>auto simp: pool_wf_def\<close>)
qed

section \<open>What each operation does\<close>

text \<open>How often a page is pinned; a page that is not resident is not pinned.\<close>

definition pins :: "pool \<Rightarrow> page_id \<Rightarrow> int" where
  "pins bp p = (case page_table bp p of Some f \<Rightarrow> pin_count (frame_of bp f) | None \<Rightarrow> 0)"

lemma pins_nonneg: "pool_wf bp H L \<Longrightarrow> 0 \<le> pins bp p"
  using pool_wf_table(8) by (auto simp: pins_def split: option.splits)

definition held :: "page_id set \<Rightarrow> pool \<Rightarrow> bool" where
  "held X bp \<longleftrightarrow> (\<forall>p \<in> X. 0 < pins bp p)"

text \<open>One operation of the pool as its clients see it: the invariant, the pages and the disk's page
  count and free set are as before; only pins change.\<close>

definition pool_ok :: "page_id set \<Rightarrow> pool \<Rightarrow> bool" where
  "pool_ok X bp \<longleftrightarrow> pool_inv bp \<and> coherent X bp \<and> held X bp"

definition same_pages :: "pool \<Rightarrow> pool \<Rightarrow> bool" where
  "same_pages bp bp' \<longleftrightarrow> pool_page bp' = pool_page bp \<and>
     num_pages (pool_disk bp') = num_pages (pool_disk bp) \<and>
     free_pages (pool_disk bp') = free_pages (pool_disk bp) \<and>
     length (pages bp') = length (pages bp)"

lemma same_pages_refl [simp]: "same_pages bp bp"
  by (simp add: same_pages_def)

lemma same_pages_trans: "same_pages a b \<Longrightarrow> same_pages b c \<Longrightarrow> same_pages a c"
  by (simp add: same_pages_def)

text \<open>A modified frame: same identity and pin count, page-sized data.\<close>

lemma set_frame_wf:
  assumes "pool_wf bp H L" "page_table bp p = Some f" "page_pid pg = p" "length (page_data pg) = PAGE_SIZE"
    "0 \<le> pin_count pg" "replacer bp' = replacer bp"
    "bp' = set_frame f pg bp" "f \<in> clock_cand (replacer bp) \<longleftrightarrow> pin_count pg = 0 \<and> f \<notin> H'"
    "H - {f} = H' - {f}"
  shows "pool_wf bp' H' L"
proof -
  note t = pool_wf_table[OF assms(1,2)]
  note fr = frame_of_set_frame[OF t(1)]
  have v: "valid_frame bp' g = valid_frame bp g" for g by (simp add: assms(7))
  have mp: "mapped bp' g = mapped bp g" if "valid_frame bp g" for g
    using fr[OF that] assms(2,3,7) t(6) by (auto simp: mapped_def)
  have cand: "clock_cand (replacer bp) = {g. valid_frame bp g \<and> mapped bp g \<and> pin_count (frame_of bp g) = 0} - H"
    using assms(1) by (simp add: pool_wf_def)
  show ?thesis
    unfolding pool_wf_def
  proof (intro conjI)
    show "clock_cand (replacer bp') = {g. valid_frame bp' g \<and> mapped bp' g \<and> pin_count (frame_of bp' g) = 0} - H'"
    proof (rule set_eqI)
      fix g
      show "g \<in> clock_cand (replacer bp') \<longleftrightarrow>
          g \<in> {g. valid_frame bp' g \<and> mapped bp' g \<and> pin_count (frame_of bp' g) = 0} - H'"
      proof (cases "g = f")
        case True
        then show ?thesis using assms(6-8) t(1,6) v mp by simp
      next
        case False
        then show ?thesis using assms(6,7,9) cand v mp fr by auto
      qed
    qed
    show "\<forall>g \<in> set (free_list bp') \<union> L. valid_frame bp' g \<and> pin_count (frame_of bp' g) = 0 \<and> \<not> mapped bp' g"
      using assms(1,7) v mp fr t(9,10) by (auto simp: pool_wf_def)
    show "\<forall>g. valid_frame bp' g \<and> g \<notin> set (free_list bp') \<union> L \<longrightarrow> mapped bp' g"
      using assms(1,7) v mp by (auto simp: pool_wf_def)
    show "\<forall>q g. page_table bp' q = Some g \<longrightarrow> valid_frame bp' g \<and> page_pid (frame_of bp' g) = q \<and>
        0 \<le> q \<and> q < num_pages (pool_disk bp') \<and> q \<notin> free_pages (pool_disk bp')"
    proof (intro allI impI)
      fix q g
      assume "page_table bp' q = Some g"
      then have q: "page_table bp q = Some g" using assms(7) by simp
      have "g = f \<longrightarrow> q = p" using pool_table_inj[OF assms(1) q, of p] assms(2) by auto
      then show "valid_frame bp' g \<and> page_pid (frame_of bp' g) = q \<and>
          0 \<le> q \<and> q < num_pages (pool_disk bp') \<and> q \<notin> free_pages (pool_disk bp')"
        using pool_wf_table(1-5)[OF assms(1) q] v fr assms(3,7) by simp
    qed
    show "\<forall>g. valid_frame bp' g \<longrightarrow> length (page_data (frame_of bp' g)) = PAGE_SIZE \<and> 0 \<le> pin_count (frame_of bp' g)"
      using assms(1,4,5,7) v fr by (auto simp: pool_wf_def)
  qed (use assms(1,7) in \<open>auto simp: pool_wf_def\<close>)
qed

lemma pool_page_set_frame:
  assumes "pool_wf bp H L" "page_table bp p = Some f"
  shows "pool_page (set_frame f pg bp) = (pool_page bp)(p \<mapsto> page_data pg)"
    "pins (set_frame f pg bp) = (pins bp)(p := pin_count pg)"
proof -
  note t = pool_wf_table[OF assms]
  have fr: "frame_of (set_frame f pg bp) g = (if q = p then pg else frame_of bp g)"
    if "page_table bp q = Some g" for q g
  proof -
    have "g = f \<longleftrightarrow> q = p" using pool_table_inj[OF assms(1) that, of p] assms(2) that by auto
    then show ?thesis using frame_of_set_frame[OF t(1) pool_wf_table(1)[OF assms(1) that]] by simp
  qed
  show "pool_page (set_frame f pg bp) = (pool_page bp)(p \<mapsto> page_data pg)"
  proof
    show "pool_page (set_frame f pg bp) q = ((pool_page bp)(p \<mapsto> page_data pg)) q" for q
      using fr assms(2) by (cases "page_table bp q") (auto simp: pool_page_def)
  qed
  show "pins (set_frame f pg bp) = (pins bp)(p := pin_count pg)"
  proof
    show "pins (set_frame f pg bp) q = ((pins bp)(p := pin_count pg)) q" for q
      using fr assms(2) by (cases "page_table bp q") (auto simp: pins_def)
  qed
qed

lemma coherent_set_frame:
  assumes "pool_wf bp H L" "page_table bp p = Some f" "coherent X bp"
    "p \<in> X' \<or> is_dirty pg \<or> disk_page (pool_disk bp) p = Some (page_data pg)" "X - {p} \<subseteq> X'"
  shows "coherent X' (set_frame f pg bp)"
  unfolding coherent_def
proof (intro allI impI, elim conjE)
  fix q g
  assume q: "page_table (set_frame f pg bp) q = Some g" "q \<notin> X'" "\<not> is_dirty (frame_of (set_frame f pg bp) g)"
  then have tq: "page_table bp q = Some g" by simp
  note fr = frame_of_set_frame[OF pool_wf_table(1)[OF assms(1,2)] pool_wf_table(1)[OF assms(1) tq]]
  show "disk_page (pool_disk (set_frame f pg bp)) q = Some (page_data (frame_of (set_frame f pg bp) g))"
  proof (cases "q = p")
    case True
    then show ?thesis using q assms(2,4) tq fr by auto
  next
    case False
    then have "g \<noteq> f" using pool_table_inj[OF assms(1) assms(2)] tq by blast
    then show ?thesis using q tq fr assms(3,5) False by (auto simp: coherent_def)
  qed
qed

text \<open>A client's modification of a page it holds.\<close>

lemma client_write:
  assumes "pool_ok X bp" "page_table bp p = Some f" "0 < pins bp p" "page_pid pg = p"
    "pin_count pg = pin_count (frame_of bp f)" "length (page_data pg) = PAGE_SIZE"
  shows "pool_ok (insert p X) (set_frame f pg bp)"
    "is_dirty pg \<Longrightarrow> pool_ok X (set_frame f pg bp)"
    "pool_page (set_frame f pg bp) = (pool_page bp)(p \<mapsto> page_data pg)"
    "pins (set_frame f pg bp) = pins bp"
proof -
  have wf: "pool_wf bp {} {}" and coh: "coherent X bp" and hd: "held X bp"
    using assms(1) by (simp_all add: pool_ok_def pool_inv_def)
  have pc: "pin_count pg = pins bp p" using assms(2,5) by (simp add: pins_def)
  have cand: "f \<notin> clock_cand (replacer bp)" using wf assms(2,3) by (auto simp: pool_wf_def pins_def)
  have inv: "pool_inv (set_frame f pg bp)"
    unfolding pool_inv_def
    by (rule set_frame_wf[OF wf assms(2) assms(4,6) _ _ refl]) (use assms(3) pc cand in auto)
  show pins: "pins (set_frame f pg bp) = pins bp"
    using pool_page_set_frame(2)[OF wf assms(2)] pc by (auto simp: fun_eq_iff)
  show "pool_page (set_frame f pg bp) = (pool_page bp)(p \<mapsto> page_data pg)"
    by (rule pool_page_set_frame(1)[OF wf assms(2)])
  show "pool_ok (insert p X) (set_frame f pg bp)"
    using inv pins hd assms(3) coherent_set_frame[OF wf assms(2) coh, of "insert p X"]
    by (auto simp: pool_ok_def held_def)
  show "pool_ok X (set_frame f pg bp)" if "is_dirty pg"
    using inv pins hd that coherent_set_frame[OF wf assms(2) coh, of X] by (auto simp: pool_ok_def held_def)
qed

section \<open>Eviction\<close>

lemma pins_update [simp]:
  "pins (bp\<lparr>free_list := l\<rparr>) = pins bp" "pins (bp\<lparr>replacer := r\<rparr>) = pins bp"
  "pins (bp\<lparr>pool_disk := d\<rparr>) = pins bp" "pins (bp\<lparr>buffer_hits := n\<rparr>) = pins bp"
  "pins (bp\<lparr>buffer_misses := n\<rparr>) = pins bp" "pins (bp\<lparr>disk_reads := n\<rparr>) = pins bp"
  "pins (bp\<lparr>disk_writes := n\<rparr>) = pins bp"
  by (auto simp: pins_def fun_eq_iff split: option.splits)

lemma pins_cong: "pages bp' = pages bp \<Longrightarrow> page_table bp' = page_table bp \<Longrightarrow> pins bp' = pins bp"
  by (auto simp: pins_def frame_of_def fun_eq_iff split: option.splits)

lemma set_frame_replacer: "set_frame f pg (bp\<lparr>replacer := r\<rparr>) = (set_frame f pg bp)\<lparr>replacer := r\<rparr>"
  by (simp add: set_frame_def)

lemma taken_wf: "taken bp f c \<Longrightarrow> pool_wf bp (if c then {} else {f}) (if c then {f} else {})"
  by (auto simp: taken_def split: if_splits)

lemma taken_cong:
  assumes "taken bp f c" "pages bp' = pages bp" "page_table bp' = page_table bp"
    "free_list bp' = free_list bp" "replacer bp' = replacer bp"
    "disk_inv (pool_disk bp')" "free_zero (pool_disk bp')"
    "num_pages (pool_disk bp') = num_pages (pool_disk bp)" "free_pages (pool_disk bp') = free_pages (pool_disk bp)"
  shows "taken bp' f c"
proof -
  have fr: "frame_of bp' = frame_of bp" using assms(2) by (simp add: frame_of_def fun_eq_iff)
  have vl: "valid_frame bp' = valid_frame bp" using assms(2) by (simp add: valid_frame_def fun_eq_iff)
  have mp: "mapped bp' = mapped bp" using assms(3) fr by (simp add: mapped_def fun_eq_iff)
  have "pool_wf bp' H L = pool_wf bp H L" if "pool_wf bp H L" for H L
    using that assms(2-9) fr vl mp unfolding pool_wf_def by simp
  then show ?thesis using assms(1) fr vl mp unfolding taken_def by metis
qed

definition EvictWrite :: "frame_id \<Rightarrow> bool \<Rightarrow> pool \<Rightarrow> pool \<times> bool" where
  "EvictWrite f c bp = (if \<not> c \<and> is_dirty (frame_of bp f)
     then WriteFrame (page_pid (frame_of bp f)) f bp else (bp, True))"

lemma EvictWrite_spec:
  assumes "taken bp f c" "coherent X bp" "EvictWrite f c bp = (bp1, ok)"
  shows "taken bp1 f c \<and> coherent X bp1 \<and> same_pages bp bp1 \<and> pages bp1 = pages bp \<and>
    page_table bp1 = page_table bp \<and>
    (ok \<longrightarrow> \<not> c \<longrightarrow> is_dirty (frame_of bp f) \<longrightarrow>
      disk_page (pool_disk bp1) (page_pid (frame_of bp f)) = Some (page_data (frame_of bp f)))"
proof (cases "\<not> c \<and> is_dirty (frame_of bp f)")
  case False
  then show ?thesis using assms by (auto simp: EvictWrite_def split: if_splits)
next
  case True
  have t: "page_table bp (page_pid (frame_of bp f)) = Some f" and wf: "pool_wf bp {f} {}"
    using assms(1) True by (simp_all add: taken_def mapped_def)
  note w = WriteFrame_spec[OF wf t, of bp1 ok X]
  have e: "WriteFrame (page_pid (frame_of bp f)) f bp = (bp1, ok)"
    using assms(3) True by (simp add: EvictWrite_def)
  have n: "num_pages (pool_disk bp1) = num_pages (pool_disk bp)"
  proof -
    have "page_pid (frame_of bp f) < num_pages (pool_disk bp)" using pool_wf_table(4)[OF wf t] .
    then show ?thesis
      using e WritePage_frame[of "page_pid (frame_of bp f)" "page_data (frame_of bp f)" "pool_disk bp"]
        wf pool_wf_table(7)[OF wf t]
      by (auto simp: WriteFrame_def pool_wf_def split: prod.splits if_splits)
  qed
  have "taken bp1 f c"
    using w e taken_cong[OF assms(1), of bp1] n by (simp add: pool_wf_def)
  then show ?thesis using w e n True assms(2) by (simp add: same_pages_def)
qed

lemma evict_fail:
  assumes "taken bp f False" "coherent X bp" "held X bp"
  shows "pool_ok X (bp\<lparr>replacer := Clock_Unpin f (replacer bp)\<rparr>)"
  using GiveBack_inv[OF assms(1)] assms(2,3) by (simp add: pool_ok_def GiveBack_def held_def)

lemma evict_ok:
  assumes "taken bp f c" "coherent X bp" "held X bp" "EvictWrite f c bp = (bp1, True)"
  defines "bp2 \<equiv> if c then bp1 else ErasePage (page_pid (frame_of bp f)) bp1"
  shows "pool_wf bp2 {} {f} \<and> coherent X bp2 \<and> same_pages bp bp2 \<and> pins bp2 = pins bp \<and>
    (\<forall>q. page_table bp q = None \<longrightarrow> page_table bp2 q = None) \<and> pages bp2 = pages bp"
proof (cases c)
  case True
  then show ?thesis
    using EvictWrite_spec[OF assms(1,2,4)] assms(4) by (auto simp: bp2_def taken_def EvictWrite_def)
next
  case False
  let ?p = "page_pid (frame_of bp f)"
  note w = EvictWrite_spec[OF assms(1,2,4)]
  have fr: "frame_of bp1 g = frame_of bp g" for g using w by (simp add: frame_of_def)
  have b2: "bp2 = ErasePage (page_pid (frame_of bp1 f)) bp1" using False fr by (simp add: bp2_def)
  have tk: "pool_wf bp1 {f} {}" "mapped bp1 f" "valid_frame bp1 f" "pin_count (frame_of bp1 f) = 0"
    using w False by (simp_all add: taken_def)
  note e = ErasePage_wf[OF tk, folded b2]
  have tp: "page_table bp ?p = Some f" using assms(1) False by (simp add: taken_def mapped_def)
  have pin0: "pins bp ?p = 0" using tp assms(1) by (simp add: pins_def taken_def)
  have "?p \<notin> X" using assms(3) pin0 by (auto simp: held_def)
  have "disk_page (pool_disk bp1) ?p = Some (page_data (frame_of bp f))"
  proof (cases "is_dirty (frame_of bp f)")
    case True
    then show ?thesis using w False by blast
  next
    case False
    then have "bp1 = bp" using assms(4) by (simp add: EvictWrite_def)
    then show ?thesis using assms(2) tp \<open>?p \<notin> X\<close> False unfolding coherent_def by blast
  qed
  then have dp: "disk_page (pool_disk bp2) ?p = Some (page_data (frame_of bp f))" using e by simp
  have tb: "page_table bp2 = (page_table bp)(?p := None)" using w fr b2 by (simp add: ErasePage_def)
  have fr2: "frame_of bp2 g = frame_of bp g" for g using e w by (simp add: frame_of_def)
  have "pool_page bp2 q = pool_page bp1 q" for q
    using dp e tb w fr fr2 tp by (cases "q = ?p") (auto simp: pool_page_def split: option.splits)
  moreover have "pins bp2 q = pins bp q" for q
    using tb fr2 pin0 by (cases "q = ?p") (auto simp: pins_def split: option.splits)
  moreover have "coherent X bp2"
    using w e tb fr fr2 by (auto simp: coherent_def)
  ultimately show ?thesis
    using e w tb by (auto simp: same_pages_def fun_eq_iff)
qed

section \<open>The operations\<close>

lemma FetchPage_hit:
  assumes "pool_ok X bp" "page_table bp p = Some f" "FetchPage p bp = (bp', r)"
  shows "r = Some f \<and> pool_ok X bp' \<and> same_pages bp bp' \<and> pins bp' = (pins bp)(p := pins bp p + 1) \<and>
    page_table bp' p = Some f"
proof -
  have wf: "pool_wf bp {} {}" and coh: "coherent X bp" and hd: "held X bp"
    using assms(1) by (simp_all add: pool_ok_def pool_inv_def)
  note t = pool_wf_table[OF wf assms(2)]
  let ?pg = "(frame_of bp f)\<lparr>pin_count := pin_count (frame_of bp f) + 1\<rparr>"
  let ?bp = "set_frame f ?pg bp"
  have c: "clock_cand (Clock_Pin f (replacer bp)) = clock_cand (replacer bp) - {f}"
    "clock_inv (Clock_Pin f (replacer bp))"
    "length (in_replacer (Clock_Pin f (replacer bp))) = length (pages bp)"
    using clock.pin_law[of "replacer bp" f] wf by (simp_all add: pool_wf_def)
  have b: "bp' = ?bp\<lparr>replacer := Clock_Pin f (replacer bp), buffer_hits := buffer_hits bp + 1\<rparr>" "r = Some f"
    using assms(2,3) t(3) by (auto simp: FetchPage_def Let_def)
  define br where "br = bp\<lparr>replacer := Clock_Pin f (replacer bp)\<rparr>"
  have wr: "pool_wf br {f} {}" using wf c by (auto simp: br_def pool_wf_def)
  have "pool_wf (set_frame f ?pg br) {} {}"
    by (rule set_frame_wf[OF wr _ _ _ _ _ refl]) (use assms(2) t c in \<open>auto simp: br_def\<close>)
  then have "pool_inv bp'" using b by (simp add: pool_inv_def br_def set_frame_replacer)
  moreover have "pool_page bp' = pool_page bp"
    using b pool_page_set_frame(1)[OF wf assms(2), of ?pg] assms(2) by (auto simp: pool_page_def fun_eq_iff)
  moreover have pins: "pins bp' = (pins bp)(p := pins bp p + 1)"
    using b pool_page_set_frame(2)[OF wf assms(2), of ?pg] assms(2) by (simp add: pins_def[of bp p])
  moreover have "coherent X bp'"
  proof -
    have "coherent X ?bp"
      by (rule coherent_set_frame[OF wf assms(2) coh]) (use coh assms(2) in \<open>auto simp: coherent_def\<close>)
    then show ?thesis using b by simp
  qed
  moreover have "held X bp'" using hd pins by (auto simp: held_def add.commute intro: order.strict_trans)
  ultimately show ?thesis using b assms(2) by (simp add: pool_ok_def same_pages_def)
qed

text \<open>The miss path, written with the eviction step.\<close>

lemma FetchPage_miss_eq:
  assumes "page_table bp p = None" "0 \<le> p"
  shows "FetchPage p bp = (case TakeFrame (bp\<lparr>buffer_misses := buffer_misses bp + 1\<rparr>) of
      (bp, None) \<Rightarrow> (bp, None)
    | (bp, Some (f, c)) \<Rightarrow> (case ReadPage p (Some zero_page) (pool_disk bp) of (d, buf, st) \<Rightarrow>
        if \<not> status_ok st then (GiveBack f c (bp\<lparr>pool_disk := d\<rparr>), None)
        else (case EvictWrite f c (bp\<lparr>pool_disk := d, disk_reads := disk_reads bp + 1\<rparr>) of
            (bp1, False) \<Rightarrow> (bp1\<lparr>replacer := Clock_Unpin f (replacer bp1)\<rparr>, None)
          | (bp1, True) \<Rightarrow> (InstallPage p f (the buf)
              (if c then bp1 else ErasePage (page_pid (frame_of bp f)) bp1), Some f))))"
  using assms by (auto simp: FetchPage_def Let_def EvictWrite_def split: option.splits prod.splits)

lemma InstallPage_pins:
  assumes "pool_wf bp {} {f}" "page_table bp p = None" "length data = PAGE_SIZE"
  shows "pins (InstallPage p f data bp) = (pins bp)(p := 1)"
    "pool_page (InstallPage p f data bp) = (pool_page bp)(p \<mapsto> data)"
    "coherent X bp \<Longrightarrow> disk_page (pool_disk bp) p = Some data \<Longrightarrow> coherent X (InstallPage p f data bp)"
proof -
  have f: "valid_frame bp f" "\<not> mapped bp f" using assms(1) by (auto simp: pool_wf_def)
  have ne: "g \<noteq> f" "valid_frame bp g" if "page_table bp q = Some g" for q g
    using pool_wf_table(1,6)[OF assms(1) that] f(2) by auto
  note fr = InstallPage_frame_of[OF f(1) assms(3), where p = p]
  show "pins (InstallPage p f data bp) = (pins bp)(p := 1)"
    using ne fr f(1) by (auto simp: pins_def fun_eq_iff split: option.splits)
  show "pool_page (InstallPage p f data bp) = (pool_page bp)(p \<mapsto> data)"
    using ne fr f(1) by (auto simp: pool_page_def fun_eq_iff split: option.splits)
  assume c: "coherent X bp" "disk_page (pool_disk bp) p = Some data"
  show "coherent X (InstallPage p f data bp)"
    unfolding coherent_def
  proof (intro allI impI, elim conjE)
    fix q g
    assume q: "page_table (InstallPage p f data bp) q = Some g" "q \<notin> X"
      "\<not> is_dirty (frame_of (InstallPage p f data bp) g)"
    show "disk_page (pool_disk (InstallPage p f data bp)) q =
        Some (page_data (frame_of (InstallPage p f data bp) g))"
    proof (cases "q = p")
      case True
      then show ?thesis using q(1) c(2) fr f(1) by simp
    next
      case False
      then have "page_table bp q = Some g" using q(1) by simp
      then show ?thesis using ne[of q g] q(2,3) fr[of g] c(1) by (simp add: coherent_def)
    qed
  qed
qed

text \<open>The two first steps of a miss: a frame is taken, a page is read.\<close>

definition taken_ok :: "page_id set \<Rightarrow> pool \<Rightarrow> frame_id \<Rightarrow> bool \<Rightarrow> bool" where
  "taken_ok X bp f c \<longleftrightarrow> taken bp f c \<and> coherent X bp \<and> held X bp"

lemma TakeFrame_ok:
  assumes "pool_ok X bp" "TakeFrame bp = (bp', Some (f, c))"
  shows "taken_ok X bp' f c \<and> same_pages bp bp' \<and> pins bp' = pins bp \<and> pages bp' = pages bp \<and>
    page_table bp' = page_table bp \<and> pool_disk bp' = pool_disk bp"
proof -
  have inv: "pool_inv bp" and coh: "coherent X bp" and hd: "held X bp"
    using assms(1) by (simp_all add: pool_ok_def)
  note T = TakeFrame_Some[OF inv assms(2)]
  have fr: "frame_of bp' g = frame_of bp g" for g using T by (simp add: frame_of_def)
  have "coherent X bp'" using coh T fr by (simp add: coherent_def)
  moreover have pins: "pins bp' = pins bp" using T pins_cong by blast
  moreover have "pool_page bp' = pool_page bp"
    using T fr by (auto simp: pool_page_def fun_eq_iff split: option.splits)
  moreover have "held X bp'" using hd pins by (simp add: held_def)
  ultimately show ?thesis using T by (simp add: taken_ok_def same_pages_def)
qed

lemma pool_disk_read:
  assumes "ReadPage p buf (pool_disk bp) = (d, buf', st)"
  shows "coherent X (bp\<lparr>pool_disk := d\<rparr>) = coherent X bp" "same_pages bp (bp\<lparr>pool_disk := d\<rparr>)"
    "disk_page d = disk_page (pool_disk bp)" "disk_inv d = disk_inv (pool_disk bp)"
    "free_zero d = free_zero (pool_disk bp)"
proof -
  note R = ReadPage_frame[OF assms]
  show dp: "disk_page d = disk_page (pool_disk bp)" using R by (intro disk_page_cong) simp_all
  show "disk_inv d = disk_inv (pool_disk bp)" using R by (simp add: disk_inv_def)
  show "free_zero d = free_zero (pool_disk bp)" using R dp unfolding free_zero_def by metis
  show "coherent X (bp\<lparr>pool_disk := d\<rparr>) = coherent X bp" using dp by (simp add: coherent_def)
  show "same_pages bp (bp\<lparr>pool_disk := d\<rparr>)"
    using R dp by (auto simp: same_pages_def pool_page_def fun_eq_iff split: option.splits)
qed

lemma taken_read:
  assumes "taken_ok X bp f c" "ReadPage p buf (pool_disk bp) = (d, buf', st)"
  shows "taken_ok X (bp\<lparr>pool_disk := d\<rparr>) f c"
proof -
  have "pool_wf bp (if c then {} else {f}) (if c then {f} else {})"
    using assms(1) taken_wf by (simp add: taken_ok_def)
  then have "disk_inv (pool_disk bp)" "free_zero (pool_disk bp)" by (simp_all add: pool_wf_def)
  moreover have "taken bp f c" using assms(1) by (simp add: taken_ok_def)
  ultimately have "taken (bp\<lparr>pool_disk := d\<rparr>) f c"
    using ReadPage_frame[OF assms(2)] pool_disk_read(4,5)[OF assms(2)]
    by (elim taken_cong) simp_all
  then show ?thesis
    using assms(1) pool_disk_read(1)[OF assms(2)] by (simp add: taken_ok_def held_def)
qed

lemma taken_ok_stats [simp]: "taken_ok X (bp\<lparr>disk_reads := n\<rparr>) f c = taken_ok X bp f c"
  by (simp add: taken_ok_def taken_def held_def)

lemma GiveBack_ok:
  assumes "taken_ok X bp f c"
  shows "pool_ok X (GiveBack f c bp) \<and> same_pages bp (GiveBack f c bp) \<and> pins (GiveBack f c bp) = pins bp"
proof -
  have "pins (GiveBack f c bp) = pins bp" by (simp add: GiveBack_def)
  then show ?thesis
    using GiveBack_inv[of bp f c] assms by (simp add: taken_ok_def pool_ok_def held_def same_pages_def)
qed

lemma EvictWrite_fail_ok:
  assumes "taken_ok X bp f c" "EvictWrite f c bp = (bp1, False)"
  defines "bp' \<equiv> bp1\<lparr>replacer := Clock_Unpin f (replacer bp1)\<rparr>"
  shows "pool_ok X bp' \<and> same_pages bp bp' \<and> pins bp' = pins bp"
proof -
  have "c = False" using assms(2) by (auto simp: EvictWrite_def split: if_splits)
  moreover have E: "taken bp1 f c" "coherent X bp1" "same_pages bp bp1" "pins bp1 = pins bp"
    using EvictWrite_spec[of bp f c X bp1 False] assms(1,2) pins_cong[of bp1 bp] by (simp_all add: taken_ok_def)
  moreover have "held X bp1" using assms(1) E(4) by (simp add: taken_ok_def held_def)
  ultimately show ?thesis
    using evict_fail[of bp1 f X] by (simp add: bp'_def same_pages_def)
qed

text \<open>The last step of a miss: the page goes into the frame.\<close>

lemma install_ok:
  assumes "taken_ok X bp f c" "EvictWrite f c bp = (bp1, True)" "page_table bp p = None" "0 \<le> p"
    "p \<notin> free_pages (pool_disk bp)" "disk_page (pool_disk bp) p = Some data"
  defines "bp' \<equiv> InstallPage p f data (if c then bp1 else ErasePage (page_pid (frame_of bp f)) bp1)"
  shows "pool_ok X bp' \<and> same_pages bp bp' \<and> pins bp' = (pins bp)(p := 1) \<and> page_table bp' p = Some f"
proof -
  define b5 where "b5 = (if c then bp1 else ErasePage (page_pid (frame_of bp f)) bp1)"
  have E: "pool_wf b5 {} {f}" "coherent X b5" "same_pages bp b5" "pins b5 = pins bp" "page_table b5 p = None"
    using evict_ok[of bp f c X bp1] assms(1-3) by (simp_all add: b5_def taken_ok_def)
  have pp: "pool_page bp p = Some data" using assms(3,6) by (simp add: pool_page_def)
  then have "pool_page b5 p = Some data" using E(3) by (simp add: same_pages_def)
  then have d5: "disk_page (pool_disk b5) p = Some data" using E(5) by (simp add: pool_page_def)
  have len: "length data = PAGE_SIZE"
    using disk_page_length[OF _ d5] E(1) by (simp add: pool_wf_def)
  have pn: "p < num_pages (pool_disk b5)" using d5 by (auto simp: disk_page_def split: if_splits)
  have pf: "p \<notin> free_pages (pool_disk b5)" using E(3) assms(5) by (simp add: same_pages_def)
  have I: "pool_inv bp'" "pins bp' = (pins bp)(p := 1)" "pool_page bp' = (pool_page b5)(p \<mapsto> data)"
    "coherent X bp'"
    unfolding bp'_def b5_def[symmetric]
    using InstallPage_inv[OF E(1,5) assms(4) pn pf len] InstallPage_pins[OF E(1,5) len] E(2,4) d5 by auto
  have "pool_page bp' = pool_page bp"
    using I(3) E(3) pp by (simp add: same_pages_def fun_upd_idem)
  moreover have "held X bp'" using assms(1) I(2) by (auto simp: held_def taken_ok_def)
  ultimately show ?thesis
    using I E(3) by (simp add: pool_ok_def same_pages_def bp'_def b5_def[symmetric])
qed

text \<open>What a fetch guarantees; the client must not address a page on the disk's free list.\<close>

lemma FetchPage_miss:
  assumes "pool_ok X bp" "page_table bp p = None" "0 \<le> p" "p \<notin> free_pages (pool_disk bp)"
    "FetchPage p bp = (bp', r)"
  shows "pool_ok X bp' \<and> same_pages bp bp' \<and>
    (case r of None \<Rightarrow> pins bp' = pins bp
     | Some f \<Rightarrow> pins bp' = (pins bp)(p := 1) \<and> page_table bp' p = Some f)"
proof -
  define b0 where "b0 = bp\<lparr>buffer_misses := buffer_misses bp + 1\<rparr>"
  have ok0: "pool_ok X b0" "same_pages bp b0" "pins b0 = pins bp" "page_table b0 = page_table bp"
    "pool_disk b0 = pool_disk bp"
    using assms(1) by (simp_all add: pool_ok_def b0_def pool_inv_def held_def same_pages_def)
  note F = assms(5)[unfolded FetchPage_miss_eq[OF assms(2,3)], folded b0_def]
  obtain b1 t where tk: "TakeFrame b0 = (b1, t)" by (cases "TakeFrame b0")
  show ?thesis
  proof (cases t)
    case None
    have "b1 = b0" using TakeFrame_None[of b0 b1] tk None ok0(1) by (simp add: pool_ok_def)
    then show ?thesis using F tk None ok0 by simp
  next
    case (Some fc)
    then obtain f c where fc: "t = Some (f, c)" by (cases fc) auto
    note T = TakeFrame_ok[OF ok0(1) tk[unfolded fc]]
    obtain d buf st where rd: "ReadPage p (Some zero_page) (pool_disk b1) = (d, buf, st)"
      by (cases "ReadPage p (Some zero_page) (pool_disk b1)")
    define b2 where "b2 = b1\<lparr>pool_disk := d\<rparr>"
    have tk2: "taken_ok X b2 f c" using taken_read[OF _ rd] T by (simp add: b2_def)
    have s2: "same_pages bp b2" "pins b2 = pins bp" "page_table b2 = page_table bp"
      using same_pages_trans[OF ok0(2) same_pages_trans[of b0 b1 b2]] T pool_disk_read(2)[OF rd] ok0
      by (simp_all add: b2_def)
    show ?thesis
    proof (cases "status_ok st")
      case False
      then show ?thesis
        using F tk fc rd GiveBack_ok[OF tk2] s2 same_pages_trans[OF s2(1)] by (simp add: b2_def)
    next
      case True
      define b3 where "b3 = b2\<lparr>disk_reads := disk_reads b1 + 1\<rparr>"
      have b3: "taken_ok X b3 f c" "same_pages bp b3" "pins b3 = pins bp" "page_table b3 p = None"
        "pool_disk b3 = d" "frame_of b3 f = frame_of b1 f"
        using tk2 s2 assms(2) by (simp_all add: b3_def b2_def same_pages_def)
      obtain b4 ok where ev: "EvictWrite f c b3 = (b4, ok)" by (cases "EvictWrite f c b3")
      have bp': "(bp', r) = (if ok then (InstallPage p f (the buf)
            (if c then b4 else ErasePage (page_pid (frame_of b3 f)) b4), Some f)
          else (b4\<lparr>replacer := Clock_Unpin f (replacer b4)\<rparr>, None))"
        using F tk fc rd True ev b3(6) by (cases ok) (auto simp: b2_def b3_def)
      have dat: "disk_page (pool_disk b3) p = Some (the buf)"
        using ReadPage_ok[OF rd _ True] pool_disk_read(3)[OF rd] b3(5) by auto
      have fp: "p \<notin> free_pages (pool_disk b3)" using assms(4) b3(2) by (simp add: same_pages_def)
      show ?thesis
      proof (cases ok)
        case False
        then show ?thesis
          using bp' EvictWrite_fail_ok[OF b3(1), of b4] ev same_pages_trans[OF b3(2)] b3(3) by simp
      next
        case okT: True
        then show ?thesis
          using bp' install_ok[OF b3(1) _ b3(4) assms(3) fp dat, of b4] ev same_pages_trans[OF b3(2)] b3(3)
          by simp
      qed
    qed
  qed
qed

lemma FetchPage_spec:
  assumes "pool_ok X bp" "p \<notin> free_pages (pool_disk bp)" "FetchPage p bp = (bp', r)"
  shows "pool_ok X bp' \<and> same_pages bp bp' \<and>
    (case r of None \<Rightarrow> pins bp' = pins bp
     | Some f \<Rightarrow> pins bp' = (pins bp)(p := pins bp p + 1) \<and> page_table bp' p = Some f)"
proof (cases "p < 0")
  case True
  then show ?thesis using assms(1,3) by (auto simp: FetchPage_def)
next
  case False
  show ?thesis
  proof (cases "page_table bp p")
    case None
    then have "pins bp p = 0" by (simp add: pins_def)
    then show ?thesis using FetchPage_miss[OF assms(1) None _ assms(2,3)] False by (simp split: option.splits)
  next
    case (Some f)
    then show ?thesis using FetchPage_hit[OF assms(1) Some assms(3)] by simp
  qed
qed

lemma pool_wf_same_replacer:
  "r = replacer bp \<Longrightarrow> pool_wf (bp\<lparr>replacer := r\<rparr>) H L = pool_wf bp H L"
  by (simp add: pool_wf_def)

text \<open>Unpinning. A client that passes \<open>False\<close> must not have modified the page.\<close>

lemma UnpinPage_spec:
  assumes "pool_ok X bp" "UnpinPage p dirty bp = (bp', ok)" "pins bp p = 1 \<longrightarrow> p \<notin> X \<or> dirty"
  shows "pool_ok (if dirty then X - {p} else X) bp' \<and> same_pages bp bp' \<and> ok = (0 < pins bp p) \<and>
    pins bp' = (if ok then (pins bp)(p := pins bp p - 1) else pins bp)"
proof (cases "0 < pins bp p")
  case False
  then have "bp' = bp" "ok = False"
    using assms(2) by (auto simp: UnpinPage_def pins_def Let_def split: option.splits if_splits)
  moreover have "p \<notin> X" using assms(1) False by (auto simp: pool_ok_def held_def)
  ultimately show ?thesis using assms(1) False by simp
next
  case True
  then obtain f where t: "page_table bp p = Some f" by (auto simp: pins_def split: option.splits)
  have wf: "pool_wf bp {} {}" and coh: "coherent X bp" and hd: "held X bp"
    using assms(1) by (simp_all add: pool_ok_def pool_inv_def)
  note tf = pool_wf_table[OF wf t]
  define n where "n = pins bp p - 1"
  have n: "pin_count (frame_of bp f) = n + 1" "0 \<le> n" using t True by (simp_all add: pins_def n_def)
  let ?pg = "(frame_of bp f)\<lparr>pin_count := n, is_dirty := is_dirty (frame_of bp f) \<or> dirty\<rparr>"
  let ?r = "if n = 0 then Clock_Unpin f (replacer bp) else replacer bp"
  define br where "br = bp\<lparr>replacer := ?r\<rparr>"
  have b: "bp' = (set_frame f ?pg bp)\<lparr>replacer := ?r\<rparr>" "ok = True"
    using assms(2) t n by (auto simp: UnpinPage_def Let_def)
  have c: "clock_cand (Clock_Unpin f (replacer bp)) = insert f (clock_cand (replacer bp))"
    "clock_inv (Clock_Unpin f (replacer bp))"
    "length (in_replacer (Clock_Unpin f (replacer bp))) = length (pages bp)"
    using clock.unpin_law[of "replacer bp" f] wf tf(1) by (simp_all add: pool_wf_def valid_frame_def)
  have nc: "f \<notin> clock_cand (replacer bp)" using wf n by (auto simp: pool_wf_def)
  have "pool_wf (set_frame f ?pg bp) {f} {}"
    by (rule set_frame_wf[OF wf t _ _ _ _ refl]) (use tf n nc in auto)
  have fr: "frame_of (set_frame f ?pg bp) f = ?pg" "mapped (set_frame f ?pg bp) f"
    using tf by (simp_all add: mapped_def)
  have "pool_inv bp'"
  proof (cases "n = 0")
    case True
    show ?thesis
      using \<open>pool_wf (set_frame f ?pg bp) {f} {}\<close> c fr True b(1) tf(1) nc
      by (auto simp: pool_inv_def pool_wf_def)
  next
    case False
    have "pool_wf (set_frame f ?pg bp) {} {}"
      by (rule set_frame_wf[OF wf t _ _ _ _ refl]) (use tf n nc False in auto)
    then show ?thesis using b(1) False by (simp add: pool_inv_def pool_wf_same_replacer)
  qed
  moreover have pins: "pins bp' = (pins bp)(p := pins bp p - 1)"
    using b pool_page_set_frame(2)[OF wf t, of ?pg] by (simp add: n_def)
  moreover have "pool_page bp' = pool_page bp"
    using b pool_page_set_frame(1)[OF wf t, of ?pg] t by (auto simp: pool_page_def fun_eq_iff)
  moreover have "coherent (if dirty then X - {p} else X) bp'"
  proof -
    have "coherent (if dirty then X - {p} else X) (set_frame f ?pg bp)"
      by (rule coherent_set_frame[OF wf t coh]) (use coh t in \<open>auto simp: coherent_def\<close>)
    then show ?thesis using b by simp
  qed
  moreover have "held (if dirty then X - {p} else X) bp'"
    unfolding held_def
  proof
    fix q assume q: "q \<in> (if dirty then X - {p} else X)"
    then have "0 < pins bp q" using hd by (auto simp: held_def split: if_splits)
    moreover have "q = p \<Longrightarrow> pins bp p \<noteq> 1" using q assms(3) by (auto split: if_splits)
    ultimately show "0 < pins bp' q" using pins by auto
  qed
  ultimately show ?thesis using b True by (simp add: pool_ok_def same_pages_def)
qed

lemma WriteFrame_same:
  assumes "pool_wf bp H L" "page_table bp p = Some f" "WriteFrame p f bp = (bp', ok)"
  shows "num_pages (pool_disk bp') = num_pages (pool_disk bp)"
proof -
  note t = pool_wf_table[OF assms(1,2)]
  show ?thesis
    using assms(3) WritePage_frame[of p "page_data (frame_of bp f)" "pool_disk bp"] assms(1) t(4,7)
    by (auto simp: WriteFrame_def pool_wf_def split: prod.splits if_splits)
qed

lemma clean_after_write:
  assumes "pool_ok X bp" "page_table bp p = Some f" "is_dirty (frame_of bp f)"
    "WriteFrame p f bp = (b1, True)"
  defines "bp' \<equiv> set_frame f ((frame_of b1 f)\<lparr>is_dirty := False\<rparr>) b1"
  shows "pool_ok X bp' \<and> same_pages bp bp' \<and> pins bp' = pins bp \<and> page_table bp' = page_table bp \<and>
    disk_page (pool_disk bp') p = pool_page bp p"
proof -
  have wf: "pool_wf bp {} {}" and coh: "coherent X bp" and hd: "held X bp"
    using assms(1) by (simp_all add: pool_ok_def pool_inv_def)
  note w = WriteFrame_spec[OF wf assms(2,4), of X]
  have fr: "frame_of b1 g = frame_of bp g" for g using w by (simp add: frame_of_def)
  have wf1: "pool_wf b1 {} {}" and t1: "page_table b1 p = Some f" and coh1: "coherent X b1"
    using w assms(2,3) coh by simp_all
  note tf = pool_wf_table[OF wf1 t1]
  let ?pg = "(frame_of b1 f)\<lparr>is_dirty := False\<rparr>"
  have cand: "f \<in> clock_cand (replacer b1) \<longleftrightarrow> pin_count (frame_of b1 f) = 0"
    using wf1 tf(1,6) by (simp add: pool_wf_def)
  have "pool_inv bp'"
    unfolding pool_inv_def bp'_def
    by (rule set_frame_wf[OF wf1 t1 _ _ _ _ refl]) (use tf cand in auto)
  moreover have dp: "disk_page (pool_disk b1) p = Some (page_data (frame_of bp f))" using w by simp
  moreover have "coherent X bp'"
    unfolding bp'_def by (rule coherent_set_frame[OF wf1 t1 coh1]) (use dp fr in auto)
  moreover have pins: "pins bp' = pins bp"
  proof -
    have "pins bp' = (pins b1)(p := pins b1 p)"
      using pool_page_set_frame(2)[OF wf1 t1, of ?pg] t1 by (simp add: bp'_def pins_def[of b1 p])
    then show ?thesis using w pins_cong[of b1 bp] by simp
  qed
  moreover have "pool_page bp' = pool_page bp"
  proof -
    have "pool_page bp' = (pool_page b1)(p \<mapsto> page_data (frame_of b1 f))"
      using pool_page_set_frame(1)[OF wf1 t1, of ?pg] by (simp add: bp'_def)
    also have "\<dots> = pool_page b1" using t1 by (auto simp: pool_page_def fun_eq_iff)
    finally show ?thesis using w by simp
  qed
  moreover have "held X bp'" using hd pins by (simp add: held_def)
  ultimately show ?thesis
    using w WriteFrame_same[OF wf assms(2,4)] assms(2)
    by (simp add: pool_ok_def same_pages_def bp'_def pool_page_def)
qed

lemma write_failed_ok:
  assumes "pool_ok X bp" "page_table bp p = Some f" "is_dirty (frame_of bp f)"
    "WriteFrame p f bp = (bp', ok)"
  shows "pool_ok X bp' \<and> same_pages bp bp' \<and> pins bp' = pins bp \<and> page_table bp' = page_table bp"
proof -
  have wf: "pool_wf bp {} {}" using assms(1) by (simp add: pool_ok_def pool_inv_def)
  note w = WriteFrame_spec[OF wf assms(2,4), of X]
  have "pins bp' = pins bp" using w pins_cong by blast
  then show ?thesis
    using w WriteFrame_same[OF wf assms(2,4)] assms(1,3)
    by (simp add: pool_ok_def pool_inv_def held_def same_pages_def)
qed

lemma FlushPage_spec:
  assumes "pool_ok X bp" "FlushPage p bp = (bp', ok)"
  shows "pool_ok X bp' \<and> same_pages bp bp' \<and> pins bp' = pins bp \<and> page_table bp' = page_table bp \<and>
    (ok \<longrightarrow> p \<notin> X \<longrightarrow> disk_page (pool_disk bp') p = pool_page bp p)"
proof (cases "page_table bp p")
  case None
  then show ?thesis using assms by (auto simp: FlushPage_def)
next
  case (Some f)
  show ?thesis
  proof (cases "is_dirty (frame_of bp f)")
    case False
    then have "bp' = bp" using assms(2) Some by (simp add: FlushPage_def)
    then show ?thesis using assms(1) Some False by (simp add: pool_ok_def coherent_def pool_page_def)
  next
    case True
    obtain b1 k where w: "WriteFrame p f bp = (b1, k)" by (cases "WriteFrame p f bp")
    show ?thesis
      using assms(2) Some True w write_failed_ok[OF assms(1) Some True w]
        clean_after_write[OF assms(1) Some True, of b1]
      by (cases k) (auto simp: FlushPage_def)
  qed
qed

lemma FlushStep_eq: "page_table bp p \<noteq> None \<Longrightarrow> FlushStep p bp = fst (FlushPage p bp)"
  by (auto simp: FlushStep_def FlushPage_def Let_def split: prod.splits bool.splits)

lemma FlushAllPages_spec:
  assumes "pool_ok X bp" "set order \<subseteq> dom (page_table bp)"
  shows "pool_ok X (FlushAllPages order bp) \<and> same_pages bp (FlushAllPages order bp) \<and>
    pins (FlushAllPages order bp) = pins bp \<and> page_table (FlushAllPages order bp) = page_table bp"
  using assms unfolding FlushAllPages_def
proof (induction order arbitrary: bp)
  case (Cons p order)
  have "page_table bp p \<noteq> None" using Cons.prems(2) by auto
  then obtain b1 ok where b1: "FlushPage p bp = (b1, ok)" "FlushStep p bp = b1"
    using FlushStep_eq by (cases "FlushPage p bp") force
  note f = FlushPage_spec[OF Cons.prems(1) b1(1)]
  have "set order \<subseteq> dom (page_table b1)" using f Cons.prems(2) by auto
  then show ?case using Cons.IH[of b1] f b1(2) same_pages_trans[of bp b1] by auto
qed simp

text \<open>A new page is the disk's allocation target, a page of zeros pinned once.\<close>

lemma NewPage_eq:
  "NewPage bp = (case TakeFrame bp of
      (bp, None) \<Rightarrow> (bp, None)
    | (bp, Some (f, c)) \<Rightarrow> (case EvictWrite f c bp of
          (bp1, False) \<Rightarrow> (bp1\<lparr>replacer := Clock_Unpin f (replacer bp1)\<rparr>, None)
        | (bp1, True) \<Rightarrow> (case AllocatePage (pool_disk bp1) of (d, p) \<Rightarrow>
            if p = INVALID_PAGE_ID then (GiveBack f c (bp1\<lparr>pool_disk := d\<rparr>), None)
            else (InstallPage p f zero_page
              (if c then bp1\<lparr>pool_disk := d, disk_writes := disk_writes bp1 + 1\<rparr>
               else ErasePage (page_pid (frame_of bp f)) (bp1\<lparr>pool_disk := d, disk_writes := disk_writes bp1 + 1\<rparr>)),
              Some (p, f)))))"
  by (auto simp: NewPage_def Let_def EvictWrite_def split: option.splits prod.splits bool.splits)

lemma alloc_fresh:
  assumes "pool_wf bp H L" "AllocatePage (pool_disk bp) = (d, p)" "p \<noteq> INVALID_PAGE_ID"
  shows "page_table bp p = None \<and> 0 \<le> p \<and> p < num_pages d \<and> p \<notin> free_pages d \<and>
    disk_page d p = Some zero_page \<and> (\<forall>q. q \<noteq> p \<longrightarrow> disk_page d q = disk_page (pool_disk bp) q) \<and>
    num_pages (pool_disk bp) \<le> num_pages d \<and> free_pages d = free_pages (pool_disk bp) - {p} \<and>
    disk_inv d \<and> free_zero d \<and> (p \<in> free_pages (pool_disk bp) \<or> p = num_pages (pool_disk bp))"
proof -
  have inv: "disk_inv (pool_disk bp)" "free_zero (pool_disk bp)" using assms(1) by (simp_all add: pool_wf_def)
  note A = AllocatePage_spec[OF assms(2) inv(1)] and tb = alloc_target_bounds[OF inv(1)]
  have p: "p = alloc_target (pool_disk bp)" using A assms(3) by auto
  have fr: "p \<in> free_pages (pool_disk bp) \<or> p = num_pages (pool_disk bp)" using p tb(3,4) by blast
  have "page_table bp p \<noteq> Some f" for f
    using pool_wf_table(4,5)[OF assms(1), of p f] fr by auto
  then have "page_table bp p = None" by (cases "page_table bp p") auto
  then show ?thesis
    using A p fr tb(1,2) assms(3) free_zero_alloc[OF assms(2) inv] by auto
qed

text \<open>The pool with a disk on which one unmapped page has changed.\<close>

lemma pool_wf_alloc:
  assumes "pool_wf bp H L" "disk_inv d" "free_zero d" "num_pages (pool_disk bp) \<le> num_pages d"
    "free_pages d \<subseteq> free_pages (pool_disk bp)"
  shows "pool_wf (bp\<lparr>pool_disk := d\<rparr>) H L"
proof -
  have "valid_frame bp f \<and> page_pid (frame_of bp f) = p \<and> 0 \<le> p \<and> p < num_pages d \<and> p \<notin> free_pages d"
    if "page_table bp p = Some f" for p f
    using pool_wf_table(1-5)[OF assms(1) that] assms(4,5) by auto
  then show ?thesis using assms unfolding pool_wf_def by simp
qed

lemma ErasePage_disk:
  "ErasePage p (bp\<lparr>pool_disk := d, disk_writes := n\<rparr>) = (ErasePage p bp)\<lparr>pool_disk := d, disk_writes := n\<rparr>"
  by (simp add: ErasePage_def)

lemma NewPage_install:
  assumes "taken_ok X bp f c" "EvictWrite f c bp = (bp1, True)"
    "AllocatePage (pool_disk bp1) = (d, p)" "p \<noteq> INVALID_PAGE_ID"
  defines "bp' \<equiv> InstallPage p f zero_page
      (if c then bp1\<lparr>pool_disk := d, disk_writes := disk_writes bp1 + 1\<rparr>
       else ErasePage (page_pid (frame_of bp f)) (bp1\<lparr>pool_disk := d, disk_writes := disk_writes bp1 + 1\<rparr>))"
  shows "pool_ok X bp' \<and> pool_page bp' = (pool_page bp)(p \<mapsto> zero_page) \<and> pins bp' = (pins bp)(p := 1) \<and>
    page_table bp' p = Some f \<and> 1 \<le> p \<and> (p \<in> free_pages (pool_disk bp) \<or> p = num_pages (pool_disk bp)) \<and>
    free_pages (pool_disk bp') = free_pages (pool_disk bp) - {p} \<and>
    num_pages (pool_disk bp) \<le> num_pages (pool_disk bp') \<and>
    length (pages bp') = length (pages bp) \<and> pins bp p = 0"
proof -
  define b5 where "b5 = (if c then bp1 else ErasePage (page_pid (frame_of bp f)) bp1)"
  have E: "pool_wf b5 {} {f}" "coherent X b5" "same_pages bp b5" "pins b5 = pins bp" "pool_disk b5 = pool_disk bp1"
    using evict_ok[of bp f c X bp1] assms(1,2) by (simp_all add: b5_def taken_ok_def ErasePage_def)
  have al: "AllocatePage (pool_disk b5) = (d, p)" using assms(3) E(5) by simp
  note A = alloc_fresh[OF E(1) al assms(4)]
  define b6 where "b6 = b5\<lparr>pool_disk := d\<rparr>"
  have wf6: "pool_wf b6 {} {f}" unfolding b6_def using A by (intro pool_wf_alloc[OF E(1)]) auto
  have coh6: "coherent X b6"
    unfolding coherent_def
  proof (intro allI impI, elim conjE)
    fix q g assume q: "page_table b6 q = Some g" "q \<notin> X" "\<not> is_dirty (frame_of b6 g)"
    then have "q \<noteq> p" using A by (auto simp: b6_def)
    then show "disk_page (pool_disk b6) q = Some (page_data (frame_of b6 g))"
      using q E(2) A by (simp add: b6_def coherent_def)
  qed
  have page6: "pool_page b6 = (pool_page bp)(p \<mapsto> zero_page)"
  proof
    fix q
    have "q \<noteq> p \<Longrightarrow> pool_page b6 q = pool_page b5 q"
      using A by (auto simp: b6_def pool_page_def split: option.splits)
    moreover have "pool_page b6 p = Some zero_page" using A by (simp add: b6_def pool_page_def)
    ultimately show "pool_page b6 q = ((pool_page bp)(p \<mapsto> zero_page)) q"
      using E(3) by (simp add: same_pages_def)
  qed
  have t6: "page_table b6 p = None" and pf6: "0 \<le> p" "p < num_pages (pool_disk b6)"
    "p \<notin> free_pages (pool_disk b6)" and d6: "disk_page (pool_disk b6) p = Some zero_page"
    using A by (simp_all add: b6_def)
  have b': "bp' = (InstallPage p f zero_page (b6\<lparr>disk_writes := disk_writes bp1 + 1\<rparr>))"
    by (simp add: bp'_def b6_def b5_def ErasePage_disk)
  let ?b7 = "b6\<lparr>disk_writes := disk_writes bp1 + 1\<rparr>"
  have I: "pool_inv bp'" "pins bp' = (pins bp)(p := 1)" "pool_page bp' = (pool_page bp)(p \<mapsto> zero_page)"
    "coherent X bp'"
    unfolding b' using InstallPage_inv[of ?b7 f p zero_page] InstallPage_pins[of ?b7 f p zero_page]
      wf6 t6 pf6 d6 coh6 page6 E(4) by (simp_all add: b6_def)
  have "held X bp'" using assms(1) I(2) by (auto simp: held_def taken_ok_def)
  moreover have "pins bp p = 0" using E(4) t6 by (metis pins_def option.simps(4) pins_update(3) b6_def)
  moreover have "1 \<le> p" using A E(1) by (auto simp: pool_wf_def disk_inv_def)
  ultimately show ?thesis
    using I A E(3) by (auto simp: pool_ok_def b' b6_def same_pages_def)
qed

lemma same_pages_disk:
  assumes "disk_page d = disk_page (pool_disk bp)" "num_pages d = num_pages (pool_disk bp)"
    "free_pages d = free_pages (pool_disk bp)"
  shows "same_pages bp (bp\<lparr>pool_disk := d\<rparr>)"
  using assms by (auto simp: same_pages_def pool_page_def fun_eq_iff split: option.splits)

lemma NewPage_alloc_fail:
  assumes "taken_ok X bp f c" "AllocatePage (pool_disk bp) = (d, INVALID_PAGE_ID)"
  shows "taken_ok X (bp\<lparr>pool_disk := d\<rparr>) f c" "same_pages bp (bp\<lparr>pool_disk := d\<rparr>)"
proof -
  have "pool_wf bp (if c then {} else {f}) (if c then {f} else {})"
    using assms(1) taken_wf by (simp add: taken_ok_def)
  then have inv: "disk_inv (pool_disk bp)" "free_zero (pool_disk bp)" by (simp_all add: pool_wf_def)
  have A: "disk_inv d" "free_pages d = free_pages (pool_disk bp)" "num_pages d = num_pages (pool_disk bp)"
    "disk_page d = disk_page (pool_disk bp)"
    using AllocatePage_spec[OF assms(2) inv(1)] inv(2) alloc_target_bounds(1)[OF inv(1)]
    by (auto simp: layout_simps)
  have fz: "free_zero d" using inv(2) A(2,4) unfolding free_zero_def by metis
  show "same_pages bp (bp\<lparr>pool_disk := d\<rparr>)" using A by (intro same_pages_disk)
  have "taken bp f c" using assms(1) by (simp add: taken_ok_def)
  then have "taken (bp\<lparr>pool_disk := d\<rparr>) f c" using A fz by (elim taken_cong) simp_all
  then show "taken_ok X (bp\<lparr>pool_disk := d\<rparr>) f c"
    using assms(1) A(4) by (simp add: taken_ok_def coherent_def held_def)
qed

lemma EvictWrite_ok:
  assumes "taken_ok X bp f c" "EvictWrite f c bp = (bp1, ok)"
  shows "taken_ok X bp1 f c \<and> same_pages bp bp1 \<and> pins bp1 = pins bp"
  using EvictWrite_spec[of bp f c X bp1 ok] assms pins_cong[of bp1 bp]
  by (simp add: taken_ok_def held_def)

lemma NewPage_spec:
  assumes "pool_ok X bp" "NewPage bp = (bp', r)"
  shows "pool_ok X bp' \<and> length (pages bp') = length (pages bp) \<and> (case r of
      None \<Rightarrow> same_pages bp bp' \<and> pins bp' = pins bp
    | Some (p, f) \<Rightarrow> pool_page bp' = (pool_page bp)(p \<mapsto> zero_page) \<and> pins bp' = (pins bp)(p := 1) \<and>
        pins bp p = 0 \<and> page_table bp' p = Some f \<and> 1 \<le> p \<and>
        (p \<in> free_pages (pool_disk bp) \<or> p = num_pages (pool_disk bp)) \<and>
        free_pages (pool_disk bp') = free_pages (pool_disk bp) - {p} \<and>
        num_pages (pool_disk bp) \<le> num_pages (pool_disk bp'))"
proof -
  obtain b1 t where tk: "TakeFrame bp = (b1, t)" by (cases "TakeFrame bp")
  show ?thesis
  proof (cases t)
    case None
    have "b1 = bp" using TakeFrame_None[of bp b1] tk None assms(1) by (simp add: pool_ok_def)
    then show ?thesis using assms tk None by (auto simp: NewPage_eq)
  next
    case (Some fc)
    then obtain f c where fc: "t = Some (f, c)" by (cases fc) auto
    note T = TakeFrame_ok[OF assms(1) tk[unfolded fc]]
    obtain b2 ok where ev: "EvictWrite f c b1 = (b2, ok)" by (cases "EvictWrite f c b1")
    obtain d p where al: "AllocatePage (pool_disk b2) = (d, p)" by (cases "AllocatePage (pool_disk b2)")
    show ?thesis
    proof (cases ok)
      case False
      then have "bp' = b2\<lparr>replacer := Clock_Unpin f (replacer b2)\<rparr>" "r = None"
        using assms(2) tk fc ev by (auto simp: NewPage_eq)
      then show ?thesis
        using EvictWrite_fail_ok[of X b1 f c b2] T ev False same_pages_trans[of bp b1]
        by (simp add: same_pages_def)
    next
      case True
      show ?thesis
      proof (cases "p = INVALID_PAGE_ID")
        case True
        let ?b3 = "b2\<lparr>pool_disk := d\<rparr>"
        have E: "taken_ok X b2 f c" "same_pages b1 b2" "pins b2 = pins b1"
          using EvictWrite_ok T ev by blast+
        note G = NewPage_alloc_fail[OF E(1) al[unfolded True]]
        have "bp' = GiveBack f c ?b3" "r = None"
          using assms(2) tk fc ev al \<open>ok\<close> True by (auto simp: NewPage_eq)
        moreover have "same_pages bp ?b3" using T E(2) G(2) same_pages_trans by blast
        ultimately show ?thesis
          using GiveBack_ok[OF G(1)] E(3) T same_pages_trans[of bp ?b3] by (simp add: same_pages_def)
      next
        case False
        then have "bp' = InstallPage p f zero_page
            (if c then b2\<lparr>pool_disk := d, disk_writes := disk_writes b2 + 1\<rparr>
             else ErasePage (page_pid (frame_of b1 f)) (b2\<lparr>pool_disk := d, disk_writes := disk_writes b2 + 1\<rparr>))"
          "r = Some (p, f)"
          using assms(2) tk fc ev al \<open>ok\<close> by (auto simp: NewPage_eq)
        then show ?thesis
          using NewPage_install[of X b1 f c b2 d p] T ev al \<open>ok\<close> False by (simp add: same_pages_def)
      qed
    qed
  qed
qed

text \<open>Deleting an unpinned page touches no other page; the page ends on the free list if the disk
  accepted the zeros.\<close>

lemma pool_wf_dealloc:
  assumes "pool_wf bp H L" "page_table bp p = None"
  shows "pool_wf (bp\<lparr>pool_disk := DeallocatePage p (pool_disk bp)\<rparr>) H L"
proof -
  have inv: "disk_inv (pool_disk bp)" "free_zero (pool_disk bp)" using assms(1) by (simp_all add: pool_wf_def)
  note D = DeallocatePage_spec[OF inv(1) refl, of p]
  have "valid_frame bp f \<and> page_pid (frame_of bp f) = q \<and> 0 \<le> q \<and>
      q < num_pages (DeallocatePage p (pool_disk bp)) \<and> q \<notin> free_pages (DeallocatePage p (pool_disk bp))"
    if "page_table bp q = Some f" for q f
    using pool_wf_table(1-5)[OF assms(1) that] D that assms(2) by auto
  then show ?thesis
    using assms(1) D free_zero_dealloc[OF inv, of p] unfolding pool_wf_def by simp
qed

lemma dealloc_ok:
  assumes "pool_ok X bp" "page_table bp p = None"
  defines "bp' \<equiv> bp\<lparr>pool_disk := DeallocatePage p (pool_disk bp)\<rparr>"
  shows "pool_ok X bp' \<and> pins bp' = pins bp \<and> (\<forall>q. q \<noteq> p \<longrightarrow> pool_page bp' q = pool_page bp q) \<and>
    num_pages (pool_disk bp') = num_pages (pool_disk bp) \<and>
    free_pages (pool_disk bp') \<subseteq> insert p (free_pages (pool_disk bp))"
proof -
  have wf: "pool_wf bp {} {}" using assms(1) by (simp add: pool_ok_def pool_inv_def)
  then have inv: "disk_inv (pool_disk bp)" by (simp add: pool_wf_def)
  note D = DeallocatePage_spec[OF inv refl, of p]
  have pg: "\<forall>q. q \<noteq> p \<longrightarrow> disk_page (DeallocatePage p (pool_disk bp)) q = disk_page (pool_disk bp) q"
    using D by blast
  have "coherent X bp'"
    unfolding coherent_def
  proof (intro allI impI, elim conjE)
    fix q g assume q: "page_table bp' q = Some g" "q \<notin> X" "\<not> is_dirty (frame_of bp' g)"
    then have "q \<noteq> p" using assms(2) by (auto simp: bp'_def)
    then show "disk_page (pool_disk bp') q = Some (page_data (frame_of bp' g))"
      using q assms(1) pg by (simp add: bp'_def pool_ok_def coherent_def)
  qed
  moreover have "pool_page bp' q = pool_page bp q" if "q \<noteq> p" for q
    using pg that by (auto simp: bp'_def pool_page_def split: option.splits)
  moreover have "pool_inv bp'" using pool_wf_dealloc[OF wf assms(2)] by (simp add: bp'_def pool_inv_def)
  ultimately show ?thesis
    using assms(1) D by (auto simp: bp'_def pool_ok_def held_def)
qed

lemma DeletePage_resident:
  assumes "pool_ok X bp" "page_table bp p = Some f" "pin_count (frame_of bp f) = 0"
  defines "b4 \<equiv> (set_frame f (ResetMemory (frame_of bp f))
      (ErasePage p (bp\<lparr>replacer := Clock_Pin f (replacer bp)\<rparr>)))\<lparr>free_list := free_list bp @ [f]\<rparr>"
  shows "pool_ok X b4 \<and> pins b4 = pins bp \<and> page_table b4 p = None \<and> pool_disk b4 = pool_disk bp \<and>
    (\<forall>q. q \<noteq> p \<longrightarrow> pool_page b4 q = pool_page bp q)"
proof -
  have wf: "pool_wf bp {} {}" and coh: "coherent X bp" and hd: "held X bp"
    using assms(1) by (simp_all add: pool_ok_def pool_inv_def)
  note tf = pool_wf_table[OF wf assms(2)]
  define br where "br = bp\<lparr>replacer := Clock_Pin f (replacer bp)\<rparr>"
  have c: "clock_cand (Clock_Pin f (replacer bp)) = clock_cand (replacer bp) - {f}"
    "clock_inv (Clock_Pin f (replacer bp))"
    "length (in_replacer (Clock_Pin f (replacer bp))) = length (pages bp)"
    using clock.pin_law[of "replacer bp" f] wf by (simp_all add: pool_wf_def)
  have wr: "pool_wf br {f} {}" using wf c by (auto simp: br_def pool_wf_def)
  define be where "be = ErasePage p br"
  have we: "pool_wf be {} {f}"
    using ErasePage_wf[OF wr] tf assms(3) by (simp add: be_def br_def)
  have v: "valid_frame be g = valid_frame bp g" "frame_of be g = frame_of bp g" for g
    by (simp_all add: be_def br_def ErasePage_def)
  have b4: "b4 = (set_frame f (ResetMemory (frame_of bp f)) be)\<lparr>free_list := free_list be @ [f]\<rparr>"
    by (simp add: b4_def be_def br_def ErasePage_def)
  have vf: "valid_frame be f" using v tf(1) by simp
  have tab: "page_table b4 = (page_table bp)(p := None)" by (simp add: b4 be_def br_def ErasePage_def)
  have fr: "frame_of b4 g = (if g = f then ResetMemory (frame_of bp f) else frame_of bp g)"
    if "valid_frame bp g" for g
    using frame_of_set_frame[OF vf, of g] that v by (simp add: b4)
  have ninv: "page_table bp INVALID_PAGE_ID = None"
    using pool_wf_table(3)[OF wf, of INVALID_PAGE_ID] by (cases "page_table bp INVALID_PAGE_ID") (auto simp: layout_simps)
  have mp: "mapped b4 g \<longleftrightarrow> mapped be g" if "valid_frame bp g" for g
  proof (cases "g = f")
    case True
    have "\<not> mapped be f" using we by (simp add: pool_wf_def)
    moreover have "page_table b4 INVALID_PAGE_ID \<noteq> Some f" using tab ninv by simp
    ultimately show ?thesis using True fr[OF that] by (simp add: mapped_def ResetMemory_def)
  next
    case False
    then show ?thesis using fr[OF that] v tab by (simp add: mapped_def be_def br_def ErasePage_def)
  qed
  have v4: "valid_frame b4 g = valid_frame bp g" for g by (simp add: b4 v)
  have ne: "g \<noteq> f \<and> valid_frame bp g \<and> page_table bp q = Some g" if "page_table b4 q = Some g" for q g
  proof -
    have q: "q \<noteq> p" "page_table bp q = Some g" using that tab by (auto split: if_splits)
    then show ?thesis using pool_table_inj[OF wf _ assms(2)] pool_wf_table(1)[OF wf q(2)] by blast
  qed
  have "pool_inv b4"
    unfolding pool_inv_def pool_wf_def
  proof (intro conjI)
    show "clock_cand (replacer b4) = {g. valid_frame b4 g \<and> mapped b4 g \<and> pin_count (frame_of b4 g) = 0} - {}"
      using we v v4 mp fr by (auto simp: pool_wf_def b4 split: if_splits)
    show "\<forall>g \<in> set (free_list b4) \<union> {}. valid_frame b4 g \<and> pin_count (frame_of b4 g) = 0 \<and> \<not> mapped b4 g"
      using we v v4 mp fr by (auto simp: pool_wf_def b4 ResetMemory_def)
    show "\<forall>g. valid_frame b4 g \<and> g \<notin> set (free_list b4) \<union> {} \<longrightarrow> mapped b4 g"
      using we v v4 mp by (auto simp: pool_wf_def b4)
    show "\<forall>q g. page_table b4 q = Some g \<longrightarrow> valid_frame b4 g \<and> page_pid (frame_of b4 g) = q \<and>
        0 \<le> q \<and> q < num_pages (pool_disk b4) \<and> q \<notin> free_pages (pool_disk b4)"
    proof (intro allI impI)
      fix q g assume q: "page_table b4 q = Some g"
      have dk: "pool_disk b4 = pool_disk bp" by (simp add: b4 be_def br_def ErasePage_def)
      show "valid_frame b4 g \<and> page_pid (frame_of b4 g) = q \<and> 0 \<le> q \<and> q < num_pages (pool_disk b4) \<and>
          q \<notin> free_pages (pool_disk b4)"
        using ne[OF q] pool_wf_table(1-5)[OF wf, of q g] fr[of g] v4 dk by simp
    qed
    show "\<forall>g. valid_frame b4 g \<longrightarrow> length (page_data (frame_of b4 g)) = PAGE_SIZE \<and> 0 \<le> pin_count (frame_of b4 g)"
      using wf v4 fr by (auto simp: pool_wf_def ResetMemory_def)
    show "distinct (free_list b4)" using we by (auto simp: pool_wf_def b4)
  qed (use we in \<open>auto simp: pool_wf_def b4\<close>)
  moreover have dk: "pool_disk b4 = pool_disk bp" by (simp add: b4 be_def br_def ErasePage_def)
  moreover have "coherent X b4"
    unfolding coherent_def
  proof (intro allI impI, elim conjE)
    fix q g assume q: "page_table b4 q = Some g" "q \<notin> X" "\<not> is_dirty (frame_of b4 g)"
    show "disk_page (pool_disk b4) q = Some (page_data (frame_of b4 g))"
      using ne[OF q(1)] q(2,3) fr[of g] coh dk by (simp add: coherent_def)
  qed
  moreover have "pool_page b4 q = pool_page bp q" if "q \<noteq> p" for q
    using ne[of q] fr tab that dk by (auto simp: pool_page_def split: option.splits)
  moreover have pins: "pins b4 = pins bp"
  proof
    show "pins b4 q = pins bp q" for q
      using ne[of q] fr tab assms(2,3) by (cases "q = p") (auto simp: pins_def split: option.splits)
  qed
  ultimately show ?thesis using hd tab by (simp add: pool_ok_def held_def)
qed

lemma DeletePage_spec:
  assumes "pool_ok X bp" "DeletePage p bp = (bp', ok)"
  shows "pool_ok X bp' \<and> pins bp' = pins bp \<and> (\<forall>q. q \<noteq> p \<longrightarrow> pool_page bp' q = pool_page bp q) \<and>
    ok = (p > HEADER_PAGE_ID \<and> pins bp p = 0) \<and> (\<not> ok \<longrightarrow> bp' = bp) \<and>
    free_pages (pool_disk bp') \<subseteq> insert p (free_pages (pool_disk bp))"
proof (cases "p \<le> HEADER_PAGE_ID")
  case True
  then show ?thesis using assms by (auto simp: DeletePage_def)
next
  case False
  show ?thesis
  proof (cases "page_table bp p")
    case None
    then show ?thesis using assms(2) False dealloc_ok[OF assms(1) None] 
      by (auto simp: DeletePage_def pins_def)
  next
    case (Some f)
    have nn: "0 \<le> pin_count (frame_of bp f)"
      using pool_wf_table(8)[of bp "{}" "{}" p f] assms(1) Some by (simp add: pool_ok_def pool_inv_def)
    show ?thesis
    proof (cases "pin_count (frame_of bp f) = 0")
      case True
      let ?b4 = "(set_frame f (ResetMemory (frame_of bp f))
          (ErasePage p (bp\<lparr>replacer := Clock_Pin f (replacer bp)\<rparr>)))\<lparr>free_list := free_list bp @ [f]\<rparr>"
      note R = DeletePage_resident[OF assms(1) Some True]
      have "bp' = ?b4\<lparr>pool_disk := DeallocatePage p (pool_disk ?b4)\<rparr>" "ok"
        using assms(2) False Some True
        by (auto simp: DeletePage_def Let_def ErasePage_def)
      then show ?thesis
        using R dealloc_ok[of X ?b4 p] False Some True by (auto simp: pins_def[of bp p])
    next
      case neq: False
      then show ?thesis using assms False Some nn by (auto simp: DeletePage_def pins_def)
    qed
  qed
qed

end
