(* ===== verification/Buffer_Pool_Properties.thy ===== *)
theory Buffer_Pool_Properties
  imports Buffer_Pool_Correct
begin

text \<open>
  The buffer pool against its abstract specification. The abstract state is the page contents and
  the pin counts; an operation of the pool, whatever the disk does underneath, is one step on it. The
  pool is then a page device in the sense of \<^verbatim>\<open>Disk_Manager\<close>: reading and writing through frames is
  indistinguishable from reading and writing pages.
\<close>

section \<open>Construction\<close>

lemma new_BufferPoolManager_ok:
  assumes "new_BufferPoolManager n (Some d) (Some r) = Inr bp" "disk_inv d" "free_zero d"
    "clock_inv r" "length (in_replacer r) = n" "clock_cand r = {}"
  shows "pool_ok {} bp \<and> pool_page bp = disk_page d \<and> pins bp = (\<lambda>_. 0) \<and> pool_disk bp = d \<and>
    length (pages bp) = n"
proof -
  have bp: "bp = \<lparr>pages = replicate n new_Page, page_table = Map.empty, free_list = map int [0..<n],
      replacer = r, pool_disk = d, buffer_hits = 0, buffer_misses = 0, disk_reads = 0, disk_writes = 0\<rparr>"
    using assms(1) by (auto simp: new_BufferPoolManager_def split: if_splits)
  have v: "valid_frame bp f \<longleftrightarrow> 0 \<le> f \<and> f < int n" for f by (simp add: bp valid_frame_def)
  have fl: "f \<in> set (free_list bp) \<longleftrightarrow> valid_frame bp f" for f
    by (auto simp: bp valid_frame_def image_iff intro!: bexI[of _ "nat f"])
  have fr: "frame_of bp f = new_Page" if "valid_frame bp f" for f
  proof -
    have "0 \<le> f" "f < int n" using that v[of f] by simp_all
    then have "nat f < n" by linarith
    then show ?thesis by (simp add: frame_of_def bp)
  qed
  have flds: "page_table bp = Map.empty" "replacer bp = r" "pool_disk bp = d" "length (pages bp) = n"
    "free_list bp = map int [0..<n]" by (simp_all add: bp)
  have nm: "\<not> mapped bp f" for f by (simp add: mapped_def flds(1))
  have "distinct (free_list bp)" by (simp add: flds(5) distinct_map)
  then have "pool_inv bp"
    unfolding pool_inv_def pool_wf_def
    using assms(2-6) fl fr nm flds(1-4) by (simp add: new_Page_def)
  then show ?thesis
    by (auto simp: pool_ok_def coherent_def held_def pool_page_def pins_def bp fun_eq_iff)
qed

section \<open>Operations and their abstract steps\<close>

text \<open>\<open>PoolWrite\<close> is a client's modification of a page it has pinned, which marks the frame dirty.\<close>

datatype pool_op =
    PoolFetch page_id
  | PoolUnpin page_id bool
  | PoolWrite page_id "byte list"
  | PoolFlush page_id
  | PoolNew
  | PoolDelete page_id

definition pool_write :: "page_id \<Rightarrow> byte list \<Rightarrow> pool \<Rightarrow> pool" where
  "pool_write p bs bp = (case page_table bp p of
     None \<Rightarrow> bp
   | Some f \<Rightarrow> set_frame f ((frame_of bp f)\<lparr>page_data := bs, is_dirty := True\<rparr>) bp)"

definition pool_step :: "pool_op \<Rightarrow> pool \<Rightarrow> pool" where
  "pool_step op bp = (case op of
     PoolFetch p \<Rightarrow> fst (FetchPage p bp)
   | PoolUnpin p dirty \<Rightarrow> fst (UnpinPage p dirty bp)
   | PoolWrite p bs \<Rightarrow> pool_write p bs bp
   | PoolFlush p \<Rightarrow> fst (FlushPage p bp)
   | PoolNew \<Rightarrow> fst (NewPage bp)
   | PoolDelete p \<Rightarrow> fst (DeletePage p bp))"

text \<open>What a client may do: address pages that are not free, write pages that it has pinned.\<close>

definition pool_op_ok :: "pool \<Rightarrow> pool_op \<Rightarrow> bool" where
  "pool_op_ok bp op = (case op of
     PoolFetch p \<Rightarrow> p \<notin> free_pages (pool_disk bp)
   | PoolWrite p bs \<Rightarrow> 0 < pins bp p \<and> length bs = PAGE_SIZE
   | _ \<Rightarrow> True)"

inductive pool_reachable :: "pool \<Rightarrow> pool \<Rightarrow> bool" for bp0 where
  start: "pool_reachable bp0 bp0"
| step: "pool_reachable bp0 bp \<Longrightarrow> pool_op_ok bp op \<Longrightarrow> pool_reachable bp0 (pool_step op bp)"

inductive_cases pool_reachableE: "pool_reachable bp0 bp"

text \<open>One step on the abstract state: contents and pins.\<close>

definition pool_spec_step ::
  "pool_op \<Rightarrow> (page_id \<Rightarrow> byte list option) \<times> (page_id \<Rightarrow> int) \<Rightarrow>
   (page_id \<Rightarrow> byte list option) \<times> (page_id \<Rightarrow> int) \<Rightarrow> bool" where
  "pool_spec_step op = (\<lambda>(c, k) (c', k'). case op of
     PoolFetch p \<Rightarrow> c' = c \<and> (k' = k \<or> c p \<noteq> None \<and> k' = k(p := k p + 1))
   | PoolUnpin p dirty \<Rightarrow> c' = c \<and> k' = (if 0 < k p then k(p := k p - 1) else k)
   | PoolWrite p bs \<Rightarrow> c' = c(p \<mapsto> bs) \<and> k' = k
   | PoolFlush p \<Rightarrow> c' = c \<and> k' = k
   | PoolNew \<Rightarrow> c' = c \<and> k' = k \<or>
       (\<exists>p. 1 \<le> p \<and> k p = 0 \<and> c' = c(p \<mapsto> zero_page) \<and> k' = k(p := 1))
   | PoolDelete p \<Rightarrow> k' = k \<and> (\<forall>q. q \<noteq> p \<or> 0 < k p \<or> p \<le> HEADER_PAGE_ID \<longrightarrow> c' q = c q))"

lemma pool_write_ok:
  assumes "pool_ok X bp" "0 < pins bp p" "length bs = PAGE_SIZE"
  shows "pool_ok X (pool_write p bs bp) \<and> pool_page (pool_write p bs bp) = (pool_page bp)(p \<mapsto> bs) \<and>
    pins (pool_write p bs bp) = pins bp \<and> pool_disk (pool_write p bs bp) = pool_disk bp"
proof -
  obtain f where t: "page_table bp p = Some f" using assms(2) by (auto simp: pins_def split: option.splits)
  have wf: "pool_wf bp {} {}" using assms(1) by (simp add: pool_ok_def pool_inv_def)
  show ?thesis
    using client_write[OF assms(1) t assms(2), of "(frame_of bp f)\<lparr>page_data := bs, is_dirty := True\<rparr>"]
      pool_wf_table(2)[OF wf t] assms(3) t by (simp add: pool_write_def)
qed

lemma fetched_content:
  assumes "FetchPage p bp = (bp', Some f)" "pool_ok X bp" "p \<notin> free_pages (pool_disk bp)"
  shows "pool_page bp p = Some (page_data (frame_of bp' f))"
  using FetchPage_spec[OF assms(2,3,1)] by (simp add: same_pages_def pool_page_def[of bp'] flip: fun_eq_iff)
    (metis option.simps(5) pool_page_def)

lemma pool_step_refines:
  assumes "pool_ok {} bp" "pool_op_ok bp op"
  shows "pool_ok {} (pool_step op bp) \<and>
    pool_spec_step op (pool_page bp, pins bp) (pool_page (pool_step op bp), pins (pool_step op bp))"
proof (cases op)
  case (PoolFetch p)
  obtain b r where b: "FetchPage p bp = (b, r)" by (cases "FetchPage p bp")
  have nf: "p \<notin> free_pages (pool_disk bp)" using assms(2) PoolFetch by (simp add: pool_op_ok_def)
  show ?thesis
    using FetchPage_spec[OF assms(1) nf b] fetched_content[of p bp b _ "{}"] b assms(1) nf PoolFetch
    by (cases r) (auto simp: pool_step_def pool_spec_step_def same_pages_def)
next
  case (PoolUnpin p dirty)
  obtain b r where b: "UnpinPage p dirty bp = (b, r)" by (cases "UnpinPage p dirty bp")
  show ?thesis
    using UnpinPage_spec[OF assms(1) b] b PoolUnpin
    by (auto simp: pool_step_def pool_spec_step_def same_pages_def split: if_splits)
next
  case (PoolWrite p bs)
  then show ?thesis using pool_write_ok[OF assms(1), of p bs] assms(2)
    by (simp add: pool_step_def pool_spec_step_def pool_op_ok_def)
next
  case (PoolFlush p)
  obtain b r where b: "FlushPage p bp = (b, r)" by (cases "FlushPage p bp")
  then show ?thesis using FlushPage_spec[OF assms(1) b] PoolFlush
    by (simp add: pool_step_def pool_spec_step_def same_pages_def)
next
  case PoolNew
  obtain b r where b: "NewPage bp = (b, r)" by (cases "NewPage bp")
  then show ?thesis using NewPage_spec[OF assms(1) b] PoolNew
    by (cases r) (auto simp: pool_step_def pool_spec_step_def same_pages_def)
next
  case (PoolDelete p)
  obtain b r where b: "DeletePage p bp = (b, r)" by (cases "DeletePage p bp")
  then show ?thesis using DeletePage_spec[OF assms(1) b] PoolDelete
    by (auto simp: pool_step_def pool_spec_step_def)
qed

lemma pool_reachable_ok:
  "pool_reachable bp0 bp \<Longrightarrow> pool_ok {} bp0 \<Longrightarrow> pool_ok {} bp"
  by (induction rule: pool_reachable.induct) (auto dest: pool_step_refines)

section \<open>The pool as a page device\<close>

definition pool_rd :: "page_id \<Rightarrow> pool \<Rightarrow> pool \<times> byte list option" where
  "pool_rd p bp = (case FetchPage p bp of
     (bp, None) \<Rightarrow> (bp, None)
   | (bp, Some f) \<Rightarrow> (fst (UnpinPage p False bp), Some (page_data (frame_of bp f))))"

definition pool_wr :: "page_id \<Rightarrow> byte list \<Rightarrow> pool \<Rightarrow> pool \<times> bool" where
  "pool_wr p bs bp = (case FetchPage p bp of
     (bp, None) \<Rightarrow> (bp, False)
   | (bp, Some f) \<Rightarrow>
       (fst (UnpinPage p True (set_frame f ((frame_of bp f)\<lparr>page_data := bs\<rparr>) bp)), True))"

definition pool_usable :: "pool \<Rightarrow> page_id \<Rightarrow> bool" where
  "pool_usable bp p \<longleftrightarrow> p \<notin> free_pages (pool_disk bp)"

lemma pool_rd_law:
  assumes "pool_ok X bp" "pool_usable bp p" "pool_rd p bp = (bp', x)"
  shows "pool_ok X bp' \<and> same_pages bp bp' \<and> pins bp' = pins bp \<and> (x \<noteq> None \<longrightarrow> x = pool_page bp p)"
proof -
  have nf: "p \<notin> free_pages (pool_disk bp)" using assms(2) by (simp add: pool_usable_def)
  obtain b r where b: "FetchPage p bp = (b, r)" by (cases "FetchPage p bp")
  note F = FetchPage_spec[OF assms(1) nf b]
  have nn: "0 \<le> pins bp p" using pins_nonneg[of bp "{}" "{}"] assms(1) by (simp add: pool_ok_def pool_inv_def)
  show ?thesis
  proof (cases r)
    case None
    then show ?thesis using F assms(3) b by (auto simp: pool_rd_def)
  next
    case (Some f)
    obtain b2 k where u: "UnpinPage p False b = (b2, k)" by (cases "UnpinPage p False b")
    have pb: "pins b = (pins bp)(p := pins bp p + 1)" "pool_ok X b" "same_pages bp b" using F Some by simp_all
    have "p \<in> X \<longrightarrow> pins b p \<noteq> 1" using assms(1) pb(1) by (auto simp: pool_ok_def held_def)
    then have U: "pool_ok X b2" "same_pages b b2" "pins b2 = (pins b)(p := pins b p - 1)"
      using UnpinPage_spec[OF pb(2) u] pb(1) nn by auto
    have "pool_page bp p = Some (page_data (frame_of b f))"
      using fetched_content[of p bp b f X] b Some assms(1) nf by simp
    moreover have "bp' = b2" "x = Some (page_data (frame_of b f))"
      using assms(3) b Some u by (simp_all add: pool_rd_def)
    ultimately show ?thesis using U pb same_pages_trans[of bp b b2] by auto
  qed
qed

lemma pool_wr_law:
  assumes "pool_ok X bp" "pool_usable bp p" "length bs = PAGE_SIZE" "pool_wr p bs bp = (bp', ok)"
  shows "pool_ok X bp' \<and> pins bp' = pins bp \<and> free_pages (pool_disk bp') = free_pages (pool_disk bp) \<and>
    num_pages (pool_disk bp') = num_pages (pool_disk bp) \<and>
    pool_page bp' = (if ok then (pool_page bp)(p \<mapsto> bs) else pool_page bp)"
proof -
  have nf: "p \<notin> free_pages (pool_disk bp)" using assms(2) by (simp add: pool_usable_def)
  obtain b r where b: "FetchPage p bp = (b, r)" by (cases "FetchPage p bp")
  note F = FetchPage_spec[OF assms(1) nf b]
  have nn: "0 \<le> pins bp p" using pins_nonneg[of bp "{}" "{}"] assms(1) by (simp add: pool_ok_def pool_inv_def)
  show ?thesis
  proof (cases r)
    case None
    then show ?thesis using F assms(4) b by (auto simp: pool_wr_def same_pages_def)
  next
    case (Some f)
    have pb: "pins b = (pins bp)(p := pins bp p + 1)" "pool_ok X b" "same_pages bp b"
      "page_table b p = Some f" using F Some by simp_all
    have wf: "pool_wf b {} {}" using pb(2) by (simp add: pool_ok_def pool_inv_def)
    define b1 where "b1 = set_frame f ((frame_of b f)\<lparr>page_data := bs\<rparr>) b"
    have W: "pool_ok (insert p X) b1" "pool_page b1 = (pool_page b)(p \<mapsto> bs)" "pins b1 = pins b"
      using client_write(1,3,4)[OF pb(2,4), of "(frame_of b f)\<lparr>page_data := bs\<rparr>"] pb(1) nn assms(3)
        pool_wf_table(2)[OF wf pb(4)] by (simp_all add: b1_def)
    obtain b2 k where u: "UnpinPage p True b1 = (b2, k)" by (cases "UnpinPage p True b1")
    have U: "pool_ok (X - {p}) b2" "same_pages b1 b2" "pins b2 = pins bp"
      using UnpinPage_spec[OF W(1) u] W(3) pb(1) nn by auto
    have "pool_ok X b2"
    proof -
      have "held X b2" using assms(1) U(3) by (simp add: pool_ok_def held_def)
      moreover have "coherent X b2" using U(1) by (auto simp: pool_ok_def coherent_def)
      ultimately show ?thesis using U(1) by (simp add: pool_ok_def)
    qed
    moreover have "bp' = b2" "ok" using assms(4) b Some u by (simp_all add: pool_wr_def b1_def)
    ultimately show ?thesis
      using U(2,3) W(2) pb(3) by (simp add: same_pages_def b1_def)
  qed
qed

interpretation pool_dev: page_device "pool_ok {}" pool_usable pool_page pool_rd pool_wr
proof (unfold_locales, goal_cases)
  case (1 d p bs)
  then show ?case using pool_page_length by (auto simp: pool_ok_def pool_inv_def)
next
  case (2 d p d' x)
  then show ?case using pool_rd_law[OF 2] by (auto simp: same_pages_def pool_usable_def fun_eq_iff)
next
  case (3 d p bs d' ok)
  then show ?case using pool_wr_law[OF 3] by (auto simp: pool_usable_def fun_eq_iff)
qed

section \<open>Pinned pages stay where they are\<close>

text \<open>A pointer handed out stays good while its page is pinned.\<close>

lemma evict_stable:
  assumes "taken_ok X bp f c" "EvictWrite f c bp = (bp1, ok)" "0 < pins bp q"
  shows "page_table bp1 q = page_table bp q" "\<not> c \<Longrightarrow> q \<noteq> page_pid (frame_of bp f)"
proof -
  show "page_table bp1 q = page_table bp q"
    using EvictWrite_spec[of bp f c X bp1 ok] assms(1,2) by (simp add: taken_ok_def)
  assume "\<not> c"
  then have "pins bp (page_pid (frame_of bp f)) = 0"
    using assms(1) by (simp add: taken_ok_def taken_def pins_def mapped_def)
  then show "q \<noteq> page_pid (frame_of bp f)" using assms(3) by auto
qed

lemma FetchPage_stable:
  assumes "pool_ok X bp" "FetchPage p bp = (bp', r)" "0 < pins bp q"
  shows "page_table bp' q = page_table bp q"
proof (cases "0 \<le> p \<and> page_table bp p = None")
  case False
  then consider "p < 0" | f where "0 \<le> p" "page_table bp p = Some f" by fastforce
  then show ?thesis using assms(2) by cases (auto simp: FetchPage_def Let_def)
next
  case True
  define b0 where "b0 = bp\<lparr>buffer_misses := buffer_misses bp + 1\<rparr>"
  have ok0: "pool_ok X b0" "pins b0 = pins bp" "page_table b0 = page_table bp"
    using assms(1) by (simp_all add: pool_ok_def b0_def pool_inv_def held_def)
  have qp: "q \<noteq> p" using assms(3) True by (auto simp: pins_def)
  note F = assms(2)[unfolded FetchPage_miss_eq[OF conjunct2[OF True] conjunct1[OF True]], folded b0_def]
  obtain b1 t where tk: "TakeFrame b0 = (b1, t)" by (cases "TakeFrame b0")
  show ?thesis
  proof (cases t)
    case None
    then show ?thesis using TakeFrame_None[of b0 b1] F tk ok0 by (simp add: pool_ok_def)
  next
    case (Some fc)
    obtain f c where fc: "t = Some (f, c)" using Some by (cases fc) auto
    note T = TakeFrame_ok[OF ok0(1) tk[unfolded fc]]
    obtain d buf st where rd: "ReadPage p (Some zero_page) (pool_disk b1) = (d, buf, st)"
      by (cases "ReadPage p (Some zero_page) (pool_disk b1)")
    define b3 where "b3 = b1\<lparr>pool_disk := d, disk_reads := disk_reads b1 + 1\<rparr>"
    have tk3: "taken_ok X b3 f c" using taken_read[OF _ rd] T by (simp add: b3_def)
    have b3: "page_table b3 = page_table bp" "pins b3 = pins bp" "frame_of b3 f = frame_of b1 f"
      using T ok0 by (simp_all add: b3_def)
    obtain b4 ok where ev: "EvictWrite f c b3 = (b4, ok)" by (cases "EvictWrite f c b3")
    note S = evict_stable[OF tk3 ev, of q]
    note F' = F[unfolded tk fc prod.case option.case rd, folded b3_def, unfolded ev prod.case]
    show ?thesis
      using F' S b3 qp assms(3) T ok0
      by (cases "status_ok st"; cases ok; cases c) (auto simp: ErasePage_def)
  qed
qed

lemma NewPage_stable:
  assumes "pool_ok X bp" "NewPage bp = (bp', r)" "0 < pins bp q"
  shows "page_table bp' q = page_table bp q"
proof -
  obtain b1 t where tk: "TakeFrame bp = (b1, t)" by (cases "TakeFrame bp")
  show ?thesis
  proof (cases t)
    case None
    then show ?thesis using TakeFrame_None[of bp b1] tk assms by (auto simp: pool_ok_def NewPage_eq)
  next
    case (Some fc)
    obtain f c where fc: "t = Some (f, c)" using Some by (cases fc) auto
    note T = TakeFrame_ok[OF assms(1) tk[unfolded fc]]
    obtain b2 ok where ev: "EvictWrite f c b1 = (b2, ok)" by (cases "EvictWrite f c b1")
    obtain d p where al: "AllocatePage (pool_disk b2) = (d, p)" by (cases "AllocatePage (pool_disk b2)")
    have S: "page_table b2 q = page_table bp q" "\<not> c \<Longrightarrow> q \<noteq> page_pid (frame_of b1 f)"
      using evict_stable[OF _ ev, of X q] T assms(3) by auto
    have "q \<noteq> p" if "r = Some (p, f)"
    proof -
      have "pins bp p = 0" using NewPage_spec[OF assms(1,2)] that by simp
      then show ?thesis using assms(3) by auto
    qed
    moreover note F = assms(2)[unfolded NewPage_eq tk fc prod.case option.case ev al]
    ultimately show ?thesis
      using S by (cases ok; cases "p = INVALID_PAGE_ID"; cases c) (auto simp: ErasePage_def)
  qed
qed

lemma UnpinPage_table: "page_table (fst (UnpinPage p d bp)) = page_table bp"
  by (auto simp: UnpinPage_def Let_def split: option.splits)

section \<open>Durability\<close>

lemma WriteFrame_fault_free:
  assumes "pool_ok X bp" "page_table bp p = Some f" "disk_io (pool_disk bp) = []"
  shows "\<exists>b1. WriteFrame p f bp = (b1, True) \<and> disk_io (pool_disk b1) = []"
proof -
  have wf: "pool_wf bp {} {}" using assms(1) by (simp add: pool_ok_def pool_inv_def)
  have "0 \<le> p" "p < num_pages (pool_disk bp)" using pool_wf_table(3,4)[OF wf assms(2)] by auto
  then show ?thesis
    using assms(3) by (simp add: WriteFrame_def WritePage_def stream_write_def next_event_def
        consume_event_def Let_def)
qed

lemma FlushPage_fault_free:
  assumes "pool_ok X bp" "page_table bp p \<noteq> None" "disk_io (pool_disk bp) = []"
  shows "snd (FlushPage p bp) \<and> disk_io (pool_disk (fst (FlushPage p bp))) = []"
proof -
  obtain f where t: "page_table bp p = Some f" using assms(2) by blast
  obtain b1 where "WriteFrame p f bp = (b1, True)" "disk_io (pool_disk b1) = []"
    using WriteFrame_fault_free[OF assms(1) t assms(3)] by blast
  then show ?thesis using t assms(3) by (simp add: FlushPage_def)
qed

lemma FlushPage_other_disk:
  assumes "pool_ok X bp" "FlushPage p bp = (bp', ok)" "q \<noteq> p"
  shows "disk_page (pool_disk bp') q = disk_page (pool_disk bp) q"
proof (cases "page_table bp p")
  case None
  then show ?thesis using assms(2) by (simp add: FlushPage_def)
next
  case (Some f)
  obtain b1 k where w: "WriteFrame p f bp = (b1, k)" by (cases "WriteFrame p f bp")
  have wf: "pool_wf bp {} {}" using assms(1) by (simp add: pool_ok_def pool_inv_def)
  show ?thesis
    using WriteFrame_spec[OF wf Some w] w assms(2,3) Some
    by (cases k) (auto simp: FlushPage_def split: if_splits)
qed

lemma FlushAllPages_disk:
  assumes "pool_ok {} bp" "set order \<subseteq> dom (page_table bp)" "disk_io (pool_disk bp) = []"
  shows "\<forall>p. p \<in> set order \<or> disk_page (pool_disk bp) p = pool_page bp p \<longrightarrow>
    disk_page (pool_disk (FlushAllPages order bp)) p = pool_page bp p"
  using assms unfolding FlushAllPages_def
proof (induction order arbitrary: bp)
  case (Cons p order)
  obtain b1 ok where b1: "FlushPage p bp = (b1, ok)" by (cases "FlushPage p bp")
  have res: "page_table bp p \<noteq> None" using Cons.prems(2) by auto
  have ff: "ok" "disk_io (pool_disk b1) = []"
    using FlushPage_fault_free[OF Cons.prems(1) res Cons.prems(3)] b1 by simp_all
  note F = FlushPage_spec[OF Cons.prems(1) b1]
  have step: "FlushStep p bp = b1" using FlushStep_eq[OF res] b1 by simp
  have "disk_page (pool_disk b1) q = pool_page bp q"
    if "q = p \<or> disk_page (pool_disk bp) q = pool_page bp q" for q
    using F ff(1) FlushPage_other_disk[OF Cons.prems(1) b1, of q] that by (cases "q = p") auto
  moreover have "set order \<subseteq> dom (page_table b1)" using F Cons.prems(2) by auto
  ultimately show ?case
    using Cons.IH[of b1] F ff(2) step by (auto simp: same_pages_def)
qed simp

section \<open>When a frame is available\<close>

lemma TakeFrame_available:
  assumes "pool_ok X bp" "valid_frame bp f" "pin_count (frame_of bp f) = 0"
  shows "\<exists>bp' fc. TakeFrame bp = (bp', Some fc)"
proof (cases "free_list bp")
  case Nil
  have "f \<in> clock_cand (replacer bp)" "clock_inv (replacer bp)"
    using assms Nil by (auto simp: pool_ok_def pool_inv_def pool_wf_def)
  then obtain g r where "Clock_Victim (replacer bp) = (r, Some g)"
    using clock.victim_succeeds[of "replacer bp"] by blast
  then have "TakeFrame bp = (bp\<lparr>replacer := r\<rparr>, Some (g, False))" using Nil by (simp add: TakeFrame_def)
  then show ?thesis by blast
next
  case (Cons g fs)
  then have "TakeFrame bp = (bp\<lparr>free_list := fs\<rparr>, Some (g, True))" by (simp add: TakeFrame_def)
  then show ?thesis by blast
qed

lemma TakeFrame_exhausted:
  assumes "pool_ok X bp" "\<forall>f. valid_frame bp f \<longrightarrow> 0 < pin_count (frame_of bp f)"
  shows "TakeFrame bp = (bp, None)"
proof -
  obtain bp' t where t: "TakeFrame bp = (bp', t)" by (cases "TakeFrame bp")
  show ?thesis
  proof (cases t)
    case None
    then show ?thesis using TakeFrame_None[of bp bp'] assms(1) t by (simp add: pool_ok_def)
  next
    case (Some fc)
    obtain f c where fc: "t = Some (f, c)" using Some by (cases fc) auto
    have T: "taken_ok X bp' f c" "pages bp' = pages bp" using TakeFrame_ok[OF assms(1) t[unfolded fc]] by auto
    then have "valid_frame bp f" "pin_count (frame_of bp f) = 0"
      by (auto simp: taken_ok_def taken_def valid_frame_def frame_of_def)
    then show ?thesis using assms(2) by fastforce
  qed
qed

lemma EvictWrite_fault_free:
  assumes "taken_ok X bp f c" "disk_io (pool_disk bp) = []"
  shows "\<exists>b1. EvictWrite f c bp = (b1, True)"
proof (cases "\<not> c \<and> is_dirty (frame_of bp f)")
  case True
  then have m: "page_table bp (page_pid (frame_of bp f)) = Some f" "pool_wf bp {f} {}"
    using assms(1) by (simp_all add: taken_ok_def taken_def mapped_def)
  have "0 \<le> page_pid (frame_of bp f)" "page_pid (frame_of bp f) < num_pages (pool_disk bp)"
    using pool_wf_table(3,4)[OF m(2,1)] by auto
  then show ?thesis
    using assms(2) True by (simp add: EvictWrite_def WriteFrame_def WritePage_def stream_write_def
        next_event_def consume_event_def Let_def)
qed (auto simp: EvictWrite_def)

lemma FetchPage_missing:
  assumes "page_table bp p = None" "num_pages (pool_disk bp) \<le> p" "0 \<le> p"
  shows "snd (FetchPage p bp) = None"
proof -
  define b0 where "b0 = bp\<lparr>buffer_misses := buffer_misses bp + 1\<rparr>"
  obtain b1 t where tk: "TakeFrame b0 = (b1, t)" by (cases "TakeFrame b0")
  have dk: "pool_disk b1 = pool_disk bp"
    using tk by (auto simp: TakeFrame_def b0_def split: list.splits option.splits prod.splits)
  have "ReadPage p (Some zero_page) (pool_disk b1) = (pool_disk b1, Some zero_page, NotFound ''Page does not exist'')"
    using assms(2,3) dk by (simp add: ReadPage_def)
  then show ?thesis
    unfolding FetchPage_miss_eq[OF assms(1,3), folded b0_def] tk prod.case by (auto split: option.splits)
qed

lemma FetchPage_iff:
  assumes "pool_ok {} bp" "disk_io (pool_disk bp) = []" "0 \<le> p"
  shows "snd (FetchPage p bp) \<noteq> None \<longleftrightarrow> page_table bp p \<noteq> None \<or>
    p < num_pages (pool_disk bp) \<and> (\<exists>f. valid_frame bp f \<and> pin_count (frame_of bp f) = 0)"
proof (cases "page_table bp p")
  case (Some f)
  then show ?thesis using assms(3) by (simp add: FetchPage_def Let_def)
next
  case None
  define b0 where "b0 = bp\<lparr>buffer_misses := buffer_misses bp + 1\<rparr>"
  have ok0: "pool_ok {} b0" "pool_disk b0 = pool_disk bp" "frame_of b0 = frame_of bp" "valid_frame b0 = valid_frame bp"
    using assms(1) by (auto simp: pool_ok_def b0_def pool_inv_def held_def fun_eq_iff)
  note F = FetchPage_miss_eq[OF None assms(3), folded b0_def]
  show ?thesis
  proof (cases "p < num_pages (pool_disk bp)")
    case False
    then show ?thesis using FetchPage_missing[OF None _ assms(3)] None by simp
  next
    case lt: True
    show ?thesis
    proof (cases "\<exists>f. valid_frame bp f \<and> pin_count (frame_of bp f) = 0")
      case False
      have "0 \<le> pin_count (frame_of bp f)" if "valid_frame bp f" for f
        using assms(1) that by (auto simp: pool_ok_def pool_inv_def pool_wf_def)
      then have "\<forall>f. valid_frame bp f \<longrightarrow> 0 < pin_count (frame_of bp f)" using False by (metis order_le_less)
      then show ?thesis using TakeFrame_exhausted[OF ok0(1)] ok0 None False F by simp
    next
      case True
      then obtain b1 f c where tk: "TakeFrame b0 = (b1, Some (f, c))"
        using TakeFrame_available[OF ok0(1)] ok0 by force
      note T = TakeFrame_ok[OF ok0(1) tk]
      have dk: "pool_disk b1 = pool_disk bp" using T ok0 by simp
      have inv: "disk_inv (pool_disk bp)" using assms(1) by (simp add: pool_ok_def pool_inv_def pool_wf_def)
      have rd: "ReadPage p (Some zero_page) (pool_disk b1) =
          (pool_disk b1, disk_page (pool_disk bp) p, Status_OK)"
        using ReadPage_fault_free[OF assms(2) inv assms(3) lt, of zero_page] dk by simp
      have "taken_ok {} (b1\<lparr>pool_disk := pool_disk b1, disk_reads := disk_reads b1 + 1\<rparr>) f c"
        using taken_read[OF _ rd] T by simp
      then obtain b4 where "EvictWrite f c (b1\<lparr>pool_disk := pool_disk b1, disk_reads := disk_reads b1 + 1\<rparr>) = (b4, True)"
        using EvictWrite_fault_free dk assms(2) by fastforce
      then show ?thesis using F tk rd lt True by simp
    qed
  qed
qed

section \<open>Properties\<close>

text \<open>
  C19. The buffer pool is transparent to clients that keep to pages in use. From any opened database
  and any sequence of operations in which no page that is free is fetched (the code does not check it,
  see \<open>fetch_free_page_twice\<close>) and only pinned pages are written to, the page table, free list, pin
  counts and replacer stay consistent, every clean frame equals its page on disk, and each further such
  operation is exactly one step on the abstract state of page contents and pin counts: evictions,
  write-backs and disk failures never change the contents of any page.
\<close>

theorem buffer_pool_refines:
  assumes "new_DiskManager file open1 create open2 sized io = Inr d"
    "new_BufferPoolManager n (Some d) (Some (new_ClockReplacer n)) = Inr bp0"
    "pool_reachable bp0 bp" "pool_op_ok bp op"
  shows "pool_inv bp \<and> coherent {} bp \<and>
    pool_spec_step op (pool_page bp, pins bp) (pool_page (pool_step op bp), pins (pool_step op bp))"
proof -
  have "pool_ok {} bp0"
    using new_BufferPoolManager_ok[OF assms(2)] new_DiskManager_inv[OF assms(1)]
      new_ClockReplacer_inv[of n] by simp
  then have "pool_ok {} bp" using pool_reachable_ok[OF assms(3)] by blast
  then show ?thesis using pool_step_refines[OF _ assms(4)] by (simp add: pool_ok_def)
qed

text \<open>A pool of \<open>n\<close> frames over a new database.\<close>

lemma example_pool:
  assumes "0 < n"
  shows "\<exists>d bp. new_DiskManager zero_page True True True True [] = Inr d \<and> disk_io d = [] \<and> num_pages d = 1 \<and>
     new_BufferPoolManager n (Some d) (Some (new_ClockReplacer n)) = Inr bp \<and> pool_ok {} bp \<and> pool_disk bp = d \<and>
     free_pages d = {} \<and> pins bp = (\<lambda>_. 0) \<and> page_table bp = Map.empty \<and>
     free_list bp = map int [0..<n] \<and> length (pages bp) = n \<and> disk_page d 0 = Some zero_page"
proof -
  define d where "d = \<lparr>disk_file = zero_page, num_pages = 1, free_pages = {}, disk_io = []\<rparr>"
  have d: "new_DiskManager zero_page True True True True [] = Inr d"
    by (simp add: new_DiskManager_def Let_def d_def)
  obtain bp where bp: "new_BufferPoolManager n (Some d) (Some (new_ClockReplacer n)) = Inr bp"
    using assms by (simp add: new_BufferPoolManager_def)
  then have "page_table bp = Map.empty" "free_list bp = map int [0..<n]"
    by (auto simp: new_BufferPoolManager_def split: if_splits)
  moreover have "disk_page d 0 = Some zero_page"
    by (simp add: d_def disk_page_def GetPageOffset_def mem_read_all)
  ultimately show ?thesis
    using d bp new_BufferPoolManager_ok[OF bp] new_DiskManager_inv[OF d] new_ClockReplacer_inv[of n]
    by (auto simp: d_def)
qed

text \<open>The same with the header page fetched into the only frame.\<close>

lemma example_pool_fetched:
  "\<exists>bp. pool_ok {} bp \<and> page_table bp = [0 \<mapsto> 0] \<and> 0 < pins bp 0 \<and> length (pages bp) = 1 \<and>
     disk_io (pool_disk bp) = [] \<and> free_pages (pool_disk bp) = {}"
proof -
  obtain d bp where b: "pool_ok {} bp" "pool_disk bp = d" "free_pages d = {}" "disk_io d = []" "num_pages d = 1"
      "pins bp = (\<lambda>_. 0)" "page_table bp = Map.empty" "free_list bp = [0]" "disk_page d 0 = Some zero_page"
      "length (pages bp) = 1"
    using example_pool[of 1] by auto
  obtain b1 r where f: "FetchPage 0 bp = (b1, r)" by (cases "FetchPage 0 bp")
  have inv: "disk_inv d" using b(1,2) by (simp add: pool_ok_def pool_inv_def pool_wf_def)
  have "b1 = InstallPage 0 0 zero_page (bp\<lparr>buffer_misses := buffer_misses bp + 1, free_list := [],
      pool_disk := d, disk_reads := disk_reads bp + 1\<rparr>)" "r = Some 0"
    using f b ReadPage_fault_free[OF b(4) inv, of 0 zero_page]
    by (simp_all add: FetchPage_miss_eq TakeFrame_def EvictWrite_def)
  then have "page_table b1 = [0 \<mapsto> 0]" "disk_io (pool_disk b1) = []" "free_pages (pool_disk b1) = {}"
    using b by simp_all
  moreover have "pool_ok {} b1" "pins b1 0 = 1" "length (pages b1) = 1"
    using FetchPage_spec[OF b(1) _ f] b \<open>r = Some 0\<close> by (simp_all add: same_pages_def)
  ultimately show ?thesis by (intro exI[of _ b1]) simp
qed

theorem buffer_pool_refines_witness:
  "\<exists>bp. pool_spec_step PoolNew (pool_page bp, pins bp) (pool_page (pool_step PoolNew bp), pins (pool_step PoolNew bp)) \<and>
     free_list bp = [0, 1]"
proof -
  obtain d bp where b: "new_DiskManager zero_page True True True True [] = Inr d"
      "new_BufferPoolManager 2 (Some d) (Some (new_ClockReplacer 2)) = Inr bp" "free_list bp = [0, 1]"
    using example_pool[of 2] by (auto simp: numeral_2_eq_2)
  have "pool_op_ok bp PoolNew" by (simp add: pool_op_ok_def)
  then show ?thesis using buffer_pool_refines[OF b(1,2) pool_reachable.start] b(3) by blast
qed

text \<open>What the restriction of the transparency property excludes.\<close>

lemma AllocatePage_free:
  assumes "disk_io d = []" "free_pages d \<noteq> {}" "Min (free_pages d) < num_pages d"
  shows "\<exists>d'. AllocatePage d = (d', Min (free_pages d)) \<and> num_pages d' = num_pages d"
  using assms by (simp add: AllocatePage_def stream_write_def next_event_def consume_event_def Let_def)

text \<open>
  C20. A defect of the pool, the reason for the restriction above: \<^verbatim>\<open>FetchPage\<close> does not check that the
  page it is asked for is in use, and marks nothing when it loads a free one. On a consistent pool with
  a free page and two free frames, fetching the lowest free page succeeds, and the next \<^verbatim>\<open>NewPage\<close> hands
  out the same page in another frame: two frames hold the page, both pinned, and the page table knows
  only the second, so that the first can never be unpinned or written back.
\<close>

theorem fetch_free_page_twice:
  assumes "pool_ok {} bp" "disk_io (pool_disk bp) = []" "free_pages (pool_disk bp) \<noteq> {}"
    "free_list bp = f # g # fs"
  shows "\<exists>p b1 b2. p \<in> free_pages (pool_disk bp) \<and> FetchPage p bp = (b1, Some f) \<and> NewPage b1 = (b2, Some (p, g)) \<and>
    f \<noteq> g \<and> page_pid (frame_of b2 f) = p \<and> page_pid (frame_of b2 g) = p \<and>
    pin_count (frame_of b2 f) = 1 \<and> pin_count (frame_of b2 g) = 1 \<and>
    page_table b2 p = Some g \<and> (\<forall>q. page_table b2 q \<noteq> Some f)"
proof -
  let ?d = "pool_disk bp" let ?p = "Min (free_pages ?d)"
  have wf: "pool_wf bp {} {}" and di: "disk_inv ?d" using assms(1) by (auto simp: pool_ok_def pool_inv_def pool_wf_def)
  have p: "?p \<in> free_pages ?d" using di assms(3) by (intro Min_in) (simp_all add: disk_inv_def)
  then have pb: "1 \<le> ?p" "?p < num_pages ?d" using di by (auto simp: disk_inv_def)
  have none: "page_table bp ?p = None" using wf p unfolding pool_wf_def by (cases "page_table bp ?p") auto
  have v: "valid_frame bp f" "valid_frame bp g" "f \<noteq> g" "\<not> mapped bp f"
    using wf assms(4) by (auto simp: pool_wf_def)
  obtain dat where dat: "disk_page ?d ?p = Some dat" "length dat = PAGE_SIZE"
    using pb disk_page_length[OF di] by (cases "disk_page ?d ?p") (auto simp: disk_page_None)
  define b where "b = bp\<lparr>buffer_misses := buffer_misses bp + 1, free_list := g # fs, disk_reads := disk_reads bp + 1\<rparr>"
  define b1 where "b1 = InstallPage ?p f dat b"
  have F: "FetchPage ?p bp = (b1, Some f)"
    using ReadPage_fault_free[OF assms(2) di, of ?p zero_page] pb dat assms(4)
    by (simp add: FetchPage_miss_eq[OF none] TakeFrame_def EvictWrite_def b1_def b_def)
  have d1: "pool_disk b1 = ?d" "free_list b1 = g # fs" by (simp_all add: b1_def b_def)
  obtain d2 where A: "AllocatePage ?d = (d2, ?p)" using AllocatePage_free[OF assms(2,3) pb(2)] by blast
  define b2 where "b2 = InstallPage ?p g zero_page (b1\<lparr>free_list := fs, pool_disk := d2, disk_writes := disk_writes b1 + 1\<rparr>)"
  have N: "NewPage b1 = (b2, Some (?p, g))"
    using A pb(1) by (simp add: NewPage_def TakeFrame_def d1 b2_def Let_def layout_simps)
  have vb: "valid_frame b h \<longleftrightarrow> valid_frame bp h" "frame_of b h = frame_of bp h" for h
    by (simp_all add: b_def valid_frame_def frame_of_def)
  have vf: "valid_frame (b1\<lparr>free_list := fs, pool_disk := d2, disk_writes := disk_writes b1 + 1\<rparr>) h \<longleftrightarrow> valid_frame bp h"
    "frame_of (b1\<lparr>free_list := fs, pool_disk := d2, disk_writes := disk_writes b1 + 1\<rparr>) h = frame_of b1 h" for h
    using vb(1) by (simp_all add: b1_def valid_frame_def frame_of_def InstallPage_def Let_def set_frame_def)
  have fr1: "frame_of b1 f = \<lparr>page_data = dat, page_pid = ?p, pin_count = 1, is_dirty = False, \<dots> = page.more (frame_of bp f)\<rparr>"
    using InstallPage_frame_of[of b f dat f ?p] v(1) vb dat(2) by (simp add: b1_def)
  have fr2: "frame_of b2 f = frame_of b1 f" "page_pid (frame_of b2 g) = ?p" "pin_count (frame_of b2 g) = 1"
    using InstallPage_frame_of[of _ g zero_page f ?p] InstallPage_frame_of[of _ g zero_page g ?p] v vf
    unfolding b2_def by auto
  have tab: "page_table b2 = (page_table bp)(?p \<mapsto> g)" by (simp add: b2_def b1_def b_def)
  have "page_table b2 q \<noteq> Some f" for q using v(3,4) pool_wf_table(6)[OF wf] by (auto simp: tab)
  then show ?thesis using p F N v(3) fr1 fr2 tab by (intro exI[of _ ?p] exI[of _ b1] exI[of _ b2]) simp
qed

text \<open>The pool of a new database with three frames, after creating, unpinning and deleting a page.\<close>

theorem fetch_free_page_twice_witness:
  "\<exists>bp d bp0 b1 b2. new_DiskManager zero_page True True True True [] = Inr d \<and>
     new_BufferPoolManager 3 (Some d) (Some (new_ClockReplacer 3)) = Inr bp0 \<and>
     bp = pool_step (PoolDelete 1) (pool_step (PoolUnpin 1 False) (pool_step PoolNew bp0)) \<and>
     FetchPage 1 bp = (b1, Some 1) \<and> NewPage b1 = (b2, Some (1, 2)) \<and>
     pin_count (frame_of b2 1) = 1 \<and> pin_count (frame_of b2 2) = 1 \<and> page_table b2 1 = Some 2"
proof -
  obtain d bp0 where b: "new_DiskManager zero_page True True True True [] = Inr d"
      "new_BufferPoolManager 3 (Some d) (Some (new_ClockReplacer 3)) = Inr bp0" "pool_ok {} bp0" "pool_disk bp0 = d"
      "free_pages d = {}" "disk_io d = []" "num_pages d = 1" "free_list bp0 = [0, 1, 2]" "length (pages bp0) = 3"
    using example_pool[of 3] by (auto simp: upt_rec)
  define c where "c = pool_step PoolNew bp0"
  define u where "u = pool_step (PoolUnpin 1 False) c"
  define e where "e = pool_step (PoolDelete 1) u"
  have ok: "pool_ok {} e"
    unfolding e_def u_def c_def using b(3) by (intro conjunct1[OF pool_step_refines]) (simp_all add: pool_op_ok_def)
  obtain d1 where A: "AllocatePage d = (d1, 1)" "num_pages d1 = 2" "disk_io d1 = []" "free_pages d1 = {}"
    using b(5-7)
    by (simp add: AllocatePage_def stream_write_def next_event_def consume_event_def Let_def)
  have c: "c = InstallPage 1 0 zero_page (bp0\<lparr>free_list := [1, 2], pool_disk := d1, disk_writes := disk_writes bp0 + 1\<rparr>)"
    using A(1) b(4,8) by (simp add: c_def pool_step_def NewPage_def TakeFrame_def Let_def layout_simps)
  have c0: "page_table c 1 = Some 0" "pool_disk c = d1" "free_list c = [1, 2]" "valid_frame c 0"
    using b(9) by (simp_all add: c valid_frame_def InstallPage_def Let_def set_frame_def)
  have pin: "pin_count (frame_of c 0) = 1"
    using InstallPage_frame_of[of "bp0\<lparr>free_list := [1, 2], pool_disk := d1, disk_writes := disk_writes bp0 + 1\<rparr>" 0 zero_page 0 1]
      b(9) by (simp add: c valid_frame_def)
  have u0: "page_table u 1 = Some 0" "pool_disk u = d1" "free_list u = [1, 2]" "pin_count (frame_of u 0) = 0"
    using c0 pin by (simp_all add: u_def pool_step_def UnpinPage_def Let_def frame_of_set_frame)
  have dd: "DeallocatePage 1 d1 = d1\<lparr>disk_file := mem_write (disk_file d1) (GetPageOffset 1) zero_page, free_pages := {1}\<rparr>"
    using A(2-4) by (simp add: DeallocatePage_def stream_write_def next_event_def consume_event_def Let_def)
  have e0: "free_list e = [1, 2, 0]" "free_pages (pool_disk e) = {1}" "disk_io (pool_disk e) = []"
    using u0 A(3) by (simp_all add: e_def pool_step_def DeletePage_def ErasePage_def Let_def dd layout_simps)
  obtain b1 b2 where "FetchPage 1 e = (b1, Some 1)" "NewPage b1 = (b2, Some (1, 2))"
      "pin_count (frame_of b2 1) = 1" "pin_count (frame_of b2 2) = 1" "page_table b2 1 = Some 2"
    using fetch_free_page_twice[OF ok e0(3) _ e0(1)] e0(2) by auto
  then show ?thesis using b(1,2) unfolding e_def u_def c_def by blast
qed



text \<open>
  On a disk without failures, a fetch succeeds exactly when the page is resident, or exists
  on disk and some frame is unpinned.
\<close>

theorem fetch_succeeds_iff:
  assumes "pool_ok {} bp" "disk_io (pool_disk bp) = []" "0 \<le> p"
  shows "snd (FetchPage p bp) \<noteq> None \<longleftrightarrow> page_table bp p \<noteq> None \<or>
    p < num_pages (pool_disk bp) \<and> (\<exists>f. valid_frame bp f \<and> pin_count (frame_of bp f) = 0)"
  by (rule FetchPage_iff[OF assms])

theorem fetch_succeeds_iff_witness:
  "\<exists>bp. snd (FetchPage 0 bp) \<noteq> None \<and> snd (FetchPage 5 bp) = None"
proof -
  obtain d bp where b: "pool_ok {} bp" "pool_disk bp = d" "disk_io d = []" "num_pages d = 1"
      "page_table bp = Map.empty" "free_list bp = [0]"
    using example_pool[of 1] by auto
  have "valid_frame bp 0" "pin_count (frame_of bp 0) = 0"
    using b(1,6) by (simp_all add: pool_ok_def pool_inv_def pool_wf_def)
  then show ?thesis
    using fetch_succeeds_iff[OF b(1), of 0] fetch_succeeds_iff[OF b(1), of 5] b by auto
qed

text \<open>
  With every frame pinned, \<^verbatim>\<open>NewPage\<close> fails without touching anything: no page of the disk is
  allocated that nobody would own.
\<close>

theorem new_page_exhausted:
  assumes "pool_ok X bp" "\<forall>f. valid_frame bp f \<longrightarrow> 0 < pin_count (frame_of bp f)"
  shows "NewPage bp = (bp, None)"
  using TakeFrame_exhausted[OF assms] by (simp add: NewPage_eq)

theorem new_page_exhausted_witness:
  "\<exists>bp. NewPage bp = (bp, None) \<and> length (pages bp) = 1"
proof -
  obtain bp where b: "pool_ok {} bp" "page_table bp = [0 \<mapsto> 0]" "0 < pins bp 0" "length (pages bp) = 1"
    using example_pool_fetched by blast
  have "\<forall>f. valid_frame bp f \<longrightarrow> 0 < pin_count (frame_of bp f)"
  proof (intro allI impI)
    fix f assume "valid_frame bp f"
    then have "f = 0" using b(4) by (simp add: valid_frame_def)
    then show "0 < pin_count (frame_of bp f)" using b(2,3) by (simp add: pins_def)
  qed
  then show ?thesis using new_page_exhausted[OF b(1)] b(4) by blast
qed

text \<open>
  \<^verbatim>\<open>FlushAllPages\<close>, in whatever order it meets the resident pages, makes the disk equal to the
  pool when no write fails: every page can then be read back from the file alone.
\<close>

theorem flush_all_durable:
  assumes "pool_ok {} bp" "set order = dom (page_table bp)" "disk_io (pool_disk bp) = []"
  shows "disk_page (pool_disk (FlushAllPages order bp)) = pool_page bp \<and>
    pool_page (FlushAllPages order bp) = pool_page bp"
proof -
  have "disk_page (pool_disk (FlushAllPages order bp)) p = pool_page bp p" for p
    using FlushAllPages_disk[OF assms(1) _ assms(3), of order] assms(2)
    by (cases "page_table bp p") (auto simp: pool_page_def)
  then show ?thesis
    using FlushAllPages_spec[OF assms(1), of order] assms(2) by (auto simp: same_pages_def)
qed

theorem flush_all_durable_witness:
  "\<exists>bp. page_table bp 0 = Some 0 \<and> disk_page (pool_disk (FlushAllPages [0] bp)) = pool_page bp"
proof -
  obtain bp where b: "pool_ok {} bp" "page_table bp = [0 \<mapsto> 0]" "disk_io (pool_disk bp) = []"
    using example_pool_fetched by blast
  then have "disk_page (pool_disk (FlushAllPages [0] bp)) = pool_page bp"
    using flush_all_durable[OF b(1), of "[0]"] by simp
  then show ?thesis using b(2) by (intro exI[of _ bp]) simp
qed

text \<open>
  Through the pool a page reads as it was last written: a client that fetches, overwrites and
  unpins a page, and later fetches it again, finds its bytes; every other page reads as before, and no
  pin is leaked.
\<close>

theorem pool_read_after_write:
  assumes "pool_ok {} bp" "pool_usable bp p" "pool_usable bp q" "length bs = PAGE_SIZE"
    "pool_wr p bs bp = (bp1, True)" "pool_rd q bp1 = (bp2, Some x)"
  shows "(if q = p then x = bs else pool_page bp q = Some x) \<and> pins bp2 = pins bp"
proof -
  have w: "pool_ok {} bp1" "pins bp1 = pins bp" "pool_usable bp1 q"
    using pool_wr_law[OF assms(1,2,4,5)] assms(3) by (simp_all add: pool_usable_def)
  have "pins bp2 = pins bp" using pool_rd_law[OF w(1,3) assms(6)] w(2) by simp
  moreover have "q = p \<Longrightarrow> x = bs"
    using pool_dev.read_after_write[OF assms(1,2,4,5)] assms(6) by blast
  moreover have "q \<noteq> p \<Longrightarrow> pool_page bp q = Some x"
    using pool_dev.read_other_after_write[OF assms(1-6)] by blast
  ultimately show ?thesis by simp
qed

theorem pool_read_after_write_witness:
  "\<exists>bp bp1 bp2. pool_wr 0 (replicate PAGE_SIZE CHR ''x'') bp = (bp1, True) \<and>
     pool_rd 0 bp1 = (bp2, Some (replicate PAGE_SIZE CHR ''x''))"
proof -
  let ?bs = "replicate PAGE_SIZE CHR ''x''"
  obtain bp where b: "pool_ok {} bp" "page_table bp = [0 \<mapsto> 0]" "free_pages (pool_disk bp) = {}"
    using example_pool_fetched by blast
  have us: "pool_usable bp 0" by (simp add: pool_usable_def b(3))
  obtain b1 where w: "pool_wr 0 ?bs bp = (b1, True)" "page_table b1 0 = Some 0"
    using b(2) by (simp add: pool_wr_def FetchPage_def Let_def UnpinPage_table)
  obtain b2 x where r: "pool_rd 0 b1 = (b2, Some x)"
    using w(2) by (simp add: pool_rd_def FetchPage_def Let_def)
  have "length ?bs = PAGE_SIZE" by simp
  then show ?thesis using pool_read_after_write[OF b(1) us us _ w(1) r] w(1) r by auto
qed

end
