(* ===== verification/Heap_File.thy ===== *)
theory Heap_File
  imports Slotted_Page Buffer_Pool
begin

text \<open>
  The heap file (storage/heap_file.h, storage/heap_file.cpp): a chain of slotted pages reached
  through the buffer pool. An operation threads the pool and returns it beside its result; the first
  page's identifier is an argument. The walks along the chain stop at a page they have visited
  before; they are partial functions, \<open>None\<close> would be a walk that never ends, and it is proved that
  none exists. Null output pointers have no counterpart; a record's data pointer is null only when
  the record is empty.
\<close>

definition new_HeapFile :: "page_id \<Rightarrow> page_id result" where
  "new_HeapFile first_page_id =
     (if first_page_id \<le> HEADER_PAGE_ID
      then Inl (InvalidArgument ''HeapFile requires a valid data page as first page'')
      else Inr first_page_id)"

definition AppendNewPage :: "page_id \<Rightarrow> byte list \<Rightarrow> pool \<Rightarrow> pool \<times> record_id result" where
  "AppendNewPage previous_page_id data bp =
     (case NewPage bp of
        (bp, None) \<Rightarrow> (bp, Inl (OutOfMemory ''No buffer frame available for a new HeapFile page''))
      | (bp, Some (new_page_id, f)) \<Rightarrow>
        (case SP_Init (Some (frame_of bp f)) of
           Inl st \<Rightarrow>
             let bp = fst (UnpinPage new_page_id False bp)
             in (fst (DeletePage new_page_id bp), Inl st)
         | Inr pg \<Rightarrow>
           let bp = set_frame f pg bp
           in case SP_InsertRecord (Some (frame_of bp f)) (Some data) of
                Inl st \<Rightarrow>
                  let bp = fst (UnpinPage new_page_id False bp)
                  in (fst (DeletePage new_page_id bp), Inl st)
              | Inr (pg, new_slot_id) \<Rightarrow>
                  (case UnpinPage new_page_id True (set_frame f pg bp) of
                     (bp, False) \<Rightarrow> (bp, Inl (IOError ''Could not unpin new HeapFile page''))
                   | (bp, True) \<Rightarrow>
                     (case FetchPage previous_page_id bp of
                        (bp, None) \<Rightarrow>
                          (fst (DeletePage new_page_id bp),
                           Inl (IOError ''Could not refetch previous HeapFile page''))
                      | (bp, Some g) \<Rightarrow>
                          if \<not> SP_IsInitialized (Some (frame_of bp g)) then
                            let bp = fst (UnpinPage previous_page_id False bp)
                            in (fst (DeletePage new_page_id bp),
                                Inl (IOError ''Previous HeapFile page is not initialized''))
                          else
                            let res = SP_SetNextPageId (Some (frame_of bp g)) new_page_id
                            in (case UnpinPage previous_page_id (status_ok (result_status res))
                                       (put_page g res bp) of
                                  (bp, False) \<Rightarrow> (bp, Inl (IOError ''Could not unpin previous HeapFile page''))
                                | (bp, True) \<Rightarrow>
                                    (case res of
                                       Inl st \<Rightarrow> (fst (DeletePage new_page_id bp), Inl st)
                                     | Inr _ \<Rightarrow> (bp, Inr (RecordID new_page_id new_slot_id))))))))"

text \<open>\<^verbatim>\<open>Init\<close> of a page that is not initialised, as the insertion walk does it.\<close>

definition EnsureInit :: "page \<Rightarrow> page result" where
  "EnsureInit pg = (if SP_IsInitialized (Some pg) then Inr pg else SP_Init (Some pg))"

partial_function (option) HF_InsertLoop ::
  "page_id set \<Rightarrow> page_id \<Rightarrow> byte list \<Rightarrow> pool \<Rightarrow> (pool \<times> record_id result) option" where
  "HF_InsertLoop visited current data bp =
     (if current = INVALID_PAGE_ID
      then Some (bp, Inl (IOError ''HeapFile page chain ended unexpectedly''))
      else if current \<in> visited
      then Some (bp, Inl (IOError ''Cycle detected in HeapFile page chain''))
      else (case FetchPage current bp of (bp, None) \<Rightarrow>
              Some (bp, Inl (IOError ''Could not fetch HeapFile page''))
          | (bp, Some f) \<Rightarrow>
            (case EnsureInit (frame_of bp f) of
               Inl st \<Rightarrow> Some (fst (UnpinPage current False bp), Inl st)
             | Inr pg \<Rightarrow>
               (case SP_InsertRecord (Some pg) (Some data) of
                  Inr (pg, slot) \<Rightarrow>
                    (case UnpinPage current True (set_frame f pg bp) of
                       (bp, unpinned) \<Rightarrow>
                         if \<not> unpinned then Some (bp, Inl (IOError ''Could not unpin modified HeapFile page''))
                         else Some (bp, Inr (RecordID current slot)))
                | Inl st \<Rightarrow>
                    (case UnpinPage current False (set_frame f pg bp) of
                       (bp, unpinned) \<Rightarrow>
                         if \<not> unpinned then Some (bp, Inl (IOError ''Could not unpin HeapFile page''))
                         else if status_code st \<noteq> OUT_OF_MEMORY then Some (bp, Inl st)
                         else if SP_GetNextPageId (Some pg) \<noteq> INVALID_PAGE_ID
                         then HF_InsertLoop (insert current visited) (SP_GetNextPageId (Some pg)) data bp
                         else Some (AppendNewPage current data bp))))))"

definition HF_InsertRecord ::
  "page_id \<Rightarrow> db_record \<Rightarrow> pool \<Rightarrow> (pool \<times> record_id result) option" where
  "HF_InsertRecord first_page_id record bp =
     (if GetSize record = 0 then Some (bp, Inl (InvalidArgument ''Record cannot be empty''))
      else HF_InsertLoop {} first_page_id (rec_data record) bp)"

definition HF_GetRecord :: "record_id \<Rightarrow> pool \<Rightarrow> pool \<times> db_record result" where
  "HF_GetRecord rid bp =
     (if rid_page rid \<le> HEADER_PAGE_ID
      then (bp, Inl (InvalidArgument ''RecordID contains an invalid page id''))
      else (case FetchPage (rid_page rid) bp of
          (bp, None) \<Rightarrow> (bp, Inl (NotFound ''Record page could not be loaded''))
        | (bp, Some f) \<Rightarrow>
            let res = SP_ReadRecord (Some (frame_of bp f)) (rid_slot rid)
            in case UnpinPage (rid_page rid) False bp of
                 (bp, False) \<Rightarrow> (bp, Inl (IOError ''Could not unpin record page''))
               | (bp, True) \<Rightarrow> (bp, res)))"

definition HF_UpdateRecord :: "db_record \<Rightarrow> pool \<Rightarrow> pool \<times> status" where
  "HF_UpdateRecord record bp =
     (let rid = rec_rid record
      in if rid_page rid \<le> HEADER_PAGE_ID
         then (bp, InvalidArgument ''Record has an invalid RecordID'')
         else if GetSize record = 0
         then (bp, InvalidArgument ''Updated record cannot be empty'')
         else (case FetchPage (rid_page rid) bp of
             (bp, None) \<Rightarrow> (bp, NotFound ''Record page could not be loaded'')
           | (bp, Some f) \<Rightarrow>
               let res = SP_UpdateRecord (Some (frame_of bp f)) (rid_slot rid) (Some (rec_data record))
               in case UnpinPage (rid_page rid) (status_ok (result_status res)) (put_page f res bp) of
                    (bp, False) \<Rightarrow> (bp, IOError ''Could not unpin updated record page'')
                  | (bp, True) \<Rightarrow> (bp, result_status res)))"

definition HF_DeleteRecord :: "record_id \<Rightarrow> pool \<Rightarrow> pool \<times> status" where
  "HF_DeleteRecord rid bp =
     (if rid_page rid \<le> HEADER_PAGE_ID
      then (bp, InvalidArgument ''RecordID contains an invalid page id'')
      else (case FetchPage (rid_page rid) bp of
          (bp, None) \<Rightarrow> (bp, NotFound ''Record page could not be loaded'')
        | (bp, Some f) \<Rightarrow>
            let res = SP_DeleteRecord (Some (frame_of bp f)) (rid_slot rid)
            in case UnpinPage (rid_page rid) (status_ok (result_status res)) (put_page f res bp) of
                 (bp, False) \<Rightarrow> (bp, IOError ''Could not unpin deleted record page'')
               | (bp, True) \<Rightarrow> (bp, result_status res)))"

partial_function (option) HF_ContainsLoop ::
  "page_id set \<Rightarrow> page_id \<Rightarrow> page_id \<Rightarrow> pool \<Rightarrow> (pool \<times> bool result) option" where
  "HF_ContainsLoop visited current p bp =
     (if current = INVALID_PAGE_ID then Some (bp, Inr False)
      else if current \<in> visited
      then Some (bp, Inl (IOError ''Cycle detected in HeapFile page chain''))
      else if current = p then Some (bp, Inr True)
      else (case FetchPage current bp of
          (bp, None) \<Rightarrow>
            Some (bp, Inl (IOError ''Could not fetch HeapFile page while validating ownership''))
        | (bp, Some f) \<Rightarrow>
            if \<not> SP_IsInitialized (Some (frame_of bp f)) then
              Some (fst (UnpinPage current False bp), Inl (IOError ''HeapFile contains an uninitialized page''))
            else (case UnpinPage current False bp of (bp', unpinned) \<Rightarrow>
              if \<not> unpinned
              then Some (bp', Inl (IOError ''Could not unpin HeapFile page while validating ownership''))
              else HF_ContainsLoop (insert current visited)
                     (SP_GetNextPageId (Some (frame_of bp f))) p bp')))"

definition HF_ContainsPage :: "page_id \<Rightarrow> page_id \<Rightarrow> pool \<Rightarrow> (pool \<times> bool result) option" where
  "HF_ContainsPage first_page_id p bp =
     (if p \<le> HEADER_PAGE_ID then Some (bp, Inl (InvalidArgument ''Page id must refer to a data page''))
      else HF_ContainsLoop {} first_page_id p bp)"

text \<open>The search of one page, from a given slot on: \<open>None\<close> when the page has no further record.\<close>

fun ScanSlots :: "page \<Rightarrow> slot_id list \<Rightarrow> db_record result option" where
  "ScanSlots pg [] = None"
| "ScanSlots pg (slot # slots) = (case SP_ReadRecord (Some pg) slot of
     Inr candidate \<Rightarrow> Some (Inr candidate)
   | Inl st \<Rightarrow> if status_code st \<noteq> NOT_FOUND then Some (Inl st) else ScanSlots pg slots)"

partial_function (option) HF_FindLoop ::
  "page_id set \<Rightarrow> page_id \<Rightarrow> nat \<Rightarrow> pool \<Rightarrow> (pool \<times> db_record result) option" where
  "HF_FindLoop visited current first_slot bp =
     (if current = INVALID_PAGE_ID then Some (bp, Inl (NotFound ''No more records in HeapFile''))
      else if current \<in> visited
      then Some (bp, Inl (IOError ''Cycle detected in HeapFile page chain''))
      else (case FetchPage current bp of
          (bp, None) \<Rightarrow> Some (bp, Inl (IOError ''Could not fetch HeapFile page while scanning''))
        | (bp, Some f) \<Rightarrow>
            if \<not> SP_IsInitialized (Some (frame_of bp f)) then
              Some (fst (UnpinPage current False bp), Inl (IOError ''HeapFile contains an uninitialized page''))
            else (case UnpinPage current False bp of (bp', unpinned) \<Rightarrow>
              (case ScanSlots (frame_of bp f) [first_slot..<SP_GetSlotCount (Some (frame_of bp f))] of
                 Some (Inr candidate) \<Rightarrow>
                   if \<not> unpinned then Some (bp', Inl (IOError ''Could not unpin scanned HeapFile page''))
                   else Some (bp', Inr candidate)
               | Some (Inl st) \<Rightarrow> Some (bp', Inl st)
               | None \<Rightarrow>
                   if \<not> unpinned then Some (bp', Inl (IOError ''Could not unpin scanned HeapFile page''))
                   else HF_FindLoop (insert current visited)
                          (SP_GetNextPageId (Some (frame_of bp f))) 0 bp'))))"

definition HF_FindRecordFrom :: "page_id \<Rightarrow> nat \<Rightarrow> pool \<Rightarrow> (pool \<times> db_record result) option" where
  "HF_FindRecordFrom p first_slot bp = HF_FindLoop {} p first_slot bp"

definition HF_GetFirstRecord :: "page_id \<Rightarrow> pool \<Rightarrow> (pool \<times> db_record result) option" where
  "HF_GetFirstRecord first_page_id bp = HF_FindRecordFrom first_page_id 0 bp"

definition HF_GetNextRecord :: "record_id \<Rightarrow> pool \<Rightarrow> (pool \<times> db_record result) option" where
  "HF_GetNextRecord current_rid bp =
     (if rid_page current_rid \<le> HEADER_PAGE_ID
      then Some (bp, Inl (InvalidArgument ''Current RecordID contains an invalid page id''))
      else HF_FindRecordFrom (rid_page current_rid) (rid_slot current_rid + 1) bp)"

end
