(* ===== verification/Pool_Health.thy ===== *)
theory Pool_Health
  imports Buffer_Pool_Properties
begin

text \<open>
  When the buffer pool never refuses: a disk without failures to come, no page pinned and at least
  one frame. Every operation keeps the number of frames and, on such a disk, meets no failure, so a
  client that returns the pins it took finds the pool as able as before. No operation shortens the file.
\<close>

definition keeps_health :: "pool \<Rightarrow> pool \<Rightarrow> bool" where
  "keeps_health bp bp' \<longleftrightarrow> length (pages bp') = length (pages bp) \<and>
     (disk_io (pool_disk bp) = [] \<longrightarrow> disk_io (pool_disk bp') = []) \<and>
     num_pages (pool_disk bp) \<le> num_pages (pool_disk bp')"

definition healthy :: "pool \<Rightarrow> bool" where
  "healthy bp \<longleftrightarrow> pool_ok {} bp \<and> disk_io (pool_disk bp) = [] \<and> pins bp = (\<lambda>_. 0) \<and> pages bp \<noteq> []"

lemma keeps_health_refl [simp]: "keeps_health bp bp"
  by (simp add: keeps_health_def)

lemma keeps_health_trans: "keeps_health a b \<Longrightarrow> keeps_health b c \<Longrightarrow> keeps_health a c"
  by (simp add: keeps_health_def)

lemma healthy_kept:
  "healthy bp \<Longrightarrow> keeps_health bp bp' \<Longrightarrow> pool_ok {} bp' \<Longrightarrow> pins bp' = pins bp \<Longrightarrow> healthy bp'"
  by (auto simp: healthy_def keeps_health_def)

section \<open>The disk meets no failure\<close>

definition disk_kept :: "disk \<Rightarrow> disk \<Rightarrow> bool" where
  "disk_kept d d' \<longleftrightarrow> (disk_io d = [] \<longrightarrow> disk_io d' = []) \<and> num_pages d \<le> num_pages d'"

lemma stream_kept:
  "stream_write p bs d = (d', r) \<Longrightarrow> disk_io d = [] \<Longrightarrow> disk_io d' = []"
  "stream_read p d = (d', x) \<Longrightarrow> disk_io d = [] \<Longrightarrow> disk_io d' = []"
  "stream_write p bs d = (d', r) \<Longrightarrow> num_pages d' = num_pages d"
  "stream_read p d = (d', x) \<Longrightarrow> num_pages d' = num_pages d"
  by (auto simp: stream_write_def stream_read_def Let_def next_event_def consume_event_def split: io_event.splits)

lemma WritePage_kept: "WritePage p bs d = (d', st) \<Longrightarrow> disk_kept d d'"
  by (auto simp: WritePage_def disk_kept_def dest: stream_kept split: if_splits option.splits prod.splits io_outcome.splits)

lemma ReadPage_kept: "ReadPage p bs d = (d', x) \<Longrightarrow> disk_kept d d'"
  by (auto simp: ReadPage_def Let_def disk_kept_def dest: stream_kept split: if_splits option.splits prod.splits io_outcome.splits)

lemma AllocatePage_kept: "AllocatePage d = (d', n) \<Longrightarrow> disk_kept d d'"
  by (auto simp: AllocatePage_def Let_def disk_kept_def dest: stream_kept(1,3) split: if_splits prod.splits io_outcome.splits)

lemma DeallocatePage_kept: "disk_kept d (DeallocatePage q d)"
  by (auto simp: DeallocatePage_def disk_kept_def dest: stream_kept split: prod.splits io_outcome.splits)

section \<open>Each operation of the pool\<close>

lemma keeps_health_simps [simp]:
  "keeps_health bp (set_frame f pg b) = keeps_health bp b"
  "keeps_health bp (ErasePage p b) = keeps_health bp b"
  "keeps_health bp (b\<lparr>replacer := r\<rparr>) = keeps_health bp b"
  "keeps_health bp (b\<lparr>free_list := fl\<rparr>) = keeps_health bp b"
  "keeps_health bp (b\<lparr>buffer_hits := h\<rparr>) = keeps_health bp b"
  "keeps_health bp (b\<lparr>buffer_misses := h\<rparr>) = keeps_health bp b"
  "keeps_health bp (b\<lparr>disk_reads := h\<rparr>) = keeps_health bp b"
  "keeps_health bp (b\<lparr>disk_writes := h\<rparr>) = keeps_health bp b"
  "keeps_health bp (GiveBack f c b) = keeps_health bp b"
  "keeps_health bp (InstallPage p f data b) = keeps_health bp b"
  by (simp_all add: keeps_health_def set_frame_def ErasePage_def GiveBack_def InstallPage_def Let_def)

lemma TakeFrame_health: "TakeFrame b = (b', x) \<Longrightarrow> keeps_health bp b' = keeps_health bp b"
  by (auto simp: TakeFrame_def split: list.splits prod.splits option.splits)

lemma keeps_health_disk:
  "keeps_health bp b \<Longrightarrow> disk_kept (pool_disk b) d \<Longrightarrow> keeps_health bp (b\<lparr>pool_disk := d\<rparr>)"
  by (auto simp: keeps_health_def disk_kept_def)

lemma EvictWrite_health:
  assumes "EvictWrite f c b = (b', ok)" "keeps_health bp b"
  shows "keeps_health bp b'"
  using assms keeps_health_disk[OF assms(2)] WritePage_kept
  by (auto simp: EvictWrite_def WriteFrame_def split: if_splits prod.splits)

lemma UnpinPage_health: "UnpinPage p d bp = (bp', ok) \<Longrightarrow> keeps_health bp bp'"
  by (auto simp: UnpinPage_def Let_def split: option.splits if_splits)

lemma DeletePage_health: "DeletePage p bp = (bp', ok) \<Longrightarrow> keeps_health bp bp'"
  using DeallocatePage_kept[of "pool_disk bp" p]
  by (auto simp: DeletePage_def Let_def keeps_health_def set_frame_def ErasePage_def disk_kept_def
      split: option.splits if_splits)

lemma FetchPage_health:
  assumes "FetchPage p bp = (bp', r)"
  shows "keeps_health bp bp'"
proof (cases "p < 0 \<or> page_table bp p \<noteq> None")
  case True
  then show ?thesis using assms by (auto simp: FetchPage_def Let_def split: if_splits)
next
  case False
  obtain b1 t where tk: "TakeFrame (bp\<lparr>buffer_misses := buffer_misses bp + 1\<rparr>) = (b1, t)"
    by (cases "TakeFrame (bp\<lparr>buffer_misses := buffer_misses bp + 1\<rparr>)")
  have k1: "keeps_health bp b1" using TakeFrame_health[OF tk] by simp
  obtain d buf st where rd: "ReadPage p (Some zero_page) (pool_disk b1) = (d, buf, st)"
    by (cases "ReadPage p (Some zero_page) (pool_disk b1)")
  have k2: "keeps_health bp (b1\<lparr>pool_disk := d\<rparr>)"
    using keeps_health_disk[OF k1] ReadPage_kept[OF rd] by simp
  have k3: "keeps_health bp b" if "EvictWrite f c (b1\<lparr>pool_disk := d, disk_reads := disk_reads b1 + 1\<rparr>) = (b, ok)"
    for f c b ok using EvictWrite_health[OF that] k2 by simp
  show ?thesis
    using assms False k1 k2 k3 tk rd
    by (auto simp: FetchPage_miss_eq split: option.splits prod.splits if_splits bool.splits)
qed

lemma NewPage_health:
  assumes "NewPage bp = (bp', r)"
  shows "keeps_health bp bp'"
proof -
  obtain b1 t where tk: "TakeFrame bp = (b1, t)" by (cases "TakeFrame bp")
  have k1: "keeps_health bp b1" using TakeFrame_health[OF tk] by simp
  have k2: "keeps_health bp b" if "EvictWrite f c b1 = (b, ok)" for f c b ok
    by (rule EvictWrite_health[OF that k1])
  have k3: "keeps_health bp (b\<lparr>pool_disk := d\<rparr>)" if "keeps_health bp b" "AllocatePage (pool_disk b) = (d, n)" for b d n
    by (rule keeps_health_disk[OF that(1)]) (rule AllocatePage_kept[OF that(2)])
  show ?thesis
  proof (cases t)
    case None
    then show ?thesis using assms k1 tk by (simp add: NewPage_eq)
  next
    case (Some fc)
    obtain f c where fc: "t = Some (f, c)" using Some by (cases fc) auto
    obtain b2 ok where ev: "EvictWrite f c b1 = (b2, ok)" by (cases "EvictWrite f c b1")
    obtain d n where al: "AllocatePage (pool_disk b2) = (d, n)" by (cases "AllocatePage (pool_disk b2)")
    show ?thesis
      using assms fc tk ev al k2[OF ev] k3[OF k2[OF ev] al]
      by (cases ok) (auto simp: NewPage_eq split: if_splits)
  qed
qed

section \<open>A healthy pool serves\<close>

lemma healthy_frame:
  assumes "healthy bp"
  shows "\<exists>f. valid_frame bp f \<and> pin_count (frame_of bp f) = 0"
proof -
  have wf: "pool_wf bp {} {}" and v: "valid_frame bp 0"
    using assms by (auto simp: healthy_def valid_frame_def pool_ok_def pool_inv_def)
  have "pin_count (frame_of bp 0) = 0"
  proof (cases "mapped bp 0")
    case True
    then have "pins bp (page_pid (frame_of bp 0)) = pin_count (frame_of bp 0)"
      by (simp add: mapped_def pins_def)
    then show ?thesis using assms by (simp add: healthy_def)
  next
    case False
    then show ?thesis using wf v unfolding pool_wf_def by blast
  qed
  then show ?thesis using v by blast
qed

lemma pool_page_bound: "pool_ok X bp \<Longrightarrow> pool_page bp q = Some d \<Longrightarrow> 0 \<le> q \<and> q < num_pages (pool_disk bp)"
  using pool_wf_table(3,4)
  by (auto simp: pool_ok_def pool_inv_def pool_page_def disk_page_def split: option.splits if_splits)

lemma FetchPage_healthy:
  assumes "healthy bp" "pool_page bp p \<noteq> None"
  shows "\<exists>b f. FetchPage p bp = (b, Some f)"
proof -
  have ok: "pool_ok {} bp" "disk_io (pool_disk bp) = []" using assms(1) by (simp_all add: healthy_def)
  obtain d where d: "pool_page bp p = Some d" using assms(2) by blast
  have "page_table bp p \<noteq> None \<or> p < num_pages (pool_disk bp)" "0 \<le> p"
    using pool_page_bound[OF ok(1) d] by simp_all
  then have "snd (FetchPage p bp) \<noteq> None" using FetchPage_iff[OF ok, of p] healthy_frame[OF assms(1)] by auto
  then show ?thesis by (metis option.exhaust prod.collapse)
qed

lemma AllocatePage_fault_free:
  assumes "disk_io d = []" "disk_inv d"
  shows "snd (AllocatePage d) \<noteq> INVALID_PAGE_ID"
proof -
  have "0 \<le> num_pages d" "finite (free_pages d)" "\<forall>q \<in> free_pages d. 1 \<le> q"
    using assms(2) by (auto simp: disk_inv_def)
  moreover from this have "free_pages d \<noteq> {} \<Longrightarrow> 1 \<le> Min (free_pages d)" by simp
  ultimately have "0 \<le> num_pages d" "Min (free_pages d) \<noteq> -1 \<or> free_pages d = {}" by force+
  then show ?thesis
    using assms(1) by (auto simp: AllocatePage_def Let_def stream_write_def next_event_def consume_event_def
        layout_simps)
qed

lemma NewPage_healthy:
  assumes "healthy bp"
  shows "\<exists>b n f. NewPage bp = (b, Some (n, f))"
proof -
  have ok: "pool_ok {} bp" "disk_io (pool_disk bp) = []" using assms by (simp_all add: healthy_def)
  obtain b1 f c where tk: "TakeFrame bp = (b1, Some (f, c))"
    using healthy_frame[OF assms] TakeFrame_available[OF ok(1)] by force
  note T = TakeFrame_ok[OF ok(1) tk]
  have io1: "disk_io (pool_disk b1) = []" using T ok(2) by simp
  obtain b2 where ev: "EvictWrite f c b1 = (b2, True)" using EvictWrite_fault_free[OF _ io1] T by blast
  have "keeps_health b1 b2" using EvictWrite_health[OF ev] by simp
  then have io2: "disk_io (pool_disk b2) = []" using io1 by (simp add: keeps_health_def)
  have "taken_ok {} b2 f c" using EvictWrite_ok[OF _ ev] T by simp
  then have "disk_inv (pool_disk b2)" by (auto simp: taken_ok_def taken_def pool_wf_def split: if_splits)
  then have "snd (AllocatePage (pool_disk b2)) \<noteq> INVALID_PAGE_ID" by (rule AllocatePage_fault_free[OF io2])
  then show ?thesis using tk ev by (auto simp: NewPage_eq split: prod.splits)
qed

end
