(* ===== verification/Page_Client.thy ===== *)
theory Page_Client
  imports Pool_Health
begin

text \<open>
  What a client of the buffer pool does, stated once for the heap file and the hash index: it looks at a
  page, modifies one, allocates one and discards it again, and follows links from page to page. Each
  idiom is a lemma about the pages that the pool presents.
\<close>

section \<open>Pages seen through their bytes\<close>

definition view :: "page_id \<Rightarrow> byte list \<Rightarrow> page" where
  "view p d = \<lparr>page_data = d, page_pid = p, pin_count = 0, is_dirty = False\<rparr>"

lemma view_simps [simp]: "page_data (view p d) = d" "page_pid (view p d) = p"
  by (simp_all add: view_def)

type_synonym pages_map = "page_id \<Rightarrow> byte list option"

definition page_at :: "pages_map \<Rightarrow> page_id \<Rightarrow> page" where
  "page_at c p = view p (the (c p))"

section \<open>Chains of pages\<close>

text \<open>A chain of pages that satisfy \<open>ok\<close>, where \<open>nxt\<close> reads the link to the next page.\<close>

fun linked :: "(page \<Rightarrow> bool) \<Rightarrow> (page \<Rightarrow> page_id) \<Rightarrow> pages_map \<Rightarrow> page_id \<Rightarrow> page_id list \<Rightarrow> bool" where
  "linked ok nxt c p [] \<longleftrightarrow> p = INVALID_PAGE_ID"
| "linked ok nxt c p (q # qs) \<longleftrightarrow> p = q \<and> 1 \<le> q \<and> c q \<noteq> None \<and> ok (page_at c q) \<and>
     linked ok nxt c (nxt (page_at c q)) qs"

lemma linked_cong:
  "linked ok nxt c p ps \<Longrightarrow> \<forall>q \<in> set ps. c' q = c q \<Longrightarrow> linked ok nxt c' p ps"
  by (induction ps arbitrary: p) (auto simp: page_at_def)

lemma linked_page:
  "linked ok nxt c p ps \<Longrightarrow> q \<in> set ps \<Longrightarrow> 1 \<le> q \<and> c q \<noteq> None \<and> ok (page_at c q)"
  by (induction ps arbitrary: p) auto

lemma linked_split:
  "linked ok nxt c p (pre @ q # suf) \<Longrightarrow> linked ok nxt c (nxt (page_at c q)) suf"
  by (induction pre arbitrary: p) auto

text \<open>A page of the chain is replaced by one with the same link.\<close>

lemma linked_update:
  assumes "linked ok nxt c p ps" "ok (view q d)"
    "q \<in> set ps \<Longrightarrow> nxt (view q d) = nxt (page_at c q)"
  shows "linked ok nxt (c(q \<mapsto> d)) p ps"
  using assms by (induction ps arbitrary: p) (auto simp: page_at_def)

text \<open>A page is appended behind the last one.\<close>

lemma linked_append:
  assumes "linked ok nxt c p (pre @ [l])" "n \<notin> set (pre @ [l])" "distinct (pre @ [l])" "1 \<le> n"
    "ok (view n dn)" "nxt (view n dn) = INVALID_PAGE_ID"
    "ok (view l dl)" "nxt (view l dl) = n"
  shows "linked ok nxt (c(n \<mapsto> dn, l \<mapsto> dl)) p (pre @ [l, n])"
  using assms
proof (induction pre arbitrary: p)
  case Nil
  then show ?case by (auto simp: page_at_def)
next
  case (Cons a pre)
  have "a \<noteq> n" "a \<noteq> l" using Cons.prems by auto
  then show ?case using Cons by (auto simp: page_at_def)
qed

lemma linked_suffix: "linked ok nxt c p (pre @ q # suf) \<Longrightarrow> linked ok nxt c q (q # suf)"
  by (induction pre arbitrary: p) auto

section \<open>Fetch, look or modify, unpin\<close>

lemma set_frame_id: "valid_frame bp f \<Longrightarrow> set_frame f (frame_of bp f) bp = bp"
  by (simp add: set_frame_def frame_of_def)

lemma fetched_page:
  assumes "pool_ok X bp" "p \<notin> free_pages (pool_disk bp)" "FetchPage p bp = (b, Some f)"
  shows "pool_ok X b \<and> same_pages bp b \<and> pins b = (pins bp)(p := pins bp p + 1) \<and> page_table b p = Some f \<and>
    page_pid (frame_of b f) = p \<and> pool_page bp p = Some (page_data (frame_of b f)) \<and> 0 < pins b p \<and>
    valid_frame b f \<and> 0 \<le> pins bp p"
proof -
  have F: "pool_ok X b" "same_pages bp b" "pins b = (pins bp)(p := pins bp p + 1)" "page_table b p = Some f"
    using FetchPage_spec[OF assms] by simp_all
  have wf: "pool_wf b {} {}" using F(1) by (simp add: pool_ok_def pool_inv_def)
  have "0 \<le> pins bp p" using pins_nonneg[of bp "{}" "{}"] assms(1) by (simp add: pool_ok_def pool_inv_def)
  moreover have "pool_page b p = Some (page_data (frame_of b f))" using F(4) by (simp add: pool_page_def)
  ultimately show ?thesis using F pool_wf_table(1,2)[OF wf F(4)] by (simp add: same_pages_def)
qed

lemma peek:
  assumes "pool_ok {} bp" "p \<notin> free_pages (pool_disk bp)" "FetchPage p bp = (b, Some f)"
    "UnpinPage p False b = (b', ok)"
  shows "ok \<and> pool_ok {} b' \<and> same_pages bp b' \<and> pins b' = pins bp"
proof -
  note F = fetched_page[OF assms(1-3)]
  have F1: "pool_ok {} b" "same_pages bp b" "pins b = (pins bp)(p := pins bp p + 1)" "0 < pins b p"
    using F by simp_all
  have U: "pool_ok {} b'" "same_pages b b'" "ok" "pins b' = (pins b)(p := pins b p - 1)"
    using UnpinPage_spec[OF F1(1) assms(4)] F1(4) by simp_all
  then show ?thesis using F1 same_pages_trans[of bp b b'] by auto
qed

text \<open>The result of modifying one page: every other page, all pins and the free set are as before.\<close>

definition wrote :: "page_id \<Rightarrow> byte list \<Rightarrow> pool \<Rightarrow> pool \<Rightarrow> bool" where
  "wrote p d bp bp' \<longleftrightarrow> pool_ok {} bp' \<and> pins bp' = pins bp \<and> pool_page bp' = (pool_page bp)(p \<mapsto> d) \<and>
     num_pages (pool_disk bp') = num_pages (pool_disk bp) \<and>
     free_pages (pool_disk bp') = free_pages (pool_disk bp)"

lemma modify_pinned:
  assumes "pool_ok {} b" "page_table b p = Some f" "0 < pins b p" "page_pid pg = p"
    "pin_count pg = pin_count (frame_of b f)" "length (page_data pg) = PAGE_SIZE"
    "UnpinPage p True (set_frame f pg b) = (b', ok)"
  shows "ok \<and> pool_ok {} b' \<and> pins b' = (pins b)(p := pins b p - 1) \<and>
    pool_page b' = (pool_page b)(p \<mapsto> page_data pg) \<and>
    num_pages (pool_disk b') = num_pages (pool_disk b) \<and> free_pages (pool_disk b') = free_pages (pool_disk b)"
proof -
  note W = client_write[OF assms(1-6)]
  have U: "pool_ok ({p} - {p}) b'" "same_pages (set_frame f pg b) b'" "ok"
    "pins b' = (pins b)(p := pins b p - 1)"
    using UnpinPage_spec[OF W(1) assms(7)] W(4) assms(3) by simp_all
  then show ?thesis using W(3) by (simp add: same_pages_def)
qed

lemma modify:
  assumes "pool_ok {} bp" "p \<notin> free_pages (pool_disk bp)" "FetchPage p bp = (b, Some f)"
    "page_pid pg = p" "pin_count pg = pin_count (frame_of b f)" "length (page_data pg) = PAGE_SIZE"
    "UnpinPage p True (set_frame f pg b) = (b', ok)"
  shows "ok \<and> wrote p (page_data pg) bp b'"
proof -
  note F = fetched_page[OF assms(1-3)]
  have M: "ok" "pool_ok {} b'" "pins b' = (pins b)(p := pins b p - 1)"
    "pool_page b' = (pool_page b)(p \<mapsto> page_data pg)"
    "num_pages (pool_disk b') = num_pages (pool_disk b)" "free_pages (pool_disk b') = free_pages (pool_disk b)"
    using modify_pinned[OF _ _ _ assms(4-7)] F by simp_all
  then show ?thesis using F by (simp add: wrote_def same_pages_def fun_upd_idem)
qed

section \<open>A kind of page\<close>

text \<open>A format of pages: what makes one well formed and where its link is, both read from its bytes.\<close>

locale page_kind =
  fixes ok :: "page \<Rightarrow> bool"
    and nxt :: "page \<Rightarrow> page_id"
  assumes ok_bytes: "page_pid a = page_pid b \<Longrightarrow> page_data a = page_data b \<Longrightarrow> ok a = ok b"
    and nxt_bytes: "page_pid a = page_pid b \<Longrightarrow> page_data a = page_data b \<Longrightarrow> nxt a = nxt b"
    and ok_size: "ok pg \<Longrightarrow> length (page_data pg) = PAGE_SIZE"
begin

lemma view_ok: "page_pid pg = p \<Longrightarrow> ok (view p (page_data pg)) = ok pg \<and> nxt (view p (page_data pg)) = nxt pg"
  using ok_bytes[of "view p (page_data pg)" pg] nxt_bytes[of "view p (page_data pg)" pg] by simp

lemma frame_ok:
  assumes "pool_ok {} bp" "p \<notin> free_pages (pool_disk bp)" "FetchPage p bp = (b, Some f)"
  shows "ok (frame_of b f) = ok (page_at (pool_page bp) p) \<and> nxt (frame_of b f) = nxt (page_at (pool_page bp) p) \<and>
    page_pid (frame_of b f) = p \<and> page_at (pool_page bp) p = view p (page_data (frame_of b f)) \<and> valid_frame b f"
  using fetched_page[OF assms] view_ok[of "frame_of b f" p] by (simp add: page_at_def)

text \<open>A fetched page of the kind is changed, keeping its link.\<close>

lemma change_page:
  assumes "pool_ok {} bp" "p \<notin> free_pages (pool_disk bp)" "FetchPage p bp = (b, Some f)"
    "ok pg" "page_pid pg = p" "pin_count pg = pin_count (frame_of b f)"
    "UnpinPage p True (set_frame f pg b) = (b', u)"
  shows "u \<and> wrote p (page_data pg) bp b' \<and> ok (page_at (pool_page b') p) \<and> nxt (page_at (pool_page b') p) = nxt pg"
proof -
  have W: "u" "wrote p (page_data pg) bp b'" using modify[OF assms(1-3,5,6) ok_size[OF assms(4)] assms(7)] by simp_all
  then have "page_at (pool_page b') p = view p (page_data pg)" by (simp add: page_at_def wrote_def)
  then show ?thesis using W view_ok[OF assms(5)] assms(4) by simp
qed

end

section \<open>Looking at a page\<close>

definition read_only :: "pool \<Rightarrow> pool \<Rightarrow> bool" where
  "read_only bp bp' \<longleftrightarrow> pool_ok {} bp' \<and> same_pages bp bp' \<and> pins bp' = pins bp \<and> keeps_health bp bp'"

lemma read_only_trans: "read_only a b \<Longrightarrow> read_only b c \<Longrightarrow> read_only a c"
  using same_pages_trans keeps_health_trans unfolding read_only_def by metis

lemma read_only_healthy: "read_only bp bp' \<Longrightarrow> healthy bp \<Longrightarrow> healthy bp'"
  using healthy_kept[of bp bp'] by (simp add: read_only_def)

lemma read_only_pages: "read_only bp bp' \<Longrightarrow> pool_page bp' = pool_page bp"
  by (simp add: read_only_def same_pages_def)

lemma look_at:
  assumes "pool_ok {} bp" "p \<notin> free_pages (pool_disk bp)" "pool_page bp p \<noteq> None" "FetchPage p bp = (b, r)"
  shows "case r of None \<Rightarrow> read_only bp b \<and> \<not> healthy bp
    | Some f \<Rightarrow> \<exists>b'. UnpinPage p False b = (b', True) \<and> read_only bp b'"
proof (cases r)
  case None
  then have "\<not> healthy bp" using FetchPage_healthy[of bp p] assms(3,4) by auto
  then show ?thesis
    using FetchPage_spec[OF assms(1,2,4)] FetchPage_health[OF assms(4)] None by (simp add: read_only_def)
next
  case (Some f)
  obtain b' ok where u: "UnpinPage p False b = (b', ok)" by (cases "UnpinPage p False b")
  note P = peek[OF assms(1,2) assms(4)[unfolded Some] u]
  have "keeps_health bp b'"
    using keeps_health_trans[OF FetchPage_health[OF assms(4)] UnpinPage_health[OF u]] .
  then show ?thesis using P u Some by (simp add: read_only_def)
qed

section \<open>A page that is not in use yet\<close>

definition fresh_page :: "page_id \<Rightarrow> pool \<Rightarrow> bool" where
  "fresh_page n bp \<longleftrightarrow> 1 \<le> n \<and> pins bp n = 0 \<and>
     (n \<in> free_pages (pool_disk bp) \<or> n = num_pages (pool_disk bp))"

definition aside :: "page_id \<Rightarrow> pool \<Rightarrow> pool \<Rightarrow> bool" where
  "aside n bp bp' \<longleftrightarrow> pool_ok {} bp' \<and> (\<forall>q. q \<noteq> n \<longrightarrow> pool_page bp' q = pool_page bp q) \<and>
     free_pages (pool_disk bp') \<subseteq> insert n (free_pages (pool_disk bp))"

lemma fresh_not_used:
  assumes "pool_ok X bp" "fresh_page n bp" "pool_page bp q \<noteq> None" "q \<notin> free_pages (pool_disk bp)"
  shows "q \<noteq> n"
  using assms pool_page_bound[OF assms(1)] by (auto simp: fresh_page_def)

lemma aside_same:
  assumes "aside n bp b" "pool_ok {} b'" "same_pages b b'"
  shows "aside n bp b'"
  using assms by (auto simp: aside_def same_pages_def)

lemma aside_delete:
  assumes "aside n bp b" "pins b = pins bp"
  shows "aside n bp (fst (DeletePage n b)) \<and> pins (fst (DeletePage n b)) = pins bp"
proof -
  obtain b' ok where d: "DeletePage n b = (b', ok)" by (cases "DeletePage n b")
  have "pool_ok {} b" using assms(1) by (simp add: aside_def)
  from DeletePage_spec[OF this d] show ?thesis using assms d by (auto simp: aside_def)
qed

lemma aside_unpin_delete:
  assumes "aside n bp b" "pins b = (pins bp)(n := 1)" "pins bp n = 0"
  shows "aside n bp (fst (DeletePage n (fst (UnpinPage n d b)))) \<and>
    pins (fst (DeletePage n (fst (UnpinPage n d b)))) = pins bp"
proof -
  obtain b' ok where u: "UnpinPage n d b = (b', ok)" by (cases "UnpinPage n d b")
  have "pool_ok {} b" using assms(1) by (simp add: aside_def)
  from UnpinPage_spec[OF this u] have "aside n bp b'" "pins b' = pins bp"
    using assms aside_same[OF assms(1), of b'] by (auto split: if_splits)
  then show ?thesis using aside_delete[of n bp b'] u by simp
qed

lemma NewPage_fresh:
  assumes "pool_ok {} bp" "NewPage bp = (b, Some (n, f))"
  shows "fresh_page n bp" "aside n bp b" "pins b = (pins bp)(n := 1)" "pins bp n = 0"
    "page_table b n = Some f" "1 \<le> n" "n \<notin> free_pages (pool_disk b)"
    "free_pages (pool_disk b) \<subseteq> free_pages (pool_disk bp)" "page_pid (frame_of b f) = n"
proof -
  note N = NewPage_spec[OF assms, simplified]
  show "page_table b n = Some f" using N by simp
  moreover have "pool_wf b {} {}" using N by (simp add: pool_ok_def pool_inv_def)
  ultimately show "page_pid (frame_of b f) = n" using pool_wf_table(2)[of b "{}" "{}" n f] by simp
qed (use NewPage_spec[OF assms, simplified] in \<open>auto simp: fresh_page_def aside_def\<close>)

lemma aside_write:
  assumes "aside n bp b" "page_table b n = Some f" "0 < pins b n" "page_pid pg = n"
    "pin_count pg = pin_count (frame_of b f)" "length (page_data pg) = PAGE_SIZE" "is_dirty pg"
  shows "aside n bp (set_frame f pg b)" "pins (set_frame f pg b) = pins b"
    "page_table (set_frame f pg b) = page_table b" "pool_disk (set_frame f pg b) = pool_disk b"
    "pool_page (set_frame f pg b) = (pool_page b)(n \<mapsto> page_data pg)"
    "frame_of (set_frame f pg b) f = pg"
proof -
  have ok: "pool_ok {} b" using assms(1) by (simp add: aside_def)
  note W = client_write[OF ok assms(2-6)]
  show "pool_page (set_frame f pg b) = (pool_page b)(n \<mapsto> page_data pg)" "pins (set_frame f pg b) = pins b"
    using W by simp_all
  show "page_table (set_frame f pg b) = page_table b" "pool_disk (set_frame f pg b) = pool_disk b"
    by (simp_all add: set_frame_def)
  then show "aside n bp (set_frame f pg b)" using assms(1) W(2)[OF assms(7)] W(3) by (simp add: aside_def)
  have "pool_wf b {} {}" using ok by (simp add: pool_ok_def pool_inv_def)
  from pool_wf_table(1)[OF this assms(2)] show "frame_of (set_frame f pg b) f = pg"
    by (simp add: set_frame_def frame_of_def valid_frame_def nat_less_iff)
qed

lemma fresh_page_i32:
  assumes "pool_ok {} bp" "fresh_page n bp" "num_pages (pool_disk bp) < 2147483648"
  shows "is_i32 n"
proof -
  have "n \<le> num_pages (pool_disk bp)"
    using assms(1,2) by (auto simp: fresh_page_def pool_ok_def pool_inv_def pool_wf_def disk_inv_def)
  then show ?thesis using assms(2,3) by (simp add: fresh_page_def is_i32_def)
qed

text \<open>
  Pages in use outside a client's own, and pins, are as before: the pages keep their contents and are
  not freed. A page that a client takes was not in use.
\<close>

definition unused :: "page_id \<Rightarrow> pool \<Rightarrow> bool" where
  "unused q bp \<longleftrightarrow> pool_page bp q = None \<or> q \<in> free_pages (pool_disk bp)"

definition grows :: "page_id list \<Rightarrow> page_id list \<Rightarrow> pool \<Rightarrow> bool" where
  "grows ps qs bp \<longleftrightarrow> set ps \<subseteq> set qs \<and> (\<forall>q \<in> set qs - set ps. unused q bp)"

lemma grows_refl [simp]: "grows ps ps bp"
  by (simp add: grows_def)

lemma fresh_unused: "pool_ok X bp \<Longrightarrow> fresh_page n bp \<Longrightarrow> unused n bp"
  unfolding unused_def using fresh_not_used by blast

definition outside_kept :: "page_id list \<Rightarrow> pool \<Rightarrow> pool \<Rightarrow> bool" where
  "outside_kept ps bp bp' \<longleftrightarrow> pins bp' = pins bp \<and>
     (\<forall>q. q \<notin> set ps \<longrightarrow> \<not> unused q bp \<longrightarrow>
        pool_page bp' q = pool_page bp q \<and> q \<notin> free_pages (pool_disk bp'))"

lemma outside_kept_same: "same_pages bp bp' \<Longrightarrow> pins bp' = pins bp \<Longrightarrow> outside_kept ps bp bp'"
  by (auto simp: outside_kept_def same_pages_def unused_def)

lemma outside_kept_refl [simp]: "outside_kept ps bp bp"
  by (simp add: outside_kept_def unused_def)

lemma wrote_outside: "wrote p d bp bp' \<Longrightarrow> p \<in> set ps \<Longrightarrow> outside_kept ps bp bp'"
  by (auto simp: outside_kept_def wrote_def unused_def)

lemma outside_kept_page:
  "outside_kept ps bp bp' \<Longrightarrow> q \<notin> set ps \<Longrightarrow> \<not> unused q bp \<Longrightarrow>
    pool_page bp' q = pool_page bp q \<and> q \<notin> free_pages (pool_disk bp') \<and> \<not> unused q bp'"
  by (auto simp: outside_kept_def unused_def)

lemma outside_kept_trans: "outside_kept ps a b \<Longrightarrow> outside_kept ps b c \<Longrightarrow> outside_kept ps a c"
  unfolding outside_kept_def unused_def by metis

lemma outside_kept_mono: "outside_kept ps a b \<Longrightarrow> set ps \<subseteq> set qs \<Longrightarrow> outside_kept qs a b"
  by (auto simp: outside_kept_def)

lemma aside_outside:
  assumes "pool_ok X bp" "fresh_page n bp" "aside n bp bp'" "pins bp' = pins bp"
  shows "outside_kept ps bp bp'"
  using fresh_not_used[OF assms(1,2)] assms(3,4) by (auto simp: outside_kept_def unused_def aside_def)

lemma linked_unique: "linked ok nxt c p ps \<Longrightarrow> linked ok nxt c p ps' \<Longrightarrow> ps' = ps"
proof (induction ps arbitrary: p ps')
  case Nil
  then show ?case by (cases ps') (auto simp: layout_simps)
next
  case (Cons q ps)
  then show ?case by (cases ps') (auto simp: layout_simps)
qed

section \<open>An object kept on pages of its own\<close>

text \<open>
  The contract of a structure that lives on pages of the pool: a heap file and a hash index promise it.
  \<open>st\<close> says that the object, described by the pages it is made of, is intact; \<open>cont\<close> is what it
  contains. Its client lemmas let several objects share one pool.
\<close>

locale paged_object =
  fixes st :: "pool \<Rightarrow> 'o \<Rightarrow> bool"
    and page_list :: "'o \<Rightarrow> page_id list"
    and cont :: "pages_map \<Rightarrow> 'o \<Rightarrow> 'c"
  assumes st_ok: "st bp ob \<Longrightarrow> pool_ok {} bp"
    and st_distinct: "st bp ob \<Longrightarrow> distinct (page_list ob)"
    and st_used: "st bp ob \<Longrightarrow> q \<in> set (page_list ob) \<Longrightarrow> 1 \<le> q \<and> \<not> unused q bp"
    and st_kept: "st bp ob \<Longrightarrow> pool_ok {} b \<Longrightarrow>
      \<forall>q \<in> set (page_list ob). pool_page b q = pool_page bp q \<and> q \<notin> free_pages (pool_disk b) \<Longrightarrow>
      st b ob \<and> cont (pool_page b) ob = cont (pool_page bp) ob"
begin

lemma frame:
  assumes "st bp ob" "pool_ok {} b" "outside_kept qs bp b" "set qs \<inter> set (page_list ob) = {}"
  shows "st b ob \<and> cont (pool_page b) ob = cont (pool_page bp) ob"
proof (rule st_kept[OF assms(1,2)], rule ballI)
  fix q assume q: "q \<in> set (page_list ob)"
  then have "q \<notin> set qs" using assms(4) by blast
  then show "pool_page b q = pool_page bp q \<and> q \<notin> free_pages (pool_disk b)"
    using outside_kept_page[OF assms(3)] st_used[OF assms(1) q] by blast
qed

lemma apart_after_growth:
  assumes "st bp ob" "grows qs qs' bp" "set qs \<inter> set (page_list ob) = {}"
  shows "set qs' \<inter> set (page_list ob) = {}"
  using assms st_used[OF assms(1)] by (auto simp: grows_def)

lemma unchanged: "st bp ob \<Longrightarrow> read_only bp b \<Longrightarrow> st b ob \<and> cont (pool_page b) ob = cont (pool_page bp) ob"
  using frame[of bp ob b "[]"] outside_kept_same[of bp b "[]"] by (simp add: read_only_def)

end

lemma grows_trans:
  assumes "outside_kept ps a b" "grows ps qs a" "grows qs rs b"
  shows "grows ps rs a"
proof -
  have "unused q a" if "q \<in> set rs" "q \<notin> set ps" for q
  proof (cases "q \<in> set qs")
    case True
    then show ?thesis using assms(2) that(2) by (simp add: grows_def)
  next
    case False
    then have "unused q b" using assms(3) that(1) by (simp add: grows_def)
    then show ?thesis using outside_kept_page[OF assms(1) that(2)] by blast
  qed
  then show ?thesis using assms(2,3) by (auto simp: grows_def)
qed

text \<open>Two steps of a client whose pages grow in the first.\<close>

lemma outside_kept_grown:
  assumes "outside_kept ps a b" "grows ps qs a" "outside_kept qs b c"
  shows "outside_kept ps a c"
  unfolding outside_kept_def
proof (intro conjI allI impI)
  show "pins c = pins a" using assms(1,3) by (simp add: outside_kept_def)
  fix q assume q: "q \<notin> set ps" "\<not> unused q a"
  then have "q \<notin> set qs" "\<not> unused q b" "pool_page b q = pool_page a q"
    using assms(2) outside_kept_page[OF assms(1)] by (auto simp: grows_def)
  then show "pool_page c q = pool_page a q" "q \<notin> free_pages (pool_disk c)"
    using outside_kept_page[OF assms(3)] by simp_all
qed

section \<open>Health along a sequence of steps\<close>

lemma put_page_health: "keeps_health bp (put_page f res b) = keeps_health bp b"
  by (simp add: put_page_def split: sum.splits)

lemma fetch_unpin_health:
  assumes "FetchPage p bp = (b, r)" "UnpinPage p d b' = (b2, ok)" "keeps_health b b'"
  shows "keeps_health bp b2"
  using keeps_health_trans[OF keeps_health_trans[OF FetchPage_health[OF assms(1)] assms(3)]
    UnpinPage_health[OF assms(2)]] .

lemma fst_UnpinPage_health: "keeps_health bp b \<Longrightarrow> keeps_health bp (fst (UnpinPage p d b))"
  using UnpinPage_health[of p d b] keeps_health_trans by (cases "UnpinPage p d b") auto

lemma fst_DeletePage_health: "keeps_health bp b \<Longrightarrow> keeps_health bp (fst (DeletePage p b))"
  using DeletePage_health[of p b] keeps_health_trans by (cases "DeletePage p b") auto

lemma step_health:
  "keeps_health bp b \<Longrightarrow> UnpinPage p d b = (b', ok) \<Longrightarrow> keeps_health bp b'"
  "keeps_health bp b \<Longrightarrow> FetchPage p b = (b', r) \<Longrightarrow> keeps_health bp b'"
  "keeps_health bp b \<Longrightarrow> NewPage b = (b', x) \<Longrightarrow> keeps_health bp b'"
  using UnpinPage_health FetchPage_health NewPage_health keeps_health_trans by metis+

end
