(* ===== verification/Heap_File_Correct.thy ===== *)
theory Heap_File_Correct
  imports Heap_File Slotted_Page_Properties Page_Client
begin

text \<open>
  The lemmas about heap files. The abstract heap is the list of its pages and, over it, a map from
  record identifiers to records; \<open>hf_state\<close> ties it to the pages that the buffer pool presents.
  Every operation is shown to act on that map, or to leave it alone when it fails, whatever the
  buffer pool and the disk do.
\<close>

section \<open>Pages seen through their bytes\<close>

lemma view_eqs:
  assumes "page_pid pg = p" "page_data pg = d"
  shows "sp_slots pg = sp_slots (view p d)" "sp_next pg = sp_next (view p d)"
    "sp_wf pg = sp_wf (view p d)" "sp_inv pg = sp_inv (view p d)" "sp_free pg = sp_free (view p d)"
    "SP_IsInitialized (Some pg) = SP_IsInitialized (Some (view p d))"
    "sp_count pg = sp_count (view p d)"
proof -
  show i: "SP_IsInitialized (Some pg) = SP_IsInitialized (Some (view p d))"
    using assms by (simp add: SP_IsInitialized_def)
  show c: "sp_count pg = sp_count (view p d)" using assms by (simp add: sp_count_def)
  show s: "sp_slots pg = sp_slots (view p d)" using assms c by (simp add: sp_slots_def)
  show "sp_next pg = sp_next (view p d)" using assms by (simp add: sp_next_def)
  have f: "sp_fsp pg = sp_fsp (view p d)" using assms by (simp add: sp_fsp_def)
  show w: "sp_wf pg = sp_wf (view p d)" using assms i c s f by (simp add: sp_wf_def)
  show "sp_inv pg = sp_inv (view p d)" using w f s by (simp add: sp_inv_def)
  show "sp_free pg = sp_free (view p d)"
    using assms i by (simp add: sp_free_def SP_GetFreeSpace_def SP_GetSlotCount_def)
qed

lemma sp_inv_length: "sp_inv pg \<Longrightarrow> length (page_data pg) = PAGE_SIZE"
  by (simp add: sp_inv_def sp_wf_def)

interpretation slotted: page_kind sp_inv sp_next
proof (unfold_locales, goal_cases)
  case (1 a b)
  then show ?case using view_eqs(4)[of a "page_pid b" "page_data b"] view_eqs(4)[of b "page_pid b" "page_data b"] by simp
next
  case (2 a b)
  then show ?case using view_eqs(2)[of a "page_pid b" "page_data b"] view_eqs(2)[of b "page_pid b" "page_data b"] by simp
next
  case (3 pg)
  then show ?case by (rule sp_inv_length)
qed

lemma SP_ReadRecord_view:
  assumes "sp_wf pg" "page_pid pg = p" "page_data pg = d"
  shows "SP_ReadRecord (Some pg) s = SP_ReadRecord (Some (view p d)) s"
  using SP_ReadRecord_wf[OF assms(1)] SP_ReadRecord_wf[of "view p d"] assms(1) view_eqs[OF assms(2,3)] assms(2)
  by (simp split: option.splits)

lemma sp_get_next: "sp_wf pg \<Longrightarrow> SP_GetNextPageId (Some pg) = sp_next pg"
  using sp_wfD(2) by (simp add: SP_GetNextPageId_def sp_next_def)

section \<open>The chain and its contents\<close>

abbreviation heap_chain :: "pages_map \<Rightarrow> page_id \<Rightarrow> page_id list \<Rightarrow> bool" where
  "heap_chain \<equiv> linked sp_inv sp_next"

lemmas heap_chain_cong = linked_cong [where ok = sp_inv and nxt = sp_next]
lemmas heap_chain_page = linked_page [where ok = sp_inv and nxt = sp_next]
lemmas heap_chain_split = linked_split [where ok = sp_inv and nxt = sp_next]
lemmas heap_chain_update = linked_update [where ok = sp_inv and nxt = sp_next]
lemmas heap_chain_append = linked_append [where ok = sp_inv and nxt = sp_next]
lemmas heap_chain_suffix = linked_suffix [where ok = sp_inv and nxt = sp_next]

definition heap_contents :: "pages_map \<Rightarrow> page_id list \<Rightarrow> record_id \<Rightarrow> byte list option" where
  "heap_contents c ps rid =
     (if rid_page rid \<in> set ps then sp_contents (page_at c (rid_page rid)) (rid_slot rid) else None)"

definition hf_state :: "pool \<Rightarrow> page_id \<Rightarrow> page_id list \<Rightarrow> bool" where
  "hf_state bp first ps \<longleftrightarrow> pool_ok {} bp \<and> heap_chain (pool_page bp) first ps \<and> distinct ps \<and> ps \<noteq> [] \<and>
     set ps \<inter> free_pages (pool_disk bp) = {}"

lemma heap_contents_cong:
  "\<forall>q \<in> set ps. c' q = c q \<Longrightarrow> heap_contents c' ps = heap_contents c ps"
  by (auto simp: heap_contents_def page_at_def fun_eq_iff)

lemma heap_contents_update:
  assumes "q \<in> set ps"
  shows "heap_contents (c(q \<mapsto> d)) ps rid =
    (if rid_page rid = q then sp_contents (view q d) (rid_slot rid) else heap_contents c ps rid)"
  using assms by (auto simp: heap_contents_def page_at_def)

lemma hf_state_same:
  assumes "hf_state bp first ps" "pool_ok {} bp'" "\<forall>q \<in> set ps. pool_page bp' q = pool_page bp q"
    "set ps \<inter> free_pages (pool_disk bp') = {}"
  shows "hf_state bp' first ps"
  using assms heap_chain_cong by (auto simp: hf_state_def)

section \<open>Slotted page operations as facts about contents\<close>

lemma sp_contents_view:
  "page_pid pg = p \<Longrightarrow> page_data pg = d \<Longrightarrow> sp_contents pg = sp_contents (view p d)"
  using view_eqs[of pg p d] by (simp add: sp_contents_def fun_eq_iff)

lemma upd_facts:
  assumes "sp_inv pg" "SP_UpdateRecord (Some pg) k (Some r) = Inr pg'"
  shows "sp_inv pg' \<and> same_page pg pg' \<and> sp_contents pg k \<noteq> None \<and>
    sp_contents pg' = (sp_contents pg)(k \<mapsto> r)"
proof -
  have wf: "sp_wf pg" using assms(1) by (simp add: sp_inv_def)
  have "sp_upd pg k r = Some pg'" using assms(2) by (simp add: sp_upd_def)
  note law = sp_store.upd_law[OF assms(1) this]
  have st: "storable r" using update_bad_record[OF wf, of r k] assms(2) by fastforce
  then obtain old where "k < sp_count pg" "sp_slots pg ! k = Some old"
    using SP_UpdateRecord_missing[OF wf, of r k] assms(2) by (fastforce simp: storable_def)
  then have "same_page pg pg'"
    using SP_UpdateRecord_wf[OF wf, of r k old] st assms(2) by (auto simp: storable_def split: if_splits)
  then show ?thesis using law by simp
qed

lemma del_facts:
  assumes "sp_inv pg" "SP_DeleteRecord (Some pg) k = Inr pg'"
  shows "sp_inv pg' \<and> same_page pg pg' \<and> sp_contents pg k \<noteq> None \<and>
    sp_contents pg' = (sp_contents pg)(k := None)"
proof -
  have wf: "sp_wf pg" using assms(1) by (simp add: sp_inv_def)
  have "sp_del pg k = Some pg'" using assms(2) by (simp add: sp_del_def)
  note law = sp_store.del_law[OF assms(1) this]
  obtain old where "k < sp_count pg" "sp_slots pg ! k = Some old"
    using SP_DeleteRecord_missing[OF wf, of k] assms(2) by fastforce
  then have "same_page pg pg'" using SP_DeleteRecord_wf[OF wf, of k old] assms(2) by auto
  then show ?thesis using law by simp
qed

lemma ins_facts:
  assumes "sp_inv pg" "SP_InsertRecord (Some pg) (Some r) = Inr (pg', k)"
  shows "sp_inv pg' \<and> same_page pg pg' \<and> sp_contents pg k = None \<and>
    sp_contents pg' = (sp_contents pg)(k \<mapsto> r)"
proof -
  have wf: "sp_wf pg" using assms(1) by (simp add: sp_inv_def)
  have "sp_ins pg r = Some (pg', k)" using assms(2) by (simp add: sp_ins_def)
  note law = sp_store.ins_law[OF assms(1) this]
  have "storable r" using insert_bad_record[OF wf, of r] assms(2) by fastforce
  then have "same_page pg pg'"
    using SP_InsertRecord_wf[OF wf, of r] assms(2) by (auto simp: storable_def split: if_splits)
  then show ?thesis using law by simp
qed

section \<open>One page of the heap is modified\<close>

lemma hf_page:
  assumes "hf_state bp first ps" "q \<in> set ps"
  shows "pool_ok {} bp" "1 \<le> q" "q \<notin> free_pages (pool_disk bp)" "pool_page bp q \<noteq> None"
    "sp_inv (page_at (pool_page bp) q)" "page_pid (page_at (pool_page bp) q) = q"
  using assms heap_chain_page[of "pool_page bp" first ps q] by (auto simp: hf_state_def page_at_def)

lemma hf_fetched:
  assumes "hf_state bp first ps" "q \<in> set ps" "FetchPage q bp = (b, Some f)"
  shows "sp_inv (frame_of b f)" "page_pid (frame_of b f) = q"
    "page_at (pool_page bp) q = view q (page_data (frame_of b f))"
    "sp_next (frame_of b f) = sp_next (page_at (pool_page bp) q)"
    "sp_contents (frame_of b f) = sp_contents (page_at (pool_page bp) q)"
    "valid_frame b f"
  using slotted.frame_ok[OF hf_page(1,3)[OF assms(1,2)] assms(3)] hf_page(5)[OF assms(1,2)]
    sp_contents_view[of "frame_of b f" q "page_data (frame_of b f)"] by simp_all

lemma hf_same_pages:
  assumes "hf_state bp first ps" "pool_ok {} bp'" "same_pages bp bp'"
  shows "hf_state bp' first ps" "heap_contents (pool_page bp') ps = heap_contents (pool_page bp) ps"
  using assms by (auto simp: hf_state_def same_pages_def)

interpretation heap_object: paged_object "\<lambda>bp ps. hf_state bp first ps" "\<lambda>ps. ps" heap_contents for first
proof (unfold_locales, goal_cases)
  case (3 bp ps q)
  then show ?case using hf_page(2-4)[OF 3] by (simp add: unused_def)
next
  case (4 bp ps b)
  then have "heap_chain (pool_page b) first ps" using linked_cong[of _ _ "pool_page bp" first ps] by (simp add: hf_state_def)
  then show ?case using 4 heap_contents_cong[of ps "pool_page b" "pool_page bp"] by (auto simp: hf_state_def)
qed (simp_all add: hf_state_def)

lemma wrote_heap:
  assumes "hf_state bp first ps" "q \<in> set ps" "wrote q (page_data pg) bp bp'" "sp_inv pg"
    "page_pid pg = q" "sp_next pg = sp_next (page_at (pool_page bp) q)"
  shows "hf_state bp' first ps \<and> outside_kept ps bp bp' \<and>
    heap_contents (pool_page bp') ps = (\<lambda>rid. if rid_page rid = q then sp_contents pg (rid_slot rid)
      else heap_contents (pool_page bp) ps rid)"
proof -
  have v: "sp_inv (view q (page_data pg))" "sp_next (view q (page_data pg)) = sp_next (page_at (pool_page bp) q)"
    "sp_contents pg = sp_contents (view q (page_data pg))"
    using view_eqs[OF assms(5) refl] sp_contents_view[OF assms(5) refl] assms(4,6) by simp_all
  have "hf_state bp' first ps"
    using heap_chain_update[OF _ v(1) v(2)] assms(1,3) by (simp add: hf_state_def wrote_def)
  then show ?thesis
    using assms(2,3) v(3) heap_contents_update[OF assms(2)] wrote_outside[OF assms(3,2)] by (auto simp: wrote_def)
qed

section \<open>Reading, updating, deleting\<close>

lemma HF_GetRecord_spec:
  assumes "hf_state bp first ps" "rid_page rid \<in> set ps" "HF_GetRecord rid bp = (bp', res)"
  shows "hf_state bp' first ps \<and> same_pages bp bp' \<and> pins bp' = pins bp \<and>
    (if snd (FetchPage (rid_page rid) bp) = None then res = Inl (NotFound ''Record page could not be loaded'')
     else res = SP_ReadRecord (Some (page_at (pool_page bp) (rid_page rid))) (rid_slot rid))"
proof -
  note h = hf_page[OF assms(1,2)]
  have ne: "\<not> rid_page rid \<le> HEADER_PAGE_ID" using h(2) by (simp add: layout_simps)
  obtain b r where b: "FetchPage (rid_page rid) bp = (b, r)" by (cases "FetchPage (rid_page rid) bp")
  show ?thesis
  proof (cases r)
    case None
    have F: "pool_ok {} b" "same_pages bp b" "pins b = pins bp"
      using FetchPage_spec[OF h(1,3) b] None by simp_all
    then show ?thesis using assms(3) ne b None hf_same_pages[OF assms(1) F(1,2)]
      by (auto simp: HF_GetRecord_def)
  next
    case (Some f)
    note hf = hf_fetched[OF assms(1,2) b[unfolded Some]]
    obtain b2 ok where u: "UnpinPage (rid_page rid) False b = (b2, ok)" by (cases "UnpinPage (rid_page rid) False b")
    note pk = peek[OF h(1,3) b[unfolded Some] u]
    have "SP_ReadRecord (Some (frame_of b f)) (rid_slot rid) =
        SP_ReadRecord (Some (page_at (pool_page bp) (rid_page rid))) (rid_slot rid)"
      using SP_ReadRecord_view[OF _ hf(2) refl] hf(1,3) by (simp add: sp_inv_def)
    then show ?thesis
      using assms(3) ne b Some u pk hf_same_pages[OF assms(1), of b2] by (auto simp: HF_GetRecord_def)
  qed
qed

text \<open>The shared part of update and delete: fetch, change the page or not, unpin.\<close>

lemma hf_change:
  assumes "hf_state bp first ps" "q \<in> set ps" "FetchPage q bp = (b, Some f)"
    "UnpinPage q (status_ok (result_status res)) (put_page f res b) = (bp', ok)"
    "\<And>st. res = Inl st \<Longrightarrow> \<not> status_ok st"
    "\<And>pg. res = Inr pg \<Longrightarrow> sp_inv pg \<and> same_page (frame_of b f) pg"
  shows "ok \<and> hf_state bp' first ps \<and> outside_kept ps bp bp' \<and>
    heap_contents (pool_page bp') ps = (case res of Inl _ \<Rightarrow> heap_contents (pool_page bp) ps
      | Inr pg \<Rightarrow> (\<lambda>rid. if rid_page rid = q then sp_contents pg (rid_slot rid)
          else heap_contents (pool_page bp) ps rid))"
proof -
  note h = hf_page[OF assms(1,2)] and hf = hf_fetched[OF assms(1-3)]
  show ?thesis
  proof (cases res)
    case (Inl st)
    then have "UnpinPage q False b = (bp', ok)" using assms(4,5) by (simp add: put_page_def)
    note pk = peek[OF h(1,3) assms(3) this]
    then show ?thesis
      using Inl hf_same_pages[OF assms(1), of bp'] outside_kept_same[of bp bp'] by simp
  next
    case (Inr pg)
    then have u: "UnpinPage q True (set_frame f pg b) = (bp', ok)" using assms(4) by (simp add: put_page_def)
    have pg: "sp_inv pg" "page_pid pg = q" "pin_count pg = pin_count (frame_of b f)"
      "sp_next pg = sp_next (page_at (pool_page bp) q)"
      using assms(6)[OF Inr] hf(2,4) by (simp_all add: same_page_def)
    have "ok \<and> wrote q (page_data pg) bp bp'"
      by (rule modify[OF h(1,3) assms(3) pg(2,3) sp_inv_length[OF pg(1)] u])
    then show ?thesis using Inr wrote_heap[OF assms(1,2) _ pg(1,2,4)] by simp
  qed
qed

lemma SP_errors:
  "SP_UpdateRecord a b c = Inl st \<Longrightarrow> \<not> status_ok st"
  "SP_DeleteRecord a b = Inl st \<Longrightarrow> \<not> status_ok st"
  "SP_SetNextPageId a p = Inl st \<Longrightarrow> \<not> status_ok st"
proof -
  have l: "status_code e = IO_ERROR" if "LoadRecords d n = Inl e" for d n e
  proof -
    have "status_code e' = IO_ERROR" if "for_each (LoadRecords_step d m) xs s = Inl e'"
      for e' m s and xs :: "nat list"
      by (rule for_each_error[OF that])
         (auto simp: LoadRecords_step_def Let_def split: if_splits prod.splits)
    then show ?thesis using that by (auto simp: LoadRecords_def Let_def split: if_splits)
  qed
  have w: "\<not> status_ok e" if "RewriteRecords pg n r a = Inl e" for pg n r a e
    using that by (auto simp: RewriteRecords_def Let_def split: if_splits sum.splits prod.splits)
  show "SP_UpdateRecord a b c = Inl st \<Longrightarrow> \<not> status_ok st"
    using l w by (fastforce simp: SP_UpdateRecord_def Let_def status_ok_def split: option.splits if_splits sum.splits)
  show "SP_DeleteRecord a b = Inl st \<Longrightarrow> \<not> status_ok st"
    using l w by (fastforce simp: SP_DeleteRecord_def Let_def status_ok_def split: option.splits if_splits sum.splits)
  show "SP_SetNextPageId a p = Inl st \<Longrightarrow> \<not> status_ok st"
    by (auto simp: SP_SetNextPageId_def split: option.splits if_splits)
qed

lemma HF_UpdateRecord_spec:
  assumes "hf_state bp first ps" "rid_page (rec_rid r) \<in> set ps" "HF_UpdateRecord r bp = (bp', st)"
  shows "hf_state bp' first ps \<and> outside_kept ps bp bp' \<and>
    heap_contents (pool_page bp') ps =
      (if status_ok st then (heap_contents (pool_page bp) ps)(rec_rid r \<mapsto> rec_data r)
       else heap_contents (pool_page bp) ps) \<and>
    (status_ok st \<longrightarrow> heap_contents (pool_page bp) ps (rec_rid r) \<noteq> None)"
proof -
  let ?p = "rid_page (rec_rid r)"
  note h = hf_page[OF assms(1,2)]
  have ne: "\<not> ?p \<le> HEADER_PAGE_ID" using h(2) by (simp add: layout_simps)
  obtain b x where b: "FetchPage ?p bp = (b, x)" by (cases "FetchPage ?p bp")
  show ?thesis
  proof (cases "GetSize r = 0 \<or> x = None")
    case True
    have F: "x = None \<Longrightarrow> pool_ok {} b \<and> same_pages bp b \<and> pins b = pins bp"
      using FetchPage_spec[OF h(1,3) b] by simp
    have "\<not> status_ok st \<and> (bp' = bp \<or> x = None \<and> bp' = b)"
      using assms(3) ne b True by (auto simp: HF_UpdateRecord_def Let_def split: if_splits)
    then show ?thesis
      using F hf_same_pages[OF assms(1), of b] outside_kept_same[of bp b] outside_kept_same[of bp bp] assms(1)
      by auto
  next
    case False
    then obtain f where f: "x = Some f" by auto
    note hf = hf_fetched[OF assms(1,2) b[unfolded f]]
    let ?res = "SP_UpdateRecord (Some (frame_of b f)) (rid_slot (rec_rid r)) (Some (rec_data r))"
    obtain b2 ok where u: "UnpinPage ?p (status_ok (result_status ?res)) (put_page f ?res b) = (b2, ok)"
      by (cases "UnpinPage ?p (status_ok (result_status ?res)) (put_page f ?res b)")
    have C: "ok \<and> hf_state b2 first ps \<and> outside_kept ps bp b2 \<and>
      heap_contents (pool_page b2) ps = (case ?res of Inl _ \<Rightarrow> heap_contents (pool_page bp) ps
        | Inr pg \<Rightarrow> (\<lambda>rid. if rid_page rid = ?p then sp_contents pg (rid_slot rid)
            else heap_contents (pool_page bp) ps rid))"
      by (rule hf_change[OF assms(1,2) b[unfolded f] u]) (use SP_errors(1) upd_facts[OF hf(1)] in auto)
    have "bp' = b2" "st = result_status ?res"
      using assms(3) ne b f u C False by (auto simp: HF_UpdateRecord_def Let_def)
    moreover have "heap_contents (pool_page bp) ps rid = sp_contents (frame_of b f) (rid_slot rid)"
      if "rid_page rid = ?p" for rid
      using that assms(2) hf(5) by (simp add: heap_contents_def)
    ultimately show ?thesis
      using C SP_errors(1) upd_facts[OF hf(1)]
      by (cases ?res) (auto simp: fun_eq_iff record_id.expand)
  qed
qed

lemma HF_DeleteRecord_spec:
  assumes "hf_state bp first ps" "rid_page rid \<in> set ps" "HF_DeleteRecord rid bp = (bp', st)"
  shows "hf_state bp' first ps \<and> outside_kept ps bp bp' \<and>
    heap_contents (pool_page bp') ps =
      (if status_ok st then (heap_contents (pool_page bp) ps)(rid := None)
       else heap_contents (pool_page bp) ps) \<and>
    (status_ok st \<longrightarrow> heap_contents (pool_page bp) ps rid \<noteq> None)"
proof -
  let ?p = "rid_page rid"
  note h = hf_page[OF assms(1,2)]
  have ne: "\<not> ?p \<le> HEADER_PAGE_ID" using h(2) by (simp add: layout_simps)
  obtain b x where b: "FetchPage ?p bp = (b, x)" by (cases "FetchPage ?p bp")
  show ?thesis
  proof (cases x)
    case None
    have F: "pool_ok {} b \<and> same_pages bp b \<and> pins b = pins bp"
      using FetchPage_spec[OF h(1,3) b] None by simp
    have "\<not> status_ok st \<and> bp' = b" using assms(3) ne b None by (auto simp: HF_DeleteRecord_def Let_def)
    then show ?thesis using F hf_same_pages[OF assms(1), of b] outside_kept_same[of bp b] by auto
  next
    case f: (Some f)
    note hf = hf_fetched[OF assms(1,2) b[unfolded f]]
    let ?res = "SP_DeleteRecord (Some (frame_of b f)) (rid_slot rid)"
    obtain b2 ok where u: "UnpinPage ?p (status_ok (result_status ?res)) (put_page f ?res b) = (b2, ok)"
      by (cases "UnpinPage ?p (status_ok (result_status ?res)) (put_page f ?res b)")
    have C: "ok \<and> hf_state b2 first ps \<and> outside_kept ps bp b2 \<and>
      heap_contents (pool_page b2) ps = (case ?res of Inl _ \<Rightarrow> heap_contents (pool_page bp) ps
        | Inr pg \<Rightarrow> (\<lambda>k. if rid_page k = ?p then sp_contents pg (rid_slot k)
            else heap_contents (pool_page bp) ps k))"
      by (rule hf_change[OF assms(1,2) b[unfolded f] u]) (use SP_errors(2) del_facts[OF hf(1)] in auto)
    have "bp' = b2" "st = result_status ?res"
      using assms(3) ne b f u C by (auto simp: HF_DeleteRecord_def Let_def)
    moreover have "heap_contents (pool_page bp) ps k = sp_contents (frame_of b f) (rid_slot k)"
      if "rid_page k = ?p" for k
      using that assms(2) hf(5) by (simp add: heap_contents_def)
    ultimately show ?thesis
      using C SP_errors(2) del_facts[OF hf(1)]
      by (cases ?res) (auto simp: fun_eq_iff record_id.expand)
  qed
qed

end
