(* ===== verification/Heap_File_Insert.thy ===== *)
theory Heap_File_Insert
  imports Heap_File_Correct
begin

text \<open>
  Insertion into a heap file: the page appended at the end of the chain, and the walk that looks for
  a page with room. A failed insertion, at whatever point it fails, leaves the chain, its records and
  the pages of everybody else as they were.
\<close>

section \<open>A page that is not yet part of the chain\<close>

lemma fresh_not_in_heap: "hf_state bp first ps \<Longrightarrow> fresh_page n bp \<Longrightarrow> n \<notin> set ps"
  using fresh_not_used[of "{}" bp n n] hf_page(1,3,4)[of bp first ps n] by blast

lemma aside_hf:
  assumes "hf_state bp first ps" "fresh_page n bp" "aside n bp bp'" "pins bp' = pins bp"
  shows "hf_state bp' first ps \<and> heap_contents (pool_page bp') ps = heap_contents (pool_page bp) ps \<and>
    outside_kept ps bp bp'"
proof -
  have n: "n \<notin> set ps" by (rule fresh_not_in_heap[OF assms(1,2)])
  have k: "\<forall>q \<in> set ps. pool_page bp' q = pool_page bp q" using assms(3) n by (auto simp: aside_def)
  have "hf_state bp' first ps"
    by (rule hf_state_same[OF assms(1) _ k]) (use assms(1,3) n in \<open>auto simp: aside_def hf_state_def\<close>)
  moreover have "outside_kept ps bp bp'"
    by (rule aside_outside[OF _ assms(2-4), of "{}"]) (use assms(1) in \<open>simp add: hf_state_def\<close>)
  ultimately show ?thesis using heap_contents_cong[OF k] by simp
qed

section \<open>Appending a page\<close>

lemma insert_needs_i32:
  assumes "SP_Init (Some pg0) = Inr pg" "SP_InsertRecord (Some pg) r = Inr x"
  shows "is_i32 (page_pid pg0)"
proof -
  have "page_pid pg = page_pid pg0"
    using assms(1) by (auto simp: SP_Init_def Let_def split: if_splits)
  moreover have "SP_IsInitialized (Some pg)" using assms(2) by (auto simp: SP_InsertRecord_def split: if_splits)
  then have "ReadValue_i32 (page_data pg) PAGE_ID_OFFSET = page_pid pg"
    by (auto simp: SP_IsInitialized_def Let_def split: if_splits)
  ultimately show ?thesis by (metis is_i32_ReadValue_i32)
qed


lemma AppendNewPage_filled:
  assumes "pool_ok {} bp" "fresh_page n bp" "aside n bp b" "pins b = (pins bp)(n := 1)"
    "page_table b n = Some f" "page_pid (frame_of b f) = n" "SP_Init (Some (frame_of b f)) = Inr pg"
    "SP_InsertRecord (Some (frame_of (set_frame f pg b) f)) (Some r) = Inr (pg2, k)"
    "UnpinPage n True (set_frame f pg2 (set_frame f pg b)) = (b3, ok)"
  shows "ok \<and> aside n bp b3 \<and> pins b3 = pins bp \<and> pool_page b3 n = Some (page_data pg2) \<and> is_i32 n \<and>
    free_pages (pool_disk b3) = free_pages (pool_disk b) \<and>
    sp_inv (view n (page_data pg2)) \<and> sp_next (view n (page_data pg2)) = INVALID_PAGE_ID \<and>
    sp_contents (view n (page_data pg2)) = (\<lambda>_. None)(k \<mapsto> r)"
proof -
  have frame: "page_pid (frame_of b f) \<noteq> INVALID_PAGE_ID"
    using assms(2,6) by (simp add: fresh_page_def layout_simps)
  have pin: "0 < pins b n" using assms(4) by simp
  have len: "length (page_data pg) = PAGE_SIZE" "is_dirty pg" "page_pid pg = n"
    "pin_count pg = pin_count (frame_of b f)"
    using SP_Init_page[OF frame] assms(6,7) by auto
  note W = aside_write[OF assms(3,5) pin len(3,4,1,2)]
  have i: "is_i32 n" using insert_needs_i32[OF assms(7)] assms(6,8) W(6) by simp
  have I: "sp_inv pg" "sp_slots pg = []" "sp_next pg = INVALID_PAGE_ID"
    using SP_Init_inv[OF frame] i assms(6,7) by (auto simp: sp_abs_def)
  note R = ins_facts[OF I(1), of r pg2 k]
  have R': "sp_inv pg2" "page_pid pg2 = n" "pin_count pg2 = pin_count pg" "is_dirty pg2"
    "sp_next pg2 = INVALID_PAGE_ID" "sp_contents pg2 = (sp_contents pg)(k \<mapsto> r)"
    using R assms(8) W(6) I(3) len(3) by (simp_all add: same_page_def)
  have ok1: "pool_ok {} (set_frame f pg b)" using W(1) by (simp add: aside_def)
  have "ok \<and> pool_ok {} b3 \<and> pins b3 = (pins (set_frame f pg b))(n := pins (set_frame f pg b) n - 1) \<and>
    pool_page b3 = (pool_page (set_frame f pg b))(n \<mapsto> page_data pg2) \<and>
    num_pages (pool_disk b3) = num_pages (pool_disk (set_frame f pg b)) \<and>
    free_pages (pool_disk b3) = free_pages (pool_disk (set_frame f pg b))"
    by (rule modify_pinned[OF ok1 _ _ R'(2) _ sp_inv_length[OF R'(1)] assms(9)])
       (use W assms(4,5) R'(3) in simp_all)
  moreover have "aside n bp b3" using calculation assms(3) W(4,5) by (auto simp: aside_def)
  moreover have "sp_contents pg = (\<lambda>_. None)" using I(2) by (auto simp: sp_contents_def sp_slots_def)
  moreover have "(pins bp) n = 0" using assms(2) by (simp add: fresh_page_def)
  ultimately show ?thesis
    using i R' W(2,4) assms(4) view_eqs(2,4)[OF R'(2) refl] sp_contents_view[OF R'(2) refl]
    by (auto simp: fun_eq_iff)
qed


lemma heap_contents_append:
  assumes "c' n = Some dn" "n \<notin> set ps" "\<forall>q \<in> set ps. sp_contents (page_at c' q) = sp_contents (page_at c q)"
  shows "heap_contents c' (ps @ [n]) =
    (\<lambda>rid. if rid_page rid = n then sp_contents (view n dn) (rid_slot rid) else heap_contents c ps rid)"
  using assms by (auto simp: heap_contents_def page_at_def fun_eq_iff)

lemma same_slots_contents: "sp_slots a = sp_slots b \<Longrightarrow> sp_contents a = sp_contents b"
proof -
  assume a: "sp_slots a = sp_slots b"
  then have "length (sp_slots a) = length (sp_slots b)" by simp
  then have "sp_count a = sp_count b" by (simp add: sp_slots_def)
  then show ?thesis using a by (simp add: sp_contents_def fun_eq_iff)
qed

lemma AppendNewPage_link:
  assumes "hf_state bp first (pre @ [l])" "fresh_page n bp" "aside n bp b3" "pins b3 = pins bp"
    "pool_page b3 n = Some dn" "is_i32 n" "n \<notin> free_pages (pool_disk b3)" "sp_inv (view n dn)"
    "sp_next (view n dn) = INVALID_PAGE_ID" "FetchPage l b3 = (b4, Some g)"
    "UnpinPage l (status_ok (result_status (SP_SetNextPageId (Some (frame_of b4 g)) n)))
       (put_page g (SP_SetNextPageId (Some (frame_of b4 g)) n) b4) = (b5, ok)"
  shows "(\<exists>pg. SP_SetNextPageId (Some (frame_of b4 g)) n = Inr pg) \<and> ok \<and> hf_state b5 first (pre @ [l, n]) \<and>
    outside_kept (pre @ [l]) bp b5 \<and> heap_contents (pool_page b5) (pre @ [l, n]) =
      (\<lambda>rid. if rid_page rid = n then sp_contents (view n dn) (rid_slot rid)
        else heap_contents (pool_page bp) (pre @ [l]) rid)"
proof -
  let ?ps = "pre @ [l]"
  note A = aside_hf[OF assms(1-4)]
  have hf3: "hf_state b3 first ?ps" using A by simp
  have l: "l \<in> set ?ps" by simp
  note h = hf_page[OF hf3 l] and hf = hf_fetched[OF hf3 l assms(10)]
  have n: "n \<notin> set ?ps" by (rule fresh_not_in_heap[OF assms(1,2)])
  have "INVALID_PAGE_ID \<le> n" "n \<noteq> page_pid (frame_of b4 g)"
    using assms(2) n hf(2) by (auto simp: fresh_page_def layout_simps)
  then obtain pg where pg: "SP_SetNextPageId (Some (frame_of b4 g)) n = Inr pg"
    "sp_next pg = n" "page_pid pg = l" "pin_count pg = pin_count (frame_of b4 g)"
    "sp_slots pg = sp_slots (frame_of b4 g)"
    using SP_SetNextPageId_wf[of "frame_of b4 g" n] hf(1,2) assms(6) by (auto simp: sp_inv_def)
  have inv: "sp_inv pg"
    using sp_apply_link[OF hf(1) assms(6)] pg(1) by (simp add: sp_apply_def)
  have u: "UnpinPage l True (set_frame g pg b4) = (b5, ok)" using assms(11) pg(1) by (simp add: put_page_def)
  have W: "ok" "wrote l (page_data pg) b3 b5"
    using modify[OF h(1,3) assms(10) pg(3,4) sp_inv_length[OF inv] u] by simp_all
  have vl: "sp_inv (view l (page_data pg))" "sp_next (view l (page_data pg)) = n"
    "sp_contents (view l (page_data pg)) = sp_contents (page_at (pool_page b3) l)"
    using view_eqs(2,4)[OF pg(3) refl] sp_contents_view[OF pg(3) refl] inv pg(2) hf(5)
      same_slots_contents[OF pg(5)] by simp_all
  have ch: "heap_chain (pool_page b3) first ?ps" "distinct ?ps" using hf3 by (simp_all add: hf_state_def)
  have n1: "1 \<le> n" using assms(2) by (simp add: fresh_page_def)
  have same: "(pool_page b3)(n \<mapsto> dn) = pool_page b3" using assms(5) by auto
  have "heap_chain (pool_page b5) first (pre @ [l, n])"
    using heap_chain_append[OF ch(1) n ch(2) n1 assms(8,9) vl(1,2)] W(2) same by (simp add: wrote_def)
  then have "hf_state b5 first (pre @ [l, n])"
    using hf3 W(2) n assms(7) by (auto simp: hf_state_def wrote_def)
  moreover have "outside_kept ?ps bp b5"
    using A outside_kept_trans wrote_outside[OF W(2) l] by blast
  moreover have "heap_contents (pool_page b5) (?ps @ [n]) =
      (\<lambda>rid. if rid_page rid = n then sp_contents (view n dn) (rid_slot rid)
        else heap_contents (pool_page b3) ?ps rid)"
    by (rule heap_contents_append[OF _ n]) (use W(2) n vl(3) assms(5) in \<open>auto simp: wrote_def page_at_def\<close>)
  ultimately show ?thesis using pg(1) W(1) A by (simp add: fun_eq_iff)
qed

text \<open>What an insertion promises: a failure changes nothing, a success adds one record under a fresh
  identifier, on a page of the chain or on one appended to it.\<close>

definition inserted ::
  "page_id \<Rightarrow> page_id list \<Rightarrow> byte list \<Rightarrow> pool \<Rightarrow> pool \<times> record_id result \<Rightarrow> bool" where
  "inserted first ps r bp out = (case out of (bp', res) \<Rightarrow> outside_kept ps bp bp' \<and> (case res of
     Inl _ \<Rightarrow> hf_state bp' first ps \<and> heap_contents (pool_page bp') ps = heap_contents (pool_page bp) ps
   | Inr rid \<Rightarrow> heap_contents (pool_page bp) ps rid = None \<and>
       (\<exists>ps'. (ps' = ps \<or> ps' = ps @ [rid_page rid] \<and> rid_page rid \<notin> set ps \<and> unused (rid_page rid) bp) \<and> hf_state bp' first ps' \<and>
         heap_contents (pool_page bp') ps' = (heap_contents (pool_page bp) ps)(rid \<mapsto> r))))"

lemma inserted_fail:
  assumes "hf_state bp first ps" "fresh_page n bp" "aside n bp bp'" "pins bp' = pins bp"
  shows "inserted first ps r bp (bp', Inl st)"
  using aside_hf[OF assms] by (simp add: inserted_def)

lemma AppendNewPage_spec:
  assumes "hf_state bp first (pre @ [l])" "AppendNewPage l r bp = out"
  shows "inserted first (pre @ [l]) r bp out"
proof -
  let ?ps = "pre @ [l]"
  have bp: "pool_ok {} bp" using assms(1) by (simp add: hf_state_def)
  obtain b x where nw: "NewPage bp = (b, x)" by (cases "NewPage bp")
  show ?thesis
  proof (cases x)
    case None
    have "pool_ok {} b" "same_pages bp b" "pins b = pins bp" using NewPage_spec[OF bp nw] None by simp_all
    then show ?thesis using assms nw None hf_same_pages[OF assms(1), of b] outside_kept_same[of bp b]
      by (auto simp: AppendNewPage_def inserted_def)
  next
    case (Some nf)
    then obtain n f where x: "x = Some (n, f)" by (cases nf) auto
    note N = NewPage_fresh[OF bp nw[unfolded x]]
    have "page_pid (frame_of b f) \<noteq> INVALID_PAGE_ID" using N(6,9) by (simp add: layout_simps)
    from SP_Init_page[OF this] obtain pg where pg: "SP_Init (Some (frame_of b f)) = Inr pg"
      "length (page_data pg) = PAGE_SIZE" "is_dirty pg" "page_pid pg = n"
      "pin_count pg = pin_count (frame_of b f)" using N(9) by auto
    have pin: "0 < pins b n" using N(3) by simp
    note W = aside_write[OF N(2,5) pin pg(4,5,2,3)]
    let ?b1 = "set_frame f pg b"
    show ?thesis
    proof (cases "SP_InsertRecord (Some (frame_of ?b1 f)) (Some r)")
      case (Inl st)
      let ?b' = "fst (DeletePage n (fst (UnpinPage n False ?b1)))"
      have "out = (?b', Inl st)" using assms(2) nw x pg(1) Inl by (simp add: AppendNewPage_def Let_def)
      moreover have "aside n bp ?b' \<and> pins ?b' = pins bp"
        by (rule aside_unpin_delete[OF W(1)]) (use W(2) N(3,4) in simp_all)
      ultimately show ?thesis using inserted_fail[OF assms(1) N(1)] by simp
    next
      case (Inr pk)
      then obtain pg2 k where pk: "SP_InsertRecord (Some (frame_of ?b1 f)) (Some r) = Inr (pg2, k)"
        by (cases pk) auto
      obtain b3 ok where u: "UnpinPage n True (set_frame f pg2 ?b1) = (b3, ok)"
        by (cases "UnpinPage n True (set_frame f pg2 ?b1)")
      note L = AppendNewPage_filled[OF bp N(1,2,3,5,9) pg(1) pk u]
      have nf: "n \<notin> free_pages (pool_disk b3)" using L N(7) by simp
      have hf3: "hf_state b3 first ?ps" using aside_hf[OF assms(1) N(1)] L by simp
      obtain b4 y where ft: "FetchPage l b3 = (b4, y)" by (cases "FetchPage l b3")
      show ?thesis
      proof (cases y)
        case None
        have "pool_ok {} b4" "same_pages b3 b4" "pins b4 = pins b3"
          using FetchPage_spec[OF _ _ ft] hf_page[OF hf3, of l] None by simp_all
        then have "aside n bp b4" "pins b4 = pins bp" using aside_same[of n bp b3 b4] L by simp_all
        from aside_delete[OF this] show ?thesis
          using assms(2) nw x pg(1) pk u L ft None inserted_fail[OF assms(1) N(1)]
          by (auto simp: AppendNewPage_def Let_def)
      next
        case (Some g)
        let ?res = "SP_SetNextPageId (Some (frame_of b4 g)) n"
        obtain b5 ok5 where u5: "UnpinPage l (status_ok (result_status ?res)) (put_page g ?res b4) = (b5, ok5)"
          by (cases "UnpinPage l (status_ok (result_status ?res)) (put_page g ?res b4)")
        have K: "(\<exists>pg. ?res = Inr pg) \<and> ok5 \<and> hf_state b5 first (pre @ [l, n]) \<and>
            outside_kept ?ps bp b5 \<and> heap_contents (pool_page b5) (pre @ [l, n]) =
            (\<lambda>rid. if rid_page rid = n then sp_contents (view n (page_data pg2)) (rid_slot rid)
              else heap_contents (pool_page bp) ?ps rid)"
          by (rule AppendNewPage_link[OF assms(1) N(1) _ _ _ _ nf _ _ _ u5]) (use L ft Some in simp_all)
        have "SP_IsInitialized (Some (frame_of b4 g))"
          using hf_fetched(1)[OF hf3 _ ft[unfolded Some]] by (simp add: sp_inv_def sp_wf_def)
        then have out: "out = (b5, Inr (RecordID n k))"
          using assms(2) nw x pg(1) pk u L ft Some u5 K by (auto simp: AppendNewPage_def Let_def)
        have n: "n \<notin> set ?ps" by (rule fresh_not_in_heap[OF assms(1) N(1)])
        have "heap_contents (pool_page b5) (pre @ [l, n]) =
            (heap_contents (pool_page bp) ?ps)(RecordID n k \<mapsto> r)"
          using K L n by (auto simp: fun_eq_iff heap_contents_def record_id.expand)
        then show ?thesis using out K n fresh_unused[OF bp N(1)] by (auto simp: inserted_def heap_contents_def)
      qed
    qed
  qed
qed


section \<open>The walk to a page with room\<close>

lemma inserted_same:
  assumes "hf_state bp first ps" "pool_ok {} b" "same_pages bp b" "pins b = pins bp"
    "inserted first ps r b out"
  shows "inserted first ps r bp out"
proof -
  have "outside_kept ps b = outside_kept ps bp" "pool_page b = pool_page bp" "\<And>q. unused q b = unused q bp"
    using assms(3,4) by (simp_all add: outside_kept_def same_pages_def unused_def fun_eq_iff)
  then show ?thesis using assms(5) by (simp add: inserted_def split: prod.splits sum.splits)
qed

lemma insert_in_page:
  assumes "hf_state bp first ps" "q \<in> set ps" "FetchPage q bp = (b, Some f)"
    "SP_InsertRecord (Some (frame_of b f)) (Some r) = Inr (pg, k)"
    "UnpinPage q True (set_frame f pg b) = (b', ok)"
  shows "ok \<and> inserted first ps r bp (b', Inr (RecordID q k))"
proof -
  note h = hf_page[OF assms(1,2)] and hf = hf_fetched[OF assms(1-3)]
  note R = ins_facts[OF hf(1) assms(4)]
  have pg: "sp_inv pg" "page_pid pg = q" "pin_count pg = pin_count (frame_of b f)"
    "sp_next pg = sp_next (page_at (pool_page bp) q)" "sp_contents pg = (sp_contents (frame_of b f))(k \<mapsto> r)"
    using R hf(2,4) by (simp_all add: same_page_def)
  have W: "ok \<and> wrote q (page_data pg) bp b'"
    by (rule modify[OF h(1,3) assms(3) pg(2,3) sp_inv_length[OF pg(1)] assms(5)])
  then have H: "hf_state b' first ps" "outside_kept ps bp b'" "heap_contents (pool_page b') ps =
      (\<lambda>rid. if rid_page rid = q then sp_contents pg (rid_slot rid) else heap_contents (pool_page bp) ps rid)"
    using wrote_heap[OF assms(1,2) _ pg(1,2,4)] by simp_all
  have old: "heap_contents (pool_page bp) ps rid = sp_contents (frame_of b f) (rid_slot rid)"
    if "rid_page rid = q" for rid
    using that assms(2) hf(5) by (simp add: heap_contents_def)
  have "heap_contents (pool_page b') ps = (heap_contents (pool_page bp) ps)(RecordID q k \<mapsto> r)"
    using H(3) old pg(5) by (auto simp: fun_eq_iff record_id.expand)
  then show ?thesis using W H(1,2) old[of "RecordID q k"] R by (auto simp: inserted_def)
qed

lemma HF_InsertLoop_spec:
  assumes "hf_state bp first (pre @ suf)" "suf \<noteq> []"
  shows "\<exists>out. HF_InsertLoop (set pre) (hd suf) r bp = Some out \<and> inserted first (pre @ suf) r bp out"
  using assms
proof (induction suf arbitrary: pre bp)
  case Nil
  then show ?case by simp
next
  case (Cons q suf)
  let ?ps = "pre @ q # suf"
  have q: "q \<in> set ?ps" by simp
  note h = hf_page[OF Cons.prems(1) q]
  have nv: "q \<noteq> INVALID_PAGE_ID" "q \<notin> set pre"
    using h(2) Cons.prems(1) by (auto simp: hf_state_def layout_simps)
  obtain b x where b: "FetchPage q bp = (b, x)" by (cases "FetchPage q bp")
  have fail: "inserted first ?ps r bp (b', Inl st)"
    if "pool_ok {} b'" "same_pages bp b'" "pins b' = pins bp" for b' st
    using that hf_same_pages[OF Cons.prems(1) that(1,2)] outside_kept_same[of bp b'] by (simp add: inserted_def)
  show ?case
  proof (cases x)
    case None
    have "pool_ok {} b" "same_pages bp b" "pins b = pins bp" using FetchPage_spec[OF h(1,3) b] None by simp_all
    then show ?thesis using nv b None fail by (simp add: HF_InsertLoop.simps)
  next
    case f: (Some f)
    note hf = hf_fetched[OF Cons.prems(1) q b[unfolded f]]
    have wf: "sp_wf (frame_of b f)" using hf(1) by (simp add: sp_inv_def)
    have init: "EnsureInit (frame_of b f) = Inr (frame_of b f)"
      using sp_wfD(2)[OF wf] by (simp add: EnsureInit_def)
    show ?thesis
    proof (cases "SP_InsertRecord (Some (frame_of b f)) (Some r)")
      case (Inr pk)
      obtain pg k where pk: "pk = (pg, k)" by (cases pk)
      obtain b' ok where u: "UnpinPage q True (set_frame f pg b) = (b', ok)"
        by (cases "UnpinPage q True (set_frame f pg b)")
      show ?thesis
        using insert_in_page[OF Cons.prems(1) q b[unfolded f] Inr[unfolded pk] u] nv b f init Inr pk u
        by (simp add: HF_InsertLoop.simps)
    next
      case (Inl st)
      obtain b' ok where u: "UnpinPage q False b = (b', ok)" by (cases "UnpinPage q False b")
      note P = peek[OF h(1,3) b[unfolded f] u]
      have hf': "hf_state b' first ?ps" using hf_same_pages(1)[OF Cons.prems(1), of b'] P by simp
      have step: "HF_InsertLoop (set pre) q r bp =
        (if status_code st \<noteq> OUT_OF_MEMORY then Some (b', Inl st)
         else if sp_next (frame_of b f) \<noteq> INVALID_PAGE_ID
         then HF_InsertLoop (insert q (set pre)) (sp_next (frame_of b f)) r b'
         else Some (AppendNewPage q r b'))"
        using nv b f init Inl u P set_frame_id[OF hf(6)] sp_get_next[OF wf]
        by (simp add: HF_InsertLoop.simps[of _ q])
      have ch: "heap_chain (pool_page bp) (sp_next (frame_of b f)) suf"
        using heap_chain_split[of "pool_page bp" first pre q suf] Cons.prems(1) hf(4)
        by (simp add: hf_state_def)
      consider (err) "status_code st \<noteq> OUT_OF_MEMORY" | (last) "status_code st = OUT_OF_MEMORY" "suf = []"
        | (more) "status_code st = OUT_OF_MEMORY" "suf \<noteq> []" by blast
      then show ?thesis
      proof cases
        case err
        then show ?thesis using step P fail by simp
      next
        case last
        then have "HF_InsertLoop (set pre) q r bp = Some (AppendNewPage q r b')" using step ch by simp
        then show ?thesis
          using AppendNewPage_spec[of b' first pre q r] hf' inserted_same[OF Cons.prems(1), of b'] P last(2) by simp
      next
        case more
        then have "sp_next (frame_of b f) = hd suf" "sp_next (frame_of b f) \<noteq> INVALID_PAGE_ID"
          using ch by (cases suf; auto simp: layout_simps)+
        then have "HF_InsertLoop (set pre) q r bp = HF_InsertLoop (set (pre @ [q])) (hd suf) r b'"
          using step more(1) by simp
        then show ?thesis
          using Cons.IH[of b' "pre @ [q]"] hf' more(2) inserted_same[OF Cons.prems(1), of b'] P by auto
      qed
    qed
  qed
qed

lemma hf_state_hd: "hf_state bp first ps \<Longrightarrow> ps \<noteq> [] \<and> first = hd ps"
  by (cases ps) (auto simp: hf_state_def)

lemma HF_InsertRecord_spec:
  assumes "hf_state bp first ps"
  shows "\<exists>out. HF_InsertRecord first rec bp = Some out \<and> inserted first ps (rec_data rec) bp out"
proof (cases "GetSize rec = 0")
  case True
  then show ?thesis using assms by (simp add: HF_InsertRecord_def inserted_def)
next
  case False
  then show ?thesis
    using HF_InsertLoop_spec[of bp first "[]" ps "rec_data rec"] assms hf_state_hd[OF assms]
    by (simp add: HF_InsertRecord_def)
qed

end
