(* ===== verification/Heap_File_Scan.thy ===== *)
theory Heap_File_Scan
  imports Heap_File_Insert
begin

text \<open>
  The scans of a heap file: the order in which the records are found, the record that comes after a
  given one, and the search for a page. A scan changes nothing that a client can see. On a healthy
  pool it finds what is there; otherwise it may end in the error of a fetch that failed.
\<close>

section \<open>The records of a heap file in order\<close>

definition slot_records :: "page \<Rightarrow> nat \<Rightarrow> db_record list" where
  "slot_records pg k = map (\<lambda>s. Record (RecordID (page_pid pg) s) (the (sp_contents pg s)))
     (filter (\<lambda>s. sp_contents pg s \<noteq> None) [k..<sp_count pg])"

fun heap_records :: "pages_map \<Rightarrow> page_id list \<Rightarrow> db_record list" where
  "heap_records c [] = []"
| "heap_records c (q # qs) = slot_records (page_at c q) 0 @ heap_records c qs"

definition fetch_failed :: "'a result \<Rightarrow> bool" where
  "fetch_failed res \<longleftrightarrow> (\<exists>m. res = Inl (IOError m))"

text \<open>What a search for the next record returns, when the records to come are \<open>rs\<close>.\<close>

definition next_of :: "db_record list \<Rightarrow> db_record result" where
  "next_of rs = (case rs of [] \<Rightarrow> Inl (NotFound ''No more records in HeapFile'') | r # _ \<Rightarrow> Inr r)"

lemma slot_records_step:
  "k < sp_count pg \<Longrightarrow> slot_records pg k = (case sp_contents pg k of
     None \<Rightarrow> slot_records pg (Suc k)
   | Some d \<Rightarrow> Record (RecordID (page_pid pg) k) d # slot_records pg (Suc k))"
  by (simp add: slot_records_def upt_conv_Cons split: option.splits)

lemma slot_records_end: "sp_count pg \<le> k \<Longrightarrow> slot_records pg k = []"
  by (simp add: slot_records_def)

lemma ScanSlots_spec:
  assumes "sp_wf pg"
  shows "ScanSlots pg [k..<sp_count pg] =
    (case slot_records pg k of [] \<Rightarrow> None | r # _ \<Rightarrow> Some (Inr r))"
proof (induction "sp_count pg - k" arbitrary: k)
  case 0
  then show ?case by (simp add: slot_records_end)
next
  case (Suc n)
  then have k: "k < sp_count pg" by simp
  have IH: "ScanSlots pg [Suc k..<sp_count pg] =
    (case slot_records pg (Suc k) of [] \<Rightarrow> None | r # _ \<Rightarrow> Some (Inr r))" using Suc(1)[of "Suc k"] Suc(2) by simp
  show ?case
    using SP_ReadRecord_wf[OF assms, of k] k IH
    by (simp add: upt_conv_Cons slot_records_step sp_contents_def split: option.splits)
qed

section \<open>Looking at one page\<close>

lemma read_only_hf: "hf_state bp first ps \<Longrightarrow> read_only bp bp' \<Longrightarrow> hf_state bp' first ps"
  using hf_same_pages(1) by (simp add: read_only_def)

lemma look_at_heap:
  assumes "hf_state bp first ps" "q \<in> set ps" "FetchPage q bp = (b, r)"
  shows "case r of None \<Rightarrow> read_only bp b \<and> \<not> healthy bp
    | Some f \<Rightarrow> (\<exists>b'. UnpinPage q False b = (b', True) \<and> read_only bp b') \<and> sp_wf (frame_of b f) \<and>
        SP_IsInitialized (Some (frame_of b f)) \<and>
        SP_GetNextPageId (Some (frame_of b f)) = sp_next (page_at (pool_page bp) q) \<and>
        slot_records (frame_of b f) = slot_records (page_at (pool_page bp) q)"
proof (cases r)
  case None
  then show ?thesis using look_at[OF hf_page(1,3,4)[OF assms(1,2)] assms(3)] by simp
next
  case (Some f)
  note h = hf_fetched[OF assms(1,2) assms(3)[unfolded Some]]
  have wf: "sp_wf (frame_of b f)" using h(1) by (simp add: sp_inv_def)
  have "sp_count (frame_of b f) = sp_count (page_at (pool_page bp) q)"
    using view_eqs(7)[OF h(2) refl] h(3) by simp
  then have "slot_records (frame_of b f) = slot_records (page_at (pool_page bp) q)"
    using h(2,5) hf_page(6)[OF assms(1,2)] by (simp add: slot_records_def fun_eq_iff)
  then show ?thesis
    using look_at[OF hf_page(1,3,4)[OF assms(1,2)] assms(3)] Some wf sp_wfD(2)[OF wf] sp_get_next[OF wf] h(4)
    by simp
qed

section \<open>Searching\<close>

fun records_from :: "pages_map \<Rightarrow> page_id list \<Rightarrow> nat \<Rightarrow> db_record list" where
  "records_from c [] k = []"
| "records_from c (q # qs) k = slot_records (page_at c q) k @ heap_records c qs"

lemma records_from_0 [simp]: "records_from c qs 0 = heap_records c qs"
  by (cases qs) simp_all

lemma HF_FindLoop_spec:
  assumes "hf_state bp first (pre @ qs)" "heap_chain (pool_page bp) p qs" "visited \<inter> set qs = {}"
  shows "\<exists>bp' res. HF_FindLoop visited p k bp = Some (bp', res) \<and> read_only bp bp' \<and>
    (res = next_of (records_from (pool_page bp) qs k) \<or> \<not> healthy bp \<and> fetch_failed res)"
  using assms
proof (induction qs arbitrary: pre p visited k bp)
  case Nil
  then show ?case by (simp add: HF_FindLoop.simps next_of_def read_only_def hf_state_def)
next
  case (Cons q qs)
  have q: "q \<in> set (pre @ q # qs)" "p = q" using Cons.prems(2) by simp_all
  have nv: "q \<noteq> INVALID_PAGE_ID" "q \<notin> visited" using hf_page(2)[OF Cons.prems(1) q(1)] Cons.prems(3)
    by (auto simp: layout_simps)
  obtain b r where b: "FetchPage q bp = (b, r)" by (cases "FetchPage q bp")
  note L = look_at_heap[OF Cons.prems(1) q(1) b]
  show ?case
  proof (cases r)
    case None
    then show ?thesis using L nv b q(2) by (auto simp: HF_FindLoop.simps[of _ q] fetch_failed_def)
  next
    case (Some f)
    obtain b' where b': "UnpinPage q False b = (b', True)" "read_only bp b'" using L Some by auto
    have wf: "sp_wf (frame_of b f)" "SP_IsInitialized (Some (frame_of b f))"
      "slot_records (frame_of b f) = slot_records (page_at (pool_page bp) q)"
      "SP_GetNextPageId (Some (frame_of b f)) = sp_next (page_at (pool_page bp) q)" using L Some by simp_all
    have loop: "HF_FindLoop visited q k bp = (case slot_records (page_at (pool_page bp) q) k of
        [] \<Rightarrow> HF_FindLoop (insert q visited) (sp_next (page_at (pool_page bp) q)) 0 b'
      | r # _ \<Rightarrow> Some (b', Inr r))"
      using nv b Some b' wf ScanSlots_spec[OF wf(1), of k]
      by (simp add: HF_FindLoop.simps[of _ q] split: list.splits)
    show ?thesis
    proof (cases "slot_records (page_at (pool_page bp) q) k")
      case (Cons x xs)
      then show ?thesis using loop b' q(2) by (simp add: next_of_def)
    next
      case Nil
      have prems: "hf_state b' first ((pre @ [q]) @ qs)"
        "heap_chain (pool_page b') (sp_next (page_at (pool_page bp) q)) qs" "insert q visited \<inter> set qs = {}"
        using read_only_hf[OF Cons.prems(1) b'(2)] read_only_pages[OF b'(2)] Cons.prems
        by (auto simp: hf_state_def)
      from Cons.IH[OF prems, of 0] obtain b2 res where r2:
        "HF_FindLoop (insert q visited) (sp_next (page_at (pool_page bp) q)) 0 b' = Some (b2, res)"
        "read_only b' b2" "res = next_of (heap_records (pool_page b') qs) \<or> \<not> healthy b' \<and> fetch_failed res"
        by auto
      have "read_only bp b2" by (rule read_only_trans[OF b'(2) r2(2)])
      moreover have "\<not> healthy b' \<Longrightarrow> \<not> healthy bp" using read_only_healthy[OF b'(2)] by blast
      ultimately show ?thesis using loop Nil q(2) r2(1,3) read_only_pages[OF b'(2)] by auto
    qed
  qed
qed

lemma HF_ContainsLoop_spec:
  assumes "hf_state bp first (pre @ qs)" "heap_chain (pool_page bp) c qs" "visited \<inter> set qs = {}"
  shows "\<exists>bp' res. HF_ContainsLoop visited c p bp = Some (bp', res) \<and> read_only bp bp' \<and>
    (res = Inr (p \<in> set qs) \<or> \<not> healthy bp \<and> fetch_failed res)"
  using assms
proof (induction qs arbitrary: pre c visited bp)
  case Nil
  then show ?case by (simp add: HF_ContainsLoop.simps read_only_def hf_state_def)
next
  case (Cons q qs)
  have q: "q \<in> set (pre @ q # qs)" "c = q" using Cons.prems(2) by simp_all
  have nv: "q \<noteq> INVALID_PAGE_ID" "q \<notin> visited" using hf_page(2)[OF Cons.prems(1) q(1)] Cons.prems(3)
    by (auto simp: layout_simps)
  obtain b r where b: "FetchPage q bp = (b, r)" by (cases "FetchPage q bp")
  note L = look_at_heap[OF Cons.prems(1) q(1) b]
  show ?case
  proof (cases "q = p")
    case True
    then show ?thesis using nv q(2) Cons.prems(1)
      by (simp add: HF_ContainsLoop.simps read_only_def hf_state_def)
  next
    case np: False
    show ?thesis
    proof (cases r)
      case None
      then show ?thesis using L nv b q(2) np by (auto simp: HF_ContainsLoop.simps[of _ q] fetch_failed_def)
    next
      case (Some f)
      obtain b' where b': "UnpinPage q False b = (b', True)" "read_only bp b'" using L Some by auto
      have loop: "HF_ContainsLoop visited q p bp =
          HF_ContainsLoop (insert q visited) (sp_next (page_at (pool_page bp) q)) p b'"
        using nv b Some b' L np by (simp add: HF_ContainsLoop.simps[of _ q])
      have prems: "hf_state b' first ((pre @ [q]) @ qs)"
        "heap_chain (pool_page b') (sp_next (page_at (pool_page bp) q)) qs" "insert q visited \<inter> set qs = {}"
        using read_only_hf[OF Cons.prems(1) b'(2)] read_only_pages[OF b'(2)] Cons.prems
        by (auto simp: hf_state_def)
      from Cons.IH[OF prems] obtain b2 res where r2:
        "HF_ContainsLoop (insert q visited) (sp_next (page_at (pool_page bp) q)) p b' = Some (b2, res)"
        "read_only b' b2" "res = Inr (p \<in> set qs) \<or> \<not> healthy b' \<and> fetch_failed res"
        by auto
      have "read_only bp b2" by (rule read_only_trans[OF b'(2) r2(2)])
      moreover have "\<not> healthy b' \<Longrightarrow> \<not> healthy bp" using read_only_healthy[OF b'(2)] by blast
      ultimately show ?thesis using loop q(2) np r2(1,3) by auto
    qed
  qed
qed

end
