(* ===== verification/Pool_Bounded.thy ===== *)
theory Pool_Bounded
  imports Pool_Health
begin

text \<open>
  What bounds a walk along page links, whatever the bytes on the pages are: a page that can be fetched
  has an identifier below a bound that no fetch, unpin or write of a page moves. A walk that remembers
  the pages it has visited therefore ends. Nothing is assumed of the contents, and pages may even have
  been freed.
\<close>

definition bounded :: "page_id \<Rightarrow> pool \<Rightarrow> bool" where
  "bounded N bp \<longleftrightarrow>
     clock_inv (replacer bp) \<and> length (in_replacer (replacer bp)) = length (pages bp) \<and>
     (\<forall>f \<in> set (free_list bp). valid_frame bp f) \<and>
     (\<forall>p f. page_table bp p = Some f \<longrightarrow> 0 \<le> p \<and> p < N \<and> valid_frame bp f) \<and>
     (\<forall>f. valid_frame bp f \<longrightarrow> page_pid (frame_of bp f) < N) \<and> num_pages (pool_disk bp) \<le> N"

lemma pool_ok_bounded:
  assumes "pool_ok X bp"
  shows "\<exists>N. bounded N bp"
proof -
  have wf: "pool_wf bp {} {}" using assms by (simp add: pool_ok_def pool_inv_def)
  let ?N = "Max (insert (num_pages (pool_disk bp)) ((\<lambda>f. page_pid (frame_of bp f) + 1) ` {0..<int (length (pages bp))}))"
  have "num_pages (pool_disk bp) \<le> ?N" by (rule Max_ge) auto
  moreover have "page_pid (frame_of bp f) < ?N" if "valid_frame bp f" for f
  proof -
    have "page_pid (frame_of bp f) + 1 \<le> ?N" by (rule Max_ge) (use that in \<open>auto simp: valid_frame_def\<close>)
    then show ?thesis by simp
  qed
  ultimately have "bounded ?N bp"
    using wf pool_wf_table(1,3,4)[OF wf] unfolding bounded_def pool_wf_def by force
  then show ?thesis by blast
qed

lemma bounded_simps [simp]:
  "bounded N (b\<lparr>buffer_hits := h\<rparr>) = bounded N b"
  "bounded N (b\<lparr>buffer_misses := h\<rparr>) = bounded N b"
  "bounded N (b\<lparr>disk_reads := h\<rparr>) = bounded N b"
  "bounded N (b\<lparr>disk_writes := h\<rparr>) = bounded N b"
  by (simp_all add: bounded_def frame_of_def valid_frame_def)

lemma bounded_disk: "bounded N b \<Longrightarrow> num_pages d \<le> N \<Longrightarrow> bounded N (b\<lparr>pool_disk := d\<rparr>)"
  by (simp add: bounded_def frame_of_def valid_frame_def)

lemma bounded_set_frame:
  assumes "bounded N b" "page_pid pg < N"
  shows "bounded N (set_frame f pg b)"
proof -
  have "page_pid (frame_of (set_frame f pg b) g) < N" if "valid_frame b g" for g
    using assms that by (cases "nat g = nat f") (auto simp: bounded_def frame_of_def set_frame_def valid_frame_def)
  then show ?thesis using assms(1) by (simp add: bounded_def valid_frame_def set_frame_def)
qed

lemma bounded_replacer:
  assumes "bounded N b" "clock_inv r" "length (in_replacer r) = length (in_replacer (replacer b))"
  shows "bounded N (b\<lparr>replacer := r\<rparr>)"
  using assms by (simp add: bounded_def frame_of_def valid_frame_def)

lemma bounded_pin_unpin:
  assumes "bounded N b"
  shows "bounded N (b\<lparr>replacer := Clock_Pin f (replacer b)\<rparr>)" "bounded N (b\<lparr>replacer := Clock_Unpin f (replacer b)\<rparr>)"
  using bounded_replacer[OF assms] clock.pin_law[of "replacer b" f] clock.unpin_law[of "replacer b" f] assms
  by (auto simp: bounded_def)

lemma TakeFrame_bounded:
  assumes "bounded N b" "TakeFrame b = (b', r)"
  shows "bounded N b' \<and> (\<forall>f c. r = Some (f, c) \<longrightarrow> valid_frame b' f)"
proof (cases "free_list b")
  case Nil
  obtain c x where v: "Clock_Victim (replacer b) = (c, x)" by (cases "Clock_Victim (replacer b)")
  have inv: "clock_inv (replacer b)" using assms(1) by (simp add: bounded_def)
  show ?thesis
  proof (cases x)
    case None
    then have "c = replacer b" using clock.victim_none[OF inv] v by blast
    then show ?thesis using assms Nil v None by (auto simp: TakeFrame_def)
  next
    case (Some f)
    note V = clock.victim_some[OF inv v[unfolded Some]]
    have "bounded N (b\<lparr>replacer := c\<rparr>)" using bounded_replacer[OF assms(1)] V by auto
    moreover have "valid_frame b f" using clock.cand_bound[OF inv, of f] V assms(1)
      by (auto simp: bounded_def valid_frame_def)
    ultimately show ?thesis using assms(2) Nil v Some by (auto simp: TakeFrame_def valid_frame_def)
  qed
next
  case (Cons f fs)
  then show ?thesis using assms by (auto simp: TakeFrame_def bounded_def frame_of_def valid_frame_def)
qed

lemma ReadPage_bounded:
  assumes "ReadPage p bs d = (d', buf, st)"
  shows "num_pages d' = num_pages d \<and> (status_ok st \<longrightarrow> 0 \<le> p \<and> p < num_pages d)"
  using assms by (auto simp: ReadPage_def Let_def stream_read_def consume_event_def
      split: if_splits option.splits prod.splits io_outcome.splits io_event.splits)

lemma WritePage_bounded:
  assumes "WritePage p bs d = (d', st)" "num_pages d \<le> N" "p < N"
  shows "num_pages d' \<le> N"
  using assms by (auto simp: WritePage_def Let_def stream_write_def consume_event_def
      split: if_splits option.splits prod.splits io_outcome.splits io_event.splits)

lemma EvictWrite_bounded:
  assumes "bounded N b" "valid_frame b f" "EvictWrite f c b = (b', ok)"
  shows "bounded N b' \<and> pages b' = pages b"
proof -
  have "page_pid (frame_of b f) < N" "num_pages (pool_disk b) \<le> N" using assms(1,2) by (simp_all add: bounded_def)
  then have "num_pages d \<le> N" if "WritePage (page_pid (frame_of b f)) bs (pool_disk b) = (d, st)" for bs d st
    using WritePage_bounded[OF that] by simp
  then show ?thesis using assms(1,3) bounded_disk[OF assms(1)]
    by (auto simp: EvictWrite_def WriteFrame_def split: if_splits prod.splits)
qed

lemma InstallPage_bounded:
  assumes "bounded N b" "valid_frame b f" "0 \<le> p" "p < N"
  shows "bounded N (InstallPage p f data b)"
proof -
  define pg where "pg = (ResetMemory (frame_of b f))\<lparr>page_data := mem_write (page_data (ResetMemory (frame_of b f))) 0 data,
    page_pid := p, pin_count := 1, is_dirty := False\<rparr>"
  have s: "bounded N (set_frame f pg b)" by (rule bounded_set_frame[OF assms(1)]) (use assms(4) in \<open>simp add: pg_def\<close>)
  then have "bounded N ((set_frame f pg b)\<lparr>page_table := (page_table b)(p \<mapsto> f)\<rparr>)"
    using assms by (auto simp: bounded_def frame_of_def valid_frame_def set_frame_def)
  from bounded_pin_unpin(1)[OF this, of f] show ?thesis
    by (simp add: InstallPage_def Let_def pg_def set_frame_def)
qed

lemma FetchPage_bounded:
  assumes "bounded N bp" "FetchPage p bp = (b, r)"
  shows "bounded N b \<and> (\<forall>f. r = Some f \<longrightarrow> 0 \<le> p \<and> p < N \<and> valid_frame b f)"
proof (cases "p < 0 \<or> page_table bp p \<noteq> None")
  case True
  show ?thesis
  proof (cases "p < 0")
    case False
    then obtain f where f: "page_table bp p = Some f" using True by auto
    define pg where "pg = (frame_of bp f)\<lparr>pin_count := pin_count (frame_of bp f) + 1\<rparr>"
    have v: "valid_frame bp f" "0 \<le> p" "p < N" using assms(1) f by (auto simp: bounded_def)
    have "bounded N (set_frame f pg bp)"
      by (rule bounded_set_frame[OF assms(1)]) (use assms(1) v in \<open>simp add: pg_def bounded_def\<close>)
    from bounded_pin_unpin(1)[OF this, of f] show ?thesis
      using assms(2) False f v by (auto simp: FetchPage_def Let_def pg_def set_frame_def valid_frame_def)
  qed (use assms in \<open>auto simp: FetchPage_def\<close>)
next
  case False
  obtain b1 t where tk: "TakeFrame (bp\<lparr>buffer_misses := buffer_misses bp + 1\<rparr>) = (b1, t)"
    by (cases "TakeFrame (bp\<lparr>buffer_misses := buffer_misses bp + 1\<rparr>)")
  have B1: "bounded N b1" "\<forall>f c. t = Some (f, c) \<longrightarrow> valid_frame b1 f"
    using TakeFrame_bounded[OF _ tk] assms(1) by simp_all
  note F = assms(2)[unfolded FetchPage_miss_eq[OF _ _, of bp p]]
  show ?thesis
  proof (cases t)
    case None
    then show ?thesis using assms(2) False tk B1 by (auto simp: FetchPage_miss_eq)
  next
    case (Some fc)
    then obtain f c where fc: "t = Some (f, c)" by (cases fc) auto
    then have v1: "valid_frame b1 f" using B1(2) by simp
    obtain d buf st where rd: "ReadPage p (Some zero_page) (pool_disk b1) = (d, buf, st)"
      by (cases "ReadPage p (Some zero_page) (pool_disk b1)")
    note R = ReadPage_bounded[OF rd]
    define b2 where "b2 = b1\<lparr>pool_disk := d\<rparr>"
    have B2: "bounded N b2" "valid_frame b2 f" using bounded_disk[OF B1(1)] B1(1) R v1
      by (auto simp: b2_def bounded_def valid_frame_def)
    have gb: "bounded N (GiveBack f c b2)"
      using B2 bounded_pin_unpin(2)[OF B2(1)] by (auto simp: GiveBack_def bounded_def frame_of_def valid_frame_def)
    obtain b3 ok where ev: "EvictWrite f c (b2\<lparr>disk_reads := disk_reads b1 + 1\<rparr>) = (b3, ok)"
      by (cases "EvictWrite f c (b2\<lparr>disk_reads := disk_reads b1 + 1\<rparr>)")
    have B3: "bounded N b3" "valid_frame b3 f"
      using EvictWrite_bounded[OF _ _ ev] B2 by (auto simp: valid_frame_def)
    have er: "bounded N (ErasePage q b3)" "valid_frame (ErasePage q b3) f" for q
      using B3 by (auto simp: ErasePage_def bounded_def frame_of_def valid_frame_def)
    have p: "status_ok st \<Longrightarrow> 0 \<le> p \<and> p < N" using R B1(1) by (auto simp: bounded_def)
    have inst: "bounded N (InstallPage p f (the buf) (if c then b3 else ErasePage q b3)) \<and>
        valid_frame (InstallPage p f (the buf) (if c then b3 else ErasePage q b3)) f" if "status_ok st" for q
      using InstallPage_bounded[OF _ _ conjunct1[OF p[OF that]] conjunct2[OF p[OF that]]] B3 er
      by (auto simp: InstallPage_def Let_def set_frame_def ErasePage_def valid_frame_def)
    show ?thesis
      using assms(2) False tk fc rd ev gb bounded_pin_unpin(2)[OF B3(1)] inst p
      by (auto simp: FetchPage_miss_eq b2_def split: if_splits bool.splits)
  qed
qed

lemma UnpinPage_bounded:
  assumes "bounded N bp" "UnpinPage p d bp = (b, ok)"
  shows "bounded N b"
proof (cases "page_table bp p")
  case None
  then show ?thesis using assms by (simp add: UnpinPage_def)
next
  case (Some f)
  have v: "page_pid (frame_of bp f) < N" using assms(1) Some by (auto simp: bounded_def)
  have "bounded N (set_frame f (pg\<lparr>is_dirty := x\<rparr>) bp)" if "page_pid pg < N" for pg x
    by (rule bounded_set_frame[OF assms(1)]) (use that in simp)
  then have s: "bounded N (set_frame f ((frame_of bp f)\<lparr>pin_count := n, is_dirty := x\<rparr>) bp)" for n x using v by simp
  from bounded_pin_unpin(2)[OF s, of f] show ?thesis using assms Some s
    by (auto simp: UnpinPage_def Let_def set_frame_def split: if_splits)
qed

lemma DeletePage_bounded:
  assumes "bounded N bp" "DeletePage p bp = (b, ok)"
  shows "bounded N b"
proof -
  have dn: "num_pages (DeallocatePage p d) = num_pages d" for d
    by (auto simp: DeallocatePage_def stream_write_def consume_event_def Let_def split: io_event.splits)
  show ?thesis
  proof (cases "p \<le> HEADER_PAGE_ID \<or> page_table bp p = None")
    case True
    then show ?thesis using assms bounded_disk[OF assms(1), of "DeallocatePage p (pool_disk bp)"] dn
      by (auto simp: DeletePage_def bounded_def split: if_splits)
  next
    case False
    then obtain f where f: "page_table bp p = Some f" by auto
    have v: "valid_frame bp f" "0 \<le> p" "p < N" using assms(1) f by (auto simp: bounded_def)
    let ?b1 = "bp\<lparr>replacer := Clock_Pin f (replacer bp)\<rparr>"
    have "bounded N ?b1" by (rule bounded_pin_unpin(1)[OF assms(1)])
    then have "bounded N (ErasePage p ?b1)" by (auto simp: ErasePage_def bounded_def frame_of_def valid_frame_def)
    then have "bounded N (set_frame f (ResetMemory (frame_of bp f)) (ErasePage p ?b1))"
      by (rule bounded_set_frame) (use v in \<open>simp add: ResetMemory_def layout_simps\<close>)
    then have b2: "bounded N ((set_frame f (ResetMemory (frame_of bp f)) (ErasePage p ?b1))\<lparr>free_list := free_list bp @ [f]\<rparr>)"
      (is "bounded N ?b2")
      using v(1) by (auto simp: bounded_def frame_of_def valid_frame_def set_frame_def ErasePage_def)
    have "bounded N (?b2\<lparr>pool_disk := DeallocatePage p (pool_disk bp)\<rparr>)"
      by (rule bounded_disk[OF b2]) (use dn assms(1) in \<open>simp add: bounded_def\<close>)
    then show ?thesis using assms False f
      by (auto simp: DeletePage_def Let_def ErasePage_def set_frame_def frame_of_def split: if_splits)
  qed
qed

section \<open>Walks end\<close>

text \<open>Induction over a walk: the next step visits a page below the bound that was not visited yet.\<close>

lemma walk_induct [consumes 1, case_names step]:
  assumes "bounded N bp"
    and "\<And>visited c bp. bounded N bp \<Longrightarrow>
      (\<And>c' bp'. c \<notin> visited \<Longrightarrow> 0 \<le> c \<Longrightarrow> c < N \<Longrightarrow> bounded N bp' \<Longrightarrow> P (insert c visited) c' bp') \<Longrightarrow>
      P visited c bp"
  shows "P visited c bp"
  using assms(1)
proof (induction "card ({0..<N} - visited)" arbitrary: visited c bp rule: less_induct)
  case less
  show ?case
  proof (rule assms(2)[OF less.prems])
    fix c' bp' assume c: "c \<notin> visited" "0 \<le> c" "c < N" "bounded N bp'"
    have e: "{0..<N} - insert c visited = ({0..<N} - visited) - {c}" by blast
    have "finite ({0..<N} - visited)" "c \<in> {0..<N} - visited" using c(1-3) by simp_all
    then have "card ({0..<N} - insert c visited) < card ({0..<N} - visited)"
      unfolding e by (rule card_Diff1_less)
    then show "P (insert c visited) c' bp'" by (rule less.hyps) (rule c(4))
  qed
qed

end
