(* ===== verification/Heap_File_Properties.thy ===== *)
theory Heap_File_Properties
  imports Heap_File_Scan Pool_Bounded
begin

text \<open>
  The heap file as a record store, what every operation returns on a healthy pool, the enumeration of
  all records by the two scan calls, and the properties of the heap file.
\<close>

section \<open>The operations keep the pool healthy\<close>

lemma HF_GetRecord_health: "HF_GetRecord rid bp = (bp', res) \<Longrightarrow> keeps_health bp bp'"
  by (auto simp: HF_GetRecord_def Let_def dest: FetchPage_health
      elim: fetch_unpin_health[OF _ _ keeps_health_refl]
      split: if_splits prod.splits option.splits bool.splits)

lemma HF_UpdateRecord_health: "HF_UpdateRecord r bp = (bp', st) \<Longrightarrow> keeps_health bp bp'"
  by (auto simp: HF_UpdateRecord_def Let_def put_page_health dest: FetchPage_health
      elim: fetch_unpin_health split: if_splits prod.splits option.splits bool.splits)

lemma HF_DeleteRecord_health: "HF_DeleteRecord rid bp = (bp', st) \<Longrightarrow> keeps_health bp bp'"
  by (auto simp: HF_DeleteRecord_def Let_def put_page_health dest: FetchPage_health
      elim: fetch_unpin_health split: if_splits prod.splits option.splits bool.splits)

lemma AppendNewPage_health:
  assumes "AppendNewPage l r bp = (bp', res)"
  shows "keeps_health bp bp'"
proof -
  obtain b x where nw: "NewPage bp = (b, x)" by (cases "NewPage bp")
  have k1: "keeps_health bp b" by (rule NewPage_health[OF nw])
  have un: "keeps_health bp b2" if "UnpinPage n d b1 = (b2, ok)" "keeps_health bp b1" for n d b1 b2 ok
    by (rule step_health(1)[OF that(2,1)])
  have ft: "keeps_health bp b2" if "FetchPage n b1 = (b2, y)" "keeps_health bp b1" for n b1 b2 y
    by (rule step_health(2)[OF that(2,1)])
  show ?thesis
    using assms nw k1
    by (auto simp: AppendNewPage_def Let_def put_page_health intro!: fst_DeletePage_health fst_UnpinPage_health
        dest!: un ft split: option.splits prod.splits sum.splits bool.splits if_splits)
qed

lemma HF_InsertLoop_health:
  assumes "HF_InsertLoop visited c r bp = Some (bp', res)"
  shows "keeps_health bp bp'"
proof -
  have "case out of (bp', res) \<Rightarrow> keeps_health bp bp'" if "HF_InsertLoop visited c r bp = Some out" for out
  proof (rule HF_InsertLoop.raw_induct
      [where P = "\<lambda>visited c r bp out. case out of (bp', res) \<Rightarrow> keeps_health bp bp'", OF _ that])
    fix loop visited c r bp out
    assume IH: "\<And>visited c r bp out. loop visited c r bp = Some out \<Longrightarrow>
        case out of (bp', res) \<Rightarrow> keeps_health bp bp'"
      and eq: "(if c = INVALID_PAGE_ID then Some (bp, Inl (IOError ''HeapFile page chain ended unexpectedly''))
        else if c \<in> visited then Some (bp, Inl (IOError ''Cycle detected in HeapFile page chain''))
        else (case FetchPage c bp of (bp, None) \<Rightarrow> Some (bp, Inl (IOError ''Could not fetch HeapFile page''))
          | (bp, Some f) \<Rightarrow>
            (case EnsureInit (frame_of bp f) of
               Inl st \<Rightarrow> Some (fst (UnpinPage c False bp), Inl st)
             | Inr pg \<Rightarrow>
               (case SP_InsertRecord (Some pg) (Some r) of
                  Inr (pg, slot) \<Rightarrow>
                    (case UnpinPage c True (set_frame f pg bp) of
                       (bp, unpinned) \<Rightarrow>
                         if \<not> unpinned then Some (bp, Inl (IOError ''Could not unpin modified HeapFile page''))
                         else Some (bp, Inr (RecordID c slot)))
                | Inl st \<Rightarrow>
                    (case UnpinPage c False (set_frame f pg bp) of
                       (bp, unpinned) \<Rightarrow>
                         if \<not> unpinned then Some (bp, Inl (IOError ''Could not unpin HeapFile page''))
                         else if status_code st \<noteq> OUT_OF_MEMORY then Some (bp, Inl st)
                         else if SP_GetNextPageId (Some pg) \<noteq> INVALID_PAGE_ID
                         then loop (insert c visited) (SP_GetNextPageId (Some pg)) r bp
                         else Some (AppendNewPage c r bp)))))) = Some out"
    obtain bp' res where out: "out = (bp', res)" by (cases out)
    obtain b x where b: "FetchPage c bp = (b, x)" by (cases "FetchPage c bp")
    have k: "keeps_health bp b" by (rule FetchPage_health[OF b])
    have un: "keeps_health bp b2" if "UnpinPage n d (set_frame f pg b) = (b2, ok)" for n d f pg b2 ok
      using step_health(1)[OF _ that, of bp] k by simp
    have ih: "keeps_health bp bp'" if "loop v n r b2 = Some (bp', res)" "keeps_health bp b2" for v n b2
      using IH[OF that(1)] keeps_health_trans that(2) by auto
    have ap: "keeps_health bp bp'" if "AppendNewPage c r b2 = (bp', res)" "keeps_health bp b2" for b2
      using AppendNewPage_health[OF that(1)] keeps_health_trans that(2) by auto
    show "case out of (bp', res) \<Rightarrow> keeps_health bp bp'"
      using eq b k un ih ap out
      by (auto intro!: fst_UnpinPage_health split: if_splits option.splits prod.splits sum.splits)
  qed
  then show ?thesis using assms by fastforce
qed

lemma HF_InsertRecord_health: "HF_InsertRecord first rec bp = Some (bp', res) \<Longrightarrow> keeps_health bp bp'"
  by (auto simp: HF_InsertRecord_def dest: HF_InsertLoop_health split: if_splits)

section \<open>Insertion succeeds on a healthy pool\<close>

lemma insert_in_empty_page:
  assumes "sp_inv pg" "sp_slots pg = []" "storable r" "length r \<le> 4076"
  shows "\<exists>pg' k. SP_InsertRecord (Some pg) (Some r) = Inr (pg', k)"
proof -
  have wf: "sp_wf pg" using assms(1) by (simp add: sp_inv_def)
  have "sp_free pg = 4080" using spec_size_eq[OF assms(1)] assms(2) by (simp add: spec_size_def layout_simps)
  moreover have "insert_cost (sp_slots pg) r \<le> 4080"
    using assms(2,4) by (simp add: insert_cost_def spec_insert_def first_free_def layout_simps)
  ultimately show ?thesis using SP_InsertRecord_wf[OF wf, of r] assms(3) by (auto simp: storable_def)
qed

lemma AppendNewPage_succeeds:
  assumes "hf_state bp first (pre @ [l])" "healthy bp" "storable r" "length r \<le> 4076"
    "num_pages (pool_disk bp) < 2147483648"
  shows "\<exists>b rid. AppendNewPage l r bp = (b, Inr rid)"
proof -
  have bp: "pool_ok {} bp" using assms(1) by (simp add: hf_state_def)
  obtain b n f where nw: "NewPage bp = (b, Some (n, f))" using NewPage_healthy[OF assms(2)] by auto
  note N = NewPage_fresh[OF bp nw]
  have i: "is_i32 n" by (rule fresh_page_i32[OF bp N(1) assms(5)])
  have frame: "page_pid (frame_of b f) \<noteq> INVALID_PAGE_ID" "is_i32 (page_pid (frame_of b f))"
    using N(6,9) i by (simp_all add: layout_simps)
  obtain pg where pg: "SP_Init (Some (frame_of b f)) = Inr pg" "sp_inv pg" "sp_slots pg = []"
      "page_pid pg = n" "pin_count pg = pin_count (frame_of b f)" "is_dirty pg"
    using SP_Init_inv[OF frame] N(9) by (auto simp: sp_abs_def)
  have pin: "0 < pins b n" using N(3) by simp
  note W = aside_write[OF N(2,5) pin pg(4,5) sp_inv_length[OF pg(2)] pg(6)]
  obtain pg2 k where pk: "SP_InsertRecord (Some (frame_of (set_frame f pg b) f)) (Some r) = Inr (pg2, k)"
    using insert_in_empty_page[OF pg(2,3) assms(3,4)] W(6) by auto
  obtain b3 ok where u: "UnpinPage n True (set_frame f pg2 (set_frame f pg b)) = (b3, ok)"
    by (cases "UnpinPage n True (set_frame f pg2 (set_frame f pg b))")
  note L = AppendNewPage_filled[OF bp N(1,2,3,5,9) pg(1) pk u]
  have "keeps_health bp b3" using step_health(1)[OF _ u, of bp] NewPage_health[OF nw] by simp
  then have h3: "healthy b3" using healthy_kept[OF assms(2)] L by (simp add: aside_def)
  have hf3: "hf_state b3 first (pre @ [l])" using aside_hf[OF assms(1) N(1)] L by simp
  obtain b4 g where ft: "FetchPage l b3 = (b4, Some g)"
    using FetchPage_healthy[OF h3, of l] hf_page(4)[OF hf3, of l] by auto
  let ?res = "SP_SetNextPageId (Some (frame_of b4 g)) n"
  obtain b5 ok5 where u5: "UnpinPage l (status_ok (result_status ?res)) (put_page g ?res b4) = (b5, ok5)"
    by (cases "UnpinPage l (status_ok (result_status ?res)) (put_page g ?res b4)")
  have nf: "n \<notin> free_pages (pool_disk b3)" using L N(7) by simp
  have K: "(\<exists>pg. ?res = Inr pg) \<and> ok5"
    using AppendNewPage_link[OF assms(1) N(1) _ _ _ _ nf _ _ ft u5] L by simp
  have "SP_IsInitialized (Some (frame_of b4 g))"
    using hf_fetched(1)[OF hf3 _ ft] by (simp add: sp_inv_def sp_wf_def)
  then show ?thesis using nw pg(1) pk u L ft u5 K by (auto simp: AppendNewPage_def Let_def)
qed

lemma HF_InsertLoop_succeeds:
  assumes "hf_state bp first (pre @ suf)" "suf \<noteq> []" "healthy bp" "storable r" "length r \<le> 4076"
    "num_pages (pool_disk bp) < 2147483648"
  shows "\<exists>b rid. HF_InsertLoop (set pre) (hd suf) r bp = Some (b, Inr rid)"
  using assms
proof (induction suf arbitrary: pre bp)
  case Nil
  then show ?case by simp
next
  case (Cons q suf)
  have q: "q \<in> set (pre @ q # suf)" by simp
  note h = hf_page[OF Cons.prems(1) q]
  have nv: "q \<noteq> INVALID_PAGE_ID" "q \<notin> set pre"
    using h(2) Cons.prems(1) by (auto simp: hf_state_def layout_simps)
  obtain b f where b: "FetchPage q bp = (b, Some f)" using FetchPage_healthy[OF Cons.prems(3) h(4)] by auto
  note hf = hf_fetched[OF Cons.prems(1) q b] and L = look_at_heap[OF Cons.prems(1) q b]
  have wf: "sp_wf (frame_of b f)" using hf(1) by (simp add: sp_inv_def)
  have init: "EnsureInit (frame_of b f) = Inr (frame_of b f)"
    using sp_wfD(2)[OF wf] by (simp add: EnsureInit_def)
  show ?case
  proof (cases "SP_InsertRecord (Some (frame_of b f)) (Some r)")
    case (Inr pk)
    obtain pg k where pk: "pk = (pg, k)" by (cases pk)
    obtain b' ok where u: "UnpinPage q True (set_frame f pg b) = (b', ok)"
      by (cases "UnpinPage q True (set_frame f pg b)")
    show ?thesis
      using insert_in_page[OF Cons.prems(1) q b Inr[unfolded pk] u] nv b init Inr pk u
      by (simp add: HF_InsertLoop.simps)
  next
    case (Inl st)
    have oom: "status_code st = OUT_OF_MEMORY"
      using SP_InsertRecord_wf[OF wf, of r] Cons.prems(4) Inl by (auto simp: storable_def split: if_splits)
    obtain b' where u: "UnpinPage q False b = (b', True)" "read_only bp b'" using L by auto
    have h': "healthy b'" "hf_state b' first (pre @ q # suf)" "num_pages (pool_disk b') < 2147483648"
      using read_only_healthy[OF u(2) Cons.prems(3)] read_only_hf[OF Cons.prems(1) u(2)] u(2) Cons.prems(6)
      by (simp_all add: read_only_def same_pages_def)
    have step: "HF_InsertLoop (set pre) q r bp =
      (if sp_next (frame_of b f) \<noteq> INVALID_PAGE_ID
       then HF_InsertLoop (insert q (set pre)) (sp_next (frame_of b f)) r b'
       else Some (AppendNewPage q r b'))"
      using nv b init Inl u oom set_frame_id[OF hf(6)] sp_get_next[OF wf]
      by (simp add: HF_InsertLoop.simps[of _ q])
    have ch: "heap_chain (pool_page bp) (sp_next (frame_of b f)) suf"
      using heap_chain_split[of "pool_page bp" first pre q suf] Cons.prems(1) hf(4) by (simp add: hf_state_def)
    show ?thesis
    proof (cases "suf = []")
      case True
      then show ?thesis
        using step ch AppendNewPage_succeeds[of b' first pre q r] h' Cons.prems(4,5) by simp
    next
      case False
      then have "sp_next (frame_of b f) = hd suf" "sp_next (frame_of b f) \<noteq> INVALID_PAGE_ID"
        using ch by (cases suf; auto simp: layout_simps)+
      then show ?thesis
        using step Cons.IH[of b' "pre @ [q]"] h' False Cons.prems(4,5) by simp
    qed
  qed
qed

section \<open>Scanning in order\<close>

lemma slot_records_rid: "r \<in> set (slot_records pg k) \<Longrightarrow> rid_page (rec_rid r) = page_pid pg \<and> k \<le> rid_slot (rec_rid r)"
  by (auto simp: slot_records_def)

lemma slot_records_after:
  "slot_records pg k = xs @ r # ys \<Longrightarrow> slot_records pg (rid_slot (rec_rid r) + 1) = ys"
proof (induction "sp_count pg - k" arbitrary: k xs)
  case 0
  then show ?case by (simp add: slot_records_end)
next
  case (Suc n)
  then have k: "k < sp_count pg" by simp
  have IH: "slot_records pg (Suc k) = xs @ r # ys \<Longrightarrow> ?case" for xs using Suc(1)[of "Suc k" xs] Suc(2) by simp
  show ?case
  proof (cases "sp_contents pg k")
    case None
    then show ?thesis using IH Suc(3) slot_records_step[OF k] by simp
  next
    case (Some d)
    then show ?thesis using IH Suc(3) slot_records_step[OF k] by (cases xs) auto
  qed
qed

lemma heap_records_after:
  assumes "heap_records c ps = xs @ r # ys" "distinct ps"
  shows "\<exists>pre q suf. ps = pre @ q # suf \<and> q = rid_page (rec_rid r) \<and>
    records_from c (q # suf) (rid_slot (rec_rid r) + 1) = ys"
  using assms
proof (induction ps arbitrary: xs)
  case Nil
  then show ?case by simp
next
  case (Cons p ps)
  from Cons.prems(1) consider
      (here) zs where "slot_records (page_at c p) 0 = xs @ r # zs" "ys = zs @ heap_records c ps"
    | (later) zs where "heap_records c ps = zs @ r # ys"
    by (auto simp: append_eq_append_conv2 append_eq_Cons_conv Cons_eq_append_conv)
  then show ?case
  proof cases
    case here
    have "rid_page (rec_rid r) = p"
      using slot_records_rid[of r "page_at c p" 0] here(1) by (simp add: page_at_def)
    then show ?thesis using slot_records_after[OF here(1)] here(2) by (intro exI[of _ "[]"]) auto
  next
    case later
    then obtain pre q suf where "ps = pre @ q # suf" "q = rid_page (rec_rid r)"
        "records_from c (q # suf) (rid_slot (rec_rid r) + 1) = ys"
      using Cons.IH Cons.prems(2) by force
    then show ?thesis by (intro exI[of _ "p # pre"]) auto
  qed
qed

lemma HF_GetNextRecord_spec:
  assumes "hf_state bp first (pre @ q # suf)" "rid_page rid = q"
  shows "\<exists>bp' res. HF_GetNextRecord rid bp = Some (bp', res) \<and> read_only bp bp' \<and>
    (res = next_of (records_from (pool_page bp) (q # suf) (rid_slot rid + 1)) \<or> \<not> healthy bp \<and> fetch_failed res)"
proof -
  have "1 \<le> q" "heap_chain (pool_page bp) q (q # suf)"
    using hf_page(2)[OF assms(1), of q] heap_chain_suffix assms(1) by (auto simp: hf_state_def)
  then show ?thesis
    using HF_FindLoop_spec[OF assms(1), of q "{}" "rid_slot rid + 1"] assms(2)
    by (simp add: HF_GetNextRecord_def HF_FindRecordFrom_def layout_simps)
qed

lemma HF_GetFirstRecord_spec:
  assumes "hf_state bp first ps"
  shows "\<exists>bp' res. HF_GetFirstRecord first bp = Some (bp', res) \<and> read_only bp bp' \<and>
    (res = next_of (heap_records (pool_page bp) ps) \<or> \<not> healthy bp \<and> fetch_failed res)"
  using HF_FindLoop_spec[of bp first "[]" ps first "{}" 0] assms
  by (simp add: HF_GetFirstRecord_def HF_FindRecordFrom_def hf_state_def)

text \<open>The list of records is the map of contents, each record once.\<close>

lemma slot_records_contents:
  "r \<in> set (slot_records pg 0) \<longleftrightarrow>
     rid_page (rec_rid r) = page_pid pg \<and> sp_contents pg (rid_slot (rec_rid r)) = Some (rec_data r)"
  by (cases r; cases "rec_rid r") (auto simp: slot_records_def sp_contents_def split: if_splits)

lemma slot_records_distinct: "distinct (map rec_rid (slot_records pg k))"
  by (auto simp: slot_records_def distinct_map comp_def inj_on_def)

lemma heap_records_contents:
  "r \<in> set (heap_records c ps) \<longleftrightarrow> heap_contents c ps (rec_rid r) = Some (rec_data r)"
proof (induction ps)
  case (Cons q qs)
  have "r \<in> set (slot_records (page_at c q) 0) \<longleftrightarrow>
      rid_page (rec_rid r) = q \<and> sp_contents (page_at c q) (rid_slot (rec_rid r)) = Some (rec_data r)"
    by (simp add: slot_records_contents page_at_def)
  then show ?case using Cons by (auto simp: heap_contents_def)
qed (simp add: heap_contents_def)

lemma heap_records_pages: "r \<in> set (heap_records c ps) \<Longrightarrow> rid_page (rec_rid r) \<in> set ps"
  by (auto simp: heap_records_contents heap_contents_def split: if_splits)

lemma heap_records_distinct: "distinct ps \<Longrightarrow> distinct (map rec_rid (heap_records c ps))"
proof (induction ps)
  case (Cons q qs)
  have "set (map rec_rid (slot_records (page_at c q) 0)) \<inter> set (map rec_rid (heap_records c qs)) = {}"
    using Cons.prems slot_records_rid heap_records_pages by (fastforce simp: page_at_def)
  then show ?case using Cons slot_records_distinct by simp
qed simp

section \<open>The heap file as a record store\<close>

text \<open>The store is a pool together with the list of the heap's pages, which no code keeps: it is what
  the links on the pages say, and an insertion may append to it.\<close>

definition heap_inv :: "pool \<times> page_id list \<Rightarrow> bool" where
  "heap_inv h \<longleftrightarrow> hf_state (fst h) (hd (snd h)) (snd h) \<and> healthy (fst h)"

definition heap_map :: "pool \<times> page_id list \<Rightarrow> record_id \<Rightarrow> byte list option" where
  "heap_map h = heap_contents (pool_page (fst h)) (snd h)"

definition heap_ins :: "pool \<times> page_id list \<Rightarrow> byte list \<Rightarrow> ((pool \<times> page_id list) \<times> record_id) option" where
  "heap_ins h r = (case HF_InsertRecord (hd (snd h)) (Record (RecordID INVALID_PAGE_ID 0) r) (fst h) of
     Some (bp, Inr rid) \<Rightarrow>
       Some ((bp, if rid_page rid \<in> set (snd h) then snd h else snd h @ [rid_page rid]), rid)
   | _ \<Rightarrow> None)"

definition heap_get :: "pool \<times> page_id list \<Rightarrow> record_id \<Rightarrow> byte list option" where
  "heap_get h rid = (if rid_page rid \<in> set (snd h)
     then case HF_GetRecord rid (fst h) of (_, Inr r) \<Rightarrow> Some (rec_data r) | _ \<Rightarrow> None else None)"

definition heap_upd :: "pool \<times> page_id list \<Rightarrow> record_id \<Rightarrow> byte list \<Rightarrow> (pool \<times> page_id list) option" where
  "heap_upd h rid r = (if rid_page rid \<in> set (snd h)
     then case HF_UpdateRecord (Record rid r) (fst h) of (bp, st) \<Rightarrow>
       if status_ok st then Some (bp, snd h) else None else None)"

definition heap_del :: "pool \<times> page_id list \<Rightarrow> record_id \<Rightarrow> (pool \<times> page_id list) option" where
  "heap_del h rid = (if rid_page rid \<in> set (snd h)
     then case HF_DeleteRecord rid (fst h) of (bp, st) \<Rightarrow>
       if status_ok st then Some (bp, snd h) else None else None)"

lemma heap_ins_law:
  assumes "heap_inv h" "heap_ins h r = Some (h', rid)"
  shows "heap_inv h' \<and> heap_map h rid = None \<and> heap_map h' = (heap_map h)(rid \<mapsto> r)"
proof -
  obtain bp ps where h: "h = (bp, ps)" by (cases h)
  have s: "hf_state bp (hd ps) ps" "healthy bp" using assms(1) h by (simp_all add: heap_inv_def)
  obtain out where out: "HF_InsertRecord (hd ps) (Record (RecordID INVALID_PAGE_ID 0) r) bp = Some out"
      "inserted (hd ps) ps r bp out"
    using HF_InsertRecord_spec[OF s(1), of "Record (RecordID INVALID_PAGE_ID 0) r"] by auto
  then obtain bp' where b: "out = (bp', Inr rid)"
      and h': "h' = (bp', if rid_page rid \<in> set ps then ps else ps @ [rid_page rid])"
    using assms(2) h by (auto simp: heap_ins_def split: prod.splits sum.splits)
  obtain ps' where i: "heap_contents (pool_page bp) ps rid = None" "pins bp' = pins bp"
      "ps' = ps \<or> ps' = ps @ [rid_page rid] \<and> rid_page rid \<notin> set ps" "hf_state bp' (hd ps) ps'"
      "heap_contents (pool_page bp') ps' = (heap_contents (pool_page bp) ps)(rid \<mapsto> r)"
    using out(2) b by (auto simp: inserted_def outside_kept_def)
  have "rid_page rid \<in> set ps'"
    using fun_cong[OF i(5), of rid] by (auto simp: heap_contents_def split: if_splits)
  then have ps': "ps' = (if rid_page rid \<in> set ps then ps else ps @ [rid_page rid])" using i(3) by auto
  have "hd ps' = hd ps" using i(3) s(1) by (auto simp: hf_state_def)
  moreover have "healthy bp'"
    using healthy_kept[OF s(2) HF_InsertRecord_health _ i(2)] out(1) b i(4) by (auto simp: hf_state_def)
  ultimately show ?thesis using h h' i ps' by (simp add: heap_inv_def heap_map_def)
qed

lemma heap_get_law:
  assumes "heap_inv h"
  shows "heap_get h rid = heap_map h rid"
proof (cases "rid_page rid \<in> set (snd h)")
  case True
  obtain bp ps where h: "h = (bp, ps)" by (cases h)
  have s: "hf_state bp (hd ps) ps" "healthy bp" "rid_page rid \<in> set ps"
    using assms h True by (simp_all add: heap_inv_def)
  obtain bp' res where g: "HF_GetRecord rid bp = (bp', res)" by (cases "HF_GetRecord rid bp")
  have "snd (FetchPage (rid_page rid) bp) \<noteq> None"
    using FetchPage_healthy[OF s(2), of "rid_page rid"] hf_page(4)[OF s(1,3)] by auto
  then have res: "res = SP_ReadRecord (Some (page_at (pool_page bp) (rid_page rid))) (rid_slot rid)"
    using HF_GetRecord_spec[OF s(1,3) g] by simp
  have "sp_wf (page_at (pool_page bp) (rid_page rid))" using hf_page(5)[OF s(1,3)] by (simp add: sp_inv_def)
  from SP_ReadRecord_wf[OF this, of "rid_slot rid"] show ?thesis
    using h s(3) g res by (auto simp: heap_get_def heap_map_def heap_contents_def sp_contents_def split: option.splits)
qed (simp add: heap_get_def heap_map_def heap_contents_def)

lemma heap_upd_law:
  assumes "heap_inv h" "heap_upd h rid r = Some h'"
  shows "heap_inv h' \<and> heap_map h rid \<noteq> None \<and> heap_map h' = (heap_map h)(rid \<mapsto> r)"
proof -
  obtain bp ps where h: "h = (bp, ps)" by (cases h)
  obtain bp' st where u: "HF_UpdateRecord (Record rid r) bp = (bp', st)" by (cases "HF_UpdateRecord (Record rid r) bp")
  have s: "hf_state bp (hd ps) ps" "healthy bp" "rid_page rid \<in> set ps" "h' = (bp', ps)" "status_ok st"
    using assms h u by (auto simp: heap_inv_def heap_upd_def split: if_splits)
  note U = HF_UpdateRecord_spec[OF s(1) _ u]
  have "healthy bp'" using healthy_kept[OF s(2) HF_UpdateRecord_health[OF u]] U s(3)
    by (simp add: hf_state_def outside_kept_def)
  then show ?thesis using U s h by (simp add: heap_inv_def heap_map_def)
qed

lemma heap_del_law:
  assumes "heap_inv h" "heap_del h rid = Some h'"
  shows "heap_inv h' \<and> heap_map h rid \<noteq> None \<and> heap_map h' = (heap_map h)(rid := None)"
proof -
  obtain bp ps where h: "h = (bp, ps)" by (cases h)
  obtain bp' st where u: "HF_DeleteRecord rid bp = (bp', st)" by (cases "HF_DeleteRecord rid bp")
  have s: "hf_state bp (hd ps) ps" "healthy bp" "rid_page rid \<in> set ps" "h' = (bp', ps)" "status_ok st"
    using assms h u by (auto simp: heap_inv_def heap_del_def split: if_splits)
  note U = HF_DeleteRecord_spec[OF s(1,3) u]
  have "healthy bp'" using healthy_kept[OF s(2) HF_DeleteRecord_health[OF u]] U
    by (simp add: hf_state_def outside_kept_def)
  then show ?thesis using U s h by (simp add: heap_inv_def heap_map_def)
qed

interpretation heap: record_store heap_inv heap_map heap_ins heap_get heap_upd heap_del
proof (unfold_locales, goal_cases)
  case (1 s r s' k)
  then show ?case by (rule heap_ins_law)
next
  case (2 s k)
  then show ?case by (rule heap_get_law)
next
  case (3 s k r s')
  then show ?case by (rule heap_upd_law)
next
  case (4 s k s')
  then show ?case by (rule heap_del_law)
qed

section \<open>The walks end on any bytes\<close>

lemma HF_FindLoop_returns:
  assumes "bounded N bp"
  shows "\<forall>k. HF_FindLoop visited c k bp \<noteq> None"
  using assms
proof (induction visited c bp rule: walk_induct)
  case (step visited c bp)
  show ?case
  proof
    fix k
    obtain b r where b: "FetchPage c bp = (b, r)" by (cases "FetchPage c bp")
    note B = FetchPage_bounded[OF step(1) b]
    obtain b' ok where u: "UnpinPage c False b = (b', ok)" by (cases "UnpinPage c False b")
    have "bounded N b'" using UnpinPage_bounded[OF _ u] B by simp
    then show "HF_FindLoop visited c k bp \<noteq> None"
      using step(2)[of b'] B b u
      by (auto simp: HF_FindLoop.simps[of visited] split: option.splits prod.splits sum.splits)
  qed
qed

lemma HF_ContainsLoop_returns:
  assumes "bounded N bp"
  shows "HF_ContainsLoop visited c p bp \<noteq> None"
  using assms
proof (induction visited c bp rule: walk_induct)
  case (step visited c bp)
  obtain b r where b: "FetchPage c bp = (b, r)" by (cases "FetchPage c bp")
  note B = FetchPage_bounded[OF step(1) b]
  obtain b' ok where u: "UnpinPage c False b = (b', ok)" by (cases "UnpinPage c False b")
  have "bounded N b'" using UnpinPage_bounded[OF _ u] B by simp
  then show ?case
    using step(2)[of b'] B b u by (auto simp: HF_ContainsLoop.simps[of visited] split: option.splits prod.splits)
qed

lemma EnsureInit_pid: "EnsureInit pg = Inr pg' \<Longrightarrow> page_pid pg' = page_pid pg"
  by (auto simp: EnsureInit_def SP_Init_def Let_def split: if_splits)

lemma HF_InsertLoop_returns:
  assumes "bounded N bp"
  shows "HF_InsertLoop visited c r bp \<noteq> None"
  using assms
proof (induction visited c bp rule: walk_induct)
  case (step visited c bp)
  obtain b x where b: "FetchPage c bp = (b, x)" by (cases "FetchPage c bp")
  note B = FetchPage_bounded[OF step(1) b]
  have rec: "HF_InsertLoop (insert c visited) c' r b' \<noteq> None"
    if "c \<notin> visited" "x = Some f" "EnsureInit (frame_of b f) = Inr pg" "UnpinPage c False (set_frame f pg b) = (b', ok)"
    for c' f pg b' ok
  proof -
    have "page_pid pg < N" using EnsureInit_pid[OF that(3)] B that(2) by (simp add: bounded_def)
    then have "bounded N b'" using UnpinPage_bounded[OF bounded_set_frame that(4)] B by simp
    then show ?thesis using step(2)[of b' c'] B that(1,2) by auto
  qed
  show ?case
    using rec b by (auto simp: HF_InsertLoop.simps[of visited] split: option.splits prod.splits sum.splits)
qed

section \<open>An empty heap file, for the witnesses\<close>

text \<open>A fresh page, initialised and unpinned, is an empty heap file.\<close>

lemma heap_page_made:
  assumes "healthy bp" "NewPage bp = (b, Some (n, f))" "is_i32 n"
  obtains pg b' where "SP_Init (Some (frame_of b f)) = Inr pg" "UnpinPage n True (set_frame f pg b) = (b', True)"
    "healthy b'" "hf_state b' n [n]" "heap_contents (pool_page b') [n] = (\<lambda>_. None)" "fresh_page n bp"
    "\<forall>q. q \<noteq> n \<longrightarrow> pool_page b' q = pool_page bp q" "page_pid pg = page_pid (frame_of b f)" "outside_kept [] bp b'"
proof -
  have bp: "pool_ok {} bp" using assms(1) by (simp add: healthy_def)
  note N = NewPage_fresh[OF bp assms(2)]
  have frame: "page_pid (frame_of b f) \<noteq> INVALID_PAGE_ID" "is_i32 (page_pid (frame_of b f))"
    using N(6,9) assms(3) by (simp_all add: layout_simps)
  obtain pg where i: "SP_Init (Some (frame_of b f)) = Inr pg" and pg: "sp_inv pg" "sp_slots pg = []"
      "sp_next pg = INVALID_PAGE_ID" "page_pid pg = n" "pin_count pg = pin_count (frame_of b f)" "is_dirty pg"
    using SP_Init_inv[OF frame] N(9) by (auto simp: sp_abs_def)
  have ok: "pool_ok {} b" using N(2) by (simp add: aside_def)
  have pin: "0 < pins b n" using N(3) by simp
  obtain b' u where u: "UnpinPage n True (set_frame f pg b) = (b', u)" by (cases "UnpinPage n True (set_frame f pg b)")
  note M = modify_pinned[OF ok N(5) pin pg(4,5) sp_inv_length[OF pg(1)] u]
  have "keeps_health bp b'" using step_health(1)[OF _ u, of bp] NewPage_health[OF assms(2)] by simp
  then have hl: "healthy b'" using healthy_kept[OF assms(1)] M N(3,4) by (simp add: fun_upd_idem)
  have v: "page_at (pool_page b') n = view n (page_data pg)" using M by (simp add: page_at_def)
  have st: "hf_state b' n [n]"
    using M v N(6,7) pg(1,3) view_eqs(2,4)[OF pg(4) refl] by (simp add: hf_state_def layout_simps)
  have "sp_contents pg = (\<lambda>_. None)" using pg(2) by (auto simp: sp_contents_def sp_slots_def)
  then have c: "heap_contents (pool_page b') [n] = (\<lambda>_. None)"
    using v sp_contents_view[OF pg(4) refl] by (auto simp: heap_contents_def)
  have "aside n bp b'" using M N(2) by (simp add: aside_def)
  moreover have "pins b' = pins bp" using M N(3,4) by (simp add: fun_upd_idem)
  ultimately have "outside_kept [] bp b'" by (rule aside_outside[OF bp N(1)])
  moreover have "\<forall>q. q \<noteq> n \<longrightarrow> pool_page b' q = pool_page bp q" using M N(2) by (simp add: aside_def)
  ultimately show ?thesis using that[OF i _ hl st c N(1)] u M pg(4) N(9) by simp
qed

lemma example_heap:
  "\<exists>bp p. hf_state bp p [p] \<and> healthy bp \<and> heap_contents (pool_page bp) [p] = (\<lambda>_. None) \<and>
     num_pages (pool_disk bp) < 2147483648"
proof -
  obtain d bp where ex: "pool_ok {} bp" "pool_disk bp = d" "disk_io d = []" "num_pages d = 1" "free_pages d = {}"
      "pins bp = (\<lambda>_. 0)" "length (pages bp) = 2"
    using example_pool[of 2] by auto
  have h: "healthy bp" using ex by (auto simp: healthy_def)
  obtain b n f where nw: "NewPage bp = (b, Some (n, f))" using NewPage_healthy[OF h] by blast
  have n1: "n = 1" using NewPage_fresh(1)[OF ex(1) nw] ex by (simp add: fresh_page_def)
  obtain pg b' where m: "healthy b'" "hf_state b' n [n]" "heap_contents (pool_page b') [n] = (\<lambda>_. None)"
    "\<forall>q. q \<noteq> n \<longrightarrow> pool_page b' q = pool_page bp q"
    by (rule heap_page_made[OF h nw]) (use n1 in \<open>auto simp: is_i32_def\<close>)
  have "pool_page b' 2 = pool_page bp 2" using m(4) n1 by simp
  also have "\<dots> = None" using pool_page_bound[OF ex(1), of 2] ex by (cases "pool_page bp 2") auto
  finally have "\<not> 2 < num_pages (pool_disk b')" by (auto simp: pool_page_def disk_page_def split: option.splits)
  then show ?thesis using m by (intro exI[of _ b'] exI[of _ n]) simp
qed

lemma HF_DeleteRecord_found:
  assumes "hf_state bp first ps" "healthy bp" "rid_page rid \<in> set ps"
    "heap_contents (pool_page bp) ps rid \<noteq> None"
  shows "status_ok (snd (HF_DeleteRecord rid bp))"
proof -
  note h = hf_page[OF assms(1,3)]
  obtain b f where b: "FetchPage (rid_page rid) bp = (b, Some f)" using FetchPage_healthy[OF assms(2) h(4)] by auto
  note hf = hf_fetched[OF assms(1,3) b]
  have wf: "sp_wf (frame_of b f)" using hf(1) by (simp add: sp_inv_def)
  obtain old where "rid_slot rid < sp_count (frame_of b f)" "sp_slots (frame_of b f) ! rid_slot rid = Some old"
    using assms(3,4) hf(5) by (auto simp: heap_contents_def sp_contents_def fun_eq_iff split: if_splits)
  then obtain pg where pg: "SP_DeleteRecord (Some (frame_of b f)) (rid_slot rid) = Inr pg"
    using SP_DeleteRecord_wf[OF wf] by blast
  obtain b2 ok where u: "UnpinPage (rid_page rid) (status_ok (result_status (Inr pg :: page result)))
      (put_page f (Inr pg) b) = (b2, ok)"
    by (cases "UnpinPage (rid_page rid) (status_ok (result_status (Inr pg :: page result))) (put_page f (Inr pg) b)")
  have ok
    using hf_change[OF assms(1,3) b u] del_facts[OF hf(1) pg] by simp
  then show ?thesis using b pg u h(2) by (simp add: HF_DeleteRecord_def Let_def layout_simps)
qed

section \<open>Properties\<close>

text \<open>
  C21. Inserting into a heap file always returns, and is atomic whatever fails on the way (a fetch, the
  allocation of a page, the linking of it): on an error the chain and every record are as before, on
  success one record is added under an identifier that was not in use, possibly on a page appended to
  the chain, which nobody used. Pages of other owners stay in use with their contents and all pin counts
  are as before in both cases.
\<close>

theorem heap_insert_atomic:
  assumes "hf_state bp first ps"
  shows "\<exists>bp' res. HF_InsertRecord first rec bp = Some (bp', res) \<and> outside_kept ps bp bp' \<and>
    (case res of
       Inl _ \<Rightarrow> hf_state bp' first ps \<and> heap_contents (pool_page bp') ps = heap_contents (pool_page bp) ps
     | Inr rid \<Rightarrow> heap_contents (pool_page bp) ps rid = None \<and>
         (\<exists>ps'. (ps' = ps \<or> ps' = ps @ [rid_page rid] \<and> rid_page rid \<notin> set ps \<and> unused (rid_page rid) bp) \<and> hf_state bp' first ps' \<and>
           heap_contents (pool_page bp') ps' = (heap_contents (pool_page bp) ps)(rid \<mapsto> rec_data rec)))"
  using HF_InsertRecord_spec[OF assms, of rec] by (auto simp: inserted_def)

theorem heap_insert_atomic_witness:
  "\<exists>bp p bp' st. HF_InsertRecord p (Record (RecordID 0 0) []) bp = Some (bp', Inl st) \<and>
     heap_contents (pool_page bp') [p] = (\<lambda>_. None)"
proof -
  obtain bp p where b: "hf_state bp p [p]" "heap_contents (pool_page bp) [p] = (\<lambda>_. None)"
    using example_heap by blast
  obtain bp' res where r: "HF_InsertRecord p (Record (RecordID 0 0) []) bp = Some (bp', res)"
    "case res of
       Inl _ \<Rightarrow> hf_state bp' p [p] \<and> heap_contents (pool_page bp') [p] = heap_contents (pool_page bp) [p]
     | Inr rid \<Rightarrow> heap_contents (pool_page bp) [p] rid = None \<and>
         (\<exists>ps'. (ps' = [p] \<or> ps' = [p] @ [rid_page rid] \<and> rid_page rid \<notin> set [p] \<and> unused (rid_page rid) bp) \<and> hf_state bp' p ps' \<and>
           heap_contents (pool_page bp') ps' = (heap_contents (pool_page bp) [p])(rid \<mapsto> rec_data (Record (RecordID 0 0) [])))"
    using heap_insert_atomic[OF b(1), of "Record (RecordID 0 0) []"] by blast
  obtain st where "res = Inl st" using r(1) by (auto simp: HF_InsertRecord_def GetSize_def)
  then show ?thesis using r b(2) by auto
qed

text \<open>
  On a pool without pins and a disk without failures, any record of 1 to 4076 bytes can be
  inserted, as long as page identifiers last, and is read back under the identifier returned, while
  every other identifier of the heap reads as before.
\<close>

theorem heap_insert_then_read:
  assumes "heap_inv h" "r \<noteq> []" "length r \<le> 4076" "num_pages (pool_disk (fst h)) < 2147483648"
  shows "\<exists>h' rid. heap_ins h r = Some (h', rid) \<and> heap_inv h' \<and>
    (\<forall>k. heap_get h' k = (if k = rid then Some r else heap_get h k))"
proof -
  obtain bp ps where h: "h = (bp, ps)" by (cases h)
  have s: "hf_state bp (hd ps) ps" "healthy bp" using assms(1) h by (simp_all add: heap_inv_def)
  have ps: "ps \<noteq> []" "storable r" using s(1) assms(2,3) by (simp_all add: hf_state_def storable_def layout_simps)
  obtain b rid where "HF_InsertLoop {} (hd ps) r bp = Some (b, Inr rid)"
    using HF_InsertLoop_succeeds[of bp "hd ps" "[]" ps r] s ps assms(3,4) h by auto
  then have "\<exists>h'. heap_ins h r = Some (h', rid)"
    using h assms(2) by (simp add: heap_ins_def HF_InsertRecord_def GetSize_def)
  then obtain h' where i: "heap_ins h r = Some (h', rid)" by blast
  then show ?thesis using heap.ins_law[OF assms(1) i] heap.get_after_ins[OF assms(1) i] by auto
qed

theorem heap_insert_then_read_witness:
  "\<exists>h h' rid. heap_ins h ''abc'' = Some (h', rid) \<and> heap_get h' rid = Some ''abc''"
proof -
  obtain bp p where b: "hf_state bp p [p]" "healthy bp" "num_pages (pool_disk bp) < 2147483648"
    using example_heap by blast
  then have "heap_inv (bp, [p])" by (simp add: heap_inv_def)
  then obtain h' rid where "heap_ins (bp, [p]) ''abc'' = Some (h', rid)"
      "\<forall>k. heap_get h' k = (if k = rid then Some ''abc'' else heap_get (bp, [p]) k)"
    using heap_insert_then_read[of "(bp, [p])" "''abc''"] b(3) by auto
  then show ?thesis by (metis (full_types))
qed

text \<open>
  Deleting from a heap file: with the disk free of failures it succeeds exactly when the record
  exists, and afterwards that record is gone and no other, with the chain and everybody else's pages
  as they were.
\<close>

theorem heap_delete_exact:
  assumes "hf_state bp first ps" "healthy bp" "rid_page rid \<in> set ps" "HF_DeleteRecord rid bp = (bp', st)"
  shows "status_ok st = (heap_contents (pool_page bp) ps rid \<noteq> None) \<and> hf_state bp' first ps \<and>
    outside_kept ps bp bp' \<and> heap_contents (pool_page bp') ps = (heap_contents (pool_page bp) ps)(rid := None)"
proof -
  note D = HF_DeleteRecord_spec[OF assms(1,3,4)]
  have "status_ok st = (heap_contents (pool_page bp) ps rid \<noteq> None)"
    using D HF_DeleteRecord_found[OF assms(1-3)] assms(4) by auto
  then show ?thesis using D by (auto simp: fun_upd_idem)
qed

theorem heap_delete_exact_witness:
  "\<exists>bp p. \<not> status_ok (snd (HF_DeleteRecord (RecordID p 3) bp))"
proof -
  obtain bp p where b: "hf_state bp p [p]" "healthy bp" "heap_contents (pool_page bp) [p] = (\<lambda>_. None)"
    using example_heap by blast
  obtain bp' st where d: "HF_DeleteRecord (RecordID p 3) bp = (bp', st)" by (cases "HF_DeleteRecord (RecordID p 3) bp")
  then show ?thesis using heap_delete_exact[OF b(1,2) _ d] b(3) by (intro exI[of _ bp] exI[of _ p]) simp
qed

text \<open>
  An update of a record in a heap file is all or nothing, on any pool and disk: if it reports
  success the record existed and now holds the new bytes under the same identifier; if it reports an
  error nothing has changed.
\<close>

theorem heap_update_atomic:
  assumes "hf_state bp first ps" "rid_page (rec_rid r) \<in> set ps" "HF_UpdateRecord r bp = (bp', st)"
  shows "hf_state bp' first ps \<and> outside_kept ps bp bp' \<and>
    (if status_ok st
     then heap_contents (pool_page bp) ps (rec_rid r) \<noteq> None \<and>
       heap_contents (pool_page bp') ps = (heap_contents (pool_page bp) ps)(rec_rid r \<mapsto> rec_data r)
     else heap_contents (pool_page bp') ps = heap_contents (pool_page bp) ps)"
  using HF_UpdateRecord_spec[OF assms] by simp

theorem heap_update_atomic_witness:
  "\<exists>bp p bp' st. HF_UpdateRecord (Record (RecordID p 0) ''x'') bp = (bp', st) \<and>
     heap_contents (pool_page bp') [p] = (\<lambda>_. None)"
proof -
  obtain bp p where b: "hf_state bp p [p]" "heap_contents (pool_page bp) [p] = (\<lambda>_. None)"
    using example_heap by blast
  obtain bp' st where u: "HF_UpdateRecord (Record (RecordID p 0) ''x'') bp = (bp', st)"
    by (cases "HF_UpdateRecord (Record (RecordID p 0) ''x'') bp")
  then show ?thesis using heap_update_atomic[OF b(1) _ u] b(2) by (auto split: if_splits)
qed

text \<open>
  C22. A scan enumerates the heap. With the disk free of failures, \<^verbatim>\<open>GetFirstRecord\<close> returns the first
  record of the list \<open>heap_records\<close> and \<^verbatim>\<open>GetNextRecord\<close> of any record the one that follows it, or
  \<^verbatim>\<open>NOT_FOUND\<close> at the end; that list holds exactly the records of the heap, each identifier once.
\<close>

theorem heap_scan_enumerates:
  assumes "hf_state bp first ps" "healthy bp"
  shows "(\<exists>bp'. HF_GetFirstRecord first bp = Some (bp', next_of (heap_records (pool_page bp) ps)) \<and> read_only bp bp') \<and>
    (\<forall>xs r ys. heap_records (pool_page bp) ps = xs @ r # ys \<longrightarrow>
      (\<exists>bp'. HF_GetNextRecord (rec_rid r) bp = Some (bp', next_of ys) \<and> read_only bp bp')) \<and>
    distinct (map rec_rid (heap_records (pool_page bp) ps)) \<and>
    (\<forall>r. r \<in> set (heap_records (pool_page bp) ps) \<longleftrightarrow>
      heap_contents (pool_page bp) ps (rec_rid r) = Some (rec_data r))"
proof (intro conjI allI impI)
  show "\<exists>bp'. HF_GetFirstRecord first bp = Some (bp', next_of (heap_records (pool_page bp) ps)) \<and> read_only bp bp'"
    using HF_GetFirstRecord_spec[OF assms(1)] assms(2) by auto
next
  have d: "distinct ps" using assms(1) by (simp add: hf_state_def)
  then show "distinct (map rec_rid (heap_records (pool_page bp) ps))" by (rule heap_records_distinct)
  fix xs r ys assume "heap_records (pool_page bp) ps = xs @ r # ys"
  from heap_records_after[OF this d] obtain pre q suf where s: "ps = pre @ q # suf" "q = rid_page (rec_rid r)"
      "records_from (pool_page bp) (q # suf) (rid_slot (rec_rid r) + 1) = ys" by blast
  have "\<exists>bp' res. HF_GetNextRecord (rec_rid r) bp = Some (bp', res) \<and> read_only bp bp' \<and> res = next_of ys"
    using HF_GetNextRecord_spec[OF assms(1)[unfolded s(1)] s(2)[symmetric]] assms(2) s(3) by blast
  then show "\<exists>bp'. HF_GetNextRecord (rec_rid r) bp = Some (bp', next_of ys) \<and> read_only bp bp'" by blast
next
  show "r \<in> set (heap_records (pool_page bp) ps) \<longleftrightarrow>
      heap_contents (pool_page bp) ps (rec_rid r) = Some (rec_data r)" for r
    by (rule heap_records_contents)
qed

theorem heap_scan_enumerates_witness:
  "\<exists>bp p bp'. HF_GetFirstRecord p bp = Some (bp', Inl (NotFound ''No more records in HeapFile''))"
proof -
  obtain bp p where b: "hf_state bp p [p]" "healthy bp" "heap_contents (pool_page bp) [p] = (\<lambda>_. None)"
    using example_heap by blast
  note S = heap_scan_enumerates[OF b(1,2)]
  have "r \<notin> set (heap_records (pool_page bp) [p])" for r
    using heap_records_contents[of r "pool_page bp" "[p]"] b(3) by simp
  then have "heap_records (pool_page bp) [p] = []" by (metis list.set_intros(1) neq_Nil_conv)
  then show ?thesis using conjunct1[OF S] by (auto simp: next_of_def)
qed

text \<open>
  C31. No walk along a heap file's pages runs forever, whatever the bytes on the pages are: a cyclic,
  truncated or overwritten chain, even one through freed pages, makes insertion, the scans and the
  ownership check return.
\<close>

theorem heap_walks_return:
  assumes "bounded N bp"
  shows "HF_InsertRecord first rec bp \<noteq> None \<and> HF_ContainsPage first p bp \<noteq> None \<and>
    HF_GetFirstRecord first bp \<noteq> None \<and> HF_GetNextRecord rid bp \<noteq> None"
  using HF_InsertLoop_returns[OF assms] HF_ContainsLoop_returns[OF assms] HF_FindLoop_returns[OF assms]
  by (simp add: HF_InsertRecord_def HF_ContainsPage_def HF_GetFirstRecord_def HF_GetNextRecord_def
      HF_FindRecordFrom_def)

theorem heap_walks_return_witness:
  "\<exists>bp. HF_GetFirstRecord 0 bp \<noteq> None \<and> pool_page bp 0 = Some zero_page"
proof -
  obtain d bp where b: "pool_ok {} bp" "pool_disk bp = d" "page_table bp = Map.empty" "disk_page d 0 = Some zero_page"
    using example_pool[of 1] by auto
  obtain N where N: "bounded N bp" using pool_ok_bounded[OF b(1)] by blast
  have "pool_page bp 0 = Some zero_page" using b by (simp add: pool_page_def)
  then show ?thesis using heap_walks_return[OF N, of 0] by blast
qed

end
