(* ===== verification/Bucket_Page.thy ===== *)
theory Bucket_Page
  imports Index_Key
begin

text \<open>
  The pages of a hash index: the header page with the directory of buckets
  (index/hash_index_header_page.h, index/hash_index_header_page.cpp) and the bucket page with its
  key/RecordID entries (index/bucket_page.h, index/bucket_page.cpp). The classes wrap a pointer to a
  frame; the operations here take the page and return it changed. The null checks of the wrapped and
  the output pointers have no counterpart. A \<^verbatim>\<open>std::string\<close> key is a list of bytes.
\<close>

section \<open>The header page\<close>

definition HIH_MAGIC :: nat where [layout_simps]: "HIH_MAGIC = 0x31495848"
definition HIH_VERSION :: nat where [layout_simps]: "HIH_VERSION = 1"
definition HIH_MAGIC_OFFSET :: nat where [layout_simps]: "HIH_MAGIC_OFFSET = 0"
definition HIH_VERSION_OFFSET :: nat where [layout_simps]: "HIH_VERSION_OFFSET = 4"
definition HIH_BUCKET_COUNT_OFFSET :: nat where [layout_simps]: "HIH_BUCKET_COUNT_OFFSET = 6"
definition HIH_MAX_KEY_LENGTH_OFFSET :: nat where [layout_simps]: "HIH_MAX_KEY_LENGTH_OFFSET = 8"
definition HIH_RESERVED_OFFSET :: nat where [layout_simps]: "HIH_RESERVED_OFFSET = 10"
definition HIH_DIRECTORY_OFFSET :: nat where [layout_simps]: "HIH_DIRECTORY_OFFSET = 16"

definition MaxBucketCount :: nat where
  "MaxBucketCount = u16 (int ((PAGE_SIZE - HIH_DIRECTORY_OFFSET) div 4))"

definition HIH_Init :: "nat \<Rightarrow> nat \<Rightarrow> page \<Rightarrow> page result" where
  "HIH_Init bucket_count max_key_length pg =
     (if page_pid pg = INVALID_PAGE_ID
      then Inl (InvalidArgument ''Hash index header requires a valid page'')
      else if bucket_count = 0 \<or> bucket_count > MaxBucketCount
      then Inl (InvalidArgument ''Invalid hash index bucket count'')
      else if max_key_length = 0
      then Inl (InvalidArgument ''Hash index key length must be greater than zero'')
      else
        let data0 = zero_page;
            data1 = WriteValue_u32 data0 HIH_MAGIC_OFFSET HIH_MAGIC;
            data2 = WriteValue_u16 data1 HIH_VERSION_OFFSET HIH_VERSION;
            data3 = WriteValue_u16 data2 HIH_BUCKET_COUNT_OFFSET bucket_count;
            data4 = WriteValue_u16 data3 HIH_MAX_KEY_LENGTH_OFFSET max_key_length;
            data5 = WriteValue_u16 data4 HIH_RESERVED_OFFSET 0;
            data6 = fold (\<lambda>i d. WriteValue_i32 d (HIH_DIRECTORY_OFFSET + i * 4) INVALID_PAGE_ID)
                      [0..<bucket_count] data5
        in Inr (pg\<lparr>page_data := data6, is_dirty := True\<rparr>))"

definition HIH_IsInitialized :: "page \<Rightarrow> bool" where
  "HIH_IsInitialized pg =
     (let data = page_data pg
      in if ReadValue_u32 data HIH_MAGIC_OFFSET \<noteq> HIH_MAGIC \<or>
            ReadValue_u16 data HIH_VERSION_OFFSET \<noteq> HIH_VERSION then False
         else let bucket_count = ReadValue_u16 data HIH_BUCKET_COUNT_OFFSET
              in bucket_count > 0 \<and> bucket_count \<le> MaxBucketCount)"

definition HIH_GetBucketCount :: "page \<Rightarrow> nat" where
  "HIH_GetBucketCount pg =
     (if \<not> HIH_IsInitialized pg then 0 else ReadValue_u16 (page_data pg) HIH_BUCKET_COUNT_OFFSET)"

definition HIH_GetMaxKeyLength :: "page \<Rightarrow> nat" where
  "HIH_GetMaxKeyLength pg =
     (if \<not> HIH_IsInitialized pg then 0 else ReadValue_u16 (page_data pg) HIH_MAX_KEY_LENGTH_OFFSET)"

definition HIH_GetBucketPageId :: "nat \<Rightarrow> page \<Rightarrow> page_id result" where
  "HIH_GetBucketPageId bucket_index pg =
     (if \<not> HIH_IsInitialized pg then Inl (IOError ''Hash index header page is not initialized'')
      else if bucket_index \<ge> HIH_GetBucketCount pg
      then Inl (InvalidArgument ''Bucket index is out of range'')
      else Inr (ReadValue_i32 (page_data pg) (HIH_DIRECTORY_OFFSET + bucket_index * 4)))"

definition HIH_SetBucketPageId :: "nat \<Rightarrow> page_id \<Rightarrow> page \<Rightarrow> page result" where
  "HIH_SetBucketPageId bucket_index bucket_page_id pg =
     (if \<not> HIH_IsInitialized pg then Inl (IOError ''Hash index header page is not initialized'')
      else if bucket_index \<ge> HIH_GetBucketCount pg
      then Inl (InvalidArgument ''Bucket index is out of range'')
      else if bucket_page_id = 0 \<or> bucket_page_id < INVALID_PAGE_ID
      then Inl (InvalidArgument ''Invalid bucket page id'')
      else Inr (pg\<lparr>page_data := WriteValue_i32 (page_data pg)
                     (HIH_DIRECTORY_OFFSET + bucket_index * 4) bucket_page_id,
                   is_dirty := True\<rparr>))"

section \<open>The bucket page\<close>

definition BK_MAGIC :: nat where [layout_simps]: "BK_MAGIC = 0x314B4248"
definition BK_MAGIC_OFFSET :: nat where [layout_simps]: "BK_MAGIC_OFFSET = 0"
definition BK_ENTRY_COUNT_OFFSET :: nat where [layout_simps]: "BK_ENTRY_COUNT_OFFSET = 4"
definition BK_CAPACITY_OFFSET :: nat where [layout_simps]: "BK_CAPACITY_OFFSET = 6"
definition BK_OVERFLOW_PAGE_ID_OFFSET :: nat where [layout_simps]: "BK_OVERFLOW_PAGE_ID_OFFSET = 8"
definition BK_RESERVED_OFFSET :: nat where [layout_simps]: "BK_RESERVED_OFFSET = 12"
definition BK_HEADER_SIZE :: nat where [layout_simps]: "BK_HEADER_SIZE = 16"
definition ENTRY_KEY_LENGTH_OFFSET :: nat where [layout_simps]: "ENTRY_KEY_LENGTH_OFFSET = 0"
definition ENTRY_KEY_OFFSET :: nat where [layout_simps]: "ENTRY_KEY_OFFSET = 4"
definition ENTRY_PAGE_ID_OFFSET :: nat where
  [layout_simps]: "ENTRY_PAGE_ID_OFFSET = ENTRY_KEY_OFFSET + MAX_KEY_LENGTH"
definition ENTRY_SLOT_ID_OFFSET :: nat where [layout_simps]: "ENTRY_SLOT_ID_OFFSET = ENTRY_PAGE_ID_OFFSET + 4"
definition ENTRY_TRAILING_RESERVED_OFFSET :: nat where
  [layout_simps]: "ENTRY_TRAILING_RESERVED_OFFSET = ENTRY_SLOT_ID_OFFSET + 2"
definition ENTRY_SIZE :: nat where [layout_simps]: "ENTRY_SIZE = ENTRY_TRAILING_RESERVED_OFFSET + 2"

definition ENTRY_CAPACITY :: nat where
  "ENTRY_CAPACITY = u16 (int ((PAGE_SIZE - BK_HEADER_SIZE) div ENTRY_SIZE))"

definition BK_Init :: "page \<Rightarrow> page result" where
  "BK_Init pg =
     (if page_pid pg = INVALID_PAGE_ID then Inl (InvalidArgument ''Hash bucket requires a valid page'')
      else
        let data0 = zero_page;
            data1 = WriteValue_u32 data0 BK_MAGIC_OFFSET BK_MAGIC;
            data2 = WriteValue_u16 data1 BK_ENTRY_COUNT_OFFSET 0;
            data3 = WriteValue_u16 data2 BK_CAPACITY_OFFSET ENTRY_CAPACITY;
            data4 = WriteValue_i32 data3 BK_OVERFLOW_PAGE_ID_OFFSET INVALID_PAGE_ID;
            data5 = WriteValue_u32 data4 BK_RESERVED_OFFSET 0
        in Inr (pg\<lparr>page_data := data5, is_dirty := True\<rparr>))"

definition BK_IsInitialized :: "page \<Rightarrow> bool" where
  "BK_IsInitialized pg \<longleftrightarrow>
     ReadValue_u32 (page_data pg) BK_MAGIC_OFFSET = BK_MAGIC \<and>
     ReadValue_u16 (page_data pg) BK_CAPACITY_OFFSET = ENTRY_CAPACITY \<and>
     ReadValue_u16 (page_data pg) BK_ENTRY_COUNT_OFFSET \<le> ENTRY_CAPACITY"

definition BK_GetEntryCount :: "page \<Rightarrow> nat" where
  "BK_GetEntryCount pg =
     (if \<not> BK_IsInitialized pg then 0 else ReadValue_u16 (page_data pg) BK_ENTRY_COUNT_OFFSET)"

definition BK_GetCapacity :: nat where "BK_GetCapacity = ENTRY_CAPACITY"

definition BK_GetOverflowPageId :: "page \<Rightarrow> page_id" where
  "BK_GetOverflowPageId pg =
     (if \<not> BK_IsInitialized pg then INVALID_PAGE_ID
      else ReadValue_i32 (page_data pg) BK_OVERFLOW_PAGE_ID_OFFSET)"

definition BK_SetOverflowPageId :: "page_id \<Rightarrow> page \<Rightarrow> page result" where
  "BK_SetOverflowPageId p pg =
     (if \<not> BK_IsInitialized pg then Inl (IOError ''Hash bucket page is not initialized'')
      else if p = 0 \<or> p < INVALID_PAGE_ID then Inl (InvalidArgument ''Invalid overflow page id'')
      else Inr (pg\<lparr>page_data := WriteValue_i32 (page_data pg) BK_OVERFLOW_PAGE_ID_OFFSET p,
                   is_dirty := True\<rparr>))"

definition GetEntryOffset :: "nat \<Rightarrow> nat" where
  "GetEntryOffset entry_index = BK_HEADER_SIZE + entry_index * ENTRY_SIZE"

definition ValidateKey :: "byte list \<Rightarrow> status" where
  "ValidateKey key =
     (if length key > MAX_KEY_LENGTH
      then InvalidArgument ''Hash index key exceeds maximum length'' else Status_OK)"

definition ReadEntry :: "nat \<Rightarrow> page \<Rightarrow> (byte list \<times> record_id) result" where
  "ReadEntry entry_index pg =
     (if \<not> BK_IsInitialized pg \<or> entry_index \<ge> BK_GetEntryCount pg
      then Inl (NotFound ''Hash bucket entry does not exist'')
      else
        let data = page_data pg;
            entry_offset = GetEntryOffset entry_index;
            key_length = ReadValue_u16 data (entry_offset + ENTRY_KEY_LENGTH_OFFSET)
        in if key_length > MAX_KEY_LENGTH then Inl (IOError ''Corrupted hash bucket key length'')
           else Inr (mem_read data (entry_offset + ENTRY_KEY_OFFSET) key_length,
                     RecordID (ReadValue_i32 data (entry_offset + ENTRY_PAGE_ID_OFFSET))
                              (ReadValue_u16 data (entry_offset + ENTRY_SLOT_ID_OFFSET))))"

definition WriteEntry :: "nat \<Rightarrow> byte list \<Rightarrow> record_id \<Rightarrow> page \<Rightarrow> page result" where
  "WriteEntry entry_index key rid pg =
     (if \<not> status_ok (ValidateKey key) then Inl (ValidateKey key)
      else if \<not> BK_IsInitialized pg \<or> entry_index \<ge> ENTRY_CAPACITY
      then Inl (InvalidArgument ''Hash bucket entry index is out of range'')
      else
        let entry_offset = GetEntryOffset entry_index;
            data1 = mem_write (page_data pg) entry_offset (replicate ENTRY_SIZE zero_byte);
            data2 = WriteValue_u16 data1 (entry_offset + ENTRY_KEY_LENGTH_OFFSET) (length key);
            data3 = (if key \<noteq> [] then mem_write data2 (entry_offset + ENTRY_KEY_OFFSET) key else data2);
            data4 = WriteValue_i32 data3 (entry_offset + ENTRY_PAGE_ID_OFFSET) (rid_page rid);
            data5 = WriteValue_u16 data4 (entry_offset + ENTRY_SLOT_ID_OFFSET) (rid_slot rid)
        in Inr (pg\<lparr>page_data := data5, is_dirty := True\<rparr>))"

definition ClearEntry :: "nat \<Rightarrow> page \<Rightarrow> page" where
  "ClearEntry entry_index pg =
     (if entry_index \<ge> ENTRY_CAPACITY then pg
      else pg\<lparr>page_data := mem_write (page_data pg) (GetEntryOffset entry_index)
                (replicate ENTRY_SIZE zero_byte),
              is_dirty := True\<rparr>)"

text \<open>The flag is \<^verbatim>\<open>inserted\<close>; the search for an equal entry is the loop.\<close>

fun FindEntry :: "byte list \<Rightarrow> record_id \<Rightarrow> page \<Rightarrow> nat list \<Rightarrow> bool result" where
  "FindEntry key rid pg [] = Inr False"
| "FindEntry key rid pg (index # indices) = (case ReadEntry index pg of
     Inl st \<Rightarrow> Inl st
   | Inr (existing_key, existing_value) \<Rightarrow>
       if existing_key = key \<and> existing_value = rid then Inr True
       else FindEntry key rid pg indices)"

definition BK_Insert :: "byte list \<Rightarrow> record_id \<Rightarrow> page \<Rightarrow> (page \<times> bool) result" where
  "BK_Insert key rid pg =
     (if \<not> status_ok (ValidateKey key) then Inl (ValidateKey key)
      else if \<not> BK_IsInitialized pg then Inl (IOError ''Hash bucket page is not initialized'')
      else if rid_page rid \<le> 0 then Inl (InvalidArgument ''Hash index requires a valid RecordID'')
      else
        let entry_count = BK_GetEntryCount pg
        in case FindEntry key rid pg [0..<entry_count] of
             Inl st \<Rightarrow> Inl st
           | Inr True \<Rightarrow> Inr (pg, False)
           | Inr False \<Rightarrow>
               if entry_count \<ge> ENTRY_CAPACITY then Inl (OutOfMemory ''Hash bucket page is full'')
               else (case WriteEntry entry_count key rid pg of
                   Inl st \<Rightarrow> Inl st
                 | Inr pg \<Rightarrow>
                     Inr (pg\<lparr>page_data := WriteValue_u16 (page_data pg) BK_ENTRY_COUNT_OFFSET
                                (u16 (int (entry_count + 1))),
                             is_dirty := True\<rparr>, True)))"

text \<open>The loop of \<^verbatim>\<open>GetValue\<close> appends to the result as it goes and returns it even when it stops at
  a corrupted entry.\<close>

fun CollectValues :: "byte list \<Rightarrow> page \<Rightarrow> nat list \<Rightarrow> record_id list \<Rightarrow> bool \<Rightarrow> record_id list \<times> status" where
  "CollectValues key pg [] res found =
     (res, if \<not> found then NotFound ''Hash key was not found in bucket'' else Status_OK)"
| "CollectValues key pg (index # indices) res found = (case ReadEntry index pg of
     Inl st \<Rightarrow> (res, st)
   | Inr (existing_key, existing_value) \<Rightarrow>
       if existing_key = key then CollectValues key pg indices (res @ [existing_value]) True
       else CollectValues key pg indices res found)"

definition BK_GetValue :: "byte list \<Rightarrow> record_id list \<Rightarrow> page \<Rightarrow> record_id list \<times> status" where
  "BK_GetValue key res pg =
     (if \<not> status_ok (ValidateKey key) then (res, ValidateKey key)
      else if \<not> BK_IsInitialized pg then (res, IOError ''Hash bucket page is not initialized'')
      else CollectValues key pg [0..<BK_GetEntryCount pg] res False)"

text \<open>The loop of \<^verbatim>\<open>Remove\<close>: the entry at \<open>index\<close> is replaced by the last one, which is cleared. The
  outcome is an error, or the entry count and the number of entries removed.\<close>

definition MoveLast :: "nat \<Rightarrow> nat \<Rightarrow> page \<Rightarrow> page result" where
  "MoveLast index last_index pg =
     (if index \<noteq> last_index
      then (case ReadEntry last_index pg of
          Inl st \<Rightarrow> Inl st
        | Inr (last_key, last_value) \<Rightarrow> WriteEntry index last_key last_value pg)
      else Inr pg)"

function RemoveLoop ::
  "byte list \<Rightarrow> record_id option \<Rightarrow> nat \<Rightarrow> nat \<Rightarrow> nat \<Rightarrow> page \<Rightarrow> page \<times> (nat \<times> nat) result" where
  "RemoveLoop key rid_opt index entry_count removed pg =
     (if index < entry_count then
        (case ReadEntry index pg of
           Inl st \<Rightarrow> (pg, Inl st)
         | Inr (existing_key, existing_value) \<Rightarrow>
             if existing_key \<noteq> key \<or> \<not> (rid_opt = None \<or> rid_opt = Some existing_value)
             then RemoveLoop key rid_opt (index + 1) entry_count removed pg
             else
               let last_index = entry_count - 1
               in case MoveLast index last_index pg of
                    Inl st \<Rightarrow> (pg, Inl st)
                  | Inr pg1 \<Rightarrow>
                      let pg2 = ClearEntry last_index pg1
                      in if rid_opt \<noteq> None then (pg2, Inr (entry_count - 1, removed + 1))
                         else RemoveLoop key rid_opt index (entry_count - 1) (removed + 1) pg2)
      else (pg, Inr (entry_count, removed)))"
  by pat_completeness auto
termination
  by (relation "measure (\<lambda>(key, rid_opt, index, entry_count, removed, pg). entry_count - index)") auto

declare RemoveLoop.simps [simp del]

text \<open>The number is \<^verbatim>\<open>removed_count\<close>, zero when the call fails.\<close>

definition BK_Remove :: "byte list \<Rightarrow> record_id option \<Rightarrow> page \<Rightarrow> page \<times> status \<times> nat" where
  "BK_Remove key rid_opt pg =
     (if \<not> status_ok (ValidateKey key) then (pg, ValidateKey key, 0)
      else if \<not> BK_IsInitialized pg then (pg, IOError ''Hash bucket page is not initialized'', 0)
      else (case RemoveLoop key rid_opt 0 (BK_GetEntryCount pg) 0 pg of
          (pg, Inl st) \<Rightarrow> (pg, st, 0)
        | (pg, Inr (entry_count, removed)) \<Rightarrow>
            if removed = 0 then (pg, NotFound ''Hash key/RID entry was not found'', 0)
            else (pg\<lparr>page_data := WriteValue_u16 (page_data pg) BK_ENTRY_COUNT_OFFSET entry_count,
                     is_dirty := True\<rparr>, Status_OK, removed)))"

end
