(* ===== verification/Hash_Index.thy ===== *)
theory Hash_Index
  imports Bucket_Page Buffer_Pool "HOL-Library.Word"
begin

text \<open>
  The hash index (index/hash_index.h, index/hash_index.cpp): a header page with a directory of
  buckets, each bucket a chain of bucket pages, all of them reached through the buffer pool. The
  object's only state is the identifier of its header page, an argument here; \<^verbatim>\<open>Destroy\<close> returns the
  one it leaves. The chain walks remember the pages visited; as partial functions they could diverge
  (\<open>None\<close>), and it is proved that they never do. Null output pointers have no counterpart.
\<close>

unbundle bit_operations_syntax

section \<open>FNV-1a\<close>

definition FNV_OFFSET_BASIS :: "64 word" where "FNV_OFFSET_BASIS = 14695981039346656037"
definition FNV_PRIME :: "64 word" where "FNV_PRIME = 1099511628211"

definition StableHash :: "byte list \<Rightarrow> 64 word" where
  "StableHash key = fold (\<lambda>b h. (h XOR word_of_nat (of_char b)) * FNV_PRIME) key FNV_OFFSET_BASIS"

section \<open>Creating and opening\<close>

text \<open>The constructor; \<open>Inl\<close> is the exception.\<close>

definition new_HashIndex :: "page_id \<Rightarrow> page_id result" where
  "new_HashIndex header_page_id =
     (if header_page_id \<le> HEADER_PAGE_ID
      then Inl (InvalidArgument ''Hash index requires a valid header page id'')
      else Inr header_page_id)"

definition HI_Create :: "nat \<Rightarrow> pool \<Rightarrow> pool \<times> page_id result" where
  "HI_Create bucket_count bp =
     (if bucket_count = 0 \<or> bucket_count > MaxBucketCount
      then (bp, Inl (InvalidArgument ''Invalid hash index bucket count''))
      else (case NewPage bp of
          (bp, None) \<Rightarrow> (bp, Inl (OutOfMemory ''Could not allocate hash index header page''))
        | (bp, Some (new_header_page_id, f)) \<Rightarrow>
            let res = HIH_Init bucket_count MAX_KEY_LENGTH (frame_of bp f)
            in (case UnpinPage new_header_page_id (status_ok (result_status res)) (put_page f res bp) of
                  (bp, False) \<Rightarrow> (bp, Inl (IOError ''Could not unpin hash index header page''))
                | (bp, True) \<Rightarrow>
                    (case res of
                       Inl st \<Rightarrow> (fst (DeletePage new_header_page_id bp), Inl st)
                     | Inr _ \<Rightarrow> (bp, new_HashIndex new_header_page_id)))))"

definition ValidateHeader :: "page_id \<Rightarrow> pool \<Rightarrow> pool \<times> nat result" where
  "ValidateHeader header_page_id bp = (case FetchPage header_page_id bp of
     (bp, None) \<Rightarrow> (bp, Inl (IOError ''Could not fetch hash index header page''))
   | (bp, Some f) \<Rightarrow>
       let header = frame_of bp f;
           res = (if \<not> HIH_IsInitialized header \<or> HIH_GetMaxKeyLength header \<noteq> MAX_KEY_LENGTH
                  then Inl (IOError ''Invalid or incompatible hash index header page'')
                  else Inr (HIH_GetBucketCount header))
       in (case UnpinPage header_page_id False bp of
             (bp, False) \<Rightarrow> (bp, Inl (IOError ''Could not unpin hash index header page''))
           | (bp, True) \<Rightarrow> (bp, res)))"

definition HI_Open :: "page_id \<Rightarrow> pool \<Rightarrow> pool \<times> page_id result" where
  "HI_Open header_page_id bp =
     (if header_page_id \<le> HEADER_PAGE_ID
      then (bp, Inl (InvalidArgument ''Invalid hash index header page id''))
      else (case ValidateHeader header_page_id bp of
          (bp, Inl st) \<Rightarrow> (bp, Inl st)
        | (bp, Inr _) \<Rightarrow> (bp, new_HashIndex header_page_id)))"

definition HI_GetBucketCount :: "page_id \<Rightarrow> pool \<Rightarrow> pool \<times> nat result" where
  "HI_GetBucketCount header_page_id bp = ValidateHeader header_page_id bp"

section \<open>Finding the bucket\<close>

definition HI_GetBucketPageId :: "page_id \<Rightarrow> byte list \<Rightarrow> pool \<Rightarrow> pool \<times> (nat \<times> page_id) result" where
  "HI_GetBucketPageId header_page_id key bp =
     (if length key > MAX_KEY_LENGTH
      then (bp, Inl (InvalidArgument ''Hash index key exceeds maximum length''))
      else (case FetchPage header_page_id bp of
          (bp, None) \<Rightarrow> (bp, Inl (IOError ''Could not fetch hash index header page''))
        | (bp, Some f) \<Rightarrow>
            let header = frame_of bp f;
                res = (if \<not> HIH_IsInitialized header
                       then Inl (IOError ''Hash index header page is not initialized'')
                       else
                         let count = HIH_GetBucketCount header;
                             bucket_index = u16 (int (unat (StableHash key) mod count))
                         in case HIH_GetBucketPageId bucket_index header of
                              Inl st \<Rightarrow> Inl st
                            | Inr p \<Rightarrow> Inr (bucket_index, p))
            in (case UnpinPage header_page_id False bp of
                  (bp, False) \<Rightarrow> (bp, Inl (IOError ''Could not unpin hash index header page''))
                | (bp, True) \<Rightarrow> (bp, res))))"

section \<open>Adding a page to a bucket\<close>

text \<open>The first halves of \<^verbatim>\<open>CreatePrimaryBucket\<close> and \<^verbatim>\<open>AppendOverflowBucket\<close> differ in their messages
  only: a new page that holds the one entry.\<close>

definition FirstEntry :: "byte list \<Rightarrow> record_id \<Rightarrow> page \<Rightarrow> page \<times> status" where
  "FirstEntry key rid pg = (case BK_Init pg of
     Inl st \<Rightarrow> (pg, st)
   | Inr pg \<Rightarrow> (case BK_Insert key rid pg of
        Inl st \<Rightarrow> (pg, st)
      | Inr (pg, _) \<Rightarrow> (pg, Status_OK)))"

definition MakeBucket :: "string \<Rightarrow> string \<Rightarrow> byte list \<Rightarrow> record_id \<Rightarrow> pool \<Rightarrow> pool \<times> page_id result" where
  "MakeBucket no_memory no_unpin key rid bp = (case NewPage bp of
     (bp, None) \<Rightarrow> (bp, Inl (OutOfMemory no_memory))
   | (bp, Some (new_bucket_page_id, f)) \<Rightarrow>
       (case FirstEntry key rid (frame_of bp f) of (pg, st) \<Rightarrow>
         (case UnpinPage new_bucket_page_id (status_ok st) (set_frame f pg bp) of
            (bp, False) \<Rightarrow> (bp, Inl (IOError no_unpin))
          | (bp, True) \<Rightarrow>
              if \<not> status_ok st then (fst (DeletePage new_bucket_page_id bp), Inl st)
              else (bp, Inr new_bucket_page_id))))"

text \<open>The second halves: enter the new page in the page it hangs from, or delete it again.\<close>

definition LinkPrimary :: "nat \<Rightarrow> page_id \<Rightarrow> page \<Rightarrow> page result" where
  "LinkPrimary bucket_index new_bucket_page_id header = (case HIH_GetBucketPageId bucket_index header of
     Inl st \<Rightarrow> Inl st
   | Inr existing \<Rightarrow>
       if existing \<noteq> INVALID_PAGE_ID then Inl (IOError ''Hash bucket was initialized concurrently'')
       else HIH_SetBucketPageId bucket_index new_bucket_page_id header)"

definition CreatePrimaryBucket ::
  "page_id \<Rightarrow> nat \<Rightarrow> byte list \<Rightarrow> record_id \<Rightarrow> pool \<Rightarrow> pool \<times> status" where
  "CreatePrimaryBucket header_page_id bucket_index key rid bp =
     (case MakeBucket ''Could not allocate primary hash bucket''
             ''Could not unpin new primary hash bucket'' key rid bp of
        (bp, Inl st) \<Rightarrow> (bp, st)
      | (bp, Inr new_bucket_page_id) \<Rightarrow>
          (case FetchPage header_page_id bp of
             (bp, None) \<Rightarrow>
               (fst (DeletePage new_bucket_page_id bp), IOError ''Could not refetch hash index header page'')
           | (bp, Some f) \<Rightarrow>
               let res = LinkPrimary bucket_index new_bucket_page_id (frame_of bp f)
               in (case UnpinPage header_page_id (status_ok (result_status res)) (put_page f res bp) of
                     (bp, False) \<Rightarrow> (bp, IOError ''Could not unpin modified hash index header'')
                   | (bp, True) \<Rightarrow>
                       (if \<not> status_ok (result_status res)
                        then fst (DeletePage new_bucket_page_id bp) else bp,
                        result_status res))))"

definition LinkOverflow :: "page_id \<Rightarrow> page \<Rightarrow> page result" where
  "LinkOverflow new_bucket_page_id previous =
     (if \<not> BK_IsInitialized previous then Inl (IOError ''Previous hash bucket is not initialized'')
      else if BK_GetOverflowPageId previous \<noteq> INVALID_PAGE_ID
      then Inl (IOError ''Overflow bucket was linked concurrently'')
      else BK_SetOverflowPageId new_bucket_page_id previous)"

definition AppendOverflowBucket ::
  "page_id \<Rightarrow> byte list \<Rightarrow> record_id \<Rightarrow> pool \<Rightarrow> pool \<times> status" where
  "AppendOverflowBucket previous_bucket_page_id key rid bp =
     (case MakeBucket ''Could not allocate overflow hash bucket''
             ''Could not unpin new overflow hash bucket'' key rid bp of
        (bp, Inl st) \<Rightarrow> (bp, st)
      | (bp, Inr new_bucket_page_id) \<Rightarrow>
          (case FetchPage previous_bucket_page_id bp of
             (bp, None) \<Rightarrow>
               (fst (DeletePage new_bucket_page_id bp), IOError ''Could not refetch previous hash bucket'')
           | (bp, Some f) \<Rightarrow>
               let res = LinkOverflow new_bucket_page_id (frame_of bp f)
               in (case UnpinPage previous_bucket_page_id (status_ok (result_status res)) (put_page f res bp) of
                     (bp, False) \<Rightarrow> (bp, IOError ''Could not unpin previous hash bucket'')
                   | (bp, True) \<Rightarrow>
                       (if \<not> status_ok (result_status res)
                        then fst (DeletePage new_bucket_page_id bp) else bp,
                        result_status res))))"

section \<open>Insertion\<close>

text \<open>The last step of \<^verbatim>\<open>Insert\<close>: into the first page with room, or into a new page at the end.\<close>

definition PlaceEntry :: "page_id \<Rightarrow> page_id \<Rightarrow> byte list \<Rightarrow> record_id \<Rightarrow> pool \<Rightarrow> pool \<times> status" where
  "PlaceEntry first_page_with_space last_page_id key rid bp =
     (if first_page_with_space \<noteq> INVALID_PAGE_ID
      then (case FetchPage first_page_with_space bp of
          (bp, None) \<Rightarrow> (bp, IOError ''Could not refetch hash bucket with free space'')
        | (bp, Some f) \<Rightarrow>
            (case BK_Insert key rid (frame_of bp f) of
               Inl st \<Rightarrow>
                 (case UnpinPage first_page_with_space False bp of
                    (bp, False) \<Rightarrow> (bp, IOError ''Could not unpin modified hash bucket'')
                  | (bp, True) \<Rightarrow> (bp, st))
             | Inr (pg, inserted) \<Rightarrow>
                 (case UnpinPage first_page_with_space inserted (set_frame f pg bp) of
                    (bp, False) \<Rightarrow> (bp, IOError ''Could not unpin modified hash bucket'')
                  | (bp, True) \<Rightarrow> (bp, Status_OK))))
      else if last_page_id = INVALID_PAGE_ID
      then (bp, IOError ''Hash bucket chain ended unexpectedly'')
      else AppendOverflowBucket last_page_id key rid bp)"

partial_function (option) HI_InsertLoop ::
  "page_id set \<Rightarrow> page_id \<Rightarrow> page_id \<Rightarrow> page_id \<Rightarrow> byte list \<Rightarrow> record_id \<Rightarrow> pool \<Rightarrow> (pool \<times> status) option"
  where
  "HI_InsertLoop visited current first_page_with_space last_page_id key rid bp =
     (if current = INVALID_PAGE_ID then Some (PlaceEntry first_page_with_space last_page_id key rid bp)
      else if current \<in> visited then Some (bp, IOError ''Cycle detected in hash bucket chain'')
      else (case FetchPage current bp of
          (bp, None) \<Rightarrow> Some (bp, IOError ''Could not fetch hash bucket'')
        | (bp, Some f) \<Rightarrow>
            (if \<not> BK_IsInitialized (frame_of bp f)
             then Some (fst (UnpinPage current False bp), IOError ''Hash bucket page is not initialized'')
             else (case BK_GetValue key [] (frame_of bp f) of (values_for_key, lookup_status) \<Rightarrow>
               if \<not> status_ok lookup_status \<and> status_code lookup_status \<noteq> NOT_FOUND
               then Some (fst (UnpinPage current False bp), lookup_status)
               else if rid \<in> set values_for_key
               then (case UnpinPage current False bp of (bp', unpinned) \<Rightarrow>
                 if \<not> unpinned then Some (bp', IOError ''Could not unpin hash bucket'')
                 else Some (bp', Status_OK))
               else (case UnpinPage current False bp of (bp', unpinned) \<Rightarrow>
                 if \<not> unpinned then Some (bp', IOError ''Could not unpin hash bucket'')
                 else HI_InsertLoop (insert current visited)
                        (BK_GetOverflowPageId (frame_of bp f))
                        (if first_page_with_space = INVALID_PAGE_ID \<and>
                            BK_GetEntryCount (frame_of bp f) < BK_GetCapacity
                         then current else first_page_with_space)
                        current key rid bp')))))"

definition HI_Insert :: "page_id \<Rightarrow> byte list \<Rightarrow> record_id \<Rightarrow> pool \<Rightarrow> (pool \<times> status) option" where
  "HI_Insert header_page_id key rid bp =
     (if key = [] then Some (bp, InvalidArgument ''Hash index key cannot be empty'')
      else if rid_page rid \<le> HEADER_PAGE_ID
      then Some (bp, InvalidArgument ''Hash index requires a valid RecordID'')
      else (case HI_GetBucketPageId header_page_id key bp of
          (bp, Inl st) \<Rightarrow> Some (bp, st)
        | (bp, Inr (bucket_index, bucket_page_id)) \<Rightarrow>
            if bucket_page_id = INVALID_PAGE_ID
            then Some (CreatePrimaryBucket header_page_id bucket_index key rid bp)
            else HI_InsertLoop {} bucket_page_id INVALID_PAGE_ID INVALID_PAGE_ID key rid bp))"

section \<open>Lookup\<close>

partial_function (option) HI_GetLoop ::
  "page_id set \<Rightarrow> page_id \<Rightarrow> byte list \<Rightarrow> record_id list \<Rightarrow> pool \<Rightarrow> (pool \<times> record_id list \<times> status) option"
  where
  "HI_GetLoop visited current key res bp =
     (if current = INVALID_PAGE_ID then Some (bp, res, Status_OK)
      else if current \<in> visited then Some (bp, res, IOError ''Cycle detected in hash bucket chain'')
      else (case FetchPage current bp of
          (bp, None) \<Rightarrow> Some (bp, res, IOError ''Could not fetch hash bucket'')
        | (bp, Some f) \<Rightarrow>
            (if \<not> BK_IsInitialized (frame_of bp f)
             then Some (fst (UnpinPage current False bp), res, IOError ''Hash bucket page is not initialized'')
             else (case BK_GetValue key res (frame_of bp f) of (res', bucket_status) \<Rightarrow>
               (case UnpinPage current False bp of (bp', unpinned) \<Rightarrow>
                 if \<not> unpinned then Some (bp', res', IOError ''Could not unpin hash bucket after search'')
                 else if \<not> status_ok bucket_status \<and> status_code bucket_status \<noteq> NOT_FOUND
                 then Some (bp', res', bucket_status)
                 else HI_GetLoop (insert current visited) (BK_GetOverflowPageId (frame_of bp f)) key res' bp')))))"

definition HI_GetValue :: "page_id \<Rightarrow> byte list \<Rightarrow> pool \<Rightarrow> (pool \<times> record_id list \<times> status) option" where
  "HI_GetValue header_page_id key bp = (case HI_GetBucketPageId header_page_id key bp of
     (bp, Inl st) \<Rightarrow> Some (bp, [], st)
   | (bp, Inr (_, bucket_page_id)) \<Rightarrow>
       if bucket_page_id = INVALID_PAGE_ID then Some (bp, [], Status_OK)
       else HI_GetLoop {} bucket_page_id key [] bp)"

section \<open>Removal\<close>

definition RemoveOutcome :: "nat \<Rightarrow> status" where
  "RemoveOutcome total_removed =
     (if total_removed = 0 then NotFound ''Hash key/RID entry was not found'' else Status_OK)"

partial_function (option) HI_RemoveLoop ::
  "page_id set \<Rightarrow> page_id \<Rightarrow> byte list \<Rightarrow> record_id option \<Rightarrow> nat \<Rightarrow> pool \<Rightarrow> (pool \<times> status) option"
  where
  "HI_RemoveLoop visited current key rid_opt total_removed bp =
     (if current = INVALID_PAGE_ID then Some (bp, RemoveOutcome total_removed)
      else if current \<in> visited then Some (bp, IOError ''Cycle detected in hash bucket chain'')
      else (case FetchPage current bp of
          (bp, None) \<Rightarrow> Some (bp, IOError ''Could not fetch hash bucket'')
        | (bp, Some f) \<Rightarrow>
            (if \<not> BK_IsInitialized (frame_of bp f)
             then Some (fst (UnpinPage current False bp), IOError ''Hash bucket page is not initialized'')
             else (case BK_Remove key rid_opt (frame_of bp f) of (pg, bucket_status, removed_here) \<Rightarrow>
               (case UnpinPage current (removed_here > 0) (set_frame f pg bp) of (bp', unpinned) \<Rightarrow>
                 if \<not> unpinned then Some (bp', IOError ''Could not unpin hash bucket after removal'')
                 else if \<not> status_ok bucket_status \<and> status_code bucket_status \<noteq> NOT_FOUND
                 then Some (bp', bucket_status)
                 else if rid_opt \<noteq> None \<and> total_removed + removed_here > 0
                 then Some (bp', RemoveOutcome (total_removed + removed_here))
                 else HI_RemoveLoop (insert current visited) (BK_GetOverflowPageId pg) key rid_opt
                        (total_removed + removed_here) bp')))))"

definition HI_RemoveInternal ::
  "page_id \<Rightarrow> byte list \<Rightarrow> record_id option \<Rightarrow> pool \<Rightarrow> (pool \<times> status) option" where
  "HI_RemoveInternal header_page_id key rid_opt bp = (case HI_GetBucketPageId header_page_id key bp of
     (bp, Inl st) \<Rightarrow> Some (bp, st)
   | (bp, Inr (_, bucket_page_id)) \<Rightarrow>
       if bucket_page_id = INVALID_PAGE_ID then Some (bp, NotFound ''Hash key was not found'')
       else HI_RemoveLoop {} bucket_page_id key rid_opt 0 bp)"

definition HI_RemoveKey :: "page_id \<Rightarrow> byte list \<Rightarrow> pool \<Rightarrow> (pool \<times> status) option" where
  "HI_RemoveKey header_page_id key bp = HI_RemoveInternal header_page_id key None bp"

definition HI_RemovePair :: "page_id \<Rightarrow> byte list \<Rightarrow> record_id \<Rightarrow> pool \<Rightarrow> (pool \<times> status) option" where
  "HI_RemovePair header_page_id key rid bp = HI_RemoveInternal header_page_id key (Some rid) bp"

section \<open>Destruction\<close>

definition PrimaryBuckets :: "page \<Rightarrow> page_id list result" where
  "PrimaryBuckets header =
     for_each (\<lambda>bucket_index acc. case HIH_GetBucketPageId bucket_index header of
         Inl st \<Rightarrow> Inl st
       | Inr p \<Rightarrow> Inr (if p \<noteq> INVALID_PAGE_ID then acc @ [p] else acc))
       [0..<HIH_GetBucketCount header] []"

text \<open>One bucket's chain; the set of visited pages goes on to the next bucket.\<close>

partial_function (option) DestroyChain ::
  "page_id set \<Rightarrow> page_id \<Rightarrow> pool \<Rightarrow> (pool \<times> page_id set result) option" where
  "DestroyChain visited current bp =
     (if current = INVALID_PAGE_ID then Some (bp, Inr visited)
      else if current \<in> visited then Some (bp, Inl (IOError ''Cycle detected while destroying hash index''))
      else (case FetchPage current bp of
          (bp, None) \<Rightarrow> Some (bp, Inl (IOError ''Could not fetch hash bucket during destroy''))
        | (bp, Some f) \<Rightarrow>
            (if \<not> BK_IsInitialized (frame_of bp f)
             then Some (fst (UnpinPage current False bp),
                    Inl (IOError ''Invalid hash bucket found during destroy''))
             else (case UnpinPage current False bp of (bp1, unpinned) \<Rightarrow>
               if \<not> unpinned then Some (bp1, Inl (IOError ''Could not unpin hash bucket during destroy''))
               else (case DeletePage current bp1 of (bp2, deleted) \<Rightarrow>
                 if \<not> deleted then Some (bp2, Inl (IOError ''Could not delete hash bucket during destroy''))
                 else DestroyChain (insert current visited) (BK_GetOverflowPageId (frame_of bp f)) bp2)))))"

fun DestroyChains :: "page_id set \<Rightarrow> page_id list \<Rightarrow> pool \<Rightarrow> (pool \<times> page_id set result) option" where
  "DestroyChains visited [] bp = Some (bp, Inr visited)"
| "DestroyChains visited (p # ps) bp = (case DestroyChain visited p bp of
     None \<Rightarrow> None
   | Some (bp, Inl st) \<Rightarrow> Some (bp, Inl st)
   | Some (bp, Inr visited) \<Rightarrow> DestroyChains visited ps bp)"

definition HI_Destroy :: "page_id \<Rightarrow> pool \<Rightarrow> (pool \<times> page_id \<times> status) option" where
  "HI_Destroy header_page_id bp =
     (if header_page_id \<le> HEADER_PAGE_ID then Some (bp, header_page_id, Status_OK)
      else (case FetchPage header_page_id bp of
          (bp, None) \<Rightarrow>
            Some (bp, header_page_id, IOError ''Could not fetch hash index header during destroy'')
        | (bp, Some f) \<Rightarrow>
            if \<not> HIH_IsInitialized (frame_of bp f)
            then Some (fst (UnpinPage header_page_id False bp), header_page_id,
                   IOError ''Cannot destroy an invalid hash index header'')
            else
              let res = PrimaryBuckets (frame_of bp f)
              in (case UnpinPage header_page_id False bp of
                    (bp, False) \<Rightarrow>
                      Some (bp, header_page_id, IOError ''Could not unpin hash index header during destroy'')
                  | (bp, True) \<Rightarrow>
                      (case res of
                         Inl st \<Rightarrow> Some (bp, header_page_id, st)
                       | Inr primary_buckets \<Rightarrow>
                           (case DestroyChains {} primary_buckets bp of
                              None \<Rightarrow> None
                            | Some (bp, Inl st) \<Rightarrow> Some (bp, header_page_id, st)
                            | Some (bp, Inr _) \<Rightarrow>
                                (case DeletePage header_page_id bp of
                                   (bp, False) \<Rightarrow>
                                     Some (bp, header_page_id, IOError ''Could not delete hash index header'')
                                 | (bp, True) \<Rightarrow> Some (bp, INVALID_PAGE_ID, Status_OK)))))))"

end
