(* ===== verification/Key_Index.thy ===== *)
theory Key_Index
  imports Common
begin

text \<open>
  The contract of an index from keys to values: a set of pairs, at most one of each. A bucket page and
  the hash index made of bucket pages both promise it; the client lemmas, which the maintenance of an
  index beside a table rests on, are proved once here.
\<close>

locale key_index =
  fixes inv :: "'s \<Rightarrow> bool"
    and entries :: "'s \<Rightarrow> ('k \<times> 'v) set"
    and ins :: "'k \<Rightarrow> 'v \<Rightarrow> 's \<Rightarrow> 's option"
    and look :: "'k \<Rightarrow> 's \<Rightarrow> 'v list option"
    and rem :: "'k \<Rightarrow> 'v option \<Rightarrow> 's \<Rightarrow> 's option"
  assumes ins_law: "inv s \<Longrightarrow> ins k v s = Some s' \<Longrightarrow> inv s' \<and> entries s' = insert (k, v) (entries s)"
    and look_law: "inv s \<Longrightarrow> look k s = Some vs \<Longrightarrow> distinct vs \<and> set vs = {v. (k, v) \<in> entries s}"
    and rem_law: "inv s \<Longrightarrow> rem k ro s = Some s' \<Longrightarrow> inv s' \<and>
      entries s' = {e \<in> entries s. fst e \<noteq> k \<or> ro \<noteq> None \<and> ro \<noteq> Some (snd e)} \<and> entries s' \<noteq> entries s"
begin

lemma look_after_ins:
  assumes "inv s" "ins k v s = Some s'" "look j s = Some vs" "look j s' = Some vs'"
  shows "set vs' = (if j = k then insert v (set vs) else set vs)"
  using ins_law[OF assms(1,2)] look_law[OF assms(1,3)] look_law[OF _ assms(4)] by auto

lemma look_after_rem_key:
  assumes "inv s" "rem k None s = Some s'" "look j s = Some vs" "look j s' = Some vs'"
  shows "set vs' = (if j = k then {} else set vs)"
  using rem_law[OF assms(1,2)] look_law[OF assms(1,3)] look_law[OF _ assms(4)] by auto

lemma look_after_rem_pair:
  assumes "inv s" "rem k (Some v) s = Some s'" "look j s = Some vs" "look j s' = Some vs'"
  shows "set vs' = (if j = k then set vs - {v} else set vs)"
  using rem_law[OF assms(1,2)] look_law[OF assms(1,3)] look_law[OF _ assms(4)] by auto

lemma ins_commute:
  assumes "inv s" "ins k v s = Some a" "ins j w a = Some a'" "ins j w s = Some b" "ins k v b = Some b'"
  shows "entries a' = entries b'"
  using ins_law[OF assms(1,2)] ins_law[OF _ assms(3)] ins_law[OF assms(1,4)] ins_law[OF _ assms(5)] by blast

text \<open>Undoing the insertion of a pair that was not there restores the index.\<close>

lemma rem_undoes_ins:
  assumes "inv s" "(k, v) \<notin> entries s" "ins k v s = Some s'" "rem k (Some v) s' = Some s''"
  shows "inv s'' \<and> entries s'' = entries s"
  using ins_law[OF assms(1,3)] rem_law[OF _ assms(4)] assms(2) by auto

end

end
