(* ===== verification/Bucket_Page_Correct.thy ===== *)
theory Bucket_Page_Correct
  imports Bucket_Page Key_Index "HOL-Library.Multiset"
begin

text \<open>
  The lemmas about the pages of a hash index. A header page is the list of its bucket pages, a bucket
  page the list of its entries and a link; every operation is the corresponding operation on lists.
\<close>

section \<open>Changes inside a region\<close>

definition local_change :: "byte list \<Rightarrow> byte list \<Rightarrow> nat \<Rightarrow> nat \<Rightarrow> bool" where
  "local_change d d' a b \<longleftrightarrow> length d' = length d \<and>
     (\<forall>i n. i + n \<le> a \<or> b \<le> i \<longrightarrow> mem_read d' i n = mem_read d i n)"

lemma local_refl [simp]: "local_change d d a b"
  by (simp add: local_change_def)

lemma local_trans: "local_change d d' a b \<Longrightarrow> local_change d' d'' a b \<Longrightarrow> local_change d d'' a b"
  by (simp add: local_change_def)

lemma local_mem_write:
  "a \<le> off \<Longrightarrow> off + length bs \<le> b \<Longrightarrow> b \<le> length d \<Longrightarrow> local_change d (mem_write d off bs) a b"
  by (auto simp: local_change_def length_mem_write intro!: mem_read_write_other)

lemma local_write_value:
  "a \<le> off \<Longrightarrow> off + 2 \<le> b \<Longrightarrow> b \<le> length d \<Longrightarrow> local_change d (WriteValue_u16 d off v) a b"
  "a \<le> off \<Longrightarrow> off + 4 \<le> b \<Longrightarrow> b \<le> length d \<Longrightarrow> local_change d (WriteValue_i32 d off w) a b"
  by (auto simp: WriteValue_u16_def WriteValue_i32_def intro!: local_mem_write)

lemma local_reads:
  assumes "local_change d d' a b"
  shows "length d' = length d"
    "i + 2 \<le> a \<or> b \<le> i \<Longrightarrow> ReadValue_u16 d' i = ReadValue_u16 d i"
    "i + 4 \<le> a \<or> b \<le> i \<Longrightarrow> ReadValue_u32 d' i = ReadValue_u32 d i"
    "i + 4 \<le> a \<or> b \<le> i \<Longrightarrow> ReadValue_i32 d' i = ReadValue_i32 d i"
    "i + n \<le> a \<or> b \<le> i \<Longrightarrow> mem_read d' i n = mem_read d i n"
  using assms by (auto simp: local_change_def ReadValue_u16_def ReadValue_u32_def ReadValue_i32_def)

section \<open>The header page as a directory\<close>

definition hih_wf :: "page \<Rightarrow> bool" where
  "hih_wf pg \<longleftrightarrow> length (page_data pg) = PAGE_SIZE \<and> HIH_IsInitialized pg"

definition hih_dir :: "page \<Rightarrow> page_id list" where
  "hih_dir pg = map (\<lambda>i. ReadValue_i32 (page_data pg) (HIH_DIRECTORY_OFFSET + i * 4))
     [0..<ReadValue_u16 (page_data pg) HIH_BUCKET_COUNT_OFFSET]"

lemma MaxBucketCount_eq: "MaxBucketCount = 1020"
  by (simp add: MaxBucketCount_def layout_simps u16_def)

lemma hih_count:
  assumes "hih_wf pg"
  shows "HIH_GetBucketCount pg = length (hih_dir pg)" "0 < length (hih_dir pg)" "length (hih_dir pg) \<le> 1020"
  using assms by (auto simp: hih_wf_def HIH_GetBucketCount_def hih_dir_def HIH_IsInitialized_def
      Let_def MaxBucketCount_eq split: if_splits)

lemma HIH_GetBucketPageId_wf:
  assumes "hih_wf pg"
  shows "HIH_GetBucketPageId i pg =
    (if i < length (hih_dir pg) then Inr (hih_dir pg ! i) else Inl (InvalidArgument ''Bucket index is out of range''))"
  using assms hih_count(1)[OF assms] by (simp add: HIH_GetBucketPageId_def hih_wf_def hih_dir_def)

lemma HIH_SetBucketPageId_wf:
  assumes "hih_wf pg" "i < length (hih_dir pg)" "1 \<le> p" "is_i32 p"
  shows "\<exists>pg'. HIH_SetBucketPageId i p pg = Inr pg' \<and> hih_wf pg' \<and> hih_dir pg' = (hih_dir pg)[i := p] \<and>
    HIH_GetMaxKeyLength pg' = HIH_GetMaxKeyLength pg \<and> page_pid pg' = page_pid pg \<and>
    pin_count pg' = pin_count pg \<and> is_dirty pg'"
proof -
  let ?off = "HIH_DIRECTORY_OFFSET + i * 4"
  define d where "d = WriteValue_i32 (page_data pg) ?off p"
  define pg' where "pg' = pg\<lparr>page_data := d, is_dirty := True\<rparr>"
  have len: "length (page_data pg) = 4096" using assms(1) by (simp add: hih_wf_def layout_simps)
  have i: "i < 1020" using assms(2) hih_count(3)[OF assms(1)] by simp
  have loc: "local_change (page_data pg) d ?off (?off + 4)"
    unfolding d_def by (rule local_write_value) (use i len in \<open>simp_all add: layout_simps\<close>)
  note R = local_reads[OF loc]
  have hd: "ReadValue_u32 d HIH_MAGIC_OFFSET = ReadValue_u32 (page_data pg) HIH_MAGIC_OFFSET"
    "ReadValue_u16 d HIH_VERSION_OFFSET = ReadValue_u16 (page_data pg) HIH_VERSION_OFFSET"
    "ReadValue_u16 d HIH_BUCKET_COUNT_OFFSET = ReadValue_u16 (page_data pg) HIH_BUCKET_COUNT_OFFSET"
    "ReadValue_u16 d HIH_MAX_KEY_LENGTH_OFFSET = ReadValue_u16 (page_data pg) HIH_MAX_KEY_LENGTH_OFFSET"
    by (rule R(3) R(2); simp add: layout_simps)+
  have init: "HIH_IsInitialized pg' = HIH_IsInitialized pg"
    by (simp add: HIH_IsInitialized_def Let_def pg'_def hd)
  have at: "ReadValue_i32 d (HIH_DIRECTORY_OFFSET + j * 4) =
      (if j = i then p else ReadValue_i32 (page_data pg) (HIH_DIRECTORY_OFFSET + j * 4))" for j
  proof (cases "j = i")
    case True
    then show ?thesis using i len assms(4) by (simp add: d_def buf_simps layout_simps)
  next
    case False
    then have "j * 4 + 4 \<le> i * 4 \<or> i * 4 + 4 \<le> j * 4" by linarith
    then show ?thesis using R(4) False by simp
  qed
  have "hih_dir pg' = (hih_dir pg)[i := p]"
    by (rule nth_equalityI) (auto simp: hih_dir_def pg'_def hd at nth_list_update)
  moreover have "HIH_SetBucketPageId i p pg = Inr pg'"
    using assms hih_count(1)[OF assms(1)]
    by (simp add: HIH_SetBucketPageId_def hih_wf_def pg'_def d_def layout_simps)
  moreover have "hih_wf pg'" "HIH_GetMaxKeyLength pg' = HIH_GetMaxKeyLength pg"
    using assms(1) init R(1) by (simp_all add: hih_wf_def HIH_GetMaxKeyLength_def pg'_def hd)
  ultimately show ?thesis by (simp add: pg'_def)
qed

lemma HIH_Init_dir:
  assumes "n \<le> 1020" "length d = 4096"
  defines "d' \<equiv> fold (\<lambda>i d. WriteValue_i32 d (HIH_DIRECTORY_OFFSET + i * 4) INVALID_PAGE_ID) [0..<n] d"
  shows "local_change d d' 16 4096 \<and> (\<forall>i < n. ReadValue_i32 d' (HIH_DIRECTORY_OFFSET + i * 4) = INVALID_PAGE_ID)"
  using assms(1) unfolding d'_def
proof (induction n)
  case (Suc n)
  let ?d = "fold (\<lambda>i d. WriteValue_i32 d (HIH_DIRECTORY_OFFSET + i * 4) INVALID_PAGE_ID) [0..<n] d"
  have IH: "local_change d ?d 16 4096" "\<forall>i < n. ReadValue_i32 ?d (HIH_DIRECTORY_OFFSET + i * 4) = INVALID_PAGE_ID"
    using Suc by simp_all
  have len: "length ?d = 4096" using IH(1) assms(2) by (simp add: local_change_def)
  have "local_change ?d (WriteValue_i32 ?d (HIH_DIRECTORY_OFFSET + n * 4) INVALID_PAGE_ID) 16 4096"
    by (rule local_write_value) (use Suc.prems len in \<open>simp_all add: layout_simps\<close>)
  moreover have "ReadValue_i32 (WriteValue_i32 ?d (HIH_DIRECTORY_OFFSET + n * 4) INVALID_PAGE_ID)
      (HIH_DIRECTORY_OFFSET + i * 4) = INVALID_PAGE_ID" if "i < Suc n" for i
    using IH(2) that len Suc.prems
    by (cases "i = n") (simp_all add: buf_simps is_i32_def layout_simps)
  ultimately show ?case using local_trans[OF IH(1)] by simp
qed simp

lemma HIH_Init_wf:
  assumes "page_pid pg \<noteq> INVALID_PAGE_ID" "0 < n" "n \<le> MaxBucketCount" "0 < k" "k < 65536"
  shows "\<exists>pg'. HIH_Init n k pg = Inr pg' \<and> hih_wf pg' \<and> hih_dir pg' = replicate n INVALID_PAGE_ID \<and>
    HIH_GetMaxKeyLength pg' = k \<and> page_pid pg' = page_pid pg \<and> pin_count pg' = pin_count pg \<and> is_dirty pg'"
proof -
  define d0 where "d0 = WriteValue_u16 (WriteValue_u16 (WriteValue_u16 (WriteValue_u16 (WriteValue_u32 zero_page
    HIH_MAGIC_OFFSET HIH_MAGIC) HIH_VERSION_OFFSET HIH_VERSION) HIH_BUCKET_COUNT_OFFSET n)
    HIH_MAX_KEY_LENGTH_OFFSET k) HIH_RESERVED_OFFSET 0"
  define d where "d = fold (\<lambda>i d. WriteValue_i32 d (HIH_DIRECTORY_OFFSET + i * 4) INVALID_PAGE_ID) [0..<n] d0"
  have n: "n \<le> 1020" using assms(3) by (simp add: MaxBucketCount_eq)
  have len: "length d0 = 4096" by (simp add: d0_def buf_simps layout_simps)
  have r0: "ReadValue_u32 d0 HIH_MAGIC_OFFSET = HIH_MAGIC" "ReadValue_u16 d0 HIH_VERSION_OFFSET = HIH_VERSION"
    "ReadValue_u16 d0 HIH_BUCKET_COUNT_OFFSET = n" "ReadValue_u16 d0 HIH_MAX_KEY_LENGTH_OFFSET = k"
    using n assms(5) by (simp_all add: d0_def buf_simps layout_simps)
  note D = HIH_Init_dir[OF n len, folded d_def]
  note L = local_reads[OF conjunct1[OF D]]
  have r: "ReadValue_u32 d HIH_MAGIC_OFFSET = HIH_MAGIC" "ReadValue_u16 d HIH_VERSION_OFFSET = HIH_VERSION"
    "ReadValue_u16 d HIH_BUCKET_COUNT_OFFSET = n" "ReadValue_u16 d HIH_MAX_KEY_LENGTH_OFFSET = k"
    using L(2,3) r0 by (simp_all add: layout_simps)
  let ?pg = "pg\<lparr>page_data := d, is_dirty := True\<rparr>"
  have "HIH_Init n k pg = Inr ?pg" using assms by (simp add: HIH_Init_def Let_def d_def d0_def)
  moreover have i: "HIH_IsInitialized ?pg" using r assms by (simp add: HIH_IsInitialized_def Let_def)
  moreover have "hih_dir ?pg = replicate n INVALID_PAGE_ID"
    by (rule nth_equalityI) (use D r in \<open>simp_all add: hih_dir_def\<close>)
  moreover have "HIH_GetMaxKeyLength ?pg = k" using i r by (simp add: HIH_GetMaxKeyLength_def)
  ultimately show ?thesis using L(1) len by (simp add: hih_wf_def layout_simps)
qed

section \<open>The entries of a bucket page\<close>

type_synonym entry = "byte list \<times> record_id"

definition entry_at :: "byte list \<Rightarrow> nat \<Rightarrow> entry" where
  "entry_at d i = (mem_read d (GetEntryOffset i + 4) (ReadValue_u16 d (GetEntryOffset i)),
     RecordID (ReadValue_i32 d (GetEntryOffset i + 68)) (ReadValue_u16 d (GetEntryOffset i + 72)))"

definition bk_count :: "page \<Rightarrow> nat" where
  "bk_count pg = ReadValue_u16 (page_data pg) BK_ENTRY_COUNT_OFFSET"

definition bk_entries :: "page \<Rightarrow> entry list" where
  "bk_entries pg = map (entry_at (page_data pg)) [0..<bk_count pg]"

definition bk_next :: "page \<Rightarrow> page_id" where
  "bk_next pg = ReadValue_i32 (page_data pg) BK_OVERFLOW_PAGE_ID_OFFSET"

definition bk_wf :: "page \<Rightarrow> bool" where
  "bk_wf pg \<longleftrightarrow> length (page_data pg) = PAGE_SIZE \<and> BK_IsInitialized pg \<and>
     (\<forall>i < bk_count pg. ReadValue_u16 (page_data pg) (GetEntryOffset i) \<le> MAX_KEY_LENGTH)"

definition entry_ok :: "entry \<Rightarrow> bool" where
  "entry_ok e \<longleftrightarrow> length (fst e) \<le> MAX_KEY_LENGTH \<and> is_i32 (rid_page (snd e)) \<and> rid_slot (snd e) < 65536"

text \<open>The page is the same but for its entries.\<close>

definition same_bucket :: "page \<Rightarrow> page \<Rightarrow> bool" where
  "same_bucket pg pg' \<longleftrightarrow> page_pid pg' = page_pid pg \<and> pin_count pg' = pin_count pg \<and> bk_next pg' = bk_next pg"

lemma same_bucket_trans: "same_bucket a b \<Longrightarrow> same_bucket b c \<Longrightarrow> same_bucket a c"
  by (simp add: same_bucket_def)

lemma ENTRY_CAPACITY_eq: "ENTRY_CAPACITY = 53"
  by (simp add: ENTRY_CAPACITY_def layout_simps u16_def)

lemma GetEntryOffset_eq: "GetEntryOffset i = 16 + i * 76"
  by (simp add: GetEntryOffset_def layout_simps)

lemma bk_entries_length [simp]: "length (bk_entries pg) = bk_count pg"
  by (simp add: bk_entries_def)

lemma bk_entries_nth [simp]: "i < bk_count pg \<Longrightarrow> bk_entries pg ! i = entry_at (page_data pg) i"
  by (simp add: bk_entries_def)

lemma bk_wfD:
  assumes "bk_wf pg"
  shows "length (page_data pg) = 4096" "BK_IsInitialized pg" "bk_count pg \<le> 53"
    "BK_GetEntryCount pg = bk_count pg" "BK_GetOverflowPageId pg = bk_next pg"
  using assms by (auto simp: bk_wf_def BK_IsInitialized_def bk_count_def ENTRY_CAPACITY_eq layout_simps
      BK_GetEntryCount_def BK_GetOverflowPageId_def bk_next_def)

lemma ReadEntry_wf:
  assumes "bk_wf pg"
  shows "ReadEntry i pg = (if i < bk_count pg then Inr (bk_entries pg ! i)
    else Inl (NotFound ''Hash bucket entry does not exist''))"
  using assms bk_wfD[OF assms]
  by (auto simp: ReadEntry_def Let_def bk_wf_def entry_at_def layout_simps)

lemma bk_entries_ok:
  assumes "bk_wf pg" "e \<in> set (bk_entries pg)"
  shows "entry_ok e"
proof -
  obtain i where "i < bk_count pg" "e = entry_at (page_data pg) i" using assms(2) by (auto simp: bk_entries_def)
  then show ?thesis using assms(1) by (auto simp: entry_ok_def entry_at_def bk_wf_def length_mem_read)
qed

text \<open>A change inside one entry's bytes.\<close>

lemma entry_local:
  assumes "local_change d d' (GetEntryOffset i) (GetEntryOffset i + 76)"
  shows "j \<noteq> i \<Longrightarrow> ReadValue_u16 d' (GetEntryOffset j) = ReadValue_u16 d (GetEntryOffset j)"
    "j \<noteq> i \<Longrightarrow> ReadValue_u16 d (GetEntryOffset j) \<le> 64 \<Longrightarrow> entry_at d' j = entry_at d j"
    "ReadValue_u32 d' 0 = ReadValue_u32 d 0" "ReadValue_u16 d' 4 = ReadValue_u16 d 4"
    "ReadValue_u16 d' 6 = ReadValue_u16 d 6" "ReadValue_i32 d' 8 = ReadValue_i32 d 8" "length d' = length d"
proof -
  note R = local_reads[OF assms]
  have sep: "GetEntryOffset j + 76 \<le> GetEntryOffset i \<or> GetEntryOffset i + 76 \<le> GetEntryOffset j" if "j \<noteq> i"
    using that by (simp add: GetEntryOffset_eq) linarith
  show k: "ReadValue_u16 d' (GetEntryOffset j) = ReadValue_u16 d (GetEntryOffset j)" if "j \<noteq> i"
    by (rule R(2)) (use sep[OF that] in auto)
  show "entry_at d' j = entry_at d j" if "j \<noteq> i" "ReadValue_u16 d (GetEntryOffset j) \<le> 64"
  proof -
    have "mem_read d' (GetEntryOffset j + 4) (ReadValue_u16 d (GetEntryOffset j)) =
        mem_read d (GetEntryOffset j + 4) (ReadValue_u16 d (GetEntryOffset j))"
      by (rule R(5)) (use sep[OF that(1)] that(2) in auto)
    moreover have "ReadValue_i32 d' (GetEntryOffset j + 68) = ReadValue_i32 d (GetEntryOffset j + 68)"
      by (rule R(4)) (use sep[OF that(1)] in auto)
    moreover have "ReadValue_u16 d' (GetEntryOffset j + 72) = ReadValue_u16 d (GetEntryOffset j + 72)"
      by (rule R(2)) (use sep[OF that(1)] in auto)
    ultimately show ?thesis using k[OF that(1)] by (simp add: entry_at_def)
  qed
qed (use local_reads[OF assms] in \<open>auto simp: GetEntryOffset_eq\<close>)

lemma WriteEntry_wf:
  assumes "bk_wf pg" "i < 53" "entry_ok (key, rid)"
  shows "\<exists>pg'. WriteEntry i key rid pg = Inr pg' \<and>
    local_change (page_data pg) (page_data pg') (GetEntryOffset i) (GetEntryOffset i + 76) \<and>
    entry_at (page_data pg') i = (key, rid) \<and>
    ReadValue_u16 (page_data pg') (GetEntryOffset i) = length key \<and>
    page_pid pg' = page_pid pg \<and> pin_count pg' = pin_count pg \<and> is_dirty pg'"
proof -
  let ?o = "GetEntryOffset i"
  have len: "length (page_data pg) = 4096" and o: "?o + 76 \<le> 4096"
    using bk_wfD(1)[OF assms(1)] assms(2) by (simp_all add: GetEntryOffset_eq)
  have k: "length key \<le> 64" "is_i32 (rid_page rid)" "rid_slot rid < 65536"
    using assms(3) by (simp_all add: entry_ok_def layout_simps)
  define d1 where "d1 = mem_write (page_data pg) ?o (replicate ENTRY_SIZE zero_byte)"
  define d2 where "d2 = WriteValue_u16 d1 (?o + ENTRY_KEY_LENGTH_OFFSET) (length key)"
  define d3 where "d3 = mem_write d2 (?o + ENTRY_KEY_OFFSET) key"
  define d4 where "d4 = WriteValue_i32 d3 (?o + ENTRY_PAGE_ID_OFFSET) (rid_page rid)"
  define d5 where "d5 = WriteValue_u16 d4 (?o + ENTRY_SLOT_ID_OFFSET) (rid_slot rid)"
  have l1: "length d1 = 4096" using len o by (simp add: d1_def buf_simps layout_simps)
  have l2: "length d2 = 4096" using l1 o by (simp add: d2_def buf_simps layout_simps)
  have l3: "length d3 = 4096" using l2 o k(1) by (simp add: d3_def buf_simps layout_simps)
  have l4: "length d4 = 4096" using l3 o by (simp add: d4_def buf_simps layout_simps)
  have c1: "local_change (page_data pg) d1 ?o (?o + 76)"
    unfolding d1_def by (rule local_mem_write) (use len o in \<open>simp_all add: layout_simps\<close>)
  have c2: "local_change d1 d2 ?o (?o + 76)"
    unfolding d2_def by (rule local_write_value) (use l1 o in \<open>simp_all add: layout_simps\<close>)
  have c3: "local_change d2 d3 ?o (?o + 76)"
    unfolding d3_def by (rule local_mem_write) (use l2 o k(1) in \<open>simp_all add: layout_simps\<close>)
  have c4: "local_change d3 d4 ?o (?o + 76)"
    unfolding d4_def by (rule local_write_value) (use l3 o in \<open>simp_all add: layout_simps\<close>)
  have c5: "local_change d4 d5 ?o (?o + 76)"
    unfolding d5_def by (rule local_write_value) (use l4 o in \<open>simp_all add: layout_simps\<close>)
  have loc: "local_change (page_data pg) d5 ?o (?o + 76)"
    by (rule local_trans[OF c1 local_trans[OF c2 local_trans[OF c3 local_trans[OF c4 c5]]]])
  have klen: "ReadValue_u16 d5 ?o = length key"
    using l1 l2 l3 l4 o k(1) by (simp add: d5_def d4_def d3_def d2_def buf_simps layout_simps)
  have kbytes: "mem_read d5 (?o + 4) (length key) = key"
    using l2 l3 l4 o k(1) by (simp add: d5_def d4_def d3_def buf_simps layout_simps)
  have pid: "ReadValue_i32 d5 (?o + 68) = rid_page rid"
    using l3 l4 o k(2) by (simp add: d5_def d4_def buf_simps layout_simps)
  have sid: "ReadValue_u16 d5 (?o + 72) = rid_slot rid"
    using l4 o k(3) by (simp add: d5_def buf_simps layout_simps)
  have "WriteEntry i key rid pg = Inr (pg\<lparr>page_data := d5, is_dirty := True\<rparr>)"
    using assms(2) k(1) bk_wfD(2)[OF assms(1)]
    by (simp add: WriteEntry_def ValidateKey_def Let_def ENTRY_CAPACITY_eq d5_def d4_def d3_def d2_def d1_def
        MAX_KEY_LENGTH_def)
  then show ?thesis using loc klen kbytes pid sid by (simp add: entry_at_def)
qed

lemma ClearEntry_local:
  assumes "bk_wf pg" "i < 53"
  shows "local_change (page_data pg) (page_data (ClearEntry i pg)) (GetEntryOffset i) (GetEntryOffset i + 76) \<and>
    page_pid (ClearEntry i pg) = page_pid pg \<and> pin_count (ClearEntry i pg) = pin_count pg \<and>
    ReadValue_u16 (page_data (ClearEntry i pg)) (GetEntryOffset i) = 0 \<and> is_dirty (ClearEntry i pg)"
proof -
  have "GetEntryOffset i + 76 \<le> length (page_data pg)"
    using bk_wfD(1)[OF assms(1)] assms(2) by (simp add: GetEntryOffset_eq)
  moreover from this have "mem_read (mem_write (page_data pg) (GetEntryOffset i) (replicate 76 zero_byte))
      (GetEntryOffset i) 2 = replicate 2 zero_byte"
    by (simp add: mem_read_write_inside mem_read_replicate)
  ultimately show ?thesis using assms(2)
    by (auto simp: ClearEntry_def ENTRY_CAPACITY_eq layout_simps ReadValue_u16_def intro!: local_mem_write)
qed

text \<open>A page whose bytes changed in entry \<open>i\<close> only.\<close>

lemma bk_wf_local:
  assumes "bk_wf pg" "local_change (page_data pg) (page_data pg') (GetEntryOffset i) (GetEntryOffset i + 76)"
    "ReadValue_u16 (page_data pg') (GetEntryOffset i) \<le> 64"
    "page_pid pg' = page_pid pg" "pin_count pg' = pin_count pg"
  shows "bk_wf pg' \<and> same_bucket pg pg' \<and> bk_count pg' = bk_count pg \<and>
    (\<forall>j < bk_count pg. j \<noteq> i \<longrightarrow> entry_at (page_data pg') j = entry_at (page_data pg) j)"
proof -
  note E = entry_local[OF assms(2)]
  have le: "ReadValue_u16 (page_data pg) (GetEntryOffset j) \<le> 64" if "j < bk_count pg" for j
    using assms(1) that by (simp add: bk_wf_def layout_simps)
  have c: "bk_count pg' = bk_count pg" using E(4) by (simp add: bk_count_def layout_simps)
  have "ReadValue_u16 (page_data pg') (GetEntryOffset j) \<le> 64" if "j < bk_count pg" for j
    using le[OF that] E(1)[of j] assms(3) by (cases "j = i") simp_all
  then have "bk_wf pg'"
    using assms(1) E(3,4,5,7) c by (simp add: bk_wf_def BK_IsInitialized_def layout_simps)
  moreover have "bk_next pg' = bk_next pg" using E(6) by (simp add: bk_next_def layout_simps)
  ultimately show ?thesis using c E(2) le assms(4,5) by (simp add: same_bucket_def)
qed

text \<open>Setting the entry count, to a count whose entries are in order.\<close>

lemma set_count:
  assumes "bk_wf pg" "n \<le> 53" "\<forall>i < n. ReadValue_u16 (page_data pg) (GetEntryOffset i) \<le> 64"
  defines "pg' \<equiv> pg\<lparr>page_data := WriteValue_u16 (page_data pg) BK_ENTRY_COUNT_OFFSET n, is_dirty := True\<rparr>"
  shows "bk_wf pg' \<and> same_bucket pg pg' \<and> bk_entries pg' = map (entry_at (page_data pg)) [0..<n]"
proof -
  have len: "length (page_data pg) = 4096" by (rule bk_wfD(1)[OF assms(1)])
  have loc: "local_change (page_data pg) (page_data pg') 4 6"
    unfolding pg'_def by (simp, rule local_write_value) (use len in \<open>simp_all add: layout_simps\<close>)
  note R = local_reads[OF loc]
  have off: "6 \<le> GetEntryOffset j" for j by (simp add: GetEntryOffset_eq)
  have e: "entry_at (page_data pg') j = entry_at (page_data pg) j"
    "ReadValue_u16 (page_data pg') (GetEntryOffset j) = ReadValue_u16 (page_data pg) (GetEntryOffset j)" for j
    using off[of j] by (simp_all add: entry_at_def R)
  have c: "bk_count pg' = n" using len assms(2) by (simp add: bk_count_def pg'_def buf_simps layout_simps)
  have hd: "ReadValue_u32 (page_data pg') 0 = ReadValue_u32 (page_data pg) 0"
    "ReadValue_u16 (page_data pg') 6 = ReadValue_u16 (page_data pg) 6"
    "ReadValue_i32 (page_data pg') 8 = ReadValue_i32 (page_data pg) 8" "length (page_data pg') = 4096"
    using R len by simp_all
  have "BK_IsInitialized pg'"
    using assms(1,2) hd c by (simp add: bk_wf_def BK_IsInitialized_def bk_count_def layout_simps ENTRY_CAPACITY_eq)
  then have "bk_wf pg'" using hd(4) c assms(3) e(2) by (simp add: bk_wf_def layout_simps)
  moreover have "same_bucket pg pg'" using hd(3) by (simp add: same_bucket_def bk_next_def pg'_def layout_simps)
  moreover have "bk_entries pg' = map (entry_at (page_data pg)) [0..<n]" using c e(1) by (simp add: bk_entries_def)
  ultimately show ?thesis by simp
qed

section \<open>The operations on the list of entries\<close>

lemma BK_Init_wf:
  assumes "page_pid pg \<noteq> INVALID_PAGE_ID"
  shows "\<exists>pg'. BK_Init pg = Inr pg' \<and> bk_wf pg' \<and> bk_entries pg' = [] \<and> bk_next pg' = INVALID_PAGE_ID \<and>
    page_pid pg' = page_pid pg \<and> pin_count pg' = pin_count pg \<and> is_dirty pg'"
proof -
  obtain pg' where pg': "BK_Init pg = Inr pg'" using assms by (simp add: BK_Init_def Let_def)
  then have d: "page_data pg' = WriteValue_u32 (WriteValue_i32 (WriteValue_u16 (WriteValue_u16 (WriteValue_u32
      zero_page BK_MAGIC_OFFSET BK_MAGIC) BK_ENTRY_COUNT_OFFSET 0) BK_CAPACITY_OFFSET ENTRY_CAPACITY)
      BK_OVERFLOW_PAGE_ID_OFFSET INVALID_PAGE_ID) BK_RESERVED_OFFSET 0"
    and m: "page_pid pg' = page_pid pg" "pin_count pg' = pin_count pg" "is_dirty pg'"
    using assms by (auto simp: BK_Init_def Let_def)
  have "bk_count pg' = 0" "bk_next pg' = INVALID_PAGE_ID" "bk_wf pg'"
    by (simp_all add: d bk_count_def bk_next_def bk_wf_def BK_IsInitialized_def ENTRY_CAPACITY_eq layout_simps
        buf_simps is_i32_def)
  then show ?thesis using pg' m by (simp add: bk_entries_def)
qed

lemma BK_SetOverflowPageId_wf:
  assumes "bk_wf pg" "1 \<le> p" "is_i32 p"
  shows "\<exists>pg'. BK_SetOverflowPageId p pg = Inr pg' \<and> bk_wf pg' \<and> bk_entries pg' = bk_entries pg \<and>
    bk_next pg' = p \<and> page_pid pg' = page_pid pg \<and> pin_count pg' = pin_count pg \<and> is_dirty pg'"
proof -
  define d where "d = WriteValue_i32 (page_data pg) BK_OVERFLOW_PAGE_ID_OFFSET p"
  let ?pg = "pg\<lparr>page_data := d, is_dirty := True\<rparr>"
  have len: "length (page_data pg) = 4096" by (rule bk_wfD(1)[OF assms(1)])
  have loc: "local_change (page_data pg) d 8 12"
    unfolding d_def by (rule local_write_value) (use len in \<open>simp_all add: layout_simps\<close>)
  note R = local_reads[OF loc]
  have off: "12 \<le> GetEntryOffset j" for j by (simp add: GetEntryOffset_eq)
  have e: "entry_at d j = entry_at (page_data pg) j"
    "ReadValue_u16 d (GetEntryOffset j) = ReadValue_u16 (page_data pg) (GetEntryOffset j)" for j
    using off[of j] by (simp_all add: entry_at_def R)
  have c: "bk_count ?pg = bk_count pg" using R by (simp add: bk_count_def layout_simps)
  have "bk_wf ?pg" using assms(1) R c e(2) len
    by (simp add: bk_wf_def BK_IsInitialized_def layout_simps)
  moreover have "bk_entries ?pg = bk_entries pg" using c e(1) by (simp add: bk_entries_def)
  moreover have "bk_next ?pg = p" using assms(3) len by (simp add: bk_next_def d_def buf_simps layout_simps)
  moreover have "BK_SetOverflowPageId p pg = Inr ?pg"
    using assms bk_wfD(2)[OF assms(1)] by (simp add: BK_SetOverflowPageId_def d_def layout_simps)
  ultimately show ?thesis by simp
qed

lemma FindEntry_wf:
  assumes "bk_wf pg" "\<forall>i \<in> set is. i < bk_count pg"
  shows "FindEntry key rid pg is = Inr (\<exists>i \<in> set is. bk_entries pg ! i = (key, rid))"
  using assms(2)
proof (induction "is")
  case (Cons i "is")
  obtain k v where kv: "bk_entries pg ! i = (k, v)" by (cases "bk_entries pg ! i")
  have "ReadEntry i pg = Inr (k, v)" using ReadEntry_wf[OF assms(1), of i] Cons.prems kv by simp
  then show ?case using Cons kv by auto
qed simp

lemma in_bk_entries: "(\<exists>i \<in> set [0..<bk_count pg]. bk_entries pg ! i = e) \<longleftrightarrow> e \<in> set (bk_entries pg)"
  by (auto simp: in_set_conv_nth)

lemma BK_Insert_wf:
  assumes "bk_wf pg" "entry_ok (key, rid)" "1 \<le> rid_page rid"
  shows "if (key, rid) \<in> set (bk_entries pg) then BK_Insert key rid pg = Inr (pg, False)
    else if bk_count pg = 53 then BK_Insert key rid pg = Inl (OutOfMemory ''Hash bucket page is full'')
    else \<exists>pg'. BK_Insert key rid pg = Inr (pg', True) \<and> bk_wf pg' \<and> same_bucket pg pg' \<and> is_dirty pg' \<and>
      bk_entries pg' = bk_entries pg @ [(key, rid)]"
proof -
  note D = bk_wfD[OF assms(1)]
  have v: "status_ok (ValidateKey key)" using assms(2) by (simp add: ValidateKey_def entry_ok_def)
  have f: "FindEntry key rid pg [0..<bk_count pg] = Inr ((key, rid) \<in> set (bk_entries pg))"
    using FindEntry_wf[OF assms(1), of "[0..<bk_count pg]" key rid] in_bk_entries[of pg "(key, rid)"] by simp
  have I: "BK_Insert key rid pg = (if (key, rid) \<in> set (bk_entries pg) then Inr (pg, False)
      else if bk_count pg \<ge> 53 then Inl (OutOfMemory ''Hash bucket page is full'')
      else (case WriteEntry (bk_count pg) key rid pg of Inl st \<Rightarrow> Inl st
        | Inr pg \<Rightarrow> Inr (pg\<lparr>page_data := WriteValue_u16 (page_data pg) BK_ENTRY_COUNT_OFFSET
             (u16 (int (bk_count pg0 + 1))), is_dirty := True\<rparr>, True)))" if "pg0 = pg" for pg0
    using that v D(2,4) f assms(3) by (simp add: BK_Insert_def Let_def ENTRY_CAPACITY_eq split: sum.split)
  show ?thesis
  proof (cases "(key, rid) \<in> set (bk_entries pg) \<or> bk_count pg = 53")
    case True
    then show ?thesis using I[of pg] by auto
  next
    case False
    then have n: "bk_count pg < 53" using D(3) by simp
    obtain pg1 where pg1: "WriteEntry (bk_count pg) key rid pg = Inr pg1"
      "local_change (page_data pg) (page_data pg1) (GetEntryOffset (bk_count pg)) (GetEntryOffset (bk_count pg) + 76)"
      "entry_at (page_data pg1) (bk_count pg) = (key, rid)"
      "ReadValue_u16 (page_data pg1) (GetEntryOffset (bk_count pg)) = length key"
      "page_pid pg1 = page_pid pg" "pin_count pg1 = pin_count pg" "is_dirty pg1"
      using WriteEntry_wf[OF assms(1) n assms(2)] by blast
    have k64: "length key \<le> 64" using assms(2) by (simp add: entry_ok_def layout_simps)
    then have "ReadValue_u16 (page_data pg1) (GetEntryOffset (bk_count pg)) \<le> 64" using pg1(4) by simp
    note L = bk_wf_local[OF assms(1) pg1(2) this pg1(5,6)]
    have le: "\<forall>i < bk_count pg + 1. ReadValue_u16 (page_data pg1) (GetEntryOffset i) \<le> 64"
      using L pg1(4) k64 by (auto simp: bk_wf_def layout_simps less_Suc_eq)
    let ?pg2 = "pg1\<lparr>page_data := WriteValue_u16 (page_data pg1) BK_ENTRY_COUNT_OFFSET (bk_count pg + 1), is_dirty := True\<rparr>"
    have S: "bk_wf ?pg2 \<and> same_bucket pg1 ?pg2 \<and> bk_entries ?pg2 = map (entry_at (page_data pg1)) [0..<bk_count pg + 1]"
      using set_count[OF _ _ le] L n by simp
    have "map (entry_at (page_data pg1)) [0..<bk_count pg] = bk_entries pg"
      using L by (auto simp: bk_entries_def)
    then have "bk_entries ?pg2 = bk_entries pg @ [(key, rid)]" using S pg1(3) by simp
    moreover have "u16 (1 + int (bk_count pg)) = bk_count pg + 1" using u16_id[of "bk_count pg + 1"] n by simp
    then have "BK_Insert key rid pg = Inr (?pg2, True)" using I[OF refl] False n pg1(1) by simp
    ultimately show ?thesis using False S L same_bucket_trans by auto
  qed
qed

lemma CollectValues_wf:
  assumes "bk_wf pg" "\<forall>i \<in> set is. i < bk_count pg"
  shows "CollectValues key pg is res found =
    (let vs = map snd (filter (\<lambda>e. fst e = key) (map ((!) (bk_entries pg)) is))
     in (res @ vs, if found \<or> vs \<noteq> [] then Status_OK else NotFound ''Hash key was not found in bucket''))"
  using assms(2)
proof (induction "is" arbitrary: res found)
  case (Cons i "is")
  obtain k v where kv: "bk_entries pg ! i = (k, v)" by (cases "bk_entries pg ! i")
  have "ReadEntry i pg = Inr (k, v)" using ReadEntry_wf[OF assms(1), of i] Cons.prems kv by simp
  then show ?case using Cons kv by (auto simp: Let_def)
qed simp

definition values_of :: "byte list \<Rightarrow> entry list \<Rightarrow> record_id list" where
  "values_of key es = map snd (filter (\<lambda>e. fst e = key) es)"

lemma BK_GetValue_wf:
  assumes "bk_wf pg" "length key \<le> MAX_KEY_LENGTH"
  shows "BK_GetValue key res pg = (res @ values_of key (bk_entries pg),
    if values_of key (bk_entries pg) = [] then NotFound ''Hash key was not found in bucket'' else Status_OK)"
proof -
  have "map ((!) (bk_entries pg)) [0..<bk_count pg] = bk_entries pg"
    by (metis bk_entries_length map_nth)
  then show ?thesis
    using CollectValues_wf[OF assms(1), of "[0..<bk_count pg]" key res False] bk_wfD(2,4)[OF assms(1)] assms(2)
    by (simp add: BK_GetValue_def ValidateKey_def values_of_def Let_def)
qed

section \<open>Removal\<close>

text \<open>What a removal leaves of a multiset of entries: without a RecordID all entries of the key go, with
  one only one entry goes.\<close>

definition rem_mset :: "byte list \<Rightarrow> record_id option \<Rightarrow> entry multiset \<Rightarrow> entry multiset" where
  "rem_mset key ro M = (case ro of None \<Rightarrow> filter_mset (\<lambda>e. fst e \<noteq> key) M | Some v \<Rightarrow> M - {#(key, v)#})"

definition entry_hit :: "byte list \<Rightarrow> record_id option \<Rightarrow> entry \<Rightarrow> bool" where
  "entry_hit key ro e \<longleftrightarrow> fst e = key \<and> (ro = None \<or> ro = Some (snd e))"

lemma mset_move_last:
  assumes "i < n" "\<forall>j < n - 1. g j = (if j = i then f (n - 1) else f j)"
  shows "mset (map f [0..<n]) = add_mset (f i) (mset (map g [0..<n - 1]))"
proof -
  have n: "[0..<n] = [0..<n - 1] @ [n - 1]" using assms(1) by (cases n) auto
  have m: "mset (map f [0..<n]) = add_mset (f (n - 1)) (mset (map f [0..<n - 1]))" by (subst n) simp
  show ?thesis
  proof (cases "i = n - 1")
    case True
    then have "map g [0..<n - 1] = map f [0..<n - 1]" using assms(2) by auto
    then show ?thesis using m True by (simp only:)
  next
    case False
    then have i: "i < n - 1" using assms(1) by simp
    have "map g [0..<n - 1] = (map f [0..<n - 1])[i := f (n - 1)]"
      by (rule nth_equalityI) (use assms(2) in \<open>auto simp: nth_list_update\<close>)
    then have "mset (map g [0..<n - 1]) = add_mset (f (n - 1)) (mset (map f [0..<n - 1]) - {#f i#})"
      using i by (simp add: mset_update)
    moreover have "f i \<in># mset (map f [0..<n - 1])" using i by auto
    ultimately show ?thesis using m by (simp del: mset_map)
  qed
qed

lemma move_clear:
  assumes "bk_wf pg" "n \<le> bk_count pg" "i < n"
  shows "\<exists>pg1. MoveLast i (n - 1) pg = Inr pg1 \<and> bk_wf (ClearEntry (n - 1) pg1) \<and>
    same_bucket pg (ClearEntry (n - 1) pg1) \<and> bk_count (ClearEntry (n - 1) pg1) = bk_count pg \<and>
    is_dirty (ClearEntry (n - 1) pg1) \<and>
    (\<forall>j < n - 1. entry_at (page_data (ClearEntry (n - 1) pg1)) j =
      (if j = i then entry_at (page_data pg) (n - 1) else entry_at (page_data pg) j))"
proof -
  have b: "n - 1 < 53" "n - 1 < bk_count pg" "i < 53" using bk_wfD(3)[OF assms(1)] assms(2,3) by simp_all
  have "\<exists>pg1. MoveLast i (n - 1) pg = Inr pg1 \<and> bk_wf pg1 \<and> same_bucket pg pg1 \<and> bk_count pg1 = bk_count pg \<and>
    (\<forall>j < n - 1. entry_at (page_data pg1) j =
      (if j = i then entry_at (page_data pg) (n - 1) else entry_at (page_data pg) j))"
  proof (cases "i = n - 1")
    case True
    then show ?thesis using assms(1) by (simp add: MoveLast_def same_bucket_def)
  next
    case False
    obtain k v where kv: "entry_at (page_data pg) (n - 1) = (k, v)" by (cases "entry_at (page_data pg) (n - 1)")
    have "(k, v) \<in> set (bk_entries pg)" using b(2) kv by (force simp: bk_entries_def)
    then have ok: "entry_ok (k, v)" by (rule bk_entries_ok[OF assms(1)])
    obtain pg1 where pg1: "WriteEntry i k v pg = Inr pg1"
      "local_change (page_data pg) (page_data pg1) (GetEntryOffset i) (GetEntryOffset i + 76)"
      "entry_at (page_data pg1) i = (k, v)" "ReadValue_u16 (page_data pg1) (GetEntryOffset i) = length k"
      "page_pid pg1 = page_pid pg" "pin_count pg1 = pin_count pg"
      using WriteEntry_wf[OF assms(1) b(3) ok] by blast
    have "ReadValue_u16 (page_data pg1) (GetEntryOffset i) \<le> 64" using pg1(4) ok by (simp add: entry_ok_def layout_simps)
    note L = bk_wf_local[OF assms(1) pg1(2) this pg1(5,6)]
    have "MoveLast i (n - 1) pg = Inr pg1"
      using False ReadEntry_wf[OF assms(1), of "n - 1"] b(2) kv pg1(1) by (simp add: MoveLast_def)
    then show ?thesis using L pg1(3) kv b(2) by (auto simp: less_imp_le)
  qed
  then obtain pg1 where pg1: "MoveLast i (n - 1) pg = Inr pg1" "bk_wf pg1" "same_bucket pg pg1" "bk_count pg1 = bk_count pg"
    "\<forall>j < n - 1. entry_at (page_data pg1) j = (if j = i then entry_at (page_data pg) (n - 1) else entry_at (page_data pg) j)"
    by blast
  note C = ClearEntry_local[OF pg1(2) b(1)]
  have c: "page_pid (ClearEntry (n - 1) pg1) = page_pid pg1" "pin_count (ClearEntry (n - 1) pg1) = pin_count pg1"
    "ReadValue_u16 (page_data (ClearEntry (n - 1) pg1)) (GetEntryOffset (n - 1)) \<le> 64" using C by simp_all
  note L = bk_wf_local[OF pg1(2) conjunct1[OF C] c(3,1,2)]
  have "entry_at (page_data (ClearEntry (n - 1) pg1)) j = entry_at (page_data pg1) j" if "j < n - 1" for j
    using L pg1(4) that b(2) by simp
  then show ?thesis using pg1 L C same_bucket_trans[OF pg1(3)] by auto
qed

lemma rem_mset_hit:
  assumes "entry_hit key ro e"
  shows "rem_mset key ro (add_mset e M) = (if ro = None then rem_mset key ro M else M)"
  using assms by (auto simp: rem_mset_def entry_hit_def)

lemma rem_mset_none:
  assumes "\<forall>e \<in># M. \<not> entry_hit key ro e"
  shows "rem_mset key ro M = M"
proof (cases ro)
  case None
  then have "\<forall>e \<in># M. fst e \<noteq> key" using assms by (simp add: entry_hit_def)
  then have "filter_mset (\<lambda>e. fst e \<noteq> key) M = M" by (simp add: filter_mset_eq_conv)
  then show ?thesis using None by (simp add: rem_mset_def)
next
  case (Some v)
  then have "(key, v) \<notin># M" using assms by (auto simp: entry_hit_def)
  then show ?thesis using Some by (simp add: rem_mset_def diff_single_trivial)
qed

lemma RemoveLoop_spec:
  assumes "bk_wf pg" "n \<le> bk_count pg" "i \<le> n" "\<forall>j < i. \<not> entry_hit key ro (entry_at (page_data pg) j)"
  shows "\<exists>pg' n'. RemoveLoop key ro i n removed pg = (pg', Inr (n', removed + (n - n'))) \<and> n' \<le> n \<and>
    bk_wf pg' \<and> same_bucket pg pg' \<and> bk_count pg' = bk_count pg \<and> (if n' = n then pg' = pg else is_dirty pg') \<and>
    mset (map (entry_at (page_data pg')) [0..<n']) = rem_mset key ro (mset (map (entry_at (page_data pg)) [0..<n]))"
  using assms
proof (induction "n - i" arbitrary: i n removed pg rule: less_induct)
  case less
  note prems = less.prems
  show ?case
  proof (cases "i < n")
    case False
    then have "\<forall>e \<in># mset (map (entry_at (page_data pg)) [0..<n]). \<not> entry_hit key ro e"
      using prems(3,4) by auto
    from rem_mset_none[OF this] show ?thesis
      using False prems by (intro exI[of _ pg] exI[of _ n]) (simp add: RemoveLoop.simps[of key ro n n] same_bucket_def)
  next
    case True
    have i: "i < bk_count pg" using True prems(2) by simp
    obtain k v where kv: "entry_at (page_data pg) i = (k, v)" by (cases "entry_at (page_data pg) i")
    have rd: "ReadEntry i pg = Inr (k, v)" using ReadEntry_wf[OF prems(1)] i kv by simp
    show ?thesis
    proof (cases "entry_hit key ro (k, v)")
      case False
      then have "RemoveLoop key ro i n removed pg = RemoveLoop key ro (i + 1) n removed pg"
        using True rd by (simp add: RemoveLoop.simps[of _ _ i] entry_hit_def)
      moreover have "\<forall>j < i + 1. \<not> entry_hit key ro (entry_at (page_data pg) j)"
        using False kv prems(4) by (auto simp: less_Suc_eq)
      moreover have "n - (i + 1) < n - i" "i + 1 \<le> n" using True by simp_all
      ultimately show ?thesis using less.hyps[of n "i + 1" pg removed] prems(1,2) by simp
    next
      case hit: True
      obtain pg1 where pg1: "MoveLast i (n - 1) pg = Inr pg1" "bk_wf (ClearEntry (n - 1) pg1)"
        "same_bucket pg (ClearEntry (n - 1) pg1)" "bk_count (ClearEntry (n - 1) pg1) = bk_count pg"
        "is_dirty (ClearEntry (n - 1) pg1)"
        "\<forall>j < n - 1. entry_at (page_data (ClearEntry (n - 1) pg1)) j =
          (if j = i then entry_at (page_data pg) (n - 1) else entry_at (page_data pg) j)"
        using move_clear[OF prems(1,2) True] by blast
      let ?pg2 = "ClearEntry (n - 1) pg1"
      have ms: "mset (map (entry_at (page_data pg)) [0..<n]) =
          add_mset (k, v) (mset (map (entry_at (page_data ?pg2)) [0..<n - 1]))"
        using mset_move_last[OF True pg1(6)] kv by simp
      have loop: "RemoveLoop key ro i n removed pg = (if ro \<noteq> None then (?pg2, Inr (n - 1, removed + 1))
          else RemoveLoop key ro i (n - 1) (removed + 1) ?pg2)"
        using True rd hit pg1(1) by (auto simp: RemoveLoop.simps[of _ _ i] entry_hit_def Let_def)
      show ?thesis
      proof (cases "ro = None")
        case False
        then obtain w where "ro = Some w" by auto
        then show ?thesis using loop ms rem_mset_hit[OF hit] pg1 True
          by (intro exI[of _ ?pg2] exI[of _ "n - 1"]) simp
      next
        case none: True
        have "\<forall>j < i. \<not> entry_hit key ro (entry_at (page_data ?pg2) j)" using prems(4) pg1(6) True by simp
        moreover have "n - 1 - i < n - i" "n - 1 \<le> bk_count ?pg2" "i \<le> n - 1" using True prems(2) pg1(4) by simp_all
        ultimately obtain pg' n' where R: "RemoveLoop key ro i (n - 1) (removed + 1) ?pg2 =
            (pg', Inr (n', removed + 1 + (n - 1 - n')))" "n' \<le> n - 1" "bk_wf pg'" "same_bucket ?pg2 pg'"
            "bk_count pg' = bk_count ?pg2" "if n' = n - 1 then pg' = ?pg2 else is_dirty pg'"
            "mset (map (entry_at (page_data pg')) [0..<n']) =
              rem_mset key ro (mset (map (entry_at (page_data ?pg2)) [0..<n - 1]))"
          using less.hyps[of "n - 1" i ?pg2 "removed + 1"] pg1(2) by blast
        have "is_dirty pg'" using R(6) pg1(5) by (auto split: if_splits)
        moreover have "removed + 1 + (n - 1 - n') = removed + (n - n')" "n' \<noteq> n" using R(2) True by simp_all
        ultimately show ?thesis
          using loop none R ms rem_mset_hit[OF hit] pg1 same_bucket_trans[OF pg1(3)]
          by (intro exI[of _ pg'] exI[of _ n']) simp
      qed
    qed
  qed
qed

lemma BK_Remove_wf:
  assumes "bk_wf pg" "length key \<le> MAX_KEY_LENGTH"
  shows "\<exists>pg' st k. BK_Remove key ro pg = (pg', st, k) \<and> bk_wf pg' \<and> same_bucket pg pg' \<and>
    mset (bk_entries pg') = rem_mset key ro (mset (bk_entries pg)) \<and> k = bk_count pg - bk_count pg' \<and>
    bk_count pg' \<le> bk_count pg \<and>
    st = (if k = 0 then NotFound ''Hash key/RID entry was not found'' else Status_OK) \<and>
    (if k = 0 then pg' = pg else is_dirty pg')"
proof -
  obtain pg1 n where L: "RemoveLoop key ro 0 (bk_count pg) 0 pg = (pg1, Inr (n, bk_count pg - n))" "n \<le> bk_count pg"
    "bk_wf pg1" "same_bucket pg pg1" "bk_count pg1 = bk_count pg" "if n = bk_count pg then pg1 = pg else is_dirty pg1"
    "mset (map (entry_at (page_data pg1)) [0..<n]) = rem_mset key ro (mset (map (entry_at (page_data pg)) [0..<bk_count pg]))"
    using RemoveLoop_spec[OF assms(1), of "bk_count pg" 0 key ro 0] by auto
  have R: "BK_Remove key ro pg = (if bk_count pg - n = 0 then (pg1, NotFound ''Hash key/RID entry was not found'', 0)
      else (pg1\<lparr>page_data := WriteValue_u16 (page_data pg1) BK_ENTRY_COUNT_OFFSET n, is_dirty := True\<rparr>, Status_OK,
        bk_count pg - n))"
    using assms(2) bk_wfD(2,4)[OF assms(1)] L(1) by (simp add: BK_Remove_def ValidateKey_def)
  show ?thesis
  proof (cases "n = bk_count pg")
    case True
    then show ?thesis using R L by (simp add: bk_entries_def same_bucket_def)
  next
    case False
    let ?pg2 = "pg1\<lparr>page_data := WriteValue_u16 (page_data pg1) BK_ENTRY_COUNT_OFFSET n, is_dirty := True\<rparr>"
    have le: "\<forall>i < n. ReadValue_u16 (page_data pg1) (GetEntryOffset i) \<le> 64"
      using L(2,3,5) by (simp add: bk_wf_def layout_simps)
    have n53: "n \<le> 53" using bk_wfD(3)[OF assms(1)] L(2) by simp
    note S = set_count[OF L(3) n53 le]
    have "bk_count ?pg2 = n" using arg_cong[OF conjunct2[OF conjunct2[OF S]], of length] by simp
    moreover have "mset (bk_entries ?pg2) = rem_mset key ro (mset (bk_entries pg))"
      using S L(7) by (simp add: bk_entries_def)
    ultimately show ?thesis using R S L(2) False same_bucket_trans[OF L(4)] by simp
  qed
qed

section \<open>The bucket as an index\<close>

definition bk_inv :: "page \<Rightarrow> bool" where
  "bk_inv pg \<longleftrightarrow> bk_wf pg \<and> distinct (bk_entries pg)"

definition index_entry :: "byte list \<Rightarrow> record_id \<Rightarrow> bool" where
  "index_entry key rid \<longleftrightarrow> entry_ok (key, rid) \<and> 1 \<le> rid_page rid"

definition bk_ins :: "byte list \<Rightarrow> record_id \<Rightarrow> page \<Rightarrow> page option" where
  "bk_ins key rid pg = (if index_entry key rid
     then (case BK_Insert key rid pg of Inl _ \<Rightarrow> None | Inr (pg', _) \<Rightarrow> Some pg') else None)"

definition bk_look :: "byte list \<Rightarrow> page \<Rightarrow> record_id list option" where
  "bk_look key pg = (case BK_GetValue key [] pg of (vs, st) \<Rightarrow>
     if status_ok st \<or> status_code st = NOT_FOUND then Some vs else None)"

definition bk_rem :: "byte list \<Rightarrow> record_id option \<Rightarrow> page \<Rightarrow> page option" where
  "bk_rem key ro pg = (case BK_Remove key ro pg of (pg', st, k) \<Rightarrow> if status_ok st then Some pg' else None)"

lemma values_of_set: "set (values_of key es) = {v. (key, v) \<in> set es}"
  by (force simp: values_of_def)

lemma values_of_distinct: "distinct es \<Longrightarrow> distinct (values_of key es)"
  by (auto simp: values_of_def distinct_map inj_on_def intro: prod_eqI)

lemma rem_mset_distinct:
  assumes "distinct es" "mset es' = rem_mset key ro (mset es)"
  shows "distinct es' \<and> set es' = {e \<in> set es. fst e \<noteq> key \<or> ro \<noteq> None \<and> ro \<noteq> Some (snd e)}"
proof (cases ro)
  case None
  then have m: "mset es' = mset (filter (\<lambda>e. fst e \<noteq> key) es)" using assms(2) by (simp add: rem_mset_def)
  then show ?thesis using None mset_eq_imp_distinct_iff[OF m] mset_eq_setD[OF m] assms(1) by auto
next
  case (Some v)
  then have m: "mset es' = mset (remove1 (key, v) es)" using assms(2) by (simp add: rem_mset_def)
  have "set es' = set es - {(key, v)}"
    using mset_eq_setD[OF m] set_remove1_eq[OF assms(1)] by simp
  moreover have "distinct es'" using mset_eq_imp_distinct_iff[OF m] assms(1) by simp
  moreover have "{e \<in> set es. fst e \<noteq> key \<or> ro \<noteq> None \<and> ro \<noteq> Some (snd e)} = set es - {(key, v)}"
    unfolding Some by (rule set_eqI) (simp add: prod_eq_iff, blast)
  ultimately show ?thesis by simp
qed

interpretation bucket: key_index bk_inv "\<lambda>pg. set (bk_entries pg)" bk_ins bk_look bk_rem
proof (unfold_locales, goal_cases)
  case (1 s k v s')
  then have e: "bk_wf s" "distinct (bk_entries s)" "index_entry k v" and i: "\<exists>b. BK_Insert k v s = Inr (s', b)"
    by (auto simp: bk_inv_def bk_ins_def split: if_splits sum.splits)
  show ?case using BK_Insert_wf[of s k v] e i by (auto simp: bk_inv_def index_entry_def split: if_splits)
next
  case (2 s k vs)
  show ?case
  proof (cases "length k \<le> MAX_KEY_LENGTH")
    case True
    then have "vs = values_of k (bk_entries s)" "distinct (bk_entries s)"
      using 2 BK_GetValue_wf[of s k "[]"] by (auto simp: bk_inv_def bk_look_def split: if_splits)
    then show ?thesis by (simp add: values_of_set values_of_distinct)
  next
    case False
    then show ?thesis using 2 by (simp add: bk_look_def BK_GetValue_def ValidateKey_def)
  qed
next
  case (3 s k ro s')
  show ?case
  proof (cases "length k \<le> MAX_KEY_LENGTH")
    case True
    then obtain st n where R: "BK_Remove k ro s = (s', st, n)" "status_ok st" "bk_wf s'"
      "mset (bk_entries s') = rem_mset k ro (mset (bk_entries s))" "n = bk_count s - bk_count s'"
      "st = (if n = 0 then NotFound ''Hash key/RID entry was not found'' else Status_OK)"
      using BK_Remove_wf[of s k ro] 3 by (fastforce simp: bk_inv_def bk_rem_def split: if_splits)
    have d: "distinct (bk_entries s)" using 3 by (simp add: bk_inv_def)
    note D = rem_mset_distinct[OF d R(4)]
    have "n \<noteq> 0" using R(2,6) by (cases "n = 0") simp_all
    then have "length (bk_entries s') < length (bk_entries s)" using R(5) by simp
    then have "card (set (bk_entries s')) < card (set (bk_entries s))"
      by (simp only: distinct_card[OF conjunct1[OF D]] distinct_card[OF d])
    then have "set (bk_entries s') \<noteq> set (bk_entries s)" by auto
    then show ?thesis using D R(3) by (simp add: bk_inv_def)
  next
    case False
    then show ?thesis using 3 by (simp add: bk_rem_def BK_Remove_def ValidateKey_def)
  qed
qed

end
