(* ===== verification/Hash_Index_Correct.thy ===== *)
theory Hash_Index_Correct
  imports Hash_Index Bucket_Page_Correct Page_Client
begin

text \<open>
  The lemmas about the hash index. The abstract index is a set of key/RecordID pairs: the entries on
  the bucket buckets, each chain holding the keys that hash to its bucket. \<open>hi_state\<close> ties it to the
  pages that the buffer pool presents; every operation acts on that set, whatever the pool and the
  disk do.
\<close>

section \<open>The kinds of page\<close>

interpretation bucket_page: page_kind bk_wf bk_next
proof (unfold_locales, goal_cases)
  case (1 a b)
  then show ?case by (simp add: bk_wf_def BK_IsInitialized_def bk_count_def)
next
  case (2 a b)
  then show ?case by (simp add: bk_next_def)
next
  case (3 pg)
  then show ?case by (simp add: bk_wf_def)
qed

definition header_ok :: "page \<Rightarrow> bool" where
  "header_ok pg \<longleftrightarrow> hih_wf pg \<and> HIH_GetMaxKeyLength pg = MAX_KEY_LENGTH"

interpretation header_page: page_kind header_ok "\<lambda>_. INVALID_PAGE_ID"
proof (unfold_locales, goal_cases)
  case (1 a b)
  then show ?case by (simp add: header_ok_def hih_wf_def HIH_GetMaxKeyLength_def HIH_IsInitialized_def)
next
  case (3 pg)
  then show ?case by (simp add: header_ok_def hih_wf_def)
qed simp

lemma bk_entries_view: "page_data a = page_data b \<Longrightarrow> bk_entries a = bk_entries b"
  by (simp add: bk_entries_def bk_count_def)

lemma hih_dir_view: "page_data a = page_data b \<Longrightarrow> hih_dir a = hih_dir b"
  by (simp add: hih_dir_def)

section \<open>The state\<close>

definition bucket_of :: "nat \<Rightarrow> byte list \<Rightarrow> nat" where
  "bucket_of n key = unat (StableHash key) mod n"

definition chain_entries :: "pages_map \<Rightarrow> page_id list \<Rightarrow> entry list" where
  "chain_entries c ps = concat (map (\<lambda>p. bk_entries (page_at c p)) ps)"

definition bucket_ok :: "pages_map \<Rightarrow> nat \<Rightarrow> nat \<Rightarrow> page_id \<Rightarrow> page_id list \<Rightarrow> bool" where
  "bucket_ok c n i p ps \<longleftrightarrow> linked bk_wf bk_next c p ps \<and> distinct (chain_entries c ps) \<and>
     (\<forall>e \<in> set (chain_entries c ps). bucket_of n (fst e) = i)"

definition hi_pages :: "page_id \<Rightarrow> page_id list list \<Rightarrow> page_id list" where
  "hi_pages hid buckets = hid # concat buckets"

definition hi_state :: "pool \<Rightarrow> page_id \<Rightarrow> page_id list list \<Rightarrow> bool" where
  "hi_state bp hid buckets \<longleftrightarrow> pool_ok {} bp \<and> 1 \<le> hid \<and> pool_page bp hid \<noteq> None \<and>
     header_ok (page_at (pool_page bp) hid) \<and>
     length (hih_dir (page_at (pool_page bp) hid)) = length buckets \<and>
     (\<forall>i < length buckets. bucket_ok (pool_page bp) (length buckets) i
        (hih_dir (page_at (pool_page bp) hid) ! i) (buckets ! i)) \<and>
     distinct (hi_pages hid buckets) \<and> set (hi_pages hid buckets) \<inter> free_pages (pool_disk bp) = {}"

text \<open>The pairs of the index: an entry is looked for in its bucket.\<close>

definition hi_entries :: "pages_map \<Rightarrow> page_id list list \<Rightarrow> entry set" where
  "hi_entries c buckets = {e. e \<in> set (chain_entries c (buckets ! bucket_of (length buckets) (fst e)))}"

lemma chain_entries_simps [simp]:
  "chain_entries c [] = []"
  "chain_entries c (p # ps) = bk_entries (page_at c p) @ chain_entries c ps"
  "chain_entries c (ps @ qs) = chain_entries c ps @ chain_entries c qs"
  by (simp_all add: chain_entries_def)

lemma chain_entries_cong: "\<forall>q \<in> set ps. c' q = c q \<Longrightarrow> chain_entries c' ps = chain_entries c ps"
  by (induction ps) (simp_all add: page_at_def)

lemma bucket_ok_cong: "bucket_ok c n i p ps \<Longrightarrow> \<forall>q \<in> set ps. c' q = c q \<Longrightarrow> bucket_ok c' n i p ps"
  using linked_cong[of bk_wf bk_next c p ps c'] chain_entries_cong[of ps c' c] by (simp add: bucket_ok_def)

lemma in_concatI: "i < length xss \<Longrightarrow> q \<in> set (xss ! i) \<Longrightarrow> q \<in> set (concat xss)"
  unfolding set_concat using nth_mem[of i xss] by (rule UN_I)

lemma in_concatE:
  assumes "q \<in> set (concat xss)"
  obtains i where "i < length xss" "q \<in> set (xss ! i)"
proof -
  obtain xs where "xs \<in> set xss" "q \<in> set xs" using assms unfolding set_concat by blast
  moreover from this(1) obtain i where "i < length xss" "xss ! i = xs" by (metis in_set_conv_nth)
  ultimately show ?thesis using that by simp
qed

lemma hi_buckets: "hi_state bp hid buckets \<Longrightarrow> 0 < length buckets \<and> length buckets \<le> 1020"
  using hih_count(2,3)[of "page_at (pool_page bp) hid"] by (auto simp: hi_state_def header_ok_def)

lemma bucket_of_less: "hi_state bp hid buckets \<Longrightarrow> bucket_of (length buckets) key < length buckets"
  using hi_buckets[of bp hid buckets] by (simp add: bucket_of_def)

lemma hi_chain:
  assumes "hi_state bp hid buckets" "i < length buckets"
  shows "linked bk_wf bk_next (pool_page bp) (hih_dir (page_at (pool_page bp) hid) ! i) (buckets ! i)"
    "distinct (chain_entries (pool_page bp) (buckets ! i))"
    "\<forall>e \<in> set (chain_entries (pool_page bp) (buckets ! i)). bucket_of (length buckets) (fst e) = i"
  using assms by (simp_all add: hi_state_def bucket_ok_def)

lemma hi_page:
  assumes "hi_state bp hid buckets" "i < length buckets" "q \<in> set (buckets ! i)"
  shows "pool_ok {} bp" "1 \<le> q" "q \<notin> free_pages (pool_disk bp)" "pool_page bp q \<noteq> None"
    "bk_wf (page_at (pool_page bp) q)" "q \<noteq> hid"
proof -
  have "q \<in> set (concat buckets)" by (rule in_concatI[OF assms(2,3)])
  then show "pool_ok {} bp" "q \<notin> free_pages (pool_disk bp)" "q \<noteq> hid"
    using assms(1) by (auto simp: hi_state_def hi_pages_def)
  show "1 \<le> q" "pool_page bp q \<noteq> None" "bk_wf (page_at (pool_page bp) q)"
    using linked_page[OF hi_chain(1)[OF assms(1,2)] assms(3)] by simp_all
qed

lemma hi_header:
  assumes "hi_state bp hid buckets"
  shows "pool_ok {} bp" "hid \<notin> free_pages (pool_disk bp)" "pool_page bp hid \<noteq> None"
    "header_ok (page_at (pool_page bp) hid)"
  using assms by (simp_all add: hi_state_def hi_pages_def)

lemma other_chain:
  assumes "distinct (concat buckets)" "i < length buckets" "j < length buckets" "i \<noteq> j"
  shows "set (buckets ! i) \<inter> set (buckets ! j) = {}"
  using assms
proof (induction buckets arbitrary: i j)
  case (Cons a buckets)
  have sub: "set (buckets ! k) \<subseteq> set (concat buckets)" if "k < length buckets" for k
    using in_concatI[OF that] by (rule subsetI)
  show ?case
  proof (cases i)
    case 0
    then obtain k where "j = Suc k" "k < length buckets" using Cons.prems by (cases j) auto
    then show ?thesis using 0 sub Cons.prems(1) by auto
  next
    case (Suc i')
    show ?thesis
    proof (cases j)
      case 0
      then show ?thesis using Suc sub[of i'] Cons.prems by auto
    next
      case (Suc j')
      then show ?thesis using \<open>i = Suc i'\<close> Cons by simp
    qed
  qed
qed simp

lemma concat_update:
  assumes "i < length xss"
  shows "concat (xss[i := ys]) = concat (take i xss) @ ys @ concat (drop (Suc i) xss)"
  using assms by (simp add: upd_conv_take_nth_drop)

lemma concat_split:
  assumes "i < length xss"
  shows "concat xss = concat (take i xss) @ xss ! i @ concat (drop (Suc i) xss)"
  using concat_update[OF assms, of "xss ! i"] by simp

text \<open>One bucket changes, its chain perhaps too.\<close>

lemma hi_update:
  assumes "hi_state bp hid buckets" "i < length buckets" "pool_ok {} bp'" "pool_page bp' hid \<noteq> None"
    "header_ok (page_at (pool_page bp') hid)"
    "hih_dir (page_at (pool_page bp') hid) = (hih_dir (page_at (pool_page bp) hid))[i := p']"
    "bucket_ok (pool_page bp') (length buckets) i p' ps'"
    "\<And>q j. j < length buckets \<Longrightarrow> j \<noteq> i \<Longrightarrow> q \<in> set (buckets ! j) \<Longrightarrow> pool_page bp' q = pool_page bp q"
    "distinct (hi_pages hid (buckets[i := ps']))"
    "set (hi_pages hid (buckets[i := ps'])) \<inter> free_pages (pool_disk bp') = {}"
  shows "hi_state bp' hid (buckets[i := ps'])"
    "hi_entries (pool_page bp') (buckets[i := ps']) =
      {e. if bucket_of (length buckets) (fst e) = i then e \<in> set (chain_entries (pool_page bp') ps')
          else e \<in> hi_entries (pool_page bp) buckets}"
proof -
  have len: "length (hih_dir (page_at (pool_page bp) hid)) = length buckets" "1 \<le> hid"
    using assms(1) by (simp_all add: hi_state_def)
  have other: "bucket_ok (pool_page bp') (length buckets) j (hih_dir (page_at (pool_page bp) hid) ! j) (buckets ! j)"
    if "j < length buckets" "j \<noteq> i" for j
    by (rule bucket_ok_cong) (use assms(1,8) that in \<open>auto simp: hi_state_def\<close>)
  have "bucket_ok (pool_page bp') (length buckets) j (hih_dir (page_at (pool_page bp') hid) ! j) (buckets[i := ps'] ! j)"
    if "j < length buckets" for j
    using other[of j] that assms(6,7) len by (cases "j = i") (simp_all add: nth_list_update)
  then show "hi_state bp' hid (buckets[i := ps'])"
    using assms(3-6,9,10) len by (simp add: hi_state_def)
  have "chain_entries (pool_page bp') (buckets ! j) = chain_entries (pool_page bp) (buckets ! j)"
    if "j < length buckets" "j \<noteq> i" for j
    by (rule chain_entries_cong) (use assms(8) that in auto)
  then show "hi_entries (pool_page bp') (buckets[i := ps']) =
      {e. if bucket_of (length buckets) (fst e) = i then e \<in> set (chain_entries (pool_page bp') ps')
          else e \<in> hi_entries (pool_page bp) buckets}"
    using bucket_of_less[OF assms(1)] assms(2) by (auto simp: hi_entries_def nth_list_update)
qed

lemma hi_same:
  assumes "hi_state bp hid buckets" "pool_ok {} bp'" "\<forall>q \<in> set (hi_pages hid buckets). pool_page bp' q = pool_page bp q"
    "set (hi_pages hid buckets) \<inter> free_pages (pool_disk bp') = {}"
  shows "hi_state bp' hid buckets" "hi_entries (pool_page bp') buckets = hi_entries (pool_page bp) buckets"
proof -
  have k: "\<forall>q \<in> set (buckets ! j). pool_page bp' q = pool_page bp q" if "j < length buckets" for j
  proof
    fix q assume "q \<in> set (buckets ! j)"
    from in_concatI[OF that this] show "pool_page bp' q = pool_page bp q" 
      using assms(3) by (simp only: hi_pages_def list.set(2) ball_simps insert_iff ball_Un)
  qed
  have hd: "page_at (pool_page bp') hid = page_at (pool_page bp) hid" "pool_page bp' hid = pool_page bp hid"
    using assms(3) by (simp_all add: page_at_def hi_pages_def)
  show "hi_state bp' hid buckets"
    using assms(1,2,4) hd bucket_ok_cong k unfolding hi_state_def by metis
  have "chain_entries (pool_page bp') (buckets ! j) = chain_entries (pool_page bp) (buckets ! j)" if "j < length buckets" for j
    using chain_entries_cong k[OF that] by simp
  then show "hi_entries (pool_page bp') buckets = hi_entries (pool_page bp) buckets"
    using bucket_of_less[OF assms(1)] by (auto simp: hi_entries_def)
qed

lemma hi_used:
  assumes "hi_state bp hid buckets" "q \<in> set (hi_pages hid buckets)"
  shows "1 \<le> q \<and> \<not> unused q bp"
proof (cases "q = hid")
  case True
  then show ?thesis using hi_header[OF assms(1)] assms(1) by (simp add: hi_state_def unused_def)
next
  case False
  then have "q \<in> set (concat buckets)" using assms(2) by (simp add: hi_pages_def)
  then obtain i where "i < length buckets" "q \<in> set (buckets ! i)" by (rule in_concatE)
  then show ?thesis using hi_page[OF assms(1)] by (simp add: unused_def)
qed

interpretation hash_object: paged_object "\<lambda>bp bk. hi_state bp hid bk" "\<lambda>bk. hi_pages hid bk" hi_entries for hid
proof (unfold_locales, goal_cases)
  case (3 bp bk q)
  then show ?case by (rule hi_used)
next
  case (4 bp bk b)
  then show ?case using hi_same[of bp hid bk b] by blast
qed (simp_all add: hi_state_def)

lemma hi_read_only:
  assumes "hi_state bp hid buckets" "read_only bp bp'"
  shows "hi_state bp' hid buckets" "hi_entries (pool_page bp') buckets = hi_entries (pool_page bp) buckets"
    "outside_kept ps bp bp'" "page_at (pool_page bp') = page_at (pool_page bp)"
  using hi_same[OF assms(1), of bp'] assms outside_kept_same[of bp bp']
  by (auto simp: read_only_def same_pages_def hi_state_def fun_eq_iff page_at_def)

lemma hi_aside:
  assumes "hi_state bp hid buckets" "fresh_page n bp" "aside n bp bp'" "pins bp' = pins bp"
  shows "hi_state bp' hid buckets" "hi_entries (pool_page bp') buckets = hi_entries (pool_page bp) buckets"
    "outside_kept ps bp bp'" "n \<notin> set (hi_pages hid buckets)"
proof -
  have ok: "pool_ok {} bp" using assms(1) by (simp add: hi_state_def)
  have used: "pool_page bp q \<noteq> None \<and> q \<notin> free_pages (pool_disk bp)" if "q \<in> set (hi_pages hid buckets)" for q
    using hi_used[OF assms(1) that] by (simp add: unused_def)
  then show n: "n \<notin> set (hi_pages hid buckets)" using fresh_not_used[OF ok assms(2)] by blast
  show "outside_kept ps bp bp'" by (rule aside_outside[OF ok assms(2-4)])
  have "\<forall>q \<in> set (hi_pages hid buckets). pool_page bp' q = pool_page bp q" "pool_ok {} bp'"
    using assms(3) n by (auto simp: aside_def)
  moreover have "set (hi_pages hid buckets) \<inter> free_pages (pool_disk bp') = {}"
    using assms(1,3) n by (auto simp: aside_def hi_state_def)
  ultimately show "hi_state bp' hid buckets" "hi_entries (pool_page bp') buckets = hi_entries (pool_page bp) buckets"
    using hi_same[OF assms(1), of bp'] by blast+
qed

end
