(* ===== verification/Hash_Index_Insert.thy ===== *)
theory Hash_Index_Insert
  imports Hash_Index_Correct
begin

text \<open>
  Lookup of a bucket and insertion into the hash index: an insertion that succeeds adds the pair (and
  only if it was not there), one that fails leaves the index and all pages in use as they were,
  whatever step of creating and linking a new page it fails at.
\<close>

section \<open>The bucket of a key\<close>

lemma HI_GetBucketPageId_spec:
  assumes "hi_state bp hid buckets" "length key \<le> MAX_KEY_LENGTH" "HI_GetBucketPageId hid key bp = (b', res)"
  shows "read_only bp b' \<and> (case res of Inl st \<Rightarrow> \<not> healthy bp
    | Inr (i, p) \<Rightarrow> i = bucket_of (length buckets) key \<and> p = hih_dir (page_at (pool_page bp) hid) ! i)"
proof -
  note H = hi_header[OF assms(1)]
  obtain b x where ft: "FetchPage hid bp = (b, x)" by (cases "FetchPage hid bp")
  note L = look_at[OF H(1-3) ft]
  show ?thesis
  proof (cases x)
    case None
    then show ?thesis using assms(2,3) ft L by (auto simp: HI_GetBucketPageId_def)
  next
    case (Some f)
    then obtain b2 where u: "UnpinPage hid False b = (b2, True)" "read_only bp b2" using L by auto
    have hd: "header_ok (frame_of b f)" "page_data (frame_of b f) = page_data (page_at (pool_page bp) hid)"
      using header_page.frame_ok[OF H(1,2) ft[unfolded Some]] H(4) by simp_all
    then have wf: "hih_wf (frame_of b f)" by (simp add: header_ok_def)
    have dir: "hih_dir (frame_of b f) = hih_dir (page_at (pool_page bp) hid)" by (rule hih_dir_view[OF hd(2)])
    have len: "length (hih_dir (page_at (pool_page bp) hid)) = length buckets"
      using assms(1) by (simp add: hi_state_def)
    have "u16 (int (bucket_of (length buckets) key)) = bucket_of (length buckets) key"
      by (rule u16_id) (use bucket_of_less[OF assms(1), of key] hi_buckets[OF assms(1)] in simp)
    then show ?thesis
      using assms(2,3) ft Some u wf HIH_GetBucketPageId_wf[OF wf] hih_count(1)[OF wf] dir len
        bucket_of_less[OF assms(1), of key]
      by (auto simp: HI_GetBucketPageId_def Let_def bucket_of_def hih_wf_def)
  qed
qed

section \<open>One bucket page changes\<close>

lemma hi_write:
  assumes "hi_state bp hid buckets" "i < length buckets" "buckets ! i = pre @ q # suf"
    "wrote q d bp bp'" "bk_wf (view q d)" "bk_next (view q d) = bk_next (page_at (pool_page bp) q)"
    "distinct (chain_entries (pool_page bp) pre @ bk_entries (view q d) @ chain_entries (pool_page bp) suf)"
    "\<forall>e \<in> set (bk_entries (view q d)). bucket_of (length buckets) (fst e) = i"
  shows "hi_state bp' hid buckets"
    "hi_entries (pool_page bp') buckets = {e. if bucket_of (length buckets) (fst e) = i
      then e \<in> set (chain_entries (pool_page bp) pre @ bk_entries (view q d) @ chain_entries (pool_page bp) suf)
      else e \<in> hi_entries (pool_page bp) buckets}"
    "outside_kept (hi_pages hid buckets) bp bp'"
    "chain_entries (pool_page bp') (buckets ! i) =
      chain_entries (pool_page bp) pre @ bk_entries (view q d) @ chain_entries (pool_page bp) suf"
proof -
  have q: "q \<in> set (buckets ! i)" using assms(3) by simp
  have W: "pool_ok {} bp'" "pool_page bp' = (pool_page bp)(q \<mapsto> d)" "pins bp' = pins bp"
    "free_pages (pool_disk bp') = free_pages (pool_disk bp)"
    using assms(4) by (simp_all add: wrote_def)
  have dist: "distinct (concat buckets)" "hid \<notin> set (concat buckets)"
    using assms(1) by (simp_all add: hi_state_def hi_pages_def)
  have di: "distinct (buckets ! i)" using dist(1) assms(2) by (simp add: distinct_concat_iff)
  have nq: "q \<noteq> hid" using in_concatI[OF assms(2) q] dist(2) by auto
  have hd: "pool_page bp' hid = pool_page bp hid" using W(2) nq by simp
  then have at: "page_at (pool_page bp') hid = page_at (pool_page bp) hid" by (simp add: page_at_def)
  have ce: "chain_entries (pool_page bp') pre = chain_entries (pool_page bp) pre"
    "chain_entries (pool_page bp') suf = chain_entries (pool_page bp) suf"
    by (rule chain_entries_cong, use di W(2) assms(3) in force)+
  show E: "chain_entries (pool_page bp') (buckets ! i) =
      chain_entries (pool_page bp) pre @ bk_entries (view q d) @ chain_entries (pool_page bp) suf"
    using assms(3) ce W(2) by (simp add: page_at_def)
  note C = hi_chain[OF assms(1,2)]
  have "linked bk_wf bk_next (pool_page bp') (hih_dir (page_at (pool_page bp) hid) ! i) (buckets ! i)"
    unfolding W(2) by (rule linked_update[OF C(1) assms(5)]) (use assms(6) in simp)
  then have ok: "bucket_ok (pool_page bp') (length buckets) i (hih_dir (page_at (pool_page bp) hid) ! i) (buckets ! i)"
    using E assms(3,7,8) C(3) by (auto simp: bucket_ok_def)
  have other: "pool_page bp' r = pool_page bp r"
    if "j < length buckets" "j \<noteq> i" "r \<in> set (buckets ! j)" for r j
    using other_chain[OF dist(1) assms(2) that(1)] that q W(2) by auto
  have U: "hi_state bp' hid (buckets[i := buckets ! i])"
    "hi_entries (pool_page bp') (buckets[i := buckets ! i]) =
      {e. if bucket_of (length buckets) (fst e) = i then e \<in> set (chain_entries (pool_page bp') (buckets ! i))
          else e \<in> hi_entries (pool_page bp) buckets}"
    by (rule hi_update[OF assms(1,2) W(1) _ _ _ ok other];
        use assms(1) hd at W(4) in \<open>simp add: hi_state_def\<close>)+
  show "hi_state bp' hid buckets" using U(1) by simp
  show "hi_entries (pool_page bp') buckets = {e. if bucket_of (length buckets) (fst e) = i
      then e \<in> set (chain_entries (pool_page bp) pre @ bk_entries (view q d) @ chain_entries (pool_page bp) suf)
      else e \<in> hi_entries (pool_page bp) buckets}"
    using U(2) unfolding E by simp
  show "outside_kept (hi_pages hid buckets) bp bp'"
    by (rule wrote_outside[OF assms(4)]) (use in_concatI[OF assms(2) q] in \<open>simp add: hi_pages_def\<close>)
qed

section \<open>A new page with one entry\<close>

lemma FirstEntry_wf:
  assumes "page_pid pg \<noteq> INVALID_PAGE_ID" "index_entry key rid"
  shows "\<exists>pg'. FirstEntry key rid pg = (pg', Status_OK) \<and> bk_wf pg' \<and> bk_entries pg' = [(key, rid)] \<and>
    bk_next pg' = INVALID_PAGE_ID \<and> page_pid pg' = page_pid pg \<and> pin_count pg' = pin_count pg \<and> is_dirty pg'"
proof -
  obtain pg1 where pg1: "BK_Init pg = Inr pg1" "bk_wf pg1" "bk_entries pg1 = []" "bk_next pg1 = INVALID_PAGE_ID"
    "page_pid pg1 = page_pid pg" "pin_count pg1 = pin_count pg"
    using BK_Init_wf[OF assms(1)] by blast
  have "bk_count pg1 = 0" using arg_cong[OF pg1(3), of length] by simp
  then show ?thesis using BK_Insert_wf[OF pg1(2), of key rid] assms(2) pg1
    by (auto simp: FirstEntry_def index_entry_def same_bucket_def)
qed

lemma MakeBucket_spec:
  assumes "pool_ok {} bp" "index_entry key rid" "MakeBucket m1 m2 key rid bp = (b', res)"
  shows "pins b' = pins bp \<and> keeps_health bp b' \<and> (case res of
      Inl st \<Rightarrow> pool_ok {} b' \<and> same_pages bp b' \<and> \<not> healthy bp
    | Inr n \<Rightarrow> fresh_page n bp \<and> aside n bp b' \<and> n \<notin> free_pages (pool_disk b') \<and> (\<exists>d. pool_page b' n = Some d \<and>
        bk_wf (view n d) \<and> bk_entries (view n d) = [(key, rid)] \<and> bk_next (view n d) = INVALID_PAGE_ID))"
proof -
  obtain b x where nw: "NewPage bp = (b, x)" by (cases "NewPage bp")
  show ?thesis
  proof (cases x)
    case None
    have "\<not> healthy bp" using NewPage_healthy[of bp] nw None by auto
    then show ?thesis using assms(3) nw None NewPage_spec[OF assms(1) nw] NewPage_health[OF nw]
      by (auto simp: MakeBucket_def)
  next
    case (Some nf)
    then obtain n f where x: "x = Some (n, f)" by (cases nf) auto
    note N = NewPage_fresh[OF assms(1) nw[unfolded x]]
    have np: "page_pid (frame_of b f) \<noteq> INVALID_PAGE_ID" using N(6,9) by (simp add: layout_simps)
    from FirstEntry_wf[OF np assms(2)] obtain pg where pg: "FirstEntry key rid (frame_of b f) = (pg, Status_OK)"
      "bk_wf pg" "bk_entries pg = [(key, rid)]" "bk_next pg = INVALID_PAGE_ID" "page_pid pg = n"
      "pin_count pg = pin_count (frame_of b f)" "is_dirty pg" using N(9) by auto
    obtain b2 ok where u: "UnpinPage n True (set_frame f pg b) = (b2, ok)"
      by (cases "UnpinPage n True (set_frame f pg b)")
    have pin: "0 < pins b n" "pool_ok {} b" using N(2,3) by (simp_all add: aside_def)
    have M: "ok" "pool_ok {} b2" "pins b2 = (pins b)(n := pins b n - 1)"
      "pool_page b2 = (pool_page b)(n \<mapsto> page_data pg)" "free_pages (pool_disk b2) = free_pages (pool_disk b)"
      using modify_pinned[OF pin(2) N(5) pin(1) pg(5,6) bucket_page.ok_size[OF pg(2)] u] by simp_all
    have "aside n bp b2" using N(2) M by (auto simp: aside_def)
    moreover have "pins b2 = pins bp" using M(3) N(3,4) by (simp add: fun_eq_iff)
    moreover have "bk_wf (view n (page_data pg)) \<and> bk_next (view n (page_data pg)) = INVALID_PAGE_ID"
      using bucket_page.view_ok[OF pg(5)] pg(2,4) by simp
    moreover have "bk_entries (view n (page_data pg)) = [(key, rid)]"
      using bk_entries_view[of "view n (page_data pg)" pg] pg(3) by simp
    moreover have "keeps_health bp b2"
      using step_health(1)[OF _ u, of bp] NewPage_health[OF nw] by simp
    moreover have "(b', res) = (b2, Inr n)" using assms(3) nw x pg(1) u M(1) by (simp add: MakeBucket_def)
    ultimately show ?thesis using N(1,7) M(4,5) by simp
  qed
qed

section \<open>What an insertion promises\<close>

definition hi_inserted ::
  "page_id \<Rightarrow> page_id list list \<Rightarrow> byte list \<Rightarrow> record_id \<Rightarrow> pool \<Rightarrow> pool \<times> status \<Rightarrow> bool" where
  "hi_inserted hid buckets key rid bp out = (case out of (b', st) \<Rightarrow>
     outside_kept (hi_pages hid buckets) bp b' \<and> keeps_health bp b' \<and>
     (if status_ok st
      then \<exists>buckets'. hi_state b' hid buckets' \<and>
        hi_entries (pool_page b') buckets' = insert (key, rid) (hi_entries (pool_page bp) buckets) \<and>
        grows (hi_pages hid buckets) (hi_pages hid buckets') bp
      else hi_state b' hid buckets \<and> hi_entries (pool_page b') buckets = hi_entries (pool_page bp) buckets \<and>
        \<not> healthy bp))"

lemma hi_inserted_same:
  assumes "hi_state bp hid buckets" "read_only bp b"
    "status_ok st \<Longrightarrow> (key, rid) \<in> hi_entries (pool_page bp) buckets" "\<not> status_ok st \<Longrightarrow> \<not> healthy bp"
  shows "hi_inserted hid buckets key rid bp (b, st)"
  using hi_read_only[OF assms(1,2)] assms(2-4)
  by (auto simp: hi_inserted_def read_only_def insert_absorb intro!: exI[of _ buckets])

lemma hi_inserted_step:
  assumes "read_only bp b" "hi_inserted hid buckets key rid b out"
  shows "hi_inserted hid buckets key rid bp out"
proof -
  have "outside_kept (hi_pages hid buckets) b = outside_kept (hi_pages hid buckets) bp" "pool_page b = pool_page bp"
    "\<And>ps qs. grows ps qs b = grows ps qs bp"
    using assms(1) by (simp_all add: read_only_def outside_kept_def grows_def unused_def same_pages_def fun_eq_iff)
  moreover have "keeps_health b x \<Longrightarrow> keeps_health bp x" for x
    using assms(1) keeps_health_trans[of bp b x] by (simp add: read_only_def)
  ultimately show ?thesis
    using assms(2) read_only_healthy[OF assms(1)] by (auto simp: hi_inserted_def split: prod.splits if_splits)
qed

lemma hi_inserted_aside:
  assumes "hi_state bp hid buckets" "fresh_page n bp" "aside n bp b" "pins b = pins bp" "keeps_health bp b"
    "\<not> status_ok st" "\<not> healthy bp"
  shows "hi_inserted hid buckets key rid bp (b, st)"
  using hi_aside[OF assms(1-4)] assms(5-7) by (simp add: hi_inserted_def)

section \<open>Entering the new page\<close>

text \<open>A page set aside that holds the one pair, as \<open>MakeBucket\<close> leaves it.\<close>

definition new_bucket :: "page_id \<Rightarrow> byte list \<Rightarrow> record_id \<Rightarrow> pool \<Rightarrow> pool \<Rightarrow> byte list \<Rightarrow> bool" where
  "new_bucket n key rid bp b d \<longleftrightarrow> fresh_page n bp \<and> aside n bp b \<and> pins b = pins bp \<and> keeps_health bp b \<and>
     n \<notin> free_pages (pool_disk b) \<and> pool_page b n = Some d \<and> bk_wf (view n d) \<and>
     bk_entries (view n d) = [(key, rid)] \<and> bk_next (view n d) = INVALID_PAGE_ID"

lemma hi_extend:
  assumes "hi_state bp hid buckets" "i < length buckets" "new_bucket n key rid bp b d" "wrote t dt b b'"
    "t \<in> set (hi_pages hid buckets)" "keeps_health b b'"
    "\<And>j q. j < length buckets \<Longrightarrow> j \<noteq> i \<Longrightarrow> q \<in> set (buckets ! j) \<Longrightarrow> q \<noteq> t"
    "linked bk_wf bk_next (pool_page b') p' (buckets ! i @ [n])"
    "chain_entries (pool_page b') (buckets ! i @ [n]) = chain_entries (pool_page bp) (buckets ! i) @ [(key, rid)]"
    "pool_page b' hid \<noteq> None" "header_ok (page_at (pool_page b') hid)"
    "hih_dir (page_at (pool_page b') hid) = (hih_dir (page_at (pool_page bp) hid))[i := p']"
    "(key, rid) \<notin> set (chain_entries (pool_page bp) (buckets ! i))" "bucket_of (length buckets) key = i"
  shows "hi_inserted hid buckets key rid bp (b', Status_OK)"
proof -
  have N: "fresh_page n bp" "aside n bp b" "pins b = pins bp" "n \<notin> free_pages (pool_disk b)" "keeps_health bp b"
    using assms(3) by (simp_all add: new_bucket_def)
  note A = hi_aside[OF assms(1) N(1-3)]
  have W: "pool_ok {} b'" "pins b' = pins bp" "pool_page b' = (pool_page b)(t \<mapsto> dt)"
    "free_pages (pool_disk b') = free_pages (pool_disk b)"
    using assms(4) N(3) by (simp_all add: wrote_def)
  have tn: "t \<noteq> n" using A(4) assms(5) by auto
  let ?bs = "buckets[i := buckets ! i @ [n]]"
  have "distinct (hi_pages hid buckets)" using assms(1) by (simp add: hi_state_def)
  then have dist: "distinct (hi_pages hid ?bs)" and st: "set (hi_pages hid ?bs) = insert n (set (hi_pages hid buckets))"
    using A(4) concat_split[OF assms(2)] concat_update[OF assms(2), of "buckets ! i @ [n]"]
    by (auto simp: hi_pages_def)
  have "distinct (chain_entries (pool_page b') (buckets ! i @ [n]))"
    using hi_chain(2)[OF assms(1,2)] assms(13) unfolding assms(9) by simp
  moreover have "\<forall>e \<in> set (chain_entries (pool_page b') (buckets ! i @ [n])). bucket_of (length buckets) (fst e) = i"
    using hi_chain(3)[OF assms(1,2)] assms(14) unfolding assms(9) by auto
  ultimately have ok: "bucket_ok (pool_page b') (length buckets) i p' (buckets ! i @ [n])"
    using assms(8) by (simp add: bucket_ok_def)
  have other: "pool_page b' q = pool_page bp q"
    if "j < length buckets" "j \<noteq> i" "q \<in> set (buckets ! j)" for q j
    using assms(7)[OF that] in_concatI[OF that(1,3)] A(4) W(3) N(2) by (auto simp: aside_def hi_pages_def)
  have free: "set (hi_pages hid ?bs) \<inter> free_pages (pool_disk b') = {}"
    using assms(1) N(2,4) W(4) st by (auto simp: hi_state_def aside_def)
  have U1: "hi_state b' hid ?bs"
    by (rule hi_update(1)[OF assms(1,2) W(1) assms(10-12) ok _ dist free]) (rule other)
  have U2: "hi_entries (pool_page b') ?bs = {e. if bucket_of (length buckets) (fst e) = i
      then e \<in> set (chain_entries (pool_page b') (buckets ! i @ [n])) else e \<in> hi_entries (pool_page bp) buckets}"
    by (rule hi_update(2)[OF assms(1,2) W(1) assms(10-12) ok _ dist free]) (rule other)
  have "hi_entries (pool_page b') ?bs = insert (key, rid) (hi_entries (pool_page bp) buckets)"
    unfolding U2 assms(9) using assms(14) by (auto simp: hi_entries_def)
  moreover have "outside_kept (hi_pages hid buckets) bp b'"
    using outside_kept_trans[OF A(3) wrote_outside[OF assms(4,5)]] .
  moreover have "keeps_health bp b'" using keeps_health_trans[OF N(5) assms(6)] .
  moreover have "pool_ok {} bp" using assms(1) by (simp add: hi_state_def)
  then have "grows (hi_pages hid buckets) (hi_pages hid ?bs) bp"
    using st fresh_unused[OF _ N(1)] by (auto simp: grows_def)
  ultimately show ?thesis using U1 by (auto simp: hi_inserted_def)
qed

lemma link_primary:
  assumes "hi_state bp hid buckets" "i < length buckets" "new_bucket n key rid bp b d" "buckets ! i = []"
    "is_i32 n" "bucket_of (length buckets) key = i" "FetchPage hid b = (b1, Some f)"
    "UnpinPage hid (status_ok (result_status (LinkPrimary i n (frame_of b1 f))))
       (put_page f (LinkPrimary i n (frame_of b1 f)) b1) = (b2, ok)"
  shows "(\<exists>pg. LinkPrimary i n (frame_of b1 f) = Inr pg) \<and> ok \<and> hi_inserted hid buckets key rid bp (b2, Status_OK)"
proof -
  have N: "fresh_page n bp" "aside n bp b" "pins b = pins bp" "1 \<le> n"
    using assms(3) by (simp_all add: new_bucket_def fresh_page_def)
  note A = hi_aside[OF assms(1) N(1-3)]
  note H = hi_header[OF A(1)]
  note F = header_page.frame_ok[OF H(1,2) assms(7)]
  have hn: "hid \<noteq> n" using A(4) by (auto simp: hi_pages_def)
  then have at: "page_at (pool_page b) hid = page_at (pool_page bp) hid" using N(2) by (simp add: page_at_def aside_def)
  have hf: "hih_wf (frame_of b1 f)" "HIH_GetMaxKeyLength (frame_of b1 f) = MAX_KEY_LENGTH"
    using conjunct1[OF F] H(4) by (simp_all add: header_ok_def)
  have dir: "hih_dir (frame_of b1 f) = hih_dir (page_at (pool_page bp) hid)"
    using hih_dir_view[of "frame_of b1 f" "page_at (pool_page b) hid"] F at by simp
  have len: "length (hih_dir (frame_of b1 f)) = length buckets" using assms(1) dir by (simp add: hi_state_def)
  have inv: "hih_dir (frame_of b1 f) ! i = INVALID_PAGE_ID"
    using hi_chain(1)[OF assms(1,2)] assms(4) dir by simp
  have "i < length (hih_dir (frame_of b1 f))" using len assms(2) by simp
  from HIH_SetBucketPageId_wf[OF hf(1) this N(4) assms(5)] obtain pg where
    pg: "HIH_SetBucketPageId i n (frame_of b1 f) = Inr pg" "hih_wf pg" "hih_dir pg = (hih_dir (frame_of b1 f))[i := n]"
      "HIH_GetMaxKeyLength pg = HIH_GetMaxKeyLength (frame_of b1 f)" "page_pid pg = page_pid (frame_of b1 f)"
      "pin_count pg = pin_count (frame_of b1 f)" by blast
  have L: "LinkPrimary i n (frame_of b1 f) = Inr pg"
    using HIH_GetBucketPageId_wf[OF hf(1), of i] len assms(2) inv pg(1) by (simp add: LinkPrimary_def)
  have u: "UnpinPage hid True (set_frame f pg b1) = (b2, ok)" using assms(8) L by (simp add: put_page_def)
  have ho: "header_ok pg" "page_pid pg = hid" using pg(2,4,5) hf F by (simp_all add: header_ok_def)
  note C = header_page.change_page[OF H(1,2) assms(7) ho pg(6) u]
  have p2: "pool_page b2 = (pool_page b)(hid \<mapsto> page_data pg)" using C by (simp add: wrote_def)
  have n2: "pool_page b2 n = Some d" "bk_wf (view n d)" "bk_next (view n d) = INVALID_PAGE_ID"
    "bk_entries (view n d) = [(key, rid)]"
    using assms(3) p2 hn by (auto simp: new_bucket_def)
  have "hih_dir (page_at (pool_page b2) hid) = hih_dir pg"
    by (rule hih_dir_view) (simp add: p2 page_at_def)
  then have dir2: "hih_dir (page_at (pool_page b2) hid) = (hih_dir (page_at (pool_page bp) hid))[i := n]"
    using pg(3) dir by simp
  have W: "wrote hid (page_data pg) b b2" using C by simp
  have kh: "keeps_health b b2" by (rule fetch_unpin_health[OF assms(7) u]) simp
  have "hi_inserted hid buckets key rid bp (b2, Status_OK)"
    by (rule hi_extend[OF assms(1-3) W _ kh _ _ _ _ _ dir2 _ assms(6)])
       (use assms(4) C p2 n2 N(4) in_concatI hi_page(6)[OF assms(1)] in \<open>auto simp: hi_pages_def page_at_def\<close>)
  then show ?thesis using L C by simp
qed

lemma chain_last:
  assumes "linked bk_wf bk_next c p (pre @ [l])"
  shows "bk_next (page_at c l) = INVALID_PAGE_ID"
  using linked_split[OF assms] by simp

lemma link_overflow:
  assumes "hi_state bp hid buckets" "i < length buckets" "new_bucket n key rid bp b d" "buckets ! i = pre @ [l]"
    "is_i32 n" "bucket_of (length buckets) key = i" "(key, rid) \<notin> set (chain_entries (pool_page bp) (buckets ! i))"
    "FetchPage l b = (b1, Some f)"
    "UnpinPage l (status_ok (result_status (LinkOverflow n (frame_of b1 f))))
       (put_page f (LinkOverflow n (frame_of b1 f)) b1) = (b2, ok)"
  shows "(\<exists>pg. LinkOverflow n (frame_of b1 f) = Inr pg) \<and> ok \<and> hi_inserted hid buckets key rid bp (b2, Status_OK)"
proof -
  have N: "fresh_page n bp" "aside n bp b" "pins b = pins bp" "1 \<le> n"
    using assms(3) by (simp_all add: new_bucket_def fresh_page_def)
  note A = hi_aside[OF assms(1) N(1-3)]
  have l: "l \<in> set (buckets ! i)" using assms(4) by simp
  have l': "l \<in> set (hi_pages hid buckets)" using in_concatI[OF assms(2) l] by (simp add: hi_pages_def)
  note H = hi_page[OF A(1) assms(2) l]
  note F = bucket_page.frame_ok[OF H(1,3) assms(8)]
  have ln: "l \<noteq> n" using A(4) l' by auto
  have ni: "n \<notin> set (buckets ! i)" using A(4) in_concatI[OF assms(2)] by (auto simp: hi_pages_def)
  have at: "page_at (pool_page b) l = page_at (pool_page bp) l" using N(2) ln by (simp add: page_at_def aside_def)
  have wf: "bk_wf (frame_of b1 f)" using conjunct1[OF F] H(5) by simp
  have ce: "chain_entries (pool_page b) (buckets ! i) = chain_entries (pool_page bp) (buckets ! i)"
    by (rule chain_entries_cong) (use ni N(2) in \<open>auto simp: aside_def\<close>)
  have ch: "linked bk_wf bk_next (pool_page b) (hih_dir (page_at (pool_page b) hid) ! i) (pre @ [l])"
    using hi_chain(1)[OF A(1) assms(2)] assms(4) by simp
  have nxt: "bk_next (frame_of b1 f) = INVALID_PAGE_ID" using F chain_last[OF ch] by simp
  from BK_SetOverflowPageId_wf[OF wf N(4) assms(5)] obtain pg where
    pg: "BK_SetOverflowPageId n (frame_of b1 f) = Inr pg" "bk_wf pg" "bk_entries pg = bk_entries (frame_of b1 f)"
      "bk_next pg = n" "page_pid pg = page_pid (frame_of b1 f)" "pin_count pg = pin_count (frame_of b1 f)" by blast
  have L: "LinkOverflow n (frame_of b1 f) = Inr pg"
    using pg(1) bk_wfD(2,5)[OF wf] nxt by (simp add: LinkOverflow_def)
  have u: "UnpinPage l True (set_frame f pg b1) = (b2, ok)" using assms(9) L by (simp add: put_page_def)
  have pl: "page_pid pg = l" using pg(5) F by simp
  note C = bucket_page.change_page[OF H(1,3) assms(8) pg(2) pl pg(6) u]
  have W: "wrote l (page_data pg) b b2" using C by simp
  then have p2: "pool_page b2 = (pool_page b)(l \<mapsto> page_data pg)" by (simp add: wrote_def)
  have n2: "pool_page b n = Some d" "bk_wf (view n d)" "bk_next (view n d) = INVALID_PAGE_ID"
    "bk_entries (view n d) = [(key, rid)]"
    using assms(3) by (auto simp: new_bucket_def)
  have upd: "(pool_page b)(n \<mapsto> d, l \<mapsto> page_data pg) = pool_page b2" using n2(1) p2 by (simp add: fun_upd_idem)
  have vl: "bk_wf (view l (page_data pg))" "bk_next (view l (page_data pg)) = n"
    using bucket_page.view_ok[OF pl] pg(2,4) by simp_all
  have dist: "distinct (buckets ! i)"
    using assms(1,2) by (simp add: hi_state_def hi_pages_def distinct_concat_iff)
  have "linked bk_wf bk_next (pool_page b2) (hih_dir (page_at (pool_page b) hid) ! i) (pre @ [l, n])"
    using linked_append[OF ch _ _ N(4) n2(2,3) vl] ni dist assms(4) upd by simp
  then have ch2: "linked bk_wf bk_next (pool_page b2) (hih_dir (page_at (pool_page b) hid) ! i) (buckets ! i @ [n])"
    using assms(4) by simp
  have be: "bk_entries (page_at (pool_page b2) l) = bk_entries (page_at (pool_page b) l)"
    using bk_entries_view[of "page_at (pool_page b2) l" pg] pg(3) p2 F
      bk_entries_view[of "frame_of b1 f" "page_at (pool_page b) l"] by (simp add: page_at_def)
  have "chain_entries (pool_page b2) (buckets ! i) = chain_entries (pool_page b) (buckets ! i)"
    unfolding chain_entries_def
    by (rule arg_cong[where f=concat], rule map_cong[OF refl]) (use be p2 in \<open>auto simp: page_at_def\<close>)
  moreover have "bk_entries (page_at (pool_page b2) n) = [(key, rid)]" using n2 ln p2 by (simp add: page_at_def)
  ultimately have ce2: "chain_entries (pool_page b2) (buckets ! i @ [n]) =
      chain_entries (pool_page bp) (buckets ! i) @ [(key, rid)]" using ce by simp
  have hl: "hid \<noteq> l" using H(6) by simp
  have hn: "hid \<noteq> n" using A(4) by (auto simp: hi_pages_def)
  have hd: "pool_page b2 hid = pool_page b hid" "pool_page b hid = pool_page bp hid"
    using p2 hl hn N(2) by (simp_all add: aside_def)
  then have hat: "page_at (pool_page b2) hid = page_at (pool_page bp) hid"
    "page_at (pool_page b) hid = page_at (pool_page bp) hid" by (simp_all add: page_at_def)
  have dir: "hih_dir (page_at (pool_page b2) hid) =
      (hih_dir (page_at (pool_page bp) hid))[i := hih_dir (page_at (pool_page b) hid) ! i]"
    using hat by simp
  have other: "q \<noteq> l" if "j < length buckets" "j \<noteq> i" "q \<in> set (buckets ! j)" for j q
    using other_chain[of buckets i j] that assms(1,2) l by (auto simp: hi_state_def hi_pages_def)
  have kh: "keeps_health b b2" by (rule fetch_unpin_health[OF assms(8) u]) simp
  have "hi_inserted hid buckets key rid bp (b2, Status_OK)"
    by (rule hi_extend[OF assms(1-3) W l' kh _ ch2 ce2 _ _ dir assms(7,6)])
       (use other hd hat hi_header[OF assms(1)] in auto)
  then show ?thesis using L C by simp
qed

section \<open>Creating and linking together\<close>

lemma hi_pages_page:
  assumes "hi_state bp hid buckets" "t \<in> set (hi_pages hid buckets)"
  shows "pool_ok {} bp" "t \<notin> free_pages (pool_disk bp)" "pool_page bp t \<noteq> None"
proof -
  have "pool_ok {} bp \<and> t \<notin> free_pages (pool_disk bp) \<and> pool_page bp t \<noteq> None"
  proof (cases "t = hid")
    case False
    then have "t \<in> set (concat buckets)" using assms(2) by (simp add: hi_pages_def)
    then obtain j where "j < length buckets" "t \<in> set (buckets ! j)" by (rule in_concatE)
    then show ?thesis using hi_page[OF assms(1)] by blast
  qed (use hi_header[OF assms(1)] in simp)
  then show "pool_ok {} bp" "t \<notin> free_pages (pool_disk bp)" "pool_page bp t \<noteq> None" by simp_all
qed

lemma refetch_failed:
  assumes "hi_state bp hid buckets" "new_bucket n key rid bp b d" "t \<in> set (hi_pages hid buckets)"
    "FetchPage t b = (b1, None)"
  shows "hi_inserted hid buckets key rid bp (fst (DeletePage n b1), IOError m)"
proof -
  have N: "fresh_page n bp" "aside n bp b" "pins b = pins bp" "keeps_health bp b"
    using assms(2) by (simp_all add: new_bucket_def)
  note A = hi_aside[OF assms(1) N(1-3)]
  note T = hi_pages_page[OF A(1) assms(3)]
  have R: "read_only b b1" "\<not> healthy b" using look_at[OF T assms(4)] by simp_all
  then have a: "aside n bp b1" "pins b1 = pins bp"
    using aside_same[OF N(2), of b1] N(3) by (simp_all add: read_only_def)
  have nh: "\<not> healthy bp" using healthy_kept[OF _ N(4) T(1) N(3)] R(2) by blast
  have "keeps_health bp (fst (DeletePage n b1))"
    using fst_DeletePage_health[OF keeps_health_trans[OF N(4)]] R(1) by (simp add: read_only_def)
  then show ?thesis using aside_delete[OF a] hi_inserted_aside[OF assms(1) N(1)] nh by simp
qed

lemma MakeBucket_new:
  assumes "hi_state bp hid buckets" "index_entry key rid" "num_pages (pool_disk bp) < 2147483648"
    "MakeBucket m1 m2 key rid bp = (b, res)"
  shows "case res of Inl st \<Rightarrow> hi_inserted hid buckets key rid bp (b, st)
    | Inr n \<Rightarrow> is_i32 n \<and> (\<exists>d. new_bucket n key rid bp b d)"
proof -
  have ok: "pool_ok {} bp" using assms(1) by (simp add: hi_state_def)
  note M = MakeBucket_spec[OF ok assms(2,4)]
  show ?thesis
  proof (cases res)
    case (Inl st)
    have "\<not> status_ok st" using assms(4) Inl
      by (auto simp: MakeBucket_def split: prod.splits option.splits if_splits bool.splits)
    then show ?thesis using Inl M hi_inserted_same[OF assms(1), of b st key rid] by (simp add: read_only_def)
  next
    case (Inr n)
    then show ?thesis using M fresh_page_i32[OF ok _ assms(3)] by (auto simp: new_bucket_def)
  qed
qed

lemma CreatePrimaryBucket_spec:
  assumes "hi_state bp hid buckets" "buckets ! i = []" "i = bucket_of (length buckets) key"
    "index_entry key rid" "num_pages (pool_disk bp) < 2147483648"
  shows "hi_inserted hid buckets key rid bp (CreatePrimaryBucket hid i key rid bp)"
proof -
  have i: "i < length buckets" using bucket_of_less[OF assms(1)] assms(3) by simp
  obtain b res where mk: "MakeBucket ''Could not allocate primary hash bucket''
      ''Could not unpin new primary hash bucket'' key rid bp = (b, res)" by force
  note M = MakeBucket_new[OF assms(1,4,5) mk]
  show ?thesis
  proof (cases res)
    case (Inl st)
    then show ?thesis using M mk by (simp add: CreatePrimaryBucket_def)
  next
    case (Inr n)
    then obtain d where n: "is_i32 n" "new_bucket n key rid bp b d" using M by auto
    obtain b1 x where ft: "FetchPage hid b = (b1, x)" by (cases "FetchPage hid b")
    show ?thesis
    proof (cases x)
      case None
      have "hid \<in> set (hi_pages hid buckets)" by (simp add: hi_pages_def)
      then show ?thesis using refetch_failed[OF assms(1) n(2) _ ft[unfolded None]] mk Inr ft None
        by (simp add: CreatePrimaryBucket_def)
    next
      case (Some f)
      let ?res = "LinkPrimary i n (frame_of b1 f)"
      obtain b2 ok where u: "UnpinPage hid (status_ok (result_status ?res)) (put_page f ?res b1) = (b2, ok)"
        by force
      show ?thesis
        using link_primary[OF assms(1) i n(2) assms(2) n(1) assms(3)[symmetric] ft[unfolded Some] u] mk Inr ft Some u
        by (auto simp: CreatePrimaryBucket_def)
    qed
  qed
qed

lemma AppendOverflowBucket_spec:
  assumes "hi_state bp hid buckets" "buckets ! i = pre @ [l]" "i = bucket_of (length buckets) key"
    "index_entry key rid" "num_pages (pool_disk bp) < 2147483648"
    "(key, rid) \<notin> set (chain_entries (pool_page bp) (buckets ! i))"
  shows "hi_inserted hid buckets key rid bp (AppendOverflowBucket l key rid bp)"
proof -
  have i: "i < length buckets" using bucket_of_less[OF assms(1)] assms(3) by simp
  obtain b res where mk: "MakeBucket ''Could not allocate overflow hash bucket''
      ''Could not unpin new overflow hash bucket'' key rid bp = (b, res)" by force
  note M = MakeBucket_new[OF assms(1,4,5) mk]
  show ?thesis
  proof (cases res)
    case (Inl st)
    then show ?thesis using M mk by (simp add: AppendOverflowBucket_def)
  next
    case (Inr n)
    then obtain d where n: "is_i32 n" "new_bucket n key rid bp b d" using M by auto
    obtain b1 x where ft: "FetchPage l b = (b1, x)" by (cases "FetchPage l b")
    show ?thesis
    proof (cases x)
      case None
      have "l \<in> set (hi_pages hid buckets)" using in_concatI[OF i, of l] assms(2) by (simp add: hi_pages_def)
      then show ?thesis using refetch_failed[OF assms(1) n(2) _ ft[unfolded None]] mk Inr ft None
        by (simp add: AppendOverflowBucket_def)
    next
      case (Some f)
      let ?res = "LinkOverflow n (frame_of b1 f)"
      obtain b2 ok where u: "UnpinPage l (status_ok (result_status ?res)) (put_page f ?res b1) = (b2, ok)"
        by force
      show ?thesis
        using link_overflow[OF assms(1) i n(2) assms(2) n(1) assms(3)[symmetric] assms(6) ft[unfolded Some] u]
          mk Inr ft Some u
        by (auto simp: AppendOverflowBucket_def)
    qed
  qed
qed

section \<open>Insertion\<close>

lemma hi_full: "hi_state bp hid buckets \<Longrightarrow> i < length buckets \<Longrightarrow> bucket_of (length buckets) (fst e) = i \<Longrightarrow>
  e \<in> hi_entries (pool_page bp) buckets \<longleftrightarrow> e \<in> set (chain_entries (pool_page bp) (buckets ! i))"
  by (simp add: hi_entries_def)

lemma insert_in_bucket:
  assumes "hi_state bp hid buckets" "q \<in> set (buckets ! i)" "i = bucket_of (length buckets) key"
    "index_entry key rid" "(key, rid) \<notin> set (chain_entries (pool_page bp) (buckets ! i))"
    "bk_count (page_at (pool_page bp) q) < 53" "q \<noteq> INVALID_PAGE_ID"
  shows "hi_inserted hid buckets key rid bp (PlaceEntry q l key rid bp)"
proof -
  have i: "i < length buckets" using bucket_of_less[OF assms(1)] assms(3) by simp
  note H = hi_page[OF assms(1) i assms(2)]
  obtain b x where ft: "FetchPage q bp = (b, x)" by (cases "FetchPage q bp")
  show ?thesis
  proof (cases x)
    case None
    then show ?thesis using look_at[OF H(1,3,4) ft] ft assms(7)
        hi_inserted_same[OF assms(1), of b "IOError ''Could not refetch hash bucket with free space''" key rid]
      by (simp add: PlaceEntry_def)
  next
    case (Some f)
    note F = bucket_page.frame_ok[OF H(1,3) ft[unfolded Some]]
    have wf: "bk_wf (frame_of b f)" using conjunct1[OF F] H(5) by simp
    have es: "bk_entries (frame_of b f) = bk_entries (page_at (pool_page bp) q)"
      by (rule bk_entries_view) (use F in simp)
    obtain pre suf where sp: "buckets ! i = pre @ q # suf" using split_list[OF assms(2)] by blast
    have nin: "(key, rid) \<notin> set (bk_entries (frame_of b f))" using assms(5) sp es by simp
    have "bk_count (frame_of b f) < 53" using assms(6) arg_cong[OF es, of length] by simp
    then obtain pg where pg: "BK_Insert key rid (frame_of b f) = Inr (pg, True)" "bk_wf pg"
      "same_bucket (frame_of b f) pg" "bk_entries pg = bk_entries (frame_of b f) @ [(key, rid)]"
      using BK_Insert_wf[OF wf, of key rid] nin assms(4) by (auto simp: index_entry_def)
    obtain b2 ok where u: "UnpinPage q True (set_frame f pg b) = (b2, ok)"
      by (cases "UnpinPage q True (set_frame f pg b)")
    have P: "page_pid pg = q" "pin_count pg = pin_count (frame_of b f)" "bk_next pg = bk_next (frame_of b f)"
      using pg(3) F by (simp_all add: same_bucket_def)
    note C = bucket_page.change_page[OF H(1,3) ft[unfolded Some] pg(2) P(1,2) u]
    let ?d = "page_data pg"
    have V: "bk_wf (view q ?d)" "bk_next (view q ?d) = bk_next (page_at (pool_page bp) q)"
      using bucket_page.view_ok[OF P(1)] pg(2) P(3) F by simp_all
    have ev: "bk_entries (view q ?d) = bk_entries (page_at (pool_page bp) q) @ [(key, rid)]"
      using bk_entries_view[of "view q ?d" pg] pg(4) es by simp
    have old: "chain_entries (pool_page bp) (buckets ! i) = chain_entries (pool_page bp) pre @
        bk_entries (page_at (pool_page bp) q) @ chain_entries (pool_page bp) suf" using sp by simp
    have "distinct (chain_entries (pool_page bp) pre @ bk_entries (view q ?d) @ chain_entries (pool_page bp) suf)"
      "\<forall>e \<in> set (bk_entries (view q ?d)). bucket_of (length buckets) (fst e) = i"
      using hi_chain(2,3)[OF assms(1) i] assms(5) unfolding old ev by (auto simp: assms(3))
    note W = hi_write[OF assms(1) i sp conjunct1[OF conjunct2[OF C]] V this]
    have "hi_entries (pool_page b2) buckets = insert (key, rid) (hi_entries (pool_page bp) buckets)"
      using W(2) hi_full[OF assms(1) i] unfolding ev old by (auto simp: assms(3))
    moreover have "keeps_health bp b2" by (rule fetch_unpin_health[OF ft u]) simp
    ultimately have "hi_inserted hid buckets key rid bp (b2, Status_OK)"
      using W(1,3) by (auto simp: hi_inserted_def intro!: exI[of _ buckets])
    then show ?thesis using ft Some pg(1) u C assms(7) by (simp add: PlaceEntry_def)
  qed
qed

lemma values_of_in: "v \<in> set (values_of key es) \<longleftrightarrow> (key, v) \<in> set es"
  by (simp add: values_of_set)

text \<open>Where the walk stands: \<open>pre\<close> behind it without the pair, a page with room there noted.\<close>

definition room_at :: "pages_map \<Rightarrow> page_id list \<Rightarrow> page_id \<Rightarrow> bool" where
  "room_at c pre p \<longleftrightarrow> p = INVALID_PAGE_ID \<or>
     p \<noteq> INVALID_PAGE_ID \<and> p \<in> set pre \<and> bk_count (page_at c p) < 53"

definition last_of :: "page_id list \<Rightarrow> page_id" where
  "last_of ps = (if ps = [] then INVALID_PAGE_ID else last ps)"

definition first_of :: "page_id list \<Rightarrow> page_id" where
  "first_of ps = (if ps = [] then INVALID_PAGE_ID else hd ps)"

lemma first_of_simps [simp]: "first_of [] = INVALID_PAGE_ID" "first_of (q # qs) = q"
  by (simp_all add: first_of_def)

lemma first_of_linked: "linked ok nxt c p ps \<Longrightarrow> p = first_of ps"
  by (cases ps) simp_all

lemma HI_InsertLoop_spec:
  assumes "hi_state bp hid buckets" "buckets ! i = pre @ suf" "buckets ! i \<noteq> []"
    "i = bucket_of (length buckets) key" "index_entry key rid" "num_pages (pool_disk bp) < 2147483648"
    "(key, rid) \<notin> set (chain_entries (pool_page bp) pre)" "room_at (pool_page bp) pre fp"
  shows "\<exists>out. HI_InsertLoop (set pre) (first_of suf) fp (last_of pre) key rid bp = Some out \<and>
    hi_inserted hid buckets key rid bp out"
  using assms
proof (induction suf arbitrary: pre fp bp)
  case Nil
  have b: "buckets ! i = pre" "pre \<noteq> []" using Nil.prems(2,3) by simp_all
  show ?case
  proof (cases "fp = INVALID_PAGE_ID")
    case True
    have l: "last pre \<in> set (buckets ! i)" using b by simp
    have "i < length buckets" using bucket_of_less[OF Nil.prems(1)] Nil.prems(4) by simp
    from hi_page(2)[OF Nil.prems(1) this l] have "last pre \<noteq> INVALID_PAGE_ID" by (simp add: layout_simps)
    moreover have bl: "buckets ! i = butlast pre @ [last pre]" using b by simp
    have "hi_inserted hid buckets key rid bp (AppendOverflowBucket (last pre) key rid bp)"
      by (rule AppendOverflowBucket_spec[OF Nil.prems(1) bl Nil.prems(4-6)]) (use Nil.prems(7) b in simp)
    ultimately show ?thesis using b True by (simp add: HI_InsertLoop.simps last_of_def PlaceEntry_def)
  next
    case False
    then have "fp \<in> set (buckets ! i)" "bk_count (page_at (pool_page bp) fp) < 53"
      using Nil.prems(8) b(1) by (auto simp: room_at_def)
    then show ?thesis using insert_in_bucket[OF Nil.prems(1) _ Nil.prems(4,5)] Nil.prems(7) b False
      by (simp add: HI_InsertLoop.simps)
  qed
next
  case (Cons q suf)
  note prems = Cons.prems
  have i: "i < length buckets" using bucket_of_less[OF prems(1)] prems(4) by simp
  have q: "q \<in> set (buckets ! i)" using prems(2) by simp
  note H = hi_page[OF prems(1) i q]
  have "distinct (buckets ! i)"
    using prems(1) i by (simp add: hi_state_def hi_pages_def distinct_concat_iff)
  then have nv: "q \<noteq> INVALID_PAGE_ID" "q \<notin> set pre" using H(2) prems(2) by (auto simp: layout_simps)
  obtain b x where ft: "FetchPage q bp = (b, x)" by (cases "FetchPage q bp")
  note L = look_at[OF H(1,3,4) ft]
  show ?case
  proof (cases x)
    case None
    then show ?thesis
      using L nv ft hi_inserted_same[OF prems(1), of b "IOError ''Could not fetch hash bucket''" key rid]
      by (simp add: HI_InsertLoop.simps)
  next
    case (Some f)
    then obtain b2 where u: "UnpinPage q False b = (b2, True)" and ro: "read_only bp b2" using L by auto
    note F = bucket_page.frame_ok[OF H(1,3) ft[unfolded Some]]
    have wf: "bk_wf (frame_of b f)" using conjunct1[OF F] H(5) by simp
    have es: "bk_entries (frame_of b f) = bk_entries (page_at (pool_page bp) q)"
      by (rule bk_entries_view) (use F in simp)
    have cnt: "bk_count (frame_of b f) = bk_count (page_at (pool_page bp) q)"
      using arg_cong[OF es, of length] by simp
    have gv: "BK_GetValue key [] (frame_of b f) = (values_of key (bk_entries (page_at (pool_page bp) q)),
        if values_of key (bk_entries (page_at (pool_page bp) q)) = []
        then NotFound ''Hash key was not found in bucket'' else Status_OK)"
      using BK_GetValue_wf[OF wf, of key "[]"] prems(5) es by (simp add: index_entry_def entry_ok_def)
    show ?thesis
    proof (cases "(key, rid) \<in> set (bk_entries (page_at (pool_page bp) q))")
      case True
      then have "(key, rid) \<in> hi_entries (pool_page bp) buckets"
        using prems(2,4) by (simp add: hi_entries_def)
      then show ?thesis
        using True values_of_in nv ft Some u gv bk_wfD(2)[OF wf] hi_inserted_same[OF prems(1) ro, of Status_OK key rid]
        by (auto simp: HI_InsertLoop.simps)
    next
      case False
      let ?fp = "if fp = INVALID_PAGE_ID \<and> bk_count (page_at (pool_page bp) q) < 53 then q else fp"
      have hi2: "hi_state b2 hid buckets" and pp: "pool_page b2 = pool_page bp"
        using hi_read_only(1)[OF prems(1) ro] read_only_pages[OF ro] by simp_all
      have np: "num_pages (pool_disk b2) < 2147483648" using prems(6) ro by (simp add: read_only_def same_pages_def)
      have "linked bk_wf bk_next (pool_page bp) (bk_next (page_at (pool_page bp) q)) suf"
        using linked_split[of bk_wf bk_next "pool_page bp" _ pre q suf] hi_chain(1)[OF prems(1) i] prems(2) by simp
      then have nx: "BK_GetOverflowPageId (frame_of b f) = first_of suf"
        using first_of_linked bk_wfD(5)[OF wf] F by simp
      have st: "HI_InsertLoop (set pre) (first_of (q # suf)) fp (last_of pre) key rid bp =
          HI_InsertLoop (set (pre @ [q])) (first_of suf) ?fp (last_of (pre @ [q])) key rid b2"
        using False values_of_in nv ft Some u gv bk_wfD(2,4)[OF wf] nx cnt
        by (auto simp: HI_InsertLoop.simps[of _ q] last_of_def BK_GetCapacity_def ENTRY_CAPACITY_eq)
      have "(key, rid) \<notin> set (chain_entries (pool_page b2) (pre @ [q]))" using False prems(7) pp by simp
      moreover have "room_at (pool_page b2) (pre @ [q]) ?fp"
        using prems(8) pp nv by (auto simp: room_at_def)
      moreover have "buckets ! i = (pre @ [q]) @ suf" using prems(2) by simp
      ultimately obtain out where out: "HI_InsertLoop (set (pre @ [q])) (first_of suf) ?fp (last_of (pre @ [q]))
          key rid b2 = Some out" "hi_inserted hid buckets key rid b2 out"
        using Cons.IH[OF hi2 _ prems(3-5) np] by blast
      then show ?thesis using st hi_inserted_step[OF ro out(2)] by simp
    qed
  qed
qed

lemma HI_Insert_spec:
  assumes "hi_state bp hid buckets" "index_entry key rid" "key \<noteq> []" "num_pages (pool_disk bp) < 2147483648"
  shows "\<exists>out. HI_Insert hid key rid bp = Some out \<and> hi_inserted hid buckets key rid bp out"
proof -
  let ?i = "bucket_of (length buckets) key"
  have k: "length key \<le> MAX_KEY_LENGTH" "\<not> rid_page rid \<le> HEADER_PAGE_ID"
    using assms(2) by (simp_all add: index_entry_def entry_ok_def layout_simps)
  obtain b res where g: "HI_GetBucketPageId hid key bp = (b, res)" by (cases "HI_GetBucketPageId hid key bp")
  note G = HI_GetBucketPageId_spec[OF assms(1) k(1) g]
  have ro: "read_only bp b" using G by simp
  show ?thesis
  proof (cases res)
    case (Inl st)
    have "\<not> status_ok st" using g Inl
      by (auto simp: HI_GetBucketPageId_def Let_def HIH_GetBucketPageId_def
          split: if_splits prod.splits option.splits bool.splits)
    then show ?thesis using assms(3) k g Inl G hi_inserted_same[OF assms(1) ro, of st key rid] by (simp add: HI_Insert_def)
  next
    case (Inr ip)
    then have ip: "ip = (?i, hih_dir (page_at (pool_page bp) hid) ! ?i)" using G by (cases ip) simp
    have hi: "hi_state b hid buckets" by (rule hi_read_only(1)[OF assms(1) ro])
    have np: "num_pages (pool_disk b) < 2147483648" using assms(4) ro by (simp add: read_only_def same_pages_def)
    have i: "?i < length buckets" by (rule bucket_of_less[OF assms(1)])
    have p: "hih_dir (page_at (pool_page bp) hid) ! ?i = first_of (buckets ! ?i)"
      using first_of_linked hi_chain(1)[OF assms(1) i] by blast
    show ?thesis
    proof (cases "buckets ! ?i = []")
      case True
      then show ?thesis
        using assms(3) k g Inr ip p hi_inserted_step[OF ro CreatePrimaryBucket_spec[OF hi True refl assms(2) np]]
        by (simp add: HI_Insert_def)
    next
      case False
      have "first_of (buckets ! ?i) \<noteq> INVALID_PAGE_ID"
        using False hi_page(2)[OF assms(1) i, of "hd (buckets ! ?i)"] by (simp add: first_of_def layout_simps)
      moreover obtain out where "HI_InsertLoop (set []) (first_of (buckets ! ?i)) INVALID_PAGE_ID (last_of []) key rid b =
          Some out" "hi_inserted hid buckets key rid b out"
        using HI_InsertLoop_spec[OF hi _ False refl assms(2) np, of "[]" "buckets ! ?i" INVALID_PAGE_ID]
        by (auto simp: room_at_def)
      ultimately show ?thesis using assms(3) k g Inr ip p hi_inserted_step[OF ro]
        by (simp add: HI_Insert_def last_of_def)
    qed
  qed
qed

end
