(* ===== verification/Hash_Index_Search.thy ===== *)
theory Hash_Index_Search
  imports Hash_Index_Insert
begin

text \<open>
  Lookup in the hash index and removal from it. A lookup changes nothing and finds the values of its
  key; a removal takes away the pairs it is asked to. On an error of the buffer pool in the middle of
  a chain the removal of a single pair has changed nothing, the removal of a key may have taken away
  some of its pairs and no others.
\<close>

section \<open>Lookup\<close>

lemma values_of_append [simp]: "values_of key [] = []" "values_of key (es @ fs) = values_of key es @ values_of key fs"
  by (simp_all add: values_of_def)

lemma walk_position:
  assumes "hi_state bp hid buckets" "i < length buckets" "buckets ! i = pre @ q # suf"
  shows "pool_ok {} bp" "q \<notin> free_pages (pool_disk bp)" "pool_page bp q \<noteq> None"
    "bk_wf (page_at (pool_page bp) q)" "q \<noteq> INVALID_PAGE_ID" "q \<notin> set pre"
    "bk_next (page_at (pool_page bp) q) = first_of suf"
proof -
  have q: "q \<in> set (buckets ! i)" using assms(3) by simp
  note H = hi_page[OF assms(1,2) q]
  show "pool_ok {} bp" "q \<notin> free_pages (pool_disk bp)" "pool_page bp q \<noteq> None"
    "bk_wf (page_at (pool_page bp) q)" by (rule H)+
  show "q \<noteq> INVALID_PAGE_ID" using H(2) by (simp add: layout_simps)
  have "distinct (buckets ! i)" using assms(1,2) by (simp add: hi_state_def hi_pages_def distinct_concat_iff)
  then show "q \<notin> set pre" using assms(3) by auto
  have "linked bk_wf bk_next (pool_page bp) (bk_next (page_at (pool_page bp) q)) suf"
    using linked_split[of bk_wf bk_next "pool_page bp" _ pre q suf] hi_chain(1)[OF assms(1,2)] assms(3) by simp
  then show "bk_next (page_at (pool_page bp) q) = first_of suf" by (rule first_of_linked)
qed

lemma bucket_frame:
  assumes "hi_state bp hid buckets" "i < length buckets" "buckets ! i = pre @ q # suf" "FetchPage q bp = (b, Some f)"
  shows "bk_wf (frame_of b f)" "bk_entries (frame_of b f) = bk_entries (page_at (pool_page bp) q)"
    "bk_next (frame_of b f) = first_of suf" "page_pid (frame_of b f) = q" "valid_frame b f"
proof -
  note W = walk_position[OF assms(1-3)]
  note F = bucket_page.frame_ok[OF W(1,2) assms(4)]
  show "bk_wf (frame_of b f)" using conjunct1[OF F] W(4) by simp
  show "bk_entries (frame_of b f) = bk_entries (page_at (pool_page bp) q)"
    by (rule bk_entries_view) (use F in simp)
  show "bk_next (frame_of b f) = first_of suf" "page_pid (frame_of b f) = q" "valid_frame b f"
    using F W(7) by simp_all
qed

lemma HI_GetLoop_spec:
  assumes "hi_state bp hid buckets" "i < length buckets" "buckets ! i = pre @ suf" "length key \<le> MAX_KEY_LENGTH"
  shows "\<exists>b' vs st. HI_GetLoop (set pre) (first_of suf) key res bp = Some (b', vs, st) \<and> read_only bp b' \<and>
    (if status_ok st then vs = res @ values_of key (chain_entries (pool_page bp) suf) else \<not> healthy bp)"
  using assms
proof (induction suf arbitrary: pre bp res)
  case Nil
  then have "pool_ok {} bp" by (simp add: hi_state_def)
  then show ?case by (simp add: HI_GetLoop.simps read_only_def same_pages_def)
next
  case (Cons q suf)
  note W = walk_position[OF Cons.prems(1-3)]
  obtain b x where ft: "FetchPage q bp = (b, x)" by (cases "FetchPage q bp")
  note L = look_at[OF W(1-3) ft]
  show ?case
  proof (cases x)
    case None
    then show ?thesis using L W(5,6) ft by (simp add: HI_GetLoop.simps)
  next
    case (Some f)
    then obtain b2 where u: "UnpinPage q False b = (b2, True)" and ro: "read_only bp b2" using L by auto
    note F = bucket_frame[OF Cons.prems(1-3) ft[unfolded Some]]
    let ?vs = "values_of key (bk_entries (page_at (pool_page bp) q))"
    have gv: "BK_GetValue key res (frame_of b f) = (res @ ?vs,
        if ?vs = [] then NotFound ''Hash key was not found in bucket'' else Status_OK)"
      using BK_GetValue_wf[OF F(1) Cons.prems(4), of res] F(2) by simp
    have hi2: "hi_state b2 hid buckets" and pp: "pool_page b2 = pool_page bp"
      using hi_read_only(1)[OF Cons.prems(1) ro] read_only_pages[OF ro] by simp_all
    have st: "HI_GetLoop (set pre) (first_of (q # suf)) key res bp =
        HI_GetLoop (set (pre @ [q])) (first_of suf) key (res @ ?vs) b2"
      using W(5,6) ft Some u gv bk_wfD(2,5)[OF F(1)] F(3) by (simp add: HI_GetLoop.simps[of _ q])
    have "buckets ! i = (pre @ [q]) @ suf" using Cons.prems(3) by simp
    from Cons.IH[OF hi2 Cons.prems(2) this Cons.prems(4), of "res @ ?vs"] show ?thesis
      using st pp read_only_trans[OF ro] read_only_healthy[OF ro] by fastforce
  qed
qed

lemma HI_GetValue_spec:
  assumes "hi_state bp hid buckets" "length key \<le> MAX_KEY_LENGTH"
  shows "\<exists>b' vs st. HI_GetValue hid key bp = Some (b', vs, st) \<and> read_only bp b' \<and>
    (if status_ok st then distinct vs \<and> set vs = {v. (key, v) \<in> hi_entries (pool_page bp) buckets}
     else \<not> healthy bp)"
proof -
  let ?i = "bucket_of (length buckets) key"
  have i: "?i < length buckets" by (rule bucket_of_less[OF assms(1)])
  obtain b res where g: "HI_GetBucketPageId hid key bp = (b, res)" by (cases "HI_GetBucketPageId hid key bp")
  note G = HI_GetBucketPageId_spec[OF assms(1,2) g]
  have ro: "read_only bp b" using G by simp
  show ?thesis
  proof (cases res)
    case (Inl st)
    have "\<not> status_ok st" using g Inl
      by (auto simp: HI_GetBucketPageId_def Let_def HIH_GetBucketPageId_def
          split: if_splits prod.splits option.splits bool.splits)
    then show ?thesis using g Inl G by (simp add: HI_GetValue_def)
  next
    case (Inr ip)
    then have ip: "ip = (?i, first_of (buckets ! ?i))"
      using G first_of_linked[OF hi_chain(1)[OF assms(1) i]] by (cases ip) simp
    let ?vs = "values_of key (chain_entries (pool_page bp) (buckets ! ?i))"
    have vs: "distinct ?vs \<and> set ?vs = {v. (key, v) \<in> hi_entries (pool_page bp) buckets}"
      using values_of_distinct hi_chain(2)[OF assms(1) i] by (simp add: values_of_set hi_entries_def)
    show ?thesis
    proof (cases "buckets ! ?i = []")
      case True
      then show ?thesis using g Inr ip ro vs by (simp add: HI_GetValue_def)
    next
      case False
      have ni: "first_of (buckets ! ?i) \<noteq> INVALID_PAGE_ID"
        using False hi_page(2)[OF assms(1) i, of "hd (buckets ! ?i)"] by (simp add: first_of_def layout_simps)
      have hi: "hi_state b hid buckets" by (rule hi_read_only(1)[OF assms(1) ro])
      obtain b' ws st where l: "HI_GetLoop (set []) (first_of (buckets ! ?i)) key [] b = Some (b', ws, st)"
        "read_only b b'" "if status_ok st then ws = [] @ values_of key (chain_entries (pool_page b) (buckets ! ?i))
          else \<not> healthy b"
        using HI_GetLoop_spec[OF hi i _ assms(2), of "[]" "buckets ! ?i" "[]"] by auto
      have "HI_GetValue hid key bp = Some (b', ws, st)" using g Inr ip ni l(1) by (simp add: HI_GetValue_def)
      then show ?thesis
        using l(2,3) vs read_only_trans[OF ro] read_only_healthy[OF ro] read_only_pages[OF ro]
        by (auto split: if_splits)
    qed
  qed
qed

section \<open>Removal\<close>

text \<open>What is left of a set of pairs, and what a removal promises of the pairs \<open>E0\<close> it started from.\<close>

definition spared :: "byte list \<Rightarrow> record_id option \<Rightarrow> entry set \<Rightarrow> entry set" where
  "spared key ro E = {e \<in> E. \<not> entry_hit key ro e}"

definition hi_removed ::
  "page_id \<Rightarrow> page_id list list \<Rightarrow> byte list \<Rightarrow> record_id option \<Rightarrow> entry set \<Rightarrow> pool \<Rightarrow> pool \<times> status \<Rightarrow> bool"
  where
  "hi_removed hid buckets key ro E0 bp out = (case out of (b', st) \<Rightarrow>
     outside_kept (hi_pages hid buckets) bp b' \<and> keeps_health bp b' \<and> hi_state b' hid buckets \<and>
     (let E = hi_entries (pool_page b') buckets in
        spared key ro E0 \<subseteq> E \<and> E \<subseteq> E0 \<and>
        (if status_ok st then E = spared key ro E0 \<and> E \<noteq> E0
         else if status_code st = NOT_FOUND then E = spared key ro E0 \<and> E = E0
         else \<not> healthy bp \<and> (ro \<noteq> None \<longrightarrow> E = E0))))"

text \<open>How far a walk has come: no hit is left behind it.\<close>

definition removing ::
  "page_id \<Rightarrow> page_id list list \<Rightarrow> byte list \<Rightarrow> record_id option \<Rightarrow> entry set \<Rightarrow> nat \<Rightarrow> pool \<Rightarrow> bool" where
  "removing hid buckets key ro E0 removed bp \<longleftrightarrow> hi_state bp hid buckets \<and>
     spared key ro E0 \<subseteq> hi_entries (pool_page bp) buckets \<and> hi_entries (pool_page bp) buckets \<subseteq> E0 \<and>
     (removed = 0 \<longleftrightarrow> hi_entries (pool_page bp) buckets = E0) \<and> (ro \<noteq> None \<longrightarrow> removed = 0)"

lemma hi_removed_step:
  assumes "outside_kept (hi_pages hid buckets) bp b" "keeps_health bp b" "pool_ok {} b"
    "free_pages (pool_disk b) = free_pages (pool_disk bp)" "hi_removed hid buckets key ro E0 b out"
  shows "hi_removed hid buckets key ro E0 bp out"
proof -
  obtain b' st where out: "out = (b', st)" by (cases out)
  have o: "outside_kept (hi_pages hid buckets) b b'" "keeps_health b b'"
    using assms(5) out by (simp_all add: hi_removed_def)
  have "outside_kept (hi_pages hid buckets) bp b'"
    by (rule outside_kept_trans[OF assms(1) o(1)])
  moreover have "keeps_health bp b'" by (rule keeps_health_trans[OF assms(2) o(2)])
  moreover have "pins b = pins bp" using assms(1) by (simp add: outside_kept_def)
  then have "\<not> healthy b \<Longrightarrow> \<not> healthy bp" using healthy_kept[OF _ assms(2,3)] by blast
  ultimately show ?thesis using assms(5) out by (auto simp: hi_removed_def Let_def split: if_splits)
qed

lemma hi_removed_read_only:
  assumes "read_only bp b" "hi_removed hid buckets key ro E0 b out"
  shows "hi_removed hid buckets key ro E0 bp out"
  by (rule hi_removed_step[OF _ _ _ _ assms(2)])
     (use assms(1) outside_kept_same in \<open>auto simp: read_only_def same_pages_def\<close>)

lemma hi_removed_error:
  assumes "removing hid buckets key ro E0 removed bp" "read_only bp b" "\<not> healthy bp"
    "\<not> status_ok st" "status_code st \<noteq> NOT_FOUND"
  shows "hi_removed hid buckets key ro E0 bp (b, st)"
proof -
  have "hi_state bp hid buckets" using assms(1) by (simp add: removing_def)
  note R = hi_read_only[OF this assms(2)]
  show ?thesis using R assms by (auto simp: hi_removed_def removing_def read_only_def)
qed

lemma removal_done:
  assumes "removing hid buckets key ro E0 removed bp" "i = bucket_of (length buckets) key"
    "\<forall>e \<in> set (chain_entries (pool_page bp) (buckets ! i)). \<not> entry_hit key ro e"
  shows "hi_removed hid buckets key ro E0 bp (bp, RemoveOutcome removed)"
proof -
  let ?E = "hi_entries (pool_page bp) buckets"
  have R: "hi_state bp hid buckets" "spared key ro E0 \<subseteq> ?E" "?E \<subseteq> E0" "removed = 0 \<longleftrightarrow> ?E = E0"
    using assms(1) by (simp_all add: removing_def)
  have "\<not> entry_hit key ro e" if "e \<in> ?E" for e
    using that assms(2,3) by (cases "fst e = key") (auto simp: hi_entries_def entry_hit_def)
  then have "?E = spared key ro E0" using R(2,3) by (auto simp: spared_def)
  then show ?thesis using R outside_kept_same[of bp bp]
    by (auto simp: hi_removed_def RemoveOutcome_def same_pages_def)
qed

text \<open>One page of the chain loses its hits.\<close>

lemma remove_in_page:
  assumes "hi_state bp hid buckets" "i < length buckets" "buckets ! i = pre @ q # suf"
    "FetchPage q bp = (b, Some f)" "length key \<le> MAX_KEY_LENGTH" "i = bucket_of (length buckets) key"
  shows "\<exists>pg st k b'. BK_Remove key ro (frame_of b f) = (pg, st, k) \<and>
    UnpinPage q (k > 0) (set_frame f pg b) = (b', True) \<and> hi_state b' hid buckets \<and> keeps_health bp b' \<and>
    outside_kept (hi_pages hid buckets) bp b' \<and> free_pages (pool_disk b') = free_pages (pool_disk bp) \<and>
    st = (if k = 0 then NotFound ''Hash key/RID entry was not found'' else Status_OK) \<and>
    BK_GetOverflowPageId pg = first_of suf \<and>
    chain_entries (pool_page b') pre = chain_entries (pool_page bp) pre \<and>
    (\<forall>e \<in> set (bk_entries (page_at (pool_page b') q)). \<not> entry_hit key ro e) \<and>
    (k = 0 \<longleftrightarrow> hi_entries (pool_page b') buckets = hi_entries (pool_page bp) buckets) \<and>
    spared key ro (hi_entries (pool_page bp) buckets) \<subseteq> hi_entries (pool_page b') buckets \<and>
    hi_entries (pool_page b') buckets \<subseteq> hi_entries (pool_page bp) buckets \<and>
    (ro \<noteq> None \<and> k > 0 \<longrightarrow> hi_entries (pool_page b') buckets = spared key ro (hi_entries (pool_page bp) buckets))"
proof -
  note W = walk_position[OF assms(1-3)] and F = bucket_frame[OF assms(1-4)]
  let ?old = "bk_entries (page_at (pool_page bp) q)"
  obtain pg st k where R: "BK_Remove key ro (frame_of b f) = (pg, st, k)" "bk_wf pg"
    "same_bucket (frame_of b f) pg" "mset (bk_entries pg) = rem_mset key ro (mset ?old)"
    "k = bk_count (frame_of b f) - bk_count pg" "bk_count pg \<le> bk_count (frame_of b f)"
    "st = (if k = 0 then NotFound ''Hash key/RID entry was not found'' else Status_OK)"
    "if k = 0 then pg = frame_of b f else is_dirty pg"
    using BK_Remove_wf[OF F(1) assms(5), of ro, unfolded F(2)] by (elim exE conjE) (rule that)
  have P: "page_pid pg = q" "pin_count pg = pin_count (frame_of b f)" "bk_next pg = first_of suf"
    using R(3) F by (simp_all add: same_bucket_def)
  have E: "chain_entries (pool_page bp) (buckets ! i) =
      chain_entries (pool_page bp) pre @ ?old @ chain_entries (pool_page bp) suf" using assms(3) by simp
  have dist: "distinct (chain_entries (pool_page bp) pre @ ?old @ chain_entries (pool_page bp) suf)"
    and bof: "\<forall>e \<in> set (chain_entries (pool_page bp) pre @ ?old @ chain_entries (pool_page bp) suf).
      bucket_of (length buckets) (fst e) = i"
    using hi_chain(2,3)[OF assms(1,2)] unfolding E by simp_all
  have do: "distinct ?old" using dist by simp
  note D = rem_mset_distinct[OF do R(4)]
  have se: "set (bk_entries pg) = spared key ro (set ?old)" using D by (auto simp: spared_def entry_hit_def)
  have le: "length (bk_entries (frame_of b f)) = length ?old" using F(2) by simp
  have k0: "k = 0 \<longleftrightarrow> set (bk_entries pg) = set ?old"
  proof
    assume "k = 0"
    then show "set (bk_entries pg) = set ?old" using R(8) F(2) by simp
  next
    assume "set (bk_entries pg) = set ?old"
    then have "length (bk_entries pg) = length ?old"
      using distinct_card[OF conjunct1[OF D]] distinct_card[OF do] by simp
    then show "k = 0" using R(5) le by simp
  qed
  obtain b' where u: "UnpinPage q (k > 0) (set_frame f pg b) = (b', True)" "keeps_health bp b'"
    "wrote q (page_data pg) bp b'"
  proof (cases "k = 0")
    case True
    then have pg: "set_frame f pg b = b" using R(8) F(5) by (simp add: set_frame_id)
    obtain b2 where "UnpinPage q False b = (b2, True)" "read_only bp b2"
      using look_at[OF W(1-3) assms(4)] by auto
    moreover have "pool_page bp q = Some (page_data pg)"
      using fetched_page[OF W(1,2) assms(4)] True R(8) by simp
    ultimately show ?thesis using that[of b2] True pg
      by (simp add: wrote_def read_only_def same_pages_def fun_upd_idem)
  next
    case False
    obtain b2 ok where u: "UnpinPage q True (set_frame f pg b) = (b2, ok)"
      by (cases "UnpinPage q True (set_frame f pg b)")
    have "keeps_health bp b2" by (rule fetch_unpin_health[OF assms(4) u]) simp
    then show ?thesis
      using that[of b2] bucket_page.change_page[OF W(1,2) assms(4) R(2) P(1,2) u] u False by simp
  qed
  let ?d = "page_data pg"
  have V: "bk_wf (view q ?d)" "bk_next (view q ?d) = bk_next (page_at (pool_page bp) q)"
    using bucket_page.view_ok[OF P(1)] R(2) P(3) W(7) by simp_all
  have ev: "bk_entries (view q ?d) = bk_entries pg" by (rule bk_entries_view) simp
  have d2: "distinct (chain_entries (pool_page bp) pre @ bk_entries (view q ?d) @ chain_entries (pool_page bp) suf)"
    using dist D unfolding ev by (auto simp: se spared_def)
  have b2: "\<forall>e \<in> set (bk_entries (view q ?d)). bucket_of (length buckets) (fst e) = i"
    using bof unfolding ev by (auto simp: se spared_def)
  note H = hi_write[OF assms(1-3) u(3) V d2 b2]
  have at: "page_at (pool_page b') q = view q ?d" using u(3) by (simp add: wrote_def page_at_def)
  have pre: "chain_entries (pool_page b') pre = chain_entries (pool_page bp) pre"
    by (rule chain_entries_cong) (use u(3) W(6) in \<open>auto simp: wrote_def\<close>)
  note full = hi_full[OF assms(1,2)]
  let ?E = "hi_entries (pool_page bp) buckets" and ?E' = "hi_entries (pool_page b') buckets"
  let ?out = "set (chain_entries (pool_page bp) pre) \<union> set (chain_entries (pool_page bp) suf)"
  have inE: "e \<in> ?E \<longleftrightarrow> (if bucket_of (length buckets) (fst e) = i then e \<in> ?out \<or> e \<in> set ?old else e \<in> ?E)" for e
    using full[of e] unfolding E by auto
  have inE': "e \<in> ?E' \<longleftrightarrow> (if bucket_of (length buckets) (fst e) = i then e \<in> ?out \<or> e \<in> spared key ro (set ?old)
      else e \<in> ?E)" for e
    unfolding H(2) ev by (auto simp: se)
  have disj: "?out \<inter> set ?old = {}" using dist by auto
  have sub: "?E' \<subseteq> ?E"
  proof
    show "e \<in> ?E" if "e \<in> ?E'" for e
      using that inE[of e] inE'[of e] by (simp add: spared_def split: if_splits) blast
  qed
  have spare: "spared key ro ?E \<subseteq> ?E'"
  proof
    fix e assume "e \<in> spared key ro ?E"
    then have "e \<in> ?E" "\<not> entry_hit key ro e" by (simp_all add: spared_def)
    then show "e \<in> ?E'" using inE[of e] inE'[of e] by (simp add: spared_def split: if_splits)
  qed
  have "k = 0 \<longleftrightarrow> ?E' = ?E"
  proof
    assume "k = 0"
    then have "spared key ro (set ?old) = set ?old" using k0 se by simp
    then have "e \<in> ?E' \<longleftrightarrow> e \<in> ?E" for e
      using inE[of e] inE'[of e] by (cases "bucket_of (length buckets) (fst e) = i") simp_all
    then show "?E' = ?E" by blast
  next
    assume a: "?E' = ?E"
    have "e \<in> spared key ro (set ?old)" if e: "e \<in> set ?old" for e
    proof -
      have "bucket_of (length buckets) (fst e) = i" using bof e by simp
      then have "e \<in> ?out \<or> e \<in> spared key ro (set ?old)" using inE[of e] inE'[of e] a e by simp
      then show ?thesis using disj e by blast
    qed
    then show "k = 0" using k0 se by (auto simp: spared_def)
  qed
  moreover have "?E' = spared key ro ?E" if ro: "ro \<noteq> None" and k: "k > 0"
  proof -
    obtain v where v: "ro = Some v" using ro by blast
    have hv: "e = (key, v)" if "entry_hit key ro e" for e using that v by (cases e) (simp add: entry_hit_def)
    have "spared key ro (set ?old) \<noteq> set ?old" using k k0 se by simp
    then have kv: "(key, v) \<in> set ?old" using hv by (auto simp: spared_def)
    have "(key, v) \<notin> ?out" using disj kv by blast
    moreover have "bucket_of (length buckets) key = i" using bspec[OF bof, of "(key, v)"] kv by simp
    moreover have "(key, v) \<notin> spared key ro (set ?old)" using v by (simp add: spared_def entry_hit_def)
    ultimately have "(key, v) \<notin> ?E'" using inE'[of "(key, v)"] by simp
    then have "?E' \<subseteq> spared key ro ?E" using sub hv by (auto simp: spared_def)
    then show ?thesis using spare by blast
  qed
  moreover have "\<forall>e \<in> set (bk_entries (page_at (pool_page b') q)). \<not> entry_hit key ro e"
    unfolding at ev se by (simp add: spared_def)
  moreover have "BK_GetOverflowPageId pg = first_of suf" using bk_wfD(5)[OF R(2)] P(3) by simp
  moreover have "free_pages (pool_disk b') = free_pages (pool_disk bp)" using u(3) by (simp add: wrote_def)
  ultimately show ?thesis using R(1,7) u(1,2) H(1,3) pre sub spare by blast
qed

lemma HI_RemoveLoop_spec:
  assumes "removing hid buckets key ro E0 removed bp" "buckets ! i = pre @ suf" "length key \<le> MAX_KEY_LENGTH"
    "i = bucket_of (length buckets) key" "\<forall>e \<in> set (chain_entries (pool_page bp) pre). \<not> entry_hit key ro e"
  shows "\<exists>out. HI_RemoveLoop (set pre) (first_of suf) key ro removed bp = Some out \<and>
    hi_removed hid buckets key ro E0 bp out"
  using assms
proof (induction suf arbitrary: pre bp removed)
  case Nil
  then show ?case using removal_done[OF Nil.prems(1,4)] by (simp add: HI_RemoveLoop.simps)
next
  case (Cons q suf)
  note prems = Cons.prems
  let ?E = "hi_entries (pool_page bp) buckets"
  have hi: "hi_state bp hid buckets" and E: "spared key ro E0 \<subseteq> ?E" "?E \<subseteq> E0" "removed = 0 \<longleftrightarrow> ?E = E0"
    "ro \<noteq> None \<longrightarrow> removed = 0" using prems(1) by (simp_all add: removing_def)
  have i: "i < length buckets" using bucket_of_less[OF hi] prems(4) by simp
  note W = walk_position[OF hi i prems(2)]
  obtain b x where ft: "FetchPage q bp = (b, x)" by (cases "FetchPage q bp")
  show ?case
  proof (cases x)
    case None
    then show ?thesis
      using look_at[OF W(1-3) ft] W(5,6) ft
        hi_removed_error[OF prems(1), of b "IOError ''Could not fetch hash bucket''"]
      by (simp add: HI_RemoveLoop.simps)
  next
    case (Some f)
    note F = bucket_frame[OF hi i prems(2) ft[unfolded Some]]
    from remove_in_page[OF hi i prems(2) ft[unfolded Some] prems(3,4), of ro]
    obtain pg st k b' where R: "BK_Remove key ro (frame_of b f) = (pg, st, k)"
      "UnpinPage q (k > 0) (set_frame f pg b) = (b', True)" "hi_state b' hid buckets" "keeps_health bp b'"
      "outside_kept (hi_pages hid buckets) bp b'" "free_pages (pool_disk b') = free_pages (pool_disk bp)"
      "st = (if k = 0 then NotFound ''Hash key/RID entry was not found'' else Status_OK)"
      "BK_GetOverflowPageId pg = first_of suf"
      "chain_entries (pool_page b') pre = chain_entries (pool_page bp) pre"
      "\<forall>e \<in> set (bk_entries (page_at (pool_page b') q)). \<not> entry_hit key ro e"
      "k = 0 \<longleftrightarrow> hi_entries (pool_page b') buckets = ?E"
      "spared key ro ?E \<subseteq> hi_entries (pool_page b') buckets" "hi_entries (pool_page b') buckets \<subseteq> ?E"
      "ro \<noteq> None \<and> k > 0 \<longrightarrow> hi_entries (pool_page b') buckets = spared key ro ?E"
      by blast
    let ?E' = "hi_entries (pool_page b') buckets"
    have ok: "pool_ok {} b'" using R(3) by (simp add: hi_state_def)
    have sp: "spared key ro E0 \<subseteq> ?E'" using R(12) E(1) by (auto simp: spared_def)
    have k0: "removed + k = 0 \<longleftrightarrow> ?E' = E0" using R(11,13) E(2,3) by auto
    have step: "HI_RemoveLoop (set pre) (first_of (q # suf)) key ro removed bp =
        (if ro \<noteq> None \<and> removed + k > 0 then Some (b', RemoveOutcome (removed + k))
         else HI_RemoveLoop (set (pre @ [q])) (first_of suf) key ro (removed + k) b')"
      using W(5,6) ft Some bk_wfD(2)[OF F(1)] R(1,2,7,8) by (simp add: HI_RemoveLoop.simps[of _ q])
    show ?thesis
    proof (cases "ro \<noteq> None \<and> removed + k > 0")
      case True
      then have k: "k > 0" "ro \<noteq> None" "?E = E0" using E(3,4) by auto
      then have "?E' = spared key ro E0" "?E' \<noteq> E0" using R(11,14) by simp_all
      then have "hi_removed hid buckets key ro E0 bp (b', RemoveOutcome (removed + k))"
        using R(3-5) k by (auto simp: hi_removed_def RemoveOutcome_def spared_def)
      then show ?thesis using step True by simp
    next
      case False
      have rm: "removing hid buckets key ro E0 (removed + k) b'"
        using R(3,13) sp E(2) k0 False by (auto simp: removing_def)
      have pre2: "\<forall>e \<in> set (chain_entries (pool_page b') (pre @ [q])). \<not> entry_hit key ro e"
        using R(9,10) prems(5) by auto
      have "buckets ! i = (pre @ [q]) @ suf" using prems(2) by simp
      from Cons.IH[OF rm this prems(3,4) pre2] obtain out where
        out: "HI_RemoveLoop (set (pre @ [q])) (first_of suf) key ro (removed + k) b' = Some out"
          "hi_removed hid buckets key ro E0 b' out" by blast
      have "hi_removed hid buckets key ro E0 bp out" by (rule hi_removed_step[OF R(5,4) ok R(6) out(2)])
      moreover have "HI_RemoveLoop (set pre) (first_of (q # suf)) key ro removed bp = Some out"
        unfolding step if_not_P[OF False] by (rule out(1))
      ultimately show ?thesis by blast
    qed
  qed
qed

lemma HI_RemoveInternal_spec:
  assumes "hi_state bp hid buckets" "length key \<le> MAX_KEY_LENGTH"
  shows "\<exists>out. HI_RemoveInternal hid key ro bp = Some out \<and>
    hi_removed hid buckets key ro (hi_entries (pool_page bp) buckets) bp out"
proof -
  let ?i = "bucket_of (length buckets) key"
  have i: "?i < length buckets" by (rule bucket_of_less[OF assms(1)])
  obtain b res where g: "HI_GetBucketPageId hid key bp = (b, res)" by (cases "HI_GetBucketPageId hid key bp")
  note G = HI_GetBucketPageId_spec[OF assms(1,2) g]
  have ro: "read_only bp b" using G by simp
  have hi: "hi_state b hid buckets" by (rule hi_read_only(1)[OF assms(1) ro])
  have pp: "pool_page b = pool_page bp" by (rule read_only_pages[OF ro])
  have rm: "removing hid buckets key ro (hi_entries (pool_page bp) buckets) 0 b"
    "removing hid buckets key ro (hi_entries (pool_page bp) buckets) 0 bp"
    using hi assms(1) pp by (auto simp: removing_def spared_def)
  show ?thesis
  proof (cases res)
    case (Inl st)
    have "\<not> status_ok st \<and> status_code st \<noteq> NOT_FOUND" using g Inl
      by (auto simp: HI_GetBucketPageId_def Let_def HIH_GetBucketPageId_def
          split: if_splits prod.splits option.splits bool.splits)
    then show ?thesis using g Inl G hi_removed_error[OF rm(2) ro] by (simp add: HI_RemoveInternal_def)
  next
    case (Inr ip)
    then have ip: "ip = (?i, first_of (buckets ! ?i))"
      using G first_of_linked[OF hi_chain(1)[OF assms(1) i]] by (cases ip) simp
    show ?thesis
    proof (cases "buckets ! ?i = []")
      case True
      then show ?thesis using g Inr ip hi_removed_read_only[OF ro removal_done[OF rm(1) refl, of]]
        by (simp add: HI_RemoveInternal_def RemoveOutcome_def hi_removed_def)
    next
      case False
      have ni: "first_of (buckets ! ?i) \<noteq> INVALID_PAGE_ID"
        using False hi_page(2)[OF assms(1) i, of "hd (buckets ! ?i)"] by (simp add: first_of_def layout_simps)
      obtain out where "HI_RemoveLoop (set []) (first_of (buckets ! ?i)) key ro 0 b = Some out"
        "hi_removed hid buckets key ro (hi_entries (pool_page bp) buckets) b out"
        using HI_RemoveLoop_spec[OF rm(1) _ assms(2) refl, of "[]" "buckets ! ?i"] by auto
      then show ?thesis using g Inr ip ni hi_removed_read_only[OF ro] by (simp add: HI_RemoveInternal_def)
    qed
  qed
qed

end
