(* ===== verification/Hash_Index_Lifecycle.thy ===== *)
theory Hash_Index_Lifecycle
  imports Hash_Index_Search Pool_Bounded
begin

text \<open>
  The hash index from creation to destruction, and the end of its walks on pages of any contents.
\<close>

section \<open>Creation\<close>

lemma HI_Create_spec:
  assumes "pool_ok {} bp" "0 < n" "n \<le> MaxBucketCount" "HI_Create n bp = (b', res)"
  shows "pins b' = pins bp \<and> keeps_health bp b' \<and> outside_kept [] bp b' \<and> (case res of
      Inl st \<Rightarrow> pool_ok {} b' \<and> same_pages bp b' \<and> \<not> healthy bp
    | Inr hid \<Rightarrow> fresh_page hid bp \<and> aside hid bp b' \<and> hi_state b' hid (replicate n []) \<and>
        hi_entries (pool_page b') (replicate n []) = {})"
proof -
  obtain b x where nw: "NewPage bp = (b, x)" by (cases "NewPage bp")
  show ?thesis
  proof (cases x)
    case None
    have "\<not> healthy bp" using NewPage_healthy[of bp] nw None by auto
    then show ?thesis
      using assms(2-4) nw None NewPage_spec[OF assms(1) nw] NewPage_health[OF nw] outside_kept_same[of bp b "[]"]
      by (auto simp: HI_Create_def)
  next
    case (Some nf)
    then obtain h f where x: "x = Some (h, f)" by (cases nf) auto
    note N = NewPage_fresh[OF assms(1) nw[unfolded x]]
    have np: "page_pid (frame_of b f) \<noteq> INVALID_PAGE_ID" using N(6,9) by (simp add: layout_simps)
    obtain pg where pg: "HIH_Init n MAX_KEY_LENGTH (frame_of b f) = Inr pg" "hih_wf pg"
      "hih_dir pg = replicate n INVALID_PAGE_ID" "HIH_GetMaxKeyLength pg = MAX_KEY_LENGTH" "page_pid pg = h"
      "pin_count pg = pin_count (frame_of b f)"
      using HIH_Init_wf[OF np assms(2,3), of MAX_KEY_LENGTH] N(9) by (auto simp: layout_simps)
    obtain b2 ok where u: "UnpinPage h True (set_frame f pg b) = (b2, ok)"
      by (cases "UnpinPage h True (set_frame f pg b)")
    have pin: "0 < pins b h" "pool_ok {} b" using N(2,3) by (simp_all add: aside_def)
    have ho: "header_ok pg" using pg(2,4) by (simp add: header_ok_def)
    have M: "ok" "pool_ok {} b2" "pins b2 = (pins b)(h := pins b h - 1)"
      "pool_page b2 = (pool_page b)(h \<mapsto> page_data pg)" "free_pages (pool_disk b2) = free_pages (pool_disk b)"
      using modify_pinned[OF pin(2) N(5) pin(1) pg(5,6) header_page.ok_size[OF ho] u] by simp_all
    have as: "aside h bp b2" using N(2) M by (auto simp: aside_def)
    have pins: "pins b2 = pins bp" using M(3) N(3,4) by (simp add: fun_eq_iff)
    have at: "page_at (pool_page b2) h = view h (page_data pg)" using M(4) by (simp add: page_at_def)
    have dir: "hih_dir (view h (page_data pg)) = replicate n INVALID_PAGE_ID"
      using hih_dir_view[of "view h (page_data pg)" pg] pg(3) by simp
    have "header_ok (view h (page_data pg))" using header_page.view_ok[OF pg(5)] ho by simp
    moreover have "h \<notin> free_pages (pool_disk b2)" using M(5) N(7) by simp
    ultimately have "hi_state b2 h (replicate n [])"
      using at dir M(2,4) N(6) by (simp add: hi_state_def hi_pages_def bucket_ok_def)
    moreover have "hi_entries (pool_page b2) (replicate n []) = {}" using assms(2) by (auto simp: hi_entries_def bucket_of_def)
    moreover have "keeps_health bp b2" using step_health(1)[OF _ u, of bp] NewPage_health[OF nw] by simp
    moreover have "(b', res) = (b2, Inr h)"
      using assms(2-4) nw x pg(1) u M(1) N(6) by (simp add: HI_Create_def put_page_def new_HashIndex_def layout_simps)
    ultimately show ?thesis using N(1) as pins aside_outside[OF assms(1) N(1) as pins] by simp
  qed
qed

section \<open>Destruction on a healthy pool\<close>

lemma DeallocatePage_frees:
  assumes "disk_io d = []" "1 \<le> p" "p < num_pages d"
  shows "free_pages (DeallocatePage p d) = insert p (free_pages d) \<and>
    num_pages (DeallocatePage p d) = num_pages d"
  using assms by (auto simp: DeallocatePage_def stream_write_def next_event_def consume_event_def Let_def)

lemma DeletePage_frees:
  assumes "healthy bp" "1 \<le> p" "pool_page bp p \<noteq> None"
  shows "\<exists>b. DeletePage p bp = (b, True) \<and> healthy b \<and> (\<forall>q. q \<noteq> p \<longrightarrow> pool_page b q = pool_page bp q) \<and>
    free_pages (pool_disk b) = insert p (free_pages (pool_disk bp))"
proof -
  have ok: "pool_ok {} bp" "disk_io (pool_disk bp) = []" "pins bp p = 0" using assms(1) by (simp_all add: healthy_def)
  obtain b r where d: "DeletePage p bp = (b, r)" by (cases "DeletePage p bp")
  note D = DeletePage_spec[OF ok(1) d]
  have r: r using D assms(2) ok(3) by (simp add: layout_simps)
  then have "pool_disk b = DeallocatePage p (pool_disk bp)"
    using d by (auto simp: DeletePage_def Let_def ErasePage_def set_frame_def split: if_splits option.splits)
  moreover obtain x where "pool_page bp p = Some x" using assms(3) by blast
  ultimately have "free_pages (pool_disk b) = insert p (free_pages (pool_disk bp))"
    using DeallocatePage_frees[OF ok(2) assms(2)] pool_page_bound[OF ok(1)] by simp
  moreover have "healthy b" using healthy_kept[OF assms(1) DeletePage_health[OF d]] D by simp
  ultimately show ?thesis using d r D by simp
qed

lemma healthy_look:
  assumes "healthy bp" "p \<notin> free_pages (pool_disk bp)" "pool_page bp p \<noteq> None"
  shows "\<exists>b f b'. FetchPage p bp = (b, Some f) \<and> UnpinPage p False b = (b', True) \<and> read_only bp b' \<and>
    healthy b' \<and> pool_page bp p = Some (page_data (frame_of b f)) \<and> page_pid (frame_of b f) = p"
proof -
  have ok: "pool_ok {} bp" using assms(1) by (simp add: healthy_def)
  obtain b f where ft: "FetchPage p bp = (b, Some f)" using FetchPage_healthy[OF assms(1,3)] by blast
  show ?thesis
    using look_at[OF ok assms(2,3) ft] ft fetched_page[OF ok assms(2) ft] read_only_healthy assms(1) by auto
qed

lemma DestroyChain_spec:
  assumes "healthy bp" "linked bk_wf bk_next (pool_page bp) p ps" "distinct ps" "set ps \<inter> visited = {}"
    "set ps \<inter> free_pages (pool_disk bp) = {}"
  shows "\<exists>b. DestroyChain visited p bp = Some (b, Inr (visited \<union> set ps)) \<and> healthy b \<and>
    (\<forall>q. q \<notin> set ps \<longrightarrow> pool_page b q = pool_page bp q) \<and>
    free_pages (pool_disk b) = free_pages (pool_disk bp) \<union> set ps"
  using assms
proof (induction ps arbitrary: p visited bp)
  case Nil
  then show ?case by (simp add: DestroyChain.simps)
next
  case (Cons q qs)
  have q: "p = q" "1 \<le> q" "pool_page bp q \<noteq> None" "bk_wf (page_at (pool_page bp) q)"
    "linked bk_wf bk_next (pool_page bp) (bk_next (page_at (pool_page bp) q)) qs"
    "q \<notin> free_pages (pool_disk bp)" "q \<noteq> INVALID_PAGE_ID" "q \<notin> visited"
    using Cons.prems by (auto simp: layout_simps)
  have ok: "pool_ok {} bp" using Cons.prems(1) by (simp add: healthy_def)
  obtain b f b1 where l: "FetchPage q bp = (b, Some f)" "UnpinPage q False b = (b1, True)" "read_only bp b1" "healthy b1"
    using healthy_look[OF Cons.prems(1) q(6,3)] by blast
  note F = bucket_page.frame_ok[OF ok q(6) l(1)]
  have wf: "bk_wf (frame_of b f)" using conjunct1[OF F] q(4) by simp
  have pp: "pool_page b1 = pool_page bp" "free_pages (pool_disk b1) = free_pages (pool_disk bp)"
    using l(3) by (simp_all add: read_only_def same_pages_def)
  obtain b2 where d: "DeletePage q b1 = (b2, True)" "healthy b2" "\<forall>r. r \<noteq> q \<longrightarrow> pool_page b2 r = pool_page bp r"
    "free_pages (pool_disk b2) = insert q (free_pages (pool_disk bp))"
    using DeletePage_frees[OF l(4) q(2)] q(3) pp by auto
  have nq: "\<forall>r \<in> set qs. r \<noteq> q" using Cons.prems(3) by auto
  have "linked bk_wf bk_next (pool_page b2) (bk_next (page_at (pool_page bp) q)) qs"
    by (rule linked_cong[OF q(5)]) (use d(3) nq in simp)
  moreover have "set qs \<inter> insert q visited = {}" "set qs \<inter> free_pages (pool_disk b2) = {}"
    using Cons.prems(4,5) d(4) nq by auto
  moreover have "distinct qs" using Cons.prems(3) by simp
  ultimately obtain b3 where "DestroyChain (insert q visited) (bk_next (page_at (pool_page bp) q)) b2 =
      Some (b3, Inr (insert q visited \<union> set qs))" "healthy b3"
    "\<forall>r. r \<notin> set qs \<longrightarrow> pool_page b3 r = pool_page b2 r"
    "free_pages (pool_disk b3) = free_pages (pool_disk b2) \<union> set qs"
    using Cons.IH[OF d(2)] by blast
  then show ?case
    using q l(1,2) d F bk_wfD(2,5)[OF wf] by (simp add: DestroyChain.simps[of visited])
qed

lemma PrimaryBuckets_wf:
  assumes "hih_wf pg"
  shows "PrimaryBuckets pg = Inr (filter (\<lambda>p. p \<noteq> INVALID_PAGE_ID) (hih_dir pg))"
proof -
  let ?step = "\<lambda>i acc. case HIH_GetBucketPageId i pg of Inl st \<Rightarrow> Inl st
    | Inr p \<Rightarrow> Inr (if p \<noteq> INVALID_PAGE_ID then acc @ [p] else acc)"
  have "for_each ?step [0..<n] [] = Inr (filter (\<lambda>p. p \<noteq> INVALID_PAGE_ID) (take n (hih_dir pg)))"
    if "n \<le> length (hih_dir pg)" for n
    using that
  proof (induction n)
    case (Suc n)
    then have IH: "for_each ?step [0..<n] [] = Inr (filter (\<lambda>p. p \<noteq> INVALID_PAGE_ID) (take n (hih_dir pg)))"
      and n: "n < length (hih_dir pg)" by simp_all
    show ?case unfolding for_each_upt_Suc IH
      using HIH_GetBucketPageId_wf[OF assms, of n] n by (simp add: take_Suc_conv_app_nth)
  qed simp
  from this[of "length (hih_dir pg)"] show ?thesis
    using hih_count(1)[OF assms] by (simp add: PrimaryBuckets_def)
qed

lemma DestroyChains_spec:
  assumes "healthy bp" "list_all2 (linked bk_wf bk_next (pool_page bp)) ds pss" "distinct (concat pss)"
    "set (concat pss) \<inter> visited = {}" "set (concat pss) \<inter> free_pages (pool_disk bp) = {}"
  shows "\<exists>b v. DestroyChains visited (filter (\<lambda>p. p \<noteq> INVALID_PAGE_ID) ds) bp = Some (b, Inr v) \<and> healthy b \<and>
    (\<forall>q. q \<notin> set (concat pss) \<longrightarrow> pool_page b q = pool_page bp q) \<and>
    free_pages (pool_disk b) = free_pages (pool_disk bp) \<union> set (concat pss)"
  using assms
proof (induction pss arbitrary: ds visited bp)
  case Nil
  then show ?case by simp
next
  case (Cons ps pss)
  obtain d ds' where ds: "ds = d # ds'" "linked bk_wf bk_next (pool_page bp) d ps"
    "list_all2 (linked bk_wf bk_next (pool_page bp)) ds' pss" using Cons.prems(2) by (auto simp: list_all2_Cons2)
  have D: "distinct ps" "distinct (concat pss)" "set ps \<inter> set (concat pss) = {}"
    using Cons.prems(3) by (simp_all only: concat.simps distinct_append)
  have V: "set ps \<inter> visited = {}" "set (concat pss) \<inter> visited = {}"
    "set ps \<inter> free_pages (pool_disk bp) = {}" "set (concat pss) \<inter> free_pages (pool_disk bp) = {}"
    using Cons.prems(4,5) unfolding concat.simps set_append by blast+
  note S = DestroyChain_spec[OF Cons.prems(1) ds(2) D(1) V(1,3)]
  obtain b where b: "DestroyChain visited d bp = Some (b, Inr (visited \<union> set ps))" "healthy b"
    "\<forall>q. q \<notin> set ps \<longrightarrow> pool_page b q = pool_page bp q" "free_pages (pool_disk b) = free_pages (pool_disk bp) \<union> set ps"
    using S by blast
  have same: "pool_page b q = pool_page bp q" if "q \<in> set qs" "qs \<in> set pss" for q qs
    using b(3) D(3) that unfolding set_concat by blast
  have "list_all2 (linked bk_wf bk_next (pool_page b)) ds' pss"
    unfolding list_all2_conv_all_nth
  proof (intro conjI allI impI)
    fix i assume i: "i < length ds'"
    then have l: "i < length pss" "linked bk_wf bk_next (pool_page bp) (ds' ! i) (pss ! i)"
      using ds(3) by (simp_all add: list_all2_conv_all_nth)
    have "\<forall>q \<in> set (pss ! i). pool_page b q = pool_page bp q"
      using same[OF _ nth_mem[OF l(1)]] by simp
    with l(2) show "linked bk_wf bk_next (pool_page b) (ds' ! i) (pss ! i)" by (rule linked_cong)
  qed (use ds(3) in \<open>simp add: list_all2_conv_all_nth\<close>)
  moreover have "set (concat pss) \<inter> (visited \<union> set ps) = {}" "set (concat pss) \<inter> free_pages (pool_disk b) = {}"
    using V(2,4) D(3) b(4) by blast+
  ultimately obtain b' v where R: "DestroyChains (visited \<union> set ps) (filter (\<lambda>p. p \<noteq> INVALID_PAGE_ID) ds') b =
      Some (b', Inr v)" "healthy b'" "\<forall>q. q \<notin> set (concat pss) \<longrightarrow> pool_page b' q = pool_page b q"
    "free_pages (pool_disk b') = free_pages (pool_disk b) \<union> set (concat pss)"
    using Cons.IH[OF b(2) _ D(2)] by blast
  have "DestroyChains visited (filter (\<lambda>p. p \<noteq> INVALID_PAGE_ID) ds) bp = Some (b', Inr v)"
  proof (cases "d = INVALID_PAGE_ID")
    case True
    then have "ps = []" using ds(2) by (cases ps) (auto simp: layout_simps)
    moreover have "b = bp" using b(1) True calculation by (simp add: DestroyChain.simps)
    ultimately show ?thesis using R(1) ds(1) True by simp
  next
    case False
    then show ?thesis using R(1) ds(1) b(1) by simp
  qed
  moreover have "\<forall>q. q \<notin> set (concat (ps # pss)) \<longrightarrow> pool_page b' q = pool_page bp q"
    using b(3) R(3) by simp
  moreover have "free_pages (pool_disk b') = free_pages (pool_disk bp) \<union> set (concat (ps # pss))"
    unfolding R(4) b(4) concat.simps set_append by blast
  ultimately show ?case using R(2) by blast
qed

lemma HI_Destroy_spec:
  assumes "hi_state bp hid buckets" "healthy bp"
  shows "\<exists>b. HI_Destroy hid bp = Some (b, INVALID_PAGE_ID, Status_OK) \<and> healthy b \<and>
    outside_kept (hi_pages hid buckets) bp b \<and>
    free_pages (pool_disk b) = free_pages (pool_disk bp) \<union> set (hi_pages hid buckets)"
proof -
  note H = hi_header[OF assms(1)]
  have S: "1 \<le> hid" "length (hih_dir (page_at (pool_page bp) hid)) = length buckets" "hid \<notin> set (concat buckets)"
    "distinct (concat buckets)" "set (concat buckets) \<inter> free_pages (pool_disk bp) = {}"
    using assms(1) by (simp_all add: hi_state_def hi_pages_def)
  obtain b f b1 where l: "FetchPage hid bp = (b, Some f)" "UnpinPage hid False b = (b1, True)" "read_only bp b1"
    "healthy b1" using healthy_look[OF assms(2) H(2,3)] by blast
  note F = header_page.frame_ok[OF H(1,2) l(1)]
  have wf: "hih_wf (frame_of b f)" using conjunct1[OF F] H(4) by (simp add: header_ok_def)
  have dir: "hih_dir (frame_of b f) = hih_dir (page_at (pool_page bp) hid)"
    by (rule hih_dir_view) (use F in simp)
  have pp: "pool_page b1 = pool_page bp" "free_pages (pool_disk b1) = free_pages (pool_disk bp)"
    using l(3) by (simp_all add: read_only_def same_pages_def)
  have "list_all2 (linked bk_wf bk_next (pool_page b1)) (hih_dir (page_at (pool_page bp) hid)) buckets"
    unfolding pp(1) using S(2) hi_chain(1)[OF assms(1)] by (simp add: list_all2_conv_all_nth)
  from DestroyChains_spec[OF l(4) this S(4), of "{}"] obtain b2 v where
    d: "DestroyChains {} (filter (\<lambda>p. p \<noteq> INVALID_PAGE_ID) (hih_dir (page_at (pool_page bp) hid))) b1 = Some (b2, Inr v)"
      "healthy b2" "\<forall>q. q \<notin> set (concat buckets) \<longrightarrow> pool_page b2 q = pool_page bp q"
      "free_pages (pool_disk b2) = free_pages (pool_disk bp) \<union> set (concat buckets)"
    using S(5) pp by auto
  have "pool_page b2 hid \<noteq> None" using d(3) S(3) H(3) by simp
  from DeletePage_frees[OF d(2) S(1) this] obtain b3 where b3: "DeletePage hid b2 = (b3, True)" "healthy b3"
    "\<forall>q. q \<noteq> hid \<longrightarrow> pool_page b3 q = pool_page b2 q"
    "free_pages (pool_disk b3) = insert hid (free_pages (pool_disk b2))" by blast
  have "HI_Destroy hid bp = Some (b3, INVALID_PAGE_ID, Status_OK)"
    using S(1) l(1,2) wf dir PrimaryBuckets_wf[OF wf] d(1) b3(1)
    by (simp add: HI_Destroy_def Let_def hih_wf_def layout_simps)
  moreover have "pins b3 = pins bp" using b3(2) assms(2) by (simp add: healthy_def)
  then have "outside_kept (hi_pages hid buckets) bp b3" using b3(3,4) d(3,4) pp
    by (auto simp: outside_kept_def unused_def hi_pages_def)
  moreover have "free_pages (pool_disk b3) = free_pages (pool_disk bp) \<union> set (hi_pages hid buckets)"
    using b3(4) d(4) by (auto simp: hi_pages_def)
  ultimately show ?thesis using b3(2) by blast
qed

section \<open>Walks end\<close>

lemma DestroyChain_returns:
  assumes "bounded N bp"
  shows "\<exists>b r. DestroyChain visited c bp = Some (b, r) \<and> bounded N b"
  using assms
proof (induction visited c bp rule: walk_induct)
  case (step visited c bp)
  obtain b x where b: "FetchPage c bp = (b, x)" by (cases "FetchPage c bp")
  note B = FetchPage_bounded[OF step(1) b]
  obtain b1 ok where u: "UnpinPage c False b = (b1, ok)" by (cases "UnpinPage c False b")
  have B1: "bounded N b1" using UnpinPage_bounded[OF _ u] B by simp
  obtain b2 del where d: "DeletePage c b1 = (b2, del)" by (cases "DeletePage c b1")
  have B2: "bounded N b2" by (rule DeletePage_bounded[OF B1 d])
  show ?case
  proof (cases "c = INVALID_PAGE_ID \<or> c \<in> visited \<or> x = None \<or> \<not> ok \<or> \<not> del")
    case True
    then show ?thesis using step(1) B B1 B2 b u d
      by (auto simp: DestroyChain.simps[of visited] split: option.splits)
  next
    case False
    then obtain f where x: "x = Some f" by auto
    then obtain b3 r where "DestroyChain (insert c visited) (BK_GetOverflowPageId (frame_of b f)) b2 = Some (b3, r)"
      "bounded N b3" using step(2)[OF _ _ _ B2, of "BK_GetOverflowPageId (frame_of b f)"] False B by blast
    then show ?thesis using False x b u d B1 by (simp add: DestroyChain.simps[of visited])
  qed
qed

lemma DestroyChains_returns:
  "bounded N bp \<Longrightarrow> DestroyChains visited ps bp \<noteq> None"
proof (induction ps arbitrary: visited bp)
  case (Cons p ps)
  obtain b r where "DestroyChain visited p bp = Some (b, r)" "bounded N b"
    using DestroyChain_returns[OF Cons.prems] by blast
  then show ?case using Cons.IH by (cases r) auto
qed simp

lemma HI_GetLoop_returns:
  assumes "bounded N bp"
  shows "\<forall>res. HI_GetLoop visited c key res bp \<noteq> None"
  using assms
proof (induction visited c bp rule: walk_induct)
  case (step visited c bp)
  show ?case
  proof
    fix res
    obtain b r where b: "FetchPage c bp = (b, r)" by (cases "FetchPage c bp")
    note B = FetchPage_bounded[OF step(1) b]
    obtain b' ok where u: "UnpinPage c False b = (b', ok)" by (cases "UnpinPage c False b")
    have "bounded N b'" using UnpinPage_bounded[OF _ u] B by simp
    then show "HI_GetLoop visited c key res bp \<noteq> None"
      using step(2)[of b'] B b u by (auto simp: HI_GetLoop.simps[of visited] split: option.splits prod.splits)
  qed
qed

lemma HI_InsertLoop_returns:
  assumes "bounded N bp"
  shows "\<forall>fp lp. HI_InsertLoop visited c fp lp key rid bp \<noteq> None"
  using assms
proof (induction visited c bp rule: walk_induct)
  case (step visited c bp)
  show ?case
  proof (intro allI)
    fix fp lp
    obtain b r where b: "FetchPage c bp = (b, r)" by (cases "FetchPage c bp")
    note B = FetchPage_bounded[OF step(1) b]
    obtain b' ok where u: "UnpinPage c False b = (b', ok)" by (cases "UnpinPage c False b")
    have "bounded N b'" using UnpinPage_bounded[OF _ u] B by simp
    then show "HI_InsertLoop visited c fp lp key rid bp \<noteq> None"
      using step(2)[of b'] B b u by (auto simp: HI_InsertLoop.simps[of visited] split: option.splits prod.splits)
  qed
qed

lemma WriteEntry_pid: "WriteEntry i key rid pg = Inr pg' \<Longrightarrow> page_pid pg' = page_pid pg"
  by (auto simp: WriteEntry_def Let_def split: if_splits)

lemma MoveLast_pid: "MoveLast i l pg = Inr pg' \<Longrightarrow> page_pid pg' = page_pid pg"
  by (auto simp: MoveLast_def dest: WriteEntry_pid split: if_splits sum.splits)

lemma RemoveLoop_pid: "RemoveLoop key ro i n removed pg = (pg', r) \<Longrightarrow> page_pid pg' = page_pid pg"
proof (induction key ro i n removed pg rule: RemoveLoop.induct)
  case (1 key ro i n removed pg)
  have cl: "page_pid (ClearEntry j p) = page_pid p" for j p by (simp add: ClearEntry_def)
  show ?case
    using 1(3) 1(1,2) cl
    by (subst (asm) RemoveLoop.simps)
       (auto simp: Let_def dest: MoveLast_pid split: if_splits sum.splits prod.splits)
qed

lemma BK_Remove_pid: "BK_Remove key ro pg = (pg', st, k) \<Longrightarrow> page_pid pg' = page_pid pg"
  by (auto simp: BK_Remove_def dest: RemoveLoop_pid split: if_splits prod.splits sum.splits)

lemma HI_RemoveLoop_returns:
  assumes "bounded N bp"
  shows "\<forall>n. HI_RemoveLoop visited c key ro n bp \<noteq> None"
  using assms
proof (induction visited c bp rule: walk_induct)
  case (step visited c bp)
  show ?case
  proof
    fix n
    obtain b x where b: "FetchPage c bp = (b, x)" by (cases "FetchPage c bp")
    note B = FetchPage_bounded[OF step(1) b]
    have rec: "HI_RemoveLoop (insert c visited) c' key ro m b' \<noteq> None"
      if "c \<notin> visited" "x = Some f" "BK_Remove key ro (frame_of b f) = (pg, st, k)"
        "UnpinPage c d (set_frame f pg b) = (b', ok)" for c' f pg st k d b' ok m
    proof -
      have "page_pid pg < N" using BK_Remove_pid[OF that(3)] B that(2) by (simp add: bounded_def)
      then have "bounded N b'" using UnpinPage_bounded[OF bounded_set_frame that(4)] B by simp
      then show ?thesis using step(2)[of b' c'] B that(1,2) by auto
    qed
    show "HI_RemoveLoop visited c key ro n bp \<noteq> None"
      using rec b by (auto simp: HI_RemoveLoop.simps[of visited] split: option.splits prod.splits)
  qed
qed

lemma HI_GetBucketPageId_bounded:
  assumes "bounded N bp" "HI_GetBucketPageId hid key bp = (b, r)"
  shows "bounded N b"
proof (cases "length key > MAX_KEY_LENGTH")
  case True
  then show ?thesis using assms by (auto simp: HI_GetBucketPageId_def)
next
  case False
  obtain b1 x where ft: "FetchPage hid bp = (b1, x)" by (cases "FetchPage hid bp")
  have B: "bounded N b1" using FetchPage_bounded[OF assms(1) ft] by simp
  obtain b2 ok where u: "UnpinPage hid False b1 = (b2, ok)" by (cases "UnpinPage hid False b1")
  have "b = b1 \<or> b = b2" using assms(2) False ft u
    by (auto simp: HI_GetBucketPageId_def Let_def split: option.splits bool.splits)
  then show ?thesis using B UnpinPage_bounded[OF B u] by blast
qed

lemma ops_return:
  assumes "bounded N bp"
  shows "HI_Insert hid key rid bp \<noteq> None" "HI_GetValue hid key bp \<noteq> None"
    "HI_RemoveInternal hid key ro bp \<noteq> None" "HI_Destroy hid bp \<noteq> None"
proof -
  obtain b r where g: "HI_GetBucketPageId hid key bp = (b, r)" by (cases "HI_GetBucketPageId hid key bp")
  note B = HI_GetBucketPageId_bounded[OF assms g]
  show "HI_Insert hid key rid bp \<noteq> None" "HI_GetValue hid key bp \<noteq> None" "HI_RemoveInternal hid key ro bp \<noteq> None"
    using HI_InsertLoop_returns[OF B] HI_GetLoop_returns[OF B] HI_RemoveLoop_returns[OF B] g
    by (auto simp: HI_Insert_def HI_GetValue_def HI_RemoveInternal_def split: sum.splits)
  obtain b1 x where ft: "FetchPage hid bp = (b1, x)" by (cases "FetchPage hid bp")
  obtain b2 ok where u: "UnpinPage hid False b1 = (b2, ok)" by (cases "UnpinPage hid False b1")
  have "bounded N b2" using UnpinPage_bounded[OF _ u] FetchPage_bounded[OF assms ft] by simp
  then have dc: "DestroyChains {} ps b2 = None \<Longrightarrow> False" for ps using DestroyChains_returns[of N b2] by simp
  show "HI_Destroy hid bp \<noteq> None"
    using ft u
    by (auto dest: dc simp: HI_Destroy_def Let_def split: option.splits sum.splits bool.splits prod.splits)
qed

end
