(* ===== verification/Hash_Index_Properties.thy ===== *)
theory Hash_Index_Properties
  imports Hash_Index_Lifecycle
begin

text \<open>
  The hash index as an index of key/RecordID pairs (the locale \<open>key_index\<close>), and the properties of the
  bucket page, the header page and the hash index.
\<close>

section \<open>The index that a pool presents\<close>

lemma hi_unique:
  assumes "hi_state bp hid buckets" "hi_state bp hid buckets'"
  shows "buckets' = buckets"
proof (rule nth_equalityI)
  show len: "length buckets' = length buckets" using assms by (simp add: hi_state_def)
  fix i assume "i < length buckets'"
  then show "buckets' ! i = buckets ! i"
    using linked_unique[OF hi_chain(1)[OF assms(1)] hi_chain(1)[OF assms(2)]] len by simp
qed

definition hi_inv :: "page_id \<Rightarrow> pool \<Rightarrow> bool" where
  "hi_inv hid bp \<longleftrightarrow> (\<exists>buckets. hi_state bp hid buckets)"

definition hi_set :: "page_id \<Rightarrow> pool \<Rightarrow> entry set" where
  "hi_set hid bp = {e. \<exists>buckets. hi_state bp hid buckets \<and> e \<in> hi_entries (pool_page bp) buckets}"

lemma hi_set_eq: "hi_state bp hid buckets \<Longrightarrow> hi_set hid bp = hi_entries (pool_page bp) buckets"
  using hi_unique by (auto simp: hi_set_def)

definition hash_ins :: "page_id \<Rightarrow> byte list \<Rightarrow> record_id \<Rightarrow> pool \<Rightarrow> pool option" where
  "hash_ins hid key rid bp =
     (if index_entry key rid \<and> num_pages (pool_disk bp) < 2147483648
      then (case HI_Insert hid key rid bp of Some (b, st) \<Rightarrow> if status_ok st then Some b else None | None \<Rightarrow> None)
      else None)"

definition hash_look :: "page_id \<Rightarrow> byte list \<Rightarrow> pool \<Rightarrow> record_id list option" where
  "hash_look hid key bp =
     (case HI_GetValue hid key bp of Some (b, vs, st) \<Rightarrow> if status_ok st then Some vs else None | None \<Rightarrow> None)"

definition hash_rem :: "page_id \<Rightarrow> byte list \<Rightarrow> record_id option \<Rightarrow> pool \<Rightarrow> pool option" where
  "hash_rem hid key ro bp =
     (case HI_RemoveInternal hid key ro bp of
        Some (b, st) \<Rightarrow> if status_ok st then Some b else None | None \<Rightarrow> None)"

lemma long_key:
  assumes "length key > MAX_KEY_LENGTH"
  shows "HI_GetBucketPageId hid key bp = (bp, Inl (InvalidArgument ''Hash index key exceeds maximum length''))"
  using assms by (simp add: HI_GetBucketPageId_def)

interpretation hash: key_index "hi_inv hid" "hi_set hid" "hash_ins hid" "hash_look hid" "hash_rem hid"
  for hid :: page_id
proof (unfold_locales, goal_cases)
  case (1 s k v s')
  then obtain buckets st where b: "hi_state s hid buckets" "index_entry k v" "num_pages (pool_disk s) < 2147483648"
    "HI_Insert hid k v s = Some (s', st)" "status_ok st"
    by (auto simp: hi_inv_def hash_ins_def split: if_splits option.splits)
  then have "k \<noteq> []" by (auto simp: HI_Insert_def)
  then obtain buckets' where "hi_state s' hid buckets'"
    "hi_entries (pool_page s') buckets' = insert (k, v) (hi_entries (pool_page s) buckets)"
    using HI_Insert_spec[OF b(1,2) _ b(3)] b(4,5) by (auto simp: hi_inserted_def)
  then show ?case using hi_set_eq b(1) by (auto simp: hi_inv_def)
next
  case (2 s k vs)
  then obtain buckets b st where b: "hi_state s hid buckets" "HI_GetValue hid k s = Some (b, vs, st)" "status_ok st"
    by (auto simp: hi_inv_def hash_look_def split: if_splits option.splits)
  then have "length k \<le> MAX_KEY_LENGTH" using long_key[of k hid s] by (force simp: HI_GetValue_def)
  then show ?case using HI_GetValue_spec[OF b(1)] b hi_set_eq[OF b(1)] by fastforce
next
  case (3 s k ro s')
  then obtain buckets st where b: "hi_state s hid buckets" "HI_RemoveInternal hid k ro s = Some (s', st)" "status_ok st"
    by (auto simp: hi_inv_def hash_rem_def split: if_splits option.splits)
  then have k: "length k \<le> MAX_KEY_LENGTH" using long_key[of k hid s] by (force simp: HI_RemoveInternal_def)
  have "hi_removed hid buckets k ro (hi_entries (pool_page s) buckets) s (s', st)"
    using HI_RemoveInternal_spec[OF b(1) k, of ro] b(2) by auto
  then have r: "hi_state s' hid buckets" "hi_entries (pool_page s') buckets = spared k ro (hi_entries (pool_page s) buckets)"
    "hi_entries (pool_page s') buckets \<noteq> hi_entries (pool_page s) buckets"
    using b(3) by (auto simp: hi_removed_def Let_def)
  then show ?case using hi_set_eq[OF b(1)] hi_set_eq[OF r(1)]
    by (auto simp: hi_inv_def spared_def entry_hit_def)
qed

section \<open>An empty index, for the witnesses\<close>

lemma example_index:
  "\<exists>bp hid. hi_state bp hid [[], []] \<and> healthy bp \<and> hi_entries (pool_page bp) [[], []] = {} \<and>
     num_pages (pool_disk bp) < 2147483648"
proof -
  obtain d bp where ex: "pool_ok {} bp" "pool_disk bp = d" "disk_io d = []" "num_pages d = 1" "free_pages d = {}"
      "pins bp = (\<lambda>_. 0)" "length (pages bp) = 2"
    using example_pool[of 2] by auto
  have h: "healthy bp" using ex by (auto simp: healthy_def)
  obtain b res where c: "HI_Create 2 bp = (b, res)" by (cases "HI_Create 2 bp")
  have "pins b = pins bp \<and> keeps_health bp b \<and> outside_kept [] bp b \<and> (case res of
      Inl st \<Rightarrow> pool_ok {} b \<and> same_pages bp b \<and> \<not> healthy bp
    | Inr hid \<Rightarrow> fresh_page hid bp \<and> aside hid bp b \<and> hi_state b hid (replicate 2 []) \<and>
        hi_entries (pool_page b) (replicate 2 []) = {})"
    by (rule HI_Create_spec[OF ex(1) _ _ c]) (simp_all add: MaxBucketCount_eq)
  then obtain hid where r: "res = Inr hid" "hi_state b hid (replicate 2 [])" "hi_entries (pool_page b) (replicate 2 []) = {}"
    "keeps_health bp b" "pins b = pins bp" "fresh_page hid bp" "aside hid bp b"
    using h by (cases res) auto
  have hl: "healthy b" using healthy_kept[OF h r(4) _ r(5)] r(2) by (simp add: hi_state_def)
  have "hid = 1" using r(6) ex by (simp add: fresh_page_def)
  then have "pool_page b 2 = pool_page bp 2" using r(7) by (simp add: aside_def)
  also have "\<dots> = None" using pool_page_bound[OF ex(1), of 2] ex by (cases "pool_page bp 2") auto
  finally have "\<not> 2 < num_pages (pool_disk b)" by (auto simp: pool_page_def disk_page_def split: option.splits)
  then show ?thesis using r hl by (intro exI[of _ b] exI[of _ hid]) (simp add: numeral_2_eq_2)
qed

lemma ValidateHeader_healthy:
  assumes "hi_state bp hid buckets" "healthy bp"
  shows "\<exists>b. ValidateHeader hid bp = (b, Inr (length buckets)) \<and> read_only bp b"
proof -
  note H = hi_header[OF assms(1)]
  obtain b f b1 where l: "FetchPage hid bp = (b, Some f)" "UnpinPage hid False b = (b1, True)" "read_only bp b1"
    using healthy_look[OF assms(2) H(2,3)] by blast
  note F = header_page.frame_ok[OF H(1,2) l(1)]
  have ho: "hih_wf (frame_of b f)" "HIH_GetMaxKeyLength (frame_of b f) = MAX_KEY_LENGTH"
    using conjunct1[OF F] H(4) by (simp_all add: header_ok_def)
  have "hih_dir (frame_of b f) = hih_dir (page_at (pool_page bp) hid)" by (rule hih_dir_view) (use F in simp)
  then have "HIH_GetBucketCount (frame_of b f) = length buckets"
    using hih_count(1)[OF ho(1)] assms(1) by (simp add: hi_state_def)
  then show ?thesis using l ho by (simp add: ValidateHeader_def Let_def hih_wf_def)
qed

section \<open>Properties of the pages\<close>

text \<open>
  Removing from a bucket page, of any well-formed contents, is removal from the multiset of its
  entries: without a RecordID all entries of the key go, with one exactly one occurrence of the pair.
  The count returned is the number of entries that went, \<^verbatim>\<open>NOT_FOUND\<close> means that nothing changed, and
  the link to the overflow page stays.
\<close>

theorem bucket_remove_multiset:
  assumes "bk_wf pg" "length key \<le> MAX_KEY_LENGTH"
  shows "\<exists>pg' st k. BK_Remove key ro pg = (pg', st, k) \<and> bk_wf pg' \<and> BK_GetOverflowPageId pg' = BK_GetOverflowPageId pg \<and>
    mset (bk_entries pg') = (case ro of None \<Rightarrow> filter_mset (\<lambda>e. fst e \<noteq> key) (mset (bk_entries pg))
      | Some v \<Rightarrow> mset (bk_entries pg) - {#(key, v)#}) \<and>
    k = BK_GetEntryCount pg - BK_GetEntryCount pg' \<and> (status_ok st \<longleftrightarrow> k > 0) \<and> (\<not> status_ok st \<longrightarrow> pg' = pg)"
proof -
  obtain pg' st k where R: "BK_Remove key ro pg = (pg', st, k)" "bk_wf pg'" "same_bucket pg pg'"
    "mset (bk_entries pg') = rem_mset key ro (mset (bk_entries pg))" "k = bk_count pg - bk_count pg'"
    "st = (if k = 0 then NotFound ''Hash key/RID entry was not found'' else Status_OK)"
    "if k = 0 then pg' = pg else is_dirty pg'"
    using BK_Remove_wf[OF assms, of ro] by (elim exE conjE) (rule that)
  have o: "BK_GetOverflowPageId pg' = BK_GetOverflowPageId pg"
    using bk_wfD(5)[OF R(2)] bk_wfD(5)[OF assms(1)] R(3) by (simp add: same_bucket_def)
  have c: "k = BK_GetEntryCount pg - BK_GetEntryCount pg'"
    using bk_wfD(4)[OF R(2)] bk_wfD(4)[OF assms(1)] R(5) by simp
  have s: "status_ok st \<longleftrightarrow> k > 0" "\<not> status_ok st \<longrightarrow> pg' = pg" using R(7) unfolding R(6) by simp_all
  show ?thesis by (intro exI conjI) (rule R(1,2) o R(4)[unfolded rem_mset_def] c s)+
qed

lemma example_bucket:
  obtains pg where "bk_wf pg" "bk_entries pg = [(''k'', RecordID 4 2)]"
proof -
  obtain pg where "bk_wf pg" "bk_entries pg = [(''k'', RecordID 4 2)]"
    using FirstEntry_wf[of "new_Page\<lparr>page_pid := 1\<rparr>" "''k''" "RecordID 4 2"]
    by (auto simp: index_entry_def entry_ok_def is_i32_def layout_simps)
  then show ?thesis using that by blast
qed

theorem bucket_remove_multiset_witness:
  "\<exists>pg pg' st k. bk_entries pg = [(''k'', RecordID 4 2)] \<and> BK_Remove ''k'' (Some (RecordID 4 2)) pg = (pg', st, k) \<and>
     bk_entries pg' = []"
proof -
  obtain pg where pg: "bk_wf pg" "bk_entries pg = [(''k'', RecordID 4 2)]" by (rule example_bucket)
  then show ?thesis
    using bucket_remove_multiset[OF pg(1), of "''k''" "Some (RecordID 4 2)"] by (auto simp: layout_simps)
qed

text \<open>
  C35. The directory of an index header page is an array: the bucket page set for a bucket is the one
  got for it, every other bucket's is as before, and an index outside the directory is refused by both
  operations.
\<close>

theorem header_directory_array:
  assumes "hih_wf pg" "1 \<le> p" "is_i32 p"
  shows "(case HIH_SetBucketPageId i p pg of
      Inl st \<Rightarrow> i \<ge> HIH_GetBucketCount pg \<and> st = InvalidArgument ''Bucket index is out of range''
    | Inr pg' \<Rightarrow> i < HIH_GetBucketCount pg \<and> hih_wf pg' \<and> HIH_GetBucketCount pg' = HIH_GetBucketCount pg \<and>
        HIH_GetMaxKeyLength pg' = HIH_GetMaxKeyLength pg \<and>
        (\<forall>j. HIH_GetBucketPageId j pg' = (if j = i then Inr p else HIH_GetBucketPageId j pg))) \<and>
    (\<forall>j. HIH_GetBucketPageId j pg = Inl (InvalidArgument ''Bucket index is out of range'') \<longleftrightarrow>
      j \<ge> HIH_GetBucketCount pg)"
proof (cases "i < length (hih_dir pg)")
  case True
  from HIH_SetBucketPageId_wf[OF assms(1) True assms(2,3)] obtain pg' where
    pg': "HIH_SetBucketPageId i p pg = Inr pg'" "hih_wf pg'" "hih_dir pg' = (hih_dir pg)[i := p]"
      "HIH_GetMaxKeyLength pg' = HIH_GetMaxKeyLength pg" by blast
  then show ?thesis
    using HIH_GetBucketPageId_wf[OF assms(1)] HIH_GetBucketPageId_wf[OF pg'(2)] hih_count(1)[OF assms(1)]
      hih_count(1)[OF pg'(2)] True by (simp add: nth_list_update)
next
  case False
  then show ?thesis
    using HIH_GetBucketPageId_wf[OF assms(1)] hih_count(1)[OF assms(1)] assms
    by (simp add: HIH_SetBucketPageId_def hih_wf_def layout_simps)
qed

theorem header_directory_array_witness:
  "\<exists>pg pg'. HIH_SetBucketPageId 1 7 pg = Inr pg' \<and> HIH_GetBucketPageId 1 pg' = Inr 7"
proof -
  obtain pg where pg: "hih_wf pg" "hih_dir pg = replicate 2 INVALID_PAGE_ID"
    using HIH_Init_wf[of "new_Page\<lparr>page_pid := 1\<rparr>" 2 64] by (auto simp: layout_simps MaxBucketCount_eq)
  have c: "HIH_GetBucketCount pg = 2" using hih_count(1)[OF pg(1)] pg(2) by simp
  have p: "(1::int) \<le> 7" "is_i32 7" by (simp_all add: is_i32_def)
  note A = header_directory_array[OF pg(1) p, of 1]
  show ?thesis
  proof (cases "HIH_SetBucketPageId 1 7 pg")
    case (Inl st)
    then show ?thesis using A c by simp
  next
    case (Inr pg')
    then have "HIH_GetBucketPageId 1 pg' = Inr 7" using A by simp
    then show ?thesis using Inr by blast
  qed
qed

section \<open>Properties of the index\<close>

text \<open>
  C23. Inserting into a hash index always returns and is all or nothing, wherever a fetch, an
  allocation or the linking of a new bucket page fails: a success adds the pair to the set of pairs
  (once, even if it was there) and takes only pages that nobody used, an error leaves the index as it was.
  Pages of other owners and all pin counts are as before, and on a pool without pins and failures it succeeds.
\<close>

theorem hash_insert_atomic:
  assumes "hi_state bp hid buckets" "index_entry key rid" "key \<noteq> []" "num_pages (pool_disk bp) < 2147483648"
  shows "\<exists>bp' st. HI_Insert hid key rid bp = Some (bp', st) \<and> outside_kept (hi_pages hid buckets) bp bp' \<and>
    (if status_ok st
     then \<exists>buckets'. hi_state bp' hid buckets' \<and>
       hi_entries (pool_page bp') buckets' = insert (key, rid) (hi_entries (pool_page bp) buckets) \<and>
       grows (hi_pages hid buckets) (hi_pages hid buckets') bp
     else hi_state bp' hid buckets \<and> hi_entries (pool_page bp') buckets = hi_entries (pool_page bp) buckets) \<and>
    (healthy bp \<longrightarrow> status_ok st)"
  using HI_Insert_spec[OF assms] by (auto simp: hi_inserted_def split: if_splits)

theorem hash_insert_atomic_witness:
  "\<exists>bp hid bp' st buckets'. HI_Insert hid ''k'' (RecordID 4 2) bp = Some (bp', st) \<and> status_ok st \<and>
     hi_entries (pool_page bp') buckets' = {(''k'', RecordID 4 2)}"
proof -
  obtain bp hid where b: "hi_state bp hid [[], []]" "healthy bp" "hi_entries (pool_page bp) [[], []] = {}"
    "num_pages (pool_disk bp) < 2147483648" using example_index by blast
  have e: "index_entry ''k'' (RecordID 4 2)" by (simp add: index_entry_def entry_ok_def is_i32_def layout_simps)
  from hash_insert_atomic[OF b(1) e _ b(4)] obtain bp' st buckets' where
    r: "HI_Insert hid ''k'' (RecordID 4 2) bp = Some (bp', st)" "status_ok st"
      "hi_entries (pool_page bp') buckets' = {(''k'', RecordID 4 2)}" using b(2,3) by auto
  then show ?thesis using r by blast
qed

text \<open>
  C24. A lookup in a hash index returns exactly the RecordIDs stored under the key, each once; it
  always returns, changes no page and no pin count, and reports an error only if the buffer pool could
  not load a page.
\<close>

theorem hash_lookup_exact:
  assumes "hi_state bp hid buckets" "length key \<le> MAX_KEY_LENGTH"
  shows "\<exists>bp' vs st. HI_GetValue hid key bp = Some (bp', vs, st) \<and> read_only bp bp' \<and>
    (if status_ok st then distinct vs \<and> set vs = {v. (key, v) \<in> hi_entries (pool_page bp) buckets}
     else \<not> healthy bp)"
  by (rule HI_GetValue_spec[OF assms])

theorem hash_lookup_exact_witness:
  "\<exists>bp hid bp' st. HI_GetValue hid ''k'' bp = Some (bp', [], st) \<and> status_ok st"
proof -
  obtain bp hid where b: "hi_state bp hid [[], []]" "healthy bp" "hi_entries (pool_page bp) [[], []] = {}"
    using example_index by blast
  then show ?thesis using hash_lookup_exact[OF b(1), of "''k''"] by (auto simp: layout_simps split: if_splits)
qed

text \<open>
  C25. Removing a key, or one pair, from a hash index: a success takes away exactly the pairs asked for,
  of which there was at least one; \<^verbatim>\<open>NOT_FOUND\<close> means that there was none and nothing changed. On any
  other error, which only a failing buffer pool causes, the removal of one pair has changed nothing and
  that of a key has taken away some of its pairs at most. Other pages and pin counts are as before.
\<close>

theorem hash_remove_exact:
  assumes "hi_state bp hid buckets" "length key \<le> MAX_KEY_LENGTH" "E = hi_entries (pool_page bp) buckets"
    "K = {e \<in> E. fst e = key \<and> (ro = None \<or> ro = Some (snd e))}"
  shows "\<exists>bp' st E'. HI_RemoveInternal hid key ro bp = Some (bp', st) \<and> hi_state bp' hid buckets \<and>
    outside_kept (hi_pages hid buckets) bp bp' \<and> E' = hi_entries (pool_page bp') buckets \<and>
    (if status_ok st then E' = E - K \<and> K \<noteq> {}
     else if status_code st = NOT_FOUND then E' = E \<and> K = {}
     else \<not> healthy bp \<and> E' \<subseteq> E \<and> E - E' \<subseteq> K \<and> (ro \<noteq> None \<longrightarrow> E' = E))"
proof -
  obtain bp' st where R: "HI_RemoveInternal hid key ro bp = Some (bp', st)"
    "hi_removed hid buckets key ro E bp (bp', st)"
    using HI_RemoveInternal_spec[OF assms(1,2), of ro] assms(3) by auto
  have sp: "spared key ro E = E - K" "spared key ro E = E \<longleftrightarrow> K = {}"
    using assms(4) by (auto simp: spared_def entry_hit_def)
  then show ?thesis using R by (auto simp: hi_removed_def Let_def split: if_splits)
qed

theorem hash_remove_exact_witness:
  "\<exists>bp hid bp' st. HI_RemoveInternal hid ''k'' None bp = Some (bp', st) \<and> status_code st = NOT_FOUND"
proof -
  obtain bp hid where b: "hi_state bp hid [[], []]" "healthy bp" "hi_entries (pool_page bp) [[], []] = {}"
    using example_index by blast
  then show ?thesis using hash_remove_exact[OF b(1) _ refl refl, of "''k''" None]
    by (auto simp: layout_simps split: if_splits)
qed

text \<open>
  Removing a pair that was inserted when it was not there gives back the index of before: this is
  what the maintenance of an index beside a table relies on when it undoes an insertion.
\<close>

theorem hash_remove_undoes_insert:
  assumes "hi_inv hid bp" "(key, rid) \<notin> hi_set hid bp" "hash_ins hid key rid bp = Some b"
    "hash_rem hid key (Some rid) b = Some b'"
  shows "hi_inv hid b' \<and> hi_set hid b' = hi_set hid bp"
  by (rule hash.rem_undoes_ins[OF assms])

theorem hash_remove_undoes_insert_witness:
  "\<exists>bp hid b b'. hash_ins hid ''k'' (RecordID 4 2) bp = Some b \<and> hash_rem hid ''k'' (Some (RecordID 4 2)) b = Some b' \<and>
     hi_set hid b' = {}"
proof -
  let ?r = "RecordID 4 2"
  obtain bp hid where b: "hi_state bp hid [[], []]" "healthy bp" "hi_entries (pool_page bp) [[], []] = {}"
    "num_pages (pool_disk bp) < 2147483648" using example_index by blast
  have e: "index_entry ''k'' ?r" by (simp add: index_entry_def entry_ok_def is_i32_def layout_simps)
  from HI_Insert_spec[OF b(1) e _ b(4)] obtain b1 st bs where i: "HI_Insert hid ''k'' ?r bp = Some (b1, st)"
    "status_ok st" "hi_state b1 hid bs" "hi_entries (pool_page b1) bs = {(''k'', ?r)}" "keeps_health bp b1"
    "outside_kept (hi_pages hid [[], []]) bp b1"
    using b(2,3) by (auto simp: hi_inserted_def split: if_splits)
  have "pool_ok {} b1" "pins b1 = pins bp" using i(3,6) by (simp_all add: hi_state_def outside_kept_def)
  then have h1: "healthy b1" using healthy_kept[OF b(2) i(5)] by blast
  have k: "length ''k'' \<le> MAX_KEY_LENGTH" by (simp add: layout_simps)
  obtain b2 st2 where r: "HI_RemoveInternal hid ''k'' (Some ?r) b1 = Some (b2, st2)"
    "hi_removed hid bs ''k'' (Some ?r) {(''k'', ?r)} b1 (b2, st2)"
    using HI_RemoveInternal_spec[OF i(3) k, of "Some ?r"] i(4) by auto
  have "spared ''k'' (Some ?r) {(''k'', ?r)} = {}" by (auto simp: spared_def entry_hit_def)
  then have "status_ok st2" using r(2) h1 by (auto simp: hi_removed_def Let_def split: if_splits)
  then have o: "hash_ins hid ''k'' ?r bp = Some b1" "hash_rem hid ''k'' (Some ?r) b1 = Some b2"
    using i(1,2) r(1) e b(4) by (simp_all add: hash_ins_def hash_rem_def)
  have inv: "hi_inv hid bp" "(''k'', ?r) \<notin> hi_set hid bp" "hi_set hid bp = {}"
    using hi_set_eq[OF b(1)] b(1,3) by (auto simp: hi_inv_def)
  show ?thesis
    using hash_remove_undoes_insert[OF inv(1,2) o] inv(3) o by blast
qed

text \<open>
  C32. No operation of a hash index runs forever, whatever the bytes on the pages are: cyclic,
  truncated or overwritten bucket chains, even ones through freed pages, make insertion, lookup,
  removal and destruction return.
\<close>

theorem hash_walks_return:
  assumes "bounded N bp"
  shows "HI_Insert hid key rid bp \<noteq> None \<and> HI_GetValue hid key bp \<noteq> None \<and>
    HI_RemoveKey hid key bp \<noteq> None \<and> HI_RemovePair hid key rid bp \<noteq> None \<and> HI_Destroy hid bp \<noteq> None"
  using ops_return[OF assms] unfolding HI_RemoveKey_def HI_RemovePair_def by blast

theorem hash_walks_return_witness:
  "\<exists>bp. HI_Destroy 0 bp \<noteq> None \<and> pool_page bp 0 = Some zero_page"
proof -
  obtain d bp where b: "pool_ok {} bp" "pool_disk bp = d" "page_table bp = Map.empty" "disk_page d 0 = Some zero_page"
    using example_pool[of 1] by auto
  obtain N where N: "bounded N bp" using pool_ok_bounded[OF b(1)] by blast
  have "pool_page bp 0 = Some zero_page" using b by (simp add: pool_page_def)
  then show ?thesis using hash_walks_return[OF N, of 0] by blast
qed

text \<open>
  C33. Destroying a hash index on a pool without pins and failures succeeds: the header page and every
  bucket page of every chain go to the free pages, and nothing else does or changes.
\<close>

theorem hash_destroy_frees:
  assumes "hi_state bp hid buckets" "healthy bp"
  shows "\<exists>bp'. HI_Destroy hid bp = Some (bp', INVALID_PAGE_ID, Status_OK) \<and>
    outside_kept (hi_pages hid buckets) bp bp' \<and>
    free_pages (pool_disk bp') = free_pages (pool_disk bp) \<union> set (hi_pages hid buckets)"
  using HI_Destroy_spec[OF assms] by blast

theorem hash_destroy_frees_witness:
  "\<exists>bp hid bp'. HI_Destroy hid bp = Some (bp', INVALID_PAGE_ID, Status_OK) \<and> hid \<in> free_pages (pool_disk bp')"
proof -
  obtain bp hid where b: "hi_state bp hid [[], []]" "healthy bp" using example_index by blast
  then show ?thesis using hash_destroy_frees[OF b] by (auto simp: hi_pages_def)
qed

text \<open>
  C34. Creating a hash index with 1 to 1020 buckets on a pool without pins and failures gives an empty
  index on a page that was not in use; opened again from its page it is the same index with the same
  number of buckets.
\<close>

theorem hash_create_open:
  assumes "healthy bp" "0 < n" "n \<le> MaxBucketCount"
  shows "\<exists>b hid. HI_Create n bp = (b, Inr hid) \<and> fresh_page hid bp \<and> hi_state b hid (replicate n []) \<and>
    hi_entries (pool_page b) (replicate n []) = {} \<and> outside_kept [] bp b \<and>
    (\<exists>b'. HI_Open hid b = (b', Inr hid) \<and> hi_state b' hid (replicate n [])) \<and>
    (\<exists>b'. HI_GetBucketCount hid b = (b', Inr n))"
proof -
  have ok: "pool_ok {} bp" using assms(1) by (simp add: healthy_def)
  obtain b res where c: "HI_Create n bp = (b, res)" by (cases "HI_Create n bp")
  note C = HI_Create_spec[OF ok assms(2,3) c]
  then obtain hid where r: "res = Inr hid" "fresh_page hid bp" "hi_state b hid (replicate n [])"
    "hi_entries (pool_page b) (replicate n []) = {}" "keeps_health bp b" "pins b = pins bp" "outside_kept [] bp b"
    using assms(1) by (cases res) auto
  have hl: "healthy b" using healthy_kept[OF assms(1) r(5) _ r(6)] r(3) by (simp add: hi_state_def)
  obtain b' where v: "ValidateHeader hid b = (b', Inr n)" "read_only b b'"
    using ValidateHeader_healthy[OF r(3) hl] by auto
  have "hi_state b' hid (replicate n [])" by (rule hi_read_only(1)[OF r(3) v(2)])
  moreover have "1 \<le> hid" using r(2) by (simp add: fresh_page_def)
  then have "HI_Open hid b = (b', Inr hid)" using v(1) by (simp add: HI_Open_def new_HashIndex_def layout_simps)
  ultimately show ?thesis using c r v(1) by (auto simp: HI_GetBucketCount_def)
qed

theorem hash_create_open_witness:
  "\<exists>bp b hid. HI_Create 16 bp = (b, Inr hid) \<and> hi_set hid b = {}"
proof -
  obtain bp hid where b: "healthy bp" using example_index by blast
  then obtain b hid where r: "HI_Create 16 bp = (b, Inr hid)" "hi_state b hid (replicate 16 [])"
    "hi_entries (pool_page b) (replicate 16 []) = {}"
    using hash_create_open[OF b, of 16] by (auto simp: MaxBucketCount_eq)
  then show ?thesis using hi_set_eq[OF r(2)] by (intro exI[of _ bp] exI[of _ b] exI[of _ hid]) simp
qed

end
