(* ===== verification/SQL_Text.thy ===== *)
theory SQL_Text
  imports Common
begin

text \<open>
  What the SQL front end uses of the C++ library on strings of bytes: the character classes and case
  conversions of \<^verbatim>\<open>cctype\<close> in the "C" locale, and the number conversions \<^verbatim>\<open>std::stoll\<close> and
  \<^verbatim>\<open>std::stoul\<close> with 64-bit \<^verbatim>\<open>long long\<close> and \<^verbatim>\<open>unsigned long\<close>; an exception is \<open>None\<close>.
\<close>

section \<open>Characters\<close>

definition isspace :: "char \<Rightarrow> bool" where
  "isspace c \<longleftrightarrow> (of_char c :: nat) = 32 \<or> 9 \<le> (of_char c :: nat) \<and> (of_char c :: nat) \<le> 13"

definition isdigit :: "char \<Rightarrow> bool" where
  "isdigit c \<longleftrightarrow> 48 \<le> (of_char c :: nat) \<and> (of_char c :: nat) \<le> 57"

definition isupper :: "char \<Rightarrow> bool" where
  "isupper c \<longleftrightarrow> 65 \<le> (of_char c :: nat) \<and> (of_char c :: nat) \<le> 90"

definition islower :: "char \<Rightarrow> bool" where
  "islower c \<longleftrightarrow> 97 \<le> (of_char c :: nat) \<and> (of_char c :: nat) \<le> 122"

definition isalpha :: "char \<Rightarrow> bool" where "isalpha c \<longleftrightarrow> isupper c \<or> islower c"

definition isalnum :: "char \<Rightarrow> bool" where "isalnum c \<longleftrightarrow> isalpha c \<or> isdigit c"

definition toupper :: "char \<Rightarrow> char" where
  "toupper c = (if islower c then char_of ((of_char c :: nat) - 32) else c)"

definition tolower :: "char \<Rightarrow> char" where
  "tolower c = (if isupper c then char_of ((of_char c :: nat) + 32) else c)"

section \<open>Numbers\<close>

definition digits :: "string \<Rightarrow> nat" where
  "digits ds = foldl (\<lambda>n d. 10 * n + (of_char d - 48)) 0 ds"

text \<open>White space, a sign, digits: the value and the number of characters consumed.\<close>

definition scan_sign :: "string \<Rightarrow> bool \<times> string" where
  "scan_sign s = (case s of [] \<Rightarrow> (False, [])
     | c # cs \<Rightarrow> if c = CHR ''-'' then (True, cs) else if c = CHR ''+'' then (False, cs) else (False, s))"

definition scan_number :: "string \<Rightarrow> (bool \<times> nat \<times> nat) option" where
  "scan_number s = (case scan_sign (dropWhile isspace s) of (negative, rest) \<Rightarrow>
     let ds = takeWhile isdigit rest
     in if ds = [] then None else Some (negative, digits ds, length s - length rest + length ds))"

definition stoll :: "string \<Rightarrow> (int \<times> nat) option" where
  "stoll s = (case scan_number s of None \<Rightarrow> None
     | Some (negative, n, consumed) \<Rightarrow>
         let v = (if negative then - int n else int n)
         in if - (2 ^ 63) \<le> v \<and> v < 2 ^ 63 then Some (v, consumed) else None)"

text \<open>A minus sign makes \<^verbatim>\<open>std::stoul\<close> negate modulo \<open>2 ^ 64\<close>.\<close>

definition stoul :: "string \<Rightarrow> nat option" where
  "stoul s = (case scan_number s of None \<Rightarrow> None
     | Some (negative, n, consumed) \<Rightarrow>
         if n < 2 ^ 64 then Some (if negative then (2 ^ 64 - n) mod 2 ^ 64 else n) else None)"

section \<open>Printing numbers\<close>

definition show_digit :: "nat \<Rightarrow> char" where "show_digit d = char_of (48 + d)"

fun show_nat :: "nat \<Rightarrow> string" where
  "show_nat n = (if n < 10 then [show_digit n] else show_nat (n div 10) @ [show_digit (n mod 10)])"

declare show_nat.simps [simp del]

definition show_int :: "int \<Rightarrow> string" where
  "show_int i = (if i < 0 then CHR ''-'' # show_nat (nat (- i)) else show_nat (nat i))"

lemma of_char_digit [simp]: "d < 10 \<Longrightarrow> (of_char (show_digit d) :: nat) = 48 + d"
  by (simp add: show_digit_def)

lemma isdigit_show_digit [simp]: "d < 10 \<Longrightarrow> isdigit (show_digit d)"
  by (simp add: isdigit_def)

lemma digits_snoc [simp]: "digits [] = 0" "digits (ds @ [d]) = 10 * digits ds + (of_char d - 48)"
  by (simp_all add: digits_def)

lemma show_nat_digits: "digits (show_nat n) = n \<and> show_nat n \<noteq> [] \<and> (\<forall>c \<in> set (show_nat n). isdigit c)"
proof (induction n rule: show_nat.induct)
  case (1 n)
  have "digits [show_digit n] = n" if "n < 10" using that digits_snoc(2)[of "[]" "show_digit n"] by simp
  then show ?case using 1 by (subst (1 2 3) show_nat.simps) auto
qed

lemma not_space_digit: "isdigit c \<Longrightarrow> \<not> isspace c"
  by (auto simp: isdigit_def isspace_def)

lemma scan_digits:
  assumes "ds \<noteq> []" "\<forall>c \<in> set ds. isdigit c"
  shows "scan_number ds = Some (False, digits ds, length ds)"
    "scan_number (CHR ''-'' # ds) = Some (True, digits ds, Suc (length ds))"
proof -
  obtain c cs where ds: "ds = c # cs" using assms(1) by (cases ds) auto
  have c: "isdigit c" using assms(2) ds by simp
  then have "c \<noteq> CHR ''-''" "c \<noteq> CHR ''+''" by (auto simp: isdigit_def)
  then have "scan_sign ds = (False, ds)" by (simp add: scan_sign_def ds)
  moreover have "dropWhile isspace ds = ds" using not_space_digit[OF c] ds by simp
  moreover have tw: "takeWhile isdigit ds = ds" using assms(2) by simp
  ultimately show "scan_number ds = Some (False, digits ds, length ds)"
    using assms(1) by (simp add: scan_number_def Let_def tw)
  have "\<not> isspace (CHR ''-'')" by (simp add: isspace_def)
  then show "scan_number (CHR ''-'' # ds) = Some (True, digits ds, Suc (length ds))"
    using assms(1) by (simp add: scan_number_def scan_sign_def Let_def tw)
qed

lemma stoul_show: "n < 2 ^ 64 \<Longrightarrow> stoul (show_nat n) = Some n"
  using scan_digits(1)[of "show_nat n"] show_nat_digits[of n] by (simp add: stoul_def)

lemma stoll_show:
  "stoll (show_int i) = (if - (2 ^ 63) \<le> i \<and> i < 2 ^ 63 then Some (i, length (show_int i)) else None)"
  using scan_digits[of "show_nat (nat i)"] scan_digits[of "show_nat (nat (- i))"]
    show_nat_digits[of "nat i"] show_nat_digits[of "nat (- i)"]
  by (auto simp: stoll_def show_int_def)

end
