(* ===== verification/Tokenizer.thy ===== *)
theory Tokenizer
  imports SQL_Text
begin

text \<open>
  The SQL tokenizer (query/tokenizer.h, query/tokenizer.cpp). The tokenizer's cursor is represented by
  the text that is left from it on. \<open>NextToken\<close> is the body of the loop of \<^verbatim>\<open>Tokenize\<close> behind the
  skipping of white space: the token it appends and, where it continues, the text that is left.
\<close>

section \<open>Tokens\<close>

datatype token_type = KEYWORD_SELECT | KEYWORD_INSERT | KEYWORD_UPDATE | KEYWORD_DELETE | KEYWORD_CREATE
  | KEYWORD_TABLE | KEYWORD_INDEX | KEYWORD_ON | KEYWORD_INTO | KEYWORD_VALUES | KEYWORD_FROM
  | KEYWORD_WHERE | KEYWORD_SET | KEYWORD_EXPLAIN | KEYWORD_ANALYZE | KEYWORD_AND | KEYWORD_NULL
  | IDENTIFIER | NUMBER | STRING_LITERAL | ASTERISK | COMMA | EQUAL | GREATER | LESS | GREATER_EQUAL
  | LESS_EQUAL | SEMICOLON | LPAREN | RPAREN | INVALID | END_OF_FILE

datatype token = Token (tok_type: token_type) (tok_text: string)

section \<open>The cursor\<close>

definition TK_Peek :: "string \<Rightarrow> char" where
  "TK_Peek rest = (case rest of [] \<Rightarrow> CHR 0x00 | c # _ \<Rightarrow> c)"

definition TK_PeekNext :: "string \<Rightarrow> char" where
  "TK_PeekNext rest = (case rest of _ # c # _ \<Rightarrow> c | _ \<Rightarrow> CHR 0x00)"

definition TK_Get :: "string \<Rightarrow> char \<times> string" where
  "TK_Get rest = (case rest of [] \<Rightarrow> (CHR 0x00, []) | c # cs \<Rightarrow> (c, cs))"

definition SkipWhitespace :: "string \<Rightarrow> string" where
  "SkipWhitespace rest = dropWhile isspace rest"

section \<open>The parts of the loop\<close>

text \<open>The text behind the opening quote: the value, the text left and \<^verbatim>\<open>terminated\<close>.\<close>

fun ScanString :: "char \<Rightarrow> string \<Rightarrow> string \<Rightarrow> string \<times> string \<times> bool" where
  "ScanString quote val [] = (val, [], False)"
| "ScanString quote val (c # cs) =
     (if c = quote
      then (case cs of
          d # ds \<Rightarrow> if d = quote then ScanString quote (val @ [quote]) ds else (val, cs, True)
        | [] \<Rightarrow> (val, cs, True))
      else ScanString quote (val @ [c]) cs)"

definition word_char :: "char \<Rightarrow> bool" where "word_char c \<longleftrightarrow> isalnum c \<or> c = CHR ''_''"

definition KeywordOf :: "string \<Rightarrow> token_type" where
  "KeywordOf upper_word =
     (if upper_word = ''SELECT'' then KEYWORD_SELECT
      else if upper_word = ''INSERT'' then KEYWORD_INSERT
      else if upper_word = ''UPDATE'' then KEYWORD_UPDATE
      else if upper_word = ''DELETE'' then KEYWORD_DELETE
      else if upper_word = ''CREATE'' then KEYWORD_CREATE
      else if upper_word = ''TABLE'' then KEYWORD_TABLE
      else if upper_word = ''INDEX'' then KEYWORD_INDEX
      else if upper_word = ''ON'' then KEYWORD_ON
      else if upper_word = ''INTO'' then KEYWORD_INTO
      else if upper_word = ''VALUES'' then KEYWORD_VALUES
      else if upper_word = ''FROM'' then KEYWORD_FROM
      else if upper_word = ''WHERE'' then KEYWORD_WHERE
      else if upper_word = ''SET'' then KEYWORD_SET
      else if upper_word = ''EXPLAIN'' then KEYWORD_EXPLAIN
      else if upper_word = ''ANALYZE'' then KEYWORD_ANALYZE
      else if upper_word = ''AND'' then KEYWORD_AND
      else if upper_word = ''NULL'' then KEYWORD_NULL
      else IDENTIFIER)"

definition ScanWord :: "string \<Rightarrow> token \<times> string" where
  "ScanWord rest =
     (let word = takeWhile word_char rest
      in (Token (KeywordOf (map toupper word)) word, dropWhile word_char rest))"

definition ScanNumber :: "string \<Rightarrow> token \<times> string" where
  "ScanNumber rest =
     (let (sign, rest) = (if TK_Peek rest = CHR ''-'' then ([CHR ''-''], snd (TK_Get rest)) else ([], rest))
      in (Token NUMBER (sign @ takeWhile isdigit rest), dropWhile isdigit rest))"

definition NextToken :: "string \<Rightarrow> token \<times> string option" where
  "NextToken rest =
     (let character = TK_Peek rest; tail = snd (TK_Get rest)
      in if character = CHR ''*'' then (Token ASTERISK ''*'', Some tail)
         else if character = CHR '','' then (Token COMMA '','', Some tail)
         else if character = CHR ''='' then (Token EQUAL ''='', Some tail)
         else if character = CHR ''>''
         then (if TK_Peek tail = CHR ''='' then (Token GREATER_EQUAL ''>='', Some (snd (TK_Get tail)))
               else (Token GREATER ''>'', Some tail))
         else if character = CHR ''<''
         then (if TK_Peek tail = CHR ''='' then (Token LESS_EQUAL ''<='', Some (snd (TK_Get tail)))
               else (Token LESS ''<'', Some tail))
         else if character = CHR '';'' then (Token SEMICOLON '';'', Some tail)
         else if character = CHR ''('' then (Token LPAREN ''('', Some tail)
         else if character = CHR '')'' then (Token RPAREN '')'', Some tail)
         else if character = CHR 0x27 \<or> character = CHR 0x22
         then (case ScanString character [] tail of (val, rest, terminated) \<Rightarrow>
             if \<not> terminated then (Token INVALID ''Unterminated string literal'', None)
             else (Token STRING_LITERAL val, Some rest))
         else if isalpha character \<or> character = CHR ''_''
         then (case ScanWord rest of (t, rest) \<Rightarrow> (t, Some rest))
         else if isdigit character \<or> character = CHR ''-'' \<and> isdigit (TK_PeekNext rest)
         then (case ScanNumber rest of (t, rest) \<Rightarrow> (t, Some rest))
         else (Token INVALID (''Unexpected character: '' @ [character]), None))"

section \<open>The loop\<close>

lemma ScanString_length: "ScanString q v s = (v', s', t) \<Longrightarrow> length s' \<le> length s"
  by (induction q v s rule: ScanString.induct) (auto split: if_splits list.splits)

lemma peek_get_simps [simp]:
  "TK_Peek (c # cs) = c" "TK_Get (c # cs) = (c, cs)" "TK_Get [] = (CHR 0x00, [])" "TK_Peek [] = CHR 0x00"
  "TK_PeekNext (c # d # ds) = d" "TK_PeekNext [c] = CHR 0x00" "TK_PeekNext [] = CHR 0x00"
  by (simp_all add: TK_Peek_def TK_Get_def TK_PeekNext_def)

lemma length_tail: "length (snd (TK_Get s)) \<le> length s"
  by (cases s) simp_all

lemma isalpha_word: "isalpha c \<Longrightarrow> word_char c"
  by (simp add: word_char_def isalnum_def)

lemma ScanWord_length:
  "ScanWord (c # cs) = (t, rest) \<Longrightarrow> word_char c \<Longrightarrow> length rest \<le> length cs"
  using length_dropWhile_le[of word_char cs] by (auto simp: ScanWord_def Let_def)

lemma ScanNumber_length:
  "ScanNumber (c # cs) = (t, rest) \<Longrightarrow> isdigit c \<or> c = CHR ''-'' \<Longrightarrow> length rest \<le> length cs"
  using length_dropWhile_le[of isdigit cs] by (auto simp: ScanNumber_def Let_def split: if_splits)

lemma NextToken_length:
  assumes "NextToken rest = (t, Some rest')" "rest \<noteq> []"
  shows "length rest' < length rest"
proof -
  obtain c cs where r: "rest = c # cs" using assms(2) by (cases rest) auto
  have w: "isalpha c \<or> c = CHR ''_'' \<Longrightarrow> word_char c" using isalpha_word[of c] by (auto simp: word_char_def)
  have "rest' = cs \<or> rest' = snd (TK_Get cs) \<or> (\<exists>v. ScanString c [] cs = (v, rest', True)) \<or>
      word_char c \<and> (\<exists>t. ScanWord rest = (t, rest')) \<or>
      (isdigit c \<or> c = CHR ''-'') \<and> (\<exists>t. ScanNumber rest = (t, rest'))"
    using assms(1) w unfolding r NextToken_def Let_def peek_get_simps snd_conv
    by (simp split: if_split_asm prod.split_asm) blast
  then have "length rest' \<le> length cs"
    using length_tail[of cs] ScanString_length[of c "[]" cs _ rest' True] ScanWord_length[of c cs _ rest']
      ScanNumber_length[of c cs _ rest'] unfolding r by blast
  then show ?thesis using r by simp
qed

function TokenizeLoop :: "string \<Rightarrow> token list" where
  "TokenizeLoop rest =
     (let rest = SkipWhitespace rest
      in if rest = [] then []
         else (case NextToken rest of
             (t, None) \<Rightarrow> [t]
           | (t, Some rest) \<Rightarrow> t # TokenizeLoop rest))"
  by pat_completeness auto
termination
proof (relation "measure length", goal_cases)
  case (2 rest r t o' r')
  have "NextToken r = (t, Some r')" using 2(3,4) by simp
  from NextToken_length[OF this 2(2)] show ?case
    using 2(1) length_dropWhile_le[of isspace rest] by (simp add: SkipWhitespace_def)
qed simp

declare TokenizeLoop.simps [simp del]

definition Tokenize :: "string \<Rightarrow> token list" where
  "Tokenize sql = TokenizeLoop sql @ [Token END_OF_FILE '''']"

end
