(* ===== verification/Parser.thy ===== *)
theory Parser
  imports Tokenizer
begin

text \<open>
  The SQL parser (query/parser.h, query/parser.cpp) and the literals it builds (query/literal.h). The
  parser's cursor is represented by the tokens that are left from it on. An operation returns its
  result with the tokens left, or the status it stops with; the cursor of a parser that has failed is
  not represented. Null output pointers have no counterpart.
\<close>

section \<open>Statements\<close>

datatype literal_kind = Kind_NUMBER | Kind_STRING | Kind_IDENTIFIER | Kind_NULL_VALUE

datatype sql_literal = SQLLiteral (lit_kind: literal_kind) (lit_text: string)

datatype condition = Condition (cond_column: string) (cond_op: string) (cond_value: sql_literal)

datatype column_definition =
  ColumnDefinition (def_name: string) (def_type_name: string) (def_length: nat)

datatype sql_statement =
    SelectStatement (st_table: string) (st_fields: "string list") (st_conditions: "condition list") (is_explain: bool)
  | InsertStatement (st_table: string) (st_values: "sql_literal list")
  | UpdateStatement (st_table: string) (st_column: string) (st_new_value: sql_literal)
      (st_conditions: "condition list")
  | DeleteStatement (st_table: string) (st_conditions: "condition list")
  | CreateTableStatement (st_table: string) (st_columns: "column_definition list")
  | CreateIndexStatement (st_index: string) (st_table: string) (st_column: string)

section \<open>The cursor\<close>

definition PS_Peek :: "token list \<Rightarrow> token" where
  "PS_Peek ts = (case ts of [] \<Rightarrow> Token END_OF_FILE '''' | t # _ \<Rightarrow> t)"

definition PS_Advance :: "token list \<Rightarrow> token \<times> token list" where
  "PS_Advance ts = (case ts of [] \<Rightarrow> (Token END_OF_FILE '''', []) | t # ts \<Rightarrow> (t, ts))"

definition Match :: "token_type \<Rightarrow> token list \<Rightarrow> bool \<times> token list" where
  "Match ty ts = (if tok_type (PS_Peek ts) \<noteq> ty then (False, ts) else (True, snd (PS_Advance ts)))"

definition FinishStatement :: "token list \<Rightarrow> status" where
  "FinishStatement ts = (case Match SEMICOLON ts of (_, ts) \<Rightarrow>
     if tok_type (PS_Peek ts) = INVALID then InvalidArgument (tok_text (PS_Peek ts))
     else if tok_type (PS_Peek ts) \<noteq> END_OF_FILE
     then InvalidArgument ''Se encontraron tokens inesperados al final de la sentencia''
     else Status_OK)"

text \<open>The recurrent steps: an identifier is expected, a token is expected.\<close>

definition ExpectIdentifier :: "string \<Rightarrow> token list \<Rightarrow> (string \<times> token list) result" where
  "ExpectIdentifier msg ts =
     (if tok_type (PS_Peek ts) \<noteq> IDENTIFIER then Inl (InvalidArgument msg)
      else case PS_Advance ts of (t, ts) \<Rightarrow> Inr (tok_text t, ts))"

definition ExpectToken :: "token_type \<Rightarrow> string \<Rightarrow> token list \<Rightarrow> token list result" where
  "ExpectToken ty msg ts = (case Match ty ts of
     (False, _) \<Rightarrow> Inl (InvalidArgument msg)
   | (True, ts) \<Rightarrow> Inr ts)"

section \<open>Literals and conditions\<close>

definition ParseLiteral :: "token list \<Rightarrow> (sql_literal \<times> token list) result" where
  "ParseLiteral ts = (case PS_Advance ts of (token, ts) \<Rightarrow>
     (case tok_type token of
        NUMBER \<Rightarrow> Inr (SQLLiteral Kind_NUMBER (tok_text token), ts)
      | STRING_LITERAL \<Rightarrow> Inr (SQLLiteral Kind_STRING (tok_text token), ts)
      | IDENTIFIER \<Rightarrow> Inr (SQLLiteral Kind_IDENTIFIER (tok_text token), ts)
      | KEYWORD_NULL \<Rightarrow> Inr (SQLLiteral Kind_NULL_VALUE '''', ts)
      | INVALID \<Rightarrow> Inl (InvalidArgument (tok_text token))
      | _ \<Rightarrow> Inl (InvalidArgument ''Se esperaba un literal'')))"

definition ParseOperator :: "token list \<Rightarrow> (string \<times> token list) result" where
  "ParseOperator ts =
     (if fst (Match EQUAL ts) then Inr (''='', snd (Match EQUAL ts))
      else if fst (Match GREATER_EQUAL ts) then Inr (''>='', snd (Match GREATER_EQUAL ts))
      else if fst (Match LESS_EQUAL ts) then Inr (''<='', snd (Match LESS_EQUAL ts))
      else if fst (Match GREATER ts) then Inr (''>'', snd (Match GREATER ts))
      else if fst (Match LESS ts) then Inr (''<'', snd (Match LESS ts))
      else Inl (InvalidArgument ''Operador no soportado en WHERE''))"

definition ParseCondition :: "token list \<Rightarrow> (condition \<times> token list) result" where
  "ParseCondition ts = (case ExpectIdentifier ''Se esperaba un nombre de columna en WHERE'' ts of
     Inl st \<Rightarrow> Inl st
   | Inr (column, ts) \<Rightarrow> (case ParseOperator ts of
        Inl st \<Rightarrow> Inl st
      | Inr (operator, ts) \<Rightarrow> (case ParseLiteral ts of
           Inl st \<Rightarrow> Inl st
         | Inr (l, ts) \<Rightarrow> Inr (Condition column operator l, ts))))"

subsection \<open>Every step leaves fewer tokens\<close>

lemma cursor_simps [simp]:
  "PS_Peek [] = Token END_OF_FILE ''''" "PS_Peek (t # ts) = t"
  "PS_Advance [] = (Token END_OF_FILE '''', [])" "PS_Advance (t # ts) = (t, ts)"
  by (simp_all add: PS_Peek_def PS_Advance_def)

lemma Match_simps [simp]:
  "Match ty (t # ts) = (if tok_type t = ty then (True, ts) else (False, t # ts))"
  "Match ty [] = (ty = END_OF_FILE, [])"
  by (simp_all add: Match_def)

lemma Match_length: "Match ty ts = (True, ts') \<Longrightarrow> ty \<noteq> END_OF_FILE \<Longrightarrow> length ts' < length ts"
  by (cases ts) (auto split: if_splits)

lemma snd_Match_length: "length (snd (Match ty ts)) \<le> length ts"
  by (cases ts) auto

lemma ExpectIdentifier_length: "ExpectIdentifier m ts = Inr (x, ts') \<Longrightarrow> length ts' < length ts"
  by (cases ts) (auto simp: ExpectIdentifier_def split: if_splits)

lemma ParseLiteral_length: "ParseLiteral ts = Inr (l, ts') \<Longrightarrow> length ts' < length ts"
  by (cases ts) (auto simp: ParseLiteral_def split: token_type.splits)

lemma ParseOperator_length: "ParseOperator ts = Inr (x, ts') \<Longrightarrow> length ts' \<le> length ts"
  using snd_Match_length by (auto simp: ParseOperator_def split: if_splits)

lemma ParseCondition_length: "ParseCondition ts = Inr (c, ts') \<Longrightarrow> length ts' < length ts"
  by (auto simp: ParseCondition_def dest!: ExpectIdentifier_length ParseLiteral_length ParseOperator_length
      split: sum.splits)

function ParseConditions :: "token list \<Rightarrow> (condition list \<times> token list) result" where
  "ParseConditions ts = (case ParseCondition ts of
     Inl st \<Rightarrow> Inl st
   | Inr (c, ts) \<Rightarrow> (case Match KEYWORD_AND ts of
        (False, ts) \<Rightarrow> Inr ([c], ts)
      | (True, ts) \<Rightarrow> (case ParseConditions ts of
           Inl st \<Rightarrow> Inl st
         | Inr (cs, ts) \<Rightarrow> Inr (c # cs, ts))))"
  by pat_completeness auto
termination
  by (relation "measure length") (force dest!: ParseCondition_length dest: Match_length[OF sym])+

text \<open>\<^verbatim>\<open>WHERE\<close>, where a statement may have it.\<close>

definition ParseWhere :: "token list \<Rightarrow> (condition list \<times> token list) result" where
  "ParseWhere ts = (case Match KEYWORD_WHERE ts of
     (False, ts) \<Rightarrow> Inr ([], ts)
   | (True, ts) \<Rightarrow> ParseConditions ts)"

definition Finish :: "sql_statement \<Rightarrow> token list \<Rightarrow> sql_statement result" where
  "Finish statement ts =
     (if \<not> status_ok (FinishStatement ts) then Inl (FinishStatement ts) else Inr statement)"

section \<open>The lists separated by commas\<close>

function ParseFields :: "token list \<Rightarrow> (string list \<times> token list) result" where
  "ParseFields ts = (case ExpectIdentifier ''Se esperaba un nombre de columna en SELECT'' ts of
     Inl st \<Rightarrow> Inl st
   | Inr (field, ts) \<Rightarrow> (case Match COMMA ts of
        (False, ts) \<Rightarrow> Inr ([field], ts)
      | (True, ts) \<Rightarrow> (case ParseFields ts of
           Inl st \<Rightarrow> Inl st
         | Inr (names, ts) \<Rightarrow> Inr (field # names, ts))))"
  by pat_completeness auto
termination
  by (relation "measure length") (force dest!: ExpectIdentifier_length dest: Match_length[OF sym])+

function ParseValues :: "token list \<Rightarrow> (sql_literal list \<times> token list) result" where
  "ParseValues ts = (case ParseLiteral ts of
     Inl st \<Rightarrow> Inl st
   | Inr (l, ts) \<Rightarrow> (case Match COMMA ts of
        (False, ts) \<Rightarrow> Inr ([l], ts)
      | (True, ts) \<Rightarrow> (case ParseValues ts of
           Inl st \<Rightarrow> Inl st
         | Inr (ls, ts) \<Rightarrow> Inr (l # ls, ts))))"
  by pat_completeness auto
termination
  by (relation "measure length") (force dest!: ParseLiteral_length dest: Match_length[OF sym])+

text \<open>The length between parentheses; without them it is 0.\<close>

definition ParseLength :: "token list \<Rightarrow> (nat \<times> token list) result" where
  "ParseLength ts = (case Match LPAREN ts of
     (False, ts) \<Rightarrow> Inr (0, ts)
   | (True, ts) \<Rightarrow>
       if tok_type (PS_Peek ts) \<noteq> NUMBER
       then Inl (InvalidArgument ''Se esperaba la longitud del tipo entre parentesis'')
       else (case PS_Advance ts of (t, ts) \<Rightarrow> (case stoul (tok_text t) of
            None \<Rightarrow> Inl (InvalidArgument ''Longitud de columna invalida'')
          | Some parsed \<Rightarrow>
              if parsed = 0 \<or> parsed > 4294967295
              then Inl (InvalidArgument ''Longitud de columna fuera de rango'')
              else (case ExpectToken RPAREN ''Se esperaba ')' despues de la longitud del tipo'' ts of
                 Inl st \<Rightarrow> Inl st
               | Inr ts \<Rightarrow> Inr (parsed, ts)))))"

definition ParseColumn :: "token list \<Rightarrow> (column_definition \<times> token list) result" where
  "ParseColumn ts = (case ExpectIdentifier ''Se esperaba nombre de columna'' ts of
     Inl st \<Rightarrow> Inl st
   | Inr (name, ts) \<Rightarrow> (case ExpectIdentifier ''Se esperaba tipo de datos de columna'' ts of
        Inl st \<Rightarrow> Inl st
      | Inr (type_name, ts) \<Rightarrow> (case ParseLength ts of
           Inl st \<Rightarrow> Inl st
         | Inr (n, ts) \<Rightarrow> Inr (ColumnDefinition name type_name n, ts))))"

lemma ExpectToken_length: "ExpectToken ty m ts = Inr ts' \<Longrightarrow> length ts' \<le> length ts"
  by (cases ts) (auto simp: ExpectToken_def split: if_splits bool.splits)

lemma ParseLength_length: "ParseLength ts = Inr (n, ts') \<Longrightarrow> length ts' \<le> length ts"
  by (cases ts; cases "tl ts")
     (auto simp: ParseLength_def dest!: ExpectToken_length split: if_splits bool.splits option.splits sum.splits)

lemma ParseColumn_length: "ParseColumn ts = Inr (c, ts') \<Longrightarrow> length ts' < length ts"
  by (auto simp: ParseColumn_def dest!: ExpectIdentifier_length ParseLength_length split: sum.splits)

function ParseColumns :: "token list \<Rightarrow> (column_definition list \<times> token list) result" where
  "ParseColumns ts = (case ParseColumn ts of
     Inl st \<Rightarrow> Inl st
   | Inr (c, ts) \<Rightarrow> (case Match COMMA ts of
        (False, ts) \<Rightarrow> Inr ([c], ts)
      | (True, ts) \<Rightarrow> (case ParseColumns ts of
           Inl st \<Rightarrow> Inl st
         | Inr (cs, ts) \<Rightarrow> Inr (c # cs, ts))))"
  by pat_completeness auto
termination
  by (relation "measure length") (force dest!: ParseColumn_length dest: Match_length[OF sym])+

declare ParseConditions.simps [simp del] ParseFields.simps [simp del] ParseValues.simps [simp del]
  ParseColumns.simps [simp del]

section \<open>The statements\<close>

definition ParseSelect :: "bool \<Rightarrow> token list \<Rightarrow> sql_statement result" where
  "ParseSelect explain ts =
     (case (case Match ASTERISK ts of (True, ts) \<Rightarrow> Inr ([''*''], ts) | (False, ts) \<Rightarrow> ParseFields ts) of
        Inl st \<Rightarrow> Inl st
      | Inr (names, ts) \<Rightarrow> (case ExpectToken KEYWORD_FROM ''Se esperaba la clausula FROM'' ts of
           Inl st \<Rightarrow> Inl st
         | Inr ts \<Rightarrow> (case ExpectIdentifier ''Se esperaba un nombre de tabla despues de FROM'' ts of
              Inl st \<Rightarrow> Inl st
            | Inr (table_name, ts) \<Rightarrow> (case ParseWhere ts of
                 Inl st \<Rightarrow> Inl st
               | Inr (conditions, ts) \<Rightarrow>
                   Finish (SelectStatement table_name names conditions explain) ts))))"

definition ParseInsert :: "token list \<Rightarrow> sql_statement result" where
  "ParseInsert ts = (case ExpectToken KEYWORD_INTO ''Se esperaba INTO despues de INSERT'' ts of
     Inl st \<Rightarrow> Inl st
   | Inr ts \<Rightarrow> (case ExpectIdentifier ''Se esperaba el nombre de la tabla'' ts of
        Inl st \<Rightarrow> Inl st
      | Inr (table_name, ts) \<Rightarrow> (case ExpectToken KEYWORD_VALUES ''Se esperaba VALUES (...)'' ts of
           Inl st \<Rightarrow> Inl st
         | Inr ts \<Rightarrow> (case ExpectToken LPAREN ''Se esperaba VALUES (...)'' ts of
              Inl st \<Rightarrow> Inl st
            | Inr ts \<Rightarrow> (case ParseValues ts of
                 Inl st \<Rightarrow> Inl st
               | Inr (vals, ts) \<Rightarrow> (case ExpectToken RPAREN ''Se esperaba ')' al final de VALUES'' ts of
                    Inl st \<Rightarrow> Inl st
                  | Inr ts \<Rightarrow> Finish (InsertStatement table_name vals) ts))))))"

definition ParseUpdate :: "token list \<Rightarrow> sql_statement result" where
  "ParseUpdate ts = (case ExpectIdentifier ''Se esperaba el nombre de la tabla en UPDATE'' ts of
     Inl st \<Rightarrow> Inl st
   | Inr (table_name, ts) \<Rightarrow> (case ExpectToken KEYWORD_SET ''Se esperaba la clausula SET'' ts of
        Inl st \<Rightarrow> Inl st
      | Inr ts \<Rightarrow> (case ExpectIdentifier ''Se esperaba la columna a actualizar en SET'' ts of
           Inl st \<Rightarrow> Inl st
         | Inr (column_name, ts) \<Rightarrow> (case ExpectToken EQUAL ''Se esperaba '=' en SET'' ts of
              Inl st \<Rightarrow> Inl st
            | Inr ts \<Rightarrow> (case ParseLiteral ts of
                 Inl st \<Rightarrow> Inl st
               | Inr (new_value, ts) \<Rightarrow> (case ParseWhere ts of
                    Inl st \<Rightarrow> Inl st
                  | Inr (conditions, ts) \<Rightarrow>
                      Finish (UpdateStatement table_name column_name new_value conditions) ts))))))"

definition ParseDelete :: "token list \<Rightarrow> sql_statement result" where
  "ParseDelete ts = (case ExpectToken KEYWORD_FROM ''Se esperaba FROM despues de DELETE'' ts of
     Inl st \<Rightarrow> Inl st
   | Inr ts \<Rightarrow> (case ExpectIdentifier ''Se esperaba el nombre de la tabla en DELETE'' ts of
        Inl st \<Rightarrow> Inl st
      | Inr (table_name, ts) \<Rightarrow> (case ParseWhere ts of
           Inl st \<Rightarrow> Inl st
         | Inr (conditions, ts) \<Rightarrow> Finish (DeleteStatement table_name conditions) ts)))"

definition ParseCreateTable :: "token list \<Rightarrow> sql_statement result" where
  "ParseCreateTable ts = (case ExpectIdentifier ''Se esperaba el nombre de la tabla en CREATE TABLE'' ts of
     Inl st \<Rightarrow> Inl st
   | Inr (table_name, ts) \<Rightarrow>
       (case ExpectToken LPAREN ''Se esperaba '(' despues del nombre de la tabla'' ts of
          Inl st \<Rightarrow> Inl st
        | Inr ts \<Rightarrow> (case ParseColumns ts of
             Inl st \<Rightarrow> Inl st
           | Inr (columns, ts) \<Rightarrow> (case ExpectToken RPAREN ''Se esperaba ')' al final de las columnas'' ts of
                Inl st \<Rightarrow> Inl st
              | Inr ts \<Rightarrow> Finish (CreateTableStatement table_name columns) ts))))"

definition ParseCreateIndex :: "token list \<Rightarrow> sql_statement result" where
  "ParseCreateIndex ts = (case ExpectIdentifier ''Se esperaba el nombre del indice'' ts of
     Inl st \<Rightarrow> Inl st
   | Inr (index_name, ts) \<Rightarrow> (case ExpectToken KEYWORD_ON ''Se esperaba ON en CREATE INDEX'' ts of
        Inl st \<Rightarrow> Inl st
      | Inr ts \<Rightarrow> (case ExpectIdentifier ''Se esperaba el nombre de la tabla'' ts of
           Inl st \<Rightarrow> Inl st
         | Inr (table_name, ts) \<Rightarrow>
             (case ExpectToken LPAREN ''Se esperaba una columna entre parentesis'' ts of
                Inl st \<Rightarrow> Inl st
              | Inr ts \<Rightarrow> (case ExpectIdentifier ''Se esperaba una columna entre parentesis'' ts of
                   Inl st \<Rightarrow> Inl st
                 | Inr (column_name, ts) \<Rightarrow>
                     (case ExpectToken RPAREN ''Se esperaba ')' en CREATE INDEX'' ts of
                        Inl st \<Rightarrow> Inl st
                      | Inr ts \<Rightarrow> Finish (CreateIndexStatement index_name table_name column_name) ts))))))"

definition ParseExplain :: "token list \<Rightarrow> sql_statement result" where
  "ParseExplain ts = (case ExpectToken KEYWORD_ANALYZE ''Se esperaba ANALYZE despues de EXPLAIN'' ts of
     Inl st \<Rightarrow> Inl st
   | Inr ts \<Rightarrow> (case ExpectToken KEYWORD_SELECT ''Se esperaba SELECT despues de EXPLAIN ANALYZE'' ts of
        Inl st \<Rightarrow> Inl st
      | Inr ts \<Rightarrow> ParseSelect True ts))"

definition Parse :: "token list \<Rightarrow> sql_statement result" where
  "Parse ts = (case find (\<lambda>t. tok_type t = INVALID) ts of
     Some t \<Rightarrow> Inl (InvalidArgument (tok_text t))
   | None \<Rightarrow>
       if ts = [] \<or> tok_type (PS_Peek ts) = END_OF_FILE
       then Inl (InvalidArgument ''No hay tokens para procesar'')
       else case PS_Advance ts of (command, rest) \<Rightarrow> (case tok_type command of
          KEYWORD_EXPLAIN \<Rightarrow> ParseExplain rest
        | KEYWORD_SELECT \<Rightarrow> ParseSelect False rest
        | KEYWORD_INSERT \<Rightarrow> ParseInsert rest
        | KEYWORD_UPDATE \<Rightarrow> ParseUpdate rest
        | KEYWORD_DELETE \<Rightarrow> ParseDelete rest
        | KEYWORD_CREATE \<Rightarrow> (case PS_Advance rest of (object, rest) \<Rightarrow> (case tok_type object of
             KEYWORD_TABLE \<Rightarrow> ParseCreateTable rest
           | KEYWORD_INDEX \<Rightarrow> ParseCreateIndex rest
           | _ \<Rightarrow> Inl (InvalidArgument ''Se esperaba TABLE o INDEX despues de CREATE'')))
        | _ \<Rightarrow> Inl (InvalidArgument ''Comando SQL no soportado'')))"

end
