(* ===== verification/Tokenizer_Correct.thy ===== *)
theory Tokenizer_Correct
  imports Tokenizer
begin

text \<open>
  The lemmas about the tokenizer: the tokens it can produce, printed with spaces between them, are
  read back, and whatever the text, it produces such tokens, then at most one error, then the end.
\<close>

section \<open>The tokens of the language\<close>

definition is_word :: "string \<Rightarrow> bool" where
  "is_word w \<longleftrightarrow> w \<noteq> [] \<and> (isalpha (hd w) \<or> hd w = CHR ''_'') \<and> (\<forall>c \<in> set w. word_char c)"

definition is_number :: "string \<Rightarrow> bool" where
  "is_number n \<longleftrightarrow> (\<exists>ds. ds \<noteq> [] \<and> (\<forall>c \<in> set ds. isdigit c) \<and> (n = ds \<or> n = CHR ''-'' # ds))"

definition symbol_text :: "token_type \<Rightarrow> string option" where
  "symbol_text ty = (case ty of ASTERISK \<Rightarrow> Some ''*'' | COMMA \<Rightarrow> Some '','' | EQUAL \<Rightarrow> Some ''=''
     | GREATER \<Rightarrow> Some ''>'' | LESS \<Rightarrow> Some ''<'' | GREATER_EQUAL \<Rightarrow> Some ''>='' | LESS_EQUAL \<Rightarrow> Some ''<=''
     | SEMICOLON \<Rightarrow> Some '';'' | LPAREN \<Rightarrow> Some ''('' | RPAREN \<Rightarrow> Some '')'' | _ \<Rightarrow> None)"

definition token_ok :: "token \<Rightarrow> bool" where
  "token_ok t \<longleftrightarrow> (case symbol_text (tok_type t) of
     Some s \<Rightarrow> tok_text t = s
   | None \<Rightarrow> if tok_type t = STRING_LITERAL then True
       else if tok_type t = NUMBER then is_number (tok_text t)
       else is_word (tok_text t) \<and> KeywordOf (map toupper (tok_text t)) = tok_type t)"

definition quote_text :: "string \<Rightarrow> string" where
  "quote_text v = concat (map (\<lambda>c. if c = CHR 0x27 then [c, c] else [c]) v)"

definition print_token :: "token \<Rightarrow> string" where
  "print_token t = (if tok_type t = STRING_LITERAL then CHR 0x27 # quote_text (tok_text t) @ [CHR 0x27]
     else tok_text t)"

definition print_tokens :: "token list \<Rightarrow> string" where
  "print_tokens ts = concat (map (\<lambda>t. print_token t @ '' '') ts)"

lemma KeywordOf_word: "symbol_text (KeywordOf w) = None \<and> KeywordOf w \<notin> {NUMBER, STRING_LITERAL, INVALID, END_OF_FILE}"
  by (simp add: KeywordOf_def symbol_text_def)

lemma token_ok_types: "token_ok t \<Longrightarrow> tok_type t \<noteq> INVALID \<and> tok_type t \<noteq> END_OF_FILE"
  using KeywordOf_word[of "map toupper (tok_text t)"]
  by (auto simp: token_ok_def symbol_text_def split: if_splits option.splits)

lemma word_token_ok: "is_word w \<Longrightarrow> token_ok (Token (KeywordOf (map toupper w)) w)"
  using KeywordOf_word[of "map toupper w"] by (simp add: token_ok_def)

section \<open>Reading a printed token\<close>

lemma ScanString_quoted:
  assumes "r = [] \<or> hd r \<noteq> CHR 0x27"
  shows "ScanString (CHR 0x27) acc (quote_text v @ CHR 0x27 # r) = (acc @ v, r, True)"
proof (induction v arbitrary: acc)
  case Nil
  then show ?case using assms by (cases r) (auto simp: quote_text_def)
next
  case (Cons c v)
  then show ?case by (simp add: quote_text_def)
qed

lemma not_special:
  assumes "isalpha c \<or> c = CHR ''_'' \<or> isdigit c \<or> c = CHR ''-''"
  shows "c \<noteq> CHR ''*''" "c \<noteq> CHR '',''" "c \<noteq> CHR ''=''" "c \<noteq> CHR ''>''" "c \<noteq> CHR ''<''" "c \<noteq> CHR '';''"
    "c \<noteq> CHR ''(''" "c \<noteq> CHR '')''" "c \<noteq> CHR 0x27" "c \<noteq> CHR 0x22" "\<not> isspace c"
  using assms by (auto simp: isalpha_def isupper_def islower_def isdigit_def isspace_def)

lemma not_word_start: "isdigit c \<or> c = CHR ''-'' \<Longrightarrow> \<not> isalpha c \<and> c \<noteq> CHR ''_''"
  by (auto simp: isalpha_def isupper_def islower_def isdigit_def)

lemma read_word:
  assumes "is_word w"
  shows "NextToken (w @ CHR '' '' # r) = (Token (KeywordOf (map toupper w)) w, Some (CHR '' '' # r))"
proof -
  obtain c cs where w: "w = c # cs" using assms by (cases w) (auto simp: is_word_def)
  have c: "isalpha c \<or> c = CHR ''_''" and wc: "\<forall>x \<in> set w. word_char x" using assms w by (simp_all add: is_word_def)
  have sp: "\<not> word_char (CHR '' '')"
    by (simp add: word_char_def isalnum_def isalpha_def isupper_def islower_def isdigit_def)
  have s: "ScanWord (w @ CHR '' '' # r) = (Token (KeywordOf (map toupper w)) w, CHR '' '' # r)"
    using wc sp by (simp add: ScanWord_def takeWhile_append2 dropWhile_append2)
  have "isalpha c \<or> c = CHR ''_'' \<or> isdigit c \<or> c = CHR ''-''" using c by blast
  note ns = not_special[OF this]
  show ?thesis using s c ns unfolding NextToken_def Let_def by (simp add: w)
qed

lemma NextToken_number:
  assumes "isdigit c \<or> c = CHR ''-'' \<and> isdigit (TK_PeekNext (c # cs))"
  shows "NextToken (c # cs) = (case ScanNumber (c # cs) of (t, rest) \<Rightarrow> (t, Some rest))"
proof (cases "c = CHR ''-''")
  case True
  then have "isdigit (TK_PeekNext (c # cs))" using assms by (auto simp: isdigit_def)
  then show ?thesis using True not_word_start[of c] by (simp add: NextToken_def)
next
  case False
  then have d: "isdigit c" using assms by blast
  then have "isalpha c \<or> c = CHR ''_'' \<or> isdigit c \<or> c = CHR ''-''" by blast
  note ns = not_special(1-10)[OF this]
  have "\<not> isalpha c" "c \<noteq> CHR ''_''" using not_word_start[of c] d by blast+
  then show ?thesis unfolding NextToken_def Let_def peek_get_simps snd_conv by (simp only: ns d if_False if_True simp_thms)
qed

lemma read_number:
  assumes "is_number n"
  shows "NextToken (n @ CHR '' '' # r) = (Token NUMBER n, Some (CHR '' '' # r))"
proof -
  obtain ds where ds: "ds \<noteq> []" "\<forall>c \<in> set ds. isdigit c" "n = ds \<or> n = CHR ''-'' # ds"
    using assms by (auto simp: is_number_def)
  obtain d ds' where d: "ds = d # ds'" using ds(1) by (cases ds) auto
  have dd: "isdigit d" "d \<noteq> CHR ''-''" using ds(2) d by (auto simp: isdigit_def)
  have sp: "\<not> isdigit (CHR '' '')" by (simp add: isdigit_def)
  have tw: "takeWhile isdigit (ds @ CHR '' '' # r) = ds" "dropWhile isdigit (ds @ CHR '' '' # r) = CHR '' '' # r"
    using ds(2) sp by (simp_all add: takeWhile_append2 dropWhile_append2)
  have s: "ScanNumber (n @ CHR '' '' # r) = (Token NUMBER n, CHR '' '' # r)"
    using ds(3) tw dd(2) by (auto simp: ScanNumber_def d)
  obtain c cs where n: "n = c # cs" using ds(3) d by auto
  have c: "isdigit c \<or> c = CHR ''-'' \<and> isdigit (TK_PeekNext (n @ CHR '' '' # r))"
    using ds(3) d dd n by auto
  then show ?thesis using NextToken_number[of c "cs @ CHR '' '' # r"] s by (simp add: n)
qed

lemma NextToken_symbols:
  "NextToken (CHR ''*'' # r) = (Token ASTERISK ''*'', Some r)"
  "NextToken (CHR '','' # r) = (Token COMMA '','', Some r)"
  "NextToken (CHR ''='' # r) = (Token EQUAL ''='', Some r)"
  "NextToken (CHR ''>'' # CHR ''='' # r) = (Token GREATER_EQUAL ''>='', Some r)"
  "NextToken (CHR ''<'' # CHR ''='' # r) = (Token LESS_EQUAL ''<='', Some r)"
  "NextToken (CHR ''>'' # CHR '' '' # r) = (Token GREATER ''>'', Some (CHR '' '' # r))"
  "NextToken (CHR ''<'' # CHR '' '' # r) = (Token LESS ''<'', Some (CHR '' '' # r))"
  "NextToken (CHR '';'' # r) = (Token SEMICOLON '';'', Some r)"
  "NextToken (CHR ''('' # r) = (Token LPAREN ''('', Some r)"
  "NextToken (CHR '')'' # r) = (Token RPAREN '')'', Some r)"
  by (simp_all add: NextToken_def)

lemma read_symbol:
  assumes "symbol_text ty = Some s"
  shows "NextToken (s @ CHR '' '' # r) = (Token ty s, Some (CHR '' '' # r))"
  using assms by (cases ty; simp add: symbol_text_def) (auto simp: NextToken_symbols)

lemma read_token:
  assumes "token_ok t"
  shows "NextToken (print_token t @ CHR '' '' # r) = (t, Some (CHR '' '' # r))"
proof (cases "symbol_text (tok_type t)")
  case (Some s)
  then have "tok_text t = s" "tok_type t \<noteq> STRING_LITERAL" using assms by (auto simp: token_ok_def symbol_text_def)
  then show ?thesis using read_symbol[OF Some, of r] by (cases t) (simp add: print_token_def)
next
  case None
  show ?thesis
  proof (cases "tok_type t = STRING_LITERAL")
    case True
    have "ScanString (CHR 0x27) [] (quote_text (tok_text t) @ CHR 0x27 # CHR '' '' # r) = (tok_text t, CHR '' '' # r, True)"
      using ScanString_quoted[of "CHR '' '' # r" "[]" "tok_text t"] by simp
    then show ?thesis using True by (cases t) (simp add: print_token_def NextToken_def Let_def)
  next
    case False
    then show ?thesis
      using assms None read_number[of "tok_text t" r] read_word[of "tok_text t" r]
      by (cases t) (auto simp: token_ok_def print_token_def split: if_splits)
  qed
qed

lemma print_token_start:
  assumes "token_ok t"
  shows "print_token t \<noteq> [] \<and> \<not> isspace (hd (print_token t))"
proof (cases "symbol_text (tok_type t)")
  case (Some s)
  then show ?thesis using assms
    by (cases "tok_type t") (auto simp: token_ok_def symbol_text_def print_token_def isspace_def)
next
  case None
  have "is_word w \<Longrightarrow> w \<noteq> [] \<and> \<not> isspace (hd w)" for w using not_special(11)[of "hd w"] by (auto simp: is_word_def)
  moreover have "is_number w \<Longrightarrow> w \<noteq> [] \<and> \<not> isspace (hd w)" for w
    using not_special(11)[of "hd w"] by (fastforce simp: is_number_def)
  moreover have "\<not> isspace (CHR 0x27)" by (simp add: isspace_def)
  ultimately show ?thesis using assms None by (auto simp: token_ok_def print_token_def split: if_splits)
qed

lemma TokenizeLoop_printed:
  assumes "\<forall>t \<in> set ts. token_ok t"
  shows "TokenizeLoop (print_tokens ts) = ts \<and> TokenizeLoop (CHR '' '' # print_tokens ts) = ts"
  using assms
proof (induction ts)
  case Nil
  then show ?case by (simp add: print_tokens_def TokenizeLoop.simps SkipWhitespace_def isspace_def)
next
  case (Cons t ts)
  have t: "token_ok t" using Cons.prems by simp
  let ?s = "print_token t @ CHR '' '' # print_tokens ts"
  note S = print_token_start[OF t]
  obtain c cs where c: "print_token t = c # cs" using S by (cases "print_token t") auto
  have sk: "SkipWhitespace ?s = ?s" "SkipWhitespace (CHR '' '' # ?s) = ?s" using S c
    by (simp_all add: SkipWhitespace_def isspace_def[of "CHR '' ''"])
  have ne: "?s \<noteq> []" by simp
  have rd: "NextToken ?s = (t, Some (CHR '' '' # print_tokens ts))" by (rule read_token[OF t])
  have IH: "TokenizeLoop (CHR '' '' # print_tokens ts) = ts" using Cons by simp
  have "TokenizeLoop ?s = t # ts" "TokenizeLoop (CHR '' '' # ?s) = t # ts"
    by (subst TokenizeLoop.simps; simp only: sk ne rd IH Let_def prod.case option.case if_False)+
  moreover have "print_tokens (t # ts) = ?s" by (simp add: print_tokens_def)
  ultimately show ?case by simp
qed

section \<open>Every token of a text\<close>

lemma NextToken_ok:
  assumes "NextToken s = (t, o')" "s \<noteq> []"
  shows "(o' = None \<longrightarrow> tok_type t = INVALID) \<and> (o' \<noteq> None \<longrightarrow> token_ok t)"
proof -
  obtain c cs where s: "s = c # cs" using assms(2) by (cases s) auto
  have "token_ok (fst (ScanWord s))" if "isalpha c \<or> c = CHR ''_''"
  proof -
    have "word_char c" using that isalpha_word[of c] by (auto simp: word_char_def)
    then have "is_word (takeWhile word_char s)" using that by (auto simp: is_word_def s dest: set_takeWhileD)
    then show ?thesis using word_token_ok by (simp add: ScanWord_def Let_def)
  qed
  moreover have "token_ok (fst (ScanNumber s))" if "isdigit c \<or> c = CHR ''-'' \<and> isdigit (TK_PeekNext s)"
  proof -
    have z: "\<not> isdigit (CHR 0x00)" by (simp add: isdigit_def)
    have tw: "takeWhile isdigit r \<noteq> [] \<and> (\<forall>x \<in> set (takeWhile isdigit r). isdigit x)" if "isdigit (TK_Peek r)" for r
      using that z by (cases r) (auto dest: set_takeWhileD)
    have "is_number (tok_text (fst (ScanNumber s)))"
    proof (cases "c = CHR ''-''")
      case True
      then have "isdigit (TK_Peek cs)" using that z by (cases cs) (auto simp: s isdigit_def)
      from tw[OF this] show ?thesis using True by (auto simp: ScanNumber_def s is_number_def)
    next
      case False
      then have "isdigit (TK_Peek s)" using that s by simp
      from tw[OF this] show ?thesis using False by (auto simp: ScanNumber_def s is_number_def Let_def simp del: takeWhile.simps)
    qed
    then show ?thesis by (auto simp: token_ok_def symbol_text_def ScanNumber_def Let_def split: if_splits)
  qed
  moreover have "t \<in> {Token ASTERISK ''*'', Token COMMA '','', Token EQUAL ''='', Token GREATER ''>'', Token LESS ''<'',
        Token GREATER_EQUAL ''>='', Token LESS_EQUAL ''<='', Token SEMICOLON '';'', Token LPAREN ''('', Token RPAREN '')''} \<and>
        o' \<noteq> None \<or>
      (\<exists>v. t = Token STRING_LITERAL v \<and> o' \<noteq> None) \<or> (\<exists>m. t = Token INVALID m \<and> o' = None) \<or>
      (isalpha c \<or> c = CHR ''_'') \<and> t = fst (ScanWord s) \<and> o' \<noteq> None \<or>
      (isdigit c \<or> c = CHR ''-'' \<and> isdigit (TK_PeekNext s)) \<and> t = fst (ScanNumber s) \<and> o' \<noteq> None"
    using assms(1) unfolding s NextToken_def Let_def peek_get_simps snd_conv
    by (simp split: if_split_asm prod.split_asm) force+
  moreover have "token_ok u" if "u \<in> {Token ASTERISK ''*'', Token COMMA '','', Token EQUAL ''='', Token GREATER ''>'',
      Token LESS ''<'', Token GREATER_EQUAL ''>='', Token LESS_EQUAL ''<='', Token SEMICOLON '';'', Token LPAREN ''('',
      Token RPAREN '')''}" for u
    using that by (auto simp: token_ok_def symbol_text_def)
  moreover have "token_ok (Token STRING_LITERAL v)" for v by (simp add: token_ok_def symbol_text_def)
  ultimately show ?thesis by (elim disjE exE conjE) (auto simp del: insert_iff)
qed

lemma TokenizeLoop_structure:
  "(\<forall>t \<in> set (TokenizeLoop s). token_ok t \<or> tok_type t = INVALID) \<and>
   (\<forall>t \<in> set (butlast (TokenizeLoop s)). token_ok t)"
proof (induction s rule: TokenizeLoop.induct)
  case (1 rest)
  let ?r = "SkipWhitespace rest"
  show ?case
  proof (cases "?r = []")
    case True
    then show ?thesis by (simp add: TokenizeLoop.simps)
  next
    case False
    obtain t o' where n: "NextToken ?r = (t, o')" by (cases "NextToken ?r")
    note K = NextToken_ok[OF n False]
    show ?thesis
    proof (cases o')
      case None
      then have "TokenizeLoop rest = [t]" using False n by (subst TokenizeLoop.simps) (simp add: Let_def)
      then show ?thesis using K None by simp
    next
      case (Some r')
      then have e: "TokenizeLoop rest = t # TokenizeLoop r'" using False n
        by (subst TokenizeLoop.simps) (simp add: Let_def)
      have "token_ok t" using K Some by simp
      moreover have "(\<forall>t \<in> set (TokenizeLoop r'). token_ok t \<or> tok_type t = INVALID) \<and>
          (\<forall>t \<in> set (butlast (TokenizeLoop r')). token_ok t)"
        using "1"[OF refl False n[symmetric] Some] .
      ultimately show ?thesis unfolding e by auto
    qed
  qed
qed

section \<open>Properties\<close>

text \<open>
  Printing and reading tokens: any list of tokens of the language, each printed as the source
  writes it (string literals in single quotes with quotes doubled) and followed by a space, is
  tokenized back to exactly that list, keywords in any mixture of upper and lower case included.
\<close>

theorem tokenizer_roundtrip:
  assumes "\<forall>t \<in> set ts. token_ok t"
  shows "Tokenize (print_tokens ts) = ts @ [Token END_OF_FILE '''']"
  using TokenizeLoop_printed[OF assms] by (simp add: Tokenize_def)

theorem tokenizer_roundtrip_witness:
  "Tokenize (print_tokens [Token KEYWORD_SELECT ''SeLeCt'', Token STRING_LITERAL ''it is'']) =
     [Token KEYWORD_SELECT ''SeLeCt'', Token STRING_LITERAL ''it is'', Token END_OF_FILE '''']"
proof -
  have "KeywordOf (map toupper ''SeLeCt'') = KEYWORD_SELECT" "is_word ''SeLeCt''"
    by code_simp+
  then have "token_ok (Token KEYWORD_SELECT ''SeLeCt'')" "token_ok (Token STRING_LITERAL ''it is'')"
    by (simp_all only: token_ok_def symbol_text_def token.sel token_type.case option.case token_type.distinct if_False if_True simp_thms)
  then show ?thesis
    using tokenizer_roundtrip[of "[Token KEYWORD_SELECT ''SeLeCt'', Token STRING_LITERAL ''it is'']"] by simp
qed

text \<open>
  Whatever bytes it is given, the tokenizer returns: well-formed tokens of the language, then at
  most one error token, then the end of the input.
\<close>

theorem tokenizer_total:
  "\<exists>ts. Tokenize s = ts @ [Token END_OF_FILE ''''] \<and> list_all token_ok (butlast ts) \<and>
     (ts = [] \<or> token_ok (last ts) \<or> tok_type (last ts) = INVALID)"
proof (intro exI conjI)
  show "Tokenize s = TokenizeLoop s @ [Token END_OF_FILE '''']" by (simp add: Tokenize_def)
qed (use TokenizeLoop_structure[of s] last_in_set in \<open>auto simp: list_all_iff\<close>)

end
