(* ===== verification/Parser_Correct.thy ===== *)
theory Parser_Correct
  imports Parser Tokenizer_Correct
begin

text \<open>
  The grammar of the statements, as a function that writes a statement in tokens, and the lemmas that
  relate the parser to it: it reads every well-formed statement back (completeness), and what it
  accepts is the text of a well-formed statement (soundness). The four loops over lists share the
  locale \<open>separated_list\<close>.
\<close>

section \<open>Well-formed statements\<close>

definition is_identifier :: "string \<Rightarrow> bool" where
  "is_identifier w \<longleftrightarrow> is_word w \<and> KeywordOf (map toupper w) = IDENTIFIER"

definition literal_ok :: "sql_literal \<Rightarrow> bool" where
  "literal_ok l = (case lit_kind l of
     Kind_NUMBER \<Rightarrow> is_number (lit_text l)
   | Kind_STRING \<Rightarrow> True
   | Kind_IDENTIFIER \<Rightarrow> is_identifier (lit_text l)
   | Kind_NULL_VALUE \<Rightarrow> lit_text l = '''')"

definition operator_type :: "string \<Rightarrow> token_type" where
  "operator_type oper = (if oper = ''='' then EQUAL else if oper = ''>='' then GREATER_EQUAL
     else if oper = ''<='' then LESS_EQUAL else if oper = ''>'' then GREATER else LESS)"

definition condition_ok :: "condition \<Rightarrow> bool" where
  "condition_ok c \<longleftrightarrow> is_identifier (cond_column c) \<and> cond_op c \<in> {''='', ''>='', ''<='', ''>'', ''<''} \<and>
     literal_ok (cond_value c)"

definition column_ok :: "column_definition \<Rightarrow> bool" where
  "column_ok c \<longleftrightarrow> is_identifier (def_name c) \<and> is_identifier (def_type_name c) \<and> def_length c < 2 ^ 32"

fun statement_ok :: "sql_statement \<Rightarrow> bool" where
  "statement_ok (SelectStatement t fs cs e) \<longleftrightarrow>
     is_identifier t \<and> (fs = [''*''] \<or> fs \<noteq> [] \<and> list_all is_identifier fs) \<and> list_all condition_ok cs"
| "statement_ok (InsertStatement t vs) \<longleftrightarrow> is_identifier t \<and> vs \<noteq> [] \<and> list_all literal_ok vs"
| "statement_ok (UpdateStatement t c v cs) \<longleftrightarrow>
     is_identifier t \<and> is_identifier c \<and> literal_ok v \<and> list_all condition_ok cs"
| "statement_ok (DeleteStatement t cs) \<longleftrightarrow> is_identifier t \<and> list_all condition_ok cs"
| "statement_ok (CreateTableStatement t cols) \<longleftrightarrow> is_identifier t \<and> cols \<noteq> [] \<and> list_all column_ok cols"
| "statement_ok (CreateIndexStatement i t c) \<longleftrightarrow> is_identifier i \<and> is_identifier t \<and> is_identifier c"

section \<open>Writing a statement\<close>

abbreviation "ident w \<equiv> Token IDENTIFIER w"
abbreviation "comma \<equiv> Token COMMA '',''"
abbreviation "eof \<equiv> Token END_OF_FILE ''''"

fun sep_by :: "token \<Rightarrow> token list list \<Rightarrow> token list" where
  "sep_by s [] = []"
| "sep_by s [x] = x"
| "sep_by s (x # y # xs) = x @ s # sep_by s (y # xs)"

definition print_literal :: "sql_literal \<Rightarrow> token list" where
  "print_literal l = (case lit_kind l of
     Kind_NUMBER \<Rightarrow> [Token NUMBER (lit_text l)]
   | Kind_STRING \<Rightarrow> [Token STRING_LITERAL (lit_text l)]
   | Kind_IDENTIFIER \<Rightarrow> [ident (lit_text l)]
   | Kind_NULL_VALUE \<Rightarrow> [Token KEYWORD_NULL ''NULL''])"

definition print_condition :: "condition \<Rightarrow> token list" where
  "print_condition c =
     ident (cond_column c) # Token (operator_type (cond_op c)) (cond_op c) # print_literal (cond_value c)"

definition print_where :: "condition list \<Rightarrow> token list" where
  "print_where cs = (if cs = [] then []
     else Token KEYWORD_WHERE ''WHERE'' # sep_by (Token KEYWORD_AND ''AND'') (map print_condition cs))"

definition print_length :: "nat \<Rightarrow> token list" where
  "print_length n = (if n = 0 then [] else [Token LPAREN ''('', Token NUMBER (show_nat n), Token RPAREN '')''])"

definition print_column :: "column_definition \<Rightarrow> token list" where
  "print_column c = ident (def_name c) # ident (def_type_name c) #
     print_length (def_length c)"

fun statement_tokens :: "sql_statement \<Rightarrow> token list" where
  "statement_tokens (SelectStatement t fs cs e) =
     (if e then [Token KEYWORD_EXPLAIN ''EXPLAIN'', Token KEYWORD_ANALYZE ''ANALYZE''] else []) @
     Token KEYWORD_SELECT ''SELECT'' #
     (if fs = [''*''] then [Token ASTERISK ''*''] else sep_by comma (map (\<lambda>f. [ident f]) fs)) @
     Token KEYWORD_FROM ''FROM'' # ident t # print_where cs"
| "statement_tokens (InsertStatement t vs) =
     Token KEYWORD_INSERT ''INSERT'' # Token KEYWORD_INTO ''INTO'' # ident t # Token KEYWORD_VALUES ''VALUES'' #
     Token LPAREN ''('' # sep_by comma (map print_literal vs) @ [Token RPAREN '')'']"
| "statement_tokens (UpdateStatement t c v cs) =
     Token KEYWORD_UPDATE ''UPDATE'' # ident t # Token KEYWORD_SET ''SET'' # ident c # Token EQUAL ''='' #
     print_literal v @ print_where cs"
| "statement_tokens (DeleteStatement t cs) =
     Token KEYWORD_DELETE ''DELETE'' # Token KEYWORD_FROM ''FROM'' # ident t # print_where cs"
| "statement_tokens (CreateTableStatement t cols) =
     Token KEYWORD_CREATE ''CREATE'' # Token KEYWORD_TABLE ''TABLE'' # ident t # Token LPAREN ''('' #
     sep_by comma (map print_column cols) @ [Token RPAREN '')'']"
| "statement_tokens (CreateIndexStatement i t c) =
     [Token KEYWORD_CREATE ''CREATE'', Token KEYWORD_INDEX ''INDEX'', ident i, Token KEYWORD_ON ''ON'', ident t,
      Token LPAREN ''('', ident c, Token RPAREN '')'']"

text \<open>The text of a statement, with or without the semicolon.\<close>

definition semicolon :: "bool \<Rightarrow> token list" where
  "semicolon b = (if b then [Token SEMICOLON '';''] else [])"

definition print_sql :: "bool \<Rightarrow> sql_statement \<Rightarrow> string" where
  "print_sql b st = print_tokens (statement_tokens st @ semicolon b)"

text \<open>
  Two tokens mean the same: keywords are the same in any case, names, strings and numbers have the
  same text. The numbers of \<^verbatim>\<open>CREATE TABLE\<close> are lengths of columns, which may be written in several
  ways (leading zeros): there \<open>k\<close> is set, and they are compared by the value \<^verbatim>\<open>std::stoul\<close> reads.
\<close>

definition same_token :: "bool \<Rightarrow> token \<Rightarrow> token \<Rightarrow> bool" where
  "same_token k t u \<longleftrightarrow> tok_type t = tok_type u \<and>
     (tok_type t \<in> {IDENTIFIER, STRING_LITERAL} \<longrightarrow> tok_text t = tok_text u) \<and>
     (tok_type t = NUMBER \<longrightarrow>
        (if k then stoul (tok_text t) = stoul (tok_text u) else tok_text t = tok_text u))"

abbreviation same_tokens :: "bool \<Rightarrow> token list \<Rightarrow> token list \<Rightarrow> bool" where
  "same_tokens k \<equiv> list_all2 (same_token k)"

fun creates_table :: "sql_statement \<Rightarrow> bool" where
  "creates_table (CreateTableStatement t cols) = True"
| "creates_table st = False"

definition proper :: "token \<Rightarrow> bool" where
  "proper t \<longleftrightarrow> token_ok t \<or> tok_type t = END_OF_FILE"

text \<open>
  A parser of one part of a statement reads what \<open>pr\<close> writes, and whatever means the same, unless the
  text goes on with one of the tokens of \<open>avoid\<close>; and it accepts nothing else.
\<close>

definition complete_on :: "bool \<Rightarrow> ('a \<Rightarrow> bool) \<Rightarrow> ('a \<Rightarrow> token list) \<Rightarrow> token_type set \<Rightarrow>
    (token list \<Rightarrow> ('a \<times> token list) result) \<Rightarrow> bool" where
  "complete_on k ok pr avoid p \<longleftrightarrow> (\<forall>x us rest. ok x \<longrightarrow> same_tokens k us (pr x) \<longrightarrow>
     tok_type (PS_Peek rest) \<notin> avoid \<longrightarrow> p (us @ rest) = Inr (x, rest))"

definition sound_on :: "bool \<Rightarrow> ('a \<Rightarrow> bool) \<Rightarrow> ('a \<Rightarrow> token list) \<Rightarrow>
    (token list \<Rightarrow> ('a \<times> token list) result) \<Rightarrow> bool" where
  "sound_on k ok pr p \<longleftrightarrow> (\<forall>ts x rest. p ts = Inr (x, rest) \<longrightarrow>
     (\<exists>us. ts = us @ rest \<and> same_tokens k us (pr x) \<and> ((\<forall>t \<in> set us. proper t) \<longrightarrow> ok x)))"

lemma complete_onD:
  "complete_on k ok pr avoid p \<Longrightarrow> ok x \<Longrightarrow> same_tokens k us (pr x) \<Longrightarrow> tok_type (PS_Peek rest) \<notin> avoid \<Longrightarrow>
    p (us @ rest) = Inr (x, rest)"
  by (simp add: complete_on_def)

lemma sound_onE:
  assumes "sound_on k ok pr p" "p ts = Inr (x, rest)"
  obtains us where "ts = us @ rest" "same_tokens k us (pr x)" "(\<forall>t \<in> set us. proper t) \<longrightarrow> ok x"
  using assms unfolding sound_on_def by blast

lemma same_token_refl [simp]: "same_token k t t"
  by (simp add: same_token_def)

lemma same_tokens_refl [simp]: "same_tokens k ts ts"
  by (simp add: list.rel_refl)

lemma same_token_type: "same_token k t u \<Longrightarrow> tok_type t = tok_type u"
  by (simp add: same_token_def)

lemma same_ident [simp]: "same_token k t (ident w) \<longleftrightarrow> t = ident w"
  by (cases t) (auto simp: same_token_def)

lemma same_string [simp]: "same_token k t (Token STRING_LITERAL w) \<longleftrightarrow> t = Token STRING_LITERAL w"
  by (cases t) (auto simp: same_token_def)

lemma same_number [simp]: "same_token False t (Token NUMBER w) \<longleftrightarrow> t = Token NUMBER w"
  by (cases t) (auto simp: same_token_def)

lemma same_keyword [simp]:
  "ty \<notin> {IDENTIFIER, STRING_LITERAL, NUMBER} \<Longrightarrow> same_token k t (Token ty w) \<longleftrightarrow> tok_type t = ty"
  by (auto simp: same_token_def)

lemmas split_tokens = list_all2_Cons2 list_all2_append2

section \<open>Lists with separators\<close>

locale separated_list =
  fixes item :: "token list \<Rightarrow> ('a \<times> token list) result" and many :: "token list \<Rightarrow> ('a list \<times> token list) result"
    and k :: bool and sep :: token and pr :: "'a \<Rightarrow> token list" and ok :: "'a \<Rightarrow> bool" and avoid :: "token_type set"
  assumes many_eq: "many ts = (case item ts of
      Inl st \<Rightarrow> Inl st
    | Inr (x, ts) \<Rightarrow> (case Match (tok_type sep) ts of
         (False, ts) \<Rightarrow> Inr ([x], ts)
       | (True, ts) \<Rightarrow> (case many ts of Inl st \<Rightarrow> Inl st | Inr (xs, ts) \<Rightarrow> Inr (x # xs, ts))))"
    and item_complete: "complete_on k ok pr avoid item"
    and item_sound: "sound_on k ok pr item"
    and item_shorter: "item ts = Inr (x, rest) \<Longrightarrow> length rest < length ts"
    and sep_type: "tok_type sep \<notin> avoid" "tok_type sep \<notin> {END_OF_FILE, IDENTIFIER, STRING_LITERAL, NUMBER}"
begin

lemma many_complete:
  "complete_on k (\<lambda>xs. xs \<noteq> [] \<and> list_all ok xs) (\<lambda>xs. sep_by sep (map pr xs)) (insert (tok_type sep) avoid) many"
proof -
  have "many (us @ rest) = Inr (xs, rest)"
    if "xs \<noteq> []" "list_all ok xs" "same_tokens k us (sep_by sep (map pr xs))"
      "tok_type (PS_Peek rest) \<notin> insert (tok_type sep) avoid" for xs us rest
    using that
  proof (induction xs arbitrary: us rule: induct_list012)
    case (2 x)
    then have i: "item (us @ rest) = Inr (x, rest)" by (intro complete_onD[OF item_complete]) auto
    have "Match (tok_type sep) rest = (False, rest)" using 2(4) sep_type by (cases rest) auto
    then show ?case using i by (subst many_eq) simp
  next
    case (3 x y zs)
    from "3.prems"(3) obtain xs u vs where us: "us = xs @ u # vs" "same_tokens k xs (pr x)"
        "same_token k u sep" "same_tokens k vs (sep_by sep (map pr (y # zs)))"
      by (auto simp: split_tokens)
    have u: "tok_type u = tok_type sep" by (rule same_token_type[OF us(3)])
    have i: "item (xs @ u # vs @ rest) = Inr (x, u # vs @ rest)"
      using 3 sep_type u by (intro complete_onD[OF item_complete _ us(2)]) auto
    have "many (vs @ rest) = Inr (y # zs, rest)" using "3.IH"(2)[OF _ _ us(4)] "3.prems" by simp
    then show ?case using i u by (subst many_eq) (simp add: us(1))
  qed simp
  then show ?thesis by (auto simp: complete_on_def)
qed

lemma many_sound: "sound_on k (\<lambda>xs. xs \<noteq> [] \<and> list_all ok xs) (\<lambda>xs. sep_by sep (map pr xs)) many"
proof -
  have "\<exists>us. ts = us @ rest \<and> same_tokens k us (sep_by sep (map pr xs)) \<and> xs \<noteq> [] \<and>
      ((\<forall>t \<in> set us. proper t) \<longrightarrow> list_all ok xs)" if "many ts = Inr (xs, rest)" for ts xs rest
    using that
  proof (induction "length ts" arbitrary: ts xs rule: less_induct)
    case less
    obtain x ts1 where x: "item ts = Inr (x, ts1)"
      using less.prems by (subst (asm) many_eq) (auto split: sum.splits)
    obtain us where us: "ts = us @ ts1" "same_tokens k us (pr x)" "(\<forall>t \<in> set us. proper t) \<longrightarrow> ok x"
      by (rule sound_onE[OF item_sound x])
    show ?case
    proof (cases "\<exists>u ts2. ts1 = u # ts2 \<and> tok_type u = tok_type sep")
      case False
      then have "Match (tok_type sep) ts1 = (False, ts1)" using sep_type by (cases ts1) auto
      then have "xs = [x]" "rest = ts1" using less.prems x by (subst (asm) many_eq; simp)+
      then show ?thesis using us by auto
    next
      case True
      then obtain u ts2 where u: "ts1 = u # ts2" "tok_type u = tok_type sep" by blast
      then obtain ys where ys: "many ts2 = Inr (ys, rest)" "xs = x # ys"
        using less.prems x by (subst (asm) many_eq) (auto split: sum.splits)
      have "length ts2 < length ts" using item_shorter[OF x] u by simp
      from less.hyps[OF this ys(1)] obtain vs where vs: "ts2 = vs @ rest"
          "same_tokens k vs (sep_by sep (map pr ys))" "ys \<noteq> []"
          "(\<forall>t \<in> set vs. proper t) \<longrightarrow> list_all ok ys"
        by blast
      have su: "same_token k u sep" using u(2) sep_type by (simp add: same_token_def)
      obtain y zs where y: "ys = y # zs" using vs(3) by (cases ys) auto
      have "same_tokens k (us @ u # vs) (sep_by sep (map pr xs))"
        using us(2) vs(2) su by (simp add: ys(2) y list_all2_appendI)
      moreover have "ts = (us @ u # vs) @ rest" using us(1) u(1) vs(1) by simp
      ultimately show ?thesis using us(3) vs(4) ys(2) by (intro exI[of _ "us @ u # vs"]) auto
    qed
  qed
  then show ?thesis by (fastforce simp: sound_on_def)
qed

end

section \<open>The parts of a statement\<close>

lemma proper_ident: "proper (ident w) \<longleftrightarrow> is_identifier w"
  by (simp add: proper_def token_ok_def symbol_text_def is_identifier_def)

lemma proper_number: "proper (Token NUMBER w) \<longleftrightarrow> is_number w"
  by (simp add: proper_def token_ok_def symbol_text_def)

lemma ExpectIdentifierD: "ExpectIdentifier m ts = Inr (x, rest) \<Longrightarrow> ts = ident x # rest"
  by (cases ts; cases "hd ts") (auto simp: ExpectIdentifier_def split: if_splits)

lemma ExpectIdentifier_simp [simp]: "ExpectIdentifier m (ident x # rest) = Inr (x, rest)"
  by (simp add: ExpectIdentifier_def)

lemma ident_complete: "complete_on k is_identifier (\<lambda>w. [ident w]) {} (ExpectIdentifier m)"
  by (simp add: complete_on_def list_all2_Cons2)

lemma ident_sound: "sound_on k is_identifier (\<lambda>w. [ident w]) (ExpectIdentifier m)"
  by (auto simp: sound_on_def proper_ident dest!: ExpectIdentifierD)

lemma ExpectTokenD:
  assumes "ExpectToken ty m ts = Inr rest" "ty \<noteq> END_OF_FILE"
  obtains w where "ts = Token ty w # rest"
  using assms by (cases ts; cases "hd ts") (auto simp: ExpectToken_def split: if_splits bool.splits)

lemma ExpectToken_simp [simp]: "tok_type t = ty \<Longrightarrow> ExpectToken ty m (t # rest) = Inr rest"
  by (simp add: ExpectToken_def)

lemma literal_complete: "complete_on False literal_ok print_literal {} ParseLiteral"
proof -
  have "ParseLiteral (us @ rest) = Inr (l, rest)" if "literal_ok l" "same_tokens False us (print_literal l)" for l us rest
    using that by (cases l; cases "lit_kind l")
      (auto simp: literal_ok_def ParseLiteral_def print_literal_def list_all2_Cons2)
  then show ?thesis by (simp add: complete_on_def)
qed

lemma literal_sound: "sound_on False literal_ok print_literal ParseLiteral"
proof -
  have "\<exists>us. ts = us @ rest \<and> same_tokens False us (print_literal l) \<and> ((\<forall>t \<in> set us. proper t) \<longrightarrow> literal_ok l)"
    if p: "ParseLiteral ts = Inr (l, rest)" for ts l rest
  proof (cases ts)
    case (Cons t us)
    obtain ty w where "t = Token ty w" by (cases t)
    then show ?thesis using p Cons
      by (cases ty) (auto simp: ParseLiteral_def print_literal_def literal_ok_def proper_ident proper_number)
  qed (use p in \<open>simp add: ParseLiteral_def\<close>)
  then show ?thesis by (simp add: sound_on_def)
qed

lemma operator_complete:
  "complete_on False (\<lambda>oper. oper \<in> {''='', ''>='', ''<='', ''>'', ''<''}) (\<lambda>oper. [Token (operator_type oper) oper]) {} ParseOperator"
  by (auto simp: complete_on_def ParseOperator_def operator_type_def list_all2_Cons2)

lemma operator_sound:
  "sound_on False (\<lambda>oper. oper \<in> {''='', ''>='', ''<='', ''>'', ''<''}) (\<lambda>oper. [Token (operator_type oper) oper]) ParseOperator"
proof -
  have "\<exists>us. ts = us @ rest \<and> same_tokens False us [Token (operator_type x) x] \<and> x \<in> {''='', ''>='', ''<='', ''>'', ''<''}"
    if p: "ParseOperator ts = Inr (x, rest)" for ts x rest
  proof (cases ts)
    case (Cons t us)
    obtain ty w where "t = Token ty w" by (cases t)
    then show ?thesis using p Cons by (cases ty) (auto simp: ParseOperator_def operator_type_def)
  qed (use p in \<open>simp add: ParseOperator_def\<close>)
  then show ?thesis unfolding sound_on_def by blast
qed

lemma condition_complete: "complete_on False condition_ok print_condition {} ParseCondition"
proof -
  have "ParseCondition (us @ rest) = Inr (c, rest)" if ok: "condition_ok c" and w: "same_tokens False us (print_condition c)"
    for c us rest
  proof -
    obtain t vs where us: "us = ident (cond_column c) # t # vs" "same_tokens False vs (print_literal (cond_value c))"
        "same_token False t (Token (operator_type (cond_op c)) (cond_op c))"
      using w by (auto simp: print_condition_def list_all2_Cons2)
    show ?thesis
      using ok us complete_onD[OF operator_complete, of "cond_op c" "[t]" "vs @ rest"]
        complete_onD[OF literal_complete _ us(2), of rest]
      by (cases c) (simp add: condition_ok_def ParseCondition_def)
  qed
  then show ?thesis by (simp add: complete_on_def)
qed

lemma condition_sound: "sound_on False condition_ok print_condition ParseCondition"
  unfolding sound_on_def
proof (intro allI impI)
  fix ts c rest
  assume "ParseCondition ts = Inr (c, rest)"
  then obtain x ts1 oper ts2 l where s: "ExpectIdentifier ''Se esperaba un nombre de columna en WHERE'' ts = Inr (x, ts1)"
      "ParseOperator ts1 = Inr (oper, ts2)" "ParseLiteral ts2 = Inr (l, rest)" "c = Condition x oper l"
    by (auto simp: ParseCondition_def split: sum.splits)
  obtain us where us: "ts1 = us @ ts2" "same_tokens False us [Token (operator_type oper) oper]"
      "(\<forall>t \<in> set us. proper t) \<longrightarrow> oper \<in> {''='', ''>='', ''<='', ''>'', ''<''}"
    by (rule sound_onE[OF operator_sound s(2)])
  obtain vs where vs: "ts2 = vs @ rest" "same_tokens False vs (print_literal l)"
      "(\<forall>t \<in> set vs. proper t) \<longrightarrow> literal_ok l"
    by (rule sound_onE[OF literal_sound s(3)])
  have "same_tokens False (ident x # us @ vs) (print_condition c)"
    using list_all2_appendI[OF us(2) vs(2)] by (simp add: s(4) print_condition_def)
  then show "\<exists>us. ts = us @ rest \<and> same_tokens False us (print_condition c) \<and>
      ((\<forall>t \<in> set us. proper t) \<longrightarrow> condition_ok c)"
    using ExpectIdentifierD[OF s(1)] us(1,3) vs(1,3)
    by (intro exI[of _ "ident x # us @ vs"]) (simp add: s(4) condition_ok_def proper_ident)
qed

interpretation conds: separated_list ParseCondition ParseConditions False "Token KEYWORD_AND ''AND''" print_condition condition_ok "{}"
  by unfold_locales
     (simp_all add: ParseConditions.simps condition_complete condition_sound ParseCondition_length cong: sum.case_cong)

interpretation flds: separated_list "ExpectIdentifier ''Se esperaba un nombre de columna en SELECT''" ParseFields False comma
    "\<lambda>w. [ident w]" is_identifier "{}"
  by unfold_locales (simp_all add: ParseFields.simps ident_complete ident_sound ExpectIdentifier_length
      cong: sum.case_cong)

interpretation vals: separated_list ParseLiteral ParseValues False comma print_literal literal_ok "{}"
  by unfold_locales (simp_all add: ParseValues.simps literal_complete literal_sound ParseLiteral_length
      cong: sum.case_cong)

lemma length_complete:
  "complete_on True (\<lambda>n. n < 2 ^ 32) print_length {LPAREN} ParseLength"
proof -
  have "ParseLength rest = Inr (0, rest)" if "tok_type (PS_Peek rest) \<noteq> LPAREN" for rest
    using that by (cases rest) (auto simp: ParseLength_def)
  moreover have "ParseLength (us @ rest) = Inr (n, rest)" if n: "0 < n" "n < 2 ^ 32" and w: "same_tokens True us (print_length n)"
    for n us rest
  proof -
    obtain t u v where us: "us = [t, u, v]" "tok_type t = LPAREN" "same_token True u (Token NUMBER (show_nat n))"
        "tok_type v = RPAREN"
      using n(1) w by (auto simp: print_length_def list_all2_Cons2)
    have "tok_type u = NUMBER" "stoul (tok_text u) = Some n"
      using us(3) n(2) stoul_show[of n] by (simp_all add: same_token_def)
    then show ?thesis using n us(2,4) by (simp add: us(1) ParseLength_def)
  qed
  ultimately show ?thesis by (auto simp: complete_on_def print_length_def)
qed

lemma length_sound:
  "sound_on True (\<lambda>n. n < 2 ^ 32) print_length ParseLength"
proof -
  have "\<exists>us. ts = us @ rest \<and> same_tokens True us (print_length n) \<and> n < 2 ^ 32"
    if p: "ParseLength ts = Inr (n, rest)" for ts n rest
  proof (cases "tok_type (PS_Peek ts) = LPAREN")
    case False
    then have "n = 0" "rest = ts" using p by (cases ts; auto simp: ParseLength_def split: if_splits)+
    then show ?thesis by (simp add: print_length_def)
  next
    case True
    then obtain v ts1 where ts: "ts = Token LPAREN v # ts1" by (cases ts; cases "hd ts") auto
    then obtain w ts2 where ts1: "ts1 = Token NUMBER w # ts2" using p
      by (cases ts1; cases "hd ts1") (auto simp: ParseLength_def split: if_splits)
    have n: "stoul w = Some n" "0 < n" "n < 2 ^ 32"
        "ExpectToken RPAREN ''Se esperaba ')' despues de la longitud del tipo'' ts2 = Inr rest"
      using p ts ts1 by (auto simp: ParseLength_def split: option.splits if_splits sum.splits)
    obtain x where ts2: "ts2 = Token RPAREN x # rest" by (rule ExpectTokenD[OF n(4)]) simp
    have "same_token True (Token NUMBER w) (Token NUMBER (show_nat n))"
      using n(1,3) stoul_show[of n] by (simp add: same_token_def)
    then show ?thesis using ts ts1 ts2 n by (simp add: print_length_def)
  qed
  then show ?thesis unfolding sound_on_def by blast
qed

lemma column_complete: "complete_on True column_ok print_column {LPAREN} ParseColumn"
proof -
  have "ParseColumn (us @ rest) = Inr (c, rest)"
    if ok: "column_ok c" and w: "same_tokens True us (print_column c)" and r: "tok_type (PS_Peek rest) \<noteq> LPAREN" for c us rest
  proof -
    obtain vs where us: "us = ident (def_name c) # ident (def_type_name c) # vs"
        "same_tokens True vs (print_length (def_length c))"
      using w by (auto simp: print_column_def list_all2_Cons2)
    show ?thesis using ok r complete_onD[OF length_complete _ us(2), of rest]
      by (cases c) (simp add: column_ok_def us(1) ParseColumn_def)
  qed
  then show ?thesis by (simp add: complete_on_def)
qed

lemma column_sound: "sound_on True column_ok print_column ParseColumn"
  unfolding sound_on_def
proof (intro allI impI)
  fix ts c rest
  assume "ParseColumn ts = Inr (c, rest)"
  then obtain x ts1 y ts2 n where s: "ExpectIdentifier ''Se esperaba nombre de columna'' ts = Inr (x, ts1)"
      "ExpectIdentifier ''Se esperaba tipo de datos de columna'' ts1 = Inr (y, ts2)"
      "ParseLength ts2 = Inr (n, rest)" "c = ColumnDefinition x y n"
    by (auto simp: ParseColumn_def split: sum.splits)
  obtain us where "ts2 = us @ rest" "same_tokens True us (print_length n)"
      "(\<forall>t \<in> set us. proper t) \<longrightarrow> n < 2 ^ 32"
    by (rule sound_onE[OF length_sound s(3)])
  then show "\<exists>us. ts = us @ rest \<and> same_tokens True us (print_column c) \<and>
      ((\<forall>t \<in> set us. proper t) \<longrightarrow> column_ok c)"
    using ExpectIdentifierD[OF s(1)] ExpectIdentifierD[OF s(2)]
    by (intro exI[of _ "ident x # ident y # us"]) (simp add: s(4) print_column_def column_ok_def proper_ident)
qed

interpretation cols: separated_list ParseColumn ParseColumns True comma print_column column_ok "{LPAREN}"
  by unfold_locales (simp_all add: ParseColumns.simps column_complete column_sound ParseColumn_length
      cong: sum.case_cong)

lemma where_complete: "complete_on False (list_all condition_ok) print_where {KEYWORD_WHERE, KEYWORD_AND} ParseWhere"
proof -
  have "ParseWhere (us @ rest) = Inr (cs, rest)"
    if ok: "list_all condition_ok cs" and w: "same_tokens False us (print_where cs)"
      and r: "tok_type (PS_Peek rest) \<noteq> KEYWORD_WHERE" "tok_type (PS_Peek rest) \<noteq> KEYWORD_AND"
    for cs us rest
  proof (cases "cs = []")
    case True
    have "Match KEYWORD_WHERE rest = (False, rest)" using r(1) by (cases rest) auto
    then show ?thesis using True w by (simp add: print_where_def ParseWhere_def)
  next
    case False
    then obtain t vs where us: "us = t # vs" "tok_type t = KEYWORD_WHERE"
        "same_tokens False vs (sep_by (Token KEYWORD_AND ''AND'') (map print_condition cs))"
      using w by (auto simp: print_where_def list_all2_Cons2)
    show ?thesis using complete_onD[OF conds.many_complete _ us(3), of rest] ok r False us(2)
      by (simp add: us(1) ParseWhere_def)
  qed
  then show ?thesis by (simp add: complete_on_def)
qed

lemma where_sound: "sound_on False (list_all condition_ok) print_where ParseWhere"
  unfolding sound_on_def
proof (intro allI impI)
  fix ts cs rest
  assume p: "ParseWhere ts = Inr (cs, rest)"
  show "\<exists>us. ts = us @ rest \<and> same_tokens False us (print_where cs) \<and>
      ((\<forall>t \<in> set us. proper t) \<longrightarrow> list_all condition_ok cs)"
  proof (cases "tok_type (PS_Peek ts) = KEYWORD_WHERE")
    case False
    then have "cs = []" "rest = ts" using p by (cases ts; auto simp: ParseWhere_def split: if_splits)+
    then show ?thesis by (simp add: print_where_def)
  next
    case True
    then obtain v ts1 where ts: "ts = Token KEYWORD_WHERE v # ts1" by (cases ts; cases "hd ts") auto
    then have "ParseConditions ts1 = Inr (cs, rest)" using p by (simp add: ParseWhere_def)
    then obtain us where us: "ts1 = us @ rest"
        "same_tokens False us (sep_by (Token KEYWORD_AND ''AND'') (map print_condition cs))"
        "(\<forall>t \<in> set us. proper t) \<longrightarrow> cs \<noteq> [] \<and> list_all condition_ok cs"
      by (rule sound_onE[OF conds.many_sound])
    have "cs \<noteq> []" using \<open>ParseConditions ts1 = Inr (cs, rest)\<close>
      by (subst (asm) ParseConditions.simps) (auto split: sum.splits prod.splits bool.splits)
    then show ?thesis using ts us by (intro exI[of _ "Token KEYWORD_WHERE v # us"]) (simp add: print_where_def)
  qed
qed

section \<open>The end of a statement\<close>

definition finished :: "token list \<Rightarrow> bool" where
  "finished ts \<longleftrightarrow> tok_type (PS_Peek (snd (Match SEMICOLON ts))) = END_OF_FILE"

text \<open>An optional semicolon and the end.\<close>

definition statement_ends :: "token list \<Rightarrow> bool" where
  "statement_ends ts \<longleftrightarrow> (\<exists>k b. same_tokens k ts (semicolon b @ [eof]))"

lemma statement_ends_cases:
  assumes "statement_ends ts"
  obtains e where "ts = [e]" "tok_type e = END_OF_FILE" | s e where "ts = [s, e]" "tok_type s = SEMICOLON" "tok_type e = END_OF_FILE"
  using assms by (auto simp: statement_ends_def semicolon_def list_all2_Cons2 split: if_splits)

lemma Finish_complete [simp]: "statement_ends ts \<Longrightarrow> Finish st ts = Inr st"
  by (erule statement_ends_cases) (simp_all add: Finish_def FinishStatement_def Status_OK_def status_ok_def)

lemma FinishD: "Finish st ts = Inr st' \<Longrightarrow> st' = st \<and> finished ts"
  by (auto simp: Finish_def FinishStatement_def finished_def Status_OK_def status_ok_def split: if_splits prod.splits)

lemma statement_ends_peek: "statement_ends ts \<Longrightarrow> tok_type (PS_Peek ts) \<in> {SEMICOLON, END_OF_FILE}"
  by (erule statement_ends_cases) simp_all

text \<open>The text left of a statement is the text of one, up to the end.\<close>

definition accepted :: "bool \<Rightarrow> token list \<Rightarrow> token list \<Rightarrow> bool" where
  "accepted k ts want \<longleftrightarrow> (\<exists>us rest. ts = us @ rest \<and> same_tokens k us want \<and> finished rest)"

lemma accepted_finish: "finished ts \<Longrightarrow> accepted k ts []"
  by (simp add: accepted_def)

lemma accepted_cons: "accepted k ts want \<Longrightarrow> same_token k t u \<Longrightarrow> accepted k (t # ts) (u # want)"
  unfolding accepted_def by (metis append_Cons list_all2_Cons)

lemma accepted_append: "accepted k ts want \<Longrightarrow> same_tokens k us vs \<Longrightarrow> accepted k (us @ ts) (vs @ want)"
  unfolding accepted_def by (metis append.assoc list_all2_appendI)

lemma accepted_where:
  assumes "ParseWhere ts = Inr (cs, rest)" "finished rest" "\<forall>t \<in> set ts. proper t"
  shows "accepted False ts (print_where cs) \<and> list_all condition_ok cs"
proof -
  obtain us where us: "ts = us @ rest" "same_tokens False us (print_where cs)"
      "(\<forall>t \<in> set us. proper t) \<longrightarrow> list_all condition_ok cs"
    by (rule sound_onE[OF where_sound assms(1)])
  then show ?thesis using accepted_append[OF accepted_finish[OF assms(2)] us(2)] assms(3) by simp
qed

section \<open>The statements\<close>

abbreviation "print_fields fs \<equiv>
  (if fs = [''*''] then [Token ASTERISK ''*''] else sep_by comma (map (\<lambda>f. [ident f]) fs))"

lemma star_no_identifier: "\<not> is_identifier ''*''"
  by (simp add: is_identifier_def is_word_def word_char_def isalnum_def isalpha_def isupper_def islower_def isdigit_def)

lemma sep_by_ident:
  "fs \<noteq> [] \<Longrightarrow> same_tokens k us (sep_by comma (map (\<lambda>f. [ident f]) fs)) \<Longrightarrow> \<exists>w vs. us = ident w # vs"
  by (cases fs; cases "tl fs") (auto simp: list_all2_Cons2)

lemma where_read:
  "list_all condition_ok cs \<Longrightarrow> same_tokens False us (print_where cs) \<Longrightarrow> statement_ends r \<Longrightarrow>
    ParseWhere (us @ r) = Inr (cs, r)"
  using statement_ends_peek[of r] by (intro complete_onD[OF where_complete]) auto

lemma literal_read:
  "literal_ok l \<Longrightarrow> same_tokens False us (print_literal l) \<Longrightarrow> ParseLiteral (us @ rest) = Inr (l, rest)"
  by (intro complete_onD[OF literal_complete]) auto

lemma ParseSelect_complete:
  assumes "statement_ok (SelectStatement t fs cs e)" "statement_ends r"
    "same_tokens False us (print_fields fs @ Token KEYWORD_FROM ''FROM'' # ident t # print_where cs)"
  shows "ParseSelect e (us @ r) = Inr (SelectStatement t fs cs e)"
proof -
  obtain xs u vs where us: "us = xs @ u # ident t # vs" "tok_type u = KEYWORD_FROM"
      and xs: "same_tokens False xs (print_fields fs)" and vs: "same_tokens False vs (print_where cs)"
    using assms(3) unfolding split_tokens by auto
  have w: "ParseWhere (vs @ r) = Inr (cs, r)" using assms by (intro where_read[OF _ vs]) auto
  show ?thesis
  proof (cases "fs = [''*'']")
    case True
    then obtain a where "xs = [a]" "tok_type a = ASTERISK" using xs by (auto simp: list_all2_Cons2)
    then show ?thesis using w True us assms(2) by (simp add: ParseSelect_def)
  next
    case False
    then have fs: "fs \<noteq> []" "list_all is_identifier fs"
        and xs: "same_tokens False xs (sep_by comma (map (\<lambda>f. [ident f]) fs))" using assms xs by auto
    have p: "ParseFields (xs @ u # ident t # vs @ r) = Inr (fs, u # ident t # vs @ r)"
      using fs us(2) by (intro complete_onD[OF flds.many_complete _ xs]) auto
    have "Match ASTERISK (xs @ u # ident t # vs @ r) = (False, xs @ u # ident t # vs @ r)"
      using sep_by_ident[OF fs(1) xs] by auto
    then show ?thesis using p w us assms(2) by (simp add: ParseSelect_def)
  qed
qed

lemma ParseSelect_sound:
  assumes "ParseSelect e ts = Inr st" "\<forall>t \<in> set ts. proper t"
  obtains t fs cs where "st = SelectStatement t fs cs e" "statement_ok st"
    "accepted False ts (print_fields fs @ Token KEYWORD_FROM ''FROM'' # ident t # print_where cs)"
proof -
  obtain fs ts1 ts2 t ts3 cs ts4 where s:
      "(case Match ASTERISK ts of (True, ts) \<Rightarrow> Inr ([''*''], ts) | (False, ts) \<Rightarrow> ParseFields ts) = Inr (fs, ts1)"
      "ExpectToken KEYWORD_FROM ''Se esperaba la clausula FROM'' ts1 = Inr ts2"
      "ExpectIdentifier ''Se esperaba un nombre de tabla despues de FROM'' ts2 = Inr (t, ts3)"
      "ParseWhere ts3 = Inr (cs, ts4)" "Finish (SelectStatement t fs cs e) ts4 = Inr st"
    using assms(1) unfolding ParseSelect_def by (auto split: sum.splits)
  obtain w where ts1: "ts1 = Token KEYWORD_FROM w # ident t # ts3"
    using ExpectTokenD[OF s(2)] ExpectIdentifierD[OF s(3)] by blast
  have st: "st = SelectStatement t fs cs e" "finished ts4" using FinishD[OF s(5)] by auto
  have "\<exists>us. ts = us @ ts1 \<and> same_tokens False us (print_fields fs) \<and>
      (fs = [''*''] \<or> fs \<noteq> [] \<and> list_all is_identifier fs)"
  proof (cases "\<exists>v. ts = Token ASTERISK v # tl ts")
    case True
    then obtain v where "ts = Token ASTERISK v # tl ts" by blast
    then have "fs = [''*'']" "ts = Token ASTERISK v # ts1" using s(1) by (cases ts; simp)+
    then show ?thesis by (intro exI[of _ "[Token ASTERISK v]"]) simp
  next
    case False
    have "Match ASTERISK ts = (False, ts)" using False by (cases ts; cases "hd ts") auto
    then have "ParseFields ts = Inr (fs, ts1)" using s(1) by simp
    then obtain us where us: "ts = us @ ts1" "same_tokens False us (sep_by comma (map (\<lambda>f. [ident f]) fs))"
        "(\<forall>t \<in> set us. proper t) \<longrightarrow> fs \<noteq> [] \<and> list_all is_identifier fs"
      by (rule sound_onE[OF flds.many_sound])
    then have "fs \<noteq> []" "list_all is_identifier fs" using assms(2) by auto
    then show ?thesis using us star_no_identifier by auto
  qed
  then obtain us where us: "ts = us @ ts1" "same_tokens False us (print_fields fs)"
      "fs = [''*''] \<or> fs \<noteq> [] \<and> list_all is_identifier fs"
    by blast
  have pr: "\<forall>t \<in> set ts3. proper t" "is_identifier t" using assms(2) us(1) ts1 by (auto simp: proper_ident)
  note W = accepted_where[OF s(4) st(2) pr(1)]
  have "accepted False ts (print_fields fs @ Token KEYWORD_FROM ''FROM'' # ident t # print_where cs)"
    using W us(2) unfolding us(1) ts1 by (intro accepted_append accepted_cons) simp_all
  then show ?thesis using that[of t fs cs] st us(3) pr W by simp
qed

lemma ParseInsert_sound:
  assumes "ParseInsert ts = Inr st" "\<forall>t \<in> set ts. proper t"
  shows "statement_ok st \<and> accepted False ts (tl (statement_tokens st)) \<and> hd (statement_tokens st) = Token KEYWORD_INSERT ''INSERT'' \<and>
    \<not> creates_table st"
proof -
  obtain ts1 t ts2 ts3 ts4 vs ts5 ts6 where s:
      "ExpectToken KEYWORD_INTO ''Se esperaba INTO despues de INSERT'' ts = Inr ts1"
      "ExpectIdentifier ''Se esperaba el nombre de la tabla'' ts1 = Inr (t, ts2)"
      "ExpectToken KEYWORD_VALUES ''Se esperaba VALUES (...)'' ts2 = Inr ts3"
      "ExpectToken LPAREN ''Se esperaba VALUES (...)'' ts3 = Inr ts4" "ParseValues ts4 = Inr (vs, ts5)"
      "ExpectToken RPAREN ''Se esperaba ')' al final de VALUES'' ts5 = Inr ts6" "Finish (InsertStatement t vs) ts6 = Inr st"
    using assms(1) unfolding ParseInsert_def by (auto split: sum.splits)
  have st: "st = InsertStatement t vs" "finished ts6" using FinishD[OF s(7)] by auto
  obtain v1 v3 v4 v6 where ts: "ts = Token KEYWORD_INTO v1 # ident t # Token KEYWORD_VALUES v3 # Token LPAREN v4 # ts4"
      "ts5 = Token RPAREN v6 # ts6"
    using ExpectTokenD[OF s(1)] ExpectIdentifierD[OF s(2)] ExpectTokenD[OF s(3)] ExpectTokenD[OF s(4)] ExpectTokenD[OF s(6)]
    by (metis token_type.distinct)
  obtain us where us: "ts4 = us @ ts5" "same_tokens False us (sep_by comma (map print_literal vs))"
      "(\<forall>t \<in> set us. proper t) \<longrightarrow> vs \<noteq> [] \<and> list_all literal_ok vs"
    by (rule sound_onE[OF vals.many_sound s(5)])
  have "statement_ok st" using us(1,3) ts assms(2) by (simp add: st proper_ident)
  moreover have "accepted False ts (tl (statement_tokens st))"
    unfolding ts us(1) st statement_tokens.simps list.sel
    by (intro accepted_cons accepted_append us(2) accepted_finish[OF st(2)] same_token_refl same_keyword) simp_all
  ultimately show ?thesis by (simp add: st)
qed

lemma ParseUpdate_sound:
  assumes "ParseUpdate ts = Inr st" "\<forall>t \<in> set ts. proper t"
  shows "statement_ok st \<and> accepted False ts (tl (statement_tokens st)) \<and> hd (statement_tokens st) = Token KEYWORD_UPDATE ''UPDATE'' \<and>
    \<not> creates_table st"
proof -
  obtain t ts1 ts2 c ts3 ts4 l ts5 cs ts6 where s:
      "ExpectIdentifier ''Se esperaba el nombre de la tabla en UPDATE'' ts = Inr (t, ts1)"
      "ExpectToken KEYWORD_SET ''Se esperaba la clausula SET'' ts1 = Inr ts2"
      "ExpectIdentifier ''Se esperaba la columna a actualizar en SET'' ts2 = Inr (c, ts3)"
      "ExpectToken EQUAL ''Se esperaba '=' en SET'' ts3 = Inr ts4" "ParseLiteral ts4 = Inr (l, ts5)"
      "ParseWhere ts5 = Inr (cs, ts6)" "Finish (UpdateStatement t c l cs) ts6 = Inr st"
    using assms(1) unfolding ParseUpdate_def by (auto split: sum.splits)
  have st: "st = UpdateStatement t c l cs" "finished ts6" using FinishD[OF s(7)] by auto
  obtain v2 v4 where ts: "ts = ident t # Token KEYWORD_SET v2 # ident c # Token EQUAL v4 # ts4"
    using ExpectIdentifierD[OF s(1)] ExpectTokenD[OF s(2)] ExpectIdentifierD[OF s(3)] ExpectTokenD[OF s(4)]
    by (metis token_type.distinct)
  obtain us where us: "ts4 = us @ ts5" "same_tokens False us (print_literal l)"
      "(\<forall>t \<in> set us. proper t) \<longrightarrow> literal_ok l"
    by (rule sound_onE[OF literal_sound s(5)])
  have pr: "\<forall>t \<in> set ts5. proper t" using assms(2) ts us(1) by simp
  note W = accepted_where[OF s(6) st(2) pr]
  have "statement_ok st" using us(1,3) ts W assms(2) by (simp add: st proper_ident)
  moreover have "accepted False ts (tl (statement_tokens st))"
    unfolding ts us(1) st statement_tokens.simps list.sel using W
    by (intro accepted_cons accepted_append us(2) same_token_refl same_keyword) simp_all
  ultimately show ?thesis by (simp add: st)
qed

lemma ParseDelete_sound:
  assumes "ParseDelete ts = Inr st" "\<forall>t \<in> set ts. proper t"
  shows "statement_ok st \<and> accepted False ts (tl (statement_tokens st)) \<and> hd (statement_tokens st) = Token KEYWORD_DELETE ''DELETE'' \<and>
    \<not> creates_table st"
proof -
  obtain ts1 t ts2 cs ts3 where s:
      "ExpectToken KEYWORD_FROM ''Se esperaba FROM despues de DELETE'' ts = Inr ts1"
      "ExpectIdentifier ''Se esperaba el nombre de la tabla en DELETE'' ts1 = Inr (t, ts2)"
      "ParseWhere ts2 = Inr (cs, ts3)" "Finish (DeleteStatement t cs) ts3 = Inr st"
    using assms(1) unfolding ParseDelete_def by (auto split: sum.splits)
  have st: "st = DeleteStatement t cs" "finished ts3" using FinishD[OF s(4)] by auto
  obtain v1 where ts: "ts = Token KEYWORD_FROM v1 # ident t # ts2"
    using ExpectTokenD[OF s(1)] ExpectIdentifierD[OF s(2)] by (metis token_type.distinct)
  have pr: "\<forall>t \<in> set ts2. proper t" using assms(2) ts by simp
  note W = accepted_where[OF s(3) st(2) pr]
  have "statement_ok st" using ts W assms(2) by (simp add: st proper_ident)
  moreover have "accepted False ts (tl (statement_tokens st))"
    unfolding ts st statement_tokens.simps list.sel using W
    by (intro accepted_cons same_token_refl same_keyword) simp_all
  ultimately show ?thesis by (simp add: st)
qed

lemma ParseCreateTable_sound:
  assumes "ParseCreateTable ts = Inr st" "\<forall>t \<in> set ts. proper t"
  shows "statement_ok st \<and> creates_table st \<and> (\<exists>want. accepted True ts want \<and>
    statement_tokens st = Token KEYWORD_CREATE ''CREATE'' # Token KEYWORD_TABLE ''TABLE'' # want)"
proof -
  obtain t ts1 ts2 cs ts3 ts4 where s:
      "ExpectIdentifier ''Se esperaba el nombre de la tabla en CREATE TABLE'' ts = Inr (t, ts1)"
      "ExpectToken LPAREN ''Se esperaba '(' despues del nombre de la tabla'' ts1 = Inr ts2"
      "ParseColumns ts2 = Inr (cs, ts3)"
      "ExpectToken RPAREN ''Se esperaba ')' al final de las columnas'' ts3 = Inr ts4"
      "Finish (CreateTableStatement t cs) ts4 = Inr st"
    using assms(1) unfolding ParseCreateTable_def by (auto split: sum.splits)
  have st: "st = CreateTableStatement t cs" "finished ts4" using FinishD[OF s(5)] by auto
  obtain v2 v4 where ts: "ts = ident t # Token LPAREN v2 # ts2" "ts3 = Token RPAREN v4 # ts4"
    using ExpectIdentifierD[OF s(1)] ExpectTokenD[OF s(2)] ExpectTokenD[OF s(4)] by (metis token_type.distinct)
  obtain us where us: "ts2 = us @ ts3" "same_tokens True us (sep_by comma (map print_column cs))"
      "(\<forall>t \<in> set us. proper t) \<longrightarrow> cs \<noteq> [] \<and> list_all column_ok cs"
    by (rule sound_onE[OF cols.many_sound s(3)])
  have "statement_ok st" using us(1,3) ts assms(2) by (simp add: st proper_ident)
  moreover have "accepted True ts (tl (tl (statement_tokens st)))"
    unfolding ts us(1) st statement_tokens.simps list.sel
    by (intro accepted_cons accepted_append us(2) accepted_finish[OF st(2)] same_token_refl same_keyword) simp_all
  ultimately show ?thesis by (simp add: st)
qed

lemma ParseCreateIndex_sound:
  assumes "ParseCreateIndex ts = Inr st" "\<forall>t \<in> set ts. proper t"
  shows "statement_ok st \<and> \<not> creates_table st \<and> (\<exists>want. accepted False ts want \<and>
    statement_tokens st = Token KEYWORD_CREATE ''CREATE'' # Token KEYWORD_INDEX ''INDEX'' # want)"
proof -
  obtain i ts1 ts2 t ts3 ts4 c ts5 ts6 where s:
      "ExpectIdentifier ''Se esperaba el nombre del indice'' ts = Inr (i, ts1)"
      "ExpectToken KEYWORD_ON ''Se esperaba ON en CREATE INDEX'' ts1 = Inr ts2"
      "ExpectIdentifier ''Se esperaba el nombre de la tabla'' ts2 = Inr (t, ts3)"
      "ExpectToken LPAREN ''Se esperaba una columna entre parentesis'' ts3 = Inr ts4"
      "ExpectIdentifier ''Se esperaba una columna entre parentesis'' ts4 = Inr (c, ts5)"
      "ExpectToken RPAREN ''Se esperaba ')' en CREATE INDEX'' ts5 = Inr ts6"
      "Finish (CreateIndexStatement i t c) ts6 = Inr st"
    using assms(1) unfolding ParseCreateIndex_def by (auto split: sum.splits)
  have st: "st = CreateIndexStatement i t c" "finished ts6" using FinishD[OF s(7)] by auto
  obtain v2 v4 v6 where ts:
      "ts = ident i # Token KEYWORD_ON v2 # ident t # Token LPAREN v4 # ident c # Token RPAREN v6 # ts6"
    using ExpectIdentifierD[OF s(1)] ExpectTokenD[OF s(2)] ExpectIdentifierD[OF s(3)] ExpectTokenD[OF s(4)]
      ExpectIdentifierD[OF s(5)] ExpectTokenD[OF s(6)]
    by (metis token_type.distinct)
  have "statement_ok st" using ts assms(2) by (simp add: st proper_ident)
  moreover have "accepted False ts (tl (tl (statement_tokens st)))"
    unfolding ts st statement_tokens.simps list.sel
    by (intro accepted_cons accepted_finish[OF st(2)] same_token_refl same_keyword) simp_all
  ultimately show ?thesis by (simp add: st)
qed

lemma Parse_dispatch:
  assumes "\<forall>t \<in> set ts. tok_type t \<noteq> INVALID"
  shows "tok_type t = KEYWORD_INSERT \<Longrightarrow> Parse (t # ts) = ParseInsert ts"
    "tok_type t = KEYWORD_UPDATE \<Longrightarrow> Parse (t # ts) = ParseUpdate ts"
    "tok_type t = KEYWORD_DELETE \<Longrightarrow> Parse (t # ts) = ParseDelete ts"
    "tok_type t = KEYWORD_SELECT \<Longrightarrow> Parse (t # ts) = ParseSelect False ts"
    "tok_type t = KEYWORD_EXPLAIN \<Longrightarrow> Parse (t # ts) = ParseExplain ts"
    "tok_type t = KEYWORD_CREATE \<Longrightarrow> ts = u # us \<Longrightarrow> tok_type u = KEYWORD_TABLE \<Longrightarrow> Parse (t # ts) = ParseCreateTable us"
    "tok_type t = KEYWORD_CREATE \<Longrightarrow> ts = u # us \<Longrightarrow> tok_type u = KEYWORD_INDEX \<Longrightarrow> Parse (t # ts) = ParseCreateIndex us"
proof -
  have f: "find (\<lambda>t. tok_type t = INVALID) ts = None" using assms by (auto simp: find_None_iff)
  show "tok_type t = KEYWORD_INSERT \<Longrightarrow> Parse (t # ts) = ParseInsert ts"
    "tok_type t = KEYWORD_UPDATE \<Longrightarrow> Parse (t # ts) = ParseUpdate ts"
    "tok_type t = KEYWORD_DELETE \<Longrightarrow> Parse (t # ts) = ParseDelete ts"
    "tok_type t = KEYWORD_SELECT \<Longrightarrow> Parse (t # ts) = ParseSelect False ts"
    "tok_type t = KEYWORD_EXPLAIN \<Longrightarrow> Parse (t # ts) = ParseExplain ts"
    using f by (simp_all add: Parse_def)
  show "tok_type t = KEYWORD_CREATE \<Longrightarrow> ts = u # us \<Longrightarrow> tok_type u = KEYWORD_TABLE \<Longrightarrow> Parse (t # ts) = ParseCreateTable us"
    "tok_type t = KEYWORD_CREATE \<Longrightarrow> ts = u # us \<Longrightarrow> tok_type u = KEYWORD_INDEX \<Longrightarrow> Parse (t # ts) = ParseCreateIndex us"
    using f assms by (simp_all add: Parse_def)
qed

section \<open>Whole statements\<close>

lemma set_sep_by: "set (sep_by s xss) \<subseteq> insert s (\<Union> (set ` set xss))"
  by (induction s xss rule: sep_by.induct) auto

lemma sep_by_tokens_ok: "token_ok s \<Longrightarrow> (\<And>xs. xs \<in> set xss \<Longrightarrow> \<forall>t \<in> set xs. token_ok t) \<Longrightarrow> \<forall>t \<in> set (sep_by s xss). token_ok t"
  using set_sep_by[of s xss] by blast

lemma ident_ok: "token_ok (ident w) \<longleftrightarrow> is_identifier w"
  by (simp add: token_ok_def symbol_text_def is_identifier_def)

lemma value_ok: "token_ok (Token NUMBER w) \<longleftrightarrow> is_number w" "token_ok (Token STRING_LITERAL w)"
  by (simp_all add: token_ok_def symbol_text_def)

lemma symbols_ok [simp]: "token_ok (Token ASTERISK ''*'')" "token_ok comma" "token_ok (Token EQUAL ''='')"
  "token_ok (Token GREATER ''>'')" "token_ok (Token LESS ''<'')" "token_ok (Token GREATER_EQUAL ''>='')"
  "token_ok (Token LESS_EQUAL ''<='')" "token_ok (Token SEMICOLON '';'')" "token_ok (Token LPAREN ''('')"
  "token_ok (Token RPAREN '')'')"
  by (simp_all add: token_ok_def symbol_text_def)

lemma keyword_ok: "is_word w \<Longrightarrow> KeywordOf (map toupper w) = ty \<Longrightarrow> token_ok (Token ty w)"
  using word_token_ok[of w] by simp

lemma keywords_ok [simp]: "token_ok (Token KEYWORD_SELECT ''SELECT'')" "token_ok (Token KEYWORD_INSERT ''INSERT'')"
  "token_ok (Token KEYWORD_UPDATE ''UPDATE'')" "token_ok (Token KEYWORD_DELETE ''DELETE'')"
  "token_ok (Token KEYWORD_CREATE ''CREATE'')" "token_ok (Token KEYWORD_TABLE ''TABLE'')"
  "token_ok (Token KEYWORD_INDEX ''INDEX'')" "token_ok (Token KEYWORD_ON ''ON'')" "token_ok (Token KEYWORD_INTO ''INTO'')"
  "token_ok (Token KEYWORD_VALUES ''VALUES'')" "token_ok (Token KEYWORD_FROM ''FROM'')"
  "token_ok (Token KEYWORD_WHERE ''WHERE'')" "token_ok (Token KEYWORD_SET ''SET'')"
  "token_ok (Token KEYWORD_EXPLAIN ''EXPLAIN'')" "token_ok (Token KEYWORD_ANALYZE ''ANALYZE'')"
  "token_ok (Token KEYWORD_AND ''AND'')" "token_ok (Token KEYWORD_NULL ''NULL'')"
  by (rule keyword_ok; code_simp)+

lemma show_nat_is_number: "is_number (show_nat n)"
  using show_nat_digits[of n] by (auto simp: is_number_def)

lemma print_literal_ok: "literal_ok l \<Longrightarrow> \<forall>t \<in> set (print_literal l). token_ok t"
  by (cases "lit_kind l") (simp_all add: print_literal_def literal_ok_def ident_ok value_ok)

lemma print_condition_ok: "condition_ok c \<Longrightarrow> \<forall>t \<in> set (print_condition c). token_ok t"
  using print_literal_ok[of "cond_value c"] by (auto simp: print_condition_def condition_ok_def ident_ok operator_type_def)

lemma print_column_ok: "column_ok c \<Longrightarrow> \<forall>t \<in> set (print_column c). token_ok t"
  using show_nat_is_number[of "def_length c"]
  by (auto simp: print_column_def column_ok_def ident_ok print_length_def value_ok)

lemma print_where_ok: "list_all condition_ok cs \<Longrightarrow> \<forall>t \<in> set (print_where cs). token_ok t"
proof -
  assume a: "list_all condition_ok cs"
  have "\<forall>t \<in> set (sep_by (Token KEYWORD_AND ''AND'') (map print_condition cs)). token_ok t"
    by (rule sep_by_tokens_ok) (use a print_condition_ok in \<open>auto simp: list_all_iff\<close>)
  then show ?thesis by (simp add: print_where_def)
qed

lemma statement_tokens_ok: "statement_ok st \<Longrightarrow> \<forall>t \<in> set (statement_tokens st). token_ok t"
proof (cases st)
  case (SelectStatement t fs cs e)
  assume a: "statement_ok st"
  have "\<forall>t \<in> set (sep_by comma (map (\<lambda>f. [ident f]) fs)). token_ok t" if "list_all is_identifier fs"
    by (rule sep_by_tokens_ok) (use that in \<open>auto simp: ident_ok list_all_iff\<close>)
  then show ?thesis using a SelectStatement print_where_ok[of cs] by (auto simp: ident_ok)
next
  case (InsertStatement t vs)
  assume a: "statement_ok st"
  have "\<forall>t \<in> set (sep_by comma (map print_literal vs)). token_ok t"
    by (rule sep_by_tokens_ok) (use a InsertStatement print_literal_ok in \<open>auto simp: list_all_iff\<close>)
  then show ?thesis using a InsertStatement by (simp add: ident_ok ball_Un)
next
  case (UpdateStatement t c v cs)
  assume "statement_ok st"
  then show ?thesis using UpdateStatement print_where_ok[of cs] print_literal_ok[of v] by (simp add: ident_ok ball_Un)
next
  case (DeleteStatement t cs)
  assume "statement_ok st"
  then show ?thesis using DeleteStatement print_where_ok[of cs] by (simp add: ident_ok)
next
  case (CreateTableStatement t cs)
  assume a: "statement_ok st"
  have "\<forall>t \<in> set (sep_by comma (map print_column cs)). token_ok t"
    by (rule sep_by_tokens_ok) (use a CreateTableStatement print_column_ok in \<open>auto simp: list_all_iff\<close>)
  then show ?thesis using a CreateTableStatement by (simp add: ident_ok ball_Un)
next
  case (CreateIndexStatement i t c)
  assume "statement_ok st"
  then show ?thesis using CreateIndexStatement by (simp add: ident_ok)
qed

lemma same_tokens_type: "same_tokens k us vs \<Longrightarrow> map tok_type us = map tok_type vs"
  by (induction rule: list_all2_induct) (auto dest: same_token_type)

lemma Parse_complete:
  assumes ok: "statement_ok st" and ts: "same_tokens (creates_table st) ts (statement_tokens st)"
    and r: "statement_ends r"
  shows "Parse (ts @ r) = Inr st"
proof -
  have "\<forall>y \<in> set (map tok_type ts). y \<noteq> INVALID"
    using statement_tokens_ok[OF ok] token_ok_types unfolding same_tokens_type[OF ts] by auto
  moreover have "\<forall>t \<in> set r. tok_type t \<noteq> INVALID" using r by (auto elim!: statement_ends_cases)
  ultimately have v: "\<forall>t \<in> set (ts @ r). tok_type t \<noteq> INVALID" by auto
  show ?thesis
  proof (cases st)
    case (SelectStatement t fs cs e)
    let ?want = "print_fields fs @ Token KEYWORD_FROM ''FROM'' # ident t # print_where cs"
    let ?pre = "if e then [Token KEYWORD_EXPLAIN ''EXPLAIN'', Token KEYWORD_ANALYZE ''ANALYZE''] else []"
    have "same_tokens False ts (?pre @ Token KEYWORD_SELECT ''SELECT'' # ?want)" using ts by (simp add: SelectStatement)
    then obtain pre ss where pre: "ts = pre @ ss" "same_tokens False pre ?pre"
        and ss: "same_tokens False ss (Token KEYWORD_SELECT ''SELECT'' # ?want)"
      unfolding list_all2_append2[of _ _ ?pre] by blast
    obtain s us where "ss = s # us" "tok_type s = KEYWORD_SELECT" and w: "same_tokens False us ?want"
      using ss unfolding list_all2_Cons2 by (auto dest: same_token_type)
    then have us: "ts = pre @ s # us" "tok_type s = KEYWORD_SELECT" using pre by simp_all
    note S = ParseSelect_complete[OF ok[unfolded SelectStatement] r w]
    show ?thesis
    proof (cases e)
      case True
      then obtain x a where "pre = [x, a]" "tok_type x = KEYWORD_EXPLAIN" "tok_type a = KEYWORD_ANALYZE"
        using pre(2) by (auto simp: list_all2_Cons2)
      then show ?thesis using S v True us by (simp add: SelectStatement Parse_dispatch(5) ball_Un ParseExplain_def)
    next
      case False
      then show ?thesis using S v us pre by (simp add: SelectStatement Parse_dispatch(4) ball_Un)
    qed
  next
    case (InsertStatement t vs)
    then obtain a b c d us f where us: "ts = a # b # ident t # c # d # us @ [f]"
        "same_tokens False us (sep_by comma (map print_literal vs))"
        "tok_type a = KEYWORD_INSERT" "tok_type b = KEYWORD_INTO" "tok_type c = KEYWORD_VALUES" "tok_type d = LPAREN"
        "tok_type f = RPAREN"
      using ts by (auto simp: split_tokens)
    have "ParseValues (us @ f # r) = Inr (vs, f # r)"
      using ok InsertStatement us(7) by (intro complete_onD[OF vals.many_complete _ us(2)]) auto
    then show ?thesis using v us r by (simp add: InsertStatement Parse_dispatch(1) ball_Un ParseInsert_def)
  next
    case (UpdateStatement t c l cs)
    then obtain a b d us ws where us: "ts = a # ident t # b # ident c # d # us @ ws"
        "same_tokens False us (print_literal l)" "same_tokens False ws (print_where cs)"
        "tok_type a = KEYWORD_UPDATE" "tok_type b = KEYWORD_SET" "tok_type d = EQUAL"
      using ts by (auto simp: split_tokens)
    then show ?thesis using ok v where_read[OF _ us(3) r] literal_read[OF _ us(2)] r UpdateStatement
      by (simp add: Parse_dispatch(2) ball_Un ParseUpdate_def)
  next
    case (DeleteStatement t cs)
    then obtain a b ws where us: "ts = a # b # ident t # ws" "same_tokens False ws (print_where cs)"
        "tok_type a = KEYWORD_DELETE" "tok_type b = KEYWORD_FROM"
      using ts by (auto simp: split_tokens)
    then show ?thesis using ok v where_read[OF _ us(2) r] r DeleteStatement
      by (simp add: Parse_dispatch(3) ball_Un ParseDelete_def)
  next
    case (CreateTableStatement t cs)
    then obtain a b c us f where us: "ts = a # b # ident t # c # us @ [f]"
        "same_tokens True us (sep_by comma (map print_column cs))"
        "tok_type a = KEYWORD_CREATE" "tok_type b = KEYWORD_TABLE" "tok_type c = LPAREN" "tok_type f = RPAREN"
      using ts by (auto simp: split_tokens)
    have "ParseColumns (us @ f # r) = Inr (cs, f # r)"
      using ok CreateTableStatement us(6) by (intro complete_onD[OF cols.many_complete _ us(2)]) auto
    then show ?thesis using v us r by (simp add: CreateTableStatement Parse_dispatch(6) ball_Un ParseCreateTable_def)
  next
    case (CreateIndexStatement i t c)
    then obtain a b d e f where us: "ts = [a, b, ident i, d, ident t, e, ident c, f]"
        "tok_type a = KEYWORD_CREATE" "tok_type b = KEYWORD_INDEX" "tok_type d = KEYWORD_ON" "tok_type e = LPAREN"
        "tok_type f = RPAREN"
      using ts by (auto simp: split_tokens)
    then show ?thesis using v r by (simp add: CreateIndexStatement Parse_dispatch(7) ball_Un ParseCreateIndex_def)
  qed
qed

lemma ParseExplainD:
  assumes "ParseExplain ts = Inr st"
  obtains v w ts' where "ts = Token KEYWORD_ANALYZE v # Token KEYWORD_SELECT w # ts'" "ParseSelect True ts' = Inr st"
proof -
  obtain ts1 ts2 where s: "ExpectToken KEYWORD_ANALYZE ''Se esperaba ANALYZE despues de EXPLAIN'' ts = Inr ts1"
      "ExpectToken KEYWORD_SELECT ''Se esperaba SELECT despues de EXPLAIN ANALYZE'' ts1 = Inr ts2"
      "ParseSelect True ts2 = Inr st"
    using assms unfolding ParseExplain_def by (auto split: sum.splits)
  show ?thesis using ExpectTokenD[OF s(1)] ExpectTokenD[OF s(2)] s(3) that by (metis token_type.distinct)
qed

lemma Parse_sound:
  assumes p: "Parse ts = Inr st" and pr: "\<forall>t \<in> set ts. tok_type t = INVALID \<or> proper t"
  shows "statement_ok st \<and> accepted (creates_table st) ts (statement_tokens st)"
proof -
  have f: "find (\<lambda>t. tok_type t = INVALID) ts = None" using p by (auto simp: Parse_def split: option.splits)
  then have nf: "\<forall>t \<in> set ts. tok_type t \<noteq> INVALID" by (auto simp: find_None_iff)
  then have pr: "\<forall>t \<in> set ts. proper t" using pr by blast
  obtain t us where ts: "ts = t # us" using p f by (cases ts) (auto simp: Parse_def)
  obtain ty w where t: "t = Token ty w" by (cases t)
  have pru: "\<forall>t \<in> set us. proper t" and v: "\<forall>t \<in> set us. tok_type t \<noteq> INVALID"
    using pr nf ts by simp_all
  have join: "accepted k ts (statement_tokens st)"
    if "accepted k us (tl (statement_tokens st))" "same_token k t (hd (statement_tokens st))" for k
    using accepted_cons[OF that] by (cases st) (auto simp: ts)
  have "ty \<in> {KEYWORD_INSERT, KEYWORD_UPDATE, KEYWORD_DELETE, KEYWORD_SELECT, KEYWORD_EXPLAIN, KEYWORD_CREATE}"
    using p f by (cases ty) (auto simp: Parse_def ts t)
  then consider (i) "ty = KEYWORD_INSERT" | (u) "ty = KEYWORD_UPDATE" | (d) "ty = KEYWORD_DELETE"
    | (s) "ty = KEYWORD_SELECT" | (e) "ty = KEYWORD_EXPLAIN" | (c) "ty = KEYWORD_CREATE" by blast
  then show ?thesis
  proof cases
    case i
    then have "ParseInsert us = Inr st" using p Parse_dispatch(1)[OF v] by (simp add: ts t)
    from ParseInsert_sound[OF this pru] show ?thesis using join i t by simp
  next
    case u
    then have "ParseUpdate us = Inr st" using p Parse_dispatch(2)[OF v] by (simp add: ts t)
    from ParseUpdate_sound[OF this pru] show ?thesis using join u t by simp
  next
    case d
    then have "ParseDelete us = Inr st" using p Parse_dispatch(3)[OF v] by (simp add: ts t)
    from ParseDelete_sound[OF this pru] show ?thesis using join d t by simp
  next
    case s
    then have "ParseSelect False us = Inr st" using p Parse_dispatch(4)[OF v] by (simp add: ts t)
    then obtain n fs cs where "st = SelectStatement n fs cs False" "statement_ok st"
        "accepted False us (print_fields fs @ Token KEYWORD_FROM ''FROM'' # ident n # print_where cs)"
      by (rule ParseSelect_sound[OF _ pru])
    then show ?thesis using join s t by simp
  next
    case e
    then have "ParseExplain us = Inr st" using p Parse_dispatch(5)[OF v] by (simp add: ts t)
    then obtain v1 v2 us' where us: "us = Token KEYWORD_ANALYZE v1 # Token KEYWORD_SELECT v2 # us'"
        "ParseSelect True us' = Inr st" by (rule ParseExplainD)
    have "\<forall>t \<in> set us'. proper t" using pru us(1) by simp
    then obtain n fs cs where st: "st = SelectStatement n fs cs True" "statement_ok st"
        and acc: "accepted False us' (print_fields fs @ Token KEYWORD_FROM ''FROM'' # ident n # print_where cs)"
      by (rule ParseSelect_sound[OF us(2)])
    have "accepted False us (tl (statement_tokens st))"
      using accepted_cons[OF accepted_cons[OF acc]] by (simp add: us(1) st(1))
    then show ?thesis using join e t st by simp
  next
    case c
    obtain u us' where us: "us = u # us'" using p c f by (cases us) (auto simp: Parse_def ts t)
    have pru': "\<forall>t \<in> set us'. proper t" using pru us by simp
    have "tok_type u \<in> {KEYWORD_TABLE, KEYWORD_INDEX}"
      using p c f by (cases "tok_type u") (auto simp: Parse_def ts t us)
    then show ?thesis
    proof (elim insertE emptyE)
      assume ty: "tok_type u = KEYWORD_TABLE"
      then have "ParseCreateTable us' = Inr st" using p c Parse_dispatch(6)[OF v] by (simp add: ts t us)
      from ParseCreateTable_sound[OF this pru'] obtain want where S: "statement_ok st" "accepted True us' want" "creates_table st"
          "statement_tokens st = Token KEYWORD_CREATE ''CREATE'' # Token KEYWORD_TABLE ''TABLE'' # want"
        by blast
      have "same_token True u (Token KEYWORD_TABLE ''TABLE'')" using ty by (simp add: same_token_def)
      from accepted_cons[OF S(2) this] show ?thesis using S(1,3,4) join c t us by simp
    next
      assume ty: "tok_type u = KEYWORD_INDEX"
      then have "ParseCreateIndex us' = Inr st" using p c Parse_dispatch(7)[OF v] by (simp add: ts t us)
      from ParseCreateIndex_sound[OF this pru'] obtain want where S: "statement_ok st" "accepted False us' want" "\<not> creates_table st"
          "statement_tokens st = Token KEYWORD_CREATE ''CREATE'' # Token KEYWORD_INDEX ''INDEX'' # want"
        by blast
      have "same_token False u (Token KEYWORD_INDEX ''INDEX'')" using ty by (simp add: same_token_def)
      from accepted_cons[OF S(2) this] show ?thesis using S(1,3,4) join c t us by simp
    qed
  qed
qed

lemma tokenized: "\<exists>toks. Tokenize s = toks @ [eof] \<and> (\<forall>t \<in> set toks. token_ok t \<or> tok_type t = INVALID)"
  using TokenizeLoop_structure[of s] by (auto simp: Tokenize_def)

lemma statement_end:
  assumes "toks @ [eof] = us @ rest" "finished rest"
    "\<forall>t \<in> set toks. tok_type t \<noteq> END_OF_FILE" "\<forall>t \<in> set us. tok_type t \<noteq> END_OF_FILE"
  shows "\<exists>b. same_tokens k rest (semicolon b @ [eof])"
proof -
  have "rest \<noteq> []" using assms(1,4) by (metis append.right_neutral in_set_conv_decomp token.sel(1))
  then obtain rs where rs: "rest = rs @ [eof]" "toks = us @ rs"
    using assms(1) by (cases rest rule: rev_cases) auto
  have ne: "\<forall>t \<in> set rs. tok_type t \<noteq> END_OF_FILE" using assms(3) rs by simp
  consider "rs = []" | u where "rs = [u]" | u v us where "rs = u # v # us" by (metis neq_Nil_conv)
  then show ?thesis
  proof cases
    case 1
    then show ?thesis by (intro exI[of _ False]) (simp add: rs semicolon_def)
  next
    case (2 u)
    then have "tok_type u = SEMICOLON" using assms(2) ne by (auto simp: rs finished_def split: if_splits)
    then show ?thesis using 2 by (intro exI[of _ True]) (simp add: rs semicolon_def same_token_def)
  next
    case 3
    then show ?thesis using assms(2) ne by (auto simp: rs finished_def split: if_splits)
  qed
qed

section \<open>Properties\<close>

text \<open>
  C27. Every well-formed statement, written as SQL text with or without the final semicolon, is
  tokenized and parsed back to exactly that statement.
\<close>

theorem sql_roundtrip:
  assumes "statement_ok st"
  shows "Parse (Tokenize (print_sql b st)) = Inr st"
proof -
  have "\<forall>t \<in> set (statement_tokens st @ semicolon b). token_ok t"
    using statement_tokens_ok[OF assms] by (auto simp: semicolon_def)
  then have "Tokenize (print_sql b st) = statement_tokens st @ semicolon b @ [eof]"
    using TokenizeLoop_printed[of "statement_tokens st @ semicolon b"] by (simp add: print_sql_def Tokenize_def)
  then show ?thesis using Parse_complete[OF assms, of "statement_tokens st" "semicolon b @ [eof]"]
    by (simp add: statement_ends_def exI[of _ b] exI[of _ False])
qed

theorem sql_roundtrip_witness:
  "Parse (Tokenize (print_sql True (UpdateStatement ''alumnos'' ''nombre'' (SQLLiteral Kind_STRING ''O Brien'')
      [Condition ''id'' ''>='' (SQLLiteral Kind_NUMBER ''7'')]))) =
    Inr (UpdateStatement ''alumnos'' ''nombre'' (SQLLiteral Kind_STRING ''O Brien'')
      [Condition ''id'' ''>='' (SQLLiteral Kind_NUMBER ''7'')])"
proof -
  have n: "is_number ''7''" by (auto simp: is_number_def isdigit_def)
  have i: "is_identifier ''alumnos''" "is_identifier ''nombre''" "is_identifier ''id''" by code_simp+
  have "statement_ok (UpdateStatement ''alumnos'' ''nombre'' (SQLLiteral Kind_STRING ''O Brien'')
      [Condition ''id'' ''>='' (SQLLiteral Kind_NUMBER ''7'')])"
    using n i by (simp add: literal_ok_def condition_ok_def)
  from sql_roundtrip[OF this] show ?thesis .
qed

lemma Parse_accepts:
  assumes "Parse (Tokenize s) = Inr st"
  shows "statement_ok st \<and>
    (\<exists>b. same_tokens (creates_table st) (Tokenize s) (statement_tokens st @ semicolon b @ [eof]))"
proof -
  obtain toks where toks: "Tokenize s = toks @ [eof]" "\<forall>t \<in> set toks. token_ok t \<or> tok_type t = INVALID"
    using tokenized by blast
  have "\<forall>t \<in> set (Tokenize s). tok_type t = INVALID \<or> proper t" using toks by (auto simp: proper_def)
  note S = Parse_sound[OF assms this]
  then obtain us rest where us: "Tokenize s = us @ rest" "same_tokens (creates_table st) us (statement_tokens st)"
      "finished rest"
    by (auto simp: accepted_def)
  have "\<forall>y \<in> set (map tok_type us). y \<noteq> END_OF_FILE"
    using statement_tokens_ok token_ok_types S unfolding same_tokens_type[OF us(2)] by auto
  then have "\<forall>t \<in> set us. tok_type t \<noteq> END_OF_FILE" by simp
  moreover have "\<forall>t \<in> set toks. tok_type t \<noteq> END_OF_FILE" using toks(2) token_ok_types by fastforce
  ultimately obtain b where "same_tokens (creates_table st) rest (semicolon b @ [eof])"
    using statement_end[of toks us rest] us(1,3) toks(1) by metis
  then show ?thesis using S us(1,2) by (auto intro: list_all2_appendI)
qed

lemma Parse_reads:
  assumes "statement_ok st" "same_tokens (creates_table st) ts (statement_tokens st @ semicolon b @ [eof])"
  shows "Parse ts = Inr st"
proof -
  obtain us r where "ts = us @ r" "same_tokens (creates_table st) us (statement_tokens st)"
      "same_tokens (creates_table st) r (semicolon b @ [eof])"
    using assms(2) by (auto simp: list_all2_append2)
  then show ?thesis using Parse_complete[OF assms(1)] unfolding statement_ends_def by blast
qed


end
