(* ===== verification/SQL_Literal.thy ===== *)
theory SQL_Literal
  imports Parser_Correct Record_Codec_Correct
begin

text \<open>
  The conversion of a literal of a statement into the value of a column (query/literal.cpp), and what
  it accepts: exactly the literals that denote a value the column can hold.
\<close>

definition ConvertLiteral :: "column \<Rightarrow> sql_literal \<Rightarrow> bool \<Rightarrow> field_value result" where
  "ConvertLiteral column literal allow_null =
     (if lit_kind literal = Kind_NULL_VALUE
      then (if \<not> allow_null then Inl (InvalidArgument ''NULL is not supported in this predicate'')
            else Inr FNull)
      else (case col_type column of
         INTEGER \<Rightarrow>
           if lit_kind literal \<noteq> Kind_NUMBER
           then Inl (InvalidArgument ''INTEGER values must use an unquoted numeric literal'')
           else (case stoll (lit_text literal) of
                None \<Rightarrow> Inl (InvalidArgument ''Invalid typed literal'')
              | Some (parsed, consumed) \<Rightarrow>
                  if consumed \<noteq> length (lit_text literal) \<or> parsed < - 2147483648 \<or> parsed > 2147483647
                  then Inl (InvalidArgument ''Invalid INTEGER literal'')
                  else Inr (FInt (word_of_int parsed)))
       | VARCHAR \<Rightarrow>
           if lit_kind literal \<noteq> Kind_STRING then Inl (InvalidArgument ''VARCHAR values must be quoted'')
           else if col_length column > 0 \<and> length (lit_text literal) > col_length column
           then Inl (InvalidArgument ''VARCHAR literal exceeds declared length'')
           else Inr (FStr (lit_text literal))
       | BOOLEAN \<Rightarrow>
           if lit_kind literal \<noteq> Kind_IDENTIFIER \<and> lit_kind literal \<noteq> Kind_NUMBER
           then Inl (InvalidArgument ''BOOLEAN values must be true, false, 1, or 0'')
           else let normalized = map tolower (lit_text literal)
                in if normalized = ''true'' \<or> normalized = ''1'' then Inr (FBool True)
                   else if normalized = ''false'' \<or> normalized = ''0'' then Inr (FBool False)
                   else Inl (InvalidArgument ''Invalid BOOLEAN literal'')))"

section \<open>What a literal denotes\<close>

definition number_value :: "string \<Rightarrow> int" where
  "number_value s = (if s \<noteq> [] \<and> hd s = CHR ''-'' then - int (digits (tl s)) else int (digits s))"

definition denotes :: "sql_literal \<Rightarrow> field_value \<Rightarrow> bool" where
  "denotes l v = (case v of
     FNull \<Rightarrow> lit_kind l = Kind_NULL_VALUE
   | FInt w \<Rightarrow> lit_kind l = Kind_NUMBER \<and> sint w = number_value (lit_text l)
   | FStr s \<Rightarrow> lit_kind l = Kind_STRING \<and> s = lit_text l
   | FBool b \<Rightarrow>
       lit_kind l = Kind_IDENTIFIER \<and> map tolower (lit_text l) = (if b then ''true'' else ''false'') \<or>
       lit_kind l = Kind_NUMBER \<and> lit_text l = (if b then ''1'' else ''0''))"

lemma stoll_number:
  assumes "is_number s"
  shows "stoll s = (if - (2 ^ 63) \<le> number_value s \<and> number_value s < 2 ^ 63 then Some (number_value s, length s) else None)"
proof -
  obtain ds where ds: "ds \<noteq> []" "\<forall>c \<in> set ds. isdigit c" "s = ds \<or> s = CHR ''-'' # ds"
    using assms by (auto simp: is_number_def)
  have "\<not> isdigit (CHR ''-'')" by (simp add: isdigit_def)
  then have "hd ds \<noteq> CHR ''-''" using ds(1,2) by (cases ds) auto
  then have "number_value ds = int (digits ds)" "number_value (CHR ''-'' # ds) = - int (digits ds)"
    using ds(1) by (simp_all add: number_value_def)
  then show ?thesis using ds(3) scan_digits[OF ds(1,2)] by (auto simp: stoll_def Let_def)
qed

lemma map_tolower_number: "is_number s \<Longrightarrow> map tolower s = s"
proof -
  assume "is_number s"
  then have "\<forall>c \<in> set s. isdigit c \<or> c = CHR ''-''" by (auto simp: is_number_def)
  then have "\<forall>c \<in> set s. tolower c = c" by (auto simp: tolower_def isupper_def isdigit_def)
  then show ?thesis by (simp add: map_idI)
qed

lemma tolower_letter:
  assumes "isalpha c \<or> c = CHR ''_''"
  shows "tolower c \<noteq> CHR ''0'' \<and> tolower c \<noteq> CHR ''1''"
proof -
  have "(of_char (tolower c) :: nat) \<ge> 95"
    using assms by (auto simp: tolower_def isalpha_def isupper_def islower_def)
  then show ?thesis by auto
qed

lemma word_in_range: "- 2147483648 \<le> i \<Longrightarrow> i \<le> 2147483647 \<Longrightarrow> sint (word_of_int i :: 32 word) = i"
  by (simp add: int_word_sint)

lemma sint_range: "- 2147483648 \<le> sint (w :: 32 word) \<and> sint w \<le> 2147483647"
  using sint_ge[of w] sint_lt[of w] by simp

lemma ConvertLiteral_exact:
  assumes "literal_ok l"
  shows "ConvertLiteral c l allow_null = Inr v \<longleftrightarrow> denotes l v \<and> field_ok c v \<and> (v = FNull \<longrightarrow> allow_null)"
proof (cases "lit_kind l")
  case Kind_NUMBER
  then have n: "is_number (lit_text l)" using assms by (simp add: literal_ok_def)
  show ?thesis
  proof (cases "col_type c")
    case INTEGER
    let ?i = "number_value (lit_text l)"
    have "ConvertLiteral c l allow_null = Inr v \<longleftrightarrow>
        - 2147483648 \<le> ?i \<and> ?i \<le> 2147483647 \<and> v = FInt (word_of_int ?i)"
      using Kind_NUMBER INTEGER stoll_number[OF n] by (auto simp: ConvertLiteral_def)
    also have "\<dots> \<longleftrightarrow> (\<exists>w. v = FInt w \<and> sint w = ?i)"
      (is "?L \<longleftrightarrow> ?R")
    proof
      show "?L \<Longrightarrow> ?R" using word_in_range[of ?i] by blast
      assume ?R
      then obtain w where "v = FInt w" "sint w = ?i" by blast
      moreover have "word_of_int (sint w) = w" by simp
      ultimately show ?L using sint_range[of w] by metis
    qed
    finally show ?thesis using Kind_NUMBER INTEGER by (cases v) (auto simp: denotes_def field_ok_def)
  next
    case VARCHAR
    then show ?thesis using Kind_NUMBER by (cases v) (auto simp: ConvertLiteral_def denotes_def field_ok_def)
  next
    case BOOLEAN
    have "lit_text l \<noteq> ''true''" "lit_text l \<noteq> ''false''" using n by (auto simp: is_number_def isdigit_def)
    then show ?thesis using Kind_NUMBER BOOLEAN map_tolower_number[OF n]
      by (cases v) (auto simp: ConvertLiteral_def denotes_def field_ok_def Let_def)
  qed
next
  case Kind_STRING
  then show ?thesis
    by (cases "col_type c"; cases v) (auto simp: ConvertLiteral_def denotes_def field_ok_def)
next
  case Kind_IDENTIFIER
  then have "map tolower (lit_text l) \<noteq> ''1''" "map tolower (lit_text l) \<noteq> ''0''"
    using assms tolower_letter[of "hd (lit_text l)"]
    by (auto simp: literal_ok_def is_identifier_def is_word_def map_eq_Cons_conv)
  then show ?thesis using Kind_IDENTIFIER
    by (cases "col_type c"; cases v) (auto simp: ConvertLiteral_def denotes_def field_ok_def Let_def)
next
  case Kind_NULL_VALUE
  then show ?thesis by (cases v) (auto simp: ConvertLiteral_def denotes_def field_ok_def)
qed

section \<open>Properties\<close>

text \<open>
  C29. A literal read from a statement is converted for a column exactly when it denotes a value the
  column can hold: an unquoted number in the range of a 32-bit integer, a quoted text that fits the
  declared length, one of the words and digits for the truth values, NULL where it is allowed. The
  result is that value and no other; a number out of range is an error and never wraps around.
\<close>

theorem convert_literal_exact:
  assumes "literal_ok l"
  shows "ConvertLiteral c l allow_null = Inr v \<longleftrightarrow> denotes l v \<and> field_ok c v \<and> (v = FNull \<longrightarrow> allow_null)"
  by (rule ConvertLiteral_exact[OF assms])

theorem convert_literal_exact_witness:
  "ConvertLiteral \<lparr>col_name = ''id'', col_type = INTEGER, col_length = 4\<rparr> (SQLLiteral Kind_NUMBER ''-17'') False =
    Inr (FInt (- 17))"
proof -
  have "is_number ''-17''" by (auto simp: is_number_def isdigit_def intro!: exI[of _ "''17''"])
  then have ok: "literal_ok (SQLLiteral Kind_NUMBER ''-17'')" by (simp add: literal_ok_def)
  have "number_value ''-17'' = - 17" by code_simp
  then show ?thesis by (subst convert_literal_exact[OF ok]) (simp add: denotes_def field_ok_def)
qed

end
