(* ===== verification/Catalog_Page.thy ===== *)
theory Catalog_Page
  imports Common "HOL-Library.List_Lexorder" "HOL-Library.Char_ord" "HOL-Library.Monad_Syntax"
begin

text \<open>
  The image of the catalog on page 0 (the anonymous namespace, \<^verbatim>\<open>Persist\<close> up to its first access to
  the pool and the parsing half of \<^verbatim>\<open>Load\<close> of catalog/catalog_manager.cpp). The hash tables of the
  class are association lists with distinct keys: their order never reaches the page, because the code
  sorts the keys. \<^verbatim>\<open>std::string\<close>s compare by unsigned bytes, as the library's order on
  \<^typ>\<open>char\<close> and \<^typ>\<open>string\<close> does. A writer carries the buffer and the cursor; \<open>None\<close>
  is the \<open>false\<close> of the code's helpers. Null pointers of the helpers have no counterpart.
\<close>

section \<open>Metadata\<close>

record table_metadata =
  tm_name :: string
  tm_schema :: schema
  tm_first_page_id :: page_id

text \<open>\<open>im_index\<close> is the state of the owned \<^verbatim>\<open>HashIndex\<close> object: its header page.\<close>

record index_metadata =
  im_name :: string
  im_table_name :: string
  im_column_name :: string
  im_header_page_id :: page_id
  im_index :: page_id

record pending_index =
  pi_name :: string
  pi_table_name :: string
  pi_column_name :: string
  pi_header_page_id :: page_id

definition GetColumnCount :: "schema \<Rightarrow> nat" where
  "GetColumnCount columns = u32 (int (length columns))"

definition TypeId_u8 :: "type_id \<Rightarrow> nat" where
  "TypeId_u8 t = (case t of INTEGER \<Rightarrow> 0 | VARCHAR \<Rightarrow> 1 | BOOLEAN \<Rightarrow> 2)"

definition TypeId_of_u8 :: "nat \<Rightarrow> type_id" where
  "TypeId_of_u8 v = (if v = 0 then INTEGER else if v = 1 then VARCHAR else BOOLEAN)"

section \<open>Constants\<close>

definition CATALOG_MAGIC :: nat where [layout_simps]: "CATALOG_MAGIC = 0x31544143"
definition CATALOG_VERSION :: nat where [layout_simps]: "CATALOG_VERSION = 1"
definition CATALOG_HEADER_SIZE :: nat where [layout_simps]: "CATALOG_HEADER_SIZE = 16"

definition FitsUint16 :: "nat \<Rightarrow> bool" where "FitsUint16 v \<longleftrightarrow> v \<le> 65535"

section \<open>Writing\<close>

type_synonym writer = "byte list \<times> nat \<Rightarrow> (byte list \<times> nat) option"

text \<open>The template at the image of its value, and its instances.\<close>

definition CM_WriteValue :: "byte list \<Rightarrow> writer" where
  "CM_WriteValue bs = (\<lambda>(data, cursor).
     if cursor > length data \<or> length bs > length data - cursor then None
     else Some (mem_write data cursor bs, cursor + length bs))"

abbreviation CM_WriteU8 :: "nat \<Rightarrow> writer" where "CM_WriteU8 v \<equiv> CM_WriteValue (le_bytes 1 v)"
abbreviation CM_WriteU16 :: "nat \<Rightarrow> writer" where "CM_WriteU16 v \<equiv> CM_WriteValue (le_bytes 2 v)"
abbreviation CM_WriteU32 :: "nat \<Rightarrow> writer" where "CM_WriteU32 v \<equiv> CM_WriteValue (le_bytes 4 v)"
abbreviation CM_WriteI32 :: "int \<Rightarrow> writer" where "CM_WriteI32 v \<equiv> CM_WriteValue (le_bytes 4 (u32 v))"

definition CM_WriteString :: "string \<Rightarrow> writer" where
  "CM_WriteString value = (\<lambda>(data, cursor).
     if cursor > length data \<or> length value > length data - cursor then None
     else Some (if value \<noteq> [] then mem_write data cursor value else data, cursor + length value))"

text \<open>Writers joined by \<^verbatim>\<open>&&\<close>: the first that fails ends the chain.\<close>

fun CM_WriteAll :: "writer list \<Rightarrow> writer" where
  "CM_WriteAll [] s = Some s"
| "CM_WriteAll (w # ws) s = (case w s of None \<Rightarrow> None | Some s' \<Rightarrow> CM_WriteAll ws s')"

definition PersistColumn :: "column \<Rightarrow> byte list \<times> nat \<Rightarrow> (byte list \<times> nat) result" where
  "PersistColumn column s =
     (if \<not> FitsUint16 (length (col_name column)) then Inl (OutOfMemory ''Catalog page is full'')
      else (case CM_WriteAll [CM_WriteU16 (length (col_name column)), CM_WriteU8 (TypeId_u8 (col_type column)),
                  CM_WriteU8 0, CM_WriteU32 (col_length column), CM_WriteString (col_name column)] s of
          None \<Rightarrow> Inl (OutOfMemory ''Catalog page is full'')
        | Some s \<Rightarrow> Inr s))"

text \<open>The end of an entry, the same for tables and indexes: the size is entered at its start.\<close>

definition CloseEntry :: "string \<Rightarrow> nat \<Rightarrow> byte list \<times> nat \<Rightarrow> (byte list \<times> nat) result" where
  "CloseEntry too_large entry_start = (\<lambda>(serialized, cursor).
     let entry_size = cursor - entry_start
     in if \<not> FitsUint16 entry_size then Inl (OutOfMemory too_large)
        else Inr (mem_write serialized entry_start (le_bytes 2 entry_size), cursor))"

definition PersistTable :: "table_metadata \<Rightarrow> byte list \<times> nat \<Rightarrow> (byte list \<times> nat) result" where
  "PersistTable table s =
     (if \<not> FitsUint16 (length (tm_name table)) \<or> GetColumnCount (tm_schema table) > 65535
      then Inl (OutOfMemory ''Catalog table metadata is too large'')
      else (case CM_WriteAll [CM_WriteU16 0, CM_WriteU16 (length (tm_name table)),
                  CM_WriteU16 (GetColumnCount (tm_schema table)), CM_WriteU16 0,
                  CM_WriteI32 (tm_first_page_id table), CM_WriteString (tm_name table)] s of
          None \<Rightarrow> Inl (OutOfMemory ''Catalog page is full'')
        | Some s' \<Rightarrow> (case for_each PersistColumn (tm_schema table) s' of
              Inl st \<Rightarrow> Inl st
            | Inr s'' \<Rightarrow> CloseEntry ''Catalog table entry is too large'' (snd s) s'')))"

definition PersistIndex :: "index_metadata \<Rightarrow> byte list \<times> nat \<Rightarrow> (byte list \<times> nat) result" where
  "PersistIndex metadata s =
     (if \<not> FitsUint16 (length (im_name metadata)) \<or> \<not> FitsUint16 (length (im_table_name metadata)) \<or>
         \<not> FitsUint16 (length (im_column_name metadata))
      then Inl (OutOfMemory ''Catalog index metadata is too large'')
      else (case CM_WriteAll [CM_WriteU16 0, CM_WriteU16 (length (im_name metadata)),
                  CM_WriteU16 (length (im_table_name metadata)), CM_WriteU16 (length (im_column_name metadata)),
                  CM_WriteI32 (im_header_page_id metadata), CM_WriteString (im_name metadata),
                  CM_WriteString (im_table_name metadata), CM_WriteString (im_column_name metadata)] s of
          None \<Rightarrow> Inl (OutOfMemory ''Catalog page is full'')
        | Some s' \<Rightarrow> CloseEntry ''Catalog index entry is too large'' (snd s) s'))"

definition WriteHeader :: "nat \<Rightarrow> nat \<Rightarrow> byte list \<times> nat \<Rightarrow> byte list result" where
  "WriteHeader table_count index_count = (\<lambda>(serialized, cursor).
     if \<not> FitsUint16 cursor then Inl (OutOfMemory ''Catalog page is full'')
     else (case CM_WriteAll [CM_WriteU32 CATALOG_MAGIC, CM_WriteU16 CATALOG_VERSION, CM_WriteU16 table_count,
                 CM_WriteU16 index_count, CM_WriteU16 cursor, CM_WriteU32 0] (serialized, 0) of
         None \<Rightarrow> Inl (IOError ''Could not serialize catalog header'')
       | Some (serialized, header_cursor) \<Rightarrow>
           if header_cursor \<noteq> CATALOG_HEADER_SIZE then Inl (IOError ''Could not serialize catalog header'')
           else Inr serialized))"

text \<open>The entries of a hash table in the order of the sorted keys.\<close>

definition in_key_order :: "(string \<times> 'v) list \<Rightarrow> 'v list" where
  "in_key_order entries = map (\<lambda>key. the (map_of entries key)) (sort (map fst entries))"

definition SerializeCatalog ::
  "(string \<times> table_metadata) list \<Rightarrow> (string \<times> index_metadata) list \<Rightarrow> byte list result" where
  "SerializeCatalog tables indexes =
     (if length tables > 65535 \<or> length indexes > 65535
      then Inl (OutOfMemory ''Catalog contains too many entries'')
      else (case for_each PersistTable (in_key_order tables)
                  (replicate PAGE_SIZE zero_byte, CATALOG_HEADER_SIZE) of
          Inl st \<Rightarrow> Inl st
        | Inr s \<Rightarrow> (case for_each PersistIndex (in_key_order indexes) s of
              Inl st \<Rightarrow> Inl st
            | Inr s \<Rightarrow> WriteHeader (length tables) (length indexes) s)))"

section \<open>Reading\<close>

definition CM_ReadValue :: "nat \<Rightarrow> byte list \<Rightarrow> nat \<Rightarrow> nat \<Rightarrow> (nat \<times> nat) option" where
  "CM_ReadValue width data limit cursor =
     (if cursor > limit \<or> width > limit - cursor then None
      else Some (le_nat (mem_read data cursor width), cursor + width))"

definition CM_ReadString :: "byte list \<Rightarrow> nat \<Rightarrow> nat \<Rightarrow> nat \<Rightarrow> (string \<times> nat) option" where
  "CM_ReadString data limit len cursor =
     (if cursor > limit \<or> len > limit - cursor then None
      else Some (mem_read data cursor len, cursor + len))"

text \<open>The fixed part of a table entry and of an index entry: four 16-bit fields and a page id, with
  the same checks.\<close>

definition ReadEntryHeader :: "byte list \<Rightarrow> nat \<Rightarrow> nat \<Rightarrow> (nat \<times> nat \<times> nat \<times> nat \<times> page_id \<times> nat) option" where
  "ReadEntryHeader data limit entry_start = do {
     (entry_size, cursor) \<leftarrow> CM_ReadValue 2 data limit entry_start;
     (field1, cursor) \<leftarrow> CM_ReadValue 2 data limit cursor;
     (field2, cursor) \<leftarrow> CM_ReadValue 2 data limit cursor;
     (field3, cursor) \<leftarrow> CM_ReadValue 2 data limit cursor;
     (p, cursor) \<leftarrow> CM_ReadValue 4 data limit cursor;
     if entry_size < 12 \<or> entry_start + entry_size > limit \<or> i32 p \<le> HEADER_PAGE_ID then None
     else Some (entry_size, field1, field2, field3, i32 p, cursor) }"

definition ReadColumn :: "byte list \<Rightarrow> nat \<Rightarrow> schema \<times> nat \<Rightarrow> (schema \<times> nat) result" where
  "ReadColumn data entry_end = (\<lambda>(columns, cursor).
     (case (do {
        (column_name_length, cursor) \<leftarrow> CM_ReadValue 2 data entry_end cursor;
        (type_value, cursor) \<leftarrow> CM_ReadValue 1 data entry_end cursor;
        (column_reserved, cursor) \<leftarrow> CM_ReadValue 1 data entry_end cursor;
        (declared_length, cursor) \<leftarrow> CM_ReadValue 4 data entry_end cursor;
        if type_value > TypeId_u8 BOOLEAN then None
        else Some (column_name_length, type_value, declared_length, cursor) }) of
        None \<Rightarrow> Inl (IOError ''Catalog column entry is corrupted'')
      | Some (column_name_length, type_value, declared_length, cursor) \<Rightarrow>
          (case CM_ReadString data entry_end column_name_length cursor of
             None \<Rightarrow> Inl (IOError ''Catalog column name is corrupted'')
           | Some (column_name, cursor) \<Rightarrow>
               if column_name = [] then Inl (IOError ''Catalog column name is corrupted'')
               else Inr (columns @ [\<lparr>col_name = column_name, col_type = TypeId_of_u8 type_value,
                                      col_length = declared_length\<rparr>], cursor))))"

definition ReadTableEntry :: "byte list \<Rightarrow> nat \<Rightarrow> nat \<Rightarrow> (table_metadata \<times> nat) result" where
  "ReadTableEntry data limit entry_start = (case ReadEntryHeader data limit entry_start of
     None \<Rightarrow> Inl (IOError ''Catalog table entry is corrupted'')
   | Some (entry_size, name_length, column_count, entry_reserved, first_page_id, cursor) \<Rightarrow>
       (case CM_ReadString data (entry_start + entry_size) name_length cursor of
          None \<Rightarrow> Inl (IOError ''Catalog table name is corrupted'')
        | Some (table_name, cursor) \<Rightarrow>
            if table_name = [] then Inl (IOError ''Catalog table name is corrupted'')
            else (case for_each (\<lambda>_. ReadColumn data (entry_start + entry_size)) [0..<column_count] ([], cursor) of
                Inl st \<Rightarrow> Inl st
              | Inr (columns, cursor) \<Rightarrow>
                  if cursor \<noteq> entry_start + entry_size
                  then Inl (IOError ''Catalog table entry size is inconsistent'')
                  else Inr (\<lparr>tm_name = table_name, tm_schema = columns,
                             tm_first_page_id = first_page_id\<rparr>, cursor))))"

text \<open>\<^verbatim>\<open>emplace\<close>: a key that is there keeps its value.\<close>

definition emplace :: "'k \<Rightarrow> 'v \<Rightarrow> ('k \<times> 'v) list \<Rightarrow> ('k \<times> 'v) list" where
  "emplace k v m = (if map_of m k = None then m @ [(k, v)] else m)"

text \<open>The tables read before an error stay in the catalog.\<close>

fun LoadTables ::
  "nat \<Rightarrow> byte list \<Rightarrow> nat \<Rightarrow> (string \<times> table_metadata) list \<Rightarrow> nat \<Rightarrow>
   (string \<times> table_metadata) list \<times> nat result" where
  "LoadTables 0 data limit tables cursor = (tables, Inr cursor)"
| "LoadTables (Suc n) data limit tables cursor = (case ReadTableEntry data limit cursor of
     Inl st \<Rightarrow> (tables, Inl st)
   | Inr (table, cursor) \<Rightarrow> LoadTables n data limit (emplace (tm_name table) table tables) cursor)"

definition ReadIndexEntry :: "byte list \<Rightarrow> nat \<Rightarrow> pending_index list \<times> nat \<Rightarrow> (pending_index list \<times> nat) result" where
  "ReadIndexEntry data limit = (\<lambda>(pending_indexes, entry_start).
     (case ReadEntryHeader data limit entry_start of
        None \<Rightarrow> Inl (IOError ''Catalog index entry is corrupted'')
      | Some (entry_size, index_name_length, table_name_length, column_name_length, header_page_id, cursor) \<Rightarrow>
          (case (do {
             (name, cursor) \<leftarrow> CM_ReadString data (entry_start + entry_size) index_name_length cursor;
             (table_name, cursor) \<leftarrow> CM_ReadString data (entry_start + entry_size) table_name_length cursor;
             (column_name, cursor) \<leftarrow> CM_ReadString data (entry_start + entry_size) column_name_length cursor;
             if name = [] \<or> table_name = [] \<or> column_name = [] \<or> cursor \<noteq> entry_start + entry_size then None
             else Some (\<lparr>pi_name = name, pi_table_name = table_name, pi_column_name = column_name,
                         pi_header_page_id = header_page_id\<rparr>, cursor) }) of
             None \<Rightarrow> Inl (IOError ''Catalog index strings are corrupted'')
           | Some (pending, cursor) \<Rightarrow> Inr (pending_indexes @ [pending], cursor))))"

text \<open>The header behind the magic number: the counts and the bytes in use.\<close>

definition ReadHeader :: "byte list \<Rightarrow> nat \<Rightarrow> nat \<Rightarrow> (nat \<times> nat \<times> nat \<times> nat) option" where
  "ReadHeader data magic cursor = do {
     (version, cursor) \<leftarrow> CM_ReadValue 2 data PAGE_SIZE cursor;
     (table_count, cursor) \<leftarrow> CM_ReadValue 2 data PAGE_SIZE cursor;
     (index_count, cursor) \<leftarrow> CM_ReadValue 2 data PAGE_SIZE cursor;
     (used_bytes, cursor) \<leftarrow> CM_ReadValue 2 data PAGE_SIZE cursor;
     (reserved, cursor) \<leftarrow> CM_ReadValue 4 data PAGE_SIZE cursor;
     if magic \<noteq> CATALOG_MAGIC \<or> version \<noteq> CATALOG_VERSION \<or> used_bytes < CATALOG_HEADER_SIZE \<or>
        used_bytes > PAGE_SIZE
     then None else Some (table_count, index_count, used_bytes, cursor) }"

text \<open>The page as a whole: the tables, and \<open>Inr None\<close> for a page that holds no catalog yet.\<close>

definition ParseCatalog ::
  "byte list \<Rightarrow> (string \<times> table_metadata) list \<times> pending_index list option result" where
  "ParseCatalog data = (case CM_ReadValue 4 data PAGE_SIZE 0 of
     None \<Rightarrow> ([], Inl (IOError ''Could not read catalog magic''))
   | Some (magic, cursor) \<Rightarrow>
       if magic = 0 then ([], Inr None)
       else (case ReadHeader data magic cursor of
           None \<Rightarrow> ([], Inl (IOError ''Catalog header is corrupted or incompatible''))
         | Some (table_count, index_count, limit, cursor) \<Rightarrow>
             (case LoadTables table_count data limit [] cursor of
                (tables, Inl st) \<Rightarrow> (tables, Inl st)
              | (tables, Inr cursor) \<Rightarrow>
                  (case for_each (\<lambda>_. ReadIndexEntry data limit) [0..<index_count] ([], cursor) of
                     Inl st \<Rightarrow> (tables, Inl st)
                   | Inr (pending_indexes, cursor) \<Rightarrow>
                       if cursor \<noteq> limit
                       then (tables, Inl (IOError ''Catalog used-byte count is inconsistent''))
                       else (tables, Inr (Some pending_indexes))))))"

end
