(* ===== verification/Catalog.thy ===== *)
theory Catalog
  imports Catalog_Page Hash_Index
begin

text \<open>
  The catalog manager (catalog/catalog_manager.h, catalog/catalog_manager.cpp): tables and indexes by
  name, kept in memory and written to page 0 of the file at every change. The pool is shared, so
  every operation that reaches the file takes it and returns it; \<open>has_bpm\<close> says whether the
  catalog has one at all. The hash tables are association lists with distinct keys. A
  \<^verbatim>\<open>unique_ptr<HashIndex>\<close> is the header page of the object, \<open>None\<close> when it is null. Null output
  pointers have no counterpart.
\<close>

record catalog =
  has_bpm :: bool
  initialization_status :: status
  cat_tables :: "(string \<times> table_metadata) list"
  cat_indexes :: "(string \<times> index_metadata) list"
  cat_index_names :: "(string \<times> string) list"

definition default_Catalog :: catalog where
  "default_Catalog = \<lparr>has_bpm = False, initialization_status = Status_OK, cat_tables = [],
     cat_indexes = [], cat_index_names = []\<rparr>"

text \<open>\<^verbatim>\<open>erase\<close> of a hash table.\<close>

definition erase_key :: "'k \<Rightarrow> ('k \<times> 'v) list \<Rightarrow> ('k \<times> 'v) list" where
  "erase_key k m = filter (\<lambda>e. fst e \<noteq> k) m"

definition MakeIndexKey :: "string \<Rightarrow> string \<Rightarrow> string" where
  "MakeIndexKey table_name column_name = table_name @ ''.'' @ column_name"

section \<open>Loading\<close>

definition column_found :: "string \<Rightarrow> schema \<Rightarrow> bool" where
  "column_found name columns = list_ex (\<lambda>c. col_name c = name) columns"

text \<open>The indexes are opened in the order of the page; those opened before an error stay in the
  catalog.\<close>

fun OpenIndexes :: "pending_index list \<Rightarrow> catalog \<Rightarrow> pool \<Rightarrow> pool \<times> catalog" where
  "OpenIndexes [] c bp = (bp, c\<lparr>initialization_status := Status_OK\<rparr>)"
| "OpenIndexes (pending # rest) c bp = (case map_of (cat_tables c) (pi_table_name pending) of
     None \<Rightarrow> (bp, c\<lparr>initialization_status := IOError ''Catalog index references a missing table''\<rparr>)
   | Some table \<Rightarrow>
       if \<not> column_found (pi_column_name pending) (tm_schema table)
       then (bp, c\<lparr>initialization_status := IOError ''Catalog index references a missing column''\<rparr>)
       else (case HI_Open (pi_header_page_id pending) bp of
           (bp, Inl st) \<Rightarrow> (bp, c\<lparr>initialization_status := st\<rparr>)
         | (bp, Inr index) \<Rightarrow>
             let key = MakeIndexKey (pi_table_name pending) (pi_column_name pending)
             in if map_of (cat_indexes c) key \<noteq> None \<or> map_of (cat_index_names c) (pi_name pending) \<noteq> None
                then (bp, c\<lparr>initialization_status := IOError ''Catalog contains duplicate index metadata''\<rparr>)
                else OpenIndexes rest
                  (c\<lparr>cat_index_names := emplace (pi_name pending) key (cat_index_names c),
                     cat_indexes := emplace key
                       \<lparr>im_name = pi_name pending, im_table_name = pi_table_name pending,
                        im_column_name = pi_column_name pending,
                        im_header_page_id = pi_header_page_id pending, im_index = index\<rparr> (cat_indexes c)\<rparr>) bp))"

text \<open>\<^verbatim>\<open>Load\<close> returns the status it leaves in \<open>initialization_status\<close>.\<close>

definition CM_Load :: "catalog \<Rightarrow> pool \<Rightarrow> pool \<times> catalog" where
  "CM_Load c bp =
     (let c = c\<lparr>cat_tables := [], cat_indexes := [], cat_index_names := []\<rparr>
      in if \<not> has_bpm c then (bp, c\<lparr>initialization_status := Status_OK\<rparr>)
         else (case FetchPage HEADER_PAGE_ID bp of
             (bp, None) \<Rightarrow> (bp, c\<lparr>initialization_status := IOError ''Could not fetch catalog header page''\<rparr>)
           | (bp, Some f) \<Rightarrow>
               (case ParseCatalog (page_data (frame_of bp f)) of (tables, res) \<Rightarrow>
                  let c = c\<lparr>cat_tables := tables\<rparr>
                  in case UnpinPage HEADER_PAGE_ID False bp of (bp, unpinned) \<Rightarrow>
                       (case res of
                          Inl st \<Rightarrow> (bp, c\<lparr>initialization_status := st\<rparr>)
                        | Inr None \<Rightarrow> (bp, c\<lparr>initialization_status := Status_OK\<rparr>)
                        | Inr (Some pending_indexes) \<Rightarrow>
                            if \<not> unpinned
                            then (bp, c\<lparr>initialization_status := IOError ''Could not unpin catalog header page''\<rparr>)
                            else OpenIndexes pending_indexes c bp))))"

text \<open>The constructor; the argument says whether the pointer is not null.\<close>

definition new_CatalogManager :: "bool \<Rightarrow> pool \<Rightarrow> pool \<times> catalog" where
  "new_CatalogManager bpm bp =
     (if \<not> bpm then (bp, default_Catalog\<lparr>initialization_status :=
          InvalidArgument ''Catalog BufferPoolManager cannot be null''\<rparr>)
      else CM_Load (default_Catalog\<lparr>has_bpm := True\<rparr>) bp)"

section \<open>Persisting\<close>

definition CM_Persist :: "catalog \<Rightarrow> pool \<Rightarrow> pool \<times> status" where
  "CM_Persist c bp =
     (if \<not> has_bpm c then (bp, Status_OK)
      else (case SerializeCatalog (cat_tables c) (cat_indexes c) of
          Inl st \<Rightarrow> (bp, st)
        | Inr serialized \<Rightarrow> (case FetchPage HEADER_PAGE_ID bp of
              (bp, None) \<Rightarrow> (bp, IOError ''Could not fetch catalog header page'')
            | (bp, Some f) \<Rightarrow>
                let pg = frame_of bp f;
                    pg = pg\<lparr>page_data := mem_write (page_data pg) 0 serialized\<rparr>
                in (case UnpinPage HEADER_PAGE_ID True (set_frame f pg bp) of
                      (bp, False) \<Rightarrow> (bp, IOError ''Could not unpin catalog header page'')
                    | (bp, True) \<Rightarrow> (case FlushPage HEADER_PAGE_ID bp of
                          (bp, False) \<Rightarrow> (bp, IOError ''Could not persist catalog header page'')
                        | (bp, True) \<Rightarrow> (bp, Status_OK))))))"

definition CM_Flush :: "catalog \<Rightarrow> pool \<Rightarrow> pool \<times> catalog \<times> status" where
  "CM_Flush c bp = (case CM_Persist c bp of (bp, st) \<Rightarrow>
     (bp, if status_ok st then c\<lparr>initialization_status := st\<rparr> else c, st))"

section \<open>Tables\<close>

definition CM_CreateTable :: "string \<Rightarrow> schema \<Rightarrow> page_id \<Rightarrow> catalog \<Rightarrow> pool \<Rightarrow> pool \<times> catalog \<times> status" where
  "CM_CreateTable table_name schema first_page_id c bp =
     (if \<not> status_ok (initialization_status c) then (bp, c, initialization_status c)
      else if table_name = [] then (bp, c, InvalidArgument ''Table name cannot be empty'')
      else if first_page_id \<le> HEADER_PAGE_ID
      then (bp, c, InvalidArgument ''Table requires a valid first data page'')
      else if GetColumnCount schema = 0 then (bp, c, InvalidArgument ''Table schema cannot be empty'')
      else if map_of (cat_tables c) table_name \<noteq> None
      then (bp, c, InvalidArgument ''Table already exists in catalog'')
      else
        let c = c\<lparr>cat_tables := emplace table_name
              \<lparr>tm_name = table_name, tm_schema = schema, tm_first_page_id = first_page_id\<rparr> (cat_tables c)\<rparr>
        in case CM_Persist c bp of (bp, st) \<Rightarrow>
             if \<not> status_ok st then (bp, c\<lparr>cat_tables := erase_key table_name (cat_tables c)\<rparr>, st)
             else (bp, c, Status_OK))"

definition CM_GetTableSchema :: "string \<Rightarrow> catalog \<Rightarrow> schema result" where
  "CM_GetTableSchema table_name c =
     (if \<not> status_ok (initialization_status c) then Inl (initialization_status c)
      else (case map_of (cat_tables c) table_name of
          None \<Rightarrow> Inl (NotFound ''Table was not found in catalog'')
        | Some table \<Rightarrow> Inr (tm_schema table)))"

definition CM_GetTableFirstPageId :: "string \<Rightarrow> catalog \<Rightarrow> page_id result" where
  "CM_GetTableFirstPageId table_name c =
     (if \<not> status_ok (initialization_status c) then Inl (initialization_status c)
      else (case map_of (cat_tables c) table_name of
          None \<Rightarrow> Inl (NotFound ''Table was not found in catalog'')
        | Some table \<Rightarrow> Inr (tm_first_page_id table)))"

section \<open>Indexes\<close>

text \<open>\<open>None\<close> only if \<^verbatim>\<open>Destroy\<close> in the rollback diverged, which it never does.\<close>

definition CM_CreateIndex ::
  "string \<Rightarrow> string \<Rightarrow> string \<Rightarrow> page_id option \<Rightarrow> catalog \<Rightarrow> pool \<Rightarrow> (pool \<times> catalog \<times> status) option" where
  "CM_CreateIndex index_name table_name column_name index c bp =
     (if \<not> status_ok (initialization_status c) then Some (bp, c, initialization_status c)
      else if index_name = [] \<or> table_name = [] \<or> column_name = [] \<or> index = None
      then Some (bp, c, InvalidArgument ''Index metadata and object must be valid'')
      else (case map_of (cat_tables c) table_name of
          None \<Rightarrow> Some (bp, c, NotFound ''Index table was not found in catalog'')
        | Some table \<Rightarrow>
            if \<not> column_found column_name (tm_schema table)
            then Some (bp, c, NotFound ''Index column was not found in table schema'')
            else
              let key = MakeIndexKey table_name column_name
              in if map_of (cat_indexes c) key \<noteq> None
                 then Some (bp, c, InvalidArgument ''An index already exists for this table column'')
                 else if map_of (cat_index_names c) index_name \<noteq> None
                 then Some (bp, c, InvalidArgument ''Index name already exists'')
                 else
                   let header_page_id = the index;
                       c = c\<lparr>cat_index_names := emplace index_name key (cat_index_names c),
                             cat_indexes := emplace key
                               \<lparr>im_name = index_name, im_table_name = table_name, im_column_name = column_name,
                                im_header_page_id = header_page_id, im_index = the index\<rparr> (cat_indexes c)\<rparr>
                   in case CM_Persist c bp of (bp, st) \<Rightarrow>
                        if \<not> status_ok st
                        then (case HI_Destroy (im_index (the (map_of (cat_indexes c) key))) bp of
                            None \<Rightarrow> None
                          | Some (bp, _, cleanup_status) \<Rightarrow>
                              Some (bp, c\<lparr>cat_indexes := erase_key key (cat_indexes c),
                                          cat_index_names := erase_key index_name (cat_index_names c)\<rparr>,
                                if \<not> status_ok cleanup_status
                                then IOError (''Catalog persistence failed: '' @ status_message st @
                                       ''; index cleanup failed: '' @ status_message cleanup_status)
                                else st))
                        else Some (bp, c, Status_OK)))"

definition CM_HasIndex :: "string \<Rightarrow> string \<Rightarrow> catalog \<Rightarrow> bool" where
  "CM_HasIndex table_name column_name c \<longleftrightarrow> status_ok (initialization_status c) \<and>
     map_of (cat_indexes c) (MakeIndexKey table_name column_name) \<noteq> None"

definition CM_HasIndexName :: "string \<Rightarrow> catalog \<Rightarrow> bool" where
  "CM_HasIndexName index_name c \<longleftrightarrow> status_ok (initialization_status c) \<and>
     map_of (cat_index_names c) index_name \<noteq> None"

definition CM_GetIndex :: "string \<Rightarrow> string \<Rightarrow> catalog \<Rightarrow> page_id option" where
  "CM_GetIndex table_name column_name c =
     (if \<not> status_ok (initialization_status c) then None
      else map_option im_index (map_of (cat_indexes c) (MakeIndexKey table_name column_name)))"

definition CM_GetIndexHeaderPageId :: "string \<Rightarrow> string \<Rightarrow> catalog \<Rightarrow> page_id result" where
  "CM_GetIndexHeaderPageId table_name column_name c =
     (if \<not> status_ok (initialization_status c) then Inl (initialization_status c)
      else (case map_of (cat_indexes c) (MakeIndexKey table_name column_name) of
          None \<Rightarrow> Inl (NotFound ''Index was not found in catalog'')
        | Some metadata \<Rightarrow> Inr (im_header_page_id metadata)))"

datatype catalog_index_info =
  CatalogIndexInfo (ci_index_name: string) (ci_table_name: string) (ci_column_name: string)
    (ci_header_page_id: page_id)

text \<open>No two indexes share a name, so the order among equals, which \<^verbatim>\<open>std::sort\<close> leaves open, does
  not matter.\<close>

definition CM_GetTableIndexes :: "string \<Rightarrow> catalog \<Rightarrow> catalog_index_info list result" where
  "CM_GetTableIndexes table_name c =
     (if \<not> status_ok (initialization_status c) then Inl (initialization_status c)
      else if map_of (cat_tables c) table_name = None
      then Inl (NotFound ''Table was not found in catalog'')
      else Inr (sort_key ci_index_name
        (map (\<lambda>m. CatalogIndexInfo (im_name m) (im_table_name m) (im_column_name m) (im_header_page_id m))
          (filter (\<lambda>m. im_table_name m = table_name) (map snd (cat_indexes c))))))"

end
