(* ===== verification/Catalog_Page_Correct.thy ===== *)
theory Catalog_Page_Correct
  imports Catalog_Page
begin

text \<open>
  The image of a catalog: what \<^verbatim>\<open>Persist\<close> writes is exactly \<open>catalog_image\<close>, it succeeds exactly if
  the image fits the page, and parsing the image gives the tables and the indexes back in the order of
  their keys. What parsing accepts is well formed whatever the bytes.
\<close>

section \<open>Writers\<close>

lemma CM_WriteString_eq: "CM_WriteString s = CM_WriteValue s"
  by (auto simp: CM_WriteString_def CM_WriteValue_def fun_eq_iff)

lemma CM_WriteValue_append:
  assumes "cursor \<le> length data"
  shows "CM_WriteAll [CM_WriteValue a, CM_WriteValue b] (data, cursor) = CM_WriteValue (a @ b) (data, cursor)"
proof -
  have "mem_write (mem_write data cursor a) (cursor + length a) b = mem_write data cursor (a @ b)"
    if "cursor + length a \<le> length data" "cursor + length a + length b \<le> length data"
    using that by (simp add: mem_write_def ac_simps)
  then show ?thesis using assms by (auto simp: CM_WriteValue_def length_mem_write)
qed

lemma CM_WriteValue_Some:
  assumes "CM_WriteValue bs (data, cursor) = Some (data', cursor')"
  shows "cursor' = cursor + length bs \<and> cursor' \<le> length data \<and> length data' = length data \<and>
    data' = mem_write data cursor bs"
  using assms by (auto simp: CM_WriteValue_def length_mem_write split: if_splits)

lemma CM_WriteAll_concat:
  "cursor \<le> length data \<Longrightarrow>
    CM_WriteAll (map CM_WriteValue bss) (data, cursor) = CM_WriteValue (concat bss) (data, cursor)"
proof (induction bss arbitrary: data cursor)
  case Nil
  then show ?case by (simp add: CM_WriteValue_def)
next
  case (Cons bs bss)
  show ?case
  proof (cases "CM_WriteValue bs (data, cursor)")
    case None
    then show ?thesis using Cons.prems by (auto simp: CM_WriteValue_def split: if_splits)
  next
    case (Some s)
    obtain d c where s: "s = (d, c)" by (cases s)
    note W = CM_WriteValue_Some[OF Some[unfolded s]]
    have "c \<le> length d" using W by metis
    from Cons.IH[OF this]
    have "CM_WriteAll (map CM_WriteValue bss) (d, c) = CM_WriteValue (concat bss) (d, c)" .
    moreover have "CM_WriteValue (bs @ concat bss) (data, cursor) = CM_WriteValue (concat bss) (d, c)"
      using CM_WriteValue_append[OF Cons.prems, of bs "concat bss"] Some s
      by (cases "CM_WriteValue (concat bss) (d, c)") simp_all
    ultimately show ?thesis using Some s by simp
  qed
qed

section \<open>A buffer filled from the front\<close>

definition filled :: "byte list \<Rightarrow> byte list \<times> nat" where
  "filled pre = (pre @ replicate (PAGE_SIZE - length pre) zero_byte, length pre)"

lemma mem_write_filled:
  "length (pre @ bs) \<le> PAGE_SIZE \<Longrightarrow>
    (mem_write (fst (filled pre)) (length pre) bs, length (pre @ bs)) = filled (pre @ bs)"
  by (simp add: mem_write_def filled_def)

lemma WriteAll_filled:
  assumes "length pre \<le> PAGE_SIZE"
  shows "CM_WriteAll (map CM_WriteValue bss) (filled pre) =
    (if length (pre @ concat bss) \<le> PAGE_SIZE then Some (filled (pre @ concat bss)) else None)"
  using CM_WriteAll_concat[of "length pre" "fst (filled pre)" bss] mem_write_filled[of pre "concat bss"] assms
  by (auto simp: CM_WriteValue_def filled_def)

section \<open>The images\<close>

definition column_image :: "column \<Rightarrow> byte list" where
  "column_image c = le_bytes 2 (length (col_name c)) @ le_bytes 1 (TypeId_u8 (col_type c)) @ le_bytes 1 0 @
     le_bytes 4 (col_length c) @ col_name c"

definition entry_image :: "nat \<Rightarrow> nat \<Rightarrow> nat \<Rightarrow> page_id \<Rightarrow> byte list \<Rightarrow> byte list" where
  "entry_image a b c p tail = le_bytes 2 (12 + length tail) @ le_bytes 2 a @ le_bytes 2 b @ le_bytes 2 c @
     le_bytes 4 (u32 p) @ tail"

definition table_image :: "table_metadata \<Rightarrow> byte list" where
  "table_image t = entry_image (length (tm_name t)) (length (tm_schema t)) 0 (tm_first_page_id t)
     (tm_name t @ concat (map column_image (tm_schema t)))"

definition index_image :: "index_metadata \<Rightarrow> byte list" where
  "index_image m = entry_image (length (im_name m)) (length (im_table_name m)) (length (im_column_name m))
     (im_header_page_id m) (im_name m @ im_table_name m @ im_column_name m)"

definition header_image :: "nat \<Rightarrow> nat \<Rightarrow> nat \<Rightarrow> byte list" where
  "header_image tables indexes used = le_bytes 4 CATALOG_MAGIC @ le_bytes 2 CATALOG_VERSION @
     le_bytes 2 tables @ le_bytes 2 indexes @ le_bytes 2 used @ le_bytes 4 0"

definition catalog_body :: "table_metadata list \<Rightarrow> index_metadata list \<Rightarrow> byte list" where
  "catalog_body ts ixs = concat (map table_image ts) @ concat (map index_image ixs)"

definition catalog_image :: "table_metadata list \<Rightarrow> index_metadata list \<Rightarrow> byte list" where
  "catalog_image ts ixs = header_image (length ts) (length ixs) (16 + length (catalog_body ts ixs)) @
     catalog_body ts ixs @ replicate (PAGE_SIZE - (16 + length (catalog_body ts ixs))) zero_byte"

lemma length_images [simp]:
  "length (column_image c) = 8 + length (col_name c)"
  "length (entry_image a b c' p tail) = 12 + length tail"
  "length (header_image n m u) = 16"
  by (simp_all add: column_image_def entry_image_def header_image_def)

lemma length_catalog_image: "16 + length (catalog_body ts ixs) \<le> PAGE_SIZE \<Longrightarrow> length (catalog_image ts ixs) = PAGE_SIZE"
  by (simp add: catalog_image_def)

text \<open>Every entry takes room, so a catalog that fits the page has few entries.\<close>

lemma concat_room: "list_all (\<lambda>x. k \<le> length (f x)) xs \<Longrightarrow> k * length xs \<le> length (concat (map f xs))"
  by (induction xs) auto

lemma catalog_body_room: "12 * length ts + 12 * length ixs \<le> length (catalog_body ts ixs)"
proof -
  have "12 * length ts \<le> length (concat (map table_image ts))"
    by (rule concat_room) (simp add: list_all_iff table_image_def)
  moreover have "12 * length ixs \<le> length (concat (map index_image ixs))"
    by (rule concat_room) (simp add: list_all_iff index_image_def)
  ultimately show ?thesis by (simp add: catalog_body_def)
qed

section \<open>What is written\<close>

lemma PersistColumn_filled:
  assumes "length pre \<le> PAGE_SIZE"
  shows "PersistColumn c (filled pre) = (if length (pre @ column_image c) \<le> PAGE_SIZE
    then Inr (filled (pre @ column_image c)) else Inl (OutOfMemory ''Catalog page is full''))"
  using WriteAll_filled[OF assms, of "[le_bytes 2 (length (col_name c)), le_bytes 1 (TypeId_u8 (col_type c)),
      le_bytes 1 0, le_bytes 4 (col_length c), col_name c]"]
  by (auto simp: PersistColumn_def CM_WriteString_eq column_image_def FitsUint16_def layout_simps simp del: le_bytes.simps le_bytes_0)

lemma PersistColumns_filled:
  assumes "length pre \<le> PAGE_SIZE"
  shows "for_each PersistColumn cs (filled pre) = (if length (pre @ concat (map column_image cs)) \<le> PAGE_SIZE
    then Inr (filled (pre @ concat (map column_image cs))) else Inl (OutOfMemory ''Catalog page is full''))"
  using assms
proof (induction cs arbitrary: pre)
  case (Cons c cs)
  show ?case
  proof (cases "length (pre @ column_image c) \<le> PAGE_SIZE")
    case True
    then show ?thesis using Cons.IH[of "pre @ column_image c"] PersistColumn_filled[OF Cons.prems, of c]
      by (simp add: add.assoc)
  next
    case False
    then show ?thesis using PersistColumn_filled[OF Cons.prems, of c] by simp
  qed
qed simp

lemma CloseEntry_prefix:
  assumes "2 + length xs \<le> 65535"
  shows "CloseEntry msg (length pre) (filled (pre @ le_bytes 2 0 @ xs)) =
    Inr (filled (pre @ le_bytes 2 (2 + length xs) @ xs))"
proof -
  have "mem_write (pre @ le_bytes 2 0 @ ys) (length pre) (le_bytes 2 n) = pre @ le_bytes 2 n @ ys" for ys n
    by (simp add: mem_write_def)
  from this[of "xs @ replicate k zero_byte" for k] assms
  show ?thesis by (simp add: CloseEntry_def filled_def FitsUint16_def del: le_bytes_0)
qed

lemma CloseEntry_filled:
  assumes "length (pre @ entry_image a b c p tail) \<le> PAGE_SIZE"
  shows "CloseEntry msg (length pre) (filled (pre @ le_bytes 2 0 @ le_bytes 2 a @ le_bytes 2 b @ le_bytes 2 c @
      le_bytes 4 (u32 p) @ tail)) = Inr (filled (pre @ entry_image a b c p tail))"
  using CloseEntry_prefix[of "le_bytes 2 a @ le_bytes 2 b @ le_bytes 2 c @ le_bytes 4 (u32 p) @ tail" msg pre] assms
  by (simp add: entry_image_def layout_simps del: le_bytes_0)

lemma GetColumnCount_small: "length cs < 4294967296 \<Longrightarrow> GetColumnCount cs = length cs"
  by (simp add: GetColumnCount_def u32_def)

lemma columns_room: "8 * length cs \<le> length (concat (map column_image cs))"
  by (rule concat_room) (simp add: list_all_iff)

lemma PersistTable_filled:
  assumes "length pre \<le> PAGE_SIZE"
  shows "if length (pre @ table_image t) \<le> PAGE_SIZE
    then PersistTable t (filled pre) = Inr (filled (pre @ table_image t))
    else (\<exists>m. PersistTable t (filled pre) = Inl (OutOfMemory m))"
proof -
  let ?n = "GetColumnCount (tm_schema t)" and ?cols = "concat (map column_image (tm_schema t))"
  let ?front = "le_bytes 2 0 @ le_bytes 2 (length (tm_name t)) @ le_bytes 2 ?n @ le_bytes 2 0 @
    le_bytes 4 (u32 (tm_first_page_id t)) @ tm_name t"
  have W: "CM_WriteAll [CM_WriteU16 0, CM_WriteU16 (length (tm_name t)), CM_WriteU16 ?n, CM_WriteU16 0,
      CM_WriteI32 (tm_first_page_id t), CM_WriteString (tm_name t)] (filled pre) =
    (if length (pre @ ?front) \<le> PAGE_SIZE then Some (filled (pre @ ?front)) else None)"
    using WriteAll_filled[OF assms, of "[le_bytes 2 0, le_bytes 2 (length (tm_name t)), le_bytes 2 ?n, le_bytes 2 0,
      le_bytes 4 (u32 (tm_first_page_id t)), tm_name t]"] by (simp add: CM_WriteString_eq del: le_bytes_0)
  have F: "snd (filled pre) = length pre" by (simp add: filled_def)
  have C: "for_each PersistColumn (tm_schema t) (filled (pre @ ?front)) =
      (if length ((pre @ ?front) @ ?cols) \<le> PAGE_SIZE then Inr (filled ((pre @ ?front) @ ?cols))
       else Inl (OutOfMemory ''Catalog page is full''))" if "length (pre @ ?front) \<le> PAGE_SIZE"
    by (rule PersistColumns_filled[OF that])
  show ?thesis
  proof (cases "length (pre @ table_image t) \<le> PAGE_SIZE")
    case True
    then have fits: "length ((pre @ ?front) @ ?cols) \<le> PAGE_SIZE" "length (pre @ ?front) \<le> PAGE_SIZE"
      by (simp_all add: table_image_def)
    then have small: "length (tm_schema t) \<le> 4096" "length (tm_name t) \<le> 4096"
      using columns_room[of "tm_schema t"] by (simp_all add: layout_simps)
    then have n: "?n = length (tm_schema t)" by (intro GetColumnCount_small) simp
    have "CloseEntry ''Catalog table entry is too large'' (length pre) (filled ((pre @ ?front) @ ?cols)) =
        Inr (filled (pre @ table_image t))"
      using CloseEntry_filled[of pre "length (tm_name t)" "length (tm_schema t)" 0 "tm_first_page_id t" "tm_name t @ ?cols"]
        True n by (simp add: table_image_def del: le_bytes_0)
    then show ?thesis using True W C fits F small n by (simp add: PersistTable_def FitsUint16_def del: le_bytes_0)
  next
    case False
    then have "\<not> length ((pre @ ?front) @ ?cols) \<le> PAGE_SIZE" by (simp add: table_image_def)
    then show ?thesis using False W C by (auto simp: PersistTable_def simp del: le_bytes_0)
  qed
qed

lemma PersistIndex_filled:
  assumes "length pre \<le> PAGE_SIZE"
  shows "if length (pre @ index_image m) \<le> PAGE_SIZE
    then PersistIndex m (filled pre) = Inr (filled (pre @ index_image m))
    else (\<exists>e. PersistIndex m (filled pre) = Inl (OutOfMemory e))"
proof -
  let ?tail = "im_name m @ im_table_name m @ im_column_name m"
  let ?all = "le_bytes 2 0 @ le_bytes 2 (length (im_name m)) @ le_bytes 2 (length (im_table_name m)) @
    le_bytes 2 (length (im_column_name m)) @ le_bytes 4 (u32 (im_header_page_id m)) @ ?tail"
  have W: "CM_WriteAll [CM_WriteU16 0, CM_WriteU16 (length (im_name m)), CM_WriteU16 (length (im_table_name m)),
      CM_WriteU16 (length (im_column_name m)), CM_WriteI32 (im_header_page_id m), CM_WriteString (im_name m),
      CM_WriteString (im_table_name m), CM_WriteString (im_column_name m)] (filled pre) =
    (if length (pre @ ?all) \<le> PAGE_SIZE then Some (filled (pre @ ?all)) else None)"
    using WriteAll_filled[OF assms, of "[le_bytes 2 0, le_bytes 2 (length (im_name m)), le_bytes 2 (length (im_table_name m)),
      le_bytes 2 (length (im_column_name m)), le_bytes 4 (u32 (im_header_page_id m)), im_name m, im_table_name m,
      im_column_name m]"] by (simp add: CM_WriteString_eq del: le_bytes_0)
  have F: "snd (filled pre) = length pre" by (simp add: filled_def)
  show ?thesis
  proof (cases "length (pre @ index_image m) \<le> PAGE_SIZE")
    case True
    then have fits: "length (pre @ ?all) \<le> PAGE_SIZE" by (simp add: index_image_def)
    then have small: "length (im_name m) \<le> 4096" "length (im_table_name m) \<le> 4096" "length (im_column_name m) \<le> 4096"
      by (simp_all add: layout_simps)
    have "CloseEntry ''Catalog index entry is too large'' (length pre) (filled (pre @ ?all)) =
        Inr (filled (pre @ index_image m))"
      using CloseEntry_filled[of pre "length (im_name m)" "length (im_table_name m)" "length (im_column_name m)"
        "im_header_page_id m" ?tail] True by (simp add: index_image_def del: le_bytes_0)
    then show ?thesis using True W fits F small by (simp add: PersistIndex_def FitsUint16_def del: le_bytes_0)
  next
    case False
    then have "\<not> length (pre @ ?all) \<le> PAGE_SIZE" by (simp add: index_image_def)
    then show ?thesis using False W by (auto simp: PersistIndex_def simp del: le_bytes_0)
  qed
qed

text \<open>A loop of entries, of either kind.\<close>

lemma entries_filled:
  assumes "\<And>x pre. length pre \<le> PAGE_SIZE \<Longrightarrow> if length (pre @ img x) \<le> PAGE_SIZE
      then step x (filled pre) = Inr (filled (pre @ img x)) else (\<exists>e. step x (filled pre) = Inl (OutOfMemory e))"
    and "length pre \<le> PAGE_SIZE"
  shows "if length (pre @ concat (map img xs)) \<le> PAGE_SIZE
    then for_each step xs (filled pre) = Inr (filled (pre @ concat (map img xs)))
    else (\<exists>e. for_each step xs (filled pre) = Inl (OutOfMemory e))"
  using assms(2)
proof (induction xs arbitrary: pre)
  case (Cons x xs)
  show ?case
  proof (cases "length (pre @ img x) \<le> PAGE_SIZE")
    case True
    then show ?thesis using Cons.IH[of "pre @ img x"] assms(1)[OF Cons.prems, of x] by (auto simp: add.assoc)
  next
    case False
    then show ?thesis using assms(1)[OF Cons.prems, of x] by auto
  qed
qed simp

lemma WriteHeader_filled:
  assumes "16 + length body \<le> PAGE_SIZE"
  shows "WriteHeader n m (filled (replicate 16 zero_byte @ body)) =
    Inr (header_image n m (16 + length body) @ body @ replicate (PAGE_SIZE - (16 + length body)) zero_byte)"
proof -
  let ?data = "replicate 16 zero_byte @ body @ replicate (PAGE_SIZE - (16 + length body)) zero_byte"
  have "16 + length body \<le> 65535" "length ?data = PAGE_SIZE" using assms by (simp_all add: layout_simps)
  then show ?thesis
    using CM_WriteAll_concat[of 0 ?data "[le_bytes 4 CATALOG_MAGIC, le_bytes 2 CATALOG_VERSION, le_bytes 2 n,
      le_bytes 2 m, le_bytes 2 (16 + length body), le_bytes 4 0]"]
    by (simp add: WriteHeader_def filled_def FitsUint16_def CM_WriteValue_def header_image_def mem_write_def
        layout_simps del: le_bytes_0)
qed

text \<open>The catalog is written exactly if its image fits the page, and the page is the image.\<close>

lemma length_in_key_order [simp]: "length (in_key_order es) = length es"
  by (simp add: in_key_order_def)

lemma SerializeCatalog_eq:
  "if 16 + length (catalog_body (in_key_order tables) (in_key_order indexes)) \<le> PAGE_SIZE
    then SerializeCatalog tables indexes = Inr (catalog_image (in_key_order tables) (in_key_order indexes))
    else (\<exists>e. SerializeCatalog tables indexes = Inl (OutOfMemory e))"
proof -
  let ?ts = "in_key_order tables" and ?ixs = "in_key_order indexes"
  let ?pre = "replicate 16 zero_byte"
  have start: "(replicate PAGE_SIZE zero_byte, CATALOG_HEADER_SIZE) = filled ?pre"
    by (simp add: filled_def layout_simps flip: replicate_add)
  have p: "length ?pre \<le> PAGE_SIZE" by (simp add: layout_simps)
  note T = entries_filled[of table_image PersistTable, OF PersistTable_filled p, of ?ts]
  have I: "if length ((?pre @ concat (map table_image ?ts)) @ concat (map index_image ?ixs)) \<le> PAGE_SIZE
    then for_each PersistIndex ?ixs (filled (?pre @ concat (map table_image ?ts))) =
      Inr (filled ((?pre @ concat (map table_image ?ts)) @ concat (map index_image ?ixs)))
    else (\<exists>e. for_each PersistIndex ?ixs (filled (?pre @ concat (map table_image ?ts))) = Inl (OutOfMemory e))"
    if "length (?pre @ concat (map table_image ?ts)) \<le> PAGE_SIZE"
    by (rule entries_filled[of index_image PersistIndex, OF PersistIndex_filled that])
  have B: "(?pre @ concat (map table_image ?ts)) @ concat (map index_image ?ixs) = ?pre @ catalog_body ?ts ?ixs"
    by (simp add: catalog_body_def)
  show ?thesis
  proof (cases "16 + length (catalog_body ?ts ?ixs) \<le> PAGE_SIZE")
    case True
    then have "length (?pre @ concat (map table_image ?ts)) \<le> PAGE_SIZE" by (simp add: catalog_body_def)
    moreover have "length tables \<le> 65535" "length indexes \<le> 65535"
      using True catalog_body_room[of ?ts ?ixs] by (simp_all add: layout_simps)
    ultimately show ?thesis using T I[unfolded B] True WriteHeader_filled[OF True]
      by (simp add: SerializeCatalog_def start catalog_image_def)
  next
    case False
    then show ?thesis using T I[unfolded B] by (auto simp: SerializeCatalog_def start split: if_splits)
  qed
qed

section \<open>Readers\<close>

text \<open>The buffer has the bytes \<open>bs\<close> at a position.\<close>

definition holds :: "byte list \<Rightarrow> nat \<Rightarrow> byte list \<Rightarrow> bool" where
  "holds data c bs \<longleftrightarrow> mem_read data c (length bs) = bs"

lemma holds_iff: "holds data c bs \<longleftrightarrow> (\<exists>suf. drop c data = bs @ suf)"
proof
  assume "holds data c bs"
  then have "drop c data = bs @ drop (length bs) (drop c data)"
    using append_take_drop_id[of "length bs" "drop c data"] by (simp add: holds_def mem_read_def)
  then show "\<exists>suf. drop c data = bs @ suf" by blast
qed (auto simp: holds_def mem_read_def)

lemma holds_append: "holds data c (a @ b) \<longleftrightarrow> holds data c a \<and> holds data (c + length a) b"
proof -
  have "drop (c + length a) data = suf" if "drop c data = a @ suf" for suf
    using that drop_drop[of "length a" c data] by (simp add: add.commute)
  then show ?thesis unfolding holds_iff by force
qed

lemma holds_Nil [simp]: "holds data c []"
  by (simp add: holds_def)

lemma holds_front: "holds (a @ b) (length a) c \<longleftrightarrow> holds b 0 c"
  by (simp add: holds_def mem_read_def)

lemma holds_self: "holds (a @ b) 0 a"
  by (simp add: holds_def mem_read_def)

lemma CM_ReadValue_holds:
  assumes "holds data c (le_bytes w v)" "v < 256 ^ w" "c + w \<le> limit"
  shows "CM_ReadValue w data limit c = Some (v, c + w)"
  using assms by (auto simp: CM_ReadValue_def holds_def le_nat_le_bytes)

lemma CM_ReadString_holds:
  assumes "holds data c s" "c + length s \<le> limit"
  shows "CM_ReadString data limit (length s) c = Some (s, c + length s)"
  using assms by (auto simp: CM_ReadString_def holds_def)

lemma CM_ReadValue_Some:
  "CM_ReadValue w data limit c = Some (v, c') \<Longrightarrow> c' = c + w \<and> c' \<le> limit \<and> v < 256 ^ w"
  using le_nat_bound[of "mem_read data c w"] power_increasing[of "length (mem_read data c w)" w "256::nat"]
  by (auto simp: CM_ReadValue_def length_mem_read split: if_splits intro: order_less_le_trans)

section \<open>What is read back\<close>

definition column_storable :: "column \<Rightarrow> bool" where
  "column_storable c \<longleftrightarrow> col_name c \<noteq> [] \<and> col_length c < 4294967296"

definition table_storable :: "table_metadata \<Rightarrow> bool" where
  "table_storable t \<longleftrightarrow> tm_name t \<noteq> [] \<and> list_all column_storable (tm_schema t) \<and>
     1 \<le> tm_first_page_id t \<and> is_i32 (tm_first_page_id t)"

definition index_storable :: "index_metadata \<Rightarrow> bool" where
  "index_storable m \<longleftrightarrow> im_name m \<noteq> [] \<and> im_table_name m \<noteq> [] \<and> im_column_name m \<noteq> [] \<and>
     1 \<le> im_header_page_id m \<and> is_i32 (im_header_page_id m)"

definition pending_of :: "index_metadata \<Rightarrow> pending_index" where
  "pending_of m = \<lparr>pi_name = im_name m, pi_table_name = im_table_name m, pi_column_name = im_column_name m,
     pi_header_page_id = im_header_page_id m\<rparr>"

lemma TypeId_u8_inverse [simp]: "TypeId_of_u8 (TypeId_u8 t) = t" "TypeId_u8 t \<le> TypeId_u8 BOOLEAN" "TypeId_u8 t < 256"
  by (cases t; simp add: TypeId_u8_def TypeId_of_u8_def)+

lemma ReadEntryHeader_holds:
  assumes "holds data c (entry_image a b d p tail)" "c + 12 + length tail \<le> limit" "limit \<le> PAGE_SIZE"
    "a < 65536" "b < 65536" "d < 65536" "1 \<le> p" "is_i32 p"
  shows "ReadEntryHeader data limit c = Some (12 + length tail, a, b, d, p, c + 12) \<and> holds data (c + 12) tail"
proof -
  have H: "holds data c (le_bytes 2 (12 + length tail))" "holds data (c + 2) (le_bytes 2 a)"
    "holds data (c + 2 + 2) (le_bytes 2 b)" "holds data (c + 2 + 2 + 2) (le_bytes 2 d)"
    "holds data (c + 2 + 2 + 2 + 2) (le_bytes 4 (u32 p))" "holds data (c + 2 + 2 + 2 + 2 + 4) tail"
    using assms(1) unfolding entry_image_def holds_append length_le_bytes by blast+
  note R = CM_ReadValue_holds[OF H(1), of limit] CM_ReadValue_holds[OF H(2), of limit]
    CM_ReadValue_holds[OF H(3), of limit] CM_ReadValue_holds[OF H(4), of limit] CM_ReadValue_holds[OF H(5), of limit]
  have "ReadEntryHeader data limit c = Some (12 + length tail, a, b, d, i32 (u32 p), c + 12)"
    using R assms(2-7) i32_u32[OF assms(8)] u32_less[of p]
    by (simp add: ReadEntryHeader_def layout_simps)
  moreover have "holds data (c + 12) tail" using H(6) by (simp add: add.commute[of c])
  ultimately show ?thesis using i32_u32[OF assms(8)] by simp
qed

lemma ReadColumn_holds:
  assumes "holds data c (column_image col)" "c + length (column_image col) \<le> limit" "limit \<le> PAGE_SIZE"
    "column_storable col"
  shows "ReadColumn data limit (cs, c) = Inr (cs @ [col], c + length (column_image col))"
proof -
  have H: "holds data c (le_bytes 2 (length (col_name col)))" "holds data (c + 2) (le_bytes 1 (TypeId_u8 (col_type col)))"
    "holds data (c + 2 + 1) (le_bytes 1 0)" "holds data (c + 2 + 1 + 1) (le_bytes 4 (col_length col))"
    "holds data (c + 2 + 1 + 1 + 4) (col_name col)"
    using assms(1) unfolding column_image_def holds_append length_le_bytes by blast+
  note R = CM_ReadValue_holds[OF H(1), of limit] CM_ReadValue_holds[OF H(2), of limit]
    CM_ReadValue_holds[OF H(3), of limit] CM_ReadValue_holds[OF H(4), of limit] CM_ReadString_holds[OF H(5), of limit]
  have "length (col_name col) < 65536" "c + 8 + length (col_name col) \<le> limit"
    using assms(2,3) by (simp_all add: layout_simps)
  then show ?thesis using R assms(4) by (simp add: ReadColumn_def column_storable_def not_less)
qed

lemma ReadColumns_holds:
  assumes "holds data c (concat (map column_image cols))" "c + length (concat (map column_image cols)) \<le> limit"
    "limit \<le> PAGE_SIZE" "list_all column_storable cols" "length xs = length cols"
  shows "for_each (\<lambda>_. ReadColumn data limit) xs (cs, c) =
    Inr (cs @ cols, c + length (concat (map column_image cols)))"
  using assms
proof (induction cols arbitrary: cs c xs)
  case (Cons col cols)
  obtain x xs' where xs: "xs = x # xs'" "length xs' = length cols" using Cons.prems(5) by (cases xs) auto
  have "holds data c (column_image col)" "holds data (c + length (column_image col)) (concat (map column_image cols))"
    using Cons.prems(1) by (simp_all only: list.map concat.simps holds_append)
  then show ?case
    using ReadColumn_holds[of data c col limit cs] Cons.IH[of "c + length (column_image col)" xs' "cs @ [col]"] Cons.prems xs
    by (simp add: add.assoc)
qed simp

lemma ReadTableEntry_holds:
  assumes "holds data c (table_image t)" "c + length (table_image t) \<le> limit" "limit \<le> PAGE_SIZE" "table_storable t"
  shows "ReadTableEntry data limit c = Inr (t, c + length (table_image t))"
proof -
  let ?cols = "concat (map column_image (tm_schema t))"
  have small: "length (tm_name t) < 65536" "length (tm_schema t) < 65536"
    using assms(2,3) columns_room[of "tm_schema t"] by (simp_all add: table_image_def layout_simps)
  have E: "ReadEntryHeader data limit c = Some (12 + length (tm_name t @ ?cols), length (tm_name t),
      length (tm_schema t), 0, tm_first_page_id t, c + 12)" "holds data (c + 12) (tm_name t @ ?cols)"
    using ReadEntryHeader_holds[OF assms(1)[unfolded table_image_def] _ assms(3)] small assms(2,4)
    by (simp_all add: table_image_def table_storable_def)
  have N: "holds data (c + 12) (tm_name t)" "holds data (c + 12 + length (tm_name t)) ?cols"
    using E(2) unfolding holds_append by simp_all
  let ?stop = "c + (12 + length (tm_name t @ ?cols))"
  have "CM_ReadString data ?stop (length (tm_name t)) (c + 12) = Some (tm_name t, c + 12 + length (tm_name t))"
    by (rule CM_ReadString_holds[OF N(1)]) simp
  moreover have "for_each (\<lambda>_. ReadColumn data ?stop) [0..<length (tm_schema t)] ([], c + 12 + length (tm_name t)) =
      Inr ([] @ tm_schema t, c + 12 + length (tm_name t) + length ?cols)"
    by (rule ReadColumns_holds[OF N(2)]) (use assms(2-4) in \<open>simp_all add: table_image_def table_storable_def\<close>)
  ultimately show ?thesis using E(1) assms(4)
    by (simp add: ReadTableEntry_def table_storable_def table_image_def add.assoc)
qed

lemma ReadIndexEntry_holds:
  assumes "holds data c (index_image m)" "c + length (index_image m) \<le> limit" "limit \<le> PAGE_SIZE" "index_storable m"
  shows "ReadIndexEntry data limit (ps, c) = Inr (ps @ [pending_of m], c + length (index_image m))"
proof -
  let ?tail = "im_name m @ im_table_name m @ im_column_name m"
  have small: "length (im_name m) < 65536" "length (im_table_name m) < 65536" "length (im_column_name m) < 65536"
    using assms(2,3) by (simp_all add: index_image_def layout_simps)
  have E: "ReadEntryHeader data limit c = Some (12 + length ?tail, length (im_name m),
      length (im_table_name m), length (im_column_name m), im_header_page_id m, c + 12)" "holds data (c + 12) ?tail"
    using ReadEntryHeader_holds[OF assms(1)[unfolded index_image_def] _ assms(3)] small assms(2,4)
    by (simp_all add: index_image_def index_storable_def)
  have N: "holds data (c + 12) (im_name m)" "holds data (c + 12 + length (im_name m)) (im_table_name m)"
    "holds data (c + 12 + length (im_name m) + length (im_table_name m)) (im_column_name m)"
    using E(2) unfolding holds_append by simp_all
  let ?stop = "c + (12 + length ?tail)"
  note R = CM_ReadString_holds[OF N(1), of ?stop] CM_ReadString_holds[OF N(2), of ?stop] CM_ReadString_holds[OF N(3), of ?stop]
  show ?thesis using E(1) R assms(4)
    by (simp add: ReadIndexEntry_def index_storable_def index_image_def pending_of_def add.assoc)
qed

lemma ReadIndexes_holds:
  assumes "holds data c (concat (map index_image ms))" "c + length (concat (map index_image ms)) \<le> limit"
    "limit \<le> PAGE_SIZE" "list_all index_storable ms" "length xs = length ms"
  shows "for_each (\<lambda>_. ReadIndexEntry data limit) xs (ps, c) =
    Inr (ps @ map pending_of ms, c + length (concat (map index_image ms)))"
  using assms
proof (induction ms arbitrary: ps c xs)
  case (Cons m ms)
  obtain x xs' where xs: "xs = x # xs'" "length xs' = length ms" using Cons.prems(5) by (cases xs) auto
  have "holds data c (index_image m)" "holds data (c + length (index_image m)) (concat (map index_image ms))"
    using Cons.prems(1) by (simp_all only: list.map concat.simps holds_append)
  then show ?case
    using ReadIndexEntry_holds[of data c m limit ps] Cons.IH[of "c + length (index_image m)" xs' "ps @ [pending_of m]"] Cons.prems xs
    by (simp add: add.assoc)
qed simp

text \<open>Tables of different names are all entered.\<close>

definition keyed :: "table_metadata list \<Rightarrow> (string \<times> table_metadata) list" where
  "keyed ts = map (\<lambda>t. (tm_name t, t)) ts"

lemma map_of_fresh: "map_of m k = None \<longleftrightarrow> k \<notin> fst ` set m"
  by (simp add: map_of_eq_None_iff)

lemma LoadTables_holds:
  assumes "holds data c (concat (map table_image ts))" "c + length (concat (map table_image ts)) \<le> limit"
    "limit \<le> PAGE_SIZE" "list_all table_storable ts" "distinct (map tm_name (ds @ ts))"
  shows "LoadTables (length ts) data limit (keyed ds) c =
    (keyed (ds @ ts), Inr (c + length (concat (map table_image ts))))"
  using assms
proof (induction ts arbitrary: ds c)
  case (Cons t ts)
  have H: "holds data c (table_image t)" "holds data (c + length (table_image t)) (concat (map table_image ts))"
    using Cons.prems(1) by (simp_all only: list.map concat.simps holds_append)
  have "emplace (tm_name t) t (keyed ds) = keyed (ds @ [t])"
    using Cons.prems(5) by (auto simp: emplace_def map_of_fresh keyed_def)
  then show ?case
    using ReadTableEntry_holds[OF H(1) _ Cons.prems(3)] Cons.IH[OF H(2), of "ds @ [t]"] Cons.prems
    by (simp add: add.assoc)
qed simp

text \<open>The page as a whole.\<close>

lemma ReadHeader_holds:
  assumes "holds data 0 (header_image n m used)" "n < 65536" "m < 65536" "16 \<le> used" "used \<le> PAGE_SIZE"
  shows "CM_ReadValue 4 data PAGE_SIZE 0 = Some (CATALOG_MAGIC, 4) \<and>
    ReadHeader data CATALOG_MAGIC 4 = Some (n, m, used, 16)"
proof -
  have H: "holds data 0 (le_bytes 4 CATALOG_MAGIC)" "holds data (0 + 4) (le_bytes 2 CATALOG_VERSION)"
    "holds data (0 + 4 + 2) (le_bytes 2 n)" "holds data (0 + 4 + 2 + 2) (le_bytes 2 m)"
    "holds data (0 + 4 + 2 + 2 + 2) (le_bytes 2 used)" "holds data (0 + 4 + 2 + 2 + 2 + 2) (le_bytes 4 0)"
    using assms(1) unfolding header_image_def holds_append length_le_bytes by blast+
  note R = CM_ReadValue_holds[OF H(1), of PAGE_SIZE] CM_ReadValue_holds[OF H(2), of PAGE_SIZE]
    CM_ReadValue_holds[OF H(3), of PAGE_SIZE] CM_ReadValue_holds[OF H(4), of PAGE_SIZE]
    CM_ReadValue_holds[OF H(5), of PAGE_SIZE] CM_ReadValue_holds[OF H(6), of PAGE_SIZE]
  show ?thesis using R assms(2-5) by (simp add: ReadHeader_def layout_simps)
qed

lemma ParseCatalog_image:
  assumes "16 + length (catalog_body ts ixs) \<le> PAGE_SIZE" "list_all table_storable ts" "distinct (map tm_name ts)"
    "list_all index_storable ixs"
  shows "ParseCatalog (catalog_image ts ixs) = (keyed ts, Inr (Some (map pending_of ixs)))"
proof -
  let ?T = "concat (map table_image ts)" and ?I = "concat (map index_image ixs)"
  let ?used = "16 + length (catalog_body ts ixs)" and ?data = "catalog_image ts ixs"
  have n: "length ts < 65536" "length ixs < 65536"
    using catalog_body_room[of ts ixs] assms(1) by (simp_all add: layout_simps)
  have im: "?data = (header_image (length ts) (length ixs) ?used @ ?T @ ?I) @
      replicate (PAGE_SIZE - ?used) zero_byte" by (simp add: catalog_image_def catalog_body_def)
  have "holds ?data 0 (header_image (length ts) (length ixs) ?used @ ?T @ ?I)" unfolding im by (rule holds_self)
  then have H: "holds ?data 0 (header_image (length ts) (length ixs) ?used)" "holds ?data 16 ?T"
    "holds ?data (16 + length ?T) ?I" unfolding holds_append by simp_all
  have len: "?used = 16 + length ?T + length ?I" by (simp add: catalog_body_def)
  have L: "LoadTables (length ts) ?data ?used [] 16 = (keyed ts, Inr (16 + length ?T))"
    using LoadTables_holds[OF H(2), of ?used "[]"] assms(1-3) len by (simp add: keyed_def add.assoc)
  have I: "for_each (\<lambda>_. ReadIndexEntry ?data ?used) [0..<length ixs] ([], 16 + length ?T) =
      Inr ([] @ map pending_of ixs, 16 + length ?T + length ?I)"
    by (rule ReadIndexes_holds[OF H(3)]) (use assms(1,4) len in simp_all)
  have hd: "CM_ReadValue 4 ?data PAGE_SIZE 0 = Some (CATALOG_MAGIC, 4)"
    "ReadHeader ?data CATALOG_MAGIC 4 = Some (length ts, length ixs, ?used, 16)"
    using ReadHeader_holds[OF H(1) n] assms(1) by simp_all
  have "CATALOG_MAGIC \<noteq> 0" by (simp add: layout_simps)
  then show ?thesis using hd L I len by (simp add: ParseCatalog_def del: length_images)
qed

section \<open>What is accepted\<close>

definition tables_wf :: "(string \<times> table_metadata) list \<Rightarrow> bool" where
  "tables_wf m \<longleftrightarrow> distinct (map fst m) \<and> list_all (\<lambda>(k, t). k = tm_name t \<and> table_storable t) m"

definition pending_ok :: "pending_index \<Rightarrow> bool" where
  "pending_ok p \<longleftrightarrow> pi_name p \<noteq> [] \<and> pi_table_name p \<noteq> [] \<and> pi_column_name p \<noteq> [] \<and>
     1 \<le> pi_header_page_id p \<and> is_i32 (pi_header_page_id p)"

lemma ReadEntryHeader_Some:
  "ReadEntryHeader data limit c = Some (n, a, b, d, p, c') \<Longrightarrow> 1 \<le> p \<and> is_i32 p \<and> c' = c + 12 \<and> c + n \<le> limit"
  using CM_ReadValue_Some[of 4 data limit] is_i32_i32
  by (auto simp: ReadEntryHeader_def layout_simps bind_eq_Some_conv dest!: CM_ReadValue_Some split: if_splits)

lemma ReadColumn_sound:
  assumes "ReadColumn data l (cs, c) = Inr (cs', c')" "list_all column_storable cs"
  shows "list_all column_storable cs'"
  using assms
  by (auto simp: ReadColumn_def column_storable_def bind_eq_Some_conv dest!: CM_ReadValue_Some
      split: option.splits if_splits)

lemma ReadTableEntry_sound:
  assumes "ReadTableEntry data limit c = Inr (t, c')"
  shows "table_storable t"
proof -
  obtain n a b d p c1 where h: "ReadEntryHeader data limit c = Some (n, a, b, d, p, c1)"
    using assms by (cases "ReadEntryHeader data limit c") (auto simp: ReadTableEntry_def)
  obtain name c2 where s: "CM_ReadString data (c + n) a c1 = Some (name, c2)"
    using assms h by (cases "CM_ReadString data (c + n) a c1") (auto simp: ReadTableEntry_def)
  obtain cols c3 where f: "for_each (\<lambda>_. ReadColumn data (c + n)) [0..<b] ([], c2) = Inr (cols, c3)"
    using assms h s by (cases "for_each (\<lambda>_. ReadColumn data (c + n)) [0..<b] ([], c2)")
      (auto simp: ReadTableEntry_def split: if_splits)
  have "list_all column_storable (fst (cols, c3))"
    by (rule for_each_invariant[OF f, of "\<lambda>s. list_all column_storable (fst s)"]) (auto dest: ReadColumn_sound)
  then show ?thesis using assms h s f ReadEntryHeader_Some[OF h]
    by (auto simp: ReadTableEntry_def table_storable_def split: if_splits)
qed

lemma emplace_wf: "tables_wf m \<Longrightarrow> table_storable t \<Longrightarrow> tables_wf (emplace (tm_name t) t m)"
  by (auto simp: tables_wf_def emplace_def map_of_fresh)

lemma LoadTables_sound: "LoadTables n data limit m c = (m', r) \<Longrightarrow> tables_wf m \<Longrightarrow> tables_wf m'"
proof (induction n arbitrary: m c)
  case (Suc n)
  show ?case
  proof (cases "ReadTableEntry data limit c")
    case (Inl e)
    then show ?thesis using Suc.prems by simp
  next
    case (Inr tc)
    obtain t c1 where "tc = (t, c1)" by (cases tc)
    then show ?thesis using Suc Inr emplace_wf[OF Suc.prems(2)] ReadTableEntry_sound[of data limit c t c1] by simp
  qed
qed simp

lemma ReadIndexEntry_sound:
  assumes "ReadIndexEntry data limit (ps, c) = Inr (ps', c')" "list_all pending_ok ps"
  shows "list_all pending_ok ps'"
  using assms ReadEntryHeader_Some[of data limit c]
  by (auto simp: ReadIndexEntry_def pending_ok_def bind_eq_Some_conv split: option.splits if_splits)

lemma ParseCatalog_sound:
  assumes "ParseCatalog data = (tables, r)"
  shows "tables_wf tables \<and> (\<forall>ps. r = Inr (Some ps) \<longrightarrow> list_all pending_ok ps)"
proof -
  have nil: "tables_wf []" by (simp add: tables_wf_def)
  have L: "tables_wf ts" if "LoadTables n data limit [] c = (ts, x)" for n limit c ts x
    using LoadTables_sound[OF that nil] .
  have I: "list_all pending_ok ps" if f: "for_each (\<lambda>_. ReadIndexEntry data limit) xs ([], c) = Inr (ps, c')"
    for limit xs c ps c'
  proof -
    have "list_all pending_ok (fst (ps, c'))"
      by (rule for_each_invariant[OF f, of "\<lambda>s. list_all pending_ok (fst s)"]) (auto dest: ReadIndexEntry_sound)
    then show ?thesis by simp
  qed
  show ?thesis
  proof (cases "CM_ReadValue 4 data PAGE_SIZE 0")
    case None
    then show ?thesis using assms nil by (auto simp: ParseCatalog_def)
  next
    case (Some mc)
    obtain magic c where mc: "mc = (magic, c)" by (cases mc)
    show ?thesis
    proof (cases "magic = 0 \<or> ReadHeader data magic c = None")
      case True
      then show ?thesis using assms Some mc nil by (auto simp: ParseCatalog_def split: if_splits)
    next
      case False
      then obtain tc ic limit c1 where h: "ReadHeader data magic c = Some (tc, ic, limit, c1)" "magic \<noteq> 0" by auto
      obtain ts x where l: "LoadTables tc data limit [] c1 = (ts, x)" by (cases "LoadTables tc data limit [] c1")
      show ?thesis
      proof (cases x)
        case (Inl e)
        then show ?thesis using assms Some mc h l L[OF l] by (auto simp: ParseCatalog_def)
      next
        case (Inr c2)
        then show ?thesis using assms Some mc h l L[OF l] I[of limit "[0..<ic]" c2]
          by (auto simp: ParseCatalog_def split: sum.splits if_splits)
      qed
    qed
  qed
qed

end
