(* ===== verification/Catalog_Correct.thy ===== *)
theory Catalog_Correct
  imports Catalog Catalog_Page_Correct Hash_Index_Properties
begin

text \<open>
  The catalog manager in front of the pool: what its invariant is, what each operation does to the
  tables, the indexes and page 0, and what a catalog opened later from the file contains.
\<close>

section \<open>The invariant\<close>

text \<open>The index entry \<open>m\<close> under the key \<open>k\<close> refers to a table and one of its columns.\<close>

definition has_column :: "(string \<times> table_metadata) list \<Rightarrow> string \<Rightarrow> string \<Rightarrow> bool" where
  "has_column tables tn cn \<longleftrightarrow> (case map_of tables tn of None \<Rightarrow> False
     | Some t \<Rightarrow> column_found cn (tm_schema t))"

definition index_wf :: "catalog \<Rightarrow> string \<Rightarrow> index_metadata \<Rightarrow> bool" where
  "index_wf c k m \<longleftrightarrow> k = MakeIndexKey (im_table_name m) (im_column_name m) \<and> index_storable m \<and>
     im_index m = im_header_page_id m \<and> map_of (cat_index_names c) (im_name m) = Some k \<and>
     has_column (cat_tables c) (im_table_name m) (im_column_name m)"

definition cat_wf :: "catalog \<Rightarrow> bool" where
  "cat_wf c \<longleftrightarrow> tables_wf (cat_tables c) \<and> distinct (map fst (cat_indexes c)) \<and>
     distinct (map fst (cat_index_names c)) \<and> list_all (\<lambda>(k, m). index_wf c k m) (cat_indexes c) \<and>
     list_all (\<lambda>(n, k). case map_of (cat_indexes c) k of None \<Rightarrow> False | Some m \<Rightarrow> im_name m = n)
       (cat_index_names c)"

definition cat_fits :: "catalog \<Rightarrow> bool" where
  "cat_fits c \<longleftrightarrow>
     16 + length (catalog_body (in_key_order (cat_tables c)) (in_key_order (cat_indexes c))) \<le> PAGE_SIZE"

definition cat_image :: "catalog \<Rightarrow> byte list" where
  "cat_image c = catalog_image (in_key_order (cat_tables c)) (in_key_order (cat_indexes c))"

text \<open>Equal as hash tables: the same entries, in whatever order.\<close>

definition same_catalog :: "catalog \<Rightarrow> catalog \<Rightarrow> bool" where
  "same_catalog c c' \<longleftrightarrow> map_of (cat_tables c') = map_of (cat_tables c) \<and>
     map_of (cat_indexes c') = map_of (cat_indexes c) \<and> map_of (cat_index_names c') = map_of (cat_index_names c)"

lemma same_catalog_refl [simp]: "same_catalog c c"
  by (simp add: same_catalog_def)

section \<open>Association lists\<close>

lemma map_of_emplace: "map_of (emplace k v m) = (if map_of m k = None then (map_of m)(k \<mapsto> v) else map_of m)"
  by (auto simp: emplace_def map_add_def fun_eq_iff split: option.splits)

lemma distinct_emplace: "distinct (map fst m) \<Longrightarrow> distinct (map fst (emplace k v m))"
  by (auto simp: emplace_def map_of_fresh)

lemma erase_emplace: "map_of m k = None \<Longrightarrow> erase_key k (emplace k v m) = m"
  by (auto simp: erase_key_def emplace_def map_of_fresh intro!: filter_True)

lemma set_emplace: "map_of m k = None \<Longrightarrow> set (emplace k v m) = insert (k, v) (set m)"
  by (auto simp: emplace_def)

lemma in_key_order_set:
  assumes "distinct (map fst m)"
  shows "set (in_key_order m) = snd ` set m"
proof -
  have "set (in_key_order m) = (\<lambda>e. the (map_of m (fst e))) ` set m" by (auto simp: in_key_order_def image_iff)
  also have "\<dots> = snd ` set m" by (rule image_cong) (use assms in auto)
  finally show ?thesis .
qed

lemma in_key_order_keyed:
  assumes "distinct (map fst m)" "list_all (\<lambda>(k, v). k = f v) m"
  shows "map_of (map (\<lambda>v. (f v, v)) (in_key_order m)) = map_of m" "map f (in_key_order m) = sort (map fst m)"
proof -
  have f: "f (the (map_of m k)) = k" if k: "k \<in> set (map fst m)" for k
  proof -
    obtain v where "(k, v) \<in> set m" using k by auto
    then show ?thesis using assms by (fastforce simp: list_all_iff)
  qed
  then show "map f (in_key_order m) = sort (map fst m)"
    unfolding in_key_order_def map_map by (intro map_idI) simp
  have "map (\<lambda>v. (f v, v)) (in_key_order m) = map (\<lambda>k. (k, the (map_of m k))) (sort (map fst m))"
    using f by (simp add: in_key_order_def)
  then show "map_of (map (\<lambda>v. (f v, v)) (in_key_order m)) = map_of m"
    by (auto simp: map_of_map_restrict fun_eq_iff restrict_map_def map_of_fresh split: option.splits)
      (metis map_of_fresh option.collapse set_map)
qed

lemma tables_in_order:
  assumes "tables_wf m"
  shows "map_of (keyed (in_key_order m)) = map_of m" "distinct (map tm_name (in_key_order m))"
    "list_all table_storable (in_key_order m)"
proof -
  have k: "distinct (map fst m)" "list_all (\<lambda>(k, t). k = tm_name t) m"
    using assms by (auto simp: tables_wf_def list_all_iff)
  show "map_of (keyed (in_key_order m)) = map_of m" using in_key_order_keyed(1)[OF k] by (simp add: keyed_def)
  show "distinct (map tm_name (in_key_order m))" using in_key_order_keyed(2)[OF k] k(1) by simp
  show "list_all table_storable (in_key_order m)"
    using assms in_key_order_set[OF k(1)] by (auto simp: tables_wf_def list_all_iff)
qed

section \<open>Page 0\<close>

lemma header_page_used:
  assumes "pool_ok X bp"
  shows "0 \<notin> free_pages (pool_disk bp)" "pool_page bp 0 \<noteq> None"
proof -
  have "disk_inv (pool_disk bp)" using assms by (simp add: pool_ok_def pool_inv_def pool_wf_def)
  then show "0 \<notin> free_pages (pool_disk bp)" "pool_page bp 0 \<noteq> None"
    by (auto simp: disk_inv_def pool_page_def disk_page_def split: option.splits)
qed

lemma FlushPage_health: "FlushPage p bp = (b, ok) \<Longrightarrow> keeps_health bp b"
  using keeps_health_disk[of bp bp] WritePage_kept
  by (auto simp: FlushPage_def WriteFrame_def split: option.splits if_splits prod.splits)

lemma SerializeCatalog_fits:
  "if cat_fits c then SerializeCatalog (cat_tables c) (cat_indexes c) = Inr (cat_image c)
   else (\<exists>e. SerializeCatalog (cat_tables c) (cat_indexes c) = Inl (OutOfMemory e))"
  using SerializeCatalog_eq[of "cat_tables c" "cat_indexes c"] by (simp add: cat_fits_def cat_image_def)

text \<open>The outcome of writing the catalog: page 0 is the image on disk, or the old page, or, when only
  the final flush failed, the image in the pool.\<close>

definition persisted :: "catalog \<Rightarrow> pool \<Rightarrow> pool \<Rightarrow> status \<Rightarrow> bool" where
  "persisted c bp b st \<longleftrightarrow> pool_ok {} b \<and> keeps_health bp b \<and> outside_kept [0] bp b \<and>
     free_pages (pool_disk b) = free_pages (pool_disk bp) \<and> num_pages (pool_disk b) = num_pages (pool_disk bp) \<and>
     (pool_page b = pool_page bp \<or> cat_fits c \<and> pool_page b = (pool_page bp)(0 \<mapsto> cat_image c)) \<and>
     (if status_ok st then st = Status_OK \<and> cat_fits c \<and> pool_page b 0 = Some (cat_image c) \<and>
        disk_page (pool_disk b) 0 = Some (cat_image c)
      else \<not> (healthy bp \<and> cat_fits c))"

lemma persisted_same:
  assumes "pool_ok {} b" "same_pages bp b" "pins b = pins bp" "keeps_health bp b" "\<not> status_ok st" "\<not> (healthy bp \<and> cat_fits c)"
  shows "persisted c bp b st"
  using assms outside_kept_same[OF assms(2,3)] by (simp add: persisted_def same_pages_def)

lemma CM_Persist_spec:
  assumes "has_bpm c" "pool_ok {} bp" "CM_Persist c bp = (b, st)"
  shows "persisted c bp b st"
proof (cases "cat_fits c")
  case False
  then show ?thesis using assms SerializeCatalog_fits[of c] by (auto simp: CM_Persist_def intro!: persisted_same)
next
  case True
  then have ser: "SerializeCatalog (cat_tables c) (cat_indexes c) = Inr (cat_image c)" using SerializeCatalog_fits[of c] by simp
  note Z = header_page_used[OF assms(2)]
  obtain b1 x where ft: "FetchPage 0 bp = (b1, x)" by (cases "FetchPage 0 bp")
  show ?thesis
  proof (cases x)
    case None
    then have "\<not> healthy bp" using FetchPage_healthy[of bp 0] Z ft by auto
    then show ?thesis using assms ft None ser FetchPage_spec[OF assms(2) Z(1) ft] FetchPage_health[OF ft]
      by (auto simp: CM_Persist_def layout_simps intro!: persisted_same)
  next
    case (Some f)
    note F = fetched_page[OF assms(2) Z(1) ft[unfolded Some]]
    let ?pg = "(frame_of b1 f)\<lparr>page_data := mem_write (page_data (frame_of b1 f)) 0 (cat_image c)\<rparr>"
    obtain b2 u where up: "UnpinPage 0 True (set_frame f ?pg b1) = (b2, u)" by (cases "UnpinPage 0 True (set_frame f ?pg b1)")
    obtain b3 k where fl: "FlushPage 0 b2 = (b3, k)" by (cases "FlushPage 0 b2")
    have "pool_wf bp {} {}" "pool_wf b1 {} {}" using assms(2) F by (simp_all add: pool_ok_def pool_inv_def)
    then have len: "length (page_data (frame_of b1 f)) = PAGE_SIZE" using F by (simp add: pool_wf_def)
    have il: "length (cat_image c) = PAGE_SIZE"
      using True length_catalog_image by (simp add: cat_fits_def cat_image_def)
    then have w0: "mem_write (page_data (frame_of b1 f)) 0 (cat_image c) = cat_image c" using len by (simp add: mem_write_def)
    have M: "u" "wrote 0 (cat_image c) bp b2"
      using modify[OF assms(2) Z(1) ft[unfolded Some] _ _ _ up] F il by (simp_all add: w0)
    have ok2: "pool_ok {} b2" using M(2) by (simp add: wrote_def)
    have tab: "page_table b2 0 \<noteq> None" using UnpinPage_table[of 0 True "set_frame f ?pg b1"] up F by simp
    note L = FlushPage_spec[OF ok2 fl]
    have res: "(b, st) = (b3, if k then Status_OK else IOError ''Could not persist catalog header page'')"
      using assms(1,3) ser ft Some up M(1) fl by (simp add: CM_Persist_def Let_def layout_simps split: bool.splits)
    have kh: "keeps_health bp b2" using fetch_unpin_health[OF ft up] by simp
    have kh3: "keeps_health bp b3" using keeps_health_trans[OF kh FlushPage_health[OF fl]] .
    have out: "outside_kept [0] bp b3"
      using outside_kept_trans[OF wrote_outside[OF M(2)] outside_kept_same[of b2 b3]] L by simp
    have "k" if "healthy bp"
    proof -
      have "disk_io (pool_disk b2) = []" using kh that by (simp add: keeps_health_def healthy_def)
      then show k using FlushPage_fault_free[OF ok2 tab] fl by simp
    qed
    then show ?thesis using res M(2) L out kh3 True by (auto simp: persisted_def wrote_def same_pages_def)
  qed
qed

section \<open>Entering an index\<close>

definition entered :: "index_metadata \<Rightarrow> catalog \<Rightarrow> catalog" where
  "entered m c = (let k = MakeIndexKey (im_table_name m) (im_column_name m) in
     c\<lparr>cat_index_names := emplace (im_name m) k (cat_index_names c), cat_indexes := emplace k m (cat_indexes c)\<rparr>)"

lemma entered_simps [simp]:
  "cat_tables (entered m c) = cat_tables c" "has_bpm (entered m c) = has_bpm c"
  "initialization_status (entered m c) = initialization_status c"
  "cat_indexes (entered m c) = emplace (MakeIndexKey (im_table_name m) (im_column_name m)) m (cat_indexes c)"
  "cat_index_names (entered m c) =
     emplace (im_name m) (MakeIndexKey (im_table_name m) (im_column_name m)) (cat_index_names c)"
  by (simp_all add: entered_def Let_def)

definition enterable :: "index_metadata \<Rightarrow> catalog \<Rightarrow> bool" where
  "enterable m c \<longleftrightarrow> index_storable m \<and> im_index m = im_header_page_id m \<and>
     has_column (cat_tables c) (im_table_name m) (im_column_name m) \<and>
     map_of (cat_indexes c) (MakeIndexKey (im_table_name m) (im_column_name m)) = None \<and>
     map_of (cat_index_names c) (im_name m) = None"

lemma entered_wf:
  assumes "cat_wf c" "enterable m c"
  shows "cat_wf (entered m c)"
proof -
  let ?k = "MakeIndexKey (im_table_name m) (im_column_name m)"
  have new: "map_of (cat_indexes c) ?k = None" "map_of (cat_index_names c) (im_name m) = None"
    using assms(2) by (simp_all add: enterable_def)
  have keep: "index_wf (entered m c) k' m'" if "index_wf c k' m'" for k' m'
    using that new by (auto simp: index_wf_def map_of_emplace split: option.splits)
  moreover have "index_wf (entered m c) ?k m"
    using assms(2) by (simp add: index_wf_def enterable_def map_of_emplace split: option.splits)
  ultimately have I: "list_all (\<lambda>(k, m'). index_wf (entered m c) k m') (cat_indexes (entered m c))"
    using assms(1) new by (auto simp: cat_wf_def list_all_iff set_emplace)
  have "list_all (\<lambda>(n, k). case map_of (cat_indexes (entered m c)) k of None \<Rightarrow> False | Some m' \<Rightarrow> im_name m' = n)
      (cat_index_names (entered m c))"
    using assms(1) new
    by (auto simp: cat_wf_def list_all_iff set_emplace map_of_emplace split: option.splits)
  moreover have "distinct (map fst (cat_indexes (entered m c)))" "distinct (map fst (cat_index_names (entered m c)))"
    using assms(1) distinct_emplace[of "cat_indexes c"] distinct_emplace[of "cat_index_names c"] by (simp_all add: cat_wf_def)
  ultimately show ?thesis using assms(1) I by (simp add: cat_wf_def)
qed

lemma cat_wf_status [simp]: "cat_wf (c\<lparr>initialization_status := st\<rparr>) = cat_wf c"
  by (simp add: cat_wf_def index_wf_def)

lemma HI_Open_id: "HI_Open hid bp = (b, Inr i) \<Longrightarrow> i = hid"
  by (auto simp: HI_Open_def new_HashIndex_def split: if_splits prod.splits sum.splits)

definition metadata_of :: "pending_index \<Rightarrow> index_metadata" where
  "metadata_of p = \<lparr>im_name = pi_name p, im_table_name = pi_table_name p, im_column_name = pi_column_name p,
     im_header_page_id = pi_header_page_id p, im_index = pi_header_page_id p\<rparr>"

lemma metadata_of_simps [simp]:
  "im_name (metadata_of p) = pi_name p" "im_table_name (metadata_of p) = pi_table_name p"
  "im_column_name (metadata_of p) = pi_column_name p" "im_header_page_id (metadata_of p) = pi_header_page_id p"
  "im_index (metadata_of p) = pi_header_page_id p" "index_storable (metadata_of p) = pending_ok p"
  by (simp_all add: metadata_of_def index_storable_def pending_ok_def)

text \<open>One step of the loop that opens the indexes: it enters an index or stops with an error.\<close>

lemma OpenIndexes_step:
  assumes "HI_Open (pi_header_page_id p) bp = (b, r)"
  shows "if (\<exists>i. r = Inr i) \<and> has_column (cat_tables c) (pi_table_name p) (pi_column_name p) \<and>
      map_of (cat_indexes c) (MakeIndexKey (pi_table_name p) (pi_column_name p)) = None \<and>
      map_of (cat_index_names c) (pi_name p) = None
    then OpenIndexes (p # ps) c bp = OpenIndexes ps (entered (metadata_of p) c) b
    else (\<exists>st b'. OpenIndexes (p # ps) c bp = (b', c\<lparr>initialization_status := st\<rparr>) \<and>
      (status_ok st \<longrightarrow> (\<exists>st'. r = Inl st' \<and> status_ok st')))"
  using assms HI_Open_id[of "pi_header_page_id p" bp b]
  by (auto simp: Let_def entered_def metadata_of_def has_column_def split: option.splits sum.splits)

lemma HI_Open_error: "HI_Open hid bp = (b, Inl st) \<Longrightarrow> \<not> status_ok st"
  by (auto simp: HI_Open_def ValidateHeader_def new_HashIndex_def Let_def
      split: if_splits prod.splits sum.splits option.splits bool.splits)

lemma OpenIndexes_sound:
  assumes "OpenIndexes ps c bp = (b, c')" "cat_wf c" "list_all pending_ok ps"
  shows "cat_tables c' = cat_tables c \<and> has_bpm c' = has_bpm c \<and>
    cat_wf c' \<and> (status_ok (initialization_status c') \<longrightarrow> initialization_status c' = Status_OK)"
  using assms
proof (induction ps arbitrary: c bp)
  case Nil
  then show ?case by auto
next
  case (Cons p ps)
  obtain b1 r where o: "HI_Open (pi_header_page_id p) bp = (b1, r)" by (cases "HI_Open (pi_header_page_id p) bp")
  note S = OpenIndexes_step[OF o, of c ps]
  show ?case
  proof (cases "(\<exists>i. r = Inr i) \<and> enterable (metadata_of p) c")
    case True
    then have "OpenIndexes (p # ps) c bp = OpenIndexes ps (entered (metadata_of p) c) b1"
      using S by (simp add: enterable_def)
    moreover have "cat_wf (entered (metadata_of p) c)" using True entered_wf[OF Cons.prems(2)] by simp
    ultimately show ?thesis using Cons.IH[of "entered (metadata_of p) c" b1] Cons.prems(1,3) by simp
  next
    case False
    then obtain st b' where "OpenIndexes (p # ps) c bp = (b', c\<lparr>initialization_status := st\<rparr>)"
      "status_ok st \<longrightarrow> (\<exists>st'. r = Inl st' \<and> status_ok st')"
      using S Cons.prems(3) by (auto simp: enterable_def split: if_splits)
    then show ?thesis using Cons.prems(1,2) HI_Open_error o by auto
  qed
qed

definition emptied :: "(string \<times> table_metadata) list \<Rightarrow> catalog \<Rightarrow> catalog" where
  "emptied ts c = c\<lparr>cat_tables := ts, cat_indexes := [], cat_index_names := []\<rparr>"

lemma emptied_simps [simp]:
  "cat_tables (emptied ts c) = ts" "cat_indexes (emptied ts c) = []" "cat_index_names (emptied ts c) = []"
  "has_bpm (emptied ts c) = has_bpm c" "cat_wf (emptied ts c) = tables_wf ts"
  by (simp_all add: emptied_def cat_wf_def)

lemma CM_Load_eq:
  "CM_Load c bp =
    (if \<not> has_bpm c then (bp, (emptied [] c)\<lparr>initialization_status := Status_OK\<rparr>)
     else case FetchPage 0 bp of
       (b1, None) \<Rightarrow> (b1, (emptied [] c)\<lparr>initialization_status := IOError ''Could not fetch catalog header page''\<rparr>)
     | (b1, Some f) \<Rightarrow> (case (ParseCatalog (page_data (frame_of b1 f)), UnpinPage 0 False b1) of
         ((ts, Inl st), (b2, u)) \<Rightarrow> (b2, (emptied ts c)\<lparr>initialization_status := st\<rparr>)
       | ((ts, Inr None), (b2, u)) \<Rightarrow> (b2, (emptied ts c)\<lparr>initialization_status := Status_OK\<rparr>)
       | ((ts, Inr (Some ps)), (b2, False)) \<Rightarrow>
           (b2, (emptied ts c)\<lparr>initialization_status := IOError ''Could not unpin catalog header page''\<rparr>)
       | ((ts, Inr (Some ps)), (b2, True)) \<Rightarrow> OpenIndexes ps (emptied ts c) b2))"
  by (cases c) (simp add: CM_Load_def emptied_def Let_def layout_simps split: prod.split option.split sum.split)

lemma ParseCatalog_error:
  assumes "ParseCatalog data = (ts, Inl st)"
  shows "\<not> status_ok st"
proof -
  have step: "LoadTables n data l m c = (m', Inl e) \<Longrightarrow> \<not> status_ok e" for n l m c m' e
  proof (induction n arbitrary: m c)
    case (Suc n)
    have T: "\<not> status_ok e" if "ReadTableEntry data l c = Inl e" for e
    proof -
      have "\<not> status_ok e" if "for_each (\<lambda>_. ReadColumn data l') xs s = Inl e" for l' xs s
        using for_each_error[OF that, of "\<lambda>e. \<not> status_ok e"]
        by (force simp: ReadColumn_def split: option.splits if_splits)
      then show ?thesis using that
        by (auto simp: ReadTableEntry_def split: option.splits prod.splits if_splits sum.splits)
    qed
    show ?case using Suc T by (auto split: sum.splits prod.splits)
  qed simp
  have I: "for_each (\<lambda>_. ReadIndexEntry data l) xs s = Inl e \<Longrightarrow> \<not> status_ok e" for l xs s e
    using for_each_error[of "\<lambda>_. ReadIndexEntry data l" xs s e "\<lambda>e. \<not> status_ok e"]
    by (force simp: ReadIndexEntry_def split: option.splits prod.splits)
  show ?thesis using assms
    by (auto simp: ParseCatalog_def dest: step I split: option.splits prod.splits if_splits sum.splits)
qed

text \<open>Whatever the bytes on page 0 are, what is loaded without an error satisfies the invariant.\<close>

lemma CM_Load_sound:
  assumes "CM_Load c bp = (b, c')"
  shows "has_bpm c' = has_bpm c \<and> cat_wf c' \<and>
    (status_ok (initialization_status c') \<longrightarrow> initialization_status c' = Status_OK)"
proof -
  have nil: "tables_wf []" by (simp add: tables_wf_def)
  obtain b1 x where ft: "FetchPage 0 bp = (b1, x)" by (cases "FetchPage 0 bp")
  show ?thesis
  proof (cases "has_bpm c \<and> x \<noteq> None")
    case False
    then show ?thesis using assms ft nil by (cases "has_bpm c") (auto simp: CM_Load_eq)
  next
    case True
    then obtain f where x: "x = Some f" "has_bpm c" by auto
    obtain ts r where p: "ParseCatalog (page_data (frame_of b1 f)) = (ts, r)" by (cases "ParseCatalog (page_data (frame_of b1 f))")
    obtain b2 u where u: "UnpinPage 0 False b1 = (b2, u)" by (cases "UnpinPage 0 False b1")
    note P = ParseCatalog_sound[OF p]
    have eq: "(case (r, u) of (Inl st, _) \<Rightarrow> (b2, (emptied ts c)\<lparr>initialization_status := st\<rparr>)
       | (Inr None, _) \<Rightarrow> (b2, (emptied ts c)\<lparr>initialization_status := Status_OK\<rparr>)
       | (Inr (Some ps), False) \<Rightarrow>
           (b2, (emptied ts c)\<lparr>initialization_status := IOError ''Could not unpin catalog header page''\<rparr>)
       | (Inr (Some ps), True) \<Rightarrow> OpenIndexes ps (emptied ts c) b2) = (b, c')"
      using assms x ft p u by (simp add: CM_Load_eq)
    consider st where "r = Inl st" | "r = Inr None" | ps where "r = Inr (Some ps)" by (metis sum.exhaust option.exhaust)
    then show ?thesis
    proof cases
      case 1
      then show ?thesis using eq P ParseCatalog_error[of _ ts st] p by auto
    next
      case 2
      then show ?thesis using eq P by auto
    next
      case (3 ps)
      show ?thesis
      proof (cases u)
        case True
        then have "OpenIndexes ps (emptied ts c) b2 = (b, c')" using eq 3 by simp
        from OpenIndexes_sound[OF this] show ?thesis using P 3 by simp
      next
        case False
        then show ?thesis using eq 3 P by auto
      qed
    qed
  qed
qed

section \<open>Reading back what was written\<close>

lemma HI_Open_healthy:
  assumes "hi_state bp hid buckets" "healthy bp"
  shows "\<exists>b. HI_Open hid bp = (b, Inr hid) \<and> read_only bp b"
proof -
  obtain b where "ValidateHeader hid bp = (b, Inr (length buckets))" "read_only bp b"
    using ValidateHeader_healthy[OF assms] by blast
  moreover have "1 \<le> hid" using assms(1) by (simp add: hi_state_def)
  ultimately show ?thesis by (simp add: HI_Open_def new_HashIndex_def layout_simps)
qed

definition index_key :: "index_metadata \<Rightarrow> string" where
  "index_key m = MakeIndexKey (im_table_name m) (im_column_name m)"

lemma metadata_of_pending: "im_index m = im_header_page_id m \<Longrightarrow> metadata_of (pending_of m) = m"
  by (cases m) (simp add: metadata_of_def pending_of_def)

lemma pending_of_simps [simp]:
  "pi_name (pending_of m) = im_name m" "pi_table_name (pending_of m) = im_table_name m"
  "pi_column_name (pending_of m) = im_column_name m" "pi_header_page_id (pending_of m) = im_header_page_id m"
  by (simp_all add: pending_of_def)

lemma OpenIndexes_complete:
  assumes "healthy bp" "list_all (\<lambda>m. im_index m = im_header_page_id m \<and>
      has_column (cat_tables c) (im_table_name m) (im_column_name m) \<and> (\<exists>buckets. hi_state bp (im_header_page_id m) buckets)) ms"
    "distinct (map fst (cat_indexes c) @ map index_key ms)" "distinct (map fst (cat_index_names c) @ map im_name ms)"
  shows "\<exists>b. OpenIndexes (map pending_of ms) c bp = (b, c\<lparr>initialization_status := Status_OK,
      cat_indexes := cat_indexes c @ map (\<lambda>m. (index_key m, m)) ms,
      cat_index_names := cat_index_names c @ map (\<lambda>m. (im_name m, index_key m)) ms\<rparr>) \<and> read_only bp b"
  using assms
proof (induction ms arbitrary: c bp)
  case Nil
  have "read_only bp bp" using Nil.prems(1) by (simp add: read_only_def healthy_def)
  then show ?case by (cases c) simp
next
  case (Cons m ms)
  obtain buckets where hi: "hi_state bp (im_header_page_id m) buckets" using Cons.prems(2) by auto
  obtain b1 where o: "HI_Open (im_header_page_id m) bp = (b1, Inr (im_header_page_id m))" "read_only bp b1"
    using HI_Open_healthy[OF hi Cons.prems(1)] by blast
  have new: "map_of (cat_indexes c) (index_key m) = None" "map_of (cat_index_names c) (im_name m) = None"
    using Cons.prems(3,4) by (auto simp: map_of_fresh)
  have m: "metadata_of (pending_of m) = m" using Cons.prems(2) metadata_of_pending by simp
  have step: "OpenIndexes (map pending_of (m # ms)) c bp = OpenIndexes (map pending_of ms) (entered m c) b1"
    using OpenIndexes_step[of "pending_of m" bp b1 "Inr (im_header_page_id m)" c "map pending_of ms"] o(1) m new Cons.prems(2)
    by (simp add: index_key_def)
  have hl: "healthy b1" using read_only_healthy[OF o(2) Cons.prems(1)] .
  have E: "cat_indexes (entered m c) = cat_indexes c @ [(index_key m, m)]"
    "cat_index_names (entered m c) = cat_index_names c @ [(im_name m, index_key m)]"
    using new by (simp_all add: emplace_def index_key_def)
  have "list_all (\<lambda>m. im_index m = im_header_page_id m \<and> has_column (cat_tables (entered m' c)) (im_table_name m) (im_column_name m) \<and>
      (\<exists>buckets. hi_state b1 (im_header_page_id m) buckets)) ms" for m'
    using Cons.prems(2) hi_read_only(1)[OF _ o(2)] by (fastforce simp: list_all_iff)
  then obtain b where b: "OpenIndexes (map pending_of ms) (entered m c) b1 = (b, (entered m c)\<lparr>initialization_status := Status_OK,
      cat_indexes := cat_indexes (entered m c) @ map (\<lambda>m. (index_key m, m)) ms,
      cat_index_names := cat_index_names (entered m c) @ map (\<lambda>m. (im_name m, index_key m)) ms\<rparr>)" "read_only b1 b"
    using Cons.IH[OF hl, of "entered m c"] Cons.prems(3,4) E by auto
  have "(entered m c)\<lparr>initialization_status := Status_OK, cat_indexes := xs, cat_index_names := ys\<rparr> =
      c\<lparr>initialization_status := Status_OK, cat_indexes := xs, cat_index_names := ys\<rparr>" for xs ys
    by (cases c) (simp add: entered_def Let_def)
  then show ?case using step b E read_only_trans[OF o(2) b(2)] by simp
qed

lemma cat_wf_entry:
  assumes "cat_wf c" "(k, m) \<in> set (cat_indexes c)"
  shows "k = index_key m" "index_wf c k m" "m \<in> set (in_key_order (cat_indexes c))"
proof -
  show w: "index_wf c k m" using assms unfolding cat_wf_def list_all_iff by blast
  then show "k = index_key m" by (simp add: index_wf_def index_key_def)
  have "set (in_key_order (cat_indexes c)) = snd ` set (cat_indexes c)"
    by (rule in_key_order_set) (use assms(1) in \<open>simp add: cat_wf_def\<close>)
  then show "m \<in> set (in_key_order (cat_indexes c))" using assms(2) by force
qed

lemma cat_wf_ordered:
  assumes "cat_wf c" "m \<in> set (in_key_order (cat_indexes c))"
  shows "(index_key m, m) \<in> set (cat_indexes c)" "index_wf c (index_key m) m"
proof -
  have "set (in_key_order (cat_indexes c)) = snd ` set (cat_indexes c)"
    by (rule in_key_order_set) (use assms(1) in \<open>simp add: cat_wf_def\<close>)
  then obtain k where "(k, m) \<in> set (cat_indexes c)" using assms(2) by force
  then show "(index_key m, m) \<in> set (cat_indexes c)" "index_wf c (index_key m) m"
    using cat_wf_entry[OF assms(1)] by blast+
qed

lemma indexes_in_order:
  assumes "cat_wf c"
  shows "map_of (map (\<lambda>m. (index_key m, m)) (in_key_order (cat_indexes c))) = map_of (cat_indexes c)"
    "map_of (map (\<lambda>m. (im_name m, index_key m)) (in_key_order (cat_indexes c))) = map_of (cat_index_names c)"
    "distinct (map index_key (in_key_order (cat_indexes c)))" "distinct (map im_name (in_key_order (cat_indexes c)))"
proof -
  let ?ms = "in_key_order (cat_indexes c)"
  have d: "distinct (map fst (cat_indexes c))" "distinct (map fst (cat_index_names c))"
    using assms by (simp_all add: cat_wf_def)
  have k: "list_all (\<lambda>(k, m). k = index_key m) (cat_indexes c)"
    unfolding list_all_iff using cat_wf_entry(1)[OF assms] by blast
  show 1: "map_of (map (\<lambda>m. (index_key m, m)) ?ms) = map_of (cat_indexes c)"
    and D: "distinct (map index_key ?ms)"
    using in_key_order_keyed[OF d(1) k] d(1) by simp_all
  have name: "map_of (cat_index_names c) (im_name m) = Some (index_key m)" if "m \<in> set ?ms" for m
    using cat_wf_ordered(2)[OF assms that] by (simp add: index_wf_def)
  show N: "distinct (map im_name ?ms)"
    unfolding distinct_map
  proof
    show "distinct ?ms" using D by (simp add: distinct_map)
    show "inj_on im_name (set ?ms)"
    proof (rule inj_onI)
      fix x y assume "x \<in> set ?ms" "y \<in> set ?ms" "im_name x = im_name y"
      then have "index_key x = index_key y" using name[of x] name[of y] by simp
      then show "x = y" using D \<open>x \<in> set ?ms\<close> \<open>y \<in> set ?ms\<close> by (auto simp: distinct_map dest: inj_onD)
    qed
  qed
  have N': "distinct (map fst (map (\<lambda>m. (im_name m, index_key m)) ?ms))" using N by (simp add: o_def)
  have "set (map (\<lambda>m. (im_name m, index_key m)) ?ms) = set (cat_index_names c)"
  proof (intro set_eqI iffI)
    fix e assume "e \<in> set (map (\<lambda>m. (im_name m, index_key m)) ?ms)"
    then show "e \<in> set (cat_index_names c)" using name map_of_SomeD by force
  next
    fix e assume e: "e \<in> set (cat_index_names c)"
    obtain n key where nk: "e = (n, key)" by (cases e)
    then obtain m where m: "map_of (cat_indexes c) key = Some m" "im_name m = n"
      using assms e by (auto simp: cat_wf_def list_all_iff split: option.splits)
    then have "(key, m) \<in> set (cat_indexes c)" by (simp add: map_of_SomeD)
    then have "m \<in> set ?ms" "key = index_key m" using cat_wf_entry[OF assms] by blast+
    then show "e \<in> set (map (\<lambda>m. (im_name m, index_key m)) ?ms)" using nk m(2) by auto
  qed
  then show "map_of (map (\<lambda>m. (im_name m, index_key m)) ?ms) = map_of (cat_index_names c)"
    using map_of_inject_set[OF N' d(2)] by simp
qed

definition indexes_open :: "catalog \<Rightarrow> pool \<Rightarrow> bool" where
  "indexes_open c bp \<longleftrightarrow> list_all (\<lambda>(k, m). \<exists>buckets. hi_state bp (im_header_page_id m) buckets) (cat_indexes c)"

lemma CM_Load_complete:
  assumes "cat_wf c" "cat_fits c" "healthy bp" "pool_page bp 0 = Some (cat_image c)" "indexes_open c bp"
  shows "\<exists>b c'. new_CatalogManager True bp = (b, c') \<and> read_only bp b \<and> has_bpm c' \<and>
    initialization_status c' = Status_OK \<and> same_catalog c c' \<and> cat_wf c'"
proof -
  let ?ts = "in_key_order (cat_tables c)" and ?ms = "in_key_order (cat_indexes c)"
  have T: "tables_wf (cat_tables c)" "distinct (map fst (cat_indexes c))" using assms(1) by (simp_all add: cat_wf_def)
  note TO = tables_in_order[OF T(1)] and IO = indexes_in_order[OF assms(1)]
  have I: "list_all index_storable ?ms"
    unfolding list_all_iff using cat_wf_ordered(2)[OF assms(1)] by (simp add: index_wf_def)
  have P: "ParseCatalog (cat_image c) = (keyed ?ts, Inr (Some (map pending_of ?ms)))"
    using ParseCatalog_image[OF _ TO(3,2) I] assms(2) by (simp add: cat_fits_def cat_image_def)
  have ok: "pool_ok {} bp" using assms(3) by (simp add: healthy_def)
  note Z = header_page_used[OF ok]
  obtain b1 f b2 where l: "FetchPage 0 bp = (b1, Some f)" "UnpinPage 0 False b1 = (b2, True)" "read_only bp b2"
    "healthy b2" "pool_page bp 0 = Some (page_data (frame_of b1 f))"
    using healthy_look[OF assms(3) Z] by blast
  let ?c = "emptied (keyed ?ts) (default_Catalog\<lparr>has_bpm := True\<rparr>)"
  have "list_all (\<lambda>m. im_index m = im_header_page_id m \<and> has_column (keyed ?ts) (im_table_name m) (im_column_name m) \<and>
      (\<exists>buckets. hi_state b2 (im_header_page_id m) buckets)) ?ms"
    unfolding list_all_iff
  proof
    fix m assume m: "m \<in> set ?ms"
    then obtain bs where "hi_state bp (im_header_page_id m) bs"
      using cat_wf_ordered(1)[OF assms(1)] assms(5) by (force simp: indexes_open_def list_all_iff)
    then show "im_index m = im_header_page_id m \<and> has_column (keyed ?ts) (im_table_name m) (im_column_name m) \<and>
        (\<exists>buckets. hi_state b2 (im_header_page_id m) buckets)"
      using hi_read_only(1)[OF _ l(3)] cat_wf_ordered(2)[OF assms(1) m] TO(1) by (auto simp: index_wf_def has_column_def)
  qed
  then obtain b c' where o: "OpenIndexes (map pending_of ?ms) ?c b2 = (b, c')" "read_only b2 b"
    "c' = ?c\<lparr>initialization_status := Status_OK, cat_indexes := map (\<lambda>m. (index_key m, m)) ?ms,
      cat_index_names := map (\<lambda>m. (im_name m, index_key m)) ?ms\<rparr>"
    using OpenIndexes_complete[OF l(4), of ?c ?ms] IO(3,4) by auto
  have ld: "new_CatalogManager True bp = (b, c')"
    using l(1,2,5) assms(4) P o(1) by (simp add: new_CatalogManager_def CM_Load_eq)
  moreover have "cat_wf c'" using CM_Load_sound ld by (auto simp: new_CatalogManager_def)
  moreover have "same_catalog c c'" using o(3) TO(1) IO(1,2) by (simp add: same_catalog_def)
  moreover have "has_bpm c'" using o(3) by simp
  ultimately show ?thesis using read_only_trans[OF l(3) o(2)] o(3) by auto
qed

end
