(* ===== verification/Catalog_Properties.thy ===== *)
theory Catalog_Properties
  imports Catalog_Correct
begin

text \<open>
  The properties of the catalog manager: what creating a table or an index does and leaves undone on a
  failure, what a catalog opened from the file holds, and the listing of a table's indexes.
\<close>

lemma disk_persisted:
  assumes "persisted c bp b st" "status_ok st"
  shows "st = Status_OK" "disk_page (pool_disk b) 0 = Some (cat_image c)" "cat_fits c"
  using assms by (simp_all add: persisted_def)

lemma cat_image_status [simp]:
  "cat_image (c\<lparr>initialization_status := st\<rparr>) = cat_image c" "cat_fits (c\<lparr>initialization_status := st\<rparr>) = cat_fits c"
  by (simp_all add: cat_image_def cat_fits_def)

section \<open>Creating a table\<close>

definition with_table :: "string \<Rightarrow> schema \<Rightarrow> page_id \<Rightarrow> catalog \<Rightarrow> catalog" where
  "with_table name sch p c = c\<lparr>cat_tables := cat_tables c @
     [(name, \<lparr>tm_name = name, tm_schema = sch, tm_first_page_id = p\<rparr>)]\<rparr>"

lemma with_table_simps [simp]:
  "cat_indexes (with_table n sch p c) = cat_indexes c" "cat_index_names (with_table n sch p c) = cat_index_names c"
  "has_bpm (with_table n sch p c) = has_bpm c" "initialization_status (with_table n sch p c) = initialization_status c"
  by (simp_all add: with_table_def)

lemma with_table_wf:
  assumes "cat_wf c" "map_of (cat_tables c) n = None" "n \<noteq> []" "1 \<le> p" "is_i32 p" "list_all column_storable sch"
  shows "cat_wf (with_table n sch p c)"
proof -
  have T: "tables_wf (cat_tables (with_table n sch p c))"
    using assms by (auto simp: with_table_def cat_wf_def tables_wf_def map_of_fresh table_storable_def)
  have "has_column (cat_tables (with_table n sch p c)) tn cn" if "has_column (cat_tables c) tn cn" for tn cn
    using that by (auto simp: has_column_def with_table_def map_add_def split: option.splits)
  then have "index_wf (with_table n sch p c) k m" if "index_wf c k m" for k m
    using that by (simp add: index_wf_def)
  then show ?thesis using assms(1) T by (auto simp: cat_wf_def list_all_iff)
qed

text \<open>What the code checks before it changes anything.\<close>

definition table_accepted :: "string \<Rightarrow> schema \<Rightarrow> page_id \<Rightarrow> catalog \<Rightarrow> bool" where
  "table_accepted n sch p c \<longleftrightarrow> status_ok (initialization_status c) \<and> n \<noteq> [] \<and> 1 \<le> p \<and>
     GetColumnCount sch \<noteq> 0 \<and> map_of (cat_tables c) n = None"

lemma CM_CreateTable_eq:
  assumes "table_accepted n sch p c"
  shows "CM_CreateTable n sch p c bp = (case CM_Persist (with_table n sch p c) bp of (b, st) \<Rightarrow>
    if status_ok st then (b, with_table n sch p c, Status_OK) else (b, c, st))"
proof -
  have e: "cat_tables c @ [(n, t)] = emplace n t (cat_tables c)" for t
    using assms by (simp add: emplace_def table_accepted_def)
  have new: "map_of (cat_tables c) n = None" using assms by (simp add: table_accepted_def)
  have "c\<lparr>cat_tables := erase_key n (emplace n t (cat_tables c))\<rparr> = c" for t
    unfolding erase_emplace[OF new] by (cases c) simp
  then show ?thesis using assms
    by (auto simp: CM_CreateTable_def with_table_def e table_accepted_def layout_simps Let_def split: prod.split)
qed

lemma CM_CreateTable_rejected:
  assumes "\<not> table_accepted n sch p c"
  shows "\<exists>st. CM_CreateTable n sch p c bp = (bp, c, st) \<and> \<not> status_ok st"
  using assms by (auto simp: CM_CreateTable_def table_accepted_def layout_simps)

definition index_data :: "string \<Rightarrow> string \<Rightarrow> string \<Rightarrow> page_id \<Rightarrow> index_metadata" where
  "index_data n tn cn hid = \<lparr>im_name = n, im_table_name = tn, im_column_name = cn, im_header_page_id = hid, im_index = hid\<rparr>"

definition index_accepted :: "string \<Rightarrow> string \<Rightarrow> string \<Rightarrow> catalog \<Rightarrow> bool" where
  "index_accepted n tn cn c \<longleftrightarrow> status_ok (initialization_status c) \<and> n \<noteq> [] \<and> tn \<noteq> [] \<and> cn \<noteq> [] \<and>
     has_column (cat_tables c) tn cn \<and> map_of (cat_indexes c) (MakeIndexKey tn cn) = None \<and>
     map_of (cat_index_names c) n = None"

section \<open>A catalog with a table and an index, for the witnesses\<close>

definition example_schema :: schema where
  "example_schema = [\<lparr>col_name = ''a'', col_type = INTEGER, col_length = 0\<rparr>]"

definition empty_catalog :: catalog where "empty_catalog = default_Catalog\<lparr>has_bpm := True\<rparr>"

definition table_catalog :: catalog where "table_catalog = with_table ''t'' example_schema 5 empty_catalog"

definition index_catalog :: "page_id \<Rightarrow> catalog" where
  "index_catalog hid = entered (index_data ''i'' ''t'' ''a'' hid) table_catalog"

lemma empty_catalog_simps [simp]:
  "cat_tables empty_catalog = []" "cat_indexes empty_catalog = []" "cat_index_names empty_catalog = []"
  "has_bpm empty_catalog" "initialization_status empty_catalog = Status_OK" "cat_wf empty_catalog"
  by (simp_all add: empty_catalog_def default_Catalog_def cat_wf_def tables_wf_def)

lemma example_storable: "list_all column_storable example_schema" "is_i32 5" "GetColumnCount example_schema \<noteq> 0"
  by (simp_all add: example_schema_def column_storable_def is_i32_def GetColumnCount_def u32_def)

lemma one_in_order [simp]: "in_key_order [(k, v)] = [v]" "in_key_order [] = []"
  by (simp_all add: in_key_order_def)

lemma table_catalog_simps:
  "cat_tables table_catalog = [(''t'', \<lparr>tm_name = ''t'', tm_schema = example_schema, tm_first_page_id = 5\<rparr>)]"
  "cat_indexes table_catalog = []" "cat_index_names table_catalog = []" "has_bpm table_catalog"
  "initialization_status table_catalog = Status_OK" "cat_fits table_catalog"
  by (simp_all add: table_catalog_def with_table_def cat_fits_def catalog_body_def table_image_def example_schema_def
      layout_simps)

lemma table_catalog_wf: "cat_wf table_catalog"
  unfolding table_catalog_def by (rule with_table_wf) (simp_all add: example_storable)

lemma table_accepted_example: "table_accepted ''t'' example_schema 5 empty_catalog"
  by (simp add: table_accepted_def example_storable)

lemma index_accepted_example: "index_accepted ''i'' ''t'' ''a'' table_catalog"
  by (simp add: index_accepted_def table_catalog_simps has_column_def column_found_def example_schema_def)

lemma index_catalog_facts:
  assumes "1 \<le> hid" "is_i32 hid"
  shows "cat_wf (index_catalog hid)" "cat_fits (index_catalog hid)" "has_bpm (index_catalog hid)"
    "cat_indexes (index_catalog hid) = [(''t.a'', index_data ''i'' ''t'' ''a'' hid)]"
    "initialization_status (index_catalog hid) = Status_OK"
    "cat_tables (index_catalog hid) = cat_tables table_catalog"
proof -
  have "enterable (index_data ''i'' ''t'' ''a'' hid) table_catalog"
    using index_accepted_example assms by (simp add: enterable_def index_accepted_def index_data_def index_storable_def)
  from entered_wf[OF table_catalog_wf this] show "cat_wf (index_catalog hid)" by (simp add: index_catalog_def)
qed (simp_all add: index_catalog_def table_catalog_simps emplace_def index_data_def MakeIndexKey_def cat_fits_def
  catalog_body_def table_image_def index_image_def example_schema_def layout_simps)

lemma example_index_page:
  "\<exists>bp hid. hi_state bp hid [[], []] \<and> healthy bp \<and> pool_ok {} bp \<and> is_i32 hid \<and> 1 \<le> hid"
proof -
  obtain bp hid where b: "hi_state bp hid [[], []]" "healthy bp" "num_pages (pool_disk bp) < 2147483648"
    using example_index by blast
  obtain d where "pool_page bp hid = Some d" using hi_header(3)[OF b(1)] by blast
  then have "hid < num_pages (pool_disk bp)" using pool_page_bound[of "{}" bp] b(1) by (simp add: hi_state_def)
  then show ?thesis using b by (intro exI[of _ bp] exI[of _ hid]) (simp add: is_i32_def hi_state_def)
qed

section \<open>Creating a table, the property\<close>

text \<open>
  C14. Creating a table is atomic in memory. On success the table was unknown, is the only addition, is found
  with its schema and first page, and page 0 of the file on disk is the image of the catalog with
  it. On an error the catalog is as before; page 0 is as before too, except that a failure of the final
  flush alone leaves the image with the new table in the pool. A pool without pins and failures accepts
  every valid table whose catalog still fits the page. No other page in use changes, no pin is left.
\<close>

theorem catalog_create_table:
  assumes "cat_wf c" "has_bpm c" "pool_ok {} bp" "is_i32 p" "list_all column_storable sch"
    "CM_CreateTable n sch p c bp = (b, c', st)"
  shows "cat_wf c' \<and> pool_ok {} b \<and> outside_kept [0] bp b \<and>
    (if status_ok st
     then map_of (cat_tables c) n = None \<and> c' = with_table n sch p c \<and> CM_GetTableSchema n c' = Inr sch \<and>
       CM_GetTableFirstPageId n c' = Inr p \<and> disk_page (pool_disk b) 0 = Some (cat_image c')
     else c' = c \<and> (pool_page b = pool_page bp \<or> pool_page b = (pool_page bp)(0 \<mapsto> cat_image (with_table n sch p c))) \<and>
       \<not> (table_accepted n sch p c \<and> cat_fits (with_table n sch p c) \<and> healthy bp))"
proof (cases "table_accepted n sch p c")
  case False
  then show ?thesis using assms CM_CreateTable_rejected[OF False, of bp] by auto
next
  case True
  obtain b1 st1 where P: "CM_Persist (with_table n sch p c) bp = (b1, st1)" by (cases "CM_Persist (with_table n sch p c) bp")
  have S: "persisted (with_table n sch p c) bp b1 st1" by (rule CM_Persist_spec[OF _ assms(3) P]) (simp add: assms(2))
  have new: "map_of (cat_tables c) n = None" "n \<noteq> []" "1 \<le> p" "status_ok (initialization_status c)"
    using True by (simp_all add: table_accepted_def)
  have wf: "cat_wf (with_table n sch p c)" by (rule with_table_wf[OF assms(1) new(1-3) assms(4,5)])
  have "map_of (cat_tables (with_table n sch p c)) n = Some \<lparr>tm_name = n, tm_schema = sch, tm_first_page_id = p\<rparr>"
    using new(1) by (simp add: with_table_def map_add_def)
  then have get: "CM_GetTableSchema n (with_table n sch p c) = Inr sch" "CM_GetTableFirstPageId n (with_table n sch p c) = Inr p"
    using new(4) by (simp_all add: CM_GetTableSchema_def CM_GetTableFirstPageId_def)
  have res: "(b, c', st) = (if status_ok st1 then (b1, with_table n sch p c, Status_OK) else (b1, c, st1))"
    using assms(6) P CM_CreateTable_eq[OF True, of bp] by simp
  show ?thesis
  proof (cases "status_ok st1")
    case True
    then show ?thesis using res S wf get new(1) disk_persisted[OF S True] by (auto simp: persisted_def)
  next
    case False
    then show ?thesis using res S assms(1) by (auto simp: persisted_def)
  qed
qed

theorem catalog_create_table_witness:
  "\<exists>bp b. CM_CreateTable ''t'' example_schema 5 empty_catalog bp = (b, table_catalog, Status_OK) \<and>
     disk_page (pool_disk b) 0 = Some (cat_image table_catalog)"
proof -
  obtain bp where h: "healthy bp" "pool_ok {} bp" using example_index_page by blast
  obtain b c' st where t: "CM_CreateTable ''t'' example_schema 5 empty_catalog bp = (b, c', st)"
    by (cases "CM_CreateTable ''t'' example_schema 5 empty_catalog bp")
  have "status_ok st"
    using catalog_create_table[OF _ _ h(2) example_storable(2,1) t] table_accepted_example table_catalog_simps(6) h(1)
    by (simp add: table_catalog_def split: if_splits)
  moreover have "status_ok st \<Longrightarrow> st = Status_OK"
    using t CM_CreateTable_eq[OF table_accepted_example, of bp] by (auto split: prod.splits if_splits)
  ultimately show ?thesis
    using catalog_create_table[OF _ _ h(2) example_storable(2,1) t] t by (auto simp: table_catalog_def)
qed

section \<open>A failed flush\<close>

lemma Persist_seek_fails:
  assumes "has_bpm c" "cat_fits c" "pool_ok {} bp" "page_table bp 0 \<noteq> None" "disk_io (pool_disk bp) = IoSeekFail # io"
  shows "\<exists>b. CM_Persist c bp = (b, IOError ''Could not persist catalog header page'') \<and>
    pool_page b 0 = Some (cat_image c) \<and> pool_ok {} b"
proof -
  have ser: "SerializeCatalog (cat_tables c) (cat_indexes c) = Inr (cat_image c)" using SerializeCatalog_fits[of c] assms(2) by simp
  note Z = header_page_used[OF assms(3)]
  obtain f where t: "page_table bp 0 = Some f" using assms(4) by blast
  obtain b1 where ft: "FetchPage 0 bp = (b1, Some f)" "pool_disk b1 = pool_disk bp"
    using t by (auto simp: FetchPage_def Let_def)
  note F = fetched_page[OF assms(3) Z(1) ft(1)]
  let ?pg = "(frame_of b1 f)\<lparr>page_data := mem_write (page_data (frame_of b1 f)) 0 (cat_image c)\<rparr>"
  obtain b2 u where up: "UnpinPage 0 True (set_frame f ?pg b1) = (b2, u)" by (cases "UnpinPage 0 True (set_frame f ?pg b1)")
  have wf: "pool_wf b1 {} {}" using F by (simp add: pool_ok_def pool_inv_def)
  then have len: "length (page_data (frame_of b1 f)) = PAGE_SIZE" using F by (simp add: pool_wf_def)
  have il: "length (cat_image c) = PAGE_SIZE" using assms(2) length_catalog_image by (simp add: cat_fits_def cat_image_def)
  then have w0: "mem_write (page_data (frame_of b1 f)) 0 (cat_image c) = cat_image c" using len by (simp add: mem_write_def)
  have M: "u" "wrote 0 (cat_image c) bp b2"
    using modify[OF assms(3) Z(1) ft(1) _ _ _ up] F il by (simp_all add: w0)
  have tab: "page_table b2 0 = Some f" using UnpinPage_table[of 0 True "set_frame f ?pg b1"] up F by simp
  have "page_table (set_frame f ?pg b1) 0 = Some f" "valid_frame b1 f" using F by simp_all
  then have d: "is_dirty (frame_of b2 f)" "pool_disk b2 = pool_disk bp"
    using up M(1) ft(2) by (auto simp: UnpinPage_def Let_def split: if_splits)
  have ok2: "pool_ok {} b2" using M(2) by (simp add: wrote_def)
  then have "pool_wf b2 {} {}" by (simp add: pool_ok_def pool_inv_def)
  then have "0 < num_pages (pool_disk b2)" using pool_wf_table(4)[OF _ tab] by blast
  then have "\<exists>b3. WriteFrame 0 f b2 = (b3, False)" using d(2) assms(5)
    by (auto simp: WriteFrame_def WritePage_def stream_write_def next_event_def Let_def)
  then obtain b3 where fl: "FlushPage 0 b2 = (b3, False)" using tab d(1) by (auto simp: FlushPage_def)
  have "pool_ok {} b3" "pool_page b3 0 = Some (cat_image c)"
    using FlushPage_spec[OF ok2 fl] M(2) by (simp_all add: same_pages_def wrote_def)
  then show ?thesis using assms(1) ser ft(1) up M(1) fl by (simp add: CM_Persist_def Let_def layout_simps)
qed

text \<open>
  C17. A table whose creation was reported as failed can come into being. If the catalog page is resident and
  the seek of the final flush fails, \<^verbatim>\<open>CreateTable\<close> returns an error and forgets the table, but the page
  in the pool, which the pool writes back later, is the image of the catalog with the table.
\<close>

theorem catalog_failed_create_visible:
  assumes "table_accepted n sch p c" "has_bpm c" "cat_fits (with_table n sch p c)" "pool_ok {} bp"
    "page_table bp 0 \<noteq> None" "disk_io (pool_disk bp) = IoSeekFail # io"
  shows "\<exists>b. CM_CreateTable n sch p c bp = (b, c, IOError ''Could not persist catalog header page'') \<and>
    pool_ok {} b \<and> pool_page b 0 = Some (cat_image (with_table n sch p c))"
  using Persist_seek_fails[of "with_table n sch p c" bp io] assms CM_CreateTable_eq[OF assms(1), of bp] by auto

theorem catalog_failed_create_visible_witness:
  "\<exists>bp b. CM_CreateTable ''t'' example_schema 5 empty_catalog bp =
       (b, empty_catalog, IOError ''Could not persist catalog header page'') \<and>
     pool_page b 0 = Some (cat_image table_catalog)"
proof -
  obtain bp where b: "pool_ok {} bp" "page_table bp = [0 \<mapsto> 0]" using example_pool_fetched by blast
  let ?bp = "bp\<lparr>pool_disk := (pool_disk bp)\<lparr>disk_io := [IoSeekFail]\<rparr>\<rparr>"
  have "disk_page ((pool_disk bp)\<lparr>disk_io := [IoSeekFail]\<rparr>) = disk_page (pool_disk bp)"
    by (simp add: disk_page_def fun_eq_iff)
  then have "pool_ok {} ?bp" using b(1)
    by (simp add: pool_ok_def pool_inv_def pool_wf_def disk_inv_def free_zero_def coherent_def held_def)
  then show ?thesis
    using catalog_failed_create_visible[OF table_accepted_example, of ?bp "[]"] b(2) table_catalog_simps(6)
    by (auto simp: table_catalog_def)
qed

section \<open>Creating an index\<close>

lemma CM_CreateIndex_rejected:
  assumes "\<not> index_accepted n tn cn c"
  shows "\<exists>st. CM_CreateIndex n tn cn (Some hid) c bp = Some (bp, c, st) \<and> \<not> status_ok st"
  using assms by (auto simp: CM_CreateIndex_def index_accepted_def has_column_def Let_def split: option.splits)

lemma CM_CreateIndex_eq:
  assumes "index_accepted n tn cn c"
  shows "CM_CreateIndex n tn cn (Some hid) c bp =
    (case CM_Persist (entered (index_data n tn cn hid) c) bp of (b, st) \<Rightarrow>
      if status_ok st then Some (b, entered (index_data n tn cn hid) c, Status_OK)
      else (case HI_Destroy hid b of None \<Rightarrow> None
        | Some (b, _, cleanup) \<Rightarrow> Some (b, c, if status_ok cleanup then st
            else IOError (''Catalog persistence failed: '' @ status_message st @ ''; index cleanup failed: '' @ status_message cleanup))))"
proof -
  let ?k = "MakeIndexKey tn cn"
  have new: "map_of (cat_indexes c) ?k = None" "map_of (cat_index_names c) n = None"
    using assms by (simp_all add: index_accepted_def)
  obtain t where t: "map_of (cat_tables c) tn = Some t" "column_found cn (tm_schema t)"
    using assms by (auto simp: index_accepted_def has_column_def split: option.splits)
  have er: "c\<lparr>cat_indexes := erase_key ?k (emplace ?k m (cat_indexes c)),
      cat_index_names := erase_key n (emplace n ?k (cat_index_names c))\<rparr> = c" for m
    unfolding erase_emplace[OF new(1)] erase_emplace[OF new(2)] by (cases c) simp
  have get: "im_index (the (map_of (emplace ?k m (cat_indexes c)) ?k)) = im_index m" for m
    using new(1) by (simp add: map_of_emplace)
  have en: "c\<lparr>cat_index_names := emplace n ?k (cat_index_names c), cat_indexes := emplace ?k
      \<lparr>im_name = n, im_table_name = tn, im_column_name = cn, im_header_page_id = hid, im_index = hid\<rparr> (cat_indexes c)\<rparr> =
      entered (index_data n tn cn hid) c"
    by (simp add: entered_def index_data_def Let_def)
  show ?thesis using assms new t
    by (simp add: CM_CreateIndex_def index_accepted_def Let_def en[symmetric] get er split: prod.split option.split)
qed

lemma hi_state_kept:
  assumes "hi_state bp hid buckets" "pool_ok {} b" "outside_kept [0] bp b"
  shows "hi_state b hid buckets"
  using hash_object.frame[OF assms] hi_used[OF assms(1), of 0] by auto

text \<open>
  C15. Creating an index always returns and is atomic in memory. On success the index is the only addition,
  \<^verbatim>\<open>GetIndex\<close> finds its object under the table and the column, page 0 on disk is the image of the
  catalog with it and the pages of the index are untouched. On an error the catalog is as before; on a
  pool without pins and failures either nothing changed at all or, when the catalog with the index does
  not fit its page, the index has been destroyed and all its pages are free.
\<close>

theorem catalog_create_index:
  assumes "cat_wf c" "has_bpm c" "hi_state bp hid buckets" "is_i32 hid"
  shows "case CM_CreateIndex n tn cn (Some hid) c bp of None \<Rightarrow> False | Some (b, c', st) \<Rightarrow>
    if status_ok st
    then index_accepted n tn cn c \<and> c' = entered (index_data n tn cn hid) c \<and> cat_wf c' \<and>
      CM_GetIndex tn cn c' = Some hid \<and> CM_HasIndexName n c' \<and> disk_page (pool_disk b) 0 = Some (cat_image c') \<and>
      outside_kept [0] bp b \<and> hi_state b hid buckets
    else c' = c \<and> (healthy bp \<longrightarrow> (if index_accepted n tn cn c
      then \<not> cat_fits (entered (index_data n tn cn hid) c) \<and> outside_kept (hi_pages hid buckets) bp b \<and>
        free_pages (pool_disk b) = free_pages (pool_disk bp) \<union> set (hi_pages hid buckets)
      else b = bp))"
proof (cases "index_accepted n tn cn c")
  case False
  then show ?thesis using CM_CreateIndex_rejected[OF False, of hid bp] by auto
next
  case True
  let ?m = "index_data n tn cn hid"
  have ok: "pool_ok {} bp" "1 \<le> hid" using assms(3) by (simp_all add: hi_state_def)
  obtain b st where P: "CM_Persist (entered ?m c) bp = (b, st)" by (cases "CM_Persist (entered ?m c) bp")
  have S: "persisted (entered ?m c) bp b st" by (rule CM_Persist_spec[OF _ ok(1) P]) (simp add: assms(2))
  have en: "enterable ?m c" using True ok(2) assms(4)
    by (simp add: enterable_def index_data_def index_storable_def index_accepted_def)
  note wf = entered_wf[OF assms(1) en]
  have new: "map_of (cat_indexes c) (MakeIndexKey tn cn) = None" "map_of (cat_index_names c) n = None"
    "status_ok (initialization_status c)" using True by (simp_all add: index_accepted_def)
  note eq = CM_CreateIndex_eq[OF True, of hid bp]
  show ?thesis
  proof (cases "status_ok st")
    case ok': True
    have "hi_state b hid buckets" by (rule hi_state_kept[OF assms(3)]) (use S in \<open>simp_all add: persisted_def\<close>)
    moreover have "CM_GetIndex tn cn (entered ?m c) = Some hid" "CM_HasIndexName n (entered ?m c)"
      using new by (simp_all add: CM_GetIndex_def CM_HasIndexName_def map_of_emplace index_data_def)
    moreover have "outside_kept [0] bp b" using S by (simp add: persisted_def)
    ultimately show ?thesis using eq P ok' True wf disk_persisted[OF S ok'] by simp
  next
    case False
    have bok: "pool_ok {} b" using S by (simp add: persisted_def)
    obtain N where N: "bounded N b" using pool_ok_bounded[OF bok] by blast
    obtain b2 h cl where D: "HI_Destroy hid b = Some (b2, h, cl)" using ops_return(4)[OF N, of hid] by auto
    have res: "\<exists>st'. CM_CreateIndex n tn cn (Some hid) c bp = Some (b2, c, st') \<and> \<not> status_ok st'"
      using eq P D False by (cases "status_ok cl") auto
    have "\<not> cat_fits (entered ?m c) \<and> outside_kept (hi_pages hid buckets) bp b2 \<and>
        free_pages (pool_disk b2) = free_pages (pool_disk bp) \<union> set (hi_pages hid buckets)" if h: "healthy bp"
    proof -
      have nf: "\<not> cat_fits (entered ?m c)" using S False h by (auto simp: persisted_def)
      then obtain e where "SerializeCatalog (cat_tables (entered ?m c)) (cat_indexes (entered ?m c)) = Inl (OutOfMemory e)"
        using SerializeCatalog_fits[of "entered ?m c"] by auto
      then have "b = bp" using P assms(2) by (simp add: CM_Persist_def)
      then show ?thesis using HI_Destroy_spec[OF assms(3) h] D nf by auto
    qed
    then show ?thesis using res True by auto
  qed
qed

theorem catalog_create_index_witness:
  "\<exists>bp hid b. CM_CreateIndex ''i'' ''t'' ''a'' (Some hid) table_catalog bp = Some (b, index_catalog hid, Status_OK) \<and>
     CM_GetIndex ''t'' ''a'' (index_catalog hid) = Some hid"
proof -
  obtain bp hid where h: "hi_state bp hid [[], []]" "healthy bp" "is_i32 hid" "1 \<le> hid" using example_index_page by blast
  note C = catalog_create_index[OF table_catalog_wf table_catalog_simps(4) h(1,3), of "''i''" "''t''" "''a''"]
  then obtain b c' st where r: "CM_CreateIndex ''i'' ''t'' ''a'' (Some hid) table_catalog bp = Some (b, c', st)"
    by (auto split: option.splits)
  have "status_ok st"
    using C r h(2) index_accepted_example index_catalog_facts(2)[OF h(4,3)] by (auto simp: index_catalog_def split: if_splits)
  moreover have "status_ok st \<Longrightarrow> st = Status_OK"
    using r CM_CreateIndex_eq[OF index_accepted_example, of hid bp] by (auto split: prod.splits if_splits option.splits)
  ultimately show ?thesis using C r by (auto simp: index_catalog_def)
qed

section \<open>A catalog opened later\<close>

text \<open>
  C13. What the catalog writes it reads back. After a successful \<^verbatim>\<open>Flush\<close> a new catalog manager on any
  pool without pins and failures that presents on page 0 what the flush left on the disk, the same pool or one
  opened on the file later, loads without an error the same tables, indexes and index names, if the
  headers of the indexes are there; loading changes no page.
\<close>

theorem catalog_reopen:
  assumes "cat_wf c" "has_bpm c" "pool_ok {} bp" "CM_Flush c bp = (b, c1, st)" "status_ok st"
    "healthy bp'" "pool_page bp' 0 = disk_page (pool_disk b) 0" "indexes_open c bp'"
  shows "\<exists>b' c'. new_CatalogManager True bp' = (b', c') \<and> read_only bp' b' \<and>
    initialization_status c' = Status_OK \<and> same_catalog c c' \<and> cat_wf c'"
proof -
  have "CM_Persist c bp = (b, st)" using assms(4) by (auto simp: CM_Flush_def split: prod.splits)
  from CM_Persist_spec[OF assms(2,3) this] have S: "persisted c bp b st" .
  show ?thesis
    using CM_Load_complete[OF assms(1) disk_persisted(3)[OF S assms(5)] assms(6) _ assms(8)]
      disk_persisted(2)[OF S assms(5)] assms(7) by auto
qed

theorem catalog_reopen_witness:
  "\<exists>bp hid b c'. new_CatalogManager True bp = (b, c') \<and> CM_GetTableSchema ''t'' c' = Inr example_schema \<and>
     CM_GetIndex ''t'' ''a'' c' = Some hid"
proof -
  obtain bp hid where h: "hi_state bp hid [[], []]" "healthy bp" "pool_ok {} bp" "is_i32 hid" "1 \<le> hid"
    using example_index_page by blast
  let ?c = "index_catalog hid"
  note F = index_catalog_facts[OF h(5,4)]
  obtain b st where P: "CM_Persist ?c bp = (b, st)" by (cases "CM_Persist ?c bp")
  have S: "persisted ?c bp b st" by (rule CM_Persist_spec[OF F(3) h(3) P])
  then have k: "status_ok st" "pool_page b 0 = disk_page (pool_disk b) 0" "pool_ok {} b" "keeps_health bp b"
    "pins b = pins bp" "outside_kept [0] bp b" "free_pages (pool_disk b) = free_pages (pool_disk bp)"
    using h(2) F(2) by (auto simp: persisted_def outside_kept_def split: if_splits)
  have hb: "healthy b" by (rule healthy_kept[OF h(2) k(4,3,5)])
  have "hi_state b hid [[], []]" by (rule hi_state_kept[OF h(1) k(3,6)])
  then have io: "indexes_open ?c b" using F(4) by (auto simp: indexes_open_def index_data_def)
  obtain c1 where fl: "CM_Flush ?c bp = (b, c1, st)" using P by (simp add: CM_Flush_def)
  obtain b' c' where r: "new_CatalogManager True b = (b', c')" "initialization_status c' = Status_OK" "same_catalog ?c c'"
    using catalog_reopen[OF F(1,3) h(3) fl k(1) hb k(2) io] by blast
  then have "CM_GetTableSchema ''t'' c' = Inr example_schema" "CM_GetIndex ''t'' ''a'' c' = Some hid"
    using F(4,6) table_catalog_simps(1)
    by (simp_all add: CM_GetTableSchema_def CM_GetIndex_def same_catalog_def MakeIndexKey_def index_data_def)
  then show ?thesis using r(1) by blast
qed

text \<open>
  C16. Loading is safe on pages of any contents: a catalog that \<^verbatim>\<open>Load\<close> accepts has named tables with
  valid first pages and named columns, every index refers to a column of a table of the catalog, and
  keys and index names are unique and belong to each other.
\<close>

theorem catalog_load_safe:
  assumes "CM_Load c bp = (b, c')" "status_ok (initialization_status c')"
  shows "cat_wf c' \<and> initialization_status c' = Status_OK"
  using CM_Load_sound[OF assms(1)] assms(2) by blast

theorem catalog_load_safe_witness:
  "\<exists>bp b c'. CM_Load empty_catalog bp = (b, c') \<and> cat_wf c' \<and> status_ok (initialization_status c')"
proof -
  obtain d bp where b: "pool_ok {} bp" "pool_disk bp = d" "disk_io d = []" "pins bp = (\<lambda>_. 0)" "length (pages bp) = 1"
    "page_table bp = Map.empty" "disk_page d 0 = Some zero_page" using example_pool[of 1] by auto
  then have h: "healthy bp" "pool_page bp 0 = Some zero_page" by (auto simp: healthy_def pool_page_def)
  obtain b1 f b2 where l: "FetchPage 0 bp = (b1, Some f)" "UnpinPage 0 False b1 = (b2, True)"
    "page_data (frame_of b1 f) = zero_page"
    using healthy_look[OF h(1) header_page_used[OF b(1)]] h(2) by auto
  have "ParseCatalog zero_page = ([], Inr None)"
    by (simp add: ParseCatalog_def CM_ReadValue_def zero_page_def mem_read_replicate layout_simps)
  then obtain c' where r: "CM_Load empty_catalog bp = (b2, c')" "status_ok (initialization_status c')"
    using l by (simp add: CM_Load_eq)
  then show ?thesis using catalog_load_safe[OF r] by blast
qed

section \<open>The indexes of a table\<close>

definition index_info :: "index_metadata \<Rightarrow> catalog_index_info" where
  "index_info m = CatalogIndexInfo (im_name m) (im_table_name m) (im_column_name m) (im_header_page_id m)"

lemma table_indexes_exact:
  assumes "cat_wf c" "CM_GetTableIndexes tn c = Inr infos"
  shows "sorted_wrt (<) (map ci_index_name infos) \<and>
    set infos = {index_info m |k m. map_of (cat_indexes c) k = Some m \<and> im_table_name m = tn} \<and>
    list_all (\<lambda>i. CM_GetIndex tn (ci_column_name i) c = Some (ci_header_page_id i)) infos"
proof -
  let ?ms = "filter (\<lambda>m. im_table_name m = tn) (map snd (cat_indexes c))"
  have d: "distinct (map fst (cat_indexes c))" using assms(1) by (simp add: cat_wf_def)
  have ok: "status_ok (initialization_status c)" "infos = sort_key ci_index_name (map index_info ?ms)"
    using assms(2) by (auto simp: CM_GetTableIndexes_def index_info_def[abs_def] split: if_splits)
  have ms: "m \<in> set ?ms \<longleftrightarrow> (index_key m, m) \<in> set (cat_indexes c) \<and> im_table_name m = tn" for m
    using cat_wf_entry(1)[OF assms(1)] by force
  have S: "set infos = index_info ` {m. (index_key m, m) \<in> set (cat_indexes c) \<and> im_table_name m = tn}"
    using ok(2) ms by auto
  have names: "im_name m = im_name m' \<Longrightarrow> m = m'"
    if "(k, m) \<in> set (cat_indexes c)" "(k', m') \<in> set (cat_indexes c)" for k m k' m'
    using cat_wf_entry[OF assms(1) that(1)] cat_wf_entry[OF assms(1) that(2)] d that
    by (auto simp: index_wf_def dest: eq_key_imp_eq_value)
  have "inj_on snd (set (cat_indexes c))"
    by (rule inj_onI) (metis cat_wf_entry(1)[OF assms(1)] prod.collapse)
  then have "distinct (map snd (cat_indexes c))" using d by (simp add: distinct_map)
  then have "distinct (map im_name ?ms)" using names by (auto simp: distinct_map inj_on_def)
  moreover have "mset (map ci_index_name infos) = image_mset (ci_index_name \<circ> index_info) (mset ?ms)"
    unfolding ok(2) by (simp only: mset_map mset_sort multiset.map_comp)
  then have "mset (map ci_index_name infos) = mset (map im_name ?ms)"
    by (simp only: mset_map) (simp add: index_info_def o_def)
  ultimately have "distinct (map ci_index_name infos)" using mset_eq_imp_distinct_iff by blast
  moreover have "sorted (map ci_index_name infos)" using ok(2) by simp
  ultimately have "sorted_wrt (<) (map ci_index_name infos)" by (simp add: strict_sorted_iff)
  moreover have "set infos = {index_info m |k m. map_of (cat_indexes c) k = Some m \<and> im_table_name m = tn}"
    unfolding S map_of_eq_Some_iff[OF d] using cat_wf_entry(1)[OF assms(1)] by blast
  moreover have "list_all (\<lambda>i. CM_GetIndex tn (ci_column_name i) c = Some (ci_header_page_id i)) infos"
    unfolding list_all_iff S
  proof
    fix i assume "i \<in> index_info ` {m. (index_key m, m) \<in> set (cat_indexes c) \<and> im_table_name m = tn}"
    then obtain m where m: "i = index_info m" "(index_key m, m) \<in> set (cat_indexes c)" "im_table_name m = tn" by blast
    then have "map_of (cat_indexes c) (index_key m) = Some m" using d by simp
    then show "CM_GetIndex tn (ci_column_name i) c = Some (ci_header_page_id i)"
      using m ok(1) cat_wf_entry(2)[OF assms(1) m(2)]
      by (auto simp: CM_GetIndex_def index_info_def index_key_def index_wf_def)
  qed
  ultimately show ?thesis by blast
qed

text \<open>
  The list of a table's indexes names exactly the indexes of the catalog on that table, in strictly
  ascending order of their names, each with the header page of the object \<^verbatim>\<open>GetIndex\<close> returns.
\<close>

theorem catalog_table_indexes:
  assumes "cat_wf c" "CM_GetTableIndexes tn c = Inr infos"
  shows "sorted_wrt (<) (map ci_index_name infos) \<and>
    set infos = {index_info m |k m. map_of (cat_indexes c) k = Some m \<and> im_table_name m = tn} \<and>
    list_all (\<lambda>i. CM_GetIndex tn (ci_column_name i) c = Some (ci_header_page_id i)) infos"
  by (rule table_indexes_exact[OF assms])

theorem catalog_table_indexes_witness:
  "CM_GetTableIndexes ''t'' (index_catalog 7) = Inr [CatalogIndexInfo ''i'' ''t'' ''a'' 7] \<and>
   CM_GetIndex ''t'' ''a'' (index_catalog 7) = Some 7"
proof -
  have h: "1 \<le> (7::int)" "is_i32 7" by (simp_all add: is_i32_def)
  note F = index_catalog_facts[OF h]
  have g: "CM_GetTableIndexes ''t'' (index_catalog 7) = Inr [CatalogIndexInfo ''i'' ''t'' ''a'' 7]"
    using F(4,5,6) table_catalog_simps(1) by (simp add: CM_GetTableIndexes_def index_data_def)
  show ?thesis using catalog_table_indexes[OF F(1) g] g by simp
qed

end
