(* ===== verification/Table_Storage.thy ===== *)
theory Table_Storage
  imports Catalog Heap_File Index_Key
begin

text \<open>
  The table storage (storage/table_storage.h, storage/table_storage.cpp): the layer that keeps the
  records of a table and its hash indexes in step, and undoes what it has done when a step fails. The
  class holds two pointers: whether \<^verbatim>\<open>bpm_\<close> is there, and the catalog, which it only reads. An
  operation returns \<open>None\<close> if a walk it starts never ends or the constructor of \<^verbatim>\<open>HeapFile\<close> throws;
  neither happens on the tables of a catalog. Null output pointers have no counterpart.
\<close>

record table_storage =
  ts_bpm :: bool
  ts_catalog :: "catalog option"

record index_binding =
  ib_index_name :: string
  ib_column_name :: string
  ib_column_index :: nat
  ib_index :: page_id

text \<open>\<open>ek_binding\<close> is the binding pointed to.\<close>

record encoded_index_key =
  ek_binding :: index_binding
  ek_key :: "string option"

section \<open>Helpers\<close>

definition FindColumnIndex :: "schema \<Rightarrow> string \<Rightarrow> nat result" where
  "FindColumnIndex columns column_name =
     (case find (\<lambda>index. col_name (columns ! index) = column_name) [0..<length columns] of
        Some index \<Rightarrow> Inr index
      | None \<Rightarrow> Inl (NotFound (''Indexed column does not exist in table schema: '' @ column_name)))"

definition SameOptionalKey :: "string option \<Rightarrow> string option \<Rightarrow> bool" where
  "SameOptionalKey left right =
     (if (left \<noteq> None) \<noteq> (right \<noteq> None) then False
      else if left = None then True
      else the left = the right)"

definition CombineFailure :: "status \<Rightarrow> status \<Rightarrow> string \<Rightarrow> status" where
  "CombineFailure primary rollback ctxt =
     (if status_ok rollback then primary
      else IOError (ctxt @ ''; original error: '' @ status_message primary @
             ''; rollback error: '' @ status_message rollback))"

section \<open>The table\<close>

definition ValidateDependencies :: "table_storage \<Rightarrow> status" where
  "ValidateDependencies ts =
     (if \<not> ts_bpm ts \<or> ts_catalog ts = None
      then InvalidArgument ''TableStorage dependencies cannot be null''
      else if \<not> status_ok (initialization_status (the (ts_catalog ts)))
      then initialization_status (the (ts_catalog ts))
      else Status_OK)"

definition BindIndex ::
  "catalog \<Rightarrow> string \<Rightarrow> schema \<Rightarrow> catalog_index_info \<Rightarrow> index_binding list \<Rightarrow> index_binding list result" where
  "BindIndex c table_name schema metadata bindings = (case FindColumnIndex schema (ci_column_name metadata) of
     Inl st \<Rightarrow> Inl st
   | Inr column_index \<Rightarrow> (case CM_GetIndex table_name (ci_column_name metadata) c of
        None \<Rightarrow> Inl (IOError (''Catalog index metadata has no open HashIndex: '' @ ci_index_name metadata))
      | Some index \<Rightarrow> Inr (bindings @ [\<lparr>ib_index_name = ci_index_name metadata,
            ib_column_name = ci_column_name metadata, ib_column_index = column_index, ib_index = index\<rparr>])))"

definition LoadTable :: "table_storage \<Rightarrow> string \<Rightarrow> (schema \<times> page_id \<times> index_binding list) result" where
  "LoadTable ts table_name =
     (if \<not> status_ok (ValidateDependencies ts) then Inl (ValidateDependencies ts)
      else if table_name = [] then Inl (InvalidArgument ''Invalid TableStorage table context output'')
      else
        let c = the (ts_catalog ts)
        in case CM_GetTableSchema table_name c of
             Inl st \<Rightarrow> Inl st
           | Inr schema \<Rightarrow> (case CM_GetTableFirstPageId table_name c of
                Inl st \<Rightarrow> Inl st
              | Inr first_page_id \<Rightarrow> (case CM_GetTableIndexes table_name c of
                   Inl st \<Rightarrow> Inl st
                 | Inr index_metadata \<Rightarrow> (case for_each (BindIndex c table_name schema) index_metadata [] of
                      Inl st \<Rightarrow> Inl st
                    | Inr bindings \<Rightarrow> Inr (schema, first_page_id, bindings)))))"

text \<open>\<open>Inl\<close> of the constructor is its exception.\<close>

definition ValidateRecordBelongsToTable :: "page_id \<Rightarrow> record_id \<Rightarrow> pool \<Rightarrow> (pool \<times> status) option" where
  "ValidateRecordBelongsToTable first_page_id rid bp =
     (if rid_page rid \<le> 0 then Some (bp, InvalidArgument ''RecordID contains an invalid page id'')
      else (case new_HeapFile first_page_id of
          Inl _ \<Rightarrow> None
        | Inr heap_file \<Rightarrow> (case HF_ContainsPage heap_file (rid_page rid) bp of
              None \<Rightarrow> None
            | Some (bp, Inl st) \<Rightarrow> Some (bp, st)
            | Some (bp, Inr False) \<Rightarrow>
                Some (bp, InvalidArgument ''RecordID does not belong to the requested table'')
            | Some (bp, Inr True) \<Rightarrow> Some (bp, Status_OK))))"

section \<open>Keys\<close>

definition EncodeIndexKey ::
  "schema \<Rightarrow> db_record \<Rightarrow> index_binding \<Rightarrow> encoded_index_key list \<Rightarrow> encoded_index_key list result" where
  "EncodeIndexKey schema record binding keys = (case GetValue schema record (ib_column_index binding) of
     Inl st \<Rightarrow> Inl st
   | Inr value \<Rightarrow>
       if value \<noteq> FNull
       then (case Encode value of
           Inl st \<Rightarrow> Inl st
         | Inr key \<Rightarrow> Inr (keys @ [\<lparr>ek_binding = binding, ek_key = Some key\<rparr>]))
       else Inr (keys @ [\<lparr>ek_binding = binding, ek_key = None\<rparr>]))"

definition EncodeIndexKeys :: "schema \<Rightarrow> db_record \<Rightarrow> index_binding list \<Rightarrow> encoded_index_key list result" where
  "EncodeIndexKeys schema record bindings = for_each (EncodeIndexKey schema record) bindings []"

text \<open>\<^verbatim>\<open>inserted_count\<close> counts down to the entries to remove.\<close>

fun RollbackInsertedIndexEntries ::
  "record_id \<Rightarrow> encoded_index_key list \<Rightarrow> nat \<Rightarrow> pool \<Rightarrow> (pool \<times> status) option" where
  "RollbackInsertedIndexEntries rid keys 0 bp = Some (bp, Status_OK)"
| "RollbackInsertedIndexEntries rid keys (Suc inserted_count) bp = (case ek_key (keys ! inserted_count) of
     None \<Rightarrow> RollbackInsertedIndexEntries rid keys inserted_count bp
   | Some key \<Rightarrow> (case HI_RemovePair (ib_index (ek_binding (keys ! inserted_count))) key rid bp of
        None \<Rightarrow> None
      | Some (bp, st) \<Rightarrow>
          if \<not> status_ok st \<and> status_code st \<noteq> NOT_FOUND then Some (bp, st)
          else RollbackInsertedIndexEntries rid keys inserted_count bp))"

text \<open>The positions from the last to the first: the list is walked backwards.\<close>

fun ReinsertEntries :: "record_id \<Rightarrow> encoded_index_key list \<Rightarrow> nat list \<Rightarrow> pool \<Rightarrow> (pool \<times> status) option" where
  "ReinsertEntries rid keys [] bp = Some (bp, Status_OK)"
| "ReinsertEntries rid keys (position # positions) bp = (case ek_key (keys ! position) of
     None \<Rightarrow> ReinsertEntries rid keys positions bp
   | Some key \<Rightarrow> (case HI_Insert (ib_index (ek_binding (keys ! position))) key rid bp of
        None \<Rightarrow> None
      | Some (bp, st) \<Rightarrow>
          if \<not> status_ok st then Some (bp, st) else ReinsertEntries rid keys positions bp))"

definition RollbackRemovedIndexEntries ::
  "record_id \<Rightarrow> encoded_index_key list \<Rightarrow> nat list \<Rightarrow> pool \<Rightarrow> (pool \<times> status) option" where
  "RollbackRemovedIndexEntries rid keys removed_positions bp =
     ReinsertEntries rid keys (rev removed_positions) bp"

section \<open>Insertion\<close>

text \<open>The loop over the keys; the counter is \<^verbatim>\<open>inserted_count\<close> when it ends.\<close>

fun InsertIndexEntries ::
  "record_id \<Rightarrow> encoded_index_key list \<Rightarrow> nat \<Rightarrow> pool \<Rightarrow> (pool \<times> nat \<times> status) option" where
  "InsertIndexEntries rid [] inserted_count bp = Some (bp, inserted_count, Status_OK)"
| "InsertIndexEntries rid (encoded # rest) inserted_count bp = (case ek_key encoded of
     None \<Rightarrow> InsertIndexEntries rid rest (inserted_count + 1) bp
   | Some key \<Rightarrow> (case HI_Insert (ib_index (ek_binding encoded)) key rid bp of
        None \<Rightarrow> None
      | Some (bp, st) \<Rightarrow>
          if \<not> status_ok st then Some (bp, inserted_count, st)
          else InsertIndexEntries rid rest (inserted_count + 1) bp))"

text \<open>From the point where the heap file has taken the record.\<close>

definition InsertIndexes :: "record_id \<Rightarrow> encoded_index_key list \<Rightarrow> pool \<Rightarrow> (pool \<times> record_id result) option" where
  "InsertIndexes inserted_rid keys bp = (case InsertIndexEntries inserted_rid keys 0 bp of
     None \<Rightarrow> None
   | Some (bp, inserted_count, st) \<Rightarrow>
       if status_ok st then Some (bp, Inr inserted_rid)
       else (case RollbackInsertedIndexEntries inserted_rid keys inserted_count bp of
           None \<Rightarrow> None
         | Some (bp, index_rollback) \<Rightarrow>
             (case HF_DeleteRecord inserted_rid bp of (bp, heap_rollback) \<Rightarrow>
                Some (bp, Inl
                  (if \<not> status_ok index_rollback
                   then CombineFailure st index_rollback ''Insert index rollback failed''
                   else if \<not> status_ok heap_rollback
                   then CombineFailure st heap_rollback ''Insert HeapFile rollback failed''
                   else st)))))"

definition TS_InsertRecord :: "table_storage \<Rightarrow> string \<Rightarrow> field_value list \<Rightarrow> pool \<Rightarrow> (pool \<times> record_id result) option" where
  "TS_InsertRecord ts table_name values bp = (case LoadTable ts table_name of
     Inl st \<Rightarrow> Some (bp, Inl st)
   | Inr (schema, first_page_id, bindings) \<Rightarrow> (case Serialize schema values (Some empty_record) of
        Inl st \<Rightarrow> Some (bp, Inl st)
      | Inr record \<Rightarrow> (case EncodeIndexKeys schema record bindings of
           Inl st \<Rightarrow> Some (bp, Inl st)
         | Inr keys \<Rightarrow> (case new_HeapFile first_page_id of
              Inl _ \<Rightarrow> None
            | Inr heap_file \<Rightarrow> (case HF_InsertRecord heap_file record bp of
                 None \<Rightarrow> None
               | Some (bp, Inl st) \<Rightarrow> Some (bp, Inl st)
               | Some (bp, Inr inserted_rid) \<Rightarrow> InsertIndexes inserted_rid keys bp)))))"

section \<open>Reading\<close>

definition TS_GetRecord :: "table_storage \<Rightarrow> string \<Rightarrow> record_id \<Rightarrow> pool \<Rightarrow> (pool \<times> db_record result) option" where
  "TS_GetRecord ts table_name rid bp = (case LoadTable ts table_name of
     Inl st \<Rightarrow> Some (bp, Inl st)
   | Inr (schema, first_page_id, bindings) \<Rightarrow> (case ValidateRecordBelongsToTable first_page_id rid bp of
        None \<Rightarrow> None
      | Some (bp, st) \<Rightarrow>
          if \<not> status_ok st then Some (bp, Inl st)
          else (case new_HeapFile first_page_id of
              Inl _ \<Rightarrow> None
            | Inr heap_file \<Rightarrow> Some (HF_GetRecord rid bp))))"

section \<open>Update\<close>

record applied_change =
  ac_position :: nat
  ac_removed_old :: bool
  ac_inserted_new :: bool

text \<open>The change of one index: the key removed, the key entered, and the status the loop goes on with.
  The second half comes first; when it fails, the removed key is entered again.\<close>

definition EnterNewKey ::
  "record_id \<Rightarrow> index_binding \<Rightarrow> string option \<Rightarrow> string option \<Rightarrow> bool \<Rightarrow> status \<Rightarrow> pool \<Rightarrow>
   (pool \<times> bool \<times> bool \<times> status) option" where
  "EnterNewKey rid binding old_key new_key removed_old st bp = (case new_key of
     None \<Rightarrow> Some (bp, removed_old, False, st)
   | Some key \<Rightarrow> (case HI_Insert (ib_index binding) key rid bp of
        None \<Rightarrow> None
      | Some (bp, st) \<Rightarrow>
          if status_ok st then Some (bp, removed_old, True, st)
          else if removed_old
          then map_option (\<lambda>(bp, local_rollback).
              (bp, removed_old, False,
               if \<not> status_ok local_rollback
               then CombineFailure st local_rollback ''Update local index rollback failed'' else st))
            (HI_Insert (ib_index binding) (the old_key) rid bp)
          else Some (bp, removed_old, False, st)))"

definition ChangeEntry ::
  "record_id \<Rightarrow> index_binding \<Rightarrow> string option \<Rightarrow> string option \<Rightarrow> pool \<Rightarrow> (pool \<times> bool \<times> bool \<times> status) option" where
  "ChangeEntry rid binding old_key new_key bp = (case old_key of
     None \<Rightarrow> EnterNewKey rid binding old_key new_key False Status_OK bp
   | Some key \<Rightarrow> (case HI_RemovePair (ib_index binding) key rid bp of
        None \<Rightarrow> None
      | Some (bp, st) \<Rightarrow>
          if \<not> status_ok st then Some (bp, False, False, st)
          else EnterNewKey rid binding old_key new_key True st bp))"

fun ChangeEntries ::
  "record_id \<Rightarrow> index_binding list \<Rightarrow> string option list \<Rightarrow> string option list \<Rightarrow> nat list \<Rightarrow>
   applied_change list \<Rightarrow> pool \<Rightarrow> (pool \<times> applied_change list \<times> status) option" where
  "ChangeEntries rid bindings old_keys new_keys [] applied bp = Some (bp, applied, Status_OK)"
| "ChangeEntries rid bindings old_keys new_keys (position # positions) applied bp =
     (if SameOptionalKey (old_keys ! position) (new_keys ! position)
      then ChangeEntries rid bindings old_keys new_keys positions applied bp
      else (case ChangeEntry rid (bindings ! position) (old_keys ! position) (new_keys ! position) bp of
          None \<Rightarrow> None
        | Some (bp, removed_old, inserted_new, st) \<Rightarrow>
            if \<not> status_ok st then Some (bp, applied, st)
            else ChangeEntries rid bindings old_keys new_keys positions
                   (applied @ [\<lparr>ac_position = position, ac_removed_old = removed_old,
                                ac_inserted_new = inserted_new\<rparr>]) bp))"

text \<open>The rollback keeps going after a failure and remembers the first. The changes are given from the
  last to the first.\<close>

definition UndoChange ::
  "record_id \<Rightarrow> index_binding list \<Rightarrow> string option list \<Rightarrow> string option list \<Rightarrow> applied_change \<Rightarrow>
   status \<Rightarrow> pool \<Rightarrow> (pool \<times> status) option" where
  "UndoChange rid bindings old_keys new_keys change rollback_status bp =
     (let position = ac_position change
      in case (if ac_inserted_new change \<and> new_keys ! position \<noteq> None
               then map_option (\<lambda>(bp, remove_status).
                   (bp, if \<not> status_ok remove_status \<and> status_code remove_status \<noteq> NOT_FOUND \<and> status_ok rollback_status
                        then remove_status else rollback_status))
                 (HI_RemovePair (ib_index (bindings ! position)) (the (new_keys ! position)) rid bp)
               else Some (bp, rollback_status)) of
           None \<Rightarrow> None
         | Some (bp, rollback_status) \<Rightarrow>
             if ac_removed_old change \<and> old_keys ! position \<noteq> None
             then map_option (\<lambda>(bp, insert_status).
                 (bp, if \<not> status_ok insert_status \<and> status_ok rollback_status then insert_status else rollback_status))
               (HI_Insert (ib_index (bindings ! position)) (the (old_keys ! position)) rid bp)
             else Some (bp, rollback_status))"

fun UndoChanges ::
  "record_id \<Rightarrow> index_binding list \<Rightarrow> string option list \<Rightarrow> string option list \<Rightarrow> applied_change list \<Rightarrow>
   status \<Rightarrow> pool \<Rightarrow> (pool \<times> status) option" where
  "UndoChanges rid bindings old_keys new_keys [] rollback_status bp = Some (bp, rollback_status)"
| "UndoChanges rid bindings old_keys new_keys (change # changes) rollback_status bp =
     (case UndoChange rid bindings old_keys new_keys change rollback_status bp of
        None \<Rightarrow> None
      | Some (bp, rollback_status) \<Rightarrow> UndoChanges rid bindings old_keys new_keys changes rollback_status bp)"

text \<open>From the point where the heap file has taken the new record.\<close>

definition UpdateIndexes ::
  "record_id \<Rightarrow> index_binding list \<Rightarrow> string option list \<Rightarrow> string option list \<Rightarrow> db_record \<Rightarrow> pool \<Rightarrow>
   (pool \<times> status) option" where
  "UpdateIndexes rid bindings old_keys new_keys old_record bp =
     (case ChangeEntries rid bindings old_keys new_keys [0..<length bindings] [] bp of
        None \<Rightarrow> None
      | Some (bp, applied, st) \<Rightarrow>
          if status_ok st then Some (bp, Status_OK)
          else (case UndoChanges rid bindings old_keys new_keys (rev applied) Status_OK bp of
              None \<Rightarrow> None
            | Some (bp, rollback_status) \<Rightarrow>
                (case HF_UpdateRecord (SetRecordID old_record rid) bp of (bp, heap_rollback) \<Rightarrow>
                   Some (bp,
                     if \<not> status_ok rollback_status
                     then CombineFailure st rollback_status ''Update index rollback failed''
                     else if \<not> status_ok heap_rollback
                     then CombineFailure st heap_rollback ''Update HeapFile rollback failed''
                     else st))))"

definition TS_UpdateRecord ::
  "table_storage \<Rightarrow> string \<Rightarrow> record_id \<Rightarrow> field_value list \<Rightarrow> pool \<Rightarrow> (pool \<times> status) option" where
  "TS_UpdateRecord ts table_name rid values bp = (case LoadTable ts table_name of
     Inl st \<Rightarrow> Some (bp, st)
   | Inr (schema, first_page_id, bindings) \<Rightarrow> (case ValidateRecordBelongsToTable first_page_id rid bp of
        None \<Rightarrow> None
      | Some (bp, st) \<Rightarrow>
          if \<not> status_ok st then Some (bp, st)
          else (case new_HeapFile first_page_id of
              Inl _ \<Rightarrow> None
            | Inr heap_file \<Rightarrow> (case HF_GetRecord rid bp of
                  (bp, Inl st) \<Rightarrow> Some (bp, st)
                | (bp, Inr old_record) \<Rightarrow> (case Serialize schema values (Some empty_record) of
                      Inl st \<Rightarrow> Some (bp, st)
                    | Inr new_record \<Rightarrow>
                        let new_record = SetRecordID new_record rid
                        in case EncodeIndexKeys schema old_record bindings of
                             Inl st \<Rightarrow> Some (bp, st)
                           | Inr old_keys \<Rightarrow> (case EncodeIndexKeys schema new_record bindings of
                                Inl st \<Rightarrow> Some (bp, st)
                              | Inr new_keys \<Rightarrow> (case HF_UpdateRecord new_record bp of (bp, st) \<Rightarrow>
                                   if \<not> status_ok st then Some (bp, st)
                                   else UpdateIndexes rid bindings (map ek_key old_keys) (map ek_key new_keys)
                                          old_record bp)))))))"

section \<open>Deletion\<close>

fun RemoveIndexEntries ::
  "record_id \<Rightarrow> encoded_index_key list \<Rightarrow> nat list \<Rightarrow> nat list \<Rightarrow> pool \<Rightarrow> (pool \<times> nat list \<times> status) option" where
  "RemoveIndexEntries rid keys [] removed_positions bp = Some (bp, removed_positions, Status_OK)"
| "RemoveIndexEntries rid keys (position # positions) removed_positions bp = (case ek_key (keys ! position) of
     None \<Rightarrow> RemoveIndexEntries rid keys positions removed_positions bp
   | Some key \<Rightarrow> (case HI_RemovePair (ib_index (ek_binding (keys ! position))) key rid bp of
        None \<Rightarrow> None
      | Some (bp, st) \<Rightarrow>
          if \<not> status_ok st then Some (bp, removed_positions, st)
          else RemoveIndexEntries rid keys positions (removed_positions @ [position]) bp))"

text \<open>From the point where the keys of the stored record are known.\<close>

definition DeleteIndexed :: "record_id \<Rightarrow> encoded_index_key list \<Rightarrow> pool \<Rightarrow> (pool \<times> status) option" where
  "DeleteIndexed rid keys bp = (case RemoveIndexEntries rid keys [0..<length keys] [] bp of
     None \<Rightarrow> None
   | Some (bp, removed_positions, st) \<Rightarrow>
       if \<not> status_ok st
       then map_option (\<lambda>(bp, rollback). (bp, CombineFailure st rollback ''Delete index rollback failed''))
              (RollbackRemovedIndexEntries rid keys removed_positions bp)
       else (case HF_DeleteRecord rid bp of (bp, st) \<Rightarrow>
         if status_ok st then Some (bp, Status_OK)
         else map_option (\<lambda>(bp, rollback). (bp, CombineFailure st rollback ''Delete HeapFile rollback failed''))
                (RollbackRemovedIndexEntries rid keys removed_positions bp)))"

definition TS_DeleteRecord :: "table_storage \<Rightarrow> string \<Rightarrow> record_id \<Rightarrow> pool \<Rightarrow> (pool \<times> status) option" where
  "TS_DeleteRecord ts table_name rid bp = (case LoadTable ts table_name of
     Inl st \<Rightarrow> Some (bp, st)
   | Inr (schema, first_page_id, bindings) \<Rightarrow> (case ValidateRecordBelongsToTable first_page_id rid bp of
        None \<Rightarrow> None
      | Some (bp, st) \<Rightarrow>
          if \<not> status_ok st then Some (bp, st)
          else (case new_HeapFile first_page_id of
              Inl _ \<Rightarrow> None
            | Inr heap_file \<Rightarrow> (case HF_GetRecord rid bp of
                  (bp, Inl st) \<Rightarrow> Some (bp, st)
                | (bp, Inr old_record) \<Rightarrow> (case EncodeIndexKeys schema old_record bindings of
                      Inl st \<Rightarrow> Some (bp, st)
                    | Inr keys \<Rightarrow> DeleteIndexed rid keys bp)))))"

end
