(* ===== verification/Page_Growth.thy ===== *)
theory Page_Growth
  imports Page_Client Heap_File Hash_Index_Lifecycle
begin

text \<open>
  How far an operation can raise the page identifiers in use, whatever the pages contain and whatever
  fails: an insertion into a heap file or into a hash index by one at most, every other operation not at
  all. Identifiers are 32-bit numbers, so this is what keeps them in range along a sequence of operations.
\<close>

definition fits :: "page_id \<Rightarrow> pool \<Rightarrow> bool" where
  "fits N bp \<longleftrightarrow> bounded N bp \<and> 0 \<le> num_pages (pool_disk bp) \<and> finite (free_pages (pool_disk bp)) \<and>
     (\<forall>p \<in> free_pages (pool_disk bp). 0 \<le> p \<and> p < N)"

definition adds :: "nat \<Rightarrow> pool \<Rightarrow> pool \<Rightarrow> bool" where
  "adds n bp b \<longleftrightarrow> (\<forall>N. fits N bp \<longrightarrow> fits (N + int n) b)"

text \<open>Room for \<open>n\<close> more pages with identifiers of 32 bits.\<close>

definition room :: "nat \<Rightarrow> pool \<Rightarrow> bool" where
  "room n bp \<longleftrightarrow> fits (2147483647 - int n) bp"

lemma bounded_mono: "bounded M b \<Longrightarrow> M \<le> N \<Longrightarrow> bounded N b"
  by (fastforce simp: bounded_def)

lemma fits_mono: "fits M b \<Longrightarrow> M \<le> N \<Longrightarrow> fits N b"
  by (fastforce simp: fits_def bounded_def)

lemma adds_refl [simp]: "adds n bp bp"
  by (auto simp: adds_def intro: fits_mono)

lemma adds_trans: "adds m a b \<Longrightarrow> adds n b c \<Longrightarrow> adds (m + n) a c"
  by (fastforce simp: adds_def add.assoc)

lemma adds_mono: "adds m a b \<Longrightarrow> m \<le> n \<Longrightarrow> adds n a b"
  by (fastforce simp: adds_def intro: fits_mono)

lemma adds_0: "adds n a b \<Longrightarrow> adds 0 b c \<Longrightarrow> adds n a c" "adds 0 a b \<Longrightarrow> adds n b c \<Longrightarrow> adds n a c"
  by (simp_all add: adds_def)

lemma room_adds: "room (n + m) bp \<Longrightarrow> adds n bp b \<Longrightarrow> room m b"
  using adds_def room_def by (fastforce simp: algebra_simps)

lemma room_mono: "room n bp \<Longrightarrow> m \<le> n \<Longrightarrow> room m bp"
  by (auto simp: room_def intro: fits_mono)

lemma room_num_pages: "room n bp \<Longrightarrow> num_pages (pool_disk bp) < 2147483648"
  by (simp add: room_def fits_def bounded_def)

section \<open>Writes keep the page's identifier\<close>

named_theorems pid_kept \<open>an operation on a page leaves its identifier alone\<close>

lemma RewriteRecords_pid: "RewriteRecords pg n rs us = Inr pg' \<Longrightarrow> page_pid pg' = page_pid pg"
  by (auto simp: RewriteRecords_def Let_def split: if_splits option.splits sum.splits prod.splits)

lemma slotted_pid [pid_kept]:
  "SP_Init (Some pg) = Inr pg' \<Longrightarrow> page_pid pg' = page_pid pg"
  "EnsureInit pg = Inr pg' \<Longrightarrow> page_pid pg' = page_pid pg"
  "SP_SetNextPageId (Some pg) n = Inr pg' \<Longrightarrow> page_pid pg' = page_pid pg"
  "SP_InsertRecord (Some pg) r = Inr (pg', s) \<Longrightarrow> page_pid pg' = page_pid pg"
  "SP_UpdateRecord (Some pg) s r = Inr pg' \<Longrightarrow> page_pid pg' = page_pid pg"
  "SP_DeleteRecord (Some pg) s = Inr pg' \<Longrightarrow> page_pid pg' = page_pid pg"
  by (auto simp: EnsureInit_def SP_Init_def SP_SetNextPageId_def SP_InsertRecord_def SP_UpdateRecord_def
      SP_DeleteRecord_def Let_def dest: RewriteRecords_pid split: if_splits option.splits sum.splits prod.splits)

lemma bucket_pid [pid_kept]:
  "BK_Init pg = Inr pg' \<Longrightarrow> page_pid pg' = page_pid pg"
  "BK_SetOverflowPageId n pg = Inr pg' \<Longrightarrow> page_pid pg' = page_pid pg"
  "WriteEntry i key rid pg = Inr pg' \<Longrightarrow> page_pid pg' = page_pid pg"
  "HIH_SetBucketPageId i n pg = Inr pg' \<Longrightarrow> page_pid pg' = page_pid pg"
  "LinkOverflow n pg = Inr pg' \<Longrightarrow> page_pid pg' = page_pid pg"
  "LinkPrimary i n pg = Inr pg' \<Longrightarrow> page_pid pg' = page_pid pg"
  by (auto simp: BK_Init_def BK_SetOverflowPageId_def WriteEntry_def HIH_SetBucketPageId_def LinkOverflow_def
      LinkPrimary_def Let_def split: if_splits option.splits sum.splits prod.splits)

lemma bucket_write_pid [pid_kept]:
  "BK_Insert key rid pg = Inr (pg', ok) \<Longrightarrow> page_pid pg' = page_pid pg"
  "FirstEntry key rid pg = (pg', st) \<Longrightarrow> page_pid pg' = page_pid pg"
  "BK_Remove key ro pg = (pg', st, k) \<Longrightarrow> page_pid pg' = page_pid pg"
proof -
  show i: "page_pid pg' = page_pid pg" if "BK_Insert key rid pg = Inr (pg', ok)" for pg pg' ok
    using that by (auto simp: BK_Insert_def Let_def dest: pid_kept split: if_splits sum.splits bool.splits)
  show "page_pid pg' = page_pid pg" if "FirstEntry key rid pg = (pg', st)"
    using that by (auto simp: FirstEntry_def dest!: bucket_pid(1) i split: sum.splits)
  show "page_pid pg' = page_pid pg" if "BK_Remove key ro pg = (pg', st, k)"
    using that by (rule BK_Remove_pid)
qed

section \<open>The pool\<close>

lemma pool_disk_simps [simp]:
  "pool_disk (set_frame f pg b) = pool_disk b" "pool_disk (ErasePage p b) = pool_disk b"
  "pool_disk (GiveBack f c b) = pool_disk b" "pool_disk (InstallPage p f data b) = pool_disk b"
  by (simp_all add: set_frame_def ErasePage_def GiveBack_def InstallPage_def Let_def)

lemma bounded_like:
  assumes "bounded N b" "page_pid pg = page_pid (frame_of b f)"
  shows "bounded N (set_frame f pg b)"
proof (cases "nat f < length (pages b)")
  case True
  then have "valid_frame b (int (nat f))" unfolding valid_frame_def by (intro conjI) (simp, simp only: of_nat_less_iff)
  then have "page_pid (frame_of b (int (nat f))) < N" using assms(1) unfolding bounded_def by blast
  then have "page_pid pg < N" unfolding assms(2) by (simp only: frame_of_def nat_int)
  then show ?thesis by (rule bounded_set_frame[OF assms(1)])
next
  case False
  then have "(pages b)[nat f := pg] = pages b" by (intro list_update_beyond) simp
  then have "set_frame f pg b = b" by (cases b) (simp add: set_frame_def)
  then show ?thesis using assms(1) by simp
qed

lemma adds_set_frame: "adds n bp b \<Longrightarrow> page_pid pg = page_pid (frame_of b f) \<Longrightarrow> adds n bp (set_frame f pg b)"
  unfolding adds_def fits_def pool_disk_simps using bounded_like by blast

lemma adds_put_page:
  "adds n bp b \<Longrightarrow> (\<And>pg. res = Inr pg \<Longrightarrow> page_pid pg = page_pid (frame_of b f)) \<Longrightarrow> adds n bp (put_page f res b)"
  by (cases res) (simp_all add: put_page_def adds_set_frame)

lemma stream_free:
  "stream_write p bs d = (d', r) \<Longrightarrow> free_pages d' = free_pages d"
  "stream_read p d = (d', x) \<Longrightarrow> free_pages d' = free_pages d"
  by (auto simp: stream_write_def stream_read_def Let_def consume_event_def split: io_event.splits)

lemma disk_free:
  "WritePage p bs d = (d', st) \<Longrightarrow> free_pages d' = free_pages d"
  "ReadPage p bf d = (d', x) \<Longrightarrow> free_pages d' = free_pages d"
  by (auto simp: WritePage_def ReadPage_def Let_def dest: stream_free
      split: if_splits option.splits prod.splits io_outcome.splits)

lemma TakeFrame_disk: "TakeFrame b = (b', x) \<Longrightarrow> pool_disk b' = pool_disk b"
  by (auto simp: TakeFrame_def split: list.splits prod.splits option.splits)

lemma EvictWrite_free: "EvictWrite f c b = (b', ok) \<Longrightarrow> free_pages (pool_disk b') = free_pages (pool_disk b)"
  by (auto simp: EvictWrite_def WriteFrame_def dest: disk_free split: if_splits prod.splits)

lemma FetchPage_free:
  assumes "FetchPage p bp = (b', r)"
  shows "free_pages (pool_disk b') = free_pages (pool_disk bp)"
proof (cases "p < 0 \<or> page_table bp p \<noteq> None")
  case True
  then show ?thesis using assms by (auto simp: FetchPage_def Let_def split: if_splits)
next
  case False
  obtain b1 t where tk: "TakeFrame (bp\<lparr>buffer_misses := buffer_misses bp + 1\<rparr>) = (b1, t)"
    by (cases "TakeFrame (bp\<lparr>buffer_misses := buffer_misses bp + 1\<rparr>)")
  obtain d buf st where rd: "ReadPage p (Some zero_page) (pool_disk b1) = (d, buf, st)"
    by (cases "ReadPage p (Some zero_page) (pool_disk b1)")
  have k: "free_pages d = free_pages (pool_disk bp)" "free_pages (pool_disk b1) = free_pages (pool_disk bp)"
    using disk_free(2)[OF rd] TakeFrame_disk[OF tk] by simp_all
  have e: "free_pages (pool_disk b2) = free_pages (pool_disk bp)"
    if "EvictWrite f c (b1\<lparr>pool_disk := d, disk_reads := disk_reads b1 + 1\<rparr>) = (b2, ok)" for f c b2 ok
    using EvictWrite_free[OF that] k(1) by simp
  show ?thesis using assms False k e tk rd
    by (auto simp: FetchPage_miss_eq split: option.splits prod.splits if_splits bool.splits)
qed

lemma fits_step:
  assumes "fits N bp" "bounded N b" "keeps_health bp b" "free_pages (pool_disk b) = free_pages (pool_disk bp)"
  shows "fits N b"
  using assms by (simp add: fits_def keeps_health_def)

lemma step_adds:
  assumes "adds n bp b"
  shows "UnpinPage p d b = (b', ok) \<Longrightarrow> adds n bp b'"
    and "DeletePage p b = (b', ok) \<Longrightarrow> adds n bp b'"
    and "FetchPage p b = (b', r) \<Longrightarrow> adds n bp b'"
proof -
  have U: "fits N b'" if "fits N b" "UnpinPage p d b = (b', ok)" for N
    by (rule fits_step[OF that(1) UnpinPage_bounded[OF _ that(2)] UnpinPage_health[OF that(2)]])
      (use that in \<open>auto simp: fits_def UnpinPage_def Let_def split: option.splits if_splits\<close>)
  have F: "fits N b'" if "fits N b" "FetchPage p b = (b', r)" for N
    by (rule fits_step[OF that(1) conjunct1[OF FetchPage_bounded[OF _ that(2)]] FetchPage_health[OF that(2)] FetchPage_free[OF that(2)]])
      (use that in \<open>simp add: fits_def\<close>)
  have D: "fits N b'" if f: "fits N b" and e: "DeletePage p b = (b', ok)" for N
  proof (cases "b' = b")
    case False
    have "bounded N b'" by (rule DeletePage_bounded[OF _ e]) (use f in \<open>simp add: fits_def\<close>)
    moreover have "free_pages (pool_disk b') \<subseteq> insert p (free_pages (pool_disk b)) \<and>
        (free_pages (pool_disk b') \<noteq> free_pages (pool_disk b) \<longrightarrow> 0 \<le> p \<and> p < num_pages (pool_disk b))"
      using e stream_free(1) by (fastforce simp: DeletePage_def Let_def DeallocatePage_def
          split: if_splits option.splits prod.splits io_outcome.splits)
    ultimately show ?thesis using f DeletePage_health[OF e]
      by (auto simp: fits_def keeps_health_def bounded_def intro: finite_subset)
  qed (use f in simp)
  show "UnpinPage p d b = (b', ok) \<Longrightarrow> adds n bp b'" "DeletePage p b = (b', ok) \<Longrightarrow> adds n bp b'"
    "FetchPage p b = (b', r) \<Longrightarrow> adds n bp b'" using assms U D F by (auto simp: adds_def)
qed

lemma fst_adds:
  "adds n bp b \<Longrightarrow> adds n bp (fst (UnpinPage p d b))" "adds n bp b \<Longrightarrow> adds n bp (fst (DeletePage p b))"
  using step_adds(1,2)[of n bp b p] by (metis prod.collapse)+

lemma AllocatePage_fits:
  assumes "AllocatePage d = (d', p)" "0 \<le> num_pages d" "num_pages d \<le> N" "finite (free_pages d)"
    "\<forall>q \<in> free_pages d. 0 \<le> q \<and> q < N"
  shows "num_pages d \<le> num_pages d'" "num_pages d' \<le> N + 1" "finite (free_pages d')"
    "\<forall>q \<in> free_pages d'. 0 \<le> q \<and> q < N + 1" "p = INVALID_PAGE_ID \<or> 0 \<le> p \<and> p < N + 1"
proof -
  have m: "free_pages d \<noteq> {} \<Longrightarrow> 0 \<le> Min (free_pages d) \<and> Min (free_pages d) < N" using assms(4,5) Min_in by blast
  define d0 where "d0 = (if free_pages d \<noteq> {} then d\<lparr>free_pages := free_pages d - {Min (free_pages d)}\<rparr> else d)"
  define q where "q = (if free_pages d \<noteq> {} then Min (free_pages d) else num_pages d)"
  have "0 \<le> q \<and> q < N + 1"
  proof (cases "free_pages d = {}")
    case False
    then have "q = Min (free_pages d)" unfolding q_def by (rule if_P)
    then show ?thesis using m[OF False] by linarith
  qed (use assms(2,3) in \<open>simp add: q_def\<close>)
  then have q: "0 \<le> q" "q < N + 1" by simp_all
  have d0: "num_pages d0 = num_pages d" "finite (free_pages d0)" "\<forall>r \<in> free_pages d0. 0 \<le> r \<and> r < N"
    using assms(4,5) by (auto simp: d0_def)
  obtain d1 x where w: "stream_write q zero_page d0 = (d1, x)" by (cases "stream_write q zero_page d0")
  have d1: "num_pages d1 = num_pages d" "free_pages d1 = free_pages d0"
    using stream_kept(3)[OF w] stream_free(1)[OF w] d0(1) by simp_all
  have c: "(if free_pages d \<noteq> {} then (d\<lparr>free_pages := free_pages d - {Min (free_pages d)}\<rparr>, Min (free_pages d))
      else (d, num_pages d)) = (d0, q)" unfolding d0_def q_def by (rule if_distrib[of "\<lambda>x. x", THEN trans]) (simp split: if_split)
  have e: "AllocatePage d = (case x of
      IoDone \<Rightarrow> (if q = num_pages d1 then d1\<lparr>num_pages := num_pages d1 + 1\<rparr> else d1, q)
    | _ \<Rightarrow> (if q < num_pages d1 then d1\<lparr>free_pages := insert q (free_pages d1)\<rparr> else d1, INVALID_PAGE_ID))"
    unfolding AllocatePage_def c Let_def prod.case w ..
  have b: "\<forall>r \<in> free_pages d1. 0 \<le> r \<and> r < N + 1" using d0(3) d1(2) by force
  have r: "d' = d1 \<or> d' = d1\<lparr>num_pages := num_pages d1 + 1\<rparr> \<or> d' = d1\<lparr>free_pages := insert q (free_pages d1)\<rparr>"
    "p = q \<or> p = INVALID_PAGE_ID" using e assms(1) by (auto split: io_outcome.splits if_splits)
  show "num_pages d \<le> num_pages d'" "num_pages d' \<le> N + 1" "finite (free_pages d')"
    "\<forall>q \<in> free_pages d'. 0 \<le> q \<and> q < N + 1" using r(1) d1 d0(2) b q assms(3) by auto
  show "p = INVALID_PAGE_ID \<or> 0 \<le> p \<and> p < N + 1" using r(2) q by auto
qed

lemma NewPage_adds:
  assumes "NewPage bp = (b, r)"
  shows "adds 1 bp b"
  unfolding adds_def
proof (intro allI impI)
  fix N assume f: "fits N bp"
  obtain b1 t where tk: "TakeFrame bp = (b1, t)" by (cases "TakeFrame bp")
  have "bounded N bp" using f by (simp add: fits_def)
  from TakeFrame_bounded[OF this tk] have B1: "bounded N b1" "\<forall>f c. t = Some (f, c) \<longrightarrow> valid_frame b1 f" by blast+
  have f1: "fits N b1" using f B1(1) TakeFrame_disk[OF tk] by (simp add: fits_def)
  show "fits (N + int 1) b"
  proof (cases t)
    case None
    then show ?thesis using assms tk fits_mono[OF f1] by (simp add: NewPage_eq)
  next
    case (Some fc)
    then obtain g c where fc: "t = Some (g, c)" by (cases fc) auto
    then have v1: "valid_frame b1 g" using B1(2) by simp
    obtain b2 ok where ev: "EvictWrite g c b1 = (b2, ok)" by (cases "EvictWrite g c b1")
    have B2: "bounded N b2" "valid_frame b2 g" using EvictWrite_bounded[OF B1(1) v1 ev] v1 by (auto simp: valid_frame_def)
    have n2: "num_pages (pool_disk b1) \<le> num_pages (pool_disk b2)"
      using EvictWrite_health[OF ev keeps_health_refl] by (simp add: keeps_health_def)
    have D2: "0 \<le> num_pages (pool_disk b2)" "num_pages (pool_disk b2) \<le> N" "finite (free_pages (pool_disk b2))"
      "\<forall>q \<in> free_pages (pool_disk b2). 0 \<le> q \<and> q < N"
      using f1 B2(1) n2 EvictWrite_free[OF ev] by (simp_all add: fits_def bounded_def)
    have f2: "fits N b2" using B2(1) D2 by (simp add: fits_def)
    show ?thesis
    proof (cases ok)
      case False
      have "fits (N + 1) (b2\<lparr>replacer := Clock_Unpin g (replacer b2)\<rparr>)"
        using fits_mono[OF f2, of "N + 1"] bounded_pin_unpin(2)[of "N + 1" b2 g] by (simp add: fits_def)
      then show ?thesis using assms fc tk ev False by (simp add: NewPage_eq)
    next
      case True
      obtain d p where al: "AllocatePage (pool_disk b2) = (d, p)" by (cases "AllocatePage (pool_disk b2)")
      note A = AllocatePage_fits[OF al D2]
      define b3 where "b3 = b2\<lparr>pool_disk := d\<rparr>"
      have f3: "fits (N + 1) b3" "valid_frame b3 g" using A(1-4) D2(1) bounded_disk[OF bounded_mono[OF B2(1)], of "N + 1" d] B2(2)
        by (auto simp: fits_def b3_def valid_frame_def)
      have b3: "bounded (N + 1) b3" using f3(1) by (simp add: fits_def)
      have gb: "fits (N + 1) (GiveBack g c b3)"
        using f3 bounded_pin_unpin(2)[OF b3, of g]
        by (auto simp: GiveBack_def fits_def bounded_def frame_of_def valid_frame_def)
      have er: "fits (N + 1) (b3\<lparr>disk_writes := n\<rparr>)" "valid_frame (b3\<lparr>disk_writes := n\<rparr>) g"
        "fits (N + 1) (ErasePage q (b3\<lparr>disk_writes := n\<rparr>))" "valid_frame (ErasePage q (b3\<lparr>disk_writes := n\<rparr>)) g" for q n
        using f3 by (auto simp: fits_def ErasePage_def bounded_def frame_of_def valid_frame_def)
      have ip: "fits (N + 1) (InstallPage p g zero_page b4)" if "fits (N + 1) b4" "valid_frame b4 g" "p \<noteq> INVALID_PAGE_ID" for b4
        using InstallPage_bounded[of "N + 1" b4 g p zero_page] that A(5) by (simp add: fits_def)
      show ?thesis using assms fc tk ev True al gb er ip by (auto simp: NewPage_eq b3_def split: if_splits)
    qed
  qed
qed

text \<open>A page written in its frame and reported.\<close>

lemma write_adds:
  assumes "adds n bp b"
  shows "UnpinPage p d (set_frame f pg b) = (b2, ok) \<Longrightarrow> page_pid pg = page_pid (frame_of b f) \<Longrightarrow> adds n bp b2"
    and "UnpinPage p d (put_page f res b) = (b2, ok) \<Longrightarrow>
      (\<And>pg. res = Inr pg \<Longrightarrow> page_pid pg = page_pid (frame_of b f)) \<Longrightarrow> adds n bp b2"
  using step_adds(1)[OF adds_set_frame[OF assms]] step_adds(1)[OF adds_put_page[OF assms]] by blast+

lemma page_write_adds:
  assumes "adds n bp b"
  shows "FetchPage p b = (b1, Some f) \<Longrightarrow> UnpinPage p d (put_page f (LinkPrimary i m (frame_of b1 f)) b1) = (b2, ok) \<Longrightarrow> adds n bp b2"
    and "FetchPage p b = (b1, Some f) \<Longrightarrow> UnpinPage p d (put_page f (LinkOverflow m (frame_of b1 f)) b1) = (b2, ok) \<Longrightarrow> adds n bp b2"
    and "FetchPage p b = (b1, Some f) \<Longrightarrow> UnpinPage p d (put_page f (SP_SetNextPageId (Some (frame_of b1 f)) m) b1) = (b2, ok) \<Longrightarrow>
      adds n bp b2"
    and "FetchPage p b = (b1, Some f) \<Longrightarrow> UnpinPage p d (put_page f (SP_UpdateRecord (Some (frame_of b1 f)) s r) b1) = (b2, ok) \<Longrightarrow>
      adds n bp b2"
    and "FetchPage p b = (b1, Some f) \<Longrightarrow> UnpinPage p d (put_page f (SP_DeleteRecord (Some (frame_of b1 f)) s) b1) = (b2, ok) \<Longrightarrow>
      adds n bp b2"
  by ((rule write_adds(2)[OF step_adds(3)[OF assms]], assumption, assumption, erule pid_kept)+)

section \<open>The hash index\<close>

lemma MakeBucket_adds:
  assumes "MakeBucket m1 m2 key rid bp = (b, r)"
  shows "adds 1 bp b"
proof -
  obtain b1 x where nw: "NewPage bp = (b1, x)" by (cases "NewPage bp")
  have k1: "adds 1 bp b1" by (rule NewPage_adds[OF nw])
  have un: "adds 1 bp b3" if "UnpinPage n d (set_frame f pg b1) = (b3, ok)" "FirstEntry key rid (frame_of b1 f) = (pg, st)"
    for n d f pg st b3 ok
    by (rule write_adds(1)[OF k1 that(1) bucket_write_pid(2)[OF that(2)]])
  show ?thesis using assms nw k1
    by (auto simp: MakeBucket_def Let_def intro!: fst_adds dest: un
        split: option.splits prod.splits bool.splits if_splits)
qed

lemma CreatePrimaryBucket_adds:
  assumes "CreatePrimaryBucket hid i key rid bp = (b, st)"
  shows "adds 1 bp b"
  using assms
  by (auto simp: CreatePrimaryBucket_def Let_def intro!: fst_adds
      dest: MakeBucket_adds step_adds(3)[OF MakeBucket_adds] page_write_adds[OF MakeBucket_adds]
      split: option.splits prod.splits bool.splits if_splits sum.splits)

lemma AppendOverflowBucket_adds:
  assumes "AppendOverflowBucket p key rid bp = (b, st)"
  shows "adds 1 bp b"
  using assms
  by (auto simp: AppendOverflowBucket_def Let_def intro!: fst_adds
      dest: MakeBucket_adds step_adds(3)[OF MakeBucket_adds] page_write_adds[OF MakeBucket_adds]
      split: option.splits prod.splits bool.splits if_splits sum.splits)

lemma PlaceEntry_adds:
  assumes "PlaceEntry q l key rid bp = (b, st)"
  shows "adds 1 bp b"
proof -
  obtain b1 x where ft: "FetchPage q bp = (b1, x)" by (cases "FetchPage q bp")
  have k1: "adds 1 bp b1" by (rule step_adds(3)[OF adds_refl ft])
  have un: "adds 1 bp b3" if "UnpinPage n d (set_frame f pg b1) = (b3, ok)" "BK_Insert key rid (frame_of b1 f) = Inr (pg, y)"
    for n d f pg y b3 ok
    by (rule write_adds(1)[OF k1 that(1) bucket_write_pid(1)[OF that(2)]])
  show ?thesis using assms ft k1
    by (auto simp: PlaceEntry_def dest: un AppendOverflowBucket_adds step_adds(1)[OF k1]
        split: if_splits option.splits prod.splits sum.splits bool.splits)
qed

lemma HI_InsertLoop_adds:
  assumes "HI_InsertLoop visited c q l key rid bp = Some (b', st)"
  shows "adds 1 bp b'"
proof -
  have "case out of (bp', res) \<Rightarrow> adds 1 bp bp'" if "HI_InsertLoop visited c q l key rid bp = Some out" for out
  proof (rule HI_InsertLoop.raw_induct
      [where P = "\<lambda>visited c q l key rid bp out. case out of (bp', res) \<Rightarrow> adds 1 bp bp'", OF _ that], goal_cases)
    case (1 loop visited c q l key rid bp out)
    obtain bp' res where out: "out = (bp', res)" by (cases out)
    obtain b x where b: "FetchPage c bp = (b, x)" by (cases "FetchPage c bp")
    have k: "adds 0 bp b" by (rule step_adds(3)[OF adds_refl b])
    have k1: "adds 1 bp b" using adds_mono[OF k] by simp
    have un: "adds 0 bp b2" "adds 1 bp b2" if "UnpinPage n d b = (b2, ok)" for n d b2 ok
      using step_adds(1)[OF _ that] k k1 by blast+
    have ih: "adds 1 bp bp'" if "loop v n q' l' key rid b2 = Some (bp', res)" "adds 0 bp b2" for v n q' l' b2
      using 1(1)[OF that(1)] adds_0(2)[OF that(2)] by auto
    show "case out of (bp', res) \<Rightarrow> adds 1 bp bp'"
      using 1(2) b k k1 un ih out PlaceEntry_adds[of q l key rid bp bp' res]
      by (auto intro!: fst_adds split: if_splits option.splits prod.splits sum.splits)
  qed
  then show ?thesis using assms by fastforce
qed

lemma HI_GetBucketPageId_adds: "HI_GetBucketPageId hid key bp = (b, r) \<Longrightarrow> adds 0 bp b"
  by (auto simp: HI_GetBucketPageId_def Let_def dest: step_adds(3)[OF adds_refl]
      step_adds(1)[OF step_adds(3)[OF adds_refl]] split: if_splits prod.splits option.splits bool.splits)

lemma HI_Insert_adds:
  assumes "HI_Insert hid key rid bp = Some (b, st)"
  shows "adds 1 bp b"
proof -
  obtain b1 r where g: "HI_GetBucketPageId hid key bp = (b1, r)" by (cases "HI_GetBucketPageId hid key bp")
  note k = HI_GetBucketPageId_adds[OF g]
  have k1: "adds 1 bp b1" using adds_mono[OF k] by simp
  have c: "adds 1 bp b2" if "CreatePrimaryBucket hid i key rid b1 = (b2, st)" for i b2 st
    by (rule adds_0(2)[OF k CreatePrimaryBucket_adds[OF that]])
  have l: "adds 1 bp b2" if "HI_InsertLoop v i q l key rid b1 = Some (b2, st)" for v i q l b2 st
    by (rule adds_0(2)[OF k HI_InsertLoop_adds[OF that]])
  show ?thesis using assms g k1 c l
    by (auto simp: HI_Insert_def split: if_splits sum.splits prod.splits)
qed

lemma HI_RemoveLoop_adds:
  assumes "HI_RemoveLoop visited c key ro n bp = Some (b', st)"
  shows "adds 0 bp b'"
proof -
  have "case out of (bp', res) \<Rightarrow> adds 0 bp bp'" if "HI_RemoveLoop visited c key ro n bp = Some out" for out
  proof (rule HI_RemoveLoop.raw_induct
      [where P = "\<lambda>visited c key ro n bp out. case out of (bp', res) \<Rightarrow> adds 0 bp bp'", OF _ that], goal_cases)
    case (1 loop visited c key ro n bp out)
    obtain bp' res where out: "out = (bp', res)" by (cases out)
    obtain b x where b: "FetchPage c bp = (b, x)" by (cases "FetchPage c bp")
    have k: "adds 0 bp b" by (rule step_adds(3)[OF adds_refl b])
    have un: "adds 0 bp b2" if "UnpinPage m d (set_frame f pg b) = (b2, ok)" "BK_Remove key ro (frame_of b f) = (pg, st, h)"
      for m d f pg b2 ok st h
      by (rule write_adds(1)[OF k that(1) bucket_write_pid(3)[OF that(2)]])
    have ih: "adds 0 bp bp'" if "loop v c' key ro m b2 = Some (bp', res)" "adds 0 bp b2" for v c' m b2
      using 1(1)[OF that(1)] adds_0(2)[OF that(2)] by auto
    show "case out of (bp', res) \<Rightarrow> adds 0 bp bp'"
      using 1(2) b k un ih out
      by (auto intro!: fst_adds split: if_splits option.splits prod.splits sum.splits)
  qed
  then show ?thesis using assms by fastforce
qed

lemma HI_RemovePair_adds:
  assumes "HI_RemovePair hid key rid bp = Some (b, st)"
  shows "adds 0 bp b"
proof -
  obtain b1 r where g: "HI_GetBucketPageId hid key bp = (b1, r)" by (cases "HI_GetBucketPageId hid key bp")
  note k = HI_GetBucketPageId_adds[OF g]
  have l: "adds 0 bp b2" if "HI_RemoveLoop v c key ro n b1 = Some (b2, st)" for v c ro n b2 st
    by (rule adds_0(2)[OF k HI_RemoveLoop_adds[OF that]])
  show ?thesis using assms g k l
    by (auto simp: HI_RemovePair_def HI_RemoveInternal_def split: if_splits sum.splits prod.splits)
qed

lemma HI_Create_adds: "HI_Create n bp = (b, res) \<Longrightarrow> adds 1 bp b"
proof -
  assume c: "HI_Create n bp = (b, res)"
  obtain b1 x where nw: "NewPage bp = (b1, x)" by (cases "NewPage bp")
  have k1: "adds 1 bp b1" by (rule NewPage_adds[OF nw])
  have un: "adds 1 bp b2" if "HIH_Init n m (frame_of b1 f) = y" "UnpinPage p d (put_page f y b1) = (b2, ok)" for m f y p d b2 ok
    using write_adds(2)[OF k1 that(2)] that(1) slotted_pid by (auto simp: HIH_Init_def Let_def split: if_splits)
  show "adds 1 bp b" using c nw k1
    by (auto simp: HI_Create_def Let_def simp del: One_nat_def intro!: fst_adds dest: un un[OF refl]
        split: if_splits option.splits prod.splits bool.splits sum.splits)
qed

section \<open>The heap file\<close>

lemma AppendNewPage_adds:
  assumes "AppendNewPage l r bp = (bp', res)"
  shows "adds 1 bp bp'"
proof -
  obtain b x where nw: "NewPage bp = (b, x)" by (cases "NewPage bp")
  have k1: "adds 1 bp b" by (rule NewPage_adds[OF nw])
  have w1: "adds 1 bp (set_frame f pg b)" if "SP_Init (Some (frame_of b f)) = Inr pg" for f pg
    by (rule adds_set_frame[OF k1 slotted_pid(1)[OF that]])
  have w2: "adds 1 bp (set_frame f pg2 (set_frame f pg b))"
    if "SP_Init (Some (frame_of b f)) = Inr pg" "SP_InsertRecord (Some (frame_of (set_frame f pg b) f)) d = Inr (pg2, s)"
    for f pg d pg2 s
    by (rule adds_set_frame[OF w1[OF that(1)] slotted_pid(4)[OF that(2)]])
  have un: "adds 1 bp b2" if "SP_Init (Some (frame_of b f)) = Inr pg"
      "SP_InsertRecord (Some (frame_of (set_frame f pg b) f)) d = Inr (pg2, s)"
      "UnpinPage n e (set_frame f pg2 (set_frame f pg b)) = (b2, ok)" for f pg d pg2 s n e b2 ok
    by (rule step_adds(1)[OF w2[OF that(1,2)] that(3)])
  have ln: "adds 1 bp b4" if "SP_Init (Some (frame_of b f)) = Inr pg"
      "SP_InsertRecord (Some (frame_of (set_frame f pg b) f)) d = Inr (pg2, s)"
      "UnpinPage n e (set_frame f pg2 (set_frame f pg b)) = (b2, ok)" "FetchPage l b2 = (b3, Some g)"
      "SP_SetNextPageId (Some (frame_of b3 g)) n = y" "UnpinPage l e' (put_page g y b3) = (b4, ok')"
    for f pg d pg2 s n e b2 ok b3 g y e' b4 ok'
    using page_write_adds(3)[OF un[OF that(1-3)] that(4)] that(5,6) by blast
  show ?thesis
    using assms nw k1
    by (auto simp: AppendNewPage_def Let_def simp del: One_nat_def intro!: fst_adds intro: ln
        dest: w1 un step_adds(3)[OF un]
        split: option.splits prod.splits sum.splits bool.splits if_splits)
qed

lemma HF_InsertLoop_adds:
  assumes "HF_InsertLoop visited c r bp = Some (bp', res)"
  shows "adds 1 bp bp'"
proof -
  have "case out of (bp', res) \<Rightarrow> adds 1 bp bp'" if "HF_InsertLoop visited c r bp = Some out" for out
  proof (rule HF_InsertLoop.raw_induct
      [where P = "\<lambda>visited c r bp out. case out of (bp', res) \<Rightarrow> adds 1 bp bp'", OF _ that], goal_cases)
    case (1 loop visited c r bp out)
    obtain bp' res where out: "out = (bp', res)" by (cases out)
    obtain b x where b: "FetchPage c bp = (b, x)" by (cases "FetchPage c bp")
    have k: "adds 0 bp b" by (rule step_adds(3)[OF adds_refl b])
    have k1: "adds 1 bp b" using adds_mono[OF k] by simp
    have un: "adds 0 bp b2" "adds 1 bp b2"
      if "UnpinPage m d (set_frame f pg b) = (b2, ok)" "page_pid pg = page_pid (frame_of b f)" for m d f pg b2 ok
      using write_adds(1)[OF k that] write_adds(1)[OF k1 that] by simp_all
    have pid: "page_pid pg2 = page_pid (frame_of b f)"
      if "EnsureInit (frame_of b f) = Inr pg" "SP_InsertRecord (Some pg) e = Inr (pg2, s)" for f pg e pg2 s
      using pid_kept(2)[OF that(1)] slotted_pid(4)[OF that(2)] by simp
    have ends: "adds 1 bp b2"
      if "EnsureInit (frame_of b f) = Inr pg" "SP_InsertRecord (Some pg) e = Inr (pg2, s)"
        "UnpinPage m d (set_frame f pg2 b) = (b2, ok)" for f pg e pg2 s m d b2 ok
      by (rule un(2)[OF that(3) pid[OF that(1,2)]])
    have stops: "adds 1 bp b2" "loop v n r b2 = Some (bp', res) \<Longrightarrow> adds 1 bp bp'"
        "AppendNewPage c r b2 = (bp', res) \<Longrightarrow> adds 1 bp bp'"
      if "EnsureInit (frame_of b f) = Inr pg" "UnpinPage m d (set_frame f pg b) = (b2, ok)" for f pg m d b2 ok v n
      using un[OF that(2) slotted_pid(2)[OF that(1)]] 1(1)[of v n r b2 "(bp', res)"] adds_0(2)[of bp b2 1 bp']
        AppendNewPage_adds[of c r b2 bp' res] by auto
    show "case out of (bp', res) \<Rightarrow> adds 1 bp bp'"
      using 1(2) b k1 out
      by (auto simp del: One_nat_def intro!: fst_adds intro: ends stops split: if_splits option.splits prod.splits sum.splits)
  qed
  then show ?thesis using assms by fastforce
qed

lemma HF_InsertRecord_adds: "HF_InsertRecord first rec bp = Some (bp', res) \<Longrightarrow> adds 1 bp bp'"
  by (auto simp: HF_InsertRecord_def dest: HF_InsertLoop_adds split: if_splits)

lemma HF_UpdateRecord_adds: "HF_UpdateRecord r bp = (b, st) \<Longrightarrow> adds 0 bp b"
  by (auto simp: HF_UpdateRecord_def Let_def dest: step_adds(3)[OF adds_refl] page_write_adds[OF adds_refl]
      split: if_splits prod.splits option.splits bool.splits)

lemma HF_DeleteRecord_adds: "HF_DeleteRecord rid bp = (b, st) \<Longrightarrow> adds 0 bp b"
  by (auto simp: HF_DeleteRecord_def Let_def dest: step_adds(3)[OF adds_refl] page_write_adds[OF adds_refl]
      split: if_splits prod.splits option.splits bool.splits)

lemma HF_GetRecord_adds: "HF_GetRecord rid bp = (b, r) \<Longrightarrow> adds 0 bp b"
  by (auto simp: HF_GetRecord_def Let_def dest: step_adds(3)[OF adds_refl] step_adds(1)[OF step_adds(3)[OF adds_refl]]
      split: if_splits prod.splits option.splits bool.splits)

lemma HF_ContainsLoop_adds:
  assumes "HF_ContainsLoop visited c p bp = Some (bp', res)"
  shows "adds 0 bp bp'"
proof -
  have "case out of (bp', res) \<Rightarrow> adds 0 bp bp'" if "HF_ContainsLoop visited c p bp = Some out" for out
  proof (rule HF_ContainsLoop.raw_induct
      [where P = "\<lambda>visited c p bp out. case out of (bp', res) \<Rightarrow> adds 0 bp bp'", OF _ that], goal_cases)
    case (1 loop visited c p bp out)
    obtain bp' res where out: "out = (bp', res)" by (cases out)
    obtain b x where b: "FetchPage c bp = (b, x)" by (cases "FetchPage c bp")
    have k: "adds 0 bp b" by (rule step_adds(3)[OF adds_refl b])
    have ih: "adds 0 bp bp'" if "loop v n p b2 = Some (bp', res)" "adds 0 bp b2" for v n b2
      using 1(1)[OF that(1)] adds_0(2)[OF that(2)] by auto
    show "case out of (bp', res) \<Rightarrow> adds 0 bp bp'"
      using 1(2) b k out
      by (auto intro!: fst_adds intro: ih dest: step_adds(1)[OF k] split: if_splits option.splits prod.splits)
  qed
  then show ?thesis using assms by fastforce
qed

lemma HF_ContainsPage_adds: "HF_ContainsPage first p bp = Some (b, res) \<Longrightarrow> adds 0 bp b"
  by (auto simp: HF_ContainsPage_def dest: HF_ContainsLoop_adds split: if_splits)

text \<open>The pool of a new database.\<close>

lemma room_start:
  assumes "new_BufferPoolManager k (Some d) (Some (new_ClockReplacer k)) = Inr bp" "num_pages d = 1" "free_pages d = {}" "n < 2147483647"
  shows "room n bp"
proof -
  have "int n < 2147483647" using assms(4) by simp
  then show ?thesis using assms(1-3) new_ClockReplacer_inv[of k]
    by (auto simp: new_BufferPoolManager_def room_def fits_def bounded_def valid_frame_def frame_of_def new_Page_def
        layout_simps split: if_splits)
qed

end
