(* ===== verification/Table_State.thy ===== *)
theory Table_State
  imports Table_Storage Catalog_Properties Heap_File_Properties Page_Growth
begin

text \<open>
  A table as the pool presents it: a heap file and hash indexes on disjoint pages. What an operation on
  the heap or on one index does to the table as a whole follows from the frame lemmas of
  \<open>paged_object\<close>; the relation \<open>tbl_to\<close> collects it and composes.
\<close>

section \<open>Heap and indexes on disjoint pages\<close>

type_synonym index_objects = "(page_id \<times> page_id list list) list"

definition index_pages :: "index_objects \<Rightarrow> page_id list" where
  "index_pages ixs = concat (map (\<lambda>(hid, bk). hi_pages hid bk) ixs)"

definition tbl_pages :: "page_id list \<Rightarrow> index_objects \<Rightarrow> page_id list" where
  "tbl_pages ps ixs = ps @ index_pages ixs"

definition tbl_state :: "pool \<Rightarrow> page_id \<Rightarrow> page_id list \<Rightarrow> index_objects \<Rightarrow> bool" where
  "tbl_state bp first ps ixs \<longleftrightarrow> hf_state bp first ps \<and> list_all (\<lambda>(hid, bk). hi_state bp hid bk) ixs \<and>
     distinct (tbl_pages ps ixs)"

definition ix_sets :: "pool \<Rightarrow> index_objects \<Rightarrow> entry set list" where
  "ix_sets bp ixs = map (\<lambda>(hid, bk). hi_entries (pool_page bp) bk) ixs"

lemma length_ix_sets [simp]: "length (ix_sets bp ixs) = length ixs"
  by (simp add: ix_sets_def)

lemma index_pages_split: "index_pages (xs @ ys) = index_pages xs @ index_pages ys"
  "index_pages ((h, bk) # xs) = hi_pages h bk @ index_pages xs" "index_pages [] = []"
  by (simp_all add: index_pages_def)

text \<open>The table has come to contain \<open>H\<close> and \<open>Es\<close>, on pages of its own, its old ones or unused ones,
  and at most \<open>n\<close> pages have been added to the file.\<close>

definition tbl_to ::
  "nat \<Rightarrow> page_id \<Rightarrow> pool \<Rightarrow> page_id list \<Rightarrow> index_objects \<Rightarrow> pool \<Rightarrow> page_id list \<Rightarrow>
   (record_id \<Rightarrow> byte list option) \<Rightarrow> entry set list \<Rightarrow> bool" where
  "tbl_to n first bp ps ixs b ps' H Es \<longleftrightarrow> (\<exists>ixs'. tbl_state b first ps' ixs' \<and> map fst ixs' = map fst ixs \<and>
     outside_kept (tbl_pages ps ixs) bp b \<and> grows (tbl_pages ps ixs) (tbl_pages ps' ixs') bp \<and>
     keeps_health bp b \<and> adds n bp b \<and> heap_contents (pool_page b) ps' = H \<and> ix_sets b ixs' = Es)"

lemma tbl_to_refl:
  "tbl_state bp first ps ixs \<Longrightarrow> tbl_to n first bp ps ixs bp ps (heap_contents (pool_page bp) ps) (ix_sets bp ixs)"
  by (auto simp: tbl_to_def)

lemma tbl_to_trans:
  assumes "tbl_to m first bp ps ixs b ps1 H1 E1"
    "\<And>ixs1. tbl_state b first ps1 ixs1 \<Longrightarrow> map fst ixs1 = map fst ixs \<Longrightarrow>
      heap_contents (pool_page b) ps1 = H1 \<Longrightarrow> ix_sets b ixs1 = E1 \<Longrightarrow> tbl_to n first b ps1 ixs1 c ps2 H2 E2"
  shows "tbl_to (m + n) first bp ps ixs c ps2 H2 E2"
proof -
  obtain ixs1 where 1: "tbl_state b first ps1 ixs1" "map fst ixs1 = map fst ixs" "outside_kept (tbl_pages ps ixs) bp b"
    "grows (tbl_pages ps ixs) (tbl_pages ps1 ixs1) bp" "keeps_health bp b" "adds m bp b" "heap_contents (pool_page b) ps1 = H1"
    "ix_sets b ixs1 = E1" using assms(1) by (auto simp: tbl_to_def)
  obtain ixs2 where 2: "tbl_state c first ps2 ixs2" "map fst ixs2 = map fst ixs1" "outside_kept (tbl_pages ps1 ixs1) b c"
    "grows (tbl_pages ps1 ixs1) (tbl_pages ps2 ixs2) b" "keeps_health b c" "adds n b c" "heap_contents (pool_page c) ps2 = H2"
    "ix_sets c ixs2 = E2" using assms(2)[OF 1(1,2,7,8)] by (auto simp: tbl_to_def)
  show ?thesis unfolding tbl_to_def
    using 1 2 outside_kept_grown[OF 1(3,4) 2(3)] grows_trans[OF 1(3,4) 2(4)] keeps_health_trans[OF 1(5) 2(5)] adds_trans[OF 1(6) 2(6)]
    by (intro exI[of _ ixs2]) simp
qed

lemma tbl_to_state: "tbl_to n first bp ps ixs b ps' H Es \<Longrightarrow> \<exists>ixs'. tbl_state b first ps' ixs' \<and> map fst ixs' = map fst ixs \<and>
    heap_contents (pool_page b) ps' = H \<and> ix_sets b ixs' = Es"
  by (auto simp: tbl_to_def)

lemma tbl_to_mono: "tbl_to m first bp ps ixs b ps' H Es \<Longrightarrow> m \<le> n \<Longrightarrow> tbl_to n first bp ps ixs b ps' H Es"
  by (auto simp: tbl_to_def intro: adds_mono)

lemma tbl_to_room: "tbl_to n first bp ps ixs b ps' H Es \<Longrightarrow> room (n + m) bp \<Longrightarrow> room m b"
  by (auto simp: tbl_to_def intro: room_adds)

lemma tbl_to_healthy: "tbl_to n first bp ps ixs b ps' H Es \<Longrightarrow> healthy bp \<Longrightarrow> healthy b"
  by (auto simp: tbl_to_def tbl_state_def hf_state_def outside_kept_def intro: healthy_kept)

section \<open>One object moves, the others stay\<close>

lemma indexes_framed:
  assumes "list_all (\<lambda>(hid, bk). hi_state bp hid bk) ixs" "pool_ok {} b" "outside_kept qs bp b"
    "set qs \<inter> set (index_pages ixs) = {}"
  shows "list_all (\<lambda>(hid, bk). hi_state b hid bk) ixs \<and> ix_sets b ixs = ix_sets bp ixs"
  using assms(1,4)
proof (induction ixs)
  case (Cons x ixs)
  obtain h bk where x: "x = (h, bk)" by (cases x)
  have "set qs \<inter> set (hi_pages h bk) = {}" "set qs \<inter> set (index_pages ixs) = {}"
    using Cons.prems(2) x by (auto simp: index_pages_split)
  then show ?case using Cons x hash_object.frame[OF _ assms(2,3), of h bk] by (simp add: ix_sets_def)
qed (simp add: ix_sets_def)

lemma indexes_apart:
  assumes "list_all (\<lambda>(hid, bk). hi_state bp hid bk) ixs" "grows qs qs' bp" "set qs \<inter> set (index_pages ixs) = {}"
  shows "set qs' \<inter> set (index_pages ixs) = {}"
  using assms(1,3)
proof (induction ixs)
  case (Cons x ixs)
  obtain h bk where x: "x = (h, bk)" by (cases x)
  have "set qs \<inter> set (hi_pages h bk) = {}" "set qs \<inter> set (index_pages ixs) = {}"
    using Cons.prems(2) x by (auto simp: index_pages_split)
  then show ?case using Cons x hash_object.apart_after_growth[OF _ assms(2), of h bk] by (auto simp: index_pages_split)
qed (simp add: index_pages_split)

lemma heap_moves:
  assumes "tbl_state bp first ps ixs" "hf_state b first ps'" "outside_kept ps bp b" "grows ps ps' bp" "keeps_health bp b" "adds n bp b"
  shows "tbl_to n first bp ps ixs b ps' (heap_contents (pool_page b) ps') (ix_sets bp ixs)"
proof -
  have I: "list_all (\<lambda>(hid, bk). hi_state bp hid bk) ixs" and D: "set ps \<inter> set (index_pages ixs) = {}"
    "distinct (index_pages ixs)" using assms(1) by (auto simp: tbl_state_def tbl_pages_def)
  have ok: "pool_ok {} b" "distinct ps'" using assms(2) by (simp_all add: hf_state_def)
  note F = indexes_framed[OF I ok(1) assms(3) D(1)] and A = indexes_apart[OF I assms(4) D(1)]
  have "tbl_state b first ps' ixs" using F A D(2) ok(2) assms(2) by (simp add: tbl_state_def tbl_pages_def)
  moreover have "outside_kept (tbl_pages ps ixs) bp b" by (rule outside_kept_mono[OF assms(3)]) (auto simp: tbl_pages_def)
  moreover have "grows (tbl_pages ps ixs) (tbl_pages ps' ixs) bp" using assms(4) by (auto simp: grows_def tbl_pages_def)
  ultimately show ?thesis using F assms(5,6) by (auto simp: tbl_to_def)
qed

lemma index_moves:
  assumes "tbl_state bp first ps (pre @ (h, bk) # suf)" "hi_state b h bk'" "outside_kept (hi_pages h bk) bp b"
    "grows (hi_pages h bk) (hi_pages h bk') bp" "keeps_health bp b" "adds n bp b"
  shows "tbl_to n first bp ps (pre @ (h, bk) # suf) b ps (heap_contents (pool_page bp) ps)
    (ix_sets bp pre @ hi_entries (pool_page b) bk' # ix_sets bp suf)"
proof -
  let ?P = "set (hi_pages h bk)"
  have H: "hf_state bp first ps" and I: "list_all (\<lambda>(hid, bk). hi_state bp hid bk) pre"
    "list_all (\<lambda>(hid, bk). hi_state bp hid bk) suf" and D: "distinct (ps @ index_pages pre @ hi_pages h bk @ index_pages suf)"
    using assms(1) by (simp_all add: tbl_state_def tbl_pages_def index_pages_split)
  have d: "?P \<inter> set ps = {}" "?P \<inter> set (index_pages pre) = {}" "?P \<inter> set (index_pages suf) = {}" using D by auto
  have ok: "pool_ok {} b" "distinct (hi_pages h bk')" using assms(2) by (simp_all add: hi_state_def)
  note FH = heap_object.frame[OF H ok(1) assms(3) d(1)] and F1 = indexes_framed[OF I(1) ok(1) assms(3) d(2)]
    and F2 = indexes_framed[OF I(2) ok(1) assms(3) d(3)]
  have A: "set (hi_pages h bk') \<inter> set ps = {}" by (rule heap_object.apart_after_growth[OF H assms(4) d(1)])
  note A1 = indexes_apart[OF I(1) assms(4) d(2)] and A2 = indexes_apart[OF I(2) assms(4) d(3)]
  have "distinct (ps @ index_pages pre @ hi_pages h bk' @ index_pages suf)" using D A A1 A2 ok(2) by auto
  then have "tbl_state b first ps (pre @ (h, bk') # suf)" using FH F1 F2 assms(2)
    by (simp add: tbl_state_def tbl_pages_def index_pages_split)
  moreover have "outside_kept (tbl_pages ps (pre @ (h, bk) # suf)) bp b"
    by (rule outside_kept_mono[OF assms(3)]) (auto simp: tbl_pages_def index_pages_split)
  moreover have "grows (tbl_pages ps (pre @ (h, bk) # suf)) (tbl_pages ps (pre @ (h, bk') # suf)) bp"
    using assms(4) by (auto simp: grows_def tbl_pages_def index_pages_split)
  moreover have "ix_sets b (pre @ (h, bk') # suf) = ix_sets bp pre @ hi_entries (pool_page b) bk' # ix_sets bp suf"
    using F1 F2 by (simp add: ix_sets_def)
  ultimately show ?thesis unfolding tbl_to_def using FH assms(5,6) by (intro exI[of _ "pre @ (h, bk') # suf"]) simp
qed

section \<open>The operations of the heap and of one index\<close>

lemma read_only_moves:
  assumes "tbl_state bp first ps ixs" "read_only bp b" "adds n bp b"
  shows "tbl_to n first bp ps ixs b ps (heap_contents (pool_page bp) ps) (ix_sets bp ixs)" "tbl_state b first ps ixs"
    "ix_sets b ixs = ix_sets bp ixs"
proof -
  have ro: "pool_ok {} b" "outside_kept qs bp b" "keeps_health bp b" for qs
    using assms(2) outside_kept_same[of bp b] by (simp_all add: read_only_def)
  have H: "hf_state bp first ps" "list_all (\<lambda>(hid, bk). hi_state bp hid bk) ixs" using assms(1) by (simp_all add: tbl_state_def)
  note U = heap_object.unchanged[OF H(1) assms(2)] and F = indexes_framed[OF H(2) ro(1) ro(2)[of "[]"]]
  show "tbl_state b first ps ixs" "ix_sets b ixs = ix_sets bp ixs" using U F assms(1) by (simp_all add: tbl_state_def)
  show "tbl_to n first bp ps ixs b ps (heap_contents (pool_page bp) ps) (ix_sets bp ixs)"
    using heap_moves[OF assms(1) conjunct1[OF U] ro(2) grows_refl ro(3) assms(3)] U by simp
qed

lemma heap_rid_page: "heap_contents pg ps rid \<noteq> None \<Longrightarrow> rid_page rid \<in> set ps"
  by (auto simp: heap_contents_def split: if_splits)

text \<open>An identifier in use can be entered in an index.\<close>

lemma heap_rid_entry:
  assumes "hf_state bp first ps" "heap_contents (pool_page bp) ps rid \<noteq> None" "num_pages (pool_disk bp) < 2147483648"
    "length key \<le> MAX_KEY_LENGTH"
  shows "index_entry key rid" "rid_page rid \<in> set ps"
proof -
  show q: "rid_page rid \<in> set ps" using assms(2) by (auto simp: heap_contents_def split: if_splits)
  note P = hf_page[OF assms(1) q]
  obtain d where "pool_page bp (rid_page rid) = Some d" using P(4) by blast
  then have "is_i32 (rid_page rid)" using pool_page_bound[OF P(1)] P(2) assms(3) by (fastforce simp: is_i32_def)
  moreover have "rid_slot rid < sp_count (page_at (pool_page bp) (rid_page rid))"
    using assms(2) q by (auto simp: heap_contents_def sp_contents_def split: if_splits)
  then have "rid_slot rid < 65536" unfolding sp_count_def using ReadValue_u16_less order_less_trans by blast
  ultimately show "index_entry key rid" using P(2) assms(4) by (simp add: index_entry_def entry_ok_def)
qed

lemma index_at:
  assumes "i < length ixs"
  obtains pre h bk suf where "ixs = pre @ (h, bk) # suf" "length pre = i" "ixs ! i = (h, bk)"
  using id_take_nth_drop[OF assms] assms by (metis length_take min.absorb4 prod.collapse)

lemma ix_sets_update:
  "ix_sets bp pre @ E # ix_sets bp suf = (ix_sets bp (pre @ (h, bk) # suf))[length pre := E]"
  "ix_sets bp (pre @ (h, bk) # suf) ! length pre = hi_entries (pool_page bp) bk"
  by (simp_all add: ix_sets_def list_update_append nth_append)

lemma tbl_insert_entry:
  assumes "tbl_state bp first ps ixs" "i < length ixs" "heap_contents (pool_page bp) ps rid \<noteq> None"
    "key \<noteq> []" "length key \<le> MAX_KEY_LENGTH" "room 1 bp"
    "HI_Insert (fst (ixs ! i)) key rid bp = Some (b, st)"
  shows "if status_ok st
    then tbl_to 1 first bp ps ixs b ps (heap_contents (pool_page bp) ps)
      ((ix_sets bp ixs)[i := insert (key, rid) (ix_sets bp ixs ! i)])
    else tbl_to 1 first bp ps ixs b ps (heap_contents (pool_page bp) ps) (ix_sets bp ixs) \<and> \<not> healthy bp"
proof -
  note np = room_num_pages[OF assms(6)] and ad = HI_Insert_adds[OF assms(7)]
  obtain pre h bk suf where ix: "ixs = pre @ (h, bk) # suf" "length pre = i" "ixs ! i = (h, bk)"
    by (rule index_at[OF assms(2)])
  have hf: "hf_state bp first ps" and hi: "hi_state bp h bk" using assms(1) ix(1) by (simp_all add: tbl_state_def)
  have "hi_inserted h bk key rid bp (b, st)"
    using HI_Insert_spec[OF hi heap_rid_entry(1)[OF hf assms(3) np assms(5)] assms(4) np] assms(7) ix(3) by simp
  then have I: "outside_kept (hi_pages h bk) bp b" "keeps_health bp b"
    "if status_ok st then \<exists>bk'. hi_state b h bk' \<and>
        hi_entries (pool_page b) bk' = insert (key, rid) (hi_entries (pool_page bp) bk) \<and> grows (hi_pages h bk) (hi_pages h bk') bp
      else hi_state b h bk \<and> hi_entries (pool_page b) bk = hi_entries (pool_page bp) bk \<and> \<not> healthy bp"
    by (simp_all add: hi_inserted_def)
  have U: "ix_sets bp pre @ E # ix_sets bp suf = (ix_sets bp ixs)[i := E]" "ix_sets bp ixs ! i = hi_entries (pool_page bp) bk"
    for E using ix_sets_update[of bp pre] ix(1,2) by simp_all
  show ?thesis
  proof (cases "status_ok st")
    case True
    then obtain bk' where bk': "hi_state b h bk'" "hi_entries (pool_page b) bk' = insert (key, rid) (hi_entries (pool_page bp) bk)"
      "grows (hi_pages h bk) (hi_pages h bk') bp" using I(3) by auto
    show ?thesis
      using True index_moves[OF assms(1)[unfolded ix(1)] bk'(1) I(1) bk'(3) I(2) ad] U ix(1) bk'(2) by simp
  next
    case False
    then have k: "hi_state b h bk" "hi_entries (pool_page b) bk = hi_entries (pool_page bp) bk" "\<not> healthy bp" using I(3) by simp_all
    have "(ix_sets bp ixs)[i := hi_entries (pool_page bp) bk] = ix_sets bp ixs" using U(2) list_update_id[of "ix_sets bp ixs" i] by simp
    then show ?thesis
      using False index_moves[OF assms(1)[unfolded ix(1)] k(1) I(1) grows_refl I(2) ad] U(1) ix(1) k(2,3) by simp
  qed
qed

lemma spared_pair: "spared key (Some rid) E = E - {(key, rid)}"
  by (auto simp: spared_def entry_hit_def)

lemma tbl_remove_entry:
  assumes "tbl_state bp first ps ixs" "i < length ixs" "length key \<le> MAX_KEY_LENGTH"
    "HI_RemovePair (fst (ixs ! i)) key rid bp = Some (b, st)"
  shows "if status_ok st
    then (key, rid) \<in> ix_sets bp ixs ! i \<and> tbl_to 0 first bp ps ixs b ps (heap_contents (pool_page bp) ps)
      ((ix_sets bp ixs)[i := ix_sets bp ixs ! i - {(key, rid)}])
    else tbl_to 0 first bp ps ixs b ps (heap_contents (pool_page bp) ps) (ix_sets bp ixs) \<and>
      (if status_code st = NOT_FOUND then (key, rid) \<notin> ix_sets bp ixs ! i else \<not> healthy bp)"
proof -
  obtain pre h bk suf where ix: "ixs = pre @ (h, bk) # suf" "length pre = i" "ixs ! i = (h, bk)"
    by (rule index_at[OF assms(2)])
  have hi: "hi_state bp h bk" using assms(1) ix(1) by (simp add: tbl_state_def)
  let ?E = "hi_entries (pool_page bp) bk"
  have R: "hi_removed h bk key (Some rid) ?E bp (b, st)"
    using HI_RemoveInternal_spec[OF hi assms(3), of "Some rid"] assms(4) ix(3) by (simp add: HI_RemovePair_def)
  then have k: "outside_kept (hi_pages h bk) bp b" "keeps_health bp b" "hi_state b h bk" by (simp_all add: hi_removed_def)
  have E: "if status_ok st then hi_entries (pool_page b) bk = ?E - {(key, rid)} \<and> (key, rid) \<in> ?E
      else hi_entries (pool_page b) bk = ?E \<and> (if status_code st = NOT_FOUND then (key, rid) \<notin> ?E else \<not> healthy bp)"
    using R by (auto simp: hi_removed_def Let_def spared_pair split: if_splits)
  have U: "ix_sets bp pre @ E # ix_sets bp suf = (ix_sets bp ixs)[i := E]" "ix_sets bp ixs ! i = ?E"
    for E using ix_sets_update[of bp pre] ix(1,2) by simp_all
  note M = index_moves[OF assms(1)[unfolded ix(1)] k(3,1) grows_refl k(2) HI_RemovePair_adds[OF assms(4)]]
  have same: "(ix_sets bp ixs)[i := ?E] = ix_sets bp ixs" using U(2) list_update_id[of "ix_sets bp ixs" i] by simp
  show ?thesis
  proof (cases "status_ok st")
    case True
    then show ?thesis using M U ix(1) E by simp
  next
    case False
    then have "hi_entries (pool_page b) bk = ?E" using E by simp
    then have "tbl_to 0 first bp ps ixs b ps (heap_contents (pool_page bp) ps) (ix_sets bp ixs)"
      using M U(1) ix(1) same by simp
    then show ?thesis using False E U(2) by simp
  qed
qed

lemma tbl_insert_record:
  assumes "tbl_state bp first ps ixs" "HF_InsertRecord first rec bp = Some (b, res)"
  shows "case res of
      Inl _ \<Rightarrow> tbl_to 1 first bp ps ixs b ps (heap_contents (pool_page bp) ps) (ix_sets bp ixs)
    | Inr rid \<Rightarrow> heap_contents (pool_page bp) ps rid = None \<and>
        (\<exists>ps'. tbl_to 1 first bp ps ixs b ps' ((heap_contents (pool_page bp) ps)(rid \<mapsto> rec_data rec)) (ix_sets bp ixs))"
proof -
  have hf: "hf_state bp first ps" using assms(1) by (simp add: tbl_state_def)
  have I: "inserted first ps (rec_data rec) bp (b, res)" using HF_InsertRecord_spec[OF hf, of rec] assms(2) by simp
  then have o: "outside_kept ps bp b" by (simp add: inserted_def)
  have k: "keeps_health bp b" by (rule HF_InsertRecord_health[OF assms(2)])
  note ad = HF_InsertRecord_adds[OF assms(2)]
  show ?thesis
  proof (cases res)
    case (Inl st)
    then have "hf_state b first ps" "heap_contents (pool_page b) ps = heap_contents (pool_page bp) ps"
      using I by (simp_all add: inserted_def)
    then show ?thesis using heap_moves[OF assms(1) _ o grows_refl k ad] Inl by simp
  next
    case (Inr rid)
    then obtain ps' where p: "heap_contents (pool_page bp) ps rid = None"
      "ps' = ps \<or> ps' = ps @ [rid_page rid] \<and> unused (rid_page rid) bp" "hf_state b first ps'"
      "heap_contents (pool_page b) ps' = (heap_contents (pool_page bp) ps)(rid \<mapsto> rec_data rec)"
      using I by (auto simp: inserted_def)
    have "grows ps ps' bp" using p(2) by (auto simp: grows_def)
    then show ?thesis using heap_moves[OF assms(1) p(3) o _ k ad] p Inr by auto
  qed
qed

lemma tbl_get_record:
  assumes "tbl_state bp first ps ixs" "rid_page rid \<in> set ps" "HF_GetRecord rid bp = (b, res)"
  shows "read_only bp b \<and> adds 0 bp b \<and> (case res of
      Inl _ \<Rightarrow> heap_contents (pool_page bp) ps rid = None \<or> \<not> healthy bp
    | Inr r \<Rightarrow> rec_rid r = rid \<and> heap_contents (pool_page bp) ps rid = Some (rec_data r))"
proof -
  have hf: "hf_state bp first ps" using assms(1) by (simp add: tbl_state_def)
  note G = HF_GetRecord_spec[OF hf assms(2,3)] and P = hf_page[OF hf assms(2)]
  have ro: "read_only bp b" using G HF_GetRecord_health[OF assms(3)] by (simp add: read_only_def hf_state_def)
  have wf: "sp_wf (page_at (pool_page bp) (rid_page rid))" using P(5) by (simp add: sp_inv_def)
  have c: "heap_contents (pool_page bp) ps rid = sp_contents (page_at (pool_page bp) (rid_page rid)) (rid_slot rid)"
    using assms(2) by (simp add: heap_contents_def)
  have "snd (FetchPage (rid_page rid) bp) = None \<Longrightarrow> \<not> healthy bp" using FetchPage_healthy[OF _ P(4)] by force
  then show ?thesis using ro G HF_GetRecord_adds[OF assms(3)] SP_ReadRecord_get[OF wf, of "rid_slot rid"] P(6) c
    by (auto split: option.splits if_splits)
qed

lemma tbl_update_record:
  assumes "tbl_state bp first ps ixs" "rid_page (rec_rid r) \<in> set ps" "HF_UpdateRecord r bp = (b, st)"
  shows "if status_ok st
    then heap_contents (pool_page bp) ps (rec_rid r) \<noteq> None \<and>
      tbl_to 0 first bp ps ixs b ps ((heap_contents (pool_page bp) ps)(rec_rid r \<mapsto> rec_data r)) (ix_sets bp ixs)
    else tbl_to 0 first bp ps ixs b ps (heap_contents (pool_page bp) ps) (ix_sets bp ixs)"
proof -
  have hf: "hf_state bp first ps" using assms(1) by (simp add: tbl_state_def)
  note S = HF_UpdateRecord_spec[OF hf assms(2,3)]
  have "tbl_to 0 first bp ps ixs b ps (heap_contents (pool_page b) ps) (ix_sets bp ixs)"
    using heap_moves[OF assms(1) _ _ grows_refl HF_UpdateRecord_health[OF assms(3)] HF_UpdateRecord_adds[OF assms(3)]] S by simp
  then show ?thesis using S by (cases "status_ok st") simp_all
qed

lemma tbl_delete_record:
  assumes "tbl_state bp first ps ixs" "rid_page rid \<in> set ps" "HF_DeleteRecord rid bp = (b, st)"
  shows "if status_ok st
    then heap_contents (pool_page bp) ps rid \<noteq> None \<and>
      tbl_to 0 first bp ps ixs b ps ((heap_contents (pool_page bp) ps)(rid := None)) (ix_sets bp ixs)
    else tbl_to 0 first bp ps ixs b ps (heap_contents (pool_page bp) ps) (ix_sets bp ixs) \<and>
      (heap_contents (pool_page bp) ps rid = None \<or> \<not> healthy bp)"
proof -
  have hf: "hf_state bp first ps" using assms(1) by (simp add: tbl_state_def)
  note S = HF_DeleteRecord_spec[OF hf assms(2,3)]
  have "tbl_to 0 first bp ps ixs b ps (heap_contents (pool_page b) ps) (ix_sets bp ixs)"
    using heap_moves[OF assms(1) _ _ grows_refl HF_DeleteRecord_health[OF assms(3)] HF_DeleteRecord_adds[OF assms(3)]] S by simp
  then show ?thesis using S HF_DeleteRecord_found[OF hf _ assms(2)] assms(3) by (cases "status_ok st") auto
qed

text \<open>The ownership check.\<close>

lemma tbl_validate:
  assumes "tbl_state bp first ps ixs"
  shows "\<exists>b st. ValidateRecordBelongsToTable first rid bp = Some (b, st) \<and> read_only bp b \<and> adds 0 bp b \<and>
    (if status_ok st then rid_page rid \<in> set ps else rid_page rid \<notin> set ps \<or> \<not> healthy bp)"
proof (cases "rid_page rid \<le> 0")
  case True
  have "hf_state bp first ps" using assms by (simp add: tbl_state_def)
  then have "rid_page rid \<notin> set ps" "pool_ok {} bp" using hf_page(2)[of bp first ps "rid_page rid"] True by (auto simp: hf_state_def)
  then show ?thesis using True by (simp add: ValidateRecordBelongsToTable_def read_only_def)
next
  case False
  have hf: "hf_state bp first ps" using assms by (simp add: tbl_state_def)
  have "first \<in> set ps" using hf by (cases ps) (auto simp: hf_state_def)
  then have f1: "new_HeapFile first = Inr first" using hf_page(2)[OF hf \<open>first \<in> set ps\<close>] by (simp add: new_HeapFile_def layout_simps)
  have "heap_chain (pool_page bp) first ps" using hf by (simp add: hf_state_def)
  from HF_ContainsLoop_spec[of bp first "[]" ps first "{}" "rid_page rid"] this hf
  obtain b res where c: "HF_ContainsLoop {} first (rid_page rid) bp = Some (b, res)" "read_only bp b"
    "res = Inr (rid_page rid \<in> set ps) \<or> \<not> healthy bp \<and> fetch_failed res" by auto
  have "HF_ContainsPage first (rid_page rid) bp = Some (b, res)" using c(1) False by (simp add: HF_ContainsPage_def layout_simps)
  note cp = this and ad = HF_ContainsPage_adds[OF this]
  have v: "ValidateRecordBelongsToTable first rid bp = Some (b, case res of Inl st \<Rightarrow> st
      | Inr True \<Rightarrow> Status_OK | Inr False \<Rightarrow> InvalidArgument ''RecordID does not belong to the requested table'')"
    using f1 False cp by (simp add: ValidateRecordBelongsToTable_def split: sum.split bool.split)
  show ?thesis using c(2,3) ad
    by (cases "rid_page rid \<in> set ps"; force simp: v fetch_failed_def)
qed

end
