(* ===== verification/Table_Entries.thy ===== *)
theory Table_Entries
  imports Table_State
begin

text \<open>
  The loops of the table storage over the indexes of one record. Which keys a record has been entered
  under is a function from the position of the index to a set of keys; \<open>rid_sets\<close> are the entries of
  the indexes then. Each loop, its rollback included, is described by what it makes of that function.
\<close>

section \<open>The entries of one record\<close>

definition rid_sets :: "entry set list \<Rightarrow> record_id \<Rightarrow> (nat \<Rightarrow> string set) \<Rightarrow> entry set list" where
  "rid_sets base rid g = map (\<lambda>i. base ! i \<union> (\<lambda>k. (k, rid)) ` g i) [0..<length base]"

definition fresh :: "record_id \<Rightarrow> entry set list \<Rightarrow> bool" where
  "fresh rid base \<longleftrightarrow> (\<forall>i < length base. \<forall>k. (k, rid) \<notin> base ! i)"

definition valid_key :: "string \<Rightarrow> bool" where
  "valid_key k \<longleftrightarrow> k \<noteq> [] \<and> length k \<le> MAX_KEY_LENGTH"

lemma length_rid_sets [simp]: "length (rid_sets base rid g) = length base"
  by (simp add: rid_sets_def)

lemma rid_sets_nth: "i < length base \<Longrightarrow> rid_sets base rid g ! i = base ! i \<union> (\<lambda>k. (k, rid)) ` g i"
  by (simp add: rid_sets_def)

lemma rid_sets_cong: "(\<And>i. i < length base \<Longrightarrow> g i = h i) \<Longrightarrow> rid_sets base rid g = rid_sets base rid h"
  by (simp add: rid_sets_def)

lemma rid_sets_member: "fresh rid base \<Longrightarrow> i < length base \<Longrightarrow> (k, rid) \<in> rid_sets base rid g ! i \<longleftrightarrow> k \<in> g i"
  by (auto simp: rid_sets_nth fresh_def)

lemma rid_sets_insert:
  "i < length base \<Longrightarrow>
    (rid_sets base rid g)[i := insert (k, rid) (rid_sets base rid g ! i)] = rid_sets base rid (g(i := insert k (g i)))"
  by (rule nth_equalityI) (auto simp: rid_sets_nth nth_list_update)

lemma rid_sets_remove:
  "fresh rid base \<Longrightarrow> i < length base \<Longrightarrow>
    (rid_sets base rid g)[i := rid_sets base rid g ! i - {(k, rid)}] = rid_sets base rid (g(i := g i - {k}))"
  by (rule nth_equalityI) (auto simp: rid_sets_nth nth_list_update fresh_def)

text \<open>The pool holds the table with the heap \<open>H\<close>, and in each index the entries of the other records
  and those of \<open>rid\<close> under the keys \<open>g\<close>.\<close>

definition keyed ::
  "page_id \<Rightarrow> page_id list \<Rightarrow> page_id list \<Rightarrow> (record_id \<Rightarrow> byte list option) \<Rightarrow> entry set list \<Rightarrow> record_id \<Rightarrow>
   pool \<Rightarrow> index_objects \<Rightarrow> (nat \<Rightarrow> string set) \<Rightarrow> bool" where
  "keyed first ps hids H base rid bp ixs g \<longleftrightarrow> tbl_state bp first ps ixs \<and> map fst ixs = hids \<and>
     length base = length hids \<and> fresh rid base \<and> heap_contents (pool_page bp) ps = H \<and>
     ix_sets bp ixs = rid_sets base rid g"

lemma keyed_refl: "keyed first ps hids H base rid bp ixs g \<Longrightarrow> tbl_to n first bp ps ixs bp ps H (rid_sets base rid g)"
  using tbl_to_refl[of bp first ps ixs n] by (simp add: keyed_def)

text \<open>After a first stretch: the state it leads to, and how a second stretch continues it.\<close>

lemma keyed_from:
  assumes "tbl_to m first bp ps ixs b ps1 H (rid_sets base rid g)" "map fst ixs = hids" "length base = length hids" "fresh rid base"
  obtains ixs1 where "keyed first ps1 hids H base rid b ixs1 g"
    "\<forall>n c ps2 H2 E2. tbl_to n first b ps1 ixs1 c ps2 H2 E2 \<longrightarrow> tbl_to (m + n) first bp ps ixs c ps2 H2 E2"
proof -
  obtain ixs1 where 1: "tbl_state b first ps1 ixs1" "map fst ixs1 = map fst ixs" "outside_kept (tbl_pages ps ixs) bp b"
    "grows (tbl_pages ps ixs) (tbl_pages ps1 ixs1) bp" "keeps_health bp b" "adds m bp b"
    "heap_contents (pool_page b) ps1 = H" "ix_sets b ixs1 = rid_sets base rid g" using assms(1) by (auto simp: tbl_to_def)
  show ?thesis
  proof (rule that)
    show "keyed first ps1 hids H base rid b ixs1 g" using assms(2-4) 1 by (simp add: keyed_def)
    show "\<forall>n c ps2 H2 E2. tbl_to n first b ps1 ixs1 c ps2 H2 E2 \<longrightarrow> tbl_to (m + n) first bp ps ixs c ps2 H2 E2"
    proof (intro allI impI)
      fix n c ps2 H2 E2 assume "tbl_to n first b ps1 ixs1 c ps2 H2 E2"
      then obtain ixs2 where 2: "tbl_state c first ps2 ixs2" "map fst ixs2 = map fst ixs1" "outside_kept (tbl_pages ps1 ixs1) b c"
        "grows (tbl_pages ps1 ixs1) (tbl_pages ps2 ixs2) b" "keeps_health b c" "adds n b c"
        "heap_contents (pool_page c) ps2 = H2" "ix_sets c ixs2 = E2" by (auto simp: tbl_to_def)
      show "tbl_to (m + n) first bp ps ixs c ps2 H2 E2" unfolding tbl_to_def
        using 1 2 outside_kept_grown[OF 1(3,4) 2(3)] grows_trans[OF 1(3,4) 2(4)] keeps_health_trans[OF 1(5) 2(5)]
          adds_trans[OF 1(6) 2(6)] by (intro exI[of _ ixs2]) simp
    qed
  qed
qed

lemma keyed_next:
  assumes "keyed first ps hids H base rid bp ixs g" "tbl_to m first bp ps ixs b ps H (rid_sets base rid g1)"
  obtains ixs1 where "keyed first ps hids H base rid b ixs1 g1"
    "\<forall>n c ps2 H2 E2. tbl_to n first b ps ixs1 c ps2 H2 E2 \<longrightarrow> tbl_to (m + n) first bp ps ixs c ps2 H2 E2"
  using keyed_from[OF assms(2)] assms(1) unfolding keyed_def by blast

lemma entry_insert:
  assumes K: "keyed first ps hids H base rid bp ixs g" and "i < length hids" "valid_key k" "H rid \<noteq> None" "room 1 bp"
  obtains b st where "HI_Insert (hids ! i) k rid bp = Some (b, st)"
    "tbl_to 1 first bp ps ixs b ps H (rid_sets base rid (if status_ok st then g(i := insert k (g i)) else g))"
    "status_ok st \<or> \<not> healthy bp"
proof -
  have T: "tbl_state bp first ps ixs" "length ixs = length hids" "hids ! i = fst (ixs ! i)" "i < length ixs"
    using K assms(2) by (auto simp: keyed_def)
  have hi: "hi_state bp (fst (ixs ! i)) (snd (ixs ! i))" using T(1,4) by (auto simp: tbl_state_def list_all_length split_def)
  have hf: "hf_state bp first ps" using T(1) by (simp add: tbl_state_def)
  have H: "heap_contents (pool_page bp) ps rid \<noteq> None" using K assms(4) by (simp add: keyed_def)
  have k: "k \<noteq> []" "length k \<le> MAX_KEY_LENGTH" using assms(3) by (simp_all add: valid_key_def)
  note np = room_num_pages[OF assms(5)]
  obtain b st where e: "HI_Insert (fst (ixs ! i)) k rid bp = Some (b, st)"
    using HI_Insert_spec[OF hi heap_rid_entry(1)[OF hf H np k(2)] k(1) np] by auto
  have U: "(ix_sets bp ixs)[i := insert (k, rid) (ix_sets bp ixs ! i)] = rid_sets base rid (g(i := insert k (g i)))"
    using K rid_sets_insert[of i base rid g k] assms(2) by (simp add: keyed_def)
  show ?thesis
    by (rule that[of b st]) (use e T(3) K U tbl_insert_entry[OF T(1,4) H k assms(5) e] in \<open>auto simp: keyed_def split: if_splits\<close>)
qed

lemma entry_remove:
  assumes K: "keyed first ps hids H base rid bp ixs g" and "i < length hids" "valid_key k"
  obtains b st where "HI_RemovePair (hids ! i) k rid bp = Some (b, st)"
    "tbl_to 0 first bp ps ixs b ps H (rid_sets base rid (if status_ok st then g(i := g i - {k}) else g))"
    "if status_ok st then k \<in> g i else if status_code st = NOT_FOUND then k \<notin> g i else \<not> healthy bp"
proof -
  have T: "tbl_state bp first ps ixs" "length ixs = length hids" "hids ! i = fst (ixs ! i)" "i < length ixs"
    using K assms(2) by (auto simp: keyed_def)
  have hi: "hi_state bp (fst (ixs ! i)) (snd (ixs ! i))" using T(1,4) by (auto simp: tbl_state_def list_all_length split_def)
  have k: "length k \<le> MAX_KEY_LENGTH" using assms(3) by (simp add: valid_key_def)
  obtain b st where e: "HI_RemovePair (fst (ixs ! i)) k rid bp = Some (b, st)"
    using HI_RemoveInternal_spec[OF hi k, of "Some rid"] by (auto simp: HI_RemovePair_def)
  have B: "fresh rid base" "i < length base" "ix_sets bp ixs = rid_sets base rid g" using K assms(2) by (simp_all add: keyed_def)
  have U: "(ix_sets bp ixs)[i := ix_sets bp ixs ! i - {(k, rid)}] = rid_sets base rid (g(i := g i - {k}))"
    "(k, rid) \<in> ix_sets bp ixs ! i \<longleftrightarrow> k \<in> g i"
    unfolding B(3) by (rule rid_sets_remove[OF B(1,2)], rule rid_sets_member[OF B(1,2)])
  note R = tbl_remove_entry[OF T(1,4) k e]
  have H: "heap_contents (pool_page bp) ps = H" using K by (simp add: keyed_def)
  show ?thesis by (rule that[of b st]) (use e T(3) R U H B(3) in \<open>auto split: if_splits\<close>)
qed

section \<open>The loops of insertion and deletion\<close>

text \<open>The keys of the record for the indexes \<open>hids\<close>.\<close>

definition keys_ok :: "page_id list \<Rightarrow> encoded_index_key list \<Rightarrow> bool" where
  "keys_ok hids keys \<longleftrightarrow> length keys = length hids \<and>
     (\<forall>i < length keys. ib_index (ek_binding (keys ! i)) = hids ! i \<and> (\<forall>k. ek_key (keys ! i) = Some k \<longrightarrow> valid_key k))"

definition key_at :: "encoded_index_key list \<Rightarrow> nat \<Rightarrow> string set" where
  "key_at keys i = set_option (ek_key (keys ! i))"

text \<open>The keys at the positions \<open>P\<close> entered, or removed.\<close>

definition filled :: "encoded_index_key list \<Rightarrow> nat set \<Rightarrow> (nat \<Rightarrow> string set) \<Rightarrow> nat \<Rightarrow> string set" where
  "filled keys P g i = (if i \<in> P then g i \<union> key_at keys i else g i)"

definition cleared :: "encoded_index_key list \<Rightarrow> nat set \<Rightarrow> (nat \<Rightarrow> string set) \<Rightarrow> nat \<Rightarrow> string set" where
  "cleared keys P g i = (if i \<in> P then g i - key_at keys i else g i)"

lemma filled_empty [simp]: "filled keys {} g = g" and cleared_empty [simp]: "cleared keys {} g = g"
  by (simp_all add: filled_def cleared_def fun_eq_iff)

lemma filled_step: "i \<notin> P \<Longrightarrow> filled keys P (filled keys {i} g) = filled keys (insert i P) g"
  and cleared_step: "cleared keys P (cleared keys {i} g) = cleared keys (insert i P) g"
  by (auto simp: filled_def cleared_def fun_eq_iff)

lemma filled_one:
  "ek_key (keys ! i) = None \<Longrightarrow> filled keys {i} g = g"
  "ek_key (keys ! i) = Some k \<Longrightarrow> filled keys {i} g = g(i := insert k (g i))"
  by (auto simp: filled_def key_at_def fun_eq_iff)

lemma cleared_one:
  "ek_key (keys ! i) = None \<Longrightarrow> cleared keys {i} g = g"
  "ek_key (keys ! i) = Some k \<Longrightarrow> cleared keys {i} g = g(i := g i - {k})"
  by (auto simp: cleared_def key_at_def fun_eq_iff)

lemma upto_step: "c < n \<Longrightarrow> insert c {Suc c..<n} = {c..<n}"
  by auto

lemma insert_entries:
  assumes "keyed first ps hids H base rid bp ixs g" "keys_ok hids keys" "H rid \<noteq> None" "rest = drop c keys"
    "room (length rest) bp"
  shows "\<exists>b n st. InsertIndexEntries rid rest c bp = Some (b, n, st) \<and> (rest \<noteq> [] \<longrightarrow> c \<le> n) \<and> n \<le> max c (length keys) \<and>
    tbl_to (length rest) first bp ps ixs b ps H (rid_sets base rid (filled keys {c..<n} g)) \<and>
    (if status_ok st then length keys \<le> n else \<not> healthy bp)"
  using assms(1,4,5)
proof (induction rest arbitrary: c bp ixs g)
  case Nil
  then show ?case using keyed_refl by fastforce
next
  case (Cons e rest)
  have c: "c < length keys" "e = keys ! c" "rest = drop (Suc c) keys" using Cons.prems(2)
    by (metis drop_all linorder_not_less list.distinct(1), metis list.sel(1) drop_Nil hd_drop_conv_nth
        drop_all linorder_not_less list.distinct(1), metis drop_Suc list.sel(3) tl_drop)
  have h: "c < length hids" "ib_index (ek_binding e) = hids ! c" "\<And>k. ek_key e = Some k \<Longrightarrow> valid_key k"
    using assms(2) c by (auto simp: keys_ok_def)
  have r: "room 1 bp" "room (1 + length rest) bp" using Cons.prems(3) by (auto intro: room_mono)
  have go: "\<exists>b' n st. InsertIndexEntries rid rest (c + 1) b = Some (b', n, st) \<and> c \<le> n \<and> n \<le> max c (length keys) \<and>
      tbl_to (1 + length rest) first bp ps ixs b' ps H (rid_sets base rid (filled keys {c..<n} g)) \<and>
      (if status_ok st then length keys \<le> n else \<not> healthy bp)"
    if t: "tbl_to 1 first bp ps ixs b ps H (rid_sets base rid (filled keys {c} g))" for b
  proof -
    obtain ixs1 where k: "keyed first ps hids H base rid b ixs1 (filled keys {c} g)"
      "\<forall>n d ps2 H2 E2. tbl_to n first b ps ixs1 d ps2 H2 E2 \<longrightarrow> tbl_to (1 + n) first bp ps ixs d ps2 H2 E2"
      by (rule keyed_next[OF Cons.prems(1) t])
    obtain b' n st where i: "InsertIndexEntries rid rest (Suc c) b = Some (b', n, st)" "rest \<noteq> [] \<longrightarrow> Suc c \<le> n"
      "n \<le> max (Suc c) (length keys)"
      "tbl_to (length rest) first b ps ixs1 b' ps H (rid_sets base rid (filled keys {Suc c..<n} (filled keys {c} g)))"
      "if status_ok st then length keys \<le> n else \<not> healthy b"
      using Cons.IH[OF k(1) c(3) tbl_to_room[OF t r(2)]] by blast
    have n: "Suc c \<le> n" using i(1,2) by (cases rest) auto
    have "filled keys {Suc c..<n} (filled keys {c} g) = filled keys {c..<n} g"
      using n by (simp add: filled_step upto_step)
    then show ?thesis using i n c(1) k(2)[rule_format, OF i(4)] tbl_to_healthy[OF t] by (auto split: if_splits)
  qed
  show ?case
  proof (cases "ek_key e")
    case None
    then have "filled keys {c} g = g" using c(2) by (simp add: filled_one)
    then show ?thesis using go[of bp] keyed_refl[OF Cons.prems(1), of 1] None by fastforce
  next
    case (Some k)
    obtain b st where i: "HI_Insert (hids ! c) k rid bp = Some (b, st)"
      "tbl_to 1 first bp ps ixs b ps H (rid_sets base rid (if status_ok st then g(c := insert k (g c)) else g))"
      "status_ok st \<or> \<not> healthy bp"
      by (rule entry_insert[OF Cons.prems(1) h(1) h(3)[OF Some] assms(3) r(1)])
    show ?thesis
    proof (cases "status_ok st")
      case True
      then have "tbl_to 1 first bp ps ixs b ps H (rid_sets base rid (filled keys {c} g))"
        using i(2) Some c(2) by (simp add: filled_one)
      from go[OF this] show ?thesis using Some i(1) h(2) True by auto
    next
      case False
      then have "tbl_to (1 + length rest) first bp ps ixs b ps H (rid_sets base rid g)" using tbl_to_mono[OF i(2)] by simp
      then show ?thesis using Some i h(2) False by auto
    qed
  qed
qed

lemma key_insert:
  assumes "keyed first ps hids H base rid bp ixs g" "keys_ok hids keys" "i < length keys" "ek_key (keys ! i) = Some k"
    "H rid \<noteq> None" "room 1 bp"
  obtains b st where "HI_Insert (ib_index (ek_binding (keys ! i))) k rid bp = Some (b, st)"
    "tbl_to 1 first bp ps ixs b ps H (rid_sets base rid (if status_ok st then filled keys {i} g else g))"
    "status_ok st \<or> \<not> healthy bp"
proof -
  have h: "i < length hids" "ib_index (ek_binding (keys ! i)) = hids ! i" "valid_key k"
    using assms(2-4) by (auto simp: keys_ok_def)
  show ?thesis by (rule entry_insert[OF assms(1) h(1,3) assms(5,6)]) (rule that, simp_all add: h(2) filled_one(2)[OF assms(4)] split: if_splits)
qed

lemma key_remove:
  assumes "keyed first ps hids H base rid bp ixs g" "keys_ok hids keys" "i < length keys" "ek_key (keys ! i) = Some k"
  obtains b st where "HI_RemovePair (ib_index (ek_binding (keys ! i))) k rid bp = Some (b, st)"
    "tbl_to 0 first bp ps ixs b ps H (rid_sets base rid (if status_ok st then cleared keys {i} g else g))"
    "if status_ok st then k \<in> g i else if status_code st = NOT_FOUND then k \<notin> g i else \<not> healthy bp"
proof -
  have h: "i < length hids" "ib_index (ek_binding (keys ! i)) = hids ! i" "valid_key k"
    using assms(2-4) by (auto simp: keys_ok_def)
  show ?thesis by (rule entry_remove[OF assms(1) h(1,3)]) (rule that, simp_all add: h(2) cleared_one(2)[OF assms(4)] split: if_splits)
qed

lemma downto_step: "m \<le> n \<Longrightarrow> insert n {m..<n} = {m..<Suc n}"
  by auto

lemma rollback_inserted:
  assumes "keyed first ps hids H base rid bp ixs g" "keys_ok hids keys" "n \<le> length keys"
  shows "\<exists>b st m. RollbackInsertedIndexEntries rid keys n bp = Some (b, st) \<and> m \<le> n \<and>
    tbl_to 0 first bp ps ixs b ps H (rid_sets base rid (cleared keys {m..<n} g)) \<and>
    (if status_ok st then m = 0 else \<not> healthy bp)"
  using assms(1,3)
proof (induction n arbitrary: bp ixs g)
  case 0
  then show ?case using keyed_refl by fastforce
next
  case (Suc n)
  have n: "n < length keys" "n \<le> length keys" using Suc.prems(2) by simp_all
  have go: "\<exists>b' st m. RollbackInsertedIndexEntries rid keys n b = Some (b', st) \<and> m \<le> Suc n \<and>
      tbl_to 0 first bp ps ixs b' ps H (rid_sets base rid (cleared keys {m..<Suc n} g)) \<and>
      (if status_ok st then m = 0 else \<not> healthy bp)"
    if t: "tbl_to 0 first bp ps ixs b ps H (rid_sets base rid (cleared keys {n} g))" for b
  proof -
    obtain ixs1 where k: "keyed first ps hids H base rid b ixs1 (cleared keys {n} g)"
      "\<forall>n c ps2 H2 E2. tbl_to n first b ps ixs1 c ps2 H2 E2 \<longrightarrow> tbl_to (0 + n) first bp ps ixs c ps2 H2 E2"
      by (rule keyed_next[OF Suc.prems(1) t])
    obtain b' st m where i: "RollbackInsertedIndexEntries rid keys n b = Some (b', st)" "m \<le> n"
      "tbl_to 0 first b ps ixs1 b' ps H (rid_sets base rid (cleared keys {m..<n} (cleared keys {n} g)))"
      "if status_ok st then m = 0 else \<not> healthy b"
      using Suc.IH[OF k(1) n(2)] by blast
    have "tbl_to 0 first bp ps ixs b' ps H (rid_sets base rid (cleared keys {m..<Suc n} g))"
      using k(2)[rule_format, OF i(3)] i(2) by (simp add: cleared_step downto_step)
    then show ?thesis using i tbl_to_healthy[OF t] le_SucI by (metis (full_types))
  qed
  show ?case
  proof (cases "ek_key (keys ! n)")
    case None
    then show ?thesis using go[of bp] keyed_refl[OF Suc.prems(1)] by (simp add: cleared_one)
  next
    case (Some k)
    obtain b st where i: "HI_RemovePair (ib_index (ek_binding (keys ! n))) k rid bp = Some (b, st)"
      "tbl_to 0 first bp ps ixs b ps H (rid_sets base rid (if status_ok st then cleared keys {n} g else g))"
      "if status_ok st then k \<in> g n else if status_code st = NOT_FOUND then k \<notin> g n else \<not> healthy bp"
      by (rule key_remove[OF Suc.prems(1) assms(2) n(1) Some])
    show ?thesis
    proof (cases "status_ok st \<or> status_code st = NOT_FOUND")
      case True
      have "status_ok st \<or> cleared keys {n} g = g" using i(3) True by (auto simp: cleared_one(2)[OF Some] split: if_splits)
      then have "tbl_to 0 first bp ps ixs b ps H (rid_sets base rid (cleared keys {n} g))"
        using i(2) by (auto split: if_splits)
      from go[OF this] show ?thesis using Some i(1) True by auto
    next
      case False
      then show ?thesis using Some i by (intro exI[of _ b] exI[of _ st] exI[of _ "Suc n"]) auto
    qed
  qed
qed

text \<open>Deletion removes the keys position by position, and remembers where there was one.\<close>

lemma remove_entries:
  assumes "keyed first ps hids H base rid bp ixs g" "keys_ok hids keys" "c \<le> length keys"
    "\<And>i. c \<le> i \<Longrightarrow> i < length keys \<Longrightarrow> key_at keys i \<subseteq> g i"
  shows "\<exists>b n st. RemoveIndexEntries rid keys [c..<length keys] removed bp =
      Some (b, removed @ filter (\<lambda>i. ek_key (keys ! i) \<noteq> None) [c..<n], st) \<and> c \<le> n \<and> n \<le> length keys \<and>
    tbl_to 0 first bp ps ixs b ps H (rid_sets base rid (cleared keys {c..<n} g)) \<and>
    (if status_ok st then n = length keys else \<not> healthy bp)"
  using assms(1,3,4)
proof (induction "length keys - c" arbitrary: c bp ixs g removed)
  case 0
  then show ?case using keyed_refl[OF 0(2)] by fastforce
next
  case (Suc d)
  have c: "c < length keys" "[c..<length keys] = c # [Suc c..<length keys]" using Suc(2) upt_conv_Cons[of c "length keys"] by simp_all
  let ?r = "\<lambda>n. filter (\<lambda>i. ek_key (keys ! i) \<noteq> None) [c..<n]"
  have go: "\<exists>b' n st. RemoveIndexEntries rid keys [Suc c..<length keys] (removed @ ?r (Suc c)) b =
        Some (b', removed @ ?r n, st) \<and> c \<le> n \<and> n \<le> length keys \<and>
      tbl_to 0 first bp ps ixs b' ps H (rid_sets base rid (cleared keys {c..<n} g)) \<and>
      (if status_ok st then n = length keys else \<not> healthy bp)"
    if t: "tbl_to 0 first bp ps ixs b ps H (rid_sets base rid (cleared keys {c} g))" for b
  proof -
    obtain ixs1 where k: "keyed first ps hids H base rid b ixs1 (cleared keys {c} g)"
      "\<forall>n c ps2 H2 E2. tbl_to n first b ps ixs1 c ps2 H2 E2 \<longrightarrow> tbl_to (0 + n) first bp ps ixs c ps2 H2 E2"
      by (rule keyed_next[OF Suc.prems(1) t])
    have s: "\<And>i. Suc c \<le> i \<Longrightarrow> i < length keys \<Longrightarrow> key_at keys i \<subseteq> cleared keys {c} g i"
      using Suc.prems(3) by (simp add: cleared_def)
    have d: "d = length keys - Suc c" "Suc c \<le> length keys" using Suc(2) c(1) by simp_all
    obtain b' n st where i: "RemoveIndexEntries rid keys [Suc c..<length keys] (removed @ ?r (Suc c)) b =
        Some (b', (removed @ ?r (Suc c)) @ filter (\<lambda>i. ek_key (keys ! i) \<noteq> None) [Suc c..<n], st)" "Suc c \<le> n" "n \<le> length keys"
      "tbl_to 0 first b ps ixs1 b' ps H (rid_sets base rid (cleared keys {Suc c..<n} (cleared keys {c} g)))"
      "if status_ok st then n = length keys else \<not> healthy b"
      using Suc(1)[OF d(1) k(1) d(2) s, where removed = "removed @ ?r (Suc c)"] by blast
    have e: "[c..<n] = [c..<Suc c] @ [Suc c..<n]" using i(2) upt_conv_Cons[of c n] by simp
    have "tbl_to 0 first bp ps ixs b' ps H (rid_sets base rid (cleared keys {c..<n} g))"
      using k(2)[rule_format, OF i(4)] i(2) by (simp add: cleared_step upto_step)
    moreover have "removed @ ?r n = (removed @ ?r (Suc c)) @ filter (\<lambda>i. ek_key (keys ! i) \<noteq> None) [Suc c..<n]"
      unfolding e by simp
    ultimately show ?thesis using i(1-3,5) tbl_to_healthy[OF t]
      by (intro exI[of _ b'] exI[of _ n] exI[of _ st]) (auto simp del: upt_Suc filter.simps append_assoc split: if_splits)
  qed
  show ?case
  proof (cases "ek_key (keys ! c)")
    case None
    then show ?thesis using go[of bp] keyed_refl[OF Suc.prems(1)] c(2) by (simp add: cleared_one)
  next
    case (Some k)
    obtain b st where i: "HI_RemovePair (ib_index (ek_binding (keys ! c))) k rid bp = Some (b, st)"
      "tbl_to 0 first bp ps ixs b ps H (rid_sets base rid (if status_ok st then cleared keys {c} g else g))"
      "if status_ok st then k \<in> g c else if status_code st = NOT_FOUND then k \<notin> g c else \<not> healthy bp"
      by (rule key_remove[OF Suc.prems(1) assms(2) c(1) Some])
    show ?thesis
    proof (cases "status_ok st")
      case True
      then show ?thesis using go[of b] Some i(1,2) c(2) by simp
    next
      case False
      have "k \<in> g c" using Suc.prems(3)[of c] c(1) Some by (simp add: key_at_def)
      then have "\<not> healthy bp" using i(3) False by (auto split: if_splits)
      then show ?thesis using Some i False c by (intro exI[of _ b] exI[of _ c] exI[of _ st]) simp
    qed
  qed
qed

lemma reinsert_entries:
  assumes "keyed first ps hids H base rid bp ixs g" "keys_ok hids keys" "H rid \<noteq> None"
    "list_all (\<lambda>i. i < length keys \<and> ek_key (keys ! i) \<noteq> None) is" "distinct is" "room (length is) bp"
  shows "\<exists>b st P. ReinsertEntries rid keys is bp = Some (b, st) \<and>
    tbl_to (length is) first bp ps ixs b ps H (rid_sets base rid (filled keys P g)) \<and>
    (if status_ok st then P = set is else \<not> healthy bp)"
  using assms(1,4-6)
proof (induction "is" arbitrary: bp ixs g)
  case Nil
  then show ?case using keyed_refl[OF Nil(1), of 0] filled_empty by fastforce
next
  case (Cons i qs)
  have i: "i < length keys" "i \<notin> set qs" "distinct qs" "list_all (\<lambda>i. i < length keys \<and> ek_key (keys ! i) \<noteq> None) qs"
    using Cons.prems(2,3) by simp_all
  obtain k where k: "ek_key (keys ! i) = Some k" using Cons.prems(2) by auto
  have r: "room 1 bp" "room (1 + length qs) bp" using Cons.prems(4) by (auto intro: room_mono)
  obtain b st where e: "HI_Insert (ib_index (ek_binding (keys ! i))) k rid bp = Some (b, st)"
    "tbl_to 1 first bp ps ixs b ps H (rid_sets base rid (if status_ok st then filled keys {i} g else g))"
    "status_ok st \<or> \<not> healthy bp"
    by (rule key_insert[OF Cons.prems(1) assms(2) i(1) k assms(3) r(1)])
  show ?case
  proof (cases "status_ok st")
    case True
    then have t: "tbl_to 1 first bp ps ixs b ps H (rid_sets base rid (filled keys {i} g))" using e(2) by simp
    obtain ixs1 where n: "keyed first ps hids H base rid b ixs1 (filled keys {i} g)"
      "\<forall>n c ps2 H2 E2. tbl_to n first b ps ixs1 c ps2 H2 E2 \<longrightarrow> tbl_to (1 + n) first bp ps ixs c ps2 H2 E2"
      by (rule keyed_next[OF Cons.prems(1) t])
    obtain b' st' P where j: "ReinsertEntries rid keys qs b = Some (b', st')"
      "tbl_to (length qs) first b ps ixs1 b' ps H (rid_sets base rid (filled keys P (filled keys {i} g)))"
      "if status_ok st' then P = set qs else \<not> healthy b"
      using Cons.IH[OF n(1) i(4,3) tbl_to_room[OF t r(2)]] by blast
    have "filled keys P (filled keys {i} g) = filled keys (insert i P) g" by (auto simp: filled_def fun_eq_iff)
    then have "tbl_to (1 + length qs) first bp ps ixs b' ps H (rid_sets base rid (filled keys (insert i P) g))"
      using n(2)[rule_format, OF j(2)] by simp
    then show ?thesis using k e(1) True j(1,3) tbl_to_healthy[OF t]
      by (intro exI[of _ b'] exI[of _ st'] exI[of _ "insert i P"]) (auto split: if_splits)
  next
    case False
    have "tbl_to (1 + length qs) first bp ps ixs b ps H (rid_sets base rid (filled keys {} g))"
      using tbl_to_mono[OF e(2), of "1 + length qs"] False by simp
    then show ?thesis using k e False by (intro exI[of _ b] exI[of _ st] exI[of _ "{}"]) simp
  qed
qed

lemma rollback_removed:
  assumes "keyed first ps hids H base rid bp ixs (cleared keys {0..<n} (key_at keys))" "keys_ok hids keys" "H rid \<noteq> None"
    "n \<le> length keys" "room n bp"
  shows "\<exists>b st g. RollbackRemovedIndexEntries rid keys (filter (\<lambda>i. ek_key (keys ! i) \<noteq> None) [0..<n]) bp = Some (b, st) \<and>
    tbl_to n first bp ps ixs b ps H (rid_sets base rid g) \<and> (if status_ok st then g = key_at keys else \<not> healthy bp)"
proof -
  let ?qs = "rev (filter (\<lambda>i. ek_key (keys ! i) \<noteq> None) [0..<n])"
  have l: "length ?qs \<le> n" using length_filter_le[of _ "[0..<n]"] by (metis length_rev length_upt diff_zero)
  have q: "list_all (\<lambda>i. i < length keys \<and> ek_key (keys ! i) \<noteq> None) ?qs" "distinct ?qs"
    using assms(4) by (auto simp: list_all_iff)
  obtain b st P where e: "ReinsertEntries rid keys ?qs bp = Some (b, st)"
    "tbl_to (length ?qs) first bp ps ixs b ps H (rid_sets base rid (filled keys P (cleared keys {0..<n} (key_at keys))))"
    "if status_ok st then P = set ?qs else \<not> healthy bp"
    using reinsert_entries[OF assms(1-3) q room_mono[OF assms(5) l]] by blast
  have "filled keys (set ?qs) (cleared keys {0..<n} (key_at keys)) = key_at keys"
    by (auto simp: filled_def cleared_def key_at_def fun_eq_iff)
  then show ?thesis using e tbl_to_mono[OF e(2) l] by (auto simp: RollbackRemovedIndexEntries_def split: if_splits)
qed

section \<open>The loops of update\<close>

text \<open>The error says that a rollback failed: its text begins with \<open>ctxt\<close>.\<close>

definition rollback_failed :: "string list \<Rightarrow> status \<Rightarrow> bool" where
  "rollback_failed ctxts st \<longleftrightarrow> (\<exists>primary rollback ctxt. ctxt \<in> set ctxts \<and> \<not> status_ok rollback \<and>
     st = CombineFailure primary rollback ctxt)"

lemma SameOptionalKey_eq: "SameOptionalKey a b \<longleftrightarrow> a = b"
  by (cases a; cases b) (auto simp: SameOptionalKey_def)

lemma not_ok_combined: "\<not> status_ok st \<Longrightarrow> \<not> status_ok (CombineFailure st rb ctxt)"
  by (simp add: CombineFailure_def)

definition changes_ok :: "page_id list \<Rightarrow> index_binding list \<Rightarrow> string option list \<Rightarrow> string option list \<Rightarrow> bool" where
  "changes_ok hids bindings olds news \<longleftrightarrow> map ib_index bindings = hids \<and> length olds = length hids \<and> length news = length hids \<and>
     (\<forall>i < length hids. \<forall>k. olds ! i = Some k \<or> news ! i = Some k \<longrightarrow> valid_key k)"

abbreviation opt_at :: "string option list \<Rightarrow> nat \<Rightarrow> string set" where
  "opt_at ks i \<equiv> set_option (ks ! i)"

abbreviation local_rollback :: string where
  "local_rollback \<equiv> ''Update local index rollback failed''"

lemma enter_new_key:
  assumes n: "keyed first ps hids H base rid bp ixs (g(i := {}))" and "changes_ok hids bindings olds news" "i < length hids"
    "H rid \<noteq> None" "room 2 bp" "g i = opt_at olds i" "status_ok st" "ro = (olds ! i \<noteq> None)"
  shows "\<exists>b ins st' s. EnterNewKey rid (bindings ! i) (olds ! i) (news ! i) ro st bp = Some (b, ro, ins, st') \<and>
    tbl_to 2 first bp ps ixs b ps H (rid_sets base rid (g(i := s))) \<and>
    (if status_ok st' then s = opt_at news i \<and> ins = (news ! i \<noteq> None)
     else \<not> healthy bp \<and> (s = g i \<or> rollback_failed [local_rollback] st'))"
proof (cases "news ! i")
  case None
  then show ?thesis using assms(7) keyed_refl[OF n, of 2] by (auto simp: EnterNewKey_def intro!: exI[of _ "{}"])
next
  case (Some k)
  have h: "ib_index (bindings ! i) = hids ! i" using assms(2,3) by (auto simp: changes_ok_def)
  have v: "valid_key l" if "olds ! i = Some l \<or> news ! i = Some l" for l using assms(2,3) that by (auto simp: changes_ok_def)
  have r: "room 1 bp" "room (1 + 1) bp" using assms(5) by (auto intro: room_mono simp: numeral_2_eq_2)
  let ?g = "g(i := {})"
  obtain b1 st1 where e: "HI_Insert (hids ! i) k rid bp = Some (b1, st1)"
    "tbl_to 1 first bp ps ixs b1 ps H (rid_sets base rid (if status_ok st1 then ?g(i := insert k (?g i)) else ?g))"
    "status_ok st1 \<or> \<not> healthy bp"
    by (rule entry_insert[OF n assms(3) v[OF disjI2[OF Some]] assms(4) r(1)])
  consider "status_ok st1" | "\<not> status_ok st1" "olds ! i = None" | l where "\<not> status_ok st1" "olds ! i = Some l" by fastforce
  then show ?thesis
  proof cases
    case 1
    then show ?thesis using Some e(1) h tbl_to_mono[OF e(2), of 2] by (auto simp: EnterNewKey_def intro!: exI[of _ "{k}"])
  next
    case 2
    then show ?thesis using Some e h assms(6,8) tbl_to_mono[OF e(2), of 2]
      by (auto simp: EnterNewKey_def intro!: exI[of _ "{}"])
  next
    case 3
    have t1: "tbl_to 1 first bp ps ixs b1 ps H (rid_sets base rid ?g)" using e(2) 3(1) by simp
    obtain ixs2 where m: "keyed first ps hids H base rid b1 ixs2 ?g"
      "\<forall>n c ps2 H2 E2. tbl_to n first b1 ps ixs2 c ps2 H2 E2 \<longrightarrow> tbl_to (1 + n) first bp ps ixs c ps2 H2 E2"
      by (rule keyed_next[OF n t1])
    obtain b2 st2 where e2: "HI_Insert (hids ! i) l rid b1 = Some (b2, st2)"
      "tbl_to 1 first b1 ps ixs2 b2 ps H (rid_sets base rid (if status_ok st2 then ?g(i := insert l (?g i)) else ?g))"
      "status_ok st2 \<or> \<not> healthy b1"
      by (rule entry_insert[OF m(1) assms(3) v[OF disjI1[OF 3(2)]] assms(4) tbl_to_room[OF t1 r(2)]])
    have t2: "tbl_to 2 first bp ps ixs b2 ps H (rid_sets base rid (g(i := if status_ok st2 then {l} else {})))"
      using m(2)[rule_format, OF e2(2)] by (cases "status_ok st2") (simp_all add: numeral_2_eq_2)
    have "\<not> status_ok st2 \<Longrightarrow> rollback_failed [local_rollback] (CombineFailure st1 st2 local_rollback)"
      by (auto simp: rollback_failed_def)
    then show ?thesis using Some 3 e(1,3) e2(1) h assms(6,8) t2 not_ok_combined[OF 3(1)]
      by (intro exI[of _ b2] exI[of _ False] exI[of _ "if \<not> status_ok st2 then CombineFailure st1 st2 local_rollback else st1"]
          exI[of _ "if status_ok st2 then {l} else {}"]) (cases "status_ok st2"; simp add: EnterNewKey_def)
  qed
qed

lemma change_entry:
  assumes "keyed first ps hids H base rid bp ixs g" "changes_ok hids bindings olds news" "i < length hids"
    "H rid \<noteq> None" "room 2 bp" "g i = opt_at olds i"
  shows "\<exists>b ro ins st s. ChangeEntry rid (bindings ! i) (olds ! i) (news ! i) bp = Some (b, ro, ins, st) \<and>
    tbl_to 2 first bp ps ixs b ps H (rid_sets base rid (g(i := s))) \<and>
    (if status_ok st then s = opt_at news i \<and> ro = (olds ! i \<noteq> None) \<and> ins = (news ! i \<noteq> None)
     else \<not> healthy bp \<and> (s = g i \<or> rollback_failed [local_rollback] st))"
proof (cases "olds ! i")
  case None
  then have "g(i := {}) = g" using assms(6) fun_upd_idem[of g i "{}"] by simp
  then have "keyed first ps hids H base rid bp ixs (g(i := {}))" using assms(1) by simp
  from enter_new_key[OF this assms(2-6), of Status_OK False] None obtain b ins st s where
    "ChangeEntry rid (bindings ! i) (olds ! i) (news ! i) bp = Some (b, False, ins, st)"
    "tbl_to 2 first bp ps ixs b ps H (rid_sets base rid (g(i := s)))"
    "if status_ok st then s = opt_at news i \<and> ins = (news ! i \<noteq> None)
     else \<not> healthy bp \<and> (s = g i \<or> rollback_failed [local_rollback] st)" by (auto simp: ChangeEntry_def)
  then show ?thesis using None
    by (intro exI[of _ b] exI[of _ False] exI[of _ ins] exI[of _ st] exI[of _ s]) simp
next
  case (Some l)
  have h: "ib_index (bindings ! i) = hids ! i" "valid_key l" using assms(2,3) Some by (auto simp: changes_ok_def)
  obtain b st where e: "HI_RemovePair (hids ! i) l rid bp = Some (b, st)"
    "tbl_to 0 first bp ps ixs b ps H (rid_sets base rid (if status_ok st then g(i := g i - {l}) else g))"
    "if status_ok st then l \<in> g i else if status_code st = NOT_FOUND then l \<notin> g i else \<not> healthy bp"
    by (rule entry_remove[OF assms(1,3) h(2)])
  have gi: "g i = {l}" using assms(6) Some by simp
  show ?thesis
  proof (cases "status_ok st")
    case True
    then have t: "tbl_to 0 first bp ps ixs b ps H (rid_sets base rid (g(i := {})))" using e(2) gi by simp
    obtain ixs1 where n: "keyed first ps hids H base rid b ixs1 (g(i := {}))"
      "\<forall>n c ps2 H2 E2. tbl_to n first b ps ixs1 c ps2 H2 E2 \<longrightarrow> tbl_to (0 + n) first bp ps ixs c ps2 H2 E2"
      by (rule keyed_next[OF assms(1) t])
    have "room 2 b" using tbl_to_room[OF t, of 2] assms(5) by (simp only: add_0)
    from enter_new_key[OF n(1) assms(2-4) this assms(6) True, of True] Some e(1) True h(1) n(2) tbl_to_healthy[OF t]
    show ?thesis by (fastforce simp: ChangeEntry_def)
  next
    case False
    have "tbl_to 2 first bp ps ixs b ps H (rid_sets base rid (g(i := g i)))" using tbl_to_mono[OF e(2), of 2] False by simp
    moreover have "\<not> healthy bp" using e(3) False gi by (auto split: if_splits)
    ultimately show ?thesis using Some e(1) False h(1) by (auto simp: ChangeEntry_def intro!: exI[of _ "g i"])
  qed
qed


text \<open>The changes of a run of the loop, in its order.\<close>

definition change_at :: "string option list \<Rightarrow> string option list \<Rightarrow> nat \<Rightarrow> applied_change" where
  "change_at olds news i = \<lparr>ac_position = i, ac_removed_old = (olds ! i \<noteq> None), ac_inserted_new = (news ! i \<noteq> None)\<rparr>"

definition changed :: "string option list \<Rightarrow> string option list \<Rightarrow> nat list \<Rightarrow> nat list" where
  "changed olds news is = filter (\<lambda>i. olds ! i \<noteq> news ! i) is"

definition moved :: "string option list \<Rightarrow> nat set \<Rightarrow> (nat \<Rightarrow> string set) \<Rightarrow> nat \<Rightarrow> string set" where
  "moved ks P g i = (if i \<in> P then opt_at ks i else g i)"

lemma moved_step: "moved ks P (g(i := opt_at ks i)) = moved ks (insert i P) g"
  by (auto simp: moved_def fun_eq_iff)

lemma moved_empty [simp]: "moved ks {} g = g"
  by (simp add: moved_def fun_eq_iff)

lemma change_entries:
  assumes "keyed first ps hids H base rid bp ixs g" "changes_ok hids bindings olds news" "H rid \<noteq> None"
    "list_all (\<lambda>i. i < length hids \<and> g i = opt_at olds i) is" "distinct is" "room (2 * length is) bp"
  shows "\<exists>b ds st g'. ChangeEntries rid bindings olds news is applied bp =
      Some (b, applied @ map (change_at olds news) (changed olds news ds), st) \<and>
    tbl_to (2 * length is) first bp ps ixs b ps H (rid_sets base rid g') \<and> set ds \<subseteq> set is \<and> distinct ds \<and>
    (\<forall>j. j \<in> set ds \<longrightarrow> g' j = opt_at news j) \<and> (\<forall>j. j \<notin> set is \<longrightarrow> g' j = g j) \<and>
    (if status_ok st then ds = is \<and> g' = moved news (set is) g
     else \<not> healthy bp \<and> (g' = moved news (set ds) g \<or> rollback_failed [local_rollback] st))"
  using assms(1,4-6)
proof (induction "is" arbitrary: bp ixs g applied)
  case Nil
  then show ?case using keyed_refl[OF Nil(1), of 0]
    by (intro exI[of _ bp] exI[of _ "[]"] exI[of _ Status_OK] exI[of _ g]) (simp add: changed_def)
next
  case (Cons i qs)
  have i: "i < length hids" "g i = opt_at olds i" "i \<notin> set qs" "distinct qs" using Cons.prems(2,3) by simp_all
  have r: "room 2 bp" "room (2 + 2 * length qs) bp" using Cons.prems(4) by (auto intro: room_mono)
  let ?is = "i # qs"
  have go: "\<exists>b' ds st g'. ChangeEntries rid bindings olds news qs (applied @ map (change_at olds news) (changed olds news [i])) b =
        Some (b', applied @ map (change_at olds news) (changed olds news ds), st) \<and>
      tbl_to (2 * length ?is) first bp ps ixs b' ps H (rid_sets base rid g') \<and> set ds \<subseteq> set ?is \<and> distinct ds \<and>
      (\<forall>j. j \<in> set ds \<longrightarrow> g' j = opt_at news j) \<and> (\<forall>j. j \<notin> set ?is \<longrightarrow> g' j = g j) \<and>
      (if status_ok st then ds = ?is \<and> g' = moved news (set ?is) g
       else \<not> healthy bp \<and> (g' = moved news (set ds) g \<or> rollback_failed [local_rollback] st))"
    if t: "tbl_to 2 first bp ps ixs b ps H (rid_sets base rid (g(i := opt_at news i)))" for b
  proof -
    obtain ixs1 where n: "keyed first ps hids H base rid b ixs1 (g(i := opt_at news i))"
      "\<forall>n c ps2 H2 E2. tbl_to n first b ps ixs1 c ps2 H2 E2 \<longrightarrow> tbl_to (2 + n) first bp ps ixs c ps2 H2 E2"
      by (rule keyed_next[OF Cons.prems(1) t])
    have a: "list_all (\<lambda>j. j < length hids \<and> (g(i := opt_at news i)) j = opt_at olds j) qs"
      using Cons.prems(2) i(3) by (auto simp: list_all_iff)
    obtain b' ds st g' where j: "ChangeEntries rid bindings olds news qs (applied @ map (change_at olds news) (changed olds news [i])) b =
        Some (b', (applied @ map (change_at olds news) (changed olds news [i])) @ map (change_at olds news) (changed olds news ds), st)"
      "tbl_to (2 * length qs) first b ps ixs1 b' ps H (rid_sets base rid g')" "set ds \<subseteq> set qs" "distinct ds"
      "\<forall>j. j \<in> set ds \<longrightarrow> g' j = opt_at news j" "\<forall>j. j \<notin> set qs \<longrightarrow> g' j = (g(i := opt_at news i)) j"
      "if status_ok st then ds = qs \<and> g' = moved news (set qs) (g(i := opt_at news i))
       else \<not> healthy b \<and> (g' = moved news (set ds) (g(i := opt_at news i)) \<or> rollback_failed [local_rollback] st)"
      using Cons.IH[OF n(1) a i(4) tbl_to_room[OF t r(2)], of "applied @ map (change_at olds news) (changed olds news [i])"]
      by (elim exE conjE) (rule that)
    have e: "ChangeEntries rid bindings olds news qs (applied @ map (change_at olds news) (changed olds news [i])) b =
        Some (b', applied @ map (change_at olds news) (changed olds news (i # ds)), st)"
      using j(1) by (simp add: changed_def)
    have t1: "tbl_to (2 * length ?is) first bp ps ixs b' ps H (rid_sets base rid g')" using n(2)[rule_format, OF j(2)] by simp
    have d: "set (i # ds) \<subseteq> set ?is" "distinct (i # ds)" "\<forall>k. k \<in> set (i # ds) \<longrightarrow> g' k = opt_at news k"
      "\<forall>k. k \<notin> set ?is \<longrightarrow> g' k = g k"
      using j(3-6) i(3) by auto
    have r: "if status_ok st then i # ds = ?is \<and> g' = moved news (set ?is) g
        else \<not> healthy bp \<and> (g' = moved news (set (i # ds)) g \<or> rollback_failed [local_rollback] st)"
      using j(7) tbl_to_healthy[OF t] by (auto simp: moved_step split: if_splits)
    show ?thesis by (intro exI[of _ b'] exI[of _ "i # ds"] exI[of _ st] exI[of _ g'] conjI) (rule e t1 d r)+
  qed
  show ?case
  proof (cases "olds ! i = news ! i")
    case True
    then have "g(i := opt_at news i) = g" using i(2) by (simp add: fun_upd_idem)
    then show ?thesis using go[of bp] keyed_refl[OF Cons.prems(1), of 2] True by (simp add: SameOptionalKey_eq changed_def)
  next
    case False
    obtain b ro ins st s where c: "ChangeEntry rid (bindings ! i) (olds ! i) (news ! i) bp = Some (b, ro, ins, st)"
      "tbl_to 2 first bp ps ixs b ps H (rid_sets base rid (g(i := s)))"
      "if status_ok st then s = opt_at news i \<and> ro = (olds ! i \<noteq> None) \<and> ins = (news ! i \<noteq> None)
       else \<not> healthy bp \<and> (s = g i \<or> rollback_failed [local_rollback] st)"
      using change_entry[OF Cons.prems(1) assms(2) i(1) assms(3) r(1) i(2)] by blast
    show ?thesis
    proof (cases "status_ok st")
      case True
      then have "ChangeEntries rid bindings olds news ?is applied bp =
          ChangeEntries rid bindings olds news qs (applied @ map (change_at olds news) (changed olds news [i])) b"
        "tbl_to 2 first bp ps ixs b ps H (rid_sets base rid (g(i := opt_at news i)))"
        using c False by (simp_all add: SameOptionalKey_eq changed_def change_at_def)
      then show ?thesis using go[of b] by (simp only:)
    next
      case bad: False
      define g1 where "g1 = g(i := s)"
      have "tbl_to (2 * length ?is) first bp ps ixs b ps H (rid_sets base rid g1)" using tbl_to_mono[OF c(2)] by (simp add: g1_def)
      moreover have "\<forall>j. j \<notin> set ?is \<longrightarrow> g1 j = g j" by (simp add: g1_def)
      moreover have "g1 = g \<or> rollback_failed [local_rollback] st" "\<not> healthy bp" using c(3) bad by (auto simp: g1_def)
      ultimately show ?thesis using c(1) bad False
        by (intro exI[of _ b] exI[of _ "[]"] exI[of _ st] exI[of _ g1]) (simp add: SameOptionalKey_eq changed_def)
    qed
  qed
qed


text \<open>The undoing of one change; an error that was there before stays.\<close>

lemma undo_change:
  assumes "keyed first ps hids H base rid bp ixs g" "changes_ok hids bindings olds news" "i < length hids"
    "H rid \<noteq> None" "room 1 bp" "g i = opt_at news i"
  shows "\<exists>b rs' s. UndoChange rid bindings olds news (change_at olds news i) rs bp = Some (b, rs') \<and>
    tbl_to 1 first bp ps ixs b ps H (rid_sets base rid (g(i := s))) \<and>
    (if status_ok rs' then s = opt_at olds i \<and> status_ok rs else \<not> status_ok rs \<or> \<not> healthy bp)"
proof -
  have h: "ib_index (bindings ! i) = hids ! i" using assms(2,3) by (auto simp: changes_ok_def)
  have v: "valid_key l" if "olds ! i = Some l \<or> news ! i = Some l" for l using assms(2,3) that by (auto simp: changes_ok_def)
  obtain b rs1 s1 where e1: "(if news ! i \<noteq> None
      then map_option (\<lambda>(bp, remove_status).
          (bp, if \<not> status_ok remove_status \<and> status_code remove_status \<noteq> NOT_FOUND \<and> status_ok rs
               then remove_status else rs))
        (HI_RemovePair (hids ! i) (the (news ! i)) rid bp)
      else Some (bp, rs)) = Some (b, rs1)"
    "tbl_to 0 first bp ps ixs b ps H (rid_sets base rid (g(i := s1)))"
    "if status_ok rs1 then s1 = {} \<and> status_ok rs else \<not> status_ok rs \<or> \<not> healthy bp"
  proof (cases "news ! i")
    case None
    then have "g(i := {}) = g" using assms(6) by (simp add: fun_upd_idem)
    then show ?thesis using that[of bp rs "{}"] None keyed_refl[OF assms(1), of 0] by (cases "status_ok rs") simp_all
  next
    case (Some k)
    obtain b st where r: "HI_RemovePair (hids ! i) k rid bp = Some (b, st)"
      "tbl_to 0 first bp ps ixs b ps H (rid_sets base rid (if status_ok st then g(i := g i - {k}) else g))"
      "if status_ok st then k \<in> g i else if status_code st = NOT_FOUND then k \<notin> g i else \<not> healthy bp"
      by (rule entry_remove[OF assms(1,3) v[OF disjI2[OF Some]]])
    have g: "g i = {k}" "g(i := {k}) = g" using assms(6) Some by (simp_all add: fun_upd_idem)
    show ?thesis
      by (rule that[of b "if \<not> status_ok st \<and> status_code st \<noteq> NOT_FOUND \<and> status_ok rs then st else rs"
          "if status_ok st then {} else {k}"]) (use Some r g in \<open>auto split: if_splits\<close>)
  qed
  obtain ixs1 where n: "keyed first ps hids H base rid b ixs1 (g(i := s1))"
    "\<forall>n c ps2 H2 E2. tbl_to n first b ps ixs1 c ps2 H2 E2 \<longrightarrow> tbl_to (0 + n) first bp ps ixs c ps2 H2 E2"
    by (rule keyed_next[OF assms(1) e1(2)])
  have r1: "room 1 b" using tbl_to_room[OF e1(2), of 1] assms(5) by (simp only: add_0)
  note S = UndoChange_def Let_def change_at_def applied_change.simps h
  show ?thesis
  proof (cases "olds ! i")
    case None
    have "UndoChange rid bindings olds news (change_at olds news i) rs bp = Some (b, rs1)"
      unfolding S using e1(1) None by simp
    then show ?thesis using None e1(3) tbl_to_mono[OF e1(2), of 1]
      by (intro exI[of _ b] exI[of _ rs1] exI[of _ s1]) (cases "status_ok rs1"; simp)
  next
    case (Some l)
    obtain b2 st where r: "HI_Insert (hids ! i) l rid b = Some (b2, st)"
      "tbl_to 1 first b ps ixs1 b2 ps H (rid_sets base rid (if status_ok st then (g(i := s1))(i := insert l ((g(i := s1)) i)) else g(i := s1)))"
      "status_ok st \<or> \<not> healthy b"
      by (rule entry_insert[OF n(1) assms(3) v[OF disjI1[OF Some]] assms(4) r1])
    let ?rs = "if \<not> status_ok st \<and> status_ok rs1 then st else rs1"
    have "UndoChange rid bindings olds news (change_at olds news i) rs bp = Some (b2, ?rs)"
      unfolding S using e1(1) Some r(1) by simp
    moreover have "tbl_to 1 first bp ps ixs b2 ps H (rid_sets base rid (g(i := if status_ok st then insert l s1 else s1)))"
      using n(2)[rule_format, OF r(2)] by (cases "status_ok st") simp_all
    ultimately show ?thesis using Some e1(3) r(3) tbl_to_healthy[OF e1(2)]
      by (intro exI[of _ b2] exI[of _ ?rs] exI[of _ "if status_ok st then insert l s1 else s1"]) (auto split: if_splits)
  qed
qed

lemma undo_changes:
  assumes "keyed first ps hids H base rid bp ixs g" "changes_ok hids bindings olds news" "H rid \<noteq> None"
    "list_all (\<lambda>i. i < length hids \<and> g i = opt_at news i) is" "distinct is" "room (length is) bp"
  shows "\<exists>b rs' g'. UndoChanges rid bindings olds news (map (change_at olds news) is) rs bp = Some (b, rs') \<and>
    tbl_to (length is) first bp ps ixs b ps H (rid_sets base rid g') \<and>
    (if status_ok rs' then g' = moved olds (set is) g \<and> status_ok rs else \<not> status_ok rs \<or> \<not> healthy bp)"
  using assms(1,4-6)
proof (induction "is" arbitrary: bp ixs g rs)
  case Nil
  then show ?case using keyed_refl[OF Nil(1), of 0] by (intro exI[of _ bp] exI[of _ rs] exI[of _ g]) simp
next
  case (Cons i qs)
  have i: "i < length hids" "g i = opt_at news i" "i \<notin> set qs" "distinct qs" using Cons.prems(2,3) by simp_all
  have r: "room 1 bp" "room (1 + length qs) bp" using Cons.prems(4) by (auto intro: room_mono)
  obtain b rs1 s where u: "UndoChange rid bindings olds news (change_at olds news i) rs bp = Some (b, rs1)"
    "tbl_to 1 first bp ps ixs b ps H (rid_sets base rid (g(i := s)))"
    "if status_ok rs1 then s = opt_at olds i \<and> status_ok rs else \<not> status_ok rs \<or> \<not> healthy bp"
    using undo_change[OF Cons.prems(1) assms(2) i(1) assms(3) r(1) i(2)] by blast
  obtain ixs1 where n: "keyed first ps hids H base rid b ixs1 (g(i := s))"
    "\<forall>n c ps2 H2 E2. tbl_to n first b ps ixs1 c ps2 H2 E2 \<longrightarrow> tbl_to (1 + n) first bp ps ixs c ps2 H2 E2"
    by (rule keyed_next[OF Cons.prems(1) u(2)])
  have a: "list_all (\<lambda>j. j < length hids \<and> (g(i := s)) j = opt_at news j) qs"
    using Cons.prems(2) i(3) by (auto simp: list_all_iff)
  obtain b' rs' g' where j: "UndoChanges rid bindings olds news (map (change_at olds news) qs) rs1 b = Some (b', rs')"
    "tbl_to (length qs) first b ps ixs1 b' ps H (rid_sets base rid g')"
    "if status_ok rs' then g' = moved olds (set qs) (g(i := s)) \<and> status_ok rs1 else \<not> status_ok rs1 \<or> \<not> healthy b"
    using Cons.IH[OF n(1) a i(4) tbl_to_room[OF u(2) r(2)]] by blast
  have "tbl_to (length (i # qs)) first bp ps ixs b' ps H (rid_sets base rid g')" using n(2)[rule_format, OF j(2)] by simp
  then show ?case using u(1,3) j(1,3) tbl_to_healthy[OF u(2)]
    by (intro exI[of _ b'] exI[of _ rs'] exI[of _ g']) (auto simp: moved_step split: if_splits)
qed

end
