(* ===== verification/Table_Correct.thy ===== *)
theory Table_Correct
  imports Table_Entries
begin

text \<open>
  The operations of the table storage on a table of the catalog: the heap file holds the records, and
  each index holds exactly the keys of the records. An operation that fails restores both, or its
  status says that a rollback failed.
\<close>

section \<open>The keys of a record\<close>

definition row_key :: "schema \<Rightarrow> nat \<Rightarrow> byte list \<Rightarrow> string option" where
  "row_key sch c d = (case GetValue sch (Record default_rid d) c of
     Inl _ \<Rightarrow> None | Inr v \<Rightarrow> (case Encode v of Inl _ \<Rightarrow> None | Inr k \<Rightarrow> Some k))"

definition table_keys :: "schema \<Rightarrow> index_binding list \<Rightarrow> (record_id \<Rightarrow> byte list option) \<Rightarrow> entry set list" where
  "table_keys sch bs H = map (\<lambda>b. {(k, r). \<exists>d. H r = Some d \<and> row_key sch (ib_column_index b) d = Some k}) bs"

lemma row_key_valid: "row_key sch c d = Some k \<Longrightarrow> valid_key k"
  by (auto simp: row_key_def valid_key_def dest: Encode_length split: sum.splits)

lemma GetValue_data: "GetValue sch (Record r d) c = GetValue sch (Record r' d) c"
  by (simp add: GetValue_def Deserialize_def GetSize_def)

lemma EncodeIndexKeys_spec:
  assumes "EncodeIndexKeys sch r bs = Inr keys"
  shows "keys = map (\<lambda>b. \<lparr>ek_binding = b, ek_key = row_key sch (ib_column_index b) (rec_data r)\<rparr>) bs"
proof -
  have s: "ks' = ks @ [\<lparr>ek_binding = b, ek_key = row_key sch (ib_column_index b) (rec_data r)\<rparr>]"
    if "EncodeIndexKey sch r b ks = Inr ks'" for b ks ks'
    using that GetValue_data[where r = "rec_rid r" and d = "rec_data r" and r' = default_rid]
    by (auto simp: EncodeIndexKey_def row_key_def Encode_def split: sum.splits if_splits)
  have "for_each (EncodeIndexKey sch r) bs ks = Inr keys \<Longrightarrow>
      keys = ks @ map (\<lambda>b. \<lparr>ek_binding = b, ek_key = row_key sch (ib_column_index b) (rec_data r)\<rparr>) bs" for ks
  proof (induction bs arbitrary: ks)
    case (Cons b bs)
    then obtain ks' where k: "EncodeIndexKey sch r b ks = Inr ks'" "for_each (EncodeIndexKey sch r) bs ks' = Inr keys"
      by (auto split: sum.splits)
    show ?case unfolding Cons.IH[OF k(2)] s[OF k(1)] by simp
  qed simp
  from this[of "[]"] show ?thesis using assms by (simp add: EncodeIndexKeys_def)
qed

lemma encoded_ok:
  assumes "EncodeIndexKeys sch r bs = Inr keys"
  shows "keys_ok (map ib_index bs) keys" "length keys = length bs"
    "i < length bs \<Longrightarrow> key_at keys i = set_option (row_key sch (ib_column_index (bs ! i)) (rec_data r))"
    "i < length bs \<Longrightarrow> ek_key (keys ! i) = row_key sch (ib_column_index (bs ! i)) (rec_data r)"
  using EncodeIndexKeys_spec[OF assms] by (auto simp: keys_ok_def key_at_def intro: row_key_valid)

section \<open>The error statuses\<close>

lemma Serialize_error: "Serialize sch vs (Some r) = Inl st \<Longrightarrow> \<not> status_ok st"
proof -
  have "for_each (Serialize_step sch vs) is s = Inl e \<Longrightarrow> \<not> status_ok e" for "is" s e
    by (erule for_each_error)
      (auto simp: Serialize_step_def Let_def split: prod.splits if_splits type_id.splits field_value.splits)
  then show "Serialize sch vs (Some r) = Inl st \<Longrightarrow> \<not> status_ok st"
    by (auto simp: Serialize_def Let_def split: if_splits sum.splits prod.splits)
qed

lemma GetValue_error: "GetValue sch r c = Inl st \<Longrightarrow> \<not> status_ok st"
proof -
  have "for_each (CheckOffset_step n) is s = Inl e \<Longrightarrow> \<not> status_ok e" for n "is" s e
    by (erule for_each_error) (auto simp: CheckOffset_step_def split: if_splits)
  moreover have "for_each (Deserialize_step sch nb os p) is s = Inl e \<Longrightarrow> \<not> status_ok e" for nb os p "is" s e
    by (erule for_each_error) (auto simp: Deserialize_step_def Let_def split: if_splits type_id.splits)
  ultimately show "GetValue sch r c = Inl st \<Longrightarrow> \<not> status_ok st"
    by (auto simp: GetValue_def Deserialize_def Let_def split: if_splits sum.splits)
qed

lemma EncodeIndexKeys_error: "EncodeIndexKeys sch r bs = Inl st \<Longrightarrow> \<not> status_ok st"
  unfolding EncodeIndexKeys_def
  by (erule for_each_error)
    (auto simp: EncodeIndexKey_def Encode_def dest: GetValue_error split: sum.splits if_splits field_value.splits)

lemma HF_GetRecord_error: "HF_GetRecord rid bp = (b, Inl st) \<Longrightarrow> \<not> status_ok st"
  by (auto simp: HF_GetRecord_def SP_ReadRecord_def Let_def split: if_splits option.splits prod.splits bool.splits)

section \<open>A table whose indexes are in step with its records\<close>

definition table_ok ::
  "schema \<Rightarrow> index_binding list \<Rightarrow> page_id \<Rightarrow> pool \<Rightarrow> page_id list \<Rightarrow> index_objects \<Rightarrow> bool" where
  "table_ok sch bs first bp ps ixs \<longleftrightarrow> tbl_state bp first ps ixs \<and> map fst ixs = map ib_index bs \<and>
     ix_sets bp ixs = table_keys sch bs (heap_contents (pool_page bp) ps)"

text \<open>The operation has led from \<open>bp\<close> to \<open>b\<close>: the table holds \<open>H\<close> and is in step, on its pages and pages
  nobody used; pages that are not its own are as they were, so is what the clients have pinned, and at
  most \<open>n\<close> pages have been added.\<close>

definition table_became ::
  "nat \<Rightarrow> schema \<Rightarrow> index_binding list \<Rightarrow> page_id \<Rightarrow> pool \<Rightarrow> page_id list \<Rightarrow> index_objects \<Rightarrow> pool \<Rightarrow>
   (record_id \<Rightarrow> byte list option) \<Rightarrow> bool" where
  "table_became n sch bs first bp ps ixs b H \<longleftrightarrow> outside_kept (tbl_pages ps ixs) bp b \<and> (healthy bp \<longrightarrow> healthy b) \<and> adds n bp b \<and>
     (\<exists>ps' ixs'. table_ok sch bs first b ps' ixs' \<and> grows (tbl_pages ps ixs) (tbl_pages ps' ixs') bp \<and>
        heap_contents (pool_page b) ps' = H)"

lemma tbl_to_became:
  assumes "tbl_to n first bp ps ixs b ps' H (table_keys sch bs H)" "map fst ixs = map ib_index bs"
  shows "table_became n sch bs first bp ps ixs b H"
  using assms tbl_to_healthy[OF assms(1)] unfolding table_became_def table_ok_def tbl_to_def by fastforce

lemma table_keys_length [simp]: "length (table_keys sch bs H) = length bs"
  by (simp add: table_keys_def)

lemma fresh_keys: "H rid = None \<Longrightarrow> fresh rid (table_keys sch bs H)"
  by (simp add: fresh_def table_keys_def)

text \<open>The entries of a table, seen from one record.\<close>

lemma table_keys_of:
  assumes "\<And>i. i < length bs \<Longrightarrow> g i = set_option (row_key sch (ib_column_index (bs ! i)) d)"
  shows "table_keys sch bs (H(rid \<mapsto> d)) = rid_sets (table_keys sch bs (H(rid := None))) rid g"
proof (rule nth_equalityI)
  fix i assume "i < length (table_keys sch bs (H(rid \<mapsto> d)))"
  then have i: "i < length bs" by simp
  show "table_keys sch bs (H(rid \<mapsto> d)) ! i = rid_sets (table_keys sch bs (H(rid := None))) rid g ! i"
    using i assms[OF i] by (auto simp: rid_sets_nth table_keys_def split: if_splits)
qed simp

lemma table_keys_none: "rid_sets base rid (\<lambda>_. {}) = base"
  by (rule nth_equalityI) (simp_all add: rid_sets_nth)

lemma table_of_record:
  assumes "table_ok sch bs first bp ps ixs" "heap_contents (pool_page bp) ps rid = Some d"
    "\<And>i. i < length bs \<Longrightarrow> g i = set_option (row_key sch (ib_column_index (bs ! i)) d)"
  shows "keyed first ps (map ib_index bs) (heap_contents (pool_page bp) ps)
    (table_keys sch bs ((heap_contents (pool_page bp) ps)(rid := None))) rid bp ixs g"
proof -
  let ?H = "heap_contents (pool_page bp) ps"
  have "?H = ?H(rid \<mapsto> d)" using assms(2) by (simp add: fun_upd_idem)
  then have "table_keys sch bs ?H = rid_sets (table_keys sch bs (?H(rid := None))) rid g"
    using table_keys_of[OF assms(3), of "?H" rid] by simp
  then show ?thesis using assms(1) by (simp add: keyed_def table_ok_def fresh_keys)
qed


section \<open>Insertion\<close>

lemma table_first:
  assumes "tbl_state bp first ps ixs"
  shows "new_HeapFile first = Inr first"
proof -
  have hf: "hf_state bp first ps" using assms by (simp add: tbl_state_def)
  then have "first \<in> set ps" by (cases ps) (auto simp: hf_state_def)
  from hf_page(2)[OF hf this] show ?thesis by (simp add: new_HeapFile_def layout_simps)
qed

definition insert_rollbacks :: "string list" where
  "insert_rollbacks = [''Insert index rollback failed'', ''Insert HeapFile rollback failed'']"

lemma rollback_failedI: "\<not> status_ok r \<Longrightarrow> ctxt \<in> set ctxts \<Longrightarrow> rollback_failed ctxts (CombineFailure st r ctxt)"
  by (auto simp: rollback_failed_def)

text \<open>From the point where the heap file has the record.\<close>

lemma insert_undone:
  assumes K: "keyed first ps hids (H(rid \<mapsto> d)) base rid bp ixs (filled keys {0..<n} (\<lambda>_. {}))" and "keys_ok hids keys"
    "H rid = None" "n \<le> length keys"
  shows "\<exists>b ir b' hr. RollbackInsertedIndexEntries rid keys n bp = Some (b, ir) \<and> HF_DeleteRecord rid b = (b', hr) \<and>
    (status_ok ir \<and> status_ok hr \<longrightarrow> tbl_to 0 first bp ps ixs b' ps H base)"
proof -
  let ?g = "\<lambda>m. cleared keys {m..<n} (filled keys {0..<n} (\<lambda>_. {}))"
  obtain b ir m where r: "RollbackInsertedIndexEntries rid keys n bp = Some (b, ir)" "m \<le> n"
    "tbl_to 0 first bp ps ixs b ps (H(rid \<mapsto> d)) (rid_sets base rid (?g m))" "if status_ok ir then m = 0 else \<not> healthy bp"
    using rollback_inserted[OF K assms(2,4)] by blast
  obtain ixs2 where l: "keyed first ps hids (H(rid \<mapsto> d)) base rid b ixs2 (?g m)"
    "\<forall>m c ps2 H2 E2. tbl_to m first b ps ixs2 c ps2 H2 E2 \<longrightarrow> tbl_to (0 + m) first bp ps ixs c ps2 H2 E2"
    by (rule keyed_next[OF K r(3)])
  obtain b' hr where h: "HF_DeleteRecord rid b = (b', hr)" by (cases "HF_DeleteRecord rid b")
  have T: "tbl_state b first ps ixs2" "heap_contents (pool_page b) ps = H(rid \<mapsto> d)" "ix_sets b ixs2 = rid_sets base rid (?g m)"
    using l(1) by (simp_all add: keyed_def)
  have "rid_page rid \<in> set ps" by (rule heap_rid_page[of "pool_page b"]) (simp add: T(2))
  note D = tbl_delete_record[OF T(1) this h]
  have "tbl_to 0 first bp ps ixs b' ps H base" if "status_ok ir" "status_ok hr"
  proof -
    have "?g m = (\<lambda>_. {})" using r(4) that(1) by (auto simp: cleared_def filled_def fun_eq_iff)
    then have E: "ix_sets b ixs2 = base" using T(3) by (simp add: table_keys_none)
    have "(H(rid \<mapsto> d))(rid := None) = H" using assms(3) by (simp add: fun_upd_idem)
    then have "tbl_to 0 first b ps ixs2 b' ps H base" using D that(2) T(2) E by simp
    from l(2)[rule_format, OF this] show ?thesis by simp
  qed
  then show ?thesis using r(1) h by auto
qed

lemma insert_indexes:
  assumes K: "keyed first ps hids (H(rid \<mapsto> d)) base rid bp ixs (\<lambda>_. {})" and "keys_ok hids keys" "H rid = None"
    "room (length keys) bp"
  shows "\<exists>b res. InsertIndexes rid keys bp = Some (b, res) \<and> (case res of
      Inr r \<Rightarrow> r = rid \<and> tbl_to (length keys) first bp ps ixs b ps (H(rid \<mapsto> d)) (rid_sets base rid (key_at keys))
    | Inl st \<Rightarrow> \<not> healthy bp \<and>
        (tbl_to (length keys) first bp ps ixs b ps H base \<or> rollback_failed insert_rollbacks st))"
proof -
  have len: "length base = length keys" using K assms(2) by (simp add: keyed_def keys_ok_def)
  obtain b n st where i: "InsertIndexEntries rid keys 0 bp = Some (b, n, st)" "n \<le> max 0 (length keys)"
    "tbl_to (length keys) first bp ps ixs b ps (H(rid \<mapsto> d)) (rid_sets base rid (filled keys {0..<n} (\<lambda>_. {})))"
    "if status_ok st then length keys \<le> n else \<not> healthy bp"
    using insert_entries[OF K assms(2) _ _ assms(4), of 0] by auto
  show ?thesis
  proof (cases "status_ok st")
    case True
    then have "rid_sets base rid (filled keys {0..<n} (\<lambda>_. {})) = rid_sets base rid (key_at keys)"
      using i(2,4) len by (intro rid_sets_cong) (simp add: filled_def)
    then show ?thesis using i(1,3) True by (simp add: InsertIndexes_def)
  next
    case False
    obtain ixs1 where k: "keyed first ps hids (H(rid \<mapsto> d)) base rid b ixs1 (filled keys {0..<n} (\<lambda>_. {}))"
      "\<forall>m c ps2 H2 E2. tbl_to m first b ps ixs1 c ps2 H2 E2 \<longrightarrow> tbl_to (length keys + m) first bp ps ixs c ps2 H2 E2"
      by (rule keyed_next[OF K i(3)])
    obtain b1 ir b2 hr where u: "RollbackInsertedIndexEntries rid keys n b = Some (b1, ir)" "HF_DeleteRecord rid b1 = (b2, hr)"
      "status_ok ir \<and> status_ok hr \<longrightarrow> tbl_to 0 first b ps ixs1 b2 ps H base"
      using insert_undone[OF k(1) assms(2,3), of] i(2) by auto
    have "status_ok ir \<and> status_ok hr \<longrightarrow> tbl_to (length keys) first bp ps ixs b2 ps H base"
      using k(2)[rule_format, of 0 b2 ps H base] u(3) by simp
    then show ?thesis using i(1,4) False u(1,2)
      by (auto simp: InsertIndexes_def insert_rollbacks_def intro!: rollback_failedI)
  qed
qed

lemma insert_record_spec:
  assumes "LoadTable ts name = Inr (sch, first, bs)" "table_ok sch bs first bp ps ixs" "room (1 + length bs) bp"
  shows "\<exists>b res. TS_InsertRecord ts name vs bp = Some (b, res) \<and> (case res of
      Inr rid \<Rightarrow> heap_contents (pool_page bp) ps rid = None \<and> (\<exists>r. Serialize sch vs (Some empty_record) = Inr r \<and>
        table_became (1 + length bs) sch bs first bp ps ixs b ((heap_contents (pool_page bp) ps)(rid \<mapsto> rec_data r)))
    | Inl st \<Rightarrow> table_became (1 + length bs) sch bs first bp ps ixs b (heap_contents (pool_page bp) ps) \<or>
        \<not> healthy bp \<and> rollback_failed insert_rollbacks st)"
proof -
  let ?H = "heap_contents (pool_page bp) ps"
  have T: "tbl_state bp first ps ixs" "map fst ixs = map ib_index bs" "ix_sets bp ixs = table_keys sch bs ?H"
    using assms(2) by (simp_all add: table_ok_def)
  have same: "table_became (1 + length bs) sch bs first bp ps ixs bp ?H"
    by (rule tbl_to_became[OF _ T(2)]) (use tbl_to_refl[OF T(1), of "1 + length bs"] T(3) in simp)
  consider st where "Serialize sch vs (Some empty_record) = Inl st"
    | r st where "Serialize sch vs (Some empty_record) = Inr r" "EncodeIndexKeys sch r bs = Inl st"
    | r keys where "Serialize sch vs (Some empty_record) = Inr r" "EncodeIndexKeys sch r bs = Inr keys"
    by (metis sum.exhaust)
  then show ?thesis
  proof cases
    case 3
    have hf: "hf_state bp first ps" using T(1) by (simp add: tbl_state_def)
    obtain b1 res where ins: "HF_InsertRecord first r bp = Some (b1, res)" using HF_InsertRecord_spec[OF hf, of r] by auto
    note I = tbl_insert_record[OF T(1) ins]
    have ts: "TS_InsertRecord ts name vs bp = (case res of Inl st \<Rightarrow> Some (b1, Inl st) | Inr rid \<Rightarrow> InsertIndexes rid keys b1)"
      using assms(1) 3 ins table_first[OF T(1)] by (simp add: TS_InsertRecord_def split: sum.split)
    show ?thesis
    proof (cases res)
      case (Inl st)
      then have "table_became (1 + length bs) sch bs first bp ps ixs b1 ?H" using I T(3) tbl_to_became[OF tbl_to_mono T(2)] by simp
      then show ?thesis using ts Inl by simp
    next
      case (Inr rid)
      let ?base = "table_keys sch bs ?H" and ?H1 = "?H(rid \<mapsto> rec_data r)"
      obtain ps1 where n: "?H rid = None" "tbl_to 1 first bp ps ixs b1 ps1 ?H1 ?base" using I Inr T(3) by auto
      have n2: "tbl_to 1 first bp ps ixs b1 ps1 ?H1 (rid_sets ?base rid (\<lambda>_. {}))" using n(2) by (simp add: table_keys_none)
      have l: "length ?base = length (map ib_index bs)" by simp
      obtain ixs1 where k: "keyed first ps1 (map ib_index bs) ?H1 ?base rid b1 ixs1 (\<lambda>_. {})"
        "\<forall>n c ps2 H2 E2. tbl_to n first b1 ps1 ixs1 c ps2 H2 E2 \<longrightarrow> tbl_to (1 + n) first bp ps ixs c ps2 H2 E2"
        by (rule keyed_from[OF n2 T(2) l fresh_keys[of ?H, OF n(1)]])
      note E = encoded_ok[OF 3(2)]
      have rm: "room (length keys) b1" by (rule tbl_to_room[OF n(2)]) (use assms(3) E(2) in simp)
      obtain b2 out where x: "InsertIndexes rid keys b1 = Some (b2, out)" "case out of
          Inr r' \<Rightarrow> r' = rid \<and> tbl_to (length keys) first b1 ps1 ixs1 b2 ps1 ?H1 (rid_sets ?base rid (key_at keys))
        | Inl st \<Rightarrow> \<not> healthy b1 \<and> (tbl_to (length keys) first b1 ps1 ixs1 b2 ps1 ?H ?base \<or> rollback_failed insert_rollbacks st)"
        using insert_indexes[OF k(1) E(1) n(1) rm] by blast
      have eq: "rid_sets ?base rid (key_at keys) = table_keys sch bs ?H1"
        using table_keys_of[OF E(3), of ?H rid] n(1) by (simp add: fun_upd_idem)
      have became: "table_became (1 + length bs) sch bs first bp ps ixs b2 H'"
        if "tbl_to (length keys) first b1 ps1 ixs1 b2 ps1 H' (table_keys sch bs H')" for H'
        using tbl_to_became[OF k(2)[rule_format, OF that] T(2)] E(2) by simp
      show ?thesis using ts Inr x[unfolded eq] 3(1) n(1) became tbl_to_healthy[OF n(2)] by (auto split: sum.splits)
    qed
  qed (use assms(1) same in \<open>simp_all add: TS_InsertRecord_def\<close>)
qed

section \<open>Reading\<close>

text \<open>The ownership check, and the record read after it.\<close>

lemma table_lookup:
  assumes "tbl_state bp first ps ixs"
  obtains b st where "ValidateRecordBelongsToTable first rid bp = Some (b, st)" "read_only bp b" "adds 0 bp b"
    "tbl_state b first ps ixs" "heap_contents (pool_page b) ps = heap_contents (pool_page bp) ps"
    "status_ok st \<longrightarrow> rid_page rid \<in> set ps"
    "\<not> status_ok st \<longrightarrow> heap_contents (pool_page bp) ps rid = None \<or> \<not> healthy bp"
proof -
  obtain b st where v: "ValidateRecordBelongsToTable first rid bp = Some (b, st)" "read_only bp b" "adds 0 bp b"
    "if status_ok st then rid_page rid \<in> set ps else rid_page rid \<notin> set ps \<or> \<not> healthy bp"
    using tbl_validate[OF assms] by blast
  note M = read_only_moves[OF assms v(2,3)]
  have "heap_contents (pool_page b) ps = heap_contents (pool_page bp) ps" using M(1) by (auto simp: tbl_to_def)
  moreover have "rid_page rid \<notin> set ps \<Longrightarrow> heap_contents (pool_page bp) ps rid = None" using heap_rid_page by blast
  ultimately show ?thesis using that[OF v(1-3) M(2)] v(4) by (auto split: if_splits)
qed

lemma table_read:
  assumes "tbl_state bp first ps ixs" "rid_page rid \<in> set ps"
  obtains b res where "HF_GetRecord rid bp = (b, res)" "read_only bp b" "adds 0 bp b" "tbl_state b first ps ixs"
    "heap_contents (pool_page b) ps = heap_contents (pool_page bp) ps"
    "\<forall>st. res = Inl st \<longrightarrow> \<not> status_ok st \<and> (heap_contents (pool_page bp) ps rid = None \<or> \<not> healthy bp)"
    "\<forall>r. res = Inr r \<longrightarrow> rec_rid r = rid \<and> heap_contents (pool_page bp) ps rid = Some (rec_data r)"
proof -
  obtain b res where g: "HF_GetRecord rid bp = (b, res)" by (cases "HF_GetRecord rid bp")
  note G = tbl_get_record[OF assms g]
  have ro: "read_only bp b" "adds 0 bp b" using G by simp_all
  note M = read_only_moves[OF assms(1) ro]
  have "heap_contents (pool_page b) ps = heap_contents (pool_page bp) ps" using M(1) by (auto simp: tbl_to_def)
  then show ?thesis using that[OF g ro M(2)] G HF_GetRecord_error g by (cases res) auto
qed

lemma get_record_spec:
  assumes "LoadTable ts name = Inr (sch, first, bs)" "tbl_state bp first ps ixs"
  shows "\<exists>b res. TS_GetRecord ts name rid bp = Some (b, res) \<and> read_only bp b \<and> adds 0 bp b \<and> (case res of
      Inr r \<Rightarrow> rec_rid r = rid \<and> heap_contents (pool_page bp) ps rid = Some (rec_data r)
    | Inl _ \<Rightarrow> heap_contents (pool_page bp) ps rid = None \<or> \<not> healthy bp)"
proof -
  obtain b st where v: "ValidateRecordBelongsToTable first rid bp = Some (b, st)" "read_only bp b" "adds 0 bp b"
    "tbl_state b first ps ixs" "heap_contents (pool_page b) ps = heap_contents (pool_page bp) ps"
    "status_ok st \<longrightarrow> rid_page rid \<in> set ps"
    "\<not> status_ok st \<longrightarrow> heap_contents (pool_page bp) ps rid = None \<or> \<not> healthy bp" by (rule table_lookup[OF assms(2)])
  show ?thesis
  proof (cases "status_ok st")
    case True
    obtain b2 res where g: "HF_GetRecord rid b = (b2, res)" "read_only b b2" "adds 0 b b2" "tbl_state b2 first ps ixs"
      "heap_contents (pool_page b2) ps = heap_contents (pool_page b) ps"
      "\<forall>st. res = Inl st \<longrightarrow> \<not> status_ok st \<and> (heap_contents (pool_page b) ps rid = None \<or> \<not> healthy b)"
      "\<forall>r. res = Inr r \<longrightarrow> rec_rid r = rid \<and> heap_contents (pool_page b) ps rid = Some (rec_data r)"
      using table_read[OF v(4)] v(6) True by blast
    show ?thesis using assms(1) v(1,5) g(1,6,7) True table_first[OF assms(2)] read_only_trans[OF v(2) g(2)] adds_0(1)[OF v(3) g(3)] read_only_healthy[OF v(2)]
      by (auto simp: TS_GetRecord_def split: sum.split)
  next
    case False
    then show ?thesis using assms(1) v by (simp add: TS_GetRecord_def)
  qed
qed

section \<open>Deletion\<close>

definition delete_rollbacks :: "string list" where
  "delete_rollbacks = [''Delete index rollback failed'', ''Delete HeapFile rollback failed'']"

text \<open>After a failure: what \<^verbatim>\<open>RollbackRemovedIndexEntries\<close> makes of the status.\<close>

lemma delete_undone:
  assumes K: "keyed first ps hids H base rid bp ixs (cleared keys {0..<n} (key_at keys))" and "keys_ok hids keys" "H rid \<noteq> None"
    "n \<le> length keys" "room n bp" "\<not> status_ok st" "ctxt \<in> set delete_rollbacks"
  shows "\<exists>b out. map_option (\<lambda>(bp, rollback). (bp, CombineFailure st rollback ctxt))
      (RollbackRemovedIndexEntries rid keys (filter (\<lambda>i. ek_key (keys ! i) \<noteq> None) [0..<n]) bp) = Some (b, out) \<and>
    \<not> status_ok out \<and> (tbl_to n first bp ps ixs b ps H (rid_sets base rid (key_at keys)) \<or> rollback_failed delete_rollbacks out)"
proof -
  obtain b rb g where r: "RollbackRemovedIndexEntries rid keys (filter (\<lambda>i. ek_key (keys ! i) \<noteq> None) [0..<n]) bp = Some (b, rb)"
    "tbl_to n first bp ps ixs b ps H (rid_sets base rid g)" "if status_ok rb then g = key_at keys else \<not> healthy bp"
    using rollback_removed[OF assms(1-5)] by blast
  show ?thesis using r not_ok_combined[OF assms(6)] rollback_failedI[OF _ assms(7), of rb st] by (cases "status_ok rb") simp_all
qed

lemma delete_indexed:
  assumes K: "keyed first ps hids H base rid bp ixs (key_at keys)" and "keys_ok hids keys" "H rid \<noteq> None" "room (length keys) bp"
  shows "\<exists>b st. DeleteIndexed rid keys bp = Some (b, st) \<and> (if status_ok st
    then tbl_to (length keys) first bp ps ixs b ps (H(rid := None)) base
    else \<not> healthy bp \<and> (tbl_to (length keys) first bp ps ixs b ps H (rid_sets base rid (key_at keys)) \<or>
      rollback_failed delete_rollbacks st))"
proof -
  have len: "length base = length keys" using K assms(2) by (simp add: keyed_def keys_ok_def)
  obtain b n st where i: "RemoveIndexEntries rid keys [0..<length keys] [] bp =
      Some (b, [] @ filter (\<lambda>i. ek_key (keys ! i) \<noteq> None) [0..<n], st)" "n \<le> length keys"
    "tbl_to 0 first bp ps ixs b ps H (rid_sets base rid (cleared keys {0..<n} (key_at keys)))"
    "if status_ok st then n = length keys else \<not> healthy bp"
    using remove_entries[OF K assms(2), of 0 "[]"] by auto
  obtain ixs1 where k: "keyed first ps hids H base rid b ixs1 (cleared keys {0..<n} (key_at keys))"
    "\<forall>m c ps2 H2 E2. tbl_to m first b ps ixs1 c ps2 H2 E2 \<longrightarrow> tbl_to (0 + m) first bp ps ixs c ps2 H2 E2"
    by (rule keyed_next[OF K i(3)])
  have cx: "''Delete index rollback failed'' \<in> set delete_rollbacks" "''Delete HeapFile rollback failed'' \<in> set delete_rollbacks"
    by (simp_all add: delete_rollbacks_def)
  have rm: "room n b" by (rule tbl_to_room[OF i(3)]) (rule room_mono[OF assms(4)], use i(2) in simp)
  show ?thesis
  proof (cases "status_ok st")
    case False
    obtain b' out where u: "map_option (\<lambda>(bp, rollback). (bp, CombineFailure st rollback ''Delete index rollback failed''))
        (RollbackRemovedIndexEntries rid keys (filter (\<lambda>i. ek_key (keys ! i) \<noteq> None) [0..<n]) b) = Some (b', out)"
      "\<not> status_ok out" "tbl_to n first b ps ixs1 b' ps H (rid_sets base rid (key_at keys)) \<or> rollback_failed delete_rollbacks out"
      using delete_undone[OF k(1) assms(2,3) i(2) rm False cx(1)] by blast
    have "tbl_to n first b ps ixs1 b' ps H E \<Longrightarrow> tbl_to (length keys) first bp ps ixs b' ps H E" for E
      using k(2) tbl_to_mono[OF _ i(2)] by fastforce
    then show ?thesis using i(1,4) u False by (auto simp: DeleteIndexed_def)
  next
    case True
    then have n: "n = length keys" using i(4) by simp
    obtain b2 st2 where h: "HF_DeleteRecord rid b = (b2, st2)" by (cases "HF_DeleteRecord rid b")
    have T: "tbl_state b first ps ixs1" "heap_contents (pool_page b) ps = H"
      "ix_sets b ixs1 = rid_sets base rid (cleared keys {0..<n} (key_at keys))" using k(1) by (simp_all add: keyed_def)
    have E: "rid_sets base rid (cleared keys {0..<n} (key_at keys)) = base"
      using rid_sets_cong[of base "cleared keys {0..<n} (key_at keys)" "\<lambda>_. {}" rid] n len by (simp add: cleared_def table_keys_none)
    have "rid_page rid \<in> set ps" by (rule heap_rid_page[of "pool_page b"]) (simp add: T(2) assms(3))
    note D = tbl_delete_record[OF T(1) this h]
    show ?thesis
    proof (cases "status_ok st2")
      case True
      then have "tbl_to (length keys) first b ps ixs1 b2 ps (H(rid := None)) base"
        using D T(2,3) E tbl_to_mono[of 0 _ _ _ _ _ _ _ _ "length keys"] by simp
      from k(2)[rule_format, OF this] show ?thesis using i(1) h \<open>status_ok st\<close> True by (simp add: DeleteIndexed_def)
    next
      case False
      have t: "tbl_to 0 first b ps ixs1 b2 ps H (rid_sets base rid (cleared keys {0..<n} (key_at keys)))"
        using D False T(2,3) by simp
      obtain ixs2 where l: "keyed first ps hids H base rid b2 ixs2 (cleared keys {0..<n} (key_at keys))"
        "\<forall>m c ps2 H2 E2. tbl_to m first b2 ps ixs2 c ps2 H2 E2 \<longrightarrow> tbl_to (0 + m) first b ps ixs1 c ps2 H2 E2"
        by (rule keyed_next[OF k(1) t])
      have "room n b2" by (rule tbl_to_room[OF t]) (use rm in simp)
      then obtain b' out where u: "map_option (\<lambda>(bp, rollback). (bp, CombineFailure st2 rollback ''Delete HeapFile rollback failed''))
          (RollbackRemovedIndexEntries rid keys (filter (\<lambda>i. ek_key (keys ! i) \<noteq> None) [0..<n]) b2) = Some (b', out)"
        "\<not> status_ok out" "tbl_to n first b2 ps ixs2 b' ps H (rid_sets base rid (key_at keys)) \<or> rollback_failed delete_rollbacks out"
        using delete_undone[OF l(1) assms(2,3) i(2) _ False cx(2)] by blast
      have "\<not> healthy bp" using D False T(2) assms(3) tbl_to_healthy[OF i(3)] by auto
      moreover have "tbl_to n first b2 ps ixs2 b' ps H E \<Longrightarrow> tbl_to (length keys) first bp ps ixs b' ps H E" for E
        using k(2) l(2) n by simp
      ultimately show ?thesis using i(1) h \<open>status_ok st\<close> False u by (auto simp: DeleteIndexed_def)
    qed
  qed
qed

lemma table_same:
  assumes "table_ok sch bs first bp ps ixs" "read_only bp b" "adds 0 bp b"
  shows "table_became n sch bs first bp ps ixs b (heap_contents (pool_page bp) ps)" "table_ok sch bs first b ps ixs"
proof -
  have T: "tbl_state bp first ps ixs" "map fst ixs = map ib_index bs"
    "ix_sets bp ixs = table_keys sch bs (heap_contents (pool_page bp) ps)" using assms(1) by (simp_all add: table_ok_def)
  note M = read_only_moves[OF T(1) assms(2) adds_mono[OF assms(3)], of n]
  show "table_became n sch bs first bp ps ixs b (heap_contents (pool_page bp) ps)"
    by (rule tbl_to_became[OF _ T(2)]) (use M(1) T(3) in simp)
  have "heap_contents (pool_page b) ps = heap_contents (pool_page bp) ps" using M(1) by (auto simp: tbl_to_def)
  then show "table_ok sch bs first b ps ixs" using M T by (simp add: table_ok_def)
qed

lemma outside_kept_read: "read_only bp b \<Longrightarrow> outside_kept ps b c \<Longrightarrow> outside_kept ps bp c"
  by (rule outside_kept_trans[OF outside_kept_same]) (simp_all add: read_only_def)

lemma became_after_read:
  assumes "read_only bp b" "adds 0 bp b" "table_became n sch bs first b ps ixs c H"
  shows "table_became n sch bs first bp ps ixs c H"
proof -
  have "grows ps qs b \<Longrightarrow> grows ps qs bp" for ps qs
    using assms(1) by (auto simp: grows_def unused_def read_only_def same_pages_def)
  then show ?thesis using assms(3) outside_kept_read[OF assms(1)] read_only_healthy[OF assms(1)] adds_0(2)[OF assms(2)]
    unfolding table_became_def by blast
qed

text \<open>What update and delete do before they change anything: the record must be one of the table's.\<close>

lemma table_fetch:
  assumes "table_ok sch bs first bp ps ixs"
  obtains b st where "ValidateRecordBelongsToTable first rid bp = Some (b, st)" "\<not> status_ok st" "read_only bp b" "adds 0 bp b"
      "heap_contents (pool_page bp) ps rid = None \<or> \<not> healthy bp"
  | b st b2 st2 where "ValidateRecordBelongsToTable first rid bp = Some (b, st)" "status_ok st" "HF_GetRecord rid b = (b2, Inl st2)"
      "\<not> status_ok st2" "read_only bp b2" "adds 0 bp b2" "heap_contents (pool_page bp) ps rid = None \<or> \<not> healthy bp"
  | b st b2 r where "ValidateRecordBelongsToTable first rid bp = Some (b, st)" "status_ok st" "HF_GetRecord rid b = (b2, Inr r)"
      "read_only bp b2" "adds 0 bp b2" "rec_rid r = rid" "heap_contents (pool_page bp) ps rid = Some (rec_data r)"
proof -
  have T: "tbl_state bp first ps ixs" using assms by (simp add: table_ok_def)
  obtain b st where v: "ValidateRecordBelongsToTable first rid bp = Some (b, st)" "read_only bp b" "adds 0 bp b"
    "tbl_state b first ps ixs" "heap_contents (pool_page b) ps = heap_contents (pool_page bp) ps"
    "status_ok st \<longrightarrow> rid_page rid \<in> set ps"
    "\<not> status_ok st \<longrightarrow> heap_contents (pool_page bp) ps rid = None \<or> \<not> healthy bp" by (rule table_lookup[OF T])
  show ?thesis
  proof (cases "status_ok st")
    case False
    then show ?thesis using that(1)[OF v(1) _ v(2,3)] v(7) by blast
  next
    case True
    obtain b2 res where g: "HF_GetRecord rid b = (b2, res)" "read_only b b2" "adds 0 b b2" "tbl_state b2 first ps ixs"
      "heap_contents (pool_page b2) ps = heap_contents (pool_page b) ps"
      "\<forall>st. res = Inl st \<longrightarrow> \<not> status_ok st \<and> (heap_contents (pool_page b) ps rid = None \<or> \<not> healthy b)"
      "\<forall>r. res = Inr r \<longrightarrow> rec_rid r = rid \<and> heap_contents (pool_page b) ps rid = Some (rec_data r)"
      using table_read[OF v(4)] v(6) True by blast
    have ro: "read_only bp b2" "adds 0 bp b2" using read_only_trans[OF v(2) g(2)] adds_0(1)[OF v(3) g(3)] by simp_all
    show ?thesis
    proof (cases res)
      case (Inl st2)
      then show ?thesis using that(2)[OF v(1) True _ _ ro] g(1,6) v(5) read_only_healthy[OF v(2)] by auto
    next
      case (Inr r)
      then show ?thesis using that(3)[OF v(1) True _ ro] g(1,7) v(5) by auto
    qed
  qed
qed

lemma room_read: "room n bp \<Longrightarrow> adds 0 bp b \<Longrightarrow> room n b"
  using room_adds[of 0 n bp b] by simp

lemma delete_record_spec:
  assumes "LoadTable ts name = Inr (sch, first, bs)" "table_ok sch bs first bp ps ixs" "room (length bs) bp"
  shows "\<exists>b st. TS_DeleteRecord ts name rid bp = Some (b, st) \<and> (if status_ok st
    then heap_contents (pool_page bp) ps rid \<noteq> None \<and>
      table_became (length bs) sch bs first bp ps ixs b ((heap_contents (pool_page bp) ps)(rid := None))
    else table_became (length bs) sch bs first bp ps ixs b (heap_contents (pool_page bp) ps) \<or>
      \<not> healthy bp \<and> rollback_failed delete_rollbacks st)"
proof (rule table_fetch[OF assms(2), of rid])
  have T: "map fst ixs = map ib_index bs" "new_HeapFile first = Inr first"
    using assms(2) table_first by (auto simp: table_ok_def)
  note D = TS_DeleteRecord_def assms(1) T(2)
  fix b st assume v: "ValidateRecordBelongsToTable first rid bp = Some (b, st)"
  show ?thesis if "\<not> status_ok st" "read_only bp b" "adds 0 bp b"
    using v that table_same(1)[OF assms(2) that(2,3)] by (simp add: D)
  show ?thesis if "status_ok st" "HF_GetRecord rid b = (b2, Inl st2)" "\<not> status_ok st2" "read_only bp b2" "adds 0 bp b2" for b2 st2
    using v that table_same(1)[OF assms(2) that(4,5)] by (simp add: D)
  show ?thesis if g: "status_ok st" "HF_GetRecord rid b = (b2, Inr r)" "read_only bp b2" "adds 0 bp b2"
    "heap_contents (pool_page bp) ps rid = Some (rec_data r)" for b2 r
  proof (cases "EncodeIndexKeys sch r bs")
    case (Inl st2)
    then show ?thesis using v g(1,2) table_same(1)[OF assms(2) g(3,4)] EncodeIndexKeys_error[OF Inl] by (simp add: D)
  next
    case (Inr keys)
    let ?H = "heap_contents (pool_page bp) ps"
    note E = encoded_ok[OF Inr]
    have T2: "table_ok sch bs first b2 ps ixs" by (rule table_same(2)[OF assms(2) g(3,4)])
    have H2: "heap_contents (pool_page b2) ps = ?H"
      using read_only_moves(1)[OF _ g(3,4)] assms(2) by (fastforce simp: table_ok_def tbl_to_def)
    have K: "keyed first ps (map ib_index bs) ?H (table_keys sch bs (?H(rid := None))) rid b2 ixs (key_at keys)"
      using table_of_record[OF T2, of rid "rec_data r" "key_at keys"] E(3) g(5) H2 by simp
    have "room (length keys) b2" using room_read[OF assms(3) g(4)] E(2) by simp
    then obtain b3 st3 where d: "DeleteIndexed rid keys b2 = Some (b3, st3)" "if status_ok st3
        then tbl_to (length keys) first b2 ps ixs b3 ps (?H(rid := None)) (table_keys sch bs (?H(rid := None)))
        else \<not> healthy b2 \<and> (tbl_to (length keys) first b2 ps ixs b3 ps ?H
            (rid_sets (table_keys sch bs (?H(rid := None))) rid (key_at keys)) \<or> rollback_failed delete_rollbacks st3)"
      using delete_indexed[OF K E(1)] g(5) by blast
    have e: "rid_sets (table_keys sch bs (?H(rid := None))) rid (key_at keys) = table_keys sch bs ?H"
      using K T2 H2 by (simp add: keyed_def table_ok_def)
    have "TS_DeleteRecord ts name rid bp = Some (b3, st3)" using v g(1,2) Inr d(1) by (simp add: D)
    moreover have "table_became (length bs) sch bs first bp ps ixs b3 H'"
      if "tbl_to (length keys) first b2 ps ixs b3 ps H' (table_keys sch bs H')" for H'
      using became_after_read[OF g(3,4) tbl_to_became[OF that T(1)]] E(2) by simp
    ultimately show ?thesis using d(2)[unfolded e] g(5) read_only_healthy[OF g(3)] by (auto split: if_splits)
  qed
qed

section \<open>Update\<close>

definition update_rollbacks :: "string list" where
  "update_rollbacks = [''Update local index rollback failed'', ''Update index rollback failed'',
     ''Update HeapFile rollback failed'']"

lemma rollback_failed_mono: "rollback_failed xs st \<Longrightarrow> set xs \<subseteq> set ys \<Longrightarrow> rollback_failed ys st"
  by (auto simp: rollback_failed_def)

lemma changed_set: "set (changed olds news ds) = {i \<in> set ds. olds ! i \<noteq> news ! i}"
  by (simp add: changed_def)

text \<open>The rollback: first the indexes, then the heap file.\<close>

lemma update_undone:
  assumes K: "keyed first ps hids H base rid bp ixs g" and "changes_ok hids bindings olds news" "H rid \<noteq> None"
    "set ds \<subseteq> {0..<length hids}" "distinct ds" "\<forall>j. j \<in> set ds \<longrightarrow> g j = opt_at news j" "room (length hids) bp"
  shows "\<exists>b rs b' hr. UndoChanges rid bindings olds news (rev (map (change_at olds news) (changed olds news ds))) Status_OK bp =
      Some (b, rs) \<and> HF_UpdateRecord (SetRecordID old_record rid) b = (b', hr) \<and>
    (status_ok rs \<and> status_ok hr \<and> g = moved news (set ds) (opt_at olds) \<longrightarrow>
      tbl_to (length hids) first bp ps ixs b' ps (H(rid \<mapsto> rec_data old_record)) (rid_sets base rid (opt_at olds)))"
proof -
  let ?cs = "rev (changed olds news ds)"
  have "length ds \<le> length hids" using card_mono[OF _ assms(4)] distinct_card[OF assms(5)] by simp
  then have l: "length ?cs \<le> length hids" using le_trans[OF length_filter_le] by (simp add: changed_def)
  have c: "list_all (\<lambda>i. i < length hids \<and> g i = opt_at news i) ?cs" "distinct ?cs"
    using assms(4-6) by (auto simp: list_all_iff changed_def)
  obtain b rs g' where u: "UndoChanges rid bindings olds news (map (change_at olds news) ?cs) Status_OK bp = Some (b, rs)"
    "tbl_to (length ?cs) first bp ps ixs b ps H (rid_sets base rid g')"
    "if status_ok rs then g' = moved olds (set ?cs) g \<and> status_ok Status_OK else \<not> status_ok Status_OK \<or> \<not> healthy bp"
    using undo_changes[OF K assms(2,3) c room_mono[OF assms(7) l]] by blast
  obtain ixs1 where k: "keyed first ps hids H base rid b ixs1 g'"
    "\<forall>n c ps2 H2 E2. tbl_to n first b ps ixs1 c ps2 H2 E2 \<longrightarrow> tbl_to (length ?cs + n) first bp ps ixs c ps2 H2 E2"
    by (rule keyed_next[OF K u(2)])
  obtain b' hr where h: "HF_UpdateRecord (SetRecordID old_record rid) b = (b', hr)"
    by (cases "HF_UpdateRecord (SetRecordID old_record rid) b")
  have T: "tbl_state b first ps ixs1" "heap_contents (pool_page b) ps = H" "ix_sets b ixs1 = rid_sets base rid g'"
    using k(1) by (simp_all add: keyed_def)
  have "rid_page (rec_rid (SetRecordID old_record rid)) \<in> set ps"
    by (rule heap_rid_page[of "pool_page b"]) (simp add: T(2) assms(3) SetRecordID_def)
  note U = tbl_update_record[OF T(1) this h]
  have "tbl_to (length hids) first bp ps ixs b' ps (H(rid \<mapsto> rec_data old_record)) (rid_sets base rid (opt_at olds))"
    if "status_ok rs" "status_ok hr" "g = moved news (set ds) (opt_at olds)"
  proof -
    have "g' = opt_at olds" using u(3) that(1,3) by (auto simp: moved_def changed_set fun_eq_iff)
    then have "tbl_to 0 first b ps ixs1 b' ps (H(rid \<mapsto> rec_data old_record)) (rid_sets base rid (opt_at olds))"
      using U that(2) T(2,3) by (simp add: SetRecordID_def)
    from k(2)[rule_format, OF this] show ?thesis using tbl_to_mono[OF _ l] by simp
  qed
  then show ?thesis using u(1) h by (auto simp: rev_map)
qed

lemma update_indexes:
  assumes K: "keyed first ps hids H base rid bp ixs (opt_at olds)" and "changes_ok hids bindings olds news" "H rid \<noteq> None"
    "room (3 * length hids) bp"
  shows "\<exists>b st. UpdateIndexes rid bindings olds news old_record bp = Some (b, st) \<and> (if status_ok st
    then tbl_to (3 * length hids) first bp ps ixs b ps H (rid_sets base rid (opt_at news))
    else \<not> healthy bp \<and>
      (tbl_to (3 * length hids) first bp ps ixs b ps (H(rid \<mapsto> rec_data old_record)) (rid_sets base rid (opt_at olds)) \<or>
       rollback_failed update_rollbacks st))"
proof -
  let ?N = "length hids"
  have len: "length bindings = ?N" "length base = ?N" using K assms(2) by (auto simp: keyed_def changes_ok_def)
  have a: "list_all (\<lambda>i. i < ?N \<and> opt_at olds i = opt_at olds i) [0..<?N]" "distinct [0..<?N]" by (simp_all add: list_all_iff)
  have r: "room (2 * length [0..<?N]) bp" by (rule room_mono[OF assms(4)]) simp
  obtain b ds st g where c: "ChangeEntries rid bindings olds news [0..<?N] [] bp =
      Some (b, [] @ map (change_at olds news) (changed olds news ds), st)"
    "tbl_to (2 * length [0..<?N]) first bp ps ixs b ps H (rid_sets base rid g)" "set ds \<subseteq> set [0..<?N]" "distinct ds"
    "\<forall>j. j \<in> set ds \<longrightarrow> g j = opt_at news j"
    "if status_ok st then ds = [0..<?N] \<and> g = moved news (set [0..<?N]) (opt_at olds)
     else \<not> healthy bp \<and> (g = moved news (set ds) (opt_at olds) \<or> rollback_failed [local_rollback] st)"
    using change_entries[OF K assms(2,3) a r, of "[]"] by (elim exE conjE) (rule that)
  have t: "tbl_to (2 * ?N) first bp ps ixs b ps H (rid_sets base rid g)" using c(2) by simp
  show ?thesis
  proof (cases "status_ok st")
    case True
    then have "rid_sets base rid g = rid_sets base rid (opt_at news)"
      using c(6) len(2) by (intro rid_sets_cong) (simp add: moved_def)
    then have "tbl_to (3 * ?N) first bp ps ixs b ps H (rid_sets base rid (opt_at news))"
      using tbl_to_mono[OF t, of "3 * ?N"] by simp
    then show ?thesis using c(1) True len(1) by (simp add: UpdateIndexes_def)
  next
    case False
    obtain ixs1 where k: "keyed first ps hids H base rid b ixs1 g"
      "\<forall>n c ps2 H2 E2. tbl_to n first b ps ixs1 c ps2 H2 E2 \<longrightarrow> tbl_to (2 * ?N + n) first bp ps ixs c ps2 H2 E2"
      by (rule keyed_next[OF K t])
    have "room (2 * ?N + ?N) bp" by (rule room_mono[OF assms(4)]) simp
    then have rm: "room ?N b" by (rule tbl_to_room[OF t])
    have ds: "set ds \<subseteq> {0..<?N}" using c(3) by simp
    obtain b1 rs b2 hr where u: "UndoChanges rid bindings olds news (rev (map (change_at olds news) (changed olds news ds))) Status_OK b =
        Some (b1, rs)" "HF_UpdateRecord (SetRecordID old_record rid) b1 = (b2, hr)"
      "status_ok rs \<and> status_ok hr \<and> g = moved news (set ds) (opt_at olds) \<longrightarrow>
        tbl_to ?N first b ps ixs1 b2 ps (H(rid \<mapsto> rec_data old_record)) (rid_sets base rid (opt_at olds))"
      using update_undone[OF k(1) assms(2,3) ds c(4,5) rm] by blast
    define fin where "fin = (if \<not> status_ok rs then CombineFailure st rs ''Update index rollback failed''
      else if \<not> status_ok hr then CombineFailure st hr ''Update HeapFile rollback failed'' else st)"
    have e: "UpdateIndexes rid bindings olds news old_record bp = Some (b2, fin)"
      using c(1) False u(1,2) len(1) by (simp add: UpdateIndexes_def fin_def)
    have ok: "\<not> status_ok fin" "\<not> healthy bp" using False not_ok_combined[OF False] c(6) by (simp_all add: fin_def)
    have "tbl_to (3 * ?N) first bp ps ixs b2 ps (H(rid \<mapsto> rec_data old_record)) (rid_sets base rid (opt_at olds)) \<or>
        rollback_failed update_rollbacks fin"
    proof (cases "status_ok rs \<and> status_ok hr")
      case True
      show ?thesis
      proof (cases "g = moved news (set ds) (opt_at olds)")
        case g: True
        then have "tbl_to (2 * ?N + ?N) first bp ps ixs b2 ps (H(rid \<mapsto> rec_data old_record)) (rid_sets base rid (opt_at olds))"
          using k(2) u(3) True by blast
        then have "tbl_to (3 * ?N) first bp ps ixs b2 ps (H(rid \<mapsto> rec_data old_record)) (rid_sets base rid (opt_at olds))"
          by (rule tbl_to_mono) simp
        then show ?thesis ..
      next
        case g: False
        then have "rollback_failed [local_rollback] fin" using c(6) False True by (simp add: fin_def)
        then show ?thesis using rollback_failed_mono[of "[local_rollback]" fin update_rollbacks] by (simp add: update_rollbacks_def)
      qed
    next
      case F: False
      have "rollback_failed update_rollbacks fin"
        using F rollback_failedI[of rs "''Update index rollback failed''" update_rollbacks st]
          rollback_failedI[of hr "''Update HeapFile rollback failed''" update_rollbacks st]
        by (auto simp: update_rollbacks_def fin_def)
      then show ?thesis ..
    qed
    then show ?thesis using e ok by (intro exI[of _ b2] exI[of _ fin]) simp
  qed
qed

lemma encoded_changes:
  assumes "EncodeIndexKeys sch r bs = Inr olds" "EncodeIndexKeys sch r' bs = Inr news"
  shows "changes_ok (map ib_index bs) bs (map ek_key olds) (map ek_key news)"
    "i < length bs \<Longrightarrow> opt_at (map ek_key olds) i = set_option (row_key sch (ib_column_index (bs ! i)) (rec_data r))"
    "i < length bs \<Longrightarrow> opt_at (map ek_key news) i = set_option (row_key sch (ib_column_index (bs ! i)) (rec_data r'))"
  using encoded_ok(2,4)[OF assms(1)] encoded_ok(2,4)[OF assms(2)] by (auto simp: changes_ok_def intro: row_key_valid)

text \<open>From the point where the old record and the keys are known.\<close>

lemma update_fetched:
  assumes "table_ok sch bs first bp ps ixs" "room (3 * length bs) bp" "heap_contents (pool_page bp) ps rid = Some (rec_data old)"
    "EncodeIndexKeys sch old bs = Inr olds" "EncodeIndexKeys sch r bs = Inr news" "rec_rid r = rid"
  shows "\<exists>b st. (case HF_UpdateRecord r bp of (bp, st) \<Rightarrow> if \<not> status_ok st then Some (bp, st)
      else UpdateIndexes rid bs (map ek_key olds) (map ek_key news) old bp) = Some (b, st) \<and> (if status_ok st
    then table_became (3 * length bs) sch bs first bp ps ixs b ((heap_contents (pool_page bp) ps)(rid \<mapsto> rec_data r))
    else table_became (3 * length bs) sch bs first bp ps ixs b (heap_contents (pool_page bp) ps) \<or>
      \<not> healthy bp \<and> rollback_failed update_rollbacks st)"
proof -
  let ?H = "heap_contents (pool_page bp) ps"
  let ?base = "table_keys sch bs (?H(rid := None))" and ?H1 = "?H(rid \<mapsto> rec_data r)"
  let ?olds = "map ek_key olds" and ?news = "map ek_key news"
  have T: "tbl_state bp first ps ixs" "map fst ixs = map ib_index bs" "ix_sets bp ixs = table_keys sch bs ?H"
    using assms(1) by (simp_all add: table_ok_def)
  note C = encoded_changes[OF assms(4,5)]
  have eq: "table_keys sch bs ?H = rid_sets ?base rid (opt_at ?olds)" "table_keys sch bs ?H1 = rid_sets ?base rid (opt_at ?news)"
    using table_keys_of[OF C(2), of ?H rid] table_keys_of[OF C(3), of ?H rid] assms(3) by (simp_all add: fun_upd_idem)
  have "rid_page (rec_rid r) \<in> set ps" by (rule heap_rid_page[of "pool_page bp"]) (simp add: assms(3,6))
  obtain b st where h: "HF_UpdateRecord r bp = (b, st)" by (cases "HF_UpdateRecord r bp")
  note U = tbl_update_record[OF T(1) \<open>rid_page (rec_rid r) \<in> set ps\<close> h]
  show ?thesis
  proof (cases "status_ok st")
    case False
    then have "table_became (3 * length bs) sch bs first bp ps ixs b ?H" using U T(3) tbl_to_became[OF tbl_to_mono T(2)] by simp
    then show ?thesis using h False by simp
  next
    case True
    then have t: "tbl_to 0 first bp ps ixs b ps ?H1 (rid_sets ?base rid (opt_at ?olds))" using U T(3) eq(1) assms(6) by simp
    have l: "length ?base = length (map ib_index bs)" "fresh rid ?base" by (simp, rule fresh_keys, simp)
    obtain ixs1 where k: "keyed first ps (map ib_index bs) ?H1 ?base rid b ixs1 (opt_at ?olds)"
      "\<forall>n c ps2 H2 E2. tbl_to n first b ps ixs1 c ps2 H2 E2 \<longrightarrow> tbl_to (0 + n) first bp ps ixs c ps2 H2 E2"
      by (rule keyed_from[OF t T(2) l])
    have "room (3 * length (map ib_index bs)) b" by (rule tbl_to_room[OF t]) (use assms(2) in simp)
    then obtain b2 st2 where u: "UpdateIndexes rid bs ?olds ?news old b = Some (b2, st2)" "if status_ok st2
        then tbl_to (3 * length (map ib_index bs)) first b ps ixs1 b2 ps ?H1 (rid_sets ?base rid (opt_at ?news))
        else \<not> healthy b \<and> (tbl_to (3 * length (map ib_index bs)) first b ps ixs1 b2 ps (?H1(rid \<mapsto> rec_data old))
            (rid_sets ?base rid (opt_at ?olds)) \<or> rollback_failed update_rollbacks st2)"
      using update_indexes[OF k(1) C(1)] by fastforce
    have restored: "?H1(rid \<mapsto> rec_data old) = ?H" using assms(3) by (simp add: fun_upd_idem)
    have "table_became (3 * length bs) sch bs first bp ps ixs b2 H'"
      if "tbl_to (3 * length (map ib_index bs)) first b ps ixs1 b2 ps H' (table_keys sch bs H')" for H'
      using tbl_to_became[OF k(2)[rule_format, OF that] T(2)] by simp
    then show ?thesis using h True u(1) u(2)[unfolded restored eq[symmetric]] tbl_to_healthy[OF t] by (auto split: if_splits)
  qed
qed

lemma update_record_spec:
  assumes "LoadTable ts name = Inr (sch, first, bs)" "table_ok sch bs first bp ps ixs" "room (3 * length bs) bp"
  shows "\<exists>b st. TS_UpdateRecord ts name rid vs bp = Some (b, st) \<and> (if status_ok st
    then heap_contents (pool_page bp) ps rid \<noteq> None \<and> (\<exists>r. Serialize sch vs (Some empty_record) = Inr r \<and>
      table_became (3 * length bs) sch bs first bp ps ixs b ((heap_contents (pool_page bp) ps)(rid \<mapsto> rec_data r)))
    else table_became (3 * length bs) sch bs first bp ps ixs b (heap_contents (pool_page bp) ps) \<or>
      \<not> healthy bp \<and> rollback_failed update_rollbacks st)"
proof (rule table_fetch[OF assms(2), of rid])
  have T: "map fst ixs = map ib_index bs" "new_HeapFile first = Inr first"
    using assms(2) table_first by (auto simp: table_ok_def)
  note D = TS_UpdateRecord_def assms(1) T(2)
  fix b st assume v: "ValidateRecordBelongsToTable first rid bp = Some (b, st)"
  show ?thesis if "\<not> status_ok st" "read_only bp b" "adds 0 bp b"
    using v that table_same(1)[OF assms(2) that(2,3)] by (simp add: D)
  show ?thesis if "status_ok st" "HF_GetRecord rid b = (b2, Inl st2)" "\<not> status_ok st2" "read_only bp b2" "adds 0 bp b2" for b2 st2
    using v that table_same(1)[OF assms(2) that(4,5)] by (simp add: D)
  show ?thesis if g: "status_ok st" "HF_GetRecord rid b = (b2, Inr old)" "read_only bp b2" "adds 0 bp b2"
    "heap_contents (pool_page bp) ps rid = Some (rec_data old)" for b2 old
  proof -
    let ?H = "heap_contents (pool_page bp) ps"
    note same = table_same(1)[OF assms(2) g(3,4)]
    have fails: ?thesis if "TS_UpdateRecord ts name rid vs bp = Some (b2, st2)" "\<not> status_ok st2" for st2
      using that same by simp
    consider st2 where "Serialize sch vs (Some empty_record) = Inl st2"
      | r st2 where "Serialize sch vs (Some empty_record) = Inr r" "EncodeIndexKeys sch old bs = Inl st2"
      | r st2 olds where "Serialize sch vs (Some empty_record) = Inr r" "EncodeIndexKeys sch old bs = Inr olds"
          "EncodeIndexKeys sch (SetRecordID r rid) bs = Inl st2"
      | r olds news where "Serialize sch vs (Some empty_record) = Inr r" "EncodeIndexKeys sch old bs = Inr olds"
          "EncodeIndexKeys sch (SetRecordID r rid) bs = Inr news" by (metis sum.exhaust)
    then show ?thesis
    proof cases
      case 1
      then show ?thesis using v g(1,2) by (intro fails[OF _ Serialize_error[OF 1]]) (simp add: D)
    next
      case 2
      then show ?thesis using v g(1,2) by (intro fails[OF _ EncodeIndexKeys_error[OF 2(2)]]) (simp add: D)
    next
      case 3
      then show ?thesis using v g(1,2) by (intro fails[OF _ EncodeIndexKeys_error[OF 3(3)]]) (simp add: D)
    next
      case 4
      let ?r = "SetRecordID r rid"
      have H2: "heap_contents (pool_page b2) ps = ?H"
        using read_only_moves(1)[OF _ g(3,4)] assms(2) by (fastforce simp: table_ok_def tbl_to_def)
      have r: "rec_rid ?r = rid" "rec_data ?r = rec_data r" by (simp_all add: SetRecordID_def)
      obtain b3 st3 where u: "(case HF_UpdateRecord ?r b2 of (bp, st) \<Rightarrow> if \<not> status_ok st then Some (bp, st)
          else UpdateIndexes rid bs (map ek_key olds) (map ek_key news) old bp) = Some (b3, st3)" "if status_ok st3
        then table_became (3 * length bs) sch bs first b2 ps ixs b3 (?H(rid \<mapsto> rec_data r))
        else table_became (3 * length bs) sch bs first b2 ps ixs b3 ?H \<or> \<not> healthy b2 \<and> rollback_failed update_rollbacks st3"
        using update_fetched[OF table_same(2)[OF assms(2) g(3,4)] room_read[OF assms(3) g(4)] g(5)[folded H2] 4(2,3) r(1), unfolded H2 r(2)]
        by blast
      have "TS_UpdateRecord ts name rid vs bp = Some (b3, st3)" using v g(1,2) 4 u(1) by (simp add: D Let_def)
      then show ?thesis using u(2) 4(1) g(5) became_after_read[OF g(3,4)] read_only_healthy[OF g(3)] by (auto split: if_splits)
    qed
  qed
qed

end
