(* ===== verification/Table_Properties.thy ===== *)
theory Table_Properties
  imports Table_Correct
begin

text \<open>
  The properties of the table storage: what it finds in the catalog, the atomicity of its operations,
  and that its indexes answer for the records of the table.
\<close>

section \<open>A table with one index, for the witnesses\<close>

definition example_bindings :: "page_id \<Rightarrow> index_binding list" where
  "example_bindings hid = [\<lparr>ib_index_name = ''i'', ib_column_name = ''a'', ib_column_index = 0, ib_index = hid\<rparr>]"

definition example_storage :: "page_id \<Rightarrow> page_id \<Rightarrow> table_storage" where
  "example_storage p hid = \<lparr>ts_bpm = True, ts_catalog = Some (empty_catalog
     \<lparr>cat_tables := [(''t'', \<lparr>tm_name = ''t'', tm_schema = example_schema, tm_first_page_id = p\<rparr>)],
      cat_indexes := [(''t.a'', index_data ''i'' ''t'' ''a'' hid)], cat_index_names := [(''i'', ''t.a'')]\<rparr>)\<rparr>"

lemma example_loaded: "LoadTable (example_storage p hid) ''t'' = Inr (example_schema, p, example_bindings hid)"
  by (simp add: LoadTable_def ValidateDependencies_def example_storage_def CM_GetTableSchema_def CM_GetTableFirstPageId_def
      CM_GetTableIndexes_def CM_GetIndex_def index_data_def BindIndex_def FindColumnIndex_def MakeIndexKey_def
      example_schema_def example_bindings_def)

lemma example_table:
  "\<exists>bp p hid. table_ok example_schema (example_bindings hid) p bp [p] [(hid, [[], []])] \<and> healthy bp \<and> room 1000 bp \<and>
     heap_contents (pool_page bp) [p] = (\<lambda>_. None)"
proof -
  obtain d bp where ex: "pool_ok {} bp" "pool_disk bp = d" "disk_io d = []" "num_pages d = 1" "free_pages d = {}"
      "pins bp = (\<lambda>_. 0)" "length (pages bp) = 2" "new_BufferPoolManager 2 (Some d) (Some (new_ClockReplacer 2)) = Inr bp"
    using example_pool[of 2] by auto
  have h: "healthy bp" using ex by (auto simp: healthy_def)
  have r: "room 1002 bp" by (rule room_start[OF ex(8,4,5)]) simp
  obtain b n f where nw: "NewPage bp = (b, Some (n, f))" using NewPage_healthy[OF h] by blast
  have n1: "n = 1" using NewPage_fresh(1)[OF ex(1) nw] ex by (simp add: fresh_page_def)
  obtain pg b1 where m: "UnpinPage n True (set_frame f pg b) = (b1, True)" "healthy b1" "hf_state b1 n [n]"
    "heap_contents (pool_page b1) [n] = (\<lambda>_. None)" "page_pid pg = page_pid (frame_of b f)"
    by (rule heap_page_made[OF h nw]) (use n1 in \<open>auto simp: is_i32_def\<close>)
  have r1: "room 1001 b1" using room_adds[of 1 1001 bp b1] r write_adds(1)[OF NewPage_adds[OF nw] m(1,5)] by simp
  obtain b2 res where c: "HI_Create 2 b1 = (b2, res)" by (cases "HI_Create 2 b1")
  have p1: "pool_ok {} b1" using m(2) by (simp add: healthy_def)
  have "pins b2 = pins b1 \<and> keeps_health b1 b2 \<and> outside_kept [] b1 b2 \<and> (case res of
      Inl st \<Rightarrow> pool_ok {} b2 \<and> same_pages b1 b2 \<and> \<not> healthy b1
    | Inr hid \<Rightarrow> fresh_page hid b1 \<and> aside hid b1 b2 \<and> hi_state b2 hid (replicate 2 []) \<and>
        hi_entries (pool_page b2) (replicate 2 []) = {})"
    by (rule HI_Create_spec[OF p1 _ _ c]) (simp_all add: MaxBucketCount_eq)
  then obtain hid where x: "fresh_page hid b1" "hi_state b2 hid [[], []]" "hi_entries (pool_page b2) [[], []] = {}"
    "keeps_health b1 b2" "pins b2 = pins b1" "outside_kept [] b1 b2"
    using m(2) by (cases res) (auto simp: numeral_2_eq_2)
  have p2: "pool_ok {} b2" using x(2) by (simp add: hi_state_def)
  have hf: "hf_state b2 n [n]" "heap_contents (pool_page b2) [n] = (\<lambda>_. None)"
    using heap_object.frame[OF m(3) p2 x(6)] m(4) by simp_all
  have "\<not> unused n b1" using heap_object.st_used[OF m(3), of n] by simp
  then have "hid \<noteq> n" using fresh_unused[OF p1 x(1)] by blast
  then have "tbl_state b2 n [n] [(hid, [[], []])]"
    using hf(1) x(2) by (simp add: tbl_state_def tbl_pages_def index_pages_def hi_pages_def)
  then have "table_ok example_schema (example_bindings hid) n b2 [n] [(hid, [[], []])]"
    using hf(2) x(3) by (simp add: table_ok_def example_bindings_def ix_sets_def table_keys_def)
  moreover have "healthy b2" by (rule healthy_kept[OF m(2) x(4) p2 x(5)])
  moreover have "room 1000 b2" using room_adds[of 1 1000 b1 b2] r1 HI_Create_adds[OF c] by simp
  ultimately show ?thesis using hf(2) by blast
qed

section \<open>What the catalog gives\<close>

definition binding_of :: "schema \<Rightarrow> catalog_index_info \<Rightarrow> index_binding" where
  "binding_of sch i = \<lparr>ib_index_name = ci_index_name i, ib_column_name = ci_column_name i,
     ib_column_index = projr (FindColumnIndex sch (ci_column_name i)), ib_index = ci_header_page_id i\<rparr>"

lemma FindColumnIndex_first:
  assumes "column_found cn sch"
  obtains k where "FindColumnIndex sch cn = Inr k" "k < length sch" "col_name (sch ! k) = cn"
    "list_all (\<lambda>j. col_name (sch ! j) \<noteq> cn) [0..<k]"
proof -
  have "find (\<lambda>i. col_name (sch ! i) = cn) [0..<length sch] \<noteq> None"
    using assms by (auto simp: find_None_iff column_found_def list_ex_iff in_set_conv_nth)
  then obtain k where k: "find (\<lambda>i. col_name (sch ! i) = cn) [0..<length sch] = Some k" by blast
  then have "FindColumnIndex sch cn = Inr k" by (simp add: FindColumnIndex_def)
  then show ?thesis using that[of k] k by (auto simp: find_Some_iff list_all_iff)
qed

lemma bind_indexes:
  assumes "\<forall>i \<in> set infos. column_found (ci_column_name i) sch \<and>
    CM_GetIndex name (ci_column_name i) c = Some (ci_header_page_id i)"
  shows "for_each (BindIndex c name sch) infos bs = Inr (bs @ map (binding_of sch) infos)"
  using assms
proof (induction infos arbitrary: bs)
  case (Cons i infos)
  obtain k where "FindColumnIndex sch (ci_column_name i) = Inr k"
    using Cons.prems by (auto elim: FindColumnIndex_first)
  then have "BindIndex c name sch i bs = Inr (bs @ [binding_of sch i])"
    using Cons.prems by (simp add: BindIndex_def binding_of_def)
  then show ?case using Cons by simp
qed simp

lemma load_table_exact:
  assumes "cat_wf c" "status_ok (initialization_status c)" "map_of (cat_tables c) name = Some t"
  obtains infos where "LoadTable \<lparr>ts_bpm = True, ts_catalog = Some c\<rparr> name =
      Inr (tm_schema t, tm_first_page_id t, map (binding_of (tm_schema t)) infos)"
    "sorted_wrt (<) (map ci_index_name infos)"
    "set infos = {index_info m |k m. map_of (cat_indexes c) k = Some m \<and> im_table_name m = name}"
    "\<forall>i \<in> set infos. column_found (ci_column_name i) (tm_schema t)"
proof -
  obtain infos where g: "CM_GetTableIndexes name c = Inr infos" using assms(2,3) by (simp add: CM_GetTableIndexes_def)
  note X = table_indexes_exact[OF assms(1) g]
  have col: "\<forall>i \<in> set infos. column_found (ci_column_name i) (tm_schema t)"
  proof
    fix i assume "i \<in> set infos"
    then obtain k m where m: "i = index_info m" "map_of (cat_indexes c) k = Some m" "im_table_name m = name" using X by blast
    then have "index_wf c k m" using cat_wf_entry(2)[OF assms(1)] by (meson map_of_SomeD)
    then show "column_found (ci_column_name i) (tm_schema t)"
      using m(1,3) assms(3) by (simp add: index_wf_def has_column_def index_info_def)
  qed
  have "(name, t) \<in> set (cat_tables c)" using assms(3) by (rule map_of_SomeD)
  then have n: "name \<noteq> []" using assms(1) by (auto simp: cat_wf_def tables_wf_def list_all_iff table_storable_def)
  have "\<forall>i \<in> set infos. column_found (ci_column_name i) (tm_schema t) \<and>
      CM_GetIndex name (ci_column_name i) c = Some (ci_header_page_id i)"
    using X col by (simp add: list_all_iff)
  from bind_indexes[OF this, of "[]"] show ?thesis
    using that[of infos] X col g n assms(2,3)
    by (simp add: LoadTable_def ValidateDependencies_def CM_GetTableSchema_def CM_GetTableFirstPageId_def)
qed

text \<open>
  For a table of the catalog \<^verbatim>\<open>LoadTable\<close> returns its schema, its first page and one binding for each
  index of the catalog on the table, in the order of the index names; a binding refers to the first
  column of the name the index was created on and to the object the catalog has opened. For any other
  name it is an error.
\<close>

theorem table_load:
  assumes "cat_wf c" "status_ok (initialization_status c)"
  shows "case LoadTable \<lparr>ts_bpm = True, ts_catalog = Some c\<rparr> name of
      Inl st \<Rightarrow> \<not> status_ok st \<and> map_of (cat_tables c) name = None
    | Inr (sch, first, bs) \<Rightarrow> (\<exists>t. map_of (cat_tables c) name = Some t \<and> sch = tm_schema t \<and> first = tm_first_page_id t) \<and>
        sorted_wrt (<) (map ib_index_name bs) \<and>
        set (map (\<lambda>b. (ib_index_name b, ib_column_name b, ib_index b)) bs) =
          {(im_name m, im_column_name m, im_index m) | m k. map_of (cat_indexes c) k = Some m \<and> im_table_name m = name} \<and>
        list_all (\<lambda>b. ib_column_index b < length sch \<and> col_name (sch ! ib_column_index b) = ib_column_name b \<and>
          list_all (\<lambda>j. col_name (sch ! j) \<noteq> ib_column_name b) [0..<ib_column_index b]) bs"
proof (cases "map_of (cat_tables c) name")
  case None
  then show ?thesis using assms(2)
    by (cases "name = []") (simp_all add: LoadTable_def ValidateDependencies_def CM_GetTableSchema_def)
next
  case (Some t)
  obtain infos where L: "LoadTable \<lparr>ts_bpm = True, ts_catalog = Some c\<rparr> name =
      Inr (tm_schema t, tm_first_page_id t, map (binding_of (tm_schema t)) infos)"
    "sorted_wrt (<) (map ci_index_name infos)"
    "set infos = {index_info m |k m. map_of (cat_indexes c) k = Some m \<and> im_table_name m = name}"
    "\<forall>i \<in> set infos. column_found (ci_column_name i) (tm_schema t)"
    by (rule load_table_exact[OF assms Some])
  let ?info = "\<lambda>i. (ci_index_name i, ci_column_name i, ci_header_page_id i)"
  have eq: "?info (index_info m) = (im_name m, im_column_name m, im_index m)" if "map_of (cat_indexes c) k = Some m" for k m
    using cat_wf_entry(2)[OF assms(1) map_of_SomeD[OF that]] by (simp add: index_wf_def index_info_def)
  have "set (map (\<lambda>b. (ib_index_name b, ib_column_name b, ib_index b)) (map (binding_of (tm_schema t)) infos)) = ?info ` set infos"
    by (simp add: image_image binding_of_def)
  also have "\<dots> = {?info (index_info m) |k m. map_of (cat_indexes c) k = Some m \<and> im_table_name m = name}"
    unfolding L(3) by blast
  also have "\<dots> = {(im_name m, im_column_name m, im_index m) | m k. map_of (cat_indexes c) k = Some m \<and> im_table_name m = name}"
    using eq by (intro Collect_cong) metis
  finally have S: "set (map (\<lambda>b. (ib_index_name b, ib_column_name b, ib_index b)) (map (binding_of (tm_schema t)) infos)) =
      {(im_name m, im_column_name m, im_index m) | m k. map_of (cat_indexes c) k = Some m \<and> im_table_name m = name}" .
  have N: "map ib_index_name (map (binding_of (tm_schema t)) infos) = map ci_index_name infos" by (simp add: binding_of_def)
  have C: "list_all (\<lambda>b. ib_column_index b < length (tm_schema t) \<and> col_name (tm_schema t ! ib_column_index b) = ib_column_name b \<and>
      list_all (\<lambda>j. col_name (tm_schema t ! j) \<noteq> ib_column_name b) [0..<ib_column_index b]) (map (binding_of (tm_schema t)) infos)"
    using L(4) by (auto simp: list_all_iff binding_of_def elim!: FindColumnIndex_first)
  show ?thesis unfolding L(1) sum.case prod.case N using L(2) S C Some by blast
qed

theorem table_load_witness:
  "case LoadTable \<lparr>ts_bpm = True, ts_catalog = Some (index_catalog 7)\<rparr> ''t'' of
     Inl _ \<Rightarrow> False | Inr (sch, first, bs) \<Rightarrow> sch = example_schema \<and> first = 5 \<and> map ib_index_name bs = [''i'']"
proof -
  have h: "1 \<le> (7::int)" "is_i32 7" by (simp_all add: is_i32_def)
  note F = index_catalog_facts[OF h]
  have "status_ok (initialization_status (index_catalog 7))" by (simp add: F(5))
  note L = table_load[OF F(1) this, of "''t''"]
  have "LoadTable \<lparr>ts_bpm = True, ts_catalog = Some (index_catalog 7)\<rparr> ''t'' =
      Inr (example_schema, 5, example_bindings 7)"
    using F(4,5,6) table_catalog_simps(1)
    by (simp add: LoadTable_def ValidateDependencies_def CM_GetTableSchema_def CM_GetTableFirstPageId_def CM_GetTableIndexes_def
        CM_GetIndex_def index_data_def BindIndex_def FindColumnIndex_def MakeIndexKey_def example_schema_def example_bindings_def)
  then show ?thesis using L by (simp add: example_bindings_def)
qed

section \<open>The operations\<close>

text \<open>
  C9. Inserting a row keeps the heap file and the indexes of a table in step. On success the row's bytes
  are stored under a record identifier that was free, and every index has gained exactly the key of the
  row. On an error the table is as before, or the buffer pool failed and the error says that a rollback
  did. The call returns, takes at most one page for the heap and one for each index, and touches no page
  of another table.
\<close>

theorem table_insert_atomic:
  assumes "LoadTable ts name = Inr (sch, first, bs)" "table_ok sch bs first bp ps ixs" "room (1 + length bs) bp"
  shows "\<exists>b res. TS_InsertRecord ts name vs bp = Some (b, res) \<and> (case res of
      Inr rid \<Rightarrow> heap_contents (pool_page bp) ps rid = None \<and> (\<exists>r. Serialize sch vs (Some empty_record) = Inr r \<and>
        table_became (1 + length bs) sch bs first bp ps ixs b ((heap_contents (pool_page bp) ps)(rid \<mapsto> rec_data r)))
    | Inl st \<Rightarrow> table_became (1 + length bs) sch bs first bp ps ixs b (heap_contents (pool_page bp) ps) \<or>
        \<not> healthy bp \<and> rollback_failed insert_rollbacks st)"
  by (rule insert_record_spec[OF assms])

theorem table_insert_atomic_witness:
  "\<exists>p hid bp b res. TS_InsertRecord (example_storage p hid) ''t'' [FInt 7] bp = Some (b, res) \<and> healthy b \<and>
     (\<exists>ps ixs. table_ok example_schema (example_bindings hid) p b ps ixs)"
proof -
  obtain bp p hid where e: "table_ok example_schema (example_bindings hid) p bp [p] [(hid, [[], []])]" "healthy bp" "room 1000 bp"
    using example_table by blast
  have "room (1 + length (example_bindings hid)) bp" by (rule room_mono[OF e(3)]) (simp add: example_bindings_def)
  from table_insert_atomic[OF example_loaded e(1) this, of "[FInt 7]"] e(2) show ?thesis
    by (fastforce simp: table_became_def split: sum.splits)
qed

text \<open>
  C10. Updating a row replaces its bytes and, in every index whose key changes, the old key by the new
  one; it succeeds only for a record identifier of the table. On an error the table is as before, or the
  buffer pool failed and the error says that a rollback did.
\<close>

theorem table_update_atomic:
  assumes "LoadTable ts name = Inr (sch, first, bs)" "table_ok sch bs first bp ps ixs" "room (3 * length bs) bp"
  shows "\<exists>b st. TS_UpdateRecord ts name rid vs bp = Some (b, st) \<and> (if status_ok st
    then heap_contents (pool_page bp) ps rid \<noteq> None \<and> (\<exists>r. Serialize sch vs (Some empty_record) = Inr r \<and>
      table_became (3 * length bs) sch bs first bp ps ixs b ((heap_contents (pool_page bp) ps)(rid \<mapsto> rec_data r)))
    else table_became (3 * length bs) sch bs first bp ps ixs b (heap_contents (pool_page bp) ps) \<or>
      \<not> healthy bp \<and> rollback_failed update_rollbacks st)"
  by (rule update_record_spec[OF assms])

theorem table_update_atomic_witness:
  "\<exists>p hid bp b st. TS_UpdateRecord (example_storage p hid) ''t'' (RecordID p 0) [FInt 7] bp = Some (b, st) \<and> \<not> status_ok st \<and>
     (\<exists>ps ixs. table_ok example_schema (example_bindings hid) p b ps ixs)"
proof -
  obtain bp p hid where e: "table_ok example_schema (example_bindings hid) p bp [p] [(hid, [[], []])]" "healthy bp" "room 1000 bp"
    "heap_contents (pool_page bp) [p] = (\<lambda>_. None)" using example_table by blast
  have "room (3 * length (example_bindings hid)) bp" by (rule room_mono[OF e(3)]) (simp add: example_bindings_def)
  from table_update_atomic[OF example_loaded e(1) this, of "RecordID p 0" "[FInt 7]"] obtain b st where
    u: "TS_UpdateRecord (example_storage p hid) ''t'' (RecordID p 0) [FInt 7] bp = Some (b, st)" "\<not> status_ok st"
      "table_became (3 * length (example_bindings hid)) example_schema (example_bindings hid) p bp [p] [(hid, [[], []])] b (\<lambda>_. None)"
    using e(2,4) by (auto split: if_splits)
  then show ?thesis by (fastforce simp: table_became_def)
qed

text \<open>
  C11. Deleting a row removes its bytes and its key from every index; it succeeds only for a record
  identifier of the table. On an error the table is as before, or the buffer pool failed and the error
  says that a rollback did.
\<close>

theorem table_delete_atomic:
  assumes "LoadTable ts name = Inr (sch, first, bs)" "table_ok sch bs first bp ps ixs" "room (length bs) bp"
  shows "\<exists>b st. TS_DeleteRecord ts name rid bp = Some (b, st) \<and> (if status_ok st
    then heap_contents (pool_page bp) ps rid \<noteq> None \<and>
      table_became (length bs) sch bs first bp ps ixs b ((heap_contents (pool_page bp) ps)(rid := None))
    else table_became (length bs) sch bs first bp ps ixs b (heap_contents (pool_page bp) ps) \<or>
      \<not> healthy bp \<and> rollback_failed delete_rollbacks st)"
  by (rule delete_record_spec[OF assms])

theorem table_delete_atomic_witness:
  "\<exists>p hid bp b st. TS_DeleteRecord (example_storage p hid) ''t'' (RecordID p 0) bp = Some (b, st) \<and> \<not> status_ok st \<and>
     (\<exists>ps ixs. table_ok example_schema (example_bindings hid) p b ps ixs)"
proof -
  obtain bp p hid where e: "table_ok example_schema (example_bindings hid) p bp [p] [(hid, [[], []])]" "healthy bp" "room 1000 bp"
    "heap_contents (pool_page bp) [p] = (\<lambda>_. None)" using example_table by blast
  have "room (length (example_bindings hid)) bp" by (rule room_mono[OF e(3)]) (simp add: example_bindings_def)
  from table_delete_atomic[OF example_loaded e(1) this, of "RecordID p 0"] obtain b st where
    u: "TS_DeleteRecord (example_storage p hid) ''t'' (RecordID p 0) bp = Some (b, st)" "\<not> status_ok st"
      "table_became (length (example_bindings hid)) example_schema (example_bindings hid) p bp [p] [(hid, [[], []])] b (\<lambda>_. None)"
    using e(2,4) by (auto split: if_splits)
  then show ?thesis by (fastforce simp: table_became_def)
qed

section \<open>The indexes answer for the records\<close>

text \<open>
  A record read through the table storage is the record the heap file holds under that identifier;
  reading changes nothing. For an identifier that is not of the table it is an error.
\<close>

theorem table_get_record:
  assumes "LoadTable ts name = Inr (sch, first, bs)" "table_ok sch bs first bp ps ixs"
  shows "\<exists>b res. TS_GetRecord ts name rid bp = Some (b, res) \<and> read_only bp b \<and> (case res of
      Inr r \<Rightarrow> rec_rid r = rid \<and> heap_contents (pool_page bp) ps rid = Some (rec_data r)
    | Inl _ \<Rightarrow> heap_contents (pool_page bp) ps rid = None \<or> \<not> healthy bp)"
  using get_record_spec[OF assms(1), of bp ps ixs rid] assms(2) unfolding table_ok_def by blast

theorem table_get_record_witness:
  "\<exists>p hid bp b st. TS_GetRecord (example_storage p hid) ''t'' (RecordID p 0) bp = Some (b, Inl st)"
proof -
  obtain bp p hid where e: "table_ok example_schema (example_bindings hid) p bp [p] [(hid, [[], []])]"
    "heap_contents (pool_page bp) [p] = (\<lambda>_. None)" using example_table by blast
  from table_get_record[OF example_loaded e(1), of "RecordID p 0"] obtain b res where
    r: "TS_GetRecord (example_storage p hid) ''t'' (RecordID p 0) bp = Some (b, res)" "case res of
        Inr r \<Rightarrow> rec_rid r = RecordID p 0 \<and> heap_contents (pool_page bp) [p] (RecordID p 0) = Some (rec_data r)
      | Inl _ \<Rightarrow> heap_contents (pool_page bp) [p] (RecordID p 0) = None \<or> \<not> healthy bp" by blast
  then obtain st where "res = Inl st" unfolding e(2) by (cases res) auto
  then show ?thesis using r(1) by blast
qed

lemma index_lookup_spec:
  assumes "table_ok sch bs first bp ps ixs" "i < length bs" "Encode v = Inr key"
  shows "\<exists>b rids st. HI_GetValue (ib_index (bs ! i)) key bp = Some (b, rids, st) \<and> read_only bp b \<and>
    (if status_ok st then distinct rids \<and> set rids = {rid. \<exists>d. heap_contents (pool_page bp) ps rid = Some d \<and>
       GetValue sch (Record rid d) (ib_column_index (bs ! i)) = Inr v}
     else \<not> healthy bp)"
proof -
  have T: "tbl_state bp first ps ixs" "map fst ixs = map ib_index bs"
    "ix_sets bp ixs = table_keys sch bs (heap_contents (pool_page bp) ps)" using assms(1) by (simp_all add: table_ok_def)
  have i: "i < length ixs" "fst (ixs ! i) = ib_index (bs ! i)"
    using assms(2) T(2) by (metis length_map, metis length_map nth_map)
  obtain h bk where x: "ixs ! i = (h, bk)" by (cases "ixs ! i")
  have hi: "hi_state bp h bk" using T(1) i(1) x by (auto simp: tbl_state_def list_all_length)
  have k: "length key \<le> MAX_KEY_LENGTH" using Encode_length[OF assms(3)] by simp
  have rk: "row_key sch c d = Some key \<longleftrightarrow> GetValue sch (Record rid d) c = Inr v" for c d rid
    unfolding GetValue_data[of sch rid d c default_rid]
    using assms(3) by (auto simp: row_key_def dest: Encode_inject[OF assms(3)] split: sum.splits)
  have "hi_entries (pool_page bp) bk = ix_sets bp ixs ! i" using i(1) x by (simp add: ix_sets_def)
  also have "\<dots> = {(k, r). \<exists>d. heap_contents (pool_page bp) ps r = Some d \<and> row_key sch (ib_column_index (bs ! i)) d = Some k}"
    unfolding T(3) using assms(2) by (simp add: table_keys_def)
  finally have S: "{rid. (key, rid) \<in> hi_entries (pool_page bp) bk} = {rid. \<exists>d. heap_contents (pool_page bp) ps rid = Some d \<and>
      GetValue sch (Record rid d) (ib_column_index (bs ! i)) = Inr v}" by (simp add: rk[symmetric])
  have h: "h = ib_index (bs ! i)" using i(2) x by simp
  show ?thesis using HI_GetValue_spec[OF hi k] unfolding S h .
qed

text \<open>
  C12. An index answers an equality search exactly as a scan of the table would: the identifiers it returns
  are those of the rows whose indexed column has the value, each once. It fails only when the buffer
  pool could not load a page.
\<close>

theorem table_index_lookup:
  assumes "table_ok sch bs first bp ps ixs" "i < length bs" "Encode v = Inr key"
  shows "\<exists>b rids st. HI_GetValue (ib_index (bs ! i)) key bp = Some (b, rids, st) \<and> read_only bp b \<and>
    (if status_ok st then distinct rids \<and> set rids = {rid. \<exists>d. heap_contents (pool_page bp) ps rid = Some d \<and>
       GetValue sch (Record rid d) (ib_column_index (bs ! i)) = Inr v}
     else \<not> healthy bp)"
  by (rule index_lookup_spec[OF assms])

theorem table_index_lookup_witness:
  "\<exists>hid bp b st. HI_GetValue hid [CHR 0x03, CHR 0x01] bp = Some (b, [], st) \<and> status_ok st"
proof -
  obtain bp p hid where e: "table_ok example_schema (example_bindings hid) p bp [p] [(hid, [[], []])]" "healthy bp"
    "heap_contents (pool_page bp) [p] = (\<lambda>_. None)" using example_table by blast
  have "Encode (FBool True) = Inr [CHR 0x03, CHR 0x01]" by (simp add: Encode_def)
  from table_index_lookup[OF e(1) _ this, of 0] e(2,3) show ?thesis by (auto simp: example_bindings_def split: if_splits)
qed

section \<open>Sequences of operations\<close>

datatype table_op = TInsert "field_value list" | TUpdate record_id "field_value list" | TDelete record_id | TGet record_id

text \<open>The pool after the operation, and whether it reports success.\<close>

fun run_table_op :: "table_storage \<Rightarrow> string \<Rightarrow> table_op \<Rightarrow> pool \<Rightarrow> (pool \<times> bool) option" where
  "run_table_op ts name (TInsert vs) bp = map_option (\<lambda>(b, res). (b, \<not> isl res)) (TS_InsertRecord ts name vs bp)"
| "run_table_op ts name (TUpdate rid vs) bp = map_option (\<lambda>(b, st). (b, status_ok st)) (TS_UpdateRecord ts name rid vs bp)"
| "run_table_op ts name (TDelete rid) bp = map_option (\<lambda>(b, st). (b, status_ok st)) (TS_DeleteRecord ts name rid bp)"
| "run_table_op ts name (TGet rid) bp = map_option (\<lambda>(b, res). (b, \<not> isl res)) (TS_GetRecord ts name rid bp)"

fun run_table_ops :: "table_storage \<Rightarrow> string \<Rightarrow> table_op list \<Rightarrow> pool \<Rightarrow> (pool \<times> bool list) option" where
  "run_table_ops ts name [] bp = Some (bp, [])"
| "run_table_ops ts name (op # ops) bp = (case run_table_op ts name op bp of
     None \<Rightarrow> None
   | Some (b, ok) \<Rightarrow> map_option (\<lambda>(b, oks). (b, ok # oks)) (run_table_ops ts name ops b))"

text \<open>The contract: a map from record identifiers to the bytes of the rows.\<close>

fun row_step :: "schema \<Rightarrow> table_op \<Rightarrow> (record_id \<Rightarrow> byte list option) \<Rightarrow> (record_id \<Rightarrow> byte list option) \<Rightarrow> bool" where
  "row_step sch (TInsert vs) H H' \<longleftrightarrow>
     (\<exists>rid r. H rid = None \<and> Serialize sch vs (Some empty_record) = Inr r \<and> H' = H(rid \<mapsto> rec_data r))"
| "row_step sch (TUpdate rid vs) H H' \<longleftrightarrow>
     H rid \<noteq> None \<and> (\<exists>r. Serialize sch vs (Some empty_record) = Inr r \<and> H' = H(rid \<mapsto> rec_data r))"
| "row_step sch (TDelete rid) H H' \<longleftrightarrow> H rid \<noteq> None \<and> H' = H(rid := None)"
| "row_step sch (TGet rid) H H' \<longleftrightarrow> H rid \<noteq> None \<and> H' = H"

fun row_steps ::
  "schema \<Rightarrow> table_op list \<Rightarrow> bool list \<Rightarrow> (record_id \<Rightarrow> byte list option) \<Rightarrow> (record_id \<Rightarrow> byte list option) \<Rightarrow> bool" where
  "row_steps sch (op # ops) (ok # oks) H H' \<longleftrightarrow>
     (\<exists>H1. (if ok then row_step sch op H H1 else H1 = H) \<and> row_steps sch ops oks H1 H')"
| "row_steps sch [] [] H H' \<longleftrightarrow> H' = H"
| "row_steps sch _ _ H H' \<longleftrightarrow> False"

lemma table_op_step:
  assumes "LoadTable ts name = Inr (sch, first, bs)" "table_ok sch bs first bp ps ixs" "healthy bp" "room (1 + 3 * length bs) bp"
  shows "\<exists>b ok H. run_table_op ts name op bp = Some (b, ok) \<and> table_became (1 + 3 * length bs) sch bs first bp ps ixs b H \<and>
    (if ok then row_step sch op (heap_contents (pool_page bp) ps) H else H = heap_contents (pool_page bp) ps)"
proof -
  have r: "room (1 + length bs) bp" "room (length bs) bp" "room (3 * length bs) bp"
    using assms(4) by (auto intro: room_mono)
  have mono: "table_became n sch bs first bp ps ixs b H \<Longrightarrow> n \<le> 1 + 3 * length bs \<Longrightarrow>
      table_became (1 + 3 * length bs) sch bs first bp ps ixs b H" for n b H
    by (auto simp: table_became_def intro: adds_mono)
  show ?thesis
  proof (cases op)
    case (TInsert vs)
    then show ?thesis using insert_record_spec[OF assms(1,2) r(1), of vs] assms(3) mono[of "1 + length bs"]
      by (fastforce split: sum.splits)
  next
    case (TUpdate rid vs)
    then show ?thesis using update_record_spec[OF assms(1,2) r(3), of rid vs] assms(3) mono[of "3 * length bs"]
      by (fastforce split: if_splits)
  next
    case (TDelete rid)
    then show ?thesis using delete_record_spec[OF assms(1,2) r(2), of rid] assms(3) mono[of "length bs"]
      by (fastforce split: if_splits)
  next
    case (TGet rid)
    have "tbl_state bp first ps ixs" using assms(2) by (simp add: table_ok_def)
    from get_record_spec[OF assms(1) this, of rid] obtain b res where g: "TS_GetRecord ts name rid bp = Some (b, res)"
      "read_only bp b" "adds 0 bp b" "case res of Inr r \<Rightarrow> rec_rid r = rid \<and> heap_contents (pool_page bp) ps rid = Some (rec_data r)
        | Inl _ \<Rightarrow> heap_contents (pool_page bp) ps rid = None \<or> \<not> healthy bp" by auto
    show ?thesis
      using TGet g(1,4) assms(3) table_same(1)[OF assms(2) g(2,3)]
      by (intro exI[of _ b] exI[of _ "\<not> isl res"] exI[of _ "heap_contents (pool_page bp) ps"]) (auto split: sum.splits)
  qed
qed

lemma table_ops_run:
  assumes "LoadTable ts name = Inr (sch, first, bs)" "table_ok sch bs first bp ps ixs" "healthy bp"
    "room (length ops * (1 + 3 * length bs)) bp"
  shows "\<exists>b oks ps' ixs'. run_table_ops ts name ops bp = Some (b, oks) \<and> table_ok sch bs first b ps' ixs' \<and> healthy b \<and>
    row_steps sch ops oks (heap_contents (pool_page bp) ps) (heap_contents (pool_page b) ps')"
  using assms(2-4)
proof (induction ops arbitrary: bp ps ixs)
  case Nil
  then show ?case by auto
next
  case (Cons op ops)
  have r: "room (1 + 3 * length bs) bp" by (rule room_mono[OF Cons.prems(3)]) simp
  obtain b ok H where s: "run_table_op ts name op bp = Some (b, ok)" "table_became (1 + 3 * length bs) sch bs first bp ps ixs b H"
    "if ok then row_step sch op (heap_contents (pool_page bp) ps) H else H = heap_contents (pool_page bp) ps"
    using table_op_step[OF assms(1) Cons.prems(1,2) r, of op] by blast
  obtain ps1 ixs1 where t: "table_ok sch bs first b ps1 ixs1" "heap_contents (pool_page b) ps1 = H" "healthy b"
    "adds (1 + 3 * length bs) bp b" using s(2) Cons.prems(2) by (auto simp: table_became_def)
  have "room ((1 + 3 * length bs) + length ops * (1 + 3 * length bs)) bp" using Cons.prems(3) by (simp add: algebra_simps)
  then have "room (length ops * (1 + 3 * length bs)) b" by (rule room_adds[OF _ t(4)])
  from Cons.IH[OF t(1,3) this] obtain b' oks ps' ixs' where u: "run_table_ops ts name ops b = Some (b', oks)"
    "table_ok sch bs first b' ps' ixs'" "healthy b'" "row_steps sch ops oks H (heap_contents (pool_page b') ps')"
    unfolding t(2) by blast
  have "row_steps sch (op # ops) (ok # oks) (heap_contents (pool_page bp) ps) (heap_contents (pool_page b') ps')"
    using s(3) u(4) by auto
  then show ?case using s(1) u(1-3)
    by (intro exI[of _ b'] exI[of _ "ok # oks"] exI[of _ ps'] exI[of _ ixs']) simp
qed

text \<open>
  C8. Any sequence of inserts, updates, deletes and reads of a table implements the map from record
  identifiers to row bytes: an operation that reports success has had its effect on the map, one that
  reports an error has had none, and after the sequence the indexes are still in step with the rows and
  no pin is left. The pool is free of pins and failures at the start, and has room for the pages.
\<close>

theorem table_history:
  assumes "LoadTable ts name = Inr (sch, first, bs)" "table_ok sch bs first bp ps ixs" "healthy bp"
    "room (length ops * (1 + 3 * length bs)) bp"
  shows "\<exists>b oks ps' ixs'. run_table_ops ts name ops bp = Some (b, oks) \<and> table_ok sch bs first b ps' ixs' \<and> healthy b \<and>
    row_steps sch ops oks (heap_contents (pool_page bp) ps) (heap_contents (pool_page b) ps')"
  by (rule table_ops_run[OF assms])

theorem table_history_witness:
  "\<exists>p hid bp b oks. run_table_ops (example_storage p hid) ''t'' [TInsert [FInt 7], TDelete (RecordID p 0), TInsert []] bp =
     Some (b, oks) \<and> length oks = 3 \<and> healthy b"
proof -
  obtain bp p hid where e: "table_ok example_schema (example_bindings hid) p bp [p] [(hid, [[], []])]" "healthy bp" "room 1000 bp"
    using example_table by blast
  let ?ops = "[TInsert [FInt 7], TDelete (RecordID p 0), TInsert []]"
  have "room (length ?ops * (1 + 3 * length (example_bindings hid))) bp"
    by (rule room_mono[OF e(3)]) (simp add: example_bindings_def)
  from table_history[OF example_loaded e(1,2) this] obtain b oks where
    r: "run_table_ops (example_storage p hid) ''t'' ?ops bp = Some (b, oks)" "healthy b" by blast
  have "length oks = length ops" if "run_table_ops ts n ops bp = Some (b, oks)" for ts n ops bp b oks
    using that by (induction ops arbitrary: bp oks) (auto split: option.splits prod.splits)
  then show ?thesis using r by fastforce
qed

end
