(* ===== verification/Query_Operators.thy ===== *)
theory Query_Operators
  imports Hash_Index Heap_File SQL_Literal "HOL-Library.List_Lexorder" "HOL-Library.Char_ord" "HOL-Library.Monad_Syntax"
begin

text \<open>
  The operators of a query plan (query/operators/*.h and *.cpp): the scan of a heap file, the scan of
  an index, the filter and the projection, and the statistics they count in (metrics/query_stats.h). An
  operator is an object with state behind the interface of query/operators/abstract_operator.h: the model
  is a datatype with one constructor per class, whose operations return the object changed. A null
  \<^verbatim>\<open>unique_ptr\<close> to a child is \<open>NullOperator\<close>, a null \<^verbatim>\<open>HeapFile\<close> or \<^verbatim>\<open>HashIndex\<close> is \<open>None\<close>, and whether a
  scan was given a \<^verbatim>\<open>QueryStats\<close> to count in is a flag. The outputs of \<^verbatim>\<open>Next\<close> are its result, \<open>None\<close> when it
  returns false; null output pointers have no counterpart. An operation that may walk along page links
  returns \<open>None\<close> at the outside when the walk never ends.
\<close>

section \<open>Statistics\<close>

datatype scan_type = NONE | SEQUENTIAL | HASH_INDEX

definition ScanTypeToString :: "scan_type \<Rightarrow> string" where
  "ScanTypeToString t = (case t of SEQUENTIAL \<Rightarrow> ''SeqScan'' | HASH_INDEX \<Rightarrow> ''IndexScan'' | NONE \<Rightarrow> ''None'')"

text \<open>The counters are unbounded; the execution time, a reading of the clock, is left out.\<close>

record query_stats =
  plan_scan_type :: scan_type
  pool_stats :: stats_snapshot
  pages_scanned :: nat
  records_examined :: nat
  rows_returned :: nat
  rows_affected :: nat

definition new_QueryStats :: query_stats where
  "new_QueryStats = \<lparr>plan_scan_type = NONE, pool_stats = StatsSnapshot 0 0 0 0, pages_scanned = 0,
     records_examined = 0, rows_returned = 0, rows_affected = 0\<rparr>"

text \<open>What both scans do with a record they return: the counters, and the page of the last record.\<close>

definition CountRecord :: "bool \<Rightarrow> page_id \<Rightarrow> page_id \<Rightarrow> query_stats \<Rightarrow> query_stats \<times> page_id" where
  "CountRecord counted p last_page_id stats =
     (if \<not> counted then (stats, last_page_id)
      else
        let stats = stats\<lparr>records_examined := records_examined stats + 1\<rparr>
        in if p \<noteq> last_page_id then (stats\<lparr>pages_scanned := pages_scanned stats + 1\<rparr>, p)
           else (stats, last_page_id))"

section \<open>Sequential scan\<close>

record seq_scan_operator =
  ss_heap_file :: "page_id option"
  ss_stats :: bool
  ss_started :: bool
  ss_finished :: bool
  ss_last_page_id :: page_id
  ss_current_rid :: record_id
  ss_status :: status

definition new_SeqScanOperator :: "page_id option \<Rightarrow> bool \<Rightarrow> seq_scan_operator" where
  "new_SeqScanOperator heap_file stats = \<lparr>ss_heap_file = heap_file, ss_stats = stats, ss_started = False,
     ss_finished = False, ss_last_page_id = INVALID_PAGE_ID, ss_current_rid = default_rid, ss_status = Status_OK\<rparr>"

definition SeqScan_Open :: "seq_scan_operator \<Rightarrow> seq_scan_operator \<times> status" where
  "SeqScan_Open s =
     (if ss_heap_file s = None then (s, InvalidArgument ''SeqScan requires a HeapFile'')
      else (s\<lparr>ss_started := False, ss_finished := False, ss_last_page_id := INVALID_PAGE_ID,
              ss_current_rid := default_rid, ss_status := Status_OK\<rparr>, Status_OK))"

definition SeqScan_Next ::
  "seq_scan_operator \<Rightarrow> query_stats \<Rightarrow> pool \<Rightarrow>
   (seq_scan_operator \<times> query_stats \<times> pool \<times> (db_record \<times> record_id) option) option" where
  "SeqScan_Next s stats bp =
     (if ss_finished s \<or> ss_heap_file s = None then Some (s, stats, bp, None)
      else (case (if ss_started s then HF_GetNextRecord (ss_current_rid s) bp
                  else HF_GetFirstRecord (the (ss_heap_file s)) bp) of
          None \<Rightarrow> None
        | Some (bp, Inl st) \<Rightarrow>
            let s = s\<lparr>ss_started := True\<rparr>
            in if status_code st = NOT_FOUND then Some (s\<lparr>ss_finished := True\<rparr>, stats, bp, None)
               else Some (s\<lparr>ss_status := st, ss_finished := True\<rparr>, stats, bp, None)
        | Some (bp, Inr r) \<Rightarrow>
            let found_rid = rec_rid r
            in (case CountRecord (ss_stats s) (rid_page found_rid) (ss_last_page_id s) stats of (stats, last_page_id) \<Rightarrow>
                  Some (s\<lparr>ss_started := True, ss_current_rid := found_rid, ss_last_page_id := last_page_id\<rparr>,
                        stats, bp, Some (r, found_rid)))))"

definition SeqScan_Close :: "seq_scan_operator \<Rightarrow> seq_scan_operator \<times> status" where
  "SeqScan_Close s = (s\<lparr>ss_finished := True\<rparr>, ss_status s)"

section \<open>Index scan\<close>

record index_scan_operator =
  is_index :: "page_id option"
  is_heap_file :: "page_id option"
  is_encoded_key :: string
  is_stats :: bool
  is_matching_rids :: "record_id list"
  is_cursor :: nat
  is_last_page_id :: page_id
  is_status :: status

definition new_IndexScanOperator :: "page_id option \<Rightarrow> page_id option \<Rightarrow> string \<Rightarrow> bool \<Rightarrow> index_scan_operator" where
  "new_IndexScanOperator index heap_file encoded_key stats = \<lparr>is_index = index, is_heap_file = heap_file,
     is_encoded_key = encoded_key, is_stats = stats, is_matching_rids = [], is_cursor = 0,
     is_last_page_id = INVALID_PAGE_ID, is_status = Status_OK\<rparr>"

definition IndexScan_Open :: "index_scan_operator \<Rightarrow> pool \<Rightarrow> (index_scan_operator \<times> pool \<times> status) option" where
  "IndexScan_Open s bp =
     (if is_index s = None \<or> is_heap_file s = None
      then Some (s, bp, InvalidArgument ''IndexScan requires a HashIndex and HeapFile'')
      else (case HI_GetValue (the (is_index s)) (is_encoded_key s) bp of
          None \<Rightarrow> None
        | Some (bp, rids, st) \<Rightarrow>
            Some (s\<lparr>is_matching_rids := rids, is_cursor := 0, is_last_page_id := INVALID_PAGE_ID, is_status := st\<rparr>, bp, st)))"

text \<open>The loop over the identifiers: a record that is not found is passed over.\<close>

function IndexScan_Loop ::
  "index_scan_operator \<Rightarrow> query_stats \<Rightarrow> pool \<Rightarrow>
   index_scan_operator \<times> query_stats \<times> pool \<times> (db_record \<times> record_id) option" where
  "IndexScan_Loop s stats bp =
     (if is_cursor s < length (is_matching_rids s) then
        let candidate = is_matching_rids s ! is_cursor s;
            s = s\<lparr>is_cursor := is_cursor s + 1\<rparr>
        in (case HF_GetRecord candidate bp of
              (bp, Inl st) \<Rightarrow>
                if status_code st = NOT_FOUND then IndexScan_Loop s stats bp
                else (s\<lparr>is_status := st\<rparr>, stats, bp, None)
            | (bp, Inr r) \<Rightarrow>
                (case CountRecord (is_stats s) (rid_page candidate) (is_last_page_id s) stats of (stats, last_page_id) \<Rightarrow>
                   (s\<lparr>is_last_page_id := last_page_id\<rparr>, stats, bp, Some (r, candidate))))
      else (s, stats, bp, None))"
  by pat_completeness auto
termination
  by (relation "measure (\<lambda>(s, _). length (is_matching_rids s) - is_cursor s)") auto

declare IndexScan_Loop.simps [simp del]

definition IndexScan_Next ::
  "index_scan_operator \<Rightarrow> query_stats \<Rightarrow> pool \<Rightarrow>
   index_scan_operator \<times> query_stats \<times> pool \<times> (db_record \<times> record_id) option" where
  "IndexScan_Next s stats bp =
     (if \<not> status_ok (is_status s) then (s, stats, bp, None) else IndexScan_Loop s stats bp)"

definition IndexScan_Close :: "index_scan_operator \<Rightarrow> index_scan_operator \<times> status" where
  "IndexScan_Close s = (s\<lparr>is_matching_rids := [], is_cursor := 0\<rparr>, is_status s)"

section \<open>Filter\<close>

record filter_operator =
  fo_schema :: schema
  fo_condition :: condition
  fo_column_index :: nat
  fo_column_found :: bool
  fo_target_value :: field_value
  fo_status :: status

definition new_FilterOperator :: "schema \<Rightarrow> condition \<Rightarrow> filter_operator" where
  "new_FilterOperator schema c = \<lparr>fo_schema = schema, fo_condition = c, fo_column_index = 0,
     fo_column_found = False, fo_target_value = FNull, fo_status = Status_OK\<rparr>"

definition CompareIntegers :: "32 word \<Rightarrow> 32 word \<Rightarrow> string \<Rightarrow> bool" where
  "CompareIntegers left right oper =
     (if oper = ''='' then left = right
      else if oper = ''>'' then sint left > sint right
      else if oper = ''<'' then sint left < sint right
      else if oper = ''>='' then sint left \<ge> sint right
      else if oper = ''<='' then sint left \<le> sint right
      else False)"

text \<open>\<^verbatim>\<open>std::string\<close> compares its bytes as unsigned numbers, lexicographically.\<close>

definition CompareStrings :: "string \<Rightarrow> string \<Rightarrow> string \<Rightarrow> bool" where
  "CompareStrings left right oper =
     (if oper = ''='' then left = right
      else if oper = ''>'' then left > right
      else if oper = ''<'' then left < right
      else if oper = ''>='' then left \<ge> right
      else if oper = ''<='' then left \<le> right
      else False)"

definition ParseTargetValue :: "filter_operator \<Rightarrow> filter_operator" where
  "ParseTargetValue f =
     (case ConvertLiteral (fo_schema f ! fo_column_index f) (cond_value (fo_condition f)) False of
        Inl st \<Rightarrow> f\<lparr>fo_status := st\<rparr>
      | Inr v \<Rightarrow> f\<lparr>fo_target_value := v, fo_status := Status_OK\<rparr>)"

text \<open>The value of a condition on the value of the column, where both are there.\<close>

definition CompareValues :: "field_value \<Rightarrow> field_value \<Rightarrow> string \<Rightarrow> bool" where
  "CompareValues actual target oper = (case actual of
     FNull \<Rightarrow> False
   | FInt left \<Rightarrow> (case target of FInt right \<Rightarrow> CompareIntegers left right oper | _ \<Rightarrow> False)
   | FStr left \<Rightarrow> (case target of FStr right \<Rightarrow> CompareStrings left right oper | _ \<Rightarrow> False)
   | FBool left \<Rightarrow> (case target of FBool right \<Rightarrow> oper = ''='' \<and> left = right | _ \<Rightarrow> False))"

definition Evaluate :: "db_record \<Rightarrow> filter_operator \<Rightarrow> filter_operator \<times> bool" where
  "Evaluate record f = (case GetValue (fo_schema f) record (fo_column_index f) of
     Inl st \<Rightarrow> (f\<lparr>fo_status := st\<rparr>, False)
   | Inr actual_value \<Rightarrow>
       (f\<lparr>fo_status := Status_OK\<rparr>, CompareValues actual_value (fo_target_value f) (cond_op (fo_condition f))))"

text \<open>\<^verbatim>\<open>Open\<close> up to the point where the child is opened.\<close>

definition Filter_Prepare :: "filter_operator \<Rightarrow> filter_operator \<times> status" where
  "Filter_Prepare f =
     (case find (\<lambda>index. col_name (fo_schema f ! index) = cond_column (fo_condition f)) [0..<length (fo_schema f)] of
        None \<Rightarrow> (f\<lparr>fo_column_found := False\<rparr>,
          InvalidArgument (''Filter column does not exist: '' @ cond_column (fo_condition f)))
      | Some index \<Rightarrow>
          let f = ParseTargetValue (f\<lparr>fo_column_index := index, fo_column_found := True\<rparr>)
          in (f, fo_status f))"

section \<open>Projection\<close>

record projection_operator =
  po_input_schema :: schema
  po_selected_fields :: "nat list"
  po_status :: status

definition new_ProjectionOperator :: "schema \<Rightarrow> nat list \<Rightarrow> projection_operator" where
  "new_ProjectionOperator input_schema selected_fields =
     \<lparr>po_input_schema = input_schema, po_selected_fields = selected_fields, po_status = Status_OK\<rparr>"

definition Projection_Prepare :: "projection_operator \<Rightarrow> projection_operator \<times> status" where
  "Projection_Prepare p =
     (if po_selected_fields p = [] then (p, InvalidArgument ''Projection requires at least one column'')
      else if list_ex (\<lambda>index. index \<ge> length (po_input_schema p)) (po_selected_fields p)
      then (p, InvalidArgument ''Projection column index is out of range'')
      else (p\<lparr>po_status := Status_OK\<rparr>, Status_OK))"

section \<open>The operator\<close>

datatype abstract_operator =
    NullOperator
  | SeqScanOperator seq_scan_operator
  | IndexScanOperator index_scan_operator
  | FilterOperator abstract_operator filter_operator
  | ProjectionOperator abstract_operator projection_operator

text \<open>Calling an operation of a null operator has no defined result; no operator and no plan does.\<close>

fun Op_Open :: "abstract_operator \<Rightarrow> pool \<Rightarrow> (abstract_operator \<times> pool \<times> status) option" where
  "Op_Open NullOperator bp = None"
| "Op_Open (SeqScanOperator s) bp = (case SeqScan_Open s of (s, st) \<Rightarrow> Some (SeqScanOperator s, bp, st))"
| "Op_Open (IndexScanOperator s) bp = (case IndexScan_Open s bp of
     None \<Rightarrow> None | Some (s, bp, st) \<Rightarrow> Some (IndexScanOperator s, bp, st))"
| "Op_Open (FilterOperator child f) bp =
     (if child = NullOperator
      then Some (FilterOperator child f, bp, InvalidArgument ''Filter requires a child operator'')
      else (case Filter_Prepare f of (f, st) \<Rightarrow>
        if \<not> status_ok st then Some (FilterOperator child f, bp, st)
        else (case Op_Open child bp of
            None \<Rightarrow> None | Some (child, bp, st) \<Rightarrow> Some (FilterOperator child f, bp, st))))"
| "Op_Open (ProjectionOperator child p) bp =
     (if child = NullOperator
      then Some (ProjectionOperator child p, bp, InvalidArgument ''Projection requires a child operator'')
      else (case Projection_Prepare p of (p, st) \<Rightarrow>
        if \<not> status_ok st then Some (ProjectionOperator child p, bp, st)
        else (case Op_Open child bp of
            None \<Rightarrow> None | Some (child, bp, st) \<Rightarrow> Some (ProjectionOperator child p, bp, st))))"

text \<open>The loop of a filter is its own next call: the operator it goes on with has the state in which
  the loop goes on, and the conditions before the loop hold again.\<close>

partial_function (option) Op_Next ::
  "abstract_operator \<Rightarrow> query_stats \<Rightarrow> pool \<Rightarrow>
   (abstract_operator \<times> query_stats \<times> pool \<times> (db_record \<times> record_id) option) option" where
  "Op_Next oper stats bp = (case oper of
     NullOperator \<Rightarrow> None
   | SeqScanOperator s \<Rightarrow> (case SeqScan_Next s stats bp of
        None \<Rightarrow> None
      | Some (s, stats, bp, r) \<Rightarrow> Some (SeqScanOperator s, stats, bp, r))
   | IndexScanOperator s \<Rightarrow> (case IndexScan_Next s stats bp of
        (s, stats, bp, r) \<Rightarrow> Some (IndexScanOperator s, stats, bp, r))
   | FilterOperator child f \<Rightarrow>
       if child = NullOperator \<or> \<not> status_ok (fo_status f) then Some (FilterOperator child f, stats, bp, None)
       else do {
         (child, stats, bp, r) \<leftarrow> Op_Next child stats bp;
         (case r of
            None \<Rightarrow> Some (FilterOperator child f, stats, bp, None)
          | Some (record, rid) \<Rightarrow>
              (case Evaluate record f of (f, matches) \<Rightarrow>
                 if matches then Some (FilterOperator child f, stats, bp, Some (record, rid))
                 else if \<not> status_ok (fo_status f) then Some (FilterOperator child f, stats, bp, None)
                 else Op_Next (FilterOperator child f) stats bp)) }
   | ProjectionOperator child p \<Rightarrow>
       if child = NullOperator \<or> \<not> status_ok (po_status p) then Some (ProjectionOperator child p, stats, bp, None)
       else do {
         (child, stats, bp, r) \<leftarrow> Op_Next child stats bp;
         (case r of
            None \<Rightarrow> Some (ProjectionOperator child p, stats, bp, None)
          | Some (input_record, input_rid) \<Rightarrow>
              (case Project (po_input_schema p) input_record (po_selected_fields p) of
                 Inl st \<Rightarrow> Some (ProjectionOperator child (p\<lparr>po_status := st\<rparr>), stats, bp, None)
               | Inr record \<Rightarrow>
                   Some (ProjectionOperator child (p\<lparr>po_status := Status_OK\<rparr>), stats, bp,
                         Some (SetRecordID record input_rid, input_rid)))) })"

fun Op_Close :: "abstract_operator \<Rightarrow> abstract_operator \<times> status" where
  "Op_Close NullOperator = (NullOperator, Status_OK)"
| "Op_Close (SeqScanOperator s) = (case SeqScan_Close s of (s, st) \<Rightarrow> (SeqScanOperator s, st))"
| "Op_Close (IndexScanOperator s) = (case IndexScan_Close s of (s, st) \<Rightarrow> (IndexScanOperator s, st))"
| "Op_Close (FilterOperator child f) = (case Op_Close child of (child, child_status) \<Rightarrow>
     (FilterOperator child f, if \<not> status_ok (fo_status f) then fo_status f else child_status))"
| "Op_Close (ProjectionOperator child p) = (case Op_Close child of (child, child_status) \<Rightarrow>
     (ProjectionOperator child p, if \<not> status_ok (po_status p) then po_status p else child_status))"

end
