(* ===== verification/Plan_Growth.thy ===== *)
theory Plan_Growth
  imports Page_Growth Catalog_Correct
begin

text \<open>
  Continues \<^verbatim>\<open>Page_Growth\<close> for what the executor calls besides the table storage: the scans, the lookup in
  an index, the flushes, the catalog and the destruction of an index add no page to the file.
\<close>

section \<open>Walks that only look\<close>

lemma HF_FindLoop_adds:
  assumes "HF_FindLoop visited c k bp = Some (b, res)"
  shows "adds 0 bp b"
proof -
  have "case out of (bp', res) \<Rightarrow> adds 0 bp bp'" if "HF_FindLoop visited c k bp = Some out" for out
  proof (rule HF_FindLoop.raw_induct
      [where P = "\<lambda>visited c k bp out. case out of (bp', res) \<Rightarrow> adds 0 bp bp'", OF _ that], goal_cases)
    case (1 loop visited c k bp out)
    obtain bp' res where out: "out = (bp', res)" by (cases out)
    obtain b x where b: "FetchPage c bp = (b, x)" by (cases "FetchPage c bp")
    have k: "adds 0 bp b" by (rule step_adds(3)[OF adds_refl b])
    have ih: "adds 0 bp bp'" if "loop v n m b2 = Some (bp', res)" "adds 0 bp b2" for v n m b2
      using 1(1)[OF that(1)] adds_0(2)[OF that(2)] by auto
    show "case out of (bp', res) \<Rightarrow> adds 0 bp bp'"
      using 1(2) b k out
      by (auto intro!: fst_adds intro: ih dest: step_adds(1)[OF k]
          split: if_splits option.splits prod.splits sum.splits)
  qed
  then show ?thesis using assms by fastforce
qed

lemma HF_scan_adds:
  "HF_GetFirstRecord first bp = Some (b, res) \<Longrightarrow> adds 0 bp b"
  "HF_GetNextRecord rid bp = Some (b, res) \<Longrightarrow> adds 0 bp b"
  by (auto simp: HF_GetFirstRecord_def HF_GetNextRecord_def HF_FindRecordFrom_def dest: HF_FindLoop_adds split: if_splits)

lemma HI_GetLoop_adds:
  assumes "HI_GetLoop visited c key rids bp = Some (b, res)"
  shows "adds 0 bp b"
proof -
  have "case out of (bp', res) \<Rightarrow> adds 0 bp bp'" if "HI_GetLoop visited c key rids bp = Some out" for out
  proof (rule HI_GetLoop.raw_induct
      [where P = "\<lambda>visited c key rids bp out. case out of (bp', res) \<Rightarrow> adds 0 bp bp'", OF _ that], goal_cases)
    case (1 loop visited c key rids bp out)
    obtain bp' res where out: "out = (bp', res)" by (cases out)
    obtain b x where b: "FetchPage c bp = (b, x)" by (cases "FetchPage c bp")
    have k: "adds 0 bp b" by (rule step_adds(3)[OF adds_refl b])
    have ih: "adds 0 bp bp'" if "loop v n key rs b2 = Some (bp', res)" "adds 0 bp b2" for v n rs b2
      using 1(1)[OF that(1)] adds_0(2)[OF that(2)] by auto
    show "case out of (bp', res) \<Rightarrow> adds 0 bp bp'"
      using 1(2) b k out
      by (auto intro!: fst_adds intro: ih dest: step_adds(1)[OF k]
          split: if_splits option.splits prod.splits sum.splits)
  qed
  then show ?thesis using assms by (cases res) fastforce
qed

lemma HI_GetValue_adds:
  assumes "HI_GetValue hid key bp = Some (b, res)"
  shows "adds 0 bp b"
proof -
  obtain b1 r where g: "HI_GetBucketPageId hid key bp = (b1, r)" by (cases "HI_GetBucketPageId hid key bp")
  note k = HI_GetBucketPageId_adds[OF g]
  show ?thesis using assms g k adds_0(2)[OF k HI_GetLoop_adds]
    by (auto simp: HI_GetValue_def split: if_splits sum.splits prod.splits)
qed

section \<open>Flushes and the catalog\<close>

lemma FlushPage_adds:
  assumes "adds n bp b" "FlushPage p b = (b', ok)"
  shows "adds n bp b'"
proof -
  have "fits N b'" if f: "fits N b" for N
  proof (cases "page_table b p")
    case None
    then show ?thesis using assms(2) f by (auto simp: FlushPage_def)
  next
    case (Some g)
    have p: "p < N" "num_pages (pool_disk b) \<le> N" using f Some by (auto simp: fits_def bounded_def)
    obtain d st where w: "WritePage p (Some (page_data (frame_of b g))) (pool_disk b) = (d, st)"
      by (cases "WritePage p (Some (page_data (frame_of b g))) (pool_disk b)")
    have "bounded N (b\<lparr>pool_disk := d\<rparr>)" using f WritePage_bounded[OF w p(2,1)] by (simp add: fits_def bounded_disk)
    then have B: "bounded N (b\<lparr>pool_disk := d\<rparr>)" "bounded N (b\<lparr>pool_disk := d, disk_writes := k\<rparr>)" for k by simp_all
    have "page_pid (frame_of b g) < N" using f Some by (auto simp: fits_def bounded_def)
    then have "bounded N (set_frame g ((frame_of b g)\<lparr>is_dirty := False\<rparr>) (b\<lparr>pool_disk := d, disk_writes := k\<rparr>))" for k
      by (intro bounded_set_frame B) simp
    note S = this
    have e: "frame_of (b\<lparr>pool_disk := d, disk_writes := k\<rparr>) g = frame_of b g" for k by (simp add: frame_of_def)
    consider "b' = b" | "b' = b\<lparr>pool_disk := d\<rparr>"
      | k where "b' = set_frame g ((frame_of b g)\<lparr>is_dirty := False\<rparr>) (b\<lparr>pool_disk := d, disk_writes := k\<rparr>)"
      using assms(2) unfolding FlushPage_def WriteFrame_def Some option.case w prod.case
      by (cases "is_dirty (frame_of b g)"; cases "status_ok st") (simp_all add: e eq_commute[of _ b'])
    then have "bounded N b' \<and> free_pages (pool_disk b') = free_pages (pool_disk b)"
      by cases (use S B f disk_free(1)[OF w] in \<open>simp_all add: fits_def\<close>)
    then show ?thesis using fits_step[OF f _ FlushPage_health[OF assms(2)]] by simp
  qed
  then show ?thesis using assms(1) by (simp add: adds_def)
qed

lemma FlushAllPages_kept:
  assumes "pool_ok X bp" "set order \<subseteq> dom (page_table bp)"
  shows "adds 0 bp (FlushAllPages order bp) \<and> keeps_health bp (FlushAllPages order bp)"
  using assms unfolding FlushAllPages_def
proof (induction order arbitrary: bp)
  case (Cons p order)
  have "page_table bp p \<noteq> None" using Cons.prems(2) by auto
  then obtain b1 ok where b1: "FlushPage p bp = (b1, ok)" "FlushStep p bp = b1"
    using FlushStep_eq by (cases "FlushPage p bp") force
  note f = FlushPage_spec[OF Cons.prems(1) b1(1)]
  have "set order \<subseteq> dom (page_table b1)" using f Cons.prems(2) by auto
  then show ?case
    using Cons.IH[of b1] f b1(2) adds_0(2)[OF FlushPage_adds[OF adds_refl b1(1)]] keeps_health_trans[OF FlushPage_health[OF b1(1)]]
    by auto
qed simp

lemma CM_Persist_adds:
  assumes "pool_ok {} bp" "CM_Persist c bp = (b, st)"
  shows "adds 0 bp b"
proof -
  obtain b1 x where ft: "FetchPage 0 bp = (b1, x)" by (cases "FetchPage 0 bp")
  have k: "adds 0 bp b1" by (rule step_adds(3)[OF adds_refl ft])
  have w: "adds 0 bp b2"
    if "UnpinPage 0 True (set_frame f ((frame_of b1 f)\<lparr>page_data := d\<rparr>) b1) = (b2, ok)" for f d b2 ok
    by (rule write_adds(1)[OF k that]) simp
  show ?thesis using assms(2) ft k
    by (auto simp: CM_Persist_def Let_def layout_simps dest: w FlushPage_adds[OF w]
        split: if_splits sum.splits prod.splits option.splits bool.splits)
qed

section \<open>Destroying an index\<close>

lemma DestroyChain_adds:
  assumes "DestroyChain visited c bp = Some (b, res)"
  shows "adds 0 bp b"
proof -
  have "case out of (bp', res) \<Rightarrow> adds 0 bp bp'" if "DestroyChain visited c bp = Some out" for out
  proof (rule DestroyChain.raw_induct
      [where P = "\<lambda>visited c bp out. case out of (bp', res) \<Rightarrow> adds 0 bp bp'", OF _ that], goal_cases)
    case (1 loop visited c bp out)
    obtain bp' res where out: "out = (bp', res)" by (cases out)
    obtain b x where b: "FetchPage c bp = (b, x)" by (cases "FetchPage c bp")
    have k: "adds 0 bp b" by (rule step_adds(3)[OF adds_refl b])
    have ih: "adds 0 bp bp'" if "loop v n b2 = Some (bp', res)" "adds 0 bp b2" for v n b2
      using 1(1)[OF that(1)] adds_0(2)[OF that(2)] by auto
    show "case out of (bp', res) \<Rightarrow> adds 0 bp bp'"
      using 1(2) b k out
      by (auto intro!: fst_adds intro: ih dest: step_adds(1)[OF k] step_adds(2)[OF step_adds(1)[OF k]]
          split: if_splits option.splits prod.splits sum.splits)
  qed
  then show ?thesis using assms by fastforce
qed

lemma DestroyChains_adds: "DestroyChains visited ps bp = Some (b, res) \<Longrightarrow> adds 0 bp b"
proof (induction ps arbitrary: visited bp)
  case (Cons p ps)
  then show ?case
    by (auto dest: DestroyChain_adds intro: adds_0(2)[OF DestroyChain_adds] split: option.splits prod.splits sum.splits)
qed simp

lemma HI_Destroy_adds:
  assumes "HI_Destroy hid bp = Some (b, h, st)"
  shows "adds 0 bp b"
proof -
  obtain b1 x where ft: "FetchPage hid bp = (b1, x)" by (cases "FetchPage hid bp")
  have k: "adds 0 bp b1" by (rule step_adds(3)[OF adds_refl ft])
  obtain b2 ok where un: "UnpinPage hid False b1 = (b2, ok)" by (cases "UnpinPage hid False b1")
  have k2: "adds 0 bp b2" by (rule step_adds(1)[OF k un])
  show ?thesis using assms ft k un k2
    by (auto simp: HI_Destroy_def Let_def intro: adds_0(2)[OF k2 DestroyChains_adds]
          step_adds(2)[OF adds_0(2)[OF k2 DestroyChains_adds]]
        split: if_splits option.splits prod.splits sum.splits bool.splits)
qed

end
