(* ===== verification/Query_Correct.thy ===== *)
theory Query_Correct
  imports Query_Operators Table_Correct Plan_Growth "HOL-Library.Sublist"
begin

text \<open>
  What an operator of a plan returns, call after call. The relation \<open>pulls\<close> is the sequence of its rows up
  to the call that returns none. The two scans share a contract, the locale \<open>row_scan\<close>: they enumerate a
  list of records and change nothing; the filter and the projection transform the rows of their child.
\<close>

section \<open>The rows of an operator\<close>

type_synonym 'o next_fun =
  "'o \<Rightarrow> query_stats \<Rightarrow> pool \<Rightarrow> ('o \<times> query_stats \<times> pool \<times> (db_record \<times> record_id) option) option"

text \<open>Every call only reads the pool.\<close>

definition only_reads :: "pool \<Rightarrow> pool \<Rightarrow> bool" where
  "only_reads bp b \<longleftrightarrow> read_only bp b \<and> adds 0 bp b"

lemma only_reads_trans: "only_reads a b \<Longrightarrow> only_reads b c \<Longrightarrow> only_reads a c"
  unfolding only_reads_def using read_only_trans adds_0(1) by blast

lemma only_reads_refl: "pool_ok {} bp \<Longrightarrow> only_reads bp bp"
  by (simp add: only_reads_def read_only_def)

lemma only_reads_healthy: "only_reads bp b \<Longrightarrow> healthy bp \<Longrightarrow> healthy b"
  unfolding only_reads_def using read_only_healthy by blast

text \<open>The operator and the pool after a call do not depend on the statistics, and the call counts no
  row as returned or affected.\<close>

definition counts_kept :: "query_stats \<Rightarrow> query_stats \<Rightarrow> bool" where
  "counts_kept st st' \<longleftrightarrow> rows_returned st' = rows_returned st \<and> rows_affected st' = rows_affected st \<and>
     plan_scan_type st' = plan_scan_type st"

lemma counts_kept_trans: "counts_kept a b \<Longrightarrow> counts_kept b c \<Longrightarrow> counts_kept a c"
  by (simp add: counts_kept_def)

definition calls ::
  "'o next_fun \<Rightarrow> 'o \<Rightarrow> pool \<Rightarrow> 'o \<Rightarrow> pool \<Rightarrow> (db_record \<times> record_id) option \<Rightarrow> bool" where
  "calls nxt s bp s' b r \<longleftrightarrow> only_reads bp b \<and> (\<forall>st. \<exists>st'. nxt s st bp = Some (s', st', b, r) \<and> counts_kept st st')"

lemma callsE:
  assumes "calls nxt s bp s' b r"
  obtains st' where "nxt s st bp = Some (s', st', b, r)" "counts_kept st st'" "only_reads bp b"
  using assms by (auto simp: calls_def)

inductive pulls :: "'o next_fun \<Rightarrow> 'o \<Rightarrow> pool \<Rightarrow> db_record list \<Rightarrow> 'o \<Rightarrow> pool \<Rightarrow> bool"
  for nxt :: "'o next_fun" where
  pulls_end: "calls nxt s bp s' b None \<Longrightarrow> pulls nxt s bp [] s' b"
| pulls_row: "calls nxt s bp s1 b1 (Some (r, rec_rid r)) \<Longrightarrow> pulls nxt s1 b1 rs s' b \<Longrightarrow> pulls nxt s bp (r # rs) s' b"

lemma pulls_only_reads: "pulls nxt s bp rs s' b \<Longrightarrow> only_reads bp b"
  by (induction rule: pulls.induct) (auto simp: calls_def intro: only_reads_trans)

section \<open>The contract of a scan\<close>

text \<open>\<open>remaining bp s rs\<close>: the scan \<open>s\<close> still has to return \<open>rs\<close>. A scan may pass over rows on a pool that
  fails, if it is \<open>lossy\<close>; otherwise a failure ends it with an error.\<close>

locale row_scan =
  fixes nxt :: "'o next_fun"
    and remaining :: "pool \<Rightarrow> 'o \<Rightarrow> db_record list \<Rightarrow> bool"
    and close_status :: "'o \<Rightarrow> status"
    and lossy :: bool
  assumes step: "remaining bp s rs \<Longrightarrow> \<exists>s' b r rs'. calls nxt s bp s' b r \<and>
    (if status_ok (close_status s')
     then (rs' = rs \<or> lossy \<and> \<not> healthy bp \<and> suffix rs' rs) \<and>
       (case rs' of [] \<Rightarrow> r = None | x # xs \<Rightarrow> r = Some (x, rec_rid x) \<and> remaining b s' xs)
     else r = None \<and> \<not> healthy bp)"
begin

lemma drain:
  assumes "remaining bp s rs"
  shows "\<exists>rs' s' b. pulls nxt s bp rs' s' b \<and> subseq rs' rs \<and>
    (if status_ok (close_status s') then rs' = rs \<or> lossy \<and> \<not> healthy bp else \<not> healthy bp)"
  using assms
proof (induction "length rs" arbitrary: rs s bp rule: less_induct)
  case less
  obtain s1 b1 r rs1 where n: "calls nxt s bp s1 b1 r"
    "if status_ok (close_status s1)
     then (rs1 = rs \<or> lossy \<and> \<not> healthy bp \<and> suffix rs1 rs) \<and>
       (case rs1 of [] \<Rightarrow> r = None | x # xs \<Rightarrow> r = Some (x, rec_rid x) \<and> remaining b1 s1 xs)
     else r = None \<and> \<not> healthy bp" using step[OF less.prems] by blast
  show ?case
  proof (cases r)
    case None
    then have "pulls nxt s bp [] s1 b1" using n(1) by (auto intro: pulls_end)
    moreover have "status_ok (close_status s1) \<Longrightarrow> rs = [] \<or> lossy \<and> \<not> healthy bp"
      using n(2) None by (auto split: list.splits)
    ultimately show ?thesis using n(2) None
      by (intro exI[of _ "[]"] exI[of _ s1] exI[of _ b1]) (auto split: if_splits)
  next
    case (Some x)
    then obtain y ys where y: "status_ok (close_status s1)" "rs1 = y # ys" "r = Some (y, rec_rid y)" "remaining b1 s1 ys"
      "rs1 = rs \<or> lossy \<and> \<not> healthy bp \<and> suffix rs1 rs" using n(2) by (cases rs1) (auto split: if_splits)
    have sx: "suffix (y # ys) rs" using y(2,5) by auto
    then have "length ys < length rs" using suffix_length_le by fastforce
    from less.hyps[OF this y(4)] obtain rs2 s2 b2 where 2: "pulls nxt s1 b1 rs2 s2 b2" "subseq rs2 ys"
      "if status_ok (close_status s2) then rs2 = ys \<or> lossy \<and> \<not> healthy b1 else \<not> healthy b1" by blast
    have "pulls nxt s bp (y # rs2) s2 b2" by (rule pulls_row[OF n(1)[unfolded y(3)] 2(1)])
    moreover have "subseq (y # rs2) rs"
      using subseq_order.trans[OF _ suffix_imp_subseq[OF sx], of "y # rs2"] 2(2) by simp
    moreover have "\<not> healthy b1 \<Longrightarrow> \<not> healthy bp" using only_reads_healthy n(1) unfolding calls_def by blast
    ultimately show ?thesis using 2(3) y(2,5)
      by (intro exI[of _ "y # rs2"] exI[of _ s2] exI[of _ b2]) (auto split: if_splits)
  qed
qed

end

section \<open>The sequential scan\<close>

definition seq_remaining :: "pool \<Rightarrow> seq_scan_operator \<Rightarrow> db_record list \<Rightarrow> bool" where
  "seq_remaining bp s rs \<longleftrightarrow> (\<exists>first ps. ss_heap_file s = Some first \<and> ss_status s = Status_OK \<and> \<not> ss_finished s \<and>
     hf_state bp first ps \<and>
     (if ss_started s then \<exists>pre r. heap_records (pool_page bp) ps = pre @ r # rs \<and> ss_current_rid s = rec_rid r
      else rs = heap_records (pool_page bp) ps))"

lemma scan_step:
  assumes "seq_remaining bp s rs"
  shows "\<exists>b res. (if ss_started s then HF_GetNextRecord (ss_current_rid s) bp
      else HF_GetFirstRecord (the (ss_heap_file s)) bp) = Some (b, res) \<and> only_reads bp b \<and>
    (res = next_of rs \<or> \<not> healthy bp \<and> fetch_failed res)"
proof -
  obtain first ps where s: "ss_heap_file s = Some first" "hf_state bp first ps"
    "if ss_started s then \<exists>pre r. heap_records (pool_page bp) ps = pre @ r # rs \<and> ss_current_rid s = rec_rid r
     else rs = heap_records (pool_page bp) ps" using assms by (auto simp: seq_remaining_def)
  show ?thesis
  proof (cases "ss_started s")
    case False
    then show ?thesis using HF_GetFirstRecord_spec[OF s(2)] HF_scan_adds(1) s by (fastforce simp: only_reads_def)
  next
    case True
    then obtain pre r where r: "heap_records (pool_page bp) ps = pre @ r # rs" "ss_current_rid s = rec_rid r" using s(3) by auto
    have d: "distinct ps" using s(2) by (simp add: hf_state_def)
    from heap_records_after[OF r(1) d] obtain xs q ys where p: "ps = xs @ q # ys" "q = rid_page (rec_rid r)"
        "records_from (pool_page bp) (q # ys) (rid_slot (rec_rid r) + 1) = rs" by blast
    show ?thesis using HF_GetNextRecord_spec[OF s(2)[unfolded p(1)] p(2)[symmetric]] HF_scan_adds(2) p(3) r(2) True
      by (fastforce simp: only_reads_def)
  qed
qed

lemma seq_remaining_next:
  assumes "seq_remaining bp s (r # rs)" "only_reads bp b"
  shows "seq_remaining b (s\<lparr>ss_started := True, ss_current_rid := rec_rid r, ss_last_page_id := p\<rparr>) rs"
proof -
  obtain first ps where s: "ss_heap_file s = Some first" "hf_state bp first ps" "ss_status s = Status_OK" "\<not> ss_finished s"
    "if ss_started s then \<exists>pre q. heap_records (pool_page bp) ps = pre @ q # r # rs \<and> ss_current_rid s = rec_rid q
     else r # rs = heap_records (pool_page bp) ps" using assms(1) by (auto simp: seq_remaining_def)
  have "\<exists>pre. heap_records (pool_page bp) ps = pre @ r # rs"
  proof (cases "ss_started s")
    case True
    then obtain pre q where "heap_records (pool_page bp) ps = (pre @ [q]) @ r # rs" using s(5) by auto
    then show ?thesis by blast
  next
    case False
    then have "heap_records (pool_page bp) ps = [] @ r # rs" using s(5) by simp
    then show ?thesis by blast
  qed
  moreover have ro: "hf_state b first ps" "pool_page b = pool_page bp"
    using read_only_hf[OF s(2)] read_only_pages assms(2) by (auto simp: only_reads_def)
  ultimately show ?thesis using s(1-4) unfolding seq_remaining_def by (intro exI[of _ first] exI[of _ ps]) auto
qed

lemma CountRecord_counts: "counts_kept st (fst (CountRecord k p q st))" "snd (CountRecord k p q st) = (if k then p else q)"
  by (simp_all add: CountRecord_def counts_kept_def Let_def)

interpretation seq_scan: row_scan SeqScan_Next seq_remaining "\<lambda>s. ss_status s" False
proof
  fix bp s rs assume a: "seq_remaining bp s rs"
  then have s: "\<not> ss_finished s" "ss_heap_file s \<noteq> None" "ss_status s = Status_OK" by (auto simp: seq_remaining_def)
  obtain b res where n: "(if ss_started s then HF_GetNextRecord (ss_current_rid s) bp
      else HF_GetFirstRecord (the (ss_heap_file s)) bp) = Some (b, res)" "only_reads bp b"
    "res = next_of rs \<or> \<not> healthy bp \<and> fetch_failed res" using scan_step[OF a] by blast
  have N: "SeqScan_Next s st bp = (case res of
      Inl e \<Rightarrow> let s = s\<lparr>ss_started := True\<rparr>
        in if status_code e = NOT_FOUND then Some (s\<lparr>ss_finished := True\<rparr>, st, b, None)
           else Some (s\<lparr>ss_status := e, ss_finished := True\<rparr>, st, b, None)
    | Inr r \<Rightarrow> let p = CountRecord (ss_stats s) (rid_page (rec_rid r)) (ss_last_page_id s) st in
        Some (s\<lparr>ss_started := True, ss_current_rid := rec_rid r, ss_last_page_id := snd p\<rparr>,
          fst p, b, Some (r, rec_rid r)))" for st
    using s unfolding SeqScan_Next_def n(1) by (auto simp: Let_def split: sum.splits prod.splits)
  show "\<exists>s' b r rs'. calls SeqScan_Next s bp s' b r \<and>
    (if status_ok (ss_status s')
     then (rs' = rs \<or> False \<and> \<not> healthy bp \<and> suffix rs' rs) \<and>
       (case rs' of [] \<Rightarrow> r = None | x # xs \<Rightarrow> r = Some (x, rec_rid x) \<and> seq_remaining b s' xs)
     else r = None \<and> \<not> healthy bp)"
  proof (cases "res = next_of rs")
    case True
    show ?thesis
    proof (cases rs)
      case Nil
      then have "calls SeqScan_Next s bp (s\<lparr>ss_started := True, ss_finished := True\<rparr>) b None"
        using True n(2) s Nil by (auto simp: calls_def N next_of_def Let_def counts_kept_def)
      then show ?thesis using s(3) Nil by (intro exI[of _ "s\<lparr>ss_started := True, ss_finished := True\<rparr>"] exI[of _ b] exI[of _ None]) simp
    next
      case (Cons x xs)
      let ?s = "s\<lparr>ss_started := True, ss_current_rid := rec_rid x,
        ss_last_page_id := (if ss_stats s then rid_page (rec_rid x) else ss_last_page_id s)\<rparr>"
      have "calls SeqScan_Next s bp ?s b (Some (x, rec_rid x))"
        using True Cons n(2) by (simp add: calls_def N next_of_def Let_def CountRecord_counts)
      then show ?thesis using s(3) Cons seq_remaining_next[OF a[unfolded Cons] n(2)]
        by (intro exI[of _ ?s] exI[of _ b] exI[of _ "Some (x, rec_rid x)"] exI[of _ rs]) simp
    qed
  next
    case False
    then obtain m where m: "res = Inl (IOError m)" "\<not> healthy bp" using n(3) by (auto simp: fetch_failed_def)
    let ?s = "s\<lparr>ss_started := True, ss_status := IOError m, ss_finished := True\<rparr>"
    have "calls SeqScan_Next s bp ?s b None" using n(2) s m(1) by (simp add: calls_def N Let_def counts_kept_def)
    then show ?thesis using m(2) by (intro exI[of _ ?s] exI[of _ b] exI[of _ None]) simp
  qed
qed

section \<open>The index scan\<close>

definition found_records :: "pool \<Rightarrow> page_id list \<Rightarrow> record_id list \<Rightarrow> db_record list" where
  "found_records bp ps rids = map (\<lambda>rid. Record rid (the (heap_contents (pool_page bp) ps rid))) rids"

definition idx_remaining :: "pool \<Rightarrow> index_scan_operator \<Rightarrow> db_record list \<Rightarrow> bool" where
  "idx_remaining bp s rs \<longleftrightarrow> status_ok (is_status s) \<and> (\<exists>first ps. hf_state bp first ps \<and>
     rs = found_records bp ps (drop (is_cursor s) (is_matching_rids s)) \<and>
     (\<forall>rid \<in> set (drop (is_cursor s) (is_matching_rids s)). heap_contents (pool_page bp) ps rid \<noteq> None))"

lemma heap_get_record:
  assumes "hf_state bp first ps" "heap_contents (pool_page bp) ps rid = Some d" "HF_GetRecord rid bp = (b, res)"
  shows "only_reads bp b \<and> (res = Inr (Record rid d) \<or> \<not> healthy bp \<and> (\<exists>st. res = Inl st \<and> \<not> status_ok st))"
proof -
  have t: "tbl_state bp first ps []" using assms(1) by (simp add: tbl_state_def tbl_pages_def index_pages_def hf_state_def)
  have "rid_page rid \<in> set ps" by (rule heap_rid_page[of "pool_page bp"]) (use assms(2) in simp)
  from tbl_get_record[OF t this assms(3)] show ?thesis
    using assms(2) HF_GetRecord_error[of rid bp b] assms(3)
    by (cases res) (auto simp: only_reads_def db_record.expand)
qed

abbreviation "IndexScan_Step \<equiv> \<lambda>s st bp. Some (IndexScan_Next s st bp)"

lemma index_step:
  assumes "idx_remaining bp s rs"
  shows "\<exists>s' b r rs'. calls IndexScan_Step s bp s' b r \<and>
    (if status_ok (is_status s')
     then (rs' = rs \<or> \<not> healthy bp \<and> suffix rs' rs) \<and>
       (case rs' of [] \<Rightarrow> r = None | x # xs \<Rightarrow> r = Some (x, rec_rid x) \<and> idx_remaining b s' xs)
     else r = None \<and> \<not> healthy bp)"
  using assms
proof (induction "length (is_matching_rids s) - is_cursor s" arbitrary: s bp rs rule: less_induct)
  case less
  obtain first ps where s: "status_ok (is_status s)" "hf_state bp first ps"
    "rs = found_records bp ps (drop (is_cursor s) (is_matching_rids s))"
    "\<forall>rid \<in> set (drop (is_cursor s) (is_matching_rids s)). heap_contents (pool_page bp) ps rid \<noteq> None"
    using less.prems by (auto simp: idx_remaining_def)
  have pk: "pool_ok {} bp" using s(2) by (simp add: hf_state_def)
  have nl: "IndexScan_Next s st bp = IndexScan_Loop s st bp" for st using s(1) by (simp add: IndexScan_Next_def)
  show ?case
  proof (cases "is_cursor s < length (is_matching_rids s)")
    case False
    then have "calls IndexScan_Step s bp s bp None"
      using only_reads_refl[OF pk] by (simp add: calls_def nl IndexScan_Loop.simps[of s] counts_kept_def)
    then show ?thesis using s(1,3) False
      by (intro exI[of _ s] exI[of _ bp] exI[of _ None] exI[of _ "[]"]) (simp add: found_records_def)
  next
    case True
    let ?rid = "is_matching_rids s ! is_cursor s" and ?s = "s\<lparr>is_cursor := is_cursor s + 1\<rparr>"
    have dr: "drop (is_cursor s) (is_matching_rids s) = ?rid # drop (is_cursor ?s) (is_matching_rids ?s)"
      using True by (simp add: Cons_nth_drop_Suc)
    obtain d where d: "heap_contents (pool_page bp) ps ?rid = Some d" using s(4) unfolding dr by auto
    obtain b res where g: "HF_GetRecord ?rid bp = (b, res)" by (cases "HF_GetRecord ?rid bp")
    note G = heap_get_record[OF s(2) d g] and L = IndexScan_Loop.simps[of s _ bp, unfolded Let_def g prod.case]
    have ro: "hf_state b first ps" "pool_page b = pool_page bp"
      using read_only_hf[OF s(2)] read_only_pages G by (auto simp: only_reads_def)
    have rs: "rs = Record ?rid d # found_records bp ps (drop (is_cursor ?s) (is_matching_rids ?s))"
      unfolding s(3) dr by (simp add: found_records_def d)
    have rem: "idx_remaining b (?s\<lparr>is_last_page_id := p\<rparr>) (tl rs)" "idx_remaining b ?s (tl rs)" for p
      using s(1,4) ro unfolding dr rs by (auto simp: idx_remaining_def found_records_def)
    show ?thesis
    proof (cases res)
      case (Inr r)
      then have r: "r = Record ?rid d" using G by auto
      let ?s1 = "?s\<lparr>is_last_page_id := (if is_stats s then rid_page ?rid else is_last_page_id s)\<rparr>"
      have "calls IndexScan_Step s bp ?s1 b (Some (Record ?rid d, ?rid))"
        using True Inr r G by (simp add: calls_def nl L case_prod_beta CountRecord_counts)
      then show ?thesis using s(1) rem(1) rs
        by (intro exI[of _ ?s1] exI[of _ b] exI[of _ "Some (Record ?rid d, ?rid)"] exI[of _ rs]) simp
    next
      case (Inl e)
      have nh: "\<not> healthy bp" "only_reads bp b" "\<not> status_ok e" using G Inl by auto
      show ?thesis
      proof (cases "status_code e = NOT_FOUND")
        case False
        then have "calls IndexScan_Step s bp (?s\<lparr>is_status := e\<rparr>) b None"
          using True Inl nh(2) by (simp add: calls_def nl L counts_kept_def)
        then show ?thesis using nh by (intro exI[of _ "?s\<lparr>is_status := e\<rparr>"] exI[of _ b] exI[of _ None]) simp
      next
        case nf: True
        then have l: "IndexScan_Next s st bp = IndexScan_Next ?s st b" for st
          using True Inl s(1) by (simp add: nl L) (simp add: IndexScan_Next_def)
        have "length (is_matching_rids ?s) - is_cursor ?s < length (is_matching_rids s) - is_cursor s" using True by simp
        from less.hyps[OF this rem(2)] obtain s' b' r rs' where
          i: "calls IndexScan_Step ?s b s' b' r"
          "if status_ok (is_status s')
           then (rs' = tl rs \<or> \<not> healthy b \<and> suffix rs' (tl rs)) \<and>
             (case rs' of [] \<Rightarrow> r = None | x # xs \<Rightarrow> r = Some (x, rec_rid x) \<and> idx_remaining b' s' xs)
           else r = None \<and> \<not> healthy b" by blast
        have c: "calls IndexScan_Step s bp s' b' r"
          using i(1) only_reads_trans[OF nh(2)] unfolding calls_def l by blast
        have "suffix rs' (tl rs) \<Longrightarrow> suffix rs' rs" using suffix_order.trans[OF _ suffix_tl] .
        then show ?thesis using c i(2) nh(1)
          by (intro exI[of _ s'] exI[of _ b'] exI[of _ r] exI[of _ rs']) (auto split: if_splits)
      qed
    qed
  qed
qed

interpretation index_scan: row_scan IndexScan_Step idx_remaining "\<lambda>s. is_status s" True
  by unfold_locales (simp only: simp_thms, rule index_step)

section \<open>Scans, filters and projections as operators\<close>

lemma calls_SeqScan: "calls SeqScan_Next s bp s' b r \<Longrightarrow> calls Op_Next (SeqScanOperator s) bp (SeqScanOperator s') b r"
proof -
  assume c: "calls SeqScan_Next s bp s' b r"
  have "\<exists>st'. Op_Next (SeqScanOperator s) st bp = Some (SeqScanOperator s', st', b, r) \<and> counts_kept st st'" for st
    by (rule callsE[OF c, of st]) (auto simp: Op_Next.simps[of "SeqScanOperator s"])
  then show ?thesis using c by (simp add: calls_def)
qed

lemma calls_IndexScan:
  "calls IndexScan_Step s bp s' b r \<Longrightarrow> calls Op_Next (IndexScanOperator s) bp (IndexScanOperator s') b r"
proof -
  assume c: "calls IndexScan_Step s bp s' b r"
  have "\<exists>st'. Op_Next (IndexScanOperator s) st bp = Some (IndexScanOperator s', st', b, r) \<and> counts_kept st st'" for st
    by (rule callsE[OF c, of st]) (auto simp: Op_Next.simps[of "IndexScanOperator s"])
  then show ?thesis using c by (simp add: calls_def)
qed

lemma pulls_SeqScan: "pulls SeqScan_Next s bp rs s' b \<Longrightarrow> pulls Op_Next (SeqScanOperator s) bp rs (SeqScanOperator s') b"
  by (induction rule: pulls.induct) (auto intro: pulls.intros calls_SeqScan)

lemma pulls_IndexScan:
  "pulls IndexScan_Step s bp rs s' b \<Longrightarrow> pulls Op_Next (IndexScanOperator s) bp rs (IndexScanOperator s') b"
  by (induction rule: pulls.induct) (auto intro: pulls.intros calls_IndexScan)

lemma Null_stops [simp]: "Op_Next NullOperator st bp = None"
  by (simp add: Op_Next.simps[of NullOperator])

lemma calls_not_null: "calls Op_Next s bp s' b r \<Longrightarrow> s \<noteq> NullOperator"
  by (auto simp: calls_def)

lemma pulls_not_null: "pulls Op_Next s bp rs s' b \<Longrightarrow> s \<noteq> NullOperator"
  by (erule pulls.cases) (auto dest: calls_not_null)

lemma Op_Next_not_null: "Op_Next s st bp = Some (s', st', b, r) \<Longrightarrow> s' \<noteq> NullOperator"
proof -
  have "fst out \<noteq> NullOperator" if "Op_Next s st bp = Some out" for out
  proof (rule Op_Next.raw_induct[where P = "\<lambda>s st bp out. fst out \<noteq> NullOperator", OF _ that], goal_cases)
    case (1 nxt s st bp out)
    from 1(2) show "fst out \<noteq> NullOperator"
      by (cases s) (auto split: if_splits option.splits prod.splits sum.splits Option.bind_splits dest: 1(1))
  qed
  then show "Op_Next s st bp = Some (s', st', b, r) \<Longrightarrow> s' \<noteq> NullOperator" by force
qed

lemma pulls_last: "pulls Op_Next s bp rs s' b \<Longrightarrow> s' \<noteq> NullOperator"
  by (induction rule: pulls.induct) (auto simp: calls_def dest: Op_Next_not_null)

text \<open>A row whose column can be read passes the filter or not, and leaves its state alone.\<close>

lemma Evaluate_readable:
  assumes "fo_status f = Status_OK" "GetValue (fo_schema f) r (fo_column_index f) = Inr v"
  shows "Evaluate r f = (f, CompareValues v (fo_target_value f) (cond_op (fo_condition f)))"
  using assms by (simp add: Evaluate_def)

lemma pulls_Filter:
  assumes "pulls Op_Next child bp rs child' b" "fo_status f = Status_OK"
    "\<forall>r \<in> set rs. \<exists>v. GetValue (fo_schema f) r (fo_column_index f) = Inr v"
  shows "pulls Op_Next (FilterOperator child f) bp (filter (\<lambda>r. snd (Evaluate r f)) rs) (FilterOperator child' f) b"
  using assms
proof (induction rule: pulls.induct)
  case (pulls_end s bp s' b)
  have "\<exists>st'. Op_Next (FilterOperator s f) st bp = Some (FilterOperator s' f, st', b, None) \<and> counts_kept st st'" for st
  proof -
    obtain st' where "Op_Next s st bp = Some (s', st', b, None)" "counts_kept st st'" by (rule callsE[OF pulls_end(1)])
    then show ?thesis using pulls_end.prems(1) calls_not_null[OF pulls_end(1)]
      by (intro exI[of _ st']) (simp add: Op_Next.simps[of "FilterOperator s f"])
  qed
  then have "calls Op_Next (FilterOperator s f) bp (FilterOperator s' f) b None"
    using pulls_end(1) by (simp add: calls_def)
  then show ?case by (simp add: pulls.pulls_end)
next
  case (pulls_row s bp s1 b1 r rs s' b)
  have n: "s \<noteq> NullOperator" by (rule calls_not_null[OF pulls_row.hyps(1)])
  obtain m where e: "Evaluate r f = (f, m)" using Evaluate_readable[OF pulls_row.prems(1)] pulls_row.prems(2) by fastforce
  have IH: "pulls Op_Next (FilterOperator s1 f) b1 (filter (\<lambda>r. snd (Evaluate r f)) rs) (FilterOperator s' f) b"
    using pulls_row.IH pulls_row.prems by simp
  have l: "\<exists>st1. counts_kept st st1 \<and> Op_Next (FilterOperator s f) st bp =
      (if m then Some (FilterOperator s1 f, st1, b1, Some (r, rec_rid r)) else Op_Next (FilterOperator s1 f) st1 b1)" for st
  proof -
    obtain st1 where "Op_Next s st bp = Some (s1, st1, b1, Some (r, rec_rid r))" "counts_kept st st1"
      by (rule callsE[OF pulls_row.hyps(1)])
    then show ?thesis using n pulls_row.prems(1) e by (intro exI[of _ st1]) (simp add: Op_Next.simps[of "FilterOperator s f"])
  qed
  have ro: "only_reads bp b1" using pulls_row.hyps(1) by (simp add: calls_def)
  show ?case
  proof (cases m)
    case True
    then have "calls Op_Next (FilterOperator s f) bp (FilterOperator s1 f) b1 (Some (r, rec_rid r))"
      using l ro by (fastforce simp: calls_def)
    then show ?thesis using True e IH by (auto intro: pulls.pulls_row)
  next
    case False
    have skip: "calls Op_Next (FilterOperator s f) bp s2 b2 x" if "calls Op_Next (FilterOperator s1 f) b1 s2 b2 x" for s2 b2 x
    proof -
      have "\<exists>st'. Op_Next (FilterOperator s f) st bp = Some (s2, st', b2, x) \<and> counts_kept st st'" for st
      proof -
        obtain st1 where 1: "counts_kept st st1" "Op_Next (FilterOperator s f) st bp = Op_Next (FilterOperator s1 f) st1 b1"
          using l[of st] False by auto
        have "\<exists>st2. Op_Next (FilterOperator s1 f) st1 b1 = Some (s2, st2, b2, x) \<and> counts_kept st1 st2"
          using that by (simp add: calls_def)
        then obtain st2 where "Op_Next (FilterOperator s1 f) st1 b1 = Some (s2, st2, b2, x)" "counts_kept st1 st2"
          by blast
        then show ?thesis using 1 counts_kept_trans[OF 1(1)] by auto
      qed
      then show ?thesis using that only_reads_trans[OF ro] by (simp add: calls_def)
    qed
    from IH show ?thesis
      by (cases rule: pulls.cases) (use False e skip in \<open>auto intro: pulls.intros\<close>)
  qed
qed

lemma Project_rid: "Project sch r idxs = Inr p \<Longrightarrow> rec_rid p = rec_rid r \<and> SetRecordID p (rec_rid r) = p"
  by (auto simp: Project_def SetRecordID_def split: sum.splits prod.splits)

text \<open>One call of a projection.\<close>

lemma calls_Projection:
  assumes "calls Op_Next s bp s1 b1 x" "po_status p = Status_OK"
  shows "x = None \<Longrightarrow> calls Op_Next (ProjectionOperator s p) bp (ProjectionOperator s1 p) b1 None"
    and "x = Some (r, rec_rid r) \<Longrightarrow> Project (po_input_schema p) r (po_selected_fields p) = Inr q \<Longrightarrow>
      calls Op_Next (ProjectionOperator s p) bp (ProjectionOperator s1 p) b1 (Some (q, rec_rid q))"
    and "x = Some (r, rec_rid r) \<Longrightarrow> Project (po_input_schema p) r (po_selected_fields p) = Inl e \<Longrightarrow>
      calls Op_Next (ProjectionOperator s p) bp (ProjectionOperator s1 (p\<lparr>po_status := e\<rparr>)) b1 None"
proof -
  have n: "s \<noteq> NullOperator" by (rule calls_not_null[OF assms(1)])
  have p: "p\<lparr>po_status := Status_OK\<rparr> = p" using assms(2) by (cases p) simp
  have P: "calls Op_Next (ProjectionOperator s p) bp s2 b1 y"
    if "\<And>st1 :: query_stats. (case x of
        None \<Rightarrow> Some (ProjectionOperator s1 p, st1, b1, None)
      | Some (input_record, input_rid) \<Rightarrow>
          (case Project (po_input_schema p) input_record (po_selected_fields p) of
             Inl st \<Rightarrow> Some (ProjectionOperator s1 (p\<lparr>po_status := st\<rparr>), st1, b1, None)
           | Inr record \<Rightarrow> Some (ProjectionOperator s1 (p\<lparr>po_status := Status_OK\<rparr>), st1, b1,
               Some (SetRecordID record input_rid, input_rid)))) = Some (s2, st1, b1, y)" for s2 y
  proof -
    have "\<exists>st'. Op_Next (ProjectionOperator s p) st bp = Some (s2, st', b1, y) \<and> counts_kept st st'" for st
    proof -
      obtain st1 where 1: "Op_Next s st bp = Some (s1, st1, b1, x)" "counts_kept st st1" by (rule callsE[OF assms(1)])
      then have "Op_Next (ProjectionOperator s p) st bp = Some (s2, st1, b1, y)"
        using n assms(2) that[of st1] by (simp add: Op_Next.simps[of "ProjectionOperator s p"])
      then show ?thesis using 1(2) by blast
    qed
    then show ?thesis using assms(1) by (simp add: calls_def)
  qed
  show "x = None \<Longrightarrow> calls Op_Next (ProjectionOperator s p) bp (ProjectionOperator s1 p) b1 None" by (rule P) simp
  show "x = Some (r, rec_rid r) \<Longrightarrow> Project (po_input_schema p) r (po_selected_fields p) = Inr q \<Longrightarrow>
      calls Op_Next (ProjectionOperator s p) bp (ProjectionOperator s1 p) b1 (Some (q, rec_rid q))"
    by (rule P) (simp add: p Project_rid)
  show "x = Some (r, rec_rid r) \<Longrightarrow> Project (po_input_schema p) r (po_selected_fields p) = Inl e \<Longrightarrow>
      calls Op_Next (ProjectionOperator s p) bp (ProjectionOperator s1 (p\<lparr>po_status := e\<rparr>)) b1 None" by (rule P) simp
qed

lemma pulls_Projection:
  assumes "pulls Op_Next child bp rs child' b" "po_status p = Status_OK"
    "\<forall>r \<in> set rs. \<exists>q. Project (po_input_schema p) r (po_selected_fields p) = Inr q"
  shows "pulls Op_Next (ProjectionOperator child p) bp
    (map (\<lambda>r. projr (Project (po_input_schema p) r (po_selected_fields p))) rs) (ProjectionOperator child' p) b"
  using assms
proof (induction rule: pulls.induct)
  case (pulls_end s bp s' b)
  then show ?case using calls_Projection(1)[OF pulls_end(1,2)] by (simp add: pulls.pulls_end)
next
  case (pulls_row s bp s1 b1 r rs s' b)
  obtain q where q: "Project (po_input_schema p) r (po_selected_fields p) = Inr q" using pulls_row.prems(2) by auto
  show ?case
    using pulls.pulls_row[OF calls_Projection(2)[OF pulls_row.hyps(1) pulls_row.prems(1) refl q]] pulls_row.IH pulls_row.prems q
    by simp
qed

text \<open>A projection that does not fit a record ends the plan with an error.\<close>

lemma pulls_Projection_fails:
  assumes "pulls Op_Next child bp rs child' b" "po_status p = Status_OK"
    "\<not> (\<forall>r \<in> set rs. \<exists>q. Project (po_input_schema p) r (po_selected_fields p) = Inr q)"
  shows "\<exists>pre suf r s1 b1 e. rs = pre @ r # suf \<and> Project (po_input_schema p) r (po_selected_fields p) = Inl e \<and>
    (\<forall>x \<in> set pre. \<exists>q. Project (po_input_schema p) x (po_selected_fields p) = Inr q) \<and>
    pulls Op_Next (ProjectionOperator child p) bp
      (map (\<lambda>r. projr (Project (po_input_schema p) r (po_selected_fields p))) pre)
      (ProjectionOperator s1 (p\<lparr>po_status := e\<rparr>)) b1"
  using assms
proof (induction rule: pulls.induct)
  case (pulls_end s bp s' b)
  then show ?case by simp
next
  case (pulls_row s bp s1 b1 r rs s' b)
  show ?case
  proof (cases "Project (po_input_schema p) r (po_selected_fields p)")
    case (Inl e)
    from pulls.pulls_end[OF calls_Projection(3)[OF pulls_row.hyps(1) pulls_row.prems(1) refl Inl]] show ?thesis
      using Inl by (intro exI[of _ "[]"] exI[of _ rs] exI[of _ r] exI[of _ s1] exI[of _ b1] exI[of _ e]) simp
  next
    case (Inr q)
    have "\<not> (\<forall>r \<in> set rs. \<exists>q. Project (po_input_schema p) r (po_selected_fields p) = Inr q)"
      using pulls_row.prems(2) Inr by auto
    from pulls_row.IH[OF pulls_row.prems(1) this] obtain pre suf x s2 b2 e where i:
      "rs = pre @ x # suf" "Project (po_input_schema p) x (po_selected_fields p) = Inl e"
      "\<forall>x \<in> set pre. \<exists>q. Project (po_input_schema p) x (po_selected_fields p) = Inr q"
      "pulls Op_Next (ProjectionOperator s1 p) b1
        (map (\<lambda>r. projr (Project (po_input_schema p) r (po_selected_fields p))) pre)
        (ProjectionOperator s2 (p\<lparr>po_status := e\<rparr>)) b2" by (elim exE conjE) (rule that)
    show ?thesis
      using pulls.pulls_row[OF calls_Projection(2)[OF pulls_row.hyps(1) pulls_row.prems(1) refl Inr] i(4)] i(1-3) Inr
      by (intro exI[of _ "r # pre"] exI[of _ suf] exI[of _ x] exI[of _ s2] exI[of _ b2] exI[of _ e]) simp
  qed
qed

end
