(* ===== verification/Query_Conditions.thy ===== *)
theory Query_Conditions
  imports Query_Correct
begin

text \<open>
  What a query means: the rows a heap file stores, when a condition of a statement is valid for a schema,
  and when a row satisfies it. The filters of a plan pass exactly the rows that satisfy their conditions.
\<close>

section \<open>The rows of a table\<close>

type_synonym row_map = "record_id \<Rightarrow> field_value list option"

definition row_bytes :: "schema \<Rightarrow> byte list option \<Rightarrow> field_value list option \<Rightarrow> bool" where
  "row_bytes sch bytes row \<longleftrightarrow> (case row of
     None \<Rightarrow> bytes = None
   | Some vs \<Rightarrow> \<exists>r. Serialize sch vs (Some empty_record) = Inr r \<and> bytes = Some (rec_data r))"

definition stored :: "schema \<Rightarrow> (record_id \<Rightarrow> byte list option) \<Rightarrow> row_map \<Rightarrow> bool" where
  "stored sch H R \<longleftrightarrow> (\<forall>rid. row_bytes sch (H rid) (R rid))"

lemma stored_none: "stored sch H R \<Longrightarrow> H rid = None \<longleftrightarrow> R rid = None"
  unfolding stored_def row_bytes_def by (erule allE[of _ rid]) (auto split: option.splits)

lemma stored_row:
  assumes "stored sch H R" "H (rec_rid r) = Some (rec_data r)"
  obtains vs where "R (rec_rid r) = Some vs" "Deserialize sch r = Inr vs" "length vs = length sch" "list_all2 field_ok sch vs"
proof -
  have "row_bytes sch (H (rec_rid r)) (R (rec_rid r))" using assms(1) by (simp add: stored_def)
  then obtain vs x where v: "R (rec_rid r) = Some vs" "Serialize sch vs (Some empty_record) = Inr x" "rec_data r = rec_data x"
    using assms(2) by (auto simp: row_bytes_def split: option.splits)
  have "Deserialize sch r = Inr vs" using Serialize_Deserialize[OF v(2)] Deserialize_data_cong[OF v(3)] by simp
  moreover have "list_all2 field_ok sch vs" using Serialize_Inr[OF v(2)] by (auto simp: row_ok_def)
  ultimately show ?thesis using that v(1) list_all2_lengthD by fastforce
qed

lemma stored_insert:
  "stored sch H R \<Longrightarrow> Serialize sch vs (Some empty_record) = Inr r \<Longrightarrow> stored sch (H(rid \<mapsto> rec_data r)) (R(rid \<mapsto> vs))"
  by (simp add: stored_def) (simp add: row_bytes_def)

lemma stored_delete: "stored sch H R \<Longrightarrow> stored sch (H(rid := None)) (R(rid := None))"
  by (simp add: stored_def) (simp add: row_bytes_def)

lemma stored_empty: "stored sch (\<lambda>_. None) (\<lambda>_. None)"
  by (simp add: stored_def row_bytes_def)

section \<open>Conditions\<close>

text \<open>The first column of a name.\<close>

definition column_at :: "schema \<Rightarrow> string \<Rightarrow> nat option" where
  "column_at sch name = find (\<lambda>i. col_name (sch ! i) = name) [0..<length sch]"

lemma column_at_Some: "column_at sch name = Some i \<Longrightarrow> i < length sch \<and> col_name (sch ! i) = name"
  by (auto simp: column_at_def find_Some_iff)

lemma column_at_found: "column_at sch name \<noteq> None \<longleftrightarrow> name \<in> set (map col_name sch)"
  by (auto simp: column_at_def find_None_iff in_set_conv_nth simp del: set_map)

text \<open>\<open>target sch c i v\<close>: the condition compares the column \<open>i\<close> with the value \<open>v\<close>.\<close>

definition target :: "schema \<Rightarrow> condition \<Rightarrow> nat \<Rightarrow> field_value \<Rightarrow> bool" where
  "target sch c i v \<longleftrightarrow> column_at sch (cond_column c) = Some i \<and> denotes (cond_value c) v \<and> field_ok (sch ! i) v \<and> v \<noteq> FNull"

definition cond_valid :: "schema \<Rightarrow> condition \<Rightarrow> bool" where
  "cond_valid sch c \<longleftrightarrow> (\<exists>i v. target sch c i v)"

text \<open>The order of the values: signed numbers, and strings lexicographically by their bytes.\<close>

definition value_less :: "field_value \<Rightarrow> field_value \<Rightarrow> bool" where
  "value_less x y \<longleftrightarrow> (case (x, y) of
     (FInt a, FInt b) \<Rightarrow> sint a < sint b | (FStr s, FStr t) \<Rightarrow> s < t | _ \<Rightarrow> False)"

definition has_order :: "field_value \<Rightarrow> bool" where
  "has_order x \<longleftrightarrow> (case x of FInt _ \<Rightarrow> True | FStr _ \<Rightarrow> True | _ \<Rightarrow> False)"

definition compares :: "field_value \<Rightarrow> string \<Rightarrow> field_value \<Rightarrow> bool" where
  "compares x oper y \<longleftrightarrow> x \<noteq> FNull \<and>
     (oper = ''='' \<and> x = y \<or>
      oper = ''<'' \<and> value_less x y \<or> oper = ''>'' \<and> value_less y x \<or>
      has_order x \<and> (oper = ''<='' \<and> (value_less x y \<or> x = y) \<or> oper = ''>='' \<and> (value_less y x \<or> x = y)))"

definition satisfies :: "schema \<Rightarrow> field_value list \<Rightarrow> condition \<Rightarrow> bool" where
  "satisfies sch vs c \<longleftrightarrow> (\<exists>i v. target sch c i v \<and> compares (vs ! i) (cond_op c) v)"

lemma sint_less_or_eq: "(sint a < sint b \<or> a = b) \<longleftrightarrow> sint a \<le> sint (b :: 32 word)"
  by (auto simp: order_le_less signed_word_eqI)

lemma CompareIntegers_holds: "CompareIntegers a b oper \<longleftrightarrow> compares (FInt a) oper (FInt b)"
  using sint_less_or_eq[of a b] sint_less_or_eq[of b a]
  by (auto simp: CompareIntegers_def compares_def value_less_def has_order_def)

lemma CompareStrings_holds: "CompareStrings a b oper \<longleftrightarrow> compares (FStr a) oper (FStr b)"
  by (auto simp: CompareStrings_def compares_def value_less_def has_order_def)

lemma CompareValues_holds: "CompareValues x y oper \<longleftrightarrow> compares x oper y"
proof (cases x)
  case (FInt a)
  then show ?thesis by (cases y) (auto simp: CompareValues_def CompareIntegers_holds compares_def value_less_def)
next
  case (FStr a)
  then show ?thesis by (cases y) (auto simp: CompareValues_def CompareStrings_holds compares_def value_less_def)
qed (auto simp: CompareValues_def compares_def value_less_def has_order_def split: field_value.splits)

text \<open>A condition has at most one target.\<close>

lemma target_convert:
  assumes "literal_ok (cond_value c)"
  shows "target sch c i v \<longleftrightarrow> column_at sch (cond_column c) = Some i \<and> ConvertLiteral (sch ! i) (cond_value c) False = Inr v"
  by (auto simp: target_def ConvertLiteral_exact[OF assms])

lemma satisfies_target:
  assumes "literal_ok (cond_value c)" "target sch c i v"
  shows "satisfies sch vs c \<longleftrightarrow> compares (vs ! i) (cond_op c) v"
  using assms(2) by (auto simp: satisfies_def target_convert[OF assms(1)])

section \<open>Filters\<close>

text \<open>A filter that is ready to compare.\<close>

definition filter_ready :: "schema \<Rightarrow> condition \<Rightarrow> filter_operator \<Rightarrow> bool" where
  "filter_ready sch c f \<longleftrightarrow> fo_schema f = sch \<and> fo_condition f = c \<and> fo_status f = Status_OK \<and>
     target sch c (fo_column_index f) (fo_target_value f)"

lemma ConvertLiteral_error: "ConvertLiteral col l n = Inl st \<Longrightarrow> \<not> status_ok st"
  by (auto simp: ConvertLiteral_def Let_def split: if_splits type_id.splits option.splits prod.splits)

lemma Filter_Prepare_spec:
  assumes "literal_ok (cond_value c)" "Filter_Prepare (new_FilterOperator sch c) = (f, st)"
  shows "if cond_valid sch c then status_ok st \<and> filter_ready sch c f else \<not> status_ok st"
proof (cases "column_at sch (cond_column c)")
  case None
  then show ?thesis using assms(2)
    by (auto simp: Filter_Prepare_def new_FilterOperator_def column_at_def cond_valid_def target_def)
next
  case (Some i)
  show ?thesis
  proof (cases "ConvertLiteral (sch ! i) (cond_value c) False")
    case (Inl e)
    then have "\<not> cond_valid sch c" using Some by (simp add: cond_valid_def target_convert[OF assms(1)])
    moreover have "st = e" using assms(2) Some Inl
      by (simp add: Filter_Prepare_def new_FilterOperator_def column_at_def ParseTargetValue_def Let_def)
    ultimately show ?thesis using ConvertLiteral_error[OF Inl] by simp
  next
    case (Inr v)
    then have t: "target sch c i v" using Some by (simp add: target_convert[OF assms(1)])
    have "st = Status_OK" "fo_schema f = sch" "fo_condition f = c" "fo_status f = Status_OK" "fo_column_index f = i" "fo_target_value f = v"
      using assms(2) Some Inr
      by (auto simp: Filter_Prepare_def new_FilterOperator_def column_at_def ParseTargetValue_def Let_def)
    then show ?thesis using t by (auto simp: filter_ready_def cond_valid_def)
  qed
qed

lemma filter_passes:
  assumes "literal_ok (cond_value c)" "filter_ready sch c f" "Deserialize sch r = Inr vs" "length vs = length sch"
  shows "GetValue (fo_schema f) r (fo_column_index f) = Inr (vs ! fo_column_index f)"
    "snd (Evaluate r f) \<longleftrightarrow> satisfies sch vs c"
proof -
  have t: "target sch c (fo_column_index f) (fo_target_value f)" "fo_status f = Status_OK" "fo_schema f = sch" "fo_condition f = c"
    using assms(2) by (simp_all add: filter_ready_def)
  then have "fo_column_index f < length vs" using column_at_Some assms(4) unfolding target_def by force
  then show g: "GetValue (fo_schema f) r (fo_column_index f) = Inr (vs ! fo_column_index f)"
    using assms(3) t(3) by (simp add: GetValue_def)
  show "snd (Evaluate r f) \<longleftrightarrow> satisfies sch vs c"
    using Evaluate_readable[OF t(2) g] satisfies_target[OF assms(1) t(1)] t(4) by (simp add: CompareValues_holds)
qed

end
