(* ===== verification/Executor.thy ===== *)
theory Executor
  imports Query_Operators Table_Storage
begin

text \<open>
  The executor (query/executor.h, query/executor.cpp): it builds the plan of a statement, runs it and
  applies the changes through the table storage and the catalog. The two pointers of the class are
  whether \<^verbatim>\<open>bpm_\<close> is there, and the catalog, which an execution may change. The statistics are those the
  caller passes, or the local ones; \<^verbatim>\<open>result\<close> may be null, which is a flag. \<^verbatim>\<open>FlushAllPages\<close> walks a hash table:
  the order is an argument. An operation returns \<open>None\<close> if a walk it starts never ends or the constructor
  of \<^verbatim>\<open>HeapFile\<close> throws.
\<close>

record query_executor =
  qe_catalog :: "catalog option"
  qe_bpm :: bool

record query_result =
  qr_column_names :: "string list"
  qr_rows :: "field_value list list"

definition new_QueryResult :: query_result where "new_QueryResult = \<lparr>qr_column_names = [], qr_rows = []\<rparr>"

definition DEFAULT_BUCKET_COUNT :: nat where "DEFAULT_BUCKET_COUNT = 64"

section \<open>Helpers\<close>

definition FindColumn :: "schema \<Rightarrow> string \<Rightarrow> nat result" where
  "FindColumn columns column_name =
     (case find (\<lambda>index. col_name (columns ! index) = column_name) [0..<length columns] of
        Some index \<Rightarrow> Inr index
      | None \<Rightarrow> Inl (NotFound (''Column does not exist: '' @ column_name)))"

definition ClosePlan :: "abstract_operator \<Rightarrow> status \<Rightarrow> status" where
  "ClosePlan plan current_status =
     (if plan = NullOperator then current_status
      else if status_ok current_status then snd (Op_Close plan) else current_status)"

definition DestroyIndexAfterFailure :: "page_id option \<Rightarrow> status \<Rightarrow> pool \<Rightarrow> (pool \<times> status) option" where
  "DestroyIndexAfterFailure index primary_status bp = (case index of
     None \<Rightarrow> Some (bp, primary_status)
   | Some index \<Rightarrow> (case HI_Destroy index bp of
        None \<Rightarrow> None
      | Some (bp, _, cleanup_status) \<Rightarrow>
          Some (bp, if status_ok cleanup_status then primary_status
            else IOError (''Index creation failed: '' @ status_message primary_status @
                   ''; cleanup failed: '' @ status_message cleanup_status))))"

section \<open>Plans\<close>

text \<open>The first condition an index can answer, with its encoded key.\<close>

fun FindIndexedCondition ::
  "catalog \<Rightarrow> string \<Rightarrow> schema \<Rightarrow> condition list \<Rightarrow> (condition \<times> string) option result" where
  "FindIndexedCondition c table_name schema [] = Inr None"
| "FindIndexedCondition c table_name schema (condition # rest) =
     (if cond_op condition \<noteq> ''='' \<or> \<not> CM_HasIndex table_name (cond_column condition) c
      then FindIndexedCondition c table_name schema rest
      else (case FindColumn schema (cond_column condition) of
          Inl st \<Rightarrow> Inl st
        | Inr column_index \<Rightarrow> (case ConvertLiteral (schema ! column_index) (cond_value condition) False of
              Inl st \<Rightarrow> Inl st
            | Inr typed_value \<Rightarrow> (case Encode typed_value of
                  Inl st \<Rightarrow> Inl st
                | Inr encoded_key \<Rightarrow> Inr (Some (condition, encoded_key))))))"

text \<open>The scan at the leaf of the plan, and the scan type in the statistics.\<close>

definition BuildScan ::
  "catalog \<Rightarrow> string \<Rightarrow> page_id \<Rightarrow> (condition \<times> string) option \<Rightarrow> query_stats \<Rightarrow>
   query_stats \<times> abstract_operator result" where
  "BuildScan c table_name heap_file indexed_condition stats = (case indexed_condition of
     Some (condition, encoded_key) \<Rightarrow> (case CM_GetIndex table_name (cond_column condition) c of
        None \<Rightarrow> (stats, Inl (IOError ''Catalog index metadata has no open index''))
      | Some index \<Rightarrow> (stats\<lparr>plan_scan_type := HASH_INDEX\<rparr>,
          Inr (IndexScanOperator (new_IndexScanOperator (Some index) (Some heap_file) encoded_key True))))
   | None \<Rightarrow> (stats\<lparr>plan_scan_type := SEQUENTIAL\<rparr>,
       Inr (SeqScanOperator (new_SeqScanOperator (Some heap_file) True))))"

definition AddFilters :: "schema \<Rightarrow> condition list \<Rightarrow> abstract_operator \<Rightarrow> abstract_operator" where
  "AddFilters schema conditions plan =
     fold (\<lambda>condition plan. FilterOperator plan (new_FilterOperator schema condition)) conditions plan"

definition SelectColumns :: "schema \<Rightarrow> string list \<Rightarrow> nat list result" where
  "SelectColumns schema field_names = for_each (\<lambda>field_name column_indices.
     (case FindColumn schema field_name of
        Inl st \<Rightarrow> Inl st | Inr column_index \<Rightarrow> Inr (column_indices @ [column_index]))) field_names []"

definition BuildPlan ::
  "catalog \<Rightarrow> string \<Rightarrow> string list \<Rightarrow> condition list \<Rightarrow> query_stats \<Rightarrow>
   (query_stats \<times> (abstract_operator \<times> schema) result) option" where
  "BuildPlan c table_name field_names conditions stats = (case CM_GetTableSchema table_name c of
     Inl st \<Rightarrow> Some (stats, Inl st)
   | Inr schema \<Rightarrow> (case CM_GetTableFirstPageId table_name c of
        Inl st \<Rightarrow> Some (stats, Inl st)
      | Inr first_page_id \<Rightarrow> (case new_HeapFile first_page_id of
          Inl _ \<Rightarrow> None
        | Inr heap_file \<Rightarrow> Some
           (case FindIndexedCondition c table_name schema conditions of
              Inl st \<Rightarrow> (stats, Inl st)
            | Inr indexed_condition \<Rightarrow> (case BuildScan c table_name heap_file indexed_condition stats of
                 (stats, Inl st) \<Rightarrow> (stats, Inl st)
               | (stats, Inr scan) \<Rightarrow>
                   let current_plan = AddFilters schema conditions scan
                   in if field_names = [] \<or> hd field_names = ''*'' then (stats, Inr (current_plan, schema))
                      else (case SelectColumns schema field_names of
                          Inl st \<Rightarrow> (stats, Inl st)
                        | Inr column_indices \<Rightarrow> (stats, Inr
                            (ProjectionOperator current_plan (new_ProjectionOperator schema column_indices),
                             map (\<lambda>column_index. schema ! column_index) column_indices))))))))"

section \<open>SELECT\<close>

text \<open>The loop over the rows; \<open>wanted\<close> says whether a result was asked for.\<close>

partial_function (option) SelectLoop ::
  "schema \<Rightarrow> bool \<Rightarrow> abstract_operator \<Rightarrow> query_stats \<Rightarrow> field_value list list \<Rightarrow> pool \<Rightarrow>
   (abstract_operator \<times> query_stats \<times> field_value list list \<times> pool \<times> status) option" where
  "SelectLoop output_schema wanted plan stats rows bp = (case Op_Next plan stats bp of
     None \<Rightarrow> None
   | Some (plan, stats, bp, r) \<Rightarrow> (case r of
        None \<Rightarrow> Some (plan, stats, rows, bp, Status_OK)
      | Some (record, rid) \<Rightarrow>
          let stats = stats\<lparr>rows_returned := rows_returned stats + 1\<rparr>
          in if \<not> wanted then SelectLoop output_schema wanted plan stats rows bp
             else (case Deserialize output_schema record of
                 Inl st \<Rightarrow> Some (plan, stats, rows, bp, st)
               | Inr row \<Rightarrow> SelectLoop output_schema wanted plan stats (rows @ [row]) bp)))"

definition ExecuteSelect ::
  "catalog \<Rightarrow> string \<Rightarrow> string list \<Rightarrow> condition list \<Rightarrow> bool \<Rightarrow> query_stats \<Rightarrow> pool \<Rightarrow>
   (query_stats \<times> query_result \<times> pool \<times> status) option" where
  "ExecuteSelect c table_name field_names conditions wanted stats bp =
     (case BuildPlan c table_name field_names conditions stats of
        None \<Rightarrow> None
      | Some (stats, Inl st) \<Rightarrow> Some (stats, new_QueryResult, bp, st)
      | Some (stats, Inr (plan, output_schema)) \<Rightarrow> (case Op_Open plan bp of
           None \<Rightarrow> None
         | Some (plan, bp, st) \<Rightarrow>
             if \<not> status_ok st then Some (stats, new_QueryResult, bp, st)
             else (case SelectLoop output_schema wanted plan stats [] bp of
                 None \<Rightarrow> None
               | Some (plan, stats, rows, bp, st) \<Rightarrow>
                   Some (stats,
                     \<lparr>qr_column_names = (if wanted then map col_name output_schema else []), qr_rows = rows\<rparr>,
                     bp, ClosePlan plan st))))"

section \<open>INSERT\<close>

definition ConvertValues :: "schema \<Rightarrow> sql_literal list \<Rightarrow> field_value list result" where
  "ConvertValues columns literals = for_each (\<lambda>index values.
     (case ConvertLiteral (columns ! index) (literals ! index) True of
        Inl st \<Rightarrow> Inl st | Inr v \<Rightarrow> Inr (values @ [v]))) [0..<length columns] []"

definition ExecuteInsert ::
  "catalog \<Rightarrow> string \<Rightarrow> sql_literal list \<Rightarrow> query_stats \<Rightarrow> pool \<Rightarrow> (query_stats \<times> pool \<times> status) option" where
  "ExecuteInsert c table_name literals stats bp = (case CM_GetTableSchema table_name c of
     Inl st \<Rightarrow> Some (stats, bp, st)
   | Inr columns \<Rightarrow>
       if length literals \<noteq> length columns
       then Some (stats, bp, InvalidArgument ''The number of values does not match the table schema'')
       else (case ConvertValues columns literals of
           Inl st \<Rightarrow> Some (stats, bp, st)
         | Inr values \<Rightarrow>
             (case TS_InsertRecord \<lparr>ts_bpm = True, ts_catalog = Some c\<rparr> table_name values bp of
                None \<Rightarrow> None
              | Some (bp, Inl st) \<Rightarrow> Some (stats, bp, st)
              | Some (bp, Inr _) \<Rightarrow> Some (stats\<lparr>rows_affected := 1\<rparr>, bp, Status_OK))))"

section \<open>UPDATE\<close>

partial_function (option) CollectUpdates ::
  "schema \<Rightarrow> nat \<Rightarrow> field_value \<Rightarrow> abstract_operator \<Rightarrow> query_stats \<Rightarrow> (record_id \<times> field_value list) list \<Rightarrow> pool \<Rightarrow>
   (abstract_operator \<times> query_stats \<times> (record_id \<times> field_value list) list \<times> pool \<times> status) option" where
  "CollectUpdates schema column_index new_value plan stats pending bp = (case Op_Next plan stats bp of
     None \<Rightarrow> None
   | Some (plan, stats, bp, r) \<Rightarrow> (case r of
        None \<Rightarrow> Some (plan, stats, pending, bp, Status_OK)
      | Some (record, rid) \<Rightarrow> (case Deserialize schema record of
          Inl st \<Rightarrow> Some (plan, stats, pending, bp, st)
        | Inr values \<Rightarrow> CollectUpdates schema column_index new_value plan stats
            (pending @ [(rid, values[column_index := new_value])]) bp)))"

fun ApplyUpdates ::
  "table_storage \<Rightarrow> string \<Rightarrow> (record_id \<times> field_value list) list \<Rightarrow> query_stats \<Rightarrow> pool \<Rightarrow>
   (query_stats \<times> pool \<times> status) option" where
  "ApplyUpdates storage table_name [] stats bp = Some (stats, bp, Status_OK)"
| "ApplyUpdates storage table_name ((rid, values) # pending) stats bp =
     (case TS_UpdateRecord storage table_name rid values bp of
        None \<Rightarrow> None
      | Some (bp, st) \<Rightarrow>
          if \<not> status_ok st then Some (stats, bp, st)
          else ApplyUpdates storage table_name pending (stats\<lparr>rows_affected := rows_affected stats + 1\<rparr>) bp)"

text \<open>The checks between the opening of the plan and its loop: the column and its new value.\<close>

definition PrepareUpdate :: "catalog \<Rightarrow> string \<Rightarrow> string \<Rightarrow> sql_literal \<Rightarrow> (schema \<times> nat \<times> field_value) result" where
  "PrepareUpdate c table_name column_name literal = (case CM_GetTableSchema table_name c of
     Inl st \<Rightarrow> Inl st
   | Inr schema \<Rightarrow> (case FindColumn schema column_name of
        Inl st \<Rightarrow> Inl st
      | Inr column_index \<Rightarrow> (case ConvertLiteral (schema ! column_index) literal True of
          Inl st \<Rightarrow> Inl st | Inr new_value \<Rightarrow> Inr (schema, column_index, new_value))))"

definition ExecuteUpdate ::
  "catalog \<Rightarrow> string \<Rightarrow> string \<Rightarrow> sql_literal \<Rightarrow> condition list \<Rightarrow> query_stats \<Rightarrow> pool \<Rightarrow>
   (query_stats \<times> pool \<times> status) option" where
  "ExecuteUpdate c table_name column_name literal conditions stats bp =
     (case BuildPlan c table_name [] conditions stats of
        None \<Rightarrow> None
      | Some (stats, Inl st) \<Rightarrow> Some (stats, bp, st)
      | Some (stats, Inr (plan, _)) \<Rightarrow> (case Op_Open plan bp of
           None \<Rightarrow> None
         | Some (plan, bp, st) \<Rightarrow>
             if \<not> status_ok st then Some (stats, bp, st)
             else (case PrepareUpdate c table_name column_name literal of
                 Inl st \<Rightarrow> Some (stats, bp, ClosePlan plan st)
               | Inr (schema, column_index, new_value) \<Rightarrow>
                   (case CollectUpdates schema column_index new_value plan stats [] bp of
                      None \<Rightarrow> None
                    | Some (plan, stats, pending, bp, st) \<Rightarrow>
                        if \<not> status_ok (ClosePlan plan st) then Some (stats, bp, ClosePlan plan st)
                        else ApplyUpdates \<lparr>ts_bpm = True, ts_catalog = Some c\<rparr> table_name pending stats bp))))"

section \<open>DELETE\<close>

partial_function (option) CollectRecordIDs ::
  "abstract_operator \<Rightarrow> query_stats \<Rightarrow> record_id list \<Rightarrow> pool \<Rightarrow>
   (abstract_operator \<times> query_stats \<times> record_id list \<times> pool) option" where
  "CollectRecordIDs plan stats pending bp = (case Op_Next plan stats bp of
     None \<Rightarrow> None
   | Some (plan, stats, bp, r) \<Rightarrow> (case r of
        None \<Rightarrow> Some (plan, stats, pending, bp)
      | Some (record, rid) \<Rightarrow> CollectRecordIDs plan stats (pending @ [rid]) bp))"

fun ApplyDeletes ::
  "table_storage \<Rightarrow> string \<Rightarrow> record_id list \<Rightarrow> query_stats \<Rightarrow> pool \<Rightarrow> (query_stats \<times> pool \<times> status) option" where
  "ApplyDeletes storage table_name [] stats bp = Some (stats, bp, Status_OK)"
| "ApplyDeletes storage table_name (candidate # pending) stats bp =
     (case TS_DeleteRecord storage table_name candidate bp of
        None \<Rightarrow> None
      | Some (bp, st) \<Rightarrow>
          if \<not> status_ok st then Some (stats, bp, st)
          else ApplyDeletes storage table_name pending (stats\<lparr>rows_affected := rows_affected stats + 1\<rparr>) bp)"

definition ExecuteDelete ::
  "catalog \<Rightarrow> string \<Rightarrow> condition list \<Rightarrow> query_stats \<Rightarrow> pool \<Rightarrow> (query_stats \<times> pool \<times> status) option" where
  "ExecuteDelete c table_name conditions stats bp =
     (case BuildPlan c table_name [] conditions stats of
        None \<Rightarrow> None
      | Some (stats, Inl st) \<Rightarrow> Some (stats, bp, st)
      | Some (stats, Inr (plan, _)) \<Rightarrow> (case Op_Open plan bp of
           None \<Rightarrow> None
         | Some (plan, bp, st) \<Rightarrow>
             if \<not> status_ok st then Some (stats, bp, st)
             else (case CollectRecordIDs plan stats [] bp of
                 None \<Rightarrow> None
               | Some (plan, stats, pending, bp) \<Rightarrow>
                   if \<not> status_ok (ClosePlan plan st) then Some (stats, bp, ClosePlan plan st)
                   else ApplyDeletes \<lparr>ts_bpm = True, ts_catalog = Some c\<rparr> table_name pending stats bp)))"

section \<open>CREATE TABLE\<close>

definition ConvertColumnType :: "string \<Rightarrow> nat \<Rightarrow> (type_id \<times> nat) result" where
  "ConvertColumnType type_name len =
     (let type_upper = map toupper type_name
      in if type_upper = ''INT'' \<or> type_upper = ''INTEGER'' then Inr (INTEGER, 4)
         else if type_upper = ''CHAR'' \<or> type_upper = ''VARCHAR''
         then Inr (VARCHAR, if len = 0 then 30 else len)
         else if type_upper = ''BOOLEAN'' \<or> type_upper = ''BOOL'' then Inr (BOOLEAN, 1)
         else Inl (InvalidArgument (''Unsupported data type: '' @ type_name)))"

text \<open>The loop body; the names met so far are those of the columns made so far.\<close>

definition ConvertColumn :: "column_definition \<Rightarrow> schema \<Rightarrow> schema result" where
  "ConvertColumn d columns =
     (if def_name d = [] \<or> def_name d \<in> set (map col_name columns)
      then Inl (InvalidArgument ''Column names must be non-empty and unique'')
      else (case ConvertColumnType (def_type_name d) (def_length d) of
          Inl st \<Rightarrow> Inl st
        | Inr (type_id, len) \<Rightarrow>
            Inr (columns @ [\<lparr>col_name = def_name d, col_type = type_id, col_length = len\<rparr>])))"

text \<open>From the point where the schema is there.\<close>

definition PublishTable :: "string \<Rightarrow> schema \<Rightarrow> catalog \<Rightarrow> pool \<Rightarrow> pool \<times> catalog \<times> status" where
  "PublishTable table_name schema c bp = (case NewPage bp of
     (bp, None) \<Rightarrow> (bp, c, OutOfMemory ''Could not allocate the first table page'')
   | (bp, Some (first_page_id, f)) \<Rightarrow>
       let res = SP_Init (Some (frame_of bp f)); st = result_status res
       in (case UnpinPage first_page_id (status_ok st) (put_page f res bp) of
             (bp, False) \<Rightarrow> (bp, c, IOError ''Could not unpin the first table page'')
           | (bp, True) \<Rightarrow>
               if \<not> status_ok st then (fst (DeletePage first_page_id bp), c, st)
               else (case FlushPage first_page_id bp of
                   (bp, False) \<Rightarrow>
                     (fst (DeletePage first_page_id bp), c, IOError ''Could not persist the first table page'')
                 | (bp, True) \<Rightarrow> (case CM_CreateTable table_name schema first_page_id c bp of (bp, c, st) \<Rightarrow>
                     if status_ok st then (bp, c, st)
                     else (case DeletePage first_page_id bp of
                         (bp, True) \<Rightarrow> (bp, c, st)
                       | (bp, False) \<Rightarrow> (bp, c, IOError (''CREATE TABLE failed: '' @ status_message st @
                             ''; allocated page cleanup failed'')))))))"

definition ExecuteCreateTable ::
  "string \<Rightarrow> column_definition list \<Rightarrow> catalog \<Rightarrow> pool \<Rightarrow> pool \<times> catalog \<times> status" where
  "ExecuteCreateTable table_name definitions c bp =
     (if table_name = [] \<or> definitions = []
      then (bp, c, InvalidArgument ''CREATE TABLE requires a name and at least one column'')
      else if \<not> isl (CM_GetTableSchema table_name c)
      then (bp, c, InvalidArgument ''Table already exists'')
      else (case for_each ConvertColumn definitions [] of
          Inl st \<Rightarrow> (bp, c, st)
        | Inr schema \<Rightarrow> PublishTable table_name schema c bp))"

section \<open>CREATE INDEX\<close>

partial_function (option) IndexRows ::
  "schema \<Rightarrow> nat \<Rightarrow> page_id \<Rightarrow> seq_scan_operator \<Rightarrow> pool \<Rightarrow> (seq_scan_operator \<times> pool \<times> status) option" where
  "IndexRows schema column_index index scan bp = (case SeqScan_Next scan new_QueryStats bp of
     None \<Rightarrow> None
   | Some (scan, stats, bp, r) \<Rightarrow> (case r of
        None \<Rightarrow> Some (scan, bp, Status_OK)
      | Some (record, rid) \<Rightarrow> (case GetValue schema record column_index of
          Inl st \<Rightarrow> Some (scan, bp, st)
        | Inr v \<Rightarrow>
            if v = FNull then IndexRows schema column_index index scan bp
            else (case Encode v of
                Inl st \<Rightarrow> Some (scan, bp, st)
              | Inr encoded_key \<Rightarrow> (case HI_Insert index encoded_key rid bp of
                    None \<Rightarrow> None
                  | Some (bp, st) \<Rightarrow>
                      if \<not> status_ok st then Some (scan, bp, st)
                      else IndexRows schema column_index index scan bp)))))"

text \<open>From the point where the index object is there.\<close>

definition FillIndex ::
  "(pool \<Rightarrow> page_id list) \<Rightarrow> string \<Rightarrow> string \<Rightarrow> string \<Rightarrow> schema \<Rightarrow> page_id \<Rightarrow> nat \<Rightarrow> page_id \<Rightarrow> catalog \<Rightarrow> pool \<Rightarrow>
   (pool \<times> catalog \<times> status) option" where
  "FillIndex flush_order index_name table_name column_name schema first_page_id column_index index c bp =
     (case new_HeapFile first_page_id of
        Inl _ \<Rightarrow> None
      | Inr heap_file \<Rightarrow> (case SeqScan_Open (new_SeqScanOperator (Some heap_file) False) of (scan, st) \<Rightarrow>
          if \<not> status_ok st
          then map_option (\<lambda>(bp, st). (bp, c, st)) (DestroyIndexAfterFailure (Some index) st bp)
          else (case IndexRows schema column_index index scan bp of
              None \<Rightarrow> None
            | Some (scan, bp, st) \<Rightarrow>
                let st = ClosePlan (SeqScanOperator scan) st
                in if \<not> status_ok st
                   then map_option (\<lambda>(bp, st). (bp, c, st)) (DestroyIndexAfterFailure (Some index) st bp)
                   else CM_CreateIndex index_name table_name column_name (Some index) c
                          (FlushAllPages (flush_order bp) bp))))"

definition ExecuteCreateIndex ::
  "(pool \<Rightarrow> page_id list) \<Rightarrow> string \<Rightarrow> string \<Rightarrow> string \<Rightarrow> catalog \<Rightarrow> pool \<Rightarrow> (pool \<times> catalog \<times> status) option" where
  "ExecuteCreateIndex flush_order index_name table_name column_name c bp =
     (if CM_HasIndex table_name column_name c
      then Some (bp, c, InvalidArgument ''An index already exists for this table column'')
      else if CM_HasIndexName index_name c
      then Some (bp, c, InvalidArgument ''Index name already exists'')
      else (case CM_GetTableSchema table_name c of
          Inl st \<Rightarrow> Some (bp, c, st)
        | Inr schema \<Rightarrow> (case CM_GetTableFirstPageId table_name c of
              Inl st \<Rightarrow> Some (bp, c, st)
            | Inr first_page_id \<Rightarrow> (case FindColumn schema column_name of
                  Inl st \<Rightarrow> Some (bp, c, st)
                | Inr column_index \<Rightarrow> (case HI_Create DEFAULT_BUCKET_COUNT bp of
                      (bp, Inl st) \<Rightarrow> Some (bp, c, st)
                    | (bp, Inr index) \<Rightarrow>
                        FillIndex flush_order index_name table_name column_name schema first_page_id column_index
                          index c bp)))))"

section \<open>Execute\<close>

text \<open>The branch of a statement: the statistics, the result, the pool, the catalog and the status.\<close>

definition ExecuteStatement ::
  "(pool \<Rightarrow> page_id list) \<Rightarrow> sql_statement \<Rightarrow> bool \<Rightarrow> query_stats \<Rightarrow> catalog \<Rightarrow> pool \<Rightarrow>
   (query_stats \<times> query_result \<times> pool \<times> catalog \<times> status) option" where
  "ExecuteStatement flush_order statement wanted stats c bp = (case statement of
     SelectStatement table_name field_names conditions explain \<Rightarrow>
       map_option (\<lambda>(stats, res, bp, st). (stats, res, bp, c, st))
         (ExecuteSelect c table_name field_names conditions wanted stats bp)
   | CreateTableStatement table_name columns \<Rightarrow>
       (case ExecuteCreateTable table_name columns c bp of (bp, c, st) \<Rightarrow> Some (stats, new_QueryResult, bp, c, st))
   | CreateIndexStatement index_name table_name column_name \<Rightarrow>
       map_option (\<lambda>(bp, c, st). (stats, new_QueryResult, bp, c, st))
         (ExecuteCreateIndex flush_order index_name table_name column_name c bp)
   | UpdateStatement table_name column_name literal conditions \<Rightarrow>
       map_option (\<lambda>(stats, bp, st). (stats, new_QueryResult, bp, c, st))
         (ExecuteUpdate c table_name column_name literal conditions stats bp)
   | DeleteStatement table_name conditions \<Rightarrow>
       map_option (\<lambda>(stats, bp, st). (stats, new_QueryResult, bp, c, st))
         (ExecuteDelete c table_name conditions stats bp)
   | InsertStatement table_name literals \<Rightarrow>
       map_option (\<lambda>(stats, bp, st). (stats, new_QueryResult, bp, c, st))
         (ExecuteInsert c table_name literals stats bp))"

definition Execute ::
  "(pool \<Rightarrow> page_id list) \<Rightarrow> sql_statement \<Rightarrow> bool \<Rightarrow> query_executor \<Rightarrow> pool \<Rightarrow>
   (query_executor \<times> pool \<times> query_stats \<times> query_result \<times> status) option" where
  "Execute flush_order statement wanted ex bp =
     (if qe_catalog ex = None \<or> \<not> qe_bpm ex
      then Some (ex, bp, new_QueryStats, new_QueryResult, InvalidArgument ''Executor dependencies cannot be null'')
      else if \<not> status_ok (initialization_status (the (qe_catalog ex)))
      then Some (ex, bp, new_QueryStats, new_QueryResult, initialization_status (the (qe_catalog ex)))
      else (case ExecuteStatement flush_order statement wanted new_QueryStats (the (qe_catalog ex)) bp of
          None \<Rightarrow> None
        | Some (stats, res, bp', c, st) \<Rightarrow>
            Some (ex\<lparr>qe_catalog := Some c\<rparr>, bp',
              stats\<lparr>pool_stats := PopulateDeltaStats (GetStatsSnapshot bp) (GetStatsSnapshot bp')\<rparr>, res, st)))"

end
