(* ===== verification/Query_Plans.thy ===== *)
theory Query_Plans
  imports Query_Conditions Executor Table_Properties
begin

text \<open>
  The plan of a statement: which scan is at its leaf, when it opens, and that it returns exactly the rows
  of the table that satisfy all conditions, whichever scan it starts from.
\<close>

section \<open>The table of a statement\<close>

text \<open>A catalog in use. Names hold no dot, as all identifiers of the language: the keys of the index map
  join the names of a table and a column with one.\<close>

definition plain_name :: "string \<Rightarrow> bool" where "plain_name n \<longleftrightarrow> CHR ''.'' \<notin> set n"

definition cat_ready :: "catalog \<Rightarrow> bool" where
  "cat_ready c \<longleftrightarrow> cat_wf c \<and> status_ok (initialization_status c) \<and> list_all (\<lambda>(n, t). plain_name n) (cat_tables c)"

definition table_bindings :: "catalog \<Rightarrow> string \<Rightarrow> schema \<Rightarrow> page_id \<Rightarrow> index_binding list \<Rightarrow> bool" where
  "table_bindings c name sch first bs \<longleftrightarrow> cat_ready c \<and> (\<exists>t. map_of (cat_tables c) name = Some t \<and> tm_schema t = sch \<and> tm_first_page_id t = first) \<and>
     LoadTable \<lparr>ts_bpm = True, ts_catalog = Some c\<rparr> name = Inr (sch, first, bs)"

lemma MakeIndexKey_inject:
  assumes "plain_name t" "plain_name t'" "MakeIndexKey t n = MakeIndexKey t' n'"
  shows "t = t' \<and> n = n'"
proof -
  have tw: "takeWhile (\<lambda>x. x \<noteq> CHR ''.'') (MakeIndexKey a b) = a" if "plain_name a" for a b
    using that by (subst MakeIndexKey_def, subst takeWhile_append2) (auto simp: plain_name_def)
  have "t = t'" using tw[OF assms(1), of n] tw[OF assms(2), of n'] assms(3) by simp
  then show ?thesis using assms(3) by (simp add: MakeIndexKey_def)
qed

lemma bindings_name: "table_bindings c name sch first bs \<Longrightarrow> plain_name name"
  by (auto simp: table_bindings_def cat_ready_def list_all_iff dest: map_of_SomeD)

lemma FindColumn_at: "FindColumn sch name = (case column_at sch name of
    Some i \<Rightarrow> Inr i | None \<Rightarrow> Inl (NotFound (''Column does not exist: '' @ name)))"
  by (simp add: FindColumn_def column_at_def)

lemma FindColumnIndex_at: "FindColumnIndex sch name = Inr i \<longleftrightarrow> column_at sch name = Some i"
  by (simp add: FindColumnIndex_def column_at_def split: option.splits)

text \<open>The index the executor looks up is one of the table's.\<close>

lemma index_bound:
  assumes "table_bindings c name sch first bs" "CM_HasIndex name cn c"
  obtains i where "i < length bs" "CM_GetIndex name cn c = Some (ib_index (bs ! i))" "column_at sch cn = Some (ib_column_index (bs ! i))"
proof -
  obtain t where t: "cat_ready c" "map_of (cat_tables c) name = Some t" "tm_schema t = sch"
    "LoadTable \<lparr>ts_bpm = True, ts_catalog = Some c\<rparr> name = Inr (sch, first, bs)" using assms(1) by (auto simp: table_bindings_def)
  have w: "cat_wf c" "status_ok (initialization_status c)" using t(1) by (simp_all add: cat_ready_def)
  obtain m where m: "map_of (cat_indexes c) (MakeIndexKey name cn) = Some m" using assms(2) by (auto simp: CM_HasIndex_def)
  have iw: "index_wf c (MakeIndexKey name cn) m" using cat_wf_entry(2)[OF w(1) map_of_SomeD[OF m]] .
  then have h: "has_column (cat_tables c) (im_table_name m) (im_column_name m)" "MakeIndexKey name cn = MakeIndexKey (im_table_name m) (im_column_name m)"
    "im_index m = im_header_page_id m" by (auto simp: index_wf_def)
  have "plain_name (im_table_name m)"
    using t(1) h(1) by (auto simp: has_column_def cat_ready_def list_all_iff dest!: map_of_SomeD split: option.splits)
  then have n: "im_table_name m = name" "im_column_name m = cn"
    using MakeIndexKey_inject[OF bindings_name[OF assms(1)] _ h(2)] by auto
  obtain infos where L: "LoadTable \<lparr>ts_bpm = True, ts_catalog = Some c\<rparr> name =
      Inr (tm_schema t, tm_first_page_id t, map (binding_of (tm_schema t)) infos)"
    "set infos = {index_info m |k m. map_of (cat_indexes c) k = Some m \<and> im_table_name m = name}"
    by (rule load_table_exact[OF w t(2)])
  have "index_info m \<in> set infos" unfolding L(2) using m n(1) by blast
  then obtain i where i: "i < length infos" "infos ! i = index_info m" by (auto simp: in_set_conv_nth)
  have "column_found cn sch" using h(1) n t(2,3) by (simp add: has_column_def)
  then obtain k where k: "FindColumnIndex sch cn = Inr k" by (rule FindColumnIndex_first)
  have bs: "bs = map (binding_of sch) infos" using L(1) t(3,4) by simp
  then have "bs ! i = binding_of sch (index_info m)" using i by simp
  then have "ib_index (bs ! i) = im_index m" "ib_column_index (bs ! i) = k"
    using k n h(3) by (simp_all add: binding_of_def index_info_def)
  moreover have "CM_GetIndex name cn c = Some (im_index m)" using m w(2) by (simp add: CM_GetIndex_def)
  moreover have "column_at sch cn = Some k" using k by (simp add: FindColumnIndex_at)
  ultimately show ?thesis using that[of i] i(1) bs by simp
qed

section \<open>The condition an index answers\<close>

definition indexable :: "catalog \<Rightarrow> string \<Rightarrow> condition \<Rightarrow> bool" where
  "indexable c name q \<longleftrightarrow> cond_op q = ''='' \<and> CM_HasIndex name (cond_column q) c"

text \<open>A string of 64 bytes or more has no index key.\<close>

definition key_too_long :: "schema \<Rightarrow> condition \<Rightarrow> bool" where
  "key_too_long sch q \<longleftrightarrow> (\<exists>i v. target sch q i v \<and> isl (Encode v))"

lemma Encode_error: "Encode v = Inl st \<Longrightarrow> \<not> status_ok st"
  by (auto simp: Encode_def split: field_value.splits if_splits)

lemma FindIndexedCondition_spec:
  assumes "\<forall>q \<in> set qs. literal_ok (cond_value q)"
  shows "case FindIndexedCondition c name sch qs of
      Inl st \<Rightarrow> \<not> status_ok st \<and> (\<exists>q \<in> set qs. indexable c name q \<and> (\<not> cond_valid sch q \<or> key_too_long sch q))
    | Inr None \<Rightarrow> \<forall>q \<in> set qs. \<not> indexable c name q
    | Inr (Some (q, key)) \<Rightarrow> q \<in> set qs \<and> indexable c name q \<and> (\<exists>i v. target sch q i v \<and> Encode v = Inr key)"
  using assms
proof (induction qs)
  case (Cons q qs)
  have l: "literal_ok (cond_value q)" using Cons.prems by simp
  show ?case
  proof (cases "indexable c name q")
    case False
    then have "FindIndexedCondition c name sch (q # qs) = FindIndexedCondition c name sch qs" by (auto simp: indexable_def)
    then show ?thesis using Cons False by (auto split: sum.splits option.splits)
  next
    case True
    then have e: "FindIndexedCondition c name sch (q # qs) = (case FindColumn sch (cond_column q) of
          Inl st \<Rightarrow> Inl st
        | Inr column_index \<Rightarrow> (case ConvertLiteral (sch ! column_index) (cond_value q) False of
              Inl st \<Rightarrow> Inl st
            | Inr typed_value \<Rightarrow> (case Encode typed_value of
                  Inl st \<Rightarrow> Inl st | Inr encoded_key \<Rightarrow> Inr (Some (q, encoded_key)))))" by (simp add: indexable_def)
    show ?thesis
    proof (cases "column_at sch (cond_column q)")
      case None
      then show ?thesis unfolding e using True by (auto simp: FindColumn_at cond_valid_def target_def)
    next
      case (Some i)
      show ?thesis
      proof (cases "ConvertLiteral (sch ! i) (cond_value q) False")
        case (Inl st)
        then have "\<not> cond_valid sch q" using Some by (simp add: cond_valid_def target_convert[OF l])
        then show ?thesis unfolding e using True Some Inl ConvertLiteral_error[OF Inl] by (auto simp: FindColumn_at)
      next
        case (Inr v)
        then have t: "target sch q i v" using Some by (simp add: target_convert[OF l])
        show ?thesis
        proof (cases "Encode v")
          case (Inl st)
          then have "isl (Encode v)" by simp
          then have "key_too_long sch q" using t unfolding key_too_long_def by blast
          then show ?thesis unfolding e using True Some Inr Inl Encode_error[OF Inl] by (auto simp: FindColumn_at)
        next
          case (Inr k)
          then show ?thesis unfolding e using True Some t \<open>ConvertLiteral (sch ! i) (cond_value q) False = Inr v\<close>
            by (auto simp: FindColumn_at)
        qed
      qed
    qed
  qed
qed simp

section \<open>The scan at the leaf\<close>

text \<open>What a table in use is in: its bindings, its pages and its rows.\<close>

definition table_in ::
  "catalog \<Rightarrow> string \<Rightarrow> pool \<Rightarrow> schema \<Rightarrow> page_id \<Rightarrow> index_binding list \<Rightarrow> page_id list \<Rightarrow> index_objects \<Rightarrow> row_map \<Rightarrow> bool" where
  "table_in c name bp sch first bs ps ixs R \<longleftrightarrow> table_bindings c name sch first bs \<and> table_ok sch bs first bp ps ixs \<and>
     stored sch (heap_contents (pool_page bp) ps) R"

text \<open>The rows \<open>rs\<close> are rows of the table, each once; \<open>full\<close> says whether none that satisfies \<open>qs\<close> may be
  missing.\<close>

definition rows_of :: "schema \<Rightarrow> row_map \<Rightarrow> condition set \<Rightarrow> bool \<Rightarrow> db_record list \<Rightarrow> bool" where
  "rows_of sch R qs full rs \<longleftrightarrow> distinct (map rec_rid rs) \<and>
     (\<forall>r \<in> set rs. \<exists>vs. R (rec_rid r) = Some vs \<and> Deserialize sch r = Inr vs \<and> length vs = length sch) \<and>
     (full \<longrightarrow> {rid. \<exists>vs. R rid = Some vs \<and> (\<forall>q \<in> qs. satisfies sch vs q)} \<subseteq> rec_rid ` set rs)"

lemma rows_ofI:
  assumes "stored sch H R" "distinct (map rec_rid rs)" "\<forall>r \<in> set rs. H (rec_rid r) = Some (rec_data r)"
    "full \<Longrightarrow> {rid. \<exists>vs. R rid = Some vs \<and> (\<forall>q \<in> qs. satisfies sch vs q)} \<subseteq> rec_rid ` set rs"
  shows "rows_of sch R qs full rs"
proof -
  have "\<exists>vs. R (rec_rid r) = Some vs \<and> Deserialize sch r = Inr vs \<and> length vs = length sch" if "r \<in> set rs" for r
    by (rule stored_row[OF assms(1), of r]) (use assms(3) that in auto)
  then show ?thesis using assms(2,4) by (simp add: rows_of_def)
qed

text \<open>The rows an open plan \<open>s\<close> returns, up to its close.\<close>

definition delivers :: "abstract_operator \<Rightarrow> pool \<Rightarrow> (db_record list \<Rightarrow> abstract_operator \<Rightarrow> pool \<Rightarrow> bool) \<Rightarrow> bool" where
  "delivers s bp P \<longleftrightarrow> (\<exists>rs s' b. pulls Op_Next s bp rs s' b \<and> P rs s' b)"

lemma table_inD:
  assumes "table_in c name bp sch first bs ps ixs R"
  shows "table_bindings c name sch first bs" "table_ok sch bs first bp ps ixs"
    "stored sch (heap_contents (pool_page bp) ps) R" "hf_state bp first ps"
  using assms by (simp_all add: table_in_def) (simp add: table_ok_def tbl_state_def)

lemma deliversI: "pulls Op_Next s bp rs s' b \<Longrightarrow> P rs s' b \<Longrightarrow> delivers s bp P"
  by (auto simp: delivers_def)

lemma subseq_rows:
  assumes "subseq xs ys"
  shows "set xs \<subseteq> set ys" "distinct (map f ys) \<Longrightarrow> distinct (map f xs)"
proof -
  obtain N where n: "xs = nths ys N" using assms by (auto simp: subseq_conv_nths)
  show "set xs \<subseteq> set ys" unfolding n by (rule set_nths_subset)
  show "distinct (map f ys) \<Longrightarrow> distinct (map f xs)" unfolding n nths_map[symmetric] by (rule distinct_nthsI)
qed

lemma seq_leaf:
  assumes "table_in c name bp sch first bs ps ixs R"
  shows "\<exists>s. Op_Open (SeqScanOperator (new_SeqScanOperator (Some first) k)) bp = Some (SeqScanOperator s, bp, Status_OK) \<and>
    delivers (SeqScanOperator s) bp (\<lambda>rs s' b.
      if status_ok (snd (Op_Close s')) then rows_of sch R {} True rs else rows_of sch R {} False rs \<and> \<not> healthy bp)"
proof -
  let ?H = "heap_contents (pool_page bp) ps" and ?rs = "heap_records (pool_page bp) ps"
  note S = table_inD(3)[OF assms] and hf = table_inD(4)[OF assms]
  define s where "s = fst (SeqScan_Open (new_SeqScanOperator (Some first) k))"
  have o: "Op_Open (SeqScanOperator (new_SeqScanOperator (Some first) k)) bp = Some (SeqScanOperator s, bp, Status_OK)"
    by (simp add: s_def SeqScan_Open_def new_SeqScanOperator_def)
  have "seq_remaining bp s ?rs" using hf by (auto simp: s_def SeqScan_Open_def new_SeqScanOperator_def seq_remaining_def)
  from seq_scan.drain[OF this, unfolded simp_thms] obtain rs' s' b where d: "pulls SeqScan_Next s bp rs' s' b" "subseq rs' ?rs"
    "if status_ok (ss_status s') then rs' = ?rs else \<not> healthy bp" by blast
  have c: "snd (Op_Close (SeqScanOperator s')) = ss_status s'" by (simp add: SeqScan_Close_def)
  have dist: "distinct (map rec_rid ?rs)" using heap_records_distinct hf by (simp add: hf_state_def)
  have sub: "set rs' \<subseteq> set ?rs" by (rule subseq_rows(1)[OF d(2)])
  have dist': "distinct (map rec_rid rs')" by (rule subseq_rows(2)[OF d(2) dist])
  have full: "{rid. \<exists>vs. R rid = Some vs} \<subseteq> rec_rid ` set ?rs"
  proof safe
    fix rid vs assume "R rid = Some vs"
    then obtain d where "?H rid = Some d" using stored_none[OF S, of rid] by (cases "?H rid") auto
    then have "Record rid d \<in> set ?rs" by (simp add: heap_records_contents)
    then show "rid \<in> rec_rid ` set ?rs" by force
  qed
  have "rows_of sch R {} (status_ok (ss_status s')) rs'"
    by (rule rows_ofI[OF S dist']) (use sub d(3) full in \<open>auto simp: heap_records_contents[symmetric]\<close>)
  then show ?thesis using d(3) c by (intro exI[of _ s] conjI o deliversI[OF pulls_SeqScan[OF d(1)]]) (auto split: if_splits)
qed

lemma idx_leaf:
  assumes "table_in c name bp sch first bs ps ixs R" "indexable c name q" "target sch q i v" "Encode v = Inr key"
    "literal_ok (cond_value q)" "CM_GetIndex name (cond_column q) c = Some hid"
  shows "\<exists>s b st. Op_Open (IndexScanOperator (new_IndexScanOperator (Some hid) (Some first) key k)) bp =
      Some (IndexScanOperator s, b, st) \<and> only_reads bp b \<and> (if status_ok st
    then delivers (IndexScanOperator s) b (\<lambda>rs s' b'.
      if status_ok (snd (Op_Close s')) then rows_of sch R {q} (healthy bp) rs else rows_of sch R {q} False rs \<and> \<not> healthy bp)
    else \<not> healthy bp)"
proof -
  let ?H = "heap_contents (pool_page bp) ps"
  note B = table_inD(1)[OF assms(1)] and T = table_inD(2)[OF assms(1)] and S = table_inD(3)[OF assms(1)] and hf = table_inD(4)[OF assms(1)]
  have hi: "CM_HasIndex name (cond_column q) c" and eq: "cond_op q = ''=''" using assms(2) by (simp_all add: indexable_def)
  obtain j where j: "j < length bs" "hid = ib_index (bs ! j)" "i = ib_column_index (bs ! j)"
  proof (rule index_bound[OF B hi])
    fix j assume "j < length bs" "CM_GetIndex name (cond_column q) c = Some (ib_index (bs ! j))"
      "column_at sch (cond_column q) = Some (ib_column_index (bs ! j))"
    then show thesis using that[of j] assms(3,6) by (simp add: target_def)
  qed
  obtain b rids st where g: "HI_GetValue hid key bp = Some (b, rids, st)" "read_only bp b"
    "if status_ok st then distinct rids \<and> set rids = {rid. \<exists>d. ?H rid = Some d \<and> GetValue sch (Record rid d) i = Inr v}
     else \<not> healthy bp" using index_lookup_spec[OF T j(1) assms(4)] unfolding j(2,3) by blast
  have ro: "only_reads bp b" using g(2) HI_GetValue_adds[OF g(1)] by (simp add: only_reads_def)
  define s where "s = (new_IndexScanOperator (Some hid) (Some first) key k)\<lparr>is_matching_rids := rids, is_cursor := 0,
    is_last_page_id := INVALID_PAGE_ID, is_status := st\<rparr>"
  have o: "Op_Open (IndexScanOperator (new_IndexScanOperator (Some hid) (Some first) key k)) bp = Some (IndexScanOperator s, b, st)"
    using g(1) by (simp add: s_def IndexScan_Open_def new_IndexScanOperator_def)
  have "delivers (IndexScanOperator s) b (\<lambda>rs s' b'.
      if status_ok (snd (Op_Close s')) then rows_of sch R {q} (healthy bp) rs else rows_of sch R {q} False rs \<and> \<not> healthy bp)"
    if ok: "status_ok st"
  proof -
    have m: "distinct rids" "set rids = {rid. \<exists>d. ?H rid = Some d \<and> GetValue sch (Record rid d) i = Inr v}" using g(3) ok by auto
    have B2: "hf_state b first ps" "pool_page b = pool_page bp" using read_only_hf[OF hf] read_only_pages g(2) by auto
    have rem: "idx_remaining b s (found_records b ps rids)"
      using B2 m(2) ok by (auto simp: idx_remaining_def s_def new_IndexScanOperator_def)
    from index_scan.drain[OF rem, unfolded simp_thms] obtain rs' s' b' where d: "pulls IndexScan_Step s b rs' s' b'" "subseq rs' (found_records b ps rids)"
      "if status_ok (is_status s') then rs' = found_records b ps rids \<or> \<not> healthy b else \<not> healthy b" by blast
    have nh: "\<not> healthy b \<Longrightarrow> \<not> healthy bp" using only_reads_healthy[OF ro] by blast
    have fr: "map rec_rid (found_records b ps rids) = rids" by (simp add: found_records_def o_def)
    have fd: "\<forall>r \<in> set (found_records b ps rids). ?H (rec_rid r) = Some (rec_data r)" using m(2) B2(2) by (auto simp: found_records_def)
    have sub: "set rs' \<subseteq> set (found_records b ps rids)" by (rule subseq_rows(1)[OF d(2)])
    have dist: "distinct (map rec_rid rs')" using subseq_rows(2)[OF d(2), of rec_rid] fr m(1) by simp
    have full: "rid \<in> set rids" if r: "R rid = Some vs" "satisfies sch vs q" for rid vs
    proof -
      obtain d where d: "?H rid = Some d" using stored_none[OF S, of rid] r(1) by (cases "?H rid") auto
      have "\<exists>vs. R rid = Some vs \<and> Deserialize sch (Record rid d) = Inr vs \<and> length vs = length sch"
        by (rule stored_row[OF S, of "Record rid d"]) (use d in auto)
      then have ds: "Deserialize sch (Record rid d) = Inr vs" "length vs = length sch" using r(1) by auto
      have "compares (vs ! i) ''='' v" using r(2) satisfies_target[OF assms(5,3)] eq by simp
      then have "vs ! i = v" by (simp add: compares_def)
      moreover have "i < length vs" using assms(3) ds(2) column_at_Some by (fastforce simp: target_def)
      ultimately show ?thesis unfolding m(2) using d ds(1) by (auto simp: GetValue_def)
    qed
    have "rec_rid ` set (found_records b ps rids) = set rids" using fr by (metis set_map)
    then have "rows_of sch R {q} (status_ok (is_status s') \<and> healthy bp) rs'"
      by (intro rows_ofI[OF S dist]) (use sub fd full d(3) nh in \<open>auto split: if_splits\<close>)
    moreover have "snd (Op_Close (IndexScanOperator s')) = is_status s'" by (simp add: IndexScan_Close_def)
    ultimately show ?thesis using d(3) nh
      by (intro deliversI[OF pulls_IndexScan[OF d(1)]]) (auto split: if_splits)
  qed
  then show ?thesis using o ro g(3) by (intro exI[of _ s] exI[of _ b] exI[of _ st]) auto
qed

section \<open>The filters above it\<close>

definition stack :: "filter_operator list \<Rightarrow> abstract_operator \<Rightarrow> abstract_operator" where
  "stack fs plan = fold (\<lambda>f plan. FilterOperator plan f) fs plan"

lemma stack_simps [simp]: "stack [] plan = plan" "stack (fs @ [f]) plan = FilterOperator (stack fs plan) f"
  by (simp_all add: stack_def)

lemma AddFilters_simps [simp]:
  "AddFilters sch [] plan = plan"
  "AddFilters sch (qs @ [q]) plan = FilterOperator (AddFilters sch qs plan) (new_FilterOperator sch q)"
  by (simp_all add: AddFilters_def)

lemma AddFilters_not_null: "plan \<noteq> NullOperator \<Longrightarrow> AddFilters sch qs plan \<noteq> NullOperator"
  by (cases qs rule: rev_cases) simp_all

text \<open>Opening prepares the filters from the last to the first, and then opens the scan.\<close>

lemma open_filters:
  assumes "\<forall>q \<in> set qs. literal_ok (cond_value q)" "plan \<noteq> NullOperator"
  shows "if \<forall>q \<in> set qs. cond_valid sch q
    then \<exists>fs. list_all2 (filter_ready sch) qs fs \<and>
      Op_Open (AddFilters sch qs plan) bp = map_option (\<lambda>(p, b, st). (stack fs p, b, st)) (Op_Open plan bp)
    else \<exists>p st. Op_Open (AddFilters sch qs plan) bp = Some (p, bp, st) \<and> \<not> status_ok st"
  using assms(1)
proof (induction qs rule: rev_induct)
  case Nil
  then show ?case by (cases "Op_Open plan bp") auto
next
  case (snoc q qs)
  note nn = AddFilters_not_null[OF assms(2), of sch qs]
  obtain f st where p: "Filter_Prepare (new_FilterOperator sch q) = (f, st)" by (cases "Filter_Prepare (new_FilterOperator sch q)")
  have P: "if cond_valid sch q then status_ok st \<and> filter_ready sch q f else \<not> status_ok st"
    by (rule Filter_Prepare_spec[OF _ p]) (use snoc.prems in simp)
  show ?case
  proof (cases "cond_valid sch q")
    case False
    then show ?thesis using P nn p by auto
  next
    case ok: True
    then have st: "status_ok st" "filter_ready sch q f" using P by simp_all
    show ?thesis
    proof (cases "\<forall>q \<in> set qs. cond_valid sch q")
      case True
      then obtain fs where "list_all2 (filter_ready sch) qs fs"
        "Op_Open (AddFilters sch qs plan) bp = map_option (\<lambda>(p, b, st). (stack fs p, b, st)) (Op_Open plan bp)"
        using snoc by auto
      then show ?thesis using ok True st nn p
        by (cases "Op_Open plan bp") (auto intro!: exI[of _ "fs @ [f]"] list_all2_appendI)
    next
      case False
      have "if \<forall>q \<in> set qs. cond_valid sch q
        then \<exists>fs. list_all2 (filter_ready sch) qs fs \<and>
          Op_Open (AddFilters sch qs plan) bp = map_option (\<lambda>(p, b, st). (stack fs p, b, st)) (Op_Open plan bp)
        else \<exists>p st. Op_Open (AddFilters sch qs plan) bp = Some (p, bp, st) \<and> \<not> status_ok st"
        by (rule snoc.IH) (use snoc.prems in simp)
      then obtain p st' where "Op_Open (AddFilters sch qs plan) bp = Some (p, bp, st')" "\<not> status_ok st'"
        unfolding if_not_P[OF False] by blast
      then show ?thesis using False st(1) nn p ok by auto
    qed
  qed
qed

lemma close_stack:
  assumes "list_all2 (filter_ready sch) qs fs"
  shows "snd (Op_Close (stack fs p)) = snd (Op_Close p)"
  using assms
proof (induction fs arbitrary: qs rule: rev_induct)
  case (snoc f fs)
  then obtain qs' q where "list_all2 (filter_ready sch) qs' fs" "filter_ready sch q f"
    by (auto simp: list_all2_append2 list_all2_Cons2)
  then show ?case using snoc.IH[of qs'] by (simp add: case_prod_beta) (simp add: filter_ready_def)
qed simp

definition matching :: "schema \<Rightarrow> condition set \<Rightarrow> db_record \<Rightarrow> bool" where
  "matching sch qs r \<longleftrightarrow> (\<forall>q \<in> qs. satisfies sch (projr (Deserialize sch r)) q)"

lemma pulls_stack:
  assumes "pulls Op_Next plan bp rs plan' b" "list_all2 (filter_ready sch) qs fs" "\<forall>q \<in> set qs. literal_ok (cond_value q)"
    "\<forall>r \<in> set rs. \<exists>vs. Deserialize sch r = Inr vs \<and> length vs = length sch"
  shows "pulls Op_Next (stack fs plan) bp (filter (matching sch (set qs)) rs) (stack fs plan') b"
  using assms(2,3)
proof (induction fs arbitrary: qs rule: rev_induct)
  case Nil
  then show ?case using assms(1) by (simp add: matching_def)
next
  case (snoc f fs)
  from snoc.prems(1) obtain qs' q where q: "qs = qs' @ [q]" "list_all2 (filter_ready sch) qs' fs" "filter_ready sch q f"
    by (auto simp: list_all2_append2 list_all2_Cons2)
  have l: "literal_ok (cond_value q)" using snoc.prems(2) q(1) by simp
  let ?rs = "filter (matching sch (set qs')) rs"
  have IH: "pulls Op_Next (stack fs plan) bp ?rs (stack fs plan') b" using snoc.IH[OF q(2)] snoc.prems(2) q(1) by simp
  have F: "(\<exists>v. GetValue (fo_schema f) r (fo_column_index f) = Inr v) \<and>
      snd (Evaluate r f) = satisfies sch (projr (Deserialize sch r)) q" if r: "r \<in> set rs" for r
  proof -
    obtain vs where vs: "Deserialize sch r = Inr vs" "length vs = length sch" using bspec[OF assms(4) r] by (elim exE conjE)
    note P = filter_passes[OF l q(3) vs]
    show ?thesis unfolding P(1,2) vs(1) by simp
  qed
  have "pulls Op_Next (FilterOperator (stack fs plan) f) bp (filter (\<lambda>r. snd (Evaluate r f)) ?rs) (FilterOperator (stack fs plan') f) b"
    by (rule pulls_Filter[OF IH]) (use q(3) F in \<open>auto simp: filter_ready_def\<close>)
  moreover have "filter (\<lambda>r. snd (Evaluate r f)) ?rs = filter (matching sch (set qs)) rs"
    unfolding filter_filter q(1) by (rule filter_cong[OF refl]) (simp add: F matching_def conj_commute)
  ultimately show ?case by simp
qed

section \<open>The plan of the conditions\<close>

text \<open>The rows \<open>rs\<close> satisfy all conditions; \<open>full\<close> says whether no such row may be missing.\<close>

definition selected :: "schema \<Rightarrow> row_map \<Rightarrow> condition set \<Rightarrow> bool \<Rightarrow> db_record list \<Rightarrow> bool" where
  "selected sch R qs full rs \<longleftrightarrow> distinct (map rec_rid rs) \<and>
     (\<forall>r \<in> set rs. \<exists>vs. R (rec_rid r) = Some vs \<and> Deserialize sch r = Inr vs \<and> length vs = length sch \<and> (\<forall>q \<in> qs. satisfies sch vs q)) \<and>
     (full \<longrightarrow> {rid. \<exists>vs. R rid = Some vs \<and> (\<forall>q \<in> qs. satisfies sch vs q)} \<subseteq> rec_rid ` set rs)"

lemma rows_of_selected:
  assumes "rows_of sch R qs full rs" "qs \<subseteq> qs'"
  shows "selected sch R qs' full (filter (matching sch qs') rs)"
proof -
  have d: "distinct (map rec_rid (filter (matching sch qs') rs))" by (rule distinct_map_filter) (use assms(1) in \<open>simp add: rows_of_def\<close>)
  have r: "\<exists>vs. R (rec_rid r) = Some vs \<and> Deserialize sch r = Inr vs \<and> length vs = length sch" if "r \<in> set rs" for r
    using assms(1) that by (simp add: rows_of_def)
  have s: "\<exists>vs. R (rec_rid r) = Some vs \<and> Deserialize sch r = Inr vs \<and> length vs = length sch \<and> (\<forall>q \<in> qs'. satisfies sch vs q)"
    if "r \<in> set (filter (matching sch qs') rs)" for r
    using that r[of r] by (auto simp: matching_def)
  have "rid \<in> rec_rid ` set (filter (matching sch qs') rs)"
    if "full" "R rid = Some vs" "\<forall>q \<in> qs'. satisfies sch vs q" for rid vs
  proof -
    have "\<forall>q \<in> qs. satisfies sch vs q" using that(3) assms(2) by blast
    then have "rid \<in> rec_rid ` set rs" using assms(1) that(1,2) unfolding rows_of_def by blast
    then obtain x where x: "x \<in> set rs" "rec_rid x = rid" by blast
    then have "matching sch qs' x" using r[OF x(1)] that(2,3) by (auto simp: matching_def)
    then show ?thesis using x by force
  qed
  then show ?thesis using d s unfolding selected_def by blast
qed

definition scan_used :: "catalog \<Rightarrow> string \<Rightarrow> condition list \<Rightarrow> scan_type" where
  "scan_used c name qs = (if list_ex (indexable c name) qs then HASH_INDEX else SEQUENTIAL)"

text \<open>What a plan delivers when it is open.\<close>

definition plan_rows :: "schema \<Rightarrow> row_map \<Rightarrow> condition list \<Rightarrow> scan_type \<Rightarrow> pool \<Rightarrow> abstract_operator \<Rightarrow> pool \<Rightarrow> bool" where
  "plan_rows sch R qs scan bp s b \<longleftrightarrow> delivers s b (\<lambda>rs s' b'.
     if status_ok (snd (Op_Close s')) then selected sch R (set qs) (healthy bp \<or> scan = SEQUENTIAL) rs
     else selected sch R (set qs) False rs \<and> \<not> healthy bp)"

text \<open>A statement the executor rejects.\<close>

definition rejected :: "catalog \<Rightarrow> string \<Rightarrow> schema \<Rightarrow> condition list \<Rightarrow> bool" where
  "rejected c name sch qs \<longleftrightarrow> list_ex (\<lambda>q. \<not> cond_valid sch q \<or> indexable c name q \<and> key_too_long sch q) qs"

lemma delivers_stack:
  assumes "delivers s bp (\<lambda>rs s' b. if status_ok (snd (Op_Close s')) then rows_of sch R Q full rs else rows_of sch R Q False rs \<and> N)"
    "list_all2 (filter_ready sch) qs fs" "\<forall>q \<in> set qs. literal_ok (cond_value q)" "Q \<subseteq> set qs"
  shows "delivers (stack fs s) bp (\<lambda>rs s' b. if status_ok (snd (Op_Close s')) then selected sch R (set qs) full rs
    else selected sch R (set qs) False rs \<and> N)"
proof -
  obtain rs s' b where p: "pulls Op_Next s bp rs s' b"
    "if status_ok (snd (Op_Close s')) then rows_of sch R Q full rs else rows_of sch R Q False rs \<and> N"
    using assms(1) by (auto simp: delivers_def)
  have "\<forall>r \<in> set rs. \<exists>vs. Deserialize sch r = Inr vs \<and> length vs = length sch"
    using p(2) by (fastforce simp: rows_of_def split: if_splits)
  from pulls_stack[OF p(1) assms(2,3) this] show ?thesis
    by (rule deliversI) (use p(2) rows_of_selected[OF _ assms(4)] close_stack[OF assms(2)] in auto)
qed

lemma where_plan:
  assumes "table_in c name bp sch first bs ps ixs R" "\<forall>q \<in> set qs. literal_ok (cond_value q)"
  shows "\<exists>res st1. BuildPlan c name [] qs stats = Some (st1, res) \<and> (case res of
      Inl st \<Rightarrow> st1 = stats \<and> \<not> status_ok st \<and> rejected c name sch qs
    | Inr (plan, out) \<Rightarrow> st1 = stats\<lparr>plan_scan_type := scan_used c name qs\<rparr> \<and> out = sch \<and> plan \<noteq> NullOperator \<and>
        (\<exists>s b st. Op_Open plan bp = Some (s, b, st) \<and> only_reads bp b \<and>
          (if status_ok st then list_all (cond_valid sch) qs \<and> plan_rows sch R qs (scan_used c name qs) bp s b
           else rejected c name sch qs \<or> \<not> healthy bp)))"
proof -
  note B = table_inD(1)[OF assms(1)] and hf = table_inD(4)[OF assms(1)]
  have pk: "pool_ok {} bp" using hf by (simp add: hf_state_def)
  have f1: "new_HeapFile first = Inr first" using table_first table_inD(2)[OF assms(1)] by (auto simp: table_ok_def)
  have C: "CM_GetTableSchema name c = Inr sch" "CM_GetTableFirstPageId name c = Inr first"
    using B by (auto simp: table_bindings_def cat_ready_def CM_GetTableSchema_def CM_GetTableFirstPageId_def)
  note D = BuildPlan_def C f1
  note S = FindIndexedCondition_spec[OF assms(2), of c name sch]
  show ?thesis
  proof (cases "FindIndexedCondition c name sch qs")
    case (Inl st)
    then show ?thesis using S by (fastforce simp: D rejected_def list_ex_iff)
  next
    case (Inr ic)
    define scan where "scan = scan_used c name qs"
    let ?st = "stats\<lparr>plan_scan_type := scan\<rparr>"
    have L: "\<exists>leaf s b st Q. BuildScan c name first ic stats = (?st, Inr leaf) \<and> leaf \<noteq> NullOperator \<and> Q \<subseteq> set qs \<and>
        Op_Open leaf bp = Some (s, b, st) \<and> only_reads bp b \<and> (if status_ok st
      then delivers s b (\<lambda>rs s' b'. if status_ok (snd (Op_Close s')) then rows_of sch R Q (healthy bp \<or> scan = SEQUENTIAL) rs
        else rows_of sch R Q False rs \<and> \<not> healthy bp) else \<not> healthy bp)"
    proof (cases ic)
      case None
      then have sc: "scan = SEQUENTIAL" using S Inr by (auto simp: scan_def scan_used_def list_ex_iff)
      obtain s where s: "Op_Open (SeqScanOperator (new_SeqScanOperator (Some first) True)) bp = Some (SeqScanOperator s, bp, Status_OK)"
        "delivers (SeqScanOperator s) bp (\<lambda>rs s' b.
          if status_ok (snd (Op_Close s')) then rows_of sch R {} True rs else rows_of sch R {} False rs \<and> \<not> healthy bp)"
        using seq_leaf[OF assms(1), of True] by blast
      have s2: "delivers (SeqScanOperator s) bp (\<lambda>rs s' b. if status_ok (snd (Op_Close s'))
          then rows_of sch R {} (healthy bp \<or> scan = SEQUENTIAL) rs else rows_of sch R {} False rs \<and> \<not> healthy bp)"
        using s(2) unfolding sc simp_thms .
      have "BuildScan c name first ic stats = (?st, Inr (SeqScanOperator (new_SeqScanOperator (Some first) True)))"
        using None sc by (simp add: BuildScan_def)
      then show ?thesis using s(1) s2 only_reads_refl[OF pk]
        by - (rule exI[of _ "SeqScanOperator (new_SeqScanOperator (Some first) True)"], rule exI[of _ "SeqScanOperator s"],
            intro exI[of _ bp] exI[of _ Status_OK] exI[of _ "{}"], simp del: Op_Open.simps)
    next
      case (Some qk)
      then obtain q key i v where q: "ic = Some (q, key)" "q \<in> set qs" "indexable c name q" "target sch q i v" "Encode v = Inr key"
        using S Inr by (cases qk) auto
      have sc: "scan = HASH_INDEX" using q(2,3) by (auto simp: scan_def scan_used_def list_ex_iff)
      have hi: "CM_HasIndex name (cond_column q) c" using q(3) by (simp add: indexable_def)
      obtain hid where hid: "CM_GetIndex name (cond_column q) c = Some hid" by (rule index_bound[OF B hi]) (rule that)
      have "literal_ok (cond_value q)" using assms(2) q(2) by blast
      from idx_leaf[OF assms(1) q(3-5) this hid, of True] obtain s b st where
        s: "Op_Open (IndexScanOperator (new_IndexScanOperator (Some hid) (Some first) key True)) bp = Some (IndexScanOperator s, b, st)"
        "only_reads bp b" "if status_ok st then delivers (IndexScanOperator s) b (\<lambda>rs s' b'.
          if status_ok (snd (Op_Close s')) then rows_of sch R {q} (healthy bp) rs else rows_of sch R {q} False rs \<and> \<not> healthy bp)
         else \<not> healthy bp" by blast
      have "BuildScan c name first ic stats = (?st, Inr (IndexScanOperator (new_IndexScanOperator (Some hid) (Some first) key True)))"
        using q(1) hid sc by (simp add: BuildScan_def)
      moreover have "delivers (IndexScanOperator s) b (\<lambda>rs s' b'. if status_ok (snd (Op_Close s'))
          then rows_of sch R {q} (healthy bp \<or> scan = SEQUENTIAL) rs else rows_of sch R {q} False rs \<and> \<not> healthy bp)" if "status_ok st"
        using s(3) that unfolding sc by (simp cong del: if_weak_cong)
      ultimately show ?thesis using s q(2)
        by - (rule exI[of _ "IndexScanOperator (new_IndexScanOperator (Some hid) (Some first) key True)"], rule exI[of _ "IndexScanOperator s"],
            intro exI[of _ b] exI[of _ st] exI[of _ "{q}"], simp del: Op_Open.simps)
    qed
    then obtain leaf s b st Q where L: "BuildScan c name first ic stats = (?st, Inr leaf)" "leaf \<noteq> NullOperator" "Q \<subseteq> set qs"
      "Op_Open leaf bp = Some (s, b, st)" "only_reads bp b" "if status_ok st
      then delivers s b (\<lambda>rs s' b'. if status_ok (snd (Op_Close s')) then rows_of sch R Q (healthy bp \<or> scan = SEQUENTIAL) rs
        else rows_of sch R Q False rs \<and> \<not> healthy bp) else \<not> healthy bp" by (elim exE conjE) (rule that)
    have bpl: "BuildPlan c name [] qs stats = Some (?st, Inr (AddFilters sch qs leaf, sch))"
      using Inr L(1) by (simp add: D Let_def)
    have nn: "AddFilters sch qs leaf \<noteq> NullOperator" by (rule AddFilters_not_null[OF L(2)])
    have O: "\<exists>s b st. Op_Open (AddFilters sch qs leaf) bp = Some (s, b, st) \<and> only_reads bp b \<and>
        (if status_ok st then list_all (cond_valid sch) qs \<and> plan_rows sch R qs scan bp s b else rejected c name sch qs \<or> \<not> healthy bp)"
    proof (cases "\<forall>q \<in> set qs. cond_valid sch q")
      case True
      then obtain fs where f: "list_all2 (filter_ready sch) qs fs" "Op_Open (AddFilters sch qs leaf) bp = Some (stack fs s, b, st)"
        using open_filters[OF assms(2) L(2), of sch bp] L(4) by auto
      have "status_ok st \<Longrightarrow> plan_rows sch R qs scan bp (stack fs s) b"
        unfolding plan_rows_def using L(6) by (intro delivers_stack[OF _ f(1) assms(2) L(3)]) simp
      then show ?thesis using True f(2) L(5,6)
        by (intro exI[of _ "stack fs s"] exI[of _ b] exI[of _ st]) (simp add: list_all_iff)
    next
      case False
      then obtain p st' where "Op_Open (AddFilters sch qs leaf) bp = Some (p, bp, st')" "\<not> status_ok st'"
        using open_filters[OF assms(2) L(2), of sch bp] unfolding if_not_P[OF False] by blast
      then show ?thesis using False only_reads_refl[OF pk]
        by (intro exI[of _ p] exI[of _ bp] exI[of _ st']) (auto simp: rejected_def list_ex_iff)
    qed
    show ?thesis using bpl nn O unfolding scan_def
      by (intro exI[of _ "Inr (AddFilters sch qs leaf, sch)"] exI[of _ ?st]) (simp add: scan_def)
  qed
qed

end
