(* ===== verification/Select_Correct.thy ===== *)
theory Select_Correct
  imports Query_Plans
begin

text \<open>
  SELECT: the columns it projects, the loop that collects the rows, and what the statement returns.
\<close>

section \<open>The projection\<close>

lemma SelectColumns_spec:
  "case SelectColumns sch names of
     Inl st \<Rightarrow> \<not> status_ok st \<and> (\<exists>n \<in> set names. column_at sch n = None)
   | Inr cols \<Rightarrow> map (column_at sch) names = map Some cols"
proof -
  have "case for_each (\<lambda>n cols. case FindColumn sch n of Inl st \<Rightarrow> Inl st | Inr i \<Rightarrow> Inr (cols @ [i])) names cs of
      Inl st \<Rightarrow> \<not> status_ok st \<and> (\<exists>n \<in> set names. column_at sch n = None)
    | Inr cols \<Rightarrow> \<exists>is. cols = cs @ is \<and> map (column_at sch) names = map Some is" for cs
  proof (induction names arbitrary: cs)
    case (Cons n names)
    show ?case
    proof (cases "column_at sch n")
      case None
      then show ?thesis by (simp add: FindColumn_at)
    next
      case (Some i)
      then show ?thesis using Cons.IH[of "cs @ [i]"] by (auto simp: FindColumn_at split: sum.splits)
    qed
  qed simp
  from this[of "[]"] show ?thesis by (auto simp: SelectColumns_def split: sum.splits)
qed

definition all_columns :: "string list \<Rightarrow> bool" where
  "all_columns names \<longleftrightarrow> names = [] \<or> hd names = ''*''"

lemma BuildPlan_fields:
  assumes "\<not> all_columns names"
  shows "BuildPlan c name names qs stats = map_option (\<lambda>(st, res). (st, case res of
      Inl e \<Rightarrow> Inl e
    | Inr (plan, sch) \<Rightarrow> (case SelectColumns sch names of
         Inl e \<Rightarrow> Inl e
       | Inr cols \<Rightarrow> Inr (ProjectionOperator plan (new_ProjectionOperator sch cols), map (\<lambda>i. sch ! i) cols))))
    (BuildPlan c name [] qs stats)"
  using assms by (auto simp: BuildPlan_def all_columns_def Let_def split: sum.splits option.splits prod.splits)

lemma BuildPlan_all: "all_columns names \<Longrightarrow> BuildPlan c name names qs stats = BuildPlan c name [] qs stats"
  by (auto simp: BuildPlan_def all_columns_def Let_def split: sum.splits option.splits prod.splits)

section \<open>The loop over the rows\<close>

lemma SelectLoop_pulls:
  assumes "pulls Op_Next plan bp rs plan' b" "\<forall>r \<in> set rs. \<exists>vs. Deserialize out r = Inr vs"
  shows "\<exists>st'. SelectLoop out True plan st rows bp =
      Some (plan', st', rows @ map (\<lambda>r. projr (Deserialize out r)) rs, b, Status_OK) \<and>
    rows_returned st' = rows_returned st + length rs \<and> rows_affected st' = rows_affected st \<and> plan_scan_type st' = plan_scan_type st"
  using assms
proof (induction arbitrary: st rows rule: pulls.induct)
  case (pulls_end s bp s' b)
  obtain st' where "Op_Next s st bp = Some (s', st', b, None)" "counts_kept st st'" by (rule callsE[OF pulls_end(1)])
  then show ?case by (intro exI[of _ st']) (simp add: SelectLoop.simps[of out True s] counts_kept_def)
next
  case (pulls_row s bp s1 b1 r rs s' b)
  obtain st1 where n: "Op_Next s st bp = Some (s1, st1, b1, Some (r, rec_rid r))" "counts_kept st st1"
    by (rule callsE[OF pulls_row.hyps(1)])
  obtain vs where vs: "Deserialize out r = Inr vs" using pulls_row.prems by auto
  let ?st = "st1\<lparr>rows_returned := rows_returned st1 + 1\<rparr>"
  obtain st' where "SelectLoop out True s1 ?st (rows @ [vs]) b1 =
      Some (s', st', (rows @ [vs]) @ map (\<lambda>r. projr (Deserialize out r)) rs, b, Status_OK)"
    "rows_returned st' = rows_returned ?st + length rs" "rows_affected st' = rows_affected ?st" "plan_scan_type st' = plan_scan_type ?st"
    using pulls_row.IH[of ?st "rows @ [vs]"] pulls_row.prems by auto
  then show ?case using n vs
    by (intro exI[of _ st']) (simp add: SelectLoop.simps[of out True s] counts_kept_def Let_def)
qed

text \<open>Without a result the rows are only counted.\<close>

lemma SelectLoop_counts:
  assumes "pulls Op_Next plan bp rs plan' b"
  shows "\<exists>st'. SelectLoop out False plan st rows bp = Some (plan', st', rows, b, Status_OK) \<and>
    rows_returned st' = rows_returned st + length rs \<and> rows_affected st' = rows_affected st \<and> plan_scan_type st' = plan_scan_type st"
  using assms
proof (induction arbitrary: st rule: pulls.induct)
  case (pulls_end s bp s' b)
  obtain st' where "Op_Next s st bp = Some (s', st', b, None)" "counts_kept st st'" by (rule callsE[OF pulls_end(1)])
  then show ?case by (intro exI[of _ st']) (simp add: SelectLoop.simps[of out False s] counts_kept_def)
next
  case (pulls_row s bp s1 b1 r rs s' b)
  obtain st1 where n: "Op_Next s st bp = Some (s1, st1, b1, Some (r, rec_rid r))" "counts_kept st st1"
    by (rule callsE[OF pulls_row.hyps(1)])
  let ?st = "st1\<lparr>rows_returned := rows_returned st1 + 1\<rparr>"
  obtain st' where "SelectLoop out False s1 ?st rows b1 = Some (s', st', rows, b, Status_OK)"
    "rows_returned st' = rows_returned ?st + length rs" "rows_affected st' = rows_affected ?st" "plan_scan_type st' = plan_scan_type ?st"
    using pulls_row.IH[of ?st] by auto
  then show ?case using n by (intro exI[of _ st']) (simp add: SelectLoop.simps[of out False s] counts_kept_def Let_def)
qed

section \<open>The result\<close>

text \<open>The columns a query returns: all of them, or those named.\<close>

definition query_columns :: "schema \<Rightarrow> string list \<Rightarrow> nat list option" where
  "query_columns sch names = (if all_columns names then Some [0..<length sch]
     else if list_all (\<lambda>n. column_at sch n \<noteq> None) names then Some (map (\<lambda>n. the (column_at sch n)) names) else None)"

definition pick :: "nat list \<Rightarrow> field_value list \<Rightarrow> field_value list" where
  "pick cols vs = map (\<lambda>i. vs ! i) cols"

text \<open>A projected row that no record can hold: a column may be named several times.\<close>

definition row_fits :: "schema \<Rightarrow> nat list \<Rightarrow> field_value list \<Rightarrow> bool" where
  "row_fits sch cols vs \<longleftrightarrow> row_ok (map (\<lambda>i. sch ! i) cols) (pick cols vs)"

lemma Project_row:
  assumes "Deserialize sch r = Inr vs" "\<forall>i \<in> set cols. i < length sch"
  shows "if row_fits sch cols vs
    then \<exists>p. Project sch r cols = Inr p \<and> rec_rid p = rec_rid r \<and> Deserialize (map (\<lambda>i. sch ! i) cols) p = Inr (pick cols vs)
    else \<exists>st. Project sch r cols = Inl st \<and> \<not> status_ok st"
proof (cases "Serialize (map (\<lambda>i. sch ! i) cols) (map (\<lambda>i. vs ! i) cols) (Some empty_record)")
  case (Inl st)
  then have "\<not> row_fits sch cols vs" using Serialize_total[of _ _ empty_record] by (fastforce simp: row_fits_def pick_def)
  then show ?thesis using Inl assms(2) Serialize_error[OF Inl] by (simp add: Project_spec[OF assms(1)])
next
  case (Inr q)
  have "row_fits sch cols vs" using Serialize_Inr[OF Inr] by (auto simp: row_fits_def pick_def)
  moreover have "rec_data (SetRecordID q (rec_rid r)) = rec_data q" by (simp add: SetRecordID_def)
  ultimately show ?thesis using Inr assms(2) Serialize_Deserialize[OF Inr] Deserialize_data_cong[of "SetRecordID q (rec_rid r)" q]
    by (simp add: Project_spec[OF assms(1)] pick_def SetRecordID_def)
qed

text \<open>The records a query selects, and the rows it returns for them.\<close>

definition query_rids :: "schema \<Rightarrow> row_map \<Rightarrow> condition list \<Rightarrow> record_id set" where
  "query_rids sch R qs = {rid. \<exists>vs. R rid = Some vs \<and> list_all (satisfies sch vs) qs}"

definition answers :: "schema \<Rightarrow> row_map \<Rightarrow> condition list \<Rightarrow> nat list \<Rightarrow> bool \<Rightarrow> field_value list list \<Rightarrow> bool" where
  "answers sch R qs cols full rows \<longleftrightarrow> (\<exists>rids. distinct rids \<and> set rids \<subseteq> query_rids sch R qs \<and>
     (full \<longrightarrow> set rids = query_rids sch R qs) \<and> rows = map (\<lambda>rid. pick cols (the (R rid))) rids)"

lemma selected_rids:
  assumes "selected sch R (set qs) full rs"
  shows "distinct (map rec_rid rs)" "set (map rec_rid rs) \<subseteq> query_rids sch R qs"
    "full \<Longrightarrow> set (map rec_rid rs) = query_rids sch R qs"
    "r \<in> set rs \<Longrightarrow> \<exists>vs. R (rec_rid r) = Some vs \<and> Deserialize sch r = Inr vs \<and> length vs = length sch"
proof -
  have e: "query_rids sch R qs = {rid. \<exists>vs. R rid = Some vs \<and> (\<forall>q \<in> set qs. satisfies sch vs q)}"
    by (simp add: query_rids_def list_all_iff)
  show "distinct (map rec_rid rs)" "r \<in> set rs \<Longrightarrow> \<exists>vs. R (rec_rid r) = Some vs \<and> Deserialize sch r = Inr vs \<and> length vs = length sch"
    using assms by (auto simp: selected_def)
  show s: "set (map rec_rid rs) \<subseteq> query_rids sch R qs"
  proof
    fix x assume "x \<in> set (map rec_rid rs)"
    then obtain y where "y \<in> set rs" "x = rec_rid y" by auto
    then show "x \<in> query_rids sch R qs" using assms unfolding selected_def e by blast
  qed
  show "full \<Longrightarrow> set (map rec_rid rs) = query_rids sch R qs" using s assms unfolding selected_def e by auto
qed

lemma selected_answers:
  assumes "selected sch R (set qs) full rs"
    "\<And>r vs. r \<in> set rs \<Longrightarrow> Deserialize sch r = Inr vs \<Longrightarrow> length vs = length sch \<Longrightarrow> f r = pick cols vs"
  shows "answers sch R qs cols full (map f rs)"
proof -
  note S = selected_rids[OF assms(1)]
  have "f r = pick cols (the (R (rec_rid r)))" if r: "r \<in> set rs" for r
  proof -
    obtain vs where "R (rec_rid r) = Some vs" "Deserialize sch r = Inr vs" "length vs = length sch" using S(4)[OF r] by blast
    then show ?thesis using assms(2)[OF r] by simp
  qed
  then show ?thesis using S(1-3) unfolding answers_def by (intro exI[of _ "map rec_rid rs"]) auto
qed

lemma pick_all: "length vs = n \<Longrightarrow> pick [0..<n] vs = vs"
  unfolding pick_def by (metis map_nth)

lemma answers_mono: "answers sch R qs cols full rows \<Longrightarrow> answers sch R qs cols False rows"
  by (auto simp: answers_def)

text \<open>How the loop of a SELECT ends: \<open>rows\<close> is what the plan returned.\<close>

definition loop_ends ::
  "schema \<Rightarrow> row_map \<Rightarrow> condition list \<Rightarrow> nat list \<Rightarrow> bool \<Rightarrow> bool \<Rightarrow> bool \<Rightarrow> query_stats \<Rightarrow> pool \<Rightarrow>
   (abstract_operator \<times> query_stats \<times> field_value list list \<times> pool \<times> status) option \<Rightarrow> bool" where
  "loop_ends sch R qs cols wanted full failed st b out \<longleftrightarrow> (\<exists>s' st1 rows b'.
     out = Some (s', st1, if wanted then rows else [], b', Status_OK) \<and> only_reads b b' \<and> s' \<noteq> NullOperator \<and>
     rows_returned st1 = rows_returned st + length rows \<and> rows_affected st1 = rows_affected st \<and>
     plan_scan_type st1 = plan_scan_type st \<and> answers sch R qs cols False rows \<and>
     (if status_ok (snd (Op_Close s')) then answers sch R qs cols full rows else failed))"

lemma loop_ends_pulls:
  assumes "pulls Op_Next s b rs s' b'" "\<forall>r \<in> set rs. \<exists>vs. Deserialize out r = Inr vs"
    "answers sch R qs cols False (map (\<lambda>r. projr (Deserialize out r)) rs)"
    "if status_ok (snd (Op_Close s')) then answers sch R qs cols full (map (\<lambda>r. projr (Deserialize out r)) rs) else failed"
  shows "loop_ends sch R qs cols wanted full failed st b (SelectLoop out wanted s st [] b)"
proof -
  let ?rows = "map (\<lambda>r. projr (Deserialize out r)) rs"
  have "\<exists>st1. SelectLoop out wanted s st [] b = Some (s', st1, if wanted then ?rows else [], b', Status_OK) \<and>
      rows_returned st1 = rows_returned st + length ?rows \<and> rows_affected st1 = rows_affected st \<and> plan_scan_type st1 = plan_scan_type st"
    using SelectLoop_pulls[OF assms(1,2), of st "[]"] SelectLoop_counts[OF assms(1), of out st "[]"] by (cases wanted) auto
  then obtain st1 where s: "SelectLoop out wanted s st [] b = Some (s', st1, if wanted then ?rows else [], b', Status_OK)"
    "rows_returned st1 = rows_returned st + length ?rows" "rows_affected st1 = rows_affected st" "plan_scan_type st1 = plan_scan_type st" by blast
  show ?thesis unfolding loop_ends_def
    by (rule exI[of _ s'], rule exI[of _ st1], rule exI[of _ ?rows], rule exI[of _ b'])
      (use s assms(3,4) pulls_last[OF assms(1)] pulls_only_reads[OF assms(1)] in simp)
qed

lemma run_plain:
  assumes "plan_rows sch R qs scan bp s b"
  shows "loop_ends sch R qs [0..<length sch] wanted (healthy bp \<or> scan = SEQUENTIAL) (\<not> healthy bp) st b (SelectLoop sch wanted s st [] b)"
proof -
  obtain rs s' b' where p: "pulls Op_Next s b rs s' b'" "if status_ok (snd (Op_Close s'))
      then selected sch R (set qs) (healthy bp \<or> scan = SEQUENTIAL) rs
      else selected sch R (set qs) False rs \<and> \<not> healthy bp" using assms by (auto simp: plan_rows_def delivers_def)
  obtain full where sel: "selected sch R (set qs) full rs" using p(2) by (auto split: if_splits)
  have a: "answers sch R qs [0..<length sch] f (map (\<lambda>r. projr (Deserialize sch r)) rs)" if "selected sch R (set qs) f rs" for f
    by (rule selected_answers[OF that]) (simp add: pick_all)
  show ?thesis
    by (rule loop_ends_pulls[OF p(1)]) (use selected_rids(4)[OF sel] a p(2) answers_mono[OF a[OF sel]] in \<open>auto split: if_splits\<close>)
qed

text \<open>A row the query selects and no record can hold.\<close>

definition row_too_large :: "schema \<Rightarrow> row_map \<Rightarrow> condition list \<Rightarrow> nat list \<Rightarrow> bool" where
  "row_too_large sch R qs cols \<longleftrightarrow> (\<exists>rid \<in> query_rids sch R qs. \<not> row_fits sch cols (the (R rid)))"

lemma run_projected:
  assumes "plan_rows sch R qs scan bp s b" "po_status p = Status_OK" "po_input_schema p = sch" "po_selected_fields p = cols"
    "\<forall>i \<in> set cols. i < length sch"
  shows "loop_ends sch R qs cols wanted (healthy bp \<or> scan = SEQUENTIAL) (\<not> healthy bp \<or> row_too_large sch R qs cols) st b
    (SelectLoop (map (\<lambda>i. sch ! i) cols) wanted (ProjectionOperator s p) st [] b)"
proof -
  let ?out = "map (\<lambda>i. sch ! i) cols" and ?P = "\<lambda>r. projr (Project sch r cols)"
  obtain rs s' b' where p: "pulls Op_Next s b rs s' b'" "if status_ok (snd (Op_Close s'))
      then selected sch R (set qs) (healthy bp \<or> scan = SEQUENTIAL) rs
      else selected sch R (set qs) False rs \<and> \<not> healthy bp" using assms(1) by (auto simp: plan_rows_def delivers_def)
  obtain full where sel: "selected sch R (set qs) full rs" using p(2) by (auto split: if_splits)
  have des: "\<exists>vs. R (rec_rid r) = Some vs \<and> Deserialize sch r = Inr vs \<and> length vs = length sch" if "r \<in> set rs" for r
    by (rule selected_rids(4)[OF sel that])
  have row: "Deserialize ?out (?P r) = Inr (pick cols vs)" if "Deserialize sch r = Inr vs" "Project sch r cols = Inr q" for r vs q
    using Project_row[OF that(1) assms(5)] that(2) by (auto split: if_splits)
  show ?thesis
  proof (cases "\<forall>r \<in> set rs. \<exists>q. Project sch r cols = Inr q")
    case True
    have pr: "pulls Op_Next (ProjectionOperator s p) b (map ?P rs) (ProjectionOperator s' p) b'"
      using pulls_Projection[OF p(1) assms(2)] True assms(3,4) by simp
    have a: "answers sch R qs cols f (map (\<lambda>r. projr (Deserialize ?out r)) (map ?P rs))" if f: "selected sch R (set qs) f rs" for f
      unfolding map_map
    proof (rule selected_answers[OF f])
      fix r vs assume "r \<in> set rs" "Deserialize sch r = Inr vs"
      then show "((\<lambda>r. projr (Deserialize ?out r)) \<circ> ?P) r = pick cols vs" using True row by fastforce
    qed
    have d: "\<forall>r \<in> set (map ?P rs). \<exists>vs. Deserialize ?out r = Inr vs"
    proof
      fix q assume "q \<in> set (map ?P rs)"
      then obtain r where r: "r \<in> set rs" "q = ?P r" by auto
      obtain vs where "Deserialize sch r = Inr vs" using des[OF r(1)] by blast
      moreover obtain x where "Project sch r cols = Inr x" using True r(1) by blast
      ultimately show "\<exists>vs. Deserialize ?out q = Inr vs" using row r(2) by blast
    qed
    have cl: "snd (Op_Close (ProjectionOperator s' p)) = snd (Op_Close s')" using assms(2) by (simp add: case_prod_beta)
    show ?thesis
      by (rule loop_ends_pulls[OF pr d]) (use a p(2) answers_mono[OF a[OF sel]] cl in \<open>auto split: if_splits\<close>)
  next
    case False
    from pulls_Projection_fails[OF p(1) assms(2), unfolded assms(3,4), OF this] obtain pre suf r s1 b1 e where f: "rs = pre @ r # suf" "Project sch r cols = Inl e"
      "\<forall>x \<in> set pre. \<exists>q. Project sch x cols = Inr q"
      "pulls Op_Next (ProjectionOperator s p) b (map ?P pre) (ProjectionOperator s1 (p\<lparr>po_status := e\<rparr>)) b1"
      by (elim exE conjE) (rule that)
    have r: "r \<in> set rs" using f(1) by simp
    obtain vs where vs: "R (rec_rid r) = Some vs" "Deserialize sch r = Inr vs" using des[OF r] by blast
    have "\<not> row_fits sch cols vs \<and> \<not> status_ok e" using Project_row[OF vs(2) assms(5)] f(2) by (auto split: if_splits)
    moreover have "rec_rid r \<in> query_rids sch R qs" using selected_rids(2)[OF sel] r by auto
    ultimately have big: "row_too_large sch R qs cols" "\<not> status_ok e" using vs(1) by (force simp: row_too_large_def)+
    have selp: "selected sch R (set qs) False pre" using sel f(1) by (auto simp: selected_def)
    have a: "answers sch R qs cols False (map (\<lambda>r. projr (Deserialize ?out r)) (map ?P pre))"
      unfolding map_map
    proof (rule selected_answers[OF selp])
      fix r vs assume "r \<in> set pre" "Deserialize sch r = Inr vs"
      then show "((\<lambda>r. projr (Deserialize ?out r)) \<circ> ?P) r = pick cols vs" using f(3) row by fastforce
    qed
    have d: "\<forall>r \<in> set (map ?P pre). \<exists>vs. Deserialize ?out r = Inr vs"
    proof
      fix q assume "q \<in> set (map ?P pre)"
      then obtain r where r: "r \<in> set pre" "q = ?P r" by auto
      obtain vs where "Deserialize sch r = Inr vs" using des[of r] r(1) f(1) by auto
      moreover obtain x where "Project sch r cols = Inr x" using f(3) r(1) by blast
      ultimately show "\<exists>vs. Deserialize ?out q = Inr vs" using row r(2) by blast
    qed
    have "snd (Op_Close (ProjectionOperator s1 (p\<lparr>po_status := e\<rparr>))) = e" using big(2) by (simp add: case_prod_beta)
    then show ?thesis by (intro loop_ends_pulls[OF f(4) d a]) (use big in simp)
  qed
qed

section \<open>The statement\<close>

text \<open>Why a SELECT may be an error on a pool without failures.\<close>

definition select_rejected :: "catalog \<Rightarrow> string \<Rightarrow> schema \<Rightarrow> row_map \<Rightarrow> string list \<Rightarrow> condition list \<Rightarrow> bool" where
  "select_rejected c name sch R names qs \<longleftrightarrow> rejected c name sch qs \<or>
     (case query_columns sch names of None \<Rightarrow> True
      | Some cols \<Rightarrow> \<not> all_columns names \<and> row_too_large sch R qs cols)"

lemma query_columns_bound: "query_columns sch names = Some cols \<Longrightarrow> \<forall>i \<in> set cols. i < length sch"
  by (fastforce simp: query_columns_def list_all_iff dest: column_at_Some split: if_splits)

lemma SelectColumns_columns:
  assumes "\<not> all_columns names"
  shows "case SelectColumns sch names of Inl st \<Rightarrow> \<not> status_ok st \<and> query_columns sch names = None
    | Inr cols \<Rightarrow> query_columns sch names = Some cols \<and> cols \<noteq> []"
proof (cases "SelectColumns sch names")
  case (Inl st)
  then show ?thesis using SelectColumns_spec[of names sch] assms by (auto simp: query_columns_def list_all_iff)
next
  case (Inr cols)
  then have m: "map (column_at sch) names = map Some cols" using SelectColumns_spec[of names sch] by simp
  then have l: "length names = length cols" by (metis length_map)
  have e: "column_at sch (names ! i) = Some (cols ! i)" if "i < length names" for i using m l that by (metis nth_map)
  have "list_all (\<lambda>n. column_at sch n \<noteq> None) names" using e by (auto simp: list_all_length)
  moreover have "map (\<lambda>n. the (column_at sch n)) names = cols" by (rule nth_equalityI) (use l e in auto)
  moreover have "names \<noteq> []" using assms by (auto simp: all_columns_def)
  ultimately show ?thesis using Inr assms l by (auto simp: query_columns_def)
qed

text \<open>What a SELECT returns: \<open>full\<close> says whether no row may be missing, \<open>failed\<close> why it may be an error.\<close>

definition select_done ::
  "catalog \<Rightarrow> string \<Rightarrow> schema \<Rightarrow> row_map \<Rightarrow> string list \<Rightarrow> condition list \<Rightarrow> bool \<Rightarrow> query_stats \<Rightarrow> bool \<Rightarrow> bool \<Rightarrow>
   query_stats \<Rightarrow> query_result \<Rightarrow> status \<Rightarrow> bool" where
  "select_done c name sch R names qs wanted stats full failed st1 res st \<longleftrightarrow>
     (if status_ok st then \<exists>cols rows. query_columns sch names = Some cols \<and> answers sch R qs cols full rows \<and>
        qr_rows res = (if wanted then rows else []) \<and>
        qr_column_names res = (if wanted then map (\<lambda>i. col_name (sch ! i)) cols else []) \<and>
        rows_returned st1 = rows_returned stats + length rows \<and> rows_affected st1 = rows_affected stats \<and>
        plan_scan_type st1 = scan_used c name qs
      else failed)"

lemma select_loop_done:
  assumes "BuildPlan c name names qs stats = Some (stats\<lparr>plan_scan_type := scan_used c name qs\<rparr>, Inr (plan, map (\<lambda>i. sch ! i) cols))"
    "Op_Open plan bp = Some (s, b, st0)" "status_ok st0" "only_reads bp b" "query_columns sch names = Some cols"
    "\<And>st. loop_ends sch R qs cols wanted full failed st b (SelectLoop (map (\<lambda>i. sch ! i) cols) wanted s st [] b)"
  shows "\<exists>st1 res b' st. ExecuteSelect c name names qs wanted stats bp = Some (st1, res, b', st) \<and> only_reads bp b' \<and>
    select_done c name sch R names qs wanted stats full failed st1 res st"
proof -
  let ?st = "stats\<lparr>plan_scan_type := scan_used c name qs\<rparr>"
  obtain s' st1 rows b' where l: "SelectLoop (map (\<lambda>i. sch ! i) cols) wanted s ?st [] b = Some (s', st1, if wanted then rows else [], b', Status_OK)"
    "only_reads b b'" "s' \<noteq> NullOperator" "rows_returned st1 = rows_returned ?st + length rows" "rows_affected st1 = rows_affected ?st"
    "plan_scan_type st1 = plan_scan_type ?st" "if status_ok (snd (Op_Close s')) then answers sch R qs cols full rows else failed"
    using assms(6)[of ?st] by (auto simp: loop_ends_def)
  let ?res = "\<lparr>qr_column_names = (if wanted then map col_name (map (\<lambda>i. sch ! i) cols) else []),
    qr_rows = (if wanted then rows else [])\<rparr>"
  have "ExecuteSelect c name names qs wanted stats bp = Some (st1, ?res, b', snd (Op_Close s'))"
    using assms(1-3) l(1,3) by (simp add: ExecuteSelect_def ClosePlan_def)
  moreover have "select_done c name sch R names qs wanted stats full failed st1 ?res (snd (Op_Close s'))"
    unfolding select_done_def using assms(5) l(4-7)
    by (cases "status_ok (snd (Op_Close s'))") (simp_all add: exI[of _ cols], intro exI[of _ rows] conjI impI, simp_all)
  ultimately show ?thesis using only_reads_trans[OF assms(4) l(2)] by blast
qed

lemma ExecuteSelect_spec:
  assumes "table_in c name bp sch first bs ps ixs R" "\<forall>q \<in> set qs. literal_ok (cond_value q)"
  shows "\<exists>st1 res b st. ExecuteSelect c name names qs wanted stats bp = Some (st1, res, b, st) \<and> only_reads bp b \<and>
    select_done c name sch R names qs wanted stats (healthy bp \<or> scan_used c name qs = SEQUENTIAL)
      (\<not> healthy bp \<or> select_rejected c name sch R names qs) st1 res st"
proof -
  have pk: "pool_ok {} bp" using table_inD(4)[OF assms(1)] by (simp add: hf_state_def)
  let ?st = "stats\<lparr>plan_scan_type := scan_used c name qs\<rparr>" and ?full = "healthy bp \<or> scan_used c name qs = SEQUENTIAL"
  let ?failed = "\<not> healthy bp \<or> select_rejected c name sch R names qs"
  have fails: ?thesis if "ExecuteSelect c name names qs wanted stats bp = Some (st1, new_QueryResult, b, st)" "\<not> status_ok st"
    "only_reads bp b" "?failed" for st1 b st
    using that by (intro exI[of _ st1] exI[of _ new_QueryResult] exI[of _ b] exI[of _ st]) (simp add: select_done_def)
  obtain res st1 where bpl: "BuildPlan c name [] qs stats = Some (st1, res)" "case res of
      Inl st \<Rightarrow> st1 = stats \<and> \<not> status_ok st \<and> rejected c name sch qs
    | Inr (plan, out) \<Rightarrow> st1 = ?st \<and> out = sch \<and> plan \<noteq> NullOperator \<and>
        (\<exists>s b st. Op_Open plan bp = Some (s, b, st) \<and> only_reads bp b \<and>
          (if status_ok st then list_all (cond_valid sch) qs \<and> plan_rows sch R qs (scan_used c name qs) bp s b
           else rejected c name sch qs \<or> \<not> healthy bp))"
    using where_plan[OF assms, of stats] by blast
  show ?thesis
  proof (cases res)
    case (Inl e)
    then have e: "\<not> status_ok e" "rejected c name sch qs" "BuildPlan c name names qs stats = Some (stats, Inl e)"
      using bpl BuildPlan_all[of names c name qs stats] BuildPlan_fields[of names c name qs stats] by (cases "all_columns names"; simp)+
    show ?thesis
      by (rule fails[of stats bp e]) (use e only_reads_refl[OF pk] in \<open>simp_all add: ExecuteSelect_def select_rejected_def\<close>)
  next
    case (Inr po)
    then obtain plan where r: "res = Inr (plan, sch)" using bpl(2) by (cases po) auto
    obtain s b st where o: "st1 = ?st" "plan \<noteq> NullOperator" "Op_Open plan bp = Some (s, b, st)" "only_reads bp b"
      "if status_ok st then list_all (cond_valid sch) qs \<and> plan_rows sch R qs (scan_used c name qs) bp s b
       else rejected c name sch qs \<or> \<not> healthy bp" using bpl(2) unfolding r sum.case prod.case by blast
    have bad: "\<not> status_ok st \<Longrightarrow> ?failed" using o(5) by (auto simp: select_rejected_def)
    show ?thesis
    proof (cases "all_columns names")
      case True
      have cols: "query_columns sch names = Some [0..<length sch]" using True by (simp add: query_columns_def)
      have all: "map (\<lambda>i. sch ! i) [0..<length sch] = sch" by (rule map_nth)
      have b1: "BuildPlan c name names qs stats = Some (?st, Inr (plan, map (\<lambda>i. sch ! i) [0..<length sch]))"
        unfolding all BuildPlan_all[OF True] bpl(1) r o(1) ..
      show ?thesis
      proof (cases "status_ok st")
        case ok: True
        have pr: "plan_rows sch R qs (scan_used c name qs) bp s b" using o(5) ok by simp
        show ?thesis
        proof (rule select_loop_done[OF b1 o(3) ok o(4) cols], unfold all)
          fix st show "loop_ends sch R qs [0..<length sch] wanted ?full ?failed st b (SelectLoop sch wanted s st [] b)"
            using run_plain[OF pr, of wanted st] unfolding loop_ends_def by (elim exE conjE) (intro exI conjI, assumption+, auto split: if_splits)
        qed
      next
        case False
        show ?thesis by (rule fails[of ?st b st]) (use b1 o(3,4) False bad in \<open>simp_all add: ExecuteSelect_def\<close>)
      qed
    next
      case False
      note SC = SelectColumns_columns[OF False, of sch]
      show ?thesis
      proof (cases "SelectColumns sch names")
        case (Inl e)
        then have "BuildPlan c name names qs stats = Some (?st, Inl e)" "\<not> status_ok e" "query_columns sch names = None"
          using SC BuildPlan_fields[OF False, of c name qs stats] bpl(1) r o(1) by simp_all
        then show ?thesis
          by (intro fails[of ?st bp e]) (use only_reads_refl[OF pk] in \<open>simp_all add: ExecuteSelect_def select_rejected_def\<close>)
      next
        case (Inr cols)
        let ?p = "new_ProjectionOperator sch cols"
        have cols: "query_columns sch names = Some cols" "cols \<noteq> []" using SC Inr by simp_all
        note bound = query_columns_bound[OF cols(1)]
        have b1: "BuildPlan c name names qs stats = Some (?st, Inr (ProjectionOperator plan ?p, map (\<lambda>i. sch ! i) cols))"
          using BuildPlan_fields[OF False, of c name qs stats] bpl(1) r o(1) Inr by simp
        have ready: "Projection_Prepare ?p = (?p, Status_OK)"
          using bound cols(2) by (auto simp: Projection_Prepare_def new_ProjectionOperator_def list_ex_iff)
        have op: "Op_Open (ProjectionOperator plan ?p) bp = Some (ProjectionOperator s ?p, b, st)"
          using o(2,3) ready by simp
        show ?thesis
        proof (cases "status_ok st")
          case ok: True
          have pr: "plan_rows sch R qs (scan_used c name qs) bp s b" using o(5) ok by simp
          show ?thesis
          proof (rule select_loop_done[OF b1 op ok o(4) cols(1)])
            fix st
            have "loop_ends sch R qs cols wanted ?full (\<not> healthy bp \<or> row_too_large sch R qs cols) st b
                (SelectLoop (map (\<lambda>i. sch ! i) cols) wanted (ProjectionOperator s ?p) st [] b)"
              by (rule run_projected[OF pr _ _ _ bound]) (simp_all add: new_ProjectionOperator_def)
            then show "loop_ends sch R qs cols wanted ?full ?failed st b
                (SelectLoop (map (\<lambda>i. sch ! i) cols) wanted (ProjectionOperator s ?p) st [] b)"
              using False cols(1) unfolding loop_ends_def select_rejected_def
              by (elim exE conjE) (intro exI conjI, assumption+, auto split: if_splits)
          qed
        next
          case False
          show ?thesis by (rule fails[of ?st b st]) (use b1 op o(4) False bad in \<open>simp_all add: ExecuteSelect_def\<close>)
        qed
      qed
    qed
  qed
qed

end
