(* ===== verification/Change_Correct.thy ===== *)
theory Change_Correct
  imports Select_Correct
begin

text \<open>
  INSERT, UPDATE and DELETE: what they do to the rows of a table, and how far they get before an error.
\<close>

section \<open>A table whose rows change\<close>

text \<open>The table has come to hold the rows \<open>R'\<close>, on its pages and pages nobody used; nothing else has
  changed, and at most \<open>n\<close> pages have been added to the file.\<close>

definition table_changed ::
  "nat \<Rightarrow> catalog \<Rightarrow> string \<Rightarrow> schema \<Rightarrow> page_id \<Rightarrow> index_binding list \<Rightarrow> pool \<Rightarrow> page_id list \<Rightarrow> index_objects \<Rightarrow>
   pool \<Rightarrow> row_map \<Rightarrow> bool" where
  "table_changed n c name sch first bs bp ps ixs b R' \<longleftrightarrow> outside_kept (tbl_pages ps ixs) bp b \<and> (healthy bp \<longrightarrow> healthy b) \<and>
     adds n bp b \<and> (\<exists>ps' ixs'. table_in c name b sch first bs ps' ixs' R' \<and> grows (tbl_pages ps ixs) (tbl_pages ps' ixs') bp)"

lemma table_changedI:
  assumes "table_in c name bp sch first bs ps ixs R" "table_became n sch bs first bp ps ixs b H" "stored sch H R'"
  shows "table_changed n c name sch first bs bp ps ixs b R'"
  using assms by (auto simp: table_changed_def table_became_def table_in_def)

lemma table_changed_same:
  assumes "table_in c name bp sch first bs ps ixs R" "table_became n sch bs first bp ps ixs b (heap_contents (pool_page bp) ps)"
  shows "table_changed n c name sch first bs bp ps ixs b R"
  by (rule table_changedI[OF assms table_inD(3)[OF assms(1)]])

lemma table_in_read:
  assumes "table_in c name bp sch first bs ps ixs R" "only_reads bp b"
  shows "table_in c name b sch first bs ps ixs R"
proof -
  have ro: "read_only bp b" "adds 0 bp b" using assms(2) by (simp_all add: only_reads_def)
  have "heap_contents (pool_page b) ps = heap_contents (pool_page bp) ps" using read_only_pages[OF ro(1)] by simp
  then show ?thesis using assms(1) table_same(2)[OF table_inD(2)[OF assms(1)] ro] by (simp add: table_in_def)
qed

lemma only_reads_changed:
  assumes "table_in c name bp sch first bs ps ixs R" "only_reads bp b"
  shows "table_changed n c name sch first bs bp ps ixs b R"
proof -
  have ro: "read_only bp b" "adds 0 bp b" using assms(2) by (simp_all add: only_reads_def)
  have k: "outside_kept (tbl_pages ps ixs) bp b" using ro(1) by (simp add: outside_kept_same read_only_def)
  have a: "adds n bp b" by (rule adds_mono[OF ro(2)]) simp
  show ?thesis unfolding table_changed_def
    by (intro conjI k a impI only_reads_healthy[OF assms(2)] exI[of _ ps] exI[of _ ixs] table_in_read[OF assms] grows_refl)
qed

lemma table_changed_trans:
  assumes "table_changed m c name sch first bs bp ps ixs b R1"
  obtains ps1 ixs1 where "table_in c name b sch first bs ps1 ixs1 R1"
    "\<And>n d R2. table_changed n c name sch first bs b ps1 ixs1 d R2 \<Longrightarrow> table_changed (m + n) c name sch first bs bp ps ixs d R2"
proof -
  obtain ps1 ixs1 where 1: "table_in c name b sch first bs ps1 ixs1 R1" "grows (tbl_pages ps ixs) (tbl_pages ps1 ixs1) bp"
    "outside_kept (tbl_pages ps ixs) bp b" "healthy bp \<longrightarrow> healthy b" "adds m bp b" using assms(1) by (auto simp: table_changed_def)
  show ?thesis
  proof (rule that[OF 1(1)])
    fix n d R2 assume "table_changed n c name sch first bs b ps1 ixs1 d R2"
    then obtain ps2 ixs2 where 2: "table_in c name d sch first bs ps2 ixs2 R2" "grows (tbl_pages ps1 ixs1) (tbl_pages ps2 ixs2) b"
      "outside_kept (tbl_pages ps1 ixs1) b d" "healthy b \<longrightarrow> healthy d" "adds n b d" by (auto simp: table_changed_def)
    then show "table_changed (m + n) c name sch first bs bp ps ixs d R2" unfolding table_changed_def
      using 1(4) outside_kept_grown[OF 1(3,2) 2(3)] grows_trans[OF 1(3,2) 2(2)] adds_trans[OF 1(5) 2(5)] by blast
  qed
qed

lemma table_changed_mono: "table_changed m c name sch first bs bp ps ixs b R \<Longrightarrow> m \<le> n \<Longrightarrow> table_changed n c name sch first bs bp ps ixs b R"
  by (auto simp: table_changed_def intro: adds_mono)

lemma table_changed_healthy: "table_changed n c name sch first bs bp ps ixs b R \<Longrightarrow> healthy bp \<Longrightarrow> healthy b"
  by (simp add: table_changed_def)

lemma table_changed_read:
  assumes "only_reads bp b" "table_changed n c name sch first bs b ps ixs d R"
  shows "table_changed n c name sch first bs bp ps ixs d R"
proof -
  have ro: "read_only bp b" "adds 0 bp b" using assms(1) by (simp_all add: only_reads_def)
  have "grows ps qs b \<Longrightarrow> grows ps qs bp" for ps qs
    using ro(1) by (auto simp: grows_def unused_def read_only_def same_pages_def)
  then show ?thesis using assms(2) outside_kept_read[OF ro(1)] only_reads_healthy[OF assms(1)] adds_0(2)[OF ro(2)]
    unfolding table_changed_def by blast
qed

section \<open>The errors of an insertion\<close>

lemma page_errors:
  "SP_Init p = Inl st \<Longrightarrow> \<not> status_ok st" "EnsureInit pg = Inl st \<Longrightarrow> \<not> status_ok st"
  "SP_InsertRecord p d = Inl st \<Longrightarrow> \<not> status_ok st" "SP_SetNextPageId p n = Inl st \<Longrightarrow> \<not> status_ok st"
  by (auto simp: SP_Init_def EnsureInit_def SP_InsertRecord_def SP_SetNextPageId_def Let_def split: option.splits if_splits)

lemma AppendNewPage_error: "AppendNewPage c d bp = (b, Inl st) \<Longrightarrow> \<not> status_ok st"
  unfolding AppendNewPage_def by (auto simp: Let_def dest: page_errors split: option.splits prod.splits bool.splits if_splits sum.splits)

lemma HF_InsertRecord_error:
  assumes "HF_InsertRecord first r bp = Some (b, Inl st)"
  shows "\<not> status_ok st"
proof -
  have "case out of (b, Inl st) \<Rightarrow> \<not> status_ok st | _ \<Rightarrow> True" if "HF_InsertLoop visited c d bp = Some out" for visited c d bp out
  proof (rule HF_InsertLoop.raw_induct
      [where P = "\<lambda>visited c d bp out. case out of (b, Inl st) \<Rightarrow> \<not> status_ok st | _ \<Rightarrow> True", OF _ that], goal_cases)
    case (1 loop visited c d bp out)
    have ih: "\<not> status_ok e" if "loop v n d b2 = Some (b3, Inl e)" for v n d b2 b3 e using 1(1)[OF that] by simp
    from 1(2) show ?case
      by (auto dest: page_errors AppendNewPage_error ih split: option.splits prod.splits if_splits sum.splits)
  qed
  then show ?thesis using assms by (fastforce simp: HF_InsertRecord_def split: if_splits)
qed

lemma TS_InsertRecord_error:
  assumes "TS_InsertRecord ts name vs bp = Some (b, Inl st)" "LoadTable ts name = Inr x"
  shows "\<not> status_ok st"
proof -
  have "\<not> status_ok st" if "InsertIndexes rid keys bp = Some (b, Inl st)" for rid keys bp
    using that by (auto simp: InsertIndexes_def CombineFailure_def split: option.splits prod.splits if_splits)
  then show ?thesis using assms
    by (auto simp: TS_InsertRecord_def dest: Serialize_error EncodeIndexKeys_error HF_InsertRecord_error
        split: sum.splits prod.splits option.splits)
qed

section \<open>INSERT\<close>

text \<open>The values a list of literals denotes for the columns of a table.\<close>

definition row_denoted :: "schema \<Rightarrow> sql_literal list \<Rightarrow> field_value list \<Rightarrow> bool" where
  "row_denoted sch ls vs \<longleftrightarrow> list_all2 denotes ls vs \<and> list_all2 field_ok sch vs"

lemma ConvertValues_spec:
  assumes "length ls = length sch" "list_all literal_ok ls"
  shows "case ConvertValues sch ls of
      Inl st \<Rightarrow> \<not> status_ok st \<and> (\<nexists>vs. row_denoted sch ls vs)
    | Inr vs \<Rightarrow> row_denoted sch ls vs"
proof -
  let ?step = "\<lambda>i vs. case ConvertLiteral (sch ! i) (ls ! i) True of Inl st \<Rightarrow> Inl st | Inr v \<Rightarrow> Inr (vs @ [v])"
  have C: "ConvertLiteral (sch ! i) (ls ! i) True = Inr v \<longleftrightarrow> denotes (ls ! i) v \<and> field_ok (sch ! i) v" if "i < length sch" for i v
    using ConvertLiteral_exact[of "ls ! i" "sch ! i" True v] assms that by (simp add: list_all_length)
  have "case for_each ?step [0..<k] [] of
      Inl st \<Rightarrow> \<not> status_ok st \<and> (\<exists>i < k. \<nexists>v. denotes (ls ! i) v \<and> field_ok (sch ! i) v)
    | Inr vs \<Rightarrow> length vs = k \<and> (\<forall>i < k. denotes (ls ! i) (vs ! i) \<and> field_ok (sch ! i) (vs ! i))" if "k \<le> length sch" for k
    using that
  proof (induction k)
    case (Suc k)
    have k: "k < length sch" using Suc.prems by simp
    show ?case
    proof (cases "for_each ?step [0..<k] []")
      case (Inl st)
      then obtain i where "\<not> status_ok st" "i < k" "\<nexists>v. denotes (ls ! i) v \<and> field_ok (sch ! i) v" using Suc by auto
      then show ?thesis using Inl by (auto simp: for_each_upt_Suc simp del: upt_Suc intro!: exI[of _ i])
    next
      case (Inr us)
      then have us: "length us = k" "\<forall>i < k. denotes (ls ! i) (us ! i) \<and> field_ok (sch ! i) (us ! i)" using Suc by simp_all
      show ?thesis
      proof (cases "ConvertLiteral (sch ! k) (ls ! k) True")
        case (Inl st)
        then have "\<nexists>v. denotes (ls ! k) v \<and> field_ok (sch ! k) v" using C[OF k] by simp
        then show ?thesis using \<open>for_each ?step [0..<k] [] = Inr us\<close> Inl ConvertLiteral_error[OF Inl]
          by (auto simp: for_each_upt_Suc simp del: upt_Suc)
      next
        case (Inr v)
        then show ?thesis using \<open>for_each ?step [0..<k] [] = Inr us\<close> us C[OF k, of v]
          by (auto simp: for_each_upt_Suc nth_append less_Suc_eq simp del: upt_Suc)
      qed
    qed
  qed simp
  from this[of "length sch"] show ?thesis using assms(1)
    by (auto simp: ConvertValues_def row_denoted_def list_all2_conv_all_nth split: sum.splits)
qed

lemma ExecuteInsert_spec:
  assumes "table_in c name bp sch first bs ps ixs R" "list_all literal_ok ls" "room (1 + length bs) bp"
  shows "\<exists>st1 b st. ExecuteInsert c name ls stats bp = Some (st1, b, st) \<and> (if status_ok st
    then (\<exists>rid vs. R rid = None \<and> row_denoted sch ls vs \<and> table_changed (1 + length bs) c name sch first bs bp ps ixs b (R(rid \<mapsto> vs)) \<and>
      rows_affected st1 = 1)
    else table_changed (1 + length bs) c name sch first bs bp ps ixs b R \<or> \<not> healthy bp \<and> rollback_failed insert_rollbacks st)"
proof -
  have pk: "pool_ok {} bp" using table_inD(4)[OF assms(1)] by (simp add: hf_state_def)
  note same = only_reads_changed[OF assms(1) only_reads_refl[OF pk]]
  have B: "LoadTable \<lparr>ts_bpm = True, ts_catalog = Some c\<rparr> name = Inr (sch, first, bs)" "CM_GetTableSchema name c = Inr sch"
    using table_inD(1)[OF assms(1)] by (auto simp: table_bindings_def cat_ready_def CM_GetTableSchema_def)
  note D = ExecuteInsert_def B(2)
  show ?thesis
  proof (cases "length ls = length sch")
    case False
    then show ?thesis using same by (simp add: D)
  next
    case len: True
    note CV = ConvertValues_spec[OF len assms(2)]
    show ?thesis
    proof (cases "ConvertValues sch ls")
      case (Inl st)
      then show ?thesis using same len CV by (simp add: D)
    next
      case (Inr vs)
      obtain b res where i: "TS_InsertRecord \<lparr>ts_bpm = True, ts_catalog = Some c\<rparr> name vs bp = Some (b, res)" "case res of
          Inr rid \<Rightarrow> heap_contents (pool_page bp) ps rid = None \<and> (\<exists>r. Serialize sch vs (Some empty_record) = Inr r \<and>
            table_became (1 + length bs) sch bs first bp ps ixs b ((heap_contents (pool_page bp) ps)(rid \<mapsto> rec_data r)))
        | Inl st \<Rightarrow> table_became (1 + length bs) sch bs first bp ps ixs b (heap_contents (pool_page bp) ps) \<or>
            \<not> healthy bp \<and> rollback_failed insert_rollbacks st"
        using insert_record_spec[OF B(1) table_inD(2)[OF assms(1)] assms(3), of vs] by blast
      show ?thesis
      proof (cases res)
        case (Inl st)
        have "\<not> status_ok st" using TS_InsertRecord_error[OF i(1)[unfolded Inl] B(1)] .
        then show ?thesis using len Inr i Inl table_changed_same[OF assms(1)] by (auto simp: D)
      next
        case (Inr rid)
        then obtain r where r: "heap_contents (pool_page bp) ps rid = None" "Serialize sch vs (Some empty_record) = Inr r"
          "table_became (1 + length bs) sch bs first bp ps ixs b ((heap_contents (pool_page bp) ps)(rid \<mapsto> rec_data r))"
          using i(2) by auto
        have "R rid = None" using stored_none[OF table_inD(3)[OF assms(1)], of rid] r(1) by simp
        moreover have "table_changed (1 + length bs) c name sch first bs bp ps ixs b (R(rid \<mapsto> vs))"
          by (rule table_changedI[OF assms(1) r(3) stored_insert[OF table_inD(3)[OF assms(1)] r(2)]])
        ultimately show ?thesis using len \<open>ConvertValues sch ls = Inr vs\<close> i(1) Inr CV by (auto simp: D)
      qed
    qed
  qed
qed

section \<open>The rows a change is made to\<close>

lemma CollectUpdates_pulls:
  assumes "pulls Op_Next plan bp rs plan' b" "\<forall>r \<in> set rs. \<exists>vs. Deserialize sch r = Inr vs"
  shows "\<exists>st'. CollectUpdates sch col v plan st pend bp =
      Some (plan', st', pend @ map (\<lambda>r. (rec_rid r, (projr (Deserialize sch r))[col := v])) rs, b, Status_OK) \<and> counts_kept st st'"
  using assms
proof (induction arbitrary: st pend rule: pulls.induct)
  case (pulls_end s bp s' b)
  obtain st' where "Op_Next s st bp = Some (s', st', b, None)" "counts_kept st st'" by (rule callsE[OF pulls_end(1)])
  then show ?case by (intro exI[of _ st']) (simp add: CollectUpdates.simps[of sch col v s])
next
  case (pulls_row s bp s1 b1 r rs s' b)
  obtain st1 where n: "Op_Next s st bp = Some (s1, st1, b1, Some (r, rec_rid r))" "counts_kept st st1"
    by (rule callsE[OF pulls_row.hyps(1)])
  obtain vs where vs: "Deserialize sch r = Inr vs" using pulls_row.prems by auto
  let ?pend = "pend @ [(rec_rid r, vs[col := v])]"
  obtain st' where "CollectUpdates sch col v s1 st1 ?pend b1 =
      Some (s', st', ?pend @ map (\<lambda>r. (rec_rid r, (projr (Deserialize sch r))[col := v])) rs, b, Status_OK)" "counts_kept st1 st'"
    using pulls_row.IH[of st1 ?pend] pulls_row.prems by auto
  then show ?case using n vs counts_kept_trans[OF n(2)]
    by (intro exI[of _ st']) (simp add: CollectUpdates.simps[of sch col v s])
qed

lemma CollectRecordIDs_pulls:
  assumes "pulls Op_Next plan bp rs plan' b"
  shows "\<exists>st'. CollectRecordIDs plan st pend bp = Some (plan', st', pend @ map rec_rid rs, b) \<and> counts_kept st st'"
  using assms
proof (induction arbitrary: st pend rule: pulls.induct)
  case (pulls_end s bp s' b)
  obtain st' where "Op_Next s st bp = Some (s', st', b, None)" "counts_kept st st'" by (rule callsE[OF pulls_end(1)])
  then show ?case by (intro exI[of _ st']) (simp add: CollectRecordIDs.simps[of s])
next
  case (pulls_row s bp s1 b1 r rs s' b)
  obtain st1 where n: "Op_Next s st bp = Some (s1, st1, b1, Some (r, rec_rid r))" "counts_kept st st1"
    by (rule callsE[OF pulls_row.hyps(1)])
  obtain st' where "CollectRecordIDs s1 st1 (pend @ [rec_rid r]) b1 = Some (s', st', (pend @ [rec_rid r]) @ map rec_rid rs, b)"
    "counts_kept st1 st'" using pulls_row.IH[of st1 "pend @ [rec_rid r]"] by auto
  then show ?case using n counts_kept_trans[OF n(2)] by (intro exI[of _ st']) (simp add: CollectRecordIDs.simps[of s])
qed

lemma table_rows_finite:
  assumes "table_in c name bp sch first bs ps ixs R"
  shows "finite (query_rids sch R qs)"
proof -
  have "query_rids sch R qs \<subseteq> rec_rid ` set (heap_records (pool_page bp) ps)"
  proof
    fix rid assume "rid \<in> query_rids sch R qs"
    then have "R rid \<noteq> None" by (auto simp: query_rids_def)
    then obtain d where "heap_contents (pool_page bp) ps rid = Some d" using stored_none[OF table_inD(3)[OF assms], of rid] by auto
    then have "Record rid d \<in> set (heap_records (pool_page bp) ps)" by (simp add: heap_records_contents)
    then show "rid \<in> rec_rid ` set (heap_records (pool_page bp) ps)" by force
  qed
  then show ?thesis by (rule finite_subset) simp
qed

text \<open>The rows of an open plan and how its close ends.\<close>

lemma plan_rids:
  assumes "plan_rows sch R qs scan bp s b" "finite (query_rids sch R qs)"
  obtains rs s' b' where "pulls Op_Next s b rs s' b'" "only_reads b b'" "s' \<noteq> NullOperator"
    "distinct (map rec_rid rs)" "set (map rec_rid rs) \<subseteq> query_rids sch R qs" "length rs \<le> card (query_rids sch R qs)"
    "\<forall>r \<in> set rs. \<exists>vs. R (rec_rid r) = Some vs \<and> Deserialize sch r = Inr vs"
    "status_ok (snd (Op_Close s')) \<Longrightarrow> healthy bp \<or> scan = SEQUENTIAL \<Longrightarrow> set (map rec_rid rs) = query_rids sch R qs"
    "\<not> status_ok (snd (Op_Close s')) \<Longrightarrow> \<not> healthy bp"
proof -
  obtain rs s' b' where p: "pulls Op_Next s b rs s' b'" "if status_ok (snd (Op_Close s'))
      then selected sch R (set qs) (healthy bp \<or> scan = SEQUENTIAL) rs
      else selected sch R (set qs) False rs \<and> \<not> healthy bp" using assms by (auto simp: plan_rows_def delivers_def)
  obtain full where sel: "selected sch R (set qs) full rs" using p(2) by (auto split: if_splits)
  note S = selected_rids[OF sel]
  have "length rs = card (set (map rec_rid rs))" using distinct_card[OF S(1)] by simp
  also have "\<dots> \<le> card (query_rids sch R qs)" by (rule card_mono[OF assms(2) S(2)])
  finally show ?thesis
    using that[OF p(1) pulls_only_reads[OF p(1)] pulls_last[OF p(1)] S(1,2)] S(4) p(2) selected_rids(3) by fastforce
qed

section \<open>The column an UPDATE sets\<close>

definition set_column :: "nat \<Rightarrow> field_value \<Rightarrow> record_id set \<Rightarrow> row_map \<Rightarrow> row_map" where
  "set_column i v S R = (\<lambda>rid. if rid \<in> S then map_option (\<lambda>vs. vs[i := v]) (R rid) else R rid)"

definition update_target :: "schema \<Rightarrow> string \<Rightarrow> sql_literal \<Rightarrow> nat \<Rightarrow> field_value \<Rightarrow> bool" where
  "update_target sch cn l i v \<longleftrightarrow> column_at sch cn = Some i \<and> denotes l v \<and> field_ok (sch ! i) v"

lemma set_column_none [simp]: "set_column i v {} R = R"
  by (simp add: set_column_def)

lemma PrepareUpdate_spec:
  assumes "CM_GetTableSchema name c = Inr sch" "literal_ok l"
  shows "case PrepareUpdate c name cn l of
      Inl st \<Rightarrow> \<not> status_ok st \<and> (\<nexists>i v. update_target sch cn l i v)
    | Inr (sch', i, v) \<Rightarrow> sch' = sch \<and> update_target sch cn l i v"
proof (cases "column_at sch cn")
  case None
  then show ?thesis using assms(1) by (simp add: PrepareUpdate_def FindColumn_at update_target_def)
next
  case (Some i)
  note C = ConvertLiteral_exact[OF assms(2), of "sch ! i" True]
  show ?thesis
  proof (cases "ConvertLiteral (sch ! i) l True")
    case (Inl st)
    then have "\<nexists>v. denotes l v \<and> field_ok (sch ! i) v" using C by auto
    then show ?thesis using Inl Some assms(1) ConvertLiteral_error[OF Inl]
      by (simp add: PrepareUpdate_def FindColumn_at update_target_def)
  next
    case (Inr v)
    then show ?thesis using Some assms(1) C[of v] by (simp add: PrepareUpdate_def FindColumn_at update_target_def)
  qed
qed

section \<open>Loops that change a table row by row\<close>

text \<open>The contract both loops share: a step has its effect on the rows or, when it fails, none, unless a
  rollback fails too; the first failure ends the loop.\<close>

locale row_loop =
  fixes step :: "'x \<Rightarrow> pool \<Rightarrow> (pool \<times> status) option"
    and loop :: "'x list \<Rightarrow> query_stats \<Rightarrow> pool \<Rightarrow> (query_stats \<times> pool \<times> status) option"
    and effect :: "'x \<Rightarrow> row_map \<Rightarrow> row_map"
    and c :: catalog and name :: string and sch :: schema and first :: page_id and bs :: "index_binding list"
    and cost :: nat and ctxts :: "string list"
  assumes loop_Nil: "loop [] stats bp = Some (stats, bp, Status_OK)"
    and loop_Cons: "loop (x # xs) stats bp = (case step x bp of
        None \<Rightarrow> None
      | Some (bp, st) \<Rightarrow>
          if \<not> status_ok st then Some (stats, bp, st)
          else loop xs (stats\<lparr>rows_affected := rows_affected stats + 1\<rparr>) bp)"
    and step: "table_in c name bp sch first bs ps ixs R \<Longrightarrow> room cost bp \<Longrightarrow> \<exists>b st. step x bp = Some (b, st) \<and> (if status_ok st
      then table_changed cost c name sch first bs bp ps ixs b (effect x R)
      else table_changed cost c name sch first bs bp ps ixs b R \<or> \<not> healthy bp \<and> rollback_failed ctxts st)"
begin

lemma changes:
  assumes "table_in c name bp sch first bs ps ixs R" "room (length xs * cost) bp"
  shows "\<exists>k st1 b st. loop xs stats bp = Some (st1, b, st) \<and> k \<le> length xs \<and> (status_ok st \<longrightarrow> k = length xs) \<and>
    rows_affected st1 = rows_affected stats + k \<and>
    (table_changed (length xs * cost) c name sch first bs bp ps ixs b (fold effect (take k xs) R) \<or>
     \<not> status_ok st \<and> \<not> healthy bp \<and> rollback_failed ctxts st)"
  using assms
proof (induction xs arbitrary: bp ps ixs R stats)
  case Nil
  have pk: "pool_ok {} bp" using table_inD(4)[OF Nil.prems(1)] by (simp add: hf_state_def)
  show ?case using only_reads_changed[OF Nil.prems(1) only_reads_refl[OF pk]] by (simp add: loop_Nil)
next
  case (Cons x xs)
  have r1: "room cost bp" by (rule room_mono[OF Cons.prems(2)]) simp
  obtain b st where u: "step x bp = Some (b, st)" "if status_ok st
      then table_changed cost c name sch first bs bp ps ixs b (effect x R)
      else table_changed cost c name sch first bs bp ps ixs b R \<or> \<not> healthy bp \<and> rollback_failed ctxts st"
    using step[OF Cons.prems(1) r1] by blast
  show ?case
  proof (cases "status_ok st")
    case False
    have "table_changed cost c name sch first bs bp ps ixs b R \<Longrightarrow> table_changed (length (x # xs) * cost) c name sch first bs bp ps ixs b R"
      by (rule table_changed_mono, assumption, simp only: length_Cons mult_Suc le_add1)
    then show ?thesis using u False by (intro exI[of _ 0] exI[of _ stats] exI[of _ b] exI[of _ st]) (auto simp: loop_Cons)
  next
    case True
    then have ch: "table_changed cost c name sch first bs bp ps ixs b (effect x R)" using u(2) by simp
    obtain ps1 ixs1 where t: "table_in c name b sch first bs ps1 ixs1 (effect x R)"
      "\<And>n d R2. table_changed n c name sch first bs b ps1 ixs1 d R2 \<Longrightarrow> table_changed (cost + n) c name sch first bs bp ps ixs d R2"
      by (rule table_changed_trans[OF ch]) (rule that)
    have "adds cost bp b" using ch by (simp add: table_changed_def)
    then have "room (length xs * cost) b" using room_adds[of cost] Cons.prems(2) by simp
    from Cons.IH[OF t(1) this, of "stats\<lparr>rows_affected := rows_affected stats + 1\<rparr>"] obtain k st1 b2 st2 where i:
      "loop xs (stats\<lparr>rows_affected := rows_affected stats + 1\<rparr>) b = Some (st1, b2, st2)" "k \<le> length xs"
      "status_ok st2 \<longrightarrow> k = length xs" "rows_affected st1 = rows_affected (stats\<lparr>rows_affected := rows_affected stats + 1\<rparr>) + k"
      "table_changed (length xs * cost) c name sch first bs b ps1 ixs1 b2 (fold effect (take k xs) (effect x R)) \<or>
       \<not> status_ok st2 \<and> \<not> healthy b \<and> rollback_failed ctxts st2" by (elim exE conjE) (rule that)
    have "table_changed (length (x # xs) * cost) c name sch first bs bp ps ixs b2 (fold effect (take (Suc k) (x # xs)) R)"
      if "table_changed (length xs * cost) c name sch first bs b ps1 ixs1 b2 (fold effect (take k xs) (effect x R))"
      using t(2)[OF that] by simp
    moreover have "\<not> healthy b \<Longrightarrow> \<not> healthy bp" using table_changed_healthy[OF ch] by blast
    ultimately show ?thesis using u(1) True i
      by (intro exI[of _ "Suc k"] exI[of _ st1] exI[of _ b2] exI[of _ st2]) (auto simp: loop_Cons)
  qed
qed

end

lemma table_in_loaded:
  "table_in c name bp sch first bs ps ixs R \<Longrightarrow> LoadTable \<lparr>ts_bpm = True, ts_catalog = Some c\<rparr> name = Inr (sch, first, bs)"
  by (auto simp: table_in_def table_bindings_def)

interpretation updates: row_loop "\<lambda>(rid, vs). TS_UpdateRecord \<lparr>ts_bpm = True, ts_catalog = Some c\<rparr> name rid vs"
  "ApplyUpdates \<lparr>ts_bpm = True, ts_catalog = Some c\<rparr> name" "\<lambda>(rid, vs) R. R(rid \<mapsto> vs)"
  c name sch first bs "3 * length bs" update_rollbacks
  for c name sch first bs
proof
  fix bp ps ixs R and x :: "record_id \<times> field_value list"
  assume T: "table_in c name bp sch first bs ps ixs R" and r: "room (3 * length bs) bp"
  obtain rid vs where x: "x = (rid, vs)" by (cases x)
  let ?H = "heap_contents (pool_page bp) ps"
  obtain b st where u: "TS_UpdateRecord \<lparr>ts_bpm = True, ts_catalog = Some c\<rparr> name rid vs bp = Some (b, st)" "if status_ok st
      then ?H rid \<noteq> None \<and> (\<exists>r. Serialize sch vs (Some empty_record) = Inr r \<and>
        table_became (3 * length bs) sch bs first bp ps ixs b (?H(rid \<mapsto> rec_data r)))
      else table_became (3 * length bs) sch bs first bp ps ixs b ?H \<or> \<not> healthy bp \<and> rollback_failed update_rollbacks st"
    using update_record_spec[OF table_in_loaded[OF T] table_inD(2)[OF T] r] by blast
  then show "\<exists>b st. (case x of (rid, vs) \<Rightarrow> TS_UpdateRecord \<lparr>ts_bpm = True, ts_catalog = Some c\<rparr> name rid vs) bp = Some (b, st) \<and>
      (if status_ok st then table_changed (3 * length bs) c name sch first bs bp ps ixs b ((case x of (rid, vs) \<Rightarrow> \<lambda>R. R(rid \<mapsto> vs)) R)
       else table_changed (3 * length bs) c name sch first bs bp ps ixs b R \<or> \<not> healthy bp \<and> rollback_failed update_rollbacks st)"
    using table_changed_same[OF T] table_changedI[OF T _ stored_insert[OF table_inD(3)[OF T]]]
    by (intro exI[of _ b] exI[of _ st]) (auto simp: x split: if_splits)
qed (auto split: option.split)

interpretation deletes: row_loop "\<lambda>rid. TS_DeleteRecord \<lparr>ts_bpm = True, ts_catalog = Some c\<rparr> name rid"
  "ApplyDeletes \<lparr>ts_bpm = True, ts_catalog = Some c\<rparr> name" "\<lambda>rid R. R(rid := None)"
  c name sch first bs "length bs" delete_rollbacks
  for c name sch first bs
proof
  fix bp ps ixs R rid
  assume T: "table_in c name bp sch first bs ps ixs R" and r: "room (length bs) bp"
  let ?H = "heap_contents (pool_page bp) ps"
  obtain b st where u: "TS_DeleteRecord \<lparr>ts_bpm = True, ts_catalog = Some c\<rparr> name rid bp = Some (b, st)" "if status_ok st
      then ?H rid \<noteq> None \<and> table_became (length bs) sch bs first bp ps ixs b (?H(rid := None))
      else table_became (length bs) sch bs first bp ps ixs b ?H \<or> \<not> healthy bp \<and> rollback_failed delete_rollbacks st"
    using delete_record_spec[OF table_in_loaded[OF T] table_inD(2)[OF T] r] by blast
  then show "\<exists>b st. TS_DeleteRecord \<lparr>ts_bpm = True, ts_catalog = Some c\<rparr> name rid bp = Some (b, st) \<and>
      (if status_ok st then table_changed (length bs) c name sch first bs bp ps ixs b (R(rid := None))
       else table_changed (length bs) c name sch first bs bp ps ixs b R \<or> \<not> healthy bp \<and> rollback_failed delete_rollbacks st)"
    using table_changed_same[OF T] table_changedI[OF T _ stored_delete[OF table_inD(3)[OF T]]]
    by (intro exI[of _ b] exI[of _ st]) (auto split: if_splits)
qed (auto split: option.split)

section \<open>UPDATE and DELETE\<close>

text \<open>The changes made, as a change of one column.\<close>

lemma fold_updates: "fold (\<lambda>(x, y) R. R(x \<mapsto> y)) (map (\<lambda>x. (x, f x)) xs) R = (\<lambda>x. if x \<in> set xs then Some (f x) else R x)"
  by (induction xs arbitrary: R) (auto simp: fun_eq_iff)

lemma fold_deletes: "fold (\<lambda>x R. R(x := None)) xs R = R |` (- set xs)"
  by (induction xs arbitrary: R) (auto simp: restrict_map_def fun_eq_iff)

lemma set_column_rows:
  assumes "\<forall>r \<in> set rs. \<exists>vs. R (rec_rid r) = Some vs \<and> Deserialize sch r = Inr vs"
  shows "fold (\<lambda>(x, y) R. R(x \<mapsto> y)) (take k (map (\<lambda>r. (rec_rid r, (projr (Deserialize sch r))[i := v])) rs)) R =
    set_column i v (set (take k (map rec_rid rs))) R"
proof -
  have "(rec_rid r, (projr (Deserialize sch r))[i := v]) = (\<lambda>x. (x, (the (R x))[i := v])) (rec_rid r)" if "r \<in> set rs" for r
    using assms that by force
  then have "map (\<lambda>r. (rec_rid r, (projr (Deserialize sch r))[i := v])) rs = map (\<lambda>x. (x, (the (R x))[i := v])) (map rec_rid rs)" by simp
  then have e: "take k (map (\<lambda>r. (rec_rid r, (projr (Deserialize sch r))[i := v])) rs) =
      map (\<lambda>x. (x, (the (R x))[i := v])) (take k (map rec_rid rs))" by (simp only: take_map)
  show ?thesis
  proof (rule ext)
    fix x
    show "fold (\<lambda>(x, y) R. R(x \<mapsto> y)) (take k (map (\<lambda>r. (rec_rid r, (projr (Deserialize sch r))[i := v])) rs)) R x =
        set_column i v (set (take k (map rec_rid rs))) R x"
    proof (cases "x \<in> set (take k (map rec_rid rs))")
      case True
      then obtain vs where "R x = Some vs" using in_set_takeD[OF True] assms by auto
      then show ?thesis unfolding e fold_updates using True by (simp add: set_column_def)
    next
      case False
      then show ?thesis unfolding e fold_updates by (simp add: set_column_def)
    qed
  qed
qed

text \<open>What a change of the rows \<open>S\<close> of a query leaves, and when.\<close>

definition change_done ::
  "nat \<Rightarrow> catalog \<Rightarrow> string \<Rightarrow> schema \<Rightarrow> page_id \<Rightarrow> index_binding list \<Rightarrow> pool \<Rightarrow> page_id list \<Rightarrow> index_objects \<Rightarrow> row_map \<Rightarrow>
   condition list \<Rightarrow> (record_id set \<Rightarrow> row_map) \<Rightarrow> string list \<Rightarrow> query_stats \<Rightarrow> query_stats \<Rightarrow> pool \<Rightarrow> status \<Rightarrow> bool" where
  "change_done n c name sch first bs bp ps ixs R qs change ctxts stats st1 b st \<longleftrightarrow> (\<exists>S. S \<subseteq> query_rids sch R qs \<and>
     rows_affected st1 = rows_affected stats + card S \<and>
     (status_ok st \<longrightarrow> healthy bp \<or> scan_used c name qs = SEQUENTIAL \<longrightarrow> S = query_rids sch R qs) \<and>
     (table_changed n c name sch first bs bp ps ixs b (change S) \<or> \<not> status_ok st \<and> \<not> healthy bp \<and> rollback_failed ctxts st))"

lemma change_rejected:
  assumes "table_in c name bp sch first bs ps ixs R" "only_reads bp b" "\<not> status_ok st" "change {} = R"
    "rows_affected st1 = rows_affected stats"
  shows "change_done n c name sch first bs bp ps ixs R qs change ctxts stats st1 b st"
  unfolding change_done_def
  by (rule exI[of _ "{}"]) (use assms only_reads_changed[OF assms(1,2)] in simp)

lemma ExecuteUpdate_spec:
  assumes "table_in c name bp sch first bs ps ixs R" "list_all (\<lambda>q. literal_ok (cond_value q)) qs" "literal_ok l"
    "room (card (query_rids sch R qs) * (3 * length bs)) bp"
  shows "\<exists>st1 b st i v. ExecuteUpdate c name cn l qs stats bp = Some (st1, b, st) \<and>
    (update_target sch cn l i v \<or> \<not> status_ok st \<and> rows_affected st1 = rows_affected stats) \<and>
    change_done (card (query_rids sch R qs) * (3 * length bs)) c name sch first bs bp ps ixs R qs
      (\<lambda>S. set_column i v S R) update_rollbacks stats st1 b st"
proof -
  let ?N = "card (query_rids sch R qs) * (3 * length bs)"
  have lits: "\<forall>q \<in> set qs. literal_ok (cond_value q)" using assms(2) by (simp add: list_all_iff)
  have pk: "pool_ok {} bp" using table_inD(4)[OF assms(1)] by (simp add: hf_state_def)
  note fin = table_rows_finite[OF assms(1), of qs] and rr = only_reads_refl[OF pk]
  have B: "LoadTable \<lparr>ts_bpm = True, ts_catalog = Some c\<rparr> name = Inr (sch, first, bs)" "CM_GetTableSchema name c = Inr sch"
    using table_inD(1)[OF assms(1)] by (auto simp: table_bindings_def cat_ready_def CM_GetTableSchema_def)
  have fails: ?thesis if "ExecuteUpdate c name cn l qs stats bp = Some (st1, b, st)" "\<not> status_ok st" "only_reads bp b"
    "rows_affected st1 = rows_affected stats" for st1 b st
    using that change_rejected[OF assms(1) that(3,2) _ that(4)] by fastforce
  obtain res st1 where bpl: "BuildPlan c name [] qs stats = Some (st1, res)" "case res of
      Inl st \<Rightarrow> st1 = stats \<and> \<not> status_ok st \<and> rejected c name sch qs
    | Inr (plan, out) \<Rightarrow> st1 = stats\<lparr>plan_scan_type := scan_used c name qs\<rparr> \<and> out = sch \<and> plan \<noteq> NullOperator \<and>
        (\<exists>s b st. Op_Open plan bp = Some (s, b, st) \<and> only_reads bp b \<and>
          (if status_ok st then list_all (cond_valid sch) qs \<and> plan_rows sch R qs (scan_used c name qs) bp s b
           else rejected c name sch qs \<or> \<not> healthy bp))"
    using where_plan[OF assms(1) lits, of stats] by blast
  show ?thesis
  proof (cases res)
    case (Inl e)
    then show ?thesis using bpl rr by (intro fails[of stats bp e]) (simp_all add: ExecuteUpdate_def)
  next
    case (Inr po)
    then obtain plan where r: "res = Inr (plan, sch)" using bpl(2) by (cases po) auto
    obtain s b st where o: "rows_affected st1 = rows_affected stats" "plan \<noteq> NullOperator" "Op_Open plan bp = Some (s, b, st)" "only_reads bp b"
      "if status_ok st then list_all (cond_valid sch) qs \<and> plan_rows sch R qs (scan_used c name qs) bp s b
       else rejected c name sch qs \<or> \<not> healthy bp" using bpl(2) unfolding r sum.case prod.case by fastforce
    note D = ExecuteUpdate_def bpl(1) r o(3)
    show ?thesis
    proof (cases "status_ok st")
      case False
      then show ?thesis using o by (intro fails[of st1 b st]) (simp_all add: D)
    next
      case ok: True
      note P = PrepareUpdate_spec[OF B(2) assms(3), of cn]
      have pr: "plan_rows sch R qs (scan_used c name qs) bp s b" using o(5) ok by simp
      obtain rs s' b' where q: "pulls Op_Next s b rs s' b'" "only_reads b b'" "s' \<noteq> NullOperator"
        "distinct (map rec_rid rs)" "set (map rec_rid rs) \<subseteq> query_rids sch R qs" "length rs \<le> card (query_rids sch R qs)"
        "\<forall>r \<in> set rs. \<exists>vs. R (rec_rid r) = Some vs \<and> Deserialize sch r = Inr vs"
        "status_ok (snd (Op_Close s')) \<Longrightarrow> healthy bp \<or> scan_used c name qs = SEQUENTIAL \<Longrightarrow> set (map rec_rid rs) = query_rids sch R qs"
        "\<not> status_ok (snd (Op_Close s')) \<Longrightarrow> \<not> healthy bp"
        by (rule plan_rids[OF pr fin]) (rule that)
      have ro: "only_reads bp b'" by (rule only_reads_trans[OF o(4) q(2)])
      show ?thesis
      proof (cases "PrepareUpdate c name cn l")
        case (Inl e)
        then show ?thesis using P o(1,4) ok by (intro fails[of st1 b e]) (simp_all add: D ClosePlan_def)
      next
        case (Inr x)
        then obtain i v where x: "PrepareUpdate c name cn l = Inr (sch, i, v)" "update_target sch cn l i v" using P by (cases x) auto
        let ?pend = "map (\<lambda>r. (rec_rid r, (projr (Deserialize sch r))[i := v])) rs"
        have "\<forall>r \<in> set rs. \<exists>vs. Deserialize sch r = Inr vs" using q(7) by blast
        from CollectUpdates_pulls[OF q(1) this, of i v st1 "[]"] obtain st2 where
          c: "CollectUpdates sch i v s st1 [] b = Some (s', st2, ?pend, b', Status_OK)" "rows_affected st2 = rows_affected stats"
          using o(1) by (auto simp: counts_kept_def)
        have cl: "ClosePlan s' Status_OK = snd (Op_Close s')" using q(3) by (simp add: ClosePlan_def)
        note D2 = D ok x(1) c(1) cl
        show ?thesis
        proof (cases "status_ok (snd (Op_Close s'))")
          case False
          then show ?thesis using c(2) ro by (intro fails[of st2 b' "snd (Op_Close s')"]) (simp_all add: D2)
        next
          case True
          let ?ts = "\<lparr>ts_bpm = True, ts_catalog = Some c\<rparr>"
          have T: "table_in c name b' sch first bs ps ixs R" by (rule table_in_read[OF assms(1) ro])
          have le: "length ?pend * (3 * length bs) \<le> ?N" using q(6) by simp
          have "room (length ?pend * (3 * length bs)) b'"
            using room_mono[OF assms(4) le] ro by (auto simp: only_reads_def intro: room_read)
          from updates.changes[OF T this, of st2] obtain k st3 b3 st4 where a:
            "ApplyUpdates ?ts name ?pend st2 b' = Some (st3, b3, st4)" "k \<le> length ?pend" "status_ok st4 \<longrightarrow> k = length ?pend"
            "rows_affected st3 = rows_affected st2 + k"
            "table_changed (length ?pend * (3 * length bs)) c name sch first bs b' ps ixs b3 (fold (\<lambda>(x, y) R. R(x \<mapsto> y)) (take k ?pend) R) \<or>
             \<not> status_ok st4 \<and> \<not> healthy b' \<and> rollback_failed update_rollbacks st4" by (elim exE conjE) (rule that)
          let ?S = "set (take k (map rec_rid rs))"
          have ex: "ExecuteUpdate c name cn l qs stats bp = Some (st3, b3, st4)" using True a(1) by (simp add: D2)
          have "?S \<subseteq> query_rids sch R qs" using q(5) set_take_subset by fast
          moreover have "card ?S = k" using a(2) distinct_card[OF distinct_take[OF q(4)], of k] by simp
          moreover have "?S = query_rids sch R qs" if "status_ok st4" "healthy bp \<or> scan_used c name qs = SEQUENTIAL"
            using a(3) that q(8)[OF True] by simp
          moreover have "table_changed ?N c name sch first bs bp ps ixs b3 (set_column i v ?S R) \<or>
              \<not> status_ok st4 \<and> \<not> healthy bp \<and> rollback_failed update_rollbacks st4"
            using a(5) unfolding set_column_rows[OF q(7)]
            using table_changed_read[OF ro table_changed_mono[OF _ le]] only_reads_healthy[OF ro] by blast
          ultimately have "change_done ?N c name sch first bs bp ps ixs R qs (\<lambda>S. set_column i v S R) update_rollbacks stats st3 b3 st4"
            unfolding change_done_def by (intro exI[of _ ?S]) (use a(4) c(2) in simp)
          then show ?thesis using ex x(2) by blast
        qed
      qed
    qed
  qed
qed

lemma ExecuteDelete_spec:
  assumes "table_in c name bp sch first bs ps ixs R" "list_all (\<lambda>q. literal_ok (cond_value q)) qs"
    "room (card (query_rids sch R qs) * length bs) bp"
  shows "\<exists>st1 b st. ExecuteDelete c name qs stats bp = Some (st1, b, st) \<and>
    change_done (card (query_rids sch R qs) * length bs) c name sch first bs bp ps ixs R qs
      (\<lambda>S. R |` (- S)) delete_rollbacks stats st1 b st"
proof -
  let ?N = "card (query_rids sch R qs) * length bs"
  have lits: "\<forall>q \<in> set qs. literal_ok (cond_value q)" using assms(2) by (simp add: list_all_iff)
  have pk: "pool_ok {} bp" using table_inD(4)[OF assms(1)] by (simp add: hf_state_def)
  note fin = table_rows_finite[OF assms(1), of qs] and rr = only_reads_refl[OF pk]
  have fails: ?thesis if "ExecuteDelete c name qs stats bp = Some (st1, b, st)" "\<not> status_ok st" "only_reads bp b"
    "rows_affected st1 = rows_affected stats" for st1 b st
    using that change_rejected[OF assms(1) that(3,2) _ that(4), of "\<lambda>S. R |` (- S)"] by (simp add: restrict_map_def)
  obtain res st1 where bpl: "BuildPlan c name [] qs stats = Some (st1, res)" "case res of
      Inl st \<Rightarrow> st1 = stats \<and> \<not> status_ok st \<and> rejected c name sch qs
    | Inr (plan, out) \<Rightarrow> st1 = stats\<lparr>plan_scan_type := scan_used c name qs\<rparr> \<and> out = sch \<and> plan \<noteq> NullOperator \<and>
        (\<exists>s b st. Op_Open plan bp = Some (s, b, st) \<and> only_reads bp b \<and>
          (if status_ok st then list_all (cond_valid sch) qs \<and> plan_rows sch R qs (scan_used c name qs) bp s b
           else rejected c name sch qs \<or> \<not> healthy bp))"
    using where_plan[OF assms(1) lits, of stats] by blast
  show ?thesis
  proof (cases res)
    case (Inl e)
    then show ?thesis using bpl rr by (intro fails[of stats bp e]) (simp_all add: ExecuteDelete_def)
  next
    case (Inr po)
    then obtain plan where r: "res = Inr (plan, sch)" using bpl(2) by (cases po) auto
    obtain s b st where o: "rows_affected st1 = rows_affected stats" "plan \<noteq> NullOperator" "Op_Open plan bp = Some (s, b, st)" "only_reads bp b"
      "if status_ok st then list_all (cond_valid sch) qs \<and> plan_rows sch R qs (scan_used c name qs) bp s b
       else rejected c name sch qs \<or> \<not> healthy bp" using bpl(2) unfolding r sum.case prod.case by fastforce
    note D = ExecuteDelete_def bpl(1) r o(3)
    show ?thesis
    proof (cases "status_ok st")
      case False
      then show ?thesis using o by (intro fails[of st1 b st]) (simp_all add: D)
    next
      case ok: True
      have pr: "plan_rows sch R qs (scan_used c name qs) bp s b" using o(5) ok by simp
      obtain rs s' b' where q: "pulls Op_Next s b rs s' b'" "only_reads b b'" "s' \<noteq> NullOperator"
        "distinct (map rec_rid rs)" "set (map rec_rid rs) \<subseteq> query_rids sch R qs" "length rs \<le> card (query_rids sch R qs)"
        "\<forall>r \<in> set rs. \<exists>vs. R (rec_rid r) = Some vs \<and> Deserialize sch r = Inr vs"
        "status_ok (snd (Op_Close s')) \<Longrightarrow> healthy bp \<or> scan_used c name qs = SEQUENTIAL \<Longrightarrow> set (map rec_rid rs) = query_rids sch R qs"
        "\<not> status_ok (snd (Op_Close s')) \<Longrightarrow> \<not> healthy bp"
        by (rule plan_rids[OF pr fin]) (rule that)
      have ro: "only_reads bp b'" by (rule only_reads_trans[OF o(4) q(2)])
      let ?pend = "map rec_rid rs"
      from CollectRecordIDs_pulls[OF q(1), of st1 "[]"] obtain st2 where
        c: "CollectRecordIDs s st1 [] b = Some (s', st2, ?pend, b')" "rows_affected st2 = rows_affected stats"
        using o(1) by (auto simp: counts_kept_def)
      have cl: "ClosePlan s' st = snd (Op_Close s')" using q(3) ok by (simp add: ClosePlan_def)
      note D2 = D ok c(1) cl
      show ?thesis
      proof (cases "status_ok (snd (Op_Close s'))")
        case False
        then show ?thesis using c(2) ro by (intro fails[of st2 b' "snd (Op_Close s')"]) (simp_all add: D2)
      next
        case True
        have T: "table_in c name b' sch first bs ps ixs R" by (rule table_in_read[OF assms(1) ro])
        have le: "length ?pend * length bs \<le> ?N" using q(6) by simp
        have "room (length ?pend * length bs) b'"
          using room_mono[OF assms(3) le] ro by (auto simp: only_reads_def intro: room_read)
        from deletes.changes[OF T this, of st2] obtain k st3 b3 st4 where a:
          "ApplyDeletes \<lparr>ts_bpm = True, ts_catalog = Some c\<rparr> name ?pend st2 b' = Some (st3, b3, st4)" "k \<le> length ?pend"
          "status_ok st4 \<longrightarrow> k = length ?pend" "rows_affected st3 = rows_affected st2 + k"
          "table_changed (length ?pend * length bs) c name sch first bs b' ps ixs b3 (fold (\<lambda>x R. R(x := None)) (take k ?pend) R) \<or>
           \<not> status_ok st4 \<and> \<not> healthy b' \<and> rollback_failed delete_rollbacks st4" by (elim exE conjE) (rule that)
        let ?S = "set (take k ?pend)"
        have ex: "ExecuteDelete c name qs stats bp = Some (st3, b3, st4)" using True a(1) by (simp add: D2)
        have "?S \<subseteq> query_rids sch R qs" using q(5) set_take_subset by fast
        moreover have "card ?S = k" using a(2) distinct_card[OF distinct_take[OF q(4)], of k] by simp
        moreover have "?S = query_rids sch R qs" if "status_ok st4" "healthy bp \<or> scan_used c name qs = SEQUENTIAL"
          using a(3) that q(8)[OF True] by simp
        moreover have "table_changed ?N c name sch first bs bp ps ixs b3 (R |` (- ?S)) \<or>
            \<not> status_ok st4 \<and> \<not> healthy bp \<and> rollback_failed delete_rollbacks st4"
          using a(5) unfolding fold_deletes
          using table_changed_read[OF ro table_changed_mono[OF _ le]] only_reads_healthy[OF ro] by blast
        ultimately have "change_done ?N c name sch first bs bp ps ixs R qs (\<lambda>S. R |` (- S)) delete_rollbacks stats st3 b3 st4"
          unfolding change_done_def by (intro exI[of _ ?S]) (use a(4) c(2) in simp)
        then show ?thesis using ex by blast
      qed
    qed
  qed
qed

end
