(* ===== verification/Database_State.thy ===== *)
theory Database_State
  imports Change_Correct
begin

text \<open>
  The database as a whole: every table of the catalog on pages of its own. A statement that changes one
  table, or makes a new object on unused pages, leaves the others as they are.
\<close>

section \<open>What the catalog and the pool represent\<close>

type_synonym database = "string \<Rightarrow> (schema \<times> row_map) option"

type_synonym page_layout = "string \<Rightarrow> page_id list \<times> index_objects"

definition pages_of :: "page_layout \<Rightarrow> string \<Rightarrow> page_id list" where
  "pages_of P name = tbl_pages (fst (P name)) (snd (P name))"

definition table_at :: "catalog \<Rightarrow> pool \<Rightarrow> page_layout \<Rightarrow> string \<Rightarrow> schema \<Rightarrow> row_map \<Rightarrow> bool" where
  "table_at c bp P name sch R \<longleftrightarrow> (\<exists>first bs. table_in c name bp sch first bs (fst (P name)) (snd (P name)) R)"

definition db_on :: "catalog \<Rightarrow> pool \<Rightarrow> page_layout \<Rightarrow> database \<Rightarrow> bool" where
  "db_on c bp P D \<longleftrightarrow> cat_ready c \<and> has_bpm c \<and> pool_ok {} bp \<and> dom D = dom (map_of (cat_tables c)) \<and>
     (\<forall>name sch R. D name = Some (sch, R) \<longrightarrow> table_at c bp P name sch R) \<and>
     (\<forall>n m. D n \<noteq> None \<longrightarrow> D m \<noteq> None \<longrightarrow> n \<noteq> m \<longrightarrow> set (pages_of P n) \<inter> set (pages_of P m) = {})"

definition represents :: "catalog \<Rightarrow> pool \<Rightarrow> database \<Rightarrow> bool" where
  "represents c bp D \<longleftrightarrow> (\<exists>P. db_on c bp P D)"

section \<open>Frames\<close>

lemma table_state_used:
  assumes "tbl_state bp first ps ixs" "q \<in> set (tbl_pages ps ixs)"
  shows "1 \<le> q \<and> \<not> unused q bp"
proof (cases "q \<in> set ps")
  case True
  have "hf_state bp first ps" using assms(1) by (simp add: tbl_state_def)
  from heap_object.st_used[OF this True] show ?thesis .
next
  case False
  then obtain h bk where x: "(h, bk) \<in> set ixs" "q \<in> set (hi_pages h bk)"
    using assms(2) by (auto simp: tbl_pages_def index_pages_def)
  then have "hi_state bp h bk" using assms(1) by (auto simp: tbl_state_def list_all_iff)
  from hash_object.st_used[OF this x(2)] show ?thesis .
qed

lemma table_state_frame:
  assumes "tbl_state bp first ps ixs" "pool_ok {} b" "outside_kept qs bp b" "set qs \<inter> set (tbl_pages ps ixs) = {}"
  shows "tbl_state b first ps ixs" "heap_contents (pool_page b) ps = heap_contents (pool_page bp) ps" "ix_sets b ixs = ix_sets bp ixs"
proof -
  have H: "hf_state bp first ps" "list_all (\<lambda>(hid, bk). hi_state bp hid bk) ixs" using assms(1) by (simp_all add: tbl_state_def)
  have d: "set qs \<inter> set ps = {}" "set qs \<inter> set (index_pages ixs) = {}" using assms(4) by (auto simp: tbl_pages_def)
  note h = heap_object.frame[OF H(1) assms(2,3) d(1)] and i = indexes_framed[OF H(2) assms(2,3) d(2)]
  show "tbl_state b first ps ixs" using h i assms(1) by (simp add: tbl_state_def)
  show "heap_contents (pool_page b) ps = heap_contents (pool_page bp) ps" using h by simp
  show "ix_sets b ixs = ix_sets bp ixs" using i by simp
qed

lemma table_in_state: "table_in c name bp sch first bs ps ixs R \<Longrightarrow> tbl_state bp first ps ixs"
  by (simp add: table_in_def table_ok_def)

lemma table_in_frame:
  assumes "table_in c name bp sch first bs ps ixs R" "pool_ok {} b" "outside_kept qs bp b" "set qs \<inter> set (tbl_pages ps ixs) = {}"
  shows "table_in c name b sch first bs ps ixs R"
  using assms(1) table_state_frame[OF table_in_state[OF assms(1)] assms(2-4)] by (simp add: table_in_def table_ok_def)

lemma apart_after:
  assumes "tbl_state bp first ps ixs" "grows qs qs' bp" "set qs \<inter> set (tbl_pages ps ixs) = {}"
  shows "set qs' \<inter> set (tbl_pages ps ixs) = {}"
proof -
  have "q \<notin> set (tbl_pages ps ixs)" if "q \<in> set qs'" for q
    using assms(2,3) that table_state_used[OF assms(1), of q] by (cases "q \<in> set qs") (auto simp: grows_def)
  then show ?thesis by blast
qed

section \<open>Changes of one table\<close>

lemma db_tableE:
  assumes "db_on c bp P D" "D name = Some (sch, R)"
  obtains first bs where "table_in c name bp sch first bs (fst (P name)) (snd (P name)) R"
  using assms unfolding db_on_def table_at_def by blast

lemma db_dom: "db_on c bp P D \<Longrightarrow> D name = None \<longleftrightarrow> map_of (cat_tables c) name = None"
  unfolding db_on_def by (metis domIff)

lemma db_frame:
  assumes "db_on c bp P D" "pool_ok {} b" "outside_kept qs bp b" "\<And>n. D n \<noteq> None \<Longrightarrow> set qs \<inter> set (pages_of P n) = {}"
  shows "db_on c b P D"
proof -
  have "table_at c b P n sch R" if n: "D n = Some (sch, R)" for n sch R
  proof -
    obtain first bs where t: "table_in c n bp sch first bs (fst (P n)) (snd (P n)) R" by (rule db_tableE[OF assms(1) n])
    from table_in_frame[OF t assms(2,3)] show ?thesis using assms(4)[of n] n by (auto simp: table_at_def pages_of_def)
  qed
  then show ?thesis using assms(1,2) by (simp add: db_on_def)
qed

lemma db_reads: "db_on c bp P D \<Longrightarrow> only_reads bp b \<Longrightarrow> db_on c b P D"
  by (rule db_frame[of c bp P D b "[]"]) (auto simp: only_reads_def read_only_def intro: outside_kept_same)

lemma table_changed_ok: "table_changed n c name sch first bs bp ps ixs b R' \<Longrightarrow> pool_ok {} b"
  using table_inD(4) by (fastforce simp: table_changed_def hf_state_def)

text \<open>One table has come to be on pages of its own, its old ones or unused ones, and the rest is kept.\<close>

lemma db_update:
  assumes "db_on c bp P D" "outside_kept old bp b" "grows old (tbl_pages ps' ixs') bp"
    "\<And>m. D m \<noteq> None \<Longrightarrow> m \<noteq> name \<Longrightarrow> set old \<inter> set (pages_of P m) = {}"
    "table_in c' name b sch first bs ps' ixs' R'" "has_bpm c'" "dom (map_of (cat_tables c')) = insert name (dom D)"
    "\<And>m sch first bs. D m \<noteq> None \<Longrightarrow> m \<noteq> name \<Longrightarrow> table_bindings c m sch first bs \<Longrightarrow> table_bindings c' m sch first bs"
  shows "represents c' b (D(name \<mapsto> (sch, R')))"
proof -
  let ?P = "P(name := (ps', ixs'))" and ?D = "D(name \<mapsto> (sch, R'))"
  have ok: "pool_ok {} b" using table_inD(4)[OF assms(5)] by (simp add: hf_state_def)
  have same: "pages_of ?P m = pages_of P m" if "m \<noteq> name" for m using that by (simp add: pages_of_def)
  have new: "pages_of ?P name = tbl_pages ps' ixs'" by (simp add: pages_of_def)
  have at: "table_at c' b ?P m s R" if "?D m = Some (s, R)" for m s R
  proof (cases "m = name")
    case True
    then show ?thesis using that assms(5) by (auto simp: table_at_def)
  next
    case False
    then have d: "D m = Some (s, R)" using that by simp
    obtain f bs where tm: "table_in c m bp s f bs (fst (P m)) (snd (P m)) R" by (rule db_tableE[OF assms(1) d])
    have "table_in c m b s f bs (fst (P m)) (snd (P m)) R"
      by (rule table_in_frame[OF tm ok assms(2)]) (use assms(4)[of m] d False in \<open>simp add: pages_of_def\<close>)
    then show ?thesis using assms(8)[of m s f bs] d False by (auto simp: table_at_def table_in_def)
  qed
  have away: "set (tbl_pages ps' ixs') \<inter> set (pages_of P m) = {}" if m: "D m \<noteq> None" "m \<noteq> name" for m
  proof -
    obtain s R where d: "D m = Some (s, R)" using m(1) by auto
    obtain f bs where tm: "table_in c m bp s f bs (fst (P m)) (snd (P m)) R" by (rule db_tableE[OF assms(1) d])
    from apart_after[OF table_in_state[OF tm] assms(3)] assms(4)[OF m] show ?thesis by (simp add: pages_of_def)
  qed
  have apart: "set (pages_of ?P n) \<inter> set (pages_of ?P m) = {}" if n: "?D n \<noteq> None" "?D m \<noteq> None" "n \<noteq> m" for n m
  proof -
    have old: "D n \<noteq> None \<Longrightarrow> D m \<noteq> None \<Longrightarrow> set (pages_of P n) \<inter> set (pages_of P m) = {}"
      using assms(1) n(3) unfolding db_on_def by blast
    consider "n = name" "m \<noteq> name" | "m = name" "n \<noteq> name" | "n \<noteq> name" "m \<noteq> name" using n(3) by blast
    then show ?thesis
    proof cases
      case 1
      then show ?thesis using away[of m] n(2) same new by auto
    next
      case 2
      then show ?thesis using away[of n] n(1) same new by auto
    next
      case 3
      then show ?thesis using old n(1,2) same by simp
    qed
  qed
  have "cat_ready c'" using table_inD(1)[OF assms(5)] by (simp add: table_bindings_def)
  moreover have "dom ?D = dom (map_of (cat_tables c'))" using assms(7) by simp
  ultimately have "db_on c' b ?P ?D" unfolding db_on_def using assms(6) ok at apart by blast
  then show ?thesis unfolding represents_def by blast
qed

lemma db_change:
  assumes "db_on c bp P D" "D name = Some (sch, R)" "table_changed n c name sch first bs bp (fst (P name)) (snd (P name)) b R'"
  shows "represents c b (D(name \<mapsto> (sch, R')))"
proof -
  obtain ps' ixs' where t: "table_in c name b sch first bs ps' ixs' R'" "grows (pages_of P name) (tbl_pages ps' ixs') bp"
    "outside_kept (pages_of P name) bp b" using assms(3) by (auto simp: table_changed_def pages_of_def)
  have d: "dom (map_of (cat_tables c)) = insert name (dom D)" "has_bpm c" using assms(1,2) by (auto simp: db_on_def)
  show ?thesis
  proof (rule db_update[OF assms(1) t(3,2) _ t(1) d(2,1)])
    show "set (pages_of P name) \<inter> set (pages_of P m) = {}" if "D m \<noteq> None" "m \<noteq> name" for m
      using assms(1,2) that unfolding db_on_def by blast
  qed
qed

end
