(* ===== verification/Create_Table_Correct.thy ===== *)
theory Create_Table_Correct
  imports Database_State
begin

text \<open>
  CREATE TABLE: the schema its column definitions denote, and the new table in the database.
\<close>

section \<open>Column definitions\<close>

definition type_named :: "type_id \<Rightarrow> string \<Rightarrow> bool" where
  "type_named t n \<longleftrightarrow> map toupper n \<in> (case t of
     INTEGER \<Rightarrow> {''INT'', ''INTEGER''} | VARCHAR \<Rightarrow> {''CHAR'', ''VARCHAR''} | BOOLEAN \<Rightarrow> {''BOOLEAN'', ''BOOL''})"

definition column_denoted :: "column_definition \<Rightarrow> column \<Rightarrow> bool" where
  "column_denoted d col \<longleftrightarrow> col_name col = def_name d \<and> type_named (col_type col) (def_type_name d) \<and>
     col_length col = (case col_type col of
       INTEGER \<Rightarrow> 4 | BOOLEAN \<Rightarrow> 1 | VARCHAR \<Rightarrow> if def_length d = 0 then 30 else def_length d)"

definition schema_denoted :: "column_definition list \<Rightarrow> schema \<Rightarrow> bool" where
  "schema_denoted ds sch \<longleftrightarrow> list_all2 column_denoted ds sch \<and> distinct (map def_name ds) \<and> [] \<notin> set (map def_name ds)"

lemma ConvertColumnType_spec:
  "case ConvertColumnType n len of
     Inl st \<Rightarrow> \<not> status_ok st \<and> (\<nexists>t. type_named t n)
   | Inr (t, l) \<Rightarrow> type_named t n \<and> l = (case t of INTEGER \<Rightarrow> 4 | BOOLEAN \<Rightarrow> 1 | VARCHAR \<Rightarrow> if len = 0 then 30 else len)"
  by (auto simp: ConvertColumnType_def type_named_def Let_def split: type_id.splits)

lemma ConvertColumn_spec:
  "case ConvertColumn d cols of
     Inl st \<Rightarrow> \<not> status_ok st \<and> (def_name d = [] \<or> def_name d \<in> set (map col_name cols) \<or> (\<nexists>col. column_denoted d col))
   | Inr cols' \<Rightarrow> def_name d \<noteq> [] \<and> def_name d \<notin> set (map col_name cols) \<and> (\<exists>col. cols' = cols @ [col] \<and> column_denoted d col)"
  using ConvertColumnType_spec[of "def_type_name d" "def_length d"]
  by (auto simp: ConvertColumn_def column_denoted_def split: sum.splits)

lemma column_denoted_name: "list_all2 column_denoted ds sch \<Longrightarrow> map col_name sch = map def_name ds"
  by (induction rule: list_all2_induct) (auto simp: column_denoted_def)

lemma ConvertColumns_spec:
  "case for_each ConvertColumn ds [] of
     Inl st \<Rightarrow> \<not> status_ok st \<and> (\<nexists>sch. schema_denoted ds sch)
   | Inr sch \<Rightarrow> schema_denoted ds sch"
proof -
  have "case for_each ConvertColumn ds cols of
      Inl st \<Rightarrow> \<not> status_ok st \<and> (\<nexists>sch. list_all2 column_denoted ds sch \<and> distinct (map col_name cols @ map def_name ds) \<and> [] \<notin> set (map def_name ds))
    | Inr cols' \<Rightarrow> \<exists>sch. cols' = cols @ sch \<and> list_all2 column_denoted ds sch \<and> distinct (map col_name cols @ map def_name ds) \<and>
        [] \<notin> set (map def_name ds)" if "distinct (map col_name cols)" for cols
    using that
  proof (induction ds arbitrary: cols)
    case (Cons d ds)
    note C = ConvertColumn_spec[of d cols]
    show ?case
    proof (cases "ConvertColumn d cols")
      case (Inl st)
      then show ?thesis using C by (auto simp: list_all2_Cons1)
    next
      case (Inr cols')
      then obtain col where c: "cols' = cols @ [col]" "column_denoted d col" "def_name d \<noteq> []" "def_name d \<notin> set (map col_name cols)"
        using C by auto
      have n: "col_name col = def_name d" using c(2) by (simp add: column_denoted_def)
      then have "distinct (map col_name cols')" using c Cons.prems by simp
      from Cons.IH[OF this] show ?thesis using Inr c n by (auto simp: list_all2_Cons1 split: sum.splits)
    qed
  qed simp
  from this[of "[]"] show ?thesis by (auto simp: schema_denoted_def split: sum.splits)
qed

lemma schema_storable:
  assumes "schema_denoted ds sch" "list_all (\<lambda>d. def_length d < 4294967296) ds"
  shows "list_all column_storable sch" "length sch = length ds"
proof -
  have l: "list_all2 column_denoted ds sch" "[] \<notin> set (map def_name ds)" using assms(1) by (simp_all add: schema_denoted_def)
  then show "length sch = length ds" by (simp add: list_all2_lengthD)
  have "column_storable (sch ! i)" if i: "i < length sch" for i
  proof -
    have j: "i < length ds" using i l(1) by (simp add: list_all2_lengthD)
    have "def_name (ds ! i) \<in> set (map def_name ds)" using nth_mem[OF j] by simp
    then have "def_name (ds ! i) \<noteq> []" using l(2) by metis
    moreover have "column_denoted (ds ! i) (sch ! i)" "def_length (ds ! i) < 4294967296"
      using list_all2_nthD[OF l(1) j] assms(2) j by (simp_all add: list_all_length)
    ultimately show ?thesis by (auto simp: column_denoted_def column_storable_def split: type_id.splits if_splits)
  qed
  then show "list_all column_storable sch" by (simp add: list_all_length)
qed

section \<open>The catalog with one more table\<close>

lemma LoadTable_cong:
  assumes "map_of (cat_tables c') m = map_of (cat_tables c) m" "cat_indexes c' = cat_indexes c"
    "initialization_status c' = initialization_status c"
  shows "LoadTable \<lparr>ts_bpm = True, ts_catalog = Some c'\<rparr> m = LoadTable \<lparr>ts_bpm = True, ts_catalog = Some c\<rparr> m"
  using assms by (simp add: LoadTable_def ValidateDependencies_def CM_GetTableSchema_def CM_GetTableFirstPageId_def
      CM_GetTableIndexes_def BindIndex_def[abs_def] CM_GetIndex_def cong: option.case_cong sum.case_cong)

lemma with_table_tables: "map_of (cat_tables c) n = None \<Longrightarrow> map_of (cat_tables (with_table n sch p c)) =
    (map_of (cat_tables c))(n \<mapsto> \<lparr>tm_name = n, tm_schema = sch, tm_first_page_id = p\<rparr>)"
  by (auto simp: with_table_def fun_eq_iff map_add_def split: option.splits)

lemma with_table_ready:
  assumes "cat_ready c" "map_of (cat_tables c) n = None" "n \<noteq> []" "plain_name n" "1 \<le> p" "is_i32 p" "list_all column_storable sch"
  shows "cat_ready (with_table n sch p c)"
  using with_table_wf[of c n p sch] assms by (simp add: cat_ready_def) (simp add: with_table_def)

lemma with_table_bindings:
  assumes "table_bindings c m s first bs" "cat_ready (with_table n sch p c)" "map_of (cat_tables c) n = None" "m \<noteq> n"
  shows "table_bindings (with_table n sch p c) m s first bs"
proof -
  have t: "map_of (cat_tables (with_table n sch p c)) m = map_of (cat_tables c) m"
    using with_table_tables[OF assms(3)] assms(4) by simp
  show ?thesis using assms(1,2) LoadTable_cong[of "with_table n sch p c" m c] t by (simp add: table_bindings_def)
qed

lemma new_table_bindings:
  assumes "cat_ready c" "cat_ready (with_table n sch p c)" "map_of (cat_tables c) n = None" "n \<noteq> []"
  shows "table_bindings (with_table n sch p c) n sch p []"
proof -
  let ?c = "with_table n sch p c"
  have w: "cat_wf c" "status_ok (initialization_status c)" using assms(1) by (simp_all add: cat_ready_def)
  have t: "map_of (cat_tables ?c) n = Some \<lparr>tm_name = n, tm_schema = sch, tm_first_page_id = p\<rparr>"
    using with_table_tables[OF assms(3)] by simp
  have "im_table_name m \<noteq> n" if "m \<in> set (map snd (cat_indexes c))" for m
  proof -
    obtain k where "(k, m) \<in> set (cat_indexes c)" using \<open>m \<in> set (map snd (cat_indexes c))\<close> by force
    then have "has_column (cat_tables c) (im_table_name m) (im_column_name m)" using cat_wf_entry(2)[OF w(1)] by (auto simp: index_wf_def)
    then show ?thesis using assms(3) by (auto simp: has_column_def)
  qed
  then have "filter (\<lambda>m. im_table_name m = n) (map snd (cat_indexes c)) = []" by (intro filter_False) blast
  then have "CM_GetTableIndexes n ?c = Inr []" using t w(2) by (simp add: CM_GetTableIndexes_def)
  then show ?thesis using assms(2,4) t w(2)
    by (simp add: table_bindings_def LoadTable_def ValidateDependencies_def CM_GetTableSchema_def CM_GetTableFirstPageId_def)
qed

section \<open>Publishing the table\<close>

lemma fresh_i32: "fresh_page n bp \<Longrightarrow> room 1 bp \<Longrightarrow> is_i32 n"
  by (auto simp: fresh_page_def room_def fits_def is_i32_def bounded_def)

lemma persisted_db:
  assumes "db_on c bp P D" "persisted c' bp b st"
  shows "db_on c b P D"
proof (rule db_frame[OF assms(1)])
  show "pool_ok {} b" "outside_kept [0] bp b" using assms(2) by (simp_all add: persisted_def)
  fix n assume "D n \<noteq> None"
  then obtain s R where d: "D n = Some (s, R)" by auto
  obtain f bs where t: "table_in c n bp s f bs (fst (P n)) (snd (P n)) R" by (rule db_tableE[OF assms(1) d])
  have "0 \<notin> set (pages_of P n)" using table_state_used[OF table_in_state[OF t], of 0] by (auto simp: pages_of_def)
  then show "set [0] \<inter> set (pages_of P n) = {}" by simp
qed

lemma PublishTable_spec:
  assumes "db_on c bp P D" "healthy bp" "room 1 bp" "D name = None" "name \<noteq> []" "plain_name name" "sch \<noteq> []"
    "list_all column_storable sch" "length sch < 4294967296"
  shows "\<exists>b c' st. PublishTable name sch c bp = (b, c', st) \<and> healthy b \<and> adds 1 bp b \<and>
    (if status_ok st then represents c' b (D(name \<mapsto> (sch, \<lambda>_. None)))
     else c' = c \<and> represents c b D \<and> (\<exists>p. \<not> cat_fits (with_table name sch p c)))"
proof -
  have cr: "cat_ready c" "has_bpm c" "pool_ok {} bp" and new: "map_of (cat_tables c) name = None"
    using assms(1,4) db_dom[OF assms(1)] by (simp_all add: db_on_def)
  obtain b n f where nw: "NewPage bp = (b, Some (n, f))" using NewPage_healthy[OF assms(2)] by blast
  note N = NewPage_fresh[OF cr(3) nw]
  obtain pg b2 where m: "SP_Init (Some (frame_of b f)) = Inr pg" "UnpinPage n True (set_frame f pg b) = (b2, True)" "healthy b2"
    "hf_state b2 n [n]" "heap_contents (pool_page b2) [n] = (\<lambda>_. None)" "page_pid pg = page_pid (frame_of b f)" "outside_kept [] bp b2"
    by (rule heap_page_made[OF assms(2) nw fresh_i32[OF N(1) assms(3)]])
  have a2: "adds 1 bp b2" by (rule write_adds(1)[OF NewPage_adds[OF nw] m(2,6)])
  have ok2: "pool_ok {} b2" using m(3) by (simp add: healthy_def)
  obtain b3 k where fl: "FlushPage n b2 = (b3, k)" by (cases "FlushPage n b2")
  note L = FlushPage_spec[OF ok2 fl]
  have "page_table b2 n \<noteq> None" using UnpinPage_table[of n True "set_frame f pg b"] m(2) N(5) by (simp add: set_frame_def)
  then have k: "k" using FlushPage_fault_free[OF ok2, of n] fl m(3) by (simp add: healthy_def)
  have ro: "only_reads b2 b3" using L FlushPage_health[OF fl] FlushPage_adds[OF _ fl, of 0 b2] by (simp add: only_reads_def read_only_def)
  have h3: "healthy b3" by (rule only_reads_healthy[OF ro m(3)])
  have hf3: "hf_state b3 n [n]" "pool_page b3 = pool_page b2"
    using read_only_hf[OF m(4)] read_only_pages ro by (auto simp: only_reads_def)
  let ?c = "with_table name sch n c"
  have acc: "table_accepted name sch n c"
    using cr(1) new assms(5,7) N(6) assms(9) by (simp add: table_accepted_def cat_ready_def GetColumnCount_def u32_def)
  have rdy: "cat_ready ?c" by (rule with_table_ready[OF cr(1) new assms(5,6) N(6) fresh_i32[OF N(1) assms(3)] assms(8)])
  obtain b4 st where pst: "CM_Persist ?c b3 = (b4, st)" by (cases "CM_Persist ?c b3")
  have ok3: "pool_ok {} b3" using h3 by (simp add: healthy_def)
  have ps: "persisted ?c b3 b4 st" by (rule CM_Persist_spec[OF _ ok3 pst]) (simp add: cr(2))
  have h4: "healthy b4" using ps h3 healthy_kept[OF h3, of b4] by (simp add: persisted_def outside_kept_def)
  have a4: "adds 1 bp b4" using adds_0(1)[OF adds_0(1)[OF a2] CM_Persist_adds[OF ok3 pst]] ro by (simp add: only_reads_def)
  have pub: "PublishTable name sch c bp = (case CM_CreateTable name sch n c b3 of (b, c, st) \<Rightarrow>
      if status_ok st then (b, c, st) else (case DeletePage n b of
          (b, True) \<Rightarrow> (b, c, st)
        | (b, False) \<Rightarrow> (b, c, IOError (''CREATE TABLE failed: '' @ status_message st @ ''; allocated page cleanup failed''))))"
    using nw m(1,2) fl k by (simp add: PublishTable_def put_page_def)
  have out: "outside_kept [] bp b3" using outside_kept_read ro m(7) outside_kept_trans[OF m(7) outside_kept_same]
    by (auto simp: only_reads_def read_only_def)
  have notin: "n \<notin> set (pages_of P t)" if t: "D t \<noteq> None" for t
  proof -
    obtain s R where d: "D t = Some (s, R)" using t by auto
    obtain fp bs where "table_in c t bp s fp bs (fst (P t)) (snd (P t)) R" by (rule db_tableE[OF assms(1) d])
    from table_state_used[OF table_in_state[OF this], of n] fresh_unused[OF cr(3) N(1)] show ?thesis by (auto simp: pages_of_def)
  qed
  show ?thesis
  proof (cases "status_ok st")
    case True
    have "CM_CreateTable name sch n c b3 = (b4, ?c, Status_OK)" using CM_CreateTable_eq[OF acc, of b3] pst True by simp
    then have res: "PublishTable name sch c bp = (b4, ?c, Status_OK)" by (simp add: pub)
    have ti: "table_in ?c name b3 sch n [] [n] [] (\<lambda>_. None)"
      using new_table_bindings[OF cr(1) rdy new assms(5)] hf3 m(5)
      by (simp add: table_in_def table_ok_def tbl_state_def tbl_pages_def index_pages_def ix_sets_def table_keys_def stored_empty)
    have "represents ?c b3 (D(name \<mapsto> (sch, \<lambda>_. None)))"
    proof (rule db_update[OF assms(1) out _ _ ti])
      show "grows [] (tbl_pages [n] []) bp" using fresh_unused[OF cr(3) N(1)] by (simp add: grows_def tbl_pages_def index_pages_def)
      show "dom (map_of (cat_tables ?c)) = insert name (dom D)" using assms(1) with_table_tables[OF new] by (simp add: db_on_def)
    qed (use cr(2) with_table_bindings[OF _ rdy new] in simp_all)
    then have "represents ?c b4 (D(name \<mapsto> (sch, \<lambda>_. None)))" unfolding represents_def using persisted_db[OF _ ps] by blast
    then show ?thesis using res h4 a4 by simp
  next
    case False
    have nf: "\<not> cat_fits ?c" using ps False h3 by (simp add: persisted_def)
    have "CM_CreateTable name sch n c b3 = (b4, c, st)" using CM_CreateTable_eq[OF acc, of b3] pst False by simp
    moreover obtain b5 u where dl: "DeletePage n b4 = (b5, u)" by (cases "DeletePage n b4")
    ultimately have res: "PublishTable name sch c bp = (b5, c, if u then st
        else IOError (''CREATE TABLE failed: '' @ status_message st @ ''; allocated page cleanup failed''))"
      using False by (simp add: pub split: bool.split)
    have ok4: "pool_ok {} b4" using h4 by (simp add: healthy_def)
    note X = DeletePage_spec[OF ok4 dl]
    have h5: "healthy b5" using healthy_kept[OF h4 DeletePage_health[OF dl]] X by simp
    have o5: "outside_kept [n] b4 b5" using X by (auto simp: outside_kept_def unused_def)
    have d3: "db_on c b3 P D" by (rule db_frame[OF assms(1) ok3 out]) simp
    have "db_on c b5 P D" by (rule db_frame[OF persisted_db[OF d3 ps] _ o5]) (use X notin in simp_all)
    then have "represents c b5 D" unfolding represents_def by blast
    then show ?thesis using res h5 nf False step_adds(2)[OF a4 dl] by auto
  qed
qed

lemma ExecuteCreateTable_spec:
  assumes "db_on c bp P D" "healthy bp" "room 1 bp" "plain_name name" "list_all (\<lambda>d. def_length d < 4294967296) ds"
    "length ds < 4294967296"
  shows "\<exists>b c' st. ExecuteCreateTable name ds c bp = (b, c', st) \<and> healthy b \<and> adds 1 bp b \<and>
    (if status_ok st then name \<noteq> [] \<and> D name = None \<and> (\<exists>sch. sch \<noteq> [] \<and> schema_denoted ds sch \<and> represents c' b (D(name \<mapsto> (sch, \<lambda>_. None))))
     else c' = c \<and> represents c b D \<and> (name = [] \<or> ds = [] \<or> D name \<noteq> None \<or> (\<nexists>sch. schema_denoted ds sch) \<or>
       (\<exists>sch p. schema_denoted ds sch \<and> \<not> cat_fits (with_table name sch p c))))"
proof -
  have rep: "represents c bp D" using assms(1) by (auto simp: represents_def)
  have a0: "adds 1 bp bp" by simp
  have cr: "cat_ready c" "dom D = dom (map_of (cat_tables c))" using assms(1) by (simp_all add: db_on_def)
  have ex: "isl (CM_GetTableSchema name c) \<longleftrightarrow> D name = None"
    using cr(1) db_dom[OF assms(1), of name] by (simp add: CM_GetTableSchema_def cat_ready_def split: option.splits)
  show ?thesis
  proof (cases "name = [] \<or> ds = [] \<or> D name \<noteq> None")
    case True
    then show ?thesis using rep assms(2) a0 ex by (auto simp: ExecuteCreateTable_def)
  next
    case False
    note V = ConvertColumns_spec[of ds]
    show ?thesis
    proof (cases "for_each ConvertColumn ds []")
      case (Inl st)
      then show ?thesis using V rep assms(2) a0 ex False by (auto simp: ExecuteCreateTable_def)
    next
      case (Inr sch)
      then have sd: "schema_denoted ds sch" using V by simp
      note SS = schema_storable[OF sd assms(5)]
      have ne: "sch \<noteq> []" "name \<noteq> []" "D name = None"
      proof -
        show "sch \<noteq> []" using SS(2) False by auto
      qed (use False in blast)+
      from PublishTable_spec[OF assms(1-3) ne(3,2) assms(4) ne(1) SS(1)] SS(2) assms(6) obtain b c' st where
        p: "PublishTable name sch c bp = (b, c', st)" "healthy b" "adds 1 bp b"
        "if status_ok st then represents c' b (D(name \<mapsto> (sch, \<lambda>_. None)))
         else c' = c \<and> represents c b D \<and> (\<exists>p. \<not> cat_fits (with_table name sch p c))" by auto
      have "ExecuteCreateTable name ds c bp = (b, c', st)" using False ex Inr p(1) by (auto simp: ExecuteCreateTable_def)
      then show ?thesis using p(2-4) sd ne by (intro exI[of _ b] exI[of _ c'] exI[of _ st]) (auto split: if_splits)
    qed
  qed
qed

end
