(* ===== verification/Create_Index_Correct.thy ===== *)
theory Create_Index_Correct
  imports Create_Table_Correct
begin

text \<open>
  CREATE INDEX: the loop that enters the rows of the table, and the new index in the catalog, in step with
  the rows.
\<close>

section \<open>The loop over the rows\<close>

lemma heap_records_cong: "\<forall>q \<in> set ps. c' q = c q \<Longrightarrow> heap_records c' ps = heap_records c ps"
  by (induction ps) (auto simp: page_at_def)

text \<open>A scan goes on over a pool in which the pages of its heap file are as they were.\<close>

lemma seq_remaining_frame:
  assumes "seq_remaining bp s rs" "ss_heap_file s = Some first" "hf_state bp first ps" "pool_ok {} b" "outside_kept qs bp b"
    "set qs \<inter> set ps = {}"
  shows "seq_remaining b s rs"
proof -
  obtain ps' where s: "hf_state bp first ps'" "ss_status s = Status_OK" "\<not> ss_finished s"
    "if ss_started s then \<exists>pre r. heap_records (pool_page bp) ps' = pre @ r # rs \<and> ss_current_rid s = rec_rid r
     else rs = heap_records (pool_page bp) ps'" using assms(1,2) by (auto simp: seq_remaining_def)
  have "heap_chain (pool_page bp) first ps" "heap_chain (pool_page bp) first ps'" using assms(3) s(1) by (simp_all add: hf_state_def)
  then have e: "ps' = ps" by (rule linked_unique)
  have hf: "hf_state b first ps" using heap_object.frame[OF assms(3-6)] by simp
  have p: "pool_page b q = pool_page bp q" if "q \<in> set ps" for q
    using outside_kept_page[OF assms(5)] assms(6) heap_object.st_used[OF assms(3) that] that by blast
  have "heap_records (pool_page b) ps = heap_records (pool_page bp) ps"
    by (rule heap_records_cong) (use p in simp)
  then show ?thesis using s assms(2) hf unfolding seq_remaining_def e by (intro exI[of _ first] exI[of _ ps]) auto
qed

lemma SeqScan_Next_file: "SeqScan_Next s st bp = Some (s', st', b, r) \<Longrightarrow> ss_heap_file s' = ss_heap_file s"
  by (auto simp: SeqScan_Next_def Let_def split: if_splits option.splits prod.splits sum.splits)

text \<open>One call on a pool without failures.\<close>

lemma seq_scan_healthy:
  assumes "seq_remaining bp s rs" "healthy bp"
  obtains s' b st' where "SeqScan_Next s st bp = Some (s', st', b, case rs of [] \<Rightarrow> None | x # _ \<Rightarrow> Some (x, rec_rid x))"
    "only_reads bp b" "status_ok (ss_status s')" "ss_heap_file s' = ss_heap_file s" "rs \<noteq> [] \<Longrightarrow> seq_remaining b s' (tl rs)"
proof -
  obtain s' b r rs' where n: "calls SeqScan_Next s bp s' b r" "if status_ok (ss_status s')
      then (rs' = rs \<or> False \<and> \<not> healthy bp \<and> suffix rs' rs) \<and>
        (case rs' of [] \<Rightarrow> r = None | x # xs \<Rightarrow> r = Some (x, rec_rid x) \<and> seq_remaining b s' xs)
      else r = None \<and> \<not> healthy bp" using seq_scan.step[OF assms(1)] by blast
  then have ok: "status_ok (ss_status s')" "case rs of [] \<Rightarrow> r = None | x # xs \<Rightarrow> r = Some (x, rec_rid x) \<and> seq_remaining b s' xs"
    using assms(2) by (auto split: if_splits)
  obtain st' where st': "SeqScan_Next s st bp = Some (s', st', b, r)" "only_reads bp b" by (rule callsE[OF n(1)])
  show ?thesis using that[of s' st' b] st' ok SeqScan_Next_file[OF st'(1)] by (cases rs) auto
qed

text \<open>The entries of rows in the index of a column.\<close>

definition row_entries :: "schema \<Rightarrow> nat \<Rightarrow> db_record list \<Rightarrow> entry set" where
  "row_entries sch col rs = {(k, rec_rid r) |k r. r \<in> set rs \<and> row_key sch col (rec_data r) = Some k}"

lemma row_entries_simps: "row_entries sch col [] = {}"
  "row_entries sch col (r # rs) = (\<lambda>k. (k, rec_rid r)) ` set_option (row_key sch col (rec_data r)) \<union> row_entries sch col rs"
  by (auto simp: row_entries_def)

definition unindexable :: "schema \<Rightarrow> nat \<Rightarrow> db_record list \<Rightarrow> bool" where
  "unindexable sch col rs \<longleftrightarrow> (\<exists>r \<in> set rs. \<exists>v. GetValue sch r col = Inr v \<and> v \<noteq> FNull \<and> isl (Encode v))"

lemma row_key_value:
  assumes "GetValue sch r col = Inr v"
  shows "row_key sch col (rec_data r) = (case Encode v of Inl _ \<Rightarrow> None | Inr k \<Rightarrow> Some k)"
proof -
  have "GetValue sch (Record default_rid (rec_data r)) col = Inr v"
    using GetValue_data[of sch "rec_rid r" "rec_data r" col default_rid] assms by simp
  then show ?thesis by (simp add: row_key_def)
qed

lemma IndexRows_spec:
  assumes "healthy bp" "seq_remaining bp s rs" "ss_heap_file s = Some first" "hf_state bp first ps" "hi_state bp hid bk"
    "set (hi_pages hid bk) \<inter> set ps = {}" "room (length rs) bp"
    "\<forall>r \<in> set rs. heap_contents (pool_page bp) ps (rec_rid r) = Some (rec_data r) \<and> (\<exists>v. GetValue sch r col = Inr v)"
  shows "\<exists>s' b st bk'. IndexRows sch col hid s bp = Some (s', b, st) \<and> healthy b \<and> adds (length rs) bp b \<and>
    outside_kept (hi_pages hid bk) bp b \<and> hi_state b hid bk' \<and> grows (hi_pages hid bk) (hi_pages hid bk') bp \<and>
    (if status_ok st then status_ok (ss_status s') \<and>
       hi_entries (pool_page b) bk' = hi_entries (pool_page bp) bk \<union> row_entries sch col rs
     else unindexable sch col rs)"
  using assms
proof (induction rs arbitrary: s bp bk)
  case Nil
  obtain s' b st' where n: "SeqScan_Next s new_QueryStats bp = Some (s', st', b, None)" "only_reads bp b" "status_ok (ss_status s')"
    by (rule seq_scan_healthy[OF Nil.prems(2,1), of new_QueryStats]) simp
  have ro: "read_only bp b" "adds 0 bp b" using n(2) by (simp_all add: only_reads_def)
  note U = hash_object.unchanged[OF Nil.prems(5) ro(1)]
  have "IndexRows sch col hid s bp = Some (s', b, Status_OK)" using n(1) by (simp add: IndexRows.simps[of sch col hid s])
  then show ?case using n(3) ro(2) U only_reads_healthy[OF n(2) Nil.prems(1)] outside_kept_same ro(1)
    by (intro exI[of _ s'] exI[of _ b] exI[of _ Status_OK] exI[of _ bk]) (auto simp: row_entries_simps read_only_def)
next
  case (Cons r rs)
  obtain s1 b1 st1 where n: "SeqScan_Next s new_QueryStats bp = Some (s1, st1, b1, Some (r, rec_rid r))" "only_reads bp b1"
    "status_ok (ss_status s1)" "ss_heap_file s1 = Some first" "seq_remaining b1 s1 rs"
    by (rule seq_scan_healthy[OF Cons.prems(2,1), of new_QueryStats]) (use Cons.prems(3) in simp)
  have ro: "read_only bp b1" "adds 0 bp b1" using n(2) by (simp_all add: only_reads_def)
  have h1: "healthy b1" by (rule only_reads_healthy[OF n(2) Cons.prems(1)])
  have pg: "pool_page b1 = pool_page bp" by (rule read_only_pages[OF ro(1)])
  have hf1: "hf_state b1 first ps" by (rule read_only_hf[OF Cons.prems(4) ro(1)])
  have hi1: "hi_state b1 hid bk" using hash_object.unchanged[OF Cons.prems(5) ro(1)] by simp
  have o1: "outside_kept qs bp b1" for qs using ro(1) by (simp add: read_only_def outside_kept_same)
  have r1: "room (length rs) b1" "room 1 b1"
    using room_read[OF room_mono[OF Cons.prems(7)] ro(2)] by simp_all
  have rows: "\<forall>x \<in> set rs. heap_contents (pool_page b1) ps (rec_rid x) = Some (rec_data x) \<and> (\<exists>v. GetValue sch x col = Inr v)"
    using Cons.prems(8) pg by simp
  obtain v where v: "GetValue sch r col = Inr v" using Cons.prems(8) by auto
  have step: "IndexRows sch col hid s bp = (if v = FNull then IndexRows sch col hid s1 b1
      else (case Encode v of Inl st \<Rightarrow> Some (s1, b1, st)
        | Inr encoded_key \<Rightarrow> (case HI_Insert hid encoded_key (rec_rid r) b1 of
            None \<Rightarrow> None
          | Some (bp, st) \<Rightarrow> if \<not> status_ok st then Some (s1, bp, st) else IndexRows sch col hid s1 bp)))"
    using n(1) v by (simp add: IndexRows.simps[of sch col hid s] cong: if_cong)
  show ?case
  proof (cases "Encode v")
    case (Inl e)
    show ?thesis
    proof (cases "v = FNull")
      case False
      have "unindexable sch col (r # rs)" using v False Inl by (auto simp: unindexable_def)
      then show ?thesis using step False Inl h1 adds_mono[OF ro(2)] o1 hi1 Encode_error[OF Inl]
        by (intro exI[of _ s1] exI[of _ b1] exI[of _ e] exI[of _ bk]) simp
    next
      case True
      from Cons.IH[OF h1 n(5,4) hf1 hi1 Cons.prems(6) r1(1) rows] obtain s' b st bk' where i:
        "IndexRows sch col hid s1 b1 = Some (s', b, st)" "healthy b" "adds (length rs) b1 b" "outside_kept (hi_pages hid bk) b1 b"
        "hi_state b hid bk'" "grows (hi_pages hid bk) (hi_pages hid bk') b1"
        "if status_ok st then status_ok (ss_status s') \<and> hi_entries (pool_page b) bk' = hi_entries (pool_page b1) bk \<union> row_entries sch col rs
         else unindexable sch col rs" by (elim exE conjE) (rule that)
      have k: "row_key sch col (rec_data r) = None" using row_key_value[OF v] Inl by simp
      have g: "grows (hi_pages hid bk) (hi_pages hid bk') bp"
        using i(6) ro(1) by (auto simp: grows_def unused_def read_only_def same_pages_def)
      have "adds (length (r # rs)) bp b" by (rule adds_mono[OF adds_0(2)[OF ro(2) i(3)]]) simp
      then show ?thesis using step True i(1,2,5,7) g outside_kept_trans[OF o1 i(4)] k pg
        by (intro exI[of _ s'] exI[of _ b] exI[of _ st] exI[of _ bk']) (auto simp: row_entries_simps unindexable_def split: if_splits)
    qed
  next
    case (Inr key)
    have vn: "v \<noteq> FNull" using Inr by (auto simp: Encode_def)
    have kl: "length key \<le> MAX_KEY_LENGTH" "key \<noteq> []" using Encode_length[OF Inr] by auto
    have "heap_contents (pool_page b1) ps (rec_rid r) \<noteq> None" using Cons.prems(8) pg by simp
    note E = heap_rid_entry(1)[OF hf1 this room_num_pages[OF r1(2)] kl(1)]
    obtain b2 st2 where ins: "HI_Insert hid key (rec_rid r) b1 = Some (b2, st2)" "hi_inserted hid bk key (rec_rid r) b1 (b2, st2)"
      using HI_Insert_spec[OF hi1 E kl(2) room_num_pages[OF r1(2)]] by force
    have st2: "status_ok st2" using ins(2) h1 by (auto simp: hi_inserted_def split: if_splits)
    obtain bk2 where b2: "hi_state b2 hid bk2" "hi_entries (pool_page b2) bk2 = insert (key, rec_rid r) (hi_entries (pool_page b1) bk)"
      "grows (hi_pages hid bk) (hi_pages hid bk2) b1" "outside_kept (hi_pages hid bk) b1 b2" "keeps_health b1 b2"
      using ins(2) st2 by (auto simp: hi_inserted_def)
    have ok2: "pool_ok {} b2" using b2(1) by (simp add: hi_state_def)
    have h2: "healthy b2" by (rule healthy_kept[OF h1 b2(5) ok2]) (use b2(4) in \<open>simp add: outside_kept_def\<close>)
    have a2: "adds 1 bp b2" by (rule adds_0(2)[OF ro(2) HI_Insert_adds[OF ins(1)]])
    have hf2: "hf_state b2 first ps" "heap_contents (pool_page b2) ps = heap_contents (pool_page b1) ps"
      using heap_object.frame[OF hf1 ok2 b2(4) Cons.prems(6)] by simp_all
    have s2: "seq_remaining b2 s1 rs" by (rule seq_remaining_frame[OF n(5,4) hf1 ok2 b2(4) Cons.prems(6)])
    have d2: "set (hi_pages hid bk2) \<inter> set ps = {}" by (rule heap_object.apart_after_growth[OF hf1 b2(3) Cons.prems(6)])
    have r2: "room (length rs) b2" by (rule room_adds[OF _ a2]) (use Cons.prems(7) in simp)
    have rows2: "\<forall>x \<in> set rs. heap_contents (pool_page b2) ps (rec_rid x) = Some (rec_data x) \<and> (\<exists>v. GetValue sch x col = Inr v)"
      using rows hf2(2) by simp
    from Cons.IH[OF h2 s2 n(4) hf2(1) b2(1) d2 r2 rows2] obtain s' b st bk' where i:
      "IndexRows sch col hid s1 b2 = Some (s', b, st)" "healthy b" "adds (length rs) b2 b" "outside_kept (hi_pages hid bk2) b2 b"
      "hi_state b hid bk'" "grows (hi_pages hid bk2) (hi_pages hid bk') b2"
      "if status_ok st then status_ok (ss_status s') \<and> hi_entries (pool_page b) bk' = hi_entries (pool_page b2) bk2 \<union> row_entries sch col rs
       else unindexable sch col rs" by (elim exE conjE) (rule that)
    have k: "row_key sch col (rec_data r) = Some key" using row_key_value[OF v] Inr by simp
    have o2: "outside_kept (hi_pages hid bk) bp b2" by (rule outside_kept_trans[OF o1 b2(4)])
    have g2: "grows (hi_pages hid bk) (hi_pages hid bk2) bp"
      using b2(3) ro(1) by (auto simp: grows_def unused_def read_only_def same_pages_def)
    have "adds (length (r # rs)) bp b" using adds_trans[OF a2 i(3)] by simp
    then show ?thesis
      using step vn Inr ins(1) st2 i(1,2,5,7) grows_trans[OF o2 g2 i(6)] outside_kept_grown[OF o2 g2 i(4)] k b2(2) pg
      by (intro exI[of _ s'] exI[of _ b] exI[of _ st] exI[of _ bk']) (auto simp: row_entries_simps unindexable_def split: if_splits)
  qed
qed

section \<open>The catalog with one more index\<close>

lemma same_infos:
  assumes "sorted_wrt (<) (map ci_index_name xs)" "sorted_wrt (<) (map ci_index_name ys)" "set xs = set ys"
  shows "xs = ys"
proof -
  have s: "sorted (map ci_index_name xs)" "distinct (map ci_index_name xs)" "sorted (map ci_index_name ys)"
    "distinct (map ci_index_name ys)" using assms(1,2) by (simp_all add: strict_sorted_iff)
  have "inj_on ci_index_name (set xs \<union> set ys)" using s(2) assms(3) by (simp add: distinct_map)
  from map_sorted_distinct_set_unique[OF this s assms(3)] show ?thesis .
qed

lemma entered_bindings:
  assumes "table_bindings c name sch first bs" "enterable m c" "plain_name (im_table_name m)"
  obtains bs' where "table_bindings (entered m c) name sch first bs'" "im_table_name m \<noteq> name \<Longrightarrow> bs' = bs"
    "im_table_name m = name \<Longrightarrow> \<exists>xs ys. bs = xs @ ys \<and> bs' = xs @ binding_of sch (index_info m) # ys"
proof -
  let ?c = "entered m c" and ?k = "MakeIndexKey (im_table_name m) (im_column_name m)"
  obtain t where t: "cat_ready c" "map_of (cat_tables c) name = Some t" "tm_schema t = sch" "tm_first_page_id t = first"
    "LoadTable \<lparr>ts_bpm = True, ts_catalog = Some c\<rparr> name = Inr (sch, first, bs)" using assms(1) by (auto simp: table_bindings_def)
  have w: "cat_wf c" "status_ok (initialization_status c)" using t(1) by (simp_all add: cat_ready_def)
  have rdy: "cat_ready ?c" using t(1) entered_wf[OF w(1) assms(2)] by (simp add: cat_ready_def)
  have w': "cat_wf ?c" "status_ok (initialization_status ?c)" "map_of (cat_tables ?c) name = Some t"
    using rdy t(2) by (simp_all add: cat_ready_def)
  have new: "map_of (cat_indexes c) ?k = None" "map_of (cat_index_names c) (im_name m) = None"
    using assms(2) by (simp_all add: enterable_def)
  have mo: "map_of (cat_indexes ?c) = (map_of (cat_indexes c))(?k \<mapsto> m)" using new(1) by (simp add: fun_eq_iff map_of_emplace)
  obtain us where I: "LoadTable \<lparr>ts_bpm = True, ts_catalog = Some c\<rparr> name = Inr (tm_schema t, tm_first_page_id t, map (binding_of (tm_schema t)) us)"
    "sorted_wrt (<) (map ci_index_name us)" "set us = {index_info m |k m. map_of (cat_indexes c) k = Some m \<and> im_table_name m = name}"
    by (rule load_table_exact[OF w t(2)])
  obtain js where J: "LoadTable \<lparr>ts_bpm = True, ts_catalog = Some ?c\<rparr> name = Inr (tm_schema t, tm_first_page_id t, map (binding_of (tm_schema t)) js)"
    "sorted_wrt (<) (map ci_index_name js)" "set js = {index_info m |k m. map_of (cat_indexes ?c) k = Some m \<and> im_table_name m = name}"
    by (rule load_table_exact[OF w'])
  have sj: "set js = (if im_table_name m = name then {index_info m} else {}) \<union> set us"
  proof -
    have "set js = (if im_table_name m = name then {index_info m} else {}) \<union>
        {index_info m' |k m'. k \<noteq> ?k \<and> map_of (cat_indexes c) k = Some m' \<and> im_table_name m' = name}"
      unfolding J(3) mo by (auto split: if_splits)
    also have "{index_info m' |k m'. k \<noteq> ?k \<and> map_of (cat_indexes c) k = Some m' \<and> im_table_name m' = name} = set us"
      unfolding I(3) using new(1) by (metis option.distinct(1))
    finally show ?thesis .
  qed
  have fresh: "index_info m \<notin> set us"
  proof
    assume "index_info m \<in> set us"
    then obtain k m' where m': "map_of (cat_indexes c) k = Some m'" "index_info m = index_info m'" unfolding I(3) by auto
    then have "map_of (cat_index_names c) (im_name m') = Some k" using cat_wf_entry(2)[OF w(1) map_of_SomeD] by (auto simp: index_wf_def)
    then show False using m'(2) new(2) by (simp add: index_info_def)
  qed
  have bs: "bs = map (binding_of sch) us" using I(1) t(3,5) by simp
  have B: "table_bindings ?c name sch first (map (binding_of sch) js)"
    using rdy w'(3) J(1) t(3,4) by (simp add: table_bindings_def)
  show ?thesis
  proof (rule that[OF B])
    assume "im_table_name m \<noteq> name"
    then have "js = us" using same_infos[OF J(2) I(2)] sj by simp
    then show "map (binding_of sch) js = bs" using bs by simp
  next
    assume e: "im_table_name m = name"
    then obtain xs ys where js: "js = xs @ index_info m # ys" using sj split_list[of "index_info m" js] by auto
    have "sorted_wrt (<) (map ci_index_name (xs @ ys))" using J(2) js by (auto simp: sorted_wrt_append)
    moreover have "set (xs @ ys) = set us"
    proof -
      have "distinct (map ci_index_name js)" using J(2) by (simp add: strict_sorted_iff)
      then have "index_info m \<notin> set (xs @ ys)" using js by (auto simp: distinct_map)
      then show ?thesis using insert_ident[of "index_info m" "set (xs @ ys)" "set us"] sj e js fresh by simp
    qed
    ultimately have "xs @ ys = us" by (rule same_infos[OF _ I(2)])
    then have "bs = map (binding_of sch) xs @ map (binding_of sch) ys" using bs by (metis map_append)
    then show "\<exists>xs ys. bs = xs @ ys \<and> map (binding_of sch) js = xs @ binding_of sch (index_info m) # ys" using js by auto
  qed
qed

section \<open>The statement\<close>

lemma table_records:
  assumes "table_in c name bp sch first bs ps ixs R"
  shows "length (heap_records (pool_page bp) ps) = card (dom R)"
    "r \<in> set (heap_records (pool_page bp) ps) \<Longrightarrow> \<exists>vs. R (rec_rid r) = Some vs \<and> (\<forall>i < length sch. GetValue sch r i = Inr (vs ! i))"
proof -
  let ?H = "heap_contents (pool_page bp) ps"
  note S = table_inD(3)[OF assms] and hf = table_inD(4)[OF assms]
  show "\<exists>vs. R (rec_rid r) = Some vs \<and> (\<forall>i < length sch. GetValue sch r i = Inr (vs ! i))"
    if "r \<in> set (heap_records (pool_page bp) ps)" for r
  proof -
    have "?H (rec_rid r) = Some (rec_data r)" using that by (simp add: heap_records_contents)
    from stored_row[OF S this] obtain vs where "R (rec_rid r) = Some vs" "Deserialize sch r = Inr vs" "length vs = length sch" by metis
    then show ?thesis by (auto simp: GetValue_def GetColumnCount_def)
  qed
  have "dom R = rec_rid ` set (heap_records (pool_page bp) ps)"
  proof safe
    fix rid vs assume "R rid = Some vs"
    then obtain d where "?H rid = Some d" using stored_none[OF S, of rid] by (cases "?H rid") auto
    then have "Record rid d \<in> set (heap_records (pool_page bp) ps)" by (simp add: heap_records_contents)
    then show "rid \<in> rec_rid ` set (heap_records (pool_page bp) ps)" by force
  next
    fix r assume "r \<in> set (heap_records (pool_page bp) ps)"
    then show "\<exists>vs. R (rec_rid r) = Some vs" using stored_none[OF S, of "rec_rid r"] by (auto simp: heap_records_contents)
  qed
  then have "card (dom R) = card (set (map rec_rid (heap_records (pool_page bp) ps)))" by simp
  also have "\<dots> = length (heap_records (pool_page bp) ps)"
    using distinct_card[OF heap_records_distinct] hf by (simp add: hf_state_def)
  finally show "length (heap_records (pool_page bp) ps) = card (dom R)" by simp
qed

text \<open>The table with the new index among the others.\<close>

lemma table_gains_index:
  assumes "table_in c name bp sch first (xs @ ys) ps ixs R" "table_bindings c' name sch first (xs @ nb # ys)"
    "pool_ok {} b" "outside_kept [] bp b" "grows [] (hi_pages (ib_index nb) bk) bp" "hi_state b (ib_index nb) bk"
    "hi_entries (pool_page b) bk = row_entries sch (ib_column_index nb) (heap_records (pool_page bp) ps)"
  shows "\<exists>ixs'. table_in c' name b sch first (xs @ nb # ys) ps ixs' R \<and> grows (tbl_pages ps ixs) (tbl_pages ps ixs') bp"
proof -
  let ?us = "take (length xs) ixs" and ?vs = "drop (length xs) ixs" and ?h = "ib_index nb"
  let ?ixs = "?us @ (?h, bk) # ?vs"
  have ti: "table_in c name b sch first (xs @ ys) ps ixs R" by (rule table_in_frame[OF assms(1,3,4)]) simp
  have st: "tbl_state b first ps ixs" by (rule table_in_state[OF ti])
  have ok: "map fst ixs = map ib_index (xs @ ys)" "ix_sets b ixs = table_keys sch (xs @ ys) (heap_contents (pool_page b) ps)"
    "heap_contents (pool_page b) ps = heap_contents (pool_page bp) ps"
    using ti table_state_frame[OF table_in_state[OF assms(1)] assms(3,4)] by (simp_all add: table_in_def table_ok_def)
  have e: "ixs = ?us @ ?vs" by simp
  have l: "length ?us = length xs" using arg_cong[OF ok(1), of length] by simp
  have f: "map fst ?us = map ib_index xs" "map fst ?vs = map ib_index ys"
    using arg_cong[OF ok(1), of "take (length xs)"] arg_cong[OF ok(1), of "drop (length xs)"] by (simp_all add: take_map drop_map)
  have k: "ix_sets b ?us = table_keys sch xs (heap_contents (pool_page b) ps)" "ix_sets b ?vs = table_keys sch ys (heap_contents (pool_page b) ps)"
    using arg_cong[OF ok(2), of "take (length xs)"] arg_cong[OF ok(2), of "drop (length xs)"]
    by (simp_all add: take_map drop_map ix_sets_def table_keys_def)
  have n: "hi_entries (pool_page b) bk = {(k, r). \<exists>d. heap_contents (pool_page b) ps r = Some d \<and> row_key sch (ib_column_index nb) d = Some k}"
  proof -
    have "\<exists>r'. r' \<in> set (heap_records (pool_page bp) ps) \<and> rec_rid r' = r \<and> rec_data r' = d"
      if "heap_contents (pool_page bp) ps r = Some d" for r d
      using that by (intro exI[of _ "Record r d"]) (simp add: heap_records_contents)
    then show ?thesis unfolding assms(7) ok(3) row_entries_def by (auto simp: heap_records_contents) metis
  qed
  have t0: "tbl_pages ps ixs = ps @ index_pages ?us @ index_pages ?vs"
    by (simp add: tbl_pages_def index_pages_split(1)[symmetric])
  have t1: "tbl_pages ps ?ixs = ps @ index_pages ?us @ hi_pages ?h bk @ index_pages ?vs"
    by (simp add: tbl_pages_def index_pages_split)
  have p: "set (tbl_pages ps ?ixs) = set (hi_pages ?h bk) \<union> set (tbl_pages ps ixs)" unfolding t0 t1 by auto
  have away: "set (hi_pages ?h bk) \<inter> set (tbl_pages ps ixs) = {}"
    using apart_after[OF table_in_state[OF assms(1)] assms(5)] by simp
  have "distinct (tbl_pages ps ixs)" "distinct (hi_pages ?h bk)" using st assms(6) by (simp_all add: tbl_state_def hi_state_def)
  then have "distinct (tbl_pages ps ?ixs)" using away unfolding t0 t1 by auto
  moreover have "list_all (\<lambda>(hid, bk). hi_state b hid bk) ?ixs"
  proof -
    have "list_all (\<lambda>(hid, bk). hi_state b hid bk) (?us @ ?vs)" using st by (simp add: tbl_state_def)
    then show ?thesis using assms(6) by (simp del: append_take_drop_id)
  qed
  ultimately have "tbl_state b first ps ?ixs" using st by (simp add: tbl_state_def)
  moreover have "map fst ?ixs = map ib_index (xs @ nb # ys)" using f by simp
  moreover have "ix_sets b ?ixs = table_keys sch (xs @ nb # ys) (heap_contents (pool_page b) ps)"
    using k n by (simp add: ix_sets_def table_keys_def)
  ultimately have "table_in c' name b sch first (xs @ nb # ys) ps ?ixs R"
    using assms(2) table_inD(3)[OF ti] by (simp add: table_in_def table_ok_def)
  moreover have "grows (tbl_pages ps ixs) (tbl_pages ps ?ixs) bp" using assms(5) by (auto simp: grows_def p)
  ultimately show ?thesis by blast
qed

text \<open>Why the statement may be refused.\<close>

definition index_refused :: "string \<Rightarrow> string \<Rightarrow> string \<Rightarrow> catalog \<Rightarrow> database \<Rightarrow> bool" where
  "index_refused iname tname cname c D \<longleftrightarrow> iname = [] \<or> CM_HasIndex tname cname c \<or> CM_HasIndexName iname c \<or>
     (case D tname of None \<Rightarrow> True
      | Some (sch, R) \<Rightarrow> (case column_at sch cname of None \<Rightarrow> True
         | Some col \<Rightarrow> (\<exists>rid vs. R rid = Some vs \<and> vs ! col \<noteq> FNull \<and> isl (Encode (vs ! col))))) \<or>
     (\<exists>hid. \<not> cat_fits (entered (index_data iname tname cname hid) c))"

definition rows_in :: "database \<Rightarrow> string \<Rightarrow> nat" where
  "rows_in D name = (case D name of None \<Rightarrow> 0 | Some (sch, R) \<Rightarrow> card (dom R))"

text \<open>An index that is destroyed again leaves the tables as they were.\<close>

lemma index_undone:
  assumes "db_on c bp P D" "outside_kept [] bp b" "grows [] (hi_pages hid bk) bp" "hi_state b hid bk" "healthy b" "adds n bp b"
  obtains b' where "HI_Destroy hid b = Some (b', INVALID_PAGE_ID, Status_OK)" "healthy b'" "db_on c b' P D" "adds n bp b'"
proof -
  obtain b' where d: "HI_Destroy hid b = Some (b', INVALID_PAGE_ID, Status_OK)" "healthy b'" "outside_kept (hi_pages hid bk) b b'"
    using HI_Destroy_spec[OF assms(4,5)] by blast
  have out: "outside_kept [] bp b'" by (rule outside_kept_grown[OF assms(2,3) d(3)])
  have "db_on c b' P D" by (rule db_frame[OF assms(1) _ out]) (use d(2) in \<open>simp_all add: healthy_def\<close>)
  moreover have "adds n bp b'" by (rule adds_0(1)[OF assms(6) HI_Destroy_adds[OF d(1)]])
  ultimately show ?thesis using that d by blast
qed

lemma CM_CreateIndex_db:
  assumes "db_on c bp P D" "D name = Some (sch, R)" "table_bindings c name sch first bs" "index_accepted iname name cname c"
    "table_in c name bp sch first bs (fst (P name)) (snd (P name)) R" "column_at sch cname = Some col"
    "healthy b" "outside_kept [] bp b" "grows [] (hi_pages hid bk) bp" "hi_state b hid bk" "is_i32 hid" "adds n bp b"
    "hi_entries (pool_page b) bk = row_entries sch col (heap_records (pool_page bp) (fst (P name)))"
  shows "\<exists>b' c' st. CM_CreateIndex iname name cname (Some hid) c b = Some (b', c', st) \<and> healthy b' \<and> adds n bp b' \<and> represents c' b' D \<and>
    (if status_ok st then c' = entered (index_data iname name cname hid) c else c' = c \<and> \<not> cat_fits (entered (index_data iname name cname hid) c))"
proof -
  let ?m = "index_data iname name cname hid" let ?c = "entered ?m c"
  have cr: "cat_ready c" "has_bpm c" using assms(1) by (simp_all add: db_on_def)
  have h1: "1 \<le> hid" using assms(10) by (simp add: hi_state_def)
  have en: "enterable ?m c" using assms(4,11) h1 by (simp add: enterable_def index_accepted_def index_data_def index_storable_def)
  have mk: "im_table_name ?m = name" "im_column_name ?m = cname" "im_header_page_id ?m = hid" by (simp_all add: index_data_def)
  have pl: "plain_name (im_table_name ?m)" using bindings_name[OF assms(3)] mk by simp
  have okb: "pool_ok {} b" using assms(10) by (simp add: hi_state_def)
  have rep: "represents ?c b D"
  proof -
    obtain bs' where B: "table_bindings ?c name sch first bs'"
      "im_table_name ?m = name \<Longrightarrow> \<exists>xs ys. bs = xs @ ys \<and> bs' = xs @ binding_of sch (index_info ?m) # ys"
      by (rule entered_bindings[OF assms(3) en pl]) blast
    then obtain xs ys where xy: "bs = xs @ ys" "bs' = xs @ binding_of sch (index_info ?m) # ys" using mk(1) by blast
    let ?nb = "binding_of sch (index_info ?m)"
    have nb: "ib_index ?nb = hid" "ib_column_index ?nb = col"
      using assms(6) mk FindColumnIndex_at[of sch cname col] by (simp_all add: binding_of_def index_info_def)
    obtain ixs' where T: "table_in ?c name b sch first bs' (fst (P name)) ixs' R"
      "grows (pages_of P name) (tbl_pages (fst (P name)) ixs') bp"
      using table_gains_index[OF assms(5)[unfolded xy(1)] B(1)[unfolded xy(2)] okb assms(8)] assms(9,10,13) nb xy(2)
      by (auto simp: pages_of_def)
    have "represents ?c b (D(name \<mapsto> (sch, R)))"
    proof (rule db_update[OF assms(1) _ T(2) _ T(1)])
      show "outside_kept (pages_of P name) bp b" by (rule outside_kept_mono[OF assms(8)]) simp
      show "set (pages_of P name) \<inter> set (pages_of P t) = {}" if "D t \<noteq> None" "t \<noteq> name" for t
        using assms(1,2) that unfolding db_on_def by blast
      show "has_bpm ?c" using cr(2) by simp
      show "dom (map_of (cat_tables ?c)) = insert name (dom D)" using assms(1,2) by (auto simp: db_on_def)
      show "table_bindings ?c t s f l" if "t \<noteq> name" "table_bindings c t s f l" for t s f l
        by (rule entered_bindings[OF that(2) en pl]) (use that(1) mk(1) in simp)
    qed
    moreover have "D(name \<mapsto> (sch, R)) = D" using assms(2) by (simp add: fun_upd_idem)
    ultimately show ?thesis by simp
  qed
  obtain b1 st where pst: "CM_Persist ?c b = (b1, st)" by (cases "CM_Persist ?c b")
  have ps: "persisted ?c b b1 st" by (rule CM_Persist_spec[OF _ okb pst]) (simp add: cr(2))
  have hb: "healthy b1" using ps healthy_kept[OF assms(7), of b1] by (simp add: persisted_def outside_kept_def)
  have a1: "adds n bp b1" by (rule adds_0(1)[OF assms(12) CM_Persist_adds[OF okb pst]])
  show ?thesis
  proof (cases "status_ok st")
    case True
    have "represents ?c b1 D" using rep persisted_db[OF _ ps] unfolding represents_def by blast
    then show ?thesis using CM_CreateIndex_eq[OF assms(4), of hid b] pst True hb a1 by simp
  next
    case False
    have nf: "\<not> cat_fits ?c" using ps False assms(7) by (simp add: persisted_def)
    have k: "outside_kept [0] b b1" "pool_ok {} b1" using ps by (simp_all add: persisted_def)
    have "0 \<notin> set (hi_pages hid bk)" using hash_object.st_used[OF assms(10), of 0] by auto
    then have hi1: "hi_state b1 hid bk" using hash_object.frame[OF assms(10) k(2,1)] by simp
    have d: "db_on c b1 P D" by (rule persisted_db[OF db_frame[OF assms(1) okb assms(8)] ps]) simp
    obtain b2 where u: "HI_Destroy hid b1 = Some (b2, INVALID_PAGE_ID, Status_OK)" "healthy b2" "outside_kept (hi_pages hid bk) b1 b2"
      using HI_Destroy_spec[OF hi1 hb] by blast
    have "pool_ok {} b2" using u(2) by (simp add: healthy_def)
    moreover have "set (hi_pages hid bk) \<inter> set (pages_of P t) = {}" if t: "D t \<noteq> None" for t
    proof -
      obtain s R where x: "D t = Some (s, R)" using t by auto
      obtain f l where "table_in c t bp s f l (fst (P t)) (snd (P t)) R" by (rule db_tableE[OF assms(1) x])
      from apart_after[OF table_in_state[OF this] assms(9)] show ?thesis by (simp add: pages_of_def)
    qed
    ultimately have "db_on c b2 P D" by (rule db_frame[OF d _ u(3)])
    then have "represents c b2 D" unfolding represents_def by blast
    then show ?thesis using CM_CreateIndex_eq[OF assms(4), of hid b] pst False u nf adds_0(1)[OF a1 HI_Destroy_adds[OF u(1)]] by simp
  qed
qed

lemma creation_accepted:
  assumes "db_on c bp P D" "D tname = Some (sch, R)" "table_bindings c tname sch first bs" "column_at sch cname = Some col"
    "\<not> CM_HasIndex tname cname c" "\<not> CM_HasIndexName iname c" "iname \<noteq> []"
  shows "index_accepted iname tname cname c"
proof -
  obtain t where t: "map_of (cat_tables c) tname = Some t" "tm_schema t = sch" using assms(3) by (auto simp: table_bindings_def)
  have w: "cat_wf c" "status_ok (initialization_status c)" using assms(1) by (simp_all add: db_on_def cat_ready_def)
  have f: "column_found cname sch" using column_at_found[of sch cname] assms(4) by (auto simp: column_found_def list_ex_iff)
  have s: "tname \<noteq> []" "list_all column_storable sch"
    using w(1) map_of_SomeD[OF t(1)] t(2) by (fastforce simp: cat_wf_def tables_wf_def table_storable_def list_all_iff)+
  then have "cname \<noteq> []" using f by (auto simp: column_found_def list_ex_iff list_all_iff column_storable_def)
  then show ?thesis using assms(5-7) w s f t by (simp add: index_accepted_def has_column_def CM_HasIndex_def CM_HasIndexName_def)
qed

lemma FillIndex_spec:
  assumes "db_on c bp P D" "healthy bp" "D tname = Some (sch, R)" "table_bindings c tname sch first bs"
    "table_in c tname bp sch first bs (fst (P tname)) (snd (P tname)) R" "column_at sch cname = Some col"
    "\<not> CM_HasIndex tname cname c" "\<not> CM_HasIndexName iname c"
    "HI_Create DEFAULT_BUCKET_COUNT bp = (b1, Inr hid)" "room (Suc (rows_in D tname)) bp"
    "\<forall>b. set (fo b) \<subseteq> dom (page_table b)"
  shows "\<exists>b c' st. FillIndex fo iname tname cname sch first col hid c b1 = Some (b, c', st) \<and> healthy b \<and>
    adds (Suc (rows_in D tname)) bp b \<and> represents c' b D \<and>
    (if status_ok st then c' = entered (index_data iname tname cname hid) c else c' = c \<and> index_refused iname tname cname c D)"
proof -
  let ?rs = "heap_records (pool_page bp) (fst (P tname))" and ?bk0 = "replicate DEFAULT_BUCKET_COUNT []"
  define ps where "ps = fst (P tname)"
  have okp: "pool_ok {} bp" using assms(1) by (simp add: db_on_def)
  have hc: "outside_kept [] bp b1" "keeps_health bp b1" "fresh_page hid bp" "aside hid bp b1" "hi_state b1 hid ?bk0"
    "hi_entries (pool_page b1) ?bk0 = {}"
    using HI_Create_spec[OF okp _ _ assms(9)] by (auto simp: DEFAULT_BUCKET_COUNT_def MaxBucketCount_eq)
  have a1: "adds 1 bp b1" by (rule HI_Create_adds[OF assms(9)])
  have ok1: "pool_ok {} b1" using hc(5) by (simp add: hi_state_def)
  have h1: "healthy b1" by (rule healthy_kept[OF assms(2) hc(2) ok1]) (use hc(1) in \<open>simp add: outside_kept_def\<close>)
  have g1: "grows [] (hi_pages hid ?bk0) bp" using fresh_unused[OF okp hc(3)] by (auto simp: grows_def hi_pages_def)
  have t1: "table_in c tname b1 sch first bs ps (snd (P tname)) R"
    unfolding ps_def by (rule table_in_frame[OF assms(5) ok1 hc(1)]) simp
  have hf: "hf_state b1 first ps" by (rule table_inD(4)[OF t1])
  have eq: "heap_records (pool_page b1) ps = ?rs"
  proof -
    have "hf_state bp first ps" using table_inD(4)[OF assms(5)] by (simp add: ps_def)
    then show ?thesis unfolding ps_def[symmetric]
      using outside_kept_page[OF hc(1)] heap_object.st_used[of bp first ps] by (intro heap_records_cong) auto
  qed
  have rows: "rows_in D tname = card (dom R)" "length ?rs = card (dom R)"
    using table_records(1)[OF assms(5)] assms(3) by (simp_all add: rows_in_def)
  have ap: "set (hi_pages hid ?bk0) \<inter> set ps = {}"
    using apart_after[OF table_in_state[OF assms(5)] g1] by (auto simp: ps_def tbl_pages_def)
  define s where "s = fst (SeqScan_Open (new_SeqScanOperator (Some first) False))"
  have so: "SeqScan_Open (new_SeqScanOperator (Some first) False) = (s, Status_OK)" "ss_heap_file s = Some first"
    by (simp_all add: s_def SeqScan_Open_def new_SeqScanOperator_def)
  have sq: "seq_remaining b1 s ?rs"
    using hf by (auto simp: s_def SeqScan_Open_def new_SeqScanOperator_def seq_remaining_def eq[symmetric])
  have cl: "col < length sch" using column_at_Some[OF assms(6)] by simp
  have rv: "\<forall>r \<in> set ?rs. heap_contents (pool_page b1) ps (rec_rid r) = Some (rec_data r) \<and> (\<exists>v. GetValue sch r col = Inr v)"
  proof
    fix r assume r: "r \<in> set ?rs"
    then have "heap_contents (pool_page b1) ps (rec_rid r) = Some (rec_data r)" by (simp add: heap_records_contents eq[symmetric])
    then show "heap_contents (pool_page b1) ps (rec_rid r) = Some (rec_data r) \<and> (\<exists>v. GetValue sch r col = Inr v)"
      using table_records(2)[OF assms(5) r] cl by auto
  qed
  have rm: "room (length ?rs) b1" using room_adds[OF _ a1, of "length ?rs"] assms(10) rows by simp
  from IndexRows_spec[OF h1 sq so(2) hf hc(5) ap rm rv] obtain s' b2 st bk where i:
    "IndexRows sch col hid s b1 = Some (s', b2, st)" "healthy b2" "adds (length ?rs) b1 b2" "outside_kept (hi_pages hid ?bk0) b1 b2"
    "hi_state b2 hid bk" "grows (hi_pages hid ?bk0) (hi_pages hid bk) b1"
    "if status_ok st then status_ok (ss_status s') \<and> hi_entries (pool_page b2) bk = hi_entries (pool_page b1) ?bk0 \<union> row_entries sch col ?rs
     else unindexable sch col ?rs" by (elim exE conjE) (rule that)
  have out: "outside_kept [] bp b2" by (rule outside_kept_grown[OF hc(1) g1 i(4)])
  have g2: "grows [] (hi_pages hid bk) bp" by (rule grows_trans[OF hc(1) g1 i(6)])
  have a2: "adds (Suc (rows_in D tname)) bp b2" using adds_trans[OF a1 i(3)] rows by simp
  define st' where "st' = ClosePlan (SeqScanOperator s') st"
  have st': "status_ok st' \<longleftrightarrow> status_ok st" using i(7) by (auto simp: st'_def ClosePlan_def SeqScan_Close_def)
  have fp: "new_HeapFile first = Inr first" using table_first table_inD(2)[OF t1] by (auto simp: table_ok_def)
  have fill: "FillIndex fo iname tname cname sch first col hid c b1 =
      (if \<not> status_ok st' then map_option (\<lambda>(bp, st). (bp, c, st)) (DestroyIndexAfterFailure (Some hid) st' b2)
       else CM_CreateIndex iname tname cname (Some hid) c (FlushAllPages (fo b2) b2))"
    using so(1) i(1) fp by (simp add: FillIndex_def st'_def[symmetric] Let_def)
  show ?thesis
  proof (cases "status_ok st")
    case False
    then have "unindexable sch col ?rs" using i(7) by simp
    then obtain r v where r: "r \<in> set ?rs" "GetValue sch r col = Inr v" "v \<noteq> FNull" "isl (Encode v)" by (auto simp: unindexable_def)
    obtain vs where "R (rec_rid r) = Some vs" "GetValue sch r col = Inr (vs ! col)" using table_records(2)[OF assms(5) r(1)] cl by auto
    then have "\<exists>rid vs. R rid = Some vs \<and> vs ! col \<noteq> FNull \<and> isl (Encode (vs ! col))" using r(2-4) by auto
    then have ref: "index_refused iname tname cname c D" using assms(3,6) by (simp add: index_refused_def)
    obtain b3 where u: "HI_Destroy hid b2 = Some (b3, INVALID_PAGE_ID, Status_OK)" "healthy b3" "db_on c b3 P D"
      "adds (Suc (rows_in D tname)) bp b3" by (rule index_undone[OF assms(1) out g2 i(5,2) a2])
    then show ?thesis using fill False st' ref by (auto simp: DestroyIndexAfterFailure_def represents_def)
  next
    case True
    let ?b = "FlushAllPages (fo b2) b2"
    have ok2: "pool_ok {} b2" using i(2) by (simp add: healthy_def)
    have fo: "set (fo b2) \<subseteq> dom (page_table b2)" using assms(11) by blast
    have ro: "only_reads b2 ?b"
      using FlushAllPages_spec[OF ok2 fo] FlushAllPages_kept[OF ok2 fo] by (simp add: only_reads_def read_only_def)
    have ro': "read_only b2 ?b" "adds 0 b2 ?b" using ro by (simp_all add: only_reads_def)
    have h3: "healthy ?b" by (rule only_reads_healthy[OF ro i(2)])
    have hi3: "hi_state ?b hid bk" using hash_object.unchanged[OF i(5) ro'(1)] by simp
    have e3: "hi_entries (pool_page ?b) bk = row_entries sch col ?rs" using i(7) True hc(6) read_only_pages[OF ro'(1)] by simp
    have o3: "outside_kept [] bp ?b"
      by (rule outside_kept_trans[OF out outside_kept_same]) (use ro'(1) in \<open>simp_all add: read_only_def\<close>)
    have a3: "adds (Suc (rows_in D tname)) bp ?b" by (rule adds_0(1)[OF a2 ro'(2)])
    show ?thesis
    proof (cases "iname = []")
      case empty: True
      then have res: "CM_CreateIndex iname tname cname (Some hid) c ?b =
          Some (?b, c, InvalidArgument ''Index metadata and object must be valid'')"
        using assms(1) by (simp add: CM_CreateIndex_def db_on_def cat_ready_def)
      have "pool_ok {} ?b" using h3 by (simp add: healthy_def)
      then have "represents c ?b D" unfolding represents_def using db_frame[OF assms(1) _ o3] by fastforce
      then show ?thesis using fill True st' res h3 a3 empty by (simp add: index_refused_def)
    next
      case False
      have acc: "index_accepted iname tname cname c" by (rule creation_accepted[OF assms(1,3,4,6-8) False])
      have i32: "is_i32 hid" by (rule fresh_i32[OF hc(3) room_mono[OF assms(10)]]) simp
      from CM_CreateIndex_db[OF assms(1,3,4) acc assms(5,6) h3 o3 g2 hi3 i32 a3 e3] show ?thesis
        using fill True st' by (fastforce simp: index_refused_def)
    qed
  qed
qed

theorem ExecuteCreateIndex_spec:
  assumes "represents c bp D" "healthy bp" "room (Suc (rows_in D tname)) bp" "\<forall>b. set (fo b) \<subseteq> dom (page_table b)"
  shows "\<exists>b c' st. ExecuteCreateIndex fo iname tname cname c bp = Some (b, c', st) \<and> healthy b \<and>
    adds (Suc (rows_in D tname)) bp b \<and> represents c' b D \<and>
    (if status_ok st then \<not> CM_HasIndex tname cname c \<and> (\<exists>hid. c' = entered (index_data iname tname cname hid) c)
     else c' = c \<and> index_refused iname tname cname c D)"
proof -
  obtain P where db: "db_on c bp P D" using assms(1) by (auto simp: represents_def)
  have rdy: "cat_ready c" using db by (simp add: db_on_def)
  have w: "status_ok (initialization_status c)" using rdy by (simp add: cat_ready_def)
  have a0: "adds (Suc (rows_in D tname)) bp bp" by simp
  show ?thesis
  proof (cases "CM_HasIndex tname cname c \<or> CM_HasIndexName iname c")
    case True
    then show ?thesis using assms(1,2) a0 by (auto simp: ExecuteCreateIndex_def index_refused_def)
  next
    case fresh: False
    show ?thesis
    proof (cases "D tname")
      case None
      then have "map_of (cat_tables c) tname = None" using db_dom[OF db] by simp
      then show ?thesis using assms(1,2) a0 fresh None w by (simp add: ExecuteCreateIndex_def index_refused_def CM_GetTableSchema_def)
    next
      case (Some x)
      then obtain sch R where d: "D tname = Some (sch, R)" by (cases x) auto
      obtain first bs where t: "table_in c tname bp sch first bs (fst (P tname)) (snd (P tname)) R" by (rule db_tableE[OF db d])
      note B = table_inD(1)[OF t]
      obtain m where m: "map_of (cat_tables c) tname = Some m" "tm_schema m = sch" "tm_first_page_id m = first"
        using B by (auto simp: table_bindings_def)
      show ?thesis
      proof (cases "column_at sch cname")
        case None
        then show ?thesis using assms(1,2) a0 fresh d m w
          by (simp add: ExecuteCreateIndex_def index_refused_def CM_GetTableSchema_def CM_GetTableFirstPageId_def FindColumn_at)
      next
        case col: (Some col)
        obtain b1 r where cr: "HI_Create DEFAULT_BUCKET_COUNT bp = (b1, r)" by (cases "HI_Create DEFAULT_BUCKET_COUNT bp")
        have "pool_ok {} bp" using db by (simp add: db_on_def)
        then obtain hid where hid: "r = Inr hid"
          using HI_Create_spec[OF _ _ _ cr] assms(2) by (cases r) (auto simp: DEFAULT_BUCKET_COUNT_def MaxBucketCount_eq)
        have "ExecuteCreateIndex fo iname tname cname c bp = FillIndex fo iname tname cname sch first col hid c b1"
          using fresh m w cr hid col
          by (simp add: ExecuteCreateIndex_def CM_GetTableSchema_def CM_GetTableFirstPageId_def FindColumn_at)
        moreover have n: "\<not> CM_HasIndex tname cname c" "\<not> CM_HasIndexName iname c" using fresh by simp_all
        ultimately show ?thesis
          using FillIndex_spec[OF db assms(2) d B t col n cr[unfolded hid] assms(3,4)] by fastforce
      qed
    qed
  qed
qed

end
