(* ===== verification/Statement_Correct.thy ===== *)
theory Statement_Correct
  imports Create_Index_Correct Parser_Correct
begin

text \<open>
  The statements on the database: what each does to the tables when it succeeds, what may be left when it
  fails, and that the executor does no more than that.
\<close>

section \<open>The statements as changes of the database\<close>

text \<open>What a statement that succeeds has done.\<close>

fun effect :: "sql_statement \<Rightarrow> database \<Rightarrow> database \<Rightarrow> bool" where
  "effect (SelectStatement t names qs e) D D' \<longleftrightarrow> D' = D"
| "effect (CreateTableStatement t ds) D D' \<longleftrightarrow> D t = None \<and> (\<exists>sch. schema_denoted ds sch \<and> D' = D(t \<mapsto> (sch, \<lambda>_. None)))"
| "effect (CreateIndexStatement i t cn) D D' \<longleftrightarrow> D' = D"
| "effect (InsertStatement t ls) D D' \<longleftrightarrow> (\<exists>sch R rid vs. D t = Some (sch, R) \<and> R rid = None \<and> row_denoted sch ls vs \<and>
     D' = D(t \<mapsto> (sch, R(rid \<mapsto> vs))))"
| "effect (UpdateStatement t cn l qs) D D' \<longleftrightarrow> (\<exists>sch R i v. D t = Some (sch, R) \<and> update_target sch cn l i v \<and>
     D' = D(t \<mapsto> (sch, set_column i v (query_rids sch R qs) R)))"
| "effect (DeleteStatement t qs) D D' \<longleftrightarrow> (\<exists>sch R. D t = Some (sch, R) \<and> D' = D(t \<mapsto> (sch, R |` (- query_rids sch R qs))))"

text \<open>What one that fails may have done: an UPDATE or a DELETE stops at the row that fails and keeps the rows it
  has changed.\<close>

fun partial_effect :: "sql_statement \<Rightarrow> database \<Rightarrow> database \<Rightarrow> bool" where
  "partial_effect (UpdateStatement t cn l qs) D D' \<longleftrightarrow> D' = D \<or> (\<exists>sch R i v S. D t = Some (sch, R) \<and>
     update_target sch cn l i v \<and> S \<subseteq> query_rids sch R qs \<and> D' = D(t \<mapsto> (sch, set_column i v S R)))"
| "partial_effect (DeleteStatement t qs) D D' \<longleftrightarrow> D' = D \<or> (\<exists>sch R S. D t = Some (sch, R) \<and>
     S \<subseteq> query_rids sch R qs \<and> D' = D(t \<mapsto> (sch, R |` (- S))))"
| "partial_effect _ D D' \<longleftrightarrow> D' = D"

text \<open>The statements the parser makes, and how many pages each may add.\<close>

definition executable :: "sql_statement \<Rightarrow> bool" where
  "executable s \<longleftrightarrow> statement_ok s \<and> (case s of CreateTableStatement t ds \<Rightarrow> length ds < 4294967296 | _ \<Rightarrow> True)"

definition index_count :: "catalog \<Rightarrow> string \<Rightarrow> nat" where
  "index_count c name = (case LoadTable \<lparr>ts_bpm = True, ts_catalog = Some c\<rparr> name of Inl _ \<Rightarrow> 0 | Inr (sch, first, bs) \<Rightarrow> length bs)"

fun growth :: "sql_statement \<Rightarrow> catalog \<Rightarrow> database \<Rightarrow> nat" where
  "growth (SelectStatement t names qs e) c D = 0"
| "growth (CreateTableStatement t ds) c D = 1"
| "growth (CreateIndexStatement i t cn) c D = Suc (rows_in D t)"
| "growth (InsertStatement t ls) c D = 1 + index_count c t"
| "growth (UpdateStatement t cn l qs) c D = rows_in D t * (3 * index_count c t)"
| "growth (DeleteStatement t qs) c D = rows_in D t * index_count c t"

lemma identifier_plain: "is_identifier w \<Longrightarrow> w \<noteq> [] \<and> plain_name w"
proof -
  have "\<not> word_char (CHR ''.'')" by code_simp
  then show "is_identifier w \<Longrightarrow> w \<noteq> [] \<and> plain_name w" by (auto simp: is_identifier_def is_word_def plain_name_def)
qed

lemma conditions_literals: "list_all condition_ok qs \<Longrightarrow> list_all (\<lambda>q. literal_ok (cond_value q)) qs"
  by (auto simp: list_all_iff condition_ok_def)

section \<open>Tables that are there, and tables that are not\<close>

lemma represents_ok: "represents c bp D \<Longrightarrow> pool_ok {} bp \<and> status_ok (initialization_status c) \<and> has_bpm c"
  by (auto simp: represents_def db_on_def cat_ready_def)

lemma table_missing:
  assumes "represents c bp D" "D name = None"
  obtains st where "CM_GetTableSchema name c = Inl st" "\<not> status_ok st"
proof -
  have "map_of (cat_tables c) name = None" "status_ok (initialization_status c)"
    using assms db_dom[of c bp _ D name] by (auto simp: represents_def db_on_def cat_ready_def)
  then show ?thesis using that by (simp add: CM_GetTableSchema_def)
qed

lemma table_present:
  assumes "represents c bp D" "D name = Some (sch, R)"
  obtains P first bs where "db_on c bp P D" "table_in c name bp sch first bs (fst (P name)) (snd (P name)) R"
    "index_count c name = length bs"
proof -
  obtain P where db: "db_on c bp P D" using assms(1) by (auto simp: represents_def)
  obtain first bs where t: "table_in c name bp sch first bs (fst (P name)) (snd (P name)) R" by (rule db_tableE[OF db assms(2)])
  have "index_count c name = length bs" using table_inD(1)[OF t] by (auto simp: table_bindings_def index_count_def)
  then show ?thesis using that db t by blast
qed

lemma query_finite:
  assumes "represents c bp D" "D name = Some (sch, R)"
  shows "finite (query_rids sch R qs)"
proof -
  obtain P first bs where t: "table_in c name bp sch first bs (fst (P name)) (snd (P name)) R" by (rule table_present[OF assms])
  show ?thesis by (rule table_rows_finite[OF t])
qed

lemma query_rows:
  assumes "represents c bp D" "D name = Some (sch, R)"
  shows "card (query_rids sch R qs) \<le> rows_in D name"
proof -
  have "finite (query_rids sch R [])" by (rule query_finite[OF assms])
  moreover have "query_rids sch R [] = dom R" by (auto simp: query_rids_def)
  moreover have "query_rids sch R qs \<subseteq> dom R" by (auto simp: query_rids_def)
  ultimately show ?thesis using assms(2) by (simp add: rows_in_def card_mono)
qed

lemma represents_read: "represents c bp D \<Longrightarrow> only_reads bp b \<Longrightarrow> represents c b D"
  using db_reads unfolding represents_def by blast

section \<open>Each statement\<close>

lemma select_on_db:
  assumes "represents c bp D" "D name = Some (sch, R)" "list_all condition_ok qs"
  shows "\<exists>st1 res b st. ExecuteSelect c name names qs wanted stats bp = Some (st1, res, b, st) \<and> only_reads bp b \<and> represents c b D \<and>
    select_done c name sch R names qs wanted stats (healthy bp \<or> scan_used c name qs = SEQUENTIAL)
      (\<not> healthy bp \<or> select_rejected c name sch R names qs) st1 res st"
proof -
  obtain P first bs where t: "table_in c name bp sch first bs (fst (P name)) (snd (P name)) R" by (rule table_present[OF assms(1,2)])
  have "\<forall>q \<in> set qs. literal_ok (cond_value q)" using conditions_literals[OF assms(3)] by (simp add: list_all_iff)
  from ExecuteSelect_spec[OF t this, of names wanted stats] represents_read[OF assms(1)] show ?thesis by blast
qed

lemma insert_on_db:
  assumes "represents c bp D" "D name = Some (sch, R)" "list_all literal_ok ls" "room (1 + index_count c name) bp"
  shows "\<exists>st1 b st. ExecuteInsert c name ls stats bp = Some (st1, b, st) \<and>
    (if status_ok st then rows_affected st1 = 1 \<and> (\<exists>rid vs. R rid = None \<and> row_denoted sch ls vs \<and>
         represents c b (D(name \<mapsto> (sch, R(rid \<mapsto> vs)))) \<and> (healthy bp \<longrightarrow> healthy b))
     else represents c b D \<and> (healthy bp \<longrightarrow> healthy b) \<or> \<not> healthy bp \<and> rollback_failed insert_rollbacks st)"
proof -
  obtain P first bs where t: "db_on c bp P D" "table_in c name bp sch first bs (fst (P name)) (snd (P name)) R"
    "index_count c name = length bs" by (rule table_present[OF assms(1,2)])
  have same: "D(name \<mapsto> (sch, R)) = D" using assms(2) by (simp add: fun_upd_idem)
  have C: "represents c b (D(name \<mapsto> (sch, R'))) \<and> (healthy bp \<longrightarrow> healthy b)"
    if "table_changed n c name sch first bs bp (fst (P name)) (snd (P name)) b R'" for n b R'
    using db_change[OF t(1) assms(2) that] that by (simp add: table_changed_def)
  from ExecuteInsert_spec[OF t(2) assms(3), of stats] assms(4) t(3) obtain st1 b st where
    r: "ExecuteInsert c name ls stats bp = Some (st1, b, st)" "if status_ok st
      then (\<exists>rid vs. R rid = None \<and> row_denoted sch ls vs \<and>
        table_changed (1 + length bs) c name sch first bs bp (fst (P name)) (snd (P name)) b (R(rid \<mapsto> vs)) \<and> rows_affected st1 = 1)
      else table_changed (1 + length bs) c name sch first bs bp (fst (P name)) (snd (P name)) b R \<or>
        \<not> healthy bp \<and> rollback_failed insert_rollbacks st" by auto
  show ?thesis
  proof (cases "status_ok st")
    case True
    then show ?thesis using r C by (intro exI[of _ st1] exI[of _ b] exI[of _ st]) fastforce
  next
    case False
    then have "represents c b D \<and> (healthy bp \<longrightarrow> healthy b) \<or> \<not> healthy bp \<and> rollback_failed insert_rollbacks st"
      using r(2) C same by (metis (full_types))
    then show ?thesis using r(1) False by (intro exI[of _ st1] exI[of _ b] exI[of _ st]) simp
  qed
qed

text \<open>What a change of rows leaves of the database.\<close>

definition db_changed ::
  "catalog \<Rightarrow> string \<Rightarrow> database \<Rightarrow> schema \<Rightarrow> row_map \<Rightarrow> condition list \<Rightarrow> (record_id set \<Rightarrow> row_map) \<Rightarrow> string list \<Rightarrow>
   query_stats \<Rightarrow> pool \<Rightarrow> query_stats \<Rightarrow> pool \<Rightarrow> status \<Rightarrow> bool" where
  "db_changed c name D sch R qs change ctxts stats bp st1 b st \<longleftrightarrow> (\<exists>S. S \<subseteq> query_rids sch R qs \<and>
     rows_affected st1 = rows_affected stats + card S \<and>
     (status_ok st \<longrightarrow> healthy bp \<or> scan_used c name qs = SEQUENTIAL \<longrightarrow> S = query_rids sch R qs) \<and>
     (represents c b (D(name \<mapsto> (sch, change S))) \<and> (healthy bp \<longrightarrow> healthy b) \<or>
      \<not> status_ok st \<and> \<not> healthy bp \<and> rollback_failed ctxts st))"

lemma change_done_db:
  assumes "change_done n c name sch first bs bp (fst (P name)) (snd (P name)) R qs change ctxts stats st1 b st"
    "db_on c bp P D" "D name = Some (sch, R)"
  shows "db_changed c name D sch R qs change ctxts stats bp st1 b st"
proof -
  have C: "represents c b (D(name \<mapsto> (sch, R'))) \<and> (healthy bp \<longrightarrow> healthy b)"
    if "table_changed n c name sch first bs bp (fst (P name)) (snd (P name)) b R'" for R'
    using db_change[OF assms(2,3) that] that by (simp add: table_changed_def)
  obtain S where "S \<subseteq> query_rids sch R qs" "rows_affected st1 = rows_affected stats + card S"
    "status_ok st \<longrightarrow> healthy bp \<or> scan_used c name qs = SEQUENTIAL \<longrightarrow> S = query_rids sch R qs"
    "table_changed n c name sch first bs bp (fst (P name)) (snd (P name)) b (change S) \<or>
     \<not> status_ok st \<and> \<not> healthy bp \<and> rollback_failed ctxts st" using assms(1) unfolding change_done_def by blast
  then show ?thesis using C unfolding db_changed_def by (intro exI[of _ S]) blast
qed

lemma update_on_db:
  assumes "represents c bp D" "D name = Some (sch, R)" "list_all condition_ok qs" "literal_ok l"
    "room (rows_in D name * (3 * index_count c name)) bp"
  shows "\<exists>st1 b st i v. ExecuteUpdate c name cn l qs stats bp = Some (st1, b, st) \<and>
    (update_target sch cn l i v \<or> \<not> status_ok st \<and> rows_affected st1 = rows_affected stats) \<and>
    db_changed c name D sch R qs (\<lambda>S. set_column i v S R) update_rollbacks stats bp st1 b st"
proof -
  obtain P first bs where t: "db_on c bp P D" "table_in c name bp sch first bs (fst (P name)) (snd (P name)) R"
    "index_count c name = length bs" by (rule table_present[OF assms(1,2)])
  have "room (card (query_rids sch R qs) * (3 * length bs)) bp"
    by (rule room_mono[OF assms(5)]) (use query_rows[OF assms(1,2)] t(3) in simp)
  from ExecuteUpdate_spec[OF t(2) conditions_literals[OF assms(3)] assms(4) this, of cn stats] change_done_db[OF _ t(1) assms(2)]
  show ?thesis by blast
qed

lemma delete_on_db:
  assumes "represents c bp D" "D name = Some (sch, R)" "list_all condition_ok qs" "room (rows_in D name * index_count c name) bp"
  shows "\<exists>st1 b st. ExecuteDelete c name qs stats bp = Some (st1, b, st) \<and>
    db_changed c name D sch R qs (\<lambda>S. R |` (- S)) delete_rollbacks stats bp st1 b st"
proof -
  obtain P first bs where t: "db_on c bp P D" "table_in c name bp sch first bs (fst (P name)) (snd (P name)) R"
    "index_count c name = length bs" by (rule table_present[OF assms(1,2)])
  have "room (card (query_rids sch R qs) * length bs) bp"
    by (rule room_mono[OF assms(4)]) (use query_rows[OF assms(1,2)] t(3) in simp)
  from ExecuteDelete_spec[OF t(2) conditions_literals[OF assms(3)] this, of stats] change_done_db[OF _ t(1) assms(2)]
  show ?thesis by blast
qed

section \<open>Any statement\<close>

lemma db_changed_effect:
  assumes "db_changed c name D sch R qs change ctxts stats bp st1 b st" "healthy bp" "change {} = R" "D name = Some (sch, R)"
  obtains S where "S \<subseteq> query_rids sch R qs" "status_ok st \<Longrightarrow> S = query_rids sch R qs"
    "rows_affected st1 = rows_affected stats + card S" "represents c b (D(name \<mapsto> (sch, change S)))" "healthy b"
  using assms(1,2) unfolding db_changed_def by blast

lemma statement_on_db:
  assumes "represents c bp D" "healthy bp" "executable s" "room (growth s c D) bp" "\<forall>b. set (fo b) \<subseteq> dom (page_table b)"
  shows "\<exists>stats1 res b c' st D'. ExecuteStatement fo s wanted stats c bp = Some (stats1, res, b, c', st) \<and> healthy b \<and>
    represents c' b D' \<and> (if status_ok st then effect s D D' else partial_effect s D D')"
proof (cases s)
  case (SelectStatement t names qs e)
  show ?thesis
  proof (cases "D t")
    case None
    obtain st where "CM_GetTableSchema t c = Inl st" "\<not> status_ok st" by (rule table_missing[OF assms(1) None])
    then show ?thesis using assms(1,2) SelectStatement by (simp add: ExecuteStatement_def ExecuteSelect_def BuildPlan_def)
  next
    case (Some x)
    then obtain sch R where d: "D t = Some (sch, R)" by (cases x) auto
    have "list_all condition_ok qs" using assms(3) SelectStatement by (simp add: executable_def)
    from select_on_db[OF assms(1) d this, of names wanted stats] obtain st1 res b st where
      r: "ExecuteSelect c t names qs wanted stats bp = Some (st1, res, b, st)" "only_reads bp b" "represents c b D" by auto
    then show ?thesis using only_reads_healthy[OF r(2) assms(2)] SelectStatement
      by (intro exI[of _ st1] exI[of _ res] exI[of _ b] exI[of _ c] exI[of _ st] exI[of _ D]) (simp add: ExecuteStatement_def)
  qed
next
  case (CreateTableStatement t ds)
  obtain P where db: "db_on c bp P D" using assms(1) by (auto simp: represents_def)
  have ok: "is_identifier t" "list_all (\<lambda>d. def_length d < 4294967296) ds" "length ds < 4294967296"
    using assms(3) CreateTableStatement by (auto simp: executable_def column_ok_def list_all_iff)
  have rm: "room 1 bp" using assms(4) CreateTableStatement by simp
  have pl: "plain_name t" using identifier_plain[OF ok(1)] by blast
  from ExecuteCreateTable_spec[OF db assms(2) rm pl ok(2,3)] obtain b c' st where
    r: "ExecuteCreateTable t ds c bp = (b, c', st)" "healthy b"
    "if status_ok st then t \<noteq> [] \<and> D t = None \<and> (\<exists>sch. sch \<noteq> [] \<and> schema_denoted ds sch \<and> represents c' b (D(t \<mapsto> (sch, \<lambda>_. None))))
     else c' = c \<and> represents c b D \<and> (t = [] \<or> ds = [] \<or> D t \<noteq> None \<or> (\<nexists>sch. schema_denoted ds sch) \<or>
       (\<exists>sch p. schema_denoted ds sch \<and> \<not> cat_fits (with_table t sch p c)))" by (elim exE conjE) (rule that)
  have x: "ExecuteStatement fo s wanted stats c bp = Some (stats, new_QueryResult, b, c', st)"
    using CreateTableStatement r(1) by (simp add: ExecuteStatement_def)
  show ?thesis
  proof (cases "status_ok st")
    case True
    then obtain sch where "schema_denoted ds sch" "D t = None" "represents c' b (D(t \<mapsto> (sch, \<lambda>_. None)))" using r(3) by auto
    then show ?thesis using x r(2) True CreateTableStatement by auto
  next
    case False
    then show ?thesis using x r(2,3) CreateTableStatement by auto
  qed
next
  case (CreateIndexStatement i t cn)
  have rm: "room (Suc (rows_in D t)) bp" using assms(4) CreateIndexStatement by simp
  from ExecuteCreateIndex_spec[OF assms(1,2) rm assms(5), of i cn] show ?thesis
    using CreateIndexStatement by (force simp: ExecuteStatement_def)
next
  case (UpdateStatement t cn l qs)
  show ?thesis
  proof (cases "D t")
    case None
    obtain st where "CM_GetTableSchema t c = Inl st" "\<not> status_ok st" by (rule table_missing[OF assms(1) None])
    then show ?thesis using assms(1,2) UpdateStatement by (auto simp: ExecuteStatement_def ExecuteUpdate_def BuildPlan_def)
  next
    case (Some x)
    then obtain sch R where d: "D t = Some (sch, R)" by (cases x) auto
    have ok: "list_all condition_ok qs" "literal_ok l" using assms(3) UpdateStatement by (simp_all add: executable_def)
    have rm: "room (rows_in D t * (3 * index_count c t)) bp" using assms(4) UpdateStatement by simp
    from update_on_db[OF assms(1) d ok rm, of cn stats] obtain st1 b st i v where
      r: "ExecuteUpdate c t cn l qs stats bp = Some (st1, b, st)" "update_target sch cn l i v \<or> \<not> status_ok st \<and> rows_affected st1 = rows_affected stats"
      "db_changed c t D sch R qs (\<lambda>S. set_column i v S R) update_rollbacks stats bp st1 b st" by blast
    have e: "set_column i v {} R = R" by (simp add: set_column_def)
    obtain S where S: "S \<subseteq> query_rids sch R qs" "status_ok st \<Longrightarrow> S = query_rids sch R qs"
      "rows_affected st1 = rows_affected stats + card S" "represents c b (D(t \<mapsto> (sch, set_column i v S R)))" "healthy b"
      by (rule db_changed_effect[OF r(3) assms(2) e d]) (rule that)
    have empty: "S = {}" if "rows_affected st1 = rows_affected stats"
      using that S(3) finite_subset[OF S(1) query_finite[OF assms(1) d]] by simp
    have same: "D(t \<mapsto> (sch, R)) = D" using d by (simp add: map_upd_triv)
    have x: "ExecuteStatement fo s wanted stats c bp = Some (st1, new_QueryResult, b, c, st)"
      using r(1) UpdateStatement by (simp add: ExecuteStatement_def)
    have "if status_ok st then effect s D (D(t \<mapsto> (sch, set_column i v S R))) else partial_effect s D (D(t \<mapsto> (sch, set_column i v S R)))"
    proof (cases "update_target sch cn l i v")
      case True
      then have "partial_effect s D (D(t \<mapsto> (sch, set_column i v S R)))"
        unfolding UpdateStatement partial_effect.simps using S(1) d by blast
      then show ?thesis using True S(2) d UpdateStatement by auto
    next
      case False
      then show ?thesis using r(2) UpdateStatement empty e same by auto
    qed
    then show ?thesis using x S(4,5) by blast
  qed
next
  case (DeleteStatement t qs)
  show ?thesis
  proof (cases "D t")
    case None
    obtain st where "CM_GetTableSchema t c = Inl st" "\<not> status_ok st" by (rule table_missing[OF assms(1) None])
    then show ?thesis using assms(1,2) DeleteStatement by (auto simp: ExecuteStatement_def ExecuteDelete_def BuildPlan_def)
  next
    case (Some x)
    then obtain sch R where d: "D t = Some (sch, R)" by (cases x) auto
    have ok: "list_all condition_ok qs" using assms(3) DeleteStatement by (simp add: executable_def)
    have rm: "room (rows_in D t * index_count c t) bp" using assms(4) DeleteStatement by simp
    from delete_on_db[OF assms(1) d ok rm, of stats] obtain st1 b st where
      r: "ExecuteDelete c t qs stats bp = Some (st1, b, st)"
      "db_changed c t D sch R qs (\<lambda>S. R |` (- S)) delete_rollbacks stats bp st1 b st" by blast
    have e: "R |` (- {}) = R" by (simp add: restrict_map_def)
    obtain S where S: "S \<subseteq> query_rids sch R qs" "status_ok st \<Longrightarrow> S = query_rids sch R qs"
      "rows_affected st1 = rows_affected stats + card S" "represents c b (D(t \<mapsto> (sch, R |` (- S))))" "healthy b" by (rule db_changed_effect[OF r(2) assms(2) e d]) (rule that)
    have x: "ExecuteStatement fo s wanted stats c bp = Some (st1, new_QueryResult, b, c, st)"
      using r(1) DeleteStatement by (simp add: ExecuteStatement_def)
    have "if status_ok st then effect s D (D(t \<mapsto> (sch, R |` (- S)))) else partial_effect s D (D(t \<mapsto> (sch, R |` (- S))))"
      using S(1,2) d DeleteStatement by auto
    then show ?thesis using x S(4,5) by blast
  qed
next
  case (InsertStatement t ls)
  show ?thesis
  proof (cases "D t")
    case None
    obtain st where "CM_GetTableSchema t c = Inl st" "\<not> status_ok st" by (rule table_missing[OF assms(1) None])
    then show ?thesis using assms(1,2) InsertStatement by (simp add: ExecuteStatement_def ExecuteInsert_def)
  next
    case (Some x)
    then obtain sch R where d: "D t = Some (sch, R)" by (cases x) auto
    have ok: "list_all literal_ok ls" using assms(3) InsertStatement by (simp add: executable_def)
    have rm: "room (1 + index_count c t) bp" using assms(4) InsertStatement by simp
    from insert_on_db[OF assms(1) d ok rm, of stats] obtain st1 b st where
      r: "ExecuteInsert c t ls stats bp = Some (st1, b, st)"
      "if status_ok st then rows_affected st1 = 1 \<and> (\<exists>rid vs. R rid = None \<and> row_denoted sch ls vs \<and>
         represents c b (D(t \<mapsto> (sch, R(rid \<mapsto> vs)))) \<and> (healthy bp \<longrightarrow> healthy b))
       else represents c b D \<and> (healthy bp \<longrightarrow> healthy b) \<or> \<not> healthy bp \<and> rollback_failed insert_rollbacks st" by blast
    have x: "ExecuteStatement fo s wanted stats c bp = Some (st1, new_QueryResult, b, c, st)"
      using r(1) InsertStatement by (simp add: ExecuteStatement_def)
    show ?thesis
    proof (cases "status_ok st")
      case True
      then obtain rid vs where v: "R rid = None" "row_denoted sch ls vs" "represents c b (D(t \<mapsto> (sch, R(rid \<mapsto> vs))))" "healthy b"
        using r(2) assms(2) by auto
      have "effect s D (D(t \<mapsto> (sch, R(rid \<mapsto> vs))))" using d v(1,2) InsertStatement by auto
      then show ?thesis using x v(3,4) True by (metis (full_types))
    next
      case False
      then show ?thesis using x r(2) assms(2) InsertStatement by auto
    qed
  qed
qed

lemma Execute_on_db:
  assumes "represents c bp D" "healthy bp" "executable s" "room (growth s c D) bp" "\<forall>b. set (fo b) \<subseteq> dom (page_table b)"
  shows "\<exists>b c' stats res st D'. Execute fo s wanted \<lparr>qe_catalog = Some c, qe_bpm = True\<rparr> bp =
      Some (\<lparr>qe_catalog = Some c', qe_bpm = True\<rparr>, b, stats, res, st) \<and> healthy b \<and> represents c' b D' \<and>
    (if status_ok st then effect s D D' else partial_effect s D D')"
proof -
  from statement_on_db[OF assms, of wanted new_QueryStats] obtain stats1 res b c' st D' where
    r: "ExecuteStatement fo s wanted new_QueryStats c bp = Some (stats1, res, b, c', st)" "healthy b" "represents c' b D'"
    "if status_ok st then effect s D D' else partial_effect s D D'" by (elim exE conjE) (rule that)
  have "status_ok (initialization_status c)" using represents_ok[OF assms(1)] by blast
  then show ?thesis using r(1-3) by (intro exI[of _ b] exI[of _ c'] exI[of _ "_\<lparr>pool_stats := _\<rparr>"] exI[of _ res] exI[of _ st] exI[of _ D'] conjI r(4)) (simp add: Execute_def)
qed

end
