(* ===== verification/Executor_Properties.thy ===== *)
theory Executor_Properties
  imports Statement_Correct
begin

text \<open>
  The properties of the executor: what every statement does to the database, on a pool without failures and
  on any other.
\<close>

section \<open>A database with one table and an index, for the witnesses\<close>

definition example_catalog :: "page_id \<Rightarrow> page_id \<Rightarrow> catalog" where
  "example_catalog p hid = entered (index_data ''i'' ''t'' ''a'' hid) (with_table ''t'' example_schema p empty_catalog)"

abbreviation "example_db \<equiv> [''t'' \<mapsto> (example_schema, \<lambda>_. None)]"

lemma example_catalog_facts:
  assumes "1 \<le> p" "is_i32 p" "1 \<le> hid" "is_i32 hid"
  shows "table_bindings (example_catalog p hid) ''t'' example_schema p (example_bindings hid)"
    "cat_ready (example_catalog p hid)" "has_bpm (example_catalog p hid)"
    "cat_tables (example_catalog p hid) = [(''t'', \<lparr>tm_name = ''t'', tm_schema = example_schema, tm_first_page_id = p\<rparr>)]"
proof -
  let ?t = "with_table ''t'' example_schema p empty_catalog"
  have rdy: "cat_ready ?t"
    by (rule with_table_ready) (use assms(1,2) in \<open>simp_all add: cat_ready_def example_storable plain_name_def\<close>)
  have "enterable (index_data ''i'' ''t'' ''a'' hid) ?t"
    using assms(3,4) by (simp add: enterable_def index_data_def index_storable_def with_table_def has_column_def column_found_def
        example_schema_def)
  then have "cat_wf (example_catalog p hid)" using rdy entered_wf by (simp add: example_catalog_def cat_ready_def)
  then show r: "cat_ready (example_catalog p hid)" using rdy by (simp add: cat_ready_def example_catalog_def)
  have "example_storage p hid = \<lparr>ts_bpm = True, ts_catalog = Some (example_catalog p hid)\<rparr>"
    by (simp add: example_storage_def example_catalog_def with_table_def entered_def emplace_def index_data_def MakeIndexKey_def Let_def)
  then show "table_bindings (example_catalog p hid) ''t'' example_schema p (example_bindings hid)"
    using r example_loaded[of p hid] by (simp add: table_bindings_def) (simp add: example_catalog_def with_table_def)
qed (simp_all add: example_catalog_def with_table_def)

lemma example_database:
  "\<exists>bp c. represents c bp example_db \<and> healthy bp \<and> room 1000 bp \<and> CM_HasIndex ''t'' ''a'' c \<and> index_count c ''t'' = 1"
proof -
  obtain bp p hid where e: "table_ok example_schema (example_bindings hid) p bp [p] [(hid, [[], []])]" "healthy bp" "room 1000 bp"
    "heap_contents (pool_page bp) [p] = (\<lambda>_. None)" using example_table by blast
  let ?c = "example_catalog p hid"
  have st: "hf_state bp p [p]" "hi_state bp hid [[], []]" using e(1) by (simp_all add: table_ok_def tbl_state_def)
  have i: "is_i32 q" if "1 \<le> q" "\<not> unused q bp" for q
  proof -
    obtain d where "pool_page bp q = Some d" using \<open>\<not> unused q bp\<close> by (auto simp: unused_def)
    then have "q < num_pages (pool_disk bp)" using pool_page_bound[of "{}" bp] e(2) by (simp add: healthy_def)
    then show ?thesis using room_num_pages[OF e(3)] \<open>1 \<le> q\<close> by (simp add: is_i32_def)
  qed
  have p: "1 \<le> p" "is_i32 p" "1 \<le> hid" "is_i32 hid"
    using heap_object.st_used[OF st(1), of p] hash_object.st_used[OF st(2), of hid] i by (simp_all add: hi_pages_def)
  note F = example_catalog_facts[OF p]
  let ?P = "\<lambda>_. ([p], [(hid, [[], []])])"
  have "table_in ?c ''t'' bp example_schema p (example_bindings hid) [p] [(hid, [[], []])] (\<lambda>_. None)"
    using F(1) e(1,4) by (simp add: table_in_def stored_empty)
  then have "db_on ?c bp ?P example_db"
    using F e(2) by (auto simp: db_on_def table_at_def healthy_def split: if_splits)
  moreover have "CM_HasIndex ''t'' ''a'' ?c"
    using F(2) by (simp add: CM_HasIndex_def cat_ready_def) (simp add: example_catalog_def with_table_def emplace_def index_data_def)
  moreover have "index_count ?c ''t'' = 1" using F(1) by (simp add: table_bindings_def index_count_def example_bindings_def)
  ultimately show ?thesis using e(2,3) unfolding represents_def by blast
qed

lemma literal_seven: "literal_ok (SQLLiteral Kind_NUMBER ''7'')"
proof -
  have "is_number ''7''" unfolding is_number_def by (intro exI[of _ "''7''"]) (simp add: isdigit_def)
  then show ?thesis by (simp add: literal_ok_def)
qed

section \<open>Every statement\<close>

text \<open>
  C1. The executor refines the tables as maps. On a pool without pins and failures, with room for the pages it may
  add, any statement the parser makes returns from a state that represents a database, the tables of the catalog with
  their rows in step with every index, and the state it leaves represents one again: after success the database the
  statement asks for, after an error the one before, or for UPDATE and DELETE one in which some of the rows asked
  for are changed.
\<close>

theorem execute_refines:
  assumes "represents c bp D" "healthy bp" "executable s" "room (growth s c D) bp" "\<forall>b. set (fo b) \<subseteq> dom (page_table b)"
  shows "\<exists>b c' stats res st D'. Execute fo s wanted \<lparr>qe_catalog = Some c, qe_bpm = True\<rparr> bp =
      Some (\<lparr>qe_catalog = Some c', qe_bpm = True\<rparr>, b, stats, res, st) \<and> healthy b \<and> represents c' b D' \<and>
    (if status_ok st then effect s D D' else partial_effect s D D')"
  by (rule Execute_on_db[OF assms])

theorem execute_refines_witness:
  "\<exists>c bp b c' stats res st D'. Execute (\<lambda>_. []) (InsertStatement ''t'' [SQLLiteral Kind_NUMBER ''7'']) False
      \<lparr>qe_catalog = Some c, qe_bpm = True\<rparr> bp = Some (\<lparr>qe_catalog = Some c', qe_bpm = True\<rparr>, b, stats, res, st) \<and>
    represents c bp example_db \<and> represents c' b D' \<and> (if status_ok st
      then \<exists>rid vs. row_denoted example_schema [SQLLiteral Kind_NUMBER ''7''] vs \<and> D' = [''t'' \<mapsto> (example_schema, [rid \<mapsto> vs])]
      else D' = example_db)"
proof -
  obtain bp c where e: "represents c bp example_db" "healthy bp" "room 1000 bp" "index_count c ''t'' = 1" using example_database by blast
  let ?s = "InsertStatement ''t'' [SQLLiteral Kind_NUMBER ''7'']"
  have "is_identifier ''t''" by code_simp
  then have x: "executable ?s" using literal_seven by (simp add: executable_def)
  have r: "room (growth ?s c example_db) bp" by (rule room_mono[OF e(3)]) (use e(4) in simp)
  from execute_refines[OF e(1,2) x r, of "\<lambda>_. []" False] obtain b c' stats res st D' where
    y: "Execute (\<lambda>_. []) ?s False \<lparr>qe_catalog = Some c, qe_bpm = True\<rparr> bp =
      Some (\<lparr>qe_catalog = Some c', qe_bpm = True\<rparr>, b, stats, res, st)" "represents c' b D'"
    "if status_ok st then effect ?s example_db D' else partial_effect ?s example_db D'" by auto
  show ?thesis
    by (rule exI[of _ c], rule exI[of _ bp], rule exI[of _ b], rule exI[of _ c'], rule exI[of _ stats], rule exI[of _ res],
        rule exI[of _ st], rule exI[of _ D']) (use e(1) y in \<open>auto split: if_splits\<close>)
qed

section \<open>SELECT\<close>

text \<open>
  C2. On a pool without pins and failures SELECT answers exactly: it either returns the columns asked for of the rows that
  satisfy every condition, each such row once, or the statement is one it must reject (a condition on no column of the
  table or with a value of the wrong type, a string too long for the index it would use, an unknown column, a row too
  large for a projection). The database is as before.
\<close>

theorem select_exact:
  assumes "represents c bp D" "D name = Some (sch, R)" "list_all condition_ok qs" "healthy bp"
  shows "\<exists>st1 res b st. ExecuteSelect c name names qs True stats bp = Some (st1, res, b, st) \<and> represents c b D \<and> healthy b \<and>
    (if status_ok st then \<exists>cols rids. query_columns sch names = Some cols \<and> distinct rids \<and> set rids = query_rids sch R qs \<and>
       qr_rows res = map (\<lambda>rid. pick cols (the (R rid))) rids \<and> qr_column_names res = map (\<lambda>i. col_name (sch ! i)) cols \<and>
       rows_returned st1 = rows_returned stats + card (query_rids sch R qs)
     else select_rejected c name sch R names qs)"
proof -
  from select_on_db[OF assms(1-3), of names True stats] assms(4) obtain st1 res b st where
    r: "ExecuteSelect c name names qs True stats bp = Some (st1, res, b, st)" "only_reads bp b" "represents c b D"
    "select_done c name sch R names qs True stats True (select_rejected c name sch R names qs) st1 res st" by auto
  have "if status_ok st then \<exists>cols rids. query_columns sch names = Some cols \<and> distinct rids \<and> set rids = query_rids sch R qs \<and>
       qr_rows res = map (\<lambda>rid. pick cols (the (R rid))) rids \<and> qr_column_names res = map (\<lambda>i. col_name (sch ! i)) cols \<and>
       rows_returned st1 = rows_returned stats + card (query_rids sch R qs)
     else select_rejected c name sch R names qs"
    using r(4) by (fastforce simp: select_done_def answers_def distinct_card[symmetric] split: if_splits)
  then show ?thesis using r(1,3) only_reads_healthy[OF r(2) assms(4)] by blast
qed

theorem select_exact_witness:
  "\<exists>c bp st1 res b st. represents c bp example_db \<and>
    ExecuteSelect c ''t'' [''*''] [Condition ''a'' ''='' (SQLLiteral Kind_NUMBER ''7'')] True new_QueryStats bp = Some (st1, res, b, st) \<and>
    (status_ok st \<longrightarrow> qr_rows res = [])"
proof -
  obtain bp c where e: "represents c bp example_db" "healthy bp" using example_database by blast
  let ?qs = "[Condition ''a'' ''='' (SQLLiteral Kind_NUMBER ''7'')]"
  have "is_identifier ''a''" by code_simp
  then have x: "list_all condition_ok ?qs" using literal_seven by (simp add: condition_ok_def)
  have q: "query_rids example_schema (\<lambda>_. None) ?qs = {}" by (simp add: query_rids_def)
  from select_exact[OF e(1) _ x e(2), of "''t''" example_schema "\<lambda>_. None" "[''*'']" new_QueryStats] q obtain st1 res b st where
    "ExecuteSelect c ''t'' [''*''] ?qs True new_QueryStats bp = Some (st1, res, b, st)" "status_ok st \<longrightarrow> qr_rows res = []"
    by (auto split: if_splits)
  then show ?thesis using e(1) by blast
qed

text \<open>
  C3. On any pool, also one whose frames are all pinned or whose disk fails, SELECT returns, changes nothing, and an
  answer without an error is sound: it consists of rows that satisfy the conditions, each at most once. A sequential
  scan that meets a failure reports it, so that its answer is complete; an index scan may have left out rows whose page
  could not be loaded.
\<close>

theorem select_on_failures:
  assumes "represents c bp D" "D name = Some (sch, R)" "list_all condition_ok qs"
  shows "\<exists>st1 res b st. ExecuteSelect c name names qs True stats bp = Some (st1, res, b, st) \<and> represents c b D \<and>
    (status_ok st \<longrightarrow> (\<exists>cols rids. query_columns sch names = Some cols \<and> distinct rids \<and> set rids \<subseteq> query_rids sch R qs \<and>
       (\<not> list_ex (\<lambda>q. cond_op q = ''='' \<and> CM_HasIndex name (cond_column q) c) qs \<longrightarrow> set rids = query_rids sch R qs) \<and>
       qr_rows res = map (\<lambda>rid. pick cols (the (R rid))) rids))"
proof -
  from select_on_db[OF assms, of names True stats] obtain st1 res b st where
    r: "ExecuteSelect c name names qs True stats bp = Some (st1, res, b, st)" "represents c b D"
    "select_done c name sch R names qs True stats (healthy bp \<or> scan_used c name qs = SEQUENTIAL)
       (\<not> healthy bp \<or> select_rejected c name sch R names qs) st1 res st" by auto
  have i: "(\<lambda>q. cond_op q = ''='' \<and> CM_HasIndex name (cond_column q) c) = indexable c name" by (simp add: fun_eq_iff indexable_def)
  have "status_ok st \<longrightarrow> (\<exists>cols rids. query_columns sch names = Some cols \<and> distinct rids \<and> set rids \<subseteq> query_rids sch R qs \<and>
       (\<not> list_ex (indexable c name) qs \<longrightarrow> set rids = query_rids sch R qs) \<and>
       qr_rows res = map (\<lambda>rid. pick cols (the (R rid))) rids)"
    using r(3) by (fastforce simp: select_done_def answers_def scan_used_def split: if_splits)
  then show ?thesis using r(1,2) unfolding i by blast
qed

theorem select_on_failures_witness:
  "\<exists>c bp st1 res b st. represents c bp example_db \<and>
    ExecuteSelect c ''t'' [''a''] [] True new_QueryStats bp = Some (st1, res, b, st) \<and> (status_ok st \<longrightarrow> qr_rows res = [])"
proof -
  obtain bp c where e: "represents c bp example_db" using example_database by blast
  have q: "query_rids example_schema (\<lambda>_. None) [] = {}" by (simp add: query_rids_def)
  from select_on_failures[OF e, of "''t''" example_schema "\<lambda>_. None" "[]" "[''a'']" new_QueryStats] q obtain st1 res b st where
    "ExecuteSelect c ''t'' [''a''] [] True new_QueryStats bp = Some (st1, res, b, st)" "status_ok st \<longrightarrow> qr_rows res = []"
    by auto
  then show ?thesis using e by blast
qed

section \<open>INSERT, UPDATE and DELETE on any pool\<close>

text \<open>
  C4. On any pool with room INSERT returns and is atomic over the table and all its indexes: a success adds one row, the
  one the literals denote, under a fresh identifier; an error leaves the database as it was, unless the message says that
  undoing the insertion has failed too, which no pool without failures does.
\<close>

theorem insert_atomic:
  assumes "represents c bp D" "D name = Some (sch, R)" "list_all literal_ok ls" "room (1 + index_count c name) bp"
  shows "\<exists>st1 b st. ExecuteInsert c name ls stats bp = Some (st1, b, st) \<and>
    (if status_ok st then rows_affected st1 = 1 \<and> (\<exists>rid vs. R rid = None \<and> row_denoted sch ls vs \<and>
         represents c b (D(name \<mapsto> (sch, R(rid \<mapsto> vs)))))
     else represents c b D \<or> \<not> healthy bp \<and> rollback_failed insert_rollbacks st)"
  using insert_on_db[OF assms, of stats] by (fastforce split: if_splits)

theorem insert_atomic_witness:
  "\<exists>c bp st1 b st. represents c bp example_db \<and> ExecuteInsert c ''t'' [] new_QueryStats bp = Some (st1, b, st) \<and>
    \<not> status_ok st \<and> represents c b example_db"
proof -
  obtain bp c where e: "represents c bp example_db" "healthy bp" "room 1000 bp" "index_count c ''t'' = 1" using example_database by blast
  have r: "room (1 + index_count c ''t'') bp" by (rule room_mono[OF e(3)]) (use e(4) in simp)
  from insert_atomic[OF e(1) _ _ r, of example_schema "\<lambda>_. None" "[]" new_QueryStats] e(2) obtain st1 b st where
    "ExecuteInsert c ''t'' [] new_QueryStats bp = Some (st1, b, st)" "\<not> status_ok st" "represents c b example_db"
    by (auto simp: row_denoted_def example_schema_def split: if_splits)
  then show ?thesis using e(1) by blast
qed

text \<open>
  C5. On any pool with room UPDATE returns, and \<^verbatim>\<open>rows_affected\<close> tells the truth: it counts the rows \<open>S\<close> that now have in
  the column named the value the literal denotes; they are rows the conditions select, and no other row changes. When no
  error is returned and the pool is without failures or the plan is a sequential scan, they are all the selected rows; an
  index scan on a pool with failures leaves out the rows whose page it could not load and still returns no error. After an
  error the rows before the failing one stay changed. Only a rollback that fails, which the message says and no pool
  without failures does, can leave a table out of step.
\<close>

theorem update_counts:
  assumes "represents c bp D" "D name = Some (sch, R)" "list_all condition_ok qs" "literal_ok l"
    "room (rows_in D name * (3 * index_count c name)) bp"
  shows "\<exists>st1 b st i v S. ExecuteUpdate c name cn l qs stats bp = Some (st1, b, st) \<and> S \<subseteq> query_rids sch R qs \<and>
    rows_affected st1 = rows_affected stats + card S \<and> (status_ok st \<or> S \<noteq> {} \<longrightarrow> update_target sch cn l i v) \<and>
    (status_ok st \<longrightarrow> healthy bp \<or> scan_used c name qs = SEQUENTIAL \<longrightarrow> S = query_rids sch R qs) \<and>
    (represents c b (D(name \<mapsto> (sch, set_column i v S R))) \<or> \<not> status_ok st \<and> \<not> healthy bp \<and> rollback_failed update_rollbacks st)"
proof -
  from update_on_db[OF assms, of cn stats] obtain st1 b st i v where
    r: "ExecuteUpdate c name cn l qs stats bp = Some (st1, b, st)"
    "update_target sch cn l i v \<or> \<not> status_ok st \<and> rows_affected st1 = rows_affected stats"
    "db_changed c name D sch R qs (\<lambda>S. set_column i v S R) update_rollbacks stats bp st1 b st" by blast
  from r(3) obtain S where S: "S \<subseteq> query_rids sch R qs" "rows_affected st1 = rows_affected stats + card S"
    "status_ok st \<longrightarrow> healthy bp \<or> scan_used c name qs = SEQUENTIAL \<longrightarrow> S = query_rids sch R qs"
    "represents c b (D(name \<mapsto> (sch, set_column i v S R))) \<or> \<not> status_ok st \<and> \<not> healthy bp \<and> rollback_failed update_rollbacks st"
    unfolding db_changed_def by blast
  have "S = {}" if "rows_affected st1 = rows_affected stats"
    using that S(2) finite_subset[OF S(1) query_finite[OF assms(1,2)]] by simp
  then have "status_ok st \<or> S \<noteq> {} \<longrightarrow> update_target sch cn l i v" using r(2) by blast
  then show ?thesis using r(1) S by blast
qed

theorem update_counts_witness:
  "\<exists>c bp st1 b st. represents c bp example_db \<and>
    ExecuteUpdate c ''t'' ''a'' (SQLLiteral Kind_NUMBER ''7'') [] new_QueryStats bp = Some (st1, b, st) \<and>
    rows_affected st1 = rows_affected new_QueryStats \<and> represents c b example_db"
proof -
  obtain bp c where e: "represents c bp example_db" "healthy bp" "room 1000 bp" using example_database by blast
  note n = literal_seven
  have r: "room (rows_in example_db ''t'' * (3 * index_count c ''t'')) bp" by (rule room_mono[OF e(3)]) (simp add: rows_in_def)
  have q: "query_rids example_schema (\<lambda>_. None) [] = {}" by (simp add: query_rids_def)
  have s: "set_column i v {} R = R" for i v R by (simp add: set_column_def)
  from update_counts[OF e(1) _ _ n r, of example_schema "\<lambda>_. None" "[]" "''a''" new_QueryStats] e(2) q s obtain st1 b st where
    "ExecuteUpdate c ''t'' ''a'' (SQLLiteral Kind_NUMBER ''7'') [] new_QueryStats bp = Some (st1, b, st)"
    "rows_affected st1 = rows_affected new_QueryStats" "represents c b example_db" by fastforce
  then show ?thesis using e(1) by blast
qed

text \<open>
  C6. The same for DELETE: on any pool with room it returns, and the rows it counts, and no others, are gone; they are rows
  the conditions select. When no error is returned and the pool is without failures or the plan is a sequential scan, they
  are all the selected rows; an index scan on a pool with failures leaves the rows whose page it could not load and still
  returns no error. After an error the rows before the failing one stay deleted, and only a rollback that fails, which the
  message says and no pool without failures does, can leave a table out of step.
\<close>

theorem delete_counts:
  assumes "represents c bp D" "D name = Some (sch, R)" "list_all condition_ok qs" "room (rows_in D name * index_count c name) bp"
  shows "\<exists>st1 b st S. ExecuteDelete c name qs stats bp = Some (st1, b, st) \<and> S \<subseteq> query_rids sch R qs \<and>
    rows_affected st1 = rows_affected stats + card S \<and>
    (status_ok st \<longrightarrow> healthy bp \<or> scan_used c name qs = SEQUENTIAL \<longrightarrow> S = query_rids sch R qs) \<and>
    (represents c b (D(name \<mapsto> (sch, R |` (- S)))) \<or> \<not> status_ok st \<and> \<not> healthy bp \<and> rollback_failed delete_rollbacks st)"
proof -
  from delete_on_db[OF assms, of stats] obtain st1 b st where
    r: "ExecuteDelete c name qs stats bp = Some (st1, b, st)"
    "db_changed c name D sch R qs (\<lambda>S. R |` (- S)) delete_rollbacks stats bp st1 b st" by blast
  from r(2) obtain S where "S \<subseteq> query_rids sch R qs" "rows_affected st1 = rows_affected stats + card S"
    "status_ok st \<longrightarrow> healthy bp \<or> scan_used c name qs = SEQUENTIAL \<longrightarrow> S = query_rids sch R qs"
    "represents c b (D(name \<mapsto> (sch, R |` (- S)))) \<or> \<not> status_ok st \<and> \<not> healthy bp \<and> rollback_failed delete_rollbacks st"
    unfolding db_changed_def by blast
  then show ?thesis using r(1) by blast
qed

theorem delete_counts_witness:
  "\<exists>c bp st1 b st. represents c bp example_db \<and> ExecuteDelete c ''t'' [] new_QueryStats bp = Some (st1, b, st) \<and>
    rows_affected st1 = rows_affected new_QueryStats \<and> represents c b example_db"
proof -
  obtain bp c where e: "represents c bp example_db" "healthy bp" "room 1000 bp" using example_database by blast
  have r: "room (rows_in example_db ''t'' * index_count c ''t'') bp" by (rule room_mono[OF e(3)]) (simp add: rows_in_def)
  have q: "query_rids example_schema (\<lambda>_. None) [] = {}" by (simp add: query_rids_def)
  have s: "Map.empty |` A = Map.empty" for A by simp
  from delete_counts[OF e(1) _ _ r, of example_schema "\<lambda>_. None" "[]" new_QueryStats] e(2) q s obtain st1 b st where
    "ExecuteDelete c ''t'' [] new_QueryStats bp = Some (st1, b, st)"
    "rows_affected st1 = rows_affected new_QueryStats" "represents c b example_db" by fastforce
  then show ?thesis using e(1) by blast
qed

section \<open>CREATE INDEX\<close>

text \<open>
  C7. On a pool without pins and failures CREATE INDEX either adds exactly the index, which from then on is in step with
  the rows already in the table and all its other indexes as before, or refuses for a reason that holds: the name or the
  column has an index, there is no such table or column, a row has a string without an index key, or the catalog page is
  full. Refusing changes no table and no catalog entry.
\<close>

theorem create_index_exact:
  assumes "represents c bp D" "healthy bp" "room (Suc (rows_in D tname)) bp" "\<forall>b. set (fo b) \<subseteq> dom (page_table b)"
  shows "\<exists>b c' st. ExecuteCreateIndex fo iname tname cname c bp = Some (b, c', st) \<and> healthy b \<and> represents c' b D \<and>
    (if status_ok st then \<not> CM_HasIndex tname cname c \<and> (\<exists>hid. c' = entered (index_data iname tname cname hid) c)
     else c' = c \<and> index_refused iname tname cname c D)"
  using ExecuteCreateIndex_spec[OF assms, of iname cname] by blast

theorem create_index_exact_witness:
  "\<exists>c bp b st. represents c bp example_db \<and> ExecuteCreateIndex (\<lambda>_. []) ''j'' ''t'' ''a'' c bp = Some (b, c, st) \<and>
    \<not> status_ok st \<and> represents c b example_db"
proof -
  obtain bp c where e: "represents c bp example_db" "healthy bp" "room 1000 bp" "CM_HasIndex ''t'' ''a'' c" using example_database by blast
  have r: "room (Suc (rows_in example_db ''t'')) bp" by (rule room_mono[OF e(3)]) (simp add: rows_in_def)
  from create_index_exact[OF e(1,2) r, of "\<lambda>_. []" "''j''" "''a''"] e(4) obtain b st where
    "ExecuteCreateIndex (\<lambda>_. []) ''j'' ''t'' ''a'' c bp = Some (b, c, st)" "\<not> status_ok st" "represents c b example_db"
    by (auto split: if_splits)
  then show ?thesis using e(1) by blast
qed

end
