(* ===== verification/Spec2Isabelle.thy ===== *)
theory Spec2Isabelle
  imports Slotted_Page_Properties Record_Codec_Correct Index_Key Buffer_Pool_Properties Heap_File_Properties
    Hash_Index_Properties SQL_Literal Catalog_Properties Table_Properties Executor_Properties
begin

text \<open>
  MicroSGBD is a small relational database in C++. A statement of SQL is split into tokens and parsed;
  its literals are converted to typed field values; a row of values is encoded as a record; records live
  in the slotted pages of a heap file, and hash indexes map the values of a column to record
  identifiers; heap files and indexes reach their pages through a buffer pool, which keeps frames of one
  file of pages. This development models these layers from the file upwards, each against the layer
  below it as the code has it, and proves what each one promises to the layer above.

  \<^bold>\<open>Theories and code\<close> (all paths are under src/).

  \<^item> \<^verbatim>\<open>Prelude\<close>: bytes, buffers, little-endian integers (locale \<open>value_io\<close>), the loop with an early return.
  \<^item> \<^verbatim>\<open>Common\<close>: include/common/status.h, types.h, config.h, storage/page.h, storage/record.h, catalog/schema.h.
  \<^item> \<^verbatim>\<open>Record_Store\<close>, \<^verbatim>\<open>Key_Index\<close>: the contracts of a store of records and of an index of key/value pairs
    (locales); slotted pages and heap files are record stores, bucket pages and hash indexes are key
    indexes.
  \<^item> \<^verbatim>\<open>Slotted_Page\<close>, \<^verbatim>\<open>Slotted_Page_Correct\<close>, \<^verbatim>\<open>Slotted_Page_Properties\<close>: src/storage/slotted_page.cpp, on the
    4096 bytes of a page. The abstract page is a list of slots with an exact account of the free space.
  \<^item> \<^verbatim>\<open>Record_Codec\<close>, \<^verbatim>\<open>Record_Codec_Correct\<close>, \<^verbatim>\<open>Index_Key\<close>: src/storage/record_codec.cpp and
    src/index/index_key.cpp.
  \<^item> \<^verbatim>\<open>Clock_Replacer\<close>: src/buffer/clock_replacer.cpp and the interface of include/buffer/replacer.h.
  \<^item> \<^verbatim>\<open>Disk_Manager\<close>, \<^verbatim>\<open>Disk_Manager_Correct\<close>: src/storage/disk_manager.cpp. The file is a list of bytes; a
    schedule in the state says which transfers of the stream fail, or stop in the middle, and every
    theorem holds for every schedule unless it says otherwise.
  \<^item> \<^verbatim>\<open>Buffer_Pool\<close>, \<^verbatim>\<open>Buffer_Pool_Correct\<close>, \<^verbatim>\<open>Buffer_Pool_Properties\<close>: src/buffer/buffer_pool_manager.cpp. The
    abstract pool is the contents of the pages and the numbers of their pins. \<^verbatim>\<open>Pool_Health\<close> says when the
    pool refuses nothing, \<^verbatim>\<open>Pool_Bounded\<close> why walks along page links end, \<^verbatim>\<open>Page_Client\<close> what the users
    of the pool do with a page.
  \<^item> \<^verbatim>\<open>Heap_File\<close>, \<^verbatim>\<open>Heap_File_Correct\<close>, \<^verbatim>\<open>Heap_File_Insert\<close>, \<^verbatim>\<open>Heap_File_Scan\<close>, \<^verbatim>\<open>Heap_File_Properties\<close>:
    src/storage/heap_file.cpp, over the buffer pool. The abstract heap is a list of pages and a map from
    record identifiers to records.
  \<^item> \<^verbatim>\<open>Bucket_Page\<close>, \<^verbatim>\<open>Bucket_Page_Correct\<close>: src/index/bucket_page.cpp and src/index/hash_index_header_page.cpp.
  \<^item> \<^verbatim>\<open>Hash_Index\<close>, \<^verbatim>\<open>Hash_Index_Correct\<close>, \<^verbatim>\<open>Hash_Index_Insert\<close>, \<^verbatim>\<open>Hash_Index_Search\<close>,
    \<^verbatim>\<open>Hash_Index_Lifecycle\<close>, \<^verbatim>\<open>Hash_Index_Properties\<close>: src/index/hash_index.cpp, over the buffer pool. The abstract
    index is a set of pairs of a key and a record identifier.
  \<^item> \<^verbatim>\<open>SQL_Text\<close>, \<^verbatim>\<open>Tokenizer\<close>, \<^verbatim>\<open>Tokenizer_Correct\<close>: src/query/tokenizer.cpp and the functions of the C++
    library on characters and numbers that the front end calls.
  \<^item> \<^verbatim>\<open>Parser\<close>, \<^verbatim>\<open>Parser_Correct\<close>: src/query/parser.cpp, include/query/literal.h. The specification is the
    grammar: a function from statements to lists of tokens.
  \<^item> \<^verbatim>\<open>SQL_Literal\<close>: src/query/literal.cpp.
  \<^item> \<^verbatim>\<open>Catalog_Page\<close>, \<^verbatim>\<open>Catalog\<close>, \<^verbatim>\<open>Catalog_Page_Correct\<close>, \<^verbatim>\<open>Catalog_Correct\<close>, \<^verbatim>\<open>Catalog_Properties\<close>:
    src/catalog/catalog_manager.cpp: the bytes of page 0 and the operations. \<^verbatim>\<open>cat_wf\<close> is the invariant of
    a catalog, \<^verbatim>\<open>cat_image\<close> the page it is written as.
  \<^item> \<^verbatim>\<open>Page_Growth\<close>: how many pages of the file an operation of the pool, of a heap file or of an index may
    take, so that the page identifiers stay within 32 bits.
  \<^item> \<^verbatim>\<open>Table_Storage\<close>, \<^verbatim>\<open>Table_State\<close>, \<^verbatim>\<open>Table_Entries\<close>, \<^verbatim>\<open>Table_Correct\<close>, \<^verbatim>\<open>Table_Properties\<close>:
    src/storage/table_storage.cpp: the operations, a heap file and several indexes side by side in one
    pool, the loops over the indexes with their rollbacks, the operations against a map from record
    identifiers to rows.

  \<^item> \<^verbatim>\<open>Query_Operators\<close>: src/query/operators and include/metrics/query_stats.h. \<^verbatim>\<open>Plan_Growth\<close> and
    \<^verbatim>\<open>Query_Correct\<close> are about single calls (locale \<open>row_scan\<close>: what a scan delivers when it is called until it
    ends), \<^verbatim>\<open>Query_Conditions\<close> about rows, values and filters, \<^verbatim>\<open>Query_Plans\<close> about the plan of a statement.
  \<^item> \<^verbatim>\<open>Executor\<close>: src/query/executor.cpp, include/query/executor.h, include/query/query_result.h. \<^verbatim>\<open>Select_Correct\<close>
    is about SELECT, \<^verbatim>\<open>Change_Correct\<close> about INSERT, UPDATE and DELETE (locale \<open>row_loop\<close>: the loop over the rows
    found), \<^verbatim>\<open>Create_Table_Correct\<close> and \<^verbatim>\<open>Create_Index_Correct\<close> about the other two. \<^verbatim>\<open>Database_State\<close>: the
    abstract database maps the names of the tables to a schema and a map from record identifiers to rows;
    \<open>represents\<close> relates it to the catalog and the pool: every table on pages of its own, in step with its
    indexes. \<^verbatim>\<open>Statement_Correct\<close> says what each statement does to it, \<^verbatim>\<open>Executor_Properties\<close> has the
    properties.

  \<^bold>\<open>State and effects.\<close> An operation takes the state of its component and returns it changed; a status that
  is not OK is the left side of a sum, or is returned beside the state where the operation has changed
  something before it failed. A page in a frame is the record \<open>page\<close> of \<^verbatim>\<open>Common\<close>; the pool is a record with
  its frames, page table, free list, replacer and disk; clients thread the pool. Null checks of pure
  output pointers have no counterpart; null pointers that are part of the behaviour are \<open>None\<close>.

  \<^bold>\<open>What is shown.\<close> Layer by layer: the bytes of a page implement the list of its slots under every sequence
  of operations (a simulation with exact space accounting); what the codec writes it reads back, it writes
  exactly the rows that fit, and from arbitrary bytes it reads the row they denote or refuses them; the
  clock follows the second-chance rule; a reopened file has the pages it had; the buffer pool implements
  the map from pages to contents under every operation on pages in use and every failure of the disk (that
  a fetch of a free page breaks it, which no check of the code excludes, is shown too), a pinned page
  stays, a page reads as last written; a heap file
  is a record store whose insertion is atomic, whatever step of appending and linking a page fails; the
  scan calls enumerate its records once each; a hash index is a set of pairs under insertion, lookup,
  removal and reopening, and destroying it frees exactly its pages; the tokenizer and the parser read
  back every well-formed statement, and a text is accepted if and only if it is the text of one; a literal is converted exactly when it
  denotes a value of the column's type; the catalog written to page 0 is the catalog read from it, and
  a catalog that loads is well-formed whatever the bytes; an operation on a table changes the heap file
  and all its indexes together or not at all, any sequence of them is a sequence of operations on a map
  from record identifiers to rows, and the lookup in an index agrees with the rows. On top of all this a
  statement of SQL, executed by the executor, changes the abstract database as it says or reports an error;
  SELECT answers exactly the rows that satisfy its conditions, by whatever plan.

  \<^bold>\<open>Termination and bounds.\<close> Loops over counters and lists are structural or have a measure. The walks along
  page links (\<open>HF_InsertLoop\<close>, \<open>HF_ContainsLoop\<close>, \<open>HF_FindLoop\<close>, \<open>HI_InsertLoop\<close>, \<open>HI_GetLoop\<close>, \<open>HI_RemoveLoop\<close>,
  \<open>DestroyChain\<close>) are partial functions, where \<open>None\<close> is a walk that never returns; the code remembers the
  pages it has visited, pages that can be fetched have identifiers below the number of pages of the file,
  and so every walk returns, whatever bytes the pages hold (\<open>heap_walks_return\<close>, \<open>hash_walks_return\<close>). No fuel
  is used. Unsigned 16-bit fields are natural numbers with their casts written out; page identifiers are
  integers that go through their 32-bit image where the code stores them; files of \<open>2 ^ 31\<close> pages or more
  are outside the model, as \<^verbatim>\<open>PageId\<close> is a signed 32-bit integer in the code. The operations on tables
  start from a pool that has \<open>room n\<close>: the identifiers of \<open>n\<close> further pages still fit.

  \<^bold>\<open>Not modelled.\<close> The console (src/main.cpp) is input and output around the executor. The execution time in the
  statistics is a reading of the clock. The order in which \<^verbatim>\<open>FlushAllPages\<close> meets the resident pages, which is that
  of a hash table, is an argument. Allocation failures of the C++ heap are not represented.
\<close>

end
